(* ===== verification/Prelude.thy ===== *)
theory Prelude
  imports Main "HOL-Library.Multiset" "HOL-Library.Monad_Syntax"
begin

text \<open>
  What the components of the development share: addresses, the width of the C integers the
  sources use (written out as residues of natural numbers), the collections of rewrite rules that
  carry the component proofs, and the generic facts about lists, multisets and options.

  A C operation that can go wrong (a read of unallocated memory, an index outside an array, a
  loop that never ends) is an \<open>option\<close>: \<open>None\<close> is the undefined behaviour or the missing
  return, so a theorem that an operation gives \<open>Some\<close> is at once its memory safety and its
  termination.
\<close>

section \<open>Collections\<close>

named_theorems mem_simps \<open>reads and writes of the explicit store\<close>
named_theorems frame_simps \<open>what an operation leaves unchanged\<close>
named_theorems wrap_simps \<open>arithmetic of the fixed-width integers\<close>

section \<open>Addresses and machine integers\<close>

type_synonym addr = nat

abbreviation (input) NULL :: addr where
  "NULL \<equiv> 0"

text \<open>\<open>uint32_t\<close> and \<open>unsigned\<close> are naturals below \<open>2 ^ 32\<close>; the wrap-around of each
  operation is written out.\<close>

type_synonym uint32 = nat

abbreviation (input) UINT32_MOD :: nat where
  "UINT32_MOD \<equiv> 4294967296"

definition u32 :: "nat \<Rightarrow> uint32" where
  "u32 x = x mod UINT32_MOD"

definition u32_add :: "uint32 \<Rightarrow> uint32 \<Rightarrow> uint32" where
  "u32_add x y = (x + y) mod UINT32_MOD"

definition u32_sub :: "uint32 \<Rightarrow> uint32 \<Rightarrow> uint32" where
  "u32_sub x y = (x + (UINT32_MOD - y mod UINT32_MOD)) mod UINT32_MOD"

text \<open>The value \<open>-1\<close> has in an unsigned 32-bit variable.\<close>

definition u32_minus1 :: uint32 where
  "u32_minus1 = UINT32_MOD - 1"

text \<open>The value of an unsigned 32-bit pattern read as an \<open>int\<close> (two's complement).\<close>

definition s32 :: "uint32 \<Rightarrow> int" where
  "s32 x = (if x mod UINT32_MOD < 2147483648 then int (x mod UINT32_MOD)
            else int (x mod UINT32_MOD) - 4294967296)"

lemma u32_lt [simp]: "u32 x < UINT32_MOD"
  by (simp add: u32_def)

lemma u32_id [wrap_simps]: "x < UINT32_MOD \<Longrightarrow> u32 x = x"
  by (simp add: u32_def)

lemma u32_add_lt [simp]: "u32_add x y < UINT32_MOD"
  by (simp add: u32_add_def)

lemma u32_sub_lt [simp]: "u32_sub x y < UINT32_MOD"
  by (simp add: u32_sub_def)

lemma u32_add_id [wrap_simps]: "x + y < UINT32_MOD \<Longrightarrow> u32_add x y = x + y"
  by (simp add: u32_add_def)

lemma u32_sub_id [wrap_simps]:
  assumes "y \<le> x" and "x < UINT32_MOD"
  shows "u32_sub x y = x - y"
proof -
  from assms have "x + (UINT32_MOD - y mod UINT32_MOD) = (x - y) + UINT32_MOD" by simp
  then have "u32_sub x y = ((x - y) + UINT32_MOD) mod UINT32_MOD"
    by (simp only: u32_sub_def)
  also have "\<dots> = (x - y) mod UINT32_MOD" by (rule mod_add_self2)
  also have "\<dots> = x - y" using assms by simp
  finally show ?thesis .
qed

lemma u32_sub_self [simp]: "u32_sub x x = 0"
proof -
  have "(x + (UINT32_MOD - x mod UINT32_MOD)) mod UINT32_MOD =
      (x mod UINT32_MOD + (UINT32_MOD - x mod UINT32_MOD)) mod UINT32_MOD"
    by (simp only: mod_add_left_eq)
  also have "x mod UINT32_MOD + (UINT32_MOD - x mod UINT32_MOD) = UINT32_MOD"
    using mod_less_divisor [of UINT32_MOD x] by linarith
  finally show ?thesis by (simp add: u32_sub_def)
qed

section \<open>Lists and multisets\<close>

lemma mset_update_swap:
  assumes "i < length xs" and "j < length xs"
  shows "mset (xs[i := xs ! j, j := xs ! i]) = mset xs"
  using mset_swap [OF assms(2,1)] by simp

lemma set_swap_eq:
  assumes "i < length xs" and "j < length xs"
  shows "set (xs[i := xs ! j, j := xs ! i]) = set xs"
  using mset_update_swap [OF assms] by (metis set_mset_mset)

lemma take_update_cancel: "n \<le> i \<Longrightarrow> take n (xs[i := x]) = take n xs"
  by (simp add: take_update_swap list_update_beyond)

lemma mset_replace:
  assumes "i < length xs"
  shows "mset (xs[i := x]) = add_mset x (mset xs - {#xs ! i#})"
  using assms by (rule mset_update)

lemma distinct_minus_notin: "distinct xs \<Longrightarrow> x \<notin># mset xs - {#x#}"
  by (metis mset_remove1 set_mset_mset set_remove1_eq Diff_iff singletonI)

lemma bind_Some_iff [mem_simps]:
  "Option.bind m f = Some y \<longleftrightarrow> (\<exists>x. m = Some x \<and> f x = Some y)"
  by (cases m) auto

end
