(* ===== verification/Heap_Order.thy ===== *)
theory Heap_Order
  imports Prelude
begin

text \<open>
  The order of an array-shaped binary heap, independent of where the keys are kept: a list of
  elements, a key for each, and the two weakened orders that hold while one element (the hole of
  the loops of \<^verbatim>\<open>minheap.c\<close>) is still moving up or down. The min-heap's loops are proved against
  these facts.
\<close>

definition par :: "nat \<Rightarrow> nat" where
  "par j = (j - 1) div 2"

definition swap_at :: "'a list \<Rightarrow> nat \<Rightarrow> nat \<Rightarrow> 'a list" where
  "swap_at F i j = F[i := F ! j, j := F ! i]"

definition heap_on :: "('a \<Rightarrow> nat) \<Rightarrow> 'a list \<Rightarrow> bool" where
  "heap_on k F \<longleftrightarrow> (\<forall>j<length F. 0 < j \<longrightarrow> k (F ! par j) \<le> k (F ! j))"

text \<open>Around the hole \<open>h\<close> the grandparent still bounds the children.\<close>

definition bridged :: "('a \<Rightarrow> nat) \<Rightarrow> nat \<Rightarrow> 'a list \<Rightarrow> bool" where
  "bridged k h F \<longleftrightarrow>
     (\<forall>j<length F. 0 < j \<longrightarrow> par j = h \<longrightarrow> 0 < h \<longrightarrow> k (F ! par h) \<le> k (F ! j))"

definition heap_up :: "('a \<Rightarrow> nat) \<Rightarrow> nat \<Rightarrow> 'a list \<Rightarrow> bool" where
  "heap_up k h F \<longleftrightarrow> bridged k h F \<and>
     (\<forall>j<length F. 0 < j \<longrightarrow> j \<noteq> h \<longrightarrow> k (F ! par j) \<le> k (F ! j))"

definition heap_down :: "('a \<Rightarrow> nat) \<Rightarrow> nat \<Rightarrow> 'a list \<Rightarrow> bool" where
  "heap_down k h F \<longleftrightarrow> bridged k h F \<and>
     (\<forall>j<length F. 0 < j \<longrightarrow> par j \<noteq> h \<longrightarrow> k (F ! par j) \<le> k (F ! j))"

lemma par_lt: "0 < j \<Longrightarrow> par j < j"
  by (auto simp: par_def)

lemma par_le: "par j \<le> j"
  by (auto simp: par_def)

lemma par_iff: "0 < j \<Longrightarrow> par j = h \<longleftrightarrow> j = 2 * h + 1 \<or> j = 2 * h + 2"
  unfolding par_def by arith

lemma par_children [simp]: "par (2 * h + 1) = h" "par (Suc (2 * h)) = h" "par (2 * h + 2) = h"
  "par (Suc (Suc (2 * h))) = h"
  by (simp_all add: par_def)

lemma length_swap_at [simp]: "length (swap_at F i j) = length F"
  by (simp add: swap_at_def)

lemma nth_swap_at:
  "i < length F \<Longrightarrow> j < length F \<Longrightarrow> x < length F \<Longrightarrow>
   swap_at F i j ! x = (if x = i then F ! j else if x = j then F ! i else F ! x)"
  by (auto simp: swap_at_def nth_list_update)

lemma mset_swap_at: "i < length F \<Longrightarrow> j < length F \<Longrightarrow> mset (swap_at F i j) = mset F"
  by (simp add: swap_at_def mset_update_swap)

lemma swap_at_fill:
  assumes "h < length F" and "i < length F" and "h \<noteq> i"
  shows "(F[h := F ! i])[i := e] = swap_at (F[h := e]) h i"
  using assms by (auto simp: swap_at_def list_eq_iff_nth_eq nth_list_update)

lemma heap_up_done:
  assumes "heap_up k h F" and "h = 0 \<or> k (F ! par h) \<le> k (F ! h)"
  shows "heap_on k F"
proof -
  have "k (F ! par j) \<le> k (F ! j)" if "j < length F" "0 < j" for j
    using assms that by (cases "j = h") (auto simp: heap_up_def)
  then show ?thesis by (simp add: heap_on_def)
qed

lemma heap_on_up: "heap_on k F \<Longrightarrow> heap_up k h F"
  unfolding heap_up_def bridged_def heap_on_def
  by (metis le_trans less_trans par_lt)

lemma heap_up_step:
  assumes up: "heap_up k h F" and h: "0 < h" "h < length F" and lt: "k (F ! h) < k (F ! par h)"
  shows "heap_up k (par h) (swap_at F h (par h))"
proof -
  let ?p = "par h" and ?F = "swap_at F h (par h)"
  have p: "?p < h" "?p < length F" using par_lt [OF h(1)] h(2) by auto
  have at: "x < length F \<Longrightarrow> ?F ! x = (if x = h then F ! ?p else if x = ?p then F ! h else F ! x)"
    for x using h(2) p(2) by (simp add: nth_swap_at)
  from up have ord: "\<And>j. j < length F \<Longrightarrow> 0 < j \<Longrightarrow> j \<noteq> h \<Longrightarrow> k (F ! par j) \<le> k (F ! j)"
    and br: "\<And>j. j < length F \<Longrightarrow> 0 < j \<Longrightarrow> par j = h \<Longrightarrow> k (F ! ?p) \<le> k (F ! j)"
    using h(1) by (auto simp: heap_up_def bridged_def)
  have "k (?F ! par j) \<le> k (?F ! j)" if j: "j < length F" "0 < j" "j \<noteq> ?p" for j
  proof -
    have pj: "par j < j" "par j < length F" using par_lt [OF j(2)] j(1) by auto
    consider "j = h" | "j \<noteq> h" "par j = h" | "j \<noteq> h" "par j = ?p" | "par j \<noteq> h" "par j \<noteq> ?p" "j \<noteq> h"
      by blast
    then show ?thesis
    proof cases
      case 1 then show ?thesis using at [of h] at [of ?p] p h lt by auto
    next
      case 2 then show ?thesis using at [OF j(1)] at [OF h(2)] br [OF j(1,2)] j(3) by auto
    next
      case 3 then show ?thesis
        using at [OF j(1)] at [OF p(2)] ord [OF j(1,2)] lt j(3) p(1) by auto
    next
      case 4 then show ?thesis using at [OF j(1)] at [OF pj(2)] ord [OF j(1,2)] j(3) by auto
    qed
  qed
  moreover have "k (?F ! par ?p) \<le> k (?F ! j)"
    if j: "j < length F" "0 < j" "par j = ?p" "0 < ?p" for j
  proof -
    have pp: "par ?p < ?p" "par ?p < length F" using par_lt [OF j(4)] p by auto
    have g: "k (F ! par ?p) \<le> k (F ! ?p)" using ord [OF p(2) j(4)] p(1) by simp
    have "par j < j" using par_lt [OF j(2)] .
    then show ?thesis
      using at [OF j(1)] at [OF pp(2)] pp p g ord [OF j(1,2)] j by (cases "j = h") auto
  qed
  ultimately show ?thesis by (auto simp: heap_up_def bridged_def)
qed

lemma heap_down_done:
  assumes "heap_down k h F" and "\<And>j. j < length F \<Longrightarrow> 0 < j \<Longrightarrow> par j = h \<Longrightarrow> k (F ! h) \<le> k (F ! j)"
  shows "heap_on k F"
  using assms unfolding heap_down_def heap_on_def by metis

lemma heap_on_down: "heap_on k F \<Longrightarrow> heap_down k h F"
  unfolding heap_down_def bridged_def heap_on_def
  by (metis le_trans less_trans par_lt)

lemma heap_down_step:
  assumes dn: "heap_down k h F" and c: "0 < c" "c < length F" "par c = h"
    and lt: "k (F ! c) < k (F ! h)"
    and mn: "\<And>j. j < length F \<Longrightarrow> 0 < j \<Longrightarrow> par j = h \<Longrightarrow> k (F ! c) \<le> k (F ! j)"
  shows "heap_down k c (swap_at F h c)"
proof -
  let ?F = "swap_at F h c"
  have h: "h < c" "h < length F" using par_lt [OF c(1)] c(2,3) by auto
  have at: "x < length F \<Longrightarrow> ?F ! x = (if x = h then F ! c else if x = c then F ! h else F ! x)"
    for x using h c by (simp add: nth_swap_at)
  from dn have ord: "\<And>j. j < length F \<Longrightarrow> 0 < j \<Longrightarrow> par j \<noteq> h \<Longrightarrow> k (F ! par j) \<le> k (F ! j)"
    and br: "\<And>j. j < length F \<Longrightarrow> 0 < j \<Longrightarrow> par j = h \<Longrightarrow> 0 < h \<Longrightarrow> k (F ! par h) \<le> k (F ! j)"
    by (auto simp: heap_down_def bridged_def)
  have "k (?F ! par j) \<le> k (?F ! j)" if j: "j < length F" "0 < j" "par j \<noteq> c" for j
  proof -
    have pj: "par j < j" "par j < length F" using par_lt [OF j(2)] j(1) by auto
    consider "j = h" | "j = c" | "j \<noteq> c" "par j = h" | "j \<noteq> h" "j \<noteq> c" "par j \<noteq> h" by blast
    then show ?thesis
    proof cases
      case 1
      then have "par j \<noteq> h" using pj by auto
      then show ?thesis using at [OF j(1)] at [OF pj(2)] br [OF c(2,1,3)] 1 j h by auto
    next
      case 2 then show ?thesis using at [OF c(2)] at [OF h(2)] lt c h by auto
    next
      case 3 then show ?thesis using at [OF j(1)] at [OF h(2)] mn [OF j(1,2)] pj h by auto
    next
      case 4 then show ?thesis using at [OF j(1)] at [OF pj(2)] ord [OF j(1,2)] j(3) by auto
    qed
  qed
  moreover have "k (?F ! par c) \<le> k (?F ! j)" if j: "j < length F" "0 < j" "par j = c" for j
  proof -
    have "c < j" using par_lt [OF j(2)] j(3) by simp
    then show ?thesis using at [OF j(1)] at [OF h(2)] ord [OF j(1,2)] j c h by auto
  qed
  ultimately show ?thesis by (auto simp: heap_down_def bridged_def)
qed

text \<open>The first element of a heap is a least one.\<close>

lemma heap_on_first:
  assumes "heap_on k F" and "j < length F"
  shows "k (F ! 0) \<le> k (F ! j)"
  using assms(2)
proof (induction j rule: less_induct)
  case (less j)
  show ?case
  proof (cases "j = 0")
    case False
    then have "k (F ! 0) \<le> k (F ! par j)" using less par_lt [of j] by auto
    also have "\<dots> \<le> k (F ! j)" using assms(1) less.prems False by (auto simp: heap_on_def)
    finally show ?thesis .
  qed simp
qed

lemma heap_on_hd_Min:
  assumes "heap_on k F" and "x \<in> set F"
  shows "k (F ! 0) \<le> k x"
  using assms heap_on_first [OF assms(1)] by (auto simp: in_set_conv_nth)

text \<open>Dropping the last element keeps the order; so does adding one at the end, up to the hole.\<close>

lemma heap_on_take:
  assumes "heap_on k F"
  shows "heap_on k (take n F)"
proof -
  have "k (take n F ! par j) \<le> k (take n F ! j)" if "j < length (take n F)" "0 < j" for j
    using assms that par_lt [OF that(2)] by (simp add: heap_on_def)
  then show ?thesis by (simp add: heap_on_def)
qed

lemma heap_up_append:
  assumes "heap_on k F"
  shows "heap_up k (length F) (F @ [e])"
proof -
  let ?F = "F @ [e]"
  have "k (?F ! par j) \<le> k (?F ! j)" if "j < length F" "0 < j" for j
    using assms that par_lt [OF that(2)] by (simp add: heap_on_def nth_append)
  moreover have "par j \<noteq> length F" if "j < length ?F" "0 < j" for j
    using that par_lt [OF that(2)] by simp
  ultimately show ?thesis by (auto simp: heap_up_def bridged_def)
qed

text \<open>Replacing the element at \<open>h\<close> leaves a heap with a hole that has to move one way only.\<close>

lemma heap_up_replace:
  assumes "heap_on k F" and "h < length F" and "0 < h" and "k e \<le> k (F ! par h)"
  shows "heap_up k h (F[h := e])"
proof -
  have g: "k (F ! par h) \<le> k (F ! h)" using assms by (auto simp: heap_on_def)
  show ?thesis
    using assms g unfolding heap_on_def heap_up_def bridged_def
    by (auto simp: nth_list_update dest: par_lt less_trans [OF par_lt])
      (metis le_trans less_irrefl par_lt)+
qed

lemma heap_down_replace:
  assumes "heap_on k F" and "h < length F" and "h = 0 \<or> k (F ! par h) \<le> k e"
  shows "heap_down k h (F[h := e])"
proof -
  have "k (F[h := e] ! par j) \<le> k (F[h := e] ! j)"
    if "j < length F" "0 < j" "par j \<noteq> h" for j
    using that assms by (cases "j = h") (auto simp: heap_on_def)
  moreover have "k (F[h := e] ! par h) \<le> k (F[h := e] ! j)"
    if j: "j < length F" "0 < j" "par j = h" "0 < h" for j
  proof -
    have "k (F ! par h) \<le> k (F ! h)" "k (F ! h) \<le> k (F ! j)"
      using assms(1,2) j by (auto simp: heap_on_def)
    moreover have "h < j" "par h < h" using par_lt [OF j(2)] par_lt [OF j(4)] j(3) by auto
    ultimately show ?thesis by simp
  qed
  ultimately show ?thesis by (auto simp: heap_down_def bridged_def)
qed

end
