(* ===== verification/MinHeap.thy ===== *)
theory MinHeap
  imports Heap_Order
begin

text \<open>
  The binary min-heap of \<^verbatim>\<open>minheap.h\<close> and \<^verbatim>\<open>minheap.c\<close>. The state holds the fields of
  \<^verbatim>\<open>min_heap_t\<close> (the array \<open>p\<close> with its storage, the element count \<open>n\<close>, the capacity \<open>a\<close>) and
  the store of the \<^verbatim>\<open>timer_entry_t\<close> objects the array points to: an address the store does not
  map is not allocated. Array reads and writes check the storage, entry reads check the store, so
  \<open>None\<close> is undefined behaviour or a loop that does not end.
\<close>

section \<open>State\<close>

record timer_entry =
  te_time :: uint32
  min_heap_idx :: uint32
  te_handler :: nat
  te_privdata :: addr

record min_heap =
  p_arr :: "addr list"
  n_elems :: uint32
  a_cap :: uint32
  mem :: "addr \<rightharpoonup> timer_entry"

section \<open>Reads and writes\<close>

text \<open>\<open>s->p[i]\<close>, \<open>(s->p[i] = e)->min_heap_idx = i\<close> and \<open>min_heap_elem_greater\<close>.\<close>

definition rd_p :: "min_heap \<Rightarrow> nat \<Rightarrow> addr option" where
  "rd_p s i = (if i < length (p_arr s) then Some (p_arr s ! i) else None)"

definition set_idx :: "min_heap \<Rightarrow> addr \<Rightarrow> uint32 \<Rightarrow> min_heap option" where
  "set_idx s e i = (case mem s e of
      None \<Rightarrow> None
    | Some te \<Rightarrow> Some (s\<lparr>mem := (mem s)(e \<mapsto> te\<lparr>min_heap_idx := i\<rparr>)\<rparr>))"

definition place :: "min_heap \<Rightarrow> nat \<Rightarrow> addr \<Rightarrow> min_heap option" where
  "place s i e = (if i < length (p_arr s)
     then set_idx (s\<lparr>p_arr := (p_arr s)[i := e]\<rparr>) e i else None)"

definition min_heap_elem_greater :: "min_heap \<Rightarrow> addr \<Rightarrow> addr \<Rightarrow> bool option" where
  "min_heap_elem_greater s x y =
     do { tx \<leftarrow> mem s x; ty \<leftarrow> mem s y; Some (te_time tx > te_time ty) }"

text \<open>\<open>(hole_index - 1) / 2\<close> in unsigned arithmetic.\<close>

definition parent :: "uint32 \<Rightarrow> uint32" where
  "parent i = u32_sub i 1 div 2"

section \<open>Constructors and observers\<close>

definition min_heap_ctor :: "min_heap \<Rightarrow> min_heap" where
  "min_heap_ctor s = s\<lparr>p_arr := [], n_elems := 0, a_cap := 0\<rparr>"

definition min_heap_dtor :: "min_heap \<Rightarrow> min_heap" where
  "min_heap_dtor s = s\<lparr>p_arr := []\<rparr>"

definition min_heap_elem_init :: "min_heap \<Rightarrow> addr \<Rightarrow> min_heap option" where
  "min_heap_elem_init s e = set_idx s e u32_minus1"

definition min_heap_elt_is_top :: "min_heap \<Rightarrow> addr \<Rightarrow> bool option" where
  "min_heap_elt_is_top s e = do { te \<leftarrow> mem s e; Some (min_heap_idx te = 0) }"

definition min_heap_empty :: "min_heap \<Rightarrow> bool" where
  "min_heap_empty s \<longleftrightarrow> 0 = n_elems s"

definition min_heap_size :: "min_heap \<Rightarrow> nat" where
  "min_heap_size s = n_elems s"

definition min_heap_top :: "min_heap \<Rightarrow> addr option" where
  "min_heap_top s = (if n_elems s \<noteq> 0 then rd_p s 0 else Some NULL)"

section \<open>Moving the hole\<close>

lemma parent_bound: "parent i < 2147483648"
  unfolding parent_def by (rule less_mult_imp_div_less) (use u32_sub_lt [of i 1] in simp)

lemma parent_eq: "0 < i \<Longrightarrow> i < UINT32_MOD \<Longrightarrow> parent i = (i - 1) div 2"
  by (simp add: parent_def u32_sub_id)

lemma parent_lt: "0 < i \<Longrightarrow> parent i < i"
  using parent_bound [of i] parent_eq [of i] by (cases "i < UINT32_MOD") auto

function min_heap_shift_up :: "min_heap \<Rightarrow> uint32 \<Rightarrow> addr \<Rightarrow> min_heap option" where
  "min_heap_shift_up s hole_index e =
     (if hole_index \<noteq> 0 then
        do { pe \<leftarrow> rd_p s (parent hole_index);
             g \<leftarrow> min_heap_elem_greater s pe e;
             if g then
               do { s \<leftarrow> place s hole_index pe;
                    min_heap_shift_up s (parent hole_index) e }
             else place s hole_index e }
      else place s hole_index e)"
  by pat_completeness auto
termination
  by (relation "measure (\<lambda>(s, h, e). h)") (auto simp: parent_lt)

text \<open>The do-while variant: it moves the parent down before it compares.\<close>

function min_heap_shift_up_unconditional ::
  "min_heap \<Rightarrow> uint32 \<Rightarrow> addr \<Rightarrow> min_heap option" where
  "min_heap_shift_up_unconditional s hole_index e =
     do { pe \<leftarrow> rd_p s (parent hole_index);
          s \<leftarrow> place s hole_index pe;
          let hole_index' = parent hole_index in
          if hole_index' \<noteq> 0 then
            do { pe' \<leftarrow> rd_p s (parent hole_index');
                 g \<leftarrow> min_heap_elem_greater s pe' e;
                 if g then min_heap_shift_up_unconditional s hole_index' e
                 else place s hole_index' e }
          else place s hole_index' e }"
  by pat_completeness auto
termination
  by (relation "measure (\<lambda>(s, h, e). if h = 0 then UINT32_MOD else h)")
    (auto simp: parent_lt intro: less_trans [OF parent_bound])

partial_function (option) min_heap_shift_down ::
  "min_heap \<Rightarrow> uint32 \<Rightarrow> addr \<Rightarrow> min_heap option" where
  "min_heap_shift_down s hole_index e =
     (let min_child = u32 (2 * u32_add hole_index 1) in
      if min_child \<le> n_elems s then
        do { dec \<leftarrow> (if min_child = n_elems s then Some True
                    else do { x \<leftarrow> rd_p s min_child;
                              y \<leftarrow> rd_p s (u32_sub min_child 1);
                              min_heap_elem_greater s x y });
             let c = (if dec then u32_sub min_child 1 else min_child);
             ce \<leftarrow> rd_p s c;
             g \<leftarrow> min_heap_elem_greater s e ce;
             if \<not> g then place s hole_index e
             else do { s \<leftarrow> place s hole_index ce;
                       min_heap_shift_down s c e } }
      else place s hole_index e)"

section \<open>The operations\<close>

text \<open>
  \<open>realloc\<close> is the result of the library call: \<open>None\<close> is a null return, \<open>Some junk\<close> a grown
  block whose new cells hold \<open>junk\<close> (indeterminate values).
\<close>

definition min_heap_reserve ::
  "(nat \<Rightarrow> addr) option \<Rightarrow> min_heap \<Rightarrow> uint32 \<Rightarrow> int \<times> min_heap" where
  "min_heap_reserve realloc s n =
     (if a_cap s < n then
        let a = (if a_cap s \<noteq> 0 then u32 (a_cap s * 2) else 8);
            a' = (if a < n then n else a) in
        case realloc of
          None \<Rightarrow> (-1, s)
        | Some junk \<Rightarrow> (0, s\<lparr>p_arr := take a' (p_arr s) @ map junk [length (p_arr s)..<a'],
                             a_cap := a'\<rparr>)
      else (0, s))"

definition min_heap_push ::
  "(nat \<Rightarrow> addr) option \<Rightarrow> min_heap \<Rightarrow> addr \<Rightarrow> (int \<times> min_heap) option" where
  "min_heap_push realloc s e =
     (let (rc, s1) = min_heap_reserve realloc s (u32_add (n_elems s) 1) in
      if rc \<noteq> 0 then Some (-1, s1)
      else do { s2 \<leftarrow> min_heap_shift_up (s1\<lparr>n_elems := u32_add (n_elems s1) 1\<rparr>) (n_elems s1) e;
                Some (0, s2) })"

definition min_heap_pop :: "min_heap \<Rightarrow> (addr \<times> min_heap) option" where
  "min_heap_pop s =
     (if n_elems s \<noteq> 0 then
        do { e \<leftarrow> rd_p s 0;
             let s1 = s\<lparr>n_elems := u32_sub (n_elems s) 1\<rparr>;
             last \<leftarrow> rd_p s1 (n_elems s1);
             s2 \<leftarrow> min_heap_shift_down s1 0 last;
             s3 \<leftarrow> set_idx s2 e u32_minus1;
             Some (e, s3) }
      else Some (NULL, s))"

definition min_heap_erase :: "min_heap \<Rightarrow> addr \<Rightarrow> (int \<times> min_heap) option" where
  "min_heap_erase s e =
     do { te \<leftarrow> mem s e;
          if u32_minus1 \<noteq> min_heap_idx te then
            do { let s1 = s\<lparr>n_elems := u32_sub (n_elems s) 1\<rparr>;
                 last \<leftarrow> rd_p s1 (n_elems s1);
                 let i = min_heap_idx te;
                 up \<leftarrow> (if i > 0 then do { pe \<leftarrow> rd_p s1 (parent i); min_heap_elem_greater s1 pe last }
                        else Some False);
                 s2 \<leftarrow> (if up then min_heap_shift_up_unconditional s1 i last
                        else min_heap_shift_down s1 i last);
                 s3 \<leftarrow> set_idx s2 e u32_minus1;
                 Some (0, s3) }
          else Some (-1, s) }"

definition min_heap_adjust ::
  "(nat \<Rightarrow> addr) option \<Rightarrow> min_heap \<Rightarrow> addr \<Rightarrow> (int \<times> min_heap) option" where
  "min_heap_adjust realloc s e =
     do { te \<leftarrow> mem s e;
          if u32_minus1 = min_heap_idx te then min_heap_push realloc s e
          else
            do { let i = min_heap_idx te;
                 up \<leftarrow> (if i > 0 then do { pe \<leftarrow> rd_p s (parent i); min_heap_elem_greater s pe e }
                        else Some False);
                 s2 \<leftarrow> (if up then min_heap_shift_up_unconditional s i e
                        else min_heap_shift_down s i e);
                 Some (0, s2) } }"

section \<open>Well-formed heaps\<close>

text \<open>The live elements, their keys, and the invariant every operation keeps.\<close>

definition elems :: "min_heap \<Rightarrow> addr list" where
  "elems s = take (n_elems s) (p_arr s)"

definition key :: "min_heap \<Rightarrow> addr \<Rightarrow> uint32" where
  "key s x = te_time (the (mem s x))"

definition idx_at :: "min_heap \<Rightarrow> nat \<Rightarrow> addr \<Rightarrow> bool" where
  "idx_at s i x \<longleftrightarrow> (\<exists>te. mem s x = Some te \<and> min_heap_idx te = i)"

definition min_heap_wf :: "min_heap \<Rightarrow> bool" where
  "min_heap_wf s \<longleftrightarrow>
     length (p_arr s) = a_cap s \<and> n_elems s \<le> a_cap s \<and> n_elems s < 2147483648 \<and>
     distinct (elems s) \<and> NULL \<notin> set (elems s) \<and>
     (\<forall>i<n_elems s. idx_at s i (elems s ! i)) \<and> heap_on (key s) (elems s)"

text \<open>What the loops do not touch: every field but \<open>min_heap_idx\<close>, and that one outside \<open>X\<close>.\<close>

definition idx_frame :: "addr set \<Rightarrow> min_heap \<Rightarrow> min_heap \<Rightarrow> bool" where
  "idx_frame X s s' \<longleftrightarrow>
     n_elems s' = n_elems s \<and> a_cap s' = a_cap s \<and> length (p_arr s') = length (p_arr s) \<and>
     (\<forall>x. x \<notin> X \<longrightarrow> mem s' x = mem s x) \<and>
     (\<forall>x. \<exists>i. mem s' x = map_option (\<lambda>te. te\<lparr>min_heap_idx := i\<rparr>) (mem s x))"

lemma idx_frame_refl [simp]: "idx_frame X s s"
proof -
  have "\<exists>i. mem s x = map_option (\<lambda>te. te\<lparr>min_heap_idx := i\<rparr>) (mem s x)" for x
    by (cases "mem s x") (auto intro: exI [of _ "min_heap_idx (the (mem s x))"])
  then show ?thesis by (simp add: idx_frame_def)
qed

lemma idx_frame_trans:
  assumes "idx_frame X s s'" and "idx_frame X s' s''"
  shows "idx_frame X s s''"
proof -
  have "\<exists>i. mem s'' x = map_option (\<lambda>te. te\<lparr>min_heap_idx := i\<rparr>) (mem s x)" for x
  proof -
    obtain i where "mem s'' x = map_option (\<lambda>te. te\<lparr>min_heap_idx := i\<rparr>) (mem s' x)"
      using assms(2) by (auto simp: idx_frame_def)
    moreover obtain i' where "mem s' x = map_option (\<lambda>te. te\<lparr>min_heap_idx := i'\<rparr>) (mem s x)"
      using assms(1) by (auto simp: idx_frame_def)
    ultimately show ?thesis by (auto simp: option.map_comp comp_def)
  qed
  then show ?thesis using assms by (simp add: idx_frame_def)
qed

lemma idx_frame_key [frame_simps]:
  assumes "idx_frame X s s'"
  shows "key s' = key s"
proof
  fix x
  obtain i where "mem s' x = map_option (\<lambda>te. te\<lparr>min_heap_idx := i\<rparr>) (mem s x)"
    using assms by (auto simp: idx_frame_def)
  then show "key s' x = key s x" by (cases "mem s x") (auto simp: key_def)
qed

lemma idx_frame_alloc [frame_simps]: "idx_frame X s s' \<Longrightarrow> mem s' x = None \<longleftrightarrow> mem s x = None"
  unfolding idx_frame_def by (metis option.map_disc_iff)

lemma idx_frame_sizes [frame_simps]:
  assumes "idx_frame X s s'"
  shows "n_elems s' = n_elems s" and "a_cap s' = a_cap s" and "length (p_arr s') = length (p_arr s)"
  using assms by (auto simp: idx_frame_def)

section \<open>The hole\<close>

text \<open>
  While a loop runs, the array with \<open>e\<close> written into the hole is a duplicate-free list \<open>F\<close> of
  allocated entries whose stored indices are right everywhere but at the hole.
\<close>

definition hole_at :: "min_heap \<Rightarrow> nat \<Rightarrow> addr \<Rightarrow> addr list \<Rightarrow> bool" where
  "hole_at s h e F \<longleftrightarrow>
     h < n_elems s \<and> n_elems s \<le> length (p_arr s) \<and> n_elems s < 2147483648 \<and>
     F = (elems s)[h := e] \<and> distinct F \<and> (\<forall>x\<in>set F. mem s x \<noteq> None) \<and>
     (\<forall>j<n_elems s. j \<noteq> h \<longrightarrow> idx_at s j (F ! j))"

lemma hole_atD:
  assumes "hole_at s h e F"
  shows "h < n_elems s" and "n_elems s \<le> length (p_arr s)" and "n_elems s < 2147483648"
    and "F = (elems s)[h := e]" and "distinct F" and "x \<in> set F \<Longrightarrow> \<exists>te. mem s x = Some te"
    and "j < n_elems s \<Longrightarrow> j \<noteq> h \<Longrightarrow> idx_at s j (F ! j)"
  using assms unfolding hole_at_def by blast+

lemma length_elems: "n_elems s \<le> length (p_arr s) \<Longrightarrow> length (elems s) = n_elems s"
  by (simp add: elems_def)

lemma hole_length [simp]: "hole_at s h e F \<Longrightarrow> length F = n_elems s"
  using hole_atD(4) hole_atD(2) length_elems by (metis length_list_update)

lemma hole_self: "hole_at s h e F \<Longrightarrow> F ! h = e"
  using hole_atD(1,2,4) length_elems by (metis nth_list_update_eq)

lemma hole_rd:
  assumes "hole_at s h e F" and "j < n_elems s" and "j \<noteq> h"
  shows "rd_p s j = Some (F ! j)"
proof -
  have "F ! j = elems s ! j" using hole_atD(4) [OF assms(1)] assms(3) by simp
  then show ?thesis using hole_atD(2) [OF assms(1)] assms(2) by (simp add: rd_p_def elems_def)
qed

lemma hole_greater:
  assumes "hole_at s h e F" and "i < n_elems s" and "j < n_elems s"
  shows "min_heap_elem_greater s (F ! i) (F ! j) = Some (key s (F ! i) > key s (F ! j))"
proof -
  have "F ! i \<in> set F" "F ! j \<in> set F" using assms by simp_all
  then obtain a b where "mem s (F ! i) = Some a" "mem s (F ! j) = Some b"
    using hole_atD(6) [OF assms(1)] by blast
  then show ?thesis by (simp add: min_heap_elem_greater_def key_def)
qed

lemma place_eq:
  "i < length (p_arr s) \<Longrightarrow> mem s e = Some te \<Longrightarrow>
   place s i e = Some (s\<lparr>p_arr := (p_arr s)[i := e], mem := (mem s)(e \<mapsto> te\<lparr>min_heap_idx := i\<rparr>)\<rparr>)"
  by (simp add: place_def set_idx_def)

lemma place_frame:
  assumes "place s i e = Some s'"
  shows "idx_frame {e} s s'"
proof -
  from assms obtain te where te: "mem s e = Some te" and
    s': "s' = s\<lparr>p_arr := (p_arr s)[i := e], mem := (mem s)(e \<mapsto> te\<lparr>min_heap_idx := i\<rparr>)\<rparr>"
    by (auto simp: place_def set_idx_def split: if_splits option.splits)
  have "\<exists>j. mem s' x = map_option (\<lambda>te. te\<lparr>min_heap_idx := j\<rparr>) (mem s x)" for x
  proof (cases "x = e")
    case True then show ?thesis using te s' by auto
  next
    case False
    then have "mem s' x = mem s x" using s' by simp
    then show ?thesis using idx_frame_refl [of "{}" s] unfolding idx_frame_def by metis
  qed
  then show ?thesis using s' by (simp add: idx_frame_def)
qed

lemma idx_frame_mono: "idx_frame X s s' \<Longrightarrow> X \<subseteq> Y \<Longrightarrow> idx_frame Y s s'"
  by (auto simp: idx_frame_def)

lemma hole_move:
  assumes H: "hole_at s h e F" and c: "c < n_elems s" "c \<noteq> h"
  shows "\<exists>s'. place s h (F ! c) = Some s' \<and> hole_at s' c e (swap_at F h c) \<and> idx_frame (set F) s s'"
proof -
  note h = hole_atD(1) [OF H] and n = hole_atD(2,3) [OF H] and F = hole_atD(4) [OF H]
    and d = hole_atD(5) [OF H] and al = hole_atD(6) [OF H] and ix = hole_atD(7) [OF H]
  have len: "length F = n_elems s" using H by simp
  have cF: "F ! c \<in> set F" using c len by simp
  then obtain te where te: "mem s (F ! c) = Some te" using al by blast
  let ?s = "s\<lparr>p_arr := (p_arr s)[h := F ! c], mem := (mem s)(F ! c \<mapsto> te\<lparr>min_heap_idx := h\<rparr>)\<rparr>"
  have pl: "place s h (F ! c) = Some ?s" using h n te by (simp add: place_eq)
  have len_el: "length (elems s) = n_elems s" using n(1) by (simp add: elems_def)
  have elF: "elems s ! c = F ! c" using F c by simp
  have "elems ?s = (elems s)[h := F ! c]" by (simp add: elems_def take_update_swap)
  then have "(elems ?s)[c := e] = ((elems s)[h := elems s ! c])[c := e]" using elF by simp
  also have "\<dots> = swap_at ((elems s)[h := e]) h c" using h c len_el by (intro swap_at_fill) auto
  finally have fill: "(elems ?s)[c := e] = swap_at F h c" using F by simp
  have sets: "set (swap_at F h c) = set F"
    using h c len by (simp add: swap_at_def set_swap_eq)
  have idx: "idx_at ?s j (swap_at F h c ! j)" if j: "j < n_elems s" "j \<noteq> c" for j
  proof (cases "j = h")
    case True
    then show ?thesis using h c len by (simp add: nth_swap_at idx_at_def)
  next
    case False
    then have "swap_at F h c ! j = F ! j" "F ! j \<noteq> F ! c"
      using j h c len d by (auto simp: nth_swap_at nth_eq_iff_index_eq)
    then show ?thesis using ix [OF j(1) False] by (simp add: idx_at_def)
  qed
  have "distinct (swap_at F h c)"
    using h c len d mset_swap_at [of h F c] by (metis mset_eq_imp_distinct_iff)
  then have "hole_at ?s c e (swap_at F h c)"
    unfolding hole_at_def using c n fill sets al idx by auto
  moreover have "idx_frame (set F) s ?s"
    using place_frame [OF pl] cF by (auto intro: idx_frame_mono)
  ultimately show ?thesis using pl by blast
qed

text \<open>The end of every loop: the element goes into the hole and a heap is left.\<close>

definition settled :: "addr list \<Rightarrow> min_heap \<Rightarrow> min_heap \<Rightarrow> bool" where
  "settled F s s' \<longleftrightarrow> idx_frame (set F) s s' \<and> mset (elems s') = mset F \<and>
     (\<forall>i<n_elems s. idx_at s' i (elems s' ! i)) \<and> heap_on (key s) (elems s')"

lemma hole_fill:
  assumes H: "hole_at s h e F" and ord: "heap_on (key s) F"
  shows "\<exists>s'. place s h e = Some s' \<and> settled F s s'"
proof -
  note h = hole_atD(1) [OF H] and n = hole_atD(2) [OF H] and F = hole_atD(4) [OF H]
    and d = hole_atD(5) [OF H] and al = hole_atD(6) [OF H] and ix = hole_atD(7) [OF H]
  have len: "length F = n_elems s" using H by simp
  have eF: "e \<in> set F" using hole_self [OF H] h len by (metis nth_mem)
  then obtain te where te: "mem s e = Some te" using al by blast
  let ?s = "s\<lparr>p_arr := (p_arr s)[h := e], mem := (mem s)(e \<mapsto> te\<lparr>min_heap_idx := h\<rparr>)\<rparr>"
  have pl: "place s h e = Some ?s" using h n te by (simp add: place_eq)
  have el: "elems ?s = F" using F by (simp add: elems_def take_update_swap)
  have "idx_at ?s j (F ! j)" if "j < n_elems s" for j
  proof (cases "j = h")
    case True then show ?thesis using hole_self [OF H] by (simp add: idx_at_def)
  next
    case False
    then have "F ! j \<noteq> e" using that h len d hole_self [OF H] by (auto simp: nth_eq_iff_index_eq)
    then show ?thesis using ix [OF that False] by (simp add: idx_at_def)
  qed
  moreover have "idx_frame (set F) s ?s" using place_frame [OF pl] eF by (auto intro: idx_frame_mono)
  ultimately have "settled F s ?s" using el ord by (simp add: settled_def)
  then show ?thesis using pl by blast
qed

lemma settled_step:
  assumes "idx_frame (set F) s s1" and "settled (swap_at F i j) s1 s'" and "i < length F" and "j < length F"
  shows "settled F s s'"
proof -
  have "set (swap_at F i j) = set F" "mset (swap_at F i j) = mset F"
    using assms(3,4) by (simp_all add: swap_at_def set_swap_eq mset_update_swap)
  then show ?thesis
    using assms(1,2) idx_frame_trans
    by (auto simp: settled_def frame_simps)
qed

section \<open>The loops keep their promise\<close>

lemma parent_par: "0 < i \<Longrightarrow> i < 2147483648 \<Longrightarrow> parent i = par i"
  by (simp add: parent_eq par_def)

declare min_heap_shift_up.simps [simp del] min_heap_shift_up_unconditional.simps [simp del]

lemma shift_up_0: "min_heap_shift_up s 0 e = place s 0 e"
  by (simp add: min_heap_shift_up.simps [of s 0 e])

lemma shift_up_settles:
  "hole_at s h e F \<Longrightarrow> heap_up (key s) h F \<Longrightarrow>
   \<exists>s'. min_heap_shift_up s h e = Some s' \<and> settled F s s'"
proof (induction s h e arbitrary: F rule: min_heap_shift_up.induct)
  case (1 s h e)
  note H = "1.prems"(1) and up = "1.prems"(2)
  note hl = hole_atD(1,3) [OF H]
  show ?case
  proof (cases "h = 0")
    case True
    then show ?thesis
      using hole_fill [OF H] heap_up_done [OF up] by (simp add: shift_up_0)
  next
    case False
    then have h: "0 < h" by simp
    have p: "parent h = par h" "par h < h" "par h < n_elems s" "par h \<noteq> h"
      using h hl parent_par [of h] par_lt [OF h] by auto
    have rd: "rd_p s (par h) = Some (F ! par h)" using hole_rd [OF H p(3,4)] .
    have gr: "min_heap_elem_greater s (F ! par h) e = Some (key s (F ! par h) > key s (F ! h))"
      using hole_greater [OF H p(3) hl(1)] hole_self [OF H] by simp
    show ?thesis
    proof (cases "key s (F ! par h) > key s (F ! h)")
      case False
      then have "heap_on (key s) F" using heap_up_done [OF up] by simp
      then show ?thesis
        using hole_fill [OF H] rd gr False p(1) h by (simp add: min_heap_shift_up.simps [of s h e])
    next
      case True
      obtain s1 where s1: "place s h (F ! par h) = Some s1"
        and H1: "hole_at s1 (par h) e (swap_at F h (par h))" and fr: "idx_frame (set F) s s1"
        using hole_move [OF H p(3,4)] by blast
      have "heap_up (key s1) (par h) (swap_at F h (par h))"
        using heap_up_step [OF up h _ True] hl(1) H fr by (simp add: frame_simps)
      then obtain s' where "min_heap_shift_up s1 (par h) e = Some s'"
        and "settled (swap_at F h (par h)) s1 s'"
        using "1.IH" [of "F ! par h" True s1] h H1 True rd gr p(1) s1 by auto
      moreover have "settled F s s'"
        using settled_step [OF fr \<open>settled (swap_at F h (par h)) s1 s'\<close>] hl(1) p(3) H by simp
      ultimately show ?thesis
        using rd gr True p(1) s1 h by (simp add: min_heap_shift_up.simps [of s h e])
    qed
  qed
qed

text \<open>The do-while variant is one move followed by the plain loop.\<close>

lemma shift_up_unconditional_eq:
  "min_heap_shift_up_unconditional s h e =
     do { pe \<leftarrow> rd_p s (parent h); s \<leftarrow> place s h pe; min_heap_shift_up s (parent h) e }"
proof (induction s h e rule: min_heap_shift_up_unconditional.induct)
  case (1 s h e)
  show ?case
  proof (cases "rd_p s (parent h)")
    case None then show ?thesis by (simp add: min_heap_shift_up_unconditional.simps [of s h e])
  next
    case rd: (Some pe)
    show ?thesis
    proof (cases "place s h pe")
      case None then show ?thesis using rd by (simp add: min_heap_shift_up_unconditional.simps [of s h e])
    next
      case (Some s1)
      note unf = min_heap_shift_up_unconditional.simps [of s h e]
      show ?thesis
      proof (cases "parent h = 0")
        case True then show ?thesis using rd Some by (simp add: unf shift_up_0)
      next
        case ph: False
        show ?thesis
        proof (cases "rd_p s1 (parent (parent h))")
          case None
          then show ?thesis
            using ph rd Some by (simp add: unf min_heap_shift_up.simps [of s1 "parent h" e])
        next
          case rd1: (Some pe1)
          show ?thesis
          proof (cases "min_heap_elem_greater s1 pe1 e = Some True")
            case True
            then have "min_heap_shift_up_unconditional s1 (parent h) e =
                do { pe \<leftarrow> rd_p s1 (parent (parent h)); s \<leftarrow> place s1 (parent h) pe;
                     min_heap_shift_up s (parent (parent h)) e }"
              using "1.IH" [OF rd Some refl ph rd1 True TrueI] by simp
            then show ?thesis
              using ph rd Some rd1 True by (simp add: Let_def unf min_heap_shift_up.simps [of s1 "parent h" e])
          next
            case False
            then show ?thesis
              using ph rd Some rd1
              by (cases "min_heap_elem_greater s1 pe1 e")
                (simp_all add: unf min_heap_shift_up.simps [of s1 "parent h" e])
          qed
        qed
      qed
    qed
  qed
qed

lemma shift_up_unconditional_settles:
  assumes H: "hole_at s h e F" and h: "0 < h" and up: "heap_up (key s) h F"
    and gt: "key s (F ! par h) > key s (F ! h)"
  shows "\<exists>s'. min_heap_shift_up_unconditional s h e = Some s' \<and> settled F s s'"
proof -
  note hl = hole_atD(1,3) [OF H]
  have p: "parent h = par h" "par h < h" "par h < n_elems s" "par h \<noteq> h"
    using h hl parent_par [of h] par_lt [OF h] by auto
  have rd: "rd_p s (par h) = Some (F ! par h)" using hole_rd [OF H p(3,4)] .
  obtain s1 where s1: "place s h (F ! par h) = Some s1"
    and H1: "hole_at s1 (par h) e (swap_at F h (par h))" and fr: "idx_frame (set F) s s1"
    using hole_move [OF H p(3,4)] by blast
  have "heap_up (key s1) (par h) (swap_at F h (par h))"
    using heap_up_step [OF up h _ gt] hl(1) H fr by (simp add: frame_simps)
  then obtain s' where "min_heap_shift_up s1 (par h) e = Some s'"
    and "settled (swap_at F h (par h)) s1 s'"
    using shift_up_settles [OF H1] by blast
  moreover have "settled F s s'"
    using settled_step [OF fr \<open>settled (swap_at F h (par h)) s1 s'\<close>] hl(1) p(3) H by simp
  ultimately show ?thesis using rd s1 p(1) by (simp add: shift_up_unconditional_eq)
qed

text \<open>The smaller child that the downward loop picks.\<close>

lemma shift_down_child:
  assumes H: "hole_at s h e F" and mc: "2 * h + 2 \<le> n_elems s"
  obtains dec c where
    "(if 2 * h + 2 = n_elems s then Some True
      else do { x \<leftarrow> rd_p s (2 * h + 2); y \<leftarrow> rd_p s (2 * h + 1); min_heap_elem_greater s x y }) = Some dec"
    and "c = (if dec then 2 * h + 1 else 2 * h + 2)" and "c < n_elems s"
    and "\<And>j. j < n_elems s \<Longrightarrow> 0 < j \<Longrightarrow> par j = h \<Longrightarrow> key s (F ! c) \<le> key s (F ! j)"
proof (cases "2 * h + 2 = n_elems s")
  case True
  show ?thesis
    by (rule that [of True "2 * h + 1"]) (use True in \<open>auto simp: par_iff\<close>)
next
  case False
  then have l: "2 * h + 2 < n_elems s" "2 * h + 1 < n_elems s" using mc by auto
  let ?g = "key s (F ! (2 * h + 2)) > key s (F ! (2 * h + 1))"
  have "rd_p s (2 * h + 2) = Some (F ! (2 * h + 2))" "rd_p s (2 * h + 1) = Some (F ! (2 * h + 1))"
    using hole_rd [OF H l(1)] hole_rd [OF H l(2)] by auto
  moreover have "min_heap_elem_greater s (F ! (2 * h + 2)) (F ! (2 * h + 1)) = Some ?g"
    by (rule hole_greater [OF H l])
  ultimately have "(do { x \<leftarrow> rd_p s (2 * h + 2); y \<leftarrow> rd_p s (2 * h + 1);
      min_heap_elem_greater s x y }) = Some ?g" by simp
  then show ?thesis
    by (intro that [of ?g "if ?g then 2 * h + 1 else 2 * h + 2"]) (use False l in \<open>auto simp: par_iff\<close>)
qed

lemma shift_down_settles:
  "hole_at s h e F \<Longrightarrow> heap_down (key s) h F \<Longrightarrow>
   \<exists>s'. min_heap_shift_down s h e = Some s' \<and> settled F s s'"
proof (induction "n_elems s - h" arbitrary: s h F rule: less_induct)
  case less
  note H = less.prems(1) and dn = less.prems(2)
  note hl = hole_atD(1,3) [OF H]
  have w: "u32 (2 * u32_add h 1) = 2 * h + 2" "u32_sub (2 * h + 2) 1 = 2 * h + 1"
    using hl by (simp_all add: u32_add_id u32_id u32_sub_id)
  show ?case
  proof (cases "2 * h + 2 \<le> n_elems s")
    case False
    have "par j \<noteq> h \<or> j = 2 * h + 1" if "j < length F" "0 < j" for j
      using that False H by (auto simp: par_iff)
    show ?thesis
    proof (cases "2 * h + 1 < n_elems s")
      case True then show ?thesis using False by simp
    next
      case False
      then have "heap_on (key s) F"
        by (intro heap_down_done [OF dn]) (use H in \<open>auto simp: par_iff\<close>)
      then show ?thesis
        using hole_fill [OF H] False w by (simp add: min_heap_shift_down.simps [of s h e])
    qed
  next
    case mc: True
    obtain dec c where dec: "(if 2 * h + 2 = n_elems s then Some True
        else do { x \<leftarrow> rd_p s (2 * h + 2); y \<leftarrow> rd_p s (2 * h + 1); min_heap_elem_greater s x y })
        = Some dec"
      and c: "c = (if dec then 2 * h + 1 else 2 * h + 2)" "c < n_elems s"
      and mn: "\<And>j. j < n_elems s \<Longrightarrow> 0 < j \<Longrightarrow> par j = h \<Longrightarrow> key s (F ! c) \<le> key s (F ! j)"
      using shift_down_child [OF H mc] by blast
    have ch: "c \<noteq> h" "0 < c" "par c = h" "h < c" using c(1) by auto
    have rd: "rd_p s c = Some (F ! c)" using hole_rd [OF H c(2) ch(1)] .
    have gr: "min_heap_elem_greater s e (F ! c) = Some (key s (F ! h) > key s (F ! c))"
      using hole_greater [OF H hl(1) c(2)] hole_self [OF H] by simp
    have unf: "min_heap_shift_down s h e =
        (if \<not> key s (F ! h) > key s (F ! c) then place s h e
         else do { s1 \<leftarrow> place s h (F ! c); min_heap_shift_down s1 c e })"
      by (subst min_heap_shift_down.simps)
        (simp only: Let_def w mc if_True dec c(1) [symmetric] Option.bind.simps rd gr)
    show ?thesis
    proof (cases "key s (F ! h) > key s (F ! c)")
      case False
      have "heap_on (key s) F"
        by (rule heap_down_done [OF dn]) (use mn False H in force)
      then show ?thesis using hole_fill [OF H] unf False by simp
    next
      case True
      obtain s1 where s1: "place s h (F ! c) = Some s1"
        and H1: "hole_at s1 c e (swap_at F h c)" and fr: "idx_frame (set F) s s1"
        using hole_move [OF H c(2) ch(1)] by blast
      have "heap_down (key s1) c (swap_at F h c)"
        using heap_down_step [OF dn ch(2) _ ch(3) True] c(2) mn H fr by (simp add: frame_simps)
      moreover have "n_elems s1 - c < n_elems s - h" using fr hl c ch by (simp add: frame_simps)
      ultimately obtain s' where "min_heap_shift_down s1 c e = Some s'"
        and st: "settled (swap_at F h c) s1 s'"
        using less.hyps [OF _ H1] by blast
      moreover have "settled F s s'"
        using settled_step [OF fr st] hl(1) c(2) H by simp
      ultimately show ?thesis using unf True s1 by simp
    qed
  qed
qed

section \<open>The operations keep the invariant\<close>

lemma wfD:
  assumes "min_heap_wf s"
  shows "length (p_arr s) = a_cap s" and "n_elems s \<le> a_cap s" and "n_elems s < 2147483648"
    and "distinct (elems s)" and "NULL \<notin> set (elems s)"
    and "i < n_elems s \<Longrightarrow> idx_at s i (elems s ! i)" and "heap_on (key s) (elems s)"
    and "length (elems s) = n_elems s"
  using assms by (auto simp: min_heap_wf_def elems_def)

lemma idx_at_unique: "idx_at s i x \<Longrightarrow> idx_at s j x \<Longrightarrow> i = j"
  by (auto simp: idx_at_def)

lemma wf_alloc: "min_heap_wf s \<Longrightarrow> x \<in> set (elems s) \<Longrightarrow> \<exists>te. mem s x = Some te"
  using wfD(6,8) by (fastforce simp: in_set_conv_nth idx_at_def)

lemma settled_elems:
  assumes "settled F s s'"
  shows "set (elems s') = set F" and "distinct F \<Longrightarrow> distinct (elems s')"
  using assms unfolding settled_def by (metis set_mset_mset, metis mset_eq_imp_distinct_iff)

lemma settled_wf:
  assumes "settled F s s'" and "distinct F" and "NULL \<notin> set F"
    and "length (p_arr s) = a_cap s" and "n_elems s \<le> a_cap s" and "n_elems s < 2147483648"
  shows "min_heap_wf s'"
proof -
  have "idx_frame (set F) s s'" using assms(1) by (simp add: settled_def)
  then show ?thesis
    using assms settled_elems [OF assms(1)]
    by (auto simp: min_heap_wf_def settled_def frame_simps)
qed

text \<open>Reserve grows the storage and keeps every cell.\<close>

lemma reserve_wf:
  assumes wf: "min_heap_wf s" and rs: "realloc = Some junk" and m: "0 < m"
  shows "\<exists>s'. min_heap_reserve realloc s m = (0, s') \<and> min_heap_wf s' \<and> elems s' = elems s \<and>
     mem s' = mem s \<and> n_elems s' = n_elems s \<and> m \<le> a_cap s'"
proof (cases "a_cap s < m")
  case False
  then show ?thesis using wf by (simp add: min_heap_reserve_def)
next
  case True
  define a where "a = (if a_cap s \<noteq> 0 then u32 (a_cap s * 2) else 8)"
  define a' where "a' = (if a < m then m else a)"
  define s1 where "s1 = s\<lparr>p_arr := take a' (p_arr s) @ map junk [length (p_arr s)..<a'], a_cap := a'\<rparr>"
  have s1: "p_arr s1 = take a' (p_arr s) @ map junk [length (p_arr s)..<a']" "a_cap s1 = a'"
    "n_elems s1 = n_elems s" "mem s1 = mem s" by (simp_all add: s1_def)
  have le: "a_cap s \<le> a'" "m \<le> a'" using True by (auto simp: a'_def)
  have "min_heap_reserve realloc s m = (0, s1)"
    using True rs by (simp add: min_heap_reserve_def Let_def s1_def a'_def a_def)
  moreover have el: "elems s1 = elems s"
    using le wfD(1,2) [OF wf] s1 by (simp add: elems_def)
  moreover have "min_heap_wf s1"
  proof -
    have "key s1 = key s" "\<And>i x. idx_at s1 i x = idx_at s i x"
      using s1 by (auto simp: key_def idx_at_def)
    moreover have "length (p_arr s1) = a'" using le wfD(1) [OF wf] s1 by simp
    moreover have "n_elems s \<le> a'" using le(1) wfD(2) [OF wf] by linarith
    ultimately show ?thesis
      unfolding min_heap_wf_def el s1(2,3) using wfD [OF wf] by simp
  qed
  ultimately show ?thesis using le s1 by auto
qed

text \<open>What a push does to a heap with room: the entry joins the live elements.\<close>

lemma push_room:
  assumes wf: "min_heap_wf s" and room: "n_elems s < a_cap s" "n_elems s + 1 < 2147483648"
    and e: "mem s e = Some te" "e \<noteq> NULL" "e \<notin> set (elems s)"
  shows "\<exists>s'. min_heap_shift_up (s\<lparr>n_elems := n_elems s + 1\<rparr>) (n_elems s) e = Some s' \<and>
     min_heap_wf s' \<and> mset (elems s') = add_mset e (mset (elems s)) \<and> key s' = key s \<and>
     n_elems s' = n_elems s + 1 \<and> (\<forall>x. x \<notin> set (e # elems s) \<longrightarrow> mem s' x = mem s x) \<and>
     (\<forall>x. mem s' x = None \<longleftrightarrow> mem s x = None)"
proof -
  let ?s = "s\<lparr>n_elems := n_elems s + 1\<rparr>" and ?F = "elems s @ [e]"
  note l = wfD(8) [OF wf]
  have k: "key ?s = key s" "\<And>i x. idx_at ?s i x = idx_at s i x" by (auto simp: key_def idx_at_def)
  have "elems ?s = elems s @ [p_arr s ! n_elems s]"
    using room(1) wfD(1) [OF wf] by (simp add: elems_def take_Suc_conv_app_nth)
  then have "(elems ?s)[n_elems s := e] = ?F" by (simp add: list_update_append l)
  moreover have "idx_at ?s j (?F ! j)" if "j < n_elems ?s" "j \<noteq> n_elems s" for j
    using that l wfD(6) [OF wf, of j] k(2) by (simp add: nth_append)
  moreover have "\<forall>x\<in>set ?F. mem ?s x \<noteq> None" using e(1) wf_alloc [OF wf] by fastforce
  ultimately have H: "hole_at ?s (n_elems s) e ?F"
    unfolding hole_at_def using room wfD(1,4) [OF wf] e(3) by simp
  have "heap_up (key ?s) (n_elems s) ?F"
    using heap_up_append [OF wfD(7) [OF wf], of e] l k by simp
  then obtain s' where s': "min_heap_shift_up ?s (n_elems s) e = Some s'" "settled ?F ?s s'"
    using shift_up_settles [OF H] by blast
  have "min_heap_wf s'"
    by (rule settled_wf [OF s'(2)]) (use wfD [OF wf] e room in auto)
  moreover have fr: "idx_frame (set ?F) ?s s'" and "mset (elems s') = mset ?F"
    using s'(2) by (auto simp: settled_def)
  moreover have "mem s' x = mem s x" if "x \<notin> set ?F" for x
    using fr that by (auto simp: idx_frame_def)
  ultimately show ?thesis using s' k frame_simps [OF fr] by auto
qed

text \<open>
  Taking the element at \<open>i\<close> out: the last element fills its place and moves one way. \<open>removed\<close> is
  what is left before the removed entry's own index is reset.
\<close>

definition removed :: "min_heap \<Rightarrow> addr \<Rightarrow> min_heap \<Rightarrow> bool" where
  "removed s e s' \<longleftrightarrow> min_heap_wf s' \<and> mset (elems s') = mset (elems s) - {#e#} \<and> key s' = key s \<and>
     n_elems s' = n_elems s - 1 \<and> a_cap s' = a_cap s \<and>
     (\<forall>x. x \<notin> set (elems s) \<longrightarrow> mem s' x = mem s x) \<and> (\<forall>x. mem s' x = None \<longleftrightarrow> mem s x = None)"

lemma removedI:
  assumes wf: "min_heap_wf s" and N: "n_elems s = Suc N" and i: "i < N"
    and st: "settled ((take N (p_arr s))[i := p_arr s ! N]) (s\<lparr>n_elems := N\<rparr>) s'"
  shows "removed s (elems s ! i) s'"
proof -
  let ?s = "s\<lparr>n_elems := N\<rparr>" and ?B = "take N (p_arr s)" and ?l = "p_arr s ! N"
  have el: "elems s = ?B @ [?l]"
    using wfD(1,2) [OF wf] N by (simp add: elems_def take_Suc_conv_app_nth)
  have lB: "length ?B = N" using wfD(1,2) [OF wf] N by simp
  have ms: "mset (?B[i := ?l]) = mset (elems s) - {#elems s ! i#}"
  proof -
    have "?B ! i \<in># mset ?B" using i lB by (metis nth_mem set_mset_mset)
    then obtain M where "mset ?B = add_mset (?B ! i) M" by (metis multi_member_split)
    moreover have "elems s ! i = ?B ! i" using el i lB by (metis nth_append)
    ultimately show ?thesis using i lB el by (simp add: mset_update)
  qed
  have sub: "set (?B[i := ?l]) \<subseteq> set (elems s)"
    using el by (auto dest: set_update_subset_insert [THEN subsetD])
  have d: "distinct (?B[i := ?l])"
    using wfD(4) [OF wf] el by (simp add: distinct_list_update)
  have fr: "idx_frame (set (?B[i := ?l])) ?s s'" using st by (simp add: settled_def)
  have "min_heap_wf s'"
    by (rule settled_wf [OF st d]) (use wfD [OF wf] N sub in auto)
  moreover have "key s' = key s" using idx_frame_key [OF fr] by (simp add: key_def fun_eq_iff)
  moreover have "mem s' x = mem s x" if "x \<notin> set (elems s)" for x
  proof -
    have "x \<notin> set (?B[i := ?l])" using that sub by blast
    then show ?thesis using fr by (simp add: idx_frame_def)
  qed
  ultimately show ?thesis
    using st ms N frame_simps [OF fr] by (simp add: removed_def settled_def)
qed

lemma removed_hole:
  assumes wf: "min_heap_wf s" and N: "n_elems s = Suc N" and i: "i < N"
  defines "F \<equiv> (take N (p_arr s))[i := p_arr s ! N]"
  shows "hole_at (s\<lparr>n_elems := N\<rparr>) i (p_arr s ! N) F"
    and "key (s\<lparr>n_elems := N\<rparr>) = key s" and "heap_on (key s) (take N (p_arr s))"
    and "0 < i \<Longrightarrow> F ! par i = elems s ! par i" and "length (take N (p_arr s)) = N"
    and "0 < i \<Longrightarrow> take N (p_arr s) ! par i = elems s ! par i"
proof -
  let ?s = "s\<lparr>n_elems := N\<rparr>" and ?B = "take N (p_arr s)" and ?l = "p_arr s ! N"
  have el: "elems s = ?B @ [?l]"
    using wfD(1,2) [OF wf] N by (simp add: elems_def take_Suc_conv_app_nth)
  show lB: "length ?B = N" using wfD(1,2) [OF wf] N by simp
  have elB: "elems ?s = ?B" by (simp add: elems_def)
  have sub: "set F \<subseteq> set (elems s)"
    using el by (auto simp: F_def dest: set_update_subset_insert [THEN subsetD])
  have ix: "idx_at ?s j (F ! j)" if "j < N" "j \<noteq> i" for j
    using that wfD(6) [OF wf, of j] N by (simp add: F_def elems_def idx_at_def)
  have "distinct F" using wfD(4) [OF wf] el by (simp add: F_def distinct_list_update)
  then show "hole_at ?s i ?l F"
    unfolding hole_at_def using i N wfD(1,2,3) [OF wf] elB ix sub wf_alloc [OF wf]
    by (auto simp: F_def)
  show "key ?s = key s" by (simp add: key_def fun_eq_iff)
  show "heap_on (key s) ?B" using heap_on_take [OF wfD(7) [OF wf], of N] el lB by simp
  show "F ! par i = elems s ! par i" "?B ! par i = elems s ! par i" if "0 < i"
    using par_lt [OF that] i el lB by (simp_all add: F_def nth_append)
qed

lemma removed_up:
  assumes wf: "min_heap_wf s" and N: "n_elems s = Suc N" and i: "0 < i" "i < N"
    and gt: "key s (elems s ! par i) > key s (p_arr s ! N)"
  shows "\<exists>s'. min_heap_shift_up_unconditional (s\<lparr>n_elems := N\<rparr>) i (p_arr s ! N) = Some s' \<and>
     removed s (elems s ! i) s'"
proof -
  note R = removed_hole [OF wf N i(2)]
  have "heap_up (key s) i ((take N (p_arr s))[i := p_arr s ! N])"
    by (rule heap_up_replace [OF R(3)]) (use i gt R(5,6) in auto)
  then show ?thesis
    using shift_up_unconditional_settles [OF R(1) i(1)] R(2,4,5) gt i hole_self [OF R(1)]
      removedI [OF wf N i(2)] by fastforce
qed

lemma removed_down:
  assumes wf: "min_heap_wf s" and N: "n_elems s = Suc N" and i: "i < N"
    and le: "i = 0 \<or> \<not> key s (elems s ! par i) > key s (p_arr s ! N)"
  shows "\<exists>s'. min_heap_shift_down (s\<lparr>n_elems := N\<rparr>) i (p_arr s ! N) = Some s' \<and>
     removed s (elems s ! i) s'"
proof -
  note R = removed_hole [OF wf N i]
  have "heap_down (key s) i ((take N (p_arr s))[i := p_arr s ! N])"
  proof (rule heap_down_replace [OF R(3)])
    show "i < length (take N (p_arr s))" using i R(5) by simp
    show "i = 0 \<or> key s (take N (p_arr s) ! par i) \<le> key s (p_arr s ! N)"
      using le R(6) by (cases "i = 0") auto
  qed
  then show ?thesis
    using shift_down_settles [OF R(1)] R(2) removedI [OF wf N i] by fastforce
qed

text \<open>Taking the last element out: the loop only writes it back.\<close>

lemma removed_last:
  assumes wf: "min_heap_wf s" and N: "n_elems s = Suc N"
  shows "\<exists>s'. min_heap_shift_down (s\<lparr>n_elems := N\<rparr>) N (p_arr s ! N) = Some s' \<and>
     removed s (elems s ! N) s'"
proof -
  let ?s = "s\<lparr>n_elems := N\<rparr>" and ?l = "p_arr s ! N"
  have el: "elems s = take N (p_arr s) @ [?l]"
    using wfD(1,2) [OF wf] N by (simp add: elems_def take_Suc_conv_app_nth)
  have lB: "length (take N (p_arr s)) = N" using wfD(1,2) [OF wf] N by simp
  have lN: "elems s ! N = ?l" using el lB by (metis nth_append_length)
  obtain te where te: "mem s ?l = Some te" "min_heap_idx te = N"
    using wfD(6) [OF wf, of N] N lN by (auto simp: idx_at_def)
  have "u32 (2 * u32_add N 1) = 2 * N + 2" using wfD(3) [OF wf] N by (simp add: u32_add_id u32_id)
  then have "min_heap_shift_down ?s N ?l = place ?s N ?l"
    by (simp add: min_heap_shift_down.simps [of ?s N ?l])
  also have "\<dots> = Some ?s"
    using te wfD(1,2) [OF wf] N by (simp add: place_eq fun_upd_idem)
  finally have "min_heap_shift_down ?s N ?l = Some ?s" .
  moreover have "removed s (elems s ! N) ?s"
  proof -
    have e1: "elems ?s = take N (p_arr s)" by (simp add: elems_def)
    have k: "key ?s = key s" "\<And>i x. idx_at ?s i x = idx_at s i x" by (auto simp: key_def idx_at_def)
    have "idx_at s i (take N (p_arr s) ! i)" if "i < N" for i
      using wfD(6) [OF wf, of i] that N by (simp add: elems_def)
    moreover have "heap_on (key s) (take N (p_arr s))"
      using heap_on_take [OF wfD(7) [OF wf], of N] el lB by simp
    ultimately show ?thesis
      unfolding removed_def min_heap_wf_def e1 k
      using wfD(1-5) [OF wf] N el lN by auto
  qed
  ultimately show ?thesis by blast
qed

lemma removed_not_in: "removed s e s' \<Longrightarrow> distinct (elems s) \<Longrightarrow> e \<notin> set (elems s')"
  using distinct_minus_notin [of "elems s" e] unfolding removed_def by (metis set_mset_mset)

text \<open>Resetting the index of an entry outside the heap.\<close>

lemma set_idx_out:
  assumes wf: "min_heap_wf s" and e: "e \<notin> set (elems s)" "mem s e \<noteq> None"
  shows "\<exists>s'. set_idx s e v = Some s' \<and> min_heap_wf s' \<and> elems s' = elems s \<and> key s' = key s \<and>
     n_elems s' = n_elems s \<and> a_cap s' = a_cap s \<and> idx_at s' v e \<and> (\<forall>x. x \<noteq> e \<longrightarrow> mem s' x = mem s x) \<and>
     (\<forall>x. mem s' x = None \<longleftrightarrow> mem s x = None)"
proof -
  obtain te where te: "mem s e = Some te" using e(2) by blast
  define s1 where "s1 = s\<lparr>mem := (mem s)(e \<mapsto> te\<lparr>min_heap_idx := v\<rparr>)\<rparr>"
  have s1: "p_arr s1 = p_arr s" "n_elems s1 = n_elems s" "a_cap s1 = a_cap s"
    "mem s1 = (mem s)(e \<mapsto> te\<lparr>min_heap_idx := v\<rparr>)" by (simp_all add: s1_def)
  have el: "elems s1 = elems s" by (simp add: elems_def s1)
  have k: "key s1 = key s" using te by (simp add: key_def s1 fun_eq_iff)
  have "idx_at s1 i (elems s ! i)" if "i < n_elems s" for i
  proof -
    have "elems s ! i \<noteq> e" using e(1) that wfD(8) [OF wf] by (metis nth_mem)
    then show ?thesis using wfD(6) [OF wf that] by (simp add: idx_at_def s1)
  qed
  then have "min_heap_wf s1" unfolding min_heap_wf_def el k s1(1-3) using wfD [OF wf] by simp
  moreover have "set_idx s e v = Some s1" using te by (simp add: set_idx_def s1_def)
  ultimately show ?thesis using el k s1 te by (auto simp: idx_at_def)
qed

section \<open>What each operation does\<close>

lemma push_spec:
  assumes "min_heap_wf s" and "n_elems s + 1 < 2147483648"
    and "mem s e = Some te" and "e \<noteq> NULL" and "e \<notin> set (elems s)"
  shows "\<exists>s'. min_heap_push realloc s e =
       Some (if realloc = None \<and> n_elems s = a_cap s then -1 else 0, s') \<and>
     min_heap_wf s' \<and> key s' = key s \<and> (\<forall>x. mem s' x = None \<longleftrightarrow> mem s x = None) \<and>
     (if realloc = None \<and> n_elems s = a_cap s then s' = s
      else mset (elems s') = add_mset e (mset (elems s)) \<and> n_elems s' = n_elems s + 1)"
proof (cases "realloc = None \<and> n_elems s = a_cap s")
  case True
  then have "min_heap_reserve realloc s (u32_add (n_elems s) 1) = (-1, s)"
    using assms(2) by (simp add: min_heap_reserve_def u32_add_id)
  then show ?thesis using True assms(1) by (auto simp: min_heap_push_def)
next
  case False
  have w: "u32_add (n_elems s) 1 = n_elems s + 1" using assms(2) by (simp add: u32_add_id)
  obtain s1 where s1: "min_heap_reserve realloc s (n_elems s + 1) = (0, s1)" "min_heap_wf s1"
    "elems s1 = elems s" "mem s1 = mem s" "n_elems s1 = n_elems s" "n_elems s + 1 \<le> a_cap s1"
  proof (cases "n_elems s < a_cap s")
    case True
    then show ?thesis using that [of s] assms(1) by (simp add: min_heap_reserve_def)
  next
    case no: False
    then obtain junk where "realloc = Some junk" using False wfD(2) [OF assms(1)] by fastforce
    then show ?thesis using reserve_wf [OF assms(1), of realloc junk] that by auto
  qed
  obtain s2 where "min_heap_shift_up (s1\<lparr>n_elems := n_elems s1 + 1\<rparr>) (n_elems s1) e = Some s2"
    "min_heap_wf s2" "mset (elems s2) = add_mset e (mset (elems s1))" "key s2 = key s1"
    "n_elems s2 = n_elems s1 + 1" "\<forall>x. mem s2 x = None \<longleftrightarrow> mem s1 x = None"
    using push_room [OF s1(2), of e te] assms s1 by auto
  then show ?thesis
    using False s1 w by (auto simp: min_heap_push_def key_def fun_eq_iff)
qed

lemma pop_spec:
  assumes "min_heap_wf s"
  shows "if n_elems s = 0 then min_heap_pop s = Some (NULL, s)
    else \<exists>s'. min_heap_pop s = Some (elems s ! 0, s') \<and> removed s (elems s ! 0) s' \<and>
      elems s ! 0 \<in> set (elems s) \<and> (\<forall>x\<in>set (elems s). key s (elems s ! 0) \<le> key s x) \<and>
      idx_at s' u32_minus1 (elems s ! 0)"
proof (cases "n_elems s")
  case 0 then show ?thesis by (simp add: min_heap_pop_def)
next
  case N: (Suc N)
  let ?e = "elems s ! 0"
  have eS: "?e \<in> set (elems s)" using N wfD(8) [OF assms] by simp
  have rd: "rd_p s 0 = Some ?e" and rl: "rd_p (s\<lparr>n_elems := N\<rparr>) N = Some (p_arr s ! N)"
    using wfD(1,2) [OF assms] N by (simp_all add: rd_p_def elems_def)
  have sub: "u32_sub (n_elems s) 1 = N" using N wfD(3) [OF assms] by (simp add: u32_sub_id)
  obtain s2 where s2: "min_heap_shift_down (s\<lparr>n_elems := N\<rparr>) 0 (p_arr s ! N) = Some s2"
    and rm: "removed s ?e s2"
    using removed_down [OF assms N] removed_last [OF assms N] by (cases "N = 0") auto
  have "?e \<notin> set (elems s2)"
    by (rule removed_not_in [OF rm wfD(4) [OF assms]])
  moreover have "mem s2 ?e \<noteq> None" using rm wf_alloc [OF assms eS] by (auto simp: removed_def)
  ultimately obtain s3 where s3: "set_idx s2 ?e u32_minus1 = Some s3" "min_heap_wf s3"
    "elems s3 = elems s2" "key s3 = key s2" "n_elems s3 = n_elems s2" "a_cap s3 = a_cap s2"
    "idx_at s3 u32_minus1 ?e" "\<forall>x. x \<noteq> ?e \<longrightarrow> mem s3 x = mem s2 x"
    "\<forall>x. mem s3 x = None \<longleftrightarrow> mem s2 x = None"
    using set_idx_out [of s2 ?e u32_minus1] rm by (auto simp: removed_def)
  have "removed s ?e s3"
    using rm s3 eS unfolding removed_def by metis
  moreover have "min_heap_pop s = Some (?e, s3)"
    using N rd rl sub s2 s3(1) by (simp add: min_heap_pop_def Let_def)
  ultimately show ?thesis
    using N s3 eS heap_on_hd_Min [OF wfD(7) [OF assms]] by auto
qed

lemma erase_spec:
  assumes "min_heap_wf s" and "e \<in> set (elems s)"
  shows "\<exists>s'. min_heap_erase s e = Some (0, s') \<and> removed s e s' \<and> idx_at s' u32_minus1 e"
proof -
  obtain i where i: "i < n_elems s" "elems s ! i = e"
    using assms(2) wfD(8) [OF assms(1)] by (auto simp: in_set_conv_nth)
  obtain N where N: "n_elems s = Suc N" using i by (cases "n_elems s") auto
  obtain te where te: "mem s e = Some te" "min_heap_idx te = i"
    using wfD(6) [OF assms(1) i(1)] i(2) by (auto simp: idx_at_def)
  let ?s = "s\<lparr>n_elems := N\<rparr>" and ?l = "p_arr s ! N"
  have l: "elems s ! N = ?l" using N by (simp add: elems_def)
  have sub: "u32_sub (n_elems s) 1 = N" using N wfD(3) [OF assms(1)] by (simp add: u32_sub_id)
  have nN: "n_elems ?s = N" by simp
  have rl: "rd_p ?s N = Some ?l" using wfD(1,2) [OF assms(1)] N by (simp add: rd_p_def)
  have lS: "?l \<in> set (elems s)" using N l wfD(8) [OF assms(1)] by (metis lessI nth_mem)
  let ?g = "key s (elems s ! par i) > key s ?l"
  have up: "(if i > 0 then do { pe \<leftarrow> rd_p ?s (parent i); min_heap_elem_greater ?s pe ?l } else Some False)
      = Some (0 < i \<and> ?g)"
  proof (cases "0 < i")
    case True
    have p: "parent i = par i" "par i < n_elems s"
      using True i(1) wfD(3) [OF assms(1)] par_lt [OF True] by (auto simp: parent_par)
    then have "rd_p ?s (parent i) = Some (elems s ! par i)"
      using wfD(1,2,8) [OF assms(1)] by (simp add: rd_p_def elems_def)
    moreover have "elems s ! par i \<in> set (elems s)" using p wfD(8) [OF assms(1)] by simp
    ultimately show ?thesis
      using wf_alloc [OF assms(1) lS] wf_alloc [OF assms(1), of "elems s ! par i"] True
      by (auto simp: min_heap_elem_greater_def key_def)
  qed simp
  have ne: "u32_minus1 \<noteq> i" using i(1) wfD(3) [OF assms(1)] by (simp add: u32_minus1_def)
  obtain s2 where s2: "(if 0 < i \<and> ?g then min_heap_shift_up_unconditional ?s i ?l
      else min_heap_shift_down ?s i ?l) = Some s2" and rm: "removed s e s2"
  proof (cases "i = N")
    case True
    have "\<not> (0 < i \<and> ?g)"
      using wfD(7,8) [OF assms(1)] i(1) True l by (auto simp: heap_on_def)
    then show ?thesis using that removed_last [OF assms(1) N] True i(2) by auto
  next
    case False
    then have "i < N" using i(1) N by simp
    then show ?thesis
      using that removed_up [OF assms(1) N] removed_down [OF assms(1) N] i(2)
      by (cases "0 < i \<and> ?g") auto
  qed
  have "e \<notin> set (elems s2)"
    by (rule removed_not_in [OF rm wfD(4) [OF assms(1)]])
  moreover have "mem s2 e \<noteq> None" using rm te by (auto simp: removed_def)
  ultimately obtain s3 where s3: "set_idx s2 e u32_minus1 = Some s3" "min_heap_wf s3"
    "elems s3 = elems s2" "key s3 = key s2" "n_elems s3 = n_elems s2" "a_cap s3 = a_cap s2"
    "idx_at s3 u32_minus1 e" "\<forall>x. x \<noteq> e \<longrightarrow> mem s3 x = mem s2 x"
    "\<forall>x. mem s3 x = None \<longleftrightarrow> mem s2 x = None"
    using set_idx_out [of s2 e u32_minus1] rm by (auto simp: removed_def)
  have "removed s e s3" using rm s3 assms(2) unfolding removed_def by metis
  moreover have "min_heap_erase s e = Some (0, s3)"
    unfolding min_heap_erase_def Let_def
    by (simp only: te sub nN rl up s2 s3(1) Option.bind.simps ne simp_thms if_True)
  ultimately show ?thesis using s3 by blast
qed

text \<open>The order of a heap depends on the keys only, so a changed key is a replaced one.\<close>

lemma heap_order_map:
  "heap_on k F = heap_on id (map k F)" "heap_up k h F = heap_up id h (map k F)"
  "heap_down k h F = heap_down id h (map k F)" if "h < length F"
proof -
  have *: "0 < j \<Longrightarrow> j < length F \<Longrightarrow> par j < length F" for j
    using par_lt [of j] by simp
  show "heap_on k F = heap_on id (map k F)" using * by (simp add: heap_on_def)
  show "heap_up k h F = heap_up id h (map k F)" "heap_down k h F = heap_down id h (map k F)"
    using * that by (auto simp: heap_up_def heap_down_def bridged_def)
qed

lemma map_key_update:
  "distinct F \<Longrightarrow> h < length F \<Longrightarrow> map (k(F ! h := t)) F = (map k F)[h := t]"
  by (auto simp: list_eq_iff_nth_eq nth_list_update nth_eq_iff_index_eq)

lemma heap_rekey:
  assumes "heap_on k F" and "distinct F" and h: "h < length F"
  shows "0 < h \<Longrightarrow> t \<le> k (F ! par h) \<Longrightarrow> heap_up (k(F ! h := t)) h F"
    and "h = 0 \<or> k (F ! par h) \<le> t \<Longrightarrow> heap_down (k(F ! h := t)) h F"
  using heap_up_replace [of id "map k F" h t] heap_down_replace [of id "map k F" h t]
    assms le_less_trans [OF par_le h]
  by (auto simp: heap_order_map [OF h] map_key_update)

lemma adjust_spec:
  assumes "min_heap_wf s" and "e \<in> set (elems s)" and "mem s e = Some te"
  shows "\<exists>s'. min_heap_adjust realloc (s\<lparr>mem := (mem s)(e \<mapsto> te\<lparr>te_time := t\<rparr>)\<rparr>) e = Some (0, s') \<and>
     min_heap_wf s' \<and> mset (elems s') = mset (elems s) \<and> key s' = (key s)(e := t)"
proof -
  define s0 where "s0 = s\<lparr>mem := (mem s)(e \<mapsto> te\<lparr>te_time := t\<rparr>)\<rparr>"
  have s0: "p_arr s0 = p_arr s" "n_elems s0 = n_elems s" "a_cap s0 = a_cap s"
    "mem s0 = (mem s)(e \<mapsto> te\<lparr>te_time := t\<rparr>)" by (simp_all add: s0_def)
  have el: "elems s0 = elems s" by (simp add: elems_def s0)
  have k0: "key s0 = (key s)(e := t)" by (auto simp: key_def s0 fun_eq_iff)
  have al: "\<exists>a. mem s0 x = Some a" if "x \<in> set (elems s)" for x
    using wf_alloc [OF assms(1) that] by (simp add: s0)
  have ix: "idx_at s0 j x = idx_at s j x" for j x using assms(3) by (simp add: idx_at_def s0)
  obtain i where i: "i < n_elems s" "elems s ! i = e"
    using assms(2) wfD(8) [OF assms(1)] by (auto simp: in_set_conv_nth)
  note l = wfD(8) [OF assms(1)]
  have tei: "min_heap_idx te = i"
    using wfD(6) [OF assms(1) i(1)] i(2) assms(3) by (simp add: idx_at_def)
  have H: "hole_at s0 i e (elems s)"
    unfolding hole_at_def el s0(1,2) using i wfD(1-6) [OF assms(1)] al ix
    by (auto simp: list_update_same_conv)
  have g: "min_heap_elem_greater s0 (elems s ! j) e = Some (key s0 (elems s ! j) > t)" if "j < n_elems s" for j
    using hole_greater [OF H, of j i] that i k0 by (simp add: s0)
  let ?g = "key s (elems s ! par i) > t"
  have p: "parent i = par i" "par i < n_elems s" "par i \<noteq> i" if "0 < i"
    using that i(1) wfD(3) [OF assms(1)] par_lt [OF that] by (auto simp: parent_par)
  have kp: "key s0 (elems s ! par i) = key s (elems s ! par i)" if "0 < i"
    using p [OF that] i wfD(4) [OF assms(1)] l k0 by (auto simp: nth_eq_iff_index_eq)
  have up: "(if i > 0 then do { pe \<leftarrow> rd_p s0 (parent i); min_heap_elem_greater s0 pe e } else Some False)
      = Some (0 < i \<and> ?g)"
    using hole_rd [OF H, of "par i"] g p kp by (auto simp: s0)
  have ne: "u32_minus1 \<noteq> i" using i(1) wfD(3) [OF assms(1)] by (simp add: u32_minus1_def)
  have hr: "heap_on (key s) (elems s)" "distinct (elems s)" "i < length (elems s)"
    using wfD [OF assms(1)] i(1) by auto
  obtain s2 where s2: "(if 0 < i \<and> ?g then min_heap_shift_up_unconditional s0 i e
      else min_heap_shift_down s0 i e) = Some s2" and st: "settled (elems s) s0 s2"
  proof (cases "0 < i \<and> ?g")
    case True
    then have "heap_up (key s0) i (elems s)" using heap_rekey(1) [OF hr, of t] i k0 by simp
    moreover have "key s0 (elems s ! par i) > key s0 (elems s ! i)" using True kp k0 i(2) by simp
    ultimately show ?thesis
      using that shift_up_unconditional_settles [OF H] True by auto
  next
    case False
    then have "heap_down (key s0) i (elems s)" using heap_rekey(2) [OF hr, of t] i k0 by auto
    then show ?thesis using that shift_down_settles [OF H] False by auto
  qed
  have "min_heap_wf s2"
    by (rule settled_wf [OF st]) (use wfD [OF assms(1)] s0 in auto)
  moreover have "mset (elems s2) = mset (elems s)" using st by (simp add: settled_def)
  moreover have "key s2 = (key s)(e := t)"
    using st k0 idx_frame_key by (auto simp: settled_def)
  moreover have "mem s0 e = Some (te\<lparr>te_time := t\<rparr>)" "min_heap_idx (te\<lparr>te_time := t\<rparr>) = i"
    using tei by (simp_all add: s0)
  then have "min_heap_adjust realloc s0 e = Some (0, s2)"
    unfolding min_heap_adjust_def Let_def
    by (simp only: up s2 Option.bind.simps ne simp_thms if_False)
  ultimately show ?thesis unfolding s0_def by blast
qed

section \<open>A concrete heap\<close>

text \<open>Three timers in an array of four cells and a fourth, allocated and outside the heap.\<close>

definition demo_heap :: min_heap where
  "demo_heap = \<lparr>p_arr = [1, 2, 3, 0], n_elems = 3, a_cap = 4,
     mem = [1 \<mapsto> \<lparr>te_time = 5, min_heap_idx = 0, te_handler = 7, te_privdata = 0\<rparr>,
            2 \<mapsto> \<lparr>te_time = 9, min_heap_idx = 1, te_handler = 7, te_privdata = 0\<rparr>,
            3 \<mapsto> \<lparr>te_time = 6, min_heap_idx = 2, te_handler = 8, te_privdata = 0\<rparr>,
            4 \<mapsto> \<lparr>te_time = 1, min_heap_idx = u32_minus1, te_handler = 7, te_privdata = 0\<rparr>]\<rparr>"

lemma demo_heap_elems [simp]: "elems demo_heap = [1, 2, 3]" "n_elems demo_heap = 3" "a_cap demo_heap = 4"
  by (simp_all add: demo_heap_def elems_def)

lemma demo_heap_key [simp]: "key demo_heap (Suc 0) = 5" "key demo_heap 2 = 9" "key demo_heap 3 = 6"
  "key demo_heap 4 = 1"
  by (simp_all add: demo_heap_def key_def)

lemma demo_heap_mem: "\<exists>te. mem demo_heap (Suc 0) = Some te" "\<exists>te. mem demo_heap 4 = Some te"
  by (simp_all add: demo_heap_def)

lemma demo_heap_unused: "mem demo_heap 9 = None"
  by (simp add: demo_heap_def)

lemma demo_heap_wf: "min_heap_wf demo_heap"
proof -
  have "idx_at demo_heap i ([1, 2, 3] ! i)" if "i < 3" for i
  proof -
    from that have "i = 0 \<or> i = 1 \<or> i = 2" by linarith
    then show ?thesis by (auto simp: idx_at_def demo_heap_def)
  qed
  moreover have "key demo_heap ([1, 2, 3] ! par i) \<le> key demo_heap ([1, 2, 3] ! i)" if "0 < i" "i < 3" for i
  proof -
    from that have "i = 1 \<or> i = 2" by linarith
    then show ?thesis by (auto simp: par_def)
  qed
  then have "heap_on (key demo_heap) [1, 2, 3]" by (simp add: heap_on_def)
  ultimately show ?thesis by (simp add: min_heap_wf_def demo_heap_def elems_def)
qed

section \<open>Properties\<close>

text \<open>a push of an allocated entry that is not in the heap never faults; it fails with -1 and
  the heap unchanged exactly when the array is full and realloc fails, and otherwise returns 0 with
  a well-formed heap that holds exactly the old entries and the new one, every deadline unchanged.\<close>

theorem min_heap_push_correct:
  assumes "min_heap_wf s" and "n_elems s + 1 < 2147483648"
    and "mem s e = Some te" and "e \<noteq> NULL" and "e \<notin> set (elems s)"
  shows "\<exists>s'. min_heap_push realloc s e =
       Some (if realloc = None \<and> n_elems s = a_cap s then -1 else 0, s') \<and>
     min_heap_wf s' \<and> key s' = key s \<and> (\<forall>x. mem s' x = None \<longleftrightarrow> mem s x = None) \<and>
     (if realloc = None \<and> n_elems s = a_cap s then s' = s
      else mset (elems s') = add_mset e (mset (elems s)) \<and> n_elems s' = n_elems s + 1)"
  using assms by (rule push_spec)

theorem min_heap_push_witness:
  "\<exists>s'. min_heap_push None demo_heap 4 = Some (0, s') \<and> min_heap_wf s' \<and> mset (elems s') = {#4, 1, 2, 3#}"
  using min_heap_push_correct [of demo_heap 4 "the (mem demo_heap 4)" None] demo_heap_wf
  by (auto simp: demo_heap_def elems_def)

text \<open>pop returns the null pointer and changes nothing on an empty heap; otherwise it returns
  an entry of least deadline, takes exactly that entry out, resets its index to -1 and leaves a
  well-formed heap. It never faults.\<close>

theorem min_heap_pop_correct:
  assumes "min_heap_wf s"
  shows "if n_elems s = 0 then min_heap_pop s = Some (NULL, s)
    else \<exists>s'. min_heap_pop s = Some (elems s ! 0, s') \<and> removed s (elems s ! 0) s' \<and>
      elems s ! 0 \<in> set (elems s) \<and> (\<forall>x\<in>set (elems s). key s (elems s ! 0) \<le> key s x) \<and>
      idx_at s' u32_minus1 (elems s ! 0)"
  using assms by (rule pop_spec)

theorem min_heap_pop_witness:
  "\<exists>s'. min_heap_pop demo_heap = Some (1, s') \<and> min_heap_wf s' \<and> mset (elems s') = {#2, 3#}"
  using min_heap_pop_correct [of demo_heap] demo_heap_wf by (auto simp: removed_def)

text \<open>C2: erasing an entry that is in the heap, wherever it stands, returns 0, takes exactly it
  out, resets its index and leaves a well-formed heap.\<close>

theorem min_heap_erase_correct:
  assumes "min_heap_wf s" and "e \<in> set (elems s)"
  shows "\<exists>s'. min_heap_erase s e = Some (0, s') \<and> removed s e s' \<and> idx_at s' u32_minus1 e"
  using assms by (rule erase_spec)

theorem min_heap_erase_witness:
  "\<exists>s'. min_heap_erase demo_heap 2 = Some (0, s') \<and> min_heap_wf s' \<and> mset (elems s') = {#1, 3#}"
  using min_heap_erase_correct [of demo_heap 2] demo_heap_wf by (auto simp: removed_def)

text \<open>After the deadline of an entry in the heap has been changed to any value, adjust returns 0
  and restores a well-formed heap with the same entries.\<close>

theorem min_heap_adjust_correct:
  assumes "min_heap_wf s" and "e \<in> set (elems s)" and "mem s e = Some te"
  shows "\<exists>s'. min_heap_adjust realloc (s\<lparr>mem := (mem s)(e \<mapsto> te\<lparr>te_time := t\<rparr>)\<rparr>) e = Some (0, s') \<and>
     min_heap_wf s' \<and> mset (elems s') = mset (elems s) \<and> key s' = (key s)(e := t)"
  using assms by (rule adjust_spec)

theorem min_heap_adjust_witness:
  "\<exists>s'. min_heap_adjust None (demo_heap\<lparr>mem := (mem demo_heap)(1 \<mapsto> the (mem demo_heap 1)\<lparr>te_time := 20\<rparr>)\<rparr>) 1
       = Some (0, s') \<and> min_heap_wf s' \<and> key s' 1 = 20 \<and> key s' 3 = 6"
  using min_heap_adjust_correct [of demo_heap 1 "the (mem demo_heap 1)" None 20] demo_heap_wf
  by (auto simp: demo_heap_mem)

end
