(* ===== verification/Timer_Store.thy ===== *)
theory Timer_Store
  imports Prelude
begin

text \<open>
  The contract the timers share. The min-heap, the skip list and the red-black tree each give
  \<^verbatim>\<open>expire_timer\<close> an earliest entry, its deadline and a way to take it out; the loop around them is
  the same code in \<^verbatim>\<open>mh-timer.h\<close>, \<^verbatim>\<open>skl-timer.c\<close> and \<^verbatim>\<open>rbt-timer.h\<close>. The locale names the
  operations and the laws the loop relies on; its lemma is the loop's correctness, proved once and
  used through the interpretations on the model's own containers.
\<close>

section \<open>The expiry loop\<close>

text \<open>
  \<open>for (;;) { e = peek; if (!e) break; if (deadline(e) > now) break; fire(e); }\<close>. The list of the
  result is the ghost record of what was fired, each entry with its deadline at that moment.
\<close>

partial_function (option) expire_loop ::
  "('s \<Rightarrow> 'e option option) \<Rightarrow> ('s \<Rightarrow> 'e \<Rightarrow> nat option) \<Rightarrow> ('e \<Rightarrow> 's \<Rightarrow> 's option) \<Rightarrow> nat \<Rightarrow> 's \<Rightarrow>
   (('e \<times> nat) list \<times> 's) option" where
  "expire_loop peek deadline fire now s =
     do { t \<leftarrow> peek s;
          (case t of
             None \<Rightarrow> Some ([], s)
           | Some e \<Rightarrow>
               do { d \<leftarrow> deadline s e;
                    if d > now then Some ([], s)
                    else do { s1 \<leftarrow> fire e s;
                              r \<leftarrow> expire_loop peek deadline fire now s1;
                              Some ((e, d) # fst r, snd r) } }) }"

section \<open>The contract\<close>

locale timer_store =
  fixes invar :: "'s \<Rightarrow> bool"
    and items :: "'s \<Rightarrow> 'e multiset"
    and key :: "'s \<Rightarrow> 'e \<Rightarrow> nat"
    and peek :: "'s \<Rightarrow> 'e option option"
    and deadline :: "'s \<Rightarrow> 'e \<Rightarrow> nat option"
    and take_out :: "'e \<Rightarrow> 's \<Rightarrow> 's option"
  assumes peek_empty: "invar s \<Longrightarrow> items s = {#} \<Longrightarrow> peek s = Some None"
    and peek_least: "invar s \<Longrightarrow> items s \<noteq> {#} \<Longrightarrow>
      \<exists>e. peek s = Some (Some e) \<and> e \<in># items s \<and> (\<forall>x\<in>#items s. key s e \<le> key s x)"
    and deadline_key: "invar s \<Longrightarrow> e \<in># items s \<Longrightarrow> deadline s e = Some (key s e)"
    and take_out_peeked: "invar s \<Longrightarrow> peek s = Some (Some e) \<Longrightarrow>
      \<exists>s'. take_out e s = Some s' \<and> invar s' \<and> items s' = items s - {#e#} \<and>
        (\<forall>x\<in>#items s'. key s' x = key s x)"
begin

text \<open>
  A handler is well-behaved at \<open>now\<close> when it returns with the container in order, the entry that
  fired still first, the other entries as they were, and only entries later than \<open>now\<close> added.
\<close>

definition well_behaved :: "nat \<Rightarrow> ('e \<Rightarrow> 's \<Rightarrow> 's option) \<Rightarrow> bool" where
  "well_behaved now handler \<longleftrightarrow>
     (\<forall>e s. invar s \<longrightarrow> peek s = Some (Some e) \<longrightarrow>
        (\<exists>s' new. handler e s = Some s' \<and> invar s' \<and> peek s' = Some (Some e) \<and>
           items s' = items s + new \<and> (\<forall>x\<in>#items s. key s' x = key s x) \<and>
           (\<forall>x\<in>#new. now < key s' x)))"

definition due :: "nat \<Rightarrow> 's \<Rightarrow> 'e multiset" where
  "due now s = filter_mset (\<lambda>x. key s x \<le> now) (items s)"

definition waiting :: "nat \<Rightarrow> 's \<Rightarrow> 'e multiset" where
  "waiting now s = filter_mset (\<lambda>x. now < key s x) (items s)"

lemma fire_step:
  assumes inv: "invar s" and pk: "peek s = Some (Some e)" and le: "key s e \<le> now"
    and wb: "well_behaved now handler"
  obtains s' where "do { s1 \<leftarrow> handler e s; take_out e s1 } = Some s'" and "invar s'"
    and "due now s = add_mset e (due now s')" and "waiting now s \<subseteq># waiting now s'"
    and "\<And>x. x \<in># due now s' \<Longrightarrow> key s' x = key s x"
proof -
  have eI: "e \<in># items s"
    using peek_least [OF inv] peek_empty [OF inv] pk by (cases "items s = {#}") auto
  obtain s1 new where s1: "handler e s = Some s1" "invar s1" "peek s1 = Some (Some e)"
    "items s1 = items s + new" "\<forall>x\<in>#items s. key s1 x = key s x" "\<forall>x\<in>#new. now < key s1 x"
    using wb inv pk unfolding well_behaved_def by meson
  obtain s' where s': "take_out e s1 = Some s'" "invar s'" "items s' = items s1 - {#e#}"
    "\<forall>x\<in>#items s'. key s' x = key s1 x"
    using take_out_peeked [OF s1(2,3)] by blast
  obtain M where M: "items s = add_mset e M" using eI by (metis multi_member_split)
  have it: "items s' = M + new" using s'(3) s1(4) M by simp
  have kM: "key s' x = key s x" if "x \<in># M" for x
    using that s'(4) s1(5) it M by auto
  have kN: "now < key s' x" if "x \<in># new" for x
    using that s'(4) s1(6) it by auto
  have fM: "filter_mset (\<lambda>x. key s' x \<le> now) M = filter_mset (\<lambda>x. key s x \<le> now) M"
    "filter_mset (\<lambda>x. now < key s' x) M = filter_mset (\<lambda>x. now < key s x) M"
    using kM by (auto intro: filter_mset_cong)
  have fN: "filter_mset (\<lambda>x. key s' x \<le> now) new = {#}"
    using kN by (auto simp: filter_mset_eq_mempty_iff not_le)
  have d: "due now s' = filter_mset (\<lambda>x. key s x \<le> now) M"
    using it fM fN by (simp add: due_def)
  show ?thesis
  proof
    show "do { s1 \<leftarrow> handler e s; take_out e s1 } = Some s'" using s1 s' by simp
    show "due now s = add_mset e (due now s')" using d M le by (simp add: due_def)
    show "waiting now s \<subseteq># waiting now s'" using it fM M le by (simp add: waiting_def)
    show "key s' x = key s x" if "x \<in># due now s'" for x using that d kM by simp
  qed (rule s'(2))
qed

text \<open>
  The loop ends, fires every due entry exactly once in the order of the deadlines, keeps every
  entry that is not due, and leaves nothing due behind.
\<close>

lemma expire_loop_correct:
  assumes "invar s" and wb: "well_behaved now handler"
  shows "\<exists>fired s'. expire_loop peek deadline (\<lambda>e s. do { s1 \<leftarrow> handler e s; take_out e s1 }) now s
       = Some (fired, s') \<and> invar s' \<and> mset (map fst fired) = due now s \<and>
     (\<forall>p\<in>set fired. snd p = key s (fst p)) \<and> sorted (map snd fired) \<and>
     waiting now s \<subseteq># items s' \<and> due now s' = {#}"
  using assms(1)
proof (induction "size (due now s)" arbitrary: s)
  case (0 s)
  then have none: "due now s = {#}" by simp
  have wt: "waiting now s \<subseteq># items s" by (simp add: waiting_def)
  show ?case
  proof (cases "items s = {#}")
    case True
    then show ?thesis
      using peek_empty [OF 0(2)] none 0(2) wt by (simp add: expire_loop.simps)
  next
    case False
    then obtain e where e: "peek s = Some (Some e)" "e \<in># items s"
      using peek_least [OF 0(2)] by blast
    then have "now < key s e" using none by (auto simp: due_def filter_mset_eq_mempty_iff not_le)
    then show ?thesis
      using e deadline_key [OF 0(2) e(2)] none 0(2) wt by (simp add: expire_loop.simps)
  qed
next
  case (Suc n s)
  then have ne: "items s \<noteq> {#}" by (auto simp: due_def)
  obtain e where e: "peek s = Some (Some e)" "e \<in># items s" "\<forall>x\<in>#items s. key s e \<le> key s x"
    using peek_least [OF Suc.prems ne] by blast
  have "due now s \<noteq> {#}" using Suc.hyps(2) by auto
  then obtain y where "y \<in># items s" "key s y \<le> now" by (auto simp: due_def filter_mset_eq_mempty_iff)
  then have le: "key s e \<le> now" using e(3) by (meson le_trans)
  obtain s1 where s1: "do { s1 \<leftarrow> handler e s; take_out e s1 } = Some s1" "invar s1"
    "due now s = add_mset e (due now s1)" "waiting now s \<subseteq># waiting now s1"
    "\<And>x. x \<in># due now s1 \<Longrightarrow> key s1 x = key s x"
    by (rule fire_step [OF Suc.prems e(1) le wb]) (rule that)
  have "n = size (due now s1)" using Suc.hyps(2) s1(3) by simp
  then obtain fired s' where r:
    "expire_loop peek deadline (\<lambda>e s. do { s1 \<leftarrow> handler e s; take_out e s1 }) now s1 = Some (fired, s')"
    "invar s'" "mset (map fst fired) = due now s1" "\<forall>p\<in>set fired. snd p = key s1 (fst p)"
    "sorted (map snd fired)" "waiting now s1 \<subseteq># items s'" "due now s' = {#}"
    using Suc.hyps(1) s1(2) by blast
  have mem: "fst p \<in># due now s1" if "p \<in> set fired" for p
    using that r(3) by (metis image_eqI list.set_map set_mset_mset)
  have k: "snd p = key s (fst p)" "key s e \<le> snd p" if "p \<in> set fired" for p
  proof -
    show "snd p = key s (fst p)" using that r(4) s1(5) mem by simp
    moreover have "fst p \<in># due now s" using mem [OF that] s1(3) by simp
    ultimately show "key s e \<le> snd p" using e(3) by (simp add: due_def)
  qed
  have "expire_loop peek deadline (\<lambda>e s. do { s1 \<leftarrow> handler e s; take_out e s1 }) now s
      = Some ((e, key s e) # fired, s')"
    using e le s1(1) r(1) deadline_key [OF Suc.prems e(2)]
    by (subst expire_loop.simps) simp
  moreover have "waiting now s \<subseteq># items s'" using s1(4) r(6) by (rule subset_mset.trans)
  ultimately show ?case using r s1(3) k by auto
qed

end

section \<open>Memory\<close>

text \<open>Memory that is always the entries of a container and the blocks apart from them: after the loop the blocks of
  the entries that fired are gone, unless a new entry has one.\<close>

lemma owned_after:
  assumes "mset (map fst fired) = filter_mset (\<lambda>x. k x \<le> (now :: nat)) (mset xs)"
    and "filter_mset (\<lambda>x. now < k x) (mset xs) \<subseteq># mset ys"
    and "D' = (D - set xs) \<union> set ys" and "set xs \<subseteq> D"
  shows "D' = D - fst ` set fired \<union> set ys"
proof -
  have f: "fst ` set fired = {x \<in> set xs. k x \<le> now}"
    using arg_cong [OF assms(1), of set_mset] by auto
  moreover have "x \<in> set ys" if "x \<in> set xs" "now < k x" for x
    using that mset_subset_eqD [OF assms(2), of x] by simp
  ultimately show ?thesis using assms(3,4) by (auto simp: not_le)
qed

end
