(* ===== verification/Mh_Timer.thy ===== *)
theory Mh_Timer
  imports MinHeap Timer_Store
begin

text \<open>
  The timer over the min-heap, \<^verbatim>\<open>mh-timer.h\<close>: its operations on the static heap, the interpretation
  of the timer contract on it, and the properties of the timer. The clock reading, the result of
  \<^verbatim>\<open>malloc\<close> and of \<^verbatim>\<open>realloc\<close> and the user's callbacks are parameters; each callback acts on the
  whole state, since it may add and delete timers.
\<close>

section \<open>Memory\<close>

text \<open>\<open>free\<close>: an address that is not allocated is a double free.\<close>

definition free_te :: "addr \<Rightarrow> min_heap \<Rightarrow> min_heap option" where
  "free_te x s = (if mem s x = None then None else Some (s\<lparr>mem := (mem s)(x := None)\<rparr>))"

section \<open>The timer\<close>

definition mh_init_timer :: "min_heap \<Rightarrow> min_heap" where
  "mh_init_timer s = min_heap_ctor s"

definition mh_add_timer :: "addr option \<Rightarrow> (nat \<Rightarrow> addr) option \<Rightarrow> uint32 \<Rightarrow> uint32 \<Rightarrow> nat \<Rightarrow>
    min_heap \<Rightarrow> (addr \<times> min_heap) option" where
  "mh_add_timer malloc realloc now msec callback s =
     (case malloc of
        None \<Rightarrow> Some (NULL, s)
      | Some te \<Rightarrow>
          do { let s1 = s\<lparr>mem := (mem s)(te \<mapsto> \<lparr>te_time = u32_add now msec, min_heap_idx = 0,
                 te_handler = callback, te_privdata = 0\<rparr>)\<rparr>;
               r \<leftarrow> min_heap_push realloc s1 te;
               if fst r \<noteq> 0 then do { s2 \<leftarrow> free_te te (snd r); Some (NULL, s2) }
               else Some (te, snd r) })"

definition mh_del_timer :: "min_heap \<Rightarrow> addr \<Rightarrow> (bool \<times> min_heap) option" where
  "mh_del_timer s e = do { r \<leftarrow> min_heap_erase s e; Some (0 = fst r, snd r) }"

text \<open>The subtraction of the two \<open>int\<close>s is undefined when it overflows.\<close>

definition mh_find_nearest_expire_timer :: "uint32 \<Rightarrow> min_heap \<Rightarrow> int option" where
  "mh_find_nearest_expire_timer now s =
     do { te \<leftarrow> min_heap_top s;
          if te = NULL then Some (-1)
          else do { t \<leftarrow> mem s te;
                    let diff = s32 (te_time t) - s32 now;
                    if diff < -2147483648 \<or> 2147483647 < diff then None
                    else Some (if diff > 0 then diff else 0) } }"

definition mh_peek :: "min_heap \<Rightarrow> addr option option" where
  "mh_peek s = do { te \<leftarrow> min_heap_top s; Some (if te = NULL then None else Some te) }"

definition mh_deadline :: "min_heap \<Rightarrow> addr \<Rightarrow> uint32 option" where
  "mh_deadline s te = map_option te_time (mem s te)"

text \<open>\<open>te->handler(te)\<close>, with \<open>call\<close> the code behind the function pointers.\<close>

definition mh_call :: "(nat \<Rightarrow> addr \<Rightarrow> min_heap \<Rightarrow> min_heap option) \<Rightarrow> addr \<Rightarrow> min_heap \<Rightarrow> min_heap option"
  where
  "mh_call call te s = do { t \<leftarrow> mem s te; call (te_handler t) te s }"

definition mh_drop :: "addr \<Rightarrow> min_heap \<Rightarrow> min_heap option" where
  "mh_drop te s = do { r \<leftarrow> min_heap_pop s; free_te te (snd r) }"

definition mh_expire_timer :: "(nat \<Rightarrow> addr \<Rightarrow> min_heap \<Rightarrow> min_heap option) \<Rightarrow> uint32 \<Rightarrow> min_heap \<Rightarrow>
    ((addr \<times> uint32) list \<times> min_heap) option" where
  "mh_expire_timer call now s =
     expire_loop mh_peek mh_deadline (\<lambda>te s. do { s1 \<leftarrow> mh_call call te s; mh_drop te s1 }) now s"

section \<open>The heap keeps the timer contract\<close>

lemma free_te_wf:
  assumes "min_heap_wf s" and "x \<notin> set (elems s)" and "mem s x \<noteq> None"
  shows "\<exists>s'. free_te x s = Some s' \<and> min_heap_wf s' \<and> elems s' = elems s \<and> n_elems s' = n_elems s \<and>
     a_cap s' = a_cap s \<and> (\<forall>y. y \<noteq> x \<longrightarrow> mem s' y = mem s y) \<and> mem s' x = None"
proof -
  let ?s = "s\<lparr>mem := (mem s)(x := None)\<rparr>"
  have el: "elems ?s = elems s" by (simp add: elems_def)
  have ne: "y \<in> set (elems s) \<Longrightarrow> y \<noteq> x" for y using assms(2) by blast
  have k: "y \<in> set (elems s) \<Longrightarrow> key ?s y = key s y" for y using ne by (auto simp: key_def)
  have ix: "idx_at ?s i (elems s ! i)" if "i < n_elems s" for i
  proof -
    have "elems s ! i \<noteq> x" using ne that wfD(8) [OF assms(1)] by simp
    then show ?thesis using wfD(6) [OF assms(1) that] by (simp add: idx_at_def)
  qed
  have "heap_on (key ?s) (elems s)"
    using wfD(7) [OF assms(1)] k par_le
    unfolding heap_on_def by (metis le_less_trans nth_mem)
  then have "min_heap_wf ?s"
    unfolding min_heap_wf_def el using wfD(1-5) [OF assms(1)] ix by simp
  then show ?thesis using assms(3) el by (auto simp: free_te_def)
qed

lemma mh_top:
  assumes "min_heap_wf s"
  shows "elems s = [] \<Longrightarrow> mh_peek s = Some None"
    and "elems s \<noteq> [] \<Longrightarrow> mh_peek s = Some (Some (elems s ! 0)) \<and> elems s ! 0 \<in> set (elems s)"
proof -
  show "elems s = [] \<Longrightarrow> mh_peek s = Some None"
    using wfD(8) [OF assms] by (simp add: mh_peek_def min_heap_top_def)
  assume ne: "elems s \<noteq> []"
  then have "n_elems s \<noteq> 0" "elems s ! 0 \<in> set (elems s)"
    using wfD(8) [OF assms] by (metis length_0_conv, metis length_greater_0_conv nth_mem)
  moreover from this have "elems s ! 0 \<noteq> NULL" using wfD(5) [OF assms] by metis
  ultimately show "mh_peek s = Some (Some (elems s ! 0)) \<and> elems s ! 0 \<in> set (elems s)"
    using wfD(1,2) [OF assms] by (auto simp: mh_peek_def min_heap_top_def rd_p_def elems_def)
qed

lemma mh_drop_top:
  assumes wf: "min_heap_wf s" and ne: "elems s \<noteq> []"
  shows "\<exists>s'. mh_drop (elems s ! 0) s = Some s' \<and> min_heap_wf s' \<and>
    mset (elems s') = mset (elems s) - {#elems s ! 0#} \<and> (\<forall>x\<in>set (elems s'). key s' x = key s x) \<and>
    (\<forall>x. mem s' x = None \<longleftrightarrow> x = elems s ! 0 \<or> mem s x = None)"
proof -
  let ?e = "elems s ! 0"
  have n: "n_elems s \<noteq> 0" using ne wfD(8) [OF wf] by (metis length_0_conv)
  obtain s1 where s1: "min_heap_pop s = Some (?e, s1)" "removed s ?e s1" "?e \<in> set (elems s)"
    using pop_spec [OF wf] n by auto
  have out: "?e \<notin> set (elems s1)" by (rule removed_not_in [OF s1(2) wfD(4) [OF wf]])
  moreover have "mem s1 ?e \<noteq> None" using s1(2) wf_alloc [OF wf s1(3)] by (auto simp: removed_def)
  ultimately obtain s' where s': "free_te ?e s1 = Some s'" "min_heap_wf s'" "elems s' = elems s1"
    "\<forall>y. y \<noteq> ?e \<longrightarrow> mem s' y = mem s1 y" "mem s' ?e = None"
    using free_te_wf [of s1 ?e] s1(2) by (auto simp: removed_def)
  have "key s' x = key s x" if "x \<in> set (elems s')" for x
  proof -
    have "x \<noteq> ?e" using that s'(3) out by auto
    then have "key s' x = key s1 x" using s'(4) by (simp add: key_def)
    then show ?thesis using s1(2) by (simp add: removed_def)
  qed
  moreover have "mh_drop ?e s = Some s'" using s1(1) s'(1) by (simp add: mh_drop_def)
  moreover have "mem s' x = None \<longleftrightarrow> x = ?e \<or> mem s x = None" for x
    using s'(4,5) s1(2) by (cases "x = ?e") (auto simp: removed_def)
  ultimately show ?thesis using s'(2,3) s1(2) by (auto simp: removed_def)
qed

text \<open>The heap is in order, and what is allocated are its entries and the blocks \<open>C\<close>, which are none of its entries.\<close>

definition mh_owns :: "addr set \<Rightarrow> min_heap \<Rightarrow> bool" where
  "mh_owns C s \<longleftrightarrow> min_heap_wf s \<and> dom (mem s) = C \<union> set (elems s) \<and> C \<inter> set (elems s) = {}"

lemma mh_owns_start: "min_heap_wf s \<Longrightarrow> mh_owns (dom (mem s) - set (elems s)) s"
  using wf_alloc [of s] by (auto simp: mh_owns_def)

interpretation mh: timer_store "mh_owns C" "\<lambda>s. mset (elems s)" key mh_peek mh_deadline mh_drop for C
proof
  fix s :: min_heap and e :: addr
  assume own: "mh_owns C s"
  then have wf: "min_heap_wf s" and C: "dom (mem s) = C \<union> set (elems s)" "C \<inter> set (elems s) = {}" by (simp_all add: mh_owns_def)
  show "mset (elems s) = {#} \<Longrightarrow> mh_peek s = Some None" using mh_top [OF wf] by simp
  show "\<exists>e. mh_peek s = Some (Some e) \<and> e \<in># mset (elems s) \<and> (\<forall>x\<in>#mset (elems s). key s e \<le> key s x)"
    if "mset (elems s) \<noteq> {#}"
    using mh_top(2) [OF wf] that heap_on_hd_Min [OF wfD(7) [OF wf]] by auto
  show "mh_deadline s e = Some (key s e)" if "e \<in># mset (elems s)"
    using wf_alloc [OF wf, of e] that by (auto simp: mh_deadline_def key_def)
  assume pk: "mh_peek s = Some (Some e)"
  then have "elems s \<noteq> []" using mh_top(1) [OF wf] by auto
  moreover from this have e: "e = elems s ! 0" "e \<in> set (elems s)" using mh_top(2) [OF wf] pk by simp_all
  ultimately obtain s' where s': "mh_drop e s = Some s'" "min_heap_wf s'" "mset (elems s') = mset (elems s) - {#e#}"
    "\<forall>x\<in>set (elems s'). key s' x = key s x" "\<forall>x. mem s' x = None \<longleftrightarrow> x = e \<or> mem s x = None"
    using mh_drop_top [OF wf] by auto
  have "set (elems s') = set (elems s) - {e}"
    using s'(3) wfD(4) [OF wf] by (metis mset_remove1 set_mset_mset set_remove1_eq)
  moreover have "x \<in> dom (mem s') \<longleftrightarrow> x \<in> dom (mem s) - {e}" for x
    using s'(5) by (simp only: domIff Diff_iff singleton_iff) blast
  then have "dom (mem s') = dom (mem s) - {e}" by blast
  ultimately have "mh_owns C s'" using s'(2) C e(2) by (auto simp: mh_owns_def)
  then show "\<exists>s'. mh_drop e s = Some s' \<and> mh_owns C s' \<and>
      mset (elems s') = mset (elems s) - {#e#} \<and> (\<forall>x\<in>#mset (elems s'). key s' x = key s x)"
    using s' by auto
qed


section \<open>The operations\<close>

lemma mh_fresh_wf:
  assumes wf: "min_heap_wf s" and fr: "mem s te = None"
  shows "min_heap_wf (s\<lparr>mem := (mem s)(te \<mapsto> t)\<rparr>)" (is "min_heap_wf ?s")
    and "te \<notin> set (elems s)"
proof -
  show out: "te \<notin> set (elems s)" using wf_alloc [OF wf, of te] fr by auto
  have el: "elems ?s = elems s" by (simp add: elems_def)
  have k: "y \<in> set (elems s) \<Longrightarrow> key ?s y = key s y" for y using out by (auto simp: key_def)
  have "idx_at ?s i (elems s ! i)" if "i < n_elems s" for i
  proof -
    have "elems s ! i \<noteq> te" using out that wfD(8) [OF wf] by (metis nth_mem)
    then show ?thesis using wfD(6) [OF wf that] by (simp add: idx_at_def)
  qed
  moreover have "heap_on (key ?s) (elems s)"
    using wfD(7) [OF wf] k par_le unfolding heap_on_def by (metis le_less_trans nth_mem)
  ultimately show "min_heap_wf ?s"
    unfolding min_heap_wf_def el using wfD(1-5) [OF wf] by simp
qed

lemma add_timer_spec:
  assumes wf: "min_heap_wf s" and room: "n_elems s + 1 < 2147483648"
    and fr: "mem s te = None" and nn: "te \<noteq> NULL"
  shows "\<exists>r s'. mh_add_timer (Some te) realloc now msec callback s = Some (r, s') \<and> min_heap_wf s' \<and>
     (\<forall>x\<in>set (elems s). key s' x = key s x) \<and>
     (if realloc = None \<and> n_elems s = a_cap s
      then r = NULL \<and> mset (elems s') = mset (elems s) \<and> mem s' = mem s
      else r = te \<and> mset (elems s') = add_mset te (mset (elems s)) \<and> mem s' te \<noteq> None \<and>
        key s' te = (now + msec) mod 4294967296)"
proof -
  define t where "t = \<lparr>te_time = u32_add now msec, min_heap_idx = 0, te_handler = callback, te_privdata = 0\<rparr>"
  define s1 where "s1 = s\<lparr>mem := (mem s)(te \<mapsto> t)\<rparr>"
  have wf1: "min_heap_wf s1" and out: "te \<notin> set (elems s)"
    using mh_fresh_wf [OF wf fr] by (auto simp: s1_def)
  have s1: "elems s1 = elems s" "n_elems s1 = n_elems s" "a_cap s1 = a_cap s" "mem s1 te = Some t"
    by (simp_all add: s1_def elems_def)
  have k1: "key s1 te = (now + msec) mod 4294967296" "x \<in> set (elems s) \<Longrightarrow> key s1 x = key s x" for x
    using out by (auto simp: s1_def key_def t_def u32_add_def)
  obtain s2 where s2: "min_heap_push realloc s1 te
      = Some (if realloc = None \<and> n_elems s = a_cap s then -1 else 0, s2)"
    "min_heap_wf s2" "key s2 = key s1" "\<forall>x. mem s2 x = None \<longleftrightarrow> mem s1 x = None"
    "if realloc = None \<and> n_elems s = a_cap s then s2 = s1
     else mset (elems s2) = add_mset te (mset (elems s)) \<and> n_elems s2 = n_elems s + 1"
    using push_spec [OF wf1 _ s1(4) nn, of realloc] out room s1 by auto
  have add: "mh_add_timer (Some te) realloc now msec callback s =
      do { r \<leftarrow> min_heap_push realloc s1 te;
           if fst r \<noteq> 0 then do { s2 \<leftarrow> free_te te (snd r); Some (NULL, s2) } else Some (te, snd r) }"
    by (simp add: mh_add_timer_def t_def s1_def)
  show ?thesis
  proof (cases "realloc = None \<and> n_elems s = a_cap s")
    case True
    then have eq: "s2 = s1" using s2(5) by simp
    obtain s3 where s3: "free_te te s1 = Some s3" "min_heap_wf s3" "elems s3 = elems s1"
      "\<forall>y. y \<noteq> te \<longrightarrow> mem s3 y = mem s1 y" "mem s3 te = None"
      using free_te_wf [OF wf1, of te] out s1 by auto
    have "mem s3 x = mem s x" for x using s3(4,5) fr by (cases "x = te") (auto simp: s1_def)
    then have "mem s3 = mem s" by blast
    then show ?thesis using True add s2(1) eq s3 s1 by (auto simp: key_def)
  next
    case False
    then show ?thesis using add s2 k1 s1(4) by auto
  qed
qed

lemma mh_find_nearest_empty: "min_heap_wf s \<Longrightarrow> elems s = [] \<Longrightarrow> mh_find_nearest_expire_timer now s = Some (-1)"
  using wfD(8) [of s] by (simp add: mh_find_nearest_expire_timer_def min_heap_top_def)

lemma mh_find_nearest_least:
  assumes wf: "min_heap_wf s" and x: "x \<in> set (elems s)" "\<And>y. y \<in> set (elems s) \<Longrightarrow> key s x \<le> key s y"
    and lt: "key s x < 2147483648" "now < 2147483648"
  shows "mh_find_nearest_expire_timer now s = Some (max 0 (int (key s x) - int now))"
proof -
  have ne: "elems s \<noteq> []" using x(1) by auto
  note tp = mh_top(2) [OF wf ne]
  then have "elems s ! 0 \<in> set (elems s)" by simp
  then have k: "key s (elems s ! 0) = key s x"
    using x heap_on_hd_Min [OF wfD(7) [OF wf]] by (simp add: le_antisym)
  obtain t where t: "mem s (elems s ! 0) = Some t" using tp wf_alloc [OF wf] by blast
  obtain u where u: "min_heap_top s = Some u" "u \<noteq> NULL" "u = elems s ! 0"
    using tp by (auto simp: mh_peek_def bind_Some_iff split: if_splits)
  have "te_time t = key s x" using k t by (simp add: key_def)
  then show ?thesis using u t lt by (auto simp: mh_find_nearest_expire_timer_def s32_def)
qed

section \<open>Callbacks\<close>

text \<open>
  The discipline the loop needs of the callbacks: called on the first entry they return, leave the
  heap in order with that entry still first, delete and free nothing, and add only timers later than
  \<open>now\<close>, in new blocks.
\<close>

definition mh_callbacks_ok :: "uint32 \<Rightarrow> (nat \<Rightarrow> addr \<Rightarrow> min_heap \<Rightarrow> min_heap option) \<Rightarrow> bool" where
  "mh_callbacks_ok now call \<longleftrightarrow>
     (\<forall>te s. min_heap_wf s \<longrightarrow> mh_peek s = Some (Some te) \<longrightarrow>
        (\<exists>s' new. mh_call call te s = Some s' \<and> min_heap_wf s' \<and> mh_peek s' = Some (Some te) \<and>
           mset (elems s') = mset (elems s) + new \<and> (\<forall>x\<in>set (elems s). key s' x = key s x) \<and>
           (\<forall>x\<in>#new. now < key s' x) \<and> dom (mem s') = dom (mem s) \<union> set_mset new \<and> dom (mem s) \<inter> set_mset new = {}))"

lemma mh_callbacks_well_behaved:
  assumes "mh_callbacks_ok now call"
  shows "mh.well_behaved C now (mh_call call)"
  unfolding mh.well_behaved_def
proof (intro allI impI)
  fix te s
  assume own: "mh_owns C s" and pk: "mh_peek s = Some (Some te)"
  then have wf: "min_heap_wf s" by (simp add: mh_owns_def)
  obtain s' new where s': "mh_call call te s = Some s'" "min_heap_wf s'" "mh_peek s' = Some (Some te)"
    "mset (elems s') = mset (elems s) + new" "\<forall>x\<in>set (elems s). key s' x = key s x" "\<forall>x\<in>#new. now < key s' x"
    and mem: "dom (mem s') = dom (mem s) \<union> set_mset new" "dom (mem s) \<inter> set_mset new = {}"
    using assms [unfolded mh_callbacks_ok_def, rule_format, OF wf pk] by (elim exE conjE)
  have "set (elems s') = set (elems s) \<union> set_mset new" using s'(4) by (metis set_mset_mset set_mset_union)
  then have "mh_owns C s'" using own s'(2) mem by (auto simp: mh_owns_def)
  then show "\<exists>s' new. mh_call call te s = Some s' \<and> mh_owns C s' \<and> mh_peek s' = Some (Some te) \<and>
      mset (elems s') = mset (elems s) + new \<and> (\<forall>x\<in>#mset (elems s). key s' x = key s x) \<and> (\<forall>x\<in>#new. now < key s' x)"
    using s' by auto
qed

lemma mh_silent_callbacks: "mh_callbacks_ok now (\<lambda>h te s. Some s)"
  unfolding mh_callbacks_ok_def
proof (intro allI impI)
  fix te s
  assume wf: "min_heap_wf s" and pk: "mh_peek s = Some (Some te)"
  then have "elems s \<noteq> []" using mh_top(1) [OF wf] by auto
  then have "te \<in> set (elems s)" using mh_top(2) [OF wf] pk by simp
  then have "mh_call (\<lambda>h te s. Some s) te s = Some s"
    using wf_alloc [OF wf, of te] by (auto simp: mh_call_def)
  then show "\<exists>s' new. mh_call (\<lambda>h te s. Some s) te s = Some s' \<and> min_heap_wf s' \<and>
      mh_peek s' = Some (Some te) \<and> mset (elems s') = mset (elems s) + new \<and>
      (\<forall>x\<in>set (elems s). key s' x = key s x) \<and> (\<forall>x\<in>#new. now < key s' x) \<and>
      dom (mem s') = dom (mem s) \<union> set_mset new \<and> dom (mem s) \<inter> set_mset new = {}"
    using wf pk by (intro exI [of _ s] exI [of _ "{#}"]) simp
qed

section \<open>Properties\<close>

text \<open>adding a timer in a block \<open>malloc\<close> gave never faults. When the array is full and \<open>realloc\<close>
  fails it returns the null pointer and the memory and the timers are as before; otherwise it
  returns the block, registered with the deadline \<open>now + msec\<close> modulo 2^32, all other timers kept.\<close>

theorem mh_add_timer_correct:
  assumes "min_heap_wf s" and "n_elems s + 1 < 2147483648" and "mem s te = None" and "te \<noteq> NULL"
  shows "\<exists>r s'. mh_add_timer (Some te) realloc now msec callback s = Some (r, s') \<and> min_heap_wf s' \<and>
     (\<forall>x\<in>set (elems s). key s' x = key s x) \<and>
     (if realloc = None \<and> n_elems s = a_cap s
      then r = NULL \<and> mset (elems s') = mset (elems s) \<and> mem s' = mem s
      else r = te \<and> mset (elems s') = add_mset te (mset (elems s)) \<and> mem s' te \<noteq> None \<and>
        key s' te = (now + msec) mod 4294967296)"
  using assms by (rule add_timer_spec)

theorem mh_add_timer_witness:
  "\<exists>s'. mh_add_timer (Some 9) None 100 50 7 demo_heap = Some (9, s') \<and>
     mset (elems s') = {#9, 1, 2, 3#} \<and> key s' 9 = 150"
  using mh_add_timer_correct [of demo_heap 9 None 100 50 7] demo_heap_wf by (auto simp: demo_heap_unused)

text \<open>C1: expiring at time \<open>now\<close> ends without a fault, runs the callback of every due timer exactly
  once, in the order of the deadlines, keeps every timer that is not due, and leaves none due, provided
  the callbacks delete nothing and add only later timers. The blocks of the timers that fired are freed:
  what is allocated afterwards is what was, without these blocks, and the timers in the heap, among
  them those the callbacks added.\<close>

theorem mh_expire_timer_correct:
  assumes "min_heap_wf s" and "mh_callbacks_ok now call"
  shows "\<exists>fired s'. mh_expire_timer call now s = Some (fired, s') \<and> min_heap_wf s' \<and>
     mset (map fst fired) = filter_mset (\<lambda>x. key s x \<le> now) (mset (elems s)) \<and>
     (\<forall>p\<in>set fired. snd p = key s (fst p)) \<and> sorted (map snd fired) \<and>
     filter_mset (\<lambda>x. now < key s x) (mset (elems s)) \<subseteq># mset (elems s') \<and>
     (\<forall>x\<in>set (elems s'). now < key s' x) \<and>
     dom (mem s') = dom (mem s) - fst ` set fired \<union> set (elems s')"
proof -
  let ?C = "dom (mem s) - set (elems s)"
  obtain fired s' where r: "mh_expire_timer call now s = Some (fired, s')" "mh_owns ?C s'"
    "mset (map fst fired) = filter_mset (\<lambda>x. key s x \<le> now) (mset (elems s))" "\<forall>p\<in>set fired. snd p = key s (fst p)"
    "sorted (map snd fired)" "filter_mset (\<lambda>x. now < key s x) (mset (elems s)) \<subseteq># mset (elems s')" "\<forall>x\<in>set (elems s'). now < key s' x"
    using mh.expire_loop_correct [OF mh_owns_start [OF assms(1)] mh_callbacks_well_behaved [OF assms(2)]]
    by (auto simp: mh_expire_timer_def mh.due_def mh.waiting_def filter_mset_eq_mempty_iff not_le)
  have "dom (mem s') = dom (mem s) - fst ` set fired \<union> set (elems s')"
    by (rule owned_after [OF r(3,6)]) (use r(2) wf_alloc [OF assms(1)] in \<open>auto simp: mh_owns_def\<close>)
  then show ?thesis using r by (auto simp: mh_owns_def)
qed

theorem mh_expire_timer_witness:
  "\<exists>fired s'. mh_expire_timer (\<lambda>h te s. Some s) 6 demo_heap = Some (fired, s') \<and>
     mset (map fst fired) = {#1, 3#} \<and> sorted (map snd fired) \<and> dom (mem s') = {2, 4} \<union> set (elems s')"
proof -
  obtain fired s' where r: "mh_expire_timer (\<lambda>h te s. Some s) 6 demo_heap = Some (fired, s')"
    "mset (map fst fired) = {#1, 3#}" "sorted (map snd fired)"
    "dom (mem s') = dom (mem demo_heap) - fst ` set fired \<union> set (elems s')"
    using mh_expire_timer_correct [OF demo_heap_wf mh_silent_callbacks, of 6] by auto
  have "fst ` set fired = {1, 3}" using arg_cong [OF r(2), of set_mset] by auto
  moreover have "dom (mem demo_heap) = {1, 2, 3, 4}" by (auto simp: demo_heap_def split: if_splits)
  ultimately show ?thesis using r by auto
qed

text \<open>The wait before the next expiry is -1 without timers, and otherwise the time to the least
  deadline, 0 when it has passed, as long as both clock values are below 2^31.\<close>

theorem mh_find_nearest_correct:
  assumes "min_heap_wf s" and "now < 2147483648" and "\<forall>x\<in>set (elems s). key s x < 2147483648"
  shows "mh_find_nearest_expire_timer now s =
     Some (if elems s = [] then -1 else max 0 (int (Min (key s ` set (elems s))) - int now))"
proof (cases "elems s = []")
  case True
  then show ?thesis using mh_find_nearest_empty [OF assms(1)] by simp
next
  case False
  have "Min (key s ` set (elems s)) \<in> key s ` set (elems s)" by (rule Min_in) (use False in auto)
  then obtain x where x: "x \<in> set (elems s)" "Min (key s ` set (elems s)) = key s x" by auto
  have "key s x \<le> key s y" if "y \<in> set (elems s)" for y
    unfolding x(2) [symmetric] using that by (intro Min_le) auto
  then show ?thesis using mh_find_nearest_least [OF assms(1) x(1)] assms x False by auto
qed

theorem mh_find_nearest_witness: "mh_find_nearest_expire_timer 2 demo_heap = Some 3"
  using mh_find_nearest_correct [OF demo_heap_wf, of 2] by auto

text \<open>Deleting a timer that is registered returns true and unregisters exactly it; its block
  stays allocated, with the index reset, for the caller to free.\<close>

theorem mh_del_timer_correct:
  assumes "min_heap_wf s" and "e \<in> set (elems s)"
  shows "\<exists>s'. mh_del_timer s e = Some (True, s') \<and> min_heap_wf s' \<and>
     mset (elems s') = mset (elems s) - {#e#} \<and> key s' = key s \<and> idx_at s' u32_minus1 e"
  using erase_spec [OF assms] by (auto simp: mh_del_timer_def removed_def)

theorem mh_del_timer_witness:
  "\<exists>s'. mh_del_timer demo_heap 1 = Some (True, s') \<and> mset (elems s') = {#2, 3#}"
  using mh_del_timer_correct [OF demo_heap_wf, of 1] by auto

text \<open>a callback that deletes its own timer makes \<open>expire_timer\<close> lose another one: the pop after
  the callback takes out the next timer \<open>b\<close>, which is never fired and stays allocated.\<close>

theorem mh_self_delete_loses_timer:
  assumes "min_heap_wf s" and "mh_peek s = Some (Some a)" and "2 \<le> n_elems s"
  shows "\<exists>b s'. do { s1 \<leftarrow> mh_call (\<lambda>h te s. map_option snd (mh_del_timer s te)) a s; mh_drop a s1 } = Some s' \<and>
     b \<noteq> a \<and> b \<in> set (elems s) \<and> mset (elems s') = mset (elems s) - {#b, a#} \<and>
     mem s' a = None \<and> mem s' b \<noteq> None"
proof -
  have ne: "elems s \<noteq> []" using assms(3) wfD(8) [OF assms(1)] by auto
  have a: "a \<in> set (elems s)" using mh_top(2) [OF assms(1) ne] assms(2) by simp
  obtain t where t: "mem s a = Some t" using wf_alloc [OF assms(1) a] by blast
  obtain s1 where er: "min_heap_erase s a = Some (0, s1)" and rm: "removed s a s1"
    using erase_spec [OF assms(1) a] by blast
  have n1: "n_elems s1 \<noteq> 0" and wf1: "min_heap_wf s1" using rm assms(3) by (auto simp: removed_def)
  obtain s2 where pop: "min_heap_pop s1 = Some (elems s1 ! 0, s2)" and rm2: "removed s1 (elems s1 ! 0) s2"
    and b: "elems s1 ! 0 \<in> set (elems s1)"
    using pop_spec [OF wf1] n1 by auto
  have a1: "a \<notin> set (elems s1)" by (rule removed_not_in [OF rm wfD(4) [OF assms(1)]])
  have s: "set (elems s1) \<subseteq> set (elems s)" "set (elems s2) \<subseteq> set (elems s1)"
    using rm rm2 unfolding removed_def by (metis in_diffD set_mset_mset subsetI)+
  have "mem s2 a \<noteq> None" using rm rm2 t by (auto simp: removed_def)
  moreover have "a \<notin> set (elems s2)" using a1 s by blast
  ultimately obtain s3 where s3: "free_te a s2 = Some s3" "elems s3 = elems s2"
    "\<forall>y. y \<noteq> a \<longrightarrow> mem s3 y = mem s2 y" "mem s3 a = None"
    using free_te_wf [of s2 a] rm2 by (auto simp: removed_def)
  have "mem s2 (elems s1 ! 0) \<noteq> None"
    using rm2 wf_alloc [OF wf1 b] by (auto simp: removed_def)
  moreover have "mset (elems s3) = mset (elems s) - {#elems s1 ! 0, a#}"
    using rm rm2 s3(2) by (simp add: removed_def)
  moreover have "do { s1 \<leftarrow> mh_call (\<lambda>h te s. map_option snd (mh_del_timer s te)) a s; mh_drop a s1 } = Some s3"
    using t er pop s3(1) by (simp add: mh_call_def mh_del_timer_def mh_drop_def)
  moreover have "elems s1 ! 0 \<noteq> a" using a1 b by auto
  ultimately show ?thesis
    using b s s3(3,4) by (intro exI [of _ "elems s1 ! 0"] exI [of _ s3]) auto
qed

theorem mh_self_delete_witness:
  "\<exists>b s'. b \<noteq> 1 \<and> do { s1 \<leftarrow> mh_call (\<lambda>h te s. map_option snd (mh_del_timer s te)) 1 demo_heap; mh_drop 1 s1 } = Some s' \<and>
     mem s' b \<noteq> None \<and> b \<notin># mset (elems s')"
proof -
  have "mh_peek demo_heap = Some (Some 1)"
    using mh_top(2) [OF demo_heap_wf] by simp
  then obtain b s' where r: "do { s1 \<leftarrow> mh_call (\<lambda>h te s. map_option snd (mh_del_timer s te)) 1 demo_heap; mh_drop 1 s1 } = Some s'"
    "b \<noteq> 1" "b \<in> {1, 2, 3}" "mset (elems s') = {#1, 2, 3#} - {#b, 1#}" "mem s' b \<noteq> None"
    using mh_self_delete_loses_timer [OF demo_heap_wf, of 1] by auto
  then have "b \<notin># mset (elems s')" by auto
  then show ?thesis using r by blast
qed

end
