(* ===== verification/TimeWheel.thy ===== *)
theory TimeWheel
  imports Prelude
begin

text \<open>
  The hierarchical time wheel of \<^verbatim>\<open>timewheel.h\<close> and \<^verbatim>\<open>timewheel.c\<close>: 256 near slots, four levels of 64
  slots, each slot a singly linked list with a dummy head and a tail pointer, over an explicit store
  of the nodes. Masks and shifts of the unsigned times are written with \<open>mod\<close> and \<open>div\<close>. The lock
  is a field: taking it while it is held never returns in this sequential model (\<open>None\<close>). Callbacks
  act on the whole state.
\<close>

section \<open>State\<close>

record timer_node =
  nd_next :: addr
  nd_expire :: uint32
  nd_callback :: nat
  nd_cancel :: nat
  nd_id :: int

text \<open>\<open>tail\<close> points to the dummy head of its own list or to a node.\<close>

datatype tail_ptr = AtHead | AtNode addr

record link_list =
  head_next :: addr
  tail :: tail_ptr

datatype slot = Near nat | Lev nat nat

record s_timer =
  near :: "link_list list"
  levels :: "link_list list list"
  tw_lock :: nat
  tw_time :: uint32
  current_point :: nat
  nodes :: "addr \<rightharpoonup> timer_node"

text \<open>\<open>&T->near[i]\<close> and \<open>&T->t[level][idx]\<close>, with the bounds of the arrays.\<close>

fun get_list :: "s_timer \<Rightarrow> slot \<Rightarrow> link_list option" where
  "get_list T (Near i) = (if i < length (near T) then Some (near T ! i) else None)"
| "get_list T (Lev l j) = (if l < length (levels T) \<and> j < length (levels T ! l)
     then Some (levels T ! l ! j) else None)"

fun put_list :: "s_timer \<Rightarrow> slot \<Rightarrow> link_list \<Rightarrow> s_timer" where
  "put_list T (Near i) ll = T\<lparr>near := (near T)[i := ll]\<rparr>"
| "put_list T (Lev l j) ll = T\<lparr>levels := (levels T)[l := (levels T ! l)[j := ll]]\<rparr>"

section \<open>Lists\<close>

definition link_clear :: "s_timer \<Rightarrow> slot \<Rightarrow> (addr \<times> s_timer) option" where
  "link_clear T s =
     do { list \<leftarrow> get_list T s;
          Some (head_next list, put_list T s (list\<lparr>head_next := NULL, tail := AtHead\<rparr>)) }"

definition set_next :: "s_timer \<Rightarrow> addr \<Rightarrow> addr \<Rightarrow> s_timer option" where
  "set_next T x y = (case nodes T x of
      None \<Rightarrow> None
    | Some nd \<Rightarrow> Some (T\<lparr>nodes := (nodes T)(x \<mapsto> nd\<lparr>nd_next := y\<rparr>)\<rparr>))"

definition link :: "s_timer \<Rightarrow> slot \<Rightarrow> addr \<Rightarrow> s_timer option" where
  "link T s node =
     do { list \<leftarrow> get_list T s;
          T1 \<leftarrow> (case tail list of
                  AtHead \<Rightarrow> Some (put_list T s (list\<lparr>head_next := node, tail := AtNode node\<rparr>))
                | AtNode x \<Rightarrow> set_next (put_list T s (list\<lparr>tail := AtNode node\<rparr>)) x node);
          set_next T1 node NULL }"

section \<open>Placing and moving timers\<close>

definition add_node :: "s_timer \<Rightarrow> addr \<Rightarrow> s_timer option" where
  "add_node T node =
     do { nd \<leftarrow> nodes T node;
          let time = nd_expire nd;
          let msec = u32_sub time (tw_time T);
          if msec < 256 then link T (Near (time mod 256)) node
          else if msec < 16384 then link T (Lev 0 (time div 256 mod 64)) node
          else if msec < 1048576 then link T (Lev 1 (time div 16384 mod 64)) node
          else if msec < 67108864 then link T (Lev 2 (time div 1048576 mod 64)) node
          else link T (Lev 3 (time div 67108864 mod 64)) node }"

text \<open>The loop of \<open>move_list\<close>: the next pointer is read before the node is linked again.\<close>

partial_function (option) move_loop :: "s_timer \<Rightarrow> addr \<Rightarrow> s_timer option" where
  "move_loop T current =
     (if current = NULL then Some T
      else do { nd \<leftarrow> nodes T current;
                T1 \<leftarrow> add_node T current;
                move_loop T1 (nd_next nd) })"

definition move_list :: "s_timer \<Rightarrow> nat \<Rightarrow> nat \<Rightarrow> s_timer option" where
  "move_list T level idx =
     do { r \<leftarrow> link_clear T (Lev level idx); move_loop (snd r) (fst r) }"

text \<open>The loop of \<open>timer_shift\<close>: up one level while the low bits are zero.\<close>

partial_function (option) shift_loop :: "s_timer \<Rightarrow> uint32 \<Rightarrow> nat \<Rightarrow> uint32 \<Rightarrow> nat \<Rightarrow> s_timer option" where
  "shift_loop T ct low time i =
     (if ct mod low = 0 then
        let idx = time mod 64 in
        if idx \<noteq> 0 then move_list T i idx
        else shift_loop T ct (low * 64) (time div 64) (i + 1)
      else Some T)"

definition timer_shift :: "s_timer \<Rightarrow> s_timer option" where
  "timer_shift T =
     (let ct = u32_add (tw_time T) 1; T1 = T\<lparr>tw_time := ct\<rparr> in
      if ct = 0 then move_list T1 3 0 else shift_loop T1 ct 256 (ct div 256) 0)"

section \<open>The lock and the memory\<close>

definition tw_acquire :: "s_timer \<Rightarrow> s_timer option" where
  "tw_acquire T = (if tw_lock T = 0 then Some (T\<lparr>tw_lock := 1\<rparr>) else None)"

definition tw_release :: "s_timer \<Rightarrow> s_timer" where
  "tw_release T = T\<lparr>tw_lock := 0\<rparr>"

definition free_node :: "addr \<Rightarrow> s_timer \<Rightarrow> s_timer option" where
  "free_node x T = (if nodes T x = None then None else Some (T\<lparr>nodes := (nodes T)(x := None)\<rparr>))"

section \<open>Firing\<close>

text \<open>
  \<open>dispatch_list\<close>, with \<open>call\<close> the code behind the callbacks; the list of the result is the ghost
  record of the nodes taken, each with whether its callback ran.
\<close>

partial_function (option) dispatch_list :: "(nat \<Rightarrow> addr \<Rightarrow> s_timer \<Rightarrow> s_timer option) \<Rightarrow> addr \<Rightarrow>
    s_timer \<Rightarrow> ((addr \<times> bool) list \<times> s_timer) option" where
  "dispatch_list call current T =
     do { nd \<leftarrow> nodes T current;
          T1 \<leftarrow> (if nd_cancel nd = 0 then call (nd_callback nd) current T else Some T);
          T2 \<leftarrow> free_node current T1;
          (if nd_next nd \<noteq> NULL
           then do { r \<leftarrow> dispatch_list call (nd_next nd) T2;
                     Some ((current, nd_cancel nd = 0) # fst r, snd r) }
           else Some ([(current, nd_cancel nd = 0)], T2)) }"

partial_function (option) timer_execute :: "(nat \<Rightarrow> addr \<Rightarrow> s_timer \<Rightarrow> s_timer option) \<Rightarrow>
    s_timer \<Rightarrow> ((addr \<times> bool) list \<times> s_timer) option" where
  "timer_execute call T =
     do { list \<leftarrow> get_list T (Near (tw_time T mod 256));
          (if head_next list \<noteq> NULL
           then do { c \<leftarrow> link_clear T (Near (tw_time T mod 256));
                     d \<leftarrow> dispatch_list call (fst c) (tw_release (snd c));
                     T1 \<leftarrow> tw_acquire (snd d);
                     r \<leftarrow> timer_execute call T1;
                     Some (fst d @ fst r, snd r) }
           else Some ([], T)) }"

definition timer_update :: "(nat \<Rightarrow> addr \<Rightarrow> s_timer \<Rightarrow> s_timer option) \<Rightarrow>
    s_timer \<Rightarrow> ((addr \<times> bool) list \<times> s_timer) option" where
  "timer_update call T =
     do { T1 \<leftarrow> tw_acquire T;
          r1 \<leftarrow> timer_execute call T1;
          T2 \<leftarrow> timer_shift (snd r1);
          r2 \<leftarrow> timer_execute call T2;
          Some (fst r1 @ fst r2, tw_release (snd r2)) }"

section \<open>The interface\<close>

text \<open>
  \<open>malloc\<close> is the block it returns with its indeterminate content, \<open>None\<close> when it fails; the code
  does not test for that and writes through the null pointer.
\<close>

definition tw_add_timer :: "(nat \<Rightarrow> addr \<Rightarrow> s_timer \<Rightarrow> s_timer option) \<Rightarrow> (addr \<times> timer_node) option \<Rightarrow>
    int \<Rightarrow> nat \<Rightarrow> int \<Rightarrow> s_timer \<Rightarrow> (addr \<times> s_timer) option" where
  "tw_add_timer call malloc time func threadid T =
     do { m \<leftarrow> malloc;
          T1 \<leftarrow> tw_acquire T;
          let node = fst m;
          let T2 = T1\<lparr>nodes := (nodes T1)(node \<mapsto> (snd m)\<lparr>
                nd_expire := nat ((time + int (tw_time T1)) mod 4294967296),
                nd_callback := func, nd_id := threadid\<rparr>)\<rparr>;
          if time \<le> 0 then
            do { T3 \<leftarrow> call func node T2;
                 T4 \<leftarrow> free_node node (tw_release T3);
                 Some (NULL, T4) }
          else do { T3 \<leftarrow> add_node T2 node; Some (node, tw_release T3) } }"

definition tw_del_timer :: "s_timer \<Rightarrow> addr \<Rightarrow> s_timer option" where
  "tw_del_timer T node = (case nodes T node of
      None \<Rightarrow> None
    | Some nd \<Rightarrow> Some (T\<lparr>nodes := (nodes T)(node \<mapsto> nd\<lparr>nd_cancel := 1\<rparr>)\<rparr>))"

definition clear_slots :: "s_timer \<Rightarrow> slot list \<Rightarrow> s_timer option" where
  "clear_slots T ss = fold (\<lambda>s r. do { T \<leftarrow> r; c \<leftarrow> link_clear T s; Some (snd c) }) ss (Some T)"

definition near_slots :: "slot list" where
  "near_slots = map Near [0..<256]"

definition level_slots :: "slot list" where
  "level_slots = concat (map (\<lambda>l. map (Lev l) [0..<64]) [0..<4])"

text \<open>\<open>malloc\<close> and \<open>memset\<close> to zero, then every list cleared.\<close>

definition timer_create_timer :: "(addr \<rightharpoonup> timer_node) \<Rightarrow> s_timer option" where
  "timer_create_timer m =
     (let zero = \<lparr>head_next = NULL, tail = AtNode NULL\<rparr>;
          r = \<lparr>near = replicate 256 zero, levels = replicate 4 (replicate 64 zero),
               tw_lock = 0, tw_time = 0, current_point = 0, nodes = m\<rparr> in
      do { r1 \<leftarrow> clear_slots r near_slots;
           r2 \<leftarrow> clear_slots r1 level_slots;
           Some (r2\<lparr>tw_lock := 0\<rparr>) })"

text \<open>The clock in ticks of ten milliseconds, from the two fields of the \<open>timespec\<close>.\<close>

definition gettime :: "nat \<Rightarrow> nat \<Rightarrow> nat" where
  "gettime tv_sec tv_nsec = (tv_sec * 100 + tv_nsec div 10000000) mod 18446744073709551616"

definition tw_init_timer :: "nat \<Rightarrow> (addr \<rightharpoonup> timer_node) \<Rightarrow> s_timer option" where
  "tw_init_timer cp m = do { T \<leftarrow> timer_create_timer m; Some (T\<lparr>current_point := cp\<rparr>) }"

text \<open>\<open>diff\<close> updates in a row, the record of each one kept.\<close>

fun tw_updates :: "(nat \<Rightarrow> addr \<Rightarrow> s_timer \<Rightarrow> s_timer option) \<Rightarrow> nat \<Rightarrow> s_timer \<Rightarrow>
    ((addr \<times> bool) list list \<times> s_timer) option" where
  "tw_updates call 0 T = Some ([], T)"
| "tw_updates call (Suc n) T =
     do { r \<leftarrow> timer_update call T;
          rs \<leftarrow> tw_updates call n (snd r);
          Some (fst r # fst rs, snd rs) }"

text \<open>The loop counter is an \<open>int\<close>: more than \<open>INT_MAX\<close> updates overflow it.\<close>

definition tw_expire_timer :: "(nat \<Rightarrow> addr \<Rightarrow> s_timer \<Rightarrow> s_timer option) \<Rightarrow> nat \<Rightarrow> s_timer \<Rightarrow>
    ((addr \<times> bool) list list \<times> s_timer) option" where
  "tw_expire_timer call cp T =
     (if cp \<noteq> current_point T then
        let diff = nat ((int cp - int (current_point T)) mod 4294967296) in
        if diff > 2147483647 then None
        else tw_updates call diff (T\<lparr>current_point := cp\<rparr>)
      else Some ([], T))"

partial_function (option) free_chain :: "addr \<Rightarrow> s_timer \<Rightarrow> s_timer option" where
  "free_chain current T =
     (if current = NULL then Some T
      else do { nd \<leftarrow> nodes T current;
                T1 \<leftarrow> free_node current T;
                free_chain (nd_next nd) T1 })"

definition free_slot :: "slot \<Rightarrow> s_timer \<Rightarrow> s_timer option" where
  "free_slot s T =
     do { list \<leftarrow> get_list T s;
          T1 \<leftarrow> free_chain (head_next list) T;
          r \<leftarrow> link_clear T1 s;
          Some (snd r) }"

definition tw_clear_timer :: "s_timer \<Rightarrow> s_timer option" where
  "tw_clear_timer T = fold (\<lambda>s r. do { T \<leftarrow> r; free_slot s T }) (near_slots @ level_slots) (Some T)"

end
