(* ===== verification/Wheel_Levels.thy ===== *)
theory Wheel_Levels
  imports TimeWheel
begin

text \<open>
  The arithmetic of the wheel: which slot a deadline goes to, which slot a tick moves down, and why
  a timer that is not in a slot of index 0 on the levels 0 to 2 is moved exactly when its deadline
  rounded down to the level's unit is reached. The law of one level is a locale over its unit,
  interpreted for the four levels of the code.
\<close>

section \<open>One level\<close>

locale wheel_level =
  fixes unit :: nat
  assumes unit_pos: "0 < unit" and unit_dvd: "64 * unit dvd UINT32_MOD"
begin

lemma mod_split: "x mod (64 * unit) = unit * (x div unit mod 64) + x mod unit"
  using mod_mult2_eq [of x unit 64] by (simp add: mult.commute)

lemma mod_reduce: "x mod UINT32_MOD mod unit = x mod unit" "x mod UINT32_MOD mod (64 * unit) = x mod (64 * unit)"
  using unit_dvd dvd_trans [of unit "64 * unit" UINT32_MOD] by (simp_all add: mod_mod_cancel)

lemma idx_reduce: "x mod UINT32_MOD div unit mod 64 = x div unit mod 64"
proof -
  have "unit * (x mod UINT32_MOD div unit mod 64) = unit * (x div unit mod 64)"
    using mod_split [of x] mod_split [of "x mod UINT32_MOD"] mod_reduce [of x] by linarith
  then show ?thesis using unit_pos by simp
qed

text \<open>A tick reaches the deadline rounded down exactly when it visits the deadline's slot.\<close>

lemma visit_iff:
  assumes "(t + d) mod unit < d" and "d < 64 * unit"
  shows "d - 1 = (t + d) mod unit \<longleftrightarrow>
    (t + 1) mod unit = 0 \<and> (t + 1) div unit mod 64 = (t + d) div unit mod 64"
proof
  let ?r = "(t + d) mod unit"
  assume r: "d - 1 = ?r"
  then have "t + d = (t + 1) + ?r" using assms(1) by linarith
  moreover have "t + d = unit * ((t + d) div unit) + ?r" by simp
  ultimately have eq: "t + 1 = unit * ((t + d) div unit)" by linarith
  then show "(t + 1) mod unit = 0 \<and> (t + 1) div unit mod 64 = (t + d) div unit mod 64"
    using unit_pos by (metis mod_mult_self1_is_0 nonzero_mult_div_cancel_left not_gr0)
next
  let ?r = "(t + d) mod unit" and ?a = "(t + 1) div unit" and ?b = "(t + d) div unit"
  assume v: "(t + 1) mod unit = 0 \<and> ?a mod 64 = ?b mod 64"
  have a: "t + 1 = unit * ?a" using v by (metis add.right_neutral mult_div_mod_eq)
  have b: "t + d = unit * ?b + ?r" by simp
  have le: "unit * ?a \<le> unit * ?b" using a b assms(1) by linarith
  then have ab: "?a \<le> ?b" using unit_pos by (metis mult_le_cancel1)
  have "unit * ?b < unit * ?a + 64 * unit" using a b assms(2) by linarith
  then have "unit * ?b < unit * (?a + 64)" by (simp add: algebra_simps)
  then have "?b < ?a + 64" using unit_pos by (metis mult_less_cancel1)
  moreover have "(?b - ?a) mod 64 = 0" using v ab by (metis mod_eq_dvd_iff_nat mod_0_imp_dvd dvd_imp_mod_0)
  ultimately have "?b - ?a = 0" using ab by (metis add.commute less_diff_conv2 mod_less)
  then have "unit * ?a = unit * ?b" using ab by simp
  then show "d - 1 = ?r" using a b by linarith
qed

text \<open>Moved down at a multiple of the unit above, a timer goes to a slot of nonzero index.\<close>

lemma lower_slot:
  assumes "t mod (64 * unit) = 0" and "unit \<le> d" and "d < 64 * unit"
  shows "(t + d) div unit mod 64 \<noteq> 0"
proof
  assume "(t + d) div unit mod 64 = 0"
  then have "(t + d) mod (64 * unit) < unit" using mod_split [of "t + d"] unit_pos by simp
  moreover have "(t + d) mod (64 * unit) = d" using assms by (metis add_cancel_right_left mod_add_left_eq mod_less add_0)
  ultimately show False using assms(2) by simp
qed

end

interpretation lv0: wheel_level 256 by unfold_locales auto
interpretation lv1: wheel_level 16384 by unfold_locales auto
interpretation lv2: wheel_level 1048576 by unfold_locales auto
interpretation lv3: wheel_level 67108864 by unfold_locales auto

section \<open>Slots\<close>

definition level_unit :: "nat \<Rightarrow> nat" where
  "level_unit l = (if l = 0 then 256 else if l = 1 then 16384 else if l = 2 then 1048576 else 67108864)"

lemma level_unit_wheel: "wheel_level (level_unit l)"
  by (simp add: level_unit_def lv0.wheel_level_axioms lv1.wheel_level_axioms lv2.wheel_level_axioms
      lv3.wheel_level_axioms)

definition slot_of :: "uint32 \<Rightarrow> uint32 \<Rightarrow> slot" where
  "slot_of t E = (let d = u32_sub E t in
     if d < 256 then Near (E mod 256)
     else if d < 16384 then Lev 0 (E div 256 mod 64)
     else if d < 1048576 then Lev 1 (E div 16384 mod 64)
     else if d < 67108864 then Lev 2 (E div 1048576 mod 64)
     else Lev 3 (E div 67108864 mod 64))"

lemma add_node_slot_of:
  "add_node T node = do { nd \<leftarrow> nodes T node; link T (slot_of (tw_time T) (nd_expire nd)) node }"
  by (cases "nodes T node") (simp_all add: add_node_def slot_of_def Let_def)

text \<open>The slots no tick ever moves.\<close>

fun dead :: "slot \<Rightarrow> bool" where
  "dead (Near i) = False"
| "dead (Lev l j) = (l < 3 \<and> j = 0)"

fun valid_slot :: "slot \<Rightarrow> bool" where
  "valid_slot (Near i) = (i < 256)"
| "valid_slot (Lev l j) = (l < 4 \<and> j < 64)"

text \<open>What holds of a deadline \<open>E\<close> filed in a slot when the clock shows \<open>t\<close>.\<close>

fun placed :: "uint32 \<Rightarrow> slot \<Rightarrow> uint32 \<Rightarrow> bool" where
  "placed t (Near i) E = (i = E mod 256 \<and> u32_sub E t < 256)"
| "placed t (Lev l j) E = (l < 4 \<and> j = E div level_unit l mod 64 \<and> E mod level_unit l < u32_sub E t \<and>
     u32_sub E t < 64 * level_unit l)"

text \<open>The slot the tick after \<open>t\<close> moves down.\<close>

definition shift_slot :: "uint32 \<Rightarrow> slot option" where
  "shift_slot t = (let ct = u32_add t 1 in
     if ct = 0 then Some (Lev 3 0)
     else if ct mod 256 \<noteq> 0 then None
     else if ct div 256 mod 64 \<noteq> 0 then Some (Lev 0 (ct div 256 mod 64))
     else if ct div 16384 mod 64 \<noteq> 0 then Some (Lev 1 (ct div 16384 mod 64))
     else if ct div 1048576 mod 64 \<noteq> 0 then Some (Lev 2 (ct div 1048576 mod 64))
     else Some (Lev 3 (ct div 67108864 mod 64)))"

section \<open>Distances\<close>

lemma u32_sub_add:
  assumes "E < UINT32_MOD" and "t < UINT32_MOD"
  shows "E = (t + u32_sub E t) mod UINT32_MOD"
proof -
  have "(t + u32_sub E t) mod UINT32_MOD = (t + (E + (UINT32_MOD - t mod UINT32_MOD))) mod UINT32_MOD"
    by (simp only: u32_sub_def mod_add_right_eq)
  also have "t + (E + (UINT32_MOD - t mod UINT32_MOD)) = E + UINT32_MOD" using assms(2) by simp
  finally show ?thesis using assms(1) by simp
qed

lemma u32_sub_eq:
  assumes "E = (t + d) mod UINT32_MOD" and "d < UINT32_MOD" and "t < UINT32_MOD"
  shows "u32_sub E t = d"
proof -
  have "u32_sub E t = ((t + d) + (UINT32_MOD - t)) mod UINT32_MOD"
    using assms(1,3) by (simp only: u32_sub_def mod_add_left_eq mod_less)
  also have "(t + d) + (UINT32_MOD - t) = d + UINT32_MOD" using assms(3) by simp
  finally show ?thesis using assms(2) by simp
qed

lemma u32_sub_tick:
  assumes "E < UINT32_MOD" and "t < UINT32_MOD" and "0 < u32_sub E t"
  shows "u32_sub E (u32_add t 1) = u32_sub E t - 1"
proof (rule u32_sub_eq)
  have "(u32_add t 1 + (u32_sub E t - 1)) mod UINT32_MOD = (t + 1 + (u32_sub E t - 1)) mod UINT32_MOD"
    by (simp only: u32_add_def mod_add_left_eq)
  also have "t + 1 + (u32_sub E t - 1) = t + u32_sub E t" using assms(3) by simp
  finally show "E = (u32_add t 1 + (u32_sub E t - 1)) mod UINT32_MOD"
    using u32_sub_add [OF assms(1,2)] by simp
  show "u32_sub E t - 1 < UINT32_MOD" using u32_sub_lt [of E t] by linarith
qed simp

section \<open>Filing, ticking, moving\<close>

lemma slot_of_placed:
  assumes "E < UINT32_MOD"
  shows "placed t (slot_of t E) E" and "valid_slot (slot_of t E)"
proof -
  have m: "E mod 256 < 256" "E mod 16384 < 16384" "E mod 1048576 < 1048576" "E mod 67108864 < 67108864"
    by simp_all
  show "placed t (slot_of t E) E"
    using m u32_sub_lt [of E t] by (auto simp: slot_of_def Let_def level_unit_def)
  show "valid_slot (slot_of t E)" by (auto simp: slot_of_def Let_def)
qed

text \<open>The low bits of a time, level by level.\<close>

lemma level_products: "64 * 256 = (16384 :: nat)" "64 * 16384 = (1048576 :: nat)" "64 * 1048576 = (67108864 :: nat)"
  by simp_all

lemmas level_split = lv0.mod_split [unfolded level_products] lv1.mod_split [unfolded level_products]
  lv2.mod_split [unfolded level_products]

lemma level_zero:
  fixes ct :: nat
  shows "ct mod 16384 = 0 \<Longrightarrow> ct div 256 mod 64 = 0" and "ct mod 16384 = 0 \<Longrightarrow> ct mod 256 = 0"
    and "ct mod 1048576 = 0 \<Longrightarrow> ct div 16384 mod 64 = 0" and "ct mod 1048576 = 0 \<Longrightarrow> ct mod 16384 = 0"
    and "ct mod 67108864 = 0 \<Longrightarrow> ct div 1048576 mod 64 = 0" and "ct mod 67108864 = 0 \<Longrightarrow> ct mod 1048576 = 0"
  using level_split [of ct] by linarith+

lemma level_zeroI:
  fixes ct :: nat
  shows "ct div 256 mod 64 = 0 \<Longrightarrow> ct mod 256 = 0 \<Longrightarrow> ct mod 16384 = 0"
    and "ct div 16384 mod 64 = 0 \<Longrightarrow> ct mod 16384 = 0 \<Longrightarrow> ct mod 1048576 = 0"
    and "ct div 1048576 mod 64 = 0 \<Longrightarrow> ct mod 1048576 = 0 \<Longrightarrow> ct mod 67108864 = 0"
  using level_split [of ct] by linarith+

lemma level_unit_simps [simp]: "level_unit 0 = 256" "level_unit (Suc 0) = 16384" "level_unit 1 = 16384"
  "level_unit 2 = 1048576" "level_unit 3 = 67108864"
  by (simp_all add: level_unit_def)

lemma if_chain:
  assumes "(if z then Some (a :: 'a) else if \<not> p then None else if q0 \<noteq> (0 :: nat) then Some b else if q1 \<noteq> (0 :: nat) then Some c
    else if q2 \<noteq> (0 :: nat) then Some d else Some e) = r"
  shows "z \<Longrightarrow> r = Some a" and "\<not> z \<Longrightarrow> \<not> p \<Longrightarrow> r = None"
    and "\<not> z \<Longrightarrow> p \<Longrightarrow> q0 \<noteq> 0 \<Longrightarrow> r = Some b"
    and "\<not> z \<Longrightarrow> p \<Longrightarrow> q0 = 0 \<Longrightarrow> q1 \<noteq> 0 \<Longrightarrow> r = Some c"
    and "\<not> z \<Longrightarrow> p \<Longrightarrow> q0 = 0 \<Longrightarrow> q1 = 0 \<Longrightarrow> q2 \<noteq> 0 \<Longrightarrow> r = Some d"
    and "\<not> z \<Longrightarrow> p \<Longrightarrow> q0 = 0 \<Longrightarrow> q1 = 0 \<Longrightarrow> q2 = 0 \<Longrightarrow> r = Some e"
  using assms by auto

lemmas shift_chain = if_chain [OF shift_slot_def [unfolded Let_def, symmetric]]

text \<open>A tick moves the live slot whose index it shows at a multiple of the level's unit, and no other.\<close>

lemma shift_slot_visit:
  assumes "l < 4" and nd: "\<not> dead (Lev l (ct div level_unit l mod 64))" and ct: "ct = u32_add t 1"
    and m: "ct mod level_unit l = 0"
  shows "shift_slot t = Some (Lev l (ct div level_unit l mod 64))"
proof -
  note ch = shift_chain [of t, folded ct]
  have nz: "x div b mod 64 \<noteq> 0 \<Longrightarrow> x \<noteq> 0" for x b :: nat by (metis div_0 mod_0)
  consider "l = 0" | "l = 1" | "l = 2" | "l = 3" using assms(1) by linarith
  then show ?thesis
  proof cases
    case 1
    then have z: "ct div 256 mod 64 \<noteq> 0" "ct mod 256 = 0" using nd m by simp_all
    show ?thesis unfolding 1 level_unit_simps by (rule ch(3) [OF nz [OF z(1)] z(2,1)])
  next
    case 2
    then have z: "ct div 16384 mod 64 \<noteq> 0" "ct mod 16384 = 0" using nd m by simp_all
    show ?thesis unfolding 2 level_unit_simps
      by (rule ch(4) [OF nz [OF z(1)] level_zero(2) [OF z(2)] level_zero(1) [OF z(2)] z(1)])
  next
    case 3
    then have z: "ct div 1048576 mod 64 \<noteq> 0" "ct mod 1048576 = 0" using nd m by simp_all
    note z1 = level_zero(4) [OF z(2)]
    show ?thesis unfolding 3 level_unit_simps
      by (rule ch(5) [OF nz [OF z(1)] level_zero(2) [OF z1] level_zero(1) [OF z1] level_zero(3) [OF z(2)] z(1)])
  next
    case 4
    then have z: "ct mod 67108864 = 0" using m by simp
    note z2 = level_zero(6) [OF z] and z1 = level_zero(4) [OF level_zero(6) [OF z]]
    show ?thesis
    proof (cases "ct = 0")
      case True
      then show ?thesis using ch(1) 4 by simp
    next
      case False
      show ?thesis unfolding 4 level_unit_simps
        by (rule ch(6) [OF False level_zero(2) [OF z1] level_zero(1) [OF z1] level_zero(3) [OF z2] level_zero(5) [OF z]])
    qed
  qed
qed

lemma shift_slot_some:
  assumes s: "shift_slot t = Some s" and ct: "ct = u32_add t 1"
  shows "\<exists>l. l < 4 \<and> s = Lev l (ct div level_unit l mod 64) \<and> ct mod level_unit l = 0 \<and> \<not> dead s"
proof -
  note ch = shift_chain [of t, folded ct, unfolded s option.inject]
  consider "ct = 0" | "ct \<noteq> 0" "ct mod 256 \<noteq> 0" | "ct \<noteq> 0" "ct mod 256 = 0" "ct div 256 mod 64 \<noteq> 0"
    | "ct \<noteq> 0" "ct mod 256 = 0" "ct div 256 mod 64 = 0" "ct div 16384 mod 64 \<noteq> 0"
    | "ct \<noteq> 0" "ct mod 256 = 0" "ct div 256 mod 64 = 0" "ct div 16384 mod 64 = 0" "ct div 1048576 mod 64 \<noteq> 0"
    | "ct \<noteq> 0" "ct mod 256 = 0" "ct div 256 mod 64 = 0" "ct div 16384 mod 64 = 0" "ct div 1048576 mod 64 = 0"
    by metis
  then show ?thesis
  proof cases
    case 1
    then show ?thesis using ch(1) by (intro exI [of _ 3]) simp
  next
    case 2
    then show ?thesis using ch(2) by simp
  next
    case 3
    then have "s = Lev 0 (ct div 256 mod 64)" by (rule ch(3))
    then show ?thesis using 3 by (intro exI [of _ 0]) simp
  next
    case 4
    then have "s = Lev 1 (ct div 16384 mod 64)" by (rule ch(4))
    moreover have "ct mod 16384 = 0" by (rule level_zeroI(1) [OF 4(3,2)])
    ultimately show ?thesis using 4(4) by (intro exI [of _ 1]) simp
  next
    case 5
    then have "s = Lev 2 (ct div 1048576 mod 64)" by (rule ch(5))
    moreover have "ct mod 1048576 = 0" by (rule level_zeroI(2) [OF 5(4) level_zeroI(1) [OF 5(3,2)]])
    ultimately show ?thesis using 5(5) by (intro exI [of _ 2]) simp
  next
    case 6
    then have "s = Lev 3 (ct div 67108864 mod 64)" by (rule ch(6))
    moreover have "ct mod 67108864 = 0" by (rule level_zeroI(3) [OF 6(5) level_zeroI(2) [OF 6(4) level_zeroI(1) [OF 6(3,2)]]])
    ultimately show ?thesis by (intro exI [of _ 3]) simp
  qed
qed

text \<open>The tick in the coordinates of one level.\<close>

lemma tick_level:
  assumes "E < UINT32_MOD" and "t < UINT32_MOD"
  shows "E mod level_unit l = (t + u32_sub E t) mod level_unit l"
    and "E div level_unit l mod 64 = (t + u32_sub E t) div level_unit l mod 64"
    and "u32_add t 1 mod level_unit l = (t + 1) mod level_unit l"
    and "u32_add t 1 div level_unit l mod 64 = (t + 1) div level_unit l mod 64"
  using u32_sub_add [OF assms] wheel_level.mod_reduce(1) [OF level_unit_wheel]
    wheel_level.idx_reduce [OF level_unit_wheel]
  by (metis, metis, metis u32_add_def, metis u32_add_def)

text \<open>A tick keeps the placing of a timer that is not moved.\<close>

lemma placed_tick:
  assumes "placed t s E" and "\<not> dead s" and E: "E < UINT32_MOD" and t: "t < UINT32_MOD"
    and pos: "0 < u32_sub E t" and "shift_slot t \<noteq> Some s"
  shows "placed (u32_add t 1) s E"
proof (cases s)
  case (Near i)
  then show ?thesis using assms(1) u32_sub_tick [OF E t pos] by auto
next
  case (Lev l j)
  let ?U = "level_unit l" and ?d = "u32_sub E t"
  have p: "l < 4" "j = E div ?U mod 64" "E mod ?U < ?d" "?d < 64 * ?U" using assms(1) Lev by auto
  have "E mod ?U \<noteq> ?d - 1"
  proof
    assume "E mod ?U = ?d - 1"
    then have "(t + 1) mod ?U = 0 \<and> (t + 1) div ?U mod 64 = (t + ?d) div ?U mod 64"
      using wheel_level.visit_iff [OF level_unit_wheel, of t ?d l] p tick_level(1) [OF E t] by simp
    then have "u32_add t 1 mod ?U = 0" "u32_add t 1 div ?U mod 64 = j"
      using tick_level [OF E t] p(2) by simp_all
    then show False
      using shift_slot_visit [OF p(1) _ refl, of t] assms(2,6) Lev by simp
  qed
  then show ?thesis using Lev p u32_sub_tick [OF E t pos] by auto
qed

text \<open>A timer that is moved has just its deadline below the level's unit to go, and goes to a live slot.\<close>

lemma moved_distance:
  assumes "shift_slot t = Some s" and "placed t s E" and E: "E < UINT32_MOD" and t: "t < UINT32_MOD"
  shows "\<exists>l<4. u32_add t 1 mod level_unit l = 0 \<and> u32_sub E (u32_add t 1) < level_unit l"
proof -
  let ?ct = "u32_add t 1" and ?d = "u32_sub E t"
  obtain l where l: "l < 4" "s = Lev l (?ct div level_unit l mod 64)" "?ct mod level_unit l = 0" "\<not> dead s"
    using shift_slot_some [OF assms(1) refl] by (elim exE conjE) (rule that)
  let ?U = "level_unit l"
  have p: "?ct div ?U mod 64 = E div ?U mod 64" "E mod ?U < ?d" "?d < 64 * ?U"
    using assms(2) l(2) by auto
  note tick = tick_level [OF E t, of l]
  have "?d - 1 = (t + ?d) mod ?U"
  proof (rule iffD2 [OF wheel_level.visit_iff [OF level_unit_wheel]])
    show "(t + ?d) mod ?U < ?d" using p(2) tick(1) by argo
    show "?d < 64 * ?U" by (rule p(3))
    show "(t + 1) mod ?U = 0 \<and> (t + 1) div ?U mod 64 = (t + ?d) div ?U mod 64"
      using l(3) p(1) tick by argo
  qed
  moreover have "(t + ?d) mod ?U < ?U"
    using wheel_level.unit_pos [OF level_unit_wheel] by (rule mod_less_divisor)
  ultimately have "?d - 1 < ?U" by argo
  moreover have "u32_sub E ?ct = ?d - 1" using u32_sub_tick [OF E t] p(2) by linarith
  ultimately show ?thesis using l(1,3) by auto
qed

lemma moved_live:
  assumes "shift_slot t = Some s" and "placed t s E" and E: "E < UINT32_MOD" and t: "t < UINT32_MOD"
  shows "\<not> dead (slot_of (u32_add t 1) E)"
proof -
  let ?ct = "u32_add t 1" and ?d = "u32_sub E (u32_add t 1)"
  obtain l where l: "l < 4" "?ct mod level_unit l = 0" "?d < level_unit l"
    using moved_distance [OF assms] by (elim exE conjE) (rule that)
  have low: "E div b mod 64 \<noteq> 0"
    if "wheel_level b" "64 * b dvd level_unit l" "b \<le> ?d" "?d < 64 * b" for b
  proof -
    have m: "?ct mod (64 * b) = 0" using l(2) that(2) by (metis dvd_imp_mod_0 mod_0_imp_dvd dvd_trans)
    have "(?ct + ?d) div b mod 64 \<noteq> 0"
      by (rule wheel_level.lower_slot [OF that(1) m that(3,4)])
    then show ?thesis
      using u32_sub_add [OF E u32_add_lt, of t 1] wheel_level.idx_reduce [OF that(1)] by metis
  qed
  have lu: "level_unit l \<in> {256, 16384, 1048576, 67108864}" by (simp add: level_unit_def)
  consider "?d < 256" | "256 \<le> ?d" "?d < 16384" | "16384 \<le> ?d" "?d < 1048576" | "1048576 \<le> ?d"
    by linarith
  then show ?thesis
  proof cases
    case 1 then show ?thesis by (simp add: slot_of_def Let_def)
  next
    case 2
    then have "64 * 256 dvd level_unit l" using l(3) lu by auto
    then have "E div 256 mod 64 \<noteq> 0" using low [OF lv0.wheel_level_axioms] 2 by simp
    then show ?thesis using 2 by (simp add: slot_of_def Let_def)
  next
    case 3
    then have "64 * 16384 dvd level_unit l" using l(3) lu by auto
    then have "E div 16384 mod 64 \<noteq> 0" using low [OF lv1.wheel_level_axioms] 3 by simp
    then show ?thesis using 3 by (simp add: slot_of_def Let_def)
  next
    case 4
    then have "level_unit l = 67108864" using l(3) lu by auto
    then have "?d < 67108864" "64 * 1048576 dvd level_unit l" using l(3) by auto
    then have "E div 1048576 mod 64 \<noteq> 0" using low [OF lv2.wheel_level_axioms] 4 by simp
    then show ?thesis using 4 \<open>?d < 67108864\<close> by (simp add: slot_of_def Let_def)
  qed
qed

end
