(* ===== verification/Wheel_Lists.thy ===== *)
theory Wheel_Lists
  imports Wheel_Levels
begin

text \<open>
  The linked lists of the wheel as lists of addresses: the representation predicate, what \<open>link\<close> and
  \<open>link_clear\<close> do to it, and the refinement of the pointer-level moves of nodes between slots by
  list operations on an abstract wheel \<open>slot \<Rightarrow> addr list\<close>.
\<close>

section \<open>Chains\<close>

fun chain :: "(addr \<rightharpoonup> timer_node) \<Rightarrow> addr \<Rightarrow> addr list \<Rightarrow> bool" where
  "chain m p [] \<longleftrightarrow> p = NULL"
| "chain m p (x # xs) \<longleftrightarrow> p = x \<and> x \<noteq> NULL \<and> (\<exists>nd. m x = Some nd \<and> chain m (nd_next nd) xs)"

definition next_of :: "(addr \<rightharpoonup> timer_node) \<Rightarrow> addr \<Rightarrow> addr option" where
  "next_of m x = map_option nd_next (m x)"

lemma chain_cong:
  assumes "\<And>x. x \<in> set xs \<Longrightarrow> next_of m' x = next_of m x"
  shows "chain m' p xs = chain m p xs"
  using assms
proof (induction xs arbitrary: p)
  case (Cons x xs)
  have "next_of m' x = next_of m x" by (rule Cons.prems) simp
  moreover have "\<And>q. chain m' q xs = chain m q xs" by (rule Cons.IH) (simp add: Cons.prems)
  ultimately show ?case by (cases "m x"; cases "m' x") (auto simp: next_of_def)
qed simp

lemma chain_alloc: "chain m p xs \<Longrightarrow> x \<in> set xs \<Longrightarrow> x \<noteq> NULL \<and> m x \<noteq> None"
  by (induction xs arbitrary: p) auto

text \<open>Linking a node behind the last one.\<close>

lemma chain_snoc:
  assumes "chain m p xs" and "distinct (xs @ [n])" and "n \<noteq> NULL" and "m' n = Some nd" and "nd_next nd = NULL"
    and "\<And>x. x \<in> set (butlast xs) \<Longrightarrow> next_of m' x = next_of m x"
    and "xs \<noteq> [] \<Longrightarrow> next_of m' (last xs) = Some n"
  shows "chain m' (if xs = [] then n else p) (xs @ [n])"
  using assms
proof (induction xs arbitrary: p)
  case (Cons x xs)
  show ?case
  proof (cases "xs = []")
    case True
    then show ?thesis using Cons.prems by (auto simp: next_of_def)
  next
    case False
    obtain d where d: "p = x" "x \<noteq> NULL" "m x = Some d" "chain m (nd_next d) xs" using Cons.prems(1) by auto
    have "next_of m' x = next_of m x" using Cons.prems(6) False by simp
    then obtain d' where d': "m' x = Some d'" "nd_next d' = nd_next d"
      using d(3) by (auto simp: next_of_def)
    have "chain m' (if xs = [] then n else nd_next d) (xs @ [n])"
      by (rule Cons.IH [OF d(4)]) (use Cons.prems False in auto)
    then show ?thesis using False d d' by simp
  qed
qed simp

section \<open>The representation of the wheel\<close>

definition rep :: "(addr \<rightharpoonup> timer_node) \<Rightarrow> link_list \<Rightarrow> addr list \<Rightarrow> bool" where
  "rep m l xs \<longleftrightarrow> chain m (head_next l) xs \<and> distinct xs \<and>
     tail l = (if xs = [] then AtHead else AtNode (last xs))"

type_synonym slots = "slot \<Rightarrow> addr list"

definition wheel :: "s_timer \<Rightarrow> slots \<Rightarrow> bool" where
  "wheel T q \<longleftrightarrow> length (near T) = 256 \<and> length (levels T) = 4 \<and> (\<forall>l<4. length (levels T ! l) = 64) \<and>
     tw_time T < UINT32_MOD \<and>
     (\<forall>s. valid_slot s \<longrightarrow> (\<exists>ll. get_list T s = Some ll \<and> rep (nodes T) ll (q s))) \<and>
     (\<forall>s. \<not> valid_slot s \<longrightarrow> q s = []) \<and>
     (\<forall>s s' x. x \<in> set (q s) \<longrightarrow> x \<in> set (q s') \<longrightarrow> s = s')"

text \<open>A node that is in no slot, and a chain of such nodes.\<close>

definition loose :: "slots \<Rightarrow> addr \<Rightarrow> bool" where
  "loose q x \<longleftrightarrow> (\<forall>s. x \<notin> set (q s))"

text \<open>Everything of a node but its next pointer.\<close>

definition payload :: "s_timer \<Rightarrow> addr \<Rightarrow> timer_node option" where
  "payload T x = map_option (nd_next_update (\<lambda>_. NULL)) (nodes T x)"

definition expire_of :: "s_timer \<Rightarrow> addr \<Rightarrow> uint32" where
  "expire_of T x = nd_expire (the (nodes T x))"

lemma payload_eqD:
  assumes "payload T' x = payload T x"
  shows "nodes T' x = None \<longleftrightarrow> nodes T x = None" and "nodes T x \<noteq> None \<Longrightarrow> expire_of T' x = expire_of T x"
proof -
  show "nodes T' x = None \<longleftrightarrow> nodes T x = None" using assms by (auto simp: payload_def)
  assume "nodes T x \<noteq> None"
  then obtain a b where ab: "nodes T x = Some a" "nodes T' x = Some b"
    "b\<lparr>nd_next := NULL\<rparr> = a\<lparr>nd_next := NULL\<rparr>"
    using assms by (auto simp: payload_def)
  have "nd_expire (b\<lparr>nd_next := NULL\<rparr>) = nd_expire (a\<lparr>nd_next := NULL\<rparr>)" by (simp only: ab(3))
  then have "nd_expire b = nd_expire a" by simp
  then show "expire_of T' x = expire_of T x" using ab by (simp add: expire_of_def)
qed

text \<open>What the moves leave alone: all but the lists and the next pointers.\<close>

definition same_state :: "s_timer \<Rightarrow> s_timer \<Rightarrow> bool" where
  "same_state T T' \<longleftrightarrow> payload T' = payload T \<and> tw_time T' = tw_time T \<and> tw_lock T' = tw_lock T \<and>
     current_point T' = current_point T"

lemma same_state_refl [simp]: "same_state T T"
  by (simp add: same_state_def)

lemma same_state_trans: "same_state T T' \<Longrightarrow> same_state T' T'' \<Longrightarrow> same_state T T''"
  by (simp add: same_state_def)

lemma same_state_expire:
  assumes "same_state T T'"
  shows "expire_of T' = expire_of T"
proof
  fix x
  have "payload T' x = payload T x" using assms by (simp add: same_state_def)
  from payload_eqD [OF this] show "expire_of T' x = expire_of T x"
    by (cases "nodes T x = None") (auto simp: expire_of_def)
qed

lemma wheel_slot:
  assumes "wheel T q" and "valid_slot s"
  obtains ll where "get_list T s = Some ll" and "chain (nodes T) (head_next ll) (q s)" and "distinct (q s)"
    and "tail ll = (if q s = [] then AtHead else AtNode (last (q s)))"
  using assms unfolding wheel_def rep_def by blast

lemma wheel_alloc:
  assumes "wheel T q" and "x \<in> set (q s)"
  shows "x \<noteq> NULL" and "nodes T x \<noteq> None" and "valid_slot s"
proof -
  show v: "valid_slot s" using assms unfolding wheel_def by (metis empty_iff empty_set)
  obtain ll where ll: "get_list T s = Some ll" "chain (nodes T) (head_next ll) (q s)"
    by (rule wheel_slot [OF assms(1) v])
  from chain_alloc [OF ll(2) assms(2)] show "x \<noteq> NULL" and "nodes T x \<noteq> None" by auto
qed

section \<open>Slots in the state\<close>

lemma put_list_simps [simp]:
  "tw_time (put_list T s ll) = tw_time T" "tw_lock (put_list T s ll) = tw_lock T"
  "current_point (put_list T s ll) = current_point T" "nodes (put_list T s ll) = nodes T"
  "length (near (put_list T s ll)) = length (near T)" "length (levels (put_list T s ll)) = length (levels T)"
  by (cases s; simp)+

lemma put_list_levels [simp]:
  "length (levels (put_list T s ll) ! l) = length (levels T ! l)"
proof (cases s)
  case (Lev k j)
  then show ?thesis by (cases "l = k"; cases "k < length (levels T)") (simp_all add: list_update_beyond)
qed simp

lemma get_put:
  assumes "get_list T s = Some l0"
  shows "get_list (put_list T s ll) s' = (if s' = s then Some ll else get_list T s')"
  using assms by (cases s; cases s') (auto simp: nth_list_update split: if_splits)

lemma get_list_nodes [simp]: "get_list (T\<lparr>nodes := m\<rparr>) s = get_list T s"
  by (cases s) simp_all

section \<open>link and link_clear\<close>

lemma link_clear_spec:
  assumes "wheel T q" and "valid_slot s"
  shows "\<exists>p T'. link_clear T s = Some (p, T') \<and> chain (nodes T') p (q s) \<and> wheel T' (q(s := [])) \<and>
     nodes T' = nodes T \<and> same_state T T'"
proof -
  obtain ll where ll: "get_list T s = Some ll" "chain (nodes T) (head_next ll) (q s)"
    by (rule wheel_slot [OF assms])
  let ?T = "put_list T s (ll\<lparr>head_next := NULL, tail := AtHead\<rparr>)"
  have "\<exists>l'. get_list ?T s' = Some l' \<and> rep (nodes ?T) l' ((q(s := [])) s')" if "valid_slot s'" for s'
    using assms(1) that get_put [OF ll(1)] unfolding wheel_def by (auto simp: rep_def)
  then have "wheel ?T (q(s := []))"
    using assms(1) unfolding wheel_def by auto
  then show ?thesis using ll by (simp add: link_clear_def same_state_def payload_def fun_eq_iff)
qed

lemma set_next_Some: "nodes T x = Some nd \<Longrightarrow> set_next T x y = Some (T\<lparr>nodes := (nodes T)(x \<mapsto> nd\<lparr>nd_next := y\<rparr>)\<rparr>)"
  by (simp add: set_next_def)

lemma link_spec:
  assumes w: "wheel T q" and s: "valid_slot s" and n: "n \<noteq> NULL" "nodes T n \<noteq> None" "loose q n"
  shows "\<exists>T'. link T s n = Some T' \<and> wheel T' (q(s := q s @ [n])) \<and> same_state T T' \<and>
     (\<forall>x. x \<noteq> n \<longrightarrow> x \<notin> set (q s) \<longrightarrow> nodes T' x = nodes T x)"
proof -
  obtain ll where ll: "get_list T s = Some ll" "chain (nodes T) (head_next ll) (q s)" "distinct (q s)"
    "tail ll = (if q s = [] then AtHead else AtNode (last (q s)))"
    by (rule wheel_slot [OF w s])
  obtain nd where nd: "nodes T n = Some nd" using n(2) by blast
  have nq: "n \<notin> set (q s)" using n(3) by (simp add: loose_def)
  define ll' where "ll' = \<lparr>head_next = (if q s = [] then n else head_next ll), tail = AtNode n\<rparr>"
  define m where "m = (\<lambda>x. if x = n then Some (nd\<lparr>nd_next := NULL\<rparr>)
    else if q s \<noteq> [] \<and> x = last (q s) then map_option (nd_next_update (\<lambda>_. n)) (nodes T x) else nodes T x)"
  define T' where "T' = (put_list T s ll')\<lparr>nodes := m\<rparr>"
  have ln: "q s \<noteq> [] \<Longrightarrow> last (q s) \<noteq> n" using nq by (metis last_in_set)
  have "link T s n = Some T'"
  proof (cases "q s = []")
    case True
    have "m = (nodes T)(n \<mapsto> nd\<lparr>nd_next := NULL\<rparr>)" using True by (auto simp: m_def fun_eq_iff)
    moreover have "ll\<lparr>head_next := n, tail := AtNode n\<rparr> = ll'" using True by (simp add: ll'_def)
    ultimately show ?thesis
      using True ll nd by (simp add: link_def set_next_Some T'_def)
  next
    case False
    then obtain nl where nl: "nodes T (last (q s)) = Some nl"
      using chain_alloc [OF ll(2), of "last (q s)"] by auto
    have "m = (nodes T)(last (q s) \<mapsto> nl\<lparr>nd_next := n\<rparr>, n \<mapsto> nd\<lparr>nd_next := NULL\<rparr>)"
      using False nl ln by (auto simp: m_def fun_eq_iff)
    moreover have "ll\<lparr>tail := AtNode n\<rparr> = ll'" using False by (simp add: ll'_def)
    ultimately show ?thesis
      using False ll nd nl ln [OF False] by (simp add: link_def set_next_Some T'_def)
  qed
  moreover have "wheel T' (q(s := q s @ [n]))"
  proof -
    have own: "rep m ll' (q s @ [n])"
    proof -
      have "chain m (if q s = [] then n else head_next ll) (q s @ [n])"
      proof (rule chain_snoc [OF ll(2)])
        show "next_of m x = next_of (nodes T) x" if "x \<in> set (butlast (q s))" for x
        proof -
          have "x \<in> set (q s)" using that by (rule in_set_butlastD)
          moreover have "x \<noteq> last (q s)"
            using that ll(3) by (metis append_butlast_last_id distinct_append IntI empty_iff in_set_butlastD
                list.set_intros(1) list.size(3) length_pos_if_in_set less_numeral_extra(3))
          ultimately show ?thesis using nq by (auto simp: next_of_def m_def)
        qed
        show "next_of m (last (q s)) = Some n" if "q s \<noteq> []"
          using that ln chain_alloc [OF ll(2), of "last (q s)"] by (auto simp: next_of_def m_def)
      qed (use nq ll n in \<open>auto simp: m_def\<close>)
      then show ?thesis using ll(3) nq by (simp add: rep_def ll'_def)
    qed
    have other: "rep m l' (q s') = rep (nodes T) l' (q s')" if "s' \<noteq> s" for s' l'
    proof -
      have "next_of m x = next_of (nodes T) x" if x: "x \<in> set (q s')" for x
      proof -
        have "x \<noteq> n" using x n(3) by (auto simp: loose_def)
        moreover have "x \<noteq> last (q s)" if "q s \<noteq> []"
        proof -
          have "last (q s) \<in> set (q s)" using that by simp
          then show ?thesis using x \<open>s' \<noteq> s\<close> w unfolding wheel_def by metis
        qed
        ultimately show ?thesis by (auto simp: next_of_def m_def)
      qed
      then have "chain m p (q s') = chain (nodes T) p (q s')" for p by (rule chain_cong)
      then show ?thesis by (simp add: rep_def)
    qed
    have "\<exists>l'. get_list T' s' = Some l' \<and> rep (nodes T') l' ((q(s := q s @ [n])) s')" if "valid_slot s'" for s'
      using that own other w get_put [OF ll(1)] unfolding wheel_def T'_def by auto
    then show ?thesis
      using w s n(3) unfolding wheel_def T'_def loose_def by auto
  qed
  moreover have "same_state T T'"
    using nd by (auto simp: same_state_def payload_def T'_def m_def fun_eq_iff option.map_comp comp_def)
  moreover have "nodes T' x = nodes T x" if "x \<noteq> n" "x \<notin> set (q s)" for x
    using that by (auto simp: T'_def m_def)
  ultimately show ?thesis by blast
qed

section \<open>Moving lists\<close>

text \<open>The abstract moves: file a node by its deadline, file a list of nodes, empty a slot and file it.\<close>

definition a_add :: "uint32 \<Rightarrow> (addr \<Rightarrow> uint32) \<Rightarrow> addr \<Rightarrow> slots \<Rightarrow> slots" where
  "a_add t ex x q = q(slot_of t (ex x) := q (slot_of t (ex x)) @ [x])"

definition a_move :: "uint32 \<Rightarrow> (addr \<Rightarrow> uint32) \<Rightarrow> slot \<Rightarrow> slots \<Rightarrow> slots" where
  "a_move t ex s q = fold (a_add t ex) (q s) (q(s := []))"

definition a_shift :: "uint32 \<Rightarrow> (addr \<Rightarrow> uint32) \<Rightarrow> slots \<Rightarrow> slots" where
  "a_shift t ex q = (case shift_slot t of None \<Rightarrow> q | Some s \<Rightarrow> a_move (u32_add t 1) ex s q)"

lemma add_node_spec:
  assumes "wheel T q" and "n \<noteq> NULL" and "nodes T n \<noteq> None" and "loose q n"
    and "expire_of T n < UINT32_MOD"
  shows "\<exists>T'. add_node T n = Some T' \<and> wheel T' (a_add (tw_time T) (expire_of T) n q) \<and> same_state T T' \<and>
     (\<forall>x. x \<noteq> n \<longrightarrow> loose q x \<longrightarrow> nodes T' x = nodes T x)"
proof -
  obtain nd where nd: "nodes T n = Some nd" using assms(3) by blast
  let ?s = "slot_of (tw_time T) (expire_of T n)"
  have "valid_slot ?s" by (rule slot_of_placed(2) [OF assms(5)])
  from link_spec [OF assms(1) this assms(2-4)] obtain T' where T': "link T ?s n = Some T'"
    "wheel T' (q(?s := q ?s @ [n]))" "same_state T T'"
    "\<forall>x. x \<noteq> n \<longrightarrow> x \<notin> set (q ?s) \<longrightarrow> nodes T' x = nodes T x" by blast
  then show ?thesis
    using nd by (auto simp: add_node_slot_of a_add_def expire_of_def loose_def)
qed

lemma loose_a_add: "loose q x \<Longrightarrow> x \<noteq> n \<Longrightarrow> loose (a_add t ex n q) x"
  by (auto simp: loose_def a_add_def)

lemma move_loop_spec:
  assumes "wheel T q" and "chain (nodes T) p xs" and "distinct xs" and "\<forall>x\<in>set xs. loose q x"
    and "\<forall>x\<in>set xs. expire_of T x < UINT32_MOD" and "ex = expire_of T" and "t = tw_time T"
  shows "\<exists>T'. move_loop T p = Some T' \<and> wheel T' (fold (a_add t ex) xs q) \<and> same_state T T'"
  using assms
proof (induction xs arbitrary: T q p)
  case Nil
  then show ?case by (simp add: move_loop.simps)
next
  case (Cons x xs)
  obtain nd where nd: "p = x" "x \<noteq> NULL" "nodes T x = Some nd" "chain (nodes T) (nd_next nd) xs"
    using Cons.prems(2) by auto
  obtain T1 where T1: "add_node T x = Some T1" "wheel T1 (a_add t ex x q)" "same_state T T1"
    "\<forall>y. y \<noteq> x \<longrightarrow> loose q y \<longrightarrow> nodes T1 y = nodes T y"
    using add_node_spec [OF Cons.prems(1) nd(2)] nd(3) Cons.prems by auto
  have fr: "nodes T1 y = nodes T y" if "y \<in> set xs" for y
    using T1(4) that Cons.prems(3,4) by auto
  have c: "chain (nodes T1) (nd_next nd) xs"
    using nd(4) chain_cong [of xs "nodes T1" "nodes T"] fr by (simp add: next_of_def)
  have e: "\<forall>y\<in>set xs. expire_of T1 y < UINT32_MOD"
    using fr Cons.prems(5) by (simp add: expire_of_def)
  have lo: "\<forall>y\<in>set xs. loose (a_add t ex x q) y"
  proof
    fix y
    assume y: "y \<in> set xs"
    show "loose (a_add t ex x q) y"
      by (rule loose_a_add) (use y Cons.prems(3,4) in auto)
  qed
  have "\<exists>T'. move_loop T1 (nd_next nd) = Some T' \<and> wheel T' (fold (a_add t ex) xs (a_add t ex x q)) \<and>
      same_state T1 T'"
  proof (rule Cons.IH [OF T1(2) c _ lo e])
    show "distinct xs" using Cons.prems(3) by simp
    show "ex = expire_of T1" using Cons.prems(6) same_state_expire [OF T1(3)] by simp
    show "t = tw_time T1" using Cons.prems(7) T1(3) by (simp add: same_state_def)
  qed
  then obtain T' where "move_loop T1 (nd_next nd) = Some T'" "wheel T' (fold (a_add t ex) xs (a_add t ex x q))"
    "same_state T1 T'" by blast
  then show ?case
    using nd(1-3) T1(1,3) by (subst move_loop.simps) (auto intro: same_state_trans)
qed

text \<open>All deadlines in the wheel are 32-bit values.\<close>

definition deadlines_ok :: "s_timer \<Rightarrow> slots \<Rightarrow> bool" where
  "deadlines_ok T q \<longleftrightarrow> (\<forall>s. \<forall>x\<in>set (q s). expire_of T x < UINT32_MOD)"

lemma move_list_spec:
  assumes w: "wheel T q" and "deadlines_ok T q" and l: "l < 4" "j < 64"
  shows "\<exists>T'. move_list T l j = Some T' \<and> wheel T' (a_move (tw_time T) (expire_of T) (Lev l j) q) \<and> same_state T T'"
proof -
  let ?s = "Lev l j"
  have v: "valid_slot ?s" using l by simp
  obtain p T1 where c: "link_clear T ?s = Some (p, T1)" "chain (nodes T1) p (q ?s)" "wheel T1 (q(?s := []))"
    "nodes T1 = nodes T" "same_state T T1"
    using link_clear_spec [OF w v] by blast
  have d: "distinct (q ?s)" by (rule wheel_slot [OF w v])
  have lo: "\<forall>x\<in>set (q ?s). loose (q(?s := [])) x" using w unfolding wheel_def loose_def by auto
  have e: "\<forall>x\<in>set (q ?s). expire_of T1 x < UINT32_MOD"
    using assms(2) c(4) by (simp add: deadlines_ok_def expire_of_def)
  obtain T' where "move_loop T1 p = Some T'"
    "wheel T' (fold (a_add (tw_time T1) (expire_of T1)) (q ?s) (q(?s := [])))" "same_state T1 T'"
    using move_loop_spec [OF c(3,2) d lo e refl refl] by blast
  moreover have "expire_of T1 = expire_of T" "tw_time T1 = tw_time T"
    using c by (auto simp: expire_of_def same_state_def)
  ultimately show ?thesis
    using c same_state_trans by (auto simp: move_list_def a_move_def)
qed

text \<open>The pointer-level tick refines the abstract one.\<close>

lemma shift_loop_0: "ct mod low \<noteq> 0 \<Longrightarrow> shift_loop T ct low time i = Some T"
  by (simp add: shift_loop.simps)

lemma shift_loop_move: "ct mod low = 0 \<Longrightarrow> time mod 64 \<noteq> 0 \<Longrightarrow>
    shift_loop T ct low time i = move_list T i (time mod 64)"
  by (simp add: shift_loop.simps Let_def)

lemma shift_loop_up: "ct mod low = 0 \<Longrightarrow> time mod 64 = 0 \<Longrightarrow>
    shift_loop T ct low time i = shift_loop T ct (low * 64) (time div 64) (i + 1)"
  by (subst shift_loop.simps) (simp add: Let_def)

lemma level_times: "256 * 64 = (16384 :: nat)" "16384 * 64 = (1048576 :: nat)" "1048576 * 64 = (67108864 :: nat)"
  by simp_all

lemma shift_loop_slot:
  assumes ct: "ct = u32_add t 1" and nz: "ct \<noteq> 0"
  shows "shift_loop T ct 256 (ct div 256) 0 =
     (case shift_slot t of Some (Lev l j) \<Rightarrow> move_list T l j | _ \<Rightarrow> Some T)"
proof -
  note ch = shift_chain [of t, folded ct]
  have dd: "ct div 256 div 64 = ct div 16384" "ct div 16384 div 64 = ct div 1048576"
    "ct div 1048576 div 64 = ct div 67108864"
    by (simp_all add: div_mult2_eq [symmetric])
  have l: "0 + 1 = (1 :: nat)" "1 + 1 = (2 :: nat)" "2 + 1 = (3 :: nat)" by simp_all
  note up = shift_loop_up [of ct 256 "ct div 256" T 0, unfolded level_times dd l]
    shift_loop_up [of ct 16384 "ct div 16384" T 1, unfolded level_times dd l]
    shift_loop_up [of ct 1048576 "ct div 1048576" T 2, unfolded level_times dd l]
  consider "ct mod 256 \<noteq> 0" | "ct mod 256 = 0" "ct div 256 mod 64 \<noteq> 0"
    | "ct mod 256 = 0" "ct div 256 mod 64 = 0" "ct div 16384 mod 64 \<noteq> 0"
    | "ct mod 256 = 0" "ct div 256 mod 64 = 0" "ct div 16384 mod 64 = 0" "ct div 1048576 mod 64 \<noteq> 0"
    | "ct mod 256 = 0" "ct div 256 mod 64 = 0" "ct div 16384 mod 64 = 0" "ct div 1048576 mod 64 = 0"
    by metis
  then show ?thesis
  proof cases
    case 1
    then show ?thesis using ch(2) [OF nz 1] shift_loop_0 [OF 1] by simp
  next
    case 2
    show ?thesis unfolding shift_loop_move [OF 2] using ch(3) [OF nz 2] by simp
  next
    case 3
    have "ct mod 16384 = 0" by (rule level_zeroI(1) [OF 3(2,1)])
    then show ?thesis using ch(4) [OF nz 3] up(1) [OF 3(1,2)] shift_loop_move [OF _ 3(3)] by simp
  next
    case 4
    have z: "ct mod 16384 = 0" by (rule level_zeroI(1) [OF 4(2,1)])
    have "ct mod 1048576 = 0" by (rule level_zeroI(2) [OF 4(3) z])
    then show ?thesis
      using ch(5) [OF nz 4] up(1) [OF 4(1,2)] up(2) [OF z 4(3)] shift_loop_move [OF _ 4(4)] by simp
  next
    case 5
    have z: "ct mod 16384 = 0" by (rule level_zeroI(1) [OF 5(2,1)])
    have z2: "ct mod 1048576 = 0" by (rule level_zeroI(2) [OF 5(3) z])
    have z3: "ct mod 67108864 = 0" by (rule level_zeroI(3) [OF 5(4) z2])
    have "ct div 67108864 mod 64 \<noteq> 0"
    proof
      assume "ct div 67108864 mod 64 = 0"
      moreover have "ct div 67108864 < 64" using u32_add_lt [of t 1] ct by (simp add: less_mult_imp_div_less)
      ultimately have "ct div 67108864 = 0" by simp
      then show False using z3 nz by (metis div_mult_mod_eq mult_0 add_0)
    qed
    then show ?thesis
      using ch(6) [OF nz 5] up(1) [OF 5(1,2)] up(2) [OF z 5(3)] up(3) [OF z2 5(4)] shift_loop_move [OF z3] by simp
  qed
qed

end
