(* ===== verification/Wheel_Tick.thy ===== *)
theory Wheel_Tick
  imports Wheel_Lists
begin

text \<open>
  One tick of the wheel: the shift, the dispatch of the near slot, and the invariant they keep. The
  callbacks are constrained only in what they may do to the wheel: they add timers and leave the
  others alone.
\<close>

section \<open>The invariant\<close>

definition placed_ok :: "uint32 \<Rightarrow> (addr \<Rightarrow> uint32) \<Rightarrow> slots \<Rightarrow> bool" where
  "placed_ok t ex q \<longleftrightarrow> (\<forall>s. \<forall>x\<in>set (q s). \<not> dead s \<longrightarrow> placed t s (ex x))"

definition ahead_ok :: "uint32 \<Rightarrow> (addr \<Rightarrow> uint32) \<Rightarrow> slots \<Rightarrow> bool" where
  "ahead_ok t ex q \<longleftrightarrow> (\<forall>s. \<forall>x\<in>set (q s). \<not> dead s \<longrightarrow> ex x \<noteq> t)"

text \<open>Between ticks: a represented wheel whose live timers are filed right and lie ahead.\<close>

definition tw_inv :: "s_timer \<Rightarrow> slots \<Rightarrow> bool" where
  "tw_inv T q \<longleftrightarrow> wheel T q \<and> deadlines_ok T q \<and> placed_ok (tw_time T) (expire_of T) q \<and>
     ahead_ok (tw_time T) (expire_of T) q"

lemma tw_invD:
  assumes "tw_inv T q"
  shows "wheel T q" and "deadlines_ok T q" and "placed_ok (tw_time T) (expire_of T) q"
    and "ahead_ok (tw_time T) (expire_of T) q" and "tw_time T < UINT32_MOD"
  using assms by (auto simp: tw_inv_def wheel_def)

lemma u32_sub_0_iff: "E < UINT32_MOD \<Longrightarrow> t < UINT32_MOD \<Longrightarrow> u32_sub E t = 0 \<longleftrightarrow> E = t"
  using u32_sub_add [of E t] by auto

lemma mod_shift_eq:
  fixes a d n :: nat
  assumes "(a + d) mod n = a mod n" and "d < n"
  shows "d = 0"
proof -
  have "n dvd a + d - a" using assms(1) mod_eq_dvd_iff_nat [of a "a + d" n] by simp
  then have "n dvd d" by simp
  then show ?thesis using assms(2) by (metis dvd_imp_le leD not_gr0)
qed

lemma near_now:
  assumes "E < UINT32_MOD" and "t < UINT32_MOD" and "placed t (Near (t mod 256)) E"
  shows "E = t"
proof -
  let ?d = "u32_sub E t"
  have "E mod 256 = (t + ?d) mod 256" using tick_level(1) [OF assms(1,2), of 0] by simp
  then have "(t + ?d) mod 256 = t mod 256" using assms(3) by simp
  moreover have "?d < 256" using assms(3) by simp
  ultimately have "?d = 0" by (rule mod_shift_eq)
  then show ?thesis using u32_sub_0_iff [OF assms(1,2)] by simp
qed

lemma now_near:
  assumes "placed t s t" and "\<not> dead s"
  shows "s = Near (t mod 256)"
  using assms by (cases s) auto

section \<open>The shift\<close>

lemma fold_a_add: "fold (a_add t ex) xs q s = q s @ filter (\<lambda>x. slot_of t (ex x) = s) xs"
  by (induction xs arbitrary: q) (auto simp: a_add_def)

lemma a_shift_slot:
  "a_shift t ex q s' = (case shift_slot t of None \<Rightarrow> q s' | Some s \<Rightarrow>
     (if s' = s then [] else q s') @ filter (\<lambda>x. slot_of (u32_add t 1) (ex x) = s') (q s))"
  by (auto simp: a_shift_def a_move_def fold_a_add split: option.splits)

lemma a_shift_mem: "x \<in> set (a_shift t ex q s') \<Longrightarrow> \<exists>s. x \<in> set (q s)"
  by (cases "shift_slot t") (auto simp: a_shift_slot split: if_splits)

lemma a_shift_dead:
  assumes "placed_ok t ex q" and "\<forall>s. \<forall>x\<in>set (q s). ex x < UINT32_MOD" and "t < UINT32_MOD" and "dead s'"
  shows "a_shift t ex q s' = q s'"
proof (cases "shift_slot t")
  case (Some s)
  have nd: "\<not> dead s" using shift_slot_some [OF Some refl] by auto
  have "slot_of (u32_add t 1) (ex x) \<noteq> s'" if "x \<in> set (q s)" for x
    using moved_live [OF Some _ _ assms(3), of "ex x"] that assms nd by (auto simp: placed_ok_def)
  then have "filter (\<lambda>x. slot_of (u32_add t 1) (ex x) = s') (q s) = []" by (simp add: filter_empty_conv)
  moreover have "s' \<noteq> s" using nd assms(4) by auto
  ultimately show ?thesis using Some by (simp add: a_shift_slot)
qed (simp add: a_shift_slot)

text \<open>A live timer stays live through the shift and is filed right for the new time.\<close>

lemma a_shift_live:
  assumes "placed_ok t ex q" and "ahead_ok t ex q" and ex: "\<forall>s. \<forall>x\<in>set (q s). ex x < UINT32_MOD"
    and t: "t < UINT32_MOD"
  shows "placed_ok (u32_add t 1) ex (a_shift t ex q)"
    and "x \<in> set (q s) \<Longrightarrow> \<not> dead s \<Longrightarrow> \<exists>s'. \<not> dead s' \<and> x \<in> set (a_shift t ex q s')"
proof -
  have keep: "placed (u32_add t 1) s (ex x)" if "x \<in> set (q s)" "\<not> dead s" "shift_slot t \<noteq> Some s" for s x
  proof -
    have "ex x < UINT32_MOD" "placed t s (ex x)" "ex x \<noteq> t"
      using that assms by (auto simp: placed_ok_def ahead_ok_def)
    moreover from this have "0 < u32_sub (ex x) t" using u32_sub_0_iff [OF _ t] by auto
    ultimately show ?thesis using placed_tick that t by blast
  qed
  have mv: "placed (u32_add t 1) (slot_of (u32_add t 1) (ex x)) (ex x)"
    "\<not> dead (slot_of (u32_add t 1) (ex x))" if "x \<in> set (q s)" "shift_slot t = Some s" for s x
  proof -
    have nd: "\<not> dead s" using shift_slot_some [OF that(2) refl] by auto
    show "placed (u32_add t 1) (slot_of (u32_add t 1) (ex x)) (ex x)"
      using slot_of_placed(1) ex that(1) by blast
    show "\<not> dead (slot_of (u32_add t 1) (ex x))"
      using moved_live [OF that(2) _ _ t] assms(1) ex that(1) nd by (auto simp: placed_ok_def)
  qed
  show "placed_ok (u32_add t 1) ex (a_shift t ex q)"
    unfolding placed_ok_def using keep mv
    by (cases "shift_slot t") (auto simp: a_shift_slot split: if_splits)
  assume x: "x \<in> set (q s)" "\<not> dead s"
  show "\<exists>s'. \<not> dead s' \<and> x \<in> set (a_shift t ex q s')"
  proof (cases "shift_slot t = Some s")
    case True
    then show ?thesis using mv [OF x(1) True] x(1)
      by (intro exI [of _ "slot_of (u32_add t 1) (ex x)"]) (simp add: a_shift_slot)
  next
    case False
    then show ?thesis using x
      by (intro exI [of _ s]) (auto simp: a_shift_slot split: option.splits)
  qed
qed

lemma wheel_time: "wheel T q \<Longrightarrow> ct < UINT32_MOD \<Longrightarrow> wheel (T\<lparr>tw_time := ct\<rparr>) q"
proof -
  have "get_list (T\<lparr>tw_time := ct\<rparr>) s = get_list T s" for s by (cases s) simp_all
  then show "wheel T q \<Longrightarrow> ct < UINT32_MOD \<Longrightarrow> wheel (T\<lparr>tw_time := ct\<rparr>) q"
    unfolding wheel_def by simp
qed

lemma timer_shift_spec:
  assumes w: "wheel T q" and dl: "deadlines_ok T q"
  shows "\<exists>T'. timer_shift T = Some T' \<and> wheel T' (a_shift (tw_time T) (expire_of T) q) \<and>
     payload T' = payload T \<and> tw_time T' = u32_add (tw_time T) 1 \<and> tw_lock T' = tw_lock T"
proof -
  let ?ct = "u32_add (tw_time T) 1"
  define T1 where "T1 = T\<lparr>tw_time := ?ct\<rparr>"
  have w1: "wheel T1 q" unfolding T1_def by (rule wheel_time [OF w]) simp
  have e1: "expire_of T1 = expire_of T" "tw_time T1 = ?ct" by (auto simp: T1_def expire_of_def)
  have dl1: "deadlines_ok T1 q" using dl e1 by (simp add: deadlines_ok_def)
  have st: "payload T1 = payload T" "tw_lock T1 = tw_lock T" by (auto simp: T1_def payload_def)
  have run: "timer_shift T = (case shift_slot (tw_time T) of Some (Lev l j) \<Rightarrow> move_list T1 l j | _ \<Rightarrow> Some T1)"
  proof (cases "?ct = 0")
    case True
    then show ?thesis using shift_chain(1) [of "tw_time T"] by (simp add: timer_shift_def T1_def)
  next
    case False
    then show ?thesis using shift_loop_slot [OF refl False, of T1]
      by (simp add: timer_shift_def T1_def Let_def)
  qed
  show ?thesis
  proof (cases "shift_slot (tw_time T)")
    case None
    then show ?thesis using run w1 st e1 by (simp add: a_shift_def)
  next
    case (Some s)
    then obtain l where l: "l < 4" "s = Lev l (?ct div level_unit l mod 64)"
      using shift_slot_some [OF Some refl] by (elim exE conjE) (rule that)
    obtain T' where "move_list T1 l (?ct div level_unit l mod 64) = Some T'"
      "wheel T' (a_move ?ct (expire_of T) s q)" "same_state T1 T'"
      using move_list_spec [OF w1 dl1 l(1), of "?ct div level_unit l mod 64"] e1 l(2) by auto
    then show ?thesis
      using run Some l(2) st e1 by (auto simp: a_shift_def same_state_def)
  qed
qed

section \<open>Callbacks\<close>

text \<open>\<open>q'\<close> is \<open>q\<close> with timers linked behind.\<close>

definition grows :: "slots \<Rightarrow> slots \<Rightarrow> bool" where
  "grows q q' \<longleftrightarrow> (\<forall>s. \<exists>new. q' s = q s @ new)"

lemma grows_refl [simp]: "grows q q"
  by (simp add: grows_def)

lemma grows_trans: "grows q q' \<Longrightarrow> grows q' q'' \<Longrightarrow> grows q q''"
  unfolding grows_def by (metis append_assoc)

lemma grows_mem: "grows q q' \<Longrightarrow> x \<in> set (q s) \<Longrightarrow> x \<in> set (q' s)"
  unfolding grows_def by (metis UnI1 set_append)

text \<open>What a callback may do: add timers ahead of the current tick; the timers in the wheel keep
  their payload, and the allocated nodes outside the wheel stay untouched and outside.\<close>

definition leaves_alone :: "s_timer \<Rightarrow> slots \<Rightarrow> s_timer \<Rightarrow> slots \<Rightarrow> bool" where
  "leaves_alone T q T' q' \<longleftrightarrow> grows q q' \<and> tw_time T' = tw_time T \<and>
     (\<forall>s. \<forall>x\<in>set (q s). payload T' x = payload T x) \<and>
     (\<forall>x. nodes T x \<noteq> None \<longrightarrow> loose q x \<longrightarrow> nodes T' x = nodes T x \<and> loose q' x)"

definition tw_callbacks_ok :: "(nat \<Rightarrow> addr \<Rightarrow> s_timer \<Rightarrow> s_timer option) \<Rightarrow> bool" where
  "tw_callbacks_ok call \<longleftrightarrow>
     (\<forall>h x T q. tw_inv T q \<longrightarrow> tw_lock T = 0 \<longrightarrow> nodes T x \<noteq> None \<longrightarrow> loose q x \<longrightarrow>
        (\<exists>T' q'. call h x T = Some T' \<and> tw_inv T' q' \<and> tw_lock T' = 0 \<and> leaves_alone T q T' q'))"

lemma tw_silent_callbacks: "tw_callbacks_ok (\<lambda>h x T. Some T)"
  unfolding tw_callbacks_ok_def leaves_alone_def using grows_refl by blast

section \<open>Dispatch\<close>

lemma free_node_spec:
  assumes inv: "tw_inv T q" and x: "nodes T x \<noteq> None" "loose q x"
  shows "\<exists>T'. free_node x T = Some T' \<and> tw_inv T' q \<and> tw_lock T' = tw_lock T \<and> tw_time T' = tw_time T \<and>
     (\<forall>y. y \<noteq> x \<longrightarrow> nodes T' y = nodes T y)"
proof -
  let ?T = "T\<lparr>nodes := (nodes T)(x := None)\<rparr>"
  have ne: "y \<in> set (q s) \<Longrightarrow> y \<noteq> x" for y s using x(2) by (auto simp: loose_def)
  have "rep (nodes ?T) ll (q s) = rep (nodes T) ll (q s)" for s ll
  proof -
    have "chain (nodes ?T) (head_next ll) (q s) = chain (nodes T) (head_next ll) (q s)"
      by (rule chain_cong) (use ne in \<open>simp add: next_of_def\<close>)
    then show ?thesis by (simp add: rep_def)
  qed
  then have "wheel ?T q" using tw_invD(1) [OF inv] unfolding wheel_def by simp
  moreover have "expire_of ?T y = expire_of T y" if "y \<in> set (q s)" for y s
    using ne [OF that] by (simp add: expire_of_def)
  ultimately have "tw_inv ?T q"
    using inv by (simp add: tw_inv_def deadlines_ok_def placed_ok_def ahead_ok_def)
  then show ?thesis using x(1) by (auto simp: free_node_def)
qed

definition log_of :: "s_timer \<Rightarrow> addr list \<Rightarrow> (addr \<times> bool) list" where
  "log_of T xs = map (\<lambda>x. (x, nd_cancel (the (nodes T x)) = 0)) xs"

lemma dispatch_spec:
  assumes "tw_inv T q" and "tw_lock T = 0" and "chain (nodes T) p xs" and "xs \<noteq> []" and "distinct xs"
    and "\<forall>x\<in>set xs. loose q x" and ok: "tw_callbacks_ok call"
  shows "\<exists>T' q'. dispatch_list call p T = Some (log_of T xs, T') \<and> tw_inv T' q' \<and> tw_lock T' = 0 \<and>
     grows q q' \<and> tw_time T' = tw_time T \<and> (\<forall>s. \<forall>x\<in>set (q s). payload T' x = payload T x)"
  using assms(1-6)
proof (induction xs arbitrary: T q p)
  case (Cons x xs)
  obtain nd where nd: "p = x" "nodes T x = Some nd" "chain (nodes T) (nd_next nd) xs"
    using Cons.prems(3) by auto
  have lx: "loose q x" using Cons.prems(6) by simp
  obtain T1 q1 where T1: "(if nd_cancel nd = 0 then call (nd_callback nd) x T else Some T) = Some T1"
    "tw_inv T1 q1" "tw_lock T1 = 0" "leaves_alone T q T1 q1"
  proof (cases "nd_cancel nd = 0")
    case True
    then show ?thesis
      using ok Cons.prems(1,2) nd(2) lx that unfolding tw_callbacks_ok_def by (metis option.distinct(1))
  next
    case False
    then show ?thesis using that [of T q] Cons.prems(1,2) by (simp add: leaves_alone_def)
  qed
  have la: "grows q q1" "tw_time T1 = tw_time T" "\<forall>s. \<forall>x\<in>set (q s). payload T1 x = payload T x"
    "\<And>y. nodes T y \<noteq> None \<Longrightarrow> loose q y \<Longrightarrow> nodes T1 y = nodes T y \<and> loose q1 y"
    using T1(4) by (auto simp: leaves_alone_def)
  have x1: "nodes T1 x \<noteq> None" "loose q1 x" using la(4) [of x] nd(2) lx by auto
  obtain T2 where T2: "free_node x T1 = Some T2" "tw_inv T2 q1" "tw_lock T2 = 0" "tw_time T2 = tw_time T"
    "\<forall>y. y \<noteq> x \<longrightarrow> nodes T2 y = nodes T1 y"
    using free_node_spec [OF T1(2) x1] T1(3) la(2) by auto
  have keep: "nodes T2 y = nodes T y \<and> loose q1 y" if "y \<in> set xs" for y
    using chain_alloc [OF nd(3) that] la(4) [of y] Cons.prems(5,6) T2(5) that by auto
  have pay: "\<forall>s. \<forall>y\<in>set (q s). payload T2 y = payload T y"
  proof (intro allI ballI)
    fix s y
    assume y: "y \<in> set (q s)"
    then have "y \<noteq> x" using lx by (auto simp: loose_def)
    then have "payload T2 y = payload T1 y" using T2(5) by (simp add: payload_def)
    then show "payload T2 y = payload T y" using la(3) y by simp
  qed
  have null: "nd_next nd = NULL \<longleftrightarrow> xs = []"
    using nd(3) by (cases xs) auto
  have lg: "(x, nd_cancel nd = 0) # log_of T xs = log_of T (x # xs)" using nd(2) by (simp add: log_of_def)
  show ?case
  proof (cases "xs = []")
    case True
    have "dispatch_list call p T = Some ([(x, nd_cancel nd = 0)], T2)"
      using nd(1,2) T1(1) T2(1) null True
      by (subst dispatch_list.simps) (cases "nd_cancel nd = 0"; simp)
    then show ?thesis using True lg T2 la(1) pay by (auto simp: log_of_def)
  next
    case False
    have c: "chain (nodes T2) (nd_next nd) xs"
      using nd(3) keep chain_cong [of xs "nodes T2" "nodes T"] by (simp add: next_of_def)
    obtain T' q' where r: "dispatch_list call (nd_next nd) T2 = Some (log_of T2 xs, T')" "tw_inv T' q'"
      "tw_lock T' = 0" "grows q1 q'" "tw_time T' = tw_time T2" "\<forall>s. \<forall>x\<in>set (q1 s). payload T' x = payload T2 x"
      using Cons.IH [OF T2(2,3) c False] Cons.prems(5) keep by auto
    have "log_of T2 xs = log_of T xs" using keep by (simp add: log_of_def)
    then have "dispatch_list call p T = Some (log_of T (x # xs), T')"
      using nd(1,2) T1(1) T2(1) null False r(1) lg
      by (subst dispatch_list.simps) (cases "nd_cancel nd = 0"; simp)
    moreover have "\<forall>s. \<forall>y\<in>set (q s). payload T' y = payload T y"
      using r(6) pay grows_mem [OF la(1)] by metis
    ultimately show ?thesis using r T2(4) grows_trans [OF la(1) r(4)] by auto
  qed
qed simp

section \<open>Execution of the near slot\<close>

lemma wheel_lock [simp]: "wheel (T\<lparr>tw_lock := v\<rparr>) q = wheel T q"
proof -
  have "get_list (T\<lparr>tw_lock := v\<rparr>) s = get_list T s" for s by (cases s) simp_all
  then show ?thesis unfolding wheel_def by simp
qed

lemma tw_inv_lock [simp]: "tw_inv (T\<lparr>tw_lock := v\<rparr>) q = tw_inv T q"
proof -
  have "expire_of (T\<lparr>tw_lock := v\<rparr>) = expire_of T" by (simp add: expire_of_def fun_eq_iff)
  then show ?thesis by (simp add: tw_inv_def deadlines_ok_def)
qed

lemma near_slot_empty:
  assumes "tw_inv T q"
  shows "q (Near (tw_time T mod 256)) = []"
proof (rule ccontr)
  assume "q (Near (tw_time T mod 256)) \<noteq> []"
  then obtain x where x: "x \<in> set (q (Near (tw_time T mod 256)))" by (metis list.set_intros(1) neq_Nil_conv)
  have "\<not> dead (Near (tw_time T mod 256))" by simp
  then have "placed (tw_time T) (Near (tw_time T mod 256)) (expire_of T x)" "expire_of T x \<noteq> tw_time T"
    "expire_of T x < UINT32_MOD"
    using x tw_invD [OF assms] unfolding placed_ok_def ahead_ok_def deadlines_ok_def by blast+
  then show False using near_now tw_invD(5) [OF assms] by blast
qed

lemma execute_empty:
  assumes "wheel T q" and "q (Near (tw_time T mod 256)) = []"
  shows "timer_execute call T = Some ([], T)"
proof -
  have v: "valid_slot (Near (tw_time T mod 256))" by simp
  obtain ll where "get_list T (Near (tw_time T mod 256)) = Some ll"
    "chain (nodes T) (head_next ll) (q (Near (tw_time T mod 256)))"
    by (rule wheel_slot [OF assms(1) v])
  then show ?thesis using assms(2) by (subst timer_execute.simps) simp
qed

lemma execute_spec:
  assumes w: "wheel T q" and dl: "deadlines_ok T q" and pl: "placed_ok (tw_time T) (expire_of T) q"
    and lock: "tw_lock T = 1" and ok: "tw_callbacks_ok call"
  shows "\<exists>T' q'. timer_execute call T = Some (log_of T (q (Near (tw_time T mod 256))), T') \<and> tw_inv T' q' \<and>
     tw_lock T' = 1 \<and> grows (q(Near (tw_time T mod 256) := [])) q' \<and> tw_time T' = tw_time T \<and>
     (\<forall>s. \<forall>x\<in>set ((q(Near (tw_time T mod 256) := [])) s). payload T' x = payload T x)"
proof -
  let ?s = "Near (tw_time T mod 256)"
  have v: "valid_slot ?s" by simp
  obtain ll where ll: "get_list T ?s = Some ll" "chain (nodes T) (head_next ll) (q ?s)" "distinct (q ?s)"
    by (rule wheel_slot [OF w v])
  have tl: "tw_time T < UINT32_MOD" using w by (simp add: wheel_def)
  have ah: "ahead_ok (tw_time T) (expire_of T) (q(?s := []))"
    using now_near pl unfolding ahead_ok_def placed_ok_def by (metis empty_iff empty_set fun_upd_apply)
  show ?thesis
  proof (cases "q ?s = []")
    case True
    then have "q(?s := []) = q" by (auto simp: fun_eq_iff)
    then have "tw_inv T q" using w dl pl ah by (simp add: tw_inv_def)
    then show ?thesis
      using execute_empty [OF w True] True lock \<open>q(?s := []) = q\<close>
      by (intro exI [of _ T] exI [of _ q]) (simp add: log_of_def)
  next
    case False
    then have hn: "head_next ll \<noteq> NULL" using ll(2) by (cases "q ?s") auto
    obtain p T1 where c: "link_clear T ?s = Some (p, T1)" "chain (nodes T1) p (q ?s)" "wheel T1 (q(?s := []))"
      "nodes T1 = nodes T" "same_state T T1"
      using link_clear_spec [OF w v] by blast
    let ?T = "tw_release T1"
    have ex: "expire_of ?T = expire_of T" "expire_of T1 = expire_of T" "tw_time ?T = tw_time T" "nodes ?T = nodes T"
      using c(4,5) by (auto simp: expire_of_def tw_release_def same_state_def)
    have inv: "tw_inv ?T (q(?s := []))"
      using c(3) dl pl ah ex unfolding tw_inv_def
      by (auto simp: tw_release_def deadlines_ok_def placed_ok_def)
    have lo: "\<forall>x\<in>set (q ?s). loose (q(?s := [])) x"
      using w unfolding wheel_def loose_def by auto
    obtain T2 q2 where d: "dispatch_list call p ?T = Some (log_of ?T (q ?s), T2)" "tw_inv T2 q2" "tw_lock T2 = 0"
      "grows (q(?s := [])) q2" "tw_time T2 = tw_time T"
      "\<forall>s. \<forall>x\<in>set ((q(?s := [])) s). payload T2 x = payload ?T x"
      using dispatch_spec [OF inv _ _ False ll(3) lo ok, of p] c(2,4) ex by (auto simp: tw_release_def)
    let ?T3 = "T2\<lparr>tw_lock := 1\<rparr>"
    have "q2 (Near (tw_time ?T3 mod 256)) = []"
      using near_slot_empty [of ?T3 q2] d(2) by simp
    then have "timer_execute call ?T3 = Some ([], ?T3)"
      using execute_empty [of ?T3 q2] tw_invD(1) [OF d(2)] by simp
    then have run: "timer_execute call T = Some (log_of ?T (q ?s), ?T3)"
      using ll(1) hn c(1) d(1,3) by (subst timer_execute.simps) (simp add: tw_acquire_def)
    have "log_of ?T (q ?s) = log_of T (q ?s)" using ex by (simp add: log_of_def)
    moreover have "payload ?T3 x = payload T2 x" "payload ?T x = payload T x" for x
      using ex(4) by (simp_all add: payload_def)
    ultimately show ?thesis using run d
      by (intro exI [of _ ?T3] exI [of _ q2]) simp
  qed
qed

section \<open>The tick\<close>

text \<open>The timers a tick to time \<open>t\<close> takes: the live ones whose deadline is \<open>t\<close>.\<close>

definition fires_at :: "s_timer \<Rightarrow> slots \<Rightarrow> uint32 \<Rightarrow> addr set" where
  "fires_at T q t = {x. \<exists>s. x \<in> set (q s) \<and> \<not> dead s \<and> expire_of T x = t}"

lemma same_payload_nodes:
  assumes "payload T' x = payload T x"
  shows "nd_cancel (the (nodes T' x)) = nd_cancel (the (nodes T x))"
    and "expire_of T' x = expire_of T x"
proof -
  show "expire_of T' x = expire_of T x"
    using payload_eqD [OF assms] by (cases "nodes T x = None") (auto simp: expire_of_def)
  show "nd_cancel (the (nodes T' x)) = nd_cancel (the (nodes T x))"
  proof (cases "nodes T x")
    case None
    then show ?thesis using payload_eqD(1) [OF assms] by simp
  next
    case (Some a)
    then obtain b where b: "nodes T' x = Some b" "b\<lparr>nd_next := NULL\<rparr> = a\<lparr>nd_next := NULL\<rparr>"
      using assms by (auto simp: payload_def)
    have "nd_cancel (b\<lparr>nd_next := NULL\<rparr>) = nd_cancel (a\<lparr>nd_next := NULL\<rparr>)" by (simp only: b(2))
    then have "nd_cancel b = nd_cancel a" by simp
    then show ?thesis using b(1) Some by simp
  qed
qed

lemma timer_update_spec:
  assumes inv: "tw_inv T q" and lock: "tw_lock T = 0" and ok: "tw_callbacks_ok call"
  shows "\<exists>xs T' q'. timer_update call T = Some (log_of T xs, T') \<and> distinct xs \<and>
     set xs = fires_at T q (u32_add (tw_time T) 1) \<and> tw_inv T' q' \<and> tw_lock T' = 0 \<and>
     tw_time T' = u32_add (tw_time T) 1 \<and>
     (\<forall>s. \<forall>x\<in>set (q s). x \<notin> set xs \<longrightarrow>
        payload T' x = payload T x \<and> (\<exists>s'. dead s' = dead s \<and> x \<in> set (q' s')))"
proof -
  let ?t = "u32_add (tw_time T) 1" and ?ex = "expire_of T"
  note inv' = tw_invD [OF inv]
  define T1 where "T1 = T\<lparr>tw_lock := 1\<rparr>"
  have i1: "tw_inv T1 q" "tw_time T1 = tw_time T" "expire_of T1 = ?ex" "payload T1 = payload T" "nodes T1 = nodes T"
    using inv by (auto simp: T1_def expire_of_def payload_def)
  have e1: "timer_execute call T1 = Some ([], T1)"
    using execute_empty tw_invD(1) [OF i1(1)] near_slot_empty [OF i1(1)] by blast
  define r where "r = a_shift (tw_time T) ?ex q"
  obtain T2 where T2: "timer_shift T1 = Some T2" "wheel T2 r" "payload T2 = payload T" "tw_time T2 = ?t" "tw_lock T2 = 1"
    using timer_shift_spec [OF tw_invD(1,2) [OF i1(1)]] i1 by (auto simp: T1_def r_def)
  have ex2: "expire_of T2 = ?ex" using same_payload_nodes(2) T2(3) by (metis ext)
  have exl: "\<forall>s. \<forall>x\<in>set (q s). ?ex x < UINT32_MOD" using inv'(2) by (simp add: deadlines_ok_def)
  note live = a_shift_live [OF inv'(3,4) exl inv'(5), folded r_def]
  have dl2: "deadlines_ok T2 r"
    unfolding deadlines_ok_def
  proof (intro allI ballI)
    fix s x
    assume "x \<in> set (r s)"
    then obtain s0 where "x \<in> set (q s0)" using a_shift_mem [of x "tw_time T" ?ex q s] by (auto simp: r_def)
    then show "expire_of T2 x < UINT32_MOD" using exl ex2 by simp
  qed
  let ?s = "Near (tw_time T2 mod 256)"
  obtain T3 q3 where T3: "timer_execute call T2 = Some (log_of T2 (r ?s), T3)" "tw_inv T3 q3" "tw_lock T3 = 1"
    "grows (r(?s := [])) q3" "tw_time T3 = tw_time T2"
    "\<forall>s. \<forall>x\<in>set ((r(?s := [])) s). payload T3 x = payload T2 x"
  proof -
    have "placed_ok (tw_time T2) (expire_of T2) r" unfolding T2(4) ex2 by (rule live(1))
    from execute_spec [OF T2(2) dl2 this T2(5) ok] show ?thesis by (elim exE conjE) (rule that)
  qed
  have "nd_cancel (the (nodes T2 x)) = nd_cancel (the (nodes T x))" for x
    by (rule same_payload_nodes(1)) (simp only: T2(3))
  then have lg: "log_of T2 (r ?s) = log_of T (r ?s)" by (simp add: log_of_def)
  have run: "timer_update call T = Some (log_of T (r ?s), T3\<lparr>tw_lock := 0\<rparr>)"
    using lock e1 T2(1) T3(1) lg by (simp add: timer_update_def tw_acquire_def tw_release_def T1_def)
  have fs: "set (r ?s) = fires_at T q ?t"
  proof (rule set_eqI)
    fix x
    show "x \<in> set (r ?s) \<longleftrightarrow> x \<in> fires_at T q ?t"
    proof
      assume x: "x \<in> set (r ?s)"
      then obtain s where s: "x \<in> set (q s)" using a_shift_mem r_def by metis
      have "\<not> dead ?s" by simp
      then have pl: "placed ?t ?s (?ex x)" using live(1) x unfolding placed_ok_def by blast
      have "?ex x = ?t"
        by (rule near_now) (use pl exl s T2(4) in simp_all)
      moreover have "\<not> dead s"
      proof
        assume "dead s"
        then have "r s = q s" using a_shift_dead [OF inv'(3) exl inv'(5)] by (simp add: r_def)
        then have "s = ?s" using s x T2(2) unfolding wheel_def by metis
        then show False using \<open>dead s\<close> by simp
      qed
      ultimately show "x \<in> fires_at T q ?t" using s by (auto simp: fires_at_def)
    next
      assume "x \<in> fires_at T q ?t"
      then obtain s where s: "x \<in> set (q s)" "\<not> dead s" "?ex x = ?t" by (auto simp: fires_at_def)
      then obtain s' where s': "\<not> dead s'" "x \<in> set (r s')" using live(2) by blast
      then have "placed ?t s' (?ex x)" using live(1) unfolding placed_ok_def by blast
      then have "placed ?t s' ?t" using s(3) by metis
      then show "x \<in> set (r ?s)" using now_near s' T2(4) by metis
    qed
  qed
  have keep: "payload (T3\<lparr>tw_lock := 0\<rparr>) x = payload T x \<and> (\<exists>s'. dead s' = dead s \<and> x \<in> set (q3 s'))"
    if x: "x \<in> set (q s)" "x \<notin> set (r ?s)" for s x
  proof -
    obtain s' where s': "dead s' = dead s" "x \<in> set (r s')"
    proof (cases "dead s")
      case True
      then show ?thesis
        using that [of s] x a_shift_dead [OF inv'(3) exl inv'(5)] by (simp add: r_def)
    next
      case False
      then show ?thesis using that live(2) [OF x(1)] by auto
    qed
    then have r': "x \<in> set ((r(?s := [])) s')" using x(2) by (cases "s' = ?s") auto
    then have "payload T3 x = payload T x" using T3(6) T2(3) by metis
    moreover have "x \<in> set (q3 s')" by (rule grows_mem [OF T3(4) r'])
    ultimately show ?thesis using s'(1) by (auto simp: payload_def)
  qed
  have "distinct (r ?s)" by (rule wheel_slot [OF T2(2), of ?s]) simp_all
  then show ?thesis
    using run fs keep T3(2,5) T2(4) by (intro exI [of _ "r ?s"] exI [of _ "T3\<lparr>tw_lock := 0\<rparr>"] exI [of _ q3]) simp
qed

section \<open>Many ticks\<close>

lemma updates_spec:
  assumes "tw_inv T q" and "tw_lock T = 0" and ok: "tw_callbacks_ok call"
  shows "\<exists>logs T' q'. tw_updates call n T = Some (logs, T') \<and> length logs = n \<and> tw_inv T' q' \<and> tw_lock T' = 0 \<and>
     tw_time T' = (tw_time T + n) mod UINT32_MOD"
  using assms(1,2)
proof (induction n arbitrary: T q)
  case 0
  then show ?case using tw_invD(5) [OF 0(1)] by auto
next
  case (Suc n)
  obtain xs T1 q1 where T1: "timer_update call T = Some (log_of T xs, T1)" "tw_inv T1 q1" "tw_lock T1 = 0"
    "tw_time T1 = u32_add (tw_time T) 1"
    using timer_update_spec [OF Suc.prems ok] by blast
  obtain logs T' q' where r: "tw_updates call n T1 = Some (logs, T')" "length logs = n" "tw_inv T' q'"
    "tw_lock T' = 0" "tw_time T' = (tw_time T1 + n) mod UINT32_MOD"
    using Suc.IH [OF T1(2,3)] by blast
  have "tw_time T' = (tw_time T + Suc n) mod UINT32_MOD"
    using r(5) T1(4) by (simp add: u32_add_def mod_Suc_eq mod_add_left_eq)
  then show ?case using T1(1) r by auto
qed

lemma live_timer_fires:
  assumes "tw_inv T q" and "tw_lock T = 0" and ok: "tw_callbacks_ok call"
    and "x \<in> set (q s)" and "\<not> dead s" and "u32_sub (expire_of T x) (tw_time T) = Suc n"
  shows "\<exists>logs T'. tw_updates call (Suc n) T = Some (logs, T') \<and> length logs = Suc n \<and>
     (x, nd_cancel (the (nodes T x)) = 0) \<in> set (logs ! n) \<and> (\<forall>k<n. x \<notin> fst ` set (logs ! k))"
  using assms(1,2,4-6)
proof (induction n arbitrary: T q s)
  case (0 T q s)
  note inv = tw_invD [OF 0(1)]
  have exl: "expire_of T x < UINT32_MOD" using inv(2) 0(3) by (auto simp: deadlines_ok_def)
  have E: "expire_of T x = u32_add (tw_time T) 1"
    using u32_sub_add [OF exl inv(5)] 0(5) by (simp add: u32_add_def)
  obtain xs T1 q1 where T1: "timer_update call T = Some (log_of T xs, T1)"
    "set xs = fires_at T q (u32_add (tw_time T) 1)"
    using timer_update_spec [OF 0(1,2) ok] by blast
  have "x \<in> set xs" using T1(2) 0(3,4) E by (auto simp: fires_at_def)
  then show ?case using T1(1) by (auto simp: log_of_def)
next
  case (Suc n T q s)
  note inv = tw_invD [OF Suc.prems(1)]
  have exl: "expire_of T x < UINT32_MOD" using inv(2) Suc.prems(3) by (auto simp: deadlines_ok_def)
  have d: "u32_sub (expire_of T x) (u32_add (tw_time T) 1) = Suc n"
    using u32_sub_tick [OF exl inv(5)] Suc.prems(5) by simp
  obtain xs T1 q1 where T1: "timer_update call T = Some (log_of T xs, T1)" "tw_inv T1 q1" "tw_lock T1 = 0"
    "tw_time T1 = u32_add (tw_time T) 1" "set xs = fires_at T q (u32_add (tw_time T) 1)"
    "\<forall>s. \<forall>x\<in>set (q s). x \<notin> set xs \<longrightarrow> payload T1 x = payload T x \<and> (\<exists>s'. dead s' = dead s \<and> x \<in> set (q1 s'))"
    using timer_update_spec [OF Suc.prems(1,2) ok] by blast
  have "expire_of T x \<noteq> u32_add (tw_time T) 1" using d by auto
  then have nx: "x \<notin> set xs" using T1(5) by (auto simp: fires_at_def)
  then obtain s' where s': "\<not> dead s'" "x \<in> set (q1 s')" "payload T1 x = payload T x"
    using T1(6) Suc.prems(3,4) by auto
  note same = same_payload_nodes [OF s'(3)]
  obtain logs T' where r: "tw_updates call (Suc n) T1 = Some (logs, T')" "length logs = Suc n"
    "(x, nd_cancel (the (nodes T1 x)) = 0) \<in> set (logs ! n)" "\<forall>k<n. x \<notin> fst ` set (logs ! k)"
    using Suc.IH [OF T1(2,3) s'(2,1)] d T1(4) same(2) by auto
  have "x \<notin> fst ` set ((log_of T xs # logs) ! k)" if "k < Suc n" for k
    using that r(4) nx by (cases k) (auto simp: log_of_def)
  moreover have "tw_updates call (Suc (Suc n)) T = Some (log_of T xs # logs, T')"
    by (subst tw_updates.simps(2)) (simp add: T1(1) r(1) del: tw_updates.simps)
  ultimately show ?case using r(2,3) same(1) by (auto simp del: tw_updates.simps)
qed

lemma dead_timer_stays:
  assumes "tw_inv T q" and "tw_lock T = 0" and ok: "tw_callbacks_ok call" and "x \<in> set (q s)" and "dead s"
  shows "\<exists>logs T'. tw_updates call n T = Some (logs, T') \<and> (\<forall>log\<in>set logs. x \<notin> fst ` set log) \<and> nodes T' x \<noteq> None"
  using assms(1,2,4,5)
proof (induction n arbitrary: T q s)
  case (0 T q s)
  then show ?case using wheel_alloc(2) [OF tw_invD(1) [OF 0(1)] 0(3)] by simp
next
  case (Suc n T q s)
  obtain xs T1 q1 where T1: "timer_update call T = Some (log_of T xs, T1)" "tw_inv T1 q1" "tw_lock T1 = 0"
    "set xs = fires_at T q (u32_add (tw_time T) 1)"
    "\<forall>s. \<forall>x\<in>set (q s). x \<notin> set xs \<longrightarrow> payload T1 x = payload T x \<and> (\<exists>s'. dead s' = dead s \<and> x \<in> set (q1 s'))"
    using timer_update_spec [OF Suc.prems(1,2) ok] by blast
  have "s' = s" if "x \<in> set (q s')" for s'
    using that Suc.prems(3) tw_invD(1) [OF Suc.prems(1)] unfolding wheel_def by metis
  then have nx: "x \<notin> set xs" using T1(4) Suc.prems(4) by (auto simp: fires_at_def)
  then obtain s' where s': "dead s'" "x \<in> set (q1 s')" using T1(5) Suc.prems(3,4) by blast
  obtain logs T' where "tw_updates call n T1 = Some (logs, T')" "\<forall>log\<in>set logs. x \<notin> fst ` set log" "nodes T' x \<noteq> None"
    using Suc.IH [OF T1(2,3) s'(2,1)] by blast
  then show ?case using T1(1) nx by (auto simp: log_of_def)
qed

end
