(* ===== verification/Wheel_Timer.thy ===== *)
theory Wheel_Timer
  imports Wheel_Tick
begin

text \<open>
  The interface of the time wheel: creation, adding and cancelling timers, expiry over many ticks,
  and the release of all nodes.
\<close>

section \<open>Creation\<close>

definition dims :: "s_timer \<Rightarrow> bool" where
  "dims T \<longleftrightarrow> length (near T) = 256 \<and> length (levels T) = 4 \<and> (\<forall>l<4. length (levels T ! l) = 64)"

lemma dims_get: "dims T \<Longrightarrow> valid_slot s \<Longrightarrow> \<exists>ll. get_list T s = Some ll"
  by (cases s) (auto simp: dims_def)

lemma dims_put [simp]: "dims (put_list T s ll) = dims T"
  by (simp add: dims_def)

lemma all_slots: "valid_slot s \<Longrightarrow> s \<in> set (near_slots @ level_slots)"
proof (cases s)
  case (Lev l j)
  assume "valid_slot s"
  then have "l \<in> {0..<4}" "Lev l j \<in> Lev l ` {0..<64}" using Lev by auto
  then have "Lev l j \<in> (\<Union>l\<in>{0..<4}. Lev l ` {0..<64})" by blast
  then show ?thesis using Lev by (simp add: level_slots_def)
qed (simp add: near_slots_def)

lemma slots_valid: "s \<in> set near_slots \<Longrightarrow> valid_slot s" "s \<in> set level_slots \<Longrightarrow> valid_slot s"
  by (auto simp: near_slots_def level_slots_def)

lemma clear_slots_Cons:
  "clear_slots T (s # ss) = (case link_clear T s of None \<Rightarrow> fold (\<lambda>s r. do { T \<leftarrow> r; c \<leftarrow> link_clear T s; Some (snd c) }) ss None
     | Some c \<Rightarrow> clear_slots (snd c) ss)"
  by (simp add: clear_slots_def split: option.splits)

lemma clear_slots_spec:
  assumes "dims T" and "\<forall>s\<in>set ss. valid_slot s"
  shows "\<exists>T'. clear_slots T ss = Some T' \<and> dims T' \<and> nodes T' = nodes T \<and> tw_time T' = tw_time T \<and>
     tw_lock T' = tw_lock T \<and>
     (\<forall>s. get_list T' s = (if s \<in> set ss then Some \<lparr>head_next = NULL, tail = AtHead\<rparr> else get_list T s))"
  using assms
proof (induction ss arbitrary: T)
  case Nil
  then show ?case by (simp add: clear_slots_def)
next
  case (Cons s ss)
  obtain ll where ll: "get_list T s = Some ll" using dims_get [OF Cons.prems(1)] Cons.prems(2) by auto
  let ?T = "put_list T s \<lparr>head_next = NULL, tail = AtHead\<rparr>"
  have c: "link_clear T s = Some (head_next ll, ?T)"
  proof -
    have e: "ll\<lparr>head_next := NULL, tail := AtHead\<rparr> = \<lparr>head_next = NULL, tail = AtHead\<rparr>" by simp
    have "link_clear T s = Some (head_next ll, put_list T s (ll\<lparr>head_next := NULL, tail := AtHead\<rparr>))"
      using ll by (simp add: link_clear_def)
    then show ?thesis by (simp only: e)
  qed
  obtain T' where "clear_slots ?T ss = Some T'" "dims T'" "nodes T' = nodes T" "tw_time T' = tw_time T"
    "tw_lock T' = tw_lock T"
    "\<forall>s'. get_list T' s' = (if s' \<in> set ss then Some \<lparr>head_next = NULL, tail = AtHead\<rparr> else get_list ?T s')"
    using Cons.IH [of ?T] Cons.prems by auto
  then show ?case using c get_put [OF ll] by (auto simp: clear_slots_Cons)
qed

lemma empty_wheel:
  assumes "dims T" and "tw_time T < UINT32_MOD"
    and "\<And>s. valid_slot s \<Longrightarrow> get_list T s = Some \<lparr>head_next = NULL, tail = AtHead\<rparr>"
  shows "tw_inv T (\<lambda>s. [])"
  using assms by (simp add: tw_inv_def wheel_def dims_def deadlines_ok_def placed_ok_def ahead_ok_def rep_def)

lemma init_spec:
  "\<exists>T. tw_init_timer cp m = Some T \<and> tw_inv T (\<lambda>s. []) \<and> tw_time T = 0 \<and> tw_lock T = 0 \<and> nodes T = m \<and>
     current_point T = cp"
proof -
  define r where "r = \<lparr>near = replicate 256 \<lparr>head_next = NULL, tail = AtNode NULL\<rparr>,
    levels = replicate 4 (replicate 64 \<lparr>head_next = NULL, tail = AtNode NULL\<rparr>),
    tw_lock = 0, tw_time = 0, current_point = 0, nodes = m\<rparr>"
  have d: "dims r" "nodes r = m" "tw_time r = 0" "tw_lock r = 0" by (simp_all add: r_def dims_def)
  obtain r1 where r1: "clear_slots r near_slots = Some r1" "dims r1" "nodes r1 = m" "tw_time r1 = 0" "tw_lock r1 = 0"
    "\<forall>s. get_list r1 s = (if s \<in> set near_slots then Some \<lparr>head_next = NULL, tail = AtHead\<rparr> else get_list r s)"
    using clear_slots_spec [OF d(1), of near_slots] slots_valid(1) d by auto
  obtain r2 where r2: "clear_slots r1 level_slots = Some r2" "dims r2" "nodes r2 = m" "tw_time r2 = 0" "tw_lock r2 = 0"
    "\<forall>s. get_list r2 s = (if s \<in> set level_slots then Some \<lparr>head_next = NULL, tail = AtHead\<rparr> else get_list r1 s)"
    using clear_slots_spec [OF r1(2), of level_slots] slots_valid(2) r1 by auto
  let ?T = "r2\<lparr>tw_lock := 0, current_point := cp\<rparr>"
  have g: "get_list ?T s = get_list r2 s" for s by (cases s) simp_all
  have "tw_inv ?T (\<lambda>s. [])"
  proof (rule empty_wheel)
    show "dims ?T" using r2(2) by (simp add: dims_def)
    show "tw_time ?T < UINT32_MOD" using r2(4) by simp
    show "get_list ?T s = Some \<lparr>head_next = NULL, tail = AtHead\<rparr>" if "valid_slot s" for s
      using all_slots [OF that] g r2(6) r1(6) by auto
  qed
  moreover have "tw_init_timer cp m = Some ?T"
    using r1(1) r2(1) by (simp add: tw_init_timer_def timer_create_timer_def r_def)
  ultimately show ?thesis using r2 by simp
qed

section \<open>Adding\<close>

lemma fresh_node_inv:
  assumes inv: "tw_inv T q" and x: "nodes T x = None"
  shows "tw_inv (T\<lparr>nodes := (nodes T)(x \<mapsto> nd)\<rparr>) q" and "loose q x"
proof -
  let ?T = "T\<lparr>nodes := (nodes T)(x \<mapsto> nd)\<rparr>"
  have ne: "y \<in> set (q s) \<Longrightarrow> y \<noteq> x" for y s
    using wheel_alloc(2) [OF tw_invD(1) [OF inv], of y s] x by auto
  then show "loose q x" by (auto simp: loose_def)
  have "rep (nodes ?T) ll (q s) = rep (nodes T) ll (q s)" for s ll
  proof -
    have "chain (nodes ?T) (head_next ll) (q s) = chain (nodes T) (head_next ll) (q s)"
      by (rule chain_cong) (use ne in \<open>simp add: next_of_def\<close>)
    then show ?thesis by (simp add: rep_def)
  qed
  then have "wheel ?T q" using tw_invD(1) [OF inv] unfolding wheel_def by simp
  moreover have "expire_of ?T y = expire_of T y" if "y \<in> set (q s)" for y s
    using ne [OF that] by (simp add: expire_of_def)
  ultimately show "tw_inv ?T q"
    using inv by (simp add: tw_inv_def deadlines_ok_def placed_ok_def ahead_ok_def)
qed

lemma add_node_inv:
  assumes inv: "tw_inv T q" and x: "x \<noteq> NULL" "nodes T x = Some nd" "loose q x"
    and E: "expire_of T x < UINT32_MOD" "expire_of T x \<noteq> tw_time T"
  shows "\<exists>T'. add_node T x = Some T' \<and> tw_inv T' (a_add (tw_time T) (expire_of T) x q) \<and> same_state T T'"
proof -
  obtain T' where T': "add_node T x = Some T'" "wheel T' (a_add (tw_time T) (expire_of T) x q)" "same_state T T'"
    using add_node_spec [OF tw_invD(1) [OF inv] x(1) _ x(3) E(1)] x(2) by auto
  have e: "expire_of T' = expire_of T" "tw_time T' = tw_time T"
    using same_state_expire [OF T'(3)] T'(3) by (auto simp: same_state_def)
  let ?q = "a_add (tw_time T) (expire_of T) x q"
  have mem: "y \<in> set (q s) \<or> y = x \<and> s = slot_of (tw_time T) (expire_of T x)" if "y \<in> set (?q s)" for y s
    using that by (auto simp: a_add_def split: if_splits)
  note iD = tw_invD [OF inv]
  have "deadlines_ok T' ?q" using mem iD(2) E(1) unfolding deadlines_ok_def e by blast
  moreover have "placed_ok (tw_time T) (expire_of T) ?q"
    using mem iD(3) slot_of_placed(1) [OF E(1)] unfolding placed_ok_def by blast
  moreover have "ahead_ok (tw_time T) (expire_of T) ?q"
    using mem iD(4) E(2) unfolding ahead_ok_def by blast
  ultimately show ?thesis using T' e by (auto simp: tw_inv_def)
qed

lemma delay_expire:
  fixes time :: int
  assumes "0 < time" and "time < 2147483648" and t: "t < UINT32_MOD"
  shows "u32_sub (nat ((time + int t) mod 4294967296)) t = nat time"
    and "nat ((time + int t) mod 4294967296) < UINT32_MOD"
    and "nat ((time + int t) mod 4294967296) \<noteq> t"
proof -
  have e: "nat ((time + int t) mod 4294967296) = (t + nat time) mod UINT32_MOD"
    using assms(1) by (simp add: nat_mod_distrib nat_add_distrib add.commute)
  show s: "u32_sub (nat ((time + int t) mod 4294967296)) t = nat time"
    by (rule u32_sub_eq [OF e _ t]) (use assms in linarith)
  show "nat ((time + int t) mod 4294967296) < UINT32_MOD" unfolding e by simp
  show "nat ((time + int t) mod 4294967296) \<noteq> t"
    using s assms(1) by (metis nat_0_iff not_less u32_sub_self)
qed

lemma tw_add_spec:
  assumes inv: "tw_inv T q" and lock: "tw_lock T = 0" and x: "nodes T x = None" "x \<noteq> NULL"
    and time: "0 < time" "time < 2147483648"
    and E: "E = nat ((time + int (tw_time T)) mod 4294967296)"
  shows "\<exists>T' q'. tw_add_timer call (Some (x, junk)) time func tid T = Some (x, T') \<and> tw_inv T' q' \<and>
     tw_lock T' = 0 \<and> tw_time T' = tw_time T \<and> current_point T' = current_point T \<and>
     x \<in> set (q' (slot_of (tw_time T) E)) \<and> grows q q' \<and> expire_of T' x = E \<and>
     nd_cancel (the (nodes T' x)) = nd_cancel junk \<and>
     (\<forall>y. y \<noteq> x \<longrightarrow> payload T' y = payload T y)"
proof -
  let ?nd = "junk\<lparr>nd_expire := E, nd_callback := func, nd_id := tid\<rparr>"
  define T1 where "T1 = T\<lparr>tw_lock := 1\<rparr>"
  define T2 where "T2 = T1\<lparr>nodes := (nodes T1)(x \<mapsto> ?nd)\<rparr>"
  have t: "tw_time T < UINT32_MOD" by (rule tw_invD(5) [OF inv])
  have i1: "tw_inv T1 q" "nodes T1 x = None" using inv x by (simp_all add: T1_def)
  have i2: "tw_inv T2 q" "loose q x" using fresh_node_inv [OF i1] by (simp_all add: T2_def)
  have n2: "nodes T2 x = Some ?nd" "expire_of T2 x = E" "tw_time T2 = tw_time T" "tw_lock T2 = 1"
    "current_point T2 = current_point T"
    by (simp_all add: T2_def T1_def expire_of_def)
  have EE: "E < UINT32_MOD" "E \<noteq> tw_time T" using delay_expire(2,3) [OF time t] E by simp_all
  obtain T3 where T3: "add_node T2 x = Some T3" "tw_inv T3 (a_add (tw_time T) (expire_of T2) x q)" "same_state T2 T3"
    using add_node_inv [OF i2(1) x(2) n2(1) i2(2)] EE n2 by auto
  let ?q = "a_add (tw_time T) (expire_of T2) x q"
  have run: "tw_add_timer call (Some (x, junk)) time func tid T = Some (x, T3\<lparr>tw_lock := 0\<rparr>)"
    using lock time T3(1) E
    by (simp add: tw_add_timer_def tw_acquire_def tw_release_def T1_def T2_def Let_def)
  have p3: "payload T3 = payload T2" "tw_time T3 = tw_time T" "current_point T3 = current_point T"
    using T3(3) n2 by (auto simp: same_state_def)
  have "payload T3 x = payload T2 x" by (simp only: p3)
  then have "nd_cancel (the (nodes T3 x)) = nd_cancel (the (nodes T2 x))" "expire_of T3 x = expire_of T2 x"
    by (rule same_payload_nodes)+
  moreover have "payload T3 y = payload T y" if "y \<noteq> x" for y
    unfolding p3 using that by (simp add: payload_def T2_def T1_def)
  moreover have "grows q ?q" "x \<in> set (?q (slot_of (tw_time T) E))"
    using n2(2) by (auto simp: grows_def a_add_def)
  ultimately show ?thesis
    using run T3(2) p3(2,3) n2
    by (intro exI [of _ "T3\<lparr>tw_lock := 0\<rparr>"] exI [of _ ?q]) (simp add: expire_of_def payload_def)
qed

lemma tw_inv_point [simp]: "tw_inv (T\<lparr>current_point := v\<rparr>) q = tw_inv T q"
proof -
  have "get_list (T\<lparr>current_point := v\<rparr>) s = get_list T s" for s by (cases s) simp_all
  moreover have "expire_of (T\<lparr>current_point := v\<rparr>) = expire_of T" by (simp add: expire_of_def fun_eq_iff)
  ultimately show ?thesis by (simp add: tw_inv_def wheel_def deadlines_ok_def)
qed

lemma expire_updates:
  assumes "0 < n" and "n < 2147483648"
  shows "tw_expire_timer call (current_point T + n) T = tw_updates call n (T\<lparr>current_point := current_point T + n\<rparr>)"
proof -
  have "nat ((int (current_point T + n) - int (current_point T)) mod 4294967296) = n"
    using assms by simp
  then show ?thesis using assms by (simp add: tw_expire_timer_def Let_def)
qed

section \<open>Clearing\<close>

lemma free_chain_spec:
  assumes "chain (nodes T) p xs" and "distinct xs"
  shows "free_chain p T = Some (T\<lparr>nodes := (\<lambda>x. if x \<in> set xs then None else nodes T x)\<rparr>)"
  using assms
proof (induction xs arbitrary: p T)
  case Nil
  then show ?case by (simp add: free_chain.simps)
next
  case (Cons x xs)
  obtain nd where nd: "p = x" "x \<noteq> NULL" "nodes T x = Some nd" "chain (nodes T) (nd_next nd) xs"
    using Cons.prems(1) by auto
  let ?T = "T\<lparr>nodes := (nodes T)(x := None)\<rparr>"
  have "chain (nodes ?T) (nd_next nd) xs = chain (nodes T) (nd_next nd) xs"
    by (rule chain_cong) (use Cons.prems(2) in \<open>auto simp: next_of_def\<close>)
  then have "chain (nodes ?T) (nd_next nd) xs" using nd(4) by (simp only:)
  then have r: "free_chain (nd_next nd) ?T = Some (?T\<lparr>nodes := (\<lambda>y. if y \<in> set xs then None else nodes ?T y)\<rparr>)"
    using Cons.IH [of ?T "nd_next nd"] Cons.prems(2) by (simp only: distinct.simps simp_thms)
  have "(\<lambda>y. if y \<in> set xs then None else nodes ?T y) = (\<lambda>y. if y \<in> set (x # xs) then None else nodes T y)"
    by auto
  then show ?case
    using nd r by (subst free_chain.simps) (simp add: free_node_def)
qed

lemma free_slot_spec:
  assumes w: "wheel T q" and v: "valid_slot s"
  shows "\<exists>T'. free_slot s T = Some T' \<and> wheel T' (q(s := [])) \<and>
     nodes T' = (\<lambda>x. if x \<in> set (q s) then None else nodes T x)"
proof -
  obtain ll where ll: "get_list T s = Some ll" "chain (nodes T) (head_next ll) (q s)" "distinct (q s)"
    by (rule wheel_slot [OF w v])
  let ?m = "\<lambda>x. if x \<in> set (q s) then None else nodes T x"
  define T1 where "T1 = T\<lparr>nodes := ?m\<rparr>"
  let ?T = "put_list T1 s (ll\<lparr>head_next := NULL, tail := AtHead\<rparr>)"
  have g1: "get_list T1 s' = get_list T s'" for s' by (simp add: T1_def)
  have f: "free_chain (head_next ll) T = Some T1" unfolding T1_def by (rule free_chain_spec [OF ll(2,3)])
  have run: "free_slot s T = Some ?T"
    unfolding free_slot_def link_clear_def by (simp add: ll(1) f g1)
  have other: "rep ?m l' (q s') = rep (nodes T) l' (q s')" if "s' \<noteq> s" for s' l'
  proof -
    have "next_of ?m x = next_of (nodes T) x" if "x \<in> set (q s')" for x
    proof -
      have "x \<notin> set (q s)" using that \<open>s' \<noteq> s\<close> w unfolding wheel_def by metis
      then show ?thesis by (simp add: next_of_def)
    qed
    then have "chain ?m p (q s') = chain (nodes T) p (q s')" for p by (rule chain_cong)
    then show ?thesis by (simp add: rep_def)
  qed
  have n: "nodes ?T = ?m" by (simp add: T1_def)
  have "\<exists>l'. get_list ?T s' = Some l' \<and> rep (nodes ?T) l' ((q(s := [])) s')" if v': "valid_slot s'" for s'
  proof (cases "s' = s")
    case True
    then show ?thesis using get_put [of T1 s ll] ll(1) g1 by (simp add: rep_def)
  next
    case False
    obtain l' where "get_list T s' = Some l'" "rep (nodes T) l' (q s')"
      using w v' unfolding wheel_def by blast
    then show ?thesis using get_put [of T1 s ll] ll(1) g1 other [OF False] False n by simp
  qed
  then have "wheel ?T (q(s := []))"
    using w unfolding wheel_def by (auto simp: T1_def)
  then show ?thesis using run n by blast
qed

lemma free_slots_spec:
  assumes "wheel T q" and "\<forall>s\<in>set ss. valid_slot s"
  shows "\<exists>T'. fold (\<lambda>s r. do { T \<leftarrow> r; free_slot s T }) ss (Some T) = Some T' \<and>
     wheel T' (\<lambda>s. if s \<in> set ss then [] else q s) \<and>
     nodes T' = (\<lambda>x. if \<exists>s\<in>set ss. x \<in> set (q s) then None else nodes T x)"
  using assms
proof (induction ss arbitrary: T q)
  case (Cons s ss)
  obtain T1 where T1: "free_slot s T = Some T1" "wheel T1 (q(s := []))"
    "nodes T1 = (\<lambda>x. if x \<in> set (q s) then None else nodes T x)"
    using free_slot_spec [OF Cons.prems(1)] Cons.prems(2) by auto
  obtain T' where T': "fold (\<lambda>s r. do { T \<leftarrow> r; free_slot s T }) ss (Some T1) = Some T'"
    "wheel T' (\<lambda>s'. if s' \<in> set ss then [] else (q(s := [])) s')"
    "nodes T' = (\<lambda>x. if \<exists>s'\<in>set ss. x \<in> set ((q(s := [])) s') then None else nodes T1 x)"
    using Cons.IH [OF T1(2)] Cons.prems(2) by auto
  have "(\<lambda>s'. if s' \<in> set ss then [] else (q(s := [])) s') = (\<lambda>s'. if s' \<in> set (s # ss) then [] else q s')"
    by auto
  moreover have "nodes T' = (\<lambda>x. if \<exists>s'\<in>set (s # ss). x \<in> set (q s') then None else nodes T x)"
    unfolding T'(3) T1(3) by (auto simp: fun_eq_iff)
  ultimately show ?case using T1(1) T' by simp
qed simp

section \<open>Cancelling\<close>

lemma del_spec:
  assumes inv: "tw_inv T q" and x: "x \<in> set (q s)"
  shows "\<exists>T'. tw_del_timer T x = Some T' \<and> tw_inv T' q \<and> tw_lock T' = tw_lock T \<and> tw_time T' = tw_time T \<and>
     expire_of T' = expire_of T \<and> nd_cancel (the (nodes T' x)) = 1 \<and> (\<forall>y. y \<noteq> x \<longrightarrow> nodes T' y = nodes T y)"
proof -
  obtain nd where nd: "nodes T x = Some nd" using wheel_alloc(2) [OF tw_invD(1) [OF inv] x] by blast
  let ?T = "T\<lparr>nodes := (nodes T)(x \<mapsto> nd\<lparr>nd_cancel := 1\<rparr>)\<rparr>"
  have "rep (nodes ?T) ll (q s) = rep (nodes T) ll (q s)" for s ll
  proof -
    have "chain (nodes ?T) (head_next ll) (q s) = chain (nodes T) (head_next ll) (q s)"
      by (rule chain_cong) (use nd in \<open>simp add: next_of_def\<close>)
    then show ?thesis by (simp add: rep_def)
  qed
  then have w: "wheel ?T q" using tw_invD(1) [OF inv] unfolding wheel_def by simp
  have e: "expire_of ?T = expire_of T" using nd by (simp add: expire_of_def fun_eq_iff)
  have "tw_inv ?T q" using w e inv by (simp add: tw_inv_def deadlines_ok_def)
  then show ?thesis using nd e by (simp add: tw_del_timer_def)
qed

section \<open>A concrete wheel\<close>

definition demo_wheel :: s_timer where
  "demo_wheel = the (tw_init_timer 0 Map.empty)"

definition demo_node :: timer_node where
  "demo_node = \<lparr>nd_next = NULL, nd_expire = 0, nd_callback = 0, nd_cancel = 0, nd_id = 0\<rparr>"

lemma demo_wheel:
  "tw_inv demo_wheel (\<lambda>s. [])" "tw_time demo_wheel = 0" "tw_lock demo_wheel = 0" "nodes demo_wheel x = None"
  "current_point demo_wheel = 0"
  using init_spec [of 0 Map.empty] by (auto simp: demo_wheel_def)

lemma demo_wheel_at:
  assumes "t < UINT32_MOD"
  shows "tw_inv (demo_wheel\<lparr>tw_time := t\<rparr>) (\<lambda>s. [])"
  using wheel_time [OF tw_invD(1) [OF demo_wheel(1)] assms]
  by (simp add: tw_inv_def deadlines_ok_def placed_ok_def ahead_ok_def)

lemma demo_wheel_one: "\<exists>T q s. tw_inv T q \<and> tw_lock T = 0 \<and> tw_time T = 0 \<and> 9 \<in> set (q s) \<and> \<not> dead s \<and>
    expire_of T 9 = 300 \<and> nd_cancel (the (nodes T 9)) = 0"
proof -
  have "slot_of 0 300 = Lev 0 1" by (simp add: slot_of_def u32_sub_def)
  then show ?thesis
    using tw_add_spec [OF demo_wheel(1,3,4), of 9 300 300 "\<lambda>h x T. Some T" demo_node 0 0] demo_wheel(2)
    by (force simp: demo_node_def)
qed

section \<open>Properties\<close>

text \<open>C6: one update of the wheel ends without a fault and takes exactly the timers in live slots whose
  deadline is the new time, each once, running the callback of those not cancelled; every other
  timer keeps its data and stays in a slot of its kind, and the wheel is in order again.\<close>

theorem tw_update_takes_exactly_the_due:
  assumes "tw_inv T q" and "tw_lock T = 0" and "tw_callbacks_ok call"
  shows "\<exists>xs T' q'. timer_update call T = Some (map (\<lambda>x. (x, nd_cancel (the (nodes T x)) = 0)) xs, T') \<and>
     distinct xs \<and>
     set xs = {x. \<exists>s. x \<in> set (q s) \<and> \<not> dead s \<and> nd_expire (the (nodes T x)) = (tw_time T + 1) mod 4294967296} \<and>
     tw_inv T' q' \<and> tw_lock T' = 0 \<and> tw_time T' = (tw_time T + 1) mod 4294967296 \<and>
     (\<forall>s. \<forall>x\<in>set (q s). x \<notin> set xs \<longrightarrow>
        payload T' x = payload T x \<and> (\<exists>s'. dead s' = dead s \<and> x \<in> set (q' s')))"
proof -
  obtain xs T' q' where u: "timer_update call T = Some (log_of T xs, T')" "distinct xs"
    "set xs = fires_at T q (u32_add (tw_time T) 1)" "tw_inv T' q'" "tw_lock T' = 0"
    "tw_time T' = u32_add (tw_time T) 1"
    "\<forall>s. \<forall>x\<in>set (q s). x \<notin> set xs \<longrightarrow>
        payload T' x = payload T x \<and> (\<exists>s'. dead s' = dead s \<and> x \<in> set (q' s'))"
    using timer_update_spec [OF assms] by (elim exE conjE) (rule that)
  then show ?thesis
    by (intro exI [of _ xs] exI [of _ T'] exI [of _ q'])
      (simp add: log_of_def fires_at_def u32_add_def expire_of_def)
qed

theorem tw_update_witness:
  "\<exists>xs T'. timer_update (\<lambda>h x T. Some T) demo_wheel = Some (map (\<lambda>x. (x, nd_cancel (the (nodes demo_wheel x)) = 0)) xs, T') \<and>
     tw_time T' = 1"
  using tw_update_takes_exactly_the_due [OF demo_wheel(1,3) tw_silent_callbacks] demo_wheel(2) by auto

text \<open>C7: a timer added with a delay of \<open>time\<close> ticks whose slot is not one of index 0 on the levels 0 to
  2 is taken by the \<open>time\<close>-th update and by none before; its callback runs exactly when the
  indeterminate \<open>cancel\<close> byte of its block was 0.\<close>

theorem tw_timer_fires_on_time:
  assumes "tw_inv T q" and "tw_lock T = 0" and "tw_callbacks_ok call" and "nodes T x = None" and "x \<noteq> NULL"
    and "0 < time" and "time < 2147483648"
    and "\<not> dead (slot_of (tw_time T) (nat ((time + int (tw_time T)) mod 4294967296)))"
  shows "\<exists>T1 logs T'. tw_add_timer call (Some (x, junk)) time func tid T = Some (x, T1) \<and>
     tw_expire_timer call (current_point T1 + nat time) T1 = Some (logs, T') \<and> length logs = nat time \<and>
     (x, nd_cancel junk = 0) \<in> set (logs ! (nat time - 1)) \<and> (\<forall>k<nat time - 1. x \<notin> fst ` set (logs ! k))"
proof -
  obtain T1 q1 where T1: "tw_add_timer call (Some (x, junk)) time func tid T = Some (x, T1)" "tw_inv T1 q1"
    "tw_lock T1 = 0" "tw_time T1 = tw_time T"
    "x \<in> set (q1 (slot_of (tw_time T) (nat ((time + int (tw_time T)) mod 4294967296))))"
    "expire_of T1 x = nat ((time + int (tw_time T)) mod 4294967296)" "nd_cancel (the (nodes T1 x)) = nd_cancel junk"
    using tw_add_spec [OF assms(1,2,4-7) refl, of call junk func tid] by blast
  obtain n where n: "nat time = Suc n" using assms(6) by (metis gr0_implies_Suc zero_less_nat_eq)
  let ?T = "T1\<lparr>current_point := current_point T1 + nat time\<rparr>"
  have "u32_sub (expire_of T1 x) (tw_time T1) = Suc n"
    using delay_expire(1) [OF assms(6,7) tw_invD(5) [OF assms(1)]] T1(4,6) n by simp
  then have "u32_sub (expire_of ?T x) (tw_time ?T) = Suc n" by (simp add: expire_of_def)
  obtain logs T' where r: "tw_updates call (Suc n) ?T = Some (logs, T')" "length logs = Suc n"
    "(x, nd_cancel (the (nodes ?T x)) = 0) \<in> set (logs ! n)" "\<forall>k<n. x \<notin> fst ` set (logs ! k)"
  proof -
    have "tw_inv ?T q1" "tw_lock ?T = 0" using T1(2,3) by simp_all
    from live_timer_fires [OF this assms(3) T1(5) assms(8) \<open>u32_sub (expire_of ?T x) (tw_time ?T) = Suc n\<close>]
    show ?thesis by (elim exE conjE) (rule that)
  qed
  have "tw_expire_timer call (current_point T1 + nat time) T1 = tw_updates call (nat time) ?T"
    by (rule expire_updates) (use assms(6,7) in simp_all)
  then show ?thesis using T1(1,7) r n by auto
qed

theorem tw_timer_fires_witness:
  "\<exists>T1 logs T'. tw_add_timer (\<lambda>h x T. Some T) (Some (9, demo_node)) 300 7 1 demo_wheel = Some (9, T1) \<and>
     tw_expire_timer (\<lambda>h x T. Some T) (current_point T1 + 300) T1 = Some (logs, T') \<and> (9, True) \<in> set (logs ! 299)"
proof -
  have "\<not> dead (slot_of (tw_time demo_wheel) (nat ((300 + int (tw_time demo_wheel)) mod 4294967296)))"
    by (simp add: demo_wheel slot_of_def u32_sub_def)
  then show ?thesis
    using tw_timer_fires_on_time [OF demo_wheel(1,3) tw_silent_callbacks demo_wheel(4), of 9 300 demo_node 7 1]
    by (force simp: demo_node_def)
qed

text \<open>a timer whose slot has index 0 on one of the levels 0 to 2 is lost: however many updates
  follow, it is never taken, and its node is never freed.\<close>

theorem tw_slot_zero_timer_is_lost:
  assumes "tw_inv T q" and "tw_lock T = 0" and "tw_callbacks_ok call" and "nodes T x = None" and "x \<noteq> NULL"
    and "0 < time" and "time < 2147483648"
    and "dead (slot_of (tw_time T) (nat ((time + int (tw_time T)) mod 4294967296)))"
  shows "\<exists>T1. tw_add_timer call (Some (x, junk)) time func tid T = Some (x, T1) \<and>
     (\<forall>n. \<exists>logs T'. tw_updates call n T1 = Some (logs, T') \<and> (\<forall>log\<in>set logs. x \<notin> fst ` set log) \<and>
        nodes T' x \<noteq> None)"
proof -
  obtain T1 q1 where "tw_add_timer call (Some (x, junk)) time func tid T = Some (x, T1)" "tw_inv T1 q1"
    "tw_lock T1 = 0"
    "x \<in> set (q1 (slot_of (tw_time T) (nat ((time + int (tw_time T)) mod 4294967296))))"
    using tw_add_spec [OF assms(1,2,4-7) refl, of call junk func tid] by blast
  then show ?thesis using dead_timer_stays [of T1 q1 call x] assms(3,8) by blast
qed

theorem tw_slot_zero_witness:
  "\<exists>T1. tw_add_timer (\<lambda>h x T. Some T) (Some (9, demo_node)) 400 7 1 (demo_wheel\<lparr>tw_time := 16000\<rparr>) = Some (9, T1) \<and>
     (\<forall>n. \<exists>logs T'. tw_updates (\<lambda>h x T. Some T) n T1 = Some (logs, T') \<and> (\<forall>log\<in>set logs. 9 \<notin> fst ` set log))"
proof -
  have i: "tw_inv (demo_wheel\<lparr>tw_time := 16000\<rparr>) (\<lambda>s. [])" by (rule demo_wheel_at) simp
  have "dead (slot_of (tw_time (demo_wheel\<lparr>tw_time := 16000\<rparr>))
      (nat ((400 + int (tw_time (demo_wheel\<lparr>tw_time := 16000\<rparr>))) mod 4294967296)))"
    by (simp add: slot_of_def u32_sub_def)
  then show ?thesis
    using tw_slot_zero_timer_is_lost [OF i _ tw_silent_callbacks, of 9 400 demo_node 7 1]
    by (auto simp: demo_wheel) blast
qed

text \<open>a timer cancelled while it waits in a live slot is taken at its tick like any other, and its
  callback is not run.\<close>

theorem tw_cancelled_timer_is_silent:
  assumes "tw_inv T q" and "tw_lock T = 0" and "tw_callbacks_ok call" and "x \<in> set (q s)" and "\<not> dead s"
    and "u32_sub (nd_expire (the (nodes T x))) (tw_time T) = Suc n"
  shows "\<exists>T1 logs T'. tw_del_timer T x = Some T1 \<and> tw_updates call (Suc n) T1 = Some (logs, T') \<and>
     (x, False) \<in> set (logs ! n) \<and> (\<forall>k<n. x \<notin> fst ` set (logs ! k))"
proof -
  obtain T1 where T1: "tw_del_timer T x = Some T1" "tw_inv T1 q" "tw_lock T1 = 0" "tw_time T1 = tw_time T"
    "expire_of T1 = expire_of T" "nd_cancel (the (nodes T1 x)) = 1"
    using del_spec [OF assms(1,4)] assms(2) by auto
  have "u32_sub (expire_of T1 x) (tw_time T1) = Suc n" using assms(6) T1(4,5) by (simp add: expire_of_def)
  then obtain logs T' where "tw_updates call (Suc n) T1 = Some (logs, T')"
    "(x, nd_cancel (the (nodes T1 x)) = 0) \<in> set (logs ! n)" "\<forall>k<n. x \<notin> fst ` set (logs ! k)"
    using live_timer_fires [OF T1(2,3) assms(3-5)] by blast
  then show ?thesis using T1(1,6) by (intro exI [of _ T1] exI [of _ logs] exI [of _ T']) simp
qed

theorem tw_cancelled_witness:
  "\<exists>T T1 logs T'. tw_del_timer T 9 = Some T1 \<and> tw_updates (\<lambda>h x T. Some T) 300 T1 = Some (logs, T') \<and>
     (9, False) \<in> set (logs ! 299)"
proof -
  obtain T q s where T: "tw_inv T q" "tw_lock T = 0" "tw_time T = 0" "9 \<in> set (q s)" "\<not> dead s" "expire_of T 9 = 300"
    using demo_wheel_one by auto
  have "Suc 299 = (300 :: nat)" by simp
  moreover have "u32_sub (nd_expire (the (nodes T 9))) (tw_time T) = Suc 299"
    using T(3,6) by (simp add: expire_of_def u32_sub_def)
  ultimately show ?thesis
    using tw_cancelled_timer_is_silent [OF T(1,2) tw_silent_callbacks T(4,5), of 299] by metis
qed

text \<open>a callback run at once for a delay of at most 0 runs under the spin lock, so when it adds a
  timer itself the call never returns.\<close>

theorem tw_immediate_callback_deadlocks:
  assumes "time \<le> 0" and "tw_lock T = 0"
  shows "tw_add_timer (\<lambda>h y S. map_option snd (tw_add_timer call malloc' time' func' tid' S))
     (Some (x, junk)) time func tid T = None"
  using assms by (cases malloc') (simp_all add: tw_add_timer_def tw_acquire_def Let_def)

theorem tw_immediate_callback_witness:
  "tw_add_timer (\<lambda>h y S. map_option snd (tw_add_timer (\<lambda>h x T. Some T) (Some (8, demo_node)) 5 1 1 S))
     (Some (9, demo_node)) 0 7 1 demo_wheel = None"
  by (rule tw_immediate_callback_deadlocks) (simp_all add: demo_wheel)

text \<open>Clearing frees exactly the nodes that are in a slot and leaves every slot empty.\<close>

theorem tw_clear_frees_all:
  assumes "tw_inv T q"
  shows "\<exists>T'. tw_clear_timer T = Some T' \<and> wheel T' (\<lambda>s. []) \<and>
     nodes T' = (\<lambda>x. if \<exists>s. x \<in> set (q s) then None else nodes T x)"
proof -
  note w = tw_invD(1) [OF assms]
  obtain T' where T': "tw_clear_timer T = Some T'" "wheel T' (\<lambda>s. if s \<in> set (near_slots @ level_slots) then [] else q s)"
    "nodes T' = (\<lambda>x. if \<exists>s\<in>set (near_slots @ level_slots). x \<in> set (q s) then None else nodes T x)"
    using free_slots_spec [OF w, of "near_slots @ level_slots"] slots_valid by (auto simp: tw_clear_timer_def)
  have v: "s \<in> set (near_slots @ level_slots)" if "x \<in> set (q s)" for x s
    by (rule all_slots [OF wheel_alloc(3) [OF w that]])
  then have "(\<lambda>s. if s \<in> set (near_slots @ level_slots) then [] else q s) = (\<lambda>s. [])"
    by (metis list.set_intros(1) neq_Nil_conv)
  moreover have "(\<exists>s\<in>set (near_slots @ level_slots). x \<in> set (q s)) = (\<exists>s. x \<in> set (q s))" for x
    using v by blast
  ultimately show ?thesis using T' by auto
qed

theorem tw_clear_witness: "\<exists>T'. tw_clear_timer demo_wheel = Some T' \<and> wheel T' (\<lambda>s. [])"
  using tw_clear_frees_all [OF demo_wheel(1)] by blast

end
