(* ===== verification/SpinLock.thy ===== *)
theory SpinLock
  imports Prelude
begin

text \<open>
  The spin lock of \<^verbatim>\<open>spinlock.h\<close> under any number of threads. Each operation is one atomic
  instruction on the lock word; a system is the word and the place of every thread, and its steps
  are the instructions the threads can issue, in any interleaving. A thread unlocks only what it
  holds, as \<^verbatim>\<open>timewheel.c\<close> does.
\<close>

section \<open>The operations\<close>

definition spinlock_init :: "int \<Rightarrow> int" where
  "spinlock_init l = 0"

text \<open>\<open>__sync_lock_test_and_set(&lock->lock, 1)\<close>: the old value and the new one.\<close>

definition test_and_set :: "int \<Rightarrow> int \<times> int" where
  "test_and_set l = (l, 1)"

text \<open>One round of the loop of \<open>spinlock_lock\<close>: whether it ends, and the new word.\<close>

definition spinlock_lock_round :: "int \<Rightarrow> bool \<times> int" where
  "spinlock_lock_round l = (let (old, new) = test_and_set l in (\<not> old \<noteq> 0, new))"

definition spinlock_trylock :: "int \<Rightarrow> bool \<times> int" where
  "spinlock_trylock l = (let (old, new) = test_and_set l in (old = 0, new))"

definition spinlock_unlock :: "int \<Rightarrow> int" where
  "spinlock_unlock l = 0"

definition spinlock_destroy :: "int \<Rightarrow> int" where
  "spinlock_destroy l = l"

section \<open>The threads\<close>

datatype place = Outside | Spinning | Inside

record lock_system =
  lock_word :: int
  place_of :: "nat \<Rightarrow> place"

definition lock_start :: "int \<Rightarrow> lock_system" where
  "lock_start l = \<lparr>lock_word = spinlock_init l, place_of = (\<lambda>_. Outside)\<rparr>"

inductive lock_step :: "lock_system \<Rightarrow> lock_system \<Rightarrow> bool" where
  enter: "place_of s t = Outside \<Longrightarrow> lock_step s (s\<lparr>place_of := (place_of s)(t := Spinning)\<rparr>)"
| spin: "place_of s t = Spinning \<Longrightarrow> spinlock_lock_round (lock_word s) = (ok, w) \<Longrightarrow>
    lock_step s \<lparr>lock_word = w, place_of = (if ok then (place_of s)(t := Inside) else place_of s)\<rparr>"
| attempt: "place_of s t = Outside \<Longrightarrow> spinlock_trylock (lock_word s) = (ok, w) \<Longrightarrow>
    lock_step s \<lparr>lock_word = w, place_of = (if ok then (place_of s)(t := Inside) else place_of s)\<rparr>"
| leave: "place_of s t = Inside \<Longrightarrow>
    lock_step s \<lparr>lock_word = spinlock_unlock (lock_word s), place_of = (place_of s)(t := Outside)\<rparr>"

definition lock_inv :: "lock_system \<Rightarrow> bool" where
  "lock_inv s \<longleftrightarrow> (lock_word s = 0 \<longleftrightarrow> (\<forall>t. place_of s t \<noteq> Inside)) \<and>
     (\<forall>t u. place_of s t = Inside \<longrightarrow> place_of s u = Inside \<longrightarrow> t = u)"

lemma lock_inv_start: "lock_inv (lock_start l)"
  by (simp add: lock_inv_def lock_start_def spinlock_init_def)

lemma lock_inv_step:
  assumes "lock_step s s'" and "lock_inv s"
  shows "lock_inv s'"
proof -
  have one: "(lock_word s = 0) = (\<forall>t. place_of s t \<noteq> Inside)"
    "\<And>t u. place_of s t = Inside \<Longrightarrow> place_of s u = Inside \<Longrightarrow> t = u"
    using assms(2) by (auto simp: lock_inv_def)
  from assms(1) show ?thesis
  proof (cases rule: lock_step.cases)
    case (enter t)
    then have "place_of s' u = Inside \<longleftrightarrow> place_of s u = Inside" for u by simp
    moreover have "lock_word s' = lock_word s" using enter by simp
    ultimately show ?thesis using one by (simp add: lock_inv_def)
  next
    case (spin t ok w)
    then have w: "ok = (lock_word s = 0)" "w = 1"
      by (simp_all add: spinlock_lock_round_def test_and_set_def Let_def)
    show ?thesis
    proof (cases ok)
      case True
      then have "place_of s u \<noteq> Inside" for u using one(1) w(1) by simp
      then have "place_of s' u = Inside \<longleftrightarrow> u = t" for u using spin(1) True by simp
      then show ?thesis using spin(1) w(2) by (simp add: lock_inv_def)
    next
      case False
      then have "place_of s' = place_of s" "lock_word s' = 1" "lock_word s \<noteq> 0" using spin(1) w by simp_all
      then show ?thesis using one by (simp add: lock_inv_def)
    qed
  next
    case (attempt t ok w)
    then have w: "ok = (lock_word s = 0)" "w = 1"
      by (simp_all add: spinlock_trylock_def test_and_set_def Let_def)
    show ?thesis
    proof (cases ok)
      case True
      then have "place_of s u \<noteq> Inside" for u using one(1) w(1) by simp
      then have "place_of s' u = Inside \<longleftrightarrow> u = t" for u using attempt(1) True by simp
      then show ?thesis using attempt(1) w(2) by (simp add: lock_inv_def)
    next
      case False
      then have "place_of s' = place_of s" "lock_word s' = 1" "lock_word s \<noteq> 0" using attempt(1) w by simp_all
      then show ?thesis using one by (simp add: lock_inv_def)
    qed
  next
    case (leave t)
    have p: "place_of s' = (place_of s)(t := Outside)" "lock_word s' = 0"
      unfolding leave(1) by (simp_all add: spinlock_unlock_def)
    have "place_of s' u \<noteq> Inside" for u
    proof (cases "u = t")
      case False
      then show ?thesis using one(2) [OF leave(2), of u] p(1) by auto
    qed (simp add: p(1))
    then show ?thesis using p(2) by (simp add: lock_inv_def)
  qed
qed

lemma lock_inv_reachable: "lock_step\<^sup>*\<^sup>* (lock_start l) s \<Longrightarrow> lock_inv s"
  by (induction rule: rtranclp_induct) (auto intro: lock_inv_start lock_inv_step)

section \<open>Properties\<close>

text \<open>C8: whatever the interleaving of the threads and whatever the word held before the
  initialisation, no two threads hold the lock at once, and a thread that spins on a lock nobody
  holds takes it with its next instruction.\<close>

theorem spinlock_mutual_exclusion:
  assumes "lock_step\<^sup>*\<^sup>* (lock_start l) s"
  shows "(place_of s t = Inside \<longrightarrow> place_of s u = Inside \<longrightarrow> t = u) \<and>
    ((\<forall>u. place_of s u \<noteq> Inside) \<longrightarrow> spinlock_lock_round (lock_word s) = (True, 1))"
  using lock_inv_reachable [OF assms]
  by (auto simp: lock_inv_def spinlock_lock_round_def test_and_set_def)

theorem spinlock_witness:
  "spinlock_lock_round (lock_word (lock_start 7)) = (True, 1)"
  using spinlock_mutual_exclusion [of 7 "lock_start 7" 0 0] by (simp add: lock_start_def)

end
