(* ===== verification/Paths.thy ===== *)
theory Paths
  imports Prelude
begin

text \<open>
  Linked lists in a store as paths through a partial function from addresses to successors: what a
  redirected pointer, an inserted node and a removed node do to them. Shared by the components that
  keep such lists.
\<close>

section \<open>Paths\<close>

fun path :: "(addr \<rightharpoonup> addr) \<Rightarrow> addr list \<Rightarrow> addr \<Rightarrow> bool" where
  "path f [] z \<longleftrightarrow> True"
| "path f [x] z \<longleftrightarrow> f x = Some z"
| "path f (x # y # r) z \<longleftrightarrow> f x = Some y \<and> path f (y # r) z"

lemma path_Cons: "path f (x # r) z \<longleftrightarrow> f x = Some (if r = [] then z else hd r) \<and> path f r z"
  by (cases r) auto

lemma path_append: "ys \<noteq> [] \<Longrightarrow> zs \<noteq> [] \<Longrightarrow> path f (ys @ zs) z \<longleftrightarrow> path f ys (hd zs) \<and> path f zs z"
  by (induction ys) (auto simp: path_Cons split: if_splits)

lemma path_cong: "(\<And>x. x \<in> set ys \<Longrightarrow> f x = g x) \<Longrightarrow> path f ys z = path g ys z"
  by (induction ys) (auto simp: path_Cons)

lemma path_last: "path f ys z \<Longrightarrow> ys \<noteq> [] \<Longrightarrow> f (last ys) = Some z"
  by (induction ys) (auto simp: path_Cons split: if_splits)

lemma path_redirect:
  assumes "path f ys z" and "ys \<noteq> []" and "distinct ys"
  shows "path (f(last ys := v)) ys z' = (v = Some z')"
proof -
  obtain bs l where ys: "ys = bs @ [l]" using assms(2) by (metis append_butlast_last_id)
  have "path (f(l := v)) bs l = path f bs l"
    by (rule path_cong) (use assms(3) ys in auto)
  then show ?thesis
    using assms(1) ys by (cases "bs = []") (auto simp: path_append)
qed

lemma path_insert:
  assumes p: "path f (ys @ zs) z" and "ys \<noteq> []" and d: "distinct (ys @ zs)" and n: "n \<notin> set (ys @ zs)"
  shows "path (f(n := f (last ys), last ys \<mapsto> n)) (ys @ n # zs) z"
proof -
  let ?g = "f(n := f (last ys), last ys \<mapsto> n)" and ?l = "last ys"
  have l: "?l \<in> set ys" "?l \<noteq> n" using assms(2) n by auto
  have ys: "path f ys (if zs = [] then z else hd zs)"
    using p assms(2) by (cases "zs = []") (auto simp: path_append)
  have "path ?g ys n = path (f(?l \<mapsto> n)) ys n"
    by (rule path_cong) (use n in auto)
  then have 1: "path ?g ys n" using path_redirect [OF ys assms(2)] d by simp
  have 2: "path ?g zs z"
  proof (cases "zs = []")
    case False
    then have "path f zs z" using p assms(2) by (simp add: path_append)
    moreover have "path ?g zs z = path f zs z"
      by (rule path_cong) (use n d l(1) in auto)
    ultimately show ?thesis by simp
  qed simp
  have "?g n = Some (if zs = [] then z else hd zs)" using path_last [OF ys assms(2)] l(2) by simp
  then show ?thesis using 1 2 assms(2) by (simp add: path_append path_Cons)
qed

lemma path_remove:
  assumes p: "path f (ys @ x # zs) z" and "ys \<noteq> []" and d: "distinct (ys @ x # zs)"
  shows "f (last ys) = Some x" and "path (f(last ys := f x)) (ys @ zs) z"
proof -
  let ?g = "f(last ys := f x)"
  have ys: "path f ys x" and xz: "path f (x # zs) z" using p assms(2) by (auto simp: path_append)
  show "f (last ys) = Some x" by (rule path_last [OF ys assms(2)])
  have fx: "f x = Some (if zs = [] then z else hd zs)" and zs: "path f zs z" using xz by (auto simp: path_Cons)
  have "path ?g ys (if zs = [] then z else hd zs)"
    using path_redirect [OF ys assms(2)] d fx by simp
  moreover have "last ys \<in> set ys" using assms(2) by simp
  then have "path ?g zs z = path f zs z"
    by (intro path_cong) (use d in auto)
  ultimately show "path ?g (ys @ zs) z"
    using zs assms(2) by (cases "zs = []") (auto simp: path_append)
qed

lemma path_succ: "path f ys z \<Longrightarrow> y \<in> set ys \<Longrightarrow> f y = Some v \<Longrightarrow> v = z \<or> v \<in> set ys"
  by (induction ys) (auto simp: path_Cons split: if_splits)

end
