(* ===== verification/SkipList.thy ===== *)
theory SkipList
  imports Prelude Paths
begin

text \<open>
  The skip list of \<^verbatim>\<open>skiplist.h\<close> and \<^verbatim>\<open>skiplist.c\<close> over an explicit store: a node is its score, its
  handler and the array of its forward pointers, whose length is the height it was allocated with.
  Reading a forward pointer beyond the height or through an address that is not allocated is
  \<open>None\<close>. The block \<open>malloc\<close> returns, the junk it holds and the values of \<open>rand\<close> are parameters.
\<close>

section \<open>State\<close>

record skl_node =
  sk_score :: nat
  sk_handler :: nat
  sk_forward :: "addr list"

record skiplist =
  sk_header :: addr
  sk_length :: int
  sk_level :: nat
  sk_mem :: "addr \<rightharpoonup> skl_node"

definition forward :: "skiplist \<Rightarrow> nat \<Rightarrow> addr \<Rightarrow> addr option" where
  "forward s i x = (case sk_mem s x of
      None \<Rightarrow> None
    | Some nd \<Rightarrow> (if i < length (sk_forward nd) then Some (sk_forward nd ! i) else None))"

definition set_forward :: "skiplist \<Rightarrow> nat \<Rightarrow> addr \<Rightarrow> addr \<Rightarrow> skiplist option" where
  "set_forward s i x y = (case sk_mem s x of
      None \<Rightarrow> None
    | Some nd \<Rightarrow> (if i < length (sk_forward nd)
        then Some (s\<lparr>sk_mem := (sk_mem s)(x \<mapsto> nd\<lparr>sk_forward := (sk_forward nd)[i := y]\<rparr>)\<rparr>) else None))"

section \<open>Creation\<close>

text \<open>\<open>malloc\<close>: the block and the indeterminate forward pointers in it.\<close>

definition zslCreateNode :: "(addr \<times> (nat \<Rightarrow> addr)) option \<Rightarrow> nat \<Rightarrow> nat \<Rightarrow> nat \<Rightarrow>
    (addr \<rightharpoonup> skl_node) \<Rightarrow> (addr \<times> (addr \<rightharpoonup> skl_node)) option" where
  "zslCreateNode malloc level score func m =
     do { b \<leftarrow> malloc;
          Some (fst b, m(fst b \<mapsto> \<lparr>sk_score = score, sk_handler = func,
            sk_forward = map (snd b) [0..<level]\<rparr>)) }"

definition zslCreate :: "(addr \<times> (nat \<Rightarrow> addr)) option \<Rightarrow> nat \<Rightarrow> (addr \<rightharpoonup> skl_node) \<Rightarrow> skiplist option" where
  "zslCreate malloc default_handler m =
     do { h \<leftarrow> zslCreateNode malloc 32 0 default_handler m;
          let s = \<lparr>sk_header = fst h, sk_length = 0, sk_level = 1, sk_mem = snd h\<rparr>;
          fold (\<lambda>j r. do { s \<leftarrow> r; set_forward s j (sk_header s) NULL }) [0..<32] (Some s) }"

text \<open>\<open>rand() & 0xFFFF\<close> is below \<open>0.25 * 0xFFFF\<close> exactly when it is at most 16383; \<open>rand\<close> gives the
  \<open>k\<close>-th value of the generator.\<close>

partial_function (option) random_level :: "(nat \<Rightarrow> nat) \<Rightarrow> nat \<Rightarrow> nat \<Rightarrow> nat option" where
  "random_level rand k level =
     (if rand k mod 65536 \<le> 16383 then random_level rand (k + 1) (level + 1)
      else Some (if level < 32 then level else 32))"

definition zslRandomLevel :: "(nat \<Rightarrow> nat) \<Rightarrow> nat option" where
  "zslRandomLevel rand = random_level rand 0 1"

section \<open>Search\<close>

text \<open>The inner \<open>while\<close> at one level, and the \<open>for\<close> over the levels; the list is \<open>update\<close>.\<close>

partial_function (option) walk :: "skiplist \<Rightarrow> nat \<Rightarrow> nat \<Rightarrow> addr \<Rightarrow> addr option" where
  "walk s i score x =
     do { f \<leftarrow> forward s i x;
          (if f = NULL then Some x
           else do { nf \<leftarrow> sk_mem s f;
                     (if sk_score nf < score then walk s i score f else Some x) }) }"

fun search :: "skiplist \<Rightarrow> nat \<Rightarrow> nat \<Rightarrow> addr \<Rightarrow> (addr \<times> addr list) option" where
  "search s score 0 x = Some (x, [])"
| "search s score (Suc i) x =
     do { x1 \<leftarrow> walk s i score x;
          r \<leftarrow> search s score i x1;
          Some (fst r, snd r @ [x1]) }"

section \<open>Insertion\<close>

text \<open>The body of the last loop: the new node goes behind \<open>update[i]\<close> on level \<open>i\<close>.\<close>

definition splice :: "addr \<Rightarrow> addr list \<Rightarrow> nat \<Rightarrow> skiplist \<Rightarrow> skiplist option" where
  "splice x update i s =
     (if i < length update then
        do { f \<leftarrow> forward s i (update ! i);
             s1 \<leftarrow> set_forward s i x f;
             set_forward s1 i (update ! i) x }
      else None)"

definition zslInsert :: "(addr \<times> (nat \<Rightarrow> addr)) option \<Rightarrow> (nat \<Rightarrow> nat) \<Rightarrow> skiplist \<Rightarrow> nat \<Rightarrow> nat \<Rightarrow>
    (addr \<times> skiplist) option" where
  "zslInsert malloc rand s score func =
     do { r \<leftarrow> search s score (sk_level s) (sk_header s);
          level \<leftarrow> zslRandomLevel rand;
          let update = snd r @ replicate (level - sk_level s) (sk_header s);
          let s1 = (if level > sk_level s then s\<lparr>sk_level := level\<rparr> else s);
          c \<leftarrow> zslCreateNode malloc level score func (sk_mem s1);
          s2 \<leftarrow> fold (\<lambda>i r. do { s \<leftarrow> r; splice (fst c) update i s }) [0..<level]
                  (Some (s1\<lparr>sk_mem := snd c\<rparr>));
          Some (fst c, s2\<lparr>sk_length := sk_length s2 + 1\<rparr>) }"

section \<open>Minimum and deletion\<close>

definition zslMin :: "skiplist \<Rightarrow> addr option" where
  "zslMin s = forward s 0 (sk_header s)"

text \<open>Taking \<open>x\<close> out of one level behind \<open>u\<close>, where it stands there.\<close>

definition unlink :: "addr \<Rightarrow> addr \<Rightarrow> nat \<Rightarrow> skiplist \<Rightarrow> skiplist option" where
  "unlink x u i s =
     do { f \<leftarrow> forward s i u;
          if f = x then do { g \<leftarrow> forward s i x; set_forward s i u g } else Some s }"

text \<open>\<open>while (level > 1 && header->level[level-1].forward == NULL) level--\<close>\<close>

fun shrink :: "skiplist \<Rightarrow> nat \<Rightarrow> nat option" where
  "shrink s 0 = Some 0"
| "shrink s (Suc 0) = Some 1"
| "shrink s (Suc (Suc l)) =
     do { f \<leftarrow> forward s (Suc l) (sk_header s);
          if f = NULL then shrink s (Suc l) else Some (Suc (Suc l)) }"

definition zslDeleteHead :: "skiplist \<Rightarrow> skiplist option" where
  "zslDeleteHead s =
     do { x \<leftarrow> zslMin s;
          if x = NULL then Some s
          else do { let h = sk_header s;
                    s1 \<leftarrow> fold (\<lambda>i r. do { s \<leftarrow> r; unlink x h i s }) (rev [0..<sk_level s]) (Some s);
                    l \<leftarrow> shrink s1 (sk_level s1);
                    Some (s1\<lparr>sk_level := l, sk_length := sk_length s1 - 1\<rparr>) } }"

definition zslDeleteNode :: "skiplist \<Rightarrow> addr \<Rightarrow> addr list \<Rightarrow> skiplist option" where
  "zslDeleteNode s x update =
     do { s1 \<leftarrow> fold (\<lambda>i r. do { s \<leftarrow> r; unlink x (update ! i) i s }) [0..<sk_level s] (Some s);
          l \<leftarrow> shrink s1 (sk_level s1);
          Some (s1\<lparr>sk_level := l, sk_length := sk_length s1 - 1\<rparr>) }"

definition free_skl :: "addr \<Rightarrow> skiplist \<Rightarrow> skiplist option" where
  "free_skl x s = (if sk_mem s x = None then None else Some (s\<lparr>sk_mem := (sk_mem s)(x := None)\<rparr>))"

definition zslDelete :: "skiplist \<Rightarrow> addr \<Rightarrow> skiplist option" where
  "zslDelete s zn =
     do { z \<leftarrow> sk_mem s zn;
          r \<leftarrow> search s (sk_score z) (sk_level s) (sk_header s);
          x \<leftarrow> forward s 0 (fst r);
          if x = NULL then Some s
          else do { nx \<leftarrow> sk_mem s x;
                    if sk_score z = sk_score nx
                    then do { s1 \<leftarrow> zslDeleteNode s x (snd r); free_skl x s1 }
                    else Some s } }"

section \<open>Release and printing\<close>

partial_function (option) free_nodes :: "addr \<Rightarrow> skiplist \<Rightarrow> skiplist option" where
  "free_nodes node s =
     (if node = NULL then Some s
      else do { f \<leftarrow> forward s 0 node;
                s1 \<leftarrow> free_skl node s;
                free_nodes f s1 })"

definition zslFree :: "skiplist \<Rightarrow> skiplist option" where
  "zslFree s =
     do { node \<leftarrow> forward s 0 (sk_header s);
          s1 \<leftarrow> free_skl (sk_header s) s;
          free_nodes node s1 }"

text \<open>What \<open>zslPrint\<close> prints: the scores, one per round.\<close>

fun print_scores :: "skiplist \<Rightarrow> nat \<Rightarrow> addr \<Rightarrow> nat list option" where
  "print_scores s 0 x = Some []"
| "print_scores s (Suc n) x =
     do { nd \<leftarrow> sk_mem s x;
          f \<leftarrow> forward s 0 x;
          r \<leftarrow> print_scores s n f;
          Some (sk_score nd # r) }"

definition zslPrint :: "skiplist \<Rightarrow> (nat \<times> nat list) option" where
  "zslPrint s =
     do { x \<leftarrow> forward s 0 (sk_header s);
          r \<leftarrow> print_scores s (nat (sk_length s)) x;
          Some (sk_level s, r) }"

text \<open>
  The levels of the skip list as paths through the forward pointers, and the loops over the levels, whose common law is a locale over the operation
  on one level.
\<close>

section \<open>What the level operations keep\<close>

definition height :: "skiplist \<Rightarrow> addr \<Rightarrow> nat" where
  "height s x = length (sk_forward (the (sk_mem s x)))"

definition score :: "skiplist \<Rightarrow> addr \<Rightarrow> nat" where
  "score s x = sk_score (the (sk_mem s x))"

definition shape :: "skiplist \<Rightarrow> addr \<Rightarrow> (nat \<times> nat \<times> nat) option" where
  "shape s x = map_option (\<lambda>nd. (sk_score nd, sk_handler nd, length (sk_forward nd))) (sk_mem s x)"

definition same_shape :: "skiplist \<Rightarrow> skiplist \<Rightarrow> bool" where
  "same_shape s s' \<longleftrightarrow> shape s' = shape s \<and> sk_header s' = sk_header s \<and> sk_length s' = sk_length s \<and>
     sk_level s' = sk_level s"

lemma same_shape_refl [simp]: "same_shape s s"
  by (simp add: same_shape_def)

lemma same_shape_trans: "same_shape s s' \<Longrightarrow> same_shape s' s'' \<Longrightarrow> same_shape s s''"
  by (simp add: same_shape_def)

lemma shape_eqD:
  assumes "shape s' x = shape s x"
  shows "sk_mem s' x = None \<longleftrightarrow> sk_mem s x = None" and "height s' x = height s x" and "score s' x = score s x"
  using assms by (cases "sk_mem s x"; cases "sk_mem s' x"; auto simp: shape_def height_def score_def)+

lemma same_shapeD:
  assumes "same_shape s s'"
  shows "sk_mem s' x = None \<longleftrightarrow> sk_mem s x = None" and "height s' = height s" and "score s' = score s"
    and "sk_header s' = sk_header s" and "sk_length s' = sk_length s" and "sk_level s' = sk_level s"
proof -
  have sh: "shape s' x = shape s x" for x using assms by (simp add: same_shape_def)
  show "sk_mem s' x = None \<longleftrightarrow> sk_mem s x = None" by (rule shape_eqD(1) [OF sh])
  show "height s' = height s" "score s' = score s" using shape_eqD(2,3) [OF sh] by auto
qed (use assms in \<open>simp_all add: same_shape_def\<close>)

lemma forward_iff: "forward s i x \<noteq> None \<longleftrightarrow> sk_mem s x \<noteq> None \<and> i < height s x"
  by (cases "sk_mem s x") (auto simp: forward_def height_def)

lemma set_forward_spec:
  assumes "forward s i x \<noteq> None"
  shows "\<exists>s'. set_forward s i x y = Some s' \<and> same_shape s s' \<and> forward s' i = (forward s i)(x \<mapsto> y) \<and>
    (\<forall>j. j \<noteq> i \<longrightarrow> forward s' j = forward s j)"
proof -
  obtain nd where nd: "sk_mem s x = Some nd" "i < length (sk_forward nd)"
    using assms by (auto simp: forward_def split: option.splits if_splits)
  let ?s = "s\<lparr>sk_mem := (sk_mem s)(x \<mapsto> nd\<lparr>sk_forward := (sk_forward nd)[i := y]\<rparr>)\<rparr>"
  have "same_shape s ?s" using nd by (auto simp: same_shape_def shape_def)
  moreover have "forward ?s j = (if j = i then (forward s i)(x \<mapsto> y) else forward s j)" for j
    using nd by (auto simp: forward_def fun_eq_iff)
  ultimately show ?thesis using nd by (simp add: set_forward_def)
qed

section \<open>Loops over the levels\<close>

text \<open>
  An operation on one level: where the level satisfies \<open>pre\<close> it succeeds, changes that level by
  \<open>change\<close> and no other, and keeps the shapes.
\<close>

locale level_op =
  fixes op :: "nat \<Rightarrow> skiplist \<Rightarrow> skiplist option"
    and pre :: "nat \<Rightarrow> (addr \<rightharpoonup> addr) \<Rightarrow> bool"
    and change :: "nat \<Rightarrow> (addr \<rightharpoonup> addr) \<Rightarrow> (addr \<rightharpoonup> addr)"
  assumes op_level: "pre i (forward s i) \<Longrightarrow> \<exists>s'. op i s = Some s' \<and> same_shape s s' \<and>
    forward s' i = change i (forward s i) \<and> (\<forall>j. j \<noteq> i \<longrightarrow> forward s' j = forward s j)"
begin

lemma over_levels:
  assumes "distinct is" and "\<forall>i\<in>set is. pre i (forward s i)"
  shows "\<exists>s'. fold (\<lambda>i r. do { s \<leftarrow> r; op i s }) is (Some s) = Some s' \<and> same_shape s s' \<and>
    (\<forall>j. forward s' j = (if j \<in> set is then change j (forward s j) else forward s j))"
  using assms
proof (induction "is" arbitrary: s)
  case (Cons i "is")
  obtain s1 where s1: "op i s = Some s1" "same_shape s s1" "forward s1 i = change i (forward s i)"
    "\<forall>j. j \<noteq> i \<longrightarrow> forward s1 j = forward s j"
  proof -
    have "pre i (forward s i)" using Cons.prems(2) by simp
    from op_level [OF this] show ?thesis by (elim exE conjE) (rule that)
  qed
  have q: "\<forall>j\<in>set is. pre j (forward s1 j)" using Cons.prems s1(4) by auto
  obtain s' where s': "fold (\<lambda>i r. do { s \<leftarrow> r; op i s }) is (Some s1) = Some s'" "same_shape s1 s'"
    "\<forall>j. forward s' j = (if j \<in> set is then change j (forward s1 j) else forward s1 j)"
  proof -
    have "distinct is" using Cons.prems(1) by simp
    from Cons.IH [OF this q] show ?thesis by (elim exE conjE) (rule that)
  qed
  have "forward s' j = (if j \<in> set (i # is) then change j (forward s j) else forward s j)" for j
    using s'(3) s1(3,4) Cons.prems(1) by (cases "j = i") auto
  then show ?case using s1(1,2) s'(1,2) same_shape_trans by auto
qed simp

end

text \<open>The three loops of the code: clearing the header, splicing a node in, unlinking a node.\<close>

interpretation clear: level_op "\<lambda>i s. set_forward s i h NULL" "\<lambda>i f. f h \<noteq> None" "\<lambda>i f. f(h \<mapsto> NULL)" for h
  by unfold_locales (use set_forward_spec in blast)

interpretation splice: level_op "splice x update"
  "\<lambda>i f. i < length update \<and> update ! i \<noteq> x \<and> f (update ! i) \<noteq> None \<and> f x \<noteq> None"
  "\<lambda>i f. f(x := f (update ! i), update ! i \<mapsto> x)" for x update
proof
  fix i s
  assume a: "i < length update \<and> update ! i \<noteq> x \<and> forward s i (update ! i) \<noteq> None \<and> forward s i x \<noteq> None"
  then obtain v where v: "forward s i (update ! i) = Some v" by blast
  obtain s1 where s1: "set_forward s i x v = Some s1" "same_shape s s1" "forward s1 i = (forward s i)(x \<mapsto> v)"
    "\<forall>j. j \<noteq> i \<longrightarrow> forward s1 j = forward s j"
    using set_forward_spec a by blast
  have "forward s1 i (update ! i) \<noteq> None" using s1(3) v a by simp
  then obtain s2 where s2: "set_forward s1 i (update ! i) x = Some s2" "same_shape s1 s2"
    "forward s2 i = (forward s1 i)(update ! i \<mapsto> x)" "\<forall>j. j \<noteq> i \<longrightarrow> forward s2 j = forward s1 j"
    using set_forward_spec by blast
  have "splice x update i s = Some s2" using a v s1(1) s2(1) by (simp add: splice_def)
  moreover have "same_shape s s2" using s1(2) s2(2) by (rule same_shape_trans)
  moreover have "forward s2 i = (forward s i)(x := forward s i (update ! i), update ! i \<mapsto> x)"
    using s2(3) s1(3) v by simp
  ultimately show "\<exists>s'. splice x update i s = Some s' \<and> same_shape s s' \<and>
      forward s' i = (forward s i)(x := forward s i (update ! i), update ! i \<mapsto> x) \<and>
      (\<forall>j. j \<noteq> i \<longrightarrow> forward s' j = forward s j)"
    using s1(4) s2(4) by auto
qed

interpretation unlink: level_op "\<lambda>i. unlink x (u i) i"
  "\<lambda>i f. f (u i) \<noteq> None \<and> (f (u i) = Some x \<longrightarrow> f x \<noteq> None)"
  "\<lambda>i f. if f (u i) = Some x then f(u i := f x) else f" for x u
proof
  fix i s
  assume a: "forward s i (u i) \<noteq> None \<and> (forward s i (u i) = Some x \<longrightarrow> forward s i x \<noteq> None)"
  show "\<exists>s'. unlink x (u i) i s = Some s' \<and> same_shape s s' \<and>
      forward s' i = (if forward s i (u i) = Some x then (forward s i)(u i := forward s i x) else forward s i) \<and>
      (\<forall>j. j \<noteq> i \<longrightarrow> forward s' j = forward s j)"
  proof (cases "forward s i (u i) = Some x")
    case True
    then obtain g where "forward s i x = Some g" using a by blast
    then show ?thesis using set_forward_spec [of s i "u i" g] True by (auto simp: unlink_def)
  next
    case False
    then show ?thesis using a by (auto simp: unlink_def)
  qed
qed

end
