(* ===== verification/Skip_Ops.thy ===== *)
theory Skip_Ops
  imports SkipList
begin

text \<open>
  The invariant of the skip list, which relates its forward pointers to one sorted list of nodes,
  and what search, insertion and deletion do to that list.
\<close>

section \<open>The invariant\<close>

definition level_list :: "skiplist \<Rightarrow> nat \<Rightarrow> addr list \<Rightarrow> addr list" where
  "level_list s i L = filter (\<lambda>x. i < height s x) L"

text \<open>\<open>L\<close> is the content; every level is the path through the nodes high enough for it.\<close>

definition skl :: "skiplist \<Rightarrow> addr list \<Rightarrow> bool" where
  "skl s L \<longleftrightarrow> distinct (sk_header s # L) \<and> NULL \<notin> set (sk_header s # L) \<and>
     sk_mem s (sk_header s) \<noteq> None \<and> height s (sk_header s) = 32 \<and> 1 \<le> sk_level s \<and> sk_level s \<le> 32 \<and>
     (\<forall>x\<in>set L. sk_mem s x \<noteq> None \<and> 1 \<le> height s x \<and> height s x \<le> sk_level s) \<and>
     (\<forall>i<32. path (forward s i) (sk_header s # level_list s i L) NULL) \<and>
     sorted (map (score s) L) \<and> sk_length s = int (length L)"

lemma sklD:
  assumes "skl s L"
  shows "distinct L" and "sk_header s \<notin> set L" and "sk_header s \<noteq> NULL" and "NULL \<notin> set L"
    and "sk_mem s (sk_header s) \<noteq> None" and "height s (sk_header s) = 32" and "1 \<le> sk_level s" and "sk_level s \<le> 32"
    and "x \<in> set L \<Longrightarrow> sk_mem s x \<noteq> None" and "x \<in> set L \<Longrightarrow> 1 \<le> height s x"
    and "x \<in> set L \<Longrightarrow> height s x \<le> sk_level s"
    and "i < 32 \<Longrightarrow> path (forward s i) (sk_header s # level_list s i L) NULL"
    and "sorted (map (score s) L)" and "sk_length s = int (length L)"
  using assms by (auto simp: skl_def)

lemma level_list_append [simp]: "level_list s i (A @ B) = level_list s i A @ level_list s i B"
  by (simp add: level_list_def)

lemma level_list_Cons: "level_list s i (x # A) = (if i < height s x then x # level_list s i A else level_list s i A)"
  by (simp add: level_list_def)

lemma level_list_subset: "set (level_list s i A) \<subseteq> set A"
  by (auto simp: level_list_def)

lemma level_list_cong: "(\<And>x. x \<in> set X \<Longrightarrow> height s' x = height s x) \<Longrightarrow> level_list s' i X = level_list s i X"
  unfolding level_list_def by (rule filter_cong) simp_all

lemma level_list_0: "skl s L \<Longrightarrow> level_list s 0 L = L"
  unfolding level_list_def by (rule filter_True) (use sklD(10) in fastforce)

lemma level_list_top: "skl s L \<Longrightarrow> sk_level s \<le> i \<Longrightarrow> level_list s i L = []"
  using sklD(11) by (fastforce simp: level_list_def filter_empty_conv)

lemma forward_header:
  assumes "skl s L" and "i < 32"
  shows "forward s i (sk_header s) = Some (if level_list s i L = [] then NULL else hd (level_list s i L))"
  using sklD(12) [OF assms] by (simp add: path_Cons)

lemma sorted_split:
  assumes "sorted (map k L)"
  shows "\<forall>x\<in>set (dropWhile (\<lambda>x. k x < (v :: nat)) L). v \<le> k x"
  using assms
proof (induction L)
  case (Cons a L)
  then show ?case by (auto simp: not_less)
qed simp

section \<open>Search\<close>

lemma walk_spec:
  assumes "path (forward s i) (x # P @ Q) NULL" and "\<forall>y\<in>set (P @ Q). y \<noteq> NULL \<and> sk_mem s y \<noteq> None"
    and "\<forall>y\<in>set P. score s y < v" and "Q \<noteq> [] \<Longrightarrow> v \<le> score s (hd Q)"
  shows "walk s i v x = Some (last (x # P))"
  using assms
proof (induction P arbitrary: x)
  case Nil
  show ?case
  proof (cases Q)
    case Nil
    then show ?thesis using Nil.prems(1) by (subst walk.simps) simp
  next
    case (Cons q r)
    then obtain nq where "sk_mem s q = Some nq" "q \<noteq> NULL" "forward s i x = Some q"
      using Nil.prems(1,2) by auto
    then show ?thesis using Nil.prems(4) Cons by (subst walk.simps) (auto simp: score_def)
  qed
next
  case (Cons y P)
  then obtain ny where "sk_mem s y = Some ny" "y \<noteq> NULL" "forward s i x = Some y" by auto
  moreover have "walk s i v y = Some (last (y # P))"
    by (rule Cons.IH) (use Cons.prems in \<open>simp_all add: path_Cons\<close>)
  ultimately show ?case using Cons.prems(3) by (subst walk.simps) (simp add: score_def)
qed

text \<open>The last node before the score \<open>v\<close> on a level, the header when there is none.\<close>

definition before :: "skiplist \<Rightarrow> addr list \<Rightarrow> nat \<Rightarrow> nat \<Rightarrow> addr" where
  "before s L v i = last (sk_header s # level_list s i (takeWhile (\<lambda>x. score s x < v) L))"

lemma walk_before:
  assumes sk: "skl s L" and i: "i < 32"
  shows "walk s i v (before s L v (Suc i)) = Some (before s L v i)"
proof -
  let ?A = "takeWhile (\<lambda>x. score s x < v) L" and ?B = "dropWhile (\<lambda>x. score s x < v) L"
  let ?P = "level_list s i ?A" and ?Q = "level_list s i ?B" and ?x = "before s L v (Suc i)"
  have AB: "?A @ ?B = L" by simp
  have p: "path (forward s i) (sk_header s # ?P @ ?Q) NULL"
    using sklD(12) [OF sk i] AB by (metis level_list_append)
  have ok: "\<forall>y\<in>set (?P @ ?Q). y \<noteq> NULL \<and> sk_mem s y \<noteq> None"
  proof
    fix y
    assume "y \<in> set (?P @ ?Q)"
    then have "y \<in> set L" using level_list_subset AB by (metis level_list_append subsetD)
    moreover from this have "y \<noteq> NULL" using sklD(4) [OF sk] by metis
    ultimately show "y \<noteq> NULL \<and> sk_mem s y \<noteq> None" using sklD(9) [OF sk] by blast
  qed
  have lt: "\<forall>y\<in>set ?P. score s y < v" by (auto simp: level_list_def dest: set_takeWhileD)
  have ge: "v \<le> score s (hd ?Q)" if "?Q \<noteq> []"
    using sorted_split [OF sklD(13) [OF sk], of v] that level_list_subset hd_in_set by (metis subsetD)
  obtain P1 P2 where s: "sk_header s # ?P = P1 @ ?x # P2"
  proof (cases "level_list s (Suc i) ?A = []")
    case True
    then show ?thesis using that [of "[]" ?P] by (simp add: before_def)
  next
    case False
    then have "?x \<in> set (level_list s (Suc i) ?A)" by (simp add: before_def)
    then have "?x \<in> set (sk_header s # ?P)" by (auto simp: level_list_def)
    then show ?thesis using that split_list by metis
  qed
  have "path (forward s i) (?x # P2 @ ?Q) NULL"
  proof -
    have "path (forward s i) (P1 @ (?x # P2 @ ?Q)) NULL" using p s by (metis append_Cons append_assoc)
    then show ?thesis by (cases "P1 = []") (auto simp: path_append)
  qed
  moreover have "set P2 \<subseteq> set ?P" using s by (cases P1) auto
  ultimately have "walk s i v ?x = Some (last (?x # P2))"
    using ok lt ge by (intro walk_spec [of s i ?x P2 ?Q v]) auto
  also have "last (?x # P2) = last (sk_header s # ?P)" using s by simp
  finally show ?thesis by (simp add: before_def)
qed

lemma search_before:
  assumes "skl s L" and "k \<le> 32"
  shows "search s v k (before s L v k) = Some (before s L v 0, map (before s L v) [0..<k])"
  using assms(2)
proof (induction k)
  case (Suc k)
  then show ?case using walk_before [OF assms(1), of k v] by simp
qed simp

lemma before_top:
  assumes "skl s L" and "sk_level s \<le> i"
  shows "before s L v i = sk_header s"
proof -
  have "level_list s i (takeWhile (\<lambda>x. score s x < v) L) = []"
    using level_list_top [OF assms] takeWhile_dropWhile_id [of "\<lambda>x. score s x < v" L] level_list_append
    by (metis append_is_Nil_conv)
  then show ?thesis by (simp add: before_def)
qed

lemma search_spec:
  assumes "skl s L"
  shows "search s v (sk_level s) (sk_header s) = Some (before s L v 0, map (before s L v) [0..<sk_level s])"
  using search_before [OF assms sklD(8) [OF assms], of v] before_top [OF assms order_refl] by simp

lemma before_in:
  assumes "skl s L"
  shows "before s L v i \<in> set (sk_header s # takeWhile (\<lambda>x. score s x < v) L)"
    and "i < 32 \<Longrightarrow> i < height s (before s L v i)" and "sk_mem s (before s L v i) \<noteq> None"
    and "before s L v i \<in> set (sk_header s # L)"
proof -
  let ?A = "takeWhile (\<lambda>x. score s x < v) L"
  have "before s L v i \<in> set (sk_header s # level_list s i ?A)"
    unfolding before_def by (rule last_in_set) simp
  then have m: "before s L v i = sk_header s \<or> before s L v i \<in> set ?A \<and> i < height s (before s L v i)"
    by (auto simp: level_list_def)
  then show "before s L v i \<in> set (sk_header s # ?A)" by auto
  show "i < 32 \<Longrightarrow> i < height s (before s L v i)" using m sklD(6) [OF assms] by auto
  show 2: "before s L v i \<in> set (sk_header s # L)" using m set_takeWhileD by fastforce
  show "sk_mem s (before s L v i) \<noteq> None"
    using 2 sklD(5) [OF assms] sklD(9) [OF assms] by auto
qed

section \<open>The level of a new node\<close>

lemma random_level_run:
  assumes "\<forall>j<n. rand (k + j) mod 65536 \<le> 16383" and "16383 < rand (k + n) mod 65536"
  shows "random_level rand k l = Some (min (l + n) 32)"
  using assms
proof (induction n arbitrary: k l)
  case 0
  then show ?case by (subst random_level.simps) simp
next
  case (Suc n)
  have "rand k mod 65536 \<le> 16383" using Suc.prems(1) by (metis add.right_neutral zero_less_Suc)
  moreover have "random_level rand (k + 1) (l + 1) = Some (min (l + 1 + n) 32)"
    by (rule Suc.IH) (use Suc.prems in \<open>auto simp: add.assoc\<close>)
  ultimately show ?case by (subst random_level.simps) simp
qed

lemma random_level_range:
  assumes "zslRandomLevel rand = Some r"
  shows "1 \<le> r" and "r \<le> 32"
proof -
  have "1 \<le> (1 :: nat) \<longrightarrow> 1 \<le> r \<and> r \<le> 32"
  proof (rule random_level.raw_induct [where P = "\<lambda>rand k l r. 1 \<le> l \<longrightarrow> 1 \<le> r \<and> r \<le> 32"])
    show "random_level rand 0 1 = Some r" using assms by (simp add: zslRandomLevel_def)
    fix f :: "(nat \<Rightarrow> nat) \<Rightarrow> nat \<Rightarrow> nat \<Rightarrow> nat option" and rand :: "nat \<Rightarrow> nat" and k l r :: nat
    assume ih: "\<And>rand k l r. f rand k l = Some r \<Longrightarrow> 1 \<le> l \<longrightarrow> 1 \<le> r \<and> r \<le> 32"
      and body: "(if rand k mod 65536 \<le> 16383 then f rand (k + 1) (l + 1)
        else Some (if l < 32 then l else 32)) = Some r"
    show "1 \<le> l \<longrightarrow> 1 \<le> r \<and> r \<le> 32"
    proof (cases "rand k mod 65536 \<le> 16383")
      case True
      then show ?thesis using ih [of rand "k + 1" "l + 1" r] body by simp
    next
      case False
      then show ?thesis using body by (auto split: if_splits)
    qed
  qed
  then have "1 \<le> r \<and> r \<le> 32" by simp
  then show "1 \<le> r" and "r \<le> 32" by auto
qed

section \<open>Insertion\<close>

lemma skl_intro:
  assumes hd: "sk_header s' = sk_header s" and new: "distinct L'" "sk_header s \<notin> set L'" "NULL \<notin> set L'"
    and old: "sk_header s \<noteq> NULL" "sk_mem s' (sk_header s) \<noteq> None" "height s' (sk_header s) = 32"
    and lv: "1 \<le> sk_level s'" "sk_level s' \<le> 32"
    and al: "\<And>x. x \<in> set L' \<Longrightarrow> sk_mem s' x \<noteq> None \<and> 1 \<le> height s' x \<and> height s' x \<le> sk_level s'"
    and pt: "\<And>i. i < 32 \<Longrightarrow> path (forward s' i) (sk_header s # level_list s' i L') NULL"
    and so: "sorted (map (score s') L')" and le: "sk_length s' = int (length L')"
  shows "skl s' L'"
  using assms by (auto simp: skl_def)

lemma insert_sorted_at:
  fixes k :: "addr \<Rightarrow> nat"
  assumes "sorted (map k L)" and that: "n \<notin> set L"
  shows "sorted (map (k(n := v)) (takeWhile (\<lambda>x. k x < v) L @ n # dropWhile (\<lambda>x. k x < v) L))"
proof -
  let ?A = "takeWhile (\<lambda>x. k x < v) L" and ?B = "dropWhile (\<lambda>x. k x < v) L"
  have m: "map (k(n := v)) ?A = map k ?A" "map (k(n := v)) ?B = map k ?B"
    using that by (auto dest: set_takeWhileD set_dropWhileD)
  have AB: "sorted (map k ?A @ map k ?B)" using assms(1) by (metis map_append takeWhile_dropWhile_id)
  have "\<forall>x\<in>set ?A. k x < v" by (auto dest: set_takeWhileD)
  moreover have "\<forall>x\<in>set ?B. v \<le> k x" by (rule sorted_split [OF assms(1)])
  moreover have "map (k(n := v)) (?A @ n # ?B) = map k ?A @ v # map k ?B" using m by simp
  ultimately show ?thesis
    using AB by (auto simp: sorted_append less_imp_le simp del: map_append)
qed

text \<open>A new block of height \<open>h\<close> in the store, not yet linked.\<close>

definition with_block :: "skiplist \<Rightarrow> nat \<Rightarrow> addr \<Rightarrow> nat \<Rightarrow> nat \<Rightarrow> addr list \<Rightarrow> skiplist" where
  "with_block s lv n v func fs = s\<lparr>sk_level := lv,
     sk_mem := (sk_mem s)(n \<mapsto> \<lparr>sk_score = v, sk_handler = func, sk_forward = fs\<rparr>)\<rparr>"

lemma new_block:
  assumes "s1 = with_block s lv n v func (map g [0..<h])"
  shows "x \<noteq> n \<Longrightarrow> height s1 x = height s x" and "x \<noteq> n \<Longrightarrow> score s1 x = score s x" and "height s1 n = h"
    and "score s1 n = v" and "x \<noteq> n \<Longrightarrow> forward s1 i x = forward s i x" and "i < h \<Longrightarrow> forward s1 i n \<noteq> None"
    and "x \<noteq> n \<Longrightarrow> sk_mem s1 x = sk_mem s x"
  using assms by (simp_all add: with_block_def height_def score_def forward_def)

lemma insert_spec:
  assumes sk: "skl s L" and n: "sk_mem s n = None" "n \<noteq> NULL" and h: "zslRandomLevel rand = Some h"
    and A_def: "A = takeWhile (\<lambda>x. score s x < v) L" and B_def: "B = dropWhile (\<lambda>x. score s x < v) L"
  shows "\<exists>s'. zslInsert (Some (n, junk)) rand s v func = Some (n, s') \<and> skl s' (A @ n # B) \<and>
     score s' = (score s)(n := v) \<and> height s' = (height s)(n := h) \<and> sk_header s' = sk_header s \<and>
     (\<forall>x. sk_mem s' x = None \<longleftrightarrow> x \<noteq> n \<and> sk_mem s x = None)"
proof -
  let ?u = "before s L v" and ?H = "sk_header s"
  let ?lv = "max h (sk_level s)"
  let ?up = "map ?u [0..<sk_level s] @ replicate (h - sk_level s) ?H"
  define s1 where "s1 = with_block s ?lv n v func (map junk [0..<h])"
  note nb = new_block [OF s1_def] and s1_eq = s1_def [unfolded with_block_def]
  have AB: "L = A @ B" by (simp add: A_def B_def)
  have nL: "n \<notin> set L" "n \<noteq> ?H" using sklD(9) [OF sk, of n] sklD(5) [OF sk] n(1) by auto
  have h32: "1 \<le> h" "h \<le> 32" using random_level_range [OF h] by auto
  have up: "?up ! i = ?u i" if "i < h" for i
    using that before_top [OF sk, of i] by (simp add: nth_append)
  have u: "?u i \<noteq> n" "?u i \<in> set (?H # A)" "i < 32 \<Longrightarrow> forward s i (?u i) \<noteq> None" for i
    using before_in(1) [OF sk, of v i] before_in(2) [OF sk, of i v] before_in(3,4) [OF sk, of v i] nL
    by (auto simp: A_def forward_iff simp del: not_None_eq)
  have pre: "\<forall>i\<in>set [0..<h]. i < length ?up \<and> ?up ! i \<noteq> n \<and> forward s1 i (?up ! i) \<noteq> None \<and> forward s1 i n \<noteq> None"
  proof
    fix i
    assume "i \<in> set [0..<h]"
    then have i: "i < h" "i < 32" using h32 by auto
    then show "i < length ?up \<and> ?up ! i \<noteq> n \<and> forward s1 i (?up ! i) \<noteq> None \<and> forward s1 i n \<noteq> None"
      using up [OF i(1)] u nb(5) [OF u(1)] nb(6) [OF i(1)] by simp
  qed
  obtain s2 where s2: "fold (\<lambda>i r. do { s \<leftarrow> r; splice n ?up i s }) [0..<h] (Some s1) = Some s2" "same_shape s1 s2"
    "\<forall>j. forward s2 j = (if j \<in> set [0..<h]
       then (forward s1 j)(n := forward s1 j (?up ! j), ?up ! j \<mapsto> n) else forward s1 j)"
    using splice.over_levels [OF _ pre] by auto
  let ?s = "s2\<lparr>sk_length := sk_length s2 + 1\<rparr>"
  note sh = same_shapeD [OF s2(2)]
  have shs: "height ?s = height s1" "score ?s = score s1" "forward ?s i = forward s2 i" for i
    using sh by (auto simp: height_def score_def forward_def fun_eq_iff)
  have run: "zslInsert (Some (n, junk)) rand s v func = Some (n, ?s)"
  proof -
    have lv: "(if h > sk_level s then s\<lparr>sk_level := h\<rparr> else s) = s\<lparr>sk_level := ?lv\<rparr>" by (simp add: max_def)
    have cr: "zslCreateNode (Some (n, junk)) h v func (sk_mem (s\<lparr>sk_level := ?lv\<rparr>)) = Some (n, sk_mem s1)"
      by (simp add: zslCreateNode_def s1_eq)
    have st: "s\<lparr>sk_level := ?lv, sk_mem := sk_mem s1\<rparr> = s1" by (simp add: s1_eq)
    show ?thesis
      unfolding zslInsert_def Let_def search_spec [OF sk] h Option.bind.simps fst_conv snd_conv lv cr st s2(1) ..
  qed
  have ll: "level_list ?s i (A @ n # B) = level_list s i A @ (if i < h then [n] else []) @ level_list s i B" for i
  proof -
    have "level_list ?s i X = level_list s i X" if "n \<notin> set X" for X
    proof (rule level_list_cong)
      fix x
      assume "x \<in> set X"
      then have "x \<noteq> n" using that by auto
      then show "height ?s x = height s x" using nb(1) shs(1) by simp
    qed
    then show ?thesis using nL AB nb(3) shs(1) by (simp add: level_list_Cons)
  qed
  have "skl ?s (A @ n # B)"
  proof (rule skl_intro [of ?s s])
    show "sk_header ?s = ?H" using sh(4) by (simp add: s1_eq)
    show "distinct (A @ n # B)" "?H \<notin> set (A @ n # B)" "NULL \<notin> set (A @ n # B)"
      using sklD(1,2,4) [OF sk] nL n(2) AB by auto
    show "?H \<noteq> NULL" by (rule sklD(3) [OF sk])
    have "?H \<noteq> n" using nL by simp
    show "sk_mem ?s ?H \<noteq> None"
      using sh(1) [of ?H] nb(7) [OF \<open>?H \<noteq> n\<close>] sklD(5) [OF sk] by simp
    show "height ?s ?H = 32" using shs(1) nb(1) [OF \<open>?H \<noteq> n\<close>] sklD(6) [OF sk] by simp
    show "1 \<le> sk_level ?s" "sk_level ?s \<le> 32"
      using sh(6) h32 sklD(7,8) [OF sk] by (auto simp: s1_eq)
    show "sk_mem ?s x \<noteq> None \<and> 1 \<le> height ?s x \<and> height ?s x \<le> sk_level ?s" if "x \<in> set (A @ n # B)" for x
    proof (cases "x = n")
      case True
      then show ?thesis using sh(1) [of n] sh(6) shs(1) nb(3) h32 by (simp add: s1_eq)
    next
      case False
      then have xL: "x \<in> set L" using that AB by auto
      show ?thesis
        using sh(1) [of x] sh(6) nb(1,7) [OF False] shs(1) sklD(9-11) [OF sk xL] by (simp add: s1_eq)
    qed
    show "path (forward ?s i) (?H # level_list ?s i (A @ n # B)) NULL" if i: "i < 32" for i
    proof -
      have p: "path (forward s i) ((?H # level_list s i A) @ level_list s i B) NULL"
        using sklD(12) [OF sk i] AB by simp
      have out: "n \<notin> set ((?H # level_list s i A) @ level_list s i B)"
        using nL level_list_subset AB by fastforce
      have eq: "path (forward s1 i) ((?H # level_list s i A) @ level_list s i B) NULL"
        using p path_cong [of "(?H # level_list s i A) @ level_list s i B" "forward s1 i" "forward s i"] nb(5) out
        by metis
      show ?thesis
      proof (cases "i < h")
        case True
        have la: "last (?H # level_list s i A) = ?u i" by (simp add: before_def A_def)
        have d: "distinct ((?H # level_list s i A) @ level_list s i B)"
          using sklD(1,2) [OF sk] AB by (auto simp: level_list_def)
        have "path ((forward s1 i)(n := forward s1 i (?u i), ?u i \<mapsto> n)) ((?H # level_list s i A) @ n # level_list s i B) NULL"
          using path_insert [OF eq _ d out] la by simp
        moreover have "forward ?s i = (forward s1 i)(n := forward s1 i (?u i), ?u i \<mapsto> n)"
          using s2(3) True up [OF True] shs(3) by simp
        ultimately show ?thesis using ll [of i] True by simp
      next
        case False
        then show ?thesis using ll [of i] eq s2(3) shs(3) by simp
      qed
    qed
    show "sorted (map (score ?s) (A @ n # B))"
    proof -
      have "map (score ?s) (A @ n # B) = map ((score s)(n := v)) (A @ n # B)"
        using shs(2) nb(2,4) by simp
      then show ?thesis using insert_sorted_at [OF sklD(13) [OF sk] nL(1), of v] by (simp only: A_def B_def)
    qed
    show "sk_length ?s = int (length (A @ n # B))"
      using sh(5) sklD(14) [OF sk] AB by (simp add: s1_eq)
  qed
  moreover have "score ?s = (score s)(n := v)" "height ?s = (height s)(n := h)"
    using shs(1,2) nb(1-4) by (auto simp: fun_eq_iff)
  moreover have "sk_mem ?s x = None \<longleftrightarrow> x \<noteq> n \<and> sk_mem s x = None" for x
    using sh(1) [of x] by (auto simp: s1_eq)
  moreover have "sk_header ?s = ?H" using sh(4) by (simp add: s1_eq)
  ultimately show ?thesis using run by (intro exI [of _ ?s]) simp
qed

end
