(* ===== verification/Skip_Delete.thy ===== *)
theory Skip_Delete
  imports Skip_Ops
begin

text \<open>
  Deletion from the skip list, its creation, its release, and the list of its nodes read back from
  the store.
\<close>

section \<open>Unlinking a node from every level\<close>

lemma shrink_spec:
  assumes "1 \<le> lv" and "\<And>i. i < lv \<Longrightarrow> forward s i (sk_header s) = Some NULL \<longleftrightarrow> level_list s i L = []"
    and "\<And>i. i < lv \<Longrightarrow> forward s i (sk_header s) \<noteq> None" and "\<forall>x\<in>set L. height s x \<le> lv"
  shows "\<exists>l. shrink s lv = Some l \<and> 1 \<le> l \<and> l \<le> lv \<and> (\<forall>x\<in>set L. height s x \<le> l)"
  using assms
proof (induction s lv rule: shrink.induct)
  case (3 s l)
  obtain f where f: "forward s (Suc l) (sk_header s) = Some f" using 3(4) [of "Suc l"] by auto
  show ?case
  proof (cases "f = NULL")
    case True
    then have "level_list s (Suc l) L = []" using 3(3) [of "Suc l"] f by simp
    then have "\<forall>x\<in>set L. height s x \<le> Suc l" by (auto simp: level_list_def filter_empty_conv not_less)
    then obtain l' where "shrink s (Suc l) = Some l'" "1 \<le> l'" "l' \<le> Suc l" "\<forall>x\<in>set L. height s x \<le> l'"
      using 3(1) [OF f True] 3(3,4) by (metis less_Suc_eq le_add1 plus_1_eq_Suc)
    then show ?thesis using f True by auto
  next
    case False
    then show ?thesis using f 3(5) by simp
  qed
qed auto

lemma remove_node:
  assumes sk: "skl s L" and L: "L = A @ x # B" and "is": "distinct is" "set is = {0..<sk_level s}"
    and u: "\<And>i. i < sk_level s \<Longrightarrow> u i \<in> set (sk_header s # A) \<and> i < height s (u i)"
    and at: "\<And>i. i < height s x \<Longrightarrow> u i = last (sk_header s # level_list s i A)"
  shows "\<exists>s1 l. fold (\<lambda>i r. do { s \<leftarrow> r; unlink x (u i) i s }) is (Some s) = Some s1 \<and> sk_level s1 = sk_level s \<and>
     sk_length s1 = sk_length s \<and> shrink s1 (sk_level s1) = Some l \<and>
     skl (s1\<lparr>sk_level := l, sk_length := sk_length s1 - 1\<rparr>) (A @ B) \<and> same_shape s s1"
proof -
  let ?H = "sk_header s" and ?lv = "sk_level s"
  note d = sklD(1,2) [OF sk]
  have alloc: "sk_mem s (u i) \<noteq> None" if "i < ?lv" for i
    using u [OF that] sklD(5) [OF sk] sklD(9) [OF sk] L by auto
  have lvx: "height s x \<le> ?lv" using sklD(11) [OF sk, of x] L by simp
  have fu: "forward s i (u i) \<noteq> None" if "i < ?lv" for i
    using alloc u that unfolding forward_iff by blast
  have hit: "forward s i (u i) = Some x \<longleftrightarrow> i < height s x" if i: "i < ?lv" for i
  proof
    have i32: "i < 32" using i sklD(8) [OF sk] by simp
    note p = sklD(12) [OF sk i32]
    assume f: "forward s i (u i) = Some x"
    have "u i \<in> set (?H # level_list s i L)"
      using u [OF i] L by (auto simp: level_list_def)
    then have "x = NULL \<or> x \<in> set (?H # level_list s i L)" using path_succ [OF p _ f] by blast
    then show "i < height s x" using sklD(2,4) [OF sk] L by (auto simp: level_list_def split: if_splits)
  next
    assume h: "i < height s x"
    have i32: "i < 32" using i sklD(8) [OF sk] by simp
    have "path (forward s i) ((?H # level_list s i A) @ x # level_list s i B) NULL"
      using sklD(12) [OF sk i32] h L by (simp add: level_list_Cons)
    moreover have "distinct ((?H # level_list s i A) @ x # level_list s i B)"
      using d L by (auto simp: level_list_def)
    ultimately have "forward s i (last (?H # level_list s i A)) = Some x"
      by (intro path_remove(1) [where zs = "level_list s i B" and z = NULL]) simp_all
    then show "forward s i (u i) = Some x" using at [OF h] by simp
  qed
  have xal: "sk_mem s x \<noteq> None" using sklD(9) [OF sk, of x] L by simp
  have pre: "\<forall>i\<in>set is. forward s i (u i) \<noteq> None \<and> (forward s i (u i) = Some x \<longrightarrow> forward s i x \<noteq> None)"
    using fu hit xal "is"(2) by (auto simp: forward_iff simp del: not_None_eq)
  obtain s1 where s1: "fold (\<lambda>i r. do { s \<leftarrow> r; unlink x (u i) i s }) is (Some s) = Some s1" "same_shape s s1"
    "\<forall>j. forward s1 j = (if j \<in> set is then (if forward s j (u j) = Some x
        then (forward s j)(u j := forward s j x) else forward s j) else forward s j)"
    using unlink.over_levels [OF "is"(1) pre] by (elim exE conjE) (rule that)
  note sh = same_shapeD [OF s1(2)]
  have ll: "level_list s1 i X = level_list s i X" for i X by (simp add: level_list_def sh(2))
  have pt: "path (forward s1 i) (?H # level_list s i (A @ B)) NULL" if i: "i < 32" for i
  proof (cases "i < height s x")
    case True
    have "path (forward s i) ((?H # level_list s i A) @ x # level_list s i B) NULL"
      using sklD(12) [OF sk i] True L by (simp add: level_list_Cons)
    moreover have "distinct ((?H # level_list s i A) @ x # level_list s i B)"
      using d L by (auto simp: level_list_def)
    ultimately have "path ((forward s i)(u i := forward s i x)) ((?H # level_list s i A) @ level_list s i B) NULL"
      using path_remove(2) [of "forward s i" "?H # level_list s i A"] at [OF True] by simp
    moreover have "forward s1 i = (forward s i)(u i := forward s i x)"
      using s1(3) hit True lvx "is"(2) by simp
    ultimately show ?thesis by simp
  next
    case False
    then have "forward s1 i = forward s i" using s1(3) hit "is"(2) by auto
    then show ?thesis using sklD(12) [OF sk i] False L by (simp add: level_list_Cons)
  qed
  have hd1: "forward s1 i ?H = Some (if level_list s i (A @ B) = [] then NULL else hd (level_list s i (A @ B)))"
    if "i < 32" for i using pt [OF that] by (simp add: path_Cons)
  have nn: "NULL \<notin> set (level_list s i (A @ B))" for i
    using level_list_subset [of s i "A @ B"] sklD(4) [OF sk] L by auto
  have "\<exists>l. shrink s1 ?lv = Some l \<and> 1 \<le> l \<and> l \<le> ?lv \<and> (\<forall>x\<in>set (A @ B). height s1 x \<le> l)"
  proof (rule shrink_spec)
    show "1 \<le> ?lv" by (rule sklD(7) [OF sk])
    show "\<forall>x\<in>set (A @ B). height s1 x \<le> ?lv" using sklD(11) [OF sk] L by (auto simp: sh(2))
    fix i
    assume "i < ?lv"
    then have "i < 32" using sklD(8) [OF sk] by simp
    then show "forward s1 i (sk_header s1) \<noteq> None" using hd1 sh(4) by simp
    show "forward s1 i (sk_header s1) = Some NULL \<longleftrightarrow> level_list s1 i (A @ B) = []"
    proof (cases "level_list s i (A @ B) = []")
      case True
      then show ?thesis using hd1 [OF \<open>i < 32\<close>] sh(4) ll by simp
    next
      case False
      then have "hd (level_list s i (A @ B)) \<noteq> NULL" using nn [of i] hd_in_set by metis
      then show ?thesis using hd1 [OF \<open>i < 32\<close>] sh(4) ll False by simp
    qed
  qed
  then obtain l where l: "shrink s1 ?lv = Some l" "1 \<le> l" "l \<le> ?lv" "\<forall>x\<in>set (A @ B). height s1 x \<le> l" by blast
  let ?s = "s1\<lparr>sk_level := l, sk_length := sk_length s1 - 1\<rparr>"
  have shs: "height ?s = height s1" "score ?s = score s1" "forward ?s i = forward s1 i" for i
    by (auto simp: height_def score_def forward_def fun_eq_iff)
  have lls: "level_list ?s i X = level_list s i X" for i X
    using shs(1) sh(2) by (simp add: level_list_def)
  have "skl ?s (A @ B)"
  proof (rule skl_intro [of ?s s])
    show "sk_header ?s = ?H" using sh(4) by simp
    show "distinct (A @ B)" "?H \<notin> set (A @ B)" "NULL \<notin> set (A @ B)" "?H \<noteq> NULL"
      using d sklD(3,4) [OF sk] L by auto
    show "sk_mem ?s ?H \<noteq> None" using sh(1) [of ?H] sklD(5) [OF sk] by simp
    show "height ?s ?H = 32" using shs(1) sh(2) sklD(6) [OF sk] by simp
    show "1 \<le> sk_level ?s" "sk_level ?s \<le> 32" using l(2,3) sklD(8) [OF sk] by auto
    show "sk_mem ?s y \<noteq> None \<and> 1 \<le> height ?s y \<and> height ?s y \<le> sk_level ?s" if "y \<in> set (A @ B)" for y
    proof -
      have "y \<in> set L" using that L by auto
      then show ?thesis using sklD(9,10) [OF sk] l(4) that shs(1) sh(2) sh(1) [of y] by simp
    qed
    show "path (forward ?s i) (?H # level_list ?s i (A @ B)) NULL" if "i < 32" for i
      using pt [OF that] lls shs(3) by simp
    show "sorted (map (score ?s) (A @ B))" using sklD(13) [OF sk] L shs(2) sh(3) by (simp add: sorted_append)
    show "sk_length ?s = int (length (A @ B))" using sklD(14) [OF sk] L sh(5) by simp
  qed
  then show ?thesis using s1 l(1) sh(5,6) by auto
qed

section \<open>The first node\<close>

lemma min_spec: "skl s L \<Longrightarrow> zslMin s = Some (if L = [] then NULL else hd L)"
  using forward_header [of s L 0] level_list_0 [of s L] by (simp add: zslMin_def)

lemma delete_head_spec:
  assumes sk: "skl s L"
  shows "\<exists>s'. zslDeleteHead s = Some s' \<and> skl s' (tl L) \<and> shape s' = shape s \<and> sk_header s' = sk_header s \<and>
    (L = [] \<longrightarrow> s' = s)"
proof (cases L)
  case Nil
  then show ?thesis using min_spec [OF sk] sk by (simp add: zslDeleteHead_def)
next
  case (Cons x B)
  have "x \<noteq> NULL" using sklD(4) [OF sk] Cons by auto
  let ?h = "sk_header s"
  have "\<exists>s1 l. fold (\<lambda>i r. do { s \<leftarrow> r; unlink x ?h i s }) (rev [0..<sk_level s]) (Some s) = Some s1 \<and>
      sk_level s1 = sk_level s \<and> sk_length s1 = sk_length s \<and> shrink s1 (sk_level s1) = Some l \<and>
      skl (s1\<lparr>sk_level := l, sk_length := sk_length s1 - 1\<rparr>) ([] @ B) \<and> same_shape s s1"
  proof (rule remove_node [OF sk])
    show "L = [] @ x # B" using Cons by simp
    fix i
    show "?h \<in> set (?h # []) \<and> i < height s ?h" if "i < sk_level s"
      using that sklD(6,8) [OF sk] by simp
    show "?h = last (?h # level_list s i [])" by (simp add: level_list_def)
  qed auto
  then obtain s1 l where s1: "fold (\<lambda>i r. do { s \<leftarrow> r; unlink x ?h i s }) (rev [0..<sk_level s]) (Some s) = Some s1"
    "shrink s1 (sk_level s1) = Some l" "skl (s1\<lparr>sk_level := l, sk_length := sk_length s1 - 1\<rparr>) B" "same_shape s s1"
    by auto
  have "zslDeleteHead s = Some (s1\<lparr>sk_level := l, sk_length := sk_length s1 - 1\<rparr>)"
    unfolding zslDeleteHead_def min_spec [OF sk] using Cons \<open>x \<noteq> NULL\<close> s1(1,2) by simp
  moreover have "shape (s1\<lparr>sk_level := l, sk_length := sk_length s1 - 1\<rparr>) = shape s"
    using s1(4) by (auto simp: same_shape_def shape_def fun_eq_iff)
  ultimately show ?thesis using s1(3,4) Cons by (auto simp: same_shape_def)
qed

section \<open>Deletion by score\<close>

lemma free_skl_spec:
  assumes sk: "skl s L" and x: "x \<notin> set L" "x \<noteq> sk_header s" "sk_mem s x \<noteq> None"
  shows "\<exists>s'. free_skl x s = Some s' \<and> skl s' L \<and> sk_mem s' = (sk_mem s)(x := None) \<and> sk_header s' = sk_header s"
proof -
  let ?s = "s\<lparr>sk_mem := (sk_mem s)(x := None)\<rparr>"
  have h: "height ?s y = height s y" "score ?s y = score s y" "forward ?s i y = forward s i y" if "y \<noteq> x" for y i
    using that by (simp_all add: height_def score_def forward_def)
  have ll: "level_list ?s i L = level_list s i L" for i
  proof (rule level_list_cong)
    fix y
    assume "y \<in> set L"
    then have "y \<noteq> x" using x(1) by auto
    then show "height ?s y = height s y" by (rule h(1))
  qed
  have "skl ?s L"
  proof (rule skl_intro [of ?s s])
    show "path (forward ?s i) (sk_header s # level_list ?s i L) NULL" if "i < 32" for i
    proof -
      have "x \<notin> set (sk_header s # level_list s i L)" using x(1,2) level_list_subset by auto
      then have "path (forward ?s i) (sk_header s # level_list s i L) NULL =
          path (forward s i) (sk_header s # level_list s i L) NULL"
        by (intro path_cong h(3)) auto
      then show ?thesis using sklD(12) [OF sk that] ll by simp
    qed
    show "sorted (map (score ?s) L)"
    proof -
      have "map (score ?s) L = map (score s) L"
      proof (rule map_cong [OF refl])
        fix y
        assume "y \<in> set L"
        then have "y \<noteq> x" using x(1) by auto
        then show "score ?s y = score s y" by (rule h(2))
      qed
      then show ?thesis using sklD(13) [OF sk] by (simp only:)
    qed
    show "sk_mem ?s y \<noteq> None \<and> 1 \<le> height ?s y \<and> height ?s y \<le> sk_level ?s" if "y \<in> set L" for y
    proof -
      have "y \<noteq> x" using that x(1) by auto
      then show ?thesis using h(1) [OF \<open>y \<noteq> x\<close>] sklD(9-11) [OF sk that] by simp
    qed
    show "height ?s (sk_header s) = 32" using h(1) [of "sk_header s"] x(2) sklD(6) [OF sk] by simp
  qed (use sklD [OF sk] x in simp_all)
  then show ?thesis using x(3) by (auto simp: free_skl_def)
qed

lemma delete_spec:
  assumes sk: "skl s L" and zn: "sk_mem s zn \<noteq> None"
    and A_def: "A = takeWhile (\<lambda>x. score s x < score s zn) L"
    and B_def: "B = dropWhile (\<lambda>x. score s x < score s zn) L"
  shows "if B = [] \<or> score s (hd B) \<noteq> score s zn then zslDelete s zn = Some s
    else \<exists>s'. zslDelete s zn = Some s' \<and> skl s' (A @ tl B) \<and> sk_mem s' (hd B) = None \<and>
      (\<forall>y. y \<noteq> hd B \<longrightarrow> shape s' y = shape s y) \<and> sk_header s' = sk_header s"
proof -
  let ?v = "score s zn"
  obtain z where z: "sk_mem s zn = Some z" using zn by blast
  then have sz: "sk_score z = ?v" by (simp add: score_def)
  have L: "L = A @ B" by (simp add: A_def B_def)
  note se = search_spec [OF sk, of ?v]
  have f0: "forward s 0 (before s L ?v 0) = Some (if B = [] then NULL else hd B)"
  proof -
    have 0: "level_list s 0 L = L" by (rule level_list_0 [OF sk])
    have A0: "level_list s 0 A = A"
      unfolding level_list_def by (rule filter_True) (use sklD(10) [OF sk] L in fastforce)
    have p: "path (forward s 0) ((sk_header s # A) @ B) NULL"
      using sklD(12) [OF sk, of 0] 0 L by simp
    have "path (forward s 0) (sk_header s # A) (if B = [] then NULL else hd B)"
      using p path_append [of "sk_header s # A" B] by (cases "B = []") auto
    from path_last [OF this] show ?thesis by (simp add: before_def A0 A_def [symmetric])
  qed
  show ?thesis
  proof (cases "B = []")
    case True
    then show ?thesis using z sz se f0 by (simp add: zslDelete_def)
  next
    case False
    then obtain x C where B: "B = x # C" by (cases B) auto
    have x: "x \<in> set L" using L B by simp
    obtain nx where nx: "sk_mem s x = Some nx" using sklD(9) [OF sk x] by blast
    have x0: "x \<noteq> NULL" using sklD(4) [OF sk] x by metis
    have sx: "sk_score nx = score s x" using nx by (simp add: score_def)
    show ?thesis
    proof (cases "score s x = ?v")
      case no: False
      then show ?thesis using z sz se f0 B x0 nx sx by (simp add: zslDelete_def)
    next
      case True
      let ?u = "before s L ?v"
      have "\<exists>s1 l. fold (\<lambda>i r. do { s \<leftarrow> r; unlink x (?u i) i s }) [0..<sk_level s] (Some s) = Some s1 \<and>
          sk_level s1 = sk_level s \<and> sk_length s1 = sk_length s \<and> shrink s1 (sk_level s1) = Some l \<and>
          skl (s1\<lparr>sk_level := l, sk_length := sk_length s1 - 1\<rparr>) (A @ C) \<and> same_shape s s1"
      proof (rule remove_node [OF sk])
        show "L = A @ x # C" using L B by simp
        show "?u i \<in> set (sk_header s # A) \<and> i < height s (?u i)" if "i < sk_level s" for i
          using before_in(1) [OF sk, of ?v i] before_in(2) [OF sk, of i ?v] that sklD(8) [OF sk] by (simp add: A_def)
        show "?u i = last (sk_header s # level_list s i A)" for i by (simp add: before_def A_def)
      qed auto
      then obtain s1 l where s1: "fold (\<lambda>i r. do { s \<leftarrow> r; unlink x (?u i) i s }) [0..<sk_level s] (Some s) = Some s1"
        "shrink s1 (sk_level s1) = Some l" "skl (s1\<lparr>sk_level := l, sk_length := sk_length s1 - 1\<rparr>) (A @ C)"
        "same_shape s s1" by auto
      let ?s = "s1\<lparr>sk_level := l, sk_length := sk_length s1 - 1\<rparr>"
      define up where "up = map ?u [0..<sk_level s]"
      have "fold (\<lambda>i r. do { s \<leftarrow> r; unlink x (up ! i) i s }) [0..<sk_level s] (Some s) =
          fold (\<lambda>i r. do { s \<leftarrow> r; unlink x (?u i) i s }) [0..<sk_level s] (Some s)"
        by (rule fold_cong) (auto simp: up_def)
      then have "zslDeleteNode s x up = Some ?s"
        using s1(1,2) by (simp add: zslDeleteNode_def)
      then have dn: "zslDeleteNode s x (map ?u [0..<sk_level s]) = Some ?s" by (simp only: up_def)
      note sh = same_shapeD [OF s1(4)]
      have xs: "x \<notin> set (A @ C)" "x \<noteq> sk_header ?s" "sk_mem ?s x \<noteq> None"
        using sklD(1,2) [OF sk] L B sh(1) [of x] sh(4) nx by auto
      obtain s' where s': "free_skl x ?s = Some s'" "skl s' (A @ C)" "sk_mem s' = (sk_mem ?s)(x := None)"
        "sk_header s' = sk_header ?s"
        using free_skl_spec [OF s1(3) xs] by (elim exE conjE) (rule that)
      have "zslDelete s zn = Some s'"
        using z sz se f0 B x0 nx sx True dn s'(1) by (simp add: zslDelete_def)
      moreover have "shape s' y = shape s y" if "y \<noteq> x" for y
        using that s'(3) s1(4) by (auto simp: same_shape_def shape_def fun_eq_iff)
      ultimately show ?thesis using s' sh(4) B True by auto
    qed
  qed
qed

end
