(* ===== verification/Skl_Timer.thy ===== *)
theory Skl_Timer
  imports Skip_Delete Timer_Store
begin

text \<open>
  Creation and release of the skip list, the timer over it (\<^verbatim>\<open>skl-timer.c\<close>), the interpretation of
  the timer contract, and the properties of both.
\<close>

section \<open>The timer\<close>

definition skl_current_time :: "nat \<Rightarrow> nat \<Rightarrow> uint32" where
  "skl_current_time tv_sec tv_nsec = u32_add (u32 (u32 tv_sec * 1000)) (u32 (tv_nsec div 1000000))"

definition skl_init_timer :: "(addr \<times> (nat \<Rightarrow> addr)) option \<Rightarrow> nat \<Rightarrow> (addr \<rightharpoonup> skl_node) \<Rightarrow> skiplist option" where
  "skl_init_timer malloc default_handler m = zslCreate malloc default_handler m"

definition skl_add_timer :: "(addr \<times> (nat \<Rightarrow> addr)) option \<Rightarrow> (nat \<Rightarrow> nat) \<Rightarrow> uint32 \<Rightarrow> skiplist \<Rightarrow> uint32 \<Rightarrow>
    nat \<Rightarrow> (addr \<times> skiplist) option" where
  "skl_add_timer malloc rand now zsl msec func = zslInsert malloc rand zsl (u32_add msec now) func"

definition skl_del_timer :: "skiplist \<Rightarrow> addr \<Rightarrow> skiplist option" where
  "skl_del_timer zsl zn = zslDelete zsl zn"

definition skl_peek :: "skiplist \<Rightarrow> addr option option" where
  "skl_peek zsl = do { x \<leftarrow> zslMin zsl; Some (if x = NULL then None else Some x) }"

definition skl_deadline :: "skiplist \<Rightarrow> addr \<Rightarrow> nat option" where
  "skl_deadline zsl x = map_option sk_score (sk_mem zsl x)"

definition skl_call :: "(nat \<Rightarrow> addr \<Rightarrow> skiplist \<Rightarrow> skiplist option) \<Rightarrow> addr \<Rightarrow> skiplist \<Rightarrow> skiplist option" where
  "skl_call call x zsl = do { nd \<leftarrow> sk_mem zsl x; call (sk_handler nd) x zsl }"

definition skl_expire_timer :: "(nat \<Rightarrow> addr \<Rightarrow> skiplist \<Rightarrow> skiplist option) \<Rightarrow> uint32 \<Rightarrow> skiplist \<Rightarrow>
    ((addr \<times> nat) list \<times> skiplist) option" where
  "skl_expire_timer call now zsl =
     expire_loop skl_peek skl_deadline (\<lambda>x s. do { s1 \<leftarrow> skl_call call x s; zslDeleteHead s1 }) now zsl"

section \<open>The content read back\<close>

partial_function (option) sk_walk :: "skiplist \<Rightarrow> addr \<Rightarrow> addr list option" where
  "sk_walk s x = (if x = NULL then Some [] else do { f \<leftarrow> forward s 0 x; r \<leftarrow> sk_walk s f; Some (x # r) })"

definition sk_nodes :: "skiplist \<Rightarrow> addr list" where
  "sk_nodes s = (case do { x \<leftarrow> zslMin s; sk_walk s x } of None \<Rightarrow> [] | Some L \<Rightarrow> L)"

definition sk_ok :: "skiplist \<Rightarrow> bool" where
  "sk_ok s \<longleftrightarrow> skl s (sk_nodes s)"

lemma sk_walk_path: "path (forward s 0) (x # xs) NULL \<Longrightarrow> NULL \<notin> set (x # xs) \<Longrightarrow> sk_walk s x = Some (x # xs)"
proof (induction xs arbitrary: x)
  case Nil
  then show ?case by (subst sk_walk.simps) (simp add: sk_walk.simps [of s 0])
next
  case (Cons y xs)
  then show ?case by (subst sk_walk.simps) simp
qed

lemma sk_nodes_eq:
  assumes "skl s L"
  shows "sk_nodes s = L"
proof (cases L)
  case Nil
  then show ?thesis using min_spec [OF assms] by (simp add: sk_nodes_def sk_walk.simps)
next
  case (Cons x B)
  have "path (forward s 0) (sk_header s # x # B) NULL"
    using sklD(12) [OF assms, of 0] level_list_0 [OF assms] Cons by simp
  then have "path (forward s 0) (x # B) NULL" by simp
  then have "sk_walk s x = Some (x # B)" using sk_walk_path sklD(4) [OF assms] Cons by simp
  then show ?thesis using min_spec [OF assms] Cons by (simp add: sk_nodes_def)
qed

lemma skl_ok: "skl s L \<Longrightarrow> sk_ok s"
  using sk_nodes_eq by (simp add: sk_ok_def)

section \<open>The skip list keeps the timer contract\<close>

lemma skl_peek_eq: "skl s L \<Longrightarrow> skl_peek s = Some (if L = [] then None else Some (hd L))"
  using min_spec [of s L] sklD(4) [of s L] by (cases L) (auto simp: skl_peek_def)

lemma hd_least:
  assumes "skl s L" and "x \<in> set L"
  shows "score s (hd L) \<le> score s x"
  using sklD(13) [OF assms(1)] assms(2) by (cases L) auto

interpretation skt: timer_store sk_ok "\<lambda>s. mset (sk_nodes s)" score skl_peek skl_deadline "\<lambda>x s. zslDeleteHead s"
proof
  fix s :: skiplist and e :: addr
  assume "sk_ok s"
  then have sk: "skl s (sk_nodes s)" by (simp add: sk_ok_def)
  show "mset (sk_nodes s) = {#} \<Longrightarrow> skl_peek s = Some None" using skl_peek_eq [OF sk] by simp
  show "\<exists>e. skl_peek s = Some (Some e) \<and> e \<in># mset (sk_nodes s) \<and> (\<forall>x\<in>#mset (sk_nodes s). score s e \<le> score s x)"
    if "mset (sk_nodes s) \<noteq> {#}"
    using skl_peek_eq [OF sk] hd_least [OF sk] that by auto
  show "skl_deadline s e = Some (score s e)" if "e \<in># mset (sk_nodes s)"
    using sklD(9) [OF sk, of e] that by (auto simp: skl_deadline_def score_def)
  assume pk: "skl_peek s = Some (Some e)"
  obtain s' where s': "zslDeleteHead s = Some s'" "skl s' (tl (sk_nodes s))" "shape s' = shape s"
    using delete_head_spec [OF sk] by blast
  have e: "sk_nodes s \<noteq> []" "e = hd (sk_nodes s)"
    using skl_peek_eq [OF sk] pk by (auto split: if_splits)
  then have "mset (tl (sk_nodes s)) = mset (sk_nodes s) - {#e#}" by (cases "sk_nodes s") auto
  moreover have "score s' x = score s x" for x
    by (rule shape_eqD(3)) (simp add: s'(3))
  ultimately show "\<exists>s'. zslDeleteHead s = Some s' \<and> sk_ok s' \<and> mset (sk_nodes s') = mset (sk_nodes s) - {#e#} \<and>
      (\<forall>x\<in>#mset (sk_nodes s'). score s' x = score s x)"
    using s' sk_nodes_eq [OF s'(2)] skl_ok [OF s'(2)] by auto
qed

section \<open>Creation and release\<close>

lemma create_spec:
  assumes "h \<noteq> NULL"
  shows "\<exists>s. zslCreate (Some (h, junk)) dh m = Some s \<and> skl s [] \<and> sk_header s = h \<and>
    (\<forall>x. x \<noteq> h \<longrightarrow> sk_mem s x = m x)"
proof -
  define s0 where "s0 = \<lparr>sk_header = h, sk_length = 0, sk_level = 1,
    sk_mem = m(h \<mapsto> \<lparr>sk_score = 0, sk_handler = dh, sk_forward = map junk [0..<32]\<rparr>)\<rparr>"
  have f0: "forward s0 i h \<noteq> None" if "i < 32" for i using that by (simp add: s0_def forward_def)
  have mem: "set_forward s i h v = Some s' \<Longrightarrow> x \<noteq> h \<Longrightarrow> sk_mem s' x = sk_mem s x" for s s' i v x
    by (auto simp: set_forward_def split: option.splits if_splits)
  have pre: "\<forall>i\<in>set [0..<32]. forward s0 i h \<noteq> None" using f0 by simp
  obtain s where s: "fold (\<lambda>i r. do { s \<leftarrow> r; set_forward s i h NULL }) [0..<32] (Some s0) = Some s" "same_shape s0 s"
    "\<forall>j. forward s j = (if j \<in> set [0..<32] then (forward s0 j)(h \<mapsto> NULL) else forward s0 j)"
    using clear.over_levels [of "[0..<32]" s0 h] pre by auto
  have frame: "fold (\<lambda>i r. do { s \<leftarrow> r; set_forward s i (sk_header s) NULL }) is (Some t) =
      fold (\<lambda>i r. do { s \<leftarrow> r; set_forward s i h NULL }) is (Some t) \<and>
      (\<forall>t' x. fold (\<lambda>i r. do { s \<leftarrow> r; set_forward s i h NULL }) is (Some t) = Some t' \<longrightarrow> x \<noteq> h \<longrightarrow> sk_mem t' x = sk_mem t x)"
    if "sk_header t = h" for t "is"
    using that
  proof (induction "is" arbitrary: t)
    case (Cons i "is")
    have none: "fold (\<lambda>i r. do { s \<leftarrow> r; set_forward s i (sk_header s) NULL }) is None = (None :: skiplist option)"
      "fold (\<lambda>i r. do { s \<leftarrow> r; set_forward s i h NULL }) is None = (None :: skiplist option)" for "is"
      by (induction "is") auto
    show ?case
    proof (cases "set_forward t i h NULL")
      case None
      then show ?thesis using none Cons.prems by simp
    next
      case (Some t1)
      then have "sk_header t1 = h"
        using Cons.prems by (auto simp: set_forward_def split: option.splits if_splits)
      then show ?thesis using Cons.IH [of t1] Some Cons.prems mem by simp
    qed
  qed simp
  have run: "zslCreate (Some (h, junk)) dh m = Some s"
    using frame [of s0 "[0..<32]"] s(1) by (simp add: zslCreate_def zslCreateNode_def s0_def Let_def)
  note sh = same_shapeD [OF s(2)]
  have "skl s []"
  proof (rule skl_intro [of s s])
    show "path (forward s i) (sk_header s # level_list s i []) NULL" if "i < 32" for i
      using s(3) that sh(4) by (simp add: level_list_def s0_def)
    show "height s (sk_header s) = 32" using sh(2,4) by (simp add: s0_def height_def)
    show "sk_header s \<noteq> NULL" using sh(4) assms by (simp add: s0_def)
    show "sk_mem s (sk_header s) \<noteq> None" using sh(1) [of h] sh(4) by (simp add: s0_def)
    show "1 \<le> sk_level s" "sk_level s \<le> 32" "sk_length s = int (length [])" using sh(5,6) by (simp_all add: s0_def)
  qed simp_all
  moreover have "\<forall>x. x \<noteq> h \<longrightarrow> sk_mem s x = m x"
    using frame [of s0 "[0..<32]"] s(1) by (simp add: s0_def)
  ultimately show ?thesis using run sh(4) by (simp add: s0_def)
qed

lemma free_nodes_spec:
  assumes "path (forward s 0) xs NULL" and "distinct xs" and "NULL \<notin> set xs" and "\<forall>x\<in>set xs. sk_mem s x \<noteq> None"
  shows "\<exists>s'. free_nodes (if xs = [] then NULL else hd xs) s = Some s' \<and>
    sk_mem s' = (\<lambda>x. if x \<in> set xs then None else sk_mem s x)"
  using assms
proof (induction xs arbitrary: s)
  case Nil
  then show ?case by (simp add: free_nodes.simps)
next
  case (Cons x xs)
  have f: "forward s 0 x = Some (if xs = [] then NULL else hd xs)" "path (forward s 0) xs NULL"
    using Cons.prems(1) by (auto simp: path_Cons)
  let ?s = "s\<lparr>sk_mem := (sk_mem s)(x := None)\<rparr>"
  have fr: "free_skl x s = Some ?s" using Cons.prems(4) by (simp add: free_skl_def)
  have "path (forward ?s 0) xs NULL = path (forward s 0) xs NULL"
    by (rule path_cong) (use Cons.prems(2) in \<open>auto simp: forward_def\<close>)
  then obtain s' where s': "free_nodes (if xs = [] then NULL else hd xs) ?s = Some s'"
    "sk_mem s' = (\<lambda>y. if y \<in> set xs then None else sk_mem ?s y)"
    using Cons.IH [of ?s] f(2) Cons.prems by fastforce
  have "sk_mem s' = (\<lambda>y. if y \<in> set (x # xs) then None else sk_mem s y)"
    unfolding s'(2) by auto
  then show ?case
    using f(1) fr s'(1) Cons.prems(3) by (subst free_nodes.simps) simp
qed

section \<open>Properties\<close>

text \<open>C9: insertion into a well-formed skip list always returns when the level draw does; the new node
  goes before the first node of the same or a larger score, the levels, the order and the length
  are right again, and nothing else changes.\<close>

theorem zslInsert_correct:
  assumes "skl s L" and "sk_mem s n = None" and "n \<noteq> NULL" and "zslRandomLevel rand = Some h"
  shows "\<exists>s'. zslInsert (Some (n, junk)) rand s v func = Some (n, s') \<and>
     skl s' (takeWhile (\<lambda>x. score s x < v) L @ n # dropWhile (\<lambda>x. score s x < v) L) \<and>
     score s' = (score s)(n := v) \<and> height s' = (height s)(n := h) \<and>
     (\<forall>x. sk_mem s' x = None \<longleftrightarrow> x \<noteq> n \<and> sk_mem s x = None)"
  using insert_spec [OF assms refl refl] by blast

theorem zslInsert_witness:
  "\<exists>s s'. zslCreate (Some (1, \<lambda>i. 0)) 0 Map.empty = Some s \<and>
     zslInsert (Some (2, \<lambda>i. 7)) (\<lambda>k. 20000) s 5 3 = Some (2, s') \<and> skl s' [2] \<and> score s' 2 = 5"
proof -
  obtain s where s: "zslCreate (Some (1, \<lambda>i. 0)) 0 Map.empty = Some s" "skl s []" "sk_mem s 2 = None"
    using create_spec [of 1 "\<lambda>i. 0" 0 Map.empty] by auto
  have "zslRandomLevel (\<lambda>k. 20000) = Some 1"
    using random_level_run [of 0 "\<lambda>k. 20000" 0 1] by (simp add: zslRandomLevel_def)
  then show ?thesis using zslInsert_correct [OF s(2,3), of "\<lambda>k. 20000" 1 "\<lambda>i. 7" 5 3] s(1) by auto
qed

text \<open>The height drawn for a node is one more than the number of leading draws of at most 16383,
  capped at 32; the loop ends as soon as one draw is larger.\<close>

theorem zslRandomLevel_correct:
  assumes "\<forall>j<n. rand j mod 65536 \<le> 16383" and "16383 < rand n mod 65536"
  shows "zslRandomLevel rand = Some (min (n + 1) 32)"
  using random_level_run [of n rand 0 1] assms by (simp add: zslRandomLevel_def)

theorem zslRandomLevel_witness: "zslRandomLevel (\<lambda>k. if k < 3 then 100 else 65535) = Some 4"
  using zslRandomLevel_correct [of 3 "\<lambda>k. if k < 3 then 100 else 65535"] by simp

text \<open>deletion of an allocated node \<open>zn\<close> never faults: it removes and frees the first node whose
  score is that of \<open>zn\<close>, and does nothing when there is none.\<close>

theorem zslDelete_correct:
  assumes "skl s L" and "sk_mem s zn \<noteq> None"
  shows "if score s zn \<notin> score s ` set L then zslDelete s zn = Some s
    else \<exists>A x B s'. L = A @ x # B \<and> score s x = score s zn \<and> (\<forall>y\<in>set A. score s y < score s zn) \<and>
      zslDelete s zn = Some s' \<and> skl s' (A @ B) \<and> sk_mem s' x = None \<and> (\<forall>y. y \<noteq> x \<longrightarrow> shape s' y = shape s y)"
proof -
  let ?v = "score s zn"
  let ?A = "takeWhile (\<lambda>x. score s x < ?v) L" and ?B = "dropWhile (\<lambda>x. score s x < ?v) L"
  note del = delete_spec [OF assms refl refl]
  have AB: "L = ?A @ ?B" and A: "\<forall>y\<in>set ?A. score s y < ?v" by (auto dest: set_takeWhileD)
  have eq: "?v \<in> score s ` set L \<longleftrightarrow> ?B \<noteq> [] \<and> score s (hd ?B) = ?v"
  proof
    assume "?v \<in> score s ` set L"
    then obtain y where y: "y \<in> set L" "score s y = ?v" by auto
    then have "y \<in> set ?B" using A AB by (metis Un_iff less_irrefl set_append)
    then obtain x C where B: "?B = x # C" by (cases ?B) auto
    have "sorted (map (score s) (x # C))"
      using sklD(13) [OF assms(1)] AB B by (metis map_append sorted_append)
    then have "score s x \<le> ?v" using \<open>y \<in> set ?B\<close> y(2) B by auto
    moreover have "?v \<le> score s x" using sorted_split [OF sklD(13) [OF assms(1)], of ?v] B by simp
    ultimately show "?B \<noteq> [] \<and> score s (hd ?B) = ?v" using B by simp
  next
    assume "?B \<noteq> [] \<and> score s (hd ?B) = ?v"
    then show "?v \<in> score s ` set L" using AB by (metis UnI2 hd_in_set image_eqI set_append)
  qed
  show ?thesis
  proof (cases "?v \<in> score s ` set L")
    case False
    then show ?thesis using del eq by auto
  next
    case True
    then obtain x C where B: "?B = x # C" "score s x = ?v" using eq by (cases ?B) auto
    then obtain s' where "zslDelete s zn = Some s'" "skl s' (?A @ C)" "sk_mem s' x = None"
      "\<forall>y. y \<noteq> x \<longrightarrow> shape s' y = shape s y"
      using del by auto
    moreover have "L = ?A @ x # C" using AB B(1) by simp
    ultimately show ?thesis using True A B(2) by auto
  qed
qed

text \<open>deleting a timer that stands behind another one of the same deadline removes and frees the
  other one, which was never fired, and leaves the deleted timer in the list.\<close>

theorem zslDelete_wrong_timer:
  assumes "skl s (A @ x # B)" and "zn \<in> set B" and "score s x = score s zn" and "\<forall>y\<in>set A. score s y < score s zn"
  shows "\<exists>s'. zslDelete s zn = Some s' \<and> skl s' (A @ B) \<and> sk_mem s' x = None \<and> zn \<noteq> x"
proof -
  let ?L = "A @ x # B"
  have al: "sk_mem s zn \<noteq> None" using sklD(9) [OF assms(1), of zn] assms(2) by simp
  have t: "takeWhile (\<lambda>y. score s y < score s zn) ?L = A" "dropWhile (\<lambda>y. score s y < score s zn) ?L = x # B"
    using assms(3,4) by (auto simp: takeWhile_append2 dropWhile_append2)
  have "zn \<noteq> x" using sklD(1) [OF assms(1)] assms(2) by auto
  then show ?thesis using delete_spec [OF assms(1) al t(1) [symmetric] t(2) [symmetric]] assms(3) by auto
qed

text \<open>Two timers of the same deadline, the second one in front.\<close>

lemma demo_equal_deadlines:
  "\<exists>s. skl s [3, 2] \<and> score s 2 = 5 \<and> score s 3 = 5"
proof -
  obtain s0 where s0: "skl s0 []" "sk_mem s0 2 = None" "sk_mem s0 3 = None"
    using create_spec [of 1 "\<lambda>i. 0" 0 Map.empty] by auto
  have r: "zslRandomLevel (\<lambda>k. 20000) = Some 1"
    using random_level_run [of 0 "\<lambda>k. 20000" 0 1] by (simp add: zslRandomLevel_def)
  obtain s1 where s1: "skl s1 [2]" "score s1 = (score s0)(2 := 5)" "\<forall>x. sk_mem s1 x = None \<longleftrightarrow> x \<noteq> 2 \<and> sk_mem s0 x = None"
    using insert_spec [OF s0(1,2) _ r refl refl, of "\<lambda>i. 0" 5 0] by auto
  obtain s2 where "skl s2 (takeWhile (\<lambda>x. score s1 x < 5) [2] @ 3 # dropWhile (\<lambda>x. score s1 x < 5) [2])"
    "score s2 = (score s1)(3 := 5)"
    using insert_spec [OF s1(1) _ _ r refl refl, of 3 "\<lambda>i. 0" 5 0] s1(3) s0(3) by auto
  then show ?thesis using s1(2) by (intro exI [of _ s2]) simp
qed

theorem zslDelete_witness:
  "\<exists>s s'. skl s [3, 2] \<and> zslDelete s 3 = Some s' \<and> sk_mem s' 3 = None \<and> skl s' [2]"
proof -
  obtain s where s: "skl s [3, 2]" "score s 2 = 5" "score s 3 = 5" using demo_equal_deadlines by blast
  have "sk_mem s 3 \<noteq> None" by (rule sklD(9) [OF s(1)]) simp
  from zslDelete_correct [OF s(1) this] obtain A x B s' where r: "[3, 2] = A @ x # B"
    "\<forall>y\<in>set A. score s y < 5" "zslDelete s 3 = Some s'" "skl s' (A @ B)" "sk_mem s' x = None"
    using s by auto
  have "A = []" using r(1,2) s(3) by (cases A) auto
  then show ?thesis using r s(1) by auto
qed

theorem zslDelete_wrong_timer_witness:
  "\<exists>s s'. skl s [3, 2] \<and> zslDelete s 2 = Some s' \<and> sk_mem s' 3 = None \<and> skl s' [2]"
proof -
  obtain s where s: "skl s [3, 2]" "score s 2 = 5" "score s 3 = 5" using demo_equal_deadlines by blast
  then show ?thesis using zslDelete_wrong_timer [of s "[]" 3 "[2]" 2] by auto
qed

text \<open>C10: expiring at \<open>now\<close> ends, runs the callback of every due timer exactly once in the order of the
  deadlines, keeps every timer that is not due and leaves none due, provided the callbacks delete
  nothing and add only later timers; no node is ever freed by it.\<close>

theorem skl_expire_timer_correct:
  assumes "sk_ok s"
    and "\<And>x s. sk_ok s \<Longrightarrow> skl_peek s = Some (Some x) \<Longrightarrow>
      \<exists>s' new. skl_call call x s = Some s' \<and> sk_ok s' \<and> skl_peek s' = Some (Some x) \<and>
        mset (sk_nodes s') = mset (sk_nodes s) + new \<and> (\<forall>y\<in>set (sk_nodes s). score s' y = score s y) \<and>
        (\<forall>y\<in>#new. now < score s' y)"
  shows "\<exists>fired s'. skl_expire_timer call now s = Some (fired, s') \<and> sk_ok s' \<and>
     mset (map fst fired) = filter_mset (\<lambda>x. score s x \<le> now) (mset (sk_nodes s)) \<and>
     (\<forall>p\<in>set fired. snd p = score s (fst p)) \<and> sorted (map snd fired) \<and>
     filter_mset (\<lambda>x. now < score s x) (mset (sk_nodes s)) \<subseteq># mset (sk_nodes s') \<and>
     (\<forall>x\<in>set (sk_nodes s'). now < score s' x)"
proof -
  have "skt.well_behaved now (skl_call call)"
    unfolding skt.well_behaved_def using assms(2) by simp
  from skt.expire_loop_correct [OF assms(1) this] show ?thesis
    by (auto simp: skl_expire_timer_def skt.due_def skt.waiting_def filter_mset_eq_mempty_iff not_le)
qed

theorem skl_expire_timer_witness:
  "\<exists>s fired s'. skl_expire_timer (\<lambda>h x s. Some s) 5 s = Some (fired, s') \<and> mset (map fst fired) = {#3, 2#}"
proof -
  obtain s where s: "skl s [3, 2]" "score s 2 = 5" "score s 3 = 5" using demo_equal_deadlines by blast
  have "\<exists>s' new. skl_call (\<lambda>h x s. Some s) x t = Some s' \<and> sk_ok s' \<and> skl_peek s' = Some (Some x) \<and>
      mset (sk_nodes s') = mset (sk_nodes t) + new \<and> (\<forall>y\<in>set (sk_nodes t). score s' y = score t y) \<and>
      (\<forall>y\<in>#new. 5 < score s' y)" if "sk_ok t" "skl_peek t = Some (Some x)" for t x
  proof -
    have sk: "skl t (sk_nodes t)" using that(1) by (simp add: sk_ok_def)
    have "x \<in> set (sk_nodes t)" using skl_peek_eq [OF sk] that(2) by (auto split: if_splits)
    then have "sk_mem t x \<noteq> None" by (rule sklD(9) [OF sk])
    then have "skl_call (\<lambda>h x s. Some s) x t = Some t" by (auto simp: skl_call_def)
    then show ?thesis using that by (intro exI [of _ t] exI [of _ "{#}"]) simp
  qed
  from skl_expire_timer_correct [OF skl_ok [OF s(1)] this] show ?thesis
    using sk_nodes_eq [OF s(1)] s(2,3) by (intro exI [of _ s]) auto
qed

text \<open>Releasing the list frees the header and exactly the nodes in the list; the nodes taken out by
  \<open>zslDeleteHead\<close> stay allocated.\<close>

theorem zslFree_correct:
  assumes "skl s L"
  shows "\<exists>s'. zslFree s = Some s' \<and> sk_mem s' = (\<lambda>x. if x \<in> set (sk_header s # L) then None else sk_mem s x)"
proof -
  let ?H = "sk_header s" and ?s = "s\<lparr>sk_mem := (sk_mem s)(sk_header s := None)\<rparr>"
  have p: "path (forward s 0) (?H # L) NULL" using sklD(12) [OF assms, of 0] level_list_0 [OF assms] by simp
  then have pL: "path (forward s 0) L NULL" by (simp add: path_Cons)
  have "path (forward ?s 0) L NULL = path (forward s 0) L NULL"
    by (rule path_cong) (use sklD(2) [OF assms] in \<open>auto simp: forward_def\<close>)
  then have p': "path (forward ?s 0) L NULL" using pL by simp
  have al: "\<forall>x\<in>set L. sk_mem ?s x \<noteq> None" using sklD(2) [OF assms] sklD(9) [OF assms] by auto
  obtain s' where s': "free_nodes (if L = [] then NULL else hd L) ?s = Some s'"
    "sk_mem s' = (\<lambda>x. if x \<in> set L then None else sk_mem ?s x)"
    using free_nodes_spec [OF p' sklD(1,4) [OF assms] al] by blast
  have "sk_mem s' = (\<lambda>x. if x \<in> set (?H # L) then None else sk_mem s x)" unfolding s'(2) by auto
  moreover have "free_skl ?H s = Some ?s" using sklD(5) [OF assms] by (simp add: free_skl_def)
  moreover have "forward s 0 ?H = Some (if L = [] then NULL else hd L)" using p by (simp add: path_Cons)
  ultimately show ?thesis using s'(1) by (simp add: zslFree_def)
qed

theorem zslFree_witness: "\<exists>s s'. skl s [3, 2] \<and> zslFree s = Some s' \<and> sk_mem s' 2 = None"
  using demo_equal_deadlines zslFree_correct by fastforce

end
