(* ===== verification/MemPool.thy ===== *)
theory MemPool
  imports Paths
begin

text \<open>
  The memory pool of \<^verbatim>\<open>mempoll.c\<close>. The state is the pool structure, the node and large-block
  headers by address, the bytes of the memory handed out, and the blocks obtained from the system
  with their sizes. \<open>posix_memalign\<close> is a parameter \<open>pm\<close> (\<open>None\<close> when it fails), and so is the
  indeterminate content \<open>fresh\<close> of the header of a new block: the code leaves \<open>next\<close> and \<open>quote\<close> of
  the first node, and \<open>quote\<close> and \<open>failed\<close> of every other node, as they come. Sizes are those of a
  64-bit machine: 24 bytes for the pool and for a large header, 32 for a node. The size of a large
  block is stored in an \<open>int\<close>, which keeps its low 32 bits.
\<close>

section \<open>State\<close>

record mp_large =
  lg_next :: addr
  lg_size :: int
  lg_alloc :: addr

record mp_node =
  nd_end :: addr
  nd_last :: addr
  mp_next :: addr
  mp_quote :: int
  mp_failed :: int

record mp_pool =
  pl_addr :: addr
  pl_large :: addr
  pl_head :: addr
  pl_current :: addr
  pl_nodes :: "addr \<rightharpoonup> mp_node"
  pl_larges :: "addr \<rightharpoonup> mp_large"
  pl_bytes :: "addr \<Rightarrow> nat"
  pl_heap :: "addr \<rightharpoonup> nat"

text \<open>\<open>PAGE_SIZE\<close>, and \<open>mp_align_ptr(p, MP_ALIGNMENT)\<close>.\<close>

abbreviation (input) PAGE_SIZE :: nat where
  "PAGE_SIZE \<equiv> 4096"

definition mp_align_ptr :: "addr \<Rightarrow> addr" where
  "mp_align_ptr p = (p + 15) div 16 * 16"

definition sys_free :: "addr \<Rightarrow> mp_pool \<Rightarrow> mp_pool option" where
  "sys_free p s = (if p = NULL then Some s
     else if pl_heap s p = None then None else Some (s\<lparr>pl_heap := (pl_heap s)(p := None)\<rparr>))"

definition upd_node :: "addr \<Rightarrow> (mp_node \<Rightarrow> mp_node) \<Rightarrow> mp_pool \<Rightarrow> mp_pool option" where
  "upd_node n f s = (case pl_nodes s n of
      None \<Rightarrow> None
    | Some nd \<Rightarrow> Some (s\<lparr>pl_nodes := (pl_nodes s)(n \<mapsto> f nd)\<rparr>))"

section \<open>Creation\<close>

definition mp_create_pool :: "(mp_pool \<Rightarrow> nat \<Rightarrow> addr option) \<Rightarrow> (addr \<Rightarrow> mp_node) \<Rightarrow> mp_pool \<Rightarrow> nat \<Rightarrow> mp_pool option"
  where
  "mp_create_pool pm fresh s sz =
     (let sz = (if sz < PAGE_SIZE \<or> sz mod PAGE_SIZE \<noteq> 0 then PAGE_SIZE else sz) in
      case pm s sz of
        None \<Rightarrow> None
      | Some pool \<Rightarrow>
          let head = pool + 24 in
          Some (s\<lparr>pl_addr := pool, pl_large := NULL, pl_head := head, pl_current := head,
            pl_nodes := (pl_nodes s)(head \<mapsto> (fresh head)\<lparr>nd_last := pool + 24 + 32,
              nd_end := pool + PAGE_SIZE, mp_failed := 0\<rparr>),
            pl_heap := (pl_heap s)(pool \<mapsto> sz)\<rparr>))"

section \<open>Allocation\<close>

text \<open>The loop of \<open>mp_malloc_block\<close>: to the last node, counting failures and moving \<open>current\<close>.\<close>

partial_function (option) block_walk :: "mp_pool \<Rightarrow> addr \<Rightarrow> addr \<Rightarrow> (addr \<times> addr \<times> mp_pool) option" where
  "block_walk s cur current =
     do { nd \<leftarrow> pl_nodes s cur;
          (if mp_next nd = NULL then Some (cur, current, s)
           else do { s1 \<leftarrow> upd_node cur (\<lambda>nd. nd\<lparr>mp_failed := mp_failed nd + 1\<rparr>) s;
                     block_walk s1 (mp_next nd) (if mp_failed nd > 4 then mp_next nd else current) }) }"

definition mp_malloc_block :: "(mp_pool \<Rightarrow> nat \<Rightarrow> addr option) \<Rightarrow> (addr \<Rightarrow> mp_node) \<Rightarrow> mp_pool \<Rightarrow> nat \<Rightarrow>
    (addr \<times> mp_pool) option" where
  "mp_malloc_block pm fresh s sz =
     (case pm s PAGE_SIZE of
        None \<Rightarrow> Some (NULL, s)
      | Some block \<Rightarrow>
          do { let ret_addr = mp_align_ptr (block + 32);
               let s1 = s\<lparr>pl_heap := (pl_heap s)(block \<mapsto> PAGE_SIZE),
                  pl_nodes := (pl_nodes s)(block \<mapsto> (fresh block)\<lparr>nd_end := block + PAGE_SIZE, mp_next := NULL,
                    nd_last := ret_addr + sz, mp_quote := mp_quote (fresh block) + 1\<rparr>)\<rparr>;
               r \<leftarrow> block_walk s1 (pl_current s1) (pl_current s1);
               s2 \<leftarrow> upd_node (fst r) (\<lambda>nd. nd\<lparr>mp_next := block\<rparr>) (snd (snd r));
               Some (ret_addr, s2\<lparr>pl_current := fst (snd r)\<rparr>) })"

text \<open>The search of \<open>mp_malloc\<close>; the pointer difference is compared as an unsigned 64-bit value.\<close>

partial_function (option) find_node :: "mp_pool \<Rightarrow> addr \<Rightarrow> nat \<Rightarrow> addr option" where
  "find_node s cur sz =
     (if cur = NULL then Some NULL
      else do { nd \<leftarrow> pl_nodes s cur;
                (if (int (nd_end nd) - int (mp_align_ptr (nd_last nd))) mod 18446744073709551616 \<ge> int sz
                 then Some cur else find_node s (mp_next nd) sz) })"

definition mp_malloc_small :: "(mp_pool \<Rightarrow> nat \<Rightarrow> addr option) \<Rightarrow> (addr \<Rightarrow> mp_node) \<Rightarrow> mp_pool \<Rightarrow> nat \<Rightarrow>
    (addr \<times> mp_pool) option" where
  "mp_malloc_small pm fresh s sz =
     do { cur \<leftarrow> find_node s (pl_current s) sz;
          if cur \<noteq> NULL then
            do { nd \<leftarrow> pl_nodes s cur;
                 let mem_addr = mp_align_ptr (nd_last nd);
                 s1 \<leftarrow> upd_node cur (\<lambda>nd. nd\<lparr>mp_quote := mp_quote nd + 1, nd_last := mem_addr + sz\<rparr>) s;
                 Some (mem_addr, s1) }
          else mp_malloc_block pm fresh s sz }"

text \<open>The reuse loop of \<open>mp_malloc_large\<close>: the first header without a block, within five steps.\<close>

partial_function (option) find_released :: "mp_pool \<Rightarrow> addr \<Rightarrow> nat \<Rightarrow> addr option" where
  "find_released s large n =
     (if large = NULL then Some NULL
      else do { lg \<leftarrow> pl_larges s large;
                (if lg_alloc lg = NULL then Some large
                 else if n > 3 then Some NULL
                 else find_released s (lg_next lg) (n + 1)) })"

text \<open>\<open>mp_malloc(pool, sizeof(struct mp_large_s))\<close> takes the branch for small sizes.\<close>

definition mp_malloc_large :: "(mp_pool \<Rightarrow> nat \<Rightarrow> addr option) \<Rightarrow> (addr \<Rightarrow> mp_node) \<Rightarrow> mp_pool \<Rightarrow> nat \<Rightarrow>
    (addr \<times> mp_pool) option" where
  "mp_malloc_large pm fresh s sz =
     (case pm s sz of
        None \<Rightarrow> Some (NULL, s)
      | Some big_addr \<Rightarrow>
          do { let s1 = s\<lparr>pl_heap := (pl_heap s)(big_addr \<mapsto> sz)\<rparr>;
               large \<leftarrow> find_released s1 (pl_large s1) 0;
               if large \<noteq> NULL then
                 do { lg \<leftarrow> pl_larges s1 large;
                      Some (big_addr, s1\<lparr>pl_larges := (pl_larges s1)(large \<mapsto>
                        lg\<lparr>lg_size := s32 sz, lg_alloc := big_addr\<rparr>)\<rparr>) }
               else
                 do { r \<leftarrow> mp_malloc_small pm fresh s1 24;
                      if fst r = NULL then do { s2 \<leftarrow> sys_free big_addr (snd r); Some (NULL, s2) }
                      else Some (big_addr, (snd r)\<lparr>pl_larges := (pl_larges (snd r))(fst r \<mapsto>
                             \<lparr>lg_next = pl_large (snd r), lg_size = s32 sz, lg_alloc = big_addr\<rparr>),
                             pl_large := fst r\<rparr>) } })"

definition mp_malloc :: "(mp_pool \<Rightarrow> nat \<Rightarrow> addr option) \<Rightarrow> (addr \<Rightarrow> mp_node) \<Rightarrow> mp_pool \<Rightarrow> nat \<Rightarrow>
    (addr \<times> mp_pool) option" where
  "mp_malloc pm fresh s sz =
     (if sz \<le> 0 then Some (NULL, s)
      else if sz > PAGE_SIZE - 32 then mp_malloc_large pm fresh s sz
      else mp_malloc_small pm fresh s sz)"

lemma mp_malloc_large_header: "mp_malloc pm fresh s 24 = mp_malloc_small pm fresh s 24"
  by (simp add: mp_malloc_def)

definition mp_calloc :: "(mp_pool \<Rightarrow> nat \<Rightarrow> addr option) \<Rightarrow> (addr \<Rightarrow> mp_node) \<Rightarrow> mp_pool \<Rightarrow> nat \<Rightarrow>
    (addr \<times> mp_pool) option" where
  "mp_calloc pm fresh s sz =
     do { r \<leftarrow> mp_malloc pm fresh s sz;
          if fst r \<noteq> NULL
          then Some (fst r, (snd r)\<lparr>pl_bytes := (\<lambda>a. if fst r \<le> a \<and> a < fst r + sz then 0 else pl_bytes (snd r) a)\<rparr>)
          else Some r }"

section \<open>Release\<close>

partial_function (option) find_large :: "mp_pool \<Rightarrow> addr \<Rightarrow> addr \<Rightarrow> addr option" where
  "find_large s large p =
     (if large = NULL then Some NULL
      else do { lg \<leftarrow> pl_larges s large;
                (if p = lg_alloc lg then Some large else find_large s (lg_next lg) p) })"

partial_function (option) find_owner :: "mp_pool \<Rightarrow> addr \<Rightarrow> addr \<Rightarrow> addr option" where
  "find_owner s cur p =
     (if cur = NULL then Some NULL
      else do { nd \<leftarrow> pl_nodes s cur;
                (if cur \<le> p \<and> p \<le> nd_end nd then Some cur else find_owner s (mp_next nd) p) })"

definition mp_free :: "mp_pool \<Rightarrow> addr \<Rightarrow> mp_pool option" where
  "mp_free s p =
     do { large \<leftarrow> find_large s (pl_large s) p;
          if large \<noteq> NULL then
            do { lg \<leftarrow> pl_larges s large;
                 s1 \<leftarrow> sys_free (lg_alloc lg) s;
                 Some (s1\<lparr>pl_larges := (pl_larges s1)(large \<mapsto> lg\<lparr>lg_size := 0, lg_alloc := NULL\<rparr>)\<rparr>) }
          else
            do { cur \<leftarrow> find_owner s (pl_head s) p;
                 if cur = NULL then Some s
                 else do { nd \<leftarrow> pl_nodes s cur;
                           if mp_quote nd - 1 = 0
                           then do { s1 \<leftarrow> upd_node cur (\<lambda>nd. nd\<lparr>mp_quote := mp_quote nd - 1,
                                       nd_last := (if cur = pl_head s then pl_addr s + 24 + 32 else cur + 32),
                                       mp_failed := 0\<rparr>) s;
                                     Some (s1\<lparr>pl_current := pl_head s1\<rparr>) }
                           else upd_node cur (\<lambda>nd. nd\<lparr>mp_quote := mp_quote nd - 1\<rparr>) s } } }"

text \<open>The loops that free the large blocks and the nodes.\<close>

partial_function (option) free_larges :: "addr \<Rightarrow> mp_pool \<Rightarrow> mp_pool option" where
  "free_larges large s =
     (if large = NULL then Some s
      else do { lg \<leftarrow> pl_larges s large;
                s1 \<leftarrow> (if lg_alloc lg \<noteq> NULL then sys_free (lg_alloc lg) s else Some s);
                free_larges (lg_next lg) s1 })"

partial_function (option) free_blocks :: "addr \<Rightarrow> mp_pool \<Rightarrow> mp_pool option" where
  "free_blocks cur s =
     (if cur = NULL then Some s
      else do { nd \<leftarrow> pl_nodes s cur;
                s1 \<leftarrow> sys_free cur s;
                free_blocks (mp_next nd) (s1\<lparr>pl_nodes := (pl_nodes s1)(cur := None)\<rparr>) })"

definition mp_destroy_pool :: "mp_pool \<Rightarrow> mp_pool option" where
  "mp_destroy_pool s =
     do { s1 \<leftarrow> free_larges (pl_large s) s;
          h \<leftarrow> pl_nodes s1 (pl_head s1);
          s2 \<leftarrow> free_blocks (mp_next h) s1;
          sys_free (pl_addr s2) s2 }"

partial_function (option) reset_nodes :: "addr \<Rightarrow> mp_pool \<Rightarrow> mp_pool option" where
  "reset_nodes cur s =
     (if cur = NULL then Some s
      else do { nd \<leftarrow> pl_nodes s cur;
                s1 \<leftarrow> upd_node cur (\<lambda>nd. nd\<lparr>nd_last := cur + 32, mp_failed := 0, mp_quote := 0\<rparr>) s;
                reset_nodes (mp_next nd) s1 })"

definition mp_reset_pool :: "mp_pool \<Rightarrow> mp_pool option" where
  "mp_reset_pool s =
     do { s1 \<leftarrow> free_larges (pl_large s) s;
          reset_nodes (pl_head s1) (s1\<lparr>pl_large := NULL, pl_current := pl_head s1\<rparr>) }"

section \<open>Monitoring\<close>

text \<open>The numbers \<open>monitor_mp_poll\<close> prints for the nodes: whether the node is the current one, the bytes
  used, the bytes left, the reference count and the failures; and the sizes of the large blocks.\<close>

partial_function (option) monitor_nodes :: "mp_pool \<Rightarrow> addr \<Rightarrow> nat \<Rightarrow> (bool \<times> int \<times> int \<times> int \<times> int) list option" where
  "monitor_nodes s head i =
     (if head = NULL then Some []
      else do { nd \<leftarrow> pl_nodes s head;
                r \<leftarrow> monitor_nodes s (mp_next nd) (i + 1);
                Some ((pl_current s = head,
                       int (nd_last nd) - int (if i + 1 = 1 then pl_addr s else head),
                       int (nd_end nd) - int (nd_last nd), mp_quote nd, mp_failed nd) # r) })"

partial_function (option) monitor_larges :: "mp_pool \<Rightarrow> addr \<Rightarrow> nat \<Rightarrow> (nat \<times> int) list option" where
  "monitor_larges s large i =
     (if large = NULL then Some []
      else do { lg \<leftarrow> pl_larges s large;
                r \<leftarrow> monitor_larges s (lg_next lg) (i + 1);
                Some ((if lg_alloc lg \<noteq> NULL then [(i + 1, lg_size lg)] else []) @ r) })"

definition monitor_mp_poll :: "mp_pool \<Rightarrow> ((bool \<times> int \<times> int \<times> int \<times> int) list \<times> (nat \<times> int) list) option" where
  "monitor_mp_poll s =
     do { ns \<leftarrow> monitor_nodes s (pl_head s) 0;
          ls \<leftarrow> monitor_larges s (pl_large s) 0;
          Some (ns, ls) }"

end
