(* ===== verification/MemPool_Inv.thy ===== *)
theory MemPool_Inv
  imports MemPool
begin

text \<open>
  The invariant of the memory pool: which chunks are handed out from which node, that they are
  aligned, inside their node and apart from each other, and that the reference counts are their
  numbers; and its preservation by allocation from a node and from a new block, and by release.
\<close>

section \<open>Chunks\<close>

fun apart :: "(addr \<times> nat) list \<Rightarrow> bool" where
  "apart [] \<longleftrightarrow> True"
| "apart ((p, k) # cs) \<longleftrightarrow> (\<forall>(q, l)\<in>set cs. p + k \<le> q \<or> q + l \<le> p) \<and> apart cs"

lemma apart_remove1: "apart cs \<Longrightarrow> apart (remove1 c cs)"
  by (induction cs rule: apart.induct) (auto dest: in_set_remove1 set_remove1_subset [THEN subsetD])

lemma apart_distinct: "apart cs \<Longrightarrow> \<forall>(p, k)\<in>set cs. 0 < k \<Longrightarrow> distinct cs"
  by (induction cs rule: apart.induct) auto

definition chunks_ok :: "addr \<Rightarrow> addr \<Rightarrow> (addr \<times> nat) list \<Rightarrow> bool" where
  "chunks_ok lo hi cs \<longleftrightarrow> apart cs \<and> (\<forall>(p, k)\<in>set cs. 0 < k \<and> lo \<le> p \<and> p + k \<le> hi \<and> p mod 16 = 0)"

lemma chunks_ok_push:
  assumes "chunks_ok lo hi cs" and "hi \<le> p" and "lo \<le> p" and "p mod 16 = 0" and "0 < k"
  shows "chunks_ok lo (p + k) ((p, k) # cs)"
  using assms by (fastforce simp: chunks_ok_def)

lemma chunks_ok_remove: "chunks_ok lo hi cs \<Longrightarrow> chunks_ok lo hi (remove1 c cs)"
  using apart_remove1 set_remove1_subset [of c cs] by (auto simp: chunks_ok_def)

lemma align_props: "p \<le> mp_align_ptr p" "mp_align_ptr p mod 16 = 0" "p mod 16 = 0 \<Longrightarrow> mp_align_ptr p = p"
  "p \<le> e \<Longrightarrow> e mod 16 = 0 \<Longrightarrow> mp_align_ptr p \<le> e"
proof -
  have "p + 15 = (p + 15) div 16 * 16 + (p + 15) mod 16" by simp
  moreover have "(p + 15) mod 16 < 16" by simp
  ultimately show "p \<le> mp_align_ptr p" unfolding mp_align_ptr_def by linarith
  show "mp_align_ptr p mod 16 = 0" by (simp add: mp_align_ptr_def)
  show "p mod 16 = 0 \<Longrightarrow> mp_align_ptr p = p" by (auto simp: mp_align_ptr_def)
  assume "p \<le> e" "e mod 16 = 0"
  then obtain m where "e = 16 * m" by auto
  then have "(p + 15) div 16 \<le> m" using \<open>p \<le> e\<close> by auto
  then show "mp_align_ptr p \<le> e" using \<open>e = 16 * m\<close> by (simp add: mp_align_ptr_def)
qed

section \<open>The invariant\<close>

definition heap_ok :: "(addr \<rightharpoonup> nat) \<Rightarrow> bool" where
  "heap_ok h \<longleftrightarrow> (\<forall>a k. h a = Some k \<longrightarrow> a \<noteq> NULL \<and> a mod 16 = 0 \<and> 0 < k) \<and>
     (\<forall>a b k l. h a = Some k \<longrightarrow> h b = Some l \<longrightarrow> a \<noteq> b \<longrightarrow> a + k \<le> b \<or> b + l \<le> a)"

text \<open>What is documented of \<open>posix_memalign\<close>: an aligned block apart from every live one.\<close>

definition memalign_ok :: "(mp_pool \<Rightarrow> nat \<Rightarrow> addr option) \<Rightarrow> bool" where
  "memalign_ok pm \<longleftrightarrow> (\<forall>s n a. pm s n = Some a \<longrightarrow> a \<noteq> NULL \<and> a mod 16 = 0 \<and> pl_heap s a = None \<and>
     (\<forall>b l. pl_heap s b = Some l \<longrightarrow> a + n \<le> b \<or> b + l \<le> a))"

definition base :: "mp_pool \<Rightarrow> addr \<Rightarrow> addr" where
  "base s n = (if n = pl_head s then pl_addr s else n)"

definition nnext :: "mp_pool \<Rightarrow> addr \<Rightarrow> addr option" where
  "nnext s n = map_option mp_next (pl_nodes s n)"

definition lnext :: "mp_pool \<Rightarrow> addr \<Rightarrow> addr option" where
  "lnext s l = map_option lg_next (pl_larges s l)"

definition alloc_of :: "mp_pool \<Rightarrow> addr \<Rightarrow> addr" where
  "alloc_of s l = lg_alloc (the (pl_larges s l))"

text \<open>The reference count of a node is the number of its chunks, counted from the value \<open>g\<close> that the header held
  when its block came from the system: the code increments it without having set it.\<close>

definition node_ok :: "(addr \<Rightarrow> int) \<Rightarrow> mp_pool \<Rightarrow> addr \<Rightarrow> (addr \<times> nat) list \<Rightarrow> bool" where
  "node_ok g s n cs \<longleftrightarrow> (\<exists>nd k. pl_nodes s n = Some nd \<and> pl_heap s (base s n) = Some k \<and> PAGE_SIZE \<le> k \<and>
     nd_end nd = base s n + PAGE_SIZE \<and> n + 32 \<le> nd_last nd \<and> nd_last nd \<le> nd_end nd \<and>
     mp_quote nd = g n + int (length cs) \<and> chunks_ok (n + 32) (nd_last nd) cs)"

text \<open>The large headers are chunks themselves; their blocks are live and none is shared.\<close>

definition larges_ok :: "mp_pool \<Rightarrow> addr list \<Rightarrow> addr list \<Rightarrow> (addr \<Rightarrow> (addr \<times> nat) list) \<Rightarrow> bool" where
  "larges_ok s ns ls ch \<longleftrightarrow> pl_large s = (if ls = [] then NULL else hd ls) \<and> path (lnext s) ls NULL \<and>
     distinct ls \<and> NULL \<notin> set ls \<and> (\<forall>l\<in>set ls. \<exists>n\<in>set ns. (l, 24) \<in> set (ch n)) \<and>
     (\<forall>l\<in>set ls. alloc_of s l \<noteq> NULL \<longrightarrow> pl_heap s (alloc_of s l) \<noteq> None \<and> alloc_of s l \<notin> base s ` set ns) \<and>
     (\<forall>l\<in>set ls. \<forall>l'\<in>set ls. alloc_of s l = alloc_of s l' \<longrightarrow> alloc_of s l \<noteq> NULL \<longrightarrow> l = l')"

definition pool_of :: "(addr \<Rightarrow> int) \<Rightarrow> mp_pool \<Rightarrow> addr list \<Rightarrow> addr list \<Rightarrow> (addr \<Rightarrow> (addr \<times> nat) list) \<Rightarrow> bool" where
  "pool_of g s ns ls ch \<longleftrightarrow> ns \<noteq> [] \<and> hd ns = pl_head s \<and> pl_head s = pl_addr s + 24 \<and> path (nnext s) ns NULL \<and>
     distinct ns \<and> NULL \<notin> set ns \<and> pl_current s \<in> set ns \<and> distinct (map (base s) ns) \<and> heap_ok (pl_heap s) \<and>
     (\<forall>n\<in>set ns. node_ok g s n (ch n)) \<and> larges_ok s ns ls ch \<and> (\<forall>n. n \<notin> set ns \<longrightarrow> ch n = [])"

abbreviation pool_ok :: "mp_pool \<Rightarrow> addr list \<Rightarrow> addr list \<Rightarrow> (addr \<Rightarrow> (addr \<times> nat) list) \<Rightarrow> bool" where
  "pool_ok s ns ls ch \<equiv> pool_of (\<lambda>_. 0) s ns ls ch"

lemma pool_of_cong: "(\<And>n. n \<in> set ns \<Longrightarrow> g n = g' n) \<Longrightarrow> pool_of g s ns ls ch \<Longrightarrow> pool_of g' s ns ls ch"
  unfolding pool_of_def node_ok_def by simp

lemma pool_okD:
  assumes "pool_of g s ns ls ch"
  shows "ns \<noteq> []" and "hd ns = pl_head s" and "pl_head s = pl_addr s + 24" and "path (nnext s) ns NULL"
    and "distinct ns" and "NULL \<notin> set ns" and "pl_current s \<in> set ns" and "distinct (map (base s) ns)"
    and "heap_ok (pl_heap s)" and "n \<in> set ns \<Longrightarrow> node_ok g s n (ch n)" and "larges_ok s ns ls ch"
    and "pl_head s \<in> set ns" and "c \<in> set (ch n) \<Longrightarrow> n \<in> set ns" and "n \<notin> set ns \<Longrightarrow> ch n = []"
proof -
  have "ns \<noteq> []" and h: "hd ns = pl_head s" using assms unfolding pool_of_def by blast+
  then show "pl_head s \<in> set ns" unfolding h [symmetric] by (intro hd_in_set)
  have o: "\<forall>n. n \<notin> set ns \<longrightarrow> ch n = []" using assms unfolding pool_of_def by blast
  show "n \<notin> set ns \<Longrightarrow> ch n = []" using o by blast
  show "c \<in> set (ch n) \<Longrightarrow> n \<in> set ns" using o by (metis empty_iff empty_set)
qed (use assms in \<open>auto simp: pool_of_def\<close>)

lemma larges_okD:
  assumes "larges_ok s ns ls ch"
  shows "pl_large s = (if ls = [] then NULL else hd ls)" and "path (lnext s) ls NULL" and "distinct ls"
    and "NULL \<notin> set ls" and "l \<in> set ls \<Longrightarrow> \<exists>n\<in>set ns. (l, 24) \<in> set (ch n)"
    and "l \<in> set ls \<Longrightarrow> alloc_of s l \<noteq> NULL \<Longrightarrow> pl_heap s (alloc_of s l) \<noteq> None \<and> alloc_of s l \<notin> base s ` set ns"
    and "l \<in> set ls \<Longrightarrow> l' \<in> set ls \<Longrightarrow> alloc_of s l = alloc_of s l' \<Longrightarrow> alloc_of s l \<noteq> NULL \<Longrightarrow> l = l'"
  using assms by (auto simp: larges_ok_def)

lemma node_some:
  assumes "pool_of g s ns ls ch" and "n \<in> set ns"
  shows "\<exists>nd. pl_nodes s n = Some nd" and "\<exists>k. pl_heap s (base s n) = Some k \<and> PAGE_SIZE \<le> k"
  using pool_okD(10) [OF assms] unfolding node_ok_def by auto

lemma node_facts:
  assumes "pool_of g s ns ls ch" and "n \<in> set ns" and "pl_nodes s n = Some nd"
  shows "nd_end nd = base s n + PAGE_SIZE" and "n + 32 \<le> nd_last nd" and "nd_last nd \<le> nd_end nd"
    and "mp_quote nd = g n + int (length (ch n))" and "chunks_ok (n + 32) (nd_last nd) (ch n)"
    and "base s n mod 16 = 0" and "nd_end nd mod 16 = 0" and "base s n \<le> n" and "base s n \<noteq> NULL"
proof -
  have ok: "node_ok g s n (ch n)" by (rule pool_okD(10) [OF assms(1,2)])
  then show e: "nd_end nd = base s n + PAGE_SIZE" and "n + 32 \<le> nd_last nd" and "nd_last nd \<le> nd_end nd"
    and "mp_quote nd = g n + int (length (ch n))" and "chunks_ok (n + 32) (nd_last nd) (ch n)"
    using assms(3) by (auto simp: node_ok_def)
  show m: "base s n mod 16 = 0" and "base s n \<noteq> NULL"
    using ok pool_okD(9) [OF assms(1)] unfolding node_ok_def heap_ok_def by blast+
  show "nd_end nd mod 16 = 0" unfolding e using m by (simp add: mod_add_eq [symmetric])
  show "base s n \<le> n" using pool_okD(3) [OF assms(1)] by (simp add: base_def)
qed

text \<open>Every chunk lies in the block of its node, and chunks of different nodes are apart.\<close>

lemma chunk_in_block:
  assumes "pool_of g s ns ls ch" and "n \<in> set ns" and "(p, k) \<in> set (ch n)"
  shows "base s n < p" and "p + k \<le> base s n + PAGE_SIZE" and "0 < k" and "p mod 16 = 0" and "n + 32 \<le> p"
proof -
  obtain nd where nd: "pl_nodes s n = Some nd" using node_some(1) [OF assms(1,2)] by auto
  note f = node_facts [OF assms(1,2) nd]
  have "0 < k \<and> n + 32 \<le> p \<and> p + k \<le> nd_last nd \<and> p mod 16 = 0"
    using f(5) assms(3) by (auto simp: chunks_ok_def)
  then show "base s n < p" and "p + k \<le> base s n + PAGE_SIZE" and "0 < k" and "p mod 16 = 0" and "n + 32 \<le> p"
    using f(1-3,8) by auto
qed

lemma heap_apart:
  assumes "heap_ok h" and "h a = Some k" and "h b = Some l" and "a \<noteq> b"
  shows "a + k \<le> b \<or> b + l \<le> a"
  using assms unfolding heap_ok_def by blast

lemma blocks_apart:
  assumes "pool_of g s ns ls ch" and "n \<in> set ns" and "n' \<in> set ns" and "n \<noteq> n'"
  shows "base s n + PAGE_SIZE \<le> base s n' \<or> base s n' + PAGE_SIZE \<le> base s n"
proof -
  have ne: "base s n \<noteq> base s n'"
    using pool_okD(8) [OF assms(1)] assms(2-4) by (meson distinct_map inj_onD)
  obtain k where k: "pl_heap s (base s n) = Some k" "PAGE_SIZE \<le> k" using node_some(2) [OF assms(1,2)] by auto
  obtain k' where k': "pl_heap s (base s n') = Some k'" "PAGE_SIZE \<le> k'" using node_some(2) [OF assms(1,3)] by auto
  show ?thesis using heap_apart [OF pool_okD(9) [OF assms(1)] k(1) k'(1) ne] k(2) k'(2) by linarith
qed

lemma large_apart:
  assumes "pool_of g s ns ls ch" and "l \<in> set ls" and "alloc_of s l \<noteq> NULL" and "n \<in> set ns"
  shows "\<exists>m. pl_heap s (alloc_of s l) = Some m \<and> 0 < m \<and>
    (alloc_of s l + m \<le> base s n \<or> base s n + PAGE_SIZE \<le> alloc_of s l)"
proof -
  have l: "pl_heap s (alloc_of s l) \<noteq> None \<and> alloc_of s l \<notin> base s ` set ns"
    by (rule larges_okD(6) [OF pool_okD(11) [OF assms(1)] assms(2,3)])
  then obtain m where m: "pl_heap s (alloc_of s l) = Some m" by blast
  have ne: "alloc_of s l \<noteq> base s n" using l assms(4) by auto
  obtain k where k: "pl_heap s (base s n) = Some k" "PAGE_SIZE \<le> k" using node_some(2) [OF assms(1,4)] by auto
  have "0 < m" using pool_okD(9) [OF assms(1)] m unfolding heap_ok_def by blast
  then show ?thesis using m k heap_apart [OF pool_okD(9) [OF assms(1)] m k(1) ne] by (intro exI [of _ m]) linarith
qed

text \<open>What the pool owes to its clients: the chunks that are no large header, and the large blocks.\<close>

definition live :: "mp_pool \<Rightarrow> addr list \<Rightarrow> (addr \<Rightarrow> (addr \<times> nat) list) \<Rightarrow> (addr \<times> nat) set" where
  "live s ls ch = {(p, k). (\<exists>n. (p, k) \<in> set (ch n)) \<and> p \<notin> set ls} \<union>
     {(p, k). \<exists>l\<in>set ls. p = alloc_of s l \<and> p \<noteq> NULL \<and> pl_heap s p = Some k}"

lemma chunk_chunk_apart:
  assumes ok: "pool_of g s ns ls ch" and c: "(p, k) \<in> set (ch n)" "(q, l) \<in> set (ch m)"
  shows "n = m \<and> (p, k) = (q, l) \<or> p + k \<le> q \<or> q + l \<le> p"
proof (cases "n = m")
  case True
  have n: "n \<in> set ns" by (rule pool_okD(13) [OF ok c(1)])
  obtain nd where nd: "pl_nodes s n = Some nd" using node_some(1) [OF ok n] by auto
  have "apart (ch n)" using node_facts(5) [OF ok n nd] by (simp add: chunks_ok_def)
  moreover have "apart cs \<Longrightarrow> (p, k) \<in> set cs \<Longrightarrow> (q, l) \<in> set cs \<Longrightarrow> (p, k) = (q, l) \<or> p + k \<le> q \<or> q + l \<le> p" for cs
    by (induction cs rule: apart.induct) auto
  ultimately show ?thesis using c True by blast
next
  case False
  note n = pool_okD(13) [OF ok c(1)] and m = pool_okD(13) [OF ok c(2)]
  show ?thesis
    using blocks_apart [OF ok n m False] chunk_in_block(1,2) [OF ok n c(1)] chunk_in_block(1,2) [OF ok m c(2)]
    by linarith
qed

lemma large_chunk_apart:
  assumes ok: "pool_of g s ns ls ch" and l: "l \<in> set ls" "alloc_of s l \<noteq> NULL" "pl_heap s (alloc_of s l) = Some m"
    and c: "(p, k) \<in> set (ch n)"
  shows "alloc_of s l + m \<le> p \<or> p + k \<le> alloc_of s l"
proof -
  note n = pool_okD(13) [OF ok c]
  show ?thesis using large_apart [OF ok l(1,2) n] l(3) chunk_in_block(1,2) [OF ok n c] by auto
qed

theorem live_apart:
  assumes ok: "pool_of g s ns ls ch" and "(p, k) \<in> live s ls ch" and "(q, m) \<in> live s ls ch"
  shows "(p, k) = (q, m) \<or> p + k \<le> q \<or> q + m \<le> p"
proof -
  have "(p, k) = (q, m) \<or> p + k \<le> q \<or> q + m \<le> p"
    if "(p, k) \<in> live s ls ch" "\<exists>n. (q, m) \<in> set (ch n)" for p k q m
    using that chunk_chunk_apart [OF ok] large_chunk_apart [OF ok] unfolding live_def by blast
  moreover have "(p, k) = (q, m) \<or> p + k \<le> q \<or> q + m \<le> p"
    if "pl_heap s p = Some k" "pl_heap s q = Some m"
    using heap_apart [OF pool_okD(9) [OF ok] that] that by (cases "p = q") auto
  ultimately show ?thesis using assms(2,3) unfolding live_def by blast
qed

section \<open>Changing one node\<close>

lemma pool_upd:
  assumes ok: "pool_of g s ns ls ch" and n: "n \<in> set ns" and nd: "pl_nodes s n = Some nd" "mp_next nd' = mp_next nd"
    and s': "s' = s\<lparr>pl_nodes := (pl_nodes s)(n \<mapsto> nd')\<rparr>" and cs: "node_ok g s' n cs"
    and keep: "\<And>l. l \<in> set ls \<Longrightarrow> (l, 24) \<in> set (ch n) \<Longrightarrow> (l, 24) \<in> set cs"
  shows "pool_of g s' ns ls (ch(n := cs))"
proof -
  have b: "base s' = base s" by (simp add: s' base_def fun_eq_iff)
  have nx: "nnext s' = nnext s" using nd by (auto simp: s' nnext_def fun_eq_iff)
  have ln: "lnext s' = lnext s" "alloc_of s' = alloc_of s" by (simp_all add: s' lnext_def alloc_of_def fun_eq_iff)
  have nodes: "node_ok g s' m ((ch(n := cs)) m)" if "m \<in> set ns" for m
  proof (cases "m = n")
    case True
    then show ?thesis using cs by simp
  next
    case False
    then show ?thesis using pool_okD(10) [OF ok that] b by (simp add: node_ok_def s')
  qed
  have lg: "\<forall>l\<in>set ls. \<exists>m\<in>set ns. (l, 24) \<in> set ((ch(n := cs)) m)"
  proof
    fix l assume l: "l \<in> set ls"
    then obtain m where m: "m \<in> set ns" "(l, 24) \<in> set (ch m)" using larges_okD(5) [OF pool_okD(11) [OF ok]] by blast
    show "\<exists>m\<in>set ns. (l, 24) \<in> set ((ch(n := cs)) m)"
      using m keep [OF l] by (intro bexI [of _ m]) auto
  qed
  have out: "\<forall>m. m \<notin> set ns \<longrightarrow> (ch(n := cs)) m = []" using pool_okD(14) [OF ok] n by auto
  have nodes': "\<forall>m\<in>set ns. node_ok g s' m ((ch(n := cs)) m)" using nodes by blast
  have f: "pl_large s' = pl_large s" "pl_addr s' = pl_addr s" "pl_head s' = pl_head s" "pl_heap s' = pl_heap s"
    "pl_current s' = pl_current s" by (simp_all add: s')
  have "larges_ok s' ns ls (ch(n := cs))"
    using pool_okD(11) [OF ok] lg unfolding larges_ok_def b ln f by blast
  then show ?thesis
    using ok nodes' out unfolding pool_of_def b nx f by blast
qed

lemma pool_current:
  assumes "pool_of g s ns ls ch" and "c \<in> set ns"
  shows "pool_of g (s\<lparr>pl_current := c\<rparr>) ns ls ch"
proof -
  let ?s = "s\<lparr>pl_current := c\<rparr>"
  have "base ?s = base s" "nnext ?s = nnext s" "lnext ?s = lnext s" "alloc_of ?s = alloc_of s"
    by (simp_all add: base_def nnext_def lnext_def alloc_of_def fun_eq_iff)
  then show ?thesis
    using assms by (simp add: pool_of_def larges_ok_def node_ok_def)
qed

section \<open>Allocation from a node\<close>

lemma find_node_spec:
  assumes "path (nnext s) ns NULL" and "NULL \<notin> set ns"
    and "\<forall>n\<in>set ns. \<exists>nd. pl_nodes s n = Some nd \<and> nd_last nd \<le> nd_end nd \<and> nd_end nd mod 16 = 0 \<and> nd_end nd \<le> nd_last nd + PAGE_SIZE"
  shows "\<exists>r. find_node s (if ns = [] then NULL else hd ns) sz = Some r \<and> (r = NULL \<or> r \<in> set ns \<and>
    (\<exists>nd. pl_nodes s r = Some nd \<and> mp_align_ptr (nd_last nd) + sz \<le> nd_end nd))"
  using assms
proof (induction ns)
  case Nil
  then show ?case by (simp add: find_node.simps)
next
  case (Cons n ns)
  obtain nd where nd: "pl_nodes s n = Some nd" "nd_last nd \<le> nd_end nd" "nd_end nd mod 16 = 0"
    "nd_end nd \<le> nd_last nd + PAGE_SIZE"
    using Cons.prems(3) by auto
  have "nnext s n = Some (mp_next nd)" using nd(1) by (simp add: nnext_def)
  then have nx: "mp_next nd = (if ns = [] then NULL else hd ns)" "path (nnext s) ns NULL"
    using Cons.prems(1) by (simp_all add: path_Cons)
  have al: "mp_align_ptr (nd_last nd) \<le> nd_end nd" "nd_last nd \<le> mp_align_ptr (nd_last nd)"
    using align_props(1,4) nd(2,3) by auto
  have "(int (nd_end nd) - int (mp_align_ptr (nd_last nd))) mod 18446744073709551616 =
      int (nd_end nd) - int (mp_align_ptr (nd_last nd))"
    by (rule mod_pos_pos_trivial) (use al nd(4) in linarith)+
  then have cmp: "(int (nd_end nd) - int (mp_align_ptr (nd_last nd))) mod 18446744073709551616 \<ge> int sz \<longleftrightarrow>
      mp_align_ptr (nd_last nd) + sz \<le> nd_end nd" using al by linarith
  obtain r where r: "find_node s (if ns = [] then NULL else hd ns) sz = Some r" "r = NULL \<or> r \<in> set ns \<and>
    (\<exists>nd. pl_nodes s r = Some nd \<and> mp_align_ptr (nd_last nd) + sz \<le> nd_end nd)"
    using Cons.IH [OF nx(2)] Cons.prems(2,3) by auto
  have n0: "n \<noteq> NULL" using Cons.prems(2) by auto
  show ?case
  proof (cases "mp_align_ptr (nd_last nd) + sz \<le> nd_end nd")
    case True
    then have "find_node s n sz = Some n" using n0 nd(1) cmp by (subst find_node.simps) simp
    then show ?thesis using True nd(1) by auto
  next
    case False
    then have "find_node s n sz = find_node s (mp_next nd) sz" using n0 nd(1) cmp by (subst find_node.simps) simp
    then show ?thesis using r nx(1) by auto
  qed
qed

lemma find_node_current:
  assumes ok: "pool_of g s ns ls ch"
  shows "\<exists>r. find_node s (pl_current s) sz = Some r \<and> (r = NULL \<or> r \<in> set ns \<and>
    (\<exists>nd. pl_nodes s r = Some nd \<and> mp_align_ptr (nd_last nd) + sz \<le> nd_end nd))"
proof -
  obtain A B where ns: "ns = A @ pl_current s # B" using pool_okD(7) [OF ok] by (meson split_list)
  have p: "path (nnext s) (pl_current s # B) NULL"
    using pool_okD(4) [OF ok] ns by (cases "A = []") (simp_all add: path_append)
  have nodes: "\<exists>nd. pl_nodes s n = Some nd \<and> nd_last nd \<le> nd_end nd \<and> nd_end nd mod 16 = 0 \<and> nd_end nd \<le> nd_last nd + PAGE_SIZE"
    if n: "n \<in> set ns" for n
  proof -
    obtain nd where nd: "pl_nodes s n = Some nd" using node_some(1) [OF ok n] by auto
    show ?thesis using node_facts [OF ok n nd] nd by (intro exI [of _ nd]) simp
  qed
  have sub: "set (pl_current s # B) \<subseteq> set ns" using ns by auto
  have "NULL \<notin> set (pl_current s # B)" using pool_okD(6) [OF ok] sub by blast
  then obtain r where r: "find_node s (pl_current s) sz = Some r"
    "r = NULL \<or> r \<in> set (pl_current s # B) \<and> (\<exists>nd. pl_nodes s r = Some nd \<and> mp_align_ptr (nd_last nd) + sz \<le> nd_end nd)"
    using find_node_spec [OF p, of sz] nodes sub by auto
  show ?thesis using r sub by (intro exI [of _ r]) auto
qed

lemma take_from_node:
  assumes ok: "pool_of g s ns ls ch" and n: "n \<in> set ns" "pl_nodes s n = Some nd" and sz: "0 < sz"
    and fit: "mp_align_ptr (nd_last nd) + sz \<le> nd_end nd"
  defines "p \<equiv> mp_align_ptr (nd_last nd)"
  shows "pool_of g (s\<lparr>pl_nodes := (pl_nodes s)(n \<mapsto> nd\<lparr>mp_quote := mp_quote nd + 1, nd_last := p + sz\<rparr>)\<rparr>) ns ls
    (ch(n := (p, sz) # ch n))"
proof -
  note f = node_facts [OF ok n]
  obtain k where k: "pl_heap s (base s n) = Some k" "PAGE_SIZE \<le> k" using node_some(2) [OF ok n(1)] by auto
  let ?s = "s\<lparr>pl_nodes := (pl_nodes s)(n \<mapsto> nd\<lparr>mp_quote := mp_quote nd + 1, nd_last := p + sz\<rparr>)\<rparr>"
  have b: "base ?s = base s" by (simp add: base_def fun_eq_iff)
  have p: "nd_last nd \<le> p" "p mod 16 = 0" using align_props(1,2) by (auto simp: p_def)
  have "chunks_ok (n + 32) (p + sz) ((p, sz) # ch n)"
    by (rule chunks_ok_push) (use f p sz in auto)
  then have "node_ok g ?s n ((p, sz) # ch n)"
    using f k p fit b by (simp add: node_ok_def p_def)
  then show ?thesis by (intro pool_upd [OF ok n, of _ ?s]) auto
qed

end
