(* ===== verification/MemPool_Ops.thy ===== *)
theory MemPool_Ops
  imports MemPool_Inv
begin

text \<open>
  The operations of the memory pool on a pool that satisfies the invariant: a new block, the large
  blocks and their headers, release, reset and destruction.
\<close>

section \<open>The failure counters do not matter\<close>

definition refail :: "(addr \<Rightarrow> int) \<Rightarrow> mp_pool \<Rightarrow> mp_pool" where
  "refail f s = s\<lparr>pl_nodes := (\<lambda>n. map_option (\<lambda>nd. nd\<lparr>mp_failed := f n\<rparr>) (pl_nodes s n))\<rparr>"

lemma refail_simps [simp]:
  "base (refail f s) = base s" "nnext (refail f s) = nnext s" "lnext (refail f s) = lnext s"
  "alloc_of (refail f s) = alloc_of s" "pl_heap (refail f s) = pl_heap s" "pl_head (refail f s) = pl_head s"
  "pl_addr (refail f s) = pl_addr s" "pl_large (refail f s) = pl_large s" "pl_larges (refail f s) = pl_larges s"
  "pl_current (refail f s) = pl_current s" "refail f (refail g s) = refail f s"
  "pl_nodes (refail f s) n = map_option (\<lambda>nd. nd\<lparr>mp_failed := f n\<rparr>) (pl_nodes s n)"
  by (auto simp: refail_def base_def nnext_def lnext_def alloc_of_def fun_eq_iff option.map_comp comp_def)

lemma node_ok_refail [simp]: "node_ok g (refail f s) n cs = node_ok g s n cs"
  unfolding node_ok_def refail_simps by (cases "pl_nodes s n") auto

lemma pool_ok_refail [simp]: "pool_of g (refail f s) ns ls ch = pool_of g s ns ls ch"
  by (simp add: pool_of_def larges_ok_def)

lemma refail_one:
  assumes "pl_nodes s n = Some nd"
  shows "upd_node n (\<lambda>nd. nd\<lparr>mp_failed := v nd\<rparr>) s =
    Some (refail (\<lambda>m. if m = n then v nd else mp_failed (the (pl_nodes s m))) s)"
proof -
  have "(pl_nodes s)(n \<mapsto> nd\<lparr>mp_failed := v nd\<rparr>) = (\<lambda>m. map_option
      (\<lambda>nd'. nd'\<lparr>mp_failed := if m = n then v nd else mp_failed (the (pl_nodes s m))\<rparr>) (pl_nodes s m))"
  proof
    fix m
    show "((pl_nodes s)(n \<mapsto> nd\<lparr>mp_failed := v nd\<rparr>)) m = map_option
      (\<lambda>nd'. nd'\<lparr>mp_failed := if m = n then v nd else mp_failed (the (pl_nodes s m))\<rparr>) (pl_nodes s m)"
      using assms by (cases "pl_nodes s m") auto
  qed
  then show ?thesis using assms by (simp add: upd_node_def refail_def)
qed

lemma block_walk_spec:
  assumes "path (nnext s) ns NULL" and "ns \<noteq> []" and "NULL \<notin> set ns" and "set ns \<subseteq> C" and "c \<in> C"
  shows "\<exists>c' f. block_walk s (hd ns) c = Some (last ns, c', refail f s) \<and> c' \<in> C"
  using assms
proof (induction ns arbitrary: s c)
  case Nil
  then show ?case by simp
next
  case (Cons n ns)
  have "nnext s n = Some (if ns = [] then NULL else hd ns)" using Cons.prems(1) by (simp add: path_Cons)
  then obtain nd where nd: "pl_nodes s n = Some nd" "mp_next nd = (if ns = [] then NULL else hd ns)"
    by (auto simp: nnext_def)
  show ?case
  proof (cases "ns = []")
    case True
    then have "block_walk s n c = Some (n, c, s)" using nd by (subst block_walk.simps) simp
    moreover have "refail (\<lambda>m. mp_failed (the (pl_nodes s m))) s = s"
    proof -
      have "(\<lambda>m. map_option (\<lambda>nd. nd\<lparr>mp_failed := mp_failed (the (pl_nodes s m))\<rparr>) (pl_nodes s m)) = pl_nodes s"
      proof
        fix m show "map_option (\<lambda>nd. nd\<lparr>mp_failed := mp_failed (the (pl_nodes s m))\<rparr>) (pl_nodes s m) = pl_nodes s m"
          by (cases "pl_nodes s m") auto
      qed
      then show ?thesis by (simp add: refail_def)
    qed
    ultimately show ?thesis using True Cons.prems(5) by (metis last_ConsL list.sel(1))
  next
    case False
    then have "hd ns \<in> set ns" by (rule hd_in_set)
    then have hd: "hd ns \<noteq> NULL" "hd ns \<in> set ns" using Cons.prems(3) by (auto intro: ccontr)
    let ?g = "\<lambda>m. if m = n then mp_failed nd + 1 else mp_failed (the (pl_nodes s m))"
    let ?c = "if mp_failed nd > 4 then mp_next nd else c"
    have w: "block_walk s n c = block_walk (refail ?g s) (hd ns) ?c"
      using nd False hd(1) refail_one [OF nd(1), of "\<lambda>nd. mp_failed nd + 1"] by (subst block_walk.simps) simp
    have "?c \<in> C" using nd(2) False hd(2) Cons.prems(4,5) by auto
    then obtain c' f where "block_walk (refail ?g s) (hd ns) ?c = Some (last ns, c', refail f (refail ?g s))" "c' \<in> C"
      using Cons.IH [of "refail ?g s" ?c] Cons.prems False by (auto simp: path_Cons)
    then show ?thesis using w False by auto
  qed
qed

section \<open>Blocks obtained and returned\<close>

lemma memalignD:
  assumes "memalign_ok pm" and "pm s n = Some a"
  shows "a \<noteq> NULL" and "a mod 16 = 0" and "pl_heap s a = None" and "pl_heap s b = Some l \<Longrightarrow> a + n \<le> b \<or> b + l \<le> a"
  using assms unfolding memalign_ok_def by blast+

lemma heap_ok_add:
  assumes "heap_ok (pl_heap s)" and "memalign_ok pm" and "pm s n = Some a" and "0 < n"
  shows "heap_ok ((pl_heap s)(a \<mapsto> n))"
  using assms(1,4) memalignD [OF assms(2,3)] unfolding heap_ok_def by auto

lemma heap_ok_del: "heap_ok h \<Longrightarrow> heap_ok (h(a := None))"
  unfolding heap_ok_def by auto

lemma pool_heap:
  assumes ok: "pool_of g s ns ls ch" and h: "heap_ok h"
    and b: "\<And>n. n \<in> set ns \<Longrightarrow> h (base s n) = pl_heap s (base s n)"
    and l: "\<And>l. l \<in> set ls \<Longrightarrow> alloc_of s l \<noteq> NULL \<Longrightarrow> h (alloc_of s l) \<noteq> None"
  shows "pool_of g (s\<lparr>pl_heap := h\<rparr>) ns ls ch"
proof -
  let ?s = "s\<lparr>pl_heap := h\<rparr>"
  have f: "base ?s = base s" "nnext ?s = nnext s" "lnext ?s = lnext s" "alloc_of ?s = alloc_of s"
    by (simp_all add: base_def nnext_def lnext_def alloc_of_def fun_eq_iff)
  have "\<forall>n\<in>set ns. node_ok g ?s n (ch n)" using pool_okD(10) [OF ok] b by (simp add: node_ok_def f)
  moreover have "larges_ok ?s ns ls ch" using pool_okD(11) [OF ok] l by (simp add: larges_ok_def f)
  ultimately show ?thesis using ok h unfolding pool_of_def f by simp
qed

lemma pool_heap_add:
  assumes ok: "pool_of g s ns ls ch" and "memalign_ok pm" and "pm s n = Some a" and "0 < n"
  shows "pool_of g (s\<lparr>pl_heap := (pl_heap s)(a \<mapsto> n)\<rparr>) ns ls ch"
    and "m \<in> set ns \<Longrightarrow> a \<noteq> base s m" and "l \<in> set ls \<Longrightarrow> a \<noteq> alloc_of s l"
proof -
  note md = memalignD [OF assms(2,3)]
  show 1: "m \<in> set ns \<Longrightarrow> a \<noteq> base s m" for m using node_some(2) [OF ok] md(3) by fastforce
  show 2: "l \<in> set ls \<Longrightarrow> a \<noteq> alloc_of s l" for l
    using larges_okD(6) [OF pool_okD(11) [OF ok]] md(1,3) by fastforce
  show "pool_of g (s\<lparr>pl_heap := (pl_heap s)(a \<mapsto> n)\<rparr>) ns ls ch"
    by (rule pool_heap [OF ok heap_ok_add [OF pool_okD(9) [OF ok] assms(2-4)]])
      (use 1 larges_okD(6) [OF pool_okD(11) [OF ok]] in auto)
qed

section \<open>A new block\<close>

text \<open>The reference counts the headers of the nodes \<open>ns\<close> and of a block that is new to them started with.\<close>

definition quotes :: "(addr \<Rightarrow> int) \<Rightarrow> addr list \<Rightarrow> (addr \<Rightarrow> mp_node) \<Rightarrow> addr \<Rightarrow> int" where
  "quotes g ns fresh n = (if n \<in> set ns then g n else mp_quote (fresh n))"

lemma pool_quotes: "pool_of g s ns ls ch \<Longrightarrow> pool_of (quotes g ns fresh) s ns ls ch"
  by (rule pool_of_cong) (simp_all add: quotes_def)

lemma append_block:
  assumes ok: "pool_of g s ns ls ch" and pm: "memalign_ok pm" "pm s PAGE_SIZE = Some b" and sz: "0 < sz" "sz \<le> PAGE_SIZE - 32"
    and new: "mp_next new = NULL" "mp_quote new = q + 1" "nd_end new = b + PAGE_SIZE" "nd_last new = b + 32 + sz"
    and l: "pl_nodes s (last ns) = Some nd"
  defines "s' \<equiv> s\<lparr>pl_heap := (pl_heap s)(b \<mapsto> PAGE_SIZE), pl_nodes := (pl_nodes s)(b \<mapsto> new, last ns \<mapsto> nd\<lparr>mp_next := b\<rparr>)\<rparr>"
  shows "b \<notin> set ns" and "pool_of (g(b := q)) s' (ns @ [b]) ls (ch(b := [(b + 32, sz)]))"
proof -
  let ?ch = "ch(b := [(b + 32, sz)])" and ?l = "last ns"
  note md = memalignD [OF pm]
  have add: "m \<in> set ns \<Longrightarrow> b \<noteq> base s m" "x \<in> set ls \<Longrightarrow> b \<noteq> alloc_of s x" for m x
    using pool_heap_add(2,3) [OF ok pm] by auto
  have ln: "?l \<in> set ns" using pool_okD(1) [OF ok] by simp
  show bn: "b \<notin> set ns"
  proof
    assume bn: "b \<in> set ns"
    obtain k where k: "pl_heap s (base s b) = Some k" "PAGE_SIZE \<le> k" using node_some(2) [OF ok bn] by blast
    have "base s b \<noteq> b" using add(1) [OF bn] by simp
    then have "base s b = pl_addr s" "b = pl_addr s + 24" using pool_okD(3) [OF ok] by (auto simp: base_def split: if_splits)
    then show False using md(4) [OF k(1)] k(2) by simp
  qed
  have hb: "pl_head s \<noteq> b" using pool_okD(12) [OF ok] bn by auto
  have bl: "b \<noteq> ?l" using ln bn by auto
  have b': "base s' = base s" "base s b = b" using hb by (simp_all add: s'_def base_def fun_eq_iff)
  have nx: "nnext s' = (nnext s)(b := nnext s' b, ?l \<mapsto> b)" "nnext s' b = Some NULL"
    using l new(1) bl by (auto simp: nnext_def s'_def fun_eq_iff)
  have lx: "lnext s' = lnext s" "alloc_of s' = alloc_of s" by (simp_all add: s'_def lnext_def alloc_of_def fun_eq_iff)
  have p: "path (nnext s') (ns @ [b]) NULL"
  proof -
    have "path (nnext s') ns b = path ((nnext s)(?l \<mapsto> b)) ns b"
      by (rule path_cong) (subst nx(1), use bn in auto)
    also have "\<dots> \<longleftrightarrow> Some b = Some b"
      by (rule path_redirect [OF pool_okD(4,1) [OF ok] pool_okD(5) [OF ok]])
    finally show ?thesis using nx(2) pool_okD(1) [OF ok] by (simp add: path_append)
  qed
  have chb: "ch b = []" using pool_okD(14) [OF ok bn] .
  have nodes: "node_ok (g(b := q)) s' n (?ch n)" if n: "n \<in> set (ns @ [b])" for n
  proof (cases "n = b")
    case True
    have "chunks_ok (b + 32) (b + 32 + sz) [(b + 32, sz)]"
      using sz md(2) by (simp add: chunks_ok_def mod_add_eq [symmetric])
    moreover have "pl_nodes s' b = Some new" "pl_heap s' b = Some PAGE_SIZE" using bl by (simp_all add: s'_def)
    ultimately show ?thesis using new sz unfolding True node_ok_def b' by simp
  next
    case False
    then have n: "n \<in> set ns" using n by simp
    have "pl_nodes s' n = (if n = ?l then Some (nd\<lparr>mp_next := b\<rparr>) else pl_nodes s n)"
      and "pl_heap s' (base s n) = pl_heap s (base s n)"
      using False add(1) [OF n] by (simp_all add: s'_def)
    then show ?thesis
      using pool_okD(10) [OF ok n] False l unfolding node_ok_def b'(1) by (auto split: if_splits)
  qed
  have lg: "\<forall>l\<in>set ls. \<exists>n\<in>set (ns @ [b]). (l, 24) \<in> set (?ch n)"
  proof
    fix x assume "x \<in> set ls"
    then obtain m where m: "m \<in> set ns" "(x, 24) \<in> set (ch m)" using larges_okD(5) [OF pool_okD(11) [OF ok]] by blast
    then show "\<exists>n\<in>set (ns @ [b]). (x, 24) \<in> set (?ch n)" using bn by (intro bexI [of _ m]) auto
  qed
  have al: "\<forall>x\<in>set ls. alloc_of s x \<noteq> NULL \<longrightarrow> pl_heap s' (alloc_of s x) \<noteq> None \<and> alloc_of s x \<notin> base s ` set (ns @ [b])"
    using larges_okD(6) [OF pool_okD(11) [OF ok]] add(2) b'(2) by (auto simp: s'_def)
  have f: "pl_large s' = pl_large s" "pl_head s' = pl_head s" "pl_addr s' = pl_addr s" "pl_current s' = pl_current s"
    by (simp_all add: s'_def)
  have lo: "larges_ok s' (ns @ [b]) ls ?ch"
    using larges_okD(1-4,7) [OF pool_okD(11) [OF ok]] lg al unfolding larges_ok_def lx b' f by blast
  have dm: "distinct (map (base s) (ns @ [b]))" using pool_okD(8) [OF ok] add(1) b'(2) by auto
  have ho: "heap_ok (pl_heap s')" using heap_ok_add [OF pool_okD(9) [OF ok] pm] by (simp add: s'_def)
  have nd': "\<forall>n\<in>set (ns @ [b]). node_ok (g(b := q)) s' n (?ch n)" using nodes by blast
  have out: "\<forall>n. n \<notin> set (ns @ [b]) \<longrightarrow> ?ch n = []" using pool_okD(14) [OF ok] by simp
  have d: "distinct (ns @ [b])" "NULL \<notin> set (ns @ [b])" "pl_current s \<in> set (ns @ [b])" "hd (ns @ [b]) = pl_head s"
    using pool_okD(1,2,5,6,7) [OF ok] bn md(1) by auto
  show "pool_of (g(b := q)) s' (ns @ [b]) ls ?ch"
    using p nd' lo dm ho out d pool_okD(3) [OF ok] unfolding pool_of_def b'(1) f by simp
qed

section \<open>Allocation\<close>

lemma upd_node_refail:
  assumes "pl_nodes s n = Some nd" and "\<And>nd v. g (nd\<lparr>mp_failed := v\<rparr>) = (g nd)\<lparr>mp_failed := v\<rparr>"
  shows "upd_node n g (refail f s) = Some (refail f (s\<lparr>pl_nodes := (pl_nodes s)(n \<mapsto> g nd)\<rparr>))"
proof -
  have "(\<lambda>m. map_option (\<lambda>nd. nd\<lparr>mp_failed := f m\<rparr>) (pl_nodes s m))(n \<mapsto> g (nd\<lparr>mp_failed := f n\<rparr>)) =
      (\<lambda>m. map_option (\<lambda>nd. nd\<lparr>mp_failed := f m\<rparr>) (((pl_nodes s)(n \<mapsto> g nd)) m))"
    using assms(2) by (auto simp: fun_eq_iff)
  then show ?thesis using assms(1) by (simp add: upd_node_def refail_def)
qed

lemma small_steps:
  assumes "pool_of g s ns ls ch" and "memalign_ok pm" and "0 < sz" and "sz \<le> PAGE_SIZE - 32"
  shows "mp_malloc_small pm fresh s sz = Some (NULL, s) \<and> pm s PAGE_SIZE = None \<or>
    (\<exists>r s' ns' n. mp_malloc_small pm fresh s sz = Some (r, s') \<and> pool_of (quotes g ns fresh) s' ns' ls (ch(n := (r, sz) # ch n)) \<and>
       alloc_of s' = alloc_of s \<and> pl_larges s' = pl_larges s \<and> (\<forall>a. pl_heap s a \<noteq> None \<longrightarrow> pl_heap s' a = pl_heap s a) \<and>
       (\<forall>m\<in>set ns'. base s' m \<in> base s ` set ns \<or> pl_heap s (base s' m) = None))"
proof -
  note ok = assms(1)
  obtain c where c: "find_node s (pl_current s) sz = Some c" "c = NULL \<or> c \<in> set ns \<and>
      (\<exists>nd. pl_nodes s c = Some nd \<and> mp_align_ptr (nd_last nd) + sz \<le> nd_end nd)"
    using find_node_current [OF ok] by blast
  show ?thesis
  proof (cases "c = NULL")
    case False
    then obtain nd where cn: "c \<in> set ns" and nd: "pl_nodes s c = Some nd" and fit: "mp_align_ptr (nd_last nd) + sz \<le> nd_end nd"
      using c(2) by blast
    let ?p = "mp_align_ptr (nd_last nd)"
    let ?s = "s\<lparr>pl_nodes := (pl_nodes s)(c \<mapsto> nd\<lparr>mp_quote := mp_quote nd + 1, nd_last := ?p + sz\<rparr>)\<rparr>"
    have "mp_malloc_small pm fresh s sz = Some (?p, ?s)"
      using c(1) False nd by (simp add: mp_malloc_small_def upd_node_def Let_def)
    moreover have "pool_of g ?s ns ls (ch(c := (?p, sz) # ch c))" by (rule take_from_node [OF ok cn nd assms(3) fit])
    note pool_quotes [OF this, of fresh]
    moreover have "alloc_of ?s = alloc_of s" "base ?s = base s" by (simp_all add: alloc_of_def base_def fun_eq_iff)
    ultimately show ?thesis by (intro disjI2 exI conjI) (assumption | simp)+
  next
    case True
    then have e: "mp_malloc_small pm fresh s sz = mp_malloc_block pm fresh s sz" using c(1) by (simp add: mp_malloc_small_def)
    show ?thesis
    proof (cases "pm s PAGE_SIZE")
      case None
      then show ?thesis using e by (simp add: mp_malloc_block_def)
    next
      case (Some b)
      let ?new = "(fresh b)\<lparr>nd_end := b + PAGE_SIZE, mp_next := NULL, nd_last := b + 32 + sz, mp_quote := mp_quote (fresh b) + 1\<rparr>"
      let ?s1 = "s\<lparr>pl_heap := (pl_heap s)(b \<mapsto> PAGE_SIZE), pl_nodes := (pl_nodes s)(b \<mapsto> ?new)\<rparr>"
      note md = memalignD [OF assms(2) Some]
      have al: "mp_align_ptr (b + 32) = b + 32" using md(2) by (intro align_props(3)) (simp add: mod_add_eq [symmetric])
      obtain nd where nd: "pl_nodes s (last ns) = Some nd" using node_some(1) [OF ok] pool_okD(1) [OF ok] by (meson last_in_set)
      let ?s2 = "s\<lparr>pl_heap := (pl_heap s)(b \<mapsto> PAGE_SIZE), pl_nodes := (pl_nodes s)(b \<mapsto> ?new, last ns \<mapsto> nd\<lparr>mp_next := b\<rparr>)\<rparr>"
      have bn: "b \<notin> set ns" and ok2: "pool_of (g(b := mp_quote (fresh b))) ?s2 (ns @ [b]) ls (ch(b := [(b + 32, sz)]))"
        using append_block [OF ok assms(2) Some assms(3,4) _ _ _ _ nd, of ?new "mp_quote (fresh b)"] by simp_all
      obtain A B where ns: "ns = A @ pl_current s # B" using pool_okD(7) [OF ok] by (meson split_list)
      have "path (nnext s) (pl_current s # B) NULL"
        using pool_okD(4) [OF ok] ns by (cases "A = []") (simp_all add: path_append)
      then have p: "path (nnext ?s1) (pl_current s # B) NULL"
        by (rule path_cong [THEN iffD1, rotated]) (use bn ns in \<open>auto simp: nnext_def\<close>)
      have lst: "last (pl_current s # B) = last ns" unfolding ns by simp
      have "NULL \<notin> set (pl_current s # B)" "set (pl_current s # B) \<subseteq> set ns" using pool_okD(6) [OF ok] ns by auto
      then obtain c' f where w: "block_walk ?s1 (pl_current s) (pl_current s) = Some (last ns, c', refail f ?s1)" "c' \<in> set ns"
        using block_walk_spec [OF p, of "set ns" "pl_current s"] pool_okD(7) [OF ok] unfolding lst by auto
      have "last ns \<noteq> b" using bn pool_okD(1) [OF ok] by (metis last_in_set)
      then have u: "upd_node (last ns) (\<lambda>nd. nd\<lparr>mp_next := b\<rparr>) (refail f ?s1) = Some (refail f ?s2)"
        using nd by (subst upd_node_refail [of ?s1 _ nd]) simp_all
      let ?s' = "(refail f ?s2)\<lparr>pl_current := c'\<rparr>"
      have r: "mp_malloc_small pm fresh s sz = Some (b + 32, ?s')"
        unfolding e using Some w(1) u by (simp add: mp_malloc_block_def al Let_def)
      have "pool_of (quotes g ns fresh) ?s2 (ns @ [b]) ls (ch(b := [(b + 32, sz)]))"
        by (rule pool_of_cong [OF _ ok2]) (use bn in \<open>auto simp: quotes_def\<close>)
      then have "pool_of (quotes g ns fresh) ?s' (ns @ [b]) ls (ch(b := [(b + 32, sz)]))"
        by (intro pool_current) (use w(2) in simp_all)
      moreover have "ch b = []" by (rule pool_okD(14) [OF ok bn])
      ultimately have "pool_of (quotes g ns fresh) ?s' (ns @ [b]) ls (ch(b := (b + 32, sz) # ch b))" by simp
      moreover have "alloc_of ?s' = alloc_of s" by (simp add: alloc_of_def fun_eq_iff)
      moreover have "\<forall>m\<in>set (ns @ [b]). base ?s' m \<in> base s ` set ns \<or> pl_heap s (base ?s' m) = None"
      proof -
        have "base ?s' = base s" by (simp add: base_def fun_eq_iff)
        moreover have "base s b = b" using bn pool_okD(12) [OF ok] by (auto simp: base_def)
        ultimately show ?thesis using md(3) by simp
      qed
      moreover have "\<forall>a. pl_heap s a \<noteq> None \<longrightarrow> pl_heap ?s' a = pl_heap s a" using md(3) by auto
      ultimately show ?thesis using r by (intro disjI2 exI conjI) (assumption | simp)+
    qed
  qed
qed

text \<open>A chunk added in front is apart from all the others, and is live.\<close>

lemma new_chunk:
  assumes ok: "pool_of g s ns ls (ch(n := (r, sz) # ch n))"
  shows "(q, l) \<in> set (ch m) \<Longrightarrow> r + sz \<le> q \<or> q + l \<le> r" and "r mod 16 = 0" and "r \<noteq> NULL" and "0 < sz"
proof -
  let ?ch = "ch(n := (r, sz) # ch n)"
  have c: "(r, sz) \<in> set (?ch n)" by simp
  note n = pool_okD(13) [OF ok c]
  show "r mod 16 = 0" and "r \<noteq> NULL" and "0 < sz" using chunk_in_block [OF ok n c] by simp_all
  obtain nd where nd: "pl_nodes s n = Some nd" using node_some(1) [OF ok n] by auto
  have a: "apart ((r, sz) # ch n)" using node_facts(5) [OF ok n nd] by (simp add: chunks_ok_def)
  assume q: "(q, l) \<in> set (ch m)"
  show "r + sz \<le> q \<or> q + l \<le> r"
  proof (cases "m = n")
    case True
    then show ?thesis using a q by auto
  next
    case False
    then have "(q, l) \<in> set (?ch m)" using q by simp
    then show ?thesis using chunk_chunk_apart [OF ok c] False by blast
  qed
qed

lemma pushed_chunk: "(\<exists>m. c \<in> set ((ch(n := x # ch n)) m)) \<longleftrightarrow> c = x \<or> (\<exists>m. c \<in> set (ch m))"
  by (auto split: if_splits)

lemma new_chunk_live:
  assumes ok: "pool_of g s ns ls ch" and ok': "pool_of g' s' ns' ls (ch(n := (r, sz) # ch n))" and al: "alloc_of s' = alloc_of s"
    and hp: "\<And>a. pl_heap s a \<noteq> None \<Longrightarrow> pl_heap s' a = pl_heap s a"
  shows "r \<notin> set ls" and "live s' ls (ch(n := (r, sz) # ch n)) = insert (r, sz) (live s ls ch)" and "(r, sz) \<notin> live s ls ch"
proof -
  let ?ch = "ch(n := (r, sz) # ch n)"
  note nw = new_chunk [OF ok']
  show rl: "r \<notin> set ls"
  proof
    assume "r \<in> set ls"
    then obtain m where "(r, 24) \<in> set (ch m)" using larges_okD(5) [OF pool_okD(11) [OF ok]] by blast
    then show False using nw(1) [of r 24 m] nw(4) by simp
  qed
  have lgs: "pl_heap s' (alloc_of s l) = pl_heap s (alloc_of s l)" if "l \<in> set ls" "alloc_of s l \<noteq> NULL" for l
    using larges_okD(6) [OF pool_okD(11) [OF ok] that] hp by blast
  have lg: "(\<exists>l\<in>set ls. p = alloc_of s l \<and> p \<noteq> NULL \<and> pl_heap s' p = Some k) \<longleftrightarrow>
    (\<exists>l\<in>set ls. p = alloc_of s l \<and> p \<noteq> NULL \<and> pl_heap s p = Some k)" for p k
    using lgs by auto
  show "live s' ls ?ch = insert (r, sz) (live s ls ch)"
    unfolding live_def al pushed_chunk lg using rl by auto
  show "(r, sz) \<notin> live s ls ch"
  proof
    assume "(r, sz) \<in> live s ls ch"
    moreover have "(r, sz) \<notin> set (ch m)" for m using nw(1) [of r sz m] nw(4) by auto
    ultimately obtain l where l: "l \<in> set ls" "alloc_of s l = r" "r \<noteq> NULL" "pl_heap s r = Some sz"
      unfolding live_def by auto
    have "(r, sz) \<in> set (?ch n)" by simp
    then show False using large_chunk_apart [OF ok' l(1), of sz r sz n] l hp [of r] nw(4) by (simp add: al)
  qed
qed

section \<open>Large blocks\<close>

lemma large_some:
  assumes "pool_of g s ns ls ch" and "l \<in> set ls"
  shows "\<exists>lg. pl_larges s l = Some lg \<and> alloc_of s l = lg_alloc lg"
proof -
  have "path f ys z \<Longrightarrow> y \<in> set ys \<Longrightarrow> f y \<noteq> None" for f :: "addr \<Rightarrow> addr option" and ys z y
    by (induction ys) (auto simp: path_Cons)
  then have "lnext s l \<noteq> None" using larges_okD(2) [OF pool_okD(11) [OF assms(1)]] assms(2) by blast
  then show ?thesis by (auto simp: lnext_def alloc_of_def)
qed

lemma find_released_spec:
  assumes "path (lnext s) ls NULL" and "NULL \<notin> set ls"
  shows "\<exists>r. find_released s (if ls = [] then NULL else hd ls) n = Some r \<and> (r = NULL \<or> r \<in> set ls \<and> alloc_of s r = NULL)"
  using assms
proof (induction ls arbitrary: n)
  case Nil
  then show ?case by (simp add: find_released.simps)
next
  case (Cons l ls)
  have "lnext s l = Some (if ls = [] then NULL else hd ls)" using Cons.prems(1) by (simp add: path_Cons)
  then obtain lg where lg: "pl_larges s l = Some lg" "lg_next lg = (if ls = [] then NULL else hd ls)"
    by (auto simp: lnext_def)
  obtain r where r: "find_released s (lg_next lg) (n + 1) = Some r" "r = NULL \<or> r \<in> set ls \<and> alloc_of s r = NULL"
    using Cons.IH [of "n + 1"] Cons.prems unfolding lg(2) by (auto simp: path_Cons)
  have "l \<noteq> NULL" using Cons.prems(2) by auto
  then have "find_released s l n = (if lg_alloc lg = NULL then Some l else if n > 3 then Some NULL else Some r)"
    using lg(1) r(1) by (subst find_released.simps) simp
  then show ?case using r(2) lg(1) by (auto simp: alloc_of_def)
qed

lemma pool_set_large:
  assumes ok: "pool_of g s ns ls ch" and l: "l \<in> set ls" "pl_larges s l = Some lg" "lg_next lg' = lg_next lg"
    and new: "lg_alloc lg' \<noteq> NULL \<Longrightarrow> pl_heap s (lg_alloc lg') \<noteq> None \<and> lg_alloc lg' \<notin> base s ` set ns \<and>
      (\<forall>x\<in>set ls. x \<noteq> l \<longrightarrow> alloc_of s x \<noteq> lg_alloc lg')"
  shows "pool_of g (s\<lparr>pl_larges := (pl_larges s)(l \<mapsto> lg')\<rparr>) ns ls ch"
    and "alloc_of (s\<lparr>pl_larges := (pl_larges s)(l \<mapsto> lg')\<rparr>) = (alloc_of s)(l := lg_alloc lg')"
proof -
  let ?s = "s\<lparr>pl_larges := (pl_larges s)(l \<mapsto> lg')\<rparr>"
  have f: "base ?s = base s" "nnext ?s = nnext s" "lnext ?s = lnext s"
    using l(2,3) by (auto simp: base_def nnext_def lnext_def fun_eq_iff)
  show al: "alloc_of ?s = (alloc_of s)(l := lg_alloc lg')" by (auto simp: alloc_of_def fun_eq_iff)
  note lo = larges_okD [OF pool_okD(11) [OF ok]]
  have 1: "\<forall>x\<in>set ls. alloc_of ?s x \<noteq> NULL \<longrightarrow> pl_heap s (alloc_of ?s x) \<noteq> None \<and> alloc_of ?s x \<notin> base s ` set ns"
    unfolding al using lo(6) new by simp
  have 2: "x = y" if "x \<in> set ls" "y \<in> set ls" "alloc_of ?s x = alloc_of ?s y" "alloc_of ?s x \<noteq> NULL" for x y
  proof (cases "x = l \<or> y = l")
    case True
    then show ?thesis using that new unfolding al by (cases "x = l"; cases "y = l") auto
  next
    case False
    then show ?thesis using that lo(7) [OF that(1,2)] unfolding al by simp
  qed
  have "larges_ok ?s ns ls ch"
    using lo(1-5) 1 2 unfolding larges_ok_def f by simp
  moreover have "\<forall>n\<in>set ns. node_ok g ?s n (ch n)" using pool_okD(10) [OF ok] unfolding node_ok_def f by simp
  ultimately show "pool_of g ?s ns ls ch" using ok unfolding pool_of_def f by simp
qed

lemma pool_add_large:
  fixes z :: int
  assumes ok: "pool_of g s ns ls ch" and l: "(l, 24) \<in> set (ch n)" "l \<notin> set ls"
    and big: "pl_heap s big \<noteq> None" "big \<notin> base s ` set ns" "\<forall>x\<in>set ls. alloc_of s x \<noteq> big"
  defines "s' \<equiv> s\<lparr>pl_larges := (pl_larges s)(l \<mapsto> \<lparr>lg_next = pl_large s, lg_size = z, lg_alloc = big\<rparr>), pl_large := l\<rparr>"
  shows "pool_of g s' ns (l # ls) ch" and "alloc_of s' = (alloc_of s)(l := big)"
proof -
  have f: "base s' = base s" "nnext s' = nnext s" "pl_heap s' = pl_heap s" "pl_large s' = l" "pl_head s' = pl_head s"
    "pl_addr s' = pl_addr s" "pl_current s' = pl_current s" "pl_nodes s' = pl_nodes s"
    by (simp_all add: s'_def base_def nnext_def fun_eq_iff)
  show al: "alloc_of s' = (alloc_of s)(l := big)" by (auto simp: s'_def alloc_of_def fun_eq_iff)
  have ln: "lnext s' = (lnext s)(l \<mapsto> pl_large s)" by (auto simp: s'_def lnext_def fun_eq_iff)
  note lo = larges_okD [OF pool_okD(11) [OF ok]]
  note n = pool_okD(13) [OF ok l(1)]
  have "path (lnext s') ls NULL = path (lnext s) ls NULL"
    unfolding ln by (rule path_cong) (use l(2) in auto)
  then have p: "path (lnext s') (l # ls) NULL" using lo(1,2) by (simp add: path_Cons ln)
  have l0: "l \<noteq> NULL" using chunk_in_block(1) [OF ok n l(1)] by simp
  have "larges_ok s' ns (l # ls) ch"
    using p lo(3-7) l big n l0 unfolding larges_ok_def f al by auto
  moreover have "\<forall>n\<in>set ns. node_ok g s' n (ch n)" using pool_okD(10) [OF ok] unfolding node_ok_def f by blast
  ultimately show "pool_of g s' ns (l # ls) ch" using ok unfolding pool_of_def f by blast
qed

lemma live_large:
  assumes "l \<in> set ls"
  shows "live s ls ch = {(p, k). (\<exists>n. (p, k) \<in> set (ch n)) \<and> p \<notin> set ls} \<union>
    {(p, k). \<exists>x\<in>set ls - {l}. p = alloc_of s x \<and> p \<noteq> NULL \<and> pl_heap s p = Some k} \<union>
    {(p, k). p = alloc_of s l \<and> p \<noteq> NULL \<and> pl_heap s p = Some k}"
  using assms unfolding live_def by auto

lemma malloc_large_steps:
  assumes ok: "pool_of g s ns ls ch" and pm: "memalign_ok pm" and sz: "0 < sz"
  shows "\<exists>r s' ns' ls' ch'. mp_malloc_large pm fresh s sz = Some (r, s') \<and> pool_of (quotes g ns fresh) s' ns' ls' ch' \<and>
    (if r = NULL then s' = s \<and> ns' = ns \<and> ls' = ls \<and> ch' = ch \<and> (sz = 0 \<or> (\<exists>t k. k \<in> {sz, PAGE_SIZE} \<and> pm t k = None))
     else live s' ls' ch' = insert (r, sz) (live s ls ch) \<and> (r, sz) \<notin> live s ls ch \<and> r mod 16 = 0)"
proof (cases "pm s sz")
  case None
  then show ?thesis using pool_quotes [OF ok] by (simp add: mp_malloc_large_def) blast
next
  case (Some big)
  note md = memalignD [OF pm Some]
  let ?s1 = "s\<lparr>pl_heap := (pl_heap s)(big \<mapsto> sz)\<rparr>"
  note ok1 = pool_heap_add(1) [OF ok pm Some sz] and bigb = pool_heap_add(2) [OF ok pm Some sz]
    and bigl = pool_heap_add(3) [OF ok pm Some sz]
  have f1: "alloc_of ?s1 = alloc_of s" "base ?s1 = base s" by (simp_all add: alloc_of_def base_def fun_eq_iff)
  have notbig: "(big, sz) \<notin> live s ls ch" if "pool_of g ?s1 ns ls ch"
  proof
    assume "(big, sz) \<in> live s ls ch"
    then obtain n where n: "(big, sz) \<in> set (ch n)" using bigl unfolding live_def by auto
    note nn = pool_okD(13) [OF ok n]
    obtain k where k: "pl_heap s (base s n) = Some k" "PAGE_SIZE \<le> k" using node_some(2) [OF ok nn] by auto
    show False using chunk_in_block(1-3) [OF ok nn n] md(4) [OF k(1)] k(2) by linarith
  qed
  have live1: "live ?s1 ls ch = live s ls ch"
  proof -
    have "(\<exists>l\<in>set ls. p = alloc_of s l \<and> p \<noteq> NULL \<and> pl_heap ?s1 p = Some k) \<longleftrightarrow>
      (\<exists>l\<in>set ls. p = alloc_of s l \<and> p \<noteq> NULL \<and> pl_heap s p = Some k)" for p k
      using bigl by (intro bex_cong refl) auto
    then show ?thesis unfolding live_def f1 by simp
  qed
  obtain rl where rl: "find_released ?s1 (pl_large ?s1) 0 = Some rl" "rl = NULL \<or> rl \<in> set ls \<and> alloc_of s rl = NULL"
    using find_released_spec [OF larges_okD(2,4) [OF pool_okD(11) [OF ok1]], of 0] larges_okD(1) [OF pool_okD(11) [OF ok1]]
    by (auto simp: f1)
  show ?thesis
  proof (cases "rl = NULL")
    case False
    then have l: "rl \<in> set ls" "alloc_of s rl = NULL" using rl(2) by auto
    obtain lg where lg: "pl_larges ?s1 rl = Some lg" using large_some [OF ok1 l(1)] by blast
    let ?lg = "lg\<lparr>lg_size := s32 sz, lg_alloc := big\<rparr>"
    let ?s2 = "?s1\<lparr>pl_larges := (pl_larges ?s1)(rl \<mapsto> ?lg)\<rparr>"
    have ok2: "pool_of g ?s2 ns ls ch" and al2: "alloc_of ?s2 = (alloc_of ?s1)(rl := big)"
      using pool_set_large [OF ok1 l(1) lg, of ?lg] bigb bigl unfolding f1 by auto
    have r: "mp_malloc_large pm fresh s sz = Some (big, ?s2)"
      using Some rl(1) False lg by (simp add: mp_malloc_large_def Let_def)
    have "live ?s2 ls ch = insert (big, sz) (live ?s1 ls ch)"
      unfolding live_large [OF l(1)] al2 f1 using l(2) md(1) bigl by auto
    then have "live ?s2 ls ch = insert (big, sz) (live s ls ch)" unfolding live1 .
    then show ?thesis using r pool_quotes [OF ok2] notbig [OF ok1] md(1,2)
      by (intro exI [of _ big] exI [of _ ?s2] exI [of _ ns] exI [of _ ls] exI [of _ ch]) simp
  next
    case True
    have small: "mp_malloc_small pm fresh ?s1 24 = Some (NULL, ?s1) \<and> pm ?s1 PAGE_SIZE = None \<or>
      (\<exists>r s' ns' n. mp_malloc_small pm fresh ?s1 24 = Some (r, s') \<and> pool_of (quotes g ns fresh) s' ns' ls (ch(n := (r, 24) # ch n)) \<and>
       alloc_of s' = alloc_of ?s1 \<and> pl_larges s' = pl_larges ?s1 \<and> (\<forall>a. pl_heap ?s1 a \<noteq> None \<longrightarrow> pl_heap s' a = pl_heap ?s1 a) \<and>
       (\<forall>m\<in>set ns'. base s' m \<in> base ?s1 ` set ns \<or> pl_heap ?s1 (base s' m) = None))"
      by (rule small_steps [OF ok1 pm]) simp_all
    then show ?thesis
    proof (elim disjE exE conjE)
      assume n: "mp_malloc_small pm fresh ?s1 24 = Some (NULL, ?s1)" "pm ?s1 PAGE_SIZE = None"
      have "(pl_heap s)(big := None) = pl_heap s" using md(3) by auto
      then have "sys_free big ?s1 = Some s" using md(1) by (simp add: sys_free_def)
      then have "mp_malloc_large pm fresh s sz = Some (NULL, s)"
        using Some rl(1) True n(1) by (simp add: mp_malloc_large_def Let_def)
      then show ?thesis using pool_quotes [OF ok] n(2)
        by (intro exI [of _ NULL] exI [of _ s] exI [of _ ns] exI [of _ ls] exI [of _ ch]) auto
    next
      fix r s2 ns' n
      assume e: "mp_malloc_small pm fresh ?s1 24 = Some (r, s2)"
        and ok2: "pool_of (quotes g ns fresh) s2 ns' ls (ch(n := (r, 24) # ch n))" and al: "alloc_of s2 = alloc_of ?s1"
        and hp: "\<forall>a. pl_heap ?s1 a \<noteq> None \<longrightarrow> pl_heap s2 a = pl_heap ?s1 a"
        and bs: "\<forall>m\<in>set ns'. base s2 m \<in> base ?s1 ` set ns \<or> pl_heap ?s1 (base s2 m) = None"
      let ?ch = "ch(n := (r, 24) # ch n)"
      have r0: "r \<noteq> NULL" by (rule new_chunk(3) [OF ok2])
      have nl: "r \<notin> set ls" "live s2 ls ?ch = insert (r, 24) (live ?s1 ls ch)" "(r, 24) \<notin> live ?s1 ls ch"
        using new_chunk_live [OF ok1 ok2 al] hp by blast+
      let ?s3 = "s2\<lparr>pl_larges := (pl_larges s2)(r \<mapsto> \<lparr>lg_next = pl_large s2, lg_size = s32 sz, lg_alloc = big\<rparr>), pl_large := r\<rparr>"
      have hb: "pl_heap s2 big = Some sz" using hp by simp
      have bb: "big \<notin> base s2 ` set ns'"
        using bs bigb unfolding f1 by fastforce
      have ok3: "pool_of (quotes g ns fresh) ?s3 ns' (r # ls) ?ch" and al3: "alloc_of ?s3 = (alloc_of s2)(r := big)"
        using pool_add_large [OF ok2 _ nl(1), of n big "s32 sz"] hb bb bigl unfolding al f1 by auto
      have res: "mp_malloc_large pm fresh s sz = Some (big, ?s3)"
        using Some rl(1) True e r0 by (simp add: mp_malloc_large_def Let_def)
      have hd: "pl_heap s2 (alloc_of s x) = pl_heap s (alloc_of s x)" if "x \<in> set ls" "alloc_of s x \<noteq> NULL" for x
        using hp larges_okD(6) [OF pool_okD(11) [OF ok] that] bigl [OF that(1)] by auto
      have "live ?s3 (r # ls) ?ch = insert (big, sz) (live s ls ch)"
      proof -
        have 1: "(\<exists>m. (p, k) \<in> set (?ch m)) \<and> p \<notin> set (r # ls) \<longleftrightarrow> (\<exists>m. (p, k) \<in> set (ch m)) \<and> p \<notin> set ls" for p k
        proof -
          have "(r, k) \<notin> set (ch m)" for m
          proof
            assume c: "(r, k) \<in> set (ch m)"
            show False
              using new_chunk(1) [OF ok2 c] chunk_in_block(3) [OF ok pool_okD(13) [OF ok c] c] by simp
          qed
          then show ?thesis unfolding pushed_chunk by auto
        qed
        have 2: "(\<exists>l\<in>set (r # ls). p = ((alloc_of s)(r := big)) l \<and> p \<noteq> NULL \<and> pl_heap s2 p = Some k) \<longleftrightarrow>
          (p, k) = (big, sz) \<or> (\<exists>l\<in>set ls. p = alloc_of s l \<and> p \<noteq> NULL \<and> pl_heap s p = Some k)" for p k
          using hb hd md(1) nl(1) by auto
        have f3: "pl_heap ?s3 = pl_heap s2" by simp
        show ?thesis unfolding live_def al3 al f1 f3 1 2 by auto
      qed
      then show ?thesis using res ok3 notbig [OF ok1] md(1,2)
        by (intro exI [of _ big] exI [of _ ?s3] exI [of _ ns'] exI [of _ "r # ls"] exI [of _ ?ch]) simp
    qed
  qed
qed

theorem mp_malloc_spec:
  assumes ok: "pool_of g s ns ls ch" and pm: "memalign_ok pm"
  shows "\<exists>r s' ns' ls' ch'. mp_malloc pm fresh s sz = Some (r, s') \<and> pool_of (quotes g ns fresh) s' ns' ls' ch' \<and>
    (if r = NULL then s' = s \<and> ns' = ns \<and> ls' = ls \<and> ch' = ch \<and> (sz = 0 \<or> (\<exists>t k. k \<in> {sz, PAGE_SIZE} \<and> pm t k = None))
     else live s' ls' ch' = insert (r, sz) (live s ls ch) \<and> (r, sz) \<notin> live s ls ch \<and> r mod 16 = 0)"
proof (cases "sz = 0 \<or> sz > PAGE_SIZE - 32")
  case True
  show ?thesis
  proof (cases "sz = 0")
    case True
    then show ?thesis using pool_quotes [OF ok] by (simp add: mp_malloc_def)
  next
    case False
    then have "mp_malloc pm fresh s sz = mp_malloc_large pm fresh s sz" "0 < sz" using True by (simp_all add: mp_malloc_def)
    then show ?thesis using malloc_large_steps [OF assms, of sz] by (simp only:)
  qed
next
  case False
  then have sz: "0 < sz" "sz \<le> PAGE_SIZE - 32" by simp_all
  then have e: "mp_malloc pm fresh s sz = mp_malloc_small pm fresh s sz" by (simp add: mp_malloc_def)
  from small_steps [OF assms sz, of fresh] show ?thesis
  proof (elim disjE exE conjE)
    assume "mp_malloc_small pm fresh s sz = Some (NULL, s)" "pm s PAGE_SIZE = None"
    then show ?thesis using e pool_quotes [OF ok] by (intro exI [of _ NULL] exI [of _ s] exI [of _ ns] exI [of _ ls] exI [of _ ch]) auto
  next
    fix r s' ns' n
    assume r: "mp_malloc_small pm fresh s sz = Some (r, s')" and ok': "pool_of (quotes g ns fresh) s' ns' ls (ch(n := (r, sz) # ch n))"
      and al: "alloc_of s' = alloc_of s" and hp: "\<forall>a. pl_heap s a \<noteq> None \<longrightarrow> pl_heap s' a = pl_heap s a"
    note nl = new_chunk_live(2,3) [OF ok ok' al hp [rule_format]]
    show ?thesis using r e ok' nl new_chunk(2,3) [OF ok']
      by (intro exI [of _ r] exI [of _ s'] exI [of _ ns'] exI [of _ ls] exI [of _ "ch(n := (r, sz) # ch n)"]) simp
  qed
qed

end
