(* ===== verification/MemPool_Free.thy ===== *)
theory MemPool_Free
  imports MemPool_Ops
begin

text \<open>
  Release, reset, creation and destruction of the memory pool, and the properties of the pool.
\<close>

section \<open>Release\<close>







section \<open>Reset and destruction\<close>

lemma free_larges_spec:
  assumes "path (lnext s) ls NULL" and "NULL \<notin> set ls"
    and "\<And>l. l \<in> set ls \<Longrightarrow> alloc_of s l \<noteq> NULL \<Longrightarrow> pl_heap s (alloc_of s l) \<noteq> None"
    and "\<And>l l'. l \<in> set ls \<Longrightarrow> l' \<in> set ls \<Longrightarrow> alloc_of s l = alloc_of s l' \<Longrightarrow> alloc_of s l \<noteq> NULL \<Longrightarrow> l = l'"
    and "distinct ls"
  shows "free_larges (if ls = [] then NULL else hd ls) s =
    Some (s\<lparr>pl_heap := (pl_heap s) |` (- (alloc_of s ` set ls - {NULL}))\<rparr>)"
  using assms
proof (induction ls arbitrary: s)
  case Nil
  then show ?case by (simp add: free_larges.simps restrict_map_def)
next
  case (Cons l ls)
  have "lnext s l = Some (if ls = [] then NULL else hd ls)" using Cons.prems(1) by (simp add: path_Cons)
  then obtain lg where lg: "pl_larges s l = Some lg" "lg_next lg = (if ls = [] then NULL else hd ls)"
    by (auto simp: lnext_def)
  have l: "l \<noteq> NULL" using Cons.prems(2) by auto
  have a: "alloc_of s l = lg_alloc lg" using lg(1) by (simp add: alloc_of_def)
  let ?h = "if lg_alloc lg \<noteq> NULL then (pl_heap s)(lg_alloc lg := None) else pl_heap s"
  let ?s = "s\<lparr>pl_heap := ?h\<rparr>"
  have "(if lg_alloc lg \<noteq> NULL then sys_free (lg_alloc lg) s else Some s) = Some ?s"
    using Cons.prems(3) [of l] a by (cases "lg_alloc lg = NULL") (auto simp: sys_free_def)
  then have w: "free_larges l s = free_larges (if ls = [] then NULL else hd ls) ?s"
    using l lg by (subst free_larges.simps) simp
  have f: "lnext ?s = lnext s" "alloc_of ?s = alloc_of s" by (simp_all add: lnext_def alloc_of_def fun_eq_iff)
  have ne: "alloc_of s x \<noteq> lg_alloc lg" if "x \<in> set ls" "alloc_of s x \<noteq> NULL" for x
    using Cons.prems(4) [of x l] Cons.prems(5) that a by auto
  have "free_larges (if ls = [] then NULL else hd ls) ?s =
      Some (?s\<lparr>pl_heap := (pl_heap ?s) |` (- (alloc_of ?s ` set ls - {NULL}))\<rparr>)"
  proof (rule Cons.IH)
    show "path (lnext ?s) ls NULL" using Cons.prems(1) unfolding f by (simp add: path_Cons)
    show "NULL \<notin> set ls" "distinct ls" using Cons.prems(2,5) by auto
    fix x assume x: "x \<in> set ls" "alloc_of ?s x \<noteq> NULL"
    then show "pl_heap ?s (alloc_of ?s x) \<noteq> None" using Cons.prems(3) [of x] ne unfolding f by auto
  next
    fix x y assume "x \<in> set ls" "y \<in> set ls" "alloc_of ?s x = alloc_of ?s y" "alloc_of ?s x \<noteq> NULL"
    then show "x = y" using Cons.prems(4) [of x y] unfolding f by auto
  qed
  then have "free_larges l s = Some (s\<lparr>pl_heap := ?h |` (- (alloc_of s ` set ls - {NULL}))\<rparr>)" unfolding w f by simp
  moreover have "?h |` (- (alloc_of s ` set ls - {NULL})) = (pl_heap s) |` (- (alloc_of s ` set (l # ls) - {NULL}))"
    using a by (auto simp: restrict_map_def fun_eq_iff)
  ultimately have "free_larges l s = Some (s\<lparr>pl_heap := (pl_heap s) |` (- (alloc_of s ` set (l # ls) - {NULL}))\<rparr>)" by simp
  then show ?case by simp
qed

lemma free_blocks_spec:
  assumes "path (nnext s) ns NULL" and "NULL \<notin> set ns" and "distinct ns"
    and "\<And>n. n \<in> set ns \<Longrightarrow> pl_heap s n \<noteq> None"
  shows "\<exists>s'. free_blocks (if ns = [] then NULL else hd ns) s = Some s' \<and> pl_heap s' = (pl_heap s) |` (- set ns) \<and>
    pl_addr s' = pl_addr s"
  using assms
proof (induction ns arbitrary: s)
  case Nil
  then show ?case by (simp add: free_blocks.simps restrict_map_def)
next
  case (Cons n ns)
  have "nnext s n = Some (if ns = [] then NULL else hd ns)" using Cons.prems(1) by (simp add: path_Cons)
  then obtain nd where nd: "pl_nodes s n = Some nd" "mp_next nd = (if ns = [] then NULL else hd ns)"
    by (auto simp: nnext_def)
  have n: "n \<noteq> NULL" using Cons.prems(2) by auto
  let ?s = "s\<lparr>pl_heap := (pl_heap s)(n := None), pl_nodes := (pl_nodes s)(n := None)\<rparr>"
  have w: "free_blocks n s = free_blocks (if ns = [] then NULL else hd ns) ?s"
    using n nd Cons.prems(4) [of n] by (subst free_blocks.simps) (auto simp: sys_free_def)
  have "path (nnext ?s) ns NULL = path (nnext s) ns NULL"
    by (rule path_cong) (use Cons.prems(3) in \<open>auto simp: nnext_def\<close>)
  then have "\<exists>s'. free_blocks (if ns = [] then NULL else hd ns) ?s = Some s' \<and> pl_heap s' = (pl_heap ?s) |` (- set ns) \<and>
      pl_addr s' = pl_addr ?s"
    using Cons.prems by (intro Cons.IH) (auto simp: path_Cons)
  moreover have "((pl_heap s)(n := None)) |` (- set ns) = (pl_heap s) |` (- set (n # ns))"
    by (auto simp: restrict_map_def fun_eq_iff)
  ultimately show ?case unfolding list.sel w by (simp add: w)
qed

lemma pool_after_larges:
  assumes ok: "pool_of g s ns ls ch"
  defines "s1 \<equiv> s\<lparr>pl_heap := (pl_heap s) |` (- (alloc_of s ` set ls - {NULL}))\<rparr>"
  shows "free_larges (pl_large s) s = Some s1" and "n \<in> set ns \<Longrightarrow> pl_heap s1 (base s n) = pl_heap s (base s n)"
    and "heap_ok (pl_heap s1)"
proof -
  note lo = larges_okD [OF pool_okD(11) [OF ok]]
  show "free_larges (pl_large s) s = Some s1"
    unfolding s1_def lo(1)
    by (rule free_larges_spec [OF lo(2,4) _ _ lo(3)]) (use lo(6,7) in blast)+
  show "pl_heap s1 (base s n) = pl_heap s (base s n)" if n: "n \<in> set ns"
  proof -
    have "base s n \<notin> alloc_of s ` set ls - {NULL}"
    proof
      assume "base s n \<in> alloc_of s ` set ls - {NULL}"
      then obtain l where "l \<in> set ls" "alloc_of s l = base s n" "alloc_of s l \<noteq> NULL" by auto
      then show False using lo(6) [of l] n by simp
    qed
    then have "base s n \<in> - (alloc_of s ` set ls - {NULL})" unfolding Compl_iff .
    moreover have "pl_heap s1 = (pl_heap s) |` (- (alloc_of s ` set ls - {NULL}))" by (simp add: s1_def)
    ultimately show ?thesis by (simp only: restrict_in)
  qed
  show "heap_ok (pl_heap s1)"
    using pool_okD(9) [OF ok] unfolding heap_ok_def s1_def by (auto simp: restrict_map_def split: if_splits)
qed

theorem mp_destroy_spec:
  assumes ok: "pool_of g s ns ls ch"
  shows "\<exists>s'. mp_destroy_pool s = Some s' \<and>
    pl_heap s' = (pl_heap s) |` (- (base s ` set ns \<union> (alloc_of s ` set ls - {NULL})))"
proof -
  let ?L = "alloc_of s ` set ls - {NULL}"
  let ?s1 = "s\<lparr>pl_heap := (pl_heap s) |` (- ?L)\<rparr>"
  note fl = pool_after_larges [OF ok]
  obtain B where ns: "ns = pl_head s # B" using pool_okD(1,2) [OF ok] by (cases ns) auto
  have hn: "pl_head s \<in> set ns" and hb: "pl_head s \<notin> set B" using pool_okD(5,12) [OF ok] ns by auto
  have bB: "base s n = n" if "n \<in> set B" for n using that hb by (auto simp: base_def)
  have imB: "base s ` set B = set B" using bB by (simp add: image_def)
  have b0: "base s (pl_head s) = pl_addr s" by (simp add: base_def)
  obtain h where h: "pl_nodes s (pl_head s) = Some h" using node_some(1) [OF ok hn] by blast
  have "nnext s (pl_head s) = Some (if B = [] then NULL else hd B)" using pool_okD(4) [OF ok] ns by (simp add: path_Cons)
  then have nx: "mp_next h = (if B = [] then NULL else hd B)" using h by (simp add: nnext_def)
  have "nnext ?s1 = nnext s" by (simp add: nnext_def fun_eq_iff)
  then have p1: "path (nnext ?s1) B NULL" using pool_okD(4) [OF ok] ns by (simp add: path_Cons)
  have p2: "NULL \<notin> set B" "distinct B" using pool_okD(5,6) [OF ok] ns by auto
  have "pl_heap ?s1 n \<noteq> None" if n: "n \<in> set B" for n
  proof -
    have "n \<in> set ns" using n ns by simp
    then show ?thesis using node_some(2) [OF ok] fl(2) bB [OF n] by fastforce
  qed
  then obtain s2 where s2: "free_blocks (mp_next h) ?s1 = Some s2" "pl_heap s2 = (pl_heap ?s1) |` (- set B)"
    "pl_addr s2 = pl_addr s"
    using free_blocks_spec [OF p1 p2] unfolding nx by auto
  have a: "pl_addr s \<noteq> NULL" "pl_addr s \<notin> set B" "pl_heap ?s1 (pl_addr s) \<noteq> None"
  proof -
    show "pl_addr s \<noteq> NULL" using node_facts(9) [OF ok hn h] b0 by simp
    have "distinct (map (base s) (pl_head s # B))" using pool_okD(8) [OF ok] ns by simp
    then show "pl_addr s \<notin> set B" using b0 imB by simp
    show "pl_heap ?s1 (pl_addr s) \<noteq> None" using fl(2) [OF hn] node_some(2) [OF ok hn] unfolding b0 by auto
  qed
  have "sys_free (pl_addr s2) s2 = Some (s2\<lparr>pl_heap := (pl_heap s2)(pl_addr s := None)\<rparr>)"
  proof -
    have "pl_heap s2 (pl_addr s) = pl_heap ?s1 (pl_addr s)" unfolding s2(2) using a(2) by (intro restrict_in) simp
    then show ?thesis using a(1,3) s2(3) unfolding sys_free_def by simp
  qed
  then have m: "mp_destroy_pool s = Some (s2\<lparr>pl_heap := (pl_heap s2)(pl_addr s := None)\<rparr>)"
    using fl(1) h s2(1) by (simp add: mp_destroy_pool_def)
  have im: "base s ` set ns = insert (pl_addr s) (set B)" using ns b0 imB by simp
  have "((pl_heap ?s1) |` (- set B))(pl_addr s := None) = (pl_heap s) |` (- (base s ` set ns \<union> ?L))"
    unfolding im by (auto simp: restrict_map_def fun_eq_iff)
  then show ?thesis using m s2(2) by (intro exI [of _ "s2\<lparr>pl_heap := (pl_heap s2)(pl_addr s := None)\<rparr>"]) simp
qed

definition reset_node :: "addr \<Rightarrow> mp_node \<Rightarrow> mp_node" where
  "reset_node n nd = nd\<lparr>nd_last := n + 32, mp_failed := 0, mp_quote := 0\<rparr>"

lemma reset_nodes_spec:
  assumes "path (nnext s) ns NULL" and "NULL \<notin> set ns" and "distinct ns"
  shows "\<exists>N. reset_nodes (if ns = [] then NULL else hd ns) s = Some (s\<lparr>pl_nodes := N\<rparr>) \<and>
    (\<forall>n. N n = (if n \<in> set ns then map_option (reset_node n) (pl_nodes s n) else pl_nodes s n))"
  using assms
proof (induction ns arbitrary: s)
  case Nil
  then show ?case by (intro exI [of _ "pl_nodes s"]) (simp add: reset_nodes.simps)
next
  case (Cons n ns)
  have "nnext s n = Some (if ns = [] then NULL else hd ns)" using Cons.prems(1) by (simp add: path_Cons)
  then obtain nd where nd: "pl_nodes s n = Some nd" "mp_next nd = (if ns = [] then NULL else hd ns)"
    by (auto simp: nnext_def)
  have n: "n \<noteq> NULL" using Cons.prems(2) by auto
  let ?s = "s\<lparr>pl_nodes := (pl_nodes s)(n \<mapsto> reset_node n nd)\<rparr>"
  have w: "reset_nodes n s = reset_nodes (if ns = [] then NULL else hd ns) ?s"
    using n nd by (subst reset_nodes.simps) (simp add: upd_node_def reset_node_def)
  have "path (nnext ?s) ns NULL = path (nnext s) ns NULL"
    by (rule path_cong) (use Cons.prems(3) in \<open>auto simp: nnext_def\<close>)
  then obtain N where N: "reset_nodes (if ns = [] then NULL else hd ns) ?s = Some (?s\<lparr>pl_nodes := N\<rparr>)"
    "\<forall>m. N m = (if m \<in> set ns then map_option (reset_node m) (pl_nodes ?s m) else pl_nodes ?s m)"
    using Cons.IH [of ?s] Cons.prems by (auto simp: path_Cons)
  have "reset_nodes n s = Some (s\<lparr>pl_nodes := N\<rparr>)" using w N(1) by simp
  moreover have "\<forall>m. N m = (if m \<in> set (n # ns) then map_option (reset_node m) (pl_nodes s m) else pl_nodes s m)"
    using N(2) Cons.prems(3) nd(1) by auto
  ultimately show ?case by auto
qed

theorem mp_reset_spec:
  assumes ok: "pool_of g s ns ls ch"
  shows "\<exists>s'. mp_reset_pool s = Some s' \<and> pool_ok s' ns [] (\<lambda>_. []) \<and>
    pl_heap s' = (pl_heap s) |` (- (alloc_of s ` set ls - {NULL}))"
proof -
  let ?s1 = "s\<lparr>pl_heap := (pl_heap s) |` (- (alloc_of s ` set ls - {NULL})), pl_large := NULL, pl_current := pl_head s\<rparr>"
  note fl = pool_after_larges [OF ok]
  have "nnext ?s1 = nnext s" by (simp add: nnext_def fun_eq_iff)
  then have p: "path (nnext ?s1) ns NULL" using pool_okD(4) [OF ok] by simp
  have hd: "(if ns = [] then NULL else hd ns) = pl_head s" using pool_okD(1,2) [OF ok] by simp
  obtain N where N: "reset_nodes (pl_head s) ?s1 = Some (?s1\<lparr>pl_nodes := N\<rparr>)"
    "\<forall>n. N n = (if n \<in> set ns then map_option (reset_node n) (pl_nodes ?s1 n) else pl_nodes ?s1 n)"
    using reset_nodes_spec [OF p pool_okD(6,5) [OF ok]] unfolding hd by blast
  let ?s = "?s1\<lparr>pl_nodes := N\<rparr>"
  have r: "mp_reset_pool s = Some ?s" using fl(1) N(1) by (simp add: mp_reset_pool_def)
  have b: "base ?s = base s" by (simp add: base_def fun_eq_iff)
  have nx: "nnext ?s = nnext s"
  proof
    fix n show "nnext ?s n = nnext s n"
      using N(2) by (auto simp: nnext_def option.map_comp comp_def reset_node_def)
  qed
  have "node_ok (\<lambda>_. 0) ?s n []" if n: "n \<in> set ns" for n
  proof -
    obtain nd where nd: "pl_nodes s n = Some nd" using node_some(1) [OF ok n] by blast
    have "pl_nodes ?s n = Some (reset_node n nd)" using N(2) n nd by simp
    moreover have "pl_heap ?s (base s n) = pl_heap s (base s n)" using fl(2) [OF n] by simp
    ultimately show ?thesis
      using node_facts [OF ok n nd] node_some(2) [OF ok n] unfolding node_ok_def b
      by (auto simp: reset_node_def chunks_ok_def)
  qed
  moreover have "larges_ok ?s ns [] (\<lambda>_. [])" by (simp add: larges_ok_def)
  moreover have "heap_ok (pl_heap ?s)" using fl(3) by simp
  ultimately have "pool_ok ?s ns [] (\<lambda>_. [])"
    using pool_okD(1-6,8,12) [OF ok] unfolding pool_of_def b nx by simp
  then show ?thesis using r by (intro exI [of _ ?s]) simp
qed

section \<open>Creation\<close>

theorem mp_create_spec:
  assumes h: "heap_ok (pl_heap s)" and pm: "memalign_ok pm" and fr: "\<And>a. mp_next (fresh a) = NULL"
  shows "mp_create_pool pm fresh s sz = None \<and> (\<exists>k. pm s k = None) \<or>
    (\<exists>s'. mp_create_pool pm fresh s sz = Some s' \<and> pool_of (\<lambda>n. mp_quote (fresh n)) s' [pl_head s'] [] (\<lambda>_. []) \<and> live s' [] (\<lambda>_. []) = {})"
proof -
  define k where "k = (if sz < PAGE_SIZE \<or> sz mod PAGE_SIZE \<noteq> 0 then PAGE_SIZE else sz)"
  have k: "PAGE_SIZE \<le> k" by (auto simp: k_def)
  show ?thesis
  proof (cases "pm s k")
    case None
    then show ?thesis by (auto simp: mp_create_pool_def k_def Let_def)
  next
    case (Some pool)
    note md = memalignD [OF pm Some]
    let ?nd = "(fresh (pool + 24))\<lparr>nd_last := pool + 24 + 32, nd_end := pool + PAGE_SIZE, mp_failed := 0\<rparr>"
    let ?s = "s\<lparr>pl_addr := pool, pl_large := NULL, pl_head := pool + 24, pl_current := pool + 24,
      pl_nodes := (pl_nodes s)(pool + 24 \<mapsto> ?nd), pl_heap := (pl_heap s)(pool \<mapsto> k)\<rparr>"
    have c: "mp_create_pool pm fresh s sz = Some ?s"
      using Some by (simp add: mp_create_pool_def Let_def k_def)
    have "heap_ok ((pl_heap s)(pool \<mapsto> k))" by (rule heap_ok_add [OF h pm Some]) (use k in simp)
    moreover have "node_ok (\<lambda>n. mp_quote (fresh n)) ?s (pool + 24) []"
      using k fr by (simp add: node_ok_def base_def chunks_ok_def)
    moreover have "nnext ?s (pool + 24) = Some NULL" using fr by (simp add: nnext_def)
    ultimately have "pool_of (\<lambda>n. mp_quote (fresh n)) ?s [pool + 24] [] (\<lambda>_. [])"
      by (simp add: pool_of_def larges_ok_def)
    then show ?thesis using c by (simp add: live_def)
  qed
qed

section \<open>The properties of the pool\<close>




text \<open>\<open>mp_destroy_pool\<close> gives back to the system exactly the blocks of the pool and its large
  blocks, each once; \<open>mp_reset_pool\<close> gives back the large blocks only and leaves a well-formed
  pool, with the same nodes, in which nothing is in use.
\<close>

theorem mp_destroy_reset_correct:
  assumes "pool_ok s ns ls ch"
  shows "(\<exists>s'. mp_destroy_pool s = Some s' \<and>
      pl_heap s' = (pl_heap s) |` (- (base s ` set ns \<union> (alloc_of s ` set ls - {NULL})))) \<and>
    (\<exists>s'. mp_reset_pool s = Some s' \<and> pool_ok s' ns [] (\<lambda>_. []) \<and> live s' [] (\<lambda>_. []) = {} \<and>
      pl_heap s' = (pl_heap s) |` (- (alloc_of s ` set ls - {NULL})))"
  using mp_destroy_spec [OF assms] mp_reset_spec [OF assms] by (simp add: live_def)

text \<open>without the assumption on the headers the pool breaks. When the uninitialised reference count
  of the first node happens to be \<open>-1\<close>, releasing the second of two chunks resets the block while
  the first is still in use, and the next allocation returns the first chunk again.
\<close>

theorem mp_garbage_quote_overlap:
  assumes "pm s PAGE_SIZE = Some pool" and "pool \<noteq> NULL" and "pool mod 16 = 0" and "mp_quote (fresh (pool + 24)) = - 1"
  shows "\<exists>s1 s2 s3 s4 s5. mp_create_pool pm fresh s PAGE_SIZE = Some s1 \<and>
    mp_malloc pm fresh s1 16 = Some (pool + 64, s2) \<and> mp_malloc pm fresh s2 16 = Some (pool + 80, s3) \<and>
    mp_free s3 (pool + 80) = Some s4 \<and> mp_malloc pm fresh s4 16 = Some (pool + 64, s5)"
proof -
  obtain m where m: "pool = 16 * m" using assms(3) by auto
  have al: "mp_align_ptr (pool + 56) = pool + 64" "mp_align_ptr (pool + 80) = pool + 80"
    unfolding m mp_align_ptr_def by simp_all
  have fn: "find_node s c 16 = Some c" if "c \<noteq> NULL" "pl_nodes s c = Some nd"
    "mp_align_ptr (nd_last nd) + 16 \<le> nd_end nd" "nd_end nd \<le> mp_align_ptr (nd_last nd) + 4096" for s c nd
  proof -
    have "(int (nd_end nd) - int (mp_align_ptr (nd_last nd))) mod 18446744073709551616 =
        int (nd_end nd) - int (mp_align_ptr (nd_last nd))"
      by (rule mod_pos_pos_trivial) (use that(3,4) in linarith)+
    then show ?thesis using that by (subst find_node.simps) simp
  qed
  let ?h = "pool + 24"
  define nd where "nd q e = \<lparr>nd_end = pool + 4096, nd_last = e, mp_next = mp_next (fresh ?h), mp_quote = q, mp_failed = 0\<rparr>" for q e
  define st where "st q e = \<lparr>pl_addr = pool, pl_large = NULL, pl_head = ?h, pl_current = ?h,
    pl_nodes = (pl_nodes s)(?h \<mapsto> nd q e), pl_larges = pl_larges s, pl_bytes = pl_bytes s,
    pl_heap = (pl_heap s)(pool \<mapsto> 4096)\<rparr>" for q e
  have "(fresh ?h)\<lparr>nd_last := pool + 24 + 32, nd_end := pool + 4096, mp_failed := 0\<rparr> = nd (- 1) (pool + 56)"
    by (rule mp_node.equality) (simp_all add: nd_def assms(4))
  then have c: "mp_create_pool pm fresh s PAGE_SIZE = Some (st (- 1) (pool + 56))"
    using assms(1) unfolding mp_create_pool_def Let_def by (simp add: st_def)
  have ma: "mp_malloc pm fresh (st q e) 16 = Some (mp_align_ptr e, st (q + 1) (mp_align_ptr e + 16))"
    if "mp_align_ptr e + 16 \<le> pool + 4096" "pool \<le> mp_align_ptr e" for q e
  proof -
    have "find_node (st q e) ?h 16 = Some ?h"
      by (rule fn [of _ _ "nd q e"]) (use that in \<open>simp_all add: st_def nd_def\<close>)
    then show ?thesis
      by (simp add: mp_malloc_def mp_malloc_small_def st_def upd_node_def nd_def Let_def)
  qed
  have fr: "mp_free (st 1 (pool + 96)) (pool + 80) = Some (st 0 (pool + 56))"
  proof -
    have "find_owner (st 1 (pool + 96)) ?h (pool + 80) = Some ?h"
      by (subst find_owner.simps) (simp add: st_def nd_def)
    moreover have "find_large (st 1 (pool + 96)) NULL (pool + 80) = Some NULL" by (simp add: find_large.simps)
    ultimately show ?thesis by (simp add: mp_free_def st_def nd_def upd_node_def add.commute [of 56 pool])
  qed
  have m1: "mp_malloc pm fresh (st (- 1) (pool + 56)) 16 = Some (pool + 64, st 0 (pool + 80))"
    using ma [of "pool + 56" "- 1"] by (simp add: al add.commute [of 80 pool])
  have m2: "mp_malloc pm fresh (st 0 (pool + 80)) 16 = Some (pool + 80, st 1 (pool + 96))"
    using ma [of "pool + 80" 0] by (simp add: al add.commute [of 96 pool])
  have m3: "mp_malloc pm fresh (st 0 (pool + 56)) 16 = Some (pool + 64, st 1 (pool + 80))"
    using ma [of "pool + 56" 0] by (simp add: al add.commute [of 80 pool])
  show ?thesis using c m1 m2 fr m3 by blast
qed

section \<open>Witnesses\<close>

text \<open>A pool with one node, at the page 4096, before and after an allocation of 100 bytes; an
  allocator that has one place.\<close>

definition demo_node :: "int \<Rightarrow> addr \<Rightarrow> mp_node" where
  "demo_node q e = \<lparr>nd_end = 8192, nd_last = e, mp_next = NULL, mp_quote = q, mp_failed = 0\<rparr>"

definition demo_pool :: "int \<Rightarrow> addr \<Rightarrow> mp_pool" where
  "demo_pool q e = \<lparr>pl_addr = 4096, pl_large = NULL, pl_head = 4120, pl_current = 4120,
     pl_nodes = [4120 \<mapsto> demo_node q e], pl_larges = (\<lambda>_. None), pl_bytes = (\<lambda>_. 0), pl_heap = [4096 \<mapsto> 4096]\<rparr>"



lemma demo_pool_ok:
  "pool_ok (demo_pool 0 4152) [4120] [] (\<lambda>_. [])"
  "pool_ok (demo_pool 1 4260) [4120] [] ((\<lambda>_. [])(4120 := [(4160, 100)]))"
  by (simp_all add: pool_of_def larges_ok_def node_ok_def demo_pool_def demo_node_def base_def nnext_def heap_ok_def
      chunks_ok_def)




theorem mp_destroy_reset_witness:
  "(\<exists>s'. mp_destroy_pool (demo_pool 1 4260) = Some s' \<and> pl_heap s' = [4096 \<mapsto> 4096] |` (- (base (demo_pool 1 4260) ` {4120} \<union> ({} - {NULL})))) \<and>
   (\<exists>s'. mp_reset_pool (demo_pool 1 4260) = Some s' \<and> pool_ok s' [4120] [] (\<lambda>_. []) \<and> live s' [] (\<lambda>_. []) = {} \<and>
     pl_heap s' = [4096 \<mapsto> 4096] |` (- ({} - {NULL})))"
  using mp_destroy_reset_correct [OF demo_pool_ok(2)] by (simp add: demo_pool_def)

theorem mp_garbage_quote_witness:
  "\<exists>s1 s2 s3 s4 s5. mp_create_pool (\<lambda>_ _. Some 65536) (\<lambda>_. demo_node (- 1) 0) (demo_pool 0 4152) PAGE_SIZE = Some s1 \<and>
    mp_malloc (\<lambda>_ _. Some 65536) (\<lambda>_. demo_node (- 1) 0) s1 16 = Some (65536 + 64, s2) \<and>
    mp_malloc (\<lambda>_ _. Some 65536) (\<lambda>_. demo_node (- 1) 0) s2 16 = Some (65536 + 80, s3) \<and>
    mp_free s3 (65536 + 80) = Some s4 \<and> mp_malloc (\<lambda>_ _. Some 65536) (\<lambda>_. demo_node (- 1) 0) s4 16 = Some (65536 + 64, s5)"
  by (rule mp_garbage_quote_overlap) (simp_all add: demo_node_def)

end
