(* ===== verification/Deadlock.thy ===== *)
theory Deadlock
  imports Prelude
begin

text \<open>
  The deadlock detector of \<^verbatim>\<open>deadlock_success.c\<close>: the wait-for graph of the threads, the list of
  the held locks, the hooks around \<open>pthread_mutex_lock\<close> and \<open>pthread_mutex_unlock\<close> that keep
  them, and the search for a cycle. The fixed arrays are functions of the index with the bound
  checked at every access (\<open>None\<close> is an access outside the array); the chain of successors hanging
  off a vertex, whose nodes nothing else points to, is the list of their pairs. The local pairs of
  the hooks leave two fields uninitialised: their content is the argument \<open>stk\<close>.
\<close>

section \<open>The graph\<close>

text \<open>\<open>MAXV\<close> is the macro \<open>MAX\<close> of the source.\<close>

abbreviation (input) MAXV :: nat where
  "MAXV \<equiv> 100"

datatype Type = PROCESS | RESOURCE

record pair_t =
  th_id :: nat
  ptype :: Type
  lock_id :: nat
  degress :: int

record vertex_t =
  vx_pair :: pair_t
  vx_next :: "pair_t list"

record task_graph =
  vertex_list :: "nat \<Rightarrow> vertex_t"
  vertex_num :: nat
  lock_list :: "nat \<Rightarrow> pair_t"
  lock_num :: nat
  tg_path :: "nat \<Rightarrow> int"
  visited :: "nat \<Rightarrow> int"
  tg_k :: nat
  deadlock :: int
  tg_out :: "nat list list"

function search_from :: "task_graph \<Rightarrow> pair_t \<Rightarrow> nat \<Rightarrow> int" where
  "search_from tg p i =
     (if i < vertex_num tg
      then if ptype (vx_pair (vertex_list tg i)) = ptype p \<and> th_id (vx_pair (vertex_list tg i)) = th_id p
           then int i else search_from tg p (i + 1)
      else - 1)"
  by pat_completeness auto
termination by (relation "measure (\<lambda>(tg, p, i). vertex_num tg - i)") auto

declare search_from.simps [simp del]

definition search_vertex :: "pair_t \<Rightarrow> task_graph \<Rightarrow> int" where
  "search_vertex p tg = search_from tg p 0"

definition add_vertex :: "pair_t \<Rightarrow> task_graph \<Rightarrow> task_graph option" where
  "add_vertex p tg =
     (if search_vertex p tg = - 1
      then if vertex_num tg < MAXV
           then Some (tg\<lparr>vertex_list := (vertex_list tg)(vertex_num tg := \<lparr>vx_pair = p, vx_next = []\<rparr>),
                  vertex_num := vertex_num tg + 1\<rparr>)
           else None
      else Some tg)"

definition add_edge :: "pair_t \<Rightarrow> pair_t \<Rightarrow> task_graph \<Rightarrow> task_graph option" where
  "add_edge u v tg =
     do { tg1 \<leftarrow> add_vertex u tg;
          tg2 \<leftarrow> add_vertex v tg1;
          let i = nat (search_vertex u tg2);
          Some (tg2\<lparr>vertex_list := (vertex_list tg2)(i :=
            (vertex_list tg2 i)\<lparr>vx_next := vx_next (vertex_list tg2 i) @ [v]\<rparr>)\<rparr>) }"

text \<open>The walk starts at the vertex itself, so its own thread counts as a successor.\<close>

definition verify_edge :: "pair_t \<Rightarrow> pair_t \<Rightarrow> task_graph \<Rightarrow> bool" where
  "verify_edge u v tg =
     (if vertex_num tg = 0 then False
      else let idx = search_vertex u tg in
        if idx = - 1 then False
        else list_ex (\<lambda>p. th_id p = th_id v)
          (vx_pair (vertex_list tg (nat idx)) # vx_next (vertex_list tg (nat idx))))"

fun remove_next :: "nat \<Rightarrow> pair_t list \<Rightarrow> pair_t list" where
  "remove_next t [] = []"
| "remove_next t (p # ps) = (if th_id p = t then ps else p # remove_next t ps)"

definition remove_edge :: "pair_t \<Rightarrow> pair_t \<Rightarrow> task_graph \<Rightarrow> task_graph" where
  "remove_edge u v tg =
     (let idx_u = search_vertex u tg; idx_v = search_vertex v tg in
      if idx_u \<noteq> - 1 \<and> idx_v \<noteq> - 1
      then tg\<lparr>vertex_list := (vertex_list tg)(nat idx_u := (vertex_list tg (nat idx_u))
             \<lparr>vx_next := remove_next (th_id v) (vx_next (vertex_list tg (nat idx_u)))\<rparr>)\<rparr>
      else tg)"

section \<open>The search for a cycle\<close>

definition push_path :: "int \<Rightarrow> task_graph \<Rightarrow> task_graph option" where
  "push_path idx tg =
     (if tg_k tg < MAXV + 1 then Some (tg\<lparr>tg_path := (tg_path tg)(tg_k tg := idx), tg_k := tg_k tg + 1\<rparr>) else None)"

text \<open>The thread ids on the path, in order; the last index is printed after the loop.\<close>

definition print_deadlock :: "task_graph \<Rightarrow> task_graph option" where
  "print_deadlock tg =
     (if \<forall>i < tg_k tg. 0 \<le> tg_path tg i \<and> tg_path tg i < int MAXV
      then Some (tg\<lparr>tg_out := tg_out tg @
             [map (\<lambda>i. th_id (vx_pair (vertex_list tg (nat (tg_path tg i))))) [0..<tg_k tg]]\<rparr>)
      else None)"

definition print_locklist :: "task_graph \<Rightarrow> (nat \<times> nat) list" where
  "print_locklist tg = map (\<lambda>i. (th_id (lock_list tg i), lock_id (lock_list tg i))) [0..<lock_num tg]"

text \<open>\<open>DFS\<close> and its loop over the successors. The first argument bounds the depth of the recursion.\<close>

fun DFS :: "nat \<Rightarrow> int \<Rightarrow> task_graph \<Rightarrow> task_graph option"
  and DFS_next :: "nat \<Rightarrow> pair_t list \<Rightarrow> task_graph \<Rightarrow> task_graph option" where
  "DFS 0 idx tg = None"
| "DFS (Suc n) idx tg =
     (if idx < 0 \<or> int MAXV \<le> idx then None
      else if visited tg (nat idx) = 1
      then do { tg1 \<leftarrow> push_path idx tg;
                tg2 \<leftarrow> print_deadlock tg1;
                Some (tg2\<lparr>deadlock := 1\<rparr>) }
      else do { tg1 \<leftarrow> push_path idx (tg\<lparr>visited := (visited tg)(nat idx := 1)\<rparr>);
                DFS_next n (vx_next (vertex_list tg (nat idx))) tg1 })"
| "DFS_next n [] tg = Some tg"
| "DFS_next n (p # ps) tg =
     do { tg1 \<leftarrow> DFS n (search_vertex p tg) tg;
          DFS_next n ps (tg1\<lparr>tg_k := tg_k tg1 - 1\<rparr>) }"

text \<open>The loop of \<open>search_for_cycle\<close>: before each successor the marks of the other vertices and the
  path are cleared. A depth of \<open>MAXV + 1\<close> is enough, since every call but the last of a
  descent marks a new vertex.\<close>

fun cycle_loop :: "nat \<Rightarrow> pair_t list \<Rightarrow> task_graph \<Rightarrow> task_graph option" where
  "cycle_loop idx [] tg = Some tg"
| "cycle_loop idx (p # ps) tg =
     do { let tg1 = tg\<lparr>visited := (\<lambda>i. if i < vertex_num tg \<and> i \<noteq> idx then 0 else visited tg i),
            tg_path := (\<lambda>i. if 1 \<le> i \<and> i \<le> MAXV then - 1 else tg_path tg i), tg_k := 1\<rparr>;
          tg2 \<leftarrow> DFS (MAXV + 1) (search_vertex p tg1) tg1;
          cycle_loop idx ps tg2 }"

definition search_for_cycle :: "nat \<Rightarrow> task_graph \<Rightarrow> task_graph option" where
  "search_for_cycle idx tg =
     (if idx < MAXV
      then cycle_loop idx (vx_next (vertex_list tg idx))
             (tg\<lparr>visited := (visited tg)(idx := 1), tg_k := 1, tg_path := (tg_path tg)(0 := int idx)\<rparr>)
      else None)"

function check_loop :: "nat \<Rightarrow> nat \<Rightarrow> task_graph \<Rightarrow> task_graph option" where
  "check_loop n i tg =
     (if i < n
      then if deadlock tg = 1 then Some tg
           else do { tg1 \<leftarrow> search_for_cycle i tg; check_loop n (i + 1) tg1 }
      else Some tg)"
  by pat_completeness auto
termination by (relation "measure (\<lambda>(n, i, tg). n - i)") auto

declare check_loop.simps [simp del]

text \<open>The check when nothing runs beside it; \<open>check_dead_lock_routine\<close> below is the thread that runs it.\<close>

definition check_dead_lock :: "task_graph \<Rightarrow> task_graph option" where
  "check_dead_lock tg = check_loop (vertex_num tg) 0 (tg\<lparr>deadlock := 0\<rparr>)"

text \<open>\<open>start_check\<close> clears the two counters of the freshly allocated structure \<open>mem\<close> only.\<close>

definition start_check :: "task_graph \<Rightarrow> task_graph" where
  "start_check mem = mem\<lparr>vertex_num := 0, lock_num := 0\<rparr>"

section \<open>The hooks\<close>

function lock_from :: "task_graph \<Rightarrow> nat \<Rightarrow> nat \<Rightarrow> int" where
  "lock_from tg lock i =
     (if i < lock_num tg then if lock_id (lock_list tg i) = lock then int i else lock_from tg lock (i + 1) else - 1)"
  by pat_completeness auto
termination by (relation "measure (\<lambda>(tg, l, i). lock_num tg - i)") auto

declare lock_from.simps [simp del]

definition search_lock :: "nat \<Rightarrow> task_graph \<Rightarrow> int" where
  "search_lock lock tg = lock_from tg lock 0"

definition search_empty_lock :: "task_graph \<Rightarrow> nat" where
  "search_empty_lock tg = (let i = lock_from tg 0 0 in if i = - 1 then lock_num tg else nat i)"

definition inc_lock_num :: "int \<Rightarrow> task_graph \<Rightarrow> task_graph" where
  "inc_lock_num add tg = tg\<lparr>lock_num := nat (int (lock_num tg) + add)\<rparr>"

definition thread_pair :: "pair_t \<Rightarrow> nat \<Rightarrow> pair_t" where
  "thread_pair stk t = stk\<lparr>th_id := t, ptype := PROCESS\<rparr>"

definition lock_before :: "pair_t \<Rightarrow> nat \<Rightarrow> nat \<Rightarrow> task_graph \<Rightarrow> task_graph option" where
  "lock_before stk thread_id lock tg =
     (let idx = search_lock lock tg in
      if idx \<noteq> - 1 then
        do { let u = thread_pair stk thread_id;
             tg1 \<leftarrow> add_vertex u tg;
             let v = thread_pair stk (th_id (lock_list tg1 (nat idx)));
             let tg2 = tg1\<lparr>lock_list := (lock_list tg1)(nat idx :=
               (lock_list tg1 (nat idx))\<lparr>degress := degress (lock_list tg1 (nat idx)) + 1\<rparr>)\<rparr>;
             tg3 \<leftarrow> add_vertex v tg2;
             if \<not> verify_edge u v tg3 then add_edge u v tg3 else Some tg3 }
      else Some tg)"

definition lock_after :: "pair_t \<Rightarrow> nat \<Rightarrow> nat \<Rightarrow> task_graph \<Rightarrow> task_graph option" where
  "lock_after stk thread_id lock tg =
     (let idx = search_lock lock tg in
      if idx = - 1 then
        let e = search_empty_lock tg in
        if e < MAXV then
          let tg1 = tg\<lparr>lock_list := (lock_list tg)(e := (lock_list tg e)\<lparr>th_id := thread_id, lock_id := lock\<rparr>)\<rparr> in
          Some (if lock_num tg1 \<le> e then inc_lock_num 1 tg1 else tg1)
        else None
      else
        let u = thread_pair stk thread_id;
            v = thread_pair stk (th_id (lock_list tg (nat idx)));
            tg1 = tg\<lparr>lock_list := (lock_list tg)(nat idx :=
               (lock_list tg (nat idx))\<lparr>degress := degress (lock_list tg (nat idx)) - 1\<rparr>)\<rparr>;
            tg2 = (if verify_edge u v tg1 then remove_edge u v tg1 else tg1)
        in Some (tg2\<lparr>lock_list := (lock_list tg2)(nat idx := (lock_list tg2 (nat idx))\<lparr>th_id := thread_id\<rparr>)\<rparr>))"

definition unlock_after :: "nat \<Rightarrow> nat \<Rightarrow> task_graph \<Rightarrow> task_graph option" where
  "unlock_after thread_id lock tg =
     (let idx = search_lock lock tg in
      if idx = - 1 then None
      else if degress (lock_list tg (nat idx)) = 0
      then Some (tg\<lparr>lock_list := (lock_list tg)(nat idx := (lock_list tg (nat idx))\<lparr>th_id := 0, lock_id := 0\<rparr>)\<rparr>)
      else Some tg)"

section \<open>The checking thread\<close>

text \<open>
  The thread takes no lock: the hooks run between its steps. Where it is: asleep, in the loop of
  \<open>print_locklist\<close>, in the loop of \<open>check_dead_lock\<close> at a vertex, in the loop of \<open>search_for_cycle\<close>,
  or inside \<open>DFS\<close>, with the calls that have not returned as a stack of the successors they have left.
  A step is one turn of a loop, one call or one return; with it comes what it prints of the lock list.
\<close>

datatype checker =
    Asleep
  | Printing nat
  | Vertex nat
  | Cycle nat "pair_t list"
  | Call nat "pair_t list" "pair_t list list" int
  | Walk nat "pair_t list" "pair_t list list"
  | Return nat "pair_t list" "pair_t list list"

fun check_dead_lock_routine :: "checker \<Rightarrow> task_graph \<Rightarrow> (checker \<times> (nat \<times> nat) list \<times> task_graph) option" where
  "check_dead_lock_routine Asleep tg = Some (Printing 0, [], tg)"
| "check_dead_lock_routine (Printing i) tg =
     (if i < lock_num tg
      then if i < MAXV then Some (Printing (i + 1), [(th_id (lock_list tg i), lock_id (lock_list tg i))], tg) else None
      else Some (Vertex 0, [], tg\<lparr>deadlock := 0\<rparr>))"
| "check_dead_lock_routine (Vertex i) tg =
     (if i < vertex_num tg \<and> deadlock tg \<noteq> 1
      then if i < MAXV
           then Some (Cycle i (vx_next (vertex_list tg i)), [],
                  tg\<lparr>visited := (visited tg)(i := 1), tg_k := 1, tg_path := (tg_path tg)(0 := int i)\<rparr>)
           else None
      else Some (Asleep, [], tg))"
| "check_dead_lock_routine (Cycle i []) tg = Some (Vertex (i + 1), [], tg)"
| "check_dead_lock_routine (Cycle i (p # ps)) tg =
     (let tg1 = tg\<lparr>visited := (\<lambda>j. if j < vertex_num tg \<and> j \<noteq> i then 0 else visited tg j),
            tg_path := (\<lambda>j. if 1 \<le> j \<and> j \<le> MAXV then - 1 else tg_path tg j), tg_k := 1\<rparr>
      in Some (Call i ps [] (search_vertex p tg1), [], tg1))"
| "check_dead_lock_routine (Call i ps st idx) tg =
     (if idx < 0 \<or> int MAXV \<le> idx then None
      else if visited tg (nat idx) = 1
      then do { tg1 \<leftarrow> push_path idx tg;
                tg2 \<leftarrow> print_deadlock tg1;
                Some (Return i ps st, [], tg2\<lparr>deadlock := 1\<rparr>) }
      else do { tg1 \<leftarrow> push_path idx (tg\<lparr>visited := (visited tg)(nat idx := 1)\<rparr>);
                Some (Walk i ps (vx_next (vertex_list tg (nat idx)) # st), [], tg1) })"
| "check_dead_lock_routine (Walk i ps []) tg = None"
| "check_dead_lock_routine (Walk i ps ([] # st)) tg = Some (Return i ps st, [], tg)"
| "check_dead_lock_routine (Walk i ps ((p # qs) # st)) tg = Some (Call i ps (qs # st) (search_vertex p tg), [], tg)"
| "check_dead_lock_routine (Return i ps []) tg = Some (Cycle i ps, [], tg)"
| "check_dead_lock_routine (Return i ps (qs # st)) tg = Some (Walk i ps (qs # st), [], tg\<lparr>tg_k := tg_k tg - 1\<rparr>)"

text \<open>A hook that changes \<open>tg\<close> to \<open>tg'\<close> while the thread reads what is changed: the lock list while it
  is printed, the vertices and their chains while they are searched.\<close>

definition races :: "checker \<Rightarrow> task_graph \<Rightarrow> task_graph \<Rightarrow> bool" where
  "races c tg tg' \<longleftrightarrow> (case c of
       Asleep \<Rightarrow> False
     | Printing i \<Rightarrow> lock_num tg' \<noteq> lock_num tg \<or>
         list_ex (\<lambda>i. th_id (lock_list tg' i) \<noteq> th_id (lock_list tg i) \<or> lock_id (lock_list tg' i) \<noteq> lock_id (lock_list tg i))
           [0..<lock_num tg]
     | _ \<Rightarrow> vertex_num tg' \<noteq> vertex_num tg \<or> list_ex (\<lambda>i. vertex_list tg' i \<noteq> vertex_list tg i) [0..<vertex_num tg])"

section \<open>The hooked mutexes\<close>

text \<open>
  A thread that calls the hooked \<open>pthread_mutex_lock\<close> runs \<open>lock_before\<close>, then the real operation,
  which waits until the mutex is free, and then \<open>lock_after\<close>; \<open>pthread_mutex_unlock\<close> runs the real
  operation and then \<open>unlock_after\<close>. Between these steps the other threads run. The hooks
  themselves are serialised by the mutex of the graph; the checking thread is not.
\<close>

datatype phase = Idle | Asked nat | Locked nat | Unlocked nat

record system =
  sys_tg :: task_graph
  owner :: "nat \<Rightarrow> nat option"
  phase :: "nat \<Rightarrow> phase"
  checker :: checker
  printed :: "(nat \<times> nat) list"

datatype event = Before nat nat | Acquire nat | After nat | Release nat nat | Unlock_after nat | Check

text \<open>A hook that faults, and one that changes what the checking thread is reading, is \<open>None\<close>; so is a
  step that its thread cannot take.\<close>

definition hook :: "(task_graph \<Rightarrow> task_graph option) \<Rightarrow> system \<Rightarrow> system option" where
  "hook f s = do { tg \<leftarrow> f (sys_tg s); if races (checker s) (sys_tg s) tg then None else Some (s\<lparr>sys_tg := tg\<rparr>) }"

definition goes :: "nat \<Rightarrow> phase \<Rightarrow> system \<Rightarrow> system" where
  "goes t p s = s\<lparr>phase := (phase s)(t := p)\<rparr>"

fun sys_step :: "pair_t \<Rightarrow> event \<Rightarrow> system \<Rightarrow> system option" where
  "sys_step stk (Before t l) s =
     (if phase s t = Idle then map_option (goes t (Asked l)) (hook (lock_before stk t l) s) else None)"
| "sys_step stk (Acquire t) s =
     (case phase s t of
        Asked l \<Rightarrow> if owner s l = None then Some (goes t (Locked l) (s\<lparr>owner := (owner s)(l \<mapsto> t)\<rparr>)) else None
      | _ \<Rightarrow> None)"
| "sys_step stk (After t) s =
     (case phase s t of Locked l \<Rightarrow> map_option (goes t Idle) (hook (lock_after stk t l) s) | _ \<Rightarrow> None)"
| "sys_step stk (Release t l) s =
     (if phase s t = Idle \<and> owner s l = Some t then Some (goes t (Unlocked l) (s\<lparr>owner := (owner s)(l := None)\<rparr>)) else None)"
| "sys_step stk (Unlock_after t) s =
     (case phase s t of Unlocked l \<Rightarrow> map_option (goes t Idle) (hook (unlock_after t l) s) | _ \<Rightarrow> None)"
| "sys_step stk Check s =
     do { (c, out, tg) \<leftarrow> check_dead_lock_routine (checker s) (sys_tg s);
          Some (s\<lparr>checker := c, printed := printed s @ out, sys_tg := tg\<rparr>) }"

fun sys_run :: "pair_t \<Rightarrow> event list \<Rightarrow> system \<Rightarrow> system option" where
  "sys_run stk [] s = Some s"
| "sys_run stk (e # es) s = do { s1 \<leftarrow> sys_step stk e s; sys_run stk es s1 }"

end
