(* ===== verification/Deadlock_Search.thy ===== *)
theory Deadlock_Search
  imports Deadlock
begin

text \<open>
  The search for a cycle: it returns within the bounds of its arrays, it reports whenever a cycle
  of the graph exists, and it reports nothing else when no thread waits for two others.
\<close>

section \<open>Vertices and edges\<close>

definition same_graph :: "task_graph \<Rightarrow> task_graph \<Rightarrow> bool" where
  "same_graph g tg \<longleftrightarrow> vertex_list tg = vertex_list g \<and> vertex_num tg = vertex_num g"

definition vmatch :: "task_graph \<Rightarrow> pair_t \<Rightarrow> nat \<Rightarrow> bool" where
  "vmatch tg p i \<longleftrightarrow> ptype (vx_pair (vertex_list tg i)) = ptype p \<and> th_id (vx_pair (vertex_list tg i)) = th_id p"

lemma search_from_stop: "\<not> i < vertex_num tg \<Longrightarrow> search_from tg p i = - 1"
  and search_from_hit: "i < vertex_num tg \<Longrightarrow> vmatch tg p i \<Longrightarrow> search_from tg p i = int i"
  and search_from_miss: "i < vertex_num tg \<Longrightarrow> \<not> vmatch tg p i \<Longrightarrow> search_from tg p i = search_from tg p (i + 1)"
  by (subst search_from.simps, auto simp: vmatch_def)+

lemma search_from_spec:
  "search_from tg p i = - 1 \<and> (\<forall>j. i \<le> j \<longrightarrow> j < vertex_num tg \<longrightarrow> \<not> vmatch tg p j) \<or>
   (\<exists>j. search_from tg p i = int j \<and> i \<le> j \<and> j < vertex_num tg \<and> vmatch tg p j \<and> (\<forall>k. i \<le> k \<longrightarrow> k < j \<longrightarrow> \<not> vmatch tg p k))"
proof (induction "vertex_num tg - i" arbitrary: i)
  case 0
  then show ?case using search_from_stop by simp
next
  case (Suc d)
  then have i: "i < vertex_num tg" by simp
  show ?case
  proof (cases "vmatch tg p i")
    case True
    then show ?thesis using search_from_hit [OF i] i by auto
  next
    case False
    have s: "i \<le> k \<longleftrightarrow> k = i \<or> i + 1 \<le> k" for k by auto
    have "d = vertex_num tg - (i + 1)" using Suc(2) by simp
    note IH = Suc(1) [OF this]
    from IH show ?thesis
    proof (elim disjE exE conjE)
      assume "search_from tg p (i + 1) = - 1" "\<forall>j. i + 1 \<le> j \<longrightarrow> j < vertex_num tg \<longrightarrow> \<not> vmatch tg p j"
      then show ?thesis using search_from_miss [OF i False] False s by auto
    next
      fix j assume "search_from tg p (i + 1) = int j" "i + 1 \<le> j" "j < vertex_num tg" "vmatch tg p j"
        "\<forall>k. i + 1 \<le> k \<longrightarrow> k < j \<longrightarrow> \<not> vmatch tg p k"
      then show ?thesis using search_from_miss [OF i False] False s by (intro disjI2 exI [of _ j]) auto
    qed
  qed
qed

lemma search_vertex_cases:
  obtains (absent) "search_vertex p tg = - 1" "\<And>j. j < vertex_num tg \<Longrightarrow> \<not> vmatch tg p j"
  | (found) j where "search_vertex p tg = int j" "j < vertex_num tg" "vmatch tg p j" "\<And>k. k < j \<Longrightarrow> \<not> vmatch tg p k"
  using search_from_spec [of tg p 0] unfolding search_vertex_def by auto

lemma search_from_graph:
  assumes "same_graph g tg"
  shows "search_from tg p i = search_from g p i"
proof (induction "vertex_num g - i" arbitrary: i)
  case 0
  then show ?case using assms search_from_stop by (simp add: same_graph_def)
next
  case (Suc d)
  then have i: "i < vertex_num g" "i < vertex_num tg" using assms by (auto simp: same_graph_def)
  have v: "vmatch tg p i = vmatch g p i" using assms by (simp add: same_graph_def vmatch_def)
  have IH: "search_from tg p (i + 1) = search_from g p (i + 1)" by (rule Suc(1)) (use Suc(2) in simp)
  show ?case
  proof (cases "vmatch g p i")
    case True
    then show ?thesis using search_from_hit i v by metis
  next
    case False
    then show ?thesis using search_from_miss [OF i(1) False] search_from_miss [OF i(2), of p] v IH by simp
  qed
qed

lemma search_vertex_graph: "same_graph g tg \<Longrightarrow> search_vertex p tg = search_vertex p g"
  by (simp add: search_vertex_def search_from_graph)

definition nexts :: "task_graph \<Rightarrow> nat \<Rightarrow> pair_t list" where
  "nexts g i = vx_next (vertex_list g i)"

definition edges :: "task_graph \<Rightarrow> (nat \<times> nat) set" where
  "edges g = {(i, j). i < vertex_num g \<and> (\<exists>p\<in>set (nexts g i). search_vertex p g = int j)}"

definition graph_ok :: "task_graph \<Rightarrow> bool" where
  "graph_ok g \<longleftrightarrow> vertex_num g \<le> MAXV \<and> (\<forall>i < vertex_num g. \<forall>p\<in>set (nexts g i). search_vertex p g \<noteq> - 1)"

lemma search_vertex_range: "search_vertex p g \<noteq> - 1 \<Longrightarrow> \<exists>j. search_vertex p g = int j \<and> j < vertex_num g"
  by (rule search_vertex_cases [of p g]) auto

definition marks :: "task_graph \<Rightarrow> nat set" where
  "marks tg = {i. i < vertex_num tg \<and> visited tg i = 1}"

lemma marks_bound: "marks tg \<subseteq> {..<vertex_num tg}" "finite (marks tg)" "card (marks tg) \<le> vertex_num tg"
proof -
  show 1: "marks tg \<subseteq> {..<vertex_num tg}" by (auto simp: marks_def)
  then show "finite (marks tg)" by (rule finite_subset) simp
  show "card (marks tg) \<le> vertex_num tg" using card_mono [OF _ 1] by simp
qed

section \<open>The search returns\<close>

definition stack_ok :: "task_graph \<Rightarrow> task_graph \<Rightarrow> bool" where
  "stack_ok g tg \<longleftrightarrow> same_graph g tg \<and> tg_k tg \<le> card (marks tg) \<and>
     (\<forall>i < tg_k tg. 0 \<le> tg_path tg i \<and> tg_path tg i < int MAXV)"

definition grown :: "task_graph \<Rightarrow> task_graph \<Rightarrow> bool" where
  "grown tg tg' \<longleftrightarrow> marks tg \<subseteq> marks tg' \<and> (\<forall>i < tg_k tg. tg_path tg' i = tg_path tg i) \<and>
     (deadlock tg = 1 \<longrightarrow> deadlock tg' = 1) \<and> (deadlock tg' = deadlock tg \<or> deadlock tg' = 1) \<and> vertex_num tg' = vertex_num tg"

lemma grown_trans: "grown tg tg1 \<Longrightarrow> grown tg1 tg2 \<Longrightarrow> tg_k tg \<le> tg_k tg1 \<Longrightarrow> grown tg tg2"
  unfolding grown_def by fastforce

lemma push_ok:
  assumes "stack_ok g tg" and "graph_ok g" and "j < vertex_num g"
  shows "\<exists>tg'. push_path (int j) tg = Some tg' \<and> same_graph g tg' \<and> tg_k tg' = tg_k tg + 1 \<and> visited tg' = visited tg \<and>
    (\<forall>i < tg_k tg'. 0 \<le> tg_path tg' i \<and> tg_path tg' i < int MAXV) \<and> (\<forall>i < tg_k tg. tg_path tg' i = tg_path tg i) \<and>
    deadlock tg' = deadlock tg"
proof -
  have "tg_k tg \<le> vertex_num g" using assms(1) marks_bound(3) [of tg] by (auto simp: stack_ok_def same_graph_def)
  then have "tg_k tg < MAXV + 1" using assms(2) by (simp add: graph_ok_def)
  then show ?thesis using assms by (auto simp: push_path_def stack_ok_def same_graph_def graph_ok_def less_Suc_eq)
qed

lemma DFS_runs:
  "graph_ok g \<Longrightarrow> stack_ok g tg \<Longrightarrow> 0 \<le> idx \<Longrightarrow> idx < int (vertex_num g) \<Longrightarrow>
   card ({..<vertex_num g} - marks tg) < n \<Longrightarrow>
   \<exists>tg'. DFS n idx tg = Some tg' \<and> same_graph g tg' \<and> tg_k tg' = tg_k tg + 1 \<and> grown tg tg'"
  "graph_ok g \<Longrightarrow> stack_ok g tg \<Longrightarrow> \<forall>p\<in>set ps. search_vertex p g \<noteq> - 1 \<Longrightarrow>
   card ({..<vertex_num g} - marks tg) < n \<Longrightarrow>
   \<exists>tg'. DFS_next n ps tg = Some tg' \<and> same_graph g tg' \<and> tg_k tg' = tg_k tg \<and> grown tg tg'"
proof (induction n idx tg and n ps tg rule: DFS_DFS_next.induct)
  case (1 idx tg)
  then show ?case by simp
next
  case (2 n idx tg)
  note sg = "2.prems"(2) [unfolded stack_ok_def, THEN conjunct1]
  have vn: "vertex_num tg = vertex_num g" using sg by (simp add: same_graph_def)
  obtain j where j: "idx = int j" "j < vertex_num g" using "2.prems"(3,4) by (metis nonneg_int_cases of_nat_less_iff)
  have range: "\<not> (idx < 0 \<or> int MAXV \<le> idx)" using j "2.prems"(1) by (auto simp: graph_ok_def)
  show ?case
  proof (cases "visited tg j = 1")
    case True
    obtain tg1 where t1: "push_path (int j) tg = Some tg1" "same_graph g tg1" "tg_k tg1 = tg_k tg + 1" "visited tg1 = visited tg"
      "\<forall>i < tg_k tg1. 0 \<le> tg_path tg1 i \<and> tg_path tg1 i < int MAXV" "\<forall>i < tg_k tg. tg_path tg1 i = tg_path tg i"
      "deadlock tg1 = deadlock tg"
      using push_ok [OF "2.prems"(2,1) j(2)] by blast
    obtain tg2 where t2: "print_deadlock tg1 = Some tg2" "vertex_list tg2 = vertex_list tg1" "vertex_num tg2 = vertex_num tg1"
      "tg_k tg2 = tg_k tg1" "visited tg2 = visited tg1" "tg_path tg2 = tg_path tg1"
      using t1(5) by (simp add: print_deadlock_def)
    have "DFS (Suc n) idx tg = Some (tg2\<lparr>deadlock := 1\<rparr>)"
      using range True j(1) t1(1) t2(1) by simp
    moreover have "grown tg (tg2\<lparr>deadlock := 1\<rparr>)"
      using t1 t2 vn by (auto simp: grown_def marks_def same_graph_def)
    ultimately show ?thesis using t1 t2 by (simp add: same_graph_def)
  next
    case False
    let ?tg0 = "tg\<lparr>visited := (visited tg)(j := 1)\<rparr>"
    have m0: "marks ?tg0 = insert j (marks tg)" "j \<notin> marks tg" using j(2) vn False by (auto simp: marks_def)
    have sk: "stack_ok g ?tg0"
      using "2.prems"(2) m0 marks_bound(2) [of tg] by (auto simp: stack_ok_def same_graph_def)
    obtain tg1 where t1: "push_path (int j) ?tg0 = Some tg1" "same_graph g tg1" "tg_k tg1 = tg_k tg + 1" "visited tg1 = visited ?tg0"
      "\<forall>i < tg_k tg1. 0 \<le> tg_path tg1 i \<and> tg_path tg1 i < int MAXV" "\<forall>i < tg_k tg. tg_path tg1 i = tg_path tg i"
      "deadlock tg1 = deadlock tg"
      using push_ok [OF sk "2.prems"(1) j(2)] by auto
    have m1: "marks tg1 = insert j (marks tg)"
      using m0(1) t1(2,4) vn by (simp add: marks_def same_graph_def)
    have sk1: "stack_ok g tg1"
    proof -
      have "tg_k tg \<le> card (marks tg)" using "2.prems"(2) by (simp add: stack_ok_def)
      moreover have "card (insert j (marks tg)) = Suc (card (marks tg))" using m0(2) marks_bound(2) by simp
      ultimately have "tg_k tg1 \<le> card (insert j (marks tg))" using t1(3) by simp
      then show ?thesis unfolding stack_ok_def m1 using t1(2,5) by blast
    qed
    have e: "{..<vertex_num g} - marks tg = insert j ({..<vertex_num g} - marks tg1)" using m0(2) j(2) unfolding m1 by auto
    have "card ({..<vertex_num g} - marks tg) = Suc (card ({..<vertex_num g} - marks tg1))"
      unfolding e by (rule card_insert_disjoint) (simp_all add: m1)
    then have cd: "card ({..<vertex_num g} - marks tg1) < n" using "2.prems"(5) by linarith
    have ps: "\<forall>p\<in>set (nexts g j). search_vertex p g \<noteq> - 1" using "2.prems"(1) j(2) by (simp add: graph_ok_def)
    have nx: "vx_next (vertex_list tg (nat idx)) = nexts g j" using sg j(1) by (simp add: nexts_def same_graph_def)
    have "\<exists>tg'. DFS_next n (vx_next (vertex_list tg (nat idx))) tg1 = Some tg' \<and> same_graph g tg' \<and> tg_k tg' = tg_k tg1 \<and> grown tg1 tg'"
    proof (rule "2.IH" [OF range _ _ "2.prems"(1) sk1 _ cd])
      show "visited tg (nat idx) \<noteq> 1" using False j(1) by simp
      show "push_path idx (tg\<lparr>visited := (visited tg)(nat idx := 1)\<rparr>) = Some tg1" using t1(1) j(1) by simp
      show "\<forall>p\<in>set (vx_next (vertex_list tg (nat idx))). search_vertex p g \<noteq> - 1" using ps nx by simp
    qed
    then obtain tg2 where t2: "DFS_next n (nexts g j) tg1 = Some tg2" "same_graph g tg2" "tg_k tg2 = tg_k tg1" "grown tg1 tg2"
      using nx by auto
    have "DFS (Suc n) idx tg = Some tg2" using range False j(1) t1(1) t2(1) nx by simp
    moreover have "grown tg tg1" using t1 m1 vn by (auto simp: grown_def same_graph_def)
    then have "grown tg tg2" using t2(4) by (rule grown_trans) (use t1(3) in simp)
    ultimately show ?thesis using t2 t1(3) by simp
  qed
next
  case (3 n tg)
  then show ?case by (simp add: stack_ok_def grown_def)
next
  case (4 n p ps tg)
  note sg = "4.prems"(2) [unfolded stack_ok_def, THEN conjunct1]
  have sv: "search_vertex p tg = search_vertex p g" by (rule search_vertex_graph [OF sg])
  have "search_vertex p g \<noteq> - 1" using "4.prems"(3) by simp
  then obtain j where j: "search_vertex p tg = int j" "j < vertex_num g" using search_vertex_range sv by metis
  obtain tg1 where t1: "DFS n (search_vertex p tg) tg = Some tg1" "same_graph g tg1" "tg_k tg1 = tg_k tg + 1" "grown tg tg1"
    using "4.IH"(1) [OF "4.prems"(1,2) _ _ "4.prems"(4)] j by auto
  let ?t1 = "tg1\<lparr>tg_k := tg_k tg1 - 1\<rparr>"
  have m: "marks ?t1 = marks tg1" by (simp add: marks_def)
  have cm: "card (marks tg) \<le> card (marks tg1)" using t1(4) by (intro card_mono marks_bound(2)) (simp add: grown_def)
  have sk: "stack_ok g ?t1"
  proof -
    have s: "tg_k tg \<le> card (marks tg)" "\<forall>i < tg_k tg. 0 \<le> tg_path tg i \<and> tg_path tg i < int MAXV"
      using "4.prems"(2) unfolding stack_ok_def by blast+
    have e: "\<forall>i < tg_k tg. tg_path tg1 i = tg_path tg i" using t1(4) unfolding grown_def by blast
    have k: "tg_k ?t1 = tg_k tg" "tg_path ?t1 = tg_path tg1" "same_graph g ?t1" using t1(2,3) by (simp_all add: same_graph_def)
    have "tg_k ?t1 \<le> card (marks ?t1)" using s(1) cm k(1) m by simp
    moreover have "\<forall>i < tg_k ?t1. 0 \<le> tg_path ?t1 i \<and> tg_path ?t1 i < int MAXV" unfolding k using s(2) e by simp
    ultimately show ?thesis using k(3) unfolding stack_ok_def by blast
  qed
  have "{..<vertex_num g} - marks ?t1 \<subseteq> {..<vertex_num g} - marks tg" using t1(4) m by (auto simp: grown_def)
  then have "card ({..<vertex_num g} - marks ?t1) \<le> card ({..<vertex_num g} - marks tg)" by (rule card_mono [rotated]) simp
  then have "card ({..<vertex_num g} - marks ?t1) < n" using "4.prems"(4) by linarith
  then obtain tg2 where t2: "DFS_next n ps ?t1 = Some tg2" "same_graph g tg2" "tg_k tg2 = tg_k ?t1" "grown ?t1 tg2"
    using "4.IH"(2) [OF t1(1) "4.prems"(1) sk] "4.prems"(3) by auto
  have "grown tg ?t1" using t1(4) unfolding grown_def m by simp
  then have "grown tg tg2" using t2(4) by (rule grown_trans) (use t1(3) in simp)
  then show ?case using t1 t2 by simp
qed

lemma DFS_frame:
  "DFS n idx tg = Some tg' \<Longrightarrow> same_graph tg tg'"
  "DFS_next n ps tg = Some tg' \<Longrightarrow> same_graph tg tg'"
proof (induction n idx tg and n ps tg arbitrary: tg' and tg' rule: DFS_DFS_next.induct)
  case (1 idx tg)
  then show ?case by simp
next
  case (2 n idx tg)
  have p: "push_path i a = Some b \<Longrightarrow> same_graph a b" for i a b
    by (auto simp: push_path_def same_graph_def split: if_splits)
  have q: "print_deadlock a = Some b \<Longrightarrow> same_graph a b" for a b
    by (auto simp: print_deadlock_def same_graph_def split: if_splits)
  show ?case
  proof (cases "visited tg (nat idx) = 1")
    case True
    then show ?thesis using "2.prems" p q by (fastforce simp: bind_Some_iff same_graph_def split: if_splits)
  next
    case False
    then obtain tg1 where t: "\<not> (idx < 0 \<or> int MAXV \<le> idx)" "push_path idx (tg\<lparr>visited := (visited tg)(nat idx := 1)\<rparr>) = Some tg1"
      "DFS_next n (vx_next (vertex_list tg (nat idx))) tg1 = Some tg'"
      using "2.prems" by (auto simp: bind_Some_iff split: if_splits)
    show ?thesis using "2.IH" [OF t(1) False t(2,3)] p [OF t(2)] by (simp add: same_graph_def)
  qed
next
  case (3 n tg)
  then show ?case by (simp add: same_graph_def)
next
  case (4 n p ps tg)
  then obtain tg1 where t: "DFS n (search_vertex p tg) tg = Some tg1" "DFS_next n ps (tg1\<lparr>tg_k := tg_k tg1 - 1\<rparr>) = Some tg'"
    by (auto simp: bind_Some_iff)
  show ?case using "4.IH"(1) [OF t(1)] "4.IH"(2) [OF t] by (simp add: same_graph_def)
qed

section \<open>What a search without a report has seen\<close>

text \<open>A search that reports nothing meets every vertex for the first time, and what it marks is
  closed under the edges.\<close>

definition closed_new :: "task_graph \<Rightarrow> task_graph \<Rightarrow> task_graph \<Rightarrow> bool" where
  "closed_new g tg tg' \<longleftrightarrow> marks tg \<subseteq> marks tg' \<and>
     (\<forall>x\<in>marks tg' - marks tg. \<forall>p\<in>set (nexts g x). nat (search_vertex p g) \<in> marks tg' - marks tg)"

lemma push_frame:
  "push_path i tg = Some tg1 \<Longrightarrow> marks tg1 = marks tg \<and> same_graph tg tg1 \<and> deadlock tg1 = deadlock tg"
  by (auto simp: push_path_def marks_def same_graph_def split: if_splits)

lemma same_graph_trans: "same_graph g a \<Longrightarrow> same_graph a b \<Longrightarrow> same_graph g b"
  by (simp add: same_graph_def)

lemma DFS_clean:
  "graph_ok g \<Longrightarrow> same_graph g tg \<Longrightarrow> 0 \<le> idx \<Longrightarrow> idx < int (vertex_num g) \<Longrightarrow> DFS n idx tg = Some tg' \<Longrightarrow> deadlock tg' \<noteq> 1 \<Longrightarrow>
   deadlock tg \<noteq> 1 \<and> same_graph g tg' \<and> nat idx \<in> marks tg' - marks tg \<and> closed_new g tg tg'"
  "graph_ok g \<Longrightarrow> same_graph g tg \<Longrightarrow> \<forall>p\<in>set ps. search_vertex p g \<noteq> - 1 \<Longrightarrow> DFS_next n ps tg = Some tg' \<Longrightarrow> deadlock tg' \<noteq> 1 \<Longrightarrow>
   deadlock tg \<noteq> 1 \<and> same_graph g tg' \<and> (\<forall>p\<in>set ps. nat (search_vertex p g) \<in> marks tg' - marks tg) \<and> closed_new g tg tg'"
proof (induction n idx tg and n ps tg arbitrary: tg' and tg' rule: DFS_DFS_next.induct)
  case (1 idx tg)
  then show ?case by simp
next
  case (2 n idx tg)
  obtain j where j: "idx = int j" "j < vertex_num g" using "2.prems"(3,4) by (metis nonneg_int_cases of_nat_less_iff)
  have range: "\<not> (idx < 0 \<or> int MAXV \<le> idx)" using j "2.prems"(1) by (auto simp: graph_ok_def)
  have nv: "visited tg (nat idx) \<noteq> 1"
  proof
    assume "visited tg (nat idx) = 1"
    then show False using "2.prems"(5,6) range by (auto simp: bind_Some_iff)
  qed
  let ?tg0 = "tg\<lparr>visited := (visited tg)(nat idx := 1)\<rparr>"
  obtain tg1 where t1: "push_path idx ?tg0 = Some tg1" "DFS_next n (vx_next (vertex_list tg (nat idx))) tg1 = Some tg'"
    using "2.prems"(5) nv range by (auto simp: bind_Some_iff)
  have m0: "marks ?tg0 = insert j (marks tg)" and nj: "j \<notin> marks tg"
    using j nv "2.prems"(2) by (auto simp: marks_def same_graph_def)
  have m1: "marks tg1 = insert j (marks tg)" using push_frame [OF t1(1)] m0 by simp
  have sg1: "same_graph g tg1"
    using push_frame [OF t1(1)] "2.prems"(2) by (simp add: same_graph_def)
  have nx: "vx_next (vertex_list tg (nat idx)) = nexts g j" using "2.prems"(2) j(1) by (simp add: nexts_def same_graph_def)
  have ps: "\<forall>p\<in>set (nexts g j). search_vertex p g \<noteq> - 1" using "2.prems"(1) j(2) by (simp add: graph_ok_def)
  have IH: "deadlock tg1 \<noteq> 1 \<and> same_graph g tg' \<and>
    (\<forall>p\<in>set (vx_next (vertex_list tg (nat idx))). nat (search_vertex p g) \<in> marks tg' - marks tg1) \<and> closed_new g tg1 tg'"
    by (rule "2.IH" [OF range nv t1(1) "2.prems"(1) sg1 _ t1(2) "2.prems"(6)]) (use ps nx in simp)
  have d: "deadlock tg \<noteq> 1" using IH push_frame [OF t1(1)] by simp
  have "marks tg' - marks tg = insert j (marks tg' - marks tg1)"
    using IH nj unfolding closed_new_def m1 by blast
  then have "closed_new g tg tg'" using IH unfolding closed_new_def m1 nx by auto
  moreover have "nat idx \<in> marks tg' - marks tg" using IH nj j(1) unfolding closed_new_def m1 by simp
  ultimately show ?case using IH d by blast
next
  case (3 n tg)
  then show ?case by (simp add: closed_new_def)
next
  case (4 n p ps tg)
  have sv: "search_vertex p tg = search_vertex p g" by (rule search_vertex_graph [OF "4.prems"(2)])
  have "search_vertex p g \<noteq> - 1" using "4.prems"(3) by simp
  then obtain j where j: "search_vertex p g = int j" "j < vertex_num g" using search_vertex_range by metis
  obtain tg1 where t1: "DFS n (search_vertex p tg) tg = Some tg1"
    "DFS_next n ps (tg1\<lparr>tg_k := tg_k tg1 - 1\<rparr>) = Some tg'"
    using "4.prems"(4) by (auto simp: bind_Some_iff)
  let ?t1 = "tg1\<lparr>tg_k := tg_k tg1 - 1\<rparr>"
  have m: "marks ?t1 = marks tg1" by (simp add: marks_def)
  have sgx: "same_graph g ?t1" if "same_graph g tg1" using that by (simp add: same_graph_def)
  have "same_graph g tg1"
  proof -
    have "\<And>n i s s'. DFS n i s = Some s' \<Longrightarrow> same_graph s s'" and "\<And>n qs s s'. DFS_next n qs s = Some s' \<Longrightarrow> same_graph s s'"
      using DFS_frame by blast+
    then show ?thesis using t1(1) same_graph_trans "4.prems"(2) by blast
  qed
  note IH2 = "4.IH"(2) [OF t1(1) "4.prems"(1) sgx [OF this] _ t1(2) "4.prems"(5)]
  have 2: "deadlock tg1 \<noteq> 1 \<and> same_graph g tg' \<and> (\<forall>p\<in>set ps. nat (search_vertex p g) \<in> marks tg' - marks tg1) \<and> closed_new g ?t1 tg'"
    using IH2 "4.prems"(3) unfolding m by simp
  have 1: "deadlock tg \<noteq> 1 \<and> same_graph g tg1 \<and> nat (search_vertex p tg) \<in> marks tg1 - marks tg \<and> closed_new g tg tg1"
    by (rule "4.IH"(1) [OF "4.prems"(1,2) _ _ t1(1)]) (use j sv 2 in simp_all)
  have "closed_new g tg tg'" using 1 2 unfolding closed_new_def m by blast
  moreover have "\<forall>q\<in>set (p # ps). nat (search_vertex q g) \<in> marks tg' - marks tg"
    using 1 2 sv unfolding closed_new_def m by auto
  ultimately show ?case using 1 2 by blast
qed

section \<open>What a report means when no thread waits for two\<close>

lemma edgeI: "i < vertex_num g \<Longrightarrow> p \<in> set (nexts g i) \<Longrightarrow> search_vertex p g = int j \<Longrightarrow> (i, j) \<in> edges g"
  by (auto simp: edges_def)

lemma DFS_report:
  "graph_ok g \<Longrightarrow> \<forall>i < vertex_num g. length (nexts g i) \<le> 1 \<Longrightarrow> same_graph g tg \<Longrightarrow> idx = int j \<Longrightarrow> j < vertex_num g \<Longrightarrow>
   \<forall>x\<in>marks tg. (x, j) \<in> (edges g)\<^sup>+ \<Longrightarrow> DFS n idx tg = Some tg' \<Longrightarrow> deadlock tg \<noteq> 1 \<Longrightarrow> deadlock tg' = 1 \<Longrightarrow>
   \<exists>x. (x, x) \<in> (edges g)\<^sup>+"
  "graph_ok g \<Longrightarrow> \<forall>i < vertex_num g. length (nexts g i) \<le> 1 \<Longrightarrow> same_graph g tg \<Longrightarrow> j < vertex_num g \<Longrightarrow>
   set ps \<subseteq> set (nexts g j) \<Longrightarrow> length ps \<le> 1 \<Longrightarrow> \<forall>x\<in>marks tg. (x, j) \<in> (edges g)\<^sup>* \<Longrightarrow> DFS_next n ps tg = Some tg' \<Longrightarrow>
   deadlock tg \<noteq> 1 \<Longrightarrow> deadlock tg' = 1 \<Longrightarrow> \<exists>x. (x, x) \<in> (edges g)\<^sup>+"
proof (induction n idx tg and n ps tg arbitrary: j tg' and j tg' rule: DFS_DFS_next.induct)
  case (1 idx tg)
  then show ?case by simp
next
  case (2 n idx tg)
  have range: "\<not> (idx < 0 \<or> int MAXV \<le> idx)" using "2.prems"(1,4,5) by (auto simp: graph_ok_def)
  show ?case
  proof (cases "visited tg (nat idx) = 1")
    case True
    then have "j \<in> marks tg" using "2.prems"(3,4,5) by (simp add: marks_def same_graph_def)
    then show ?thesis using "2.prems"(6) by blast
  next
    case nv: False
    let ?tg0 = "tg\<lparr>visited := (visited tg)(nat idx := 1)\<rparr>"
    obtain tg1 where t1: "push_path idx ?tg0 = Some tg1" "DFS_next n (vx_next (vertex_list tg (nat idx))) tg1 = Some tg'"
      using "2.prems"(7) nv range by (auto simp: bind_Some_iff)
    have nx: "vx_next (vertex_list tg (nat idx)) = nexts g j" using "2.prems"(3,4) by (simp add: nexts_def same_graph_def)
    have sg1: "same_graph g tg1" using push_frame [OF t1(1)] "2.prems"(3) by (simp add: same_graph_def)
    have "marks ?tg0 = insert j (marks tg)" using "2.prems"(3,4,5) by (auto simp: marks_def same_graph_def)
    then have me: "marks tg1 = insert j (marks tg)" using push_frame [OF t1(1)] by simp
    have m1: "\<forall>x\<in>marks tg1. (x, j) \<in> (edges g)\<^sup>*"
    proof
      fix x assume "x \<in> marks tg1"
      then consider "x = j" | "x \<in> marks tg" unfolding me by blast
      then show "(x, j) \<in> (edges g)\<^sup>*"
      proof cases
        case 2
        then have "(x, j) \<in> (edges g)\<^sup>+" by (rule "2.prems"(6) [rule_format])
        then show ?thesis by (rule trancl_into_rtrancl)
      qed simp
    qed
    have d1: "deadlock tg1 \<noteq> 1" using push_frame [OF t1(1)] "2.prems"(8) by simp
    have l: "length (vx_next (vertex_list tg (nat idx))) \<le> 1" "set (vx_next (vertex_list tg (nat idx))) \<subseteq> set (nexts g j)"
      using "2.prems"(2,5) nx by auto
    show ?thesis by (rule "2.IH" [OF range nv t1(1) "2.prems"(1,2) sg1 "2.prems"(5) l(2,1) m1 t1(2) d1 "2.prems"(9)])
  qed
next
  case (3 n tg)
  then show ?case by simp
next
  case (4 n p ps tg)
  have e: "ps = []" using "4.prems"(6) by simp
  have p: "p \<in> set (nexts g j)" using "4.prems"(5) by simp
  then have "search_vertex p g \<noteq> - 1" using "4.prems"(1,4) by (auto simp: graph_ok_def)
  then obtain i where i: "search_vertex p g = int i" "i < vertex_num g" using search_vertex_range by metis
  have sv: "search_vertex p tg = int i" using search_vertex_graph [OF "4.prems"(3)] i(1) by simp
  obtain tg1 where t1: "DFS n (search_vertex p tg) tg = Some tg1" "deadlock tg1 = 1"
    using "4.prems"(8,10) e by (auto simp: bind_Some_iff)
  have "(j, i) \<in> edges g" by (rule edgeI [OF "4.prems"(4) p i(1)])
  then have "\<forall>x\<in>marks tg. (x, i) \<in> (edges g)\<^sup>+" using "4.prems"(7) by (auto intro: rtrancl_into_trancl1)
  then show ?case by (rule "4.IH"(1) [OF "4.prems"(1-3) sv i(2) _ t1(1) "4.prems"(9) t1(2)])
qed

section \<open>The loops\<close>

definition root_ok :: "task_graph \<Rightarrow> nat \<Rightarrow> task_graph \<Rightarrow> bool" where
  "root_ok g r tg \<longleftrightarrow> same_graph g tg \<and> visited tg r = 1 \<and> tg_path tg 0 = int r"

lemma cleared:
  assumes "graph_ok g" and "r < vertex_num g" and "root_ok g r tg"
  defines "tg1 \<equiv> tg\<lparr>visited := (\<lambda>i. if i < vertex_num tg \<and> i \<noteq> r then 0 else visited tg i),
            tg_path := (\<lambda>i. if 1 \<le> i \<and> i \<le> MAXV then - 1 else tg_path tg i), tg_k := 1\<rparr>"
  shows "same_graph g tg1" and "marks tg1 = {r}" and "stack_ok g tg1" and "deadlock tg1 = deadlock tg"
    and "card ({..<vertex_num g} - marks tg1) < MAXV + 1"
proof -
  show s: "same_graph g tg1" using assms(3) by (simp add: tg1_def root_ok_def same_graph_def)
  show m: "marks tg1 = {r}" using assms(2,3) by (auto simp: tg1_def marks_def root_ok_def same_graph_def)
  show "stack_ok g tg1" unfolding stack_ok_def m using s assms(1-3) by (simp add: tg1_def root_ok_def graph_ok_def)
  show "deadlock tg1 = deadlock tg" by (simp add: tg1_def)
  have "card ({..<vertex_num g} - marks tg1) \<le> card {..<vertex_num g}" by (intro card_mono) auto
  then show "card ({..<vertex_num g} - marks tg1) < MAXV + 1" using assms(1) by (simp add: graph_ok_def)
qed

lemma cycle_loop_spec:
  assumes "graph_ok g" and "r < vertex_num g"
  shows "root_ok g r tg \<Longrightarrow> set ps \<subseteq> set (nexts g r) \<Longrightarrow>
    \<exists>tg'. cycle_loop r ps tg = Some tg' \<and> same_graph g tg' \<and> (deadlock tg' = deadlock tg \<or> deadlock tg' = 1) \<and>
      (deadlock tg = 1 \<longrightarrow> deadlock tg' = 1) \<and>
      (deadlock tg' \<noteq> 1 \<longrightarrow> (\<forall>p\<in>set ps. (nat (search_vertex p g), r) \<notin> (edges g)\<^sup>*)) \<and>
      (deadlock tg \<noteq> 1 \<longrightarrow> deadlock tg' = 1 \<longrightarrow> (\<forall>i < vertex_num g. length (nexts g i) \<le> 1) \<longrightarrow> (\<exists>x. (x, x) \<in> (edges g)\<^sup>+))"
proof (induction ps arbitrary: tg)
  case Nil
  then show ?case by (simp add: root_ok_def)
next
  case (Cons p ps)
  let ?t1 = "tg\<lparr>visited := (\<lambda>i. if i < vertex_num tg \<and> i \<noteq> r then 0 else visited tg i),
            tg_path := (\<lambda>i. if 1 \<le> i \<and> i \<le> MAXV then - 1 else tg_path tg i), tg_k := 1\<rparr>"
  note c = cleared [OF assms Cons.prems(1)]
  have p: "p \<in> set (nexts g r)" using Cons.prems(2) by simp
  then have "search_vertex p g \<noteq> - 1" using assms by (auto simp: graph_ok_def)
  then obtain j where j: "search_vertex p g = int j" "j < vertex_num g" using search_vertex_range by metis
  have sv: "search_vertex p ?t1 = int j" using search_vertex_graph [OF c(1)] j(1) by simp
  have e: "(r, j) \<in> edges g" by (rule edgeI [OF assms(2) p j(1)])
  obtain tg2 where t2: "DFS (MAXV + 1) (int j) ?t1 = Some tg2" "same_graph g tg2" "grown ?t1 tg2"
    using DFS_runs(1) [OF assms(1) c(3) _ _ c(5), of "int j"] j(2) by auto
  have w: "cycle_loop r (p # ps) tg = cycle_loop r ps tg2" using sv t2(1) by (simp add: Let_def)
  have "tg_path tg2 0 = tg_path ?t1 0" using t2(3) unfolding grown_def by simp
  then have r2: "root_ok g r tg2"
    using t2(2,3) Cons.prems(1) c(2) assms(2) by (auto simp: root_ok_def grown_def marks_def)
  obtain tg' where t': "cycle_loop r ps tg2 = Some tg'" "same_graph g tg'" "deadlock tg' = deadlock tg2 \<or> deadlock tg' = 1"
    "deadlock tg2 = 1 \<longrightarrow> deadlock tg' = 1" "deadlock tg' \<noteq> 1 \<longrightarrow> (\<forall>p\<in>set ps. (nat (search_vertex p g), r) \<notin> (edges g)\<^sup>*)"
    "deadlock tg2 \<noteq> 1 \<longrightarrow> deadlock tg' = 1 \<longrightarrow> (\<forall>i < vertex_num g. length (nexts g i) \<le> 1) \<longrightarrow> (\<exists>x. (x, x) \<in> (edges g)\<^sup>+)"
    using Cons.IH [OF r2] Cons.prems(2) by auto
  have d2: "deadlock tg2 = deadlock tg \<or> deadlock tg2 = 1" "deadlock tg = 1 \<longrightarrow> deadlock tg2 = 1"
    using t2(3) c(4) unfolding grown_def by auto
  have away: "(j, r) \<notin> (edges g)\<^sup>*" if d: "deadlock tg' \<noteq> 1"
  proof
    have n2: "deadlock tg2 \<noteq> 1" using d t'(4) by blast
    have cl: "nat (int j) \<in> marks tg2 - marks ?t1 \<and> closed_new g ?t1 tg2"
      using DFS_clean(1) [OF assms(1) c(1) _ _ t2(1) n2] j(2) by simp
    have in_new: "z \<in> marks tg2 - marks ?t1" if "(j, z) \<in> (edges g)\<^sup>*" for z
      using that
    proof (induction rule: rtrancl_induct)
      case base
      then show ?case using cl by (simp only: nat_int)
    next
      case (step y z)
      then obtain q where q: "q \<in> set (nexts g y)" "search_vertex q g = int z" by (auto simp: edges_def)
      have qs: "\<forall>q\<in>set (nexts g y). nat (search_vertex q g) \<in> marks tg2 - marks ?t1"
        using cl step(3) unfolding closed_new_def by (elim conjE) (rule bspec)
      have "nat (search_vertex q g) \<in> marks tg2 - marks ?t1" by (rule bspec [OF qs q(1)])
      then show ?case unfolding q(2) nat_int .
    qed
    assume "(j, r) \<in> (edges g)\<^sup>*"
    from in_new [OF this]
    show False unfolding c(2) by simp
  qed
  have rep: "\<exists>x. (x, x) \<in> (edges g)\<^sup>+"
    if "deadlock tg \<noteq> 1" "deadlock tg2 = 1" "\<forall>i < vertex_num g. length (nexts g i) \<le> 1"
  proof (rule DFS_report(1) [OF assms(1) that(3) c(1) refl j(2) _ t2(1) _ that(2)])
    show "\<forall>x\<in>marks ?t1. (x, j) \<in> (edges g)\<^sup>+" unfolding c(2) using e by auto
    show "deadlock ?t1 \<noteq> 1" using c(4) that(1) by simp
  qed
  show ?case unfolding w
  proof (intro exI [of _ tg'] conjI)
    show "deadlock tg' \<noteq> 1 \<longrightarrow> (\<forall>p\<in>set (p # ps). (nat (search_vertex p g), r) \<notin> (edges g)\<^sup>*)"
      using away t'(5) j(1) by simp
    show "deadlock tg \<noteq> 1 \<longrightarrow> deadlock tg' = 1 \<longrightarrow> (\<forall>i < vertex_num g. length (nexts g i) \<le> 1) \<longrightarrow> (\<exists>x. (x, x) \<in> (edges g)\<^sup>+)"
      using rep t'(6) by blast
  qed (use t' d2 in auto)
qed

lemma check_loop_spec:
  assumes "graph_ok g"
  shows "same_graph g tg \<Longrightarrow>
    \<exists>tg'. check_loop (vertex_num g) i tg = Some tg' \<and> same_graph g tg' \<and> (deadlock tg' = deadlock tg \<or> deadlock tg' = 1) \<and>
      (deadlock tg' \<noteq> 1 \<longrightarrow> (\<forall>r. i \<le> r \<longrightarrow> r < vertex_num g \<longrightarrow> (r, r) \<notin> (edges g)\<^sup>+)) \<and>
      (deadlock tg \<noteq> 1 \<longrightarrow> deadlock tg' = 1 \<longrightarrow> (\<forall>i < vertex_num g. length (nexts g i) \<le> 1) \<longrightarrow> (\<exists>x. (x, x) \<in> (edges g)\<^sup>+))"
proof (induction "vertex_num g - i" arbitrary: i tg)
  case 0
  then show ?case by (subst check_loop.simps) auto
next
  case (Suc d)
  then have i: "i < vertex_num g" by simp
  show ?case
  proof (cases "deadlock tg = 1")
    case True
    then show ?thesis using i Suc.prems by (subst check_loop.simps) simp
  next
    case False
    let ?t0 = "tg\<lparr>visited := (visited tg)(i := 1), tg_k := 1, tg_path := (tg_path tg)(0 := int i)\<rparr>"
    have r0: "root_ok g i ?t0" using Suc.prems by (simp add: root_ok_def same_graph_def)
    have iM: "i < MAXV" using i assms by (simp add: graph_ok_def)
    have nx: "vx_next (vertex_list tg i) = nexts g i" using Suc.prems by (simp add: nexts_def same_graph_def)
    obtain tg1 where t1: "cycle_loop i (nexts g i) ?t0 = Some tg1" "same_graph g tg1" "deadlock tg1 = deadlock ?t0 \<or> deadlock tg1 = 1"
      "deadlock tg1 \<noteq> 1 \<longrightarrow> (\<forall>p\<in>set (nexts g i). (nat (search_vertex p g), i) \<notin> (edges g)\<^sup>*)"
      "deadlock ?t0 \<noteq> 1 \<longrightarrow> deadlock tg1 = 1 \<longrightarrow> (\<forall>i < vertex_num g. length (nexts g i) \<le> 1) \<longrightarrow> (\<exists>x. (x, x) \<in> (edges g)\<^sup>+)"
      using cycle_loop_spec [OF assms i r0, of "nexts g i"] by auto
    have w: "check_loop (vertex_num g) i tg = check_loop (vertex_num g) (i + 1) tg1"
      using i iM False t1(1) nx by (subst check_loop.simps) (simp add: search_for_cycle_def)
    obtain tg' where t': "check_loop (vertex_num g) (i + 1) tg1 = Some tg'" "same_graph g tg'" "deadlock tg' = deadlock tg1 \<or> deadlock tg' = 1"
      "deadlock tg' \<noteq> 1 \<longrightarrow> (\<forall>r. i + 1 \<le> r \<longrightarrow> r < vertex_num g \<longrightarrow> (r, r) \<notin> (edges g)\<^sup>+)"
      "deadlock tg1 \<noteq> 1 \<longrightarrow> deadlock tg' = 1 \<longrightarrow> (\<forall>i < vertex_num g. length (nexts g i) \<le> 1) \<longrightarrow> (\<exists>x. (x, x) \<in> (edges g)\<^sup>+)"
    proof -
      have "d = vertex_num g - (i + 1)" using Suc.hyps(2) by simp
      from Suc.hyps(1) [OF this t1(2)] show ?thesis by (elim exE conjE) (rule that)
    qed
    have d: "deadlock tg1 \<noteq> 1" if "deadlock tg' \<noteq> 1" using that t'(3) by auto
    have ii: "(i, i) \<notin> (edges g)\<^sup>+" if "deadlock tg' \<noteq> 1"
    proof
      assume "(i, i) \<in> (edges g)\<^sup>+"
      then obtain j where "(i, j) \<in> edges g" "(j, i) \<in> (edges g)\<^sup>*" by (meson tranclD)
      then show False using t1(4) d [OF that] by (auto simp: edges_def)
    qed
    have s: "i \<le> r \<longleftrightarrow> r = i \<or> i + 1 \<le> r" for r by auto
    have dt: "deadlock ?t0 = deadlock tg" by simp
    show ?thesis unfolding w
    proof (intro exI [of _ tg'] conjI)
      show "deadlock tg' \<noteq> 1 \<longrightarrow> (\<forall>r. i \<le> r \<longrightarrow> r < vertex_num g \<longrightarrow> (r, r) \<notin> (edges g)\<^sup>+)"
        using ii t'(4) unfolding s by blast
      show "deadlock tg \<noteq> 1 \<longrightarrow> deadlock tg' = 1 \<longrightarrow> (\<forall>i < vertex_num g. length (nexts g i) \<le> 1) \<longrightarrow> (\<exists>x. (x, x) \<in> (edges g)\<^sup>+)"
        using t'(5) t1(5) dt by metis
    qed (use t' t1(3) dt in auto)
  qed
qed

end
