(* ===== verification/Deadlock_Hooks.thy ===== *)
theory Deadlock_Hooks
  imports Deadlock_Search
begin

text \<open>
  The hooks around the mutexes: what they keep of the graph and of the lock list in every reachable
  state, and the properties of the detector.
\<close>

section \<open>Vertices and locks found\<close>

lemma search_vertex_iff: "search_vertex p tg \<noteq> - 1 \<longleftrightarrow> (\<exists>j < vertex_num tg. vmatch tg p j)"
  by (rule search_vertex_cases [of p tg]) auto

lemma lock_from_spec:
  "lock_from tg l i = - 1 \<and> (\<forall>j. i \<le> j \<longrightarrow> j < lock_num tg \<longrightarrow> lock_id (lock_list tg j) \<noteq> l) \<or>
   (\<exists>j. lock_from tg l i = int j \<and> j < lock_num tg \<and> lock_id (lock_list tg j) = l)"
proof (induction "lock_num tg - i" arbitrary: i)
  case 0
  then show ?case by (subst lock_from.simps) auto
next
  case (Suc d)
  then have i: "i < lock_num tg" and d: "d = lock_num tg - (i + 1)" by auto
  show ?case
  proof (cases "lock_id (lock_list tg i) = l")
    case True
    then show ?thesis using i by (subst lock_from.simps) auto
  next
    case False
    then have e: "lock_from tg l i = lock_from tg l (i + 1)" using i by (subst lock_from.simps) simp
    have s: "i \<le> k \<longleftrightarrow> k = i \<or> i + 1 \<le> k" for k by auto
    show ?thesis using Suc.hyps(1) [OF d] False unfolding e s by blast
  qed
qed

lemma search_lock_iff: "search_lock l tg \<noteq> - 1 \<longleftrightarrow> (\<exists>j < lock_num tg. lock_id (lock_list tg j) = l)"
  using lock_from_spec [of tg l 0] unfolding search_lock_def by auto

lemma search_lock_found:
  assumes "search_lock l tg \<noteq> - 1"
  shows "\<exists>j. search_lock l tg = int j \<and> j < lock_num tg \<and> lock_id (lock_list tg j) = l"
  using lock_from_spec [of tg l 0] assms unfolding search_lock_def by auto

lemma search_empty_lock_spec:
  "search_empty_lock tg = lock_num tg \<or> search_empty_lock tg < lock_num tg \<and> lock_id (lock_list tg (search_empty_lock tg)) = 0"
  using lock_from_spec [of tg 0 0] unfolding search_empty_lock_def Let_def by auto

section \<open>What the hooks keep\<close>

definition same_locks :: "task_graph \<Rightarrow> task_graph \<Rightarrow> bool" where
  "same_locks tg tg' \<longleftrightarrow> lock_num tg' = lock_num tg \<and> (\<forall>i. lock_id (lock_list tg' i) = lock_id (lock_list tg i))"

lemma graph_ok_iff:
  "graph_ok g \<longleftrightarrow> vertex_num g \<le> MAXV \<and> (\<forall>i < vertex_num g. \<forall>p\<in>set (nexts g i). \<exists>j < vertex_num g. vmatch g p j)"
  unfolding graph_ok_def search_vertex_iff ..

lemma add_vertex_ok:
  assumes "graph_ok tg" and "add_vertex p tg = Some tg'"
  shows "graph_ok tg'" and "search_vertex p tg' \<noteq> - 1" and "same_locks tg tg'" and "lock_list tg' = lock_list tg"
    and "search_vertex q tg \<noteq> - 1 \<Longrightarrow> search_vertex q tg' \<noteq> - 1"
proof -
  consider (old) "search_vertex p tg \<noteq> - 1" "tg' = tg"
    | (new) "vertex_num tg < MAXV" "tg' = tg\<lparr>vertex_list := (vertex_list tg)(vertex_num tg := \<lparr>vx_pair = p, vx_next = []\<rparr>),
        vertex_num := vertex_num tg + 1\<rparr>"
  proof (cases "search_vertex p tg = - 1")
    case True
    then have "vertex_num tg < MAXV" using assms(2) unfolding add_vertex_def by (cases "vertex_num tg < MAXV") simp_all
    then show ?thesis using that(2) assms(2) True unfolding add_vertex_def by simp
  next
    case False
    then show ?thesis using that(1) assms(2) unfolding add_vertex_def by simp
  qed
  then have "graph_ok tg' \<and> search_vertex p tg' \<noteq> - 1 \<and> same_locks tg tg' \<and> lock_list tg' = lock_list tg \<and>
    (search_vertex q tg \<noteq> - 1 \<longrightarrow> search_vertex q tg' \<noteq> - 1)" for q
  proof cases
    case old
    then show ?thesis using assms(1) by (simp add: same_locks_def)
  next
    case new
    have m: "vmatch tg' q j \<longleftrightarrow> vmatch tg q j" if "j < vertex_num tg" for q j
      using that new(2) by (simp add: vmatch_def)
    have mp: "vmatch tg' p (vertex_num tg)" using new(2) by (simp add: vmatch_def)
    have n: "nexts tg' i = (if i = vertex_num tg then [] else nexts tg i)" for i using new(2) by (simp add: nexts_def)
    have v: "vertex_num tg' = vertex_num tg + 1" using new(2) by simp
    have q: "\<exists>j < vertex_num tg'. vmatch tg' q j" if ex: "\<exists>j < vertex_num tg. vmatch tg q j" for q
    proof -
      obtain j where j: "j < vertex_num tg" "vmatch tg q j" using ex by blast
      then show ?thesis using m [OF j(1)] v by (intro exI [of _ j]) simp
    qed
    have "graph_ok tg'" unfolding graph_ok_iff
    proof (intro conjI allI impI ballI)
      show "vertex_num tg' \<le> MAXV" using new(1) v by simp
      fix i r assume i: "i < vertex_num tg'" and r: "r \<in> set (nexts tg' i)"
      then have "i < vertex_num tg" "r \<in> set (nexts tg i)" using v n by (auto split: if_splits)
      then have "\<exists>j < vertex_num tg. vmatch tg r j" using assms(1) unfolding graph_ok_iff by blast
      then show "\<exists>j < vertex_num tg'. vmatch tg' r j" by (rule q)
    qed
    moreover have "\<exists>j < vertex_num tg'. vmatch tg' p j" using mp v by auto
    ultimately show ?thesis using q new(2) unfolding search_vertex_iff by (auto simp: same_locks_def)
  qed
  then show "graph_ok tg'" and "search_vertex p tg' \<noteq> - 1" and "same_locks tg tg'" and "lock_list tg' = lock_list tg"
    and "search_vertex q tg \<noteq> - 1 \<Longrightarrow> search_vertex q tg' \<noteq> - 1" by blast+
qed

text \<open>Changing the chains only.\<close>

lemma rechain_ok:
  assumes "graph_ok tg" and "\<And>i. vx_pair (vl i) = vx_pair (vertex_list tg i)"
    and "\<And>i p. i < vertex_num tg \<Longrightarrow> p \<in> set (vx_next (vl i)) \<Longrightarrow> p \<in> set (nexts tg i) \<or> search_vertex p tg \<noteq> - 1"
  shows "graph_ok (tg\<lparr>vertex_list := vl\<rparr>)"
proof -
  have m: "vmatch (tg\<lparr>vertex_list := vl\<rparr>) q j = vmatch tg q j" for q j using assms(2) by (simp add: vmatch_def)
  have "\<exists>j < vertex_num tg. vmatch tg p j" if "i < vertex_num tg" "p \<in> set (vx_next (vl i))" for i p
    using assms(1) assms(3) [OF that] that(1) unfolding graph_ok_iff search_vertex_iff by blast
  then show ?thesis using assms(1) unfolding graph_ok_iff m by (simp add: nexts_def)
qed

lemma add_edge_ok:
  assumes "graph_ok tg" and "add_edge u v tg = Some tg'"
  shows "graph_ok tg'" and "same_locks tg tg'" and "lock_list tg' = lock_list tg"
proof -
  obtain tg1 tg2 where t: "add_vertex u tg = Some tg1" "add_vertex v tg1 = Some tg2"
    "tg' = tg2\<lparr>vertex_list := (vertex_list tg2)(nat (search_vertex u tg2) := (vertex_list tg2 (nat (search_vertex u tg2)))
       \<lparr>vx_next := vx_next (vertex_list tg2 (nat (search_vertex u tg2))) @ [v]\<rparr>)\<rparr>"
    using assms(2) by (auto simp: add_edge_def bind_Some_iff Let_def)
  note 1 = add_vertex_ok [OF assms(1) t(1)]
  note 2 = add_vertex_ok [OF 1(1) t(2)]
  show "graph_ok tg'" unfolding t(3)
    by (rule rechain_ok [OF 2(1)]) (use 2(2) in \<open>auto simp: nexts_def split: if_splits\<close>)
  show "same_locks tg tg'" "lock_list tg' = lock_list tg" using 1(3,4) 2(3,4) t(3) by (simp_all add: same_locks_def)
qed

lemma remove_next_subset: "set (remove_next t ps) \<subseteq> set ps"
  by (induction ps) auto

lemma remove_edge_ok:
  assumes "graph_ok tg"
  shows "graph_ok (remove_edge u v tg)" and "same_locks tg (remove_edge u v tg)"
    and "lock_list (remove_edge u v tg) = lock_list tg"
proof -
  have r: "\<And>t q ps. q \<in> set (remove_next t ps) \<Longrightarrow> q \<in> set ps" using remove_next_subset by blast
  show "graph_ok (remove_edge u v tg)" unfolding remove_edge_def Let_def
    using assms by (auto intro!: rechain_ok [OF assms] dest: r simp: nexts_def split: if_splits)
  show "same_locks tg (remove_edge u v tg)" "lock_list (remove_edge u v tg) = lock_list tg"
    by (simp_all add: remove_edge_def Let_def same_locks_def)
qed

lemma graph_ok_locks [simp]: "graph_ok (tg\<lparr>lock_list := L\<rparr>) = graph_ok tg" "graph_ok (tg\<lparr>lock_num := k\<rparr>) = graph_ok tg"
  by (simp_all add: graph_ok_iff nexts_def vmatch_def)

lemma lock_before_ok:
  assumes ok: "graph_ok tg" and "lock_before stk t l tg = Some tg'"
  shows "graph_ok tg'" and "same_locks tg tg'"
proof -
  have "graph_ok tg' \<and> same_locks tg tg'"
  proof (cases "search_lock l tg = - 1")
    case True
    then show ?thesis using assms by (simp add: lock_before_def same_locks_def)
  next
    case False
    let ?j = "nat (search_lock l tg)" and ?u = "thread_pair stk t"
    obtain tg1 where t1: "add_vertex ?u tg = Some tg1" using assms(2) False by (auto simp: lock_before_def bind_Some_iff Let_def)
    let ?v = "thread_pair stk (th_id (lock_list tg1 ?j))"
    let ?tg2 = "tg1\<lparr>lock_list := (lock_list tg1)(?j := (lock_list tg1 ?j)\<lparr>degress := degress (lock_list tg1 ?j) + 1\<rparr>)\<rparr>"
    obtain tg3 where t3: "add_vertex ?v ?tg2 = Some tg3"
      "(if \<not> verify_edge ?u ?v tg3 then add_edge ?u ?v tg3 else Some tg3) = Some tg'"
      using assms(2) False t1 by (auto simp: lock_before_def bind_Some_iff Let_def)
    note 1 = add_vertex_ok [OF ok t1]
    have 2: "graph_ok ?tg2" using 1(1) by simp
    note 3 = add_vertex_ok [OF 2 t3(1)]
    have l3: "same_locks tg tg3" using 1(3) 3(3) by (auto simp: same_locks_def)
    show ?thesis
    proof (cases "verify_edge ?u ?v tg3")
      case True
      then show ?thesis using t3(2) 3(1) l3 by simp
    next
      case False
      then have "add_edge ?u ?v tg3 = Some tg'" using t3(2) by simp
      then show ?thesis using add_edge_ok [OF 3(1)] l3 by (auto simp: same_locks_def)
    qed
  qed
  then show "graph_ok tg'" and "same_locks tg tg'" by blast+
qed

lemma lock_after_ok:
  assumes ok: "graph_ok tg" and "lock_after stk t l tg = Some tg'"
  shows "graph_ok tg'" and "search_lock l tg' \<noteq> - 1" and "m \<noteq> 0 \<Longrightarrow> search_lock m tg \<noteq> - 1 \<Longrightarrow> search_lock m tg' \<noteq> - 1"
proof -
  have "graph_ok tg' \<and> search_lock l tg' \<noteq> - 1 \<and> (m \<noteq> 0 \<longrightarrow> search_lock m tg \<noteq> - 1 \<longrightarrow> search_lock m tg' \<noteq> - 1)" for m
  proof (cases "search_lock l tg = - 1")
    case True
    let ?e = "search_empty_lock tg"
    let ?tg1 = "tg\<lparr>lock_list := (lock_list tg)(?e := (lock_list tg ?e)\<lparr>th_id := t, lock_id := l\<rparr>)\<rparr>"
    have t: "?e < MAXV" "tg' = (if lock_num tg \<le> ?e then inc_lock_num 1 ?tg1 else ?tg1)"
      using assms(2) True by (auto simp: lock_after_def Let_def split: if_splits)
    have g: "graph_ok tg'" using ok t(2) by (auto simp: inc_lock_num_def)
    have ll: "lock_list tg' = lock_list ?tg1" using t(2) by (auto simp: inc_lock_num_def)
    have ln: "lock_num tg \<le> lock_num tg'" "?e < lock_num tg'"
      using t(2) search_empty_lock_spec [of tg] by (auto simp: inc_lock_num_def split: if_splits)
    have "\<exists>j < lock_num tg'. lock_id (lock_list tg' j) = l" using ln(2) unfolding ll by auto
    moreover have "\<exists>j < lock_num tg'. lock_id (lock_list tg' j) = m" if m: "m \<noteq> 0" "\<exists>j < lock_num tg. lock_id (lock_list tg j) = m"
    proof -
      obtain j where j: "j < lock_num tg" "lock_id (lock_list tg j) = m" using m(2) by blast
      have "j \<noteq> ?e" using search_empty_lock_spec [of tg] j m(1) by auto
      then show ?thesis using j ln(1) unfolding ll by (intro exI [of _ j]) simp
    qed
    ultimately show ?thesis using g unfolding search_lock_iff by blast
  next
    case False
    let ?j = "nat (search_lock l tg)" and ?u = "thread_pair stk t" and ?v = "thread_pair stk (th_id (lock_list tg (nat (search_lock l tg))))"
    let ?tg1 = "tg\<lparr>lock_list := (lock_list tg)(?j := (lock_list tg ?j)\<lparr>degress := degress (lock_list tg ?j) - 1\<rparr>)\<rparr>"
    let ?tg2 = "if verify_edge ?u ?v ?tg1 then remove_edge ?u ?v ?tg1 else ?tg1"
    have t: "tg' = ?tg2\<lparr>lock_list := (lock_list ?tg2)(?j := (lock_list ?tg2 ?j)\<lparr>th_id := t\<rparr>)\<rparr>"
      using assms(2) False unfolding lock_after_def Let_def by simp
    have g1: "graph_ok ?tg1" using ok by simp
    have "graph_ok ?tg2" "same_locks ?tg1 ?tg2" using remove_edge_ok [OF g1] g1 by (auto simp: same_locks_def)
    then have "graph_ok tg'" "same_locks tg tg'" unfolding t by (auto simp: same_locks_def)
    then show ?thesis using False unfolding search_lock_iff same_locks_def by simp
  qed
  then show "graph_ok tg'" and "search_lock l tg' \<noteq> - 1" and "m \<noteq> 0 \<Longrightarrow> search_lock m tg \<noteq> - 1 \<Longrightarrow> search_lock m tg' \<noteq> - 1"
    by blast+
qed

section \<open>The checking thread\<close>

text \<open>Its steps from the first vertex on amount to the check that nothing disturbs.\<close>

fun searching :: "checker \<Rightarrow> bool" where
  "searching Asleep = False"
| "searching (Printing i) = False"
| "searching c = True"












text \<open>The lock list plays no part in it.\<close>

definition with_locks :: "(nat \<Rightarrow> pair_t) \<Rightarrow> nat \<Rightarrow> task_graph \<Rightarrow> task_graph" where
  "with_locks L n tg = tg\<lparr>lock_list := L, lock_num := n\<rparr>"

lemma with_locks_simps [simp]:
  "vertex_list (with_locks L n tg) = vertex_list tg" "vertex_num (with_locks L n tg) = vertex_num tg"
  "visited (with_locks L n tg) = visited tg" "tg_path (with_locks L n tg) = tg_path tg" "tg_k (with_locks L n tg) = tg_k tg"
  "deadlock (with_locks L n tg) = deadlock tg" "tg_out (with_locks L n tg) = tg_out tg"
  "lock_list (with_locks L n tg) = L" "lock_num (with_locks L n tg) = n"
  "(with_locks L n tg)\<lparr>visited := v\<rparr> = with_locks L n (tg\<lparr>visited := v\<rparr>)"
  "(with_locks L n tg)\<lparr>tg_path := p\<rparr> = with_locks L n (tg\<lparr>tg_path := p\<rparr>)"
  "(with_locks L n tg)\<lparr>tg_k := k\<rparr> = with_locks L n (tg\<lparr>tg_k := k\<rparr>)"
  "(with_locks L n tg)\<lparr>deadlock := d\<rparr> = with_locks L n (tg\<lparr>deadlock := d\<rparr>)"
  "(with_locks L n tg)\<lparr>tg_out := out\<rparr> = with_locks L n (tg\<lparr>tg_out := out\<rparr>)"
  by (simp_all add: with_locks_def)

lemma search_vertex_locks [simp]: "search_vertex p (with_locks L n tg) = search_vertex p tg"
  by (rule search_vertex_graph) (simp add: same_graph_def)

lemma push_locks [simp]: "push_path i (with_locks L n tg) = map_option (with_locks L n) (push_path i tg)"
  "print_deadlock (with_locks L n tg) = map_option (with_locks L n) (print_deadlock tg)"
  by (simp_all add: push_path_def print_deadlock_def)



section \<open>What the hooks leave to the checking thread\<close>

text \<open>They never touch its marks, its path and its verdict, and below the number of the vertices they touch the
  vertices only.\<close>

definition spares :: "task_graph \<Rightarrow> task_graph \<Rightarrow> bool" where
  "spares tg tg' \<longleftrightarrow> visited tg' = visited tg \<and> tg_path tg' = tg_path tg \<and> tg_k tg' = tg_k tg \<and> deadlock tg' = deadlock tg \<and>
     tg_out tg' = tg_out tg \<and> vertex_num tg \<le> vertex_num tg' \<and> (\<forall>i. vertex_num tg' \<le> i \<longrightarrow> vertex_list tg' i = vertex_list tg i)"

lemma spares_trans: "spares a b \<Longrightarrow> spares b c \<Longrightarrow> spares a c"
  by (auto simp: spares_def)

lemma spares_refl: "spares tg tg"
  by (simp add: spares_def)

lemma spares_locks: "spares tg (tg\<lparr>lock_list := L\<rparr>)" "spares tg (tg\<lparr>lock_list := L, lock_num := n\<rparr>)"
  by (simp_all add: spares_def)

lemma spares_chain: "i < vertex_num tg \<Longrightarrow> spares tg (tg\<lparr>vertex_list := (vertex_list tg)(i := v)\<rparr>)"
  by (simp add: spares_def)

lemma add_vertex_spares: "add_vertex p tg = Some tg' \<Longrightarrow> spares tg tg'"
  by (auto simp: add_vertex_def spares_def split: if_splits)

lemma add_edge_spares:
  assumes "graph_ok tg" and "add_edge u v tg = Some tg'"
  shows "spares tg tg'"
proof -
  obtain tg1 tg2 where t: "add_vertex u tg = Some tg1" "add_vertex v tg1 = Some tg2"
    "tg' = tg2\<lparr>vertex_list := (vertex_list tg2)(nat (search_vertex u tg2) := (vertex_list tg2 (nat (search_vertex u tg2)))
       \<lparr>vx_next := vx_next (vertex_list tg2 (nat (search_vertex u tg2))) @ [v]\<rparr>)\<rparr>"
    using assms(2) by (auto simp: add_edge_def bind_Some_iff Let_def)
  note 1 = add_vertex_ok [OF assms(1) t(1)]
  have "search_vertex u tg2 \<noteq> - 1" using add_vertex_ok(5) [OF 1(1) t(2)] 1(2) by blast
  then have "nat (search_vertex u tg2) < vertex_num tg2" using search_vertex_range by fastforce
  then have "spares tg2 tg'" unfolding t(3) by (rule spares_chain)
  then show ?thesis using add_vertex_spares t(1,2) spares_trans by blast
qed

lemma remove_edge_spares: "spares tg (remove_edge u v tg)"
proof (cases "search_vertex u tg \<noteq> - 1 \<and> search_vertex v tg \<noteq> - 1")
  case True
  then have "nat (search_vertex u tg) < vertex_num tg" using search_vertex_range by fastforce
  then show ?thesis using True spares_chain by (simp add: remove_edge_def Let_def)
next
  case False
  then show ?thesis by (auto simp: remove_edge_def spares_def)
qed

lemma lock_before_spares:
  assumes ok: "graph_ok tg" and "lock_before stk t l tg = Some tg'"
  shows "spares tg tg'"
proof (cases "search_lock l tg = - 1")
  case True
  then show ?thesis using assms by (simp add: lock_before_def spares_def)
next
  case False
  let ?j = "nat (search_lock l tg)" and ?u = "thread_pair stk t"
  obtain tg1 where t1: "add_vertex ?u tg = Some tg1" using assms(2) False by (auto simp: lock_before_def bind_Some_iff Let_def)
  let ?v = "thread_pair stk (th_id (lock_list tg1 ?j))"
  let ?tg2 = "tg1\<lparr>lock_list := (lock_list tg1)(?j := (lock_list tg1 ?j)\<lparr>degress := degress (lock_list tg1 ?j) + 1\<rparr>)\<rparr>"
  obtain tg3 where t3: "add_vertex ?v ?tg2 = Some tg3"
    "(if \<not> verify_edge ?u ?v tg3 then add_edge ?u ?v tg3 else Some tg3) = Some tg'"
    using assms(2) False t1 by (auto simp: lock_before_def bind_Some_iff Let_def)
  have "graph_ok ?tg2" using add_vertex_ok(1) [OF ok t1] by simp
  then have g3: "graph_ok tg3" using add_vertex_ok(1) t3(1) by blast
  have "spares tg tg3"
    using add_vertex_spares [OF t1] add_vertex_spares [OF t3(1)] spares_locks(1) spares_trans by blast
  moreover have "spares tg3 tg'"
    using t3(2) add_edge_spares [OF g3] by (cases "verify_edge ?u ?v tg3") (auto simp: spares_def)
  ultimately show ?thesis by (rule spares_trans)
qed

lemma lock_after_spares: "lock_after stk t l tg = Some tg' \<Longrightarrow> spares tg tg'"
proof (cases "search_lock l tg = - 1")
  case True
  assume "lock_after stk t l tg = Some tg'"
  then show ?thesis using True by (auto simp: lock_after_def Let_def inc_lock_num_def spares_def split: if_splits)
next
  case False
  let ?j = "nat (search_lock l tg)" and ?u = "thread_pair stk t" and ?v = "thread_pair stk (th_id (lock_list tg (nat (search_lock l tg))))"
  let ?tg1 = "tg\<lparr>lock_list := (lock_list tg)(?j := (lock_list tg ?j)\<lparr>degress := degress (lock_list tg ?j) - 1\<rparr>)\<rparr>"
  let ?tg2 = "if verify_edge ?u ?v ?tg1 then remove_edge ?u ?v ?tg1 else ?tg1"
  assume "lock_after stk t l tg = Some tg'"
  then have t: "tg' = ?tg2\<lparr>lock_list := (lock_list ?tg2)(?j := (lock_list ?tg2 ?j)\<lparr>th_id := t\<rparr>)\<rparr>"
    using False unfolding lock_after_def Let_def by simp
  have "spares ?tg1 ?tg2" by (cases "verify_edge ?u ?v ?tg1") (simp_all only: if_True if_False remove_edge_spares spares_refl)
  then show ?thesis unfolding t using spares_locks(1) spares_trans by blast
qed

lemma unlock_after_spares: "unlock_after t l tg = Some tg' \<Longrightarrow> spares tg tg'"
  by (auto simp: unlock_after_def Let_def spares_def split: if_splits)


section \<open>Reachable states\<close>

text \<open>Any interleaving of the threads and of the checking thread from a start.\<close>

inductive reach :: "pair_t \<Rightarrow> task_graph \<Rightarrow> system \<Rightarrow> bool" for stk mem where
  init: "reach stk mem \<lparr>sys_tg = start_check mem, owner = (\<lambda>_. None), phase = (\<lambda>_. Idle), checker = Asleep, printed = []\<rparr>"
| step: "reach stk mem s \<Longrightarrow> sys_step stk e s = Some s' \<Longrightarrow> reach stk mem s'"

definition locks_once :: "task_graph \<Rightarrow> bool" where
  "locks_once tg \<longleftrightarrow> (\<forall>i < lock_num tg. \<forall>j < lock_num tg. lock_id (lock_list tg i) = lock_id (lock_list tg j) \<longrightarrow>
     lock_id (lock_list tg i) \<noteq> 0 \<longrightarrow> i = j)"

definition sys_ok :: "system \<Rightarrow> bool" where
  "sys_ok s \<longleftrightarrow> graph_ok (sys_tg s) \<and> locks_once (sys_tg s) \<and> (checker s = Vertex 0 \<longrightarrow> deadlock (sys_tg s) = 0)"

lemma same_locks_once: "same_locks tg tg' \<Longrightarrow> locks_once tg \<Longrightarrow> locks_once tg'"
  by (simp add: same_locks_def locks_once_def)

lemma lock_after_once:
  assumes once: "locks_once tg" and ok: "graph_ok tg" and "lock_after stk t l tg = Some tg'"
  shows "locks_once tg'"
proof (cases "search_lock l tg = - 1")
  case True
  let ?e = "search_empty_lock tg"
  let ?tg1 = "tg\<lparr>lock_list := (lock_list tg)(?e := (lock_list tg ?e)\<lparr>th_id := t, lock_id := l\<rparr>)\<rparr>"
  have t: "tg' = (if lock_num tg \<le> ?e then inc_lock_num 1 ?tg1 else ?tg1)"
    using assms(3) True by (auto simp: lock_after_def Let_def split: if_splits)
  have new: "lock_id (lock_list tg j) \<noteq> l" if "j < lock_num tg" for j using True that search_lock_iff [of l tg] by blast
  have e: "?e \<le> lock_num tg" using search_empty_lock_spec [of tg] by auto
  have n: "lock_num tg' = (if ?e = lock_num tg then lock_num tg + 1 else lock_num tg)"
    using e unfolding t by (auto simp: inc_lock_num_def)
  have ll: "lock_id (lock_list tg' j) = (if j = ?e then l else lock_id (lock_list tg j))" for j
    unfolding t by (simp add: inc_lock_num_def)
  show ?thesis unfolding locks_once_def ll n
    using once new e by (auto simp: locks_once_def split: if_splits) (metis less_antisym less_Suc_eq)+
next
  case False
  have "same_locks tg tg'"
  proof -
    let ?j = "nat (search_lock l tg)" and ?u = "thread_pair stk t" and ?v = "thread_pair stk (th_id (lock_list tg (nat (search_lock l tg))))"
    let ?tg1 = "tg\<lparr>lock_list := (lock_list tg)(?j := (lock_list tg ?j)\<lparr>degress := degress (lock_list tg ?j) - 1\<rparr>)\<rparr>"
    let ?tg2 = "if verify_edge ?u ?v ?tg1 then remove_edge ?u ?v ?tg1 else ?tg1"
    have t: "tg' = ?tg2\<lparr>lock_list := (lock_list ?tg2)(?j := (lock_list ?tg2 ?j)\<lparr>th_id := t\<rparr>)\<rparr>"
      using assms(3) False unfolding lock_after_def Let_def by simp
    have "graph_ok ?tg1" using ok by simp
    then have "same_locks ?tg1 ?tg2" using remove_edge_ok(2) by (auto simp: same_locks_def)
    then show ?thesis unfolding t by (auto simp: same_locks_def)
  qed
  then show ?thesis using once by (rule same_locks_once)
qed

lemma unlock_after_keeps:
  assumes "unlock_after t l tg = Some tg'" and "graph_ok tg" and "locks_once tg"
  shows "graph_ok tg' \<and> locks_once tg'"
  using assms by (auto simp: unlock_after_def Let_def locks_once_def split: if_splits)

lemma graph_ok_same: "same_graph g tg \<Longrightarrow> graph_ok g \<Longrightarrow> graph_ok tg"
  by (simp add: graph_ok_iff same_graph_def nexts_def vmatch_def)

lemma routine_keeps:
  assumes "check_dead_lock_routine c tg = Some (c1, out, tg1)"
  shows "same_graph tg tg1 \<and> lock_list tg1 = lock_list tg \<and> lock_num tg1 = lock_num tg \<and> (c1 = Vertex 0 \<longrightarrow> deadlock tg1 = 0)"
  using assms
  by (cases "(c, tg)" rule: check_dead_lock_routine.cases)
    (auto simp: same_graph_def push_path_def print_deadlock_def Let_def bind_Some_iff split: if_splits)

lemma hook_Some: "hook f s = Some s' \<longleftrightarrow> (\<exists>tg. f (sys_tg s) = Some tg \<and> \<not> races (checker s) (sys_tg s) tg \<and> s' = s\<lparr>sys_tg := tg\<rparr>)"
  by (auto simp: hook_def bind_Some_iff split: if_splits)

lemma goes_simps [simp]: "sys_tg (goes t p s) = sys_tg s" "owner (goes t p s) = owner s" "checker (goes t p s) = checker s"
  "phase (goes t p s) = (phase s)(t := p)" "printed (goes t p s) = printed s"
  by (simp_all add: goes_def)

text \<open>The steps of the threads.\<close>

lemma sys_step_hook:
  assumes "sys_step stk e s = Some s'" and "e \<noteq> Check"
  shows "checker s' = checker s \<and> (sys_tg s' = sys_tg s \<or> \<not> races (checker s) (sys_tg s) (sys_tg s') \<and>
    (\<exists>t l. lock_before stk t l (sys_tg s) = Some (sys_tg s') \<or> lock_after stk t l (sys_tg s) = Some (sys_tg s') \<or>
       unlock_after t l (sys_tg s) = Some (sys_tg s')))"
  using assms by (cases e) (auto simp: hook_Some split: phase.splits if_splits; blast)+

lemma sys_step_ok:
  assumes "sys_ok s" and "sys_step stk e s = Some s'"
  shows "sys_ok s' \<and> (e \<noteq> Check \<longrightarrow> spares (sys_tg s) (sys_tg s'))"
proof (cases "e = Check")
  case True
  then obtain c out tg where r: "check_dead_lock_routine (checker s) (sys_tg s) = Some (c, out, tg)" "checker s' = c" "sys_tg s' = tg"
    using assms(2) by (auto simp: bind_Some_iff)
  note k = routine_keeps [OF r(1)]
  have "locks_once tg" using k assms(1) by (simp add: locks_once_def sys_ok_def)
  then show ?thesis using k graph_ok_same [of "sys_tg s" tg] assms(1) r True by (simp add: sys_ok_def)
next
  case False
  have ok: "graph_ok (sys_tg s)" "locks_once (sys_tg s)" using assms(1) by (simp_all add: sys_ok_def)
  have "graph_ok tg \<and> locks_once tg \<and> spares (sys_tg s) tg"
    if "tg = sys_tg s \<or> (\<exists>t l. lock_before stk t l (sys_tg s) = Some tg \<or> lock_after stk t l (sys_tg s) = Some tg \<or>
       unlock_after t l (sys_tg s) = Some tg)" for tg
    using that
  proof (elim disjE exE)
    assume "tg = sys_tg s"
    then show ?thesis using ok by (simp add: spares_def)
  next
    fix t l assume a: "lock_before stk t l (sys_tg s) = Some tg"
    show ?thesis using lock_before_ok [OF ok(1) a] lock_before_spares [OF ok(1) a] same_locks_once ok(2) by blast
  next
    fix t l assume a: "lock_after stk t l (sys_tg s) = Some tg"
    show ?thesis using lock_after_ok(1) [OF ok(1) a] lock_after_spares [OF a] lock_after_once [OF ok(2,1) a] by blast
  next
    fix t l assume a: "unlock_after t l (sys_tg s) = Some tg"
    show ?thesis using unlock_after_keeps [OF a ok] unlock_after_spares [OF a] by blast
  qed
  then have "graph_ok (sys_tg s') \<and> locks_once (sys_tg s') \<and> spares (sys_tg s) (sys_tg s')"
    using sys_step_hook [OF assms(2) False] by blast
  then show ?thesis using sys_step_hook [OF assms(2) False] assms(1) by (auto simp: sys_ok_def spares_def)
qed

lemma reach_ok: "reach stk mem s \<Longrightarrow> sys_ok s"
proof (induction rule: reach.induct)
  case init
  then show ?case by (simp add: sys_ok_def start_check_def graph_ok_iff locks_once_def)
next
  case (step s e s')
  then show ?case using sys_step_ok by blast
qed

lemma reach_run: "reach stk mem s \<Longrightarrow> sys_run stk es s = Some s' \<Longrightarrow> reach stk mem s'"
proof (induction es arbitrary: s)
  case (Cons e es)
  then obtain s1 where "sys_step stk e s = Some s1" "sys_run stk es s1 = Some s'" by (auto simp: bind_Some_iff)
  then show ?case using Cons.IH [of s1] reach.step [OF Cons.prems(1), of e s1] by simp
qed simp



section \<open>The properties of the detector\<close>



text \<open>When no hook runs while it is printed, the list of the locks is printed as it is.\<close>

lemma print_from:
  assumes "lock_num (sys_tg s) \<le> MAXV"
  shows "checker s = Printing i \<Longrightarrow> i \<le> lock_num (sys_tg s) \<Longrightarrow>
    \<exists>s'. sys_run stk (replicate (lock_num (sys_tg s) - i + 1) Check) s = Some s' \<and> checker s' = Vertex 0 \<and>
      printed s' = printed s @ drop i (print_locklist (sys_tg s))"
  using assms
proof (induction "lock_num (sys_tg s) - i" arbitrary: i s)
  case 0
  then show ?case by (simp add: print_locklist_def)
next
  case (Suc d)
  let ?tg = "sys_tg s"
  let ?s = "s\<lparr>checker := Printing (i + 1), printed := printed s @ [(th_id (lock_list ?tg i), lock_id (lock_list ?tg i))]\<rparr>"
  have i: "i < lock_num ?tg" using Suc.hyps(2) by simp
  have st: "sys_step stk Check s = Some ?s" using Suc.prems i by simp
  have tg: "sys_tg ?s = ?tg" by simp
  have "d = lock_num (sys_tg ?s) - (i + 1)" "checker ?s = Printing (i + 1)" "i + 1 \<le> lock_num (sys_tg ?s)" "lock_num (sys_tg ?s) \<le> MAXV"
    using Suc.hyps(2) Suc.prems(3) i by simp_all
  from Suc.hyps(1) [OF this, unfolded tg]
  obtain s' where s': "sys_run stk (replicate (lock_num ?tg - (i + 1) + 1) Check) ?s = Some s'" "checker s' = Vertex 0"
    "printed s' = printed ?s @ drop (i + 1) (print_locklist ?tg)" by blast
  have "replicate (lock_num ?tg - i + 1) Check = Check # replicate (lock_num ?tg - (i + 1) + 1) Check"
    using i by (simp add: Suc_diff_Suc flip: replicate_Suc)
  moreover have "drop i (print_locklist ?tg) = (th_id (lock_list ?tg i), lock_id (lock_list ?tg i)) # drop (i + 1) (print_locklist ?tg)"
    using i by (subst Cons_nth_drop_Suc [symmetric]) (simp_all add: print_locklist_def)
  ultimately show ?case using s' st by simp
qed

theorem print_locklist_correct:
  assumes "checker s = Printing 0" and "lock_num (sys_tg s) \<le> MAXV"
  shows "\<exists>s'. sys_run stk (replicate (lock_num (sys_tg s) + 1) Check) s = Some s' \<and> checker s' = Vertex 0 \<and>
    printed s' = printed s @ print_locklist (sys_tg s)"
  using print_from [OF assms(2,1)] by simp

text \<open>The thread takes no lock, so \<open>lock_before\<close> of a thread that is new to the graph adds its vertex while the
  vertices are being searched.\<close>

theorem hook_races_with_check:
  assumes "searching (checker s)" and "search_lock l (sys_tg s) \<noteq> - 1" and "search_vertex (thread_pair stk u) (sys_tg s) = - 1"
    and "lock_before stk u l (sys_tg s) = Some tg" and "graph_ok (sys_tg s)"
  shows "sys_step stk (Before u l) s = None"
proof -
  have n: "vertex_num (sys_tg s) < vertex_num tg"
  proof -
    obtain tg1 where t1: "add_vertex (thread_pair stk u) (sys_tg s) = Some tg1"
      using assms(2,4) by (auto simp: lock_before_def bind_Some_iff Let_def)
    have "vertex_num tg1 = vertex_num (sys_tg s) + 1" using t1 assms(3) by (auto simp: add_vertex_def split: if_splits)
    moreover have "vertex_num tg1 \<le> vertex_num tg"
    proof -
      let ?j = "nat (search_lock l (sys_tg s))"
      let ?v = "thread_pair stk (th_id (lock_list tg1 ?j))"
      let ?tg2 = "tg1\<lparr>lock_list := (lock_list tg1)(?j := (lock_list tg1 ?j)\<lparr>degress := degress (lock_list tg1 ?j) + 1\<rparr>)\<rparr>"
      obtain tg3 where t3: "add_vertex ?v ?tg2 = Some tg3"
        "(if \<not> verify_edge (thread_pair stk u) ?v tg3 then add_edge (thread_pair stk u) ?v tg3 else Some tg3) = Some tg"
        using assms(2,4) t1 by (auto simp: lock_before_def bind_Some_iff Let_def)
      have "graph_ok tg3" using add_vertex_ok(1) [OF assms(5) t1] add_vertex_ok(1) [OF _ t3(1)] by simp
      then have "spares tg3 tg" using t3(2) add_edge_spares by (cases "verify_edge (thread_pair stk u) ?v tg3") (auto simp: spares_refl)
      then show ?thesis using add_vertex_spares [OF t3(1)] by (simp add: spares_def)
    qed
    ultimately show ?thesis by simp
  qed
  then have "races (checker s) (sys_tg s) tg" using assms(1) by (cases "checker s") (simp_all add: races_def)
  then show ?thesis using assms(4) by (simp add: hook_def)
qed

section \<open>A mutex the list forgets\<close>

lemma same_locks_search: "same_locks tg tg' \<Longrightarrow> search_lock l tg' = search_lock l tg"
proof -
  assume same: "same_locks tg tg'"
  have "lock_from tg' l i = lock_from tg l i" for i
  proof (induction "lock_num tg - i" arbitrary: i)
    case 0
    then show ?case using same by (simp add: lock_from.simps same_locks_def)
  next
    case (Suc d)
    then have "lock_from tg' l (i + 1) = lock_from tg l (i + 1)" by simp
    then show ?case using same lock_from.simps [of tg l i] lock_from.simps [of tg' l i] unfolding same_locks_def by simp
  qed
  then show ?thesis by (simp add: search_lock_def)
qed

lemma add_vertex_room: "vertex_num tg < MAXV \<Longrightarrow> \<exists>tg'. add_vertex p tg = Some tg' \<and> vertex_num tg' \<le> vertex_num tg + 1 \<and>
    lock_list tg' = lock_list tg \<and> lock_num tg' = lock_num tg"
  by (simp add: add_vertex_def)

lemma lock_before_found:
  assumes ok: "graph_ok tg" and i: "search_lock l tg = int i" and room: "vertex_num tg \<le> 98"
  shows "\<exists>tg'. lock_before stk u l tg = Some tg' \<and> lock_num tg' = lock_num tg \<and>
    lock_list tg' = (lock_list tg)(i := (lock_list tg i)\<lparr>degress := degress (lock_list tg i) + 1\<rparr>)"
proof -
  let ?u = "thread_pair stk u"
  obtain tg1 where t1: "add_vertex ?u tg = Some tg1" "vertex_num tg1 \<le> vertex_num tg + 1" "lock_list tg1 = lock_list tg" "lock_num tg1 = lock_num tg"
    using add_vertex_room [of tg ?u] room by auto
  let ?v = "thread_pair stk (th_id (lock_list tg1 i))"
  let ?tg2 = "tg1\<lparr>lock_list := (lock_list tg1)(i := (lock_list tg1 i)\<lparr>degress := degress (lock_list tg1 i) + 1\<rparr>)\<rparr>"
  have g2: "graph_ok ?tg2" "search_vertex ?u tg1 \<noteq> - 1" using add_vertex_ok(1,2) [OF ok t1(1)] by simp_all
  obtain tg3 where t3: "add_vertex ?v ?tg2 = Some tg3" "lock_list tg3 = lock_list ?tg2" "lock_num tg3 = lock_num tg"
    using add_vertex_room [of ?tg2 ?v] t1(2,4) room by auto
  have "search_vertex ?u ?tg2 = search_vertex ?u tg1" by (rule search_vertex_graph) (simp add: same_graph_def)
  then have "search_vertex ?u tg3 \<noteq> - 1" "search_vertex ?v tg3 \<noteq> - 1" using add_vertex_ok(2,5) [OF g2(1) t3(1)] g2(2) by simp_all
  then have "\<exists>tg'. (if \<not> verify_edge ?u ?v tg3 then add_edge ?u ?v tg3 else Some tg3) = Some tg' \<and> lock_list tg' = lock_list tg3 \<and> lock_num tg' = lock_num tg3"
    by (simp add: add_edge_def add_vertex_def Let_def)
  then show ?thesis using t1 t3 i by (auto simp: lock_before_def Let_def)
qed

lemma lock_after_found:
  assumes "search_lock l tg = int i"
  shows "\<exists>tg'. lock_after stk u l tg = Some tg' \<and> lock_num tg' = lock_num tg \<and>
    lock_list tg' = (lock_list tg)(i := (lock_list tg i)\<lparr>degress := degress (lock_list tg i) - 1, th_id := u\<rparr>)"
  using assms by (simp add: lock_after_def Let_def remove_edge_def)

text \<open>C27: \<open>pthread_mutex_unlock\<close> releases the mutex before \<open>unlock_after\<close> takes the thread off the list. When
  another thread locks the mutex in between, \<open>unlock_after\<close> of the first clears the entry that now belongs to the
  second: the mutex is held and not listed. \<open>unlock_after\<close> of the second does not find it and reads the list at
  index -1.\<close>

theorem handover_loses_lock:
  assumes "reach stk mem s" and "checker s = Asleep" and "owner s l = Some t" and "phase s t = Idle" and "phase s u = Idle" and "t \<noteq> u"
    and "l \<noteq> 0" and "search_lock l (sys_tg s) \<noteq> - 1" and "degress (lock_list (sys_tg s) (nat (search_lock l (sys_tg s)))) = 0"
    and "vertex_num (sys_tg s) \<le> 98"
  shows "\<exists>s1 s2. sys_run stk [Release t l, Before u l, Acquire u, After u, Unlock_after t] s = Some s1 \<and>
    owner s1 l = Some u \<and> phase s1 u = Idle \<and> search_lock l (sys_tg s1) = - 1 \<and>
    sys_step stk (Release u l) s1 = Some s2 \<and> search_lock l (sys_tg s2) = - 1 \<and> sys_step stk (Unlock_after u) s2 = None"
proof -
  let ?tg = "sys_tg s"
  have ok: "graph_ok ?tg" "locks_once ?tg" using reach_ok [OF assms(1)] by (simp_all add: sys_ok_def)
  obtain i where i: "search_lock l ?tg = int i" "i < lock_num ?tg" "lock_id (lock_list ?tg i) = l"
    using search_lock_found [OF assms(8)] by blast
  obtain tg1 where t1: "lock_before stk u l ?tg = Some tg1" "lock_num tg1 = lock_num ?tg"
    "lock_list tg1 = (lock_list ?tg)(i := (lock_list ?tg i)\<lparr>degress := degress (lock_list ?tg i) + 1\<rparr>)"
    using lock_before_found [OF ok(1) i(1) assms(10)] by blast
  have "same_locks ?tg tg1" using t1(2,3) by (simp add: same_locks_def)
  then have i1: "search_lock l tg1 = int i" using same_locks_search i(1) by simp
  obtain tg2 where t2: "lock_after stk u l tg1 = Some tg2" "lock_num tg2 = lock_num tg1"
    "lock_list tg2 = (lock_list tg1)(i := (lock_list tg1 i)\<lparr>degress := degress (lock_list tg1 i) - 1, th_id := u\<rparr>)"
    using lock_after_found [OF i1] by blast
  have "same_locks tg1 tg2" using t2(2,3) by (simp add: same_locks_def)
  then have i2: "search_lock l tg2 = int i" using same_locks_search i1 by simp
  let ?tg3 = "tg2\<lparr>lock_list := (lock_list tg2)(i := (lock_list tg2 i)\<lparr>th_id := 0, lock_id := 0\<rparr>)\<rparr>"
  have "degress (lock_list tg2 i) = 0" using assms(9) i(1) t1(3) t2(3) by simp
  then have t3: "unlock_after t l tg2 = Some ?tg3" using i2 by (simp add: unlock_after_def)
  have "\<not> (\<exists>j < lock_num ?tg3. lock_id (lock_list ?tg3 j) = l)"
    using ok(2) i(2,3) assms(7) t1(2,3) t2(2,3) by (auto simp: locks_once_def)
  then have none: "search_lock l ?tg3 = - 1" using search_lock_iff by blast
  then have "unlock_after u l ?tg3 = None" by (simp add: unlock_after_def)
  then show ?thesis
    using t1(1) t2(1) t3 none assms(2-6) by (simp add: hook_def races_def goes_def)
qed

section \<open>Edges that outlive their wait\<close>

definition zero_pair :: pair_t where
  "zero_pair = \<lparr>th_id = 0, ptype = PROCESS, lock_id = 0, degress = 0\<rparr>"

definition zero_mem :: task_graph where
  "zero_mem = \<lparr>vertex_list = (\<lambda>_. \<lparr>vx_pair = zero_pair, vx_next = []\<rparr>), vertex_num = 0, lock_list = (\<lambda>_. zero_pair),
     lock_num = 0, tg_path = (\<lambda>_. 0), visited = (\<lambda>_. 0), tg_k = 0, deadlock = 0, tg_out = []\<rparr>"

definition start_sys :: system where
  "start_sys = \<lparr>sys_tg = start_check zero_mem, owner = (\<lambda>_. None), phase = (\<lambda>_. Idle), checker = Asleep, printed = []\<rparr>"

text \<open>Thread 3 holds mutex 11 and waits for mutex 10, which went from thread 1 to thread 2 meanwhile.\<close>

definition handover :: "event list" where
  "handover = [Before 3 11, Acquire 3, After 3, Before 1 10, Acquire 1, After 1, Before 2 10, Before 3 10,
     Release 1 10, Unlock_after 1, Acquire 2, After 2]"

text \<open>Who holds the mutexes 10 and 11, where the threads 1, 2 and 3 are, and the verdict of a check.\<close>

definition verdict :: "event list \<Rightarrow> (nat option list \<times> phase list \<times> int) option" where
  "verdict es = do { s \<leftarrow> sys_run zero_pair es start_sys;
     tg \<leftarrow> check_dead_lock (sys_tg s);
     Some (map (owner s) [10, 11], map (phase s) [1, 2, 3], deadlock tg) }"

text \<open>\<open>lock_after\<close> takes away the edge of the thread that got the mutex only, so the other
  waiters keep an edge to the previous holder. After a hand-over a deadlock of two threads, each
  waiting for the mutex of the other, is not reported; and a deadlock is reported although the
  thread at the end of the chain waits for nothing. And a thread that waits for its own mutex is
  never reported, since \<open>verify_edge\<close> starts at the vertex itself and finds the edge there.\<close>

theorem stale_edges_mislead:
  "verdict (handover @ [Before 2 11]) = Some ([Some 2, Some 3], [Idle, Asked 11, Asked 10], 0) \<and>
   verdict (handover @ [Before 1 11]) = Some ([Some 2, Some 3], [Asked 11, Idle, Asked 10], 1) \<and>
   verdict [Before 1 10, Acquire 1, After 1, Before 1 10] = Some ([Some 1, None], [Asked 10, Idle, Idle], 0)"
  by (intro conjI) code_simp+

section \<open>Witnesses\<close>

definition held :: "event list \<Rightarrow> system" where
  "held es = (case sys_run zero_pair es start_sys of Some s \<Rightarrow> s | None \<Rightarrow> start_sys)"

lemma held_reach:
  assumes "\<not> Option.is_none (sys_run zero_pair es start_sys)"
  shows "reach zero_pair zero_mem (held es)"
proof -
  obtain s where s: "sys_run zero_pair es start_sys = Some s" using assms(1) by (auto simp: Option.is_none_def)
  have "reach zero_pair zero_mem start_sys" unfolding start_sys_def by (rule reach.init)
  from reach_run [OF this s] show ?thesis using s by (simp add: held_def)
qed




lemma first_lock_reach: "reach zero_pair zero_mem (held [Before 1 10, Acquire 1, After 1])"
  by (rule held_reach) code_simp

theorem handover_loses_lock_witness:
  "\<exists>s1 s2. sys_run zero_pair [Release 1 10, Before 2 10, Acquire 2, After 2, Unlock_after 1] (held [Before 1 10, Acquire 1, After 1]) = Some s1 \<and>
    owner s1 10 = Some 2 \<and> phase s1 2 = Idle \<and> search_lock 10 (sys_tg s1) = - 1 \<and>
    sys_step zero_pair (Release 2 10) s1 = Some s2 \<and> search_lock 10 (sys_tg s2) = - 1 \<and> sys_step zero_pair (Unlock_after 2) s2 = None"
  by (rule handover_loses_lock [OF first_lock_reach]) code_simp+


end
