(* ===== verification/Bytes.thy ===== *)
theory Bytes
  imports Prelude "HOL-Library.Word"
begin

text \<open>
  Bytes, byte buffers with checked reads and writes, and the conversions between the byte orders of
  the host and the network: what the components that build and read messages share. The host is
  little-endian.
\<close>

unbundle bit_operations_syntax

type_synonym byte = "8 word"

section \<open>Buffers\<close>

definition byte_at :: "byte list \<Rightarrow> nat \<Rightarrow> byte option" where
  "byte_at buf p = (if p < length buf then Some (buf ! p) else None)"

definition read_at :: "nat \<Rightarrow> nat \<Rightarrow> byte list \<Rightarrow> byte list option" where
  "read_at p n buf = (if p + n \<le> length buf then Some (take n (drop p buf)) else None)"

definition write_at :: "nat \<Rightarrow> byte list \<Rightarrow> byte list \<Rightarrow> byte list option" where
  "write_at p bs buf = (if p + length bs \<le> length buf
     then Some (take p buf @ bs @ drop (p + length bs) buf) else None)"

lemma byte_at_append [mem_simps]: "byte_at (pre @ b # suf) (length pre) = Some b"
  by (simp add: byte_at_def)

lemma read_at_append [mem_simps]: "read_at (length pre) (length bs) (pre @ bs @ suf) = Some bs"
  by (simp add: read_at_def)

lemma write_at_append [mem_simps]:
  "length old = length bs \<Longrightarrow> write_at (length pre) bs (pre @ old @ suf) = Some (pre @ bs @ suf)"
  by (simp add: write_at_def)

lemma write_at_length: "write_at p bs buf = Some buf' \<Longrightarrow> length buf' = length buf"
  by (auto simp: write_at_def split: if_splits)

text \<open>A C string in a buffer: the bytes before the first null byte, if there is one.\<close>

definition c_string :: "byte list \<Rightarrow> byte list option" where
  "c_string buf = (if 0 \<in> set buf then Some (takeWhile (\<lambda>b. b \<noteq> 0) buf) else None)"

lemma c_string_padded: "0 \<notin> set s \<Longrightarrow> c_string (s @ 0 # suf) = Some s"
  unfolding c_string_def by (induction s) auto

section \<open>Byte order\<close>

text \<open>The bytes of a 16-bit value in memory, and the value read back.\<close>

definition bytes16 :: "16 word \<Rightarrow> byte list" where
  "bytes16 x = [ucast x, ucast (drop_bit 8 x)]"

definition load16 :: "byte list \<Rightarrow> 16 word" where
  "load16 bs = ucast (bs ! 0) OR push_bit 8 (ucast (bs ! 1))"

definition htons :: "16 word \<Rightarrow> 16 word" where
  "htons x = push_bit 8 x OR drop_bit 8 x"

definition read16 :: "byte list \<Rightarrow> nat \<Rightarrow> 16 word option" where
  "read16 buf p = do { bs \<leftarrow> read_at p 2 buf; Some (load16 bs) }"

text \<open>A 16-bit value in the order of the network.\<close>

definition net16 :: "16 word \<Rightarrow> byte list" where
  "net16 x = [ucast (drop_bit 8 x), ucast x]"

lemma bytes16_htons: "bytes16 (htons x) = net16 x"
  unfolding bytes16_def htons_def net16_def
  by (simp, intro conjI bit_eqI) (auto simp: bit_simps)

lemma htons_htons [simp]: "htons (htons x) = x"
  unfolding htons_def by (intro bit_eqI) (auto simp: bit_simps)

lemma htons_load16_net: "htons (load16 (net16 x)) = x"
  unfolding load16_def htons_def net16_def
  by (simp, intro bit_eqI) (auto simp: bit_simps)

text \<open>The same facts with the place named by an equation.\<close>

lemma byte_at_here: "buf = pre @ b # suf \<Longrightarrow> p = length pre \<Longrightarrow> byte_at buf p = Some b"
  by (simp add: byte_at_append)

lemma read_at_here: "buf = pre @ bs @ suf \<Longrightarrow> p = length pre \<Longrightarrow> n = length bs \<Longrightarrow> read_at p n buf = Some bs"
  by (simp add: read_at_append)

lemma write_at_here: "buf = pre @ old @ suf \<Longrightarrow> p = length pre \<Longrightarrow> length old = length bs \<Longrightarrow>
    write_at p bs buf = Some (pre @ bs @ suf)"
  by (simp add: write_at_append)

lemma length_net16 [simp]: "length (net16 x) = 2" "length (bytes16 x) = 2"
  by (simp_all add: net16_def bytes16_def)

lemma read16_here: "buf = pre @ net16 x @ suf \<Longrightarrow> p = length pre \<Longrightarrow> read16 buf p = Some (load16 (net16 x))"
  unfolding read16_def by (subst read_at_here [of _ pre "net16 x" suf]) simp_all

lemma read16_append: "read16 (pre @ net16 x @ suf) (length pre) = Some (load16 (net16 x))"
  using read_at_append [of pre "net16 x" suf] unfolding read16_def length_net16 by simp

end
