(* ===== verification/DNS.thy ===== *)
theory DNS
  imports Bytes
begin

text \<open>
  The asynchronous DNS client of \<^verbatim>\<open>async_dns_client_noblock.c\<close>: the request it builds, the parser of
  the response, and the client around an epoll instance. Buffers are byte lists of the length the
  source declares, with every access checked; a pointer into the response is its offset. The
  random id, the contents of new memory (\<open>None\<close> when \<open>malloc\<close> fails), the results of
  \<open>calloc\<close>, \<open>epoll_create\<close>, \<open>pthread_create\<close> and \<open>epoll_ctl\<close>, and what arrives are arguments.
\<close>

section \<open>Data\<close>

abbreviation (input) DNS_HOST :: "16 word" where "DNS_HOST \<equiv> 1"
abbreviation (input) DNS_CNAME :: "16 word" where "DNS_CNAME \<equiv> 5"

record dns_header =
  hd_id :: "16 word"
  hd_flags :: "16 word"
  qdcount :: "16 word"
  ancount :: "16 word"
  nscount :: "16 word"
  arcount :: "16 word"

record dns_question =
  q_length :: nat
  qtype :: "16 word"
  qclass :: "16 word"
  qname :: "byte list"

record dns_item =
  it_domain :: "byte list"
  it_ip :: "byte list"

section \<open>The request\<close>

definition dns_create_header :: "16 word \<Rightarrow> dns_header option \<Rightarrow> int \<times> dns_header option" where
  "dns_create_header rnd header = (case header of
      None \<Rightarrow> (- 1, None)
    | Some _ \<Rightarrow> (0, Some \<lparr>hd_id = rnd, hd_flags = 0 OR htons 0x100, qdcount = htons 1,
        ancount = 0, nscount = 0, arcount = 0\<rparr>))"

text \<open>\<open>strtok\<close> with the delimiter \<open>"."\<close>: the next nonempty run of other bytes, and what is left.\<close>

definition dot :: byte where
  "dot = 46"

definition strtok :: "byte list \<Rightarrow> (byte list \<times> byte list) option" where
  "strtok s = (let s1 = dropWhile (\<lambda>b. b = dot) s in
     if s1 = [] then None else Some (takeWhile (\<lambda>b. b \<noteq> dot) s1, drop 1 (dropWhile (\<lambda>b. b \<noteq> dot) s1)))"

lemma strtok_shorter:
  assumes "strtok s = Some (tok, rest)"
  shows "length rest < length s"
proof -
  let ?s1 = "dropWhile (\<lambda>b. b = dot) s"
  have s1: "?s1 \<noteq> []" "rest = drop 1 (dropWhile (\<lambda>b. b \<noteq> dot) ?s1)"
    using assms by (auto simp: strtok_def Let_def split: if_splits)
  have "length ?s1 \<le> length s" "length (dropWhile (\<lambda>b. b \<noteq> dot) ?s1) \<le> length ?s1"
    by (rule length_dropWhile_le)+
  moreover have "0 < length ?s1" using s1(1) by blast
  ultimately show ?thesis unfolding s1(2) length_drop by linarith
qed

function question_loop :: "byte list \<Rightarrow> nat \<Rightarrow> byte list \<Rightarrow> byte list option" where
  "question_loop s qname_p buf = (case strtok s of
      None \<Rightarrow> Some buf
    | Some (token, rest) \<Rightarrow>
        do { b1 \<leftarrow> write_at qname_p [of_nat (length token)] buf;
             b2 \<leftarrow> write_at (qname_p + 1) (token @ [0]) b1;
             question_loop rest (qname_p + 1 + length token) b2 })"
  by pat_completeness auto
termination by (relation "measure (\<lambda>(s, p, b). length s)") (auto dest: strtok_shorter)

declare question_loop.simps [simp del]

definition dns_create_question :: "(nat \<Rightarrow> byte list option) \<Rightarrow> dns_question option \<Rightarrow> byte list \<Rightarrow>
    (int \<times> dns_question option) option" where
  "dns_create_question mall question hostname = (case question of
      None \<Rightarrow> Some (- 1, None)
    | Some _ \<Rightarrow> (case mall (length hostname + 2) of
        None \<Rightarrow> Some (- 2, Some \<lparr>q_length = 0, qtype = 0, qclass = 0, qname = []\<rparr>)
      | Some mem \<Rightarrow>
          do { name \<leftarrow> question_loop hostname 0 mem;
               Some (0, Some \<lparr>q_length = length hostname + 2, qtype = htons 1, qclass = htons 1, qname = name\<rparr>) }))"

definition header_bytes :: "dns_header \<Rightarrow> byte list" where
  "header_bytes h = bytes16 (hd_id h) @ bytes16 (hd_flags h) @ bytes16 (qdcount h) @ bytes16 (ancount h) @
     bytes16 (nscount h) @ bytes16 (arcount h)"

definition dns_build_request :: "dns_header \<Rightarrow> dns_question \<Rightarrow> byte list \<Rightarrow> (nat \<times> byte list) option" where
  "dns_build_request header question request =
     do { let header_s = 12;
          let question_s = q_length question + 2 + 2;
          let length = question_s + header_s;
          r1 \<leftarrow> write_at 0 (header_bytes header) request;
          name \<leftarrow> read_at 0 (q_length question) (qname question);
          r2 \<leftarrow> write_at 12 name r1;
          r3 \<leftarrow> write_at (12 + q_length question) (bytes16 (qtype question)) r2;
          r4 \<leftarrow> write_at (12 + q_length question + 2) (bytes16 (qclass question)) r3;
          Some (length, r4) }"

section \<open>The response\<close>

definition is_pointer :: "byte \<Rightarrow> bool" where
  "is_pointer b \<longleftrightarrow> b AND 0xC0 = 0xC0"

text \<open>The loop of \<open>dns_parse_name\<close>, which writes at \<open>pos\<close> in \<open>out\<close> and counts in \<open>len\<close>. After a
  pointer the function calls itself, with \<open>pos\<close> at \<open>out + *len\<close>, and is done.\<close>

partial_function (option) parse_name_loop :: "byte list \<Rightarrow> nat \<Rightarrow> byte list \<Rightarrow> nat \<Rightarrow> nat \<Rightarrow> (byte list \<times> nat) option" where
  "parse_name_loop chunk ptr out pos len =
     do { b \<leftarrow> byte_at chunk ptr;
          (if b = 0 then Some (out, len)
           else if is_pointer b then
             do { n \<leftarrow> byte_at chunk (ptr + 1);
                  parse_name_loop chunk (unat n) out len len }
           else
             do { bs \<leftarrow> read_at (ptr + 1) (unat b) chunk;
                  out1 \<leftarrow> write_at pos bs out;
                  c \<leftarrow> byte_at chunk (ptr + 1 + unat b);
                  (if c \<noteq> 0
                   then do { out2 \<leftarrow> write_at (pos + unat b) [dot] out1;
                             parse_name_loop chunk (ptr + 1 + unat b) out2 (pos + unat b + 1) (len + unat b + 1) }
                   else parse_name_loop chunk (ptr + 1 + unat b) out1 (pos + unat b) (len + unat b)) }) }"

definition dns_parse_name :: "byte list \<Rightarrow> nat \<Rightarrow> byte list \<Rightarrow> nat \<Rightarrow> (byte list \<times> nat) option" where
  "dns_parse_name chunk ptr out len = parse_name_loop chunk ptr out len len"

partial_function (option) skip_name :: "byte list \<Rightarrow> nat \<Rightarrow> nat option" where
  "skip_name buf ptr =
     do { flag \<leftarrow> byte_at buf ptr;
          (if flag = 0 then Some (ptr + (unat flag + 1)) else skip_name buf (ptr + (unat flag + 1))) }"

fun skip_queries :: "nat \<Rightarrow> byte list \<Rightarrow> nat \<Rightarrow> nat option" where
  "skip_queries 0 buf ptr = Some ptr"
| "skip_queries (Suc n) buf ptr = do { p \<leftarrow> skip_name buf ptr; skip_queries n buf (p + 4) }"

text \<open>\<open>inet_ntop\<close> for IPv4: the four numbers in decimal, with dots between them.\<close>

fun decimal :: "nat \<Rightarrow> byte list" where
  "decimal n = (if n < 10 then [of_nat (48 + n)] else decimal (n div 10) @ [of_nat (48 + n mod 10)])"

declare decimal.simps [simp del]

definition inet_ntop4 :: "byte list \<Rightarrow> byte list" where
  "inet_ntop4 a = decimal (unat (a ! 0)) @ dot # decimal (unat (a ! 1)) @ dot #
     decimal (unat (a ! 2)) @ dot # decimal (unat (a ! 3))"

text \<open>One round of the loop over the answers: the new position, and for an address the item stored and
  the time to live printed.\<close>

definition parse_answer :: "byte list \<Rightarrow> nat \<Rightarrow> (nat \<times> (dns_item \<times> 16 word) option) option" where
  "parse_answer buf ptr =
     do { r \<leftarrow> dns_parse_name buf ptr (replicate 128 0) 0;
          ty \<leftarrow> read16 buf (ptr + 2);
          tt \<leftarrow> read16 buf (ptr + 2 + 4);
          dl \<leftarrow> read16 buf (ptr + 2 + 4 + 4);
          let type = htons ty;
          let ttl = htons tt;
          let datalen = unat (htons dl);
          let p = ptr + 2 + 4 + 4 + 2;
          (if type = DNS_CNAME then
             do { c \<leftarrow> dns_parse_name buf p (replicate 128 0) 0;
                  Some (p + datalen, None) }
           else if type = DNS_HOST then
             (if datalen = 4 then
                do { netip \<leftarrow> read_at p 4 buf;
                     name \<leftarrow> c_string (fst r);
                     Some (p + datalen, Some (\<lparr>it_domain = name, it_ip = inet_ntop4 netip\<rparr>, ttl)) }
              else Some (p + datalen, None))
           else Some (p, None)) }"

fun parse_answers :: "nat \<Rightarrow> byte list \<Rightarrow> nat \<Rightarrow> (dns_item \<times> 16 word) list option" where
  "parse_answers 0 buf ptr = Some []"
| "parse_answers (Suc n) buf ptr =
     do { a \<leftarrow> parse_answer buf ptr;
          rest \<leftarrow> parse_answers n buf (fst a);
          Some ((case snd a of None \<Rightarrow> [] | Some it \<Rightarrow> [it]) @ rest) }"

text \<open>The count, the list and the times to live printed; \<open>-1\<close> when \<open>calloc\<close> fails.\<close>

definition dns_parse_response :: "bool \<Rightarrow> byte list \<Rightarrow> (int \<times> dns_item list \<times> 16 word list) option" where
  "dns_parse_response calloc_ok buf =
     do { q \<leftarrow> read16 buf 4;
          a \<leftarrow> read16 buf (4 + 2);
          let querys = unat (htons q);
          let answers = unat (htons a);
          p \<leftarrow> skip_queries querys buf (4 + 2 + 6);
          if \<not> calloc_ok then Some (- 1, [], [])
          else do { r \<leftarrow> parse_answers answers buf p;
                    Some (int (length r), map fst r, map snd r) } }"

section \<open>The client\<close>

record ep_arg =
  sockfd :: int
  cb :: nat

record async_context =
  epfd :: int
  interest :: "(int \<times> ep_arg) list"
  open_fds :: "int set"
  sent :: "(int \<times> byte list) list"
  called :: "(nat \<times> dns_item list \<times> int) list"

text \<open>\<open>epoll_create\<close>, \<open>calloc\<close> and \<open>pthread_create\<close>; on the last failing the context leaks.\<close>

definition dns_async_client_init :: "int \<Rightarrow> bool \<Rightarrow> bool \<Rightarrow> async_context option" where
  "dns_async_client_init fd calloc_ok thread_ok =
     (if fd < 0 then None
      else if \<not> calloc_ok then None
      else if \<not> thread_ok then None
      else Some \<lparr>epfd = fd, interest = [], open_fds = {fd}, sent = [], called = []\<rparr>)"

text \<open>The context after the call, and what it returns; \<open>fd\<close> is the new socket.\<close>

definition dns_async_client_commit :: "(nat \<Rightarrow> byte list option) \<Rightarrow> 16 word \<Rightarrow> bool \<Rightarrow> int \<Rightarrow> int \<Rightarrow> async_context \<Rightarrow>
    byte list \<Rightarrow> nat \<Rightarrow> (int \<times> async_context) option" where
  "dns_async_client_commit mall rnd calloc_ok ctl fd ctx domain result_cb =
     (if fd < 0 then None
      else
        do { h \<leftarrow> snd (dns_create_header rnd (Some \<lparr>hd_id = 0, hd_flags = 0, qdcount = 0, ancount = 0, nscount = 0, arcount = 0\<rparr>));
             q \<leftarrow> dns_create_question mall (Some \<lparr>q_length = 0, qtype = 0, qclass = 0, qname = []\<rparr>) domain;
             question \<leftarrow> snd q;
             r \<leftarrow> dns_build_request h question (replicate 1024 0);
             let ctx1 = ctx\<lparr>open_fds := insert fd (open_fds ctx), sent := sent ctx @ [(fd, take (fst r) (snd r))]\<rparr>;
             if \<not> calloc_ok then Some (- 1, ctx1)
             else Some (ctl, if ctl = 0 then ctx1\<lparr>interest := interest ctx1 @ [(fd, \<lparr>sockfd = fd, cb = result_cb\<rparr>)]\<rparr> else ctx1) })"

text \<open>The body of the loop of \<open>dns_async_client_proc\<close> for one ready socket, on which \<open>dgram\<close> arrived:
  parse, call back, remove, close.\<close>

definition proc_event :: "bool \<Rightarrow> ep_arg \<Rightarrow> byte list \<Rightarrow> async_context \<Rightarrow> async_context option" where
  "proc_event calloc_ok data dgram ctx =
     do { let buffer = take 1024 dgram @ replicate (1024 - length dgram) 0;
          r \<leftarrow> dns_parse_response calloc_ok buffer;
          let count = fst r;
          let domain_list = fst (snd r);
          Some (ctx\<lparr>called := called ctx @ [(cb data, domain_list, count)],
             interest := filter (\<lambda>e. fst e \<noteq> sockfd data) (interest ctx),
             open_fds := open_fds ctx - {sockfd data}\<rparr>) }"

fun dns_async_client_proc :: "(ep_arg \<times> byte list) list \<Rightarrow> async_context \<Rightarrow> async_context option" where
  "dns_async_client_proc [] ctx = Some ctx"
| "dns_async_client_proc ((data, dgram) # evs) ctx =
     do { ctx1 \<leftarrow> proc_event True data dgram ctx; dns_async_client_proc evs ctx1 }"

definition dns_async_client_destroy :: "async_context \<Rightarrow> int \<times> int set" where
  "dns_async_client_destroy ctx = (0, open_fds ctx - {epfd ctx})"

section \<open>The synchronous client\<close>

text \<open>\<open>dns_client_commit\<close> of \<^verbatim>\<open>sync_dns_client.c\<close>, whose other functions are those above: the datagram
  sent, and the addresses with their times to live it prints from the datagram that comes back.\<close>

definition dns_client_commit :: "(nat \<Rightarrow> byte list option) \<Rightarrow> 16 word \<Rightarrow> bool \<Rightarrow> int \<Rightarrow> byte list \<Rightarrow> byte list \<Rightarrow>
    (int \<times> byte list \<times> dns_item list \<times> 16 word list) option" where
  "dns_client_commit mall rnd calloc_ok fd domain dgram =
     (if fd < 0 then None
      else
        do { h \<leftarrow> snd (dns_create_header rnd (Some \<lparr>hd_id = 0, hd_flags = 0, qdcount = 0, ancount = 0, nscount = 0, arcount = 0\<rparr>));
             q \<leftarrow> dns_create_question mall (Some \<lparr>q_length = 0, qtype = 0, qclass = 0, qname = []\<rparr>) domain;
             question \<leftarrow> snd q;
             r \<leftarrow> dns_build_request h question (replicate 1024 0);
             let buffer = take 1024 dgram @ replicate (1024 - length dgram) 0;
             p \<leftarrow> dns_parse_response calloc_ok buffer;
             Some (0, take (fst r) (snd r), fst (snd p), snd (snd p)) })"

text \<open>
  The encoding of names, and what the request builder and the response parser make of it: round
  trips from a host name through the wire format and back.
\<close>

section \<open>Names on the wire\<close>

definition label_ok :: "byte list \<Rightarrow> bool" where
  "label_ok l \<longleftrightarrow> l \<noteq> [] \<and> dot \<notin> set l \<and> 0 \<notin> set l \<and> length l < 64"

fun host :: "byte list list \<Rightarrow> byte list" where
  "host [] = []"
| "host [l] = l"
| "host (l # m # ls) = l @ dot # host (m # ls)"

definition wire_labels :: "byte list list \<Rightarrow> byte list" where
  "wire_labels ls = concat (map (\<lambda>l. of_nat (length l) # l) ls)"

definition wire_name :: "byte list list \<Rightarrow> byte list" where
  "wire_name ls = wire_labels ls @ [0]"

lemma host_Cons: "host (l # ls) = l @ (if ls = [] then [] else dot # host ls)"
  by (cases ls) auto

lemma wire_labels_Cons: "wire_labels (l # ls) = of_nat (length l) # l @ wire_labels ls"
  by (simp add: wire_labels_def)

lemma length_wire: "ls \<noteq> [] \<Longrightarrow> length (wire_name ls) = length (host ls) + 2"
proof (induction ls)
  case (Cons l ls)
  then show ?case by (cases "ls = []") (simp_all add: wire_name_def wire_labels_Cons host_Cons, simp add: wire_labels_def)
qed simp

lemma label_byte:
  assumes "label_ok l"
  shows "(of_nat (length l) :: byte) \<noteq> 0" and "unat (of_nat (length l) :: byte) = length l"
    and "\<not> is_pointer (of_nat (length l))"
proof -
  have l: "0 < length l" "length l < 64" using assms by (auto simp: label_ok_def)
  show u: "unat (of_nat (length l) :: byte) = length l" using l by (simp add: unat_of_nat)
  then show "(of_nat (length l) :: byte) \<noteq> 0" using l(1) by (metis unat_0 less_irrefl)
  show "\<not> is_pointer (of_nat (length l))"
  proof
    assume "is_pointer (of_nat (length l))"
    then have "(0xC0 :: byte) \<le> of_nat (length l)" unfolding is_pointer_def by (metis word_and_le2)
    then have "192 \<le> unat (of_nat (length l) :: byte)" by (simp add: word_le_nat_alt)
    then show False using u l(2) by simp
  qed
qed

section \<open>Building the question\<close>

lemma strtok_label:
  assumes "label_ok l"
  shows "strtok (host (l # ls)) = Some (l, host ls)"
proof -
  obtain a l' where l: "l = a # l'" using assms by (cases l) (auto simp: label_ok_def)
  have a: "a \<noteq> dot" using assms l by (auto simp: label_ok_def)
  have d: "dropWhile (\<lambda>b. b = dot) (host (l # ls)) = host (l # ls)" using a by (simp add: host_Cons l)
  have ne: "\<forall>b\<in>set l. b \<noteq> dot" using assms by (auto simp: label_ok_def)
  have "takeWhile (\<lambda>b. b \<noteq> dot) (host (l # ls)) = l"
    using ne by (simp add: host_Cons takeWhile_append2)
  moreover have "drop 1 (dropWhile (\<lambda>b. b \<noteq> dot) (host (l # ls))) = host ls"
    using ne by (simp add: host_Cons dropWhile_append2)
  moreover have "host (l # ls) \<noteq> []" using l by (simp add: host_Cons)
  ultimately show ?thesis unfolding strtok_def Let_def d by simp
qed

lemma strtok_empty: "strtok [] = None"
  by (simp add: strtok_def)

lemma question_loop_wire:
  assumes "\<forall>l\<in>set ls. label_ok l" and "ls \<noteq> []" and "length old = length (wire_name ls)"
  shows "question_loop (host ls) (length pre) (pre @ old @ suf) = Some (pre @ wire_name ls @ suf)"
  using assms
proof (induction ls arbitrary: pre old)
  case Nil
  then show ?case by simp
next
  case (Cons l ls)
  have l: "label_ok l" using Cons.prems(1) by simp
  have len: "length old = 1 + length l + length (wire_name ls)"
    using Cons.prems(3) by (simp add: wire_name_def wire_labels_Cons)
  obtain o0 o1 o2 where old: "old = o0 # o1 @ o2" "length o1 = length l" "length o2 = length (wire_name ls)"
  proof -
    obtain o0 r where r: "old = o0 # r" using len by (cases old) auto
    then have "length r = length l + length (wire_name ls)" using len by simp
    then show ?thesis using that [of o0 "take (length l) r" "drop (length l) r"] r by simp
  qed
  obtain z o3 where o2: "o2 = z # o3" "length o3 = length (wire_labels ls)" using old(3) by (cases o2) (auto simp: wire_name_def)
  have w1: "write_at (length pre) [of_nat (length l)] (pre @ old @ suf) = Some (pre @ [of_nat (length l)] @ (o1 @ o2) @ suf)"
    using write_at_append [of "[o0]" "[of_nat (length l)]" pre "o1 @ o2 @ suf"] old(1) by simp
  have w2: "write_at (length pre + 1) (l @ [0]) (pre @ [of_nat (length l)] @ (o1 @ o2) @ suf) =
      Some ((pre @ [of_nat (length l)] @ l) @ (0 # o3) @ suf)"
    using write_at_append [of "o1 @ [z]" "l @ [0]" "pre @ [of_nat (length l)]" "o3 @ suf"] old(2) o2 by simp
  have step: "question_loop (host (l # ls)) (length pre) (pre @ old @ suf) =
      question_loop (host ls) (length (pre @ [of_nat (length l)] @ l)) ((pre @ [of_nat (length l)] @ l) @ (0 # o3) @ suf)"
    using w1 w2 by (subst question_loop.simps) (simp add: strtok_label [OF l])
  show ?case
  proof (cases "ls = []")
    case True
    then have "o3 = []" using o2(2) by (simp add: wire_labels_def)
    then show ?thesis unfolding step using True
      by (subst question_loop.simps) (simp add: strtok_empty wire_name_def wire_labels_Cons, simp add: wire_labels_def)
  next
    case False
    have "length (0 # o3) = length (wire_name ls)" using o2(2) by (simp add: wire_name_def)
    then show ?thesis unfolding step
      using Cons.IH [of "0 # o3" "pre @ [of_nat (length l)] @ l"] Cons.prems(1) False
      by (simp add: wire_name_def wire_labels_Cons)
  qed
qed

section \<open>Reading a name\<close>

lemma parse_name_wire:
  assumes "\<forall>l\<in>set ls. label_ok l" and "length o2 = length (host ls)"
  shows "parse_name_loop (pre @ wire_name ls @ suf) (length pre) (o1 @ o2 @ o3) (length o1) len =
    Some (o1 @ host ls @ o3, len + length (host ls))"
  using assms
proof (induction ls arbitrary: pre o1 o2 len)
  case Nil
  then show ?case
    using byte_at_append [of pre 0 suf] by (subst parse_name_loop.simps) (simp add: wire_name_def wire_labels_def)
next
  case (Cons l ls)
  have l: "label_ok l" using Cons.prems(1) by simp
  note lb = label_byte [OF l]
  let ?n = "of_nat (length l) :: byte" and ?chunk = "pre @ wire_name (l # ls) @ suf"
  have chunk: "?chunk = pre @ ?n # l @ wire_name ls @ suf" by (simp add: wire_name_def wire_labels_Cons)
  have b: "byte_at ?chunk (length pre) = Some ?n" unfolding chunk by (rule byte_at_append)
  have r: "read_at (length pre + 1) (length l) ?chunk = Some l"
    using read_at_append [of "pre @ [?n]" l "wire_name ls @ suf"] by (simp add: chunk)
  have split: "\<exists>p1 p2. o2 = p1 @ p2 \<and> length p1 = length l"
    using Cons.prems(2) by (intro exI [of _ "take (length l) o2"] exI [of _ "drop (length l) o2"]) (simp add: host_Cons)
  then obtain p1 p2 where p: "o2 = p1 @ p2" "length p1 = length l" by blast
  have w: "write_at (length o1) l (o1 @ o2 @ o3) = Some (o1 @ l @ p2 @ o3)"
    using write_at_append [of p1 l o1 "p2 @ o3"] p by simp
  have pl: "length pre + 1 + length l = length (pre @ ?n # l)" by simp
  have c2: "?chunk = (pre @ ?n # l) @ wire_name ls @ suf" unfolding chunk by simp
  show ?case
  proof (cases "ls = []")
    case True
    have c: "byte_at ?chunk (length pre + 1 + length l) = Some 0"
      unfolding pl c2 using byte_at_append [of "pre @ ?n # l" 0 suf] True by (simp add: wire_name_def wire_labels_def)
    have "p2 = []" using Cons.prems(2) p True by simp
    moreover have "parse_name_loop ?chunk (length (pre @ ?n # l)) ((o1 @ l) @ [] @ o3) (length (o1 @ l)) (len + length l) =
        Some ((o1 @ l) @ host ls @ o3, len + length l + length (host ls))"
      unfolding c2 by (rule Cons.IH) (use True in simp_all)
    ultimately show ?thesis
      using b r w c lb True by (subst parse_name_loop.simps) (simp add: add.assoc)
  next
    case False
    then obtain m ms where m: "ls = m # ms" by (cases ls) auto
    have mo: "label_ok m" using Cons.prems(1) m by simp
    have c: "byte_at ?chunk (length pre + 1 + length l) = Some (of_nat (length m))"
      unfolding pl c2 m using byte_at_append [of "pre @ ?n # l" "of_nat (length m)" "m @ wire_labels ms @ 0 # suf"]
      by (simp add: wire_name_def wire_labels_Cons)
    have "length p2 = 1 + length (host ls)" using Cons.prems(2) p False by (simp add: host_Cons)
    then obtain d p3 where p3: "p2 = d # p3" "length p3 = length (host ls)" by (cases p2) auto
    have w2: "write_at (length o1 + length l) [dot] (o1 @ l @ p2 @ o3) = Some ((o1 @ l @ [dot]) @ p3 @ o3)"
      using write_at_append [of "[d]" "[dot]" "o1 @ l" "p3 @ o3"] p3(1) by simp
    have "parse_name_loop ?chunk (length (pre @ ?n # l)) ((o1 @ l @ [dot]) @ p3 @ o3) (length (o1 @ l @ [dot])) (len + length l + 1) =
        Some ((o1 @ l @ [dot]) @ host ls @ o3, len + length l + 1 + length (host ls))"
      unfolding c2 by (rule Cons.IH) (use Cons.prems(1) p3(2) in simp_all)
    then show ?thesis
      using b r w w2 c lb label_byte(1) [OF mo] False
      by (subst parse_name_loop.simps) (simp add: host_Cons add.assoc)
  qed
qed

lemma skip_name_wire:
  assumes "\<forall>l\<in>set ls. label_ok l"
  shows "skip_name (pre @ wire_name ls @ suf) (length pre) = Some (length pre + length (wire_name ls))"
  using assms
proof (induction ls arbitrary: pre)
  case Nil
  then show ?case
    using byte_at_append [of pre 0 suf] by (subst skip_name.simps) (simp add: wire_name_def wire_labels_def)
next
  case (Cons l ls)
  have l: "label_ok l" using Cons.prems(1) by simp
  note lb = label_byte [OF l]
  let ?n = "of_nat (length l) :: byte"
  have chunk: "pre @ wire_name (l # ls) @ suf = pre @ ?n # l @ wire_name ls @ suf" by (simp add: wire_name_def wire_labels_Cons)
  have b: "byte_at (pre @ wire_name (l # ls) @ suf) (length pre) = Some ?n" unfolding chunk by (rule byte_at_append)
  have "skip_name ((pre @ ?n # l) @ wire_name ls @ suf) (length (pre @ ?n # l)) =
      Some (length (pre @ ?n # l) + length (wire_name ls))"
    by (rule Cons.IH) (use Cons.prems in simp)
  then show ?case
    using b lb by (subst skip_name.simps) (simp add: chunk wire_name_def wire_labels_Cons)
qed

end
