(* ===== verification/DNS_Client.thy ===== *)
theory DNS_Client
  imports DNS
begin

text \<open>
  The request as a whole, the response parser on well-formed responses, compression pointers that
  point at themselves, and the properties of the client.
\<close>

section \<open>The request\<close>

definition request_bytes :: "16 word \<Rightarrow> byte list list \<Rightarrow> byte list" where
  "request_bytes rnd ls = net16 (htons rnd) @ net16 0x100 @ net16 1 @ net16 0 @ net16 0 @ net16 0 @
     wire_name ls @ net16 1 @ net16 1"

definition mall_ok :: "(nat \<Rightarrow> byte list option) \<Rightarrow> bool" where
  "mall_ok mall \<longleftrightarrow> (\<forall>n. \<exists>mem. mall n = Some mem \<and> length mem = n)"

lemma net16_zero: "net16 0 = [0, 0]"
  by (simp add: net16_def)

lemma bytes16_net16: "bytes16 x = net16 (htons x)"
  using bytes16_htons [of "htons x"] by simp

lemma create_question_wire:
  assumes "\<forall>l\<in>set ls. label_ok l" and "ls \<noteq> []" and "mall_ok mall"
  shows "dns_create_question mall (Some q) (host ls) =
    Some (0, Some \<lparr>q_length = length (host ls) + 2, qtype = htons 1, qclass = htons 1, qname = wire_name ls\<rparr>)"
proof -
  obtain mem where m: "mall (length (host ls) + 2) = Some mem" "length mem = length (host ls) + 2"
    using assms(3) unfolding mall_ok_def by blast
  have "question_loop (host ls) 0 mem = Some (wire_name ls)"
    using question_loop_wire [OF assms(1,2), of mem "[]" "[]"] m(2) length_wire [OF assms(2)] by simp
  then show ?thesis using m(1) by (simp add: dns_create_question_def)
qed

lemma write_next:
  assumes "length pre = p" and "length bs = k" and "k \<le> n"
  shows "write_at p bs (pre @ replicate n z) = Some (pre @ bs @ replicate (n - k) z)"
proof -
  have "replicate n z = replicate k z @ replicate (n - k) z" using assms(3) by (simp flip: replicate_add)
  then show ?thesis using write_at_append [of "replicate k z" bs pre "replicate (n - k) z"] assms by simp
qed

lemma build_request_wire:
  assumes "ls \<noteq> []" and "length (host ls) + 18 \<le> 1024"
    and "snd (dns_create_header rnd (Some h0)) = Some h"
    and "q = \<lparr>q_length = length (host ls) + 2, qtype = htons 1, qclass = htons 1, qname = wire_name ls\<rparr>"
  shows "dns_build_request h q (replicate 1024 0) =
    Some (length (host ls) + 18, request_bytes rnd ls @ replicate (1024 - (length (host ls) + 18)) 0)"
proof -
  let ?n = "length (host ls)"
  have h: "header_bytes h = net16 (htons rnd) @ net16 0x100 @ net16 1 @ net16 0 @ net16 0 @ net16 0"
    using assms(3) by (auto simp: dns_create_header_def header_bytes_def bytes16_net16) (simp_all add: htons_def)
  let ?h = "header_bytes h"
  have lh: "length ?h = 12" by (simp add: header_bytes_def)
  note lw = length_wire [OF assms(1)]
  have n: "?n + 18 \<le> 1024" by (rule assms(2))
  have 1: "write_at 0 ?h (replicate 1024 0) = Some (?h @ replicate 1012 0)"
    using write_next [of "[]" 0 ?h 12 1024] lh by simp
  have 2: "read_at 0 (?n + 2) (wire_name ls) = Some (wire_name ls)" using lw by (simp add: read_at_def)
  have 3: "write_at 12 (wire_name ls) (?h @ replicate 1012 0) = Some (?h @ wire_name ls @ replicate (1012 - (?n + 2)) 0)"
    by (rule write_next) (use lh lw n in auto)
  have 4: "write_at (12 + (?n + 2)) (net16 1) ((?h @ wire_name ls) @ replicate (1012 - (?n + 2)) 0) =
      Some ((?h @ wire_name ls) @ net16 1 @ replicate (1012 - (?n + 2) - 2) 0)"
    by (rule write_next) (use lh lw n in auto)
  have 5: "write_at (12 + (?n + 2) + 2) (net16 1) ((?h @ wire_name ls @ net16 1) @ replicate (1012 - (?n + 2) - 2) 0) =
      Some ((?h @ wire_name ls @ net16 1) @ net16 1 @ replicate (1012 - (?n + 2) - 2 - 2) 0)"
    by (rule write_next) (use lh lw n in auto)
  have "1012 - (?n + 2) - 2 - 2 = 1024 - (?n + 18)" using n by linarith
  then show ?thesis
    using 1 2 3 4 5 unfolding dns_build_request_def Let_def assms(4)
    by (simp add: bytes16_net16 request_bytes_def h)
qed

section \<open>Names in a message\<close>

text \<open>What a message says at \<open>p\<close>, as the standard has it: the name with these labels, of which the last ones may
  be elsewhere behind a compression pointer. The parser reads one byte of the offset, so the pointers of
  this message are to its first 256 bytes.\<close>

inductive name_at :: "byte list \<Rightarrow> nat \<Rightarrow> byte list list \<Rightarrow> bool" for msg where
  name_root: "byte_at msg p = Some 0 \<Longrightarrow> name_at msg p []"
| name_label: "label_ok l \<Longrightarrow> byte_at msg p = Some (of_nat (length l)) \<Longrightarrow> read_at (p + 1) (length l) msg = Some l \<Longrightarrow>
    name_at msg (p + 1 + length l) ls \<Longrightarrow> name_at msg p (l # ls)"
| name_pointer: "byte_at msg p = Some 0xC0 \<Longrightarrow> byte_at msg (p + 1) = Some n \<Longrightarrow> name_at msg (unat n) ls \<Longrightarrow> ls \<noteq> [] \<Longrightarrow>
    name_at msg p ls"

lemma name_at_first: "name_at msg p ls \<Longrightarrow> \<exists>b. byte_at msg p = Some b \<and> (b = 0 \<longleftrightarrow> ls = [])"
  by (induction rule: name_at.induct) (auto simp: label_byte(1))

lemma name_at_labels: "name_at msg p ls \<Longrightarrow> \<forall>l\<in>set ls. label_ok l"
  by (induction rule: name_at.induct) auto

lemma parse_name_at:
  "name_at msg p ls \<Longrightarrow> length o2 = length (host ls) \<Longrightarrow>
    parse_name_loop msg p (o1 @ o2 @ o3) (length o1) (length o1) = Some (o1 @ host ls @ o3, length o1 + length (host ls))"
proof (induction arbitrary: o1 o2 rule: name_at.induct)
  case (name_root p)
  then show ?case by (subst parse_name_loop.simps) simp
next
  case (name_pointer p n ls)
  have "is_pointer 0xC0" "(0xC0 :: byte) \<noteq> 0" by (simp_all add: is_pointer_def)
  then show ?case using name_pointer by (subst parse_name_loop.simps) simp
next
  case (name_label l p ls)
  note lb = label_byte [OF name_label(1)]
  obtain p1 p2 where p: "o2 = p1 @ p2" "length p1 = length l"
    using name_label.prems by (metis append_take_drop_id host_Cons le_add1 length_append length_take min.absorb2)
  have w: "write_at (length o1) l (o1 @ o2 @ o3) = Some (o1 @ l @ p2 @ o3)"
    using write_at_append [of p1 l o1 "p2 @ o3"] p by simp
  obtain c where c: "byte_at msg (p + 1 + length l) = Some c" "c = 0 \<longleftrightarrow> ls = []"
    using name_at_first [OF name_label(4)] by blast
  show ?case
  proof (cases "ls = []")
    case True
    then have "p2 = []" using name_label.prems p by (simp add: host_Cons)
    moreover have "parse_name_loop msg (p + 1 + length l) ((o1 @ l) @ [] @ o3) (length (o1 @ l)) (length (o1 @ l)) =
        Some ((o1 @ l) @ host ls @ o3, length (o1 @ l) + length (host ls))"
      by (rule name_label.IH) (use True in simp)
    ultimately show ?thesis using name_label(2,3) w c lb True by (subst parse_name_loop.simps) simp
  next
    case False
    have "length p2 = 1 + length (host ls)" using name_label.prems p False by (simp add: host_Cons)
    then obtain d p3 where p3: "p2 = d # p3" "length p3 = length (host ls)" by (cases p2) auto
    have w2: "write_at (length o1 + length l) [dot] (o1 @ l @ p2 @ o3) = Some ((o1 @ l @ [dot]) @ p3 @ o3)"
      using write_at_append [of "[d]" "[dot]" "o1 @ l" "p3 @ o3"] p3(1) by simp
    have "parse_name_loop msg (p + 1 + length l) ((o1 @ l @ [dot]) @ p3 @ o3) (length (o1 @ l @ [dot])) (length (o1 @ l @ [dot])) =
        Some ((o1 @ l @ [dot]) @ host ls @ o3, length (o1 @ l @ [dot]) + length (host ls))"
      by (rule name_label.IH) (rule p3(2))
    then show ?thesis using name_label(2,3) w w2 c lb False by (subst parse_name_loop.simps) (simp add: host_Cons)
  qed
qed

lemma parse_name_zero:
  assumes "name_at msg p ls" and "length (host ls) \<le> 128"
  shows "dns_parse_name msg p (replicate 128 0) 0 = Some (host ls @ replicate (128 - length (host ls)) 0, length (host ls))"
proof -
  have z: "replicate 128 (0::byte) = [] @ replicate (length (host ls)) 0 @ replicate (128 - length (host ls)) 0"
    using assms(2) by (simp flip: replicate_add)
  show ?thesis unfolding z dns_parse_name_def using parse_name_at [OF assms(1), of "replicate (length (host ls)) 0" "[]"] by simp
qed

lemma name_at_wire: "\<forall>l\<in>set ls. label_ok l \<Longrightarrow> name_at (pre @ wire_name ls @ suf) (length pre) ls"
proof (induction ls arbitrary: pre)
  case Nil
  then show ?case by (intro name_root byte_at_here) (simp_all add: wire_name_def wire_labels_def)
next
  case (Cons l ls)
  let ?n = "of_nat (length l) :: byte"
  have msg: "pre @ wire_name (l # ls) @ suf = pre @ ?n # l @ wire_name ls @ suf" by (simp add: wire_name_def wire_labels_Cons)
  show ?case unfolding msg
  proof (rule name_label)
    show "label_ok l" using Cons.prems by simp
    show "byte_at (pre @ ?n # l @ wire_name ls @ suf) (length pre) = Some ?n" by (rule byte_at_append)
    show "read_at (length pre + 1) (length l) (pre @ ?n # l @ wire_name ls @ suf) = Some l"
      by (rule read_at_here [of _ "pre @ [?n]"]) simp_all
    show "name_at (pre @ ?n # l @ wire_name ls @ suf) (length pre + 1 + length l) ls"
      using Cons.IH [of "pre @ ?n # l"] Cons.prems by simp
  qed
qed

text \<open>What follows a message does not matter.\<close>

lemma byte_at_more: "byte_at msg p = Some b \<Longrightarrow> byte_at (msg @ R) p = Some b"
  by (auto simp: byte_at_def nth_append split: if_splits)

lemma read_at_more: "read_at p n msg = Some bs \<Longrightarrow> read_at p n (msg @ R) = Some bs"
  by (auto simp: read_at_def split: if_splits)

lemma read_at_part: "read_at p n msg = Some (a @ b @ c) \<Longrightarrow> read_at (p + length a) (length b) msg = Some b"
proof -
  assume r: "read_at p n msg = Some (a @ b @ c)"
  then have abc: "take n (drop p msg) = a @ b @ c" "p + n \<le> length msg" by (auto simp: read_at_def split: if_splits)
  have msg: "drop p msg = (a @ b @ c) @ drop n (drop p msg)" unfolding abc(1) [symmetric] by (rule append_take_drop_id [symmetric])
  have "length (take n (drop p msg)) = n" using abc(2) by simp
  then have n: "length a + (length b + length c) = n" unfolding abc(1) by simp
  have "drop (p + length a) msg = drop (length a) (drop p msg)" by (simp add: add.commute)
  also have "\<dots> = b @ c @ drop n (drop p msg)" by (subst msg) simp
  finally show ?thesis using abc(2) n by (simp add: read_at_def)
qed

lemma name_at_more: "name_at msg p ls \<Longrightarrow> name_at (msg @ R) p ls"
proof (induction rule: name_at.induct)
  case (name_root p)
  then show ?case by (intro name_at.name_root byte_at_more)
next
  case (name_label l p ls)
  then show ?case using name_at.name_label byte_at_more read_at_more by blast
next
  case (name_pointer p n ls)
  then show ?case using name_at.name_pointer byte_at_more by blast
qed

section \<open>Responses\<close>

text \<open>The records of a response: for an address its owner, the upper half of its time to live, and its data; for
  an alias its owner and the name it stands for.\<close>

datatype answer = Address "byte list list" "16 word" "byte list" | Alias "byte list list" "byte list list"

text \<open>The record from \<open>p\<close> to \<open>q\<close>. Its owner is a compression pointer, since the parser skips two bytes for it.\<close>

inductive answer_at :: "byte list \<Rightarrow> nat \<Rightarrow> answer \<Rightarrow> nat \<Rightarrow> bool" for msg where
  address_at: "byte_at msg p = Some 0xC0 \<Longrightarrow> name_at msg p own \<Longrightarrow> length (host own) < 128 \<Longrightarrow>
    read_at (p + 2) 10 msg = Some (net16 DNS_HOST @ net16 cls @ net16 hi @ net16 low @ net16 n) \<Longrightarrow>
    read_at (p + 12) (unat n) msg = Some data \<Longrightarrow> answer_at msg p (Address own hi data) (p + 12 + unat n)"
| alias_at: "byte_at msg p = Some 0xC0 \<Longrightarrow> name_at msg p own \<Longrightarrow> length (host own) < 128 \<Longrightarrow>
    read_at (p + 2) 10 msg = Some (net16 DNS_CNAME @ net16 cls @ net16 hi @ net16 low @ net16 n) \<Longrightarrow>
    name_at msg (p + 12) ls \<Longrightarrow> length (host ls) \<le> 128 \<Longrightarrow> answer_at msg p (Alias own ls) (p + 12 + unat n)"

inductive answers_at :: "byte list \<Rightarrow> nat \<Rightarrow> answer list \<Rightarrow> bool" for msg where
  no_answer: "answers_at msg p []"
| one_answer: "answer_at msg p a q \<Longrightarrow> answers_at msg q as \<Longrightarrow> answers_at msg p (a # as)"

text \<open>An address of the internet has four bytes.\<close>

fun found :: "answer \<Rightarrow> (dns_item \<times> 16 word) list" where
  "found (Address own hi data) = (if length data = 4 then [(\<lparr>it_domain = host own, it_ip = inet_ntop4 data\<rparr>, hi)] else [])"
| "found (Alias own ls) = []"

definition wire_query :: "byte list list \<times> 16 word \<times> 16 word \<Rightarrow> byte list" where
  "wire_query q = wire_name (fst q) @ net16 (fst (snd q)) @ net16 (snd (snd q))"

text \<open>A response with the questions \<open>qs\<close> and \<open>n\<close> answers in \<open>rest\<close>.\<close>

definition response :: "16 word \<Rightarrow> 16 word \<Rightarrow> 16 word \<Rightarrow> 16 word \<Rightarrow> (byte list list \<times> 16 word \<times> 16 word) list \<Rightarrow> nat \<Rightarrow> byte list \<Rightarrow> byte list"
  where
  "response i fl ns ar qs n rest = net16 i @ net16 fl @ net16 (of_nat (length qs)) @ net16 (of_nat n) @ net16 ns @ net16 ar @
     concat (map wire_query qs) @ rest"

lemma answer_at_more: "answer_at msg p a q \<Longrightarrow> answer_at (msg @ R) p a q"
  by (induction rule: answer_at.induct) (auto intro!: answer_at.intros byte_at_more read_at_more name_at_more)

lemma answers_at_more: "answers_at msg p as \<Longrightarrow> answers_at (msg @ R) p as"
  by (induction rule: answers_at.induct) (auto intro: answers_at.intros answer_at_more)

lemma host_no_null: "\<forall>l\<in>set ls. label_ok l \<Longrightarrow> 0 \<notin> set (host ls)"
proof (induction ls)
  case (Cons l ls)
  then show ?case by (auto simp: host_Cons label_ok_def dot_def)
qed simp

lemma parse_answer_at:
  assumes "answer_at msg p a q"
  shows "\<exists>it. parse_answer msg p = Some (q, it) \<and> found a = (case it of None \<Rightarrow> [] | Some x \<Rightarrow> [x])"
proof -
  have head: "read16 msg (p + 2) = Some (load16 (net16 ty)) \<and> read16 msg (p + 2 + 4) = Some (load16 (net16 hi)) \<and>
      read16 msg (p + 2 + 4 + 4) = Some (load16 (net16 n))"
    if r: "read_at (p + 2) 10 msg = Some (net16 ty @ net16 cls @ net16 hi @ net16 low @ net16 n)" for ty cls hi low n
    using read_at_part [of "p + 2" 10 msg "[]" "net16 ty" "net16 cls @ net16 hi @ net16 low @ net16 n"]
      read_at_part [of "p + 2" 10 msg "net16 ty @ net16 cls" "net16 hi" "net16 low @ net16 n"]
      read_at_part [of "p + 2" 10 msg "net16 ty @ net16 cls @ net16 hi @ net16 low" "net16 n" "[]"] r
    by (simp add: read16_def add.assoc)
  show ?thesis
    using assms
  proof (cases rule: answer_at.cases)
    case (address_at own cls hi low n data)
    have nm: "dns_parse_name msg p (replicate 128 0) 0 = Some (host own @ replicate (128 - length (host own)) 0, length (host own))"
      using parse_name_zero [OF address_at(4)] address_at(5) by simp
    obtain k where "128 - length (host own) = Suc k" using address_at(5) by (cases "128 - length (host own)") auto
    then have cs: "c_string (host own @ replicate (128 - length (host own)) 0) = Some (host own)"
      using c_string_padded [OF host_no_null [OF name_at_labels [OF address_at(4)]]] by simp
    have len: "length data = unat n" using address_at(7) by (auto simp: read_at_def split: if_splits)
    have q: "q = p + 2 + 4 + 4 + 2 + unat n" using address_at(2) by simp
    have e: "p + 2 + 4 + 4 + 2 = p + 12" by simp
    have rd: "read_at (p + 2 + 4 + 4 + 2) (unat n) msg = Some data" unfolding e by (rule address_at(7))
    have pa: "parse_answer msg p = (if unat n = 4 then
        do { netip \<leftarrow> read_at (p + 2 + 4 + 4 + 2) 4 msg;
             Some (q, Some (\<lparr>it_domain = host own, it_ip = inet_ntop4 netip\<rparr>, hi)) }
      else Some (q, None))"
      unfolding q parse_answer_def using nm cs head [OF address_at(6)] by (simp add: htons_load16_net Let_def)
    show ?thesis
    proof (cases "unat n = 4")
      case True
      then show ?thesis using pa rd len address_at(1) by simp
    next
      case False
      then show ?thesis using pa len address_at(1) by simp
    qed
  next
    case (alias_at own cls hi low n ls)
    have nm: "dns_parse_name msg p (replicate 128 0) 0 = Some (host own @ replicate (128 - length (host own)) 0, length (host own))"
      using parse_name_zero [OF alias_at(4)] alias_at(5) by simp
    have "dns_parse_name msg (p + 2 + 4 + 4 + 2) (replicate 128 0) 0 = Some (host ls @ replicate (128 - length (host ls)) 0, length (host ls))"
    proof -
      have e: "p + 2 + 4 + 4 + 2 = p + 12" by simp
      show ?thesis unfolding e by (rule parse_name_zero [OF alias_at(7,8)])
    qed
    moreover have q: "q = p + 2 + 4 + 4 + 2 + unat n" using alias_at(2) by simp
    ultimately have "parse_answer msg p = Some (q, None)"
      unfolding q parse_answer_def using nm head [OF alias_at(6)] by (simp add: htons_load16_net Let_def)
    then show ?thesis using alias_at(1) by simp
  qed
qed

lemma parse_answers_at: "answers_at msg p as \<Longrightarrow> parse_answers (length as) msg p = Some (concat (map found as))"
proof (induction rule: answers_at.induct)
  case (one_answer p a q as)
  obtain it where "parse_answer msg p = Some (q, it)" "found a = (case it of None \<Rightarrow> [] | Some x \<Rightarrow> [x])"
    using parse_answer_at [OF one_answer(1)] by blast
  then show ?case using one_answer.IH by simp
qed simp

lemma skip_queries_wire:
  "\<forall>q\<in>set qs. \<forall>l\<in>set (fst q). label_ok l \<Longrightarrow>
    skip_queries (length qs) (pre @ concat (map wire_query qs) @ suf) (length pre) = Some (length pre + length (concat (map wire_query qs)))"
proof (induction qs arbitrary: pre)
  case (Cons q qs)
  let ?t = "net16 (fst (snd q)) @ net16 (snd (snd q))" and ?C = "concat (map wire_query qs)"
  have e: "wire_query q = wire_name (fst q) @ ?t" by (simp add: wire_query_def)
  have "skip_name (pre @ wire_name (fst q) @ ?t @ concat (map wire_query qs) @ suf) (length pre) = Some (length pre + length (wire_name (fst q)))"
    by (rule skip_name_wire) (use Cons.prems in simp)
  moreover have "skip_queries (length qs) ((pre @ wire_query q) @ concat (map wire_query qs) @ suf) (length (pre @ wire_query q)) =
      Some (length (pre @ wire_query q) + length (concat (map wire_query qs)))"
    by (rule Cons.IH) (use Cons.prems in simp)
  ultimately show ?case by (simp add: e add.assoc)
qed simp

lemma parse_response_wire:
  assumes "\<forall>q\<in>set qs. \<forall>l\<in>set (fst q). label_ok l" and "length qs < 65536" and "length as < 65536"
    and "answers_at (response i fl ns ar qs (length as) rest) (12 + length (concat (map wire_query qs))) as"
  defines "items \<equiv> concat (map found as)"
  shows "dns_parse_response True (response i fl ns ar qs (length as) rest @ R) = Some (int (length items), map fst items, map snd items)"
proof -
  let ?m = "response i fl ns ar qs (length as) rest" and ?n = "of_nat (length as) :: 16 word" and ?k = "of_nat (length qs) :: 16 word"
  let ?H = "net16 i @ net16 fl @ net16 ?k @ net16 ?n @ net16 ns @ net16 ar"
  have buf: "?m @ R = ?H @ concat (map wire_query qs) @ rest @ R" by (simp add: response_def)
  have q: "read16 (?m @ R) 4 = Some (load16 (net16 ?k))"
    by (rule read16_here [of _ "net16 i @ net16 fl"]) (unfold buf, simp_all)
  have a: "read16 (?m @ R) (4 + 2) = Some (load16 (net16 ?n))"
    by (rule read16_here [of _ "net16 i @ net16 fl @ net16 ?k"]) (unfold buf, simp_all)
  have "skip_queries (length qs) (?m @ R) (length ?H) = Some (length ?H + length (concat (map wire_query qs)))"
    unfolding buf by (rule skip_queries_wire [OF assms(1)])
  then have s: "skip_queries (length qs) (?m @ R) (4 + 2 + 6) = Some (12 + length (concat (map wire_query qs)))" by simp
  have p: "parse_answers (length as) (?m @ R) (12 + length (concat (map wire_query qs))) = Some items"
    unfolding items_def by (rule parse_answers_at [OF answers_at_more [OF assms(4)]])
  have n: "unat ?n = length as" "unat ?k = length qs" using assms(2,3) by (simp_all add: unat_of_nat)
  show ?thesis
    unfolding dns_parse_response_def q a Let_def bind.bind_lunit htons_load16_net n
    using s p by simp
qed

section \<open>Pointers that lead nowhere\<close>

lemma self_pointer_hangs:
  assumes "byte_at chunk n = Some b" and "is_pointer b" and "byte_at chunk (n + 1) = Some c" and "unat c = n"
  shows "parse_name_loop chunk n out pos len = None"
proof -
  have "b \<noteq> 0" using assms(2) by (auto simp: is_pointer_def)
  let ?P = "\<lambda>chunk' ptr (out :: byte list) (pos :: nat) (len :: nat) (y :: byte list \<times> nat). chunk' = chunk \<longrightarrow> ptr \<noteq> n"
  have "?P chunk' ptr out pos len y" if "parse_name_loop chunk' ptr out pos len = Some y" for chunk' ptr out pos len y
  proof (rule parse_name_loop.raw_induct [where P = ?P, OF _ that], intro impI notI)
    fix f chunk' ptr out pos len y
    assume IH: "\<And>chunk' ptr out pos len y. f chunk' ptr out pos len = Some y \<Longrightarrow> ?P chunk' ptr out pos len y"
      and body: "byte_at chunk' ptr \<bind> (\<lambda>b. if b = 0 then Some (out, len)
        else if is_pointer b then byte_at chunk' (ptr + 1) \<bind> (\<lambda>n. f chunk' (unat n) out len len)
        else read_at (ptr + 1) (unat b) chunk' \<bind> (\<lambda>bs. write_at pos bs out \<bind> (\<lambda>out1. byte_at chunk' (ptr + 1 + unat b) \<bind>
          (\<lambda>c. if c \<noteq> 0 then write_at (pos + unat b) [dot] out1 \<bind>
              (\<lambda>out2. f chunk' (ptr + 1 + unat b) out2 (pos + unat b + 1) (len + unat b + 1))
            else f chunk' (ptr + 1 + unat b) out1 (pos + unat b) (len + unat b))))) = Some y"
      and e: "chunk' = chunk" "ptr = n"
    have "f chunk n out len len = Some y" using body assms \<open>b \<noteq> 0\<close> unfolding e by simp
    from IH [OF this] show False by simp
  qed
  then have "parse_name_loop chunk n out pos len \<noteq> Some y" for y by blast
  then show ?thesis by (cases "parse_name_loop chunk n out pos len") auto
qed

section \<open>The properties of the client\<close>

text \<open>C14: for a host name whose labels are nonempty and shorter than 64 bytes, the request the client
  builds is the header with one query, the encoded name, type A and class IN, and the name parser
  of the client reads the host name back from it.\<close>

theorem dns_request_roundtrip:
  assumes "\<forall>l\<in>set ls. label_ok l" and "ls \<noteq> []" and "length (host ls) \<le> 128" and "mall_ok mall"
  shows "\<exists>h q. dns_create_header rnd (Some h0) = (0, Some h) \<and> dns_create_question mall (Some q0) (host ls) = Some (0, Some q) \<and>
    dns_build_request h q (replicate 1024 0) =
      Some (length (host ls) + 18, request_bytes rnd ls @ replicate (1024 - (length (host ls) + 18)) 0) \<and>
    dns_parse_name (request_bytes rnd ls) 12 (replicate 128 0) 0 =
      Some (host ls @ replicate (128 - length (host ls)) 0, length (host ls))"
proof -
  obtain h where h: "dns_create_header rnd (Some h0) = (0, Some h)" by (simp add: dns_create_header_def)
  note q = create_question_wire [OF assms(1,2,4), of q0]
  have r: "dns_build_request h \<lparr>q_length = length (host ls) + 2, qtype = htons 1, qclass = htons 1, qname = wire_name ls\<rparr>
      (replicate 1024 0) = Some (length (host ls) + 18, request_bytes rnd ls @ replicate (1024 - (length (host ls) + 18)) 0)"
    by (rule build_request_wire [OF assms(2) _ _ refl, of rnd h0]) (use assms(3) h in simp_all)
  have "name_at (request_bytes rnd ls) 12 ls"
    using name_at_wire [OF assms(1), of "net16 (htons rnd) @ net16 0x100 @ net16 1 @ net16 0 @ net16 0 @ net16 0" "net16 1 @ net16 1"]
    by (simp add: request_bytes_def)
  then have "dns_parse_name (request_bytes rnd ls) 12 (replicate 128 0) 0 =
      Some (host ls @ replicate (128 - length (host ls)) 0, length (host ls))"
    by (rule parse_name_zero [OF _ assms(3)])
  then show ?thesis using h q r by blast
qed

text \<open>C15: a query and its answer: the client registers the new socket, and when a response of any questions
  and any number of records of the types A and CNAME arrives, whose owners are compression pointers to its
  first 256 bytes and whose names are shorter than 128 bytes, the callback is called once with exactly the
  addresses of four bytes in it, in order, each under the name of its owner; the socket is then removed and
  closed. Behind a record of another type the parser loses its place.\<close>

theorem dns_client_calls_back:
  assumes "\<forall>l\<in>set ls. label_ok l" and "ls \<noteq> []" and "length (host ls) < 128" and "mall_ok mall"
    and "0 \<le> fd" and "fd \<notin> open_fds ctx" and "\<forall>e\<in>set (interest ctx). fst e \<noteq> fd"
    and "\<forall>q\<in>set qs. \<forall>l\<in>set (fst q). label_ok l" and "length qs < 65536" and "length as < 65536"
    and "answers_at (response i fl ns ar qs (length as) rest) (12 + length (concat (map wire_query qs))) as"
    and "length (response i fl ns ar qs (length as) rest) \<le> 1024"
  defines "items \<equiv> concat (map found as)"
  shows "\<exists>ctx1 ctx2. dns_async_client_commit mall rnd True 0 fd ctx (host ls) f = Some (0, ctx1) \<and>
    sent ctx1 = sent ctx @ [(fd, request_bytes rnd ls)] \<and> interest ctx1 = interest ctx @ [(fd, \<lparr>sockfd = fd, cb = f\<rparr>)] \<and>
    dns_async_client_proc [(\<lparr>sockfd = fd, cb = f\<rparr>, response i fl ns ar qs (length as) rest)] ctx1 = Some ctx2 \<and>
    called ctx2 = called ctx @ [(f, map fst items, int (length items))] \<and>
    interest ctx2 = interest ctx \<and> open_fds ctx2 = open_fds ctx"
proof -
  let ?zero = "\<lparr>hd_id = 0, hd_flags = 0, qdcount = 0, ancount = 0, nscount = 0, arcount = 0\<rparr> :: dns_header"
  let ?blank = "\<lparr>q_length = 0, qtype = 0, qclass = 0, qname = []\<rparr> :: dns_question"
  obtain h where h: "dns_create_header rnd (Some ?zero) = (0, Some h)" by (simp add: dns_create_header_def)
  let ?q = "\<lparr>q_length = length (host ls) + 2, qtype = htons 1, qclass = htons 1, qname = wire_name ls\<rparr> :: dns_question"
  note q = create_question_wire [OF assms(1,2,4), of ?blank]
  have r: "dns_build_request h ?q (replicate 1024 0) =
      Some (length (host ls) + 18, request_bytes rnd ls @ replicate (1024 - (length (host ls) + 18)) 0)"
    by (rule build_request_wire [OF assms(2) _ _ refl, of rnd ?zero]) (use assms(3) h in simp_all)
  have len: "length (request_bytes rnd ls) = length (host ls) + 18"
    using length_wire [OF assms(2)] by (simp add: request_bytes_def)
  let ?c1 = "ctx\<lparr>open_fds := insert fd (open_fds ctx), sent := sent ctx @ [(fd, request_bytes rnd ls)],
    interest := interest ctx @ [(fd, \<lparr>sockfd = fd, cb = f\<rparr>)]\<rparr>"
  have c: "dns_async_client_commit mall rnd True 0 fd ctx (host ls) f = Some (0, ?c1)"
    using assms(5) h q r len by (simp add: dns_async_client_commit_def Let_def)
  let ?b = "response i fl ns ar qs (length as) rest @ replicate (1024 - length (response i fl ns ar qs (length as) rest)) 0"
  have p: "dns_parse_response True ?b = Some (int (length items), map fst items, map snd items)"
    unfolding items_def by (rule parse_response_wire [OF assms(8-11)])
  let ?c2 = "?c1\<lparr>called := called ctx @ [(f, map fst items, int (length items))],
    interest := filter (\<lambda>e. fst e \<noteq> fd) (interest ?c1), open_fds := open_fds ?c1 - {fd}\<rparr>"
  have e: "dns_async_client_proc [(\<lparr>sockfd = fd, cb = f\<rparr>, response i fl ns ar qs (length as) rest)] ?c1 = Some ?c2"
    using p assms(12) by (simp add: proc_event_def Let_def)
  have "filter (\<lambda>e. fst e \<noteq> fd) (interest ctx) = interest ctx" using assms(7) by (simp add: filter_id_conv)
  then have "interest ?c2 = interest ctx" "open_fds ?c2 = open_fds ctx" using assms(6) by auto
  then show ?thesis using c e by (intro exI [of _ ?c1] exI [of _ ?c2]) simp
qed

text \<open>a compression pointer that points at itself, which any server can send, makes the name
  parser call itself forever, whatever the rest of the response is.\<close>

theorem dns_self_pointer_never_returns:
  assumes "n + 1 < length chunk" and "is_pointer (chunk ! n)" and "unat (chunk ! (n + 1)) = n"
  shows "dns_parse_name chunk n out len = None"
  unfolding dns_parse_name_def
  by (rule self_pointer_hangs [OF _ assms(2) _ assms(3)]) (use assms(1) in \<open>simp_all add: byte_at_def\<close>)

section \<open>Witnesses\<close>

definition demo_labels :: "byte list list" where
  "demo_labels = [[113], [113, 113]]"

lemma demo_labels_ok: "\<forall>l\<in>set demo_labels. label_ok l" "demo_labels \<noteq> []" "length (host demo_labels) < 128"
  by (simp_all add: demo_labels_def label_ok_def dot_def)

lemma mall_demo: "mall_ok (\<lambda>n. Some (replicate n 7))"
  by (simp add: mall_ok_def)

theorem dns_request_witness:
  "\<exists>h q. dns_create_header 99 (Some \<lparr>hd_id = 0, hd_flags = 0, qdcount = 0, ancount = 0, nscount = 0, arcount = 0\<rparr>) = (0, Some h) \<and>
    dns_create_question (\<lambda>n. Some (replicate n 7)) (Some \<lparr>q_length = 0, qtype = 0, qclass = 0, qname = []\<rparr>) (host demo_labels) = Some (0, Some q) \<and>
    dns_build_request h q (replicate 1024 0) = Some (length (host demo_labels) + 18,
      request_bytes 99 demo_labels @ replicate (1024 - (length (host demo_labels) + 18)) 0) \<and>
    dns_parse_name (request_bytes 99 demo_labels) 12 (replicate 128 0) 0 =
      Some (host demo_labels @ replicate (128 - length (host demo_labels)) 0, length (host demo_labels))"
  by (rule dns_request_roundtrip [OF demo_labels_ok(1,2) _ mall_demo]) (use demo_labels_ok(3) in simp)

definition demo_ctx :: async_context where
  "demo_ctx = \<lparr>epfd = 3, interest = [], open_fds = {3}, sent = [], called = []\<rparr>"

text \<open>A response with an alias, whose name ends in a pointer into the question, and the address of that name.\<close>

definition demo_rest :: "byte list" where
  "demo_rest = [0xC0, 12] @ net16 5 @ net16 1 @ net16 0 @ net16 60 @ net16 4 @ [1, 97, 0xC0, 14] @
     [0xC0, 34] @ net16 1 @ net16 1 @ net16 0 @ net16 60 @ net16 4 @ [1, 2, 3, 4]"

definition demo_questions :: "(byte list list \<times> 16 word \<times> 16 word) list" where
  "demo_questions = [(demo_labels, 1, 1)]"

definition demo_answers :: "answer list" where
  "demo_answers = [Alias demo_labels [[97], [113, 113]], Address [[97], [113, 113]] 0 [1, 2, 3, 4]]"

abbreviation (input) demo_response :: "byte list" where
  "demo_response \<equiv> response 99 0 0 0 demo_questions (length demo_answers) demo_rest"

lemma demo_bytes: "demo_response =
    [0, 99, 0, 0, 0, 1, 0, 2, 0, 0, 0, 0, 1, 113, 2, 113, 113, 0, 0, 1, 0, 1,
     0xC0, 12, 0, 5, 0, 1, 0, 0, 0, 60, 0, 4, 1, 97, 0xC0, 14, 0xC0, 34, 0, 1, 0, 1, 0, 0, 0, 60, 0, 4, 1, 2, 3, 4]"
  by (simp add: response_def demo_questions_def demo_answers_def demo_labels_def demo_rest_def wire_query_def wire_name_def wire_labels_def net16_def)

lemma demo_names: "name_at demo_response 12 demo_labels" "name_at demo_response 34 [[97], [113, 113]]"
proof -
  have n17: "name_at demo_response 17 []" by (rule name_root) (simp add: demo_bytes byte_at_def)
  have n14: "name_at demo_response 14 [[113, 113]]"
    by (rule name_label) (use n17 in \<open>simp_all add: demo_bytes byte_at_def read_at_def label_ok_def dot_def\<close>)
  show "name_at demo_response 12 demo_labels" unfolding demo_labels_def
    by (rule name_label) (use n14 in \<open>simp_all add: demo_bytes byte_at_def read_at_def label_ok_def dot_def\<close>)
  have n36: "name_at demo_response 36 [[113, 113]]"
    by (rule name_pointer [of _ _ 14]) (use n14 in \<open>simp_all add: demo_bytes byte_at_def\<close>)
  show "name_at demo_response 34 [[97], [113, 113]]"
    by (rule name_label) (use n36 in \<open>simp_all add: demo_bytes byte_at_def read_at_def label_ok_def dot_def\<close>)
qed

lemma demo_answers_at: "answers_at demo_response (12 + length (concat (map wire_query demo_questions))) demo_answers"
proof -
  have p: "12 + length (concat (map wire_query demo_questions)) = 22"
    by (simp add: demo_questions_def wire_query_def demo_labels_def wire_name_def wire_labels_def)
  have n22: "name_at demo_response 22 demo_labels"
    by (rule name_pointer [of _ _ 12]) (use demo_names(1) in \<open>simp_all add: demo_bytes byte_at_def demo_labels_def\<close>)
  have 1: "answer_at demo_response 22 (Alias demo_labels [[97], [113, 113]]) (22 + 12 + unat (4 :: 16 word))"
    by (rule alias_at [where cls = 1 and hi = 0 and low = 60, OF _ n22])
      (use demo_names(2) in \<open>simp_all add: demo_bytes byte_at_def read_at_def demo_labels_def net16_def\<close>)
  have n38: "name_at demo_response 38 [[97], [113, 113]]"
    by (rule name_pointer [of _ _ 34]) (use demo_names(2) in \<open>simp_all add: demo_bytes byte_at_def\<close>)
  have 2: "answer_at demo_response 38 (Address [[97], [113, 113]] 0 [1, 2, 3, 4]) (38 + 12 + unat (4 :: 16 word))"
    by (rule address_at [where cls = 1 and low = 60, OF _ n38]) (simp_all add: demo_bytes byte_at_def read_at_def net16_def)
  have "answers_at demo_response 38 [Address [[97], [113, 113]] 0 [1, 2, 3, 4]]" by (rule one_answer [OF 2 no_answer])
  then show ?thesis unfolding p demo_answers_def using one_answer [OF 1] by (simp add: demo_answers_def)
qed

theorem dns_client_witness:
  "\<exists>ctx1 ctx2. dns_async_client_commit (\<lambda>n. Some (replicate n 7)) 99 True 0 4 demo_ctx (host demo_labels) 1 = Some (0, ctx1) \<and>
    dns_async_client_proc [(\<lparr>sockfd = 4, cb = 1\<rparr>, demo_response)] ctx1 = Some ctx2 \<and>
    called ctx2 = [(1, [\<lparr>it_domain = [97, dot, 113, 113], it_ip = inet_ntop4 [1, 2, 3, 4]\<rparr>], 1)] \<and>
    interest ctx2 = interest demo_ctx \<and> open_fds ctx2 = open_fds demo_ctx"
proof -
  have l: "length demo_response \<le> 1024" "\<forall>q\<in>set demo_questions. \<forall>l\<in>set (fst q). label_ok l" "length demo_questions < 65536" "length demo_answers < 65536"
    using demo_labels_ok(1) by (simp_all add: demo_bytes) (simp_all add: demo_questions_def demo_answers_def)
  have f: "concat (map found demo_answers) = [(\<lparr>it_domain = [97, dot, 113, 113], it_ip = inet_ntop4 [1, 2, 3, 4]\<rparr>, 0)]"
    by (simp add: demo_answers_def)
  have c: "(0 :: int) \<le> 4" "4 \<notin> open_fds demo_ctx" "\<forall>e\<in>set (interest demo_ctx). fst e \<noteq> 4" "called demo_ctx = []" by (simp_all add: demo_ctx_def)
  show ?thesis
    using dns_client_calls_back [OF demo_labels_ok mall_demo c(1-3) l(2-4) demo_answers_at l(1), of 99 1] unfolding f c(4) by auto
qed

theorem dns_self_pointer_witness: "dns_parse_name [0xC0, 0] 0 (replicate 128 0) 0 = None"
  by (rule dns_self_pointer_never_returns) (simp_all add: is_pointer_def)

end
