(* ===== verification/Reactor.thy ===== *)
theory Reactor
  imports Bytes "HOL-Library.Signed_Division"
begin

text \<open>
  The reactor the network servers share (the copy in \<open>2.1.4websocket/websocket_reactor.c\<close>): a table of
  events in blocks of 1024 that grows on demand and is indexed by the descriptor, the functions that
  move an event between the table and the \<open>epoll\<close> instance of the kernel, and the loop that calls
  the callbacks of the events that are ready. Every server adds fields to the event and gives its own
  callbacks; the table and the loop are the same.

  The kernel is explicit: the open descriptors, the events registered with \<open>epoll\<close>, the
  connections waiting on a listening socket and, for a socket, the segments that arrive, the end of the
  stream, the room for output and what was sent. The outcome of each call of \<open>malloc\<close> is given by a
  function of the number of the call.
\<close>

abbreviation (input) MAX_EPOLL_EVENTS :: int where
  "MAX_EPOLL_EVENTS \<equiv> 1024"

definition EPOLLIN :: "32 word" where
  "EPOLLIN = 1"

definition EPOLLOUT :: "32 word" where
  "EPOLLOUT = 4"

lemma epoll_bits [simp]:
  "EPOLLIN AND EPOLLIN \<noteq> 0" "EPOLLOUT AND EPOLLOUT \<noteq> 0"
  "EPOLLIN AND EPOLLOUT = 0" "EPOLLOUT AND EPOLLIN = 0" "EPOLLIN \<noteq> EPOLLOUT" "EPOLLOUT \<noteq> EPOLLIN"
  "EPOLLIN \<noteq> 0" "EPOLLOUT \<noteq> 0"
  by (simp_all add: EPOLLIN_def EPOLLOUT_def)

section \<open>The state\<close>

datatype callback = NoCB | RecvCB | SendCB | AcceptCB

text \<open>\<open>ev_arg\<close> says whether the argument of the callback is the reactor or null.\<close>

record ntyevent =
  ev_fd :: int
  ev_events :: "32 word"
  ev_arg :: bool
  ev_callback :: callback
  ev_status :: int
  ev_buffer :: "byte list"
  ev_length :: int

type_synonym 'e eventblock = "nat \<Rightarrow> 'e"

text \<open>The list of blocks stands for the linked list; the null pointer is the empty list.\<close>

record 'e ntyreactor =
  epfd :: int
  blkcnt :: int
  evblk :: "'e eventblock list"

text \<open>The address of an event is its block and its place in the block.\<close>

type_synonym slot = "nat \<times> nat"

record conn =
  c_in :: "byte list list"
  c_eof :: bool
  c_room :: nat

record kernel =
  k_open :: "int list"
  k_interest :: "int \<Rightarrow> (slot \<times> 32 word) option"
  k_backlog :: "int \<Rightarrow> conn list"
  k_fcntl :: "int \<Rightarrow> bool"
  k_conn :: "int \<Rightarrow> conn"
  k_out :: "int \<Rightarrow> byte list"

record 'e server =
  s_reactor :: "'e ntyreactor"
  s_kernel :: kernel
  s_malloc :: "nat \<Rightarrow> bool"
  s_calls :: nat
  s_live :: nat

section \<open>Calls of the system\<close>

definition malloc :: "'e server \<Rightarrow> bool \<times> 'e server" where
  "malloc s = (s_malloc s (s_calls s),
     s\<lparr>s_calls := Suc (s_calls s), s_live := (if s_malloc s (s_calls s) then Suc (s_live s) else s_live s)\<rparr>)"

datatype ctl_op = EPOLL_CTL_ADD | EPOLL_CTL_MOD | EPOLL_CTL_DEL

definition epoll_ctl :: "int \<Rightarrow> ctl_op \<Rightarrow> int \<Rightarrow> slot \<Rightarrow> 32 word \<Rightarrow> kernel \<Rightarrow> int \<times> kernel" where
  "epoll_ctl ep opn fd p evs k =
    (if ep \<notin> set (k_open k) \<or> fd \<notin> set (k_open k) then (- 1, k)
     else case opn of
       EPOLL_CTL_ADD \<Rightarrow> (if k_interest k fd = None
         then (0, k\<lparr>k_interest := (k_interest k)(fd \<mapsto> (p, evs))\<rparr>) else (- 1, k))
     | EPOLL_CTL_MOD \<Rightarrow> (if k_interest k fd = None then (- 1, k)
         else (0, k\<lparr>k_interest := (k_interest k)(fd \<mapsto> (p, evs))\<rparr>))
     | EPOLL_CTL_DEL \<Rightarrow> (if k_interest k fd = None then (- 1, k)
         else (0, k\<lparr>k_interest := (k_interest k)(fd := None)\<rparr>)))"

text \<open>Closing a descriptor removes it from the \<open>epoll\<close> instance.\<close>

definition close_fd :: "int \<Rightarrow> kernel \<Rightarrow> kernel" where
  "close_fd fd k = k\<lparr>k_open := filter (\<lambda>x. x \<noteq> fd) (k_open k), k_interest := (k_interest k)(fd := None)\<rparr>"

text \<open>A new descriptor is the lowest number that is not open.\<close>

definition fresh_fd :: "int list \<Rightarrow> int" where
  "fresh_fd fds = hd (filter (\<lambda>n. n \<notin> set fds) (map int [0..<Suc (length fds)]))"

definition accept_conn :: "int \<Rightarrow> kernel \<Rightarrow> int \<times> kernel" where
  "accept_conn fd k =
    (case k_backlog k fd of
       [] \<Rightarrow> (- 1, k)
     | c # cs \<Rightarrow> (let n = fresh_fd (k_open k) in
         (n, k\<lparr>k_open := n # k_open k, k_backlog := (k_backlog k)(fd := cs),
              k_conn := (k_conn k)(n := c), k_out := (k_out k)(n := [])\<rparr>)))"

text \<open>Reading at most \<open>n\<close> bytes: no value is the result -1 of a socket that has nothing to read and
  is still connected.\<close>

definition recv_bytes :: "int \<Rightarrow> nat \<Rightarrow> kernel \<Rightarrow> byte list option \<times> kernel" where
  "recv_bytes fd n k =
    (if n = 0 then (Some [], k)
     else case c_in (k_conn k fd) of
       [] \<Rightarrow> (if c_eof (k_conn k fd) then (Some [], k) else (None, k))
     | seg # segs \<Rightarrow> (Some (take n seg),
         k\<lparr>k_conn := (k_conn k)(fd := (k_conn k fd)\<lparr>c_in := (if drop n seg = [] then segs else drop n seg # segs)\<rparr>)\<rparr>))"

definition send_bytes :: "int \<Rightarrow> byte list \<Rightarrow> kernel \<Rightarrow> int \<times> kernel" where
  "send_bytes fd bs k =
    (let c = k_conn k fd; n = min (c_room c) (length bs)
     in if bs \<noteq> [] \<and> n = 0 then (- 1, k)
        else (int n, k\<lparr>k_conn := (k_conn k)(fd := c\<lparr>c_room := c_room c - n\<rparr>),
                      k_out := (k_out k)(fd := k_out k fd @ take n bs)\<rparr>))"

section \<open>The table of events\<close>

definition ev_at :: "'e server \<Rightarrow> slot \<Rightarrow> 'e" where
  "ev_at s p = (evblk (s_reactor s) ! fst p) (snd p)"

definition upd_ev :: "slot \<Rightarrow> ('e \<Rightarrow> 'e) \<Rightarrow> 'e server \<Rightarrow> 'e server" where
  "upd_ev p f s = s\<lparr>s_reactor := (s_reactor s)\<lparr>evblk := (evblk (s_reactor s))
     [fst p := (evblk (s_reactor s) ! fst p)(snd p := f (ev_at s p))]\<rparr>\<rparr>"

definition upd_kernel :: "(kernel \<Rightarrow> kernel) \<Rightarrow> 'e server \<Rightarrow> 'e server" where
  "upd_kernel f s = s\<lparr>s_kernel := f (s_kernel s)\<rparr>"

text \<open>The event \<open>z\<close> is the one with all bytes zero.\<close>

definition ntyreactor_alloc :: "'e \<Rightarrow> 'e server \<Rightarrow> int \<times> 'e server" where
  "ntyreactor_alloc z s =
    (if evblk (s_reactor s) = [] then (- 1, s)
     else case malloc s of (ok, s1) \<Rightarrow>
       if \<not> ok then (- 2, s1)
       else case malloc s1 of (ok2, s2) \<Rightarrow>
         if \<not> ok2 then (- 2, s2)
         else (0, s2\<lparr>s_reactor := (s_reactor s2)\<lparr>evblk := evblk (s_reactor s2) @ [\<lambda>_. z],
                blkcnt := blkcnt (s_reactor s2) + 1\<rparr>\<rparr>))"

partial_function (option) grow_table :: "'e \<Rightarrow> int \<Rightarrow> 'e server \<Rightarrow> 'e server option" where
  "grow_table z blkidx s =
    (if blkidx \<ge> blkcnt (s_reactor s) then grow_table z blkidx (snd (ntyreactor_alloc z s)) else Some s)"

function walk_blocks :: "int \<Rightarrow> int \<Rightarrow> 'b list \<Rightarrow> 'b list" where
  "walk_blocks i blkidx blks =
    (if i < blkidx \<and> blks \<noteq> [] then walk_blocks (i + 1) blkidx (tl blks) else blks)"
  by auto
termination by (relation "measure (\<lambda>(i, b, xs). length xs)") auto

declare walk_blocks.simps [simp del]
declare grow_table.simps [code]

definition ntyreactor_find_event_idx :: "'e \<Rightarrow> int \<Rightarrow> 'e server \<Rightarrow> (slot \<times> 'e server) option" where
  "ntyreactor_find_event_idx z sockfd s = do {
     let blkidx = sockfd sdiv MAX_EPOLL_EVENTS;
     s1 \<leftarrow> grow_table z blkidx s;
     let blk = walk_blocks 0 blkidx (evblk (s_reactor s1));
     let i = sockfd smod MAX_EPOLL_EVENTS;
     if blk = [] \<or> i < 0 then None
     else Some ((length (evblk (s_reactor s1)) - length blk, nat i), s1) }"

definition nty_event_set :: "int \<Rightarrow> callback \<Rightarrow> bool \<Rightarrow> 'x ntyevent_scheme \<Rightarrow> 'x ntyevent_scheme" where
  "nty_event_set fd cb arg ev = ev\<lparr>ev_fd := fd, ev_callback := cb, ev_events := 0, ev_arg := arg\<rparr>"

definition nty_event_add :: "32 word \<Rightarrow> slot \<Rightarrow> 'x ntyevent_scheme server \<Rightarrow> int \<times> 'x ntyevent_scheme server" where
  "nty_event_add events p s =
    (let opn = (if ev_status (ev_at s p) = 1 then EPOLL_CTL_MOD else EPOLL_CTL_ADD);
         s1 = upd_ev p (\<lambda>ev. ev\<lparr>ev_events := events, ev_status := 1\<rparr>) s
     in case epoll_ctl (epfd (s_reactor s)) opn (ev_fd (ev_at s p)) p events (s_kernel s) of
       (r, k) \<Rightarrow> (if r < 0 then - 1 else 0, s1\<lparr>s_kernel := k\<rparr>))"

definition nty_event_del :: "slot \<Rightarrow> 'x ntyevent_scheme server \<Rightarrow> int \<times> 'x ntyevent_scheme server" where
  "nty_event_del p s =
    (if ev_status (ev_at s p) \<noteq> 1 then (- 1, s)
     else let s1 = upd_ev p (\<lambda>ev. ev\<lparr>ev_status := 0\<rparr>) s
       in (0, s1\<lparr>s_kernel := snd (epoll_ctl (epfd (s_reactor s)) EPOLL_CTL_DEL (ev_fd (ev_at s p)) p 0 (s_kernel s))\<rparr>))"

text \<open>The reactor is created with one block. \<open>epoll_create\<close> gives a new descriptor, or fails.\<close>

definition ntyreactor_init :: "'e \<Rightarrow> bool \<Rightarrow> 'e server \<Rightarrow> int \<times> 'e server" where
  "ntyreactor_init z created s =
    (let ep = (if created then fresh_fd (k_open (s_kernel s)) else - 1);
         s0 = s\<lparr>s_reactor := \<lparr>epfd = ep, blkcnt = 0, evblk = []\<rparr>,
           s_kernel := (if created then (s_kernel s)\<lparr>k_open := ep # k_open (s_kernel s)\<rparr> else s_kernel s)\<rparr>
     in if ep \<le> 0 then (- 2, s0)
        else case malloc s0 of (ok, s1) \<Rightarrow>
          if \<not> ok then (- 2, s1)
          else case malloc s1 of (ok2, s2) \<Rightarrow>
            if \<not> ok2 then (- 2, s2)
            else (0, s2\<lparr>s_reactor := (s_reactor s2)\<lparr>evblk := [\<lambda>_. z], blkcnt := 1\<rparr>\<rparr>))"

text \<open>Every block is freed with its events; the memory of the reactor keeps the old pointer.\<close>

definition ntyreactor_destory :: "'e server \<Rightarrow> int \<times> 'e server" where
  "ntyreactor_destory s =
    (0, (upd_kernel (close_fd (epfd (s_reactor s))) s)\<lparr>s_live := s_live s - 2 * length (evblk (s_reactor s))\<rparr>)"

definition ntyreactor_addlistener ::
  "'x ntyevent_scheme \<Rightarrow> int \<Rightarrow> callback \<Rightarrow> 'x ntyevent_scheme server \<Rightarrow> (int \<times> 'x ntyevent_scheme server) option" where
  "ntyreactor_addlistener z sockfd acceptor s =
    (if evblk (s_reactor s) = [] then Some (- 1, s)
     else do {
       (p, s1) \<leftarrow> ntyreactor_find_event_idx z sockfd s;
       let s2 = upd_ev p (nty_event_set sockfd acceptor True) s1;
       Some (0, snd (nty_event_add EPOLLIN p s2)) })"

section \<open>The loop\<close>

type_synonym 'e handlers = "callback \<Rightarrow> int \<Rightarrow> 32 word \<Rightarrow> bool \<Rightarrow> 'e server \<Rightarrow> (int \<times> 'e server) option"

definition call_if :: "32 word \<Rightarrow> 'x ntyevent_scheme handlers \<Rightarrow> slot \<times> 32 word \<Rightarrow>
    'x ntyevent_scheme server \<Rightarrow> 'x ntyevent_scheme server option" where
  "call_if bits h r s =
    (let ev = ev_at s (fst r)
     in if snd r AND bits \<noteq> 0 \<and> ev_events ev AND bits \<noteq> 0
        then map_option snd (h (ev_callback ev) (ev_fd ev) (snd r) (ev_arg ev) s) else Some s)"

text \<open>One result of \<open>epoll_wait\<close>: an error, or the events that are ready with what each is ready for.\<close>

fun run_ready :: "'x ntyevent_scheme handlers \<Rightarrow> (slot \<times> 32 word) list \<Rightarrow>
    'x ntyevent_scheme server \<Rightarrow> 'x ntyevent_scheme server option" where
  "run_ready h [] s = Some s"
| "run_ready h (r # rs) s = do {
     s1 \<leftarrow> call_if EPOLLIN h r s;
     s2 \<leftarrow> call_if EPOLLOUT h r s1;
     run_ready h rs s2 }"

fun run_rounds :: "'x ntyevent_scheme handlers \<Rightarrow> (slot \<times> 32 word) list option list \<Rightarrow>
    'x ntyevent_scheme server \<Rightarrow> 'x ntyevent_scheme server option" where
  "run_rounds h [] s = Some s"
| "run_rounds h (None # ws) s = run_rounds h ws s"
| "run_rounds h (Some rs # ws) s = do { s1 \<leftarrow> run_ready h rs s; run_rounds h ws s1 }"

definition ntyreactor_run :: "'x ntyevent_scheme handlers \<Rightarrow> (slot \<times> 32 word) list option list \<Rightarrow>
    'x ntyevent_scheme server \<Rightarrow> (int + 'x ntyevent_scheme server) option" where
  "ntyreactor_run h ws s =
    (if epfd (s_reactor s) < 0 \<or> evblk (s_reactor s) = [] then Some (Inl (- 1))
     else map_option Inr (run_rounds h ws s))"

end
