(* ===== verification/Reactor_Table.thy ===== *)
theory Reactor_Table
  imports Reactor
begin

text \<open>
  The table of events as a map from descriptors to events: finding the event of a descriptor grows the
  table and keeps the map, writing through the pointer that was found is an update of the map at that
  descriptor, and the search does not return when memory has run out.
\<close>

definition slot_of :: "int \<Rightarrow> slot" where
  "slot_of fd = (nat fd div 1024, nat fd mod 1024)"

definition table_ok :: "'e server \<Rightarrow> bool" where
  "table_ok s \<longleftrightarrow> evblk (s_reactor s) \<noteq> [] \<and> blkcnt (s_reactor s) = int (length (evblk (s_reactor s)))"

text \<open>The abstract table: every descriptor has an event, at first the one with all bytes zero.\<close>

definition events :: "'e \<Rightarrow> 'e server \<Rightarrow> int \<Rightarrow> 'e" where
  "events z s fd = (if fst (slot_of fd) < length (evblk (s_reactor s)) then ev_at s (slot_of fd) else z)"

definition memory_lasts :: "'e server \<Rightarrow> bool" where
  "memory_lasts s \<longleftrightarrow> (\<forall>m. \<exists>n\<ge>m. s_malloc s n \<and> s_malloc s (Suc n))"

lemma slot_of_inj:
  assumes ab: "0 \<le> a" "0 \<le> b"
  shows "slot_of a = slot_of b \<longleftrightarrow> a = b"
proof
  assume "slot_of a = slot_of b"
  then have "nat a div 1024 * 1024 + nat a mod 1024 = nat b div 1024 * 1024 + nat b mod 1024"
    by (simp add: slot_of_def)
  then have "nat a = nat b" by (simp only: div_mult_mod_eq)
  then show "a = b" using ab by simp
qed simp

lemma walk_blocks_drop: "walk_blocks i b xs = drop (nat (b - i)) xs"
proof (induction i b xs rule: walk_blocks.induct)
  case (1 i b xs)
  show ?case
  proof (cases "i < b \<and> xs \<noteq> []")
    case True
    then have "nat (b - i) = Suc (nat (b - (i + 1)))" by linarith
    then show ?thesis using 1 [OF True] True by (subst walk_blocks.simps) (simp add: drop_Suc)
  next
    case False
    then show ?thesis by (subst walk_blocks.simps) auto
  qed
qed

section \<open>Growing the table\<close>

text \<open>Two states that differ only in the blocks of the table and in the use of memory.\<close>

definition same_but_table :: "'e server \<Rightarrow> 'e server \<Rightarrow> bool" where
  "same_but_table s s' \<longleftrightarrow> s_kernel s' = s_kernel s \<and> s_malloc s' = s_malloc s \<and>
     epfd (s_reactor s') = epfd (s_reactor s)"

lemma same_but_table_trans: "same_but_table a b \<Longrightarrow> same_but_table b c \<Longrightarrow> same_but_table a c"
  by (simp add: same_but_table_def)

lemma grow_step: "blkidx \<ge> blkcnt (s_reactor s) \<Longrightarrow>
    grow_table z blkidx s = grow_table z blkidx (snd (ntyreactor_alloc z s))"
  by (subst grow_table.simps) simp

lemma alloc_cases:
  assumes "evblk (s_reactor s) \<noteq> []"
  shows "s_malloc s (s_calls s) \<Longrightarrow> s_malloc s (Suc (s_calls s)) \<Longrightarrow>
      evblk (s_reactor (snd (ntyreactor_alloc z s))) = evblk (s_reactor s) @ [\<lambda>_. z] \<and>
      blkcnt (s_reactor (snd (ntyreactor_alloc z s))) = blkcnt (s_reactor s) + 1 \<and>
      same_but_table s (snd (ntyreactor_alloc z s))"
    and "\<not> (s_malloc s (s_calls s) \<and> s_malloc s (Suc (s_calls s))) \<Longrightarrow>
      s_reactor (snd (ntyreactor_alloc z s)) = s_reactor s \<and> same_but_table s (snd (ntyreactor_alloc z s)) \<and>
      s_calls s < s_calls (snd (ntyreactor_alloc z s)) \<and>
      (\<forall>n. n \<ge> s_calls s \<longrightarrow> s_malloc s n \<longrightarrow> s_malloc s (Suc n) \<longrightarrow> s_calls (snd (ntyreactor_alloc z s)) \<le> n)"
  using assms by (auto simp: ntyreactor_alloc_def malloc_def same_but_table_def)
     (metis Suc_leI le_neq_implies_less not_less_eq_eq)+

lemma alloc_eventually:
  assumes "evblk (s_reactor s) \<noteq> []" and "blkidx \<ge> blkcnt (s_reactor s)"
    and "n \<ge> s_calls s" and "s_malloc s n" and "s_malloc s (Suc n)"
  shows "\<exists>s1. grow_table z blkidx s = grow_table z blkidx s1 \<and> same_but_table s s1 \<and>
    evblk (s_reactor s1) = evblk (s_reactor s) @ [\<lambda>_. z] \<and> blkcnt (s_reactor s1) = blkcnt (s_reactor s) + 1"
  using assms
proof (induction "n - s_calls s" arbitrary: s rule: less_induct)
  case less
  let ?t = "snd (ntyreactor_alloc z s)"
  note g = grow_step [OF less.prems(2), of z]
  show ?case
  proof (cases "s_malloc s (s_calls s) \<and> s_malloc s (Suc (s_calls s))")
    case True
    then show ?thesis using alloc_cases(1) [OF less.prems(1), of z] g by (intro exI [of _ ?t]) simp
  next
    case False
    note f = alloc_cases(2) [OF less.prems(1) False, of z]
    from f less.prems have n: "s_calls ?t \<le> n" by blast
    from f n have d: "n - s_calls ?t < n - s_calls s" by linarith
    have m: "s_malloc ?t = s_malloc s" and r: "s_reactor ?t = s_reactor s"
      using f by (auto simp: same_but_table_def)
    obtain s1 where "grow_table z blkidx ?t = grow_table z blkidx s1" "same_but_table ?t s1"
      "evblk (s_reactor s1) = evblk (s_reactor s) @ [\<lambda>_. z]" "blkcnt (s_reactor s1) = blkcnt (s_reactor s) + 1"
      using less.hyps [OF d] less.prems n unfolding m r by blast
    then show ?thesis using f g same_but_table_trans by (intro exI [of _ s1]) fastforce
  qed
qed

lemma memory_lasts_keep: "same_but_table s s' \<Longrightarrow> memory_lasts s \<Longrightarrow> memory_lasts s'"
  by (simp add: memory_lasts_def same_but_table_def)

lemma grow_table_Some:
  assumes "table_ok s" and "memory_lasts s"
  shows "\<exists>s' k. grow_table z blkidx s = Some s' \<and> same_but_table s s' \<and>
    evblk (s_reactor s') = evblk (s_reactor s) @ replicate k (\<lambda>_. z) \<and> table_ok s' \<and> blkidx < blkcnt (s_reactor s')"
  using assms
proof (induction "nat (blkidx + 1 - blkcnt (s_reactor s))" arbitrary: s rule: less_induct)
  case less
  show ?case
  proof (cases "blkidx \<ge> blkcnt (s_reactor s)")
    case True
    have ne: "evblk (s_reactor s) \<noteq> []" and cnt: "blkcnt (s_reactor s) = int (length (evblk (s_reactor s)))"
      using less.prems(1) by (auto simp: table_ok_def)
    obtain n where "n \<ge> s_calls s" "s_malloc s n" "s_malloc s (Suc n)"
      using less.prems(2) unfolding memory_lasts_def by blast
    then obtain s1 where s1: "grow_table z blkidx s = grow_table z blkidx s1" "same_but_table s s1"
        "evblk (s_reactor s1) = evblk (s_reactor s) @ [\<lambda>_. z]" "blkcnt (s_reactor s1) = blkcnt (s_reactor s) + 1"
      using alloc_eventually [OF ne True] by blast
    have d: "nat (blkidx + 1 - blkcnt (s_reactor s1)) < nat (blkidx + 1 - blkcnt (s_reactor s))"
      using True s1(4) by linarith
    have "table_ok s1" using cnt s1(3,4) by (simp add: table_ok_def)
    from less.hyps [OF d this memory_lasts_keep [OF s1(2) less.prems(2)]]
    obtain s' k where g: "grow_table z blkidx s1 = Some s'" and sb: "same_but_table s1 s'"
      and e: "evblk (s_reactor s') = evblk (s_reactor s1) @ replicate k (\<lambda>_. z)"
      and t: "table_ok s'" "blkidx < blkcnt (s_reactor s')" by blast
    have "evblk (s_reactor s') = evblk (s_reactor s) @ replicate (Suc k) (\<lambda>_. z)"
      using e s1(3) by simp
    then show ?thesis
      using g s1(1) t same_but_table_trans [OF s1(2) sb] by (intro exI [of _ s'] exI [of _ "Suc k"]) simp
  next
    case False
    then show ?thesis using less.prems(1)
      by (subst grow_table.simps) (auto simp: same_but_table_def intro: exI [of _ 0])
  qed
qed

lemma events_grow:
  assumes "evblk (s_reactor s') = evblk (s_reactor s) @ replicate k (\<lambda>_. z)"
  shows "events z s' = events z s"
proof
  fix fd
  consider "fst (slot_of fd) < length (evblk (s_reactor s))"
    | "\<not> fst (slot_of fd) < length (evblk (s_reactor s))" "fst (slot_of fd) < length (evblk (s_reactor s)) + k"
    | "\<not> fst (slot_of fd) < length (evblk (s_reactor s)) + k" by linarith
  then show "events z s' fd = events z s fd"
    by cases (simp_all add: events_def ev_at_def assms nth_append)
qed

lemma sdiv_1024: "0 \<le> (fd::int) \<Longrightarrow> fd sdiv 1024 = int (nat fd div 1024) \<and> fd smod 1024 = int (nat fd mod 1024)"
  by (simp add: signed_divide_int_def signed_modulo_int_def sgn_if zdiv_int zmod_int)

section \<open>Finding the event of a descriptor\<close>

lemma find_event_Some:
  assumes "table_ok s" and "memory_lasts s" and "0 \<le> fd"
  shows "\<exists>s' k. ntyreactor_find_event_idx z fd s = Some (slot_of fd, s') \<and> same_but_table s s' \<and> table_ok s' \<and>
    evblk (s_reactor s') = evblk (s_reactor s) @ replicate k (\<lambda>_. z) \<and>
    fst (slot_of fd) < length (evblk (s_reactor s'))"
proof -
  note d = sdiv_1024 [OF assms(3)]
  obtain s' k where g: "grow_table z (fd sdiv 1024) s = Some s'" "same_but_table s s'"
      "evblk (s_reactor s') = evblk (s_reactor s) @ replicate k (\<lambda>_. z)" "table_ok s'" "fd sdiv 1024 < blkcnt (s_reactor s')"
    using grow_table_Some [OF assms(1,2)] by blast
  have lt: "nat fd div 1024 < length (evblk (s_reactor s'))" using g(4,5) d by (simp add: table_ok_def)
  let ?blk = "walk_blocks 0 (fd sdiv 1024) (evblk (s_reactor s'))"
  have w: "?blk = drop (nat fd div 1024) (evblk (s_reactor s'))" using d by (simp add: walk_blocks_drop)
  have "length (evblk (s_reactor s')) - length ?blk = nat fd div 1024" using lt w by simp
  moreover have "?blk \<noteq> []" using lt w by simp
  ultimately have "ntyreactor_find_event_idx z fd s = Some (slot_of fd, s')"
    using g(1) d by (simp add: ntyreactor_find_event_idx_def slot_of_def)
  then show ?thesis using g(2-4) lt by (intro exI [of _ s'] exI [of _ k]) (simp add: slot_of_def)
qed

lemma ev_at_upd [mem_simps]:
  assumes "fst p < length (evblk (s_reactor s))"
  shows "ev_at (upd_ev p f s) q = (if q = p then f (ev_at s p) else ev_at s q)"
  using assms by (cases p; cases q; cases "fst q = fst p") (auto simp: ev_at_def upd_ev_def)

lemma upd_ev_frame [frame_simps]:
  "s_kernel (upd_ev p f s) = s_kernel s" "s_malloc (upd_ev p f s) = s_malloc s"
  "epfd (s_reactor (upd_ev p f s)) = epfd (s_reactor s)" "blkcnt (s_reactor (upd_ev p f s)) = blkcnt (s_reactor s)"
  "length (evblk (s_reactor (upd_ev p f s))) = length (evblk (s_reactor s))"
  "table_ok (upd_ev p f s) = table_ok s"
  by (simp_all add: upd_ev_def table_ok_def)

lemma upd_ev_twice [mem_simps]:
  assumes "fst p < length (evblk (s_reactor s))"
  shows "upd_ev p f (upd_ev p g s) = upd_ev p (\<lambda>ev. f (g ev)) s"
  using assms by (simp add: upd_ev_def ev_at_def)

lemma events_upd:
  assumes "fst (slot_of fd) < length (evblk (s_reactor s))" and "0 \<le> fd" and "0 \<le> fd'"
  shows "events z (upd_ev (slot_of fd) f s) fd' = ((events z s)(fd := f (events z s fd))) fd'"
proof (cases "fd' = fd")
  case True
  then show ?thesis using assms by (simp add: events_def frame_simps ev_at_upd)
next
  case False
  then have "slot_of fd' \<noteq> slot_of fd" using slot_of_inj assms(2,3) by simp
  then show ?thesis using assms False by (simp add: events_def frame_simps ev_at_upd)
qed

text \<open>C16: the table of events of the reactor refines a map from descriptors to events: when allocation succeeds often enough, looking a descriptor up returns its slot after the table has grown as far as needed, with the map unchanged and the kernel untouched, and writing through the returned pointer changes the map at that descriptor only.\<close>

theorem find_event_refines_map:
  assumes "table_ok s" and "memory_lasts s" and "0 \<le> fd"
  shows "\<exists>s'. ntyreactor_find_event_idx z fd s = Some (slot_of fd, s') \<and> table_ok s' \<and>
    s_kernel s' = s_kernel s \<and> events z s' = events z s \<and> ev_at s' (slot_of fd) = events z s fd \<and>
    (\<forall>f fd'. fd' \<ge> 0 \<longrightarrow> events z (upd_ev (slot_of fd) f s') fd' = ((events z s)(fd := f (events z s fd))) fd')"
proof -
  obtain s' k where f: "ntyreactor_find_event_idx z fd s = Some (slot_of fd, s')" "same_but_table s s'" "table_ok s'"
      "evblk (s_reactor s') = evblk (s_reactor s) @ replicate k (\<lambda>_. z)" "fst (slot_of fd) < length (evblk (s_reactor s'))"
    using find_event_Some [OF assms] by blast
  note e = events_grow [OF f(4)]
  have "ev_at s' (slot_of fd) = events z s fd" using fun_cong [OF e, of fd] f(5) by (simp add: events_def)
  then show ?thesis
    using f events_upd [OF f(5) assms(3), of _ z] e by (intro exI [of _ s']) (simp add: same_but_table_def)
qed

definition sample_server :: "nat server" where
  "sample_server = \<lparr>s_reactor = \<lparr>epfd = 3, blkcnt = 1, evblk = [\<lambda>_. 0]\<rparr>,
     s_kernel = \<lparr>k_open = [0, 1, 2, 3], k_interest = \<lambda>_. None, k_backlog = \<lambda>_. [], k_fcntl = \<lambda>_. True,
       k_conn = \<lambda>_. \<lparr>c_in = [], c_eof = False, c_room = 0\<rparr>, k_out = \<lambda>_. []\<rparr>,
     s_malloc = (\<lambda>n. n \<noteq> 1), s_calls = 0, s_live = 2\<rparr>"

lemma sample_server_ok: "table_ok sample_server" "memory_lasts sample_server"
proof -
  show "table_ok sample_server" by (simp add: table_ok_def sample_server_def)
  have "m + 2 \<ge> m \<and> s_malloc sample_server (m + 2) \<and> s_malloc sample_server (Suc (m + 2))" for m
    by (simp add: sample_server_def)
  then show "memory_lasts sample_server" unfolding memory_lasts_def by blast
qed

theorem find_event_refines_map_witness:
  "\<exists>s'. ntyreactor_find_event_idx 0 1030 sample_server = Some (slot_of 1030, s') \<and> events 0 s' 1030 = 0 \<and>
     events 0 (upd_ev (slot_of 1030) (\<lambda>_. 7) s') 1030 = 7"
proof -
  have z: "events 0 sample_server 1030 = 0" by (simp add: events_def slot_of_def sample_server_def)
  show ?thesis using find_event_refines_map [OF sample_server_ok, of 1030 0] z by fastforce
qed

text \<open>when memory has run out, a descriptor beyond the table is never looked up: the loop of ntyreactor_find_event_idx ignores the error of ntyreactor_alloc and calls it again without end.\<close>

theorem find_event_hangs_without_memory:
  assumes "table_ok s" and "\<forall>n\<ge>s_calls s. \<not> s_malloc s n" and "fd \<ge> 1024 * blkcnt (s_reactor s)"
  shows "ntyreactor_find_event_idx z fd s = None"
proof -
  let ?b = "fd sdiv 1024"
  have fd: "0 \<le> fd" using assms(1,3) by (simp add: table_ok_def)
  have b: "?b \<ge> blkcnt (s_reactor s)" using sdiv_1024 [OF fd] assms(3) fd by (simp add: zdiv_int)
  let ?P = "\<lambda>z i t r. \<not> (i \<ge> blkcnt (s_reactor t) \<and> (\<forall>n\<ge>s_calls t. \<not> s_malloc t n))"
  have never: "?P z ?b s r" if r: "grow_table z ?b s = Some r" for r
  proof (rule grow_table.raw_induct [where P = ?P, OF _ r])
    fix f and z' :: 'a and i and t r :: "'a server"
    assume ih: "\<And>z i t r. f z i t = Some r \<Longrightarrow> ?P z i t r"
      and body: "(if blkcnt (s_reactor t) \<le> i then f z' i (snd (ntyreactor_alloc z' t)) else Some t) = Some r"
    show "?P z' i t r"
    proof
      assume h: "i \<ge> blkcnt (s_reactor t) \<and> (\<forall>n\<ge>s_calls t. \<not> s_malloc t n)"
      let ?t = "snd (ntyreactor_alloc z' t)"
      have "blkcnt (s_reactor ?t) = blkcnt (s_reactor t) \<and> (\<forall>n\<ge>s_calls ?t. \<not> s_malloc ?t n)"
        using h by (auto simp: ntyreactor_alloc_def malloc_def)
      moreover have "f z' i ?t = Some r" using body h by simp
      ultimately show False using ih h by metis
    qed
  qed
  have "grow_table z ?b s = None"
  proof (cases "grow_table z ?b s")
    case (Some r)
    from never [OF this] b assms(2) show ?thesis by blast
  qed simp
  then show ?thesis by (simp add: ntyreactor_find_event_idx_def)
qed

theorem find_event_hangs_without_memory_witness:
  "ntyreactor_find_event_idx 0 2000 (sample_server\<lparr>s_malloc := \<lambda>_. False\<rparr>) = None"
  by (rule find_event_hangs_without_memory) (simp_all add: table_ok_def sample_server_def)

end
