(* ===== verification/Reactor_Inv.thy ===== *)
theory Reactor_Inv
  imports Reactor_Table
begin

text \<open>
  The invariant that ties the events registered with the kernel to the table: a registered descriptor
  is open, its event is the one of its own slot, carries the descriptor, the status \<open>1\<close>, the
  events the kernel waits for, and a callback that fits them. The steps of the handlers keep it, and the
  interface \<open>reactor_handlers\<close> turns handlers that keep it into a loop that keeps it.
\<close>

section \<open>The invariant\<close>

definition fits :: "32 word \<Rightarrow> callback \<Rightarrow> bool" where
  "fits e cb \<longleftrightarrow> e = EPOLLIN \<and> (cb = RecvCB \<or> cb = AcceptCB) \<or> e = EPOLLOUT \<and> cb = SendCB"

definition armed :: "'x ntyevent_scheme server \<Rightarrow> int \<Rightarrow> slot \<Rightarrow> 32 word \<Rightarrow> bool" where
  "armed s fd p e \<longleftrightarrow> 0 \<le> fd \<and> p = slot_of fd \<and> fst p < length (evblk (s_reactor s)) \<and>
     ev_fd (ev_at s p) = fd \<and> ev_arg (ev_at s p) \<and> ev_status (ev_at s p) = 1 \<and> ev_events (ev_at s p) = e \<and>
     fits e (ev_callback (ev_at s p))"

abbreviation interest :: "'e server \<Rightarrow> int \<Rightarrow> (slot \<times> 32 word) option" where
  "interest s \<equiv> k_interest (s_kernel s)"

definition reactor_ok :: "'x ntyevent_scheme server \<Rightarrow> bool" where
  "reactor_ok s \<longleftrightarrow> table_ok s \<and> epfd (s_reactor s) \<in> set (k_open (s_kernel s)) \<and>
     interest s (epfd (s_reactor s)) = None \<and>
     (\<forall>fd p e. interest s fd = Some (p, e) \<longrightarrow> fd \<in> set (k_open (s_kernel s)) \<and> armed s fd p e)"

lemma reactor_okD:
  assumes "reactor_ok s" and "interest s fd = Some (p, e)"
  shows "fd \<in> set (k_open (s_kernel s))" and "armed s fd p e" and "fd \<noteq> epfd (s_reactor s)"
    and "0 \<le> fd" and "p = slot_of fd" and "fst (slot_of fd) < length (evblk (s_reactor s))"
proof -
  from assms show o: "fd \<in> set (k_open (s_kernel s))" and a: "armed s fd p e" unfolding reactor_ok_def by blast+
  from assms show "fd \<noteq> epfd (s_reactor s)" unfolding reactor_ok_def by force
  from a show "0 \<le> fd" and "p = slot_of fd" and "fst (slot_of fd) < length (evblk (s_reactor s))"
    by (auto simp: armed_def)
qed

lemma fresh_fd_new: "fresh_fd fds \<notin> set fds \<and> 0 \<le> fresh_fd fds"
proof -
  let ?c = "map int [0..<Suc (length fds)]"
  have "\<exists>x\<in>set ?c. x \<notin> set fds"
  proof (rule ccontr)
    assume "\<not> ?thesis"
    then have "set ?c \<subseteq> set fds" by blast
    then have "card (set ?c) \<le> card (set fds)" by (intro card_mono) auto
    moreover have "card (set ?c) = Suc (length fds)" by (subst distinct_card) (auto simp: distinct_map)
    ultimately show False using card_length [of fds] by linarith
  qed
  then have "filter (\<lambda>n. n \<notin> set fds) ?c \<noteq> []" by (simp add: filter_empty_conv)
  then have "hd (filter (\<lambda>n. n \<notin> set fds) ?c) \<in> set (filter (\<lambda>n. n \<notin> set fds) ?c)" by (rule hd_in_set)
  then show ?thesis unfolding fresh_fd_def by (auto simp del: map_map)
qed

section \<open>Steps that keep it\<close>

lemma armed_other:
  assumes "armed s fd p e" and "fd \<noteq> fd'" and "0 \<le> fd'" and "fst (slot_of fd') < length (evblk (s_reactor s))"
  shows "armed (upd_ev (slot_of fd') f s) fd p e"
proof -
  have "slot_of fd \<noteq> slot_of fd'" using slot_of_inj assms by (auto simp: armed_def)
  then show ?thesis using assms by (auto simp: armed_def ev_at_upd frame_simps)
qed

lemma armed_kernel [simp]: "armed (s\<lparr>s_kernel := k\<rparr>) fd p e = armed s fd p e"
  by (simp add: armed_def ev_at_def)

lemma ev_at_kernel [simp]: "ev_at (s\<lparr>s_kernel := k\<rparr>) p = ev_at s p" "table_ok (s\<lparr>s_kernel := k\<rparr>) = table_ok s"
  by (simp_all add: ev_at_def table_ok_def)

lemma upd_ev_ok:
  assumes "reactor_ok s" and "interest s fd = None" and "0 \<le> fd" and "fst (slot_of fd) < length (evblk (s_reactor s))"
  shows "reactor_ok (upd_ev (slot_of fd) f s)"
  using assms unfolding reactor_ok_def frame_simps
  by (metis armed_other option.distinct(1))

text \<open>A change of an event that keeps what the reactor reads.\<close>

definition same_arming :: "'x ntyevent_scheme \<Rightarrow> 'x ntyevent_scheme \<Rightarrow> bool" where
  "same_arming ev ev' \<longleftrightarrow> ev_fd ev' = ev_fd ev \<and> ev_events ev' = ev_events ev \<and> ev_arg ev' = ev_arg ev \<and>
     ev_callback ev' = ev_callback ev \<and> ev_status ev' = ev_status ev"

lemma upd_data_ok:
  assumes "reactor_ok s" and "fst p < length (evblk (s_reactor s))" and "same_arming (ev_at s p) (f (ev_at s p))"
  shows "reactor_ok (upd_ev p f s)"
  using assms unfolding reactor_ok_def frame_simps armed_def
  by (auto simp: ev_at_upd same_arming_def)

lemma upd_kernel_ok:
  assumes "reactor_ok s" and "interest (upd_kernel f s) = interest s"
    and "set (k_open (s_kernel s)) \<subseteq> set (k_open (f (s_kernel s)))"
  shows "reactor_ok (upd_kernel f s)"
  using assms unfolding reactor_ok_def upd_kernel_def by (auto simp: table_ok_def)

lemma close_ok:
  assumes "reactor_ok s" and "fd \<noteq> epfd (s_reactor s)"
  shows "reactor_ok (upd_kernel (close_fd fd) s)"
  using assms unfolding reactor_ok_def upd_kernel_def close_fd_def by (auto simp: table_ok_def)

lemma del_armed:
  assumes "reactor_ok s" and "interest s fd = Some (slot_of fd, e)"
  shows "nty_event_del (slot_of fd) s = (0, (upd_ev (slot_of fd) (\<lambda>ev. ev\<lparr>ev_status := 0\<rparr>) s)
      \<lparr>s_kernel := (s_kernel s)\<lparr>k_interest := (interest s)(fd := None)\<rparr>\<rparr>)"
proof -
  note d = reactor_okD [OF assms]
  have "epfd (s_reactor s) \<in> set (k_open (s_kernel s))" using assms(1) by (simp add: reactor_ok_def)
  then show ?thesis using d(1,2) assms(2)
    by (simp add: nty_event_del_def Let_def armed_def epoll_ctl_def)
qed

lemma del_ok:
  assumes "reactor_ok s" and "interest s fd = Some (slot_of fd, e)"
  shows "reactor_ok (snd (nty_event_del (slot_of fd) s))"
proof -
  note d = reactor_okD [OF assms]
  have "armed (upd_ev (slot_of fd) (\<lambda>ev. ev\<lparr>ev_status := 0\<rparr>) s) fd' p e'"
    if "interest s fd' = Some (p, e')" "fd' \<noteq> fd" for fd' p e'
    using armed_other [OF reactor_okD(2) [OF assms(1) that(1)] that(2) d(4,6)] .
  then show ?thesis using assms(1) unfolding del_armed [OF assms] reactor_ok_def
    by (auto simp: frame_simps split: if_splits)
qed

text \<open>Setting an event that is not registered and adding it: when the descriptor is open and the
  status is clear, it is registered.\<close>

lemma add_result:
  fixes s :: "'x ntyevent_scheme server"
  assumes "reactor_ok s" and "interest s fd = None" and "0 \<le> fd" and "fst (slot_of fd) < length (evblk (s_reactor s))"
  shows "nty_event_add e (slot_of fd) (upd_ev (slot_of fd) (nty_event_set fd cb True) s) =
    (let s1 = upd_ev (slot_of fd) (\<lambda>ev. (nty_event_set fd cb True ev)\<lparr>ev_events := e, ev_status := 1\<rparr>) s
     in if fd \<in> set (k_open (s_kernel s)) \<and> ev_status (ev_at s (slot_of fd)) \<noteq> 1
        then (0, s1\<lparr>s_kernel := (s_kernel s)\<lparr>k_interest := (interest s)(fd \<mapsto> (slot_of fd, e))\<rparr>\<rparr>) else (- 1, s1))"
proof -
  have ep: "epfd (s_reactor s) \<in> set (k_open (s_kernel s))" using assms(1) by (simp add: reactor_ok_def)
  have "s_kernel s = s_kernel (upd_ev (slot_of fd) g s)" for g by (simp add: frame_simps)
  then have k: "(upd_ev (slot_of fd) g s)\<lparr>s_kernel := s_kernel s\<rparr> = upd_ev (slot_of fd) g s" for g by simp
  show ?thesis using assms(2) ep
    by (simp add: nty_event_add_def Let_def frame_simps ev_at_upd [OF assms(4)] upd_ev_twice [OF assms(4)]
        epoll_ctl_def nty_event_set_def k)
qed

lemma add_ok:
  assumes "reactor_ok s" and "interest s fd = None" and "0 \<le> fd" and "fst (slot_of fd) < length (evblk (s_reactor s))"
    and "fits e cb" and "fd \<noteq> epfd (s_reactor s)"
  shows "reactor_ok (snd (nty_event_add e (slot_of fd) (upd_ev (slot_of fd) (nty_event_set fd cb True) s)))"
proof -
  let ?f = "\<lambda>ev. (nty_event_set fd cb True ev)\<lparr>ev_events := e, ev_status := 1\<rparr>"
  note r = upd_ev_ok [OF assms(1-4), of ?f]
  have a: "armed (upd_ev (slot_of fd) ?f s) fd (slot_of fd) e"
    using assms(3-5) by (simp add: armed_def frame_simps ev_at_upd nty_event_set_def)
  show ?thesis
    using r a assms(6) unfolding add_result [OF assms(1-4)] Let_def reactor_ok_def by (auto simp: frame_simps)
qed

lemma add_interest:
  assumes "reactor_ok s" and "interest s fd = None" and "0 \<le> fd" and "fst (slot_of fd) < length (evblk (s_reactor s))"
    and "fd' \<noteq> fd"
  shows "interest (snd (nty_event_add e (slot_of fd) (upd_ev (slot_of fd) (nty_event_set fd cb True) s))) fd' = interest s fd'"
  using assms(5) unfolding add_result [OF assms(1-4)] by (simp add: Let_def frame_simps)

lemma accept_ok:
  assumes "reactor_ok s" and "accept_conn fd (s_kernel s) = (n, k)" and "n \<noteq> - 1"
  shows "reactor_ok (s\<lparr>s_kernel := k\<rparr>)" and "0 \<le> n" and "n \<in> set (k_open k)" and "k_interest k = interest s"
    and "interest s n = None" and "n \<noteq> epfd (s_reactor s)"
proof -
  obtain c cs where n: "k_backlog (s_kernel s) fd = c # cs" "n = fresh_fd (k_open (s_kernel s))"
    using assms(2,3) by (auto simp: accept_conn_def Let_def split: list.splits)
  note f = fresh_fd_new [of "k_open (s_kernel s)"]
  show k: "k_interest k = interest s" and "n \<in> set (k_open k)" "0 \<le> n"
    using assms(2) n f by (auto simp: accept_conn_def Let_def)
  show "reactor_ok (s\<lparr>s_kernel := k\<rparr>)"
    using assms(1,2) n(1) k unfolding reactor_ok_def by (auto simp: accept_conn_def Let_def)
  show "interest s n = None" using assms(1) f n(2) unfolding reactor_ok_def
    by (metis old.prod.exhaust not_None_eq)
  show "n \<noteq> epfd (s_reactor s)" using assms(1) f n(2) by (auto simp: reactor_ok_def)
qed

lemma grow_table_partial:
  assumes "grow_table z i s = Some r" and "table_ok s"
  shows "(\<exists>k. evblk (s_reactor r) = evblk (s_reactor s) @ replicate k (\<lambda>_. z)) \<and> same_but_table s r \<and>
     table_ok r \<and> i < blkcnt (s_reactor r)"
proof -
  let ?Q = "\<lambda>z i s r. (\<exists>k. evblk (s_reactor r) = evblk (s_reactor s) @ replicate k (\<lambda>_. z)) \<and>
     same_but_table s r \<and> table_ok r \<and> i < blkcnt (s_reactor r)"
  have "table_ok s \<longrightarrow> ?Q z i s r"
  proof (rule grow_table.raw_induct [where P = "\<lambda>z i s r. table_ok s \<longrightarrow> ?Q z i s r", OF _ assms(1)], intro impI)
    fix f and z :: 'a and i and s r :: "'a server"
    assume ih: "\<And>z i s r. f z i s = Some r \<Longrightarrow> table_ok s \<longrightarrow> ?Q z i s r" and t: "table_ok s"
      and body: "(if blkcnt (s_reactor s) \<le> i then f z i (snd (ntyreactor_alloc z s)) else Some s) = Some r"
    let ?t = "snd (ntyreactor_alloc z s)"
    have ne: "evblk (s_reactor s) \<noteq> []" using t by (simp add: table_ok_def)
    show "?Q z i s r"
    proof (cases "blkcnt (s_reactor s) \<le> i")
      case False
      then show ?thesis using body t by (auto simp: same_but_table_def intro: exI [of _ 0])
    next
      case True
      have f: "f z i ?t = Some r" using True body by simp
      obtain k where t: "table_ok ?t" "same_but_table s ?t"
          "evblk (s_reactor ?t) = evblk (s_reactor s) @ replicate k (\<lambda>_. z)"
      proof (cases "s_malloc s (s_calls s) \<and> s_malloc s (Suc (s_calls s))")
        case True
        note a = alloc_cases(1) [OF ne conjunct1 [OF True] conjunct2 [OF True], of z]
        show ?thesis by (rule that [of 1]) (use a t in \<open>auto simp: table_ok_def\<close>)
      next
        case False
        note a = alloc_cases(2) [OF ne False, of z]
        show ?thesis by (rule that [of 0]) (use a t in \<open>auto simp: table_ok_def\<close>)
      qed
      from ih [OF f] t(1) obtain k' where q: "evblk (s_reactor r) = evblk (s_reactor ?t) @ replicate k' (\<lambda>_. z)"
          "same_but_table ?t r" "table_ok r" "i < blkcnt (s_reactor r)" by blast
      have "evblk (s_reactor r) = evblk (s_reactor s) @ replicate (k + k') (\<lambda>_. z)"
        using q(1) t(3) by (simp add: replicate_add)
      then show ?thesis using q same_but_table_trans [OF t(2) q(2)] by blast
    qed
  qed
  then show ?thesis using assms(2) by blast
qed

lemma find_ok:
  assumes "reactor_ok s" and "0 \<le> fd" and "ntyreactor_find_event_idx z fd s = Some (p, s')"
  shows "p = slot_of fd" and "reactor_ok s'" and "same_but_table s s'"
    and "fst (slot_of fd) < length (evblk (s_reactor s'))" and "events z s' = events z s"
proof -
  note d = sdiv_1024 [OF assms(2)]
  obtain s1 where g: "grow_table z (fd sdiv 1024) s = Some s1" and
    ps: "p = (length (evblk (s_reactor s1)) - length (walk_blocks 0 (fd sdiv 1024) (evblk (s_reactor s1))), nat (fd smod 1024))"
      "s' = s1"
    using assms(3) by (auto simp: ntyreactor_find_event_idx_def bind_Some_iff Let_def split: if_splits)
  have tok: "table_ok s" using assms(1) by (simp add: reactor_ok_def)
  from grow_table_partial [OF g tok] obtain k where q: "evblk (s_reactor s') = evblk (s_reactor s) @ replicate k (\<lambda>_. z)"
      "same_but_table s s'" "table_ok s'" "fd sdiv 1024 < blkcnt (s_reactor s')" using ps by blast
  have lt: "nat fd div 1024 < length (evblk (s_reactor s'))" using q(3,4) d by (simp add: table_ok_def)
  then show "p = slot_of fd" and "fst (slot_of fd) < length (evblk (s_reactor s'))"
    using ps d by (simp_all add: walk_blocks_drop slot_of_def)
  show "same_but_table s s'" and "events z s' = events z s" using q(2) events_grow [OF q(1)] by auto
  have "armed s' f p e" if "armed s f p e" for f p e
    using that q(1) by (auto simp: armed_def ev_at_def nth_append)
  then show "reactor_ok s'" using assms(1) q(2,3) unfolding reactor_ok_def same_but_table_def by auto
qed

text \<open>A descriptor that is registered is found at once, with nothing changed.\<close>

lemma find_armed:
  assumes "reactor_ok s" and "interest s fd = Some (p, e)"
  shows "ntyreactor_find_event_idx z fd s = Some (slot_of fd, s)"
proof -
  note d = reactor_okD [OF assms] 
  note sd = sdiv_1024 [OF d(4)]
  have t: "table_ok s" using assms(1) by (simp add: reactor_ok_def)
  have lt: "nat fd div 1024 < length (evblk (s_reactor s))" using d(6) by (simp add: slot_of_def)
  have "\<not> blkcnt (s_reactor s) \<le> fd sdiv 1024" using lt sd t by (simp add: table_ok_def)
  then have "grow_table z (fd sdiv 1024) s = Some s" by (subst grow_table.simps) simp
  then show ?thesis using lt sd by (simp add: ntyreactor_find_event_idx_def walk_blocks_drop slot_of_def)
qed

section \<open>The loop\<close>

definition ready_ok :: "(slot \<times> 32 word) list \<Rightarrow> 'x ntyevent_scheme server \<Rightarrow> bool" where
  "ready_ok rs s \<longleftrightarrow> distinct (map fst rs) \<and> (\<forall>(p, evs)\<in>set rs. \<exists>fd e. interest s fd = Some (p, e) \<and>
     (evs AND EPOLLIN \<noteq> 0 \<longrightarrow> e = EPOLLIN) \<and> (evs AND EPOLLOUT \<noteq> 0 \<longrightarrow> e = EPOLLOUT))"

text \<open>The results of \<open>epoll_wait\<close> report registered events, each at most once in a round.\<close>

fun rounds_ok :: "'x ntyevent_scheme handlers \<Rightarrow> (slot \<times> 32 word) list option list \<Rightarrow>
    'x ntyevent_scheme server \<Rightarrow> bool" where
  "rounds_ok h [] s = True"
| "rounds_ok h (None # ws) s = rounds_ok h ws s"
| "rounds_ok h (Some rs # ws) s = (ready_ok rs s \<and> (case run_ready h rs s of None \<Rightarrow> True | Some s1 \<Rightarrow> rounds_ok h ws s1))"

text \<open>What the loop asks of the callbacks: called for a registered descriptor they keep the invariant
  and leave the registration of the other descriptors alone.\<close>

locale reactor_handlers =
  fixes h :: "'x ntyevent_scheme handlers"
  assumes keeps_ok: "reactor_ok s \<Longrightarrow> interest s fd = Some (p, e) \<Longrightarrow>
      h (ev_callback (ev_at s p)) fd evs True s = Some (r, s') \<Longrightarrow> reactor_ok s'"
    and keeps_others: "reactor_ok s \<Longrightarrow> interest s fd = Some (p, e) \<Longrightarrow>
      h (ev_callback (ev_at s p)) fd evs True s = Some (r, s') \<Longrightarrow>
      fd' \<noteq> fd \<Longrightarrow> interest s fd' = Some x \<Longrightarrow> interest s' fd' = Some x"
begin

lemma call_ok:
  assumes ok: "reactor_ok s" and i: "interest s fd = Some (p, e)" and c: "call_if bits h (p, evs) s = Some s'"
  shows "reactor_ok s' \<and> (\<forall>fd' x. fd' \<noteq> fd \<longrightarrow> interest s fd' = Some x \<longrightarrow> interest s' fd' = Some x)"
proof -
  have a: "ev_fd (ev_at s p) = fd" "ev_arg (ev_at s p)" using reactor_okD(2) [OF ok i] by (auto simp: armed_def)
  show ?thesis
  proof (cases "evs AND bits \<noteq> 0 \<and> ev_events (ev_at s p) AND bits \<noteq> 0")
    case True
    then obtain r where "h (ev_callback (ev_at s p)) fd evs True s = Some (r, s')"
      using c a by (auto simp: call_if_def Let_def)
    then show ?thesis using keeps_ok [OF ok i] keeps_others [OF ok i] by blast
  next
    case False
    then show ?thesis using c ok by (auto simp: call_if_def Let_def)
  qed
qed

lemma call_skip: "evs AND bits = 0 \<Longrightarrow> call_if bits h (p, evs) s = Some s"
  by (simp add: call_if_def)

lemma ready_step:
  assumes ok: "reactor_ok s" and rd: "ready_ok ((p, evs) # rs) s"
    and c1: "call_if EPOLLIN h (p, evs) s = Some s1" and c2: "call_if EPOLLOUT h (p, evs) s1 = Some s2"
  shows "reactor_ok s2 \<and> ready_ok rs s2"
proof -
  have ex: "\<exists>fd e. interest s fd = Some (q, e) \<and> (ev AND EPOLLIN \<noteq> 0 \<longrightarrow> e = EPOLLIN) \<and>
      (ev AND EPOLLOUT \<noteq> 0 \<longrightarrow> e = EPOLLOUT)" if "(q, ev) \<in> set ((p, evs) # rs)" for q ev
    using rd that unfolding ready_ok_def by fast
  from ex [of p evs] obtain fd e where i: "interest s fd = Some (p, e)"
      and m: "evs AND EPOLLIN \<noteq> 0 \<longrightarrow> e = EPOLLIN" "evs AND EPOLLOUT \<noteq> 0 \<longrightarrow> e = EPOLLOUT"
    by (meson list.set_intros(1))
  have "reactor_ok s2 \<and> (\<forall>fd' x. fd' \<noteq> fd \<longrightarrow> interest s fd' = Some x \<longrightarrow> interest s2 fd' = Some x)"
  proof (cases "evs AND EPOLLIN = 0")
    case True
    then have "s1 = s" using c1 call_skip by simp
    then show ?thesis using call_ok [OF ok i] c2 by blast
  next
    case False
    then have "evs AND EPOLLOUT = 0" using m by auto
    then have "s2 = s1" using c2 call_skip by simp
    then show ?thesis using call_ok [OF ok i c1] by blast
  qed
  moreover have "ready_ok rs s2" if o: "\<forall>fd' x. fd' \<noteq> fd \<longrightarrow> interest s fd' = Some x \<longrightarrow> interest s2 fd' = Some x"
  proof -
    have "\<exists>fd e. interest s2 fd = Some (q, e) \<and> (ev AND EPOLLIN \<noteq> 0 \<longrightarrow> e = EPOLLIN) \<and>
        (ev AND EPOLLOUT \<noteq> 0 \<longrightarrow> e = EPOLLOUT)" if q: "(q, ev) \<in> set rs" for q ev
    proof -
      have "q \<noteq> p" using rd q by (force simp: ready_ok_def)
      moreover obtain fd' e' where "interest s fd' = Some (q, e')" "ev AND EPOLLIN \<noteq> 0 \<longrightarrow> e' = EPOLLIN"
          "ev AND EPOLLOUT \<noteq> 0 \<longrightarrow> e' = EPOLLOUT"
        using ex [of q ev] q by (meson list.set_intros(2))
      moreover from calculation have "fd' \<noteq> fd" using i by auto
      ultimately show ?thesis using o by blast
    qed
    then show ?thesis using rd by (auto simp: ready_ok_def)
  qed
  ultimately show ?thesis by blast
qed

lemma run_ready_ok: "reactor_ok s \<Longrightarrow> ready_ok rs s \<Longrightarrow> run_ready h rs s = Some s' \<Longrightarrow> reactor_ok s'"
proof (induction rs arbitrary: s)
  case (Cons r rs)
  obtain p evs where r: "r = (p, evs)" by (cases r)
  from Cons.prems(3) obtain s1 s2 where "call_if EPOLLIN h r s = Some s1" "call_if EPOLLOUT h r s1 = Some s2"
      "run_ready h rs s2 = Some s'" by (auto simp: bind_Some_iff)
  then show ?case using Cons.IH ready_step [OF Cons.prems(1)] Cons.prems(2) unfolding r by blast
qed simp

lemma run_rounds_ok: "reactor_ok s \<Longrightarrow> rounds_ok h ws s \<Longrightarrow> run_rounds h ws s = Some s' \<Longrightarrow> reactor_ok s'"
proof (induction ws arbitrary: s)
  case (Cons w ws)
  show ?case
  proof (cases w)
    case None
    then show ?thesis using Cons by simp
  next
    case (Some rs)
    then obtain s1 where s1: "run_ready h rs s = Some s1" "run_rounds h ws s1 = Some s'"
      using Cons.prems(3) by (auto simp: bind_Some_iff)
    have "ready_ok rs s" and "rounds_ok h ws s1" using Cons.prems(2) Some s1(1) by simp_all
    then show ?thesis using Cons.IH [OF run_ready_ok [OF Cons.prems(1) _ s1(1)]] s1(2) by blast
  qed
qed simp

end

end
