(* ===== verification/Reactor_Turn.thy ===== *)
theory Reactor_Turn
  imports Reactor_Inv
begin

text \<open>
  What the callbacks of all servers on the reactor share: the frames of receiving and sending, the steps
  that keep the invariant and the registration of the other descriptors, and the end of a callback,
  which turns its event around or drops the connection.
\<close>

abbreviation (input) BUFFER_LENGTH :: nat where
  "BUFFER_LENGTH \<equiv> 4096"

lemma recv_bytes_frame:
  "recv_bytes fd n k = (r, k') \<Longrightarrow> k_interest k' = k_interest k \<and> k_open k' = k_open k \<and> k_out k' = k_out k"
  by (auto simp: recv_bytes_def split: if_splits list.splits)

lemma send_bytes_frame:
  "send_bytes fd bs k = (n, k') \<Longrightarrow> k_interest k' = k_interest k \<and> k_open k' = k_open k"
  by (auto simp: send_bytes_def Let_def split: if_splits)

lemma ok_same_kernel:
  assumes "reactor_ok s" and "k_interest k = interest s" and "k_open k = k_open (s_kernel s)"
  shows "reactor_ok (s\<lparr>s_kernel := k\<rparr>)"
  using assms unfolding reactor_ok_def by simp

lemma close_kernel_ok:
  assumes "reactor_ok s" and "fd \<noteq> epfd (s_reactor s)"
  shows "reactor_ok (s\<lparr>s_kernel := close_fd fd (s_kernel s)\<rparr>)"
  using close_ok [OF assms] by (simp add: upd_kernel_def)

definition keeps :: "'x ntyevent_scheme server \<Rightarrow> int \<Rightarrow> 'x ntyevent_scheme server \<Rightarrow> bool" where
  "keeps s fd s' \<longleftrightarrow> reactor_ok s' \<and> (\<forall>fd' x. fd' \<noteq> fd \<longrightarrow> interest s fd' = Some x \<longrightarrow> interest s' fd' = Some x)"

text \<open>The end of the callbacks: rearming the descriptor or closing it.\<close>

lemma rearm_keeps:
  assumes "reactor_ok s" and "interest s fd = None" and "0 \<le> fd" and "fst (slot_of fd) < length (evblk (s_reactor s))"
    and "fits e cb" and "fd \<noteq> epfd (s_reactor s)"
  shows "keeps s fd (snd (nty_event_add e (slot_of fd) (upd_ev (slot_of fd) (nty_event_set fd cb True) s)))"
  using add_ok [OF assms] add_interest [OF assms(1-4)] by (simp add: keeps_def)

lemma keeps_trans: "keeps a fd b \<Longrightarrow> keeps b fd c \<Longrightarrow> keeps a fd c"
  by (simp add: keeps_def)

lemma keeps_same: "reactor_ok s' \<Longrightarrow> interest s' = interest s \<Longrightarrow> keeps s fd s'"
  by (simp add: keeps_def)

lemma del_keeps:
  assumes "reactor_ok s" and "interest s fd = Some (slot_of fd, e)"
  shows "keeps s fd (snd (nty_event_del (slot_of fd) s))" and "interest (snd (nty_event_del (slot_of fd) s)) fd = None"
    and "length (evblk (s_reactor (snd (nty_event_del (slot_of fd) s)))) = length (evblk (s_reactor s))"
    and "epfd (s_reactor (snd (nty_event_del (slot_of fd) s))) = epfd (s_reactor s)"
    and "ev_fd (ev_at (snd (nty_event_del (slot_of fd) s)) (slot_of fd)) = fd"
proof -
  note d = reactor_okD [OF assms]
  show "keeps s fd (snd (nty_event_del (slot_of fd) s))"
    using del_ok [OF assms] unfolding keeps_def by (simp add: del_armed [OF assms])
  show "interest (snd (nty_event_del (slot_of fd) s)) fd = None"
    and "length (evblk (s_reactor (snd (nty_event_del (slot_of fd) s)))) = length (evblk (s_reactor s))"
    and "epfd (s_reactor (snd (nty_event_del (slot_of fd) s))) = epfd (s_reactor s)"
    and "ev_fd (ev_at (snd (nty_event_del (slot_of fd) s)) (slot_of fd)) = fd"
    using d(2,6) by (simp_all add: del_armed [OF assms] frame_simps ev_at_upd armed_def)
qed

lemma close_keeps:
  assumes "reactor_ok s" and "fd \<noteq> epfd (s_reactor s)"
  shows "keeps s fd (upd_kernel (close_fd fd) s)"
  using close_ok [OF assms] by (simp add: keeps_def upd_kernel_def close_fd_def)

section \<open>Turning an event around\<close>

text \<open>What both callbacks do at their end: the event is removed, changed, and added again for the other
  direction.\<close>

lemma turn_around:
  fixes s :: "'x ntyevent_scheme server"
  assumes ok: "reactor_ok s" and i: "interest s fd = Some (slot_of fd, e)" and st: "ev_status ev1 \<noteq> 1"
    and f: "fits e' cb"
    and s5: "s5 = snd (nty_event_add e' (slot_of fd) (upd_ev (slot_of fd) (nty_event_set fd cb True)
      (upd_ev (slot_of fd) (\<lambda>_. ev1) (snd (nty_event_del (slot_of fd) s)))))"
  shows "reactor_ok s5" and "s_kernel s5 = (s_kernel s)\<lparr>k_interest := (interest s)(fd \<mapsto> (slot_of fd, e'))\<rparr>"
    and "ev_at s5 (slot_of fd) = (nty_event_set fd cb True ev1)\<lparr>ev_events := e', ev_status := 1\<rparr>"
proof -
  note d = reactor_okD [OF ok i]
  let ?p = "slot_of fd"
  define s3 where "s3 = snd (nty_event_del ?p s)"
  note dk = del_keeps [OF ok i, folded s3_def]
  have ok3: "reactor_ok s3" using dk(1) by (simp add: keeps_def)
  have in3: "fst ?p < length (evblk (s_reactor s3))" using dk(3) d(6) by simp
  have k3: "s_kernel s3 = (s_kernel s)\<lparr>k_interest := (interest s)(fd := None)\<rparr>" by (simp add: s3_def del_armed [OF ok i])
  define s4 where "s4 = upd_ev ?p (\<lambda>_. ev1) s3"
  have ok4: "reactor_ok s4" unfolding s4_def by (rule upd_ev_ok [OF ok3 dk(2) d(4) in3])
  have i4: "interest s4 fd = None" and in4: "fst ?p < length (evblk (s_reactor s4))"
    using dk(2) in3 by (simp_all add: s4_def frame_simps)
  have e4: "ev_at s4 ?p = ev1" using ev_at_upd [OF in3] by (simp add: s4_def)
  have s5': "s5 = snd (nty_event_add e' ?p (upd_ev ?p (nty_event_set fd cb True) s4))" by (simp add: s5 s4_def s3_def)
  show "reactor_ok s5" unfolding s5'
    by (rule add_ok [OF ok4 i4 d(4) in4 f]) (use dk(4) d(3) in \<open>simp add: s4_def frame_simps\<close>)
  have k4: "s_kernel s4 = s_kernel s3" by (simp add: s4_def frame_simps)
  have a: "s5 = (upd_ev ?p (\<lambda>ev. (nty_event_set fd cb True ev)\<lparr>ev_events := e', ev_status := 1\<rparr>) s4)
      \<lparr>s_kernel := (s_kernel s4)\<lparr>k_interest := (interest s4)(fd \<mapsto> (?p, e'))\<rparr>\<rparr>"
    using add_result [OF ok4 i4 d(4) in4, of e' cb] st d(1) unfolding s5' e4 k4 k3 by (simp add: Let_def)
  show "s_kernel s5 = (s_kernel s)\<lparr>k_interest := (interest s)(fd \<mapsto> (?p, e'))\<rparr>" unfolding a by (simp add: k4 k3)
  show "ev_at s5 ?p = (nty_event_set fd cb True ev1)\<lparr>ev_events := e', ev_status := 1\<rparr>"
    using ev_at_upd [OF in4] e4 by (simp add: a)
qed

lemma turn_keeps:
  assumes "reactor_ok s" and "interest s fd = Some (slot_of fd, e)" and "fits e' cb"
  shows "keeps s fd (snd (nty_event_add e' (slot_of fd) (upd_ev (slot_of fd) (nty_event_set fd cb True)
      (upd_ev (slot_of fd) (\<lambda>_. ev1) (snd (nty_event_del (slot_of fd) s))))))"
proof -
  note d = reactor_okD [OF assms(1,2)]
  note dk = del_keeps [OF assms(1,2)]
  let ?p = "slot_of fd"
  let ?s3 = "snd (nty_event_del ?p s)"
  have ok3: "reactor_ok ?s3" using dk(1) by (simp add: keeps_def)
  have in3: "fst ?p < length (evblk (s_reactor ?s3))" using dk(3) d(6) by simp
  have ok4: "reactor_ok (upd_ev ?p (\<lambda>_. ev1) ?s3)" by (rule upd_ev_ok [OF ok3 dk(2) d(4) in3])
  have "keeps ?s3 fd (upd_ev ?p (\<lambda>_. ev1) ?s3)" by (rule keeps_same [OF ok4]) (simp add: frame_simps)
  moreover have "keeps (upd_ev ?p (\<lambda>_. ev1) ?s3) fd (snd (nty_event_add e' ?p (upd_ev ?p (nty_event_set fd cb True) (upd_ev ?p (\<lambda>_. ev1) ?s3))))"
    by (rule rearm_keeps [OF ok4]) (use dk(2,4) d(3,4) in3 assms(3) in \<open>simp_all add: frame_simps\<close>)
  ultimately show ?thesis using dk(1) keeps_trans by blast
qed

lemma drop_keeps:
  assumes "reactor_ok s" and "interest s fd = Some (slot_of fd, e)"
  shows "keeps s fd (upd_kernel (close_fd (ev_fd (ev_at (snd (nty_event_del (slot_of fd) s)) (slot_of fd)))) (snd (nty_event_del (slot_of fd) s)))"
proof -
  note dk = del_keeps [OF assms]
  have "reactor_ok (snd (nty_event_del (slot_of fd) s))" using dk(1) by (simp add: keeps_def)
  moreover have "fd \<noteq> epfd (s_reactor (snd (nty_event_del (slot_of fd) s)))" using reactor_okD(3) [OF assms] dk(4) by simp
  ultimately show ?thesis using close_keeps dk(1) keeps_trans unfolding dk(5) by blast
qed

text \<open>A new connection that is registered.\<close>

lemma new_conn_keeps:
  assumes ok: "reactor_ok s" and a: "accept_conn fd (s_kernel s) = (c, k)" "c \<noteq> - 1"
    and f: "ntyreactor_find_event_idx z c (s\<lparr>s_kernel := k\<rparr>) = Some (p, s1)" and e: "fits e cb"
  shows "reactor_ok (snd (nty_event_add e p (upd_ev p (nty_event_set c cb True) s1))) \<and>
    (\<forall>fd' x. interest s fd' = Some x \<longrightarrow> interest (snd (nty_event_add e p (upd_ev p (nty_event_set c cb True) s1))) fd' = Some x)"
proof -
  note ac = accept_ok [OF ok a]
  note fo = find_ok [OF ac(1,2) f]
  have i1: "interest s1 = interest s" "epfd (s_reactor s1) = epfd (s_reactor s)"
    using fo(3) ac(4) by (simp_all add: same_but_table_def)
  have "keeps s1 c (snd (nty_event_add e p (upd_ev p (nty_event_set c cb True) s1)))" unfolding fo(1)
    by (rule rearm_keeps [OF fo(2) _ ac(2) fo(4) e]) (use i1 ac(5,6) in simp_all)
  then show ?thesis using i1(1) ac(5) unfolding keeps_def by (metis option.distinct(1))
qed

lemma upd_ev_same: "upd_ev p (\<lambda>_. ev_at s p) s = s"
  by (simp add: upd_ev_def ev_at_def)

text \<open>The start of a callback: data of the event and the kernel change, the registration does not.\<close>

lemma data_keeps:
  assumes ok: "reactor_ok s" and i: "interest s fd = Some (p, e)" and a: "same_arming (ev_at s (slot_of fd)) (f (ev_at s (slot_of fd)))"
    and k: "k_interest k = interest s" "k_open k = k_open (s_kernel s)"
    and s1: "s1 = (upd_ev (slot_of fd) f s)\<lparr>s_kernel := k\<rparr>"
  shows "reactor_ok s1" and "interest s1 fd = Some (slot_of fd, e)" and "keeps s fd s1"
proof -
  show ok1: "reactor_ok s1" unfolding s1
    by (rule ok_same_kernel, rule upd_data_ok [where f = f, OF ok reactor_okD(6) [OF ok i] a]) (use k in \<open>simp_all add: frame_simps\<close>)
  show "interest s1 fd = Some (slot_of fd, e)" using i k reactor_okD(5) [OF ok i] by (simp add: s1)
  show "keeps s fd s1" by (rule keeps_same [OF ok1]) (use k in \<open>simp add: s1\<close>)
qed

lemma kernel_keeps:
  assumes ok: "reactor_ok s" and i: "interest s fd = Some (p, e)" and k: "k_interest k = interest s" "k_open k = k_open (s_kernel s)"
  shows "reactor_ok (s\<lparr>s_kernel := k\<rparr>)" and "interest (s\<lparr>s_kernel := k\<rparr>) fd = Some (slot_of fd, e)" and "keeps s fd (s\<lparr>s_kernel := k\<rparr>)"
proof -
  have a: "same_arming (ev_at s (slot_of fd)) (ev_at s (slot_of fd))" by (simp add: same_arming_def)
  note d = data_keeps [where f = "\<lambda>_. ev_at s (slot_of fd)", OF ok i a k refl]
  then show "reactor_ok (s\<lparr>s_kernel := k\<rparr>)" and "interest (s\<lparr>s_kernel := k\<rparr>) fd = Some (slot_of fd, e)" and "keeps s fd (s\<lparr>s_kernel := k\<rparr>)"
    by (simp_all only: upd_ev_same)
qed

text \<open>The number of blocks of the table only changes when it grows.\<close>

lemma blocks_kept [simp]:
  "length (evblk (s_reactor (snd (nty_event_add e p s)))) = length (evblk (s_reactor s))"
  "length (evblk (s_reactor (snd (nty_event_del p s)))) = length (evblk (s_reactor s))"
  "length (evblk (s_reactor (upd_kernel g s))) = length (evblk (s_reactor s))"
  by (simp_all add: nty_event_add_def nty_event_del_def upd_kernel_def Let_def frame_simps split: prod.split)

end
