(* ===== verification/WebSocket.thy ===== *)
theory WebSocket
  imports Reactor_Turn
begin

text \<open>
  The WebSocket server of \<open>2.1.4websocket/websocket_reactor.c\<close>: the handshake, the decoding and the
  encoding of frames in the one buffer of the connection, and the three callbacks of the reactor.

  \<open>SHA1\<close> and the base64 filter of the cryptography library are parameters (\<open>sha1\<close>, \<open>b64\<close>), and so is
  what \<open>memcpy\<close> and \<open>strcpy\<close> do when source and destination overlap (\<open>ov\<close>), which the language leaves
  undefined. A read or a write outside a buffer, and a loop that does not end, is \<open>None\<close>. The
  pauses (\<open>usleep\<close>) and the printing are left out.
\<close>

definition ascii :: "string \<Rightarrow> byte list" where
  "ascii s = map of_char s"

definition crlf :: "byte list" where
  "crlf = [13, 10]"

definition GUID :: "byte list" where
  "GUID = ascii ''258EAFA5-E914-47DA-95CA-C5AB0DC85B11''"

section \<open>Events\<close>

record ws_event = ntyevent +
  state_machine :: int

abbreviation (input) WS_HANDSHAKE :: int where "WS_HANDSHAKE \<equiv> 0"
abbreviation (input) WS_TRANSMISSION :: int where "WS_TRANSMISSION \<equiv> 1"
abbreviation (input) WS_END :: int where "WS_END \<equiv> 2"

definition ws_zero :: ws_event where
  "ws_zero = \<lparr>ev_fd = 0, ev_events = 0, ev_arg = False, ev_callback = NoCB, ev_status = 0,
     ev_buffer = replicate BUFFER_LENGTH 0, ev_length = 0, state_machine = 0\<rparr>"

section \<open>Strings\<close>

type_synonym overlap = "nat \<Rightarrow> nat \<Rightarrow> nat \<Rightarrow> byte list \<Rightarrow> byte list option"

definition copy_within :: "overlap \<Rightarrow> nat \<Rightarrow> nat \<Rightarrow> nat \<Rightarrow> byte list \<Rightarrow> byte list option" where
  "copy_within ov dst src n buf =
    (if dst + n > length buf \<or> src + n > length buf then None
     else if n = 0 \<or> dst + n \<le> src \<or> src + n \<le> dst then write_at dst (take n (drop src buf)) buf
     else ov dst src n buf)"

fun contains :: "byte list \<Rightarrow> byte list \<Rightarrow> bool" where
  "contains pat [] = (pat = [])"
| "contains pat (x # xs) = (take (length pat) (x # xs) = pat \<or> contains pat xs)"

section \<open>The handshake\<close>

definition base64_encode :: "(byte list \<Rightarrow> byte list) \<Rightarrow> byte list \<Rightarrow> byte list \<Rightarrow> (int \<times> byte list) option" where
  "base64_encode b64 in_str out_str = do {
     let data = b64 in_str;
     out1 \<leftarrow> write_at 0 data out_str;
     if data = [] then None else Some (int (length data), out1[length data - 1 := 0]) }"

text \<open>The loop of \<open>readline\<close>: \<open>pos\<close> is where \<open>line_buffer\<close> points.\<close>

function readline_loop :: "byte list \<Rightarrow> nat \<Rightarrow> nat \<Rightarrow> nat \<Rightarrow> byte list \<Rightarrow> (int \<times> byte list) option" where
  "readline_loop all len idx pos line =
    (if idx < len then do {
       b \<leftarrow> byte_at all idx;
       c \<leftarrow> (if b = 13 then byte_at all (idx + 1) else Some 0);
       if b = 13 \<and> c = 10 then Some (int (idx + 2), line)
       else do { line1 \<leftarrow> write_at pos [b] line; readline_loop all len (idx + 1) (pos + 1) line1 } }
     else Some (- 1, line))"
  by auto
termination by (relation "measure (\<lambda>(all, len, idx, pos, line). len - idx)") auto

declare readline_loop.simps [simp del]

definition readline :: "byte list \<Rightarrow> nat \<Rightarrow> byte list \<Rightarrow> (int \<times> byte list) option" where
  "readline all_buffer idx line_buffer = do {
     s \<leftarrow> c_string all_buffer;
     readline_loop all_buffer (length s) idx 0 line_buffer }"

partial_function (option) key_line :: "byte list \<Rightarrow> nat \<Rightarrow> byte list \<Rightarrow> byte list option option" where
  "key_line buf idx line = do {
     s \<leftarrow> c_string line;
     if contains (ascii ''Sec-WebSocket-Key'') s then Some (Some line)
     else do {
       (r, line1) \<leftarrow> readline buf idx (replicate 1024 0);
       if r = - 1 then Some None else key_line buf (nat r) line1 } }"

declare key_line.simps [code]

definition ws_response :: "byte list \<Rightarrow> byte list" where
  "ws_response key = ascii ''HTTP/1.1 101 Switching Protocols'' @ crlf @ ascii ''Upgrade: websocket'' @ crlf @
     ascii ''Connection: Upgrade'' @ crlf @ ascii ''Sec-WebSocket-Accept: '' @ key @ crlf @ crlf"

definition handshake :: "(byte list \<Rightarrow> byte list) \<Rightarrow> (byte list \<Rightarrow> byte list) \<Rightarrow> overlap \<Rightarrow>
    'x ntyevent_scheme \<Rightarrow> (int \<times> 'x ntyevent_scheme) option" where
  "handshake sha1 b64 ov ev = do {
     found \<leftarrow> key_line (ev_buffer ev) 0 (replicate 1024 0);
     case found of
       None \<Rightarrow> Some (- 1, ev)
     | Some line \<Rightarrow> do {
         src \<leftarrow> c_string (drop 19 line);
         line1 \<leftarrow> copy_within ov 0 19 (length src + 1) line;
         key \<leftarrow> c_string line1;
         line2 \<leftarrow> write_at (length key) (GUID @ [0]) line1;
         txt \<leftarrow> c_string line2;
         sha_key \<leftarrow> write_at 0 (sha1 txt) (replicate 32 0);
         digest \<leftarrow> c_string sha_key;
         (n, sec_key) \<leftarrow> base64_encode b64 digest (replicate 32 0);
         sec \<leftarrow> c_string sec_key;
         let resp = ws_response sec;
         buf \<leftarrow> write_at 0 (resp @ [0]) (replicate BUFFER_LENGTH 0);
         Some (0, ev\<lparr>ev_buffer := buf, ev_length := int (length resp)\<rparr>) } }"

section \<open>Frames\<close>

text \<open>The two header bytes.\<close>

definition hdr_opcode :: "byte \<Rightarrow> nat" where
  "hdr_opcode b = unat (b AND 15)"

definition hdr_payload_len :: "byte \<Rightarrow> nat" where
  "hdr_payload_len b = unat (b AND 127)"

definition hdr_mask :: "byte \<Rightarrow> bool" where
  "hdr_mask b = bit b 7"

text \<open>\<open>payload[i] ^= mask_key[i % 4]\<close>, both in the buffer.\<close>

function umask_loop :: "nat \<Rightarrow> int \<Rightarrow> nat \<Rightarrow> nat \<Rightarrow> byte list \<Rightarrow> byte list option" where
  "umask_loop i len payload mask_key buf =
    (if int i < len then do {
       b \<leftarrow> byte_at buf (payload + i);
       m \<leftarrow> byte_at buf (mask_key + i mod 4);
       umask_loop (i + 1) len payload mask_key (buf[payload + i := b XOR m]) }
     else Some buf)"
  by auto
termination by (relation "measure (\<lambda>(i, len, p, m, buf). nat (len - int i))") auto

declare umask_loop.simps [simp del]

definition umask :: "nat \<Rightarrow> int \<Rightarrow> nat \<Rightarrow> byte list \<Rightarrow> byte list option" where
  "umask payload len mask_key buf = umask_loop 0 len payload mask_key buf"

text \<open>A little-endian value of the host, of up to eight bytes.\<close>

primrec load_le :: "byte list \<Rightarrow> 64 word" where
  "load_le [] = 0"
| "load_le (b # bs) = ucast b OR push_bit 8 (load_le bs)"

definition int_of_long :: "64 word \<Rightarrow> int" where
  "int_of_long x = sint (ucast x :: 32 word)"

definition bytes64 :: "64 word \<Rightarrow> byte list" where
  "bytes64 x = map (\<lambda>i. ucast (drop_bit (8 * i) x)) [0..<8]"

text \<open>The result: where the payload is (or null), \<open>real_len\<close>, \<open>virtual_len\<close>, the event and the kernel,
  which changes when the frame closes the connection. \<open>sizeof(ws_ophdr)\<close> is 2,
  \<open>sizeof(ws_ophdr126)\<close> is 6 and \<open>sizeof(ws_ophdr127)\<close> is 16.\<close>

definition decode_packet :: "ws_event \<Rightarrow> kernel \<Rightarrow>
    (nat option \<times> int \<times> nat \<times> ws_event \<times> kernel) option" where
  "decode_packet ev k = do {
     b0 \<leftarrow> byte_at (ev_buffer ev) 0;
     b1 \<leftarrow> byte_at (ev_buffer ev) 1;
     let n = hdr_payload_len b1;
     if hdr_opcode b0 = 8 then Some (None, 0, n, ev\<lparr>state_machine := WS_END\<rparr>, close_fd (ev_fd ev) k)
     else if n < 126 then do {
       buf \<leftarrow> (if hdr_mask b1 then umask 6 (int n) 2 (ev_buffer ev) else Some (ev_buffer ev));
       Some (Some 6, int n, n, ev\<lparr>ev_buffer := buf\<rparr>, k) }
     else if n = 126 then do {
       x \<leftarrow> read16 (ev_buffer ev) 2;
       let len = htons x;
       buf1 \<leftarrow> write_at 2 (bytes16 len) (ev_buffer ev);
       buf \<leftarrow> (if hdr_mask b1 then umask 8 (uint len) 4 buf1 else Some buf1);
       Some (Some 8, uint len, n, ev\<lparr>ev_buffer := buf\<rparr>, k) }
     else do {
       bs \<leftarrow> read_at 2 8 (ev_buffer ev);
       let len = int_of_long (load_le bs);
       buf \<leftarrow> (if hdr_mask b1 then umask 18 len 10 (ev_buffer ev) else Some (ev_buffer ev));
       Some (Some 18, len, n, ev\<lparr>ev_buffer := buf\<rparr>, k) } }"

definition encode_packet :: "overlap \<Rightarrow> ws_event \<Rightarrow> int \<Rightarrow> nat \<Rightarrow> nat option \<Rightarrow> (int \<times> ws_event) option" where
  "encode_packet ov ev real_len virtual_len payload = do {
     buf1 \<leftarrow> write_at 0 [0x81, of_nat virtual_len AND 127] (ev_buffer ev);
     (buf2, head_offset) \<leftarrow>
       (if virtual_len < 126 then Some (buf1, 2)
        else if virtual_len = 126 then do {
          b \<leftarrow> write_at 2 (bytes16 (htons (of_int real_len))) buf1; Some (b, 4) }
        else if virtual_len = 127 then do {
          b \<leftarrow> write_at 2 (bytes64 (of_int real_len)) buf1; Some (b, 10) }
        else Some (buf1, 0));
     buf3 \<leftarrow> (case payload of
        None \<Rightarrow> if real_len = 0 then Some buf2 else None
      | Some p \<Rightarrow> if real_len < 0 then None else copy_within ov head_offset p (nat real_len) buf2);
     Some (int head_offset + real_len, ev\<lparr>ev_buffer := buf3\<rparr>) }"

definition transmission :: "overlap \<Rightarrow> ws_event \<Rightarrow> kernel \<Rightarrow> (ws_event \<times> kernel) option" where
  "transmission ov ev k = do {
     (payload, real_len, virtual_len, ev1, k1) \<leftarrow> decode_packet ev k;
     (n, ev2) \<leftarrow> encode_packet ov ev1 real_len virtual_len payload;
     Some (ev2\<lparr>ev_length := n\<rparr>, k1) }"

definition websocket_request :: "(byte list \<Rightarrow> byte list) \<Rightarrow> (byte list \<Rightarrow> byte list) \<Rightarrow> overlap \<Rightarrow>
    ws_event \<Rightarrow> kernel \<Rightarrow> (ws_event \<times> kernel) option" where
  "websocket_request sha1 b64 ov ev k =
    (if state_machine ev = WS_HANDSHAKE then do {
       (r, ev1) \<leftarrow> handshake sha1 b64 ov ev;
       Some (ev1\<lparr>state_machine := WS_TRANSMISSION\<rparr>, k) }
     else if state_machine ev = WS_TRANSMISSION then transmission ov ev k
     else Some (ev, k))"

section \<open>The callbacks\<close>

text \<open>The loop that reads until there is nothing to read; it does not stop at the end of the stream.\<close>

partial_function (option) recv_loop :: "int \<Rightarrow> byte list \<Rightarrow> nat \<Rightarrow> kernel \<Rightarrow> (byte list \<times> nat \<times> kernel) option" where
  "recv_loop fd buf len k =
    (case recv_bytes fd (BUFFER_LENGTH - len) k of
       (None, k1) \<Rightarrow> Some (buf, len, k1)
     | (Some bs, k1) \<Rightarrow> do { buf1 \<leftarrow> write_at len bs buf; recv_loop fd buf1 (len + length bs) k1 })"

declare recv_loop.simps [code]

definition ws_recv_cb :: "(byte list \<Rightarrow> byte list) \<Rightarrow> (byte list \<Rightarrow> byte list) \<Rightarrow> overlap \<Rightarrow>
    int \<Rightarrow> ws_event server \<Rightarrow> (int \<times> ws_event server) option" where
  "ws_recv_cb sha1 b64 ov fd s = do {
     (p, s1) \<leftarrow> ntyreactor_find_event_idx ws_zero fd s;
     (buf, len, k) \<leftarrow> recv_loop fd (replicate BUFFER_LENGTH 0) 0 (s_kernel s1);
     let s2 = (upd_ev p (\<lambda>ev. ev\<lparr>ev_buffer := buf\<rparr>) s1)\<lparr>s_kernel := k\<rparr>;
     let s3 = snd (nty_event_del p s2);
     if len > 0 then do {
       b \<leftarrow> write_at len [0] buf;
       let ev = (ev_at s3 p)\<lparr>ev_length := int len, ev_buffer := b\<rparr>;
       (ev1, k1) \<leftarrow> websocket_request sha1 b64 ov ev (s_kernel s3);
       let s4 = (upd_ev p (\<lambda>_. ev1) s3)\<lparr>s_kernel := k1\<rparr>;
       let s5 = upd_ev p (nty_event_set fd SendCB True) s4;
       Some (int len, snd (nty_event_add EPOLLOUT p s5)) }
     else Some (int len, upd_kernel (close_fd (ev_fd (ev_at s3 p))) s3) }"

definition ws_send_cb :: "int \<Rightarrow> ws_event server \<Rightarrow> (int \<times> ws_event server) option" where
  "ws_send_cb fd s = do {
     (p, s1) \<leftarrow> ntyreactor_find_event_idx ws_zero fd s;
     let ev = ev_at s1 p;
     bs \<leftarrow> (if ev_length ev < 0 then None else read_at 0 (nat (ev_length ev)) (ev_buffer ev));
     let (len, k) = send_bytes fd bs (s_kernel s1);
     let s2 = snd (nty_event_del p (s1\<lparr>s_kernel := k\<rparr>));
     if len > 0
     then Some (len, snd (nty_event_add EPOLLIN p (upd_ev p (nty_event_set fd RecvCB True) s2)))
     else Some (len, upd_kernel (close_fd (ev_fd (ev_at s2 p))) s2) }"

definition ws_accept_cb :: "int \<Rightarrow> bool \<Rightarrow> ws_event server \<Rightarrow> (int \<times> ws_event server) option" where
  "ws_accept_cb fd reactor s =
    (if \<not> reactor then Some (- 1, s)
     else case accept_conn fd (s_kernel s) of (clientfd, k) \<Rightarrow>
       if clientfd = - 1 then Some (- 1, s)
       else if \<not> k_fcntl k clientfd then Some (- 1, s\<lparr>s_kernel := k\<rparr>)
       else do {
         (p, s1) \<leftarrow> ntyreactor_find_event_idx ws_zero clientfd (s\<lparr>s_kernel := k\<rparr>);
         let s2 = upd_ev p (nty_event_set clientfd RecvCB True) s1;
         let s3 = upd_ev p (\<lambda>ev. ev\<lparr>ev_status := WS_HANDSHAKE\<rparr>) s2;
         Some (0, snd (nty_event_add EPOLLIN p s3)) })"

fun ws_handlers :: "(byte list \<Rightarrow> byte list) \<Rightarrow> (byte list \<Rightarrow> byte list) \<Rightarrow> overlap \<Rightarrow>
    callback \<Rightarrow> int \<Rightarrow> 32 word \<Rightarrow> bool \<Rightarrow> ws_event server \<Rightarrow> (int \<times> ws_event server) option" where
  "ws_handlers sha1 b64 ov NoCB fd evs arg s = None"
| "ws_handlers sha1 b64 ov RecvCB fd evs arg s = (if arg then ws_recv_cb sha1 b64 ov fd s else None)"
| "ws_handlers sha1 b64 ov SendCB fd evs arg s = (if arg then ws_send_cb fd s else None)"
| "ws_handlers sha1 b64 ov AcceptCB fd evs arg s = ws_accept_cb fd arg s"

end
