(* ===== verification/WebSocket_Reactor.thy ===== *)
theory WebSocket_Reactor
  imports WebSocket
begin

text \<open>
  The callbacks of the WebSocket server keep the invariant of the reactor, so its loop keeps it; and
  what the receiving callback does with the segments that arrive.
\<close>

section \<open>Receiving\<close>

lemma recv_loop_frame:
  assumes "recv_loop fd buf len k = Some (buf', len', k')"
  shows "k_interest k' = k_interest k \<and> k_open k' = k_open k \<and> k_out k' = k_out k"
proof -
  let ?P = "\<lambda>fd buf len k r. \<forall>buf' len' k'. r = (buf', len', k') \<longrightarrow>
    k_interest k' = k_interest k \<and> k_open k' = k_open k \<and> k_out k' = k_out k"
  have "?P fd buf len k (buf', len', k')"
  proof (rule recv_loop.raw_induct [where P = ?P, OF _ assms], intro allI impI)
    fix f fd buf len k r buf' len' k'
    assume ih: "\<And>fd buf len k r. f fd buf len k = Some r \<Longrightarrow> ?P fd buf len k r"
      and body: "(case recv_bytes fd (4096 - len) k of (None, k1) \<Rightarrow> Some (buf, len, k1)
         | (Some bs, k1) \<Rightarrow> write_at len bs buf \<bind> (\<lambda>buf1. f fd buf1 (len + length bs) k1)) = Some r"
      and r: "r = (buf', len', k')"
    obtain a k1 where rb: "recv_bytes fd (4096 - len) k = (a, k1)" by (cases "recv_bytes fd (4096 - len) k")
    note fr = recv_bytes_frame [OF rb]
    show "k_interest k' = k_interest k \<and> k_open k' = k_open k \<and> k_out k' = k_out k"
    proof (cases a)
      case None
      then show ?thesis using body r rb fr by simp
    next
      case (Some bs)
      then obtain buf1 where "f fd buf1 (len + length bs) k1 = Some (buf', len', k')"
        using body r rb by (auto simp: bind_Some_iff)
      from ih [OF this] fr show ?thesis by simp
    qed
  qed
  then show ?thesis by blast
qed

text \<open>Segments that fit the buffer are all read; what arrives after them is left alone.\<close>

lemma recv_loop_reads:
  assumes "c_in (k_conn k fd) = segs" and "\<not> c_eof (k_conn k fd)" and "\<forall>seg\<in>set segs. seg \<noteq> []"
    and "length pre + length (concat segs) < BUFFER_LENGTH" and "length pre + length rest = BUFFER_LENGTH"
  shows "recv_loop fd (pre @ rest) (length pre) k =
    Some (pre @ concat segs @ drop (length (concat segs)) rest, length pre + length (concat segs),
      k\<lparr>k_conn := (k_conn k)(fd := (k_conn k fd)\<lparr>c_in := []\<rparr>)\<rparr>)"
  using assms
proof (induction segs arbitrary: k pre rest)
  case Nil
  have "recv_bytes fd (BUFFER_LENGTH - length pre) k = (None, k)"
    using Nil by (simp add: recv_bytes_def)
  moreover have "(k_conn k fd)\<lparr>c_in := []\<rparr> = k_conn k fd" using Nil.prems(1) by simp
  ultimately show ?case by (subst recv_loop.simps) simp
next
  case (Cons seg segs)
  let ?k = "k\<lparr>k_conn := (k_conn k)(fd := (k_conn k fd)\<lparr>c_in := segs\<rparr>)\<rparr>"
  have lt: "length seg \<le> BUFFER_LENGTH - length pre" "BUFFER_LENGTH - length pre \<noteq> 0" using Cons.prems(4) by auto
  have r: "recv_bytes fd (BUFFER_LENGTH - length pre) k = (Some seg, ?k)"
    using Cons.prems(1) lt by (simp add: recv_bytes_def)
  have w: "write_at (length pre) seg (pre @ rest) = Some ((pre @ seg) @ drop (length seg) rest)"
    using write_at_append [of "take (length seg) rest" seg pre "drop (length seg) rest"] Cons.prems(4,5) by simp
  have "recv_loop fd ((pre @ seg) @ drop (length seg) rest) (length (pre @ seg)) ?k =
      Some ((pre @ seg) @ concat segs @ drop (length (concat segs)) (drop (length seg) rest),
        length (pre @ seg) + length (concat segs), ?k\<lparr>k_conn := (k_conn ?k)(fd := (k_conn ?k fd)\<lparr>c_in := []\<rparr>)\<rparr>)"
    by (rule Cons.IH) (use Cons.prems in auto)
  then show ?case using r w by (subst recv_loop.simps) (simp add: add.commute add.left_commute)
qed

text \<open>The loop has no way out once the other side has closed, or when the buffer is full.\<close>

lemma recv_loop_never:
  assumes "c_eof (k_conn k fd) \<or> len + length (concat (c_in (k_conn k fd))) \<ge> BUFFER_LENGTH"
  shows "recv_loop fd buf len k = None"
proof -
  let ?P = "\<lambda>fd buf len k r. \<not> (c_eof (k_conn k fd) \<or> len + length (concat (c_in (k_conn k fd))) \<ge> BUFFER_LENGTH)"
  have "?P fd buf len k r" if r: "recv_loop fd buf len k = Some r" for r
  proof (rule recv_loop.raw_induct [where P = ?P, OF _ r], rule notI)
    fix f fd buf len k r
    assume ih: "\<And>fd buf len k r. f fd buf len k = Some r \<Longrightarrow> ?P fd buf len k r"
      and body: "(case recv_bytes fd (4096 - len) k of (None, k1) \<Rightarrow> Some (buf, len, k1)
         | (Some bs, k1) \<Rightarrow> write_at len bs buf \<bind> (\<lambda>buf1. f fd buf1 (len + length bs) k1)) = Some r"
      and h: "c_eof (k_conn k fd) \<or> len + length (concat (c_in (k_conn k fd))) \<ge> BUFFER_LENGTH"
    obtain bs k1 where rb: "recv_bytes fd (4096 - len) k = (Some bs, k1)"
        and h1: "c_eof (k_conn k1 fd) \<or> len + length bs + length (concat (c_in (k_conn k1 fd))) \<ge> BUFFER_LENGTH"
    proof (cases "4096 - len = 0")
      case True
      then show ?thesis using that [of "[]" k] h by (simp add: recv_bytes_def)
    next
      case n: False
      show ?thesis
      proof (cases "c_in (k_conn k fd)")
        case Nil
        then have "c_eof (k_conn k fd)" using h n by simp
        then show ?thesis using that [of "[]" k] n Nil by (simp add: recv_bytes_def)
      next
        case (Cons seg segs)
        have "length (take (4096 - len) seg) + length (drop (4096 - len) seg) = length seg" by simp
        then show ?thesis
          using that [of "take (4096 - len) seg" "k\<lparr>k_conn := (k_conn k)(fd := (k_conn k fd)
              \<lparr>c_in := (if drop (4096 - len) seg = [] then segs else drop (4096 - len) seg # segs)\<rparr>)\<rparr>"]
            h n Cons by (auto simp: recv_bytes_def)
      qed
    qed
    obtain buf1 where "f fd buf1 (len + length bs) k1 = Some r"
      using body rb by (auto simp: bind_Some_iff)
    from ih [OF this] h1 show False by simp
  qed
  then have "recv_loop fd buf len k \<noteq> Some r" for r using assms by metis
  then show ?thesis by (meson not_None_eq)
qed

section \<open>The invariant\<close>

lemma decode_kernel:
  "decode_packet ev k = Some (p, r, v, ev', k') \<Longrightarrow> k' = k \<or> k' = close_fd (ev_fd ev) k"
  by (auto simp: decode_packet_def Let_def bind_Some_iff split: if_splits)

lemma request_kernel:
  assumes "websocket_request sha1 b64 ov ev k = Some (ev', k')"
  shows "k' = k \<or> k' = close_fd (ev_fd ev) k"
  using assms decode_kernel
  by (fastforce simp: websocket_request_def transmission_def bind_Some_iff split: if_splits)

lemma recv_keeps:
  assumes ok: "reactor_ok s" and i: "interest s fd = Some (p, e)" and r: "ws_recv_cb sha1 b64 ov fd s = Some (n, s')"
  shows "keeps s fd s'"
proof -
  note d = reactor_okD [OF ok i]
  from r find_armed [OF ok i] obtain buf len k where
    l: "recv_loop fd (replicate BUFFER_LENGTH 0) 0 (s_kernel s) = Some (buf, len, k)"
    by (auto simp: ws_recv_cb_def bind_Some_iff)
  note fr = recv_loop_frame [OF l]
  let ?p = "slot_of fd"
  define s2 where "s2 = (upd_ev ?p (\<lambda>ev. ev\<lparr>ev_buffer := buf\<rparr>) s)\<lparr>s_kernel := k\<rparr>"
  define s3 where "s3 = snd (nty_event_del ?p s2)"
  have ok2: "reactor_ok s2" unfolding s2_def
    by (rule ok_same_kernel, rule upd_data_ok [OF ok d(6)]) (use fr in \<open>simp_all add: same_arming_def frame_simps\<close>)
  have i2: "interest s2 fd = Some (?p, e)" using fr i d(5) by (simp add: s2_def)
  note d3 = del_keeps [OF ok2 i2, folded s3_def]
  have ok3: "reactor_ok s3" using d3(1) by (simp add: keeps_def)
  have k3: "keeps s fd s3"
    using keeps_trans [OF keeps_same [OF ok2] d3(1)] fr by (simp add: s2_def)
  have len3: "fst ?p < length (evblk (s_reactor s3))" "fd \<noteq> epfd (s_reactor s3)"
    using d3(3,4) d(3,6) by (simp_all add: s2_def frame_simps)
  show ?thesis
  proof (cases "len > 0")
    case True
    obtain b ev1 k1 where w: "websocket_request sha1 b64 ov ((ev_at s3 ?p)\<lparr>ev_length := int len, ev_buffer := b\<rparr>)
         (s_kernel s3) = Some (ev1, k1)"
      and s': "s' = snd (nty_event_add EPOLLOUT ?p (upd_ev ?p (nty_event_set fd SendCB True)
        ((upd_ev ?p (\<lambda>_. ev1) s3)\<lparr>s_kernel := k1\<rparr>)))"
      using r l find_armed [OF ok i] True by (auto simp: ws_recv_cb_def Let_def bind_Some_iff s2_def s3_def)
    let ?s4 = "(upd_ev ?p (\<lambda>_. ev1) s3)\<lparr>s_kernel := k1\<rparr>"
    have u: "reactor_ok (upd_ev ?p (\<lambda>_. ev1) s3)" by (rule upd_ev_ok [OF ok3 d3(2) d(4) len3(1)])
    have "k1 = s_kernel s3 \<or> k1 = close_fd fd (s_kernel s3)" using request_kernel [OF w] d3(5) by simp
    then have k4: "keeps s3 fd ?s4 \<and> interest ?s4 fd = None"
    proof
      assume "k1 = s_kernel s3"
      then show ?thesis using ok_same_kernel [OF u] d3(2) by (simp add: keeps_def frame_simps)
    next
      assume "k1 = close_fd fd (s_kernel s3)"
      then show ?thesis using close_kernel_ok [OF u] len3(2) by (simp add: keeps_def frame_simps close_fd_def)
    qed
    then have "keeps ?s4 fd s'" unfolding s'
      by (intro rearm_keeps) (use d(4) len3 in \<open>simp_all add: keeps_def frame_simps fits_def\<close>)
    then show ?thesis using k3 k4 keeps_trans by blast
  next
    case False
    then have "s' = upd_kernel (close_fd fd) s3"
      using r l find_armed [OF ok i] d3(5) by (auto simp: ws_recv_cb_def Let_def s2_def s3_def)
    then show ?thesis using close_keeps [OF ok3 len3(2)] k3 keeps_trans by blast
  qed
qed

lemma send_keeps:
  assumes ok: "reactor_ok s" and i: "interest s fd = Some (p, e)" and r: "ws_send_cb fd s = Some (n, s')"
  shows "keeps s fd s'"
proof -
  note d = reactor_okD [OF ok i]
  let ?p = "slot_of fd"
  from r find_armed [OF ok i] obtain bs where
    bs: "read_at 0 (nat (ev_length (ev_at s ?p))) (ev_buffer (ev_at s ?p)) = Some bs" "\<not> ev_length (ev_at s ?p) < 0"
    by (auto simp: ws_send_cb_def Let_def bind_Some_iff split: if_splits)
  obtain n' k where "send_bytes fd bs (s_kernel s) = (n', k)" by fastforce
  with r find_armed [OF ok i] bs have sb: "send_bytes fd bs (s_kernel s) = (n, k)" and
    s': "s' = (let s2 = snd (nty_event_del ?p (s\<lparr>s_kernel := k\<rparr>)) in
      if n > 0 then snd (nty_event_add EPOLLIN ?p (upd_ev ?p (nty_event_set fd RecvCB True) s2))
      else upd_kernel (close_fd (ev_fd (ev_at s2 ?p))) s2)"
    by (auto simp: ws_send_cb_def Let_def split: if_splits)
  note fr = send_bytes_frame [OF sb]
  let ?s1 = "s\<lparr>s_kernel := k\<rparr>"
  have ok1: "reactor_ok ?s1" by (rule ok_same_kernel [OF ok]) (use fr in simp_all)
  have i1: "interest ?s1 fd = Some (?p, e)" using fr i d(5) by simp
  note d3 = del_keeps [OF ok1 i1]
  let ?s2 = "snd (nty_event_del ?p ?s1)"
  have ok2: "reactor_ok ?s2" using d3(1) by (simp add: keeps_def)
  have k2: "keeps s fd ?s2" using keeps_trans [OF keeps_same [OF ok1] d3(1)] fr by simp
  have "keeps ?s2 fd s'" unfolding s' Let_def d3(5)
    using rearm_keeps [OF ok2 d3(2) d(4), of EPOLLIN RecvCB] close_keeps [OF ok2] d(3,6) d3(3,4)
    by (simp add: fits_def)
  then show ?thesis using k2 keeps_trans by blast
qed

lemma accept_keeps:
  assumes ok: "reactor_ok s" and r: "ws_accept_cb fd arg s = Some (n, s')"
  shows "reactor_ok s' \<and> (\<forall>fd' x. interest s fd' = Some x \<longrightarrow> interest s' fd' = Some x)"
proof (cases "arg \<and> fst (accept_conn fd (s_kernel s)) \<noteq> - 1")
  case False
  then show ?thesis using r ok by (auto simp: ws_accept_cb_def split: prod.splits if_splits)
next
  case True
  obtain c k where a: "accept_conn fd (s_kernel s) = (c, k)" by fastforce
  then have "c \<noteq> - 1" using True by simp
  note ac = accept_ok [OF ok a this]
  show ?thesis
  proof (cases "k_fcntl k c")
    case False
    then show ?thesis using r a \<open>c \<noteq> - 1\<close> True ac(1,4) by (auto simp: ws_accept_cb_def)
  next
    case fc: True
    let ?s0 = "s\<lparr>s_kernel := k\<rparr>"
    obtain p s1 where f: "ntyreactor_find_event_idx ws_zero c ?s0 = Some (p, s1)"
      and s': "s' = snd (nty_event_add EPOLLIN p (upd_ev p (\<lambda>ev. ev\<lparr>ev_status := 0\<rparr>)
        (upd_ev p (nty_event_set c RecvCB True) s1)))"
      using r a \<open>c \<noteq> - 1\<close> True fc by (auto simp: ws_accept_cb_def Let_def bind_Some_iff)
    note fo = find_ok [OF ac(1,2) f]
    have i1: "interest s1 = interest s" "s_kernel s1 = k" "epfd (s_reactor s1) = epfd (s_reactor s)"
      using fo(3) ac(4) by (simp_all add: same_but_table_def)
    let ?s2 = "upd_ev (slot_of c) (\<lambda>ev. ev\<lparr>ev_status := 0\<rparr>) s1"
    have sw: "upd_ev p (\<lambda>ev. ev\<lparr>ev_status := 0\<rparr>) (upd_ev p (nty_event_set c RecvCB True) s1) =
        upd_ev (slot_of c) (nty_event_set c RecvCB True) ?s2"
      unfolding fo(1) upd_ev_twice [OF fo(4)]
      by (rule arg_cong [of _ _ "\<lambda>f. upd_ev (slot_of c) f s1"], intro ext ntyevent.equality)
        (simp_all add: nty_event_set_def)
    have n: "interest s1 c = None" using i1(1) ac(5) by simp
    have ok2: "reactor_ok ?s2" by (rule upd_ev_ok [OF fo(2) n ac(2) fo(4)])
    have "keeps ?s2 c s'" unfolding s' sw unfolding fo(1)
      by (rule rearm_keeps [OF ok2]) (use n ac(2,6) fo(4) i1(3) in \<open>simp_all add: frame_simps fits_def\<close>)
    then show ?thesis using i1(1) ac(5) unfolding keeps_def frame_simps by (metis option.distinct(1))
  qed
qed

interpretation ws: reactor_handlers "ws_handlers sha1 b64 ov" for sha1 b64 ov
proof
  fix s :: "ws_event server" and fd p e evs r s'
  assume ok: "reactor_ok s" and i: "interest s fd = Some (p, e)"
    and h: "ws_handlers sha1 b64 ov (ev_callback (ev_at s p)) fd evs True s = Some (r, s')"
  have k: "keeps s fd s'"
  proof (cases "ev_callback (ev_at s p)")
    case NoCB
    then show ?thesis using h by simp
  next
    case RecvCB
    then show ?thesis using h recv_keeps [OF ok i] by simp
  next
    case SendCB
    then show ?thesis using h send_keeps [OF ok i] by simp
  next
    case AcceptCB
    then show ?thesis using h accept_keeps [OF ok] by (simp add: keeps_def)
  qed
  then show "reactor_ok s'" by (simp add: keeps_def)
  show "interest s' fd' = Some x" if "fd' \<noteq> fd" "interest s fd' = Some x" for fd' x
    using k that unfolding keeps_def by blast
qed

end
