(* ===== verification/WebSocket_Frames.thy ===== *)
theory WebSocket_Frames
  imports WebSocket_Reactor
begin

text \<open>
  Frames on the wire and in the buffer: masking undoes itself, a masked frame of a client is decoded to
  its payload and encoded to the unmasked frame of the server in the same buffer; and the two
  callbacks that receive a request and send the answer, step by step.
\<close>

section \<open>Masking\<close>

primrec mask_from :: "nat \<Rightarrow> byte list \<Rightarrow> byte list \<Rightarrow> byte list" where
  "mask_from i key [] = []"
| "mask_from i key (b # bs) = (b XOR key ! (i mod 4)) # mask_from (Suc i) key bs"

lemma mask_from_length [simp]: "length (mask_from i key bs) = length bs"
  by (induction bs arbitrary: i) auto

lemma mask_from_twice [simp]: "mask_from i key (mask_from i key bs) = bs"
  by (induction bs arbitrary: i) (auto simp: xor.assoc)

lemma umask_loop_masks:
  assumes "length A = m" and "length key = 4" and "length A + 4 + length B = p"
  shows "umask_loop (length pre) (int (length pre + length todo)) p m (A @ key @ B @ pre @ todo @ C) =
    Some (A @ key @ B @ pre @ mask_from (length pre) key todo @ C)"
  using assms
proof (induction todo arbitrary: pre)
  case Nil
  then show ?case by (subst umask_loop.simps) simp
next
  case (Cons b bs)
  let ?buf = "A @ key @ B @ pre @ (b # bs) @ C"
  let ?b = "b XOR key ! (length pre mod 4)"
  have b: "byte_at ?buf (p + length pre) = Some b"
    by (rule byte_at_here [of _ "A @ key @ B @ pre" b "bs @ C"]) (use Cons.prems in auto)
  have k: "byte_at ?buf (m + length pre mod 4) = Some (key ! (length pre mod 4))"
    using Cons.prems by (auto simp: byte_at_def nth_append)
  have "(A @ key @ B @ pre) @ (b # bs) @ C = ?buf" by simp
  moreover have "((A @ key @ B @ pre) @ (b # bs) @ C)[length (A @ key @ B @ pre) + 0 := ?b] =
      (A @ key @ B @ pre) @ (?b # bs) @ C" by (simp only: list_update_append) simp
  moreover have "p + length pre = length (A @ key @ B @ pre) + 0" using Cons.prems by simp
  ultimately have u: "?buf[p + length pre := ?b] = A @ key @ B @ (pre @ [?b]) @ bs @ C" by (simp add: add.assoc)
  have "umask_loop (length (pre @ [?b])) (int (length (pre @ [?b]) + length bs)) p m (A @ key @ B @ (pre @ [?b]) @ bs @ C) =
      Some (A @ key @ B @ (pre @ [?b]) @ mask_from (length (pre @ [?b])) key bs @ C)"
    by (rule Cons.IH) (use Cons.prems in auto)
  then show ?case using b k u by (subst umask_loop.simps) simp
qed

lemma umask_masks:
  assumes "length A = m" and "length key = 4" and "length A + 4 + length B = p" and "n = int (length data)"
  shows "umask p n m (A @ key @ B @ data @ C) = Some (A @ key @ B @ mask_from 0 key data @ C)"
  using umask_loop_masks [OF assms(1-3), of "[]" data C] assms(4) by (simp add: umask_def)

section \<open>The frames\<close>

text \<open>The first byte is arbitrary; the client masks what it sends.\<close>

definition client_frame :: "byte \<Rightarrow> byte list \<Rightarrow> byte list \<Rightarrow> byte list" where
  "client_frame b0 key payload =
    (if length payload < 126 then [b0, 128 OR of_nat (length payload)]
     else [b0, 254] @ net16 (of_nat (length payload))) @ key @ mask_from 0 key payload"

definition server_frame :: "byte list \<Rightarrow> byte list" where
  "server_frame payload =
    (if length payload < 126 then [0x81, of_nat (length payload)]
     else [0x81, 126] @ net16 (of_nat (length payload))) @ payload"

definition copies_forward :: "overlap \<Rightarrow> bool" where
  "copies_forward ov \<longleftrightarrow> (\<forall>d s n buf. d \<le> s \<longrightarrow> s + n \<le> length buf \<longrightarrow>
     ov d s n buf = write_at d (take n (drop s buf)) buf)"

lemma copy_forward:
  assumes "copies_forward ov" and "d \<le> s" and "s + n \<le> length buf"
  shows "copy_within ov d s n buf = write_at d (take n (drop s buf)) buf"
  using assms by (auto simp: copy_within_def copies_forward_def)

lemma hdr_len_mask:
  assumes "n < 127"
  shows "hdr_payload_len (128 OR of_nat n) = n" and "hdr_mask (128 OR of_nat n)"
    and "(of_nat n AND 127 :: byte) = of_nat n"
proof -
  have m: "(127 :: byte) = mask 7" by (simp add: mask_eq_exp_minus_1)
  show 1: "(of_nat n AND 127 :: byte) = of_nat n"
    using assms by (simp add: m flip: take_bit_eq_mask) (simp add: take_bit_of_nat take_bit_nat_def)
  have "(128 OR of_nat n :: byte) AND 127 = of_nat n AND 127"
    by (simp add: bit.conj_disj_distrib2)
  then show "hdr_payload_len (128 OR of_nat n) = n"
    using 1 assms by (simp add: hdr_payload_len_def unat_of_nat)
  show "hdr_mask (128 OR of_nat n)" by (simp add: hdr_mask_def bit_simps)
qed

lemma decode_short:
  assumes "ev_buffer ev = client_frame b0 key payload @ rest" and "hdr_opcode b0 \<noteq> 8"
    and "length key = 4" and "length payload < 126"
  shows "decode_packet ev k = Some (Some 6, int (length payload), length payload,
    ev\<lparr>ev_buffer := [b0, 128 OR of_nat (length payload)] @ key @ payload @ rest\<rparr>, k)"
proof -
  let ?b1 = "128 OR of_nat (length payload) :: byte"
  have b: "ev_buffer ev = [b0, ?b1] @ key @ [] @ mask_from 0 key payload @ rest"
    using assms(1,4) by (simp add: client_frame_def)
  then have "byte_at (ev_buffer ev) 0 = Some b0" "byte_at (ev_buffer ev) 1 = Some ?b1" by (simp_all add: byte_at_def)
  moreover have "umask 6 (int (length payload)) 2 (ev_buffer ev) = Some ([b0, ?b1] @ key @ [] @ payload @ rest)"
    unfolding b by (subst umask_masks) (use assms(3) in simp_all)
  ultimately show ?thesis
    using assms(2,4) hdr_len_mask [of "length payload"] by (simp add: decode_packet_def Let_def)
qed

lemma uint_of_nat16: "n < 65536 \<Longrightarrow> uint (of_nat n :: 16 word) = int n"
  by (simp add: uint_nat unat_of_nat)

lemma decode_126:
  assumes "ev_buffer ev = client_frame b0 key payload @ rest" and "hdr_opcode b0 \<noteq> 8"
    and "length key = 4" and "126 \<le> length payload" and "length payload < 65536"
  shows "decode_packet ev k = Some (Some 8, int (length payload), 126,
    ev\<lparr>ev_buffer := [b0, 254] @ bytes16 (of_nat (length payload)) @ key @ payload @ rest\<rparr>, k)"
proof -
  let ?w = "of_nat (length payload) :: 16 word"
  have b: "ev_buffer ev = [b0, 254] @ net16 ?w @ key @ mask_from 0 key payload @ rest"
    using assms(1,4) by (simp add: client_frame_def)
  then have 1: "byte_at (ev_buffer ev) 0 = Some b0" "byte_at (ev_buffer ev) 1 = Some 254" by (simp_all add: byte_at_def)
  have 2: "read16 (ev_buffer ev) 2 = Some (load16 (net16 ?w))"
    by (rule read16_here [OF b]) simp
  have 3: "write_at 2 (bytes16 ?w) (ev_buffer ev) = Some ([b0, 254] @ bytes16 ?w @ key @ mask_from 0 key payload @ rest)"
    by (rule write_at_here [OF b]) simp_all
  have 4: "umask 8 (int (length payload)) 4 ([b0, 254] @ bytes16 ?w @ key @ mask_from 0 key payload @ rest) =
      Some ([b0, 254] @ bytes16 ?w @ key @ payload @ rest)"
    using umask_masks [of "[b0, 254] @ bytes16 ?w" 4 key "[]" 8 _ "mask_from 0 key payload" rest] assms(3) by simp
  have 5: "hdr_payload_len 254 = 126" "hdr_mask 254" by (simp_all add: hdr_payload_len_def hdr_mask_def)
  show ?thesis
    using 1 2 3 4 5 assms(2) by (simp add: decode_packet_def Let_def htons_load16_net uint_of_nat16 [OF assms(5)])
qed

lemma copy_to_below:
  assumes "d + 4 = s" and "n \<le> 4 \<or> copies_forward ov" and "s + n \<le> length buf"
  shows "copy_within ov d s n buf = write_at d (take n (drop s buf)) buf"
proof (cases "copies_forward ov")
  case True
  then show ?thesis using copy_forward assms by (metis le_add1)
next
  case False
  then show ?thesis using assms by (auto simp: copy_within_def)
qed

lemma copy_overlaps:
  assumes "d + 4 = s" and "4 < n"
  shows "copy_within (\<lambda>d s n buf. None) d s n buf = None"
  using assms by (simp add: copy_within_def)

lemma encode_shape:
  assumes "length payload \<le> 4 \<or> copies_forward ov" and "length hdr = h" and "length gap = 4"
  shows "copy_within ov h (h + length gap) (length payload) (hdr @ gap @ payload @ rest) =
    Some (hdr @ payload @ drop (length payload) (gap @ payload @ rest))"
proof -
  let ?tail = "gap @ payload @ rest"
  have t: "take (length payload) (drop (h + length gap) (hdr @ ?tail)) = payload" using assms(2) by simp
  have "write_at h payload (hdr @ ?tail) = Some (hdr @ payload @ drop (length payload) ?tail)"
    by (rule write_at_here [of _ hdr "take (length payload) ?tail"]) (use assms(2) in \<open>simp_all del: take_append drop_append\<close>)
  then show ?thesis using assms(2) copy_to_below [OF _ assms(1), of h "h + length gap" "hdr @ ?tail"] assms(3) t by simp
qed

lemma encode_short:
  assumes "length payload \<le> 4 \<or> copies_forward ov" and "ev_buffer ev = [b0, b1] @ key @ payload @ rest" and "length key = 4"
    and "length payload < 126"
  shows "encode_packet ov ev (int (length payload)) (length payload) (Some 6) =
    Some (int (length (server_frame payload)),
      ev\<lparr>ev_buffer := server_frame payload @ drop (length payload) (key @ payload @ rest)\<rparr>)"
proof -
  let ?hdr = "[0x81, of_nat (length payload)] :: byte list"
  have w: "write_at 0 ?hdr (ev_buffer ev) = Some (?hdr @ key @ payload @ rest)"
    using write_at_here [of _ "[]" "[b0, b1]" "key @ payload @ rest" 0 ?hdr] assms(2) by simp
  have c: "copy_within ov 2 6 (length payload) (?hdr @ key @ payload @ rest) =
      Some (?hdr @ payload @ drop (length payload) (key @ payload @ rest))"
    using encode_shape [OF assms(1) _ assms(3), of ?hdr 2 rest] assms(3) by simp
  have a: "(of_nat (length payload) AND 127 :: byte) = of_nat (length payload)" using assms(4) by (intro hdr_len_mask) simp
  show ?thesis using w c assms(4) unfolding encode_packet_def a by (simp add: server_frame_def)
qed

lemma encode_126:
  assumes "length payload \<le> 4 \<or> copies_forward ov" and "ev_buffer ev = [b0, b1] @ x @ key @ payload @ rest" and "length key = 4"
    and "length x = 2" and "126 \<le> length payload"
  shows "encode_packet ov ev (int (length payload)) 126 (Some 8) =
    Some (int (length (server_frame payload)),
      ev\<lparr>ev_buffer := server_frame payload @ drop (length payload) (key @ payload @ rest)\<rparr>)"
proof -
  let ?n = "net16 (of_nat (length payload))"
  let ?hdr = "[0x81, 126] @ ?n"
  have w1: "write_at 0 [0x81, 126] (ev_buffer ev) = Some ([0x81, 126] @ x @ key @ payload @ rest)"
    using write_at_here [of _ "[]" "[b0, b1]" "x @ key @ payload @ rest" 0 "[0x81, 126]"] assms(2) by simp
  have w2: "write_at 2 ?n ([0x81, 126] @ x @ key @ payload @ rest) = Some (?hdr @ key @ payload @ rest)"
    using write_at_here [of _ "[0x81, 126]" x "key @ payload @ rest" 2 ?n] assms(4) by simp
  have c: "copy_within ov 4 8 (length payload) (?hdr @ key @ payload @ rest) =
      Some (?hdr @ payload @ drop (length payload) (key @ payload @ rest))"
    using encode_shape [OF assms(1) _ assms(3), of ?hdr 4 rest] assms(3) by simp
  show ?thesis using w1 w2 c assms(5) by (simp add: encode_packet_def server_frame_def bytes16_htons)
qed

lemma transmission_echo:
  assumes "length payload \<le> 4 \<or> copies_forward ov" and "ev_buffer ev = client_frame b0 key payload @ rest" and "hdr_opcode b0 \<noteq> 8"
    and "length key = 4" and "length payload < 65536"
  shows "transmission ov ev k = Some (ev\<lparr>ev_buffer := server_frame payload @ drop (length payload) (key @ payload @ rest),
    ev_length := int (length (server_frame payload))\<rparr>, k)"
proof (cases "length payload < 126")
  case True
  show ?thesis unfolding transmission_def decode_short [OF assms(2-4) True]
    by (simp add: encode_short [OF assms(1) _ assms(4) True, where rest = rest])
next
  case False
  then have "126 \<le> length payload" by simp
  then show ?thesis unfolding transmission_def decode_126 [OF assms(2-4) \<open>126 \<le> length payload\<close> assms(5)]
    by (simp add: encode_126 [OF assms(1) _ assms(4), where rest = rest])
qed

text \<open>With a memcpy that may not be used on areas that overlap, a payload of more than four bytes has no answer.\<close>

lemma encode_overlaps:
  assumes "4 < length payload" and "p = (if v < 126 then 6 else 8)" and "v \<le> 126"
  shows "encode_packet (\<lambda>d s n buf. None) ev (int (length payload)) v (Some p) = None"
  using assms by (auto simp: encode_packet_def copy_overlaps split: bind_split)

lemma transmission_overlaps:
  assumes "ev_buffer ev = client_frame b0 key payload @ rest" and "hdr_opcode b0 \<noteq> 8"
    and "length key = 4" and "length payload < 65536" and "4 < length payload"
  shows "transmission (\<lambda>d s n buf. None) ev k = None"
proof (cases "length payload < 126")
  case True
  show ?thesis unfolding transmission_def decode_short [OF assms(1-3) True]
    using encode_overlaps [OF assms(5), of 6 "length payload"] True by simp
next
  case False
  then have "126 \<le> length payload" by simp
  then show ?thesis unfolding transmission_def decode_126 [OF assms(1-3) \<open>126 \<le> length payload\<close> assms(4)]
    using encode_overlaps [OF assms(5), of 8 126] by simp
qed

end
