(* ===== verification/WebSocket_Echo.thy ===== *)
theory WebSocket_Echo
  imports WebSocket_Frames
begin

text \<open>
  A connection of the WebSocket server in service: what the receiving and the sending callback do to
  the event, the registration and the output of the connection, for any request that the state machine
  answers; and the properties of the frames.
\<close>

section \<open>The callbacks, step by step\<close>

definition request_event :: "ws_event \<Rightarrow> byte list \<Rightarrow> ws_event \<Rightarrow> bool" where
  "request_event ev0 data ev \<longleftrightarrow> ev_buffer ev = data @ replicate (BUFFER_LENGTH - length data) 0 \<and>
     ev_length ev = int (length data) \<and> state_machine ev = state_machine ev0 \<and> ev_status ev = 0"

lemma write_zero:
  assumes "length data < BUFFER_LENGTH"
  shows "write_at (length data) [0] (data @ replicate (BUFFER_LENGTH - length data) 0) =
    Some (data @ replicate (BUFFER_LENGTH - length data) 0)"
proof -
  obtain n where n: "BUFFER_LENGTH - length data = Suc n" using assms by (metis Suc_diff_Suc)
  show ?thesis unfolding n by (subst write_at_here [of _ data "[0]" "replicate n 0"]) simp_all
qed

lemma recv_reads:
  fixes s :: "ws_event server"
  assumes ok: "reactor_ok s" and i: "interest s fd = Some (p, e)"
    and segs: "\<not> c_eof (k_conn (s_kernel s) fd)" "\<forall>seg\<in>set (c_in (k_conn (s_kernel s) fd)). seg \<noteq> []"
    and data: "concat (c_in (k_conn (s_kernel s) fd)) = data" "data \<noteq> []" "length data < BUFFER_LENGTH"
  shows "\<exists>s3 ev. request_event (ev_at s p) data ev \<and> reactor_ok s3 \<and> interest s3 fd = None \<and>
    fst (slot_of fd) < length (evblk (s_reactor s3)) \<and> fd \<noteq> epfd (s_reactor s3) \<and>
    k_conn (s_kernel s3) fd = (k_conn (s_kernel s) fd)\<lparr>c_in := []\<rparr> \<and> k_out (s_kernel s3) = k_out (s_kernel s) \<and>
    fd \<in> set (k_open (s_kernel s3)) \<and> ws_recv_cb sha1 b64 ov fd s = do {
      (ev1, k1) \<leftarrow> websocket_request sha1 b64 ov ev (s_kernel s3);
      let s5 = upd_ev p (nty_event_set fd SendCB True) ((upd_ev p (\<lambda>_. ev1) s3)\<lparr>s_kernel := k1\<rparr>);
      Some (int (length data), snd (nty_event_add EPOLLOUT p s5)) }"
proof -
  note d = reactor_okD [OF ok i]
  let ?p = "slot_of fd" and ?c = "k_conn (s_kernel s) fd"
  define buf where "buf = data @ replicate (BUFFER_LENGTH - length data) (0 :: byte)"
  define k where "k = (s_kernel s)\<lparr>k_conn := (k_conn (s_kernel s))(fd := ?c\<lparr>c_in := []\<rparr>)\<rparr>"
  have l: "recv_loop fd (replicate BUFFER_LENGTH 0) 0 (s_kernel s) = Some (buf, length data, k)"
    using recv_loop_reads [of "s_kernel s" fd "c_in ?c" "[]" "replicate BUFFER_LENGTH 0"] segs data
    by (simp add: buf_def k_def)
  define s2 where "s2 = (upd_ev ?p (\<lambda>ev. ev\<lparr>ev_buffer := buf\<rparr>) s)\<lparr>s_kernel := k\<rparr>"
  define s3 where "s3 = snd (nty_event_del ?p s2)"
  have fr: "k_interest k = interest s" "k_open k = k_open (s_kernel s)" "k_out k = k_out (s_kernel s)" by (simp_all add: k_def)
  have ok2: "reactor_ok s2" unfolding s2_def
    by (rule ok_same_kernel, rule upd_data_ok [OF ok d(6)]) (use fr in \<open>simp_all add: same_arming_def frame_simps\<close>)
  have i2: "interest s2 fd = Some (?p, e)" using fr i d(5) by (simp add: s2_def)
  note dk = del_keeps [OF ok2 i2, folded s3_def]
  note da = del_armed [OF ok2 i2]
  have ok3: "reactor_ok s3" using dk(1) by (simp add: keeps_def)
  have in3: "fst ?p < length (evblk (s_reactor s3))" using dk(3) d(6) by (simp add: s2_def frame_simps)
  have fd3: "fd \<noteq> epfd (s_reactor s3)" using dk(4) d(3) by (simp add: s2_def frame_simps)
  have in2: "fst ?p < length (evblk (s_reactor s2))" using d(6) by (simp add: s2_def frame_simps)
  have k3: "k_conn (s_kernel s3) fd = ?c\<lparr>c_in := []\<rparr>" "k_out (s_kernel s3) = k_out (s_kernel s)"
      "fd \<in> set (k_open (s_kernel s3))"
    using d(1) unfolding s3_def da by (simp_all add: s2_def k_def frame_simps)
  let ?ev = "(ev_at s3 ?p)\<lparr>ev_length := int (length data), ev_buffer := buf\<rparr>"
  have "ev_at s3 ?p = (ev_at s2 ?p)\<lparr>ev_status := 0\<rparr>"
    using ev_at_upd [OF in2] by (simp add: s3_def da)
  moreover have "ev_at s2 ?p = (ev_at s ?p)\<lparr>ev_buffer := buf\<rparr>" using ev_at_upd [OF d(6)] by (simp add: s2_def)
  ultimately have rq: "request_event (ev_at s p) data ?ev" using d(5) by (simp add: request_event_def buf_def)
  have "ws_recv_cb sha1 b64 ov fd s = do {
      (ev1, k1) \<leftarrow> websocket_request sha1 b64 ov ?ev (s_kernel s3);
      let s5 = upd_ev p (nty_event_set fd SendCB True) ((upd_ev p (\<lambda>_. ev1) s3)\<lparr>s_kernel := k1\<rparr>);
      Some (int (length data), snd (nty_event_add EPOLLOUT p s5)) }"
    using find_armed [OF ok i, of ws_zero] l write_zero [OF data(3)] data(2) d(5)
    by (simp add: ws_recv_cb_def Let_def flip: buf_def s2_def s3_def)
  then show ?thesis using rq ok3 dk(2) in3 fd3 k3 by blast
qed

lemma recv_fails:
  fixes s :: "ws_event server"
  assumes "reactor_ok s" and "interest s fd = Some (p, e)"
    and "\<not> c_eof (k_conn (s_kernel s) fd)" and "\<forall>seg\<in>set (c_in (k_conn (s_kernel s) fd)). seg \<noteq> []"
    and "concat (c_in (k_conn (s_kernel s) fd)) = data" and "data \<noteq> []" and "length data < BUFFER_LENGTH"
    and "\<And>ev k. request_event (ev_at s p) data ev \<Longrightarrow> websocket_request sha1 b64 ov ev k = None"
  shows "ws_recv_cb sha1 b64 ov fd s = None"
  using recv_reads [OF assms(1-7), of sha1 b64 ov] assms(8) by fastforce

lemma recv_step:
  fixes s :: "ws_event server"
  assumes ok: "reactor_ok s" and i: "interest s fd = Some (p, e)"
    and segs: "\<not> c_eof (k_conn (s_kernel s) fd)" "\<forall>seg\<in>set (c_in (k_conn (s_kernel s) fd)). seg \<noteq> []"
    and data: "concat (c_in (k_conn (s_kernel s) fd)) = data" "data \<noteq> []" "length data < BUFFER_LENGTH"
    and req: "\<And>ev k. request_event (ev_at s p) data ev \<Longrightarrow>
      \<exists>ev1. websocket_request sha1 b64 ov ev k = Some (ev1, k) \<and> ev_status ev1 = 0 \<and> P ev1"
  shows "\<exists>s1 ev1. ws_recv_cb sha1 b64 ov fd s = Some (int (length data), s1) \<and> P ev1 \<and> reactor_ok s1 \<and>
    ev_at s1 p = (nty_event_set fd SendCB True ev1)\<lparr>ev_events := EPOLLOUT, ev_status := 1\<rparr> \<and>
    interest s1 fd = Some (p, EPOLLOUT) \<and> k_out (s_kernel s1) = k_out (s_kernel s) \<and>
    k_conn (s_kernel s1) fd = (k_conn (s_kernel s) fd)\<lparr>c_in := []\<rparr>"
proof -
  note d = reactor_okD [OF ok i]
  let ?p = "slot_of fd" and ?c = "k_conn (s_kernel s) fd"
  obtain s3 ev where rq: "request_event (ev_at s p) data ev" and ok3: "reactor_ok s3" and dk2: "interest s3 fd = None"
    and in3: "fst ?p < length (evblk (s_reactor s3))" and fd3: "fd \<noteq> epfd (s_reactor s3)"
    and k3: "k_conn (s_kernel s3) fd = ?c\<lparr>c_in := []\<rparr>" "k_out (s_kernel s3) = k_out (s_kernel s)" "fd \<in> set (k_open (s_kernel s3))"
    and r3: "ws_recv_cb sha1 b64 ov fd s = do {
      (ev1, k1) \<leftarrow> websocket_request sha1 b64 ov ev (s_kernel s3);
      let s5 = upd_ev p (nty_event_set fd SendCB True) ((upd_ev p (\<lambda>_. ev1) s3)\<lparr>s_kernel := k1\<rparr>);
      Some (int (length data), snd (nty_event_add EPOLLOUT p s5)) }"
    using recv_reads [OF ok i segs data, of sha1 b64 ov] by blast
  obtain ev1 where w: "websocket_request sha1 b64 ov ev (s_kernel s3) = Some (ev1, s_kernel s3)"
    and st: "ev_status ev1 = 0" and P: "P ev1" using req [OF rq] by blast
  define s4 where "s4 = (upd_ev ?p (\<lambda>_. ev1) s3)\<lparr>s_kernel := s_kernel s3\<rparr>"
  have s4: "s4 = upd_ev ?p (\<lambda>_. ev1) s3" by (simp add: s4_def upd_ev_def)
  have ok4: "reactor_ok s4" unfolding s4 by (rule upd_ev_ok [OF ok3 dk2 d(4) in3])
  have i4: "interest s4 fd = None" using dk2 by (simp add: s4 frame_simps)
  have in4: "fst ?p < length (evblk (s_reactor s4))" using in3 by (simp add: s4 frame_simps)
  have e4: "ev_at s4 ?p = ev1" using ev_at_upd [OF in3] by (simp add: s4)
  define s5 where "s5 = snd (nty_event_add EPOLLOUT ?p (upd_ev ?p (nty_event_set fd SendCB True) s4))"
  have ok5: "reactor_ok s5" unfolding s5_def
    by (rule add_ok [OF ok4 i4 d(4) in4]) (use fd3 in \<open>simp_all add: fits_def s4 frame_simps\<close>)
  have a: "s5 = (upd_ev ?p (\<lambda>ev. (nty_event_set fd SendCB True ev)\<lparr>ev_events := EPOLLOUT, ev_status := 1\<rparr>) s4)
      \<lparr>s_kernel := (s_kernel s4)\<lparr>k_interest := (interest s4)(fd \<mapsto> (?p, EPOLLOUT))\<rparr>\<rparr>"
    using add_result [OF ok4 i4 d(4) in4, of EPOLLOUT SendCB] st k3(3) by (simp add: s5_def e4 Let_def) (simp add: s4 frame_simps)
  have r: "ws_recv_cb sha1 b64 ov fd s = Some (int (length data), s5)"
    using w d(5) by (simp add: r3 Let_def s5_def s4_def)
  have "ev_at s5 p = (nty_event_set fd SendCB True ev1)\<lparr>ev_events := EPOLLOUT, ev_status := 1\<rparr>"
    using ev_at_upd [OF in4] d(5) e4 by (simp add: a)
  moreover have "interest s5 fd = Some (p, EPOLLOUT)" using d(5) by (simp add: a)
  moreover have "k_out (s_kernel s5) = k_out (s_kernel s)" "k_conn (s_kernel s5) fd = ?c\<lparr>c_in := []\<rparr>"
    using k3 by (simp_all add: a s4 frame_simps)
  ultimately show ?thesis using r P ok5 by blast
qed

lemma send_step:
  assumes ok: "reactor_ok s" and i: "interest s fd = Some (p, e)"
    and bs: "read_at 0 (nat (ev_length (ev_at s p))) (ev_buffer (ev_at s p)) = Some bs" "0 < ev_length (ev_at s p)"
    and room: "length bs \<le> c_room (k_conn (s_kernel s) fd)"
  shows "\<exists>s1. ws_send_cb fd s = Some (int (length bs), s1) \<and> reactor_ok s1 \<and> interest s1 fd = Some (p, EPOLLIN) \<and>
    ev_at s1 p = (nty_event_set fd RecvCB True (ev_at s p))\<lparr>ev_events := EPOLLIN, ev_status := 1\<rparr> \<and>
    k_out (s_kernel s1) fd = k_out (s_kernel s) fd @ bs"
proof -
  note d = reactor_okD [OF ok i]
  let ?p = "slot_of fd"
  have ne: "bs \<noteq> []" "0 < length bs" using bs by (auto simp: read_at_def split: if_splits)
  obtain n k where sb: "send_bytes fd bs (s_kernel s) = (n, k)" by fastforce
  have n: "n = int (length bs)" and out: "k_out k fd = k_out (s_kernel s) fd @ bs"
    using sb room ne by (auto simp: send_bytes_def Let_def)
  note fr = send_bytes_frame [OF sb]
  define s1 where "s1 = s\<lparr>s_kernel := k\<rparr>"
  have ok1: "reactor_ok s1" unfolding s1_def by (rule ok_same_kernel [OF ok]) (use fr in simp_all)
  have i1: "interest s1 fd = Some (?p, e)" using fr i d(5) by (simp add: s1_def)
  define s2 where "s2 = snd (nty_event_del ?p s1)"
  note dk = del_keeps [OF ok1 i1, folded s2_def]
  note da = del_armed [OF ok1 i1]
  have ok2: "reactor_ok s2" using dk(1) by (simp add: keeps_def)
  have in1: "fst ?p < length (evblk (s_reactor s1))" using d(6) by (simp add: s1_def)
  have in2: "fst ?p < length (evblk (s_reactor s2))" using dk(3) in1 by simp
  have e2: "ev_at s2 ?p = (ev_at s ?p)\<lparr>ev_status := 0\<rparr>" using ev_at_upd [OF in1] by (simp add: s2_def da) (simp add: s1_def)
  have o2: "fd \<in> set (k_open (s_kernel s2))" "k_out (s_kernel s2) fd = k_out (s_kernel s) fd @ bs"
    using d(1) fr out unfolding s2_def da by (simp_all add: s1_def frame_simps)
  define s3 where "s3 = snd (nty_event_add EPOLLIN ?p (upd_ev ?p (nty_event_set fd RecvCB True) s2))"
  have ok3: "reactor_ok s3" unfolding s3_def
    by (rule add_ok [OF ok2 dk(2) d(4) in2]) (use d(3) dk(4) in \<open>simp_all add: fits_def s1_def\<close>)
  have a: "s3 = (upd_ev ?p (\<lambda>ev. (nty_event_set fd RecvCB True ev)\<lparr>ev_events := EPOLLIN, ev_status := 1\<rparr>) s2)
      \<lparr>s_kernel := (s_kernel s2)\<lparr>k_interest := (interest s2)(fd \<mapsto> (?p, EPOLLIN))\<rparr>\<rparr>"
    using add_result [OF ok2 dk(2) d(4) in2, of EPOLLIN RecvCB] o2 by (simp add: s3_def e2 Let_def)
  have "ws_send_cb fd s = Some (int (length bs), s3)"
    using find_armed [OF ok i, of ws_zero] bs n sb ne d(5)
    by (simp add: ws_send_cb_def Let_def flip: s1_def s2_def) (simp add: s3_def)
  moreover have "interest s3 fd = Some (p, EPOLLIN)" "k_out (s_kernel s3) fd = k_out (s_kernel s) fd @ bs"
    using d(5) o2 by (simp_all add: a)
  moreover have "ev_at s3 p = (nty_event_set fd RecvCB True (ev_at s2 p))\<lparr>ev_events := EPOLLIN, ev_status := 1\<rparr>"
    using ev_at_upd [OF in2] d(5) by (simp add: a)
  then have "ev_at s3 p = (nty_event_set fd RecvCB True (ev_at s p))\<lparr>ev_events := EPOLLIN, ev_status := 1\<rparr>"
    using e2 d(5) by (simp add: nty_event_set_def)
  ultimately show ?thesis using ok3 by blast
qed

section \<open>The properties of the frames\<close>

definition sample_overlap :: overlap where
  "sample_overlap d s n buf = write_at d (take n (drop s buf)) buf"

lemma sample_overlap_ok: "copies_forward sample_overlap"
  by (simp add: copies_forward_def sample_overlap_def)

text \<open>C18: on a connection that has done the handshake, a masked frame of a client with a payload of up to 4,087 bytes, in whatever segments it arrives, is answered by the unmasked frame with the same payload, and the connection waits for input again, whenever the payload has at most four bytes or memcpy copies correctly to a lower address that overlaps the source; with a memcpy that is undefined on areas that overlap, as C has it, every longer payload makes the receiving callback undefined.\<close>

theorem ws_echoes_frames:
  assumes ok: "reactor_ok s" and i: "interest s fd = Some (p, EPOLLIN)" and st: "state_machine (ev_at s p) = WS_TRANSMISSION"
    and frame: "concat (c_in (k_conn (s_kernel s) fd)) = client_frame b0 key payload"
      "hdr_opcode b0 \<noteq> 8" "length key = 4" "length payload \<le> 4087"
    and conn: "\<not> c_eof (k_conn (s_kernel s) fd)" "\<forall>seg\<in>set (c_in (k_conn (s_kernel s) fd)). seg \<noteq> []"
      "length (server_frame payload) \<le> c_room (k_conn (s_kernel s) fd)"
  shows "(length payload \<le> 4 \<or> copies_forward ov \<longrightarrow> (\<exists>s1 s2.
      ws_recv_cb sha1 b64 ov fd s = Some (int (length (client_frame b0 key payload)), s1) \<and>
      interest s1 fd = Some (p, EPOLLOUT) \<and> ev_callback (ev_at s1 p) = SendCB \<and>
      ws_send_cb fd s1 = Some (int (length (server_frame payload)), s2) \<and>
      k_out (s_kernel s2) fd = k_out (s_kernel s) fd @ server_frame payload \<and>
      interest s2 fd = Some (p, EPOLLIN) \<and> ev_callback (ev_at s2 p) = RecvCB \<and>
      state_machine (ev_at s2 p) = WS_TRANSMISSION \<and> reactor_ok s2)) \<and>
    (4 < length payload \<longrightarrow> ws_recv_cb sha1 b64 (\<lambda>d s n buf. None) fd s = None)" (is "(_ \<longrightarrow> ?answered) \<and> _")
proof -
  let ?cf = "client_frame b0 key payload" and ?sf = "server_frame payload"
  have len: "length ?cf < BUFFER_LENGTH" "?cf \<noteq> []" using frame(3,4) by (auto simp: client_frame_def)
  have sf: "?sf \<noteq> []" by (auto simp: server_frame_def)
  have "ws_recv_cb sha1 b64 (\<lambda>d s n buf. None) fd s = None" if "4 < length payload"
  proof (rule recv_fails [OF ok i conn(1,2) frame(1) len(2,1)])
    show "websocket_request sha1 b64 (\<lambda>d s n buf. None) ev k = None" if "request_event (ev_at s p) ?cf ev" for ev k
      using that transmission_overlaps [OF _ frame(2,3) _ \<open>4 < length payload\<close>, of ev] frame(4) st
      by (simp add: request_event_def websocket_request_def)
  qed
  moreover have "?answered" if ov: "length payload \<le> 4 \<or> copies_forward ov"
  proof -
    define P where "P ev \<longleftrightarrow> take (length ?sf) (ev_buffer ev) = ?sf \<and> length ?sf \<le> length (ev_buffer ev) \<and>
      ev_length ev = int (length ?sf) \<and> state_machine ev = WS_TRANSMISSION" for ev :: ws_event
    have "\<exists>ev1. websocket_request sha1 b64 ov ev k = Some (ev1, k) \<and> ev_status ev1 = 0 \<and> P ev1"
      if "request_event (ev_at s p) ?cf ev" for ev k
      using that transmission_echo [OF ov _ frame(2,3), of ev "replicate (BUFFER_LENGTH - length ?cf) 0" k] frame(4) st
      by (auto simp: request_event_def websocket_request_def P_def)
    from recv_step [OF ok i conn(1,2) frame(1) len(2,1) this]
    obtain s1 ev1 where r: "ws_recv_cb sha1 b64 ov fd s = Some (int (length ?cf), s1)" "P ev1" "reactor_ok s1"
        "ev_at s1 p = (nty_event_set fd SendCB True ev1)\<lparr>ev_events := EPOLLOUT, ev_status := 1\<rparr>"
        "interest s1 fd = Some (p, EPOLLOUT)" "k_out (s_kernel s1) = k_out (s_kernel s)"
        "k_conn (s_kernel s1) fd = (k_conn (s_kernel s) fd)\<lparr>c_in := []\<rparr>" by blast
    have b: "read_at 0 (nat (ev_length (ev_at s1 p))) (ev_buffer (ev_at s1 p)) = Some ?sf" "0 < ev_length (ev_at s1 p)"
      using r(2) sf unfolding r(4) P_def by (simp_all add: read_at_def nty_event_set_def)
    obtain s2 where "ws_send_cb fd s1 = Some (int (length ?sf), s2)" "reactor_ok s2" "interest s2 fd = Some (p, EPOLLIN)"
        "ev_at s2 p = (nty_event_set fd RecvCB True (ev_at s1 p))\<lparr>ev_events := EPOLLIN, ev_status := 1\<rparr>"
        "k_out (s_kernel s2) fd = k_out (s_kernel s1) fd @ ?sf"
      using send_step [OF r(3,5) b] conn(3) r(7) by auto
    then show ?thesis using r(1,2,4-6) by (simp add: P_def nty_event_set_def)
  qed
  ultimately show ?thesis by blast
qed

end
