(* ===== verification/WebSocket_Handshake.thy ===== *)
theory WebSocket_Handshake
  imports WebSocket_Echo
begin

text \<open>
  A new connection: the accepting callback, the search of the key line in the request, the answer to
  the handshake, and what happens when the descriptor was used before.
\<close>

section \<open>Lines\<close>

text \<open>A line of a request: no carriage return, no null byte, and short enough for the buffer of a line.\<close>

definition line_ok :: "byte list \<Rightarrow> bool" where
  "line_ok l \<longleftrightarrow> 13 \<notin> set l \<and> 0 \<notin> set l \<and> length l < 1024"

lemma readline_loop_line:
  assumes "13 \<notin> set todo" and "length A + length done + length todo + 2 \<le> len" and "length done + length todo \<le> n"
    and "all = A @ done @ todo @ crlf @ B"
  shows "readline_loop all len (length A + length done) (length done) (done @ replicate (n - length done) 0) =
    Some (int (length A + length done + length todo + 2), done @ todo @ replicate (n - length done - length todo) 0)"
  using assms
proof (induction todo arbitrary: "done")
  case Nil
  have "byte_at all (length A + length done) = Some 13"
    by (rule byte_at_here [of _ "A @ done" 13 "10 # B"]) (use Nil in \<open>simp_all add: crlf_def\<close>)
  moreover have "byte_at all (length A + length done + 1) = Some 10"
    by (rule byte_at_here [of _ "A @ done @ [13]" 10 B]) (use Nil in \<open>simp_all add: crlf_def\<close>)
  ultimately show ?case using Nil.prems(2) by (subst readline_loop.simps) simp
next
  case (Cons b bs)
  have b: "byte_at all (length A + length done) = Some b"
    by (rule byte_at_here [of _ "A @ done" b "bs @ crlf @ B"]) (use Cons.prems in simp_all)
  obtain m where m: "n - length done = Suc m" using Cons.prems(3) by (metis Suc_diff_Suc add_Suc_right le_add1 length_Cons less_le_trans not_less_eq_eq linorder_not_less)
  have w: "write_at (length done) [b] (done @ replicate (n - length done) 0) = Some ((done @ [b]) @ replicate (n - length (done @ [b])) 0)"
    by (subst write_at_here [of _ "done" "[0]" "replicate m 0"]) (use m in simp_all)
  have "readline_loop all len (length A + length (done @ [b])) (length (done @ [b])) ((done @ [b]) @ replicate (n - length (done @ [b])) 0) =
    Some (int (length A + length (done @ [b]) + length bs + 2), (done @ [b]) @ bs @ replicate (n - length (done @ [b]) - length bs) 0)"
    by (rule Cons.IH) (use Cons.prems in simp_all)
  then show ?case using b w Cons.prems(1,2) by (subst readline_loop.simps) simp
qed

lemma c_string_Some:
  assumes "0 \<notin> set s"
  shows "c_string (s @ 0 # suf) = Some s" and "n > 0 \<Longrightarrow> c_string (s @ replicate n 0) = Some s"
  using c_string_padded [OF assms] by (simp, cases n) auto

lemma readline_line:
  assumes "line_ok l" and "0 \<notin> set (A @ l @ crlf @ B)" and "n > 0"
  shows "readline (A @ l @ crlf @ B @ replicate n 0) (length A) (replicate 1024 0) =
    Some (int (length (A @ l @ crlf)), l @ replicate (1024 - length l) 0)"
proof -
  have "c_string ((A @ l @ crlf @ B) @ replicate n 0) = Some (A @ l @ crlf @ B)"
    by (rule c_string_Some(2) [OF assms(2,3)])
  then show ?thesis
    using readline_loop_line [of l A "[]" "length (A @ l @ crlf @ B)" 1024 "A @ l @ crlf @ B @ replicate n 0" "B @ replicate n 0"] assms(1)
    by (simp add: readline_def line_ok_def crlf_def)
qed

lemma key_line_here:
  "c_string line = Some s \<Longrightarrow> contains (ascii ''Sec-WebSocket-Key'') s \<Longrightarrow> key_line buf idx line = Some (Some line)"
  by (subst key_line.simps) simp

lemma key_line_next:
  assumes "c_string line = Some s" and "\<not> contains (ascii ''Sec-WebSocket-Key'') s"
    and "readline buf idx (replicate 1024 0) = Some (int i, line1)"
  shows "key_line buf idx line = key_line buf i line1"
  using assms by (subst key_line.simps) simp

text \<open>The lines before the key are skipped, and the line with the key is found.\<close>

lemma key_line_found:
  assumes "\<forall>l\<in>set ls. line_ok l \<and> \<not> contains (ascii ''Sec-WebSocket-Key'') l"
    and "line_ok kl" and "contains (ascii ''Sec-WebSocket-Key'') kl"
    and "0 \<notin> set (A @ concat (map (\<lambda>l. l @ crlf) ls) @ kl @ crlf @ B)" and "n > 0"
    and "c_string line = Some s" and "\<not> contains (ascii ''Sec-WebSocket-Key'') s"
  shows "key_line (A @ concat (map (\<lambda>l. l @ crlf) ls) @ kl @ crlf @ B @ replicate n 0) (length A) line =
    Some (Some (kl @ replicate (1024 - length kl) 0))"
  using assms
proof (induction ls arbitrary: A line s)
  case Nil
  have "readline (A @ kl @ crlf @ B @ replicate n 0) (length A) (replicate 1024 0) =
      Some (int (length (A @ kl @ crlf)), kl @ replicate (1024 - length kl) 0)"
    by (rule readline_line) (use Nil.prems in auto)
  then have "key_line (A @ kl @ crlf @ B @ replicate n 0) (length A) line =
      key_line (A @ kl @ crlf @ B @ replicate n 0) (length (A @ kl @ crlf)) (kl @ replicate (1024 - length kl) 0)"
    using key_line_next Nil.prems(6,7) by blast
  moreover have "c_string (kl @ replicate (1024 - length kl) 0) = Some kl"
    using Nil.prems(2) by (intro c_string_Some(2)) (auto simp: line_ok_def)
  ultimately show ?case using key_line_here Nil.prems(3) by simp
next
  case (Cons l ls)
  let ?rest = "concat (map (\<lambda>l. l @ crlf) ls) @ kl @ crlf @ B"
  have l: "line_ok l" "\<not> contains (ascii ''Sec-WebSocket-Key'') l" using Cons.prems(1) by auto
  have "readline (A @ l @ crlf @ ?rest @ replicate n 0) (length A) (replicate 1024 0) =
      Some (int (length (A @ l @ crlf)), l @ replicate (1024 - length l) 0)"
    by (rule readline_line [OF l(1)]) (use Cons.prems in auto)
  then have "key_line (A @ l @ crlf @ ?rest @ replicate n 0) (length A) line =
      key_line (A @ l @ crlf @ ?rest @ replicate n 0) (length (A @ l @ crlf)) (l @ replicate (1024 - length l) 0)"
    using key_line_next Cons.prems(6,7) by blast
  also have "\<dots> = Some (Some (kl @ replicate (1024 - length kl) 0))"
    using Cons.IH [of "A @ l @ crlf" "l @ replicate (1024 - length l) 0" l] Cons.prems l c_string_Some(2) [of l "1024 - length l"]
    by (simp add: line_ok_def)
  finally show ?case by simp
qed

section \<open>The answer\<close>

text \<open>A request: lines without a key, the line with the key, and the rest.\<close>

definition ws_request :: "byte list list \<Rightarrow> byte list \<Rightarrow> byte list \<Rightarrow> byte list" where
  "ws_request ls key post = concat (map (\<lambda>l. l @ crlf) ls) @ (ascii ''Sec-WebSocket-Key: '' @ key) @ crlf @ post"

definition request_ok :: "byte list list \<Rightarrow> byte list \<Rightarrow> byte list \<Rightarrow> bool" where
  "request_ok ls key post \<longleftrightarrow> (\<forall>l\<in>set ls. line_ok l \<and> \<not> contains (ascii ''Sec-WebSocket-Key'') l) \<and>
     13 \<notin> set key \<and> 0 \<notin> set key \<and> length key \<le> 900 \<and> 0 \<notin> set post \<and> length (ws_request ls key post) < BUFFER_LENGTH"

text \<open>What the server relies on in the cryptography library: digests of 20 bytes, and an encoding that
  ends with a newline, has no null byte and fits 32 bytes.\<close>

definition crypto_ok :: "(byte list \<Rightarrow> byte list) \<Rightarrow> (byte list \<Rightarrow> byte list) \<Rightarrow> bool" where
  "crypto_ok sha1 b64 \<longleftrightarrow> (\<forall>x. length (sha1 x) = 20) \<and>
     (\<forall>x. 0 < length x \<longrightarrow> length x \<le> 20 \<longrightarrow> b64 x \<noteq> [] \<and> last (b64 x) = 10 \<and> 0 \<notin> set (b64 x) \<and> length (b64 x) \<le> 32)"

lemma c_string_takeWhile: "c_string (xs @ 0 # suf) = Some (takeWhile (\<lambda>b. b \<noteq> 0) xs)"
proof (cases "0 \<in> set xs")
  case True
  have "takeWhile (\<lambda>b. b \<noteq> 0) (xs @ ys) = takeWhile (\<lambda>b. b \<noteq> 0) xs" for ys
    using takeWhile_append1 [OF True, of "\<lambda>b. b \<noteq> 0" ys] by simp
  then show ?thesis using True by (simp add: c_string_def)
next
  case False
  then have eq: "takeWhile (\<lambda>b. b \<noteq> 0) xs = xs" unfolding takeWhile_eq_all_conv by metis
  show ?thesis unfolding eq by (rule c_string_padded [OF False])
qed

lemma ascii_lengths:
  "length (ascii ''Sec-WebSocket-Key: '') = 19" "length GUID = 36" "0 \<notin> set GUID"
  "0 \<notin> set (ascii ''Sec-WebSocket-Key: '')" "13 \<notin> set (ascii ''Sec-WebSocket-Key: '')"
  "contains (ascii ''Sec-WebSocket-Key'') (ascii ''Sec-WebSocket-Key: '' @ key)"
  by (simp_all add: ascii_def GUID_def)

lemma ws_response_length: "length (ws_response k) = length k + 101"
  by (simp add: ws_response_def ascii_def crlf_def)

lemma write_over: "length bs \<le> length buf \<Longrightarrow> write_at 0 bs buf = Some (bs @ drop (length bs) buf)"
  by (simp add: write_at_def)

lemma write_over_zeros: "length bs \<le> n \<Longrightarrow> write_at 0 bs (replicate n 0) = Some (bs @ replicate (n - length bs) 0)"
  by (simp add: write_at_def)

lemma strcpy_key:
  assumes "0 \<notin> set key" and "length key \<le> 900" and "copies_forward ov"
    and "line = (ascii ''Sec-WebSocket-Key: '' @ key) @ replicate (1024 - (19 + length key)) 0"
  shows "c_string (drop 19 line) = Some key"
    and "copy_within ov 0 19 (length key + 1) line = Some (key @ 0 # drop (length key + 1) line)"
proof -
  obtain m where m: "1024 - (19 + length key) = Suc m" using assms(2) by (cases "1024 - (19 + length key)") auto
  have d: "drop 19 line = key @ 0 # replicate m 0" unfolding assms(4) m using ascii_lengths(1) by simp
  then show "c_string (drop 19 line) = Some key" using c_string_padded [OF assms(1)] by simp
  have l: "length line = 1024" using assms(2) ascii_lengths(1) by (simp add: assms(4))
  then have "copy_within ov 0 19 (length key + 1) line = write_at 0 (key @ [0]) line"
    using copy_forward [OF assms(3), of 0 19 "length key + 1" line] assms(2) d by simp
  then show "copy_within ov 0 19 (length key + 1) line = Some (key @ 0 # drop (length key + 1) line)"
    using write_over [of "key @ [0]" line] l assms(2) by simp
qed

lemma append_guid:
  assumes "0 \<notin> set key" and "length key \<le> 900" and "length buf = 1023 - length key"
  shows "\<exists>line. write_at (length key) (GUID @ [0]) (key @ 0 # buf) = Some line \<and> c_string line = Some (key @ GUID)"
proof -
  have "write_at (length key) (GUID @ [0]) (key @ 0 # buf) = Some (key @ (GUID @ [0]) @ drop 37 (0 # buf))"
    by (rule write_at_here [of _ key "take 37 (0 # buf)"]) (use assms(2,3) ascii_lengths(2) in \<open>simp_all del: drop_Suc_Cons take_Suc_Cons\<close>)
  moreover have "c_string (key @ (GUID @ [0]) @ drop 37 (0 # buf)) = Some (key @ GUID)"
    using c_string_padded [of "key @ GUID" "drop 37 (0 # buf)"] assms(1) ascii_lengths(3) by simp
  ultimately show ?thesis by blast
qed

lemma base64_newline:
  assumes "crypto_ok sha1 b64" and "0 < length d" and "length d \<le> 20"
  shows "\<exists>out. base64_encode b64 d (replicate 32 0) = Some (int (length (b64 d)), out) \<and> c_string out = Some (butlast (b64 d))"
proof -
  let ?e = "b64 d"
  have e: "?e \<noteq> []" "0 \<notin> set ?e" "length ?e \<le> 32" using assms by (auto simp: crypto_ok_def)
  have w: "write_at 0 ?e (replicate 32 0) = Some (?e @ replicate (32 - length ?e) 0)" by (rule write_over_zeros [OF e(3)])
  have "(butlast ?e @ [last ?e])[length (butlast ?e) := 0] = butlast ?e @ [0]" by (simp only: list_update_length)
  then have u: "(?e @ replicate (32 - length ?e) 0)[length ?e - 1 := 0] = butlast ?e @ 0 # replicate (32 - length ?e) 0"
    using e(1) by (simp add: list_update_append)
  have "0 \<notin> set (butlast ?e)" using e(2) in_set_butlastD by fast
  then show ?thesis using w u e(1) c_string_padded by (simp add: base64_encode_def Let_def)
qed

lemma handshake_line:
  assumes "request_ok ls key post" and "ev_buffer ev = ws_request ls key post @ replicate n 0" and "n > 0"
  shows "key_line (ev_buffer ev) 0 (replicate 1024 0) =
    Some (Some ((ascii ''Sec-WebSocket-Key: '' @ key) @ replicate (1024 - (19 + length key)) 0))"
proof -
  let ?kl = "ascii ''Sec-WebSocket-Key: '' @ key"
  have kl: "line_ok ?kl" "contains (ascii ''Sec-WebSocket-Key'') ?kl"
    using assms(1) ascii_lengths by (auto simp: line_ok_def request_ok_def)
  have z: "0 \<notin> set ([] @ concat (map (\<lambda>l. l @ crlf) ls) @ ?kl @ crlf @ post)"
    using assms(1) kl(1) by (auto simp: request_ok_def line_ok_def crlf_def)
  have e: "\<not> contains (ascii ''Sec-WebSocket-Key'') []" by (simp add: ascii_def)
  have "key_line ([] @ concat (map (\<lambda>l. l @ crlf) ls) @ ?kl @ crlf @ post @ replicate n 0) (length ([] :: byte list)) (replicate 1024 0) =
      Some (Some (?kl @ replicate (1024 - length ?kl) 0))"
  proof (rule key_line_found)
    show "\<forall>l\<in>set ls. line_ok l \<and> \<not> contains (ascii ''Sec-WebSocket-Key'') l" using assms(1) by (simp add: request_ok_def)
    show "c_string (replicate 1024 0) = Some []" using c_string_Some(2) [of "[]" 1024] by simp
  qed (use kl z e assms(3) in auto)
  then show ?thesis using assms(2) ascii_lengths(1) by (simp add: ws_request_def)
qed

definition key_digest :: "(byte list \<Rightarrow> byte list) \<Rightarrow> byte list \<Rightarrow> byte list" where
  "key_digest sha1 key = takeWhile (\<lambda>b. b \<noteq> 0) (sha1 (key @ GUID))"

lemma digest_read:
  assumes "crypto_ok sha1 b64"
  shows "\<exists>buf. write_at 0 (sha1 txt) (replicate 32 0) = Some buf \<and> c_string buf = Some (takeWhile (\<lambda>b. b \<noteq> 0) (sha1 txt))"
proof -
  have "length (sha1 txt) = 20" using assms by (simp add: crypto_ok_def)
  then have "write_at 0 (sha1 txt) (replicate 32 0) = Some (sha1 txt @ 0 # replicate 11 0)"
    using write_over_zeros [of "sha1 txt" 32] by (simp add: numeral_eq_Suc)
  then show ?thesis using c_string_takeWhile by blast
qed

lemma handshake_answers:
  assumes "request_ok ls key post" and "ev_buffer ev = ws_request ls key post @ replicate n 0" and "n > 0"
    and "crypto_ok sha1 b64" and "copies_forward ov" and "key_digest sha1 key \<noteq> []"
    and "resp = ws_response (butlast (b64 (key_digest sha1 key)))"
  shows "handshake sha1 b64 ov ev =
    Some (0, ev\<lparr>ev_buffer := resp @ replicate (BUFFER_LENGTH - length resp) 0, ev_length := int (length resp)\<rparr>)"
proof -
  let ?line = "(ascii ''Sec-WebSocket-Key: '' @ key) @ replicate (1024 - (19 + length key)) 0"
  have k: "0 \<notin> set key" "length key \<le> 900" using assms(1) by (auto simp: request_ok_def)
  note 1 = handshake_line [OF assms(1-3)]
  note 2 = strcpy_key [OF k assms(5) refl]
  have 3: "c_string (key @ 0 # drop (length key + 1) ?line) = Some key" using c_string_padded [OF k(1)] .
  obtain line2 where 4: "write_at (length key) (GUID @ [0]) (key @ 0 # drop (length key + 1) ?line) = Some line2"
      "c_string line2 = Some (key @ GUID)"
  proof -
    have "length ?line = 1024" using k(2) ascii_lengths(1) by simp
    then have "length (drop (length key + 1) ?line) = 1023 - length key" by (simp only: length_drop)
    then show ?thesis using append_guid [OF k] that by blast
  qed
  obtain shab where 5: "write_at 0 (sha1 (key @ GUID)) (replicate 32 0) = Some shab" "c_string shab = Some (key_digest sha1 key)"
    using digest_read [OF assms(4)] unfolding key_digest_def by blast
  have d: "0 < length (key_digest sha1 key)" "length (key_digest sha1 key) \<le> 20"
    using assms(6) length_takeWhile_le [of "\<lambda>b. b \<noteq> 0" "sha1 (key @ GUID)"] assms(4)
    by (auto simp: key_digest_def crypto_ok_def)
  obtain out where 6: "base64_encode b64 (key_digest sha1 key) (replicate 32 0) = Some (int (length (b64 (key_digest sha1 key))), out)"
      "c_string out = Some (butlast (b64 (key_digest sha1 key)))"
    using base64_newline [OF assms(4) d] by blast
  have "length (b64 (key_digest sha1 key)) \<le> 32" using assms(4) d by (simp add: crypto_ok_def)
  then have l: "Suc (length resp) \<le> BUFFER_LENGTH" by (simp add: assms(7) ws_response_length)
  obtain m where m: "BUFFER_LENGTH - length resp = Suc m" using l by (cases "BUFFER_LENGTH - length resp") auto
  have 7: "write_at 0 (resp @ [0]) (replicate BUFFER_LENGTH 0) = Some (resp @ replicate (BUFFER_LENGTH - length resp) 0)"
    using write_over_zeros [of "resp @ [0]" BUFFER_LENGTH] l m by simp
  show ?thesis
    unfolding handshake_def 1 bind.simps option.case 2 3 4 5 6
    using 4 5 6 7 by (simp add: Let_def flip: assms(7))
qed

end
