(* ===== verification/WebSocket_Server.thy ===== *)
theory WebSocket_Server
  imports WebSocket_Handshake
begin

text \<open>
  The properties of the WebSocket server as a whole: the loop keeps the invariant, a new connection is
  given its handshake, and the ways the code goes wrong: the end of a stream, a descriptor used again,
  long frames and copies that overlap.
\<close>

section \<open>Accepting\<close>

lemma accept_step:
  assumes ok: "reactor_ok s" and mem: "memory_lasts s" and b: "k_backlog (s_kernel s) fd = c # cs"
    and n: "n = fresh_fd (k_open (s_kernel s))" and fc: "k_fcntl (s_kernel s) n"
  shows "\<exists>s1. ws_accept_cb fd True s = Some (0, s1) \<and> reactor_ok s1 \<and> interest s1 n = Some (slot_of n, EPOLLIN) \<and>
    ev_at s1 (slot_of n) = (nty_event_set n RecvCB True (events ws_zero s n))\<lparr>ev_events := EPOLLIN, ev_status := 1\<rparr> \<and>
    k_conn (s_kernel s1) n = c \<and> k_out (s_kernel s1) n = []"
proof -
  obtain k where a: "accept_conn fd (s_kernel s) = (n, k)" using b n by (simp add: accept_conn_def Let_def)
  have nn: "n \<noteq> - 1" using fresh_fd_new [of "k_open (s_kernel s)"] n by simp
  note ac = accept_ok [OF ok a nn]
  have k: "k_fcntl k n" "k_conn k n = c" "k_out k n = []" using a b fc by (auto simp: accept_conn_def Let_def)
  let ?s0 = "s\<lparr>s_kernel := k\<rparr>" and ?p = "slot_of n"
  have "table_ok ?s0" "memory_lasts ?s0" using ac(1) mem by (simp_all add: reactor_ok_def memory_lasts_def)
  from find_event_Some [OF this ac(2), of ws_zero] obtain s1 where f: "ntyreactor_find_event_idx ws_zero n ?s0 = Some (?p, s1)"
    by blast
  note fo = find_ok [OF ac(1,2) f]
  have s1: "interest s1 n = None" "s_kernel s1 = k" "epfd (s_reactor s1) = epfd (s_reactor s)"
    using fo(3) ac(4,5) by (simp_all add: same_but_table_def)
  have "events ws_zero ?s0 = events ws_zero s" by (simp add: events_def ev_at_def fun_eq_iff)
  then have e1: "ev_at s1 ?p = events ws_zero s n" using fun_cong [OF fo(5), of n] fo(4) by (simp add: events_def)
  define s2 where "s2 = upd_ev ?p (\<lambda>ev. ev\<lparr>ev_status := 0\<rparr>) s1"
  have sw: "upd_ev ?p (\<lambda>ev. ev\<lparr>ev_status := 0\<rparr>) (upd_ev ?p (nty_event_set n RecvCB True) s1) =
      upd_ev ?p (nty_event_set n RecvCB True) s2"
    unfolding s2_def upd_ev_twice [OF fo(4)]
    by (rule arg_cong [of _ _ "\<lambda>f. upd_ev ?p f s1"], intro ext ntyevent.equality) (simp_all add: nty_event_set_def)
  have ok2: "reactor_ok s2" unfolding s2_def by (rule upd_ev_ok [OF fo(2) s1(1) ac(2) fo(4)])
  have i2: "interest s2 n = None" and in2: "fst ?p < length (evblk (s_reactor s2))" using s1(1) fo(4) by (simp_all add: s2_def frame_simps)
  have e2: "ev_at s2 ?p = (events ws_zero s n)\<lparr>ev_status := 0\<rparr>" using ev_at_upd [OF fo(4)] e1 by (simp add: s2_def)
  define s3 where "s3 = snd (nty_event_add EPOLLIN ?p (upd_ev ?p (nty_event_set n RecvCB True) s2))"
  have ok3: "reactor_ok s3" unfolding s3_def
    by (rule add_ok [OF ok2 i2 ac(2) in2]) (use ac(6) s1(3) in \<open>simp_all add: fits_def s2_def frame_simps\<close>)
  have o: "n \<in> set (k_open (s_kernel s2))" "s_kernel s2 = k" using ac(3) s1(2) by (simp_all add: s2_def frame_simps)
  have a3: "s3 = (upd_ev ?p (\<lambda>ev. (nty_event_set n RecvCB True ev)\<lparr>ev_events := EPOLLIN, ev_status := 1\<rparr>) s2)
      \<lparr>s_kernel := k\<lparr>k_interest := (k_interest k)(n \<mapsto> (?p, EPOLLIN))\<rparr>\<rparr>"
    using add_result [OF ok2 i2 ac(2) in2, of EPOLLIN RecvCB] o e2 by (simp add: s3_def Let_def)
  have "ws_accept_cb fd True s = Some (0, s3)"
    using a nn k(1) f by (simp add: ws_accept_cb_def Let_def sw s3_def)
  moreover have "ev_at s3 ?p = (nty_event_set n RecvCB True (events ws_zero s n))\<lparr>ev_events := EPOLLIN, ev_status := 1\<rparr>"
    using ev_at_upd [OF in2] e2 by (simp add: a3 nty_event_set_def)
  moreover have "interest s3 n = Some (?p, EPOLLIN)" "k_conn (s_kernel s3) n = c" "k_out (s_kernel s3) n = []"
    using k by (simp_all add: a3)
  ultimately show ?thesis using ok3 by blast
qed

text \<open>Accepting, receiving and sending as one: the answer is what the state machine leaves in the buffer.\<close>

lemma first_exchange:
  assumes ok: "reactor_ok s" and mem: "memory_lasts s" and b: "k_backlog (s_kernel s) fd = c # cs"
    and n: "n = fresh_fd (k_open (s_kernel s))" and fc: "k_fcntl (s_kernel s) n"
    and c: "\<not> c_eof c" "\<forall>seg\<in>set (c_in c). seg \<noteq> []" "concat (c_in c) = data" "data \<noteq> []" "length data < BUFFER_LENGTH"
    and room: "length answer \<le> c_room c" "answer \<noteq> []"
    and req: "\<And>ev k. request_event (events ws_zero s n) data ev \<Longrightarrow>
      \<exists>ev1. websocket_request sha1 b64 ov ev k = Some (ev1, k) \<and> ev_status ev1 = 0 \<and> state_machine ev1 = m \<and>
        ev_length ev1 = int (length answer) \<and> read_at 0 (length answer) (ev_buffer ev1) = Some answer"
  shows "\<exists>s1 s2 s3. ws_accept_cb fd True s = Some (0, s1) \<and> ws_recv_cb sha1 b64 ov n s1 = Some (int (length data), s2) \<and>
    ws_send_cb n s2 = Some (int (length answer), s3) \<and> k_out (s_kernel s3) n = answer \<and>
    interest s3 n = Some (slot_of n, EPOLLIN) \<and> state_machine (ev_at s3 (slot_of n)) = m \<and> reactor_ok s3"
proof -
  obtain s1 where s1: "ws_accept_cb fd True s = Some (0, s1)" "reactor_ok s1" "interest s1 n = Some (slot_of n, EPOLLIN)"
      "ev_at s1 (slot_of n) = (nty_event_set n RecvCB True (events ws_zero s n))\<lparr>ev_events := EPOLLIN, ev_status := 1\<rparr>"
      "k_conn (s_kernel s1) n = c" "k_out (s_kernel s1) n = []"
    using accept_step [OF ok mem b n fc] by blast
  define P where "P ev1 \<longleftrightarrow> state_machine ev1 = m \<and> ev_length ev1 = int (length answer) \<and>
    read_at 0 (length answer) (ev_buffer ev1) = Some answer" for ev1 :: ws_event
  have "\<exists>ev1. websocket_request sha1 b64 ov ev k = Some (ev1, k) \<and> ev_status ev1 = 0 \<and> P ev1"
    if r: "request_event (ev_at s1 (slot_of n)) data ev" for ev k
  proof -
    have "request_event (events ws_zero s n) data ev" using r s1(4) by (simp add: request_event_def nty_event_set_def)
    then show ?thesis using req unfolding P_def by blast
  qed
  from recv_step [OF s1(2,3) _ _ _ c(4,5) this] c(1-3) s1(5)
  obtain s2 ev1 where s2: "ws_recv_cb sha1 b64 ov n s1 = Some (int (length data), s2)" "P ev1" "reactor_ok s2"
      "ev_at s2 (slot_of n) = (nty_event_set n SendCB True ev1)\<lparr>ev_events := EPOLLOUT, ev_status := 1\<rparr>"
      "interest s2 n = Some (slot_of n, EPOLLOUT)" "k_out (s_kernel s2) = k_out (s_kernel s1)"
      "k_conn (s_kernel s2) n = c\<lparr>c_in := []\<rparr>" by auto
  have r: "read_at 0 (nat (ev_length (ev_at s2 (slot_of n)))) (ev_buffer (ev_at s2 (slot_of n))) = Some answer"
      "0 < ev_length (ev_at s2 (slot_of n))"
    using s2(2) room(2) unfolding s2(4) P_def by (simp_all add: nty_event_set_def)
  obtain s3 where "ws_send_cb n s2 = Some (int (length answer), s3)" "reactor_ok s3" "interest s3 n = Some (slot_of n, EPOLLIN)"
      "ev_at s3 (slot_of n) = (nty_event_set n RecvCB True (ev_at s2 (slot_of n)))\<lparr>ev_events := EPOLLIN, ev_status := 1\<rparr>"
      "k_out (s_kernel s3) n = k_out (s_kernel s2) n @ answer"
    using send_step [OF s2(3,5) r] room(1) s2(7) by auto
  then show ?thesis using s1(1,6) s2(1,2,4,6) by (simp add: P_def nty_event_set_def)
qed

section \<open>Samples\<close>

text \<open>A server that listens on the descriptor 4; the event of the descriptor 5 is given, and it is
  registered or not.\<close>

definition listening :: ws_event where
  "listening = ws_zero\<lparr>ev_fd := 4, ev_callback := AcceptCB, ev_arg := True, ev_events := EPOLLIN, ev_status := 1\<rparr>"

definition serving :: ws_event where
  "serving = ws_zero\<lparr>ev_fd := 5, ev_callback := RecvCB, ev_arg := True, ev_events := EPOLLIN, ev_status := 1, state_machine := 1\<rparr>"

definition ws_sample :: "bool \<Rightarrow> ws_event \<Rightarrow> conn \<Rightarrow> ws_event server" where
  "ws_sample reg ev c = \<lparr>s_reactor = \<lparr>epfd = 3, blkcnt = 1, evblk = [\<lambda>i. if i = 4 then listening else if i = 5 then ev else ws_zero]\<rparr>,
     s_kernel = \<lparr>k_open = (if reg then [0, 1, 2, 3, 4, 5] else [0, 1, 2, 3, 4]),
       k_interest = (if reg then [4 \<mapsto> ((0, 4), EPOLLIN), 5 \<mapsto> ((0, 5), EPOLLIN)] else [4 \<mapsto> ((0, 4), EPOLLIN)]),
       k_backlog = (\<lambda>_. [c]), k_fcntl = (\<lambda>_. True), k_conn = (\<lambda>_. c), k_out = (\<lambda>_. [])\<rparr>,
     s_malloc = (\<lambda>_. True), s_calls = 2, s_live = 2\<rparr>"

lemma ws_sample_ok:
  "reactor_ok (ws_sample True serving c)" "reactor_ok (ws_sample False ev c)" "memory_lasts (ws_sample r ev c)"
  by (auto simp: reactor_ok_def ws_sample_def table_ok_def armed_def ev_at_def slot_of_def listening_def serving_def
      fits_def memory_lasts_def split: if_splits)

lemma ws_sample_fresh: "5 = fresh_fd (k_open (s_kernel (ws_sample False ev c)))"
  by (simp add: ws_sample_def fresh_fd_def upt_conv_Cons)

lemma ws_sample_event: "events ws_zero (ws_sample False ev c) 5 = ev"
  by (simp add: events_def slot_of_def ws_sample_def ev_at_def)

lemma sample_frame: "hdr_opcode 0x81 \<noteq> 8"
  by (simp add: hdr_opcode_def)

theorem ws_echoes_frames_witness:
  "\<exists>s1 s2. ws_recv_cb (\<lambda>x. x) (\<lambda>x. x) sample_overlap 5
      (ws_sample True serving \<lparr>c_in = [client_frame 0x81 [1, 2, 3, 4] [104, 105]], c_eof = False, c_room = 100\<rparr>) = Some (8, s1) \<and>
     ws_send_cb 5 s1 = Some (4, s2) \<and> k_out (s_kernel s2) 5 = [0x81, 2, 104, 105]"
proof -
  let ?c = "\<lparr>c_in = [client_frame 0x81 [1, 2, 3, 4] [104, 105]], c_eof = False, c_room = 100\<rparr>"
  have "interest (ws_sample True serving ?c) 5 = Some ((0, 5), EPOLLIN)"
    and "state_machine (ev_at (ws_sample True serving ?c) (0, 5)) = 1"
    by (simp_all add: ws_sample_def ev_at_def serving_def)
  from ws_echoes_frames [OF ws_sample_ok(1) this _ sample_frame, of "[1, 2, 3, 4]" "[104, 105]" sample_overlap "\<lambda>x. x" "\<lambda>x. x"]
  show ?thesis by (simp add: ws_sample_def client_frame_def server_frame_def) blast
qed

section \<open>The properties of the server\<close>

text \<open>a connection on a descriptor that was not used before is given its handshake: it is accepted, the request is read in whatever segments it comes, and the answer that is sent carries the encoded digest of the key, cut at the first null byte of the digest; the connection then waits for frames.\<close>

theorem ws_handshake_answered:
  assumes ok: "reactor_ok s" and mem: "memory_lasts s" and b: "k_backlog (s_kernel s) fd = c # cs"
    and n: "n = fresh_fd (k_open (s_kernel s))" and fc: "k_fcntl (s_kernel s) n"
    and st: "state_machine (events ws_zero s n) = WS_HANDSHAKE"
    and c: "\<not> c_eof c" "\<forall>seg\<in>set (c_in c). seg \<noteq> []" "concat (c_in c) = ws_request ls key post"
    and rq: "request_ok ls key post" and lib: "crypto_ok sha1 b64" "copies_forward ov" "key_digest sha1 key \<noteq> []"
    and resp: "resp = ws_response (butlast (b64 (key_digest sha1 key)))" "length resp \<le> c_room c"
  shows "\<exists>s1 s2 s3. ws_accept_cb fd True s = Some (0, s1) \<and>
    ws_recv_cb sha1 b64 ov n s1 = Some (int (length (ws_request ls key post)), s2) \<and>
    ws_send_cb n s2 = Some (int (length resp), s3) \<and> k_out (s_kernel s3) n = resp \<and>
    interest s3 n = Some (slot_of n, EPOLLIN) \<and> state_machine (ev_at s3 (slot_of n)) = WS_TRANSMISSION \<and> reactor_ok s3"
proof (rule first_exchange [OF ok mem b n fc c])
  show "ws_request ls key post \<noteq> []" by (simp add: ws_request_def crlf_def)
  show "length (ws_request ls key post) < BUFFER_LENGTH" using rq by (simp add: request_ok_def)
  show "length resp \<le> c_room c" by (rule resp)
  show "resp \<noteq> []" by (simp add: resp ws_response_def crlf_def)
  fix ev k
  assume ev: "request_event (events ws_zero s n) (ws_request ls key post) ev"
  let ?n = "BUFFER_LENGTH - length (ws_request ls key post)"
  have "handshake sha1 b64 ov ev = Some (0, ev\<lparr>ev_buffer := resp @ replicate (BUFFER_LENGTH - length resp) 0, ev_length := int (length resp)\<rparr>)"
    by (rule handshake_answers [OF rq _ _ lib resp(1), of ev ?n]) (use ev rq in \<open>simp_all add: request_event_def request_ok_def\<close>)
  then show "\<exists>ev1. websocket_request sha1 b64 ov ev k = Some (ev1, k) \<and> ev_status ev1 = 0 \<and> state_machine ev1 = WS_TRANSMISSION \<and>
      ev_length ev1 = int (length resp) \<and> read_at 0 (length resp) (ev_buffer ev1) = Some resp"
    using ev st by (simp add: websocket_request_def request_event_def read_at_def)
qed

definition sample_sha1 :: "byte list \<Rightarrow> byte list" where
  "sample_sha1 x = replicate 20 7"

definition sample_b64 :: "byte list \<Rightarrow> byte list" where
  "sample_b64 x = replicate 28 65 @ [10]"

lemma sample_crypto: "crypto_ok sample_sha1 sample_b64" "key_digest sample_sha1 key \<noteq> []"
  by (simp_all add: crypto_ok_def sample_sha1_def sample_b64_def key_digest_def takeWhile_replicate)

lemma sample_request_ok: "request_ok [ascii ''GET / HTTP/1.1''] (ascii ''x3JJHMbDL1EzLkh9GBhXDw=='') crlf"
  by (simp add: request_ok_def line_ok_def ws_request_def ascii_def crlf_def)

theorem ws_handshake_answered_witness:
  "\<exists>s1 s2 s3. ws_accept_cb 4 True (ws_sample False ws_zero \<lparr>c_in = [ws_request [ascii ''GET / HTTP/1.1''] (ascii ''x3JJHMbDL1EzLkh9GBhXDw=='') crlf],
       c_eof = False, c_room = 200\<rparr>) = Some (0, s1) \<and>
     ws_recv_cb sample_sha1 sample_b64 sample_overlap 5 s1 = Some (int (length (ws_request [ascii ''GET / HTTP/1.1''] (ascii ''x3JJHMbDL1EzLkh9GBhXDw=='') crlf)), s2) \<and>
     ws_send_cb 5 s2 = Some (129, s3) \<and> k_out (s_kernel s3) 5 = ws_response (replicate 28 65)"
proof -
  let ?c = "\<lparr>c_in = [ws_request [ascii ''GET / HTTP/1.1''] (ascii ''x3JJHMbDL1EzLkh9GBhXDw=='') crlf], c_eof = False, c_room = 200\<rparr>"
  have b: "k_backlog (s_kernel (ws_sample False ws_zero ?c)) 4 = ?c # []" by (simp add: ws_sample_def)
  have f: "k_fcntl (s_kernel (ws_sample False ws_zero ?c)) 5" by (simp add: ws_sample_def)
  have st: "state_machine (events ws_zero (ws_sample False ws_zero ?c) 5) = 0"
    unfolding ws_sample_event by (simp add: ws_zero_def)
  have e: "\<not> c_eof ?c" "\<forall>seg\<in>set (c_in ?c). seg \<noteq> []" "concat (c_in ?c) = ws_request [ascii ''GET / HTTP/1.1''] (ascii ''x3JJHMbDL1EzLkh9GBhXDw=='') crlf"
    by (simp_all add: ws_request_def crlf_def)
  have r: "ws_response (replicate 28 65) = ws_response (butlast (sample_b64 (key_digest sample_sha1 (ascii ''x3JJHMbDL1EzLkh9GBhXDw==''))))"
    by (simp add: sample_b64_def)
  have l: "length (ws_response (replicate 28 65)) \<le> c_room ?c" by (simp add: ws_response_length)
  from ws_handshake_answered [OF ws_sample_ok(2,3) b ws_sample_fresh f st e sample_request_ok sample_crypto(1) sample_overlap_ok sample_crypto(2) r l]
  show ?thesis by (simp add: ws_response_length) blast
qed

text \<open>the state of the handshake is never reset (accept_cb writes WS_HANDSHAKE to the field status): when the event of a descriptor was left in the state WS_END by a close frame, the next connection that is given this descriptor gets its own request sent back, and no handshake.\<close>

theorem ws_reused_descriptor_echoes:
  assumes ok: "reactor_ok s" and mem: "memory_lasts s" and b: "k_backlog (s_kernel s) fd = c # cs"
    and n: "n = fresh_fd (k_open (s_kernel s))" and fc: "k_fcntl (s_kernel s) n"
    and st: "state_machine (events ws_zero s n) = WS_END"
    and c: "\<not> c_eof c" "\<forall>seg\<in>set (c_in c). seg \<noteq> []" "concat (c_in c) = data" "data \<noteq> []" "length data < BUFFER_LENGTH"
    and room: "length data \<le> c_room c"
  shows "\<exists>s1 s2 s3. ws_accept_cb fd True s = Some (0, s1) \<and> ws_recv_cb sha1 b64 ov n s1 = Some (int (length data), s2) \<and>
    ws_send_cb n s2 = Some (int (length data), s3) \<and> k_out (s_kernel s3) n = data \<and>
    interest s3 n = Some (slot_of n, EPOLLIN) \<and> state_machine (ev_at s3 (slot_of n)) = WS_END \<and> reactor_ok s3"
proof (rule first_exchange [OF ok mem b n fc c room c(4)])
  fix ev k
  assume ev: "request_event (events ws_zero s n) data ev"
  then show "\<exists>ev1. websocket_request sha1 b64 ov ev k = Some (ev1, k) \<and> ev_status ev1 = 0 \<and> state_machine ev1 = WS_END \<and>
      ev_length ev1 = int (length data) \<and> read_at 0 (length data) (ev_buffer ev1) = Some data"
    using st by (simp add: websocket_request_def request_event_def read_at_def)
qed

theorem ws_reused_descriptor_echoes_witness:
  "\<exists>s1 s2 s3. ws_accept_cb 4 True (ws_sample False (ws_zero\<lparr>state_machine := WS_END\<rparr>) \<lparr>c_in = [ascii ''GET / HTTP/1.1'', crlf],
       c_eof = False, c_room = 200\<rparr>) = Some (0, s1) \<and>
     ws_recv_cb sample_sha1 sample_b64 sample_overlap 5 s1 = Some (16, s2) \<and> ws_send_cb 5 s2 = Some (16, s3) \<and>
     k_out (s_kernel s3) 5 = ascii ''GET / HTTP/1.1'' @ crlf"
proof -
  let ?c = "\<lparr>c_in = [ascii ''GET / HTTP/1.1'', crlf], c_eof = False, c_room = 200\<rparr>"
  let ?s = "ws_sample False (ws_zero\<lparr>state_machine := WS_END\<rparr>) ?c"
  have b: "k_backlog (s_kernel ?s) 4 = ?c # []" and f: "k_fcntl (s_kernel ?s) 5" by (simp_all add: ws_sample_def)
  have st: "state_machine (events ws_zero ?s 5) = 2" by (simp add: ws_sample_event)
  have e: "\<not> c_eof ?c" "\<forall>seg\<in>set (c_in ?c). seg \<noteq> []" "concat (c_in ?c) = ascii ''GET / HTTP/1.1'' @ crlf"
      "ascii ''GET / HTTP/1.1'' @ crlf \<noteq> []" "length (ascii ''GET / HTTP/1.1'' @ crlf) < BUFFER_LENGTH"
      "length (ascii ''GET / HTTP/1.1'' @ crlf) \<le> c_room ?c" "length (ascii ''GET / HTTP/1.1'' @ crlf) = 16"
    by (simp_all add: crlf_def ascii_def)
  from ws_reused_descriptor_echoes [OF ws_sample_ok(2,3) b ws_sample_fresh f st e(1-6), of sample_sha1 sample_b64 sample_overlap]
  show ?thesis unfolding e(7) by fastforce
qed

text \<open>once the peer has closed its side, or when 4,096 bytes or more are waiting, the callback that receives does not return, and the loop of the reactor hangs in it for all connections.\<close>

theorem ws_recv_never_returns:
  assumes ok: "reactor_ok s" and i: "interest s fd = Some (p, EPOLLIN)" and cb: "ev_callback (ev_at s p) = RecvCB"
    and bad: "c_eof (k_conn (s_kernel s) fd) \<or> length (concat (c_in (k_conn (s_kernel s) fd))) \<ge> BUFFER_LENGTH"
  shows "ws_recv_cb sha1 b64 ov fd s = None \<and> run_rounds (ws_handlers sha1 b64 ov) (Some ((p, EPOLLIN) # rs) # ws) s = None"
proof -
  have "recv_loop fd (replicate BUFFER_LENGTH 0) 0 (s_kernel s) = None" using bad by (intro recv_loop_never) simp
  then have r: "ws_recv_cb sha1 b64 ov fd s = None" using find_armed [OF ok i, of ws_zero] by (simp add: ws_recv_cb_def)
  have "ev_fd (ev_at s p) = fd" "ev_arg (ev_at s p)" "ev_events (ev_at s p) = EPOLLIN"
    using reactor_okD(2) [OF ok i] by (auto simp: armed_def)
  then show ?thesis using r cb by (simp add: call_if_def Let_def)
qed

theorem ws_recv_never_returns_witness:
  "run_rounds (ws_handlers sample_sha1 sample_b64 sample_overlap) [Some [((0, 5), EPOLLIN)]]
     (ws_sample True serving \<lparr>c_in = [], c_eof = True, c_room = 0\<rparr>) = None"
proof -
  let ?s = "ws_sample True serving \<lparr>c_in = [], c_eof = True, c_room = 0\<rparr>"
  have i: "interest ?s 5 = Some ((0, 5), EPOLLIN)" and cb: "ev_callback (ev_at ?s (0, 5)) = RecvCB"
    and e: "c_eof (k_conn (s_kernel ?s) 5) \<or> length (concat (c_in (k_conn (s_kernel ?s) 5))) \<ge> BUFFER_LENGTH"
    by (simp_all add: ws_sample_def ev_at_def serving_def)
  show ?thesis using ws_recv_never_returns [OF ws_sample_ok(1) i cb e] by blast
qed

text \<open>C17: the loop of the server keeps the invariant of the reactor: whatever it is given by epoll_wait, after any number of rounds every registered descriptor is open, its event is the one at its own place in the table, and the callback of the event fits the events the kernel waits for.\<close>

theorem ws_run_keeps_invariant:
  assumes "reactor_ok s" and "rounds_ok (ws_handlers sha1 b64 ov) ws s"
    and "ntyreactor_run (ws_handlers sha1 b64 ov) ws s = Some (Inr s')"
  shows "reactor_ok s'"
proof -
  have "run_rounds (ws_handlers sha1 b64 ov) ws s = Some s'"
    using assms(3) by (auto simp: ntyreactor_run_def split: if_splits)
  then show ?thesis by (rule ws.run_rounds_ok [OF assms(1,2)])
qed

theorem ws_run_keeps_invariant_witness:
  "\<exists>s'. ntyreactor_run (ws_handlers sample_sha1 sample_b64 sample_overlap) [None, Some [((0, 4), EPOLLIN)]]
      (ws_sample False ws_zero \<lparr>c_in = [], c_eof = False, c_room = 0\<rparr>) = Some (Inr s') \<and> reactor_ok s' \<and>
      interest s' 5 = Some ((0, 5), EPOLLIN)"
proof -
  let ?c = "\<lparr>c_in = [], c_eof = False, c_room = 0\<rparr>"
  let ?s = "ws_sample False ws_zero ?c" and ?h = "ws_handlers sample_sha1 sample_b64 sample_overlap"
  have b: "k_backlog (s_kernel ?s) 4 = ?c # []" and f: "k_fcntl (s_kernel ?s) 5" by (simp_all add: ws_sample_def)
  obtain s1 where s1: "ws_accept_cb 4 True ?s = Some (0, s1)" "interest s1 5 = Some (slot_of 5, EPOLLIN)"
    using accept_step [OF ws_sample_ok(2,3) b ws_sample_fresh f] by blast
  have ev: "ev_at ?s (0, 4) = listening" by (simp add: ws_sample_def ev_at_def)
  have "call_if EPOLLIN ?h ((0, 4), EPOLLIN) ?s = Some s1"
    using s1(1) by (simp add: call_if_def Let_def ev listening_def)
  then have rd: "run_ready ?h [((0, 4), EPOLLIN)] ?s = Some s1" by (simp add: call_if_def)
  then have r: "ntyreactor_run ?h [None, Some [((0, 4), EPOLLIN)]] ?s = Some (Inr s1)"
    by (simp add: ntyreactor_run_def del: run_ready.simps) (simp add: ws_sample_def)
  have "interest ?s 4 = Some ((0, 4), EPOLLIN)" by (simp add: ws_sample_def)
  then have "ready_ok [((0, 4), EPOLLIN)] ?s" by (auto simp: ready_ok_def)
  then have "rounds_ok ?h [None, Some [((0, 4), EPOLLIN)]] ?s" by (simp add: rd del: run_ready.simps)
  from ws_run_keeps_invariant [OF ws_sample_ok(2) this r] r s1(2) show ?thesis by (simp add: slot_of_def)
qed

text \<open>a frame with the eight-byte length that an ordinary client sends for a payload below four gigabytes comes back with an empty payload, because decode_packet reads the length in the order of the host.\<close>

theorem ws_long_frame_comes_back_empty:
  assumes "hdr_opcode b0 \<noteq> 8" and "hdr_payload_len b1 = 127" and "length len = 4"
    and "ev_buffer ev = [b0, b1] @ [0, 0, 0, 0] @ len @ rest" and "copies_forward ov" and "8 \<le> length rest"
  shows "\<exists>ev'. transmission ov ev k = Some (ev', k) \<and> ev_length ev' = 10 \<and>
    read_at 0 10 (ev_buffer ev') = Some ([0x81, 127] @ replicate 8 0)"
proof -
  have b: "byte_at (ev_buffer ev) 0 = Some b0" "byte_at (ev_buffer ev) 1 = Some b1" using assms(4) by (simp_all add: byte_at_def)
  have r: "read_at 2 8 (ev_buffer ev) = Some ([0, 0, 0, 0] @ len)"
    by (rule read_at_here [of _ "[b0, b1]" _ rest]) (use assms(3,4) in simp_all)
  have "(ucast (load_le ([0, 0, 0, 0] @ len)) :: 32 word) = 0" by (intro bit_eqI) (auto simp: bit_simps)
  then have l: "int_of_long (load_le ([0, 0, 0, 0] @ len)) = 0" by (simp add: int_of_long_def)
  have u: "umask 18 0 10 buf = Some buf" for buf by (simp add: umask_def umask_loop.simps)
  have d: "decode_packet ev k = Some (Some 18, 0, 127, ev, k)"
    using b r l assms(1,2) u by (simp add: decode_packet_def Let_def)
  have a: "(of_nat 127 AND 127 :: byte) = 127" by simp
  have w1: "write_at 0 [0x81, 127] (ev_buffer ev) = Some ([0x81, 127] @ [0, 0, 0, 0] @ len @ rest)"
    using write_at_here [of _ "[]" "[b0, b1]" "[0, 0, 0, 0] @ len @ rest" 0 "[0x81, 127]"] assms(4) by simp
  have z: "bytes64 0 = replicate 8 0" by (simp add: bytes64_def) (simp add: numeral_eq_Suc)
  have w2: "write_at 2 (replicate 8 0) ([0x81, 127] @ [0, 0, 0, 0] @ len @ rest) = Some ([0x81, 127] @ replicate 8 0 @ rest)"
    by (rule write_at_here [of _ _ "[0, 0, 0, 0] @ len"]) (use assms(3) in simp_all)
  have w3: "copy_within ov 10 18 0 ([0x81, 127] @ replicate 8 0 @ rest) = Some ([0x81, 127] @ replicate 8 0 @ rest)"
    using assms(6) copy_forward [OF assms(5), of 10 18 0] by (simp add: write_at_def)
  have "encode_packet ov ev 0 127 (Some 18) = Some (10, ev\<lparr>ev_buffer := [0x81, 127] @ replicate 8 0 @ rest\<rparr>)"
    using w1 w2 w3 by (simp add: encode_packet_def z a)
  then show ?thesis using d by (simp add: transmission_def read_at_def)
qed

definition sample_kernel :: kernel where
  "sample_kernel = s_kernel (ws_sample True serving \<lparr>c_in = [], c_eof = False, c_room = 0\<rparr>)"

theorem ws_long_frame_comes_back_empty_witness:
  "\<exists>ev'. transmission sample_overlap (ws_zero\<lparr>ev_buffer := [0x82, 127] @ [0, 0, 0, 0] @ [0, 0, 1, 0] @ replicate 300 5\<rparr>) sample_kernel = Some (ev', sample_kernel) \<and>
     ev_length ev' = 10"
  using ws_long_frame_comes_back_empty [of "0x82" "127" "[0, 0, 1, 0]"
      "ws_zero\<lparr>ev_buffer := [0x82, 127] @ [0, 0, 0, 0] @ [0, 0, 1, 0] @ replicate 300 5\<rparr>" "replicate 300 5" sample_overlap sample_kernel]
    sample_overlap_ok by (simp add: hdr_opcode_def hdr_payload_len_def) blast

end
