(* ===== verification/Http.thy ===== *)
theory Http
  imports WebSocket_Frames
begin

text \<open>
  The HTTP server of \<open>2.1.3http/httpserver.c\<close> on the same reactor: the request line, the answer for a
  file, a directory or nothing, and the three callbacks. The file system is a parameter that gives the
  file at a path; the result of each call of \<open>sendfile\<close> is given by its number.
\<close>

section \<open>Events\<close>

record http_event = ntyevent +
  ev_method :: int
  ev_resource :: "byte list"
  ev_ret_code :: int
  ev_content_type :: "byte list"

definition http_zero :: http_event where
  "http_zero = \<lparr>ev_fd = 0, ev_events = 0, ev_arg = False, ev_callback = NoCB, ev_status = 0,
     ev_buffer = replicate BUFFER_LENGTH 0, ev_length = 0, ev_method = 0,
     ev_resource = replicate BUFFER_LENGTH 0, ev_ret_code = 0, ev_content_type = replicate 512 0\<rparr>"

datatype file_kind = Regular "byte list" | Directory | Special

type_synonym files = "byte list \<Rightarrow> file_kind option"

section \<open>The request\<close>

text \<open>The loop that looks for the blank after the path, from \<open>sizeof("GET ")\<close> on, which is 5.\<close>

function find_blank :: "byte list \<Rightarrow> nat \<Rightarrow> nat option" where
  "find_blank line i = do {
     b \<leftarrow> byte_at line (5 + i);
     if b \<noteq> 32 then find_blank line (i + 1) else Some i }"
  by auto
termination
  by (relation "measure (\<lambda>(line, i). length line - i)") (auto simp: byte_at_def split: if_splits)

declare find_blank.simps [simp del]

definition content_type :: "byte list \<Rightarrow> byte list \<Rightarrow> byte list option" where
  "content_type path old =
    (if contains (ascii ''.'') path then
       (let type = tl (dropWhile (\<lambda>b. b \<noteq> 46) path)
        in if type = ascii ''html'' \<or> type = ascii ''css'' then write_at 0 (ascii ''text/'' @ type @ [0]) old
           else if type = ascii ''jpg'' \<or> type = ascii ''png'' \<or> type = ascii ''ico''
           then write_at 0 (ascii ''image/'' @ type @ [0]) old
           else Some old)
     else write_at 0 (ascii ''text/html'' @ [0]) old)"

definition http_request :: "http_event \<Rightarrow> http_event option" where
  "http_request ev = do {
     (r, line) \<leftarrow> readline (ev_buffer ev) 0 (replicate 1024 0);
     s \<leftarrow> c_string line;
     if contains (ascii ''GET'') s then do {
       i \<leftarrow> find_blank line 0;
       line1 \<leftarrow> write_at (5 + i) [0] line;
       path \<leftarrow> c_string (drop 5 line1);
       res \<leftarrow> write_at 0 (ascii ''./html/'' @ path @ [0]) (ev_resource ev);
       ct \<leftarrow> content_type path (ev_content_type ev);
       Some (ev\<lparr>ev_method := 0, ev_resource := res, ev_content_type := ct\<rparr>) }
     else Some ev }"

section \<open>The answer\<close>

definition not_found_body :: "byte list" where
  "not_found_body = ascii ''<html><head><title>404 Not Found</title></head><body><H1>404</H1></body></html>'' @ crlf @ crlf"

definition head_404 :: "byte list \<Rightarrow> byte list" where
  "head_404 ct = ascii ''HTTP/1.1 404 Not Found'' @ crlf @ ascii ''Content-Type: '' @ ct @ ascii '';charset=utf-8'' @ crlf @
     ascii ''Content-Length: 83'' @ crlf @ crlf @ not_found_body"

fun digits :: "nat \<Rightarrow> byte list" where
  "digits n = (if n < 10 then [of_nat (48 + n)] else digits (n div 10) @ [of_nat (48 + n mod 10)])"

declare digits.simps [simp del]

definition head_200 :: "byte list \<Rightarrow> nat \<Rightarrow> byte list" where
  "head_200 ct n = ascii ''HTTP/1.1 200 OK'' @ crlf @ ascii ''Content-Type: '' @ ct @ ascii '';charset=utf-8'' @ crlf @
     ascii ''Content-Length: '' @ digits n @ crlf @ crlf"

definition http_response :: "files \<Rightarrow> http_event \<Rightarrow> http_event option" where
  "http_response fs ev = do {
     name \<leftarrow> c_string (ev_resource ev);
     ct \<leftarrow> c_string (ev_content_type ev);
     let ev0 = ev\<lparr>ev_buffer := replicate BUFFER_LENGTH 0\<rparr>;
     case fs name of
       Some (Regular content) \<Rightarrow> do {
         b \<leftarrow> write_at 0 (head_200 ct (length content) @ [0]) (ev_buffer ev0);
         Some (ev0\<lparr>ev_ret_code := 200, ev_buffer := b, ev_length := int (length (head_200 ct (length content)))\<rparr>) }
     | Some Special \<Rightarrow> Some ev0
     | _ \<Rightarrow> do {
         b \<leftarrow> write_at 0 (head_404 ct @ [0]) (ev_buffer ev0);
         Some (ev0\<lparr>ev_ret_code := 404, ev_buffer := b, ev_length := int (length (head_404 ct))\<rparr>) } }"

section \<open>The callbacks\<close>

definition http_recv_cb :: "int \<Rightarrow> http_event server \<Rightarrow> (int \<times> http_event server) option" where
  "http_recv_cb fd s = do {
     (p, s1) \<leftarrow> ntyreactor_find_event_idx http_zero fd s;
     let (r, k) = recv_bytes fd BUFFER_LENGTH (s_kernel s1);
     case r of
       None \<Rightarrow> (let s3 = snd (nty_event_del p (s1\<lparr>s_kernel := k\<rparr>))
                in Some (- 1, upd_kernel (close_fd (ev_fd (ev_at s3 p))) s3))
     | Some bs \<Rightarrow> do {
         buf \<leftarrow> write_at 0 bs (ev_buffer (ev_at s1 p));
         let s3 = snd (nty_event_del p ((upd_ev p (\<lambda>ev. ev\<lparr>ev_buffer := buf\<rparr>) s1)\<lparr>s_kernel := k\<rparr>));
         if bs \<noteq> [] then do {
           b \<leftarrow> write_at (length bs) [0] buf;
           ev1 \<leftarrow> http_request ((ev_at s3 p)\<lparr>ev_length := int (length bs), ev_buffer := b\<rparr>);
           let s5 = upd_ev p (nty_event_set fd SendCB True) (upd_ev p (\<lambda>_. ev1) s3);
           Some (int (length bs), snd (nty_event_add EPOLLOUT p s5)) }
         else Some (0, upd_kernel (close_fd (ev_fd (ev_at s3 p))) s3) } }"

text \<open>What a call of \<open>sendfile\<close> meets: room for a number of bytes, a full socket buffer (EAGAIN), or
  an error such as a connection that was reset.\<close>

datatype sendfile_result = Sent nat | Again | Broken

text \<open>The loop on \<open>offset\<close>; \<open>i\<close> is the number of the call. It leaves only when all was sent.\<close>

partial_function (option) sendfile_loop ::
    "(nat \<Rightarrow> sendfile_result) \<Rightarrow> nat \<Rightarrow> byte list \<Rightarrow> nat \<Rightarrow> byte list \<Rightarrow> (byte list \<times> nat) option" where
  "sendfile_loop sf i content offset out =
    (if offset = length content then Some (out, i)
     else case sf i of
       Sent n \<Rightarrow> sendfile_loop sf (i + 1) content (offset + min n (length content - offset))
                   (out @ take n (drop offset content))
     | Again \<Rightarrow> sendfile_loop sf (i + 1) content offset out
     | Broken \<Rightarrow> sendfile_loop sf (i + 1) content offset out)"

declare sendfile_loop.simps [code]

definition http_send_cb :: "files \<Rightarrow> (nat \<Rightarrow> sendfile_result) \<Rightarrow> int \<Rightarrow> http_event server \<Rightarrow>
    (int \<times> http_event server) option" where
  "http_send_cb fs sf fd s = do {
     (p, s1) \<leftarrow> ntyreactor_find_event_idx http_zero fd s;
     ev \<leftarrow> http_response fs (ev_at s1 p);
     bs \<leftarrow> (if ev_length ev < 0 then None else read_at 0 (nat (ev_length ev)) (ev_buffer ev));
     let (len, k) = send_bytes fd bs (s_kernel s1);
     let s2 = (upd_ev p (\<lambda>_. ev) s1)\<lparr>s_kernel := k\<rparr>;
     if len > 0 then do {
       k1 \<leftarrow> (if ev_ret_code ev = 200 then do {
           name \<leftarrow> c_string (ev_resource ev);
           content \<leftarrow> (case fs name of Some (Regular c) \<Rightarrow> Some c | _ \<Rightarrow> None);
           (out, i) \<leftarrow> sendfile_loop sf 0 content 0 [];
           Some (k\<lparr>k_out := (k_out k)(fd := k_out k fd @ out)\<rparr>) }
         else Some k);
       let s3 = snd (nty_event_del p (s2\<lparr>s_kernel := k1\<rparr>));
       Some (0, snd (nty_event_add EPOLLIN p (upd_ev p (nty_event_set fd RecvCB True) s3))) }
     else let s3 = snd (nty_event_del p s2) in Some (0, upd_kernel (close_fd (ev_fd (ev_at s3 p))) s3) }"

definition http_accept_cb :: "int \<Rightarrow> bool \<Rightarrow> http_event server \<Rightarrow> (int \<times> http_event server) option" where
  "http_accept_cb fd reactor s =
    (if \<not> reactor then Some (- 1, s)
     else case accept_conn fd (s_kernel s) of (clientfd, k) \<Rightarrow>
       if clientfd = - 1 then Some (- 1, s)
       else if \<not> k_fcntl k clientfd then Some (- 1, s\<lparr>s_kernel := k\<rparr>)
       else do {
         (p, s1) \<leftarrow> ntyreactor_find_event_idx http_zero clientfd (s\<lparr>s_kernel := k\<rparr>);
         let s2 = upd_ev p (nty_event_set clientfd RecvCB True) s1;
         Some (0, snd (nty_event_add EPOLLIN p s2)) })"

fun http_handlers :: "files \<Rightarrow> (nat \<Rightarrow> sendfile_result) \<Rightarrow>
    callback \<Rightarrow> int \<Rightarrow> 32 word \<Rightarrow> bool \<Rightarrow> http_event server \<Rightarrow> (int \<times> http_event server) option" where
  "http_handlers fs sf NoCB fd evs arg s = None"
| "http_handlers fs sf RecvCB fd evs arg s = (if arg then http_recv_cb fd s else None)"
| "http_handlers fs sf SendCB fd evs arg s = (if arg then http_send_cb fs sf fd s else None)"
| "http_handlers fs sf AcceptCB fd evs arg s = http_accept_cb fd arg s"

end
