(* ===== verification/Http_Server.thy ===== *)
theory Http_Server
  imports Http WebSocket_Handshake
begin

text \<open>
  The properties of the HTTP server: its callbacks keep the invariant of the reactor, a request for a
  file is answered by the file, a request for nothing by the error page, and the loop that sends a file.
\<close>

section \<open>The callbacks keep the invariant\<close>

lemma http_recv_keeps:
  assumes ok: "reactor_ok s" and i: "interest s fd = Some (p, e)" and r: "http_recv_cb fd s = Some (n, s')"
  shows "keeps s fd s'"
proof -
  note d = reactor_okD [OF ok i]
  let ?p = "slot_of fd"
  obtain a k where rb: "recv_bytes fd BUFFER_LENGTH (s_kernel s) = (a, k)" by fastforce
  note fr = recv_bytes_frame [OF rb]
  note fa = find_armed [OF ok i, of http_zero]
  show ?thesis
  proof (cases a)
    case None
    let ?s1 = "s\<lparr>s_kernel := k\<rparr>"
    have ok1: "reactor_ok ?s1" by (rule ok_same_kernel [OF ok]) (use fr in simp_all)
    have i1: "interest ?s1 fd = Some (?p, e)" using fr i d(5) by simp
    have "s' = upd_kernel (close_fd (ev_fd (ev_at (snd (nty_event_del ?p ?s1)) ?p))) (snd (nty_event_del ?p ?s1))"
      using r fa rb None by (simp add: http_recv_cb_def Let_def)
    then show ?thesis using drop_keeps [OF ok1 i1] keeps_trans [OF keeps_same [OF ok1]] fr by simp
  next
    case (Some bs)
    obtain buf where w: "write_at 0 bs (ev_buffer (ev_at s ?p)) = Some buf"
      using r fa rb Some by (auto simp: http_recv_cb_def Let_def bind_Some_iff)
    let ?s1 = "(upd_ev ?p (\<lambda>ev. ev\<lparr>ev_buffer := buf\<rparr>) s)\<lparr>s_kernel := k\<rparr>"
    have ok1: "reactor_ok ?s1"
      by (rule ok_same_kernel, rule upd_data_ok [OF ok d(6)]) (use fr in \<open>simp_all add: same_arming_def frame_simps\<close>)
    have i1: "interest ?s1 fd = Some (?p, e)" using fr i d(5) by simp
    have k1: "keeps s fd ?s1" by (rule keeps_same [OF ok1]) (use fr in simp)
    show ?thesis
    proof (cases "bs = []")
      case True
      have "s' = upd_kernel (close_fd (ev_fd (ev_at (snd (nty_event_del ?p ?s1)) ?p))) (snd (nty_event_del ?p ?s1))"
        using r fa rb Some w True by (simp add: http_recv_cb_def Let_def)
      then show ?thesis using drop_keeps [OF ok1 i1] keeps_trans [OF k1] by simp
    next
      case False
      obtain ev1 where "s' = snd (nty_event_add EPOLLOUT ?p (upd_ev ?p (nty_event_set fd SendCB True)
          (upd_ev ?p (\<lambda>_. ev1) (snd (nty_event_del ?p ?s1)))))"
        using r fa rb Some w False by (auto simp: http_recv_cb_def Let_def bind_Some_iff)
      then show ?thesis using turn_keeps [OF ok1 i1, of EPOLLOUT SendCB] keeps_trans [OF k1] by (simp add: fits_def)
    qed
  qed
qed

lemma response_arming:
  assumes "http_response fs ev = Some ev'"
  shows "same_arming ev ev'"
proof -
  obtain name where n: "c_string (ev_resource ev) = Some name" using assms by (auto simp: http_response_def bind_Some_iff)
  consider c where "fs name = Some (Regular c)" | "fs name = Some Directory" | "fs name = Some Special" | "fs name = None"
    by (metis not_None_eq file_kind.exhaust)
  then show ?thesis using assms n by cases (auto simp: http_response_def Let_def same_arming_def bind_Some_iff)
qed

lemma http_send_keeps:
  assumes ok: "reactor_ok s" and i: "interest s fd = Some (p, e)" and r: "http_send_cb fs sf fd s = Some (n, s')"
  shows "keeps s fd s'"
proof -
  note d = reactor_okD [OF ok i]
  let ?p = "slot_of fd"
  note fa = find_armed [OF ok i, of http_zero]
  obtain ev bs where ev: "http_response fs (ev_at s ?p) = Some ev"
      and bs: "read_at 0 (nat (ev_length ev)) (ev_buffer ev) = Some bs" "\<not> ev_length ev < 0"
    using r fa by (auto simp: http_send_cb_def Let_def bind_Some_iff split: if_splits)
  obtain len k where sb: "send_bytes fd bs (s_kernel s) = (len, k)" by fastforce
  note fr = send_bytes_frame [OF sb]
  define s2 where "s2 = (upd_ev ?p (\<lambda>_. ev) s)\<lparr>s_kernel := k\<rparr>"
  have ok2: "reactor_ok s2" unfolding s2_def
    by (rule ok_same_kernel, rule upd_data_ok [OF ok d(6)]) (use fr response_arming [OF ev] in \<open>simp_all add: frame_simps\<close>)
  have k2: "keeps s fd s2" by (rule keeps_same [OF ok2]) (use fr in \<open>simp add: s2_def\<close>)
  have i2: "interest s2 fd = Some (?p, e)" using fr i d(5) by (simp add: s2_def)
  show ?thesis
  proof (cases "len > 0")
    case False
    then have "s' = upd_kernel (close_fd (ev_fd (ev_at (snd (nty_event_del ?p s2)) ?p))) (snd (nty_event_del ?p s2))"
      using r fa ev bs sb by (simp add: http_send_cb_def Let_def s2_def)
    then show ?thesis using drop_keeps [OF ok2 i2] keeps_trans [OF k2] by simp
  next
    case True
    let ?fin = "\<lambda>k1. snd (nty_event_add EPOLLIN ?p (upd_ev ?p (nty_event_set fd RecvCB True)
        (snd (nty_event_del ?p (s2\<lparr>s_kernel := k1\<rparr>)))))"
    obtain k1 where k1: "k_interest k1 = k_interest k" "k_open k1 = k_open k" and s': "s' = ?fin k1"
    proof (cases "ev_ret_code ev = 200")
      case c: True
      obtain out where "s' = ?fin (k\<lparr>k_out := (k_out k)(fd := k_out k fd @ out)\<rparr>)"
        using r fa ev bs sb True c by (auto simp: http_send_cb_def Let_def bind_Some_iff s2_def)
      then show ?thesis by (intro that [of "k\<lparr>k_out := (k_out k)(fd := k_out k fd @ out)\<rparr>"]) simp_all
    next
      case False
      then show ?thesis using r fa ev bs sb True
        by (intro that [of k]) (simp_all add: http_send_cb_def Let_def s2_def)
    qed
    let ?s3 = "s2\<lparr>s_kernel := k1\<rparr>"
    have ok3: "reactor_ok ?s3" by (rule ok_same_kernel [OF ok2]) (use k1 in \<open>simp_all add: s2_def\<close>)
    have i3: "interest ?s3 fd = Some (?p, e)" using i2 k1 by (simp add: s2_def)
    have k3: "keeps s2 fd ?s3" by (rule keeps_same [OF ok3]) (use k1 in \<open>simp add: s2_def\<close>)
    note dk = del_keeps [OF ok3 i3]
    have ok4: "reactor_ok (snd (nty_event_del ?p ?s3))" using dk(1) by (simp add: keeps_def)
    have "keeps (snd (nty_event_del ?p ?s3)) fd s'" unfolding s'
      by (rule rearm_keeps [OF ok4 dk(2) d(4)]) (use dk(3,4) d(3,6) in \<open>simp_all add: fits_def s2_def frame_simps\<close>)
    then show ?thesis using k2 k3 dk(1) keeps_trans by blast
  qed
qed

lemma http_accept_keeps:
  assumes ok: "reactor_ok s" and r: "http_accept_cb fd arg s = Some (n, s')"
  shows "reactor_ok s' \<and> (\<forall>fd' x. interest s fd' = Some x \<longrightarrow> interest s' fd' = Some x)"
proof (cases "arg \<and> fst (accept_conn fd (s_kernel s)) \<noteq> - 1")
  case False
  then show ?thesis using r ok by (auto simp: http_accept_cb_def split: prod.splits if_splits)
next
  case True
  obtain c k where a: "accept_conn fd (s_kernel s) = (c, k)" by fastforce
  then have "c \<noteq> - 1" using True by simp
  note ac = accept_ok [OF ok a this]
  show ?thesis
  proof (cases "k_fcntl k c")
    case False
    then show ?thesis using r a \<open>c \<noteq> - 1\<close> True ac(1,4) by (auto simp: http_accept_cb_def)
  next
    case fc: True
    obtain p s1 where f: "ntyreactor_find_event_idx http_zero c (s\<lparr>s_kernel := k\<rparr>) = Some (p, s1)"
      and s': "s' = snd (nty_event_add EPOLLIN p (upd_ev p (nty_event_set c RecvCB True) s1))"
      using r a \<open>c \<noteq> - 1\<close> True fc by (auto simp: http_accept_cb_def Let_def bind_Some_iff)
    show ?thesis unfolding s' by (rule new_conn_keeps [OF ok a \<open>c \<noteq> - 1\<close> f]) (simp add: fits_def)
  qed
qed

interpretation http: reactor_handlers "http_handlers fs sf" for fs sf
proof
  fix s :: "http_event server" and fd p e evs r s'
  assume ok: "reactor_ok s" and i: "interest s fd = Some (p, e)"
    and h: "http_handlers fs sf (ev_callback (ev_at s p)) fd evs True s = Some (r, s')"
  have k: "keeps s fd s'"
    using h http_recv_keeps [OF ok i] http_send_keeps [OF ok i] http_accept_keeps [OF ok]
    by (cases "ev_callback (ev_at s p)") (auto simp: keeps_def)
  then show "reactor_ok s'" by (simp add: keeps_def)
  show "interest s' fd' = Some x" if "fd' \<noteq> fd" "interest s fd' = Some x" for fd' x
    using k that unfolding keeps_def by blast
qed

section \<open>A request\<close>

definition get_request :: "byte list \<Rightarrow> byte list \<Rightarrow> byte list \<Rightarrow> byte list" where
  "get_request path version post = (ascii ''GET /'' @ path @ 32 # version) @ crlf @ post"

definition get_ok :: "byte list \<Rightarrow> byte list \<Rightarrow> byte list \<Rightarrow> bool" where
  "get_ok path version post \<longleftrightarrow> 32 \<notin> set path \<and> line_ok (ascii ''GET /'' @ path @ 32 # version) \<and> 0 \<notin> set post \<and>
     length (get_request path version post) < BUFFER_LENGTH"

lemma find_blank_at:
  assumes "32 \<notin> set todo" and "line = A @ pre @ todo @ 32 # rest" and "length A = 5"
  shows "find_blank line (length pre) = Some (length pre + length todo)"
  using assms
proof (induction todo arbitrary: pre)
  case Nil
  then have "byte_at line (5 + length pre) = Some 32" by (intro byte_at_here [of _ "A @ pre" _ rest]) simp_all
  then show ?case by (subst find_blank.simps) simp
next
  case (Cons b bs)
  have "byte_at line (5 + length pre) = Some b" by (rule byte_at_here [of _ "A @ pre" _ "bs @ 32 # rest"]) (use Cons.prems in simp_all)
  moreover have "find_blank line (length (pre @ [b])) = Some (length (pre @ [b]) + length bs)"
    by (rule Cons.IH) (use Cons.prems in simp_all)
  ultimately show ?case using Cons.prems(1) by (subst find_blank.simps) simp
qed

lemma ascii_get: "length (ascii ''GET /'') = 5" "take 3 (ascii ''GET /'' @ xs) = ascii ''GET''" "length (ascii ''GET'') = 3"
  by (simp_all add: ascii_def)

lemma contains_prefix: "take (length pat) xs = pat \<Longrightarrow> contains pat xs"
  by (cases xs) auto

lemma http_request_get:
  assumes g: "get_ok path version post" and b: "ev_buffer ev = get_request path version post @ 0 # junk"
    and r: "length (ev_resource ev) = BUFFER_LENGTH" and ct: "content_type path (ev_content_type ev) = Some ct"
  shows "\<exists>junk'. http_request ev = Some (ev\<lparr>ev_method := 0, ev_resource := ascii ''./html/'' @ path @ 0 # junk', ev_content_type := ct\<rparr>)"
proof -
  let ?l = "ascii ''GET /'' @ path @ 32 # version"
  have l: "13 \<notin> set ?l" "0 \<notin> set ?l" "length ?l < 1024" "32 \<notin> set path" "0 \<notin> set post" "0 \<notin> set path"
    using g by (auto simp: get_ok_def line_ok_def)
  let ?data = "get_request path version post"
  have z: "0 \<notin> set ?data" using l by (auto simp: get_request_def crlf_def)
  have cs: "c_string (ev_buffer ev) = Some ?data" unfolding b by (rule c_string_padded [OF z])
  define line where "line = ?l @ replicate (1024 - length ?l) 0"
  have rl: "readline (ev_buffer ev) 0 (replicate 1024 0) = Some (int (length ?l + 2), line)"
    using readline_loop_line [of ?l "[]" "[]" "length ?data" 1024 "ev_buffer ev" "post @ 0 # junk"] l(1,3) b
    unfolding readline_def cs by (simp add: line_def get_request_def crlf_def)
  have c1: "c_string line = Some ?l" unfolding line_def by (rule c_string_Some(2) [OF l(2)]) (use l(3) in simp)
  have c2: "contains (ascii ''GET'') ?l" by (rule contains_prefix) (simp only: ascii_get)
  have fb: "find_blank line 0 = Some (length path)"
    using find_blank_at [OF l(4), of line "ascii ''GET /''" "[]"] ascii_get(1) by (simp add: line_def)
  define tail where "tail = version @ replicate (1024 - length ?l) 0"
  have line: "line = (ascii ''GET /'' @ path) @ [32] @ tail" by (simp add: line_def tail_def)
  have w: "write_at (5 + length path) [0] line = Some ((ascii ''GET /'' @ path) @ [0] @ tail)"
    by (rule write_at_here [OF line]) (use ascii_get(1) in simp_all)
  have p: "c_string (drop 5 ((ascii ''GET /'' @ path) @ [0] @ tail)) = Some path"
    using c_string_padded [OF l(6)] ascii_get(1) by simp
  have "length (ascii ''./html/'' @ path @ [0]) \<le> length (ev_resource ev)" using l(3) r by (simp add: ascii_def)
  note wr = write_over [OF this]
  show ?thesis using rl c1 c2 fb w p ct wr
    by (intro exI [of _ "drop (length (ascii ''./html/'' @ path @ [0])) (ev_resource ev)"]) (simp add: http_request_def)
qed

section \<open>Sending a file\<close>

definition progress :: "(nat \<Rightarrow> sendfile_result) \<Rightarrow> bool" where
  "progress sf \<longleftrightarrow> (\<forall>m. \<exists>i\<ge>m. \<exists>n>0. sf i = Sent n)"

lemma sendfile_until:
  assumes "offset < length content" and "j \<ge> i" and "sf j = Sent n" and "n > 0"
  shows "\<exists>i' m. m > 0 \<and> sendfile_loop sf i content offset out =
    sendfile_loop sf i' content (offset + min m (length content - offset)) (out @ take m (drop offset content))"
  using assms(2)
proof (induction "j - i" arbitrary: i)
  case 0
  then have "i = j" by simp
  then show ?case using assms by (intro exI [of _ "j + 1"] exI [of _ n]) (subst sendfile_loop.simps, simp)
next
  case (Suc k)
  have ih: "\<exists>i' m. m > 0 \<and> sendfile_loop sf (i + 1) content offset out =
    sendfile_loop sf i' content (offset + min m (length content - offset)) (out @ take m (drop offset content))"
    using Suc.hyps(1) [of "i + 1"] Suc.hyps(2) Suc.prems by simp
  show ?case
  proof (cases "sf i")
    case (Sent m)
    show ?thesis
    proof (cases "m = 0")
      case True
      then have "sendfile_loop sf i content offset out = sendfile_loop sf (i + 1) content offset out"
        using Sent assms(1) by (subst sendfile_loop.simps) simp
      then show ?thesis using ih by simp
    next
      case False
      then show ?thesis using Sent assms(1) by (intro exI [of _ "i + 1"] exI [of _ m]) (subst sendfile_loop.simps, simp)
    qed
  qed (use ih assms(1) in \<open>(subst sendfile_loop.simps, simp)+\<close>)
qed

lemma sendfile_completes:
  assumes "progress sf" and "offset \<le> length content"
  shows "\<exists>i'. sendfile_loop sf i content offset out = Some (out @ drop offset content, i')"
  using assms(2)
proof (induction "length content - offset" arbitrary: offset i out rule: less_induct)
  case less
  show ?case
  proof (cases "offset = length content")
    case True
    then show ?thesis by (subst sendfile_loop.simps) simp
  next
    case False
    then have lt: "offset < length content" using less.prems by simp
    obtain j n where j: "j \<ge> i" "sf j = Sent n" "n > 0" using assms(1) unfolding progress_def by blast
    from sendfile_until [where sf = sf, OF lt j] obtain i' m where m: "m > 0" and
      s: "sendfile_loop sf i content offset out =
        sendfile_loop sf i' content (offset + min m (length content - offset)) (out @ take m (drop offset content))" by blast
    let ?o = "offset + min m (length content - offset)"
    obtain i'' where "sendfile_loop sf i' content ?o (out @ take m (drop offset content)) =
        Some ((out @ take m (drop offset content)) @ drop ?o content, i'')"
      using less.hyps [of ?o] m lt by fastforce
    moreover have "take m (drop offset content) @ drop ?o content = drop offset content"
      using append_take_drop_id [of m "drop offset content"] by (cases "m \<le> length content - offset") (simp_all add: add.commute)
    ultimately show ?thesis using s by simp
  qed
qed

lemma sendfile_stuck:
  assumes "\<forall>i. \<forall>n. sf i \<noteq> Sent n" and "offset \<noteq> length content"
  shows "sendfile_loop sf i content offset out = None"
proof -
  let ?P = "\<lambda>sf (i :: nat) content offset (out :: byte list) (r :: byte list \<times> nat).
    \<not> ((\<forall>i. \<forall>n. sf i \<noteq> Sent n) \<and> offset \<noteq> length (content :: byte list))"
  have "?P sf i content offset out r" if r: "sendfile_loop sf i content offset out = Some r" for r
  proof (rule sendfile_loop.raw_induct [where P = ?P, OF _ r], rule notI)
    fix f sf i content offset out r
    assume ih: "\<And>sf i content offset out r. f sf i content offset out = Some r \<Longrightarrow> ?P sf i content offset out r"
      and body: "(if offset = length content then Some (out, i)
        else case sf i of
          Sent n \<Rightarrow> f sf (i + 1) content (offset + min n (length content - offset)) (out @ take n (drop offset content))
        | Again \<Rightarrow> f sf (i + 1) content offset out
        | Broken \<Rightarrow> f sf (i + 1) content offset out) = Some r"
      and h: "(\<forall>i. \<forall>n. sf i \<noteq> Sent n) \<and> offset \<noteq> length content"
    have "f sf (i + 1) content offset out = Some r" using body h by (cases "sf i") auto
    from ih [OF this] h show False by blast
  qed
  then have "sendfile_loop sf i content offset out \<noteq> Some r" for r using assms by blast
  then show ?thesis by (meson not_None_eq)
qed

section \<open>An exchange\<close>

definition http_answer :: "files \<Rightarrow> byte list \<Rightarrow> byte list \<Rightarrow> byte list \<times> byte list" where
  "http_answer fs name ct = (case fs name of
     Some (Regular c) \<Rightarrow> (head_200 ct (length c), c) | _ \<Rightarrow> (head_404 ct, []))"

lemma http_response_answer:
  assumes "c_string (ev_resource ev) = Some name" and "c_string (ev_content_type ev) = Some ct"
    and "fs name \<noteq> Some Special" and "length (fst (http_answer fs name ct)) < BUFFER_LENGTH"
  shows "\<exists>ev'. http_response fs ev = Some ev' \<and> ev_resource ev' = ev_resource ev \<and>
    ev_length ev' = int (length (fst (http_answer fs name ct))) \<and>
    read_at 0 (length (fst (http_answer fs name ct))) (ev_buffer ev') = Some (fst (http_answer fs name ct)) \<and>
    (ev_ret_code ev' = 200 \<longleftrightarrow> (\<exists>c. fs name = Some (Regular c)))"
proof -
  let ?h = "fst (http_answer fs name ct)"
  have w: "write_at 0 (?h @ [0]) (replicate BUFFER_LENGTH 0) = Some (?h @ 0 # replicate (BUFFER_LENGTH - (length ?h + 1)) 0)"
    using write_over_zeros [of "?h @ [0]" BUFFER_LENGTH] assms(4) by simp
  have r: "read_at 0 (length ?h) (?h @ 0 # xs) = Some ?h" for xs by (simp add: read_at_def)
  consider c where "fs name = Some (Regular c)" | "fs name = Some Directory" | "fs name = None"
    using assms(3) by (metis not_None_eq file_kind.exhaust)
  then show ?thesis using w r assms(1,2) by cases (simp_all add: http_response_def Let_def http_answer_def)
qed

lemma http_send_answer:
  assumes ok: "reactor_ok s" and i: "interest s fd = Some (p, e)"
    and n: "c_string (ev_resource (ev_at s p)) = Some name" and ct: "c_string (ev_content_type (ev_at s p)) = Some ct"
    and f: "fs name \<noteq> Some Special" and l: "length (fst (http_answer fs name ct)) < BUFFER_LENGTH"
    and room: "length (fst (http_answer fs name ct)) \<le> c_room (k_conn (s_kernel s) fd)" and pr: "progress sf"
  shows "\<exists>s'. http_send_cb fs sf fd s = Some (0, s') \<and> interest s' fd = Some (p, EPOLLIN) \<and>
    k_out (s_kernel s') fd = k_out (s_kernel s) fd @ fst (http_answer fs name ct) @ snd (http_answer fs name ct)"
proof -
  note d = reactor_okD [OF ok i]
  let ?p = "slot_of fd" and ?h = "fst (http_answer fs name ct)" and ?b = "snd (http_answer fs name ct)"
  note fa = find_armed [OF ok i, of http_zero]
  obtain ev where ev: "http_response fs (ev_at s p) = Some ev" "ev_resource ev = ev_resource (ev_at s p)"
      "ev_length ev = int (length ?h)" "read_at 0 (length ?h) (ev_buffer ev) = Some ?h"
      "ev_ret_code ev = 200 \<longleftrightarrow> (\<exists>c. fs name = Some (Regular c))"
    using http_response_answer [where fs = fs, OF n ct f l] by blast
  have ne: "?h \<noteq> []" using f by (auto simp: http_answer_def head_200_def head_404_def crlf_def split: option.split file_kind.split)
  obtain len k where sb: "send_bytes fd ?h (s_kernel s) = (len, k)" by fastforce
  then have len: "len = int (length ?h)" and out: "k_out k fd = k_out (s_kernel s) fd @ ?h" and len0: "len > 0"
    using room ne by (auto simp: send_bytes_def Let_def)
  note fr = send_bytes_frame [OF sb]
  define k1 where "k1 = (if ev_ret_code ev = 200 then k\<lparr>k_out := (k_out k)(fd := k_out k fd @ ?b)\<rparr> else k)"
  have k1: "k_interest k1 = interest s" "k_open k1 = k_open (s_kernel s)" using fr by (simp_all add: k1_def)
  have out1: "k_out k1 fd = k_out (s_kernel s) fd @ ?h @ ?b"
    using out ev(5) by (auto simp: k1_def http_answer_def split: option.split file_kind.split)
  obtain i' where sl: "sendfile_loop sf 0 ?b 0 [] = Some (?b, i')"
    using sendfile_completes [OF pr, of 0 ?b 0 "[]"] by auto
  define s3 where "s3 = (upd_ev ?p (\<lambda>_. ev) s)\<lparr>s_kernel := k1\<rparr>"
  have ok3: "reactor_ok s3" unfolding s3_def
    by (rule ok_same_kernel, rule upd_data_ok [OF ok d(6)])
      (use k1 response_arming [OF ev(1)] d(5) in \<open>simp_all add: frame_simps\<close>)
  have i3: "interest s3 fd = Some (?p, e)" using k1 i d(5) by (simp add: s3_def)
  define s5 where "s5 = snd (nty_event_add EPOLLIN ?p (upd_ev ?p (nty_event_set fd RecvCB True) (snd (nty_event_del ?p s3))))"
  have body: "(if ev_ret_code ev = 200 then do {
           name \<leftarrow> c_string (ev_resource ev);
           content \<leftarrow> (case fs name of Some (Regular c) \<Rightarrow> Some c | _ \<Rightarrow> None);
           (out, i) \<leftarrow> sendfile_loop sf 0 content 0 [];
           Some (k\<lparr>k_out := (k_out k)(fd := k_out k fd @ out)\<rparr>) } else Some k) = Some k1"
    using n ev(2,5) sl by (auto simp: k1_def http_answer_def)
  have r: "http_send_cb fs sf fd s = Some (0, s5)"
    using fa ev(1,3,4) sb len0 d(5) body by (simp add: http_send_cb_def Let_def s5_def s3_def)
  have "interest s5 fd = Some (p, EPOLLIN) \<and> k_out (s_kernel s5) fd = k_out k1 fd"
  proof -
    note dk = del_keeps [OF ok3 i3]
    let ?s4 = "snd (nty_event_del ?p s3)"
    have ok4: "reactor_ok ?s4" using dk(1) by (simp add: keeps_def)
    have in4: "fst ?p < length (evblk (s_reactor ?s4))" using dk(3) d(6) by (simp add: s3_def frame_simps)
    have in3: "fst ?p < length (evblk (s_reactor s3))" using d(6) by (simp add: s3_def frame_simps)
    have "ev_status (ev_at ?s4 ?p) \<noteq> 1" "fd \<in> set (k_open (s_kernel ?s4))" "k_out (s_kernel ?s4) = k_out k1"
      using d(1) k1 ev_at_upd [OF in3] unfolding del_armed [OF ok3 i3] by (simp_all add: s3_def frame_simps)
    then show ?thesis using add_result [OF ok4 dk(2) d(4) in4, of EPOLLIN RecvCB] d(5)
      by (simp add: s5_def Let_def frame_simps)
  qed
  then show ?thesis using r out1 by auto
qed

definition http_buffers :: "http_event \<Rightarrow> bool" where
  "http_buffers ev \<longleftrightarrow> length (ev_buffer ev) = BUFFER_LENGTH \<and> length (ev_resource ev) = BUFFER_LENGTH"

lemma http_recv_get:
  assumes ok: "reactor_ok s" and i: "interest s fd = Some (p, e)" and bf: "http_buffers (ev_at s p)"
    and c: "c_in (k_conn (s_kernel s) fd) = get_request path version post # segs" and g: "get_ok path version post"
    and ct: "content_type path (ev_content_type (ev_at s p)) = Some ctb"
  shows "\<exists>s1. http_recv_cb fd s = Some (int (length (get_request path version post)), s1) \<and> reactor_ok s1 \<and>
    interest s1 fd = Some (p, EPOLLOUT) \<and> c_string (ev_resource (ev_at s1 p)) = Some (ascii ''./html/'' @ path) \<and>
    ev_content_type (ev_at s1 p) = ctb \<and> k_out (s_kernel s1) = k_out (s_kernel s) \<and>
    c_room (k_conn (s_kernel s1) fd) = c_room (k_conn (s_kernel s) fd)"
proof -
  note d = reactor_okD [OF ok i]
  let ?p = "slot_of fd" and ?data = "get_request path version post" and ?c = "k_conn (s_kernel s) fd"
  have len: "length ?data < BUFFER_LENGTH" "?data \<noteq> []" using g by (auto simp: get_ok_def get_request_def)
  define k where "k = (s_kernel s)\<lparr>k_conn := (k_conn (s_kernel s))(fd := ?c\<lparr>c_in := segs\<rparr>)\<rparr>"
  have rb: "recv_bytes fd BUFFER_LENGTH (s_kernel s) = (Some ?data, k)" using c len(1) by (simp add: recv_bytes_def k_def)
  define old where "old = ev_buffer (ev_at s p)"
  have lo: "length old = BUFFER_LENGTH" using bf by (simp add: old_def http_buffers_def)
  have w1: "write_at 0 ?data old = Some (?data @ drop (length ?data) old)" using len(1) lo by (intro write_over) simp
  have w2: "write_at (length ?data) [0] (?data @ drop (length ?data) old) = Some (?data @ 0 # drop (length ?data + 1) old)"
  proof -
    have "drop (length ?data) old = [old ! length ?data] @ drop (length ?data + 1) old"
      using Cons_nth_drop_Suc [of "length ?data" old] len(1) lo by simp
    then show ?thesis using write_at_here [of _ ?data "[old ! length ?data]" "drop (length ?data + 1) old" _ "[0]"] by simp
  qed
  define s1 where "s1 = (upd_ev ?p (\<lambda>ev. ev\<lparr>ev_buffer := ?data @ drop (length ?data) old\<rparr>) s)\<lparr>s_kernel := k\<rparr>"
  have ok1: "reactor_ok s1" unfolding s1_def
    by (rule ok_same_kernel, rule upd_data_ok [OF ok d(6)]) (simp_all add: k_def same_arming_def frame_simps)
  have i1: "interest s1 fd = Some (?p, e)" using i d(5) by (simp add: s1_def k_def)
  have in1: "fst ?p < length (evblk (s_reactor s1))" using d(6) by (simp add: s1_def frame_simps)
  define s3 where "s3 = snd (nty_event_del ?p s1)"
  have e3: "ev_at s3 ?p = (ev_at s ?p)\<lparr>ev_buffer := ?data @ drop (length ?data) old, ev_status := 0\<rparr>"
    using ev_at_upd [OF in1] ev_at_upd [OF d(6)] by (simp add: s3_def del_armed [OF ok1 i1]) (simp add: s1_def)
  let ?ev = "(ev_at s3 ?p)\<lparr>ev_length := int (length ?data), ev_buffer := ?data @ 0 # drop (length ?data + 1) old\<rparr>"
  obtain junk where req: "http_request ?ev = Some (?ev\<lparr>ev_method := 0, ev_resource := ascii ''./html/'' @ path @ 0 # junk, ev_content_type := ctb\<rparr>)"
    using http_request_get [OF g, of ?ev _ ctb] bf ct d(5) by (auto simp: e3 http_buffers_def)
  let ?ev1 = "?ev\<lparr>ev_method := 0, ev_resource := ascii ''./html/'' @ path @ 0 # junk, ev_content_type := ctb\<rparr>"
  define s5 where "s5 = snd (nty_event_add EPOLLOUT ?p (upd_ev ?p (nty_event_set fd SendCB True) (upd_ev ?p (\<lambda>_. ?ev1) s3)))"
  have "ev_status ?ev1 \<noteq> 1" by (simp add: e3)
  note ta = turn_around [OF ok1 i1 this, of EPOLLOUT SendCB s5, folded s3_def]
  have "fits EPOLLOUT SendCB" by (simp add: fits_def)
  note ta = ta [OF this s5_def]
  have r: "http_recv_cb fd s = Some (int (length ?data), s5)"
    using find_armed [OF ok i, of http_zero] rb w1 w2 req len(2) d(5)
    by (simp add: http_recv_cb_def Let_def old_def flip: s1_def s3_def) (simp add: s5_def s3_def s1_def old_def)
  have "0 \<notin> set (ascii ''./html/'' @ path)" using g by (auto simp: get_ok_def line_ok_def ascii_def)
  then have "c_string (ev_resource ?ev1) = Some (ascii ''./html/'' @ path)" using c_string_padded [of "ascii ''./html/'' @ path" junk] by simp
  then show ?thesis using r ta d(5) by (simp add: nty_event_set_def) (simp add: s1_def k_def)
qed

section \<open>The properties of the server\<close>

text \<open>C19: a GET request of one segment is answered: the head and the content of the file under ./html at the path of the request when it is a regular file, the error page when it is a directory or is missing, for every type of content, provided the socket takes the head at once and sendfile makes progress again and again; the connection then waits for the next request.\<close>

theorem http_get_answered:
  assumes ok: "reactor_ok s" and i: "interest s fd = Some (p, EPOLLIN)" and bf: "http_buffers (ev_at s p)"
    and c: "c_in (k_conn (s_kernel s) fd) = get_request path version post # segs" and g: "get_ok path version post"
    and ct: "content_type path (ev_content_type (ev_at s p)) = Some ctb" "c_string ctb = Some ct"
    and f: "fs (ascii ''./html/'' @ path) \<noteq> Some Special"
    and ans: "http_answer fs (ascii ''./html/'' @ path) ct = (head, content)" "length head < BUFFER_LENGTH"
      "length head \<le> c_room (k_conn (s_kernel s) fd)" and pr: "progress sf"
  shows "\<exists>s1 s2. http_recv_cb fd s = Some (int (length (get_request path version post)), s1) \<and>
    interest s1 fd = Some (p, EPOLLOUT) \<and> http_send_cb fs sf fd s1 = Some (0, s2) \<and>
    interest s2 fd = Some (p, EPOLLIN) \<and> k_out (s_kernel s2) fd = k_out (s_kernel s) fd @ head @ content"
proof -
  obtain s1 where s1: "http_recv_cb fd s = Some (int (length (get_request path version post)), s1)" "reactor_ok s1"
      "interest s1 fd = Some (p, EPOLLOUT)" "c_string (ev_resource (ev_at s1 p)) = Some (ascii ''./html/'' @ path)"
      "ev_content_type (ev_at s1 p) = ctb" "k_out (s_kernel s1) = k_out (s_kernel s)"
      "c_room (k_conn (s_kernel s1) fd) = c_room (k_conn (s_kernel s) fd)"
    using http_recv_get [OF ok i bf c g ct(1)] by blast
  have "c_string (ev_content_type (ev_at s1 p)) = Some ct" using s1(5) ct(2) by simp
  from http_send_answer [where fs = fs and sf = sf, OF s1(2-4) this f] ans s1(6,7) pr
  show ?thesis using s1(1,3) by auto
qed

text \<open>when the connection breaks while a file is being sent, the callback that sends never returns: sendfile fails each time, the offset stays where it is, and the loop only leaves when everything was sent.\<close>

theorem http_broken_connection_hangs:
  assumes ok: "reactor_ok s" and i: "interest s fd = Some (p, EPOLLOUT)" and cb: "ev_callback (ev_at s p) = SendCB"
    and n: "c_string (ev_resource (ev_at s p)) = Some name" "c_string (ev_content_type (ev_at s p)) = Some ct"
    and f: "fs name = Some (Regular content)" "content \<noteq> []" and l: "length (head_200 ct (length content)) < BUFFER_LENGTH"
    and room: "length (head_200 ct (length content)) \<le> c_room (k_conn (s_kernel s) fd)"
    and broken: "\<forall>i n. sf i \<noteq> Sent n"
  shows "http_send_cb fs sf fd s = None \<and> run_rounds (http_handlers fs sf) (Some ((p, EPOLLOUT) # rs) # ws) s = None"
proof -
  note fa = find_armed [OF ok i, of http_zero]
  have p: "p = slot_of fd" using reactor_okD(5) [OF ok i] .
  let ?h = "head_200 ct (length content)"
  have a: "http_answer fs name ct = (?h, content)" using f by (simp add: http_answer_def)
  obtain ev where ev: "http_response fs (ev_at s p) = Some ev" "ev_resource ev = ev_resource (ev_at s p)"
      "ev_length ev = int (length ?h)" "read_at 0 (length ?h) (ev_buffer ev) = Some ?h" "ev_ret_code ev = 200"
    using http_response_answer [where fs = fs, OF n] f(1) l unfolding a by auto
  have ne: "?h \<noteq> []" by (simp add: head_200_def crlf_def)
  obtain len k where sb: "send_bytes fd ?h (s_kernel s) = (len, k)" by fastforce
  then have len: "len > 0" using room ne by (auto simp: send_bytes_def Let_def)
  have "sendfile_loop sf 0 content 0 [] = None" using broken f(2) by (intro sendfile_stuck) auto
  then have r: "http_send_cb fs sf fd s = None"
    using fa ev sb len n(1) f(1) by (simp add: http_send_cb_def Let_def p)
  have "ev_fd (ev_at s p) = fd" "ev_arg (ev_at s p)" "ev_events (ev_at s p) = EPOLLOUT"
    using reactor_okD(2) [OF ok i] by (auto simp: armed_def)
  then show ?thesis using r cb by (simp add: call_if_def Let_def)
qed

section \<open>Samples\<close>

definition http_sample :: "32 word \<Rightarrow> callback \<Rightarrow> byte list \<Rightarrow> byte list \<Rightarrow> http_event server" where
  "http_sample e cb res data = \<lparr>s_reactor = \<lparr>epfd = 3, blkcnt = 1, evblk = [\<lambda>i. if i = 5
       then http_zero\<lparr>ev_fd := 5, ev_callback := cb, ev_arg := True, ev_events := e, ev_status := 1, ev_resource := res\<rparr> else http_zero]\<rparr>,
     s_kernel = \<lparr>k_open = [0, 1, 2, 3, 5], k_interest = [5 \<mapsto> ((0, 5), e)], k_backlog = (\<lambda>_. []), k_fcntl = (\<lambda>_. True),
       k_conn = (\<lambda>_. \<lparr>c_in = [data], c_eof = False, c_room = 1000\<rparr>), k_out = (\<lambda>_. [])\<rparr>,
     s_malloc = (\<lambda>_. True), s_calls = 2, s_live = 2\<rparr>"

lemma http_sample_ok: "fits e cb \<Longrightarrow> reactor_ok (http_sample e cb res data)"
  by (auto simp: reactor_ok_def http_sample_def table_ok_def armed_def ev_at_def slot_of_def split: if_splits)

definition sample_files :: files where
  "sample_files = (\<lambda>_. None)(ascii ''./html/a.css'' := Some (Regular [98, 123, 125]), ascii ''./html/'' := Some Directory)"

lemma sample_get:
  "get_ok (ascii ''a.css'') (ascii ''HTTP/1.1'') crlf"
  "sample_files (ascii ''./html/'' @ ascii ''a.css'') = Some (Regular [98, 123, 125])"
  by (simp_all add: get_ok_def line_ok_def get_request_def ascii_def crlf_def sample_files_def)

lemma sample_type:
  "content_type (ascii ''a.css'') (replicate 512 0) = Some (ascii ''text/css'' @ replicate 504 0)"
  "c_string (ascii ''text/css'' @ replicate 504 0) = Some (ascii ''text/css'')"
proof -
  have "write_at 0 (ascii ''text/css'' @ [0]) (replicate 512 0) = Some ((ascii ''text/css'' @ [0]) @ replicate (512 - length (ascii ''text/css'' @ [0])) 0)"
    by (rule write_over_zeros) (simp add: ascii_def)
  moreover have "(ascii ''text/css'' @ [0]) @ replicate (512 - length (ascii ''text/css'' @ [0])) 0 = ascii ''text/css'' @ replicate 504 0"
    by (simp add: ascii_def numeral_eq_Suc)
  moreover have "content_type (ascii ''a.css'') old = write_at 0 (ascii ''text/css'' @ [0]) old" for old
    by (simp add: content_type_def ascii_def)
  ultimately show "content_type (ascii ''a.css'') (replicate 512 0) = Some (ascii ''text/css'' @ replicate 504 0)" by simp
  show "c_string (ascii ''text/css'' @ replicate 504 0) = Some (ascii ''text/css'')"
    by (rule c_string_Some(2)) (simp_all add: ascii_def)
qed

theorem http_get_answered_witness:
  "\<exists>s1 s2. http_recv_cb 5 (http_sample EPOLLIN RecvCB (replicate BUFFER_LENGTH 0)
       (get_request (ascii ''a.css'') (ascii ''HTTP/1.1'') crlf)) = Some (23, s1) \<and>
     http_send_cb sample_files (\<lambda>i. if even i then Again else Sent 1) 5 s1 = Some (0, s2) \<and>
     k_out (s_kernel s2) 5 = head_200 (ascii ''text/css'') 3 @ [98, 123, 125]"
proof -
  let ?s = "http_sample EPOLLIN RecvCB (replicate BUFFER_LENGTH 0) (get_request (ascii ''a.css'') (ascii ''HTTP/1.1'') crlf)"
  have ok: "reactor_ok ?s" by (rule http_sample_ok) (simp add: fits_def)
  have i: "interest ?s 5 = Some ((0, 5), EPOLLIN)" by (simp add: http_sample_def)
  have bf: "http_buffers (ev_at ?s (0, 5))" by (simp add: http_sample_def ev_at_def http_buffers_def http_zero_def)
  have c: "c_in (k_conn (s_kernel ?s) 5) = get_request (ascii ''a.css'') (ascii ''HTTP/1.1'') crlf # []" by (simp add: http_sample_def)
  have ct: "content_type (ascii ''a.css'') (ev_content_type (ev_at ?s (0, 5))) = Some (ascii ''text/css'' @ replicate 504 0)"
    using sample_type(1) by (simp add: http_sample_def ev_at_def http_zero_def)
  have f: "sample_files (ascii ''./html/'' @ ascii ''a.css'') \<noteq> Some Special" using sample_get(2) by simp
  have a: "http_answer sample_files (ascii ''./html/'' @ ascii ''a.css'') (ascii ''text/css'') = (head_200 (ascii ''text/css'') 3, [98, 123, 125])"
    unfolding http_answer_def sample_get(2) by (simp add: eval_nat_numeral)
  have l: "length (head_200 (ascii ''text/css'') 3) < BUFFER_LENGTH" "length (head_200 (ascii ''text/css'') 3) \<le> c_room (k_conn (s_kernel ?s) 5)"
    by (simp_all add: head_200_def ascii_def crlf_def digits.simps http_sample_def)
  have "\<exists>i\<ge>m. \<exists>n>0. (if even i then Again else Sent 1) = Sent n" for m :: nat by (rule exI [of _ "2 * m + 1"]) simp
  then have pr: "progress (\<lambda>i. if even i then Again else Sent 1)" by (simp add: progress_def)
  have len: "length (get_request (ascii ''a.css'') (ascii ''HTTP/1.1'') crlf) = 23" by (simp add: get_request_def ascii_def crlf_def)
  have out: "k_out (s_kernel ?s) 5 = []" by (simp add: http_sample_def)
  from http_get_answered [OF ok i bf c sample_get(1) ct sample_type(2) f a l pr] len out
  show ?thesis by auto
qed

theorem http_broken_connection_hangs_witness:
  "run_rounds (http_handlers sample_files (\<lambda>_. Broken)) [Some [((0, 5), EPOLLOUT)]]
     (http_sample EPOLLOUT SendCB (ascii ''./html/a.css'' @ replicate 20 0) []) = None"
proof -
  let ?s = "http_sample EPOLLOUT SendCB (ascii ''./html/a.css'' @ replicate 20 0) []"
  have ok: "reactor_ok ?s" by (rule http_sample_ok) (simp add: fits_def)
  have i: "interest ?s 5 = Some ((0, 5), EPOLLOUT)" by (simp add: http_sample_def)
  have ev: "ev_callback (ev_at ?s (0, 5)) = SendCB" "ev_resource (ev_at ?s (0, 5)) = ascii ''./html/a.css'' @ replicate 20 0"
      "ev_content_type (ev_at ?s (0, 5)) = [] @ replicate 512 0" by (simp_all add: http_sample_def ev_at_def http_zero_def)
  have n: "c_string (ev_resource (ev_at ?s (0, 5))) = Some (ascii ''./html/a.css'')"
    unfolding ev(2) by (rule c_string_Some(2)) (simp_all add: ascii_def)
  have ct: "c_string (ev_content_type (ev_at ?s (0, 5))) = Some []" unfolding ev(3) by (rule c_string_Some(2)) simp_all
  have f: "sample_files (ascii ''./html/a.css'') = Some (Regular [98, 123, 125])" by (simp add: sample_files_def ascii_def)
  have l: "length (head_200 [] (length [98 :: byte, 123, 125])) < BUFFER_LENGTH"
      "length (head_200 [] (length [98 :: byte, 123, 125])) \<le> c_room (k_conn (s_kernel ?s) 5)"
    by (simp_all add: head_200_def ascii_def crlf_def digits.simps http_sample_def)
  show ?thesis using http_broken_connection_hangs [where fs = sample_files and sf = "\<lambda>_. Broken", OF ok i ev(1) n ct f _ l] by blast
qed

end
