(* ===== verification/SingleTW.thy ===== *)
theory SingleTW
  imports Prelude
begin

text \<open>
  The single-level time wheel that watches the heartbeats of connections
  (\<open>3.2.3\<dots>/single_tw.c\<close>): every heartbeat is a node in one of sixteen lists, a connection counts its
  nodes, and a connection whose last node expires is closed. The tables, the iterators and the lists
  are written as in the source; a read or a write outside a table is \<open>None\<close>.
\<close>

section \<open>The state\<close>

abbreviation (input) MAX_TIMER :: nat where "MAX_TIMER \<equiv> 131071"
abbreviation (input) MAX_CONN :: nat where "MAX_CONN \<equiv> 65535"
abbreviation (input) TW_SIZE :: nat where "TW_SIZE \<equiv> 16"
abbreviation (input) EXPIRE :: nat where "EXPIRE \<equiv> 10"

text \<open>A pointer to a timer node is null, the head that is part of a list, or an element of the table.\<close>

datatype tptr = TNull | THead nat | TNode nat

record conn_node =
  cn_used :: nat
  cn_id :: int

record timer_node =
  tn_next :: tptr
  tn_node :: nat
  tn_idx :: nat

record link_list =
  ll_head :: tptr
  ll_tail :: tptr

record single_tw =
  timer_nodes :: "nat \<Rightarrow> timer_node"
  conn_nodes :: "nat \<Rightarrow> conn_node"
  t_iter :: nat
  c_iter :: nat
  tick :: nat
  wheel :: "nat \<Rightarrow> link_list"

section \<open>The operations\<close>

text \<open>The tables have \<open>MAX_TIMER\<close> and \<open>MAX_CONN\<close> elements, and the masks are the same numbers:
  the last masked index is one past the end. \<open>x AND (2 ^ n - 1)\<close> is \<open>x mod 2 ^ n\<close>.\<close>

partial_function (option) next_timer :: "(nat \<Rightarrow> timer_node) \<Rightarrow> nat \<Rightarrow> nat option" where
  "next_timer nodes it =
    (if it mod 131072 \<ge> MAX_TIMER then None
     else if tn_idx (nodes (it mod 131072)) > 0 then next_timer nodes (u32_add it 1)
     else Some it)"

declare next_timer.simps [code]

definition get_timer_node :: "single_tw \<Rightarrow> (nat \<times> single_tw) option" where
  "get_timer_node s = do {
     it \<leftarrow> next_timer (timer_nodes s) (u32_add (t_iter s) 1);
     if it \<ge> MAX_TIMER then None
     else Some (it, s\<lparr>t_iter := it, timer_nodes := (timer_nodes s)(it := (timer_nodes s it)\<lparr>tn_idx := it\<rparr>)\<rparr>) }"

partial_function (option) next_conn :: "(nat \<Rightarrow> conn_node) \<Rightarrow> nat \<Rightarrow> nat option" where
  "next_conn nodes it =
    (if it mod 65536 \<ge> MAX_CONN then None
     else if cn_used (nodes (it mod 65536)) > 0 then next_conn nodes (u32_add it 1)
     else Some it)"

declare next_conn.simps [code]

definition get_conn_node :: "single_tw \<Rightarrow> (nat \<times> single_tw) option" where
  "get_conn_node s = do {
     it \<leftarrow> next_conn (conn_nodes s) (u32_add (c_iter s) 1);
     if it \<ge> MAX_CONN then None else Some (it, s\<lparr>c_iter := it\<rparr>) }"

text \<open>\<open>p->next = q\<close> for a pointer to a node or to the head of a list.\<close>

definition set_next :: "tptr \<Rightarrow> tptr \<Rightarrow> single_tw \<Rightarrow> single_tw option" where
  "set_next p q s = (case p of
     TNull \<Rightarrow> None
   | THead i \<Rightarrow> Some (s\<lparr>wheel := (wheel s)(i := (wheel s i)\<lparr>ll_head := q\<rparr>)\<rparr>)
   | TNode j \<Rightarrow> Some (s\<lparr>timer_nodes := (timer_nodes s)(j := (timer_nodes s j)\<lparr>tn_next := q\<rparr>)\<rparr>))"

text \<open>\<open>used\<close> is a \<open>uint8_t\<close>; the sum in the index is that of \<open>uint32_t\<close>.\<close>

definition add_conn :: "nat \<Rightarrow> int \<Rightarrow> single_tw \<Rightarrow> single_tw option" where
  "add_conn c delay s = do {
     let i = nat ((int (tick s) + int EXPIRE + delay) mod 4294967296) mod TW_SIZE;
     (j, s1) \<leftarrow> get_timer_node s;
     let s2 = s1\<lparr>conn_nodes := (conn_nodes s1)(c := (conn_nodes s1 c)\<lparr>cn_used := (cn_used (conn_nodes s1 c) + 1) mod 256\<rparr>)\<rparr>;
     let s3 = s2\<lparr>timer_nodes := (timer_nodes s2)(j := (timer_nodes s2 j)\<lparr>tn_node := c\<rparr>)\<rparr>;
     s4 \<leftarrow> set_next (ll_tail (wheel s3 i)) (TNode j) s3;
     let s5 = s4\<lparr>wheel := (wheel s4)(i := (wheel s4 i)\<lparr>ll_tail := TNode j\<rparr>)\<rparr>;
     set_next (TNode j) TNull s5 }"

definition link_clear :: "nat \<Rightarrow> single_tw \<Rightarrow> single_tw" where
  "link_clear i s = s\<lparr>wheel := (wheel s)(i := \<lparr>ll_head = TNull, ll_tail = THead i\<rparr>)\<rparr>"

text \<open>The walk over the list; \<open>kills\<close> collects the connections reported as closed.\<close>

partial_function (option) check_loop :: "tptr \<Rightarrow> single_tw \<Rightarrow> nat list \<Rightarrow> (single_tw \<times> nat list) option" where
  "check_loop current s kills = (case current of
     TNull \<Rightarrow> Some (s, kills)
   | THead i \<Rightarrow> None
   | TNode j \<Rightarrow>
      (let nxt = tn_next (timer_nodes s j);
           c = tn_node (timer_nodes s j);
           u = (cn_used (conn_nodes s c) + 255) mod 256;
           s1 = s\<lparr>conn_nodes := (conn_nodes s)(c := (conn_nodes s c)\<lparr>cn_used := u\<rparr>),
                  timer_nodes := (timer_nodes s)(j := (timer_nodes s j)\<lparr>tn_idx := 0\<rparr>)\<rparr>
       in if u = 0
          then check_loop nxt (s1\<lparr>timer_nodes := (timer_nodes s1)(j := (timer_nodes s1 j)\<lparr>tn_next := TNull\<rparr>)\<rparr>) (kills @ [c])
          else check_loop nxt s1 kills))"

declare check_loop.simps [code]

definition check_conn :: "single_tw \<Rightarrow> (single_tw \<times> nat list) option" where
  "check_conn s = do {
     let itick = tick s mod TW_SIZE;
     let s1 = s\<lparr>tick := u32_add (tick s) 1\<rparr>;
     (s2, kills) \<leftarrow> check_loop (ll_head (wheel s1 itick)) s1 [];
     Some (link_clear itick s2, kills) }"

text \<open>The start of \<open>main\<close>: empty tables and lists.\<close>

definition single_init :: single_tw where
  "single_init = \<lparr>timer_nodes = (\<lambda>_. \<lparr>tn_next = TNull, tn_node = 0, tn_idx = 0\<rparr>),
     conn_nodes = (\<lambda>_. \<lparr>cn_used = 0, cn_id = 0\<rparr>), t_iter = 0, c_iter = 0, tick = 0,
     wheel = (\<lambda>i. \<lparr>ll_head = TNull, ll_tail = THead i\<rparr>)\<rparr>"

text \<open>The main loop at one of its wake-ups: one check for each second that has passed.\<close>

fun check_seconds :: "nat \<Rightarrow> single_tw \<Rightarrow> (single_tw \<times> nat list) option" where
  "check_seconds 0 s = Some (s, [])"
| "check_seconds (Suc n) s = do {
     (s1, k1) \<leftarrow> check_conn s;
     (s2, k2) \<leftarrow> check_seconds n s1;
     Some (s2, k1 @ k2) }"

section \<open>The abstract wheel\<close>

text \<open>Heartbeats by the second at which they expire.\<close>

record beats =
  now :: nat
  due :: "nat \<Rightarrow> nat list"

text \<open>
  A heartbeat lives for ten seconds and its delay, where these fit the turn of the wheel, so for a delay
  of at most five; a longer delay loses the whole turns of 16 seconds.
\<close>

definition expiry :: "nat \<Rightarrow> nat" where
  "expiry delay = (if delay \<le> 5 then EXPIRE + delay else (EXPIRE + delay) mod TW_SIZE)"

definition abs_beat :: "nat \<Rightarrow> nat \<Rightarrow> beats \<Rightarrow> beats" where
  "abs_beat c delay a = a\<lparr>due := (due a)(now a + expiry delay := due a (now a + expiry delay) @ [c])\<rparr>"

definition abs_tick :: "beats \<Rightarrow> beats" where
  "abs_tick a = a\<lparr>now := now a + 1, due := (due a)(now a := [])\<rparr>"

text \<open>The connections whose last heartbeat expires now, and the heartbeats a connection has.\<close>

definition abs_kills :: "beats \<Rightarrow> nat set" where
  "abs_kills a = {c \<in> set (due a (now a)). \<forall>e. e \<noteq> now a \<longrightarrow> c \<notin> set (due a e)}"

definition outstanding :: "beats \<Rightarrow> nat \<Rightarrow> nat" where
  "outstanding a c = (\<Sum>e = now a..<now a + 16. count_list (due a e) c)"

section \<open>The correspondence\<close>

fun chain :: "(nat \<Rightarrow> timer_node) \<Rightarrow> tptr \<Rightarrow> nat list \<Rightarrow> bool" where
  "chain nodes p [] \<longleftrightarrow> p = TNull"
| "chain nodes p (j # js) \<longleftrightarrow> p = TNode j \<and> chain nodes (tn_next (nodes j)) js"

definition slot_ok :: "single_tw \<Rightarrow> (nat \<Rightarrow> nat list) \<Rightarrow> nat \<Rightarrow> bool" where
  "slot_ok s P i \<longleftrightarrow> chain (timer_nodes s) (ll_head (wheel s i)) (P i) \<and>
     ll_tail (wheel s i) = (if P i = [] then THead i else TNode (last (P i)))"

definition occurs :: "single_tw \<Rightarrow> (nat \<Rightarrow> nat list) \<Rightarrow> nat \<Rightarrow> nat \<Rightarrow> nat" where
  "occurs s P c i = count_list (map (\<lambda>j. tn_node (timer_nodes s j)) (P i)) c"

text \<open>\<open>P i\<close> is the list of the nodes of the slot \<open>i\<close>.\<close>

definition wheel_ok :: "single_tw \<Rightarrow> (nat \<Rightarrow> nat list) \<Rightarrow> bool" where
  "wheel_ok s P \<longleftrightarrow> (\<forall>i<16. slot_ok s P i) \<and> (\<forall>i<16. distinct (P i)) \<and>
     (\<forall>i<16. \<forall>k<16. i \<noteq> k \<longrightarrow> set (P i) \<inter> set (P k) = {}) \<and>
     (\<forall>i<16. \<forall>j\<in>set (P i). 0 < j \<and> j \<le> t_iter s) \<and>
     (\<forall>j. tn_idx (timer_nodes s j) > 0 \<longrightarrow> j \<le> t_iter s) \<and> t_iter s < MAX_TIMER \<and>
     (\<forall>c. cn_used (conn_nodes s c) = (\<Sum>i<16. occurs s P c i) mod 256)"

definition corresponds :: "single_tw \<Rightarrow> beats \<Rightarrow> bool" where
  "corresponds s a \<longleftrightarrow> tick s = now a mod 4294967296 \<and>
     (\<exists>P. wheel_ok s P \<and> (\<forall>e. now a \<le> e \<and> e < now a + 16 \<longrightarrow>
        due a e = map (\<lambda>j. tn_node (timer_nodes s j)) (P (e mod 16))) \<and>
      (\<forall>e. \<not> (now a \<le> e \<and> e < now a + 16) \<longrightarrow> due a e = []))"

text \<open>
  The time wheel of heartbeats implements the abstract wheel: adding a heartbeat and checking for one
  second correspond to the abstract steps, and the connections that are closed are those whose last
  heartbeat expires; the limits of the code are stated as properties of their own.
\<close>

section \<open>Lists of nodes\<close>

lemma tchain_cong:
  "(\<And>j. j \<in> set L \<Longrightarrow> tn_next (nodes' j) = tn_next (nodes j)) \<Longrightarrow> chain nodes' p L = chain nodes p L"
  by (induction L arbitrary: p) auto

lemma tchain_snoc:
  assumes "chain nodes p L" and "L \<noteq> []" and "distinct (L @ [j])"
    and "tn_next (nodes' (last L)) = TNode j" and "tn_next (nodes' j) = TNull"
    and "\<And>k. k \<noteq> j \<Longrightarrow> k \<noteq> last L \<Longrightarrow> tn_next (nodes' k) = tn_next (nodes k)"
  shows "chain nodes' p (L @ [j])"
  using assms(1-3) assms(4-)
proof (induction L arbitrary: p)
  case (Cons k L)
  show ?case
  proof (cases "L = []")
    case True
    then show ?thesis using Cons.prems by simp
  next
    case False
    have n: "tn_next (nodes' k) = tn_next (nodes k)"
      using Cons.prems(3,6) False by (metis distinct.simps(2) append_Cons distinct_append last_ConsR last_in_set list.set_intros(1) in_set_conv_decomp UnCI set_append)
    have "chain nodes' (tn_next (nodes k)) (L @ [j])"
      by (rule Cons.IH) (use Cons.prems False in simp_all)
    then show ?thesis using Cons.prems(1) n by simp
  qed
qed simp

lemma count_zero: "count_list xs c = 0 \<longleftrightarrow> c \<notin> set xs"
  by (simp add: count_list_0_iff)

lemma sum_mod_range: "(\<Sum>e = n..<n + 16. f (e mod 16)) = (\<Sum>i<16. f i)" for f :: "nat \<Rightarrow> nat"
proof (induction n)
  case 0
  then show ?case by (simp add: lessThan_atLeast0)
next
  case (Suc n)
  have "(\<Sum>e = n..<Suc (n + 16). f (e mod 16)) = (\<Sum>e = n..<n + 16. f (e mod 16)) + f ((n + 16) mod 16)"
    by (rule sum.atLeastLessThan_Suc) simp
  moreover have "(\<Sum>e = n..<Suc (n + 16). f (e mod 16)) = f (n mod 16) + (\<Sum>e = Suc n..<Suc (n + 16). f (e mod 16))"
    by (subst sum.atLeast_Suc_lessThan) simp_all
  ultimately show ?case using Suc by simp
qed

section \<open>Adding\<close>

lemma get_timer_next:
  assumes "wheel_ok s P" and "t_iter s + 1 < MAX_TIMER"
  shows "get_timer_node s = Some (t_iter s + 1, s\<lparr>t_iter := t_iter s + 1,
    timer_nodes := (timer_nodes s)(t_iter s + 1 := (timer_nodes s (t_iter s + 1))\<lparr>tn_idx := t_iter s + 1\<rparr>)\<rparr>)"
proof -
  have u: "u32_add (t_iter s) 1 = t_iter s + 1" using assms(2) by (intro u32_add_id) simp
  have "\<not> tn_idx (timer_nodes s (t_iter s + 1)) > 0"
    using assms(1) unfolding wheel_ok_def by (metis add_le_same_cancel1 not_one_le_zero)
  then have "next_timer (timer_nodes s) (t_iter s + 1) = Some (t_iter s + 1)"
    using assms(2) by (subst next_timer.simps) simp
  then show ?thesis using assms(2) unfolding get_timer_node_def u by simp
qed

definition add_slot :: "nat \<Rightarrow> int \<Rightarrow> nat" where
  "add_slot t d = nat ((int t + 10 + d) mod 4294967296) mod 16"

lemma add_conn_step:
  assumes ok: "wheel_ok s P" and t: "t_iter s + 1 < MAX_TIMER" and i: "i = add_slot (tick s) d"
  shows "\<exists>s'. add_conn c d s = Some s' \<and> tick s' = tick s \<and> t_iter s' = t_iter s + 1 \<and>
    wheel_ok s' (P(i := P i @ [t_iter s + 1])) \<and> tn_node (timer_nodes s' (t_iter s + 1)) = c \<and>
    (\<forall>j. j \<noteq> t_iter s + 1 \<longrightarrow> tn_node (timer_nodes s' j) = tn_node (timer_nodes s j))"
proof -
  define j where "j = t_iter s + 1"
  have i16: "i < 16" by (simp add: i add_slot_def)
  define T where "T = ll_tail (wheel s i)"
  have slot: "slot_ok s P i" using ok i16 by (simp add: wheel_ok_def)
  then have T: "T = (if P i = [] then THead i else TNode (last (P i)))" by (simp add: slot_ok_def T_def)
  have old: "k \<noteq> j" "0 < k" "k \<le> t_iter s" if "k \<in> set (P l)" "l < 16" for k l
  proof -
    have "\<forall>j\<in>set (P l). 0 < j \<and> j \<le> t_iter s" using ok that(2) unfolding wheel_ok_def by blast
    then show "k \<noteq> j" "0 < k" "k \<le> t_iter s" using that(1) by (auto simp: j_def)
  qed
  define nodes where "nodes = (timer_nodes s)(j := (timer_nodes s j)\<lparr>tn_idx := j, tn_node := c\<rparr>)"
  define nodes' where "nodes' = (case T of TNode k \<Rightarrow> nodes(k := (nodes k)\<lparr>tn_next := TNode j\<rparr>) | _ \<Rightarrow> nodes)"
  define nodes'' where "nodes'' = nodes'(j := (nodes' j)\<lparr>tn_next := TNull\<rparr>)"
  define w where "w = (wheel s)(i := (case T of THead k \<Rightarrow> (wheel s i)\<lparr>ll_head := TNode j\<rparr> | _ \<Rightarrow> wheel s i)\<lparr>ll_tail := TNode j\<rparr>)"
  define cn where "cn = (conn_nodes s)(c := (conn_nodes s c)\<lparr>cn_used := (cn_used (conn_nodes s c) + 1) mod 256\<rparr>)"
  define s' where "s' = s\<lparr>t_iter := j, conn_nodes := cn, wheel := w, timer_nodes := nodes''\<rparr>"
  have e: "add_conn c d s = Some s'"
  proof -
    have a: "nat ((int (tick s) + int EXPIRE + d) mod 4294967296) mod TW_SIZE = i" by (simp add: i add_slot_def)
    note g = get_timer_next [OF ok t, folded j_def]
    show ?thesis
    proof (cases "P i = []")
      case True
      then show ?thesis unfolding add_conn_def g a using T
        by (simp add: Let_def set_next_def s'_def nodes''_def nodes'_def w_def cn_def nodes_def fun_upd_def flip: T_def cong: if_cong)
    next
      case False
      then have "last (P i) \<noteq> j" using old(1) [of "last (P i)" i] i16 by simp
      then show ?thesis unfolding add_conn_def g a using T False
        by (simp add: Let_def set_next_def s'_def nodes''_def nodes'_def w_def cn_def nodes_def fun_upd_def flip: T_def cong: if_cong)
    qed
  qed
  have nn: "tn_node (nodes'' k) = (if k = j then c else tn_node (timer_nodes s k))"
      "tn_idx (nodes'' k) = (if k = j then j else tn_idx (timer_nodes s k))" for k
    by (auto simp: nodes''_def nodes'_def nodes_def split: tptr.split)
  have nx: "tn_next (nodes'' k) = (if k = j then TNull else if T = TNode k then TNode j else tn_next (timer_nodes s k))" for k
    by (auto simp: nodes''_def nodes'_def nodes_def split: tptr.split)
  let ?P = "P(i := P i @ [j])"
  have tail_in: "T = TNode k \<Longrightarrow> k \<in> set (P i)" for k using T by (auto split: if_splits)
  have w1: "slot_ok s' ?P l" if "l < 16" for l
  proof (cases "l = i")
    case True
    show ?thesis
    proof (cases "P i = []")
      case True
      then show ?thesis using \<open>l = i\<close> T by (simp add: slot_ok_def s'_def w_def nx)
    next
      case False
      then have "last (P i) \<noteq> j" using old(1) [of "last (P i)" i] i16 by simp
      then have "chain nodes'' (ll_head (wheel s i)) (P i @ [j])"
        using False slot T nx ok i16 old(1) by (intro tchain_snoc [of "timer_nodes s"]) (auto simp: slot_ok_def wheel_ok_def)
      then show ?thesis using \<open>l = i\<close> False T by (simp add: slot_ok_def s'_def w_def)
    qed
  next
    case False
    have "chain nodes'' (ll_head (wheel s l)) (P l) = chain (timer_nodes s) (ll_head (wheel s l)) (P l)"
    proof (rule tchain_cong)
      fix k assume k: "k \<in> set (P l)"
      have "T \<noteq> TNode k"
      proof
        assume "T = TNode k"
        then have "k \<in> set (P i)" by (rule tail_in)
        moreover have "set (P l) \<inter> set (P i) = {}" using ok that i16 False unfolding wheel_ok_def by blast
        ultimately show False using k by blast
      qed
      then show "tn_next (nodes'' k) = tn_next (timer_nodes s k)" using nx old(1) [OF k that] by simp
    qed
    moreover have "slot_ok s P l" using ok that by (simp add: wheel_ok_def)
    ultimately show ?thesis using False by (simp add: slot_ok_def s'_def w_def)
  qed
  have "occurs s' ?P x l = occurs s P x l + (if l = i \<and> x = c then 1 else 0)" if "l < 16" for x l
  proof -
    have m: "map (\<lambda>k. tn_node (nodes'' k)) (P l) = map (\<lambda>k. tn_node (timer_nodes s k)) (P l)"
      using nn(1) old(1) that by (intro map_cong) auto
    have "timer_nodes s' = nodes''" "tn_node (nodes'' j) = c" by (simp_all add: s'_def nn(1))
    then show ?thesis using m by (cases "l = i") (simp_all add: occurs_def m del: map_eq_conv)
  qed
  then have "(\<Sum>l<16. occurs s' ?P x l) = (\<Sum>l<16. occurs s P x l) + (if x = c then 1 else 0)" for x
    using i16 by (auto simp: sum.distrib)
  then have w7: "cn_used (conn_nodes s' x) = (\<Sum>l<16. occurs s' ?P x l) mod 256" for x
    using ok by (auto simp: wheel_ok_def s'_def cn_def mod_simps)
  have di: "distinct (P l)" "l \<noteq> i \<Longrightarrow> set (P l) \<inter> set (P i) = {}" "k < 16 \<Longrightarrow> l \<noteq> k \<Longrightarrow> set (P l) \<inter> set (P k) = {}"
    if "l < 16" for l k using ok that i16 unfolding wheel_ok_def by blast+
  have w2: "\<forall>l<16. distinct (?P l)" using di(1) old(1) i16 by auto
  have w3: "\<forall>l<16. \<forall>k<16. l \<noteq> k \<longrightarrow> set (?P l) \<inter> set (?P k) = {}"
  proof (intro allI impI)
    fix l k :: nat assume lk: "l < 16" "k < 16" "l \<noteq> k"
    have "j \<notin> set (P l)" "j \<notin> set (P k)" using old(1) lk by blast+
    then show "set (?P l) \<inter> set (?P k) = {}" using di(3) [OF lk] lk(3) by auto
  qed
  have w4: "\<forall>l<16. \<forall>k\<in>set (?P l). 0 < k \<and> k \<le> t_iter s'"
  proof (intro allI impI ballI)
    fix l k :: nat assume l: "l < 16" and k: "k \<in> set (?P l)"
    from k have "k = j \<or> k \<in> set (P l)" by (auto split: if_splits)
    then show "0 < k \<and> k \<le> t_iter s'" using old(2,3) l by (fastforce simp: s'_def j_def)
  qed
  have "\<forall>k. tn_idx (timer_nodes s k) > 0 \<longrightarrow> k \<le> t_iter s" using ok unfolding wheel_ok_def by blast
  then have w5: "\<forall>k. tn_idx (timer_nodes s' k) > 0 \<longrightarrow> k \<le> t_iter s'" by (auto simp: s'_def nn(2) j_def le_Suc_eq)
  have w6: "t_iter s' < MAX_TIMER" using t by (simp add: s'_def j_def)
  have "wheel_ok s' ?P" unfolding wheel_ok_def using w1 w2 w3 w4 w5 w6 w7 by blast
  moreover have "tn_node (timer_nodes s' j) = c" "\<forall>k. k \<noteq> j \<longrightarrow> tn_node (timer_nodes s' k) = tn_node (timer_nodes s k)"
    by (simp_all add: s'_def nn)
  moreover have "tick s' = tick s" "t_iter s' = j" by (simp_all add: s'_def)
  ultimately show ?thesis using e unfolding j_def by blast
qed

section \<open>Checking\<close>

lemma check_loop_run:
  assumes "chain (timer_nodes s) p L" and "distinct L"
    and "\<forall>c. cn_used (conn_nodes s c) = count_list (map (\<lambda>j. tn_node (timer_nodes s j)) L) c + rest c"
    and "\<forall>c. cn_used (conn_nodes s c) < 256"
  shows "\<exists>s' ks. check_loop p s kills = Some (s', kills @ ks) \<and> distinct ks \<and>
    set ks = {c \<in> set (map (\<lambda>j. tn_node (timer_nodes s j)) L). rest c = 0} \<and>
    (\<forall>c. cn_used (conn_nodes s' c) = rest c) \<and> (\<forall>j. j \<notin> set L \<longrightarrow> timer_nodes s' j = timer_nodes s j) \<and>
    (\<forall>j. tn_node (timer_nodes s' j) = tn_node (timer_nodes s j)) \<and> (\<forall>j\<in>set L. tn_idx (timer_nodes s' j) = 0) \<and>
    tick s' = tick s \<and> wheel s' = wheel s \<and> t_iter s' = t_iter s"
  using assms
proof (induction L arbitrary: p s kills)
  case Nil
  then show ?case by (subst check_loop.simps) simp
next
  case (Cons j L)
  let ?c = "tn_node (timer_nodes s j)"
  let ?cs = "map (\<lambda>j. tn_node (timer_nodes s j)) L"
  have p: "p = TNode j" and ch: "chain (timer_nodes s) (tn_next (timer_nodes s j)) L" and j: "j \<notin> set L"
    using Cons.prems(1,2) by auto
  have uc: "cn_used (conn_nodes s ?c) = count_list ?cs ?c + rest ?c + 1" using Cons.prems(3) by simp
  define u where "u = (cn_used (conn_nodes s ?c) + 255) mod 256"
  have u: "u = count_list ?cs ?c + rest ?c" using uc Cons.prems(4) [rule_format, of ?c] by (simp add: u_def)
  define cn where "cn = (conn_nodes s)(?c := (conn_nodes s ?c)\<lparr>cn_used := u\<rparr>)"
  define n where "n = (timer_nodes s j)\<lparr>tn_idx := 0, tn_next := (if u = 0 then TNull else tn_next (timer_nodes s j))\<rparr>"
  define s1 where "s1 = s\<lparr>conn_nodes := cn, timer_nodes := (timer_nodes s)(j := n)\<rparr>"
  define k1 where "k1 = (if u = 0 then kills @ [?c] else kills)"
  have nn: "tn_node (timer_nodes s1 k) = tn_node (timer_nodes s k)" for k by (simp add: s1_def n_def)
  have "timer_nodes s j\<lparr>tn_idx := 0\<rparr> = n" if "u \<noteq> 0" using that by (simp add: n_def)
  then have st: "check_loop p s kills = check_loop (tn_next (timer_nodes s j)) s1 k1"
    unfolding p by (subst check_loop.simps) (simp add: Let_def s1_def k1_def cn_def n_def flip: u_def)
  have "chain (timer_nodes s1) (tn_next (timer_nodes s j)) L"
  proof -
    have "chain (timer_nodes s1) q L = chain (timer_nodes s) q L" for q
      by (rule tchain_cong) (use j in \<open>auto simp: s1_def\<close>)
    then show ?thesis using ch by simp
  qed
  moreover have "\<forall>c. cn_used (conn_nodes s1 c) = count_list (map (\<lambda>j. tn_node (timer_nodes s1 j)) L) c + rest c"
    using Cons.prems(3) u unfolding nn by (auto simp: s1_def cn_def)
  moreover have "\<forall>c. cn_used (conn_nodes s1 c) < 256" using Cons.prems(4) by (auto simp: s1_def cn_def u_def)
  ultimately obtain s' ks where ih: "check_loop (tn_next (timer_nodes s j)) s1 k1 = Some (s', k1 @ ks)" "distinct ks"
      "set ks = {c \<in> set ?cs. rest c = 0}" "\<forall>c. cn_used (conn_nodes s' c) = rest c"
      "\<forall>k. k \<notin> set L \<longrightarrow> timer_nodes s' k = timer_nodes s1 k" "\<forall>k. tn_node (timer_nodes s' k) = tn_node (timer_nodes s k)"
      "\<forall>k\<in>set L. tn_idx (timer_nodes s' k) = 0" "tick s' = tick s1" "wheel s' = wheel s1" "t_iter s' = t_iter s1"
    using Cons.IH [of s1 "tn_next (timer_nodes s j)" k1] Cons.prems(2) unfolding nn by auto
  define ks' where "ks' = (if u = 0 then ?c # ks else ks)"
  have z: "u = 0 \<longleftrightarrow> ?c \<notin> set ?cs \<and> rest ?c = 0" using u count_zero [of ?cs ?c] by simp
  have "distinct ks'" using ih(2,3) z by (auto simp: ks'_def)
  moreover have "set ks' = {c \<in> set (map (\<lambda>j. tn_node (timer_nodes s j)) (j # L)). rest c = 0}"
    using ih(3) z by (auto simp: ks'_def)
  moreover have "check_loop p s kills = Some (s', kills @ ks')" using st ih(1) by (simp add: k1_def ks'_def)
  moreover have "tn_idx (timer_nodes s' j) = 0" using ih(5) j by (simp add: s1_def n_def)
  moreover have "\<forall>k. k \<notin> set (j # L) \<longrightarrow> timer_nodes s' k = timer_nodes s k" using ih(5) by (simp add: s1_def)
  moreover have "tick s' = tick s" "wheel s' = wheel s" "t_iter s' = t_iter s" using ih(8-10) by (simp_all add: s1_def)
  ultimately show ?case using ih(4,6,7) by auto
qed

lemma occurs_split:
  "i < 16 \<Longrightarrow> (\<Sum>l<16. occurs s P c l) = occurs s P c i + (\<Sum>l\<in>{..<16} - {i}. occurs s P c l)"
  by (subst sum.remove [of _ i]) auto

lemma check_conn_step:
  assumes ok: "wheel_ok s P" and i: "i = tick s mod 16" and few: "\<forall>c. (\<Sum>l<16. occurs s P c l) < 256"
  shows "\<exists>s' ks. check_conn s = Some (s', ks) \<and> distinct ks \<and> wheel_ok s' (P(i := [])) \<and> tick s' = u32_add (tick s) 1 \<and>
    set ks = {c \<in> set (map (\<lambda>j. tn_node (timer_nodes s j)) (P i)). \<forall>l<16. l \<noteq> i \<longrightarrow> c \<notin> set (map (\<lambda>j. tn_node (timer_nodes s j)) (P l))} \<and>
    (\<forall>j. tn_node (timer_nodes s' j) = tn_node (timer_nodes s j)) \<and> t_iter s' = t_iter s"
proof -
  have i16: "i < 16" by (simp add: i)
  define rest where "rest c = (\<Sum>l\<in>{..<16} - {i}. occurs s P c l)" for c
  define s1 where "s1 = s\<lparr>tick := u32_add (tick s) 1\<rparr>"
  have ch: "chain (timer_nodes s1) (ll_head (wheel s1 i)) (P i)" and di: "distinct (P i)"
    using ok i16 by (auto simp: wheel_ok_def slot_ok_def s1_def)
  have used: "cn_used (conn_nodes s c) = (\<Sum>l<16. occurs s P c l)" for c
  proof -
    have "cn_used (conn_nodes s c) = (\<Sum>l<16. occurs s P c l) mod 256" using ok by (simp add: wheel_ok_def)
    then show ?thesis using few [rule_format, of c] by simp
  qed
  have u: "\<forall>c. cn_used (conn_nodes s1 c) = count_list (map (\<lambda>j. tn_node (timer_nodes s1 j)) (P i)) c + rest c"
    using used occurs_split [OF i16] by (simp add: s1_def rest_def occurs_def)
  have u2: "\<forall>c. cn_used (conn_nodes s1 c) < 256" using used few by (simp add: s1_def)
  obtain s2 ks where r: "check_loop (ll_head (wheel s1 i)) s1 [] = Some (s2, ks)" "distinct ks"
      "set ks = {c \<in> set (map (\<lambda>j. tn_node (timer_nodes s j)) (P i)). rest c = 0}"
      "\<forall>c. cn_used (conn_nodes s2 c) = rest c" "\<forall>j. j \<notin> set (P i) \<longrightarrow> timer_nodes s2 j = timer_nodes s j"
      "\<forall>j. tn_node (timer_nodes s2 j) = tn_node (timer_nodes s j)" "\<forall>j\<in>set (P i). tn_idx (timer_nodes s2 j) = 0"
      "tick s2 = tick s1" "wheel s2 = wheel s" "t_iter s2 = t_iter s"
    using check_loop_run [OF ch di u u2, of "[]"] by (auto simp: s1_def)
  define s' where "s' = link_clear i s2"
  have e: "check_conn s = Some (s', ks)"
    using r(1) unfolding s1_def by (simp add: check_conn_def Let_def s'_def flip: i)
  have occ: "occurs s' (P(i := [])) c l = (if l = i then 0 else occurs s P c l)" for c l
    using r(6) by (simp add: occurs_def s'_def link_clear_def)
  have "slot_ok s' (P(i := [])) l" if "l < 16" for l
  proof (cases "l = i")
    case True
    then show ?thesis by (simp add: slot_ok_def s'_def link_clear_def)
  next
    case False
    have "set (P l) \<inter> set (P i) = {}" using ok that i16 False by (simp add: wheel_ok_def)
    then have "chain (timer_nodes s2) p (P l) = chain (timer_nodes s) p (P l)" for p
      using r(5) by (intro tchain_cong) (metis disjoint_iff)
    moreover have "slot_ok s P l" using ok that by (simp add: wheel_ok_def)
    ultimately show ?thesis using False r(9) by (simp add: slot_ok_def s'_def link_clear_def)
  qed
  moreover have "cn_used (conn_nodes s' c) = (\<Sum>l<16. occurs s' (P(i := [])) c l) mod 256" for c
  proof -
    have "(\<Sum>l<16. occurs s' (P(i := [])) c l) = rest c"
      using i16 by (subst sum.remove [of _ i]) (auto simp: occ rest_def intro!: sum.cong)
    moreover have "rest c < 256" using few [rule_format, of c] occurs_split [OF i16, of s P c] by (simp add: rest_def)
    ultimately show ?thesis using r(4) by (simp add: s'_def link_clear_def)
  qed
  moreover have "tn_idx (timer_nodes s' j) > 0 \<longrightarrow> j \<le> t_iter s'" for j
    using ok r(5,7,10) by (cases "j \<in> set (P i)") (auto simp: wheel_ok_def s'_def link_clear_def)
  ultimately have "wheel_ok s' (P(i := []))"
    using ok r(10) unfolding wheel_ok_def by (auto simp: s'_def link_clear_def)
  moreover have "rest c = 0 \<longleftrightarrow> (\<forall>l<16. l \<noteq> i \<longrightarrow> c \<notin> set (map (\<lambda>j. tn_node (timer_nodes s j)) (P l)))" for c
    by (auto simp: rest_def occurs_def count_zero)
  ultimately show ?thesis
    using e r(2,3,6,8,10) by (auto simp: s'_def link_clear_def s1_def)
qed

section \<open>The correspondence is kept\<close>

lemma add_slot_now:
  assumes "t = n mod 4294967296"
  shows "add_slot t (int d) = (n + 10 + d) mod 16"
proof -
  have "nat ((int t + 10 + int d) mod 4294967296) = (t + 10 + d) mod 4294967296"
    by (metis (no_types, opaque_lifting) nat_int of_nat_add of_nat_numeral zmod_int)
  then have "add_slot t (int d) = (t + 10 + d) mod 4294967296 mod 16" by (simp add: add_slot_def)
  also have "\<dots> = (t + 10 + d) mod 16" by (rule mod_mod_cancel) simp
  also have "\<dots> = (t mod 16 + (10 + d)) mod 16" by (simp add: mod_simps add.assoc)
  also have "t mod 16 = n mod 16" unfolding assms by (rule mod_mod_cancel) simp
  also have "(n mod 16 + (10 + d)) mod 16 = (n + 10 + d) mod 16" by (simp add: mod_simps add.assoc)
  finally show ?thesis .
qed

lemma window_unique:
  assumes "n \<le> e" "e < n + 16" "n \<le> e'" "e' < n + 16" "e mod 16 = e' mod 16"
  shows "e = (e' :: nat)"
proof -
  have u: "x = y" if "x \<le> y" "y < x + 16" "y mod 16 = x mod 16" for x y :: nat
  proof (rule ccontr)
    assume "x \<noteq> y"
    then have "0 < y - x" using that(1) by simp
    moreover have "16 dvd y - x" using that(1,3) mod_eq_dvd_iff_nat by blast
    ultimately have "16 \<le> y - x" using dvd_imp_le by blast
    then show False using that(2) by linarith
  qed
  show ?thesis
  proof (cases "e \<le> e'")
    case True
    then show ?thesis using u [of e e'] assms by linarith
  next
    case False
    then show ?thesis using u [of e' e] assms by linarith
  qed
qed

lemma add_corresponds:
  assumes c: "corresponds s a" and t: "t_iter s + 1 < MAX_TIMER"
    and e: "now a \<le> e" "e < now a + 16" "e mod 16 = (now a + 10 + d) mod 16"
  shows "\<exists>s'. add_conn c (int d) s = Some s' \<and> corresponds s' (a\<lparr>due := (due a)(e := due a e @ [c])\<rparr>)"
proof -
  from c obtain P where tk: "tick s = now a mod 4294967296" and ok: "wheel_ok s P"
    and P: "\<forall>e. now a \<le> e \<and> e < now a + 16 \<longrightarrow> due a e = map (\<lambda>j. tn_node (timer_nodes s j)) (P (e mod 16))"
    and O: "\<forall>e. \<not> (now a \<le> e \<and> e < now a + 16) \<longrightarrow> due a e = []" unfolding corresponds_def by blast
  let ?j = "t_iter s + 1" and ?i = "e mod 16"
  have "?i = add_slot (tick s) (int d)" using add_slot_now [OF tk] e(3) by simp
  from add_conn_step [OF ok t this, of c] obtain s' where s': "add_conn c (int d) s = Some s'" "tick s' = tick s"
      "wheel_ok s' (P(?i := P ?i @ [?j]))" "tn_node (timer_nodes s' ?j) = c"
      "\<forall>j. j \<noteq> ?j \<longrightarrow> tn_node (timer_nodes s' j) = tn_node (timer_nodes s j)" by blast
  have "?j \<notin> set (P l)" if "l < 16" for l
  proof -
    have "\<forall>j\<in>set (P l). j \<le> t_iter s" using ok that unfolding wheel_ok_def by blast
    then show ?thesis by auto
  qed
  then have m: "map (\<lambda>j. tn_node (timer_nodes s' j)) (P l) = map (\<lambda>j. tn_node (timer_nodes s j)) (P l)" if "l < 16" for l
    using s'(5) that by (intro map_cong refl) metis
  have "((due a)(e := due a e @ [c])) x = map (\<lambda>j. tn_node (timer_nodes s' j)) ((P(?i := P ?i @ [?j])) (x mod 16))"
    if "now a \<le> x" "x < now a + 16" for x
  proof (cases "x = e")
    case True
    then show ?thesis using P e m [of ?i] s'(4) by (simp del: map_eq_conv)
  next
    case False
    then have "x mod 16 \<noteq> ?i" using window_unique that e by blast
    then show ?thesis using P that m [of "x mod 16"] False by (simp del: map_eq_conv)
  qed
  then have "corresponds s' (a\<lparr>due := (due a)(e := due a e @ [c])\<rparr>)"
    unfolding corresponds_def using s'(2,3) tk O e by (intro conjI exI [of _ "P(?i := P ?i @ [?j])"]) auto
  then show ?thesis using s'(1) by blast
qed

lemma outstanding_occurs:
  assumes "\<forall>e. now a \<le> e \<and> e < now a + 16 \<longrightarrow> due a e = map (\<lambda>j. tn_node (timer_nodes s j)) (P (e mod 16))"
  shows "outstanding a c = (\<Sum>l<16. occurs s P c l)"
proof -
  have "outstanding a c = (\<Sum>e = now a..<now a + 16. occurs s P c (e mod 16))"
    unfolding outstanding_def occurs_def using assms by (intro sum.cong) auto
  then show ?thesis by (simp add: sum_mod_range)
qed

lemma check_corresponds:
  assumes c: "corresponds s a" and few: "\<forall>c. outstanding a c < 256"
  shows "\<exists>s' ks. check_conn s = Some (s', ks) \<and> corresponds s' (abs_tick a) \<and> distinct ks \<and> set ks = abs_kills a"
proof -
  from c obtain P where tk: "tick s = now a mod 4294967296" and ok: "wheel_ok s P"
    and P: "\<forall>e. now a \<le> e \<and> e < now a + 16 \<longrightarrow> due a e = map (\<lambda>j. tn_node (timer_nodes s j)) (P (e mod 16))"
    and O: "\<forall>e. \<not> (now a \<le> e \<and> e < now a + 16) \<longrightarrow> due a e = []" unfolding corresponds_def by blast
  define i where "i = now a mod 16"
  have i: "i = tick s mod 16" unfolding i_def tk by (simp add: mod_mod_cancel)
  have few': "\<forall>c. (\<Sum>l<16. occurs s P c l) < 256" using few outstanding_occurs [OF P] by simp
  obtain s' ks where s': "check_conn s = Some (s', ks)" "distinct ks" "wheel_ok s' (P(i := []))" "tick s' = u32_add (tick s) 1"
      "set ks = {c \<in> set (map (\<lambda>j. tn_node (timer_nodes s j)) (P i)). \<forall>l<16. l \<noteq> i \<longrightarrow> c \<notin> set (map (\<lambda>j. tn_node (timer_nodes s j)) (P l))}"
      "\<forall>j. tn_node (timer_nodes s' j) = tn_node (timer_nodes s j)"
    using check_conn_step [OF ok i few'] by blast
  have d: "due (abs_tick a) e = map (\<lambda>j. tn_node (timer_nodes s' j)) ((P(i := [])) (e mod 16))"
    if e: "now a + 1 \<le> e" "e < now a + 1 + 16" for e
  proof (cases "e mod 16 = i")
    case True
    then have "e = now a + 16" using e window_unique [of "now a + 1" e "now a + 16"] unfolding i_def by simp
    then show ?thesis using O True by (simp add: abs_tick_def)
  next
    case False
    then have "e \<noteq> now a + 16" unfolding i_def by auto
    then have "e < now a + 16" using e by simp
    then show ?thesis using P e False s'(6) by (simp add: abs_tick_def)
  qed
  have "corresponds s' (abs_tick a)" unfolding corresponds_def
  proof (intro conjI exI [of _ "P(i := [])"])
    show "tick s' = now (abs_tick a) mod 4294967296" using s'(4) tk by (simp add: abs_tick_def u32_add_def mod_simps)
    show "wheel_ok s' (P(i := []))" by (rule s'(3))
    show "\<forall>e. now (abs_tick a) \<le> e \<and> e < now (abs_tick a) + 16 \<longrightarrow>
        due (abs_tick a) e = map (\<lambda>j. tn_node (timer_nodes s' j)) ((P(i := [])) (e mod 16))"
      using d by (simp add: abs_tick_def)
    show "\<forall>e. \<not> (now (abs_tick a) \<le> e \<and> e < now (abs_tick a) + 16) \<longrightarrow> due (abs_tick a) e = []"
      using O by (auto simp: abs_tick_def)
  qed
  moreover have "(\<forall>l<16. l \<noteq> i \<longrightarrow> c \<notin> set (map (\<lambda>j. tn_node (timer_nodes s j)) (P l))) \<longleftrightarrow> (\<forall>e. e \<noteq> now a \<longrightarrow> c \<notin> set (due a e))" for c
  proof (intro iffI allI impI)
    fix e assume h: "\<forall>l<16. l \<noteq> i \<longrightarrow> c \<notin> set (map (\<lambda>j. tn_node (timer_nodes s j)) (P l))" and e: "e \<noteq> now a"
    show "c \<notin> set (due a e)"
    proof (cases "now a \<le> e \<and> e < now a + 16")
      case True
      then have "e mod 16 \<noteq> i" using window_unique [of "now a" e "now a"] e unfolding i_def by auto
      then show ?thesis using h True P by simp
    next
      case False
      then show ?thesis using O by simp
    qed
  next
    fix l :: nat assume h: "\<forall>e. e \<noteq> now a \<longrightarrow> c \<notin> set (due a e)" and l: "l < 16" "l \<noteq> i"
    obtain q where q: "now a = 16 * q + i" "i < 16" using mult_div_mod_eq [of 16 "now a"] unfolding i_def by (metis mod_less_divisor zero_less_numeral)
    define e where "e = 16 * q + l + (if l < i then 16 else 0)"
    have e: "now a \<le> e" "e < now a + 16" "e mod 16 = l" "e \<noteq> now a"
      using l q by (auto simp: e_def)
    then show "c \<notin> set (map (\<lambda>j. tn_node (timer_nodes s j)) (P l))" using h P by metis
  qed
  moreover have "due a (now a) = map (\<lambda>j. tn_node (timer_nodes s j)) (P i)" using P by (simp add: i_def)
  ultimately have "set ks = abs_kills a" using s'(5) unfolding abs_kills_def by simp
  then show ?thesis using s'(1,2) \<open>corresponds s' (abs_tick a)\<close> by blast
qed

end
