(* ===== verification/SingleTW_Props.thy ===== *)
theory SingleTW_Props
  imports SingleTW
begin

text \<open>
  The properties of the time wheel of heartbeats, for single steps and for whole runs from the start.
\<close>

section \<open>Runs\<close>

datatype tw_step = Beat nat nat | Second

fun run_step :: "tw_step \<Rightarrow> single_tw \<Rightarrow> (single_tw \<times> nat list) option" where
  "run_step (Beat c d) s = map_option (\<lambda>s'. (s', [])) (add_conn c (int d) s)"
| "run_step Second s = check_conn s"

fun run_steps :: "tw_step list \<Rightarrow> single_tw \<Rightarrow> (single_tw \<times> nat list list) option" where
  "run_steps [] s = Some (s, [])"
| "run_steps (x # xs) s = do { (s1, k) \<leftarrow> run_step x s; (s2, ks) \<leftarrow> run_steps xs s1; Some (s2, k # ks) }"

fun abs_step :: "tw_step \<Rightarrow> beats \<Rightarrow> beats \<times> nat set" where
  "abs_step (Beat c d) a = (abs_beat c d a, {})"
| "abs_step Second a = (abs_tick a, abs_kills a)"

fun abs_steps :: "tw_step list \<Rightarrow> beats \<Rightarrow> beats \<times> nat set list" where
  "abs_steps [] a = (a, [])"
| "abs_steps (x # xs) a = (case abs_step x a of (a1, k) \<Rightarrow> case abs_steps xs a1 of (a2, ks) \<Rightarrow> (a2, k # ks))"

definition beats_in :: "tw_step list \<Rightarrow> nat" where
  "beats_in xs = length (filter (\<lambda>x. x \<noteq> Second) xs)"

text \<open>The delays are values of an int, and no connection ever has more than 255 heartbeats.\<close>

fun steps_ok :: "tw_step list \<Rightarrow> beats \<Rightarrow> bool" where
  "steps_ok [] a = True"
| "steps_ok (x # xs) a = ((case x of Beat c d \<Rightarrow> d \<le> 2147483647 | Second \<Rightarrow> (\<forall>c. outstanding a c < 256)) \<and>
     steps_ok xs (fst (abs_step x a)))"

definition no_beats :: beats where
  "no_beats = \<lparr>now = 0, due = \<lambda>_. []\<rparr>"

lemma init_corresponds: "corresponds single_init no_beats"
  unfolding corresponds_def
  by (intro conjI exI [of _ "\<lambda>_. []"])
    (auto simp: wheel_ok_def slot_ok_def single_init_def no_beats_def occurs_def)

lemma t_iter_check: "check_conn s = Some (s', ks) \<Longrightarrow> corresponds s a \<Longrightarrow> \<forall>c. outstanding a c < 256 \<Longrightarrow> t_iter s' = t_iter s"
proof -
  assume c: "check_conn s = Some (s', ks)" and co: "corresponds s a" and few: "\<forall>c. outstanding a c < 256"
  from co obtain P where ok: "wheel_ok s P"
    and P: "\<forall>e. now a \<le> e \<and> e < now a + 16 \<longrightarrow> due a e = map (\<lambda>j. tn_node (timer_nodes s j)) (P (e mod 16))"
    unfolding corresponds_def by blast
  have "\<forall>c. (\<Sum>l<16. occurs s P c l) < 256" using few outstanding_occurs [OF P] by simp
  from check_conn_step [OF ok refl this] c show ?thesis by auto
qed

lemma t_iter_add:
  assumes "add_conn c d s = Some s'"
  shows "\<exists>s1. get_timer_node s = Some (t_iter s', s1)"
proof -
  have sn: "set_next p q t = Some t' \<Longrightarrow> t_iter t' = t_iter t" for p q t t'
    by (auto simp: set_next_def split: tptr.splits)
  obtain j s1 where g: "get_timer_node s = Some (j, s1)" using assms by (auto simp: add_conn_def Let_def bind_Some_iff)
  then have "t_iter s1 = j" by (auto simp: get_timer_node_def bind_Some_iff split: if_splits)
  then have "t_iter s' = j" using assms g by (auto simp: add_conn_def Let_def bind_Some_iff dest!: sn)
  then show ?thesis using g by auto
qed

lemma run_refines:
  assumes "corresponds s a" and "steps_ok xs a" and "t_iter s + beats_in xs < MAX_TIMER"
  shows "\<exists>s' ks. run_steps xs s = Some (s', ks) \<and> corresponds s' (fst (abs_steps xs a)) \<and>
    map set ks = snd (abs_steps xs a) \<and> (\<forall>k\<in>set ks. distinct k)"
  using assms
proof (induction xs arbitrary: s a)
  case (Cons x xs)
  show ?case
  proof (cases x)
    case (Beat c d)
    have ok: "steps_ok xs (abs_beat c d a)" using Cons.prems(2) Beat by simp
    have e: "expiry d < 16" "(now a + expiry d) mod 16 = (now a + 10 + d) mod 16"
      by (auto simp: expiry_def add.assoc mod_add_right_eq)
    have t: "t_iter s + 1 < MAX_TIMER" using Cons.prems(3) Beat by (simp add: beats_in_def)
    obtain s1 where s1: "add_conn c (int d) s = Some s1" "corresponds s1 (abs_beat c d a)"
      using add_corresponds [OF Cons.prems(1) t _ _ e(2), of c] e(1) by (auto simp: abs_beat_def)
    obtain P where P: "wheel_ok s P" using Cons.prems(1) unfolding corresponds_def by blast
    have "t_iter s1 = t_iter s + 1" using t_iter_add [OF s1(1)] get_timer_next [OF P t] by simp
    then have "t_iter s1 + beats_in xs < MAX_TIMER" using Cons.prems(3) Beat by (simp add: beats_in_def)
    from Cons.IH [OF s1(2) ok this] show ?thesis using s1(1) Beat by (auto split: prod.split)
  next
    case Second
    have few: "\<forall>c. outstanding a c < 256" and ok: "steps_ok xs (abs_tick a)" using Cons.prems(2) Second by simp_all
    obtain s1 ks where s1: "check_conn s = Some (s1, ks)" "corresponds s1 (abs_tick a)" "distinct ks" "set ks = abs_kills a"
      using check_corresponds [OF Cons.prems(1) few] by blast
    have "t_iter s1 + beats_in xs < MAX_TIMER"
      using t_iter_check [OF s1(1) Cons.prems(1) few] Cons.prems(3) Second by (simp add: beats_in_def)
    from Cons.IH [OF s1(2) ok this] show ?thesis using s1 Second by (auto split: prod.split)
  qed
qed simp

section \<open>The properties\<close>

text \<open>C20: the wheel of heartbeats implements the abstract wheel: from the start, after any heartbeats and any number of seconds, as long as there were fewer than 131,071 heartbeats in all and no connection ever has 256 at once, every step returns, and each second closes exactly the connections whose last heartbeat expires in it, each of them once. A heartbeat with a delay of at most five expires ten seconds and the delay later; one with a longer delay, and the source allows delays up to 10, loses whole turns of the wheel and expires (10 + delay) mod 16 seconds later.\<close>

theorem single_tw_refines:
  assumes "steps_ok xs no_beats" and "beats_in xs < MAX_TIMER"
  shows "\<exists>s ks. run_steps xs single_init = Some (s, ks) \<and> corresponds s (fst (abs_steps xs no_beats)) \<and>
    map set ks = snd (abs_steps xs no_beats) \<and> (\<forall>k\<in>set ks. distinct k)"
  using run_refines [OF init_corresponds assms(1)] assms(2) by (simp add: single_init_def)

lemma abs_steps_append:
  "abs_steps (xs @ ys) a = (fst (abs_steps ys (fst (abs_steps xs a))),
     snd (abs_steps xs a) @ snd (abs_steps ys (fst (abs_steps xs a))))"
  by (induction xs arbitrary: a) (simp_all add: case_prod_beta)

lemma abs_wait:
  assumes "due a = (\<lambda>_. [])(e := cs)" and "now a + n \<le> e"
  shows "abs_steps (replicate n Second) a = (a\<lparr>now := now a + n\<rparr>, replicate n {})"
  using assms
proof (induction n arbitrary: a)
  case (Suc n)
  have t: "abs_tick a = a\<lparr>now := now a + 1\<rparr>" "abs_kills a = {}"
    using Suc.prems by (auto simp: abs_tick_def abs_kills_def fun_upd_idem)
  then show ?case using Suc.IH [of "a\<lparr>now := now a + 1\<rparr>"] Suc.prems by simp
qed simp

lemma few_outstanding: "\<forall>e. length (due a e) \<le> 2 \<Longrightarrow> outstanding a c < 256"
proof -
  assume h: "\<forall>e. length (due a e) \<le> 2"
  have "count_list (due a e) c \<le> 2" for e by (rule order_trans [OF count_le_length]) (simp add: h)
  then have "outstanding a c \<le> (\<Sum>e = now a..<now a + 16. 2)" unfolding outstanding_def by (intro sum_mono) simp
  then show ?thesis by simp
qed

lemma seconds_ok: "\<forall>e. length (due a e) \<le> 2 \<Longrightarrow> steps_ok (replicate n Second) a"
proof (induction n arbitrary: a)
  case (Suc n)
  have "\<forall>e. length (due (abs_tick a) e) \<le> 2" using Suc.prems by (simp add: abs_tick_def)
  then show ?case using Suc.IH few_outstanding [OF Suc.prems] by simp
qed simp

theorem single_tw_refines_witness:
  "\<exists>s ks. run_steps (Beat 1 0 # replicate 11 Second) single_init = Some (s, ks) \<and> map set ks = replicate 11 {} @ [{1}]"
proof -
  let ?a = "abs_beat 1 0 no_beats"
  have d: "due ?a = (\<lambda>_. [])(10 := [1])" "now ?a = 0" by (simp_all add: abs_beat_def no_beats_def expiry_def)
  have w: "abs_steps (replicate 10 Second) ?a = (?a\<lparr>now := 10\<rparr>, replicate 10 {})" using abs_wait [OF d(1), of 10] d(2) by simp
  have k: "abs_kills (?a\<lparr>now := 10\<rparr>) = {1}" using d by (auto simp: abs_kills_def)
  have r: "replicate 11 Second = replicate 10 Second @ [Second]" by (simp add: numeral_eq_Suc)
  have "snd (abs_steps (replicate 11 Second) ?a) = replicate 10 {} @ [{1}]" unfolding r abs_steps_append w using k by simp
  then have s: "snd (abs_steps (Beat 1 0 # replicate 11 Second) no_beats) = {} # replicate 10 {} @ [{1}]" by (auto split: prod.split)
  have "steps_ok (replicate 11 Second) ?a" using d by (intro seconds_ok) simp
  then have ok: "steps_ok (Beat 1 0 # replicate 11 Second) no_beats" by simp
  have b: "beats_in (Beat 1 0 # replicate 11 Second) < MAX_TIMER" by (simp add: beats_in_def)
  have e: "{} # replicate 10 {} = replicate 11 ({} :: nat set)" by (simp add: numeral_eq_Suc)
  obtain s ks where r: "run_steps (Beat 1 0 # replicate 11 Second) single_init = Some (s, ks)"
      "map set ks = snd (abs_steps (Beat 1 0 # replicate 11 Second) no_beats)"
    using single_tw_refines [OF ok b] by blast
  then show ?thesis unfolding s append_Cons [symmetric] e by blast
qed

text \<open>a heartbeat with a delay of 6 to 15 seconds, of which the source allows those up to 10, expires 16 seconds too early: at the second now + delay - 6 instead of now + 10 + delay.\<close>

theorem single_tw_long_delay_expires_early:
  assumes "corresponds s a" and "t_iter s + 1 < MAX_TIMER" and "6 \<le> d" and "d \<le> 15"
  shows "\<exists>s'. add_conn c (int d) s = Some s' \<and>
    corresponds s' (a\<lparr>due := (due a)(now a + d - 6 := due a (now a + d - 6) @ [c])\<rparr>)"
proof (rule add_corresponds [OF assms(1,2)])
  show "now a \<le> now a + d - 6" "now a + d - 6 < now a + 16" using assms(3,4) by auto
  have "now a + 10 + d = now a + d - 6 + 16" using assms(3) by simp
  then show "(now a + d - 6) mod 16 = (now a + 10 + d) mod 16" by (simp only: mod_add_self2)
qed

theorem single_tw_long_delay_expires_early_witness:
  "\<exists>s'. add_conn 7 10 single_init = Some s' \<and> corresponds s' (no_beats\<lparr>due := (\<lambda>_. [])(4 := [7])\<rparr>)"
  using single_tw_long_delay_expires_early [OF init_corresponds, of 10 7] by (simp add: single_init_def no_beats_def)

text \<open>the table of timer nodes is used up for good: the place of a node is never taken again, so when the iterator has reached the end of the table, after 131,070 heartbeats in all, the next heartbeat reads beyond the table, whatever has expired.\<close>

theorem single_tw_runs_out:
  "(add_conn c d s = Some s' \<longrightarrow> t_iter s < MAX_TIMER \<longrightarrow> t_iter s < t_iter s' \<and> t_iter s' < MAX_TIMER) \<and>
   (t_iter s = MAX_TIMER - 1 \<longrightarrow> add_conn c d s = None)"
proof (intro conjI impI)
  have ge: "next_timer nodes it = Some r \<Longrightarrow> it < 131072 \<longrightarrow> it \<le> r" for nodes it r
  proof (rule next_timer.raw_induct [where P = "\<lambda>nodes it r. it < 131072 \<longrightarrow> it \<le> r"], intro impI)
    fix f and nodes :: "nat \<Rightarrow> timer_node" and it r :: nat
    assume ih: "\<And>nodes it r. f nodes it = Some r \<Longrightarrow> it < 131072 \<longrightarrow> it \<le> r" and it: "it < 131072"
      and body: "(if MAX_TIMER \<le> it mod 131072 then None
        else if 0 < tn_idx (nodes (it mod 131072)) then f nodes (u32_add it 1) else Some it) = Some r"
    then have lt: "it < 131071" by (cases "MAX_TIMER \<le> it") auto
    then have "u32_add it 1 = it + 1" by (intro u32_add_id) simp
    then show "it \<le> r" using body ih [of nodes "it + 1" r] lt by (auto split: if_splits)
  qed
  assume a: "add_conn c d s = Some s'" and t: "t_iter s < MAX_TIMER"
  from t_iter_add [OF a] have g: "\<exists>s1. get_timer_node s = Some (t_iter s', s1)" .
  have u: "u32_add (t_iter s) 1 = t_iter s + 1" using t by (intro u32_add_id) simp
  from g have n: "next_timer (timer_nodes s) (t_iter s + 1) = Some (t_iter s')" "t_iter s' < MAX_TIMER"
    unfolding get_timer_node_def u by (auto simp: bind_Some_iff split: if_splits)
  from ge [OF n(1)] t show "t_iter s < t_iter s'" by simp
  show "t_iter s' < MAX_TIMER" by (rule n(2))
next
  assume t: "t_iter s = MAX_TIMER - 1"
  then have u: "u32_add (t_iter s) 1 = 131071" by (simp add: u32_add_def)
  have "next_timer (timer_nodes s) 131071 = None" by (subst next_timer.simps) simp
  then have "get_timer_node s = None" unfolding get_timer_node_def u by simp
  then show "add_conn c d s = None" by (simp add: add_conn_def)
qed

theorem single_tw_runs_out_witness:
  "add_conn 1 0 (single_init\<lparr>t_iter := 131070\<rparr>) = None"
  using single_tw_runs_out [of 1 0 "single_init\<lparr>t_iter := 131070\<rparr>"] by simp

end
