(* ===== verification/NtyCo.thy ===== *)
theory NtyCo
  imports Bytes
begin

text \<open>
  The coroutines of \<open>2.3.1NtyCo/core\<close>: the scheduler with its ready queue and its sets of sleeping and
  waiting coroutines (\<open>nty_schedule.c\<close>), the life of a coroutine (\<open>nty_coroutine.c\<close>) and the socket
  calls that wait by yielding (\<open>nty_socket.c\<close>).

  The switch of stacks is what the continuation of a coroutine stands for: the point where it yielded,
  and the place in the user's code. The user's code is a parameter: at each place it asks for one
  operation, and its next place depends on the result. The trees of \<open>nty_tree.h\<close> are lists in the order
  of their keys, the queue of \<open>nty_queue.h\<close> is a list. The system is a script: the result of every
  socket call and of every \<open>epoll_wait\<close>, the time at every look at the clock and the outcome of every
  allocation, each by the number of the call. Reading a coroutine that was freed, a failed assertion
  and a switch that never comes back are \<open>None\<close>.
\<close>

section \<open>The state\<close>

abbreviation (input) NEW_BIT :: "32 word" where "NEW_BIT \<equiv> 1"
abbreviation (input) READY_BIT :: "32 word" where "READY_BIT \<equiv> 2"
abbreviation (input) WAIT_READ_BIT :: "32 word" where "WAIT_READ_BIT \<equiv> 4"
abbreviation (input) WAIT_WRITE_BIT :: "32 word" where "WAIT_WRITE_BIT \<equiv> 8"
abbreviation (input) SLEEPING_BIT :: "32 word" where "SLEEPING_BIT \<equiv> 16"
abbreviation (input) EXITED_BIT :: "32 word" where "EXITED_BIT \<equiv> 32"
abbreviation (input) FDEOF_BIT :: "32 word" where "FDEOF_BIT \<equiv> 64"
abbreviation (input) DETACH_BIT :: "32 word" where "DETACH_BIT \<equiv> 128"

abbreviation (input) NTY_COROUTINE_STATUS_WAIT_READ :: "32 word" where "NTY_COROUTINE_STATUS_WAIT_READ \<equiv> 2"
abbreviation (input) NTY_COROUTINE_STATUS_WAIT_WRITE :: "32 word" where "NTY_COROUTINE_STATUS_WAIT_WRITE \<equiv> 3"

abbreviation (input) POLL_IN :: "32 word" where "POLL_IN \<equiv> 1"
abbreviation (input) POLL_OUT :: "32 word" where "POLL_OUT \<equiv> 4"
abbreviation (input) POLL_HUP :: "32 word" where "POLL_HUP \<equiv> 16"

text \<open>The socket calls that wait, with what they have in hand when they yield.\<close>

datatype lib = LAccept int | LRecv int nat | LSend int "byte list" nat | LConnect int
  | LSendto int "byte list" nat | LRecvfrom int nat

datatype 'l point = PEntry | PYield 'l | PWait lib 'l | PExited

record 'l coroutine =
  co_point :: "'l point"
  co_func :: 'l
  co_birth :: nat
  co_status :: "32 word"
  co_id :: int
  co_fd :: int
  co_events :: "32 word"
  co_sleep_usecs :: nat

record schedule =
  sc_birth :: nat
  sc_stack_size :: nat
  sc_spawned :: int
  sc_default_timeout :: nat
  sc_curr :: "addr option"
  sc_epfd :: int
  sc_eventfd :: int
  sc_eventlist :: "(int \<times> 32 word) list"
  sc_num_new :: nat
  sc_ready :: "addr list"
  sc_sleeping :: "addr list"
  sc_waiting :: "addr list"

datatype errno = EAGAIN | ECONNABORTED | EMFILE | ECONNRESET | EINTR | EOTHER

record sysres =
  r_ret :: int
  r_err :: errno
  r_data :: "byte list"

datatype alloc = AllocOk addr | NoMemory | NoStack

text \<open>The environment is the script; the log keeps the socket calls with their results.\<close>

datatype syscall = CAccept int | CRecv int nat | CSend int "byte list" | CConnect int
  | CSendto int "byte list" | CRecvfrom int nat | CClose int | CSocket | CNonblock int

record env =
  e_sys :: "nat \<Rightarrow> sysres"
  e_poll :: "nat \<Rightarrow> (int \<times> 32 word) list + errno"
  e_clock :: "nat \<Rightarrow> nat"
  e_alloc :: "nat \<Rightarrow> alloc"

record 'l nty =
  n_sched :: "schedule option"
  n_heap :: "addr \<Rightarrow> 'l coroutine option"
  n_epoll :: "int \<Rightarrow> 32 word option"
  n_log :: "(syscall \<times> int) list"
  n_sys :: nat
  n_poll :: nat
  n_clock :: nat
  n_alloc :: nat

text \<open>The user's code.\<close>

type_synonym val = "int \<times> byte list"

datatype 'l op = OAccept int | ORecv int nat | OSend int "byte list" | OConnect int
  | OSendto int "byte list" | ORecvfrom int nat | OClose int | OSocket | OSleep nat | OCreate 'l | OExit

record 'l program =
  pg_op :: "'l \<Rightarrow> 'l op"
  pg_next :: "'l \<Rightarrow> val \<Rightarrow> 'l"

section \<open>Access\<close>

definition upd_sched :: "(schedule \<Rightarrow> schedule) \<Rightarrow> 'l nty \<Rightarrow> 'l nty" where
  "upd_sched f s = s\<lparr>n_sched := map_option f (n_sched s)\<rparr>"

definition upd_co :: "addr \<Rightarrow> ('l coroutine \<Rightarrow> 'l coroutine) \<Rightarrow> 'l nty \<Rightarrow> 'l nty option" where
  "upd_co a f s = (case n_heap s a of None \<Rightarrow> None | Some co \<Rightarrow> Some (s\<lparr>n_heap := (n_heap s)(a \<mapsto> f co)\<rparr>))"

definition usec_now :: "env \<Rightarrow> 'l nty \<Rightarrow> nat \<times> 'l nty" where
  "usec_now env s = (e_clock env (n_clock s), s\<lparr>n_clock := Suc (n_clock s)\<rparr>)"

definition sys :: "env \<Rightarrow> syscall \<Rightarrow> 'l nty \<Rightarrow> sysres \<times> 'l nty" where
  "sys env c s = (let r = e_sys env (n_sys s) in (r, s\<lparr>n_sys := Suc (n_sys s), n_log := n_log s @ [(c, r_ret r)]\<rparr>))"

text \<open>Times are unsigned 64-bit differences; they do not wrap in the model: the clock is after the
  birth of the scheduler.\<close>

definition diff_usecs :: "nat \<Rightarrow> nat \<Rightarrow> nat" where
  "diff_usecs t1 t2 = t2 - t1"

text \<open>The trees: the comparison of two coroutines reads a key of each. Every element of a tree has to be
  alive when it is searched; the real tree reads those on the way down.\<close>

definition keys :: "('l coroutine \<Rightarrow> 'k) \<Rightarrow> 'l nty \<Rightarrow> addr list \<Rightarrow> 'k list option" where
  "keys key s xs = those (map (\<lambda>a. map_option key (n_heap s a)) xs)"

fun tree_insert :: "'k :: linorder \<Rightarrow> addr \<Rightarrow> 'k list \<Rightarrow> addr list \<Rightarrow> addr list" where
  "tree_insert k a (k' # ks) (x # xs) = (if k < k' then a # x # xs else x # tree_insert k a ks xs)"
| "tree_insert k a ks xs = a # xs"

definition rb_find :: "('l coroutine \<Rightarrow> 'k :: linorder) \<Rightarrow> 'k \<Rightarrow> 'l nty \<Rightarrow> addr list \<Rightarrow> addr option option" where
  "rb_find key k s xs = do { ks \<leftarrow> keys key s xs; Some (map_of (zip ks xs) k) }"

text \<open>\<open>RB_INSERT\<close> gives back the element with the same key, if there is one.\<close>

definition rb_insert :: "('l coroutine \<Rightarrow> 'k :: linorder) \<Rightarrow> addr \<Rightarrow> 'l nty \<Rightarrow> addr list \<Rightarrow> (addr option \<times> addr list) option" where
  "rb_insert key a s xs = do {
     co \<leftarrow> n_heap s a;
     ks \<leftarrow> keys key s xs;
     Some (case map_of (zip ks xs) (key co) of Some b \<Rightarrow> (Some b, xs) | None \<Rightarrow> (None, tree_insert (key co) a ks xs)) }"

definition rb_remove :: "addr \<Rightarrow> addr list \<Rightarrow> addr list option" where
  "rb_remove a xs = (if a \<in> set xs then Some (remove1 a xs) else None)"

section \<open>The scheduler's sets\<close>

text \<open>\<open>while (msecs) \<dots>\<close>: the key is increased until it is free.\<close>

partial_function (option) sleep_loop :: "addr \<Rightarrow> 'l nty \<Rightarrow> 'l nty option" where
  "sleep_loop a s = do {
     sc \<leftarrow> n_sched s;
     (tmp, t) \<leftarrow> rb_insert co_sleep_usecs a s (sc_sleeping sc);
     (case tmp of
        Some b \<Rightarrow> do { s1 \<leftarrow> upd_co a (\<lambda>co. co\<lparr>co_sleep_usecs := co_sleep_usecs co + 1\<rparr>) s; sleep_loop a s1 }
      | None \<Rightarrow> upd_co a (\<lambda>co. co\<lparr>co_status := co_status co OR SLEEPING_BIT\<rparr>) (upd_sched (\<lambda>sc. sc\<lparr>sc_sleeping := t\<rparr>) s)) }"

definition nty_schedule_sched_sleepdown :: "env \<Rightarrow> addr \<Rightarrow> nat \<Rightarrow> 'l nty \<Rightarrow> 'l nty option" where
  "nty_schedule_sched_sleepdown env a msecs s = do {
     sc \<leftarrow> n_sched s;
     co \<leftarrow> n_heap s a;
     tmp \<leftarrow> rb_find co_sleep_usecs (co_sleep_usecs co) s (sc_sleeping sc);
     sl \<leftarrow> (case tmp of None \<Rightarrow> Some (sc_sleeping sc) | Some b \<Rightarrow> rb_remove b (sc_sleeping sc));
     let (now, s1) = usec_now env (upd_sched (\<lambda>sc. sc\<lparr>sc_sleeping := sl\<rparr>) s);
     s2 \<leftarrow> upd_co a (\<lambda>co. co\<lparr>co_sleep_usecs := diff_usecs (sc_birth sc) now + msecs * 1000\<rparr>) s1;
     if msecs = 0 then Some s2 else sleep_loop a s2 }"

definition nty_schedule_desched_sleepdown :: "addr \<Rightarrow> 'l nty \<Rightarrow> 'l nty option" where
  "nty_schedule_desched_sleepdown a s = do {
     co \<leftarrow> n_heap s a;
     if co_status co AND SLEEPING_BIT \<noteq> 0 then do {
       sc \<leftarrow> n_sched s;
       sl \<leftarrow> rb_remove a (sc_sleeping sc);
       upd_co a (\<lambda>co. co\<lparr>co_status := co_status co AND NOT SLEEPING_BIT\<rparr>) (upd_sched (\<lambda>sc. sc\<lparr>sc_sleeping := sl\<rparr>) s) }
     else Some s }"

text \<open>The status is changed by the number of the state, not by its bit.\<close>

definition nty_schedule_sched_wait :: "env \<Rightarrow> addr \<Rightarrow> int \<Rightarrow> 32 word \<Rightarrow> nat \<Rightarrow> 'l nty \<Rightarrow> 'l nty option" where
  "nty_schedule_sched_wait env a fd events timeout s = do {
     co \<leftarrow> n_heap s a;
     if co_status co AND WAIT_READ_BIT \<noteq> 0 \<or> co_status co AND WAIT_WRITE_BIT \<noteq> 0 then None
     else do {
       bits \<leftarrow> (if events AND POLL_IN \<noteq> 0 then Some NTY_COROUTINE_STATUS_WAIT_READ
               else if events AND POLL_OUT \<noteq> 0 then Some NTY_COROUTINE_STATUS_WAIT_WRITE else None);
       s1 \<leftarrow> upd_co a (\<lambda>co. co\<lparr>co_status := co_status co OR bits, co_fd := fd, co_events := events AND 0xFFFF\<rparr>) s;
       sc \<leftarrow> n_sched s1;
       (tmp, t) \<leftarrow> rb_insert co_fd a s1 (sc_waiting sc);
       if tmp \<noteq> None then None
       else let s2 = upd_sched (\<lambda>sc. sc\<lparr>sc_waiting := t\<rparr>) s1
            in if timeout = 1 then Some s2 else nty_schedule_sched_sleepdown env a timeout s2 } }"

definition nty_schedule_desched_wait :: "int \<Rightarrow> 'l nty \<Rightarrow> (addr \<times> 'l nty) option" where
  "nty_schedule_desched_wait fd s = do {
     sc \<leftarrow> n_sched s;
     found \<leftarrow> rb_find co_fd fd s (sc_waiting sc);
     a \<leftarrow> found;
     w \<leftarrow> rb_remove a (sc_waiting sc);
     s1 \<leftarrow> upd_co a (\<lambda>co. co\<lparr>co_status := co_status co AND NOT WAIT_READ_BIT AND NOT WAIT_WRITE_BIT\<rparr>)
            (upd_sched (\<lambda>sc. sc\<lparr>sc_waiting := w\<rparr>) s);
     s2 \<leftarrow> nty_schedule_desched_sleepdown a s1;
     Some (a, s2) }"

definition nty_schedule_isdone :: "schedule \<Rightarrow> bool" where
  "nty_schedule_isdone sc \<longleftrightarrow> sc_waiting sc = [] \<and> sc_sleeping sc = [] \<and> sc_ready sc = []"

definition nty_schedule_expired :: "env \<Rightarrow> 'l nty \<Rightarrow> (addr option \<times> 'l nty) option" where
  "nty_schedule_expired env s = do {
     sc \<leftarrow> n_sched s;
     let (now, s1) = usec_now env s;
     (case sc_sleeping sc of
        [] \<Rightarrow> Some (None, s1)
      | a # as \<Rightarrow> do {
          co \<leftarrow> n_heap s1 a;
          if co_sleep_usecs co \<le> diff_usecs (sc_birth sc) now
          then Some (Some a, upd_sched (\<lambda>sc. sc\<lparr>sc_sleeping := as\<rparr>) s1) else Some (None, s1) }) }"

definition nty_schedule_min_timeout :: "env \<Rightarrow> 'l nty \<Rightarrow> (nat \<times> 'l nty) option" where
  "nty_schedule_min_timeout env s = do {
     sc \<leftarrow> n_sched s;
     let (now, s1) = usec_now env s;
     (case sc_sleeping sc of
        [] \<Rightarrow> Some (sc_default_timeout sc, s1)
      | a # as \<Rightarrow> do {
          co \<leftarrow> n_heap s1 a;
          let t = diff_usecs (sc_birth sc) now;
          Some (if co_sleep_usecs co > t then co_sleep_usecs co - t else 0, s1) }) }"

text \<open>\<open>epoll_wait\<close>, called again while it is interrupted. The number of milliseconds it is given does
  not matter for the script.\<close>

partial_function (option) epoll_loop :: "env \<Rightarrow> 'l nty \<Rightarrow> ((int \<times> 32 word) list \<times> 'l nty) option" where
  "epoll_loop env s =
    (case e_poll env (n_poll s) of
       Inl evs \<Rightarrow> Some (evs, s\<lparr>n_poll := Suc (n_poll s)\<rparr>)
     | Inr e \<Rightarrow> if e = EINTR then epoll_loop env (s\<lparr>n_poll := Suc (n_poll s)\<rparr>) else None)"

definition nty_schedule_epoll :: "env \<Rightarrow> 'l nty \<Rightarrow> 'l nty option" where
  "nty_schedule_epoll env s = do {
     (usecs, s1) \<leftarrow> nty_schedule_min_timeout env (upd_sched (\<lambda>sc. sc\<lparr>sc_num_new := 0\<rparr>) s);
     sc \<leftarrow> n_sched s1;
     if usecs \<noteq> 0 \<and> sc_ready sc = [] then do {
       (evs, s2) \<leftarrow> epoll_loop env s1;
       Some (upd_sched (\<lambda>sc. sc\<lparr>sc_eventlist := evs, sc_num_new := length evs\<rparr>) s2) }
     else Some s1 }"

text \<open>The status is cleared before the pointer is looked at.\<close>

definition nty_schedule_search_wait :: "int \<Rightarrow> 'l nty \<Rightarrow> (addr \<times> 'l nty) option" where
  "nty_schedule_search_wait fd s = do {
     sc \<leftarrow> n_sched s;
     found \<leftarrow> rb_find co_fd fd s (sc_waiting sc);
     a \<leftarrow> found;
     s1 \<leftarrow> upd_co a (\<lambda>co. co\<lparr>co_status := 0\<rparr>) s;
     Some (a, s1) }"

end
