(* ===== verification/NtyCo_Run.thy ===== *)
theory NtyCo_Run
  imports NtyCo
begin

text \<open>
  The life of a coroutine, the socket calls, and the loop of the scheduler (\<open>nty_coroutine.c\<close>,
  \<open>nty_socket.c\<close>, \<open>nty_schedule_run\<close>). \<open>co_run\<close> is the time a coroutine has the processor: from the
  switch to it to its next yield.
\<close>

section \<open>Creation\<close>

abbreviation (input) NTY_CO_MAX_STACKSIZE :: nat where "NTY_CO_MAX_STACKSIZE \<equiv> 2048"

definition nty_schedule_free :: "'l nty \<Rightarrow> 'l nty" where
  "nty_schedule_free s = s\<lparr>n_sched := None\<rparr>"

text \<open>\<open>epfd\<close> is the descriptor of \<open>epoll_create\<close> (-1 on failure) and \<open>evfd\<close> the one of \<open>eventfd\<close>;
  when \<open>eventfd\<close> fails an assertion stops the program.\<close>

definition nty_epoller_ev_register_trigger :: "int \<Rightarrow> 'l nty \<Rightarrow> 'l nty option" where
  "nty_epoller_ev_register_trigger evfd s = do {
     sc \<leftarrow> n_sched s;
     let fd = (if sc_eventfd sc = 0 then evfd else sc_eventfd sc);
     if fd = - 1 then None
     else if n_epoll s fd \<noteq> None then None
     else Some ((upd_sched (\<lambda>sc. sc\<lparr>sc_eventfd := fd\<rparr>) s)\<lparr>n_epoll := (n_epoll s)(fd \<mapsto> POLL_IN)\<rparr>) }"

definition nty_schedule_create :: "env \<Rightarrow> nat \<Rightarrow> bool \<Rightarrow> int \<Rightarrow> int \<Rightarrow> 'l nty \<Rightarrow> (int \<times> 'l nty) option" where
  "nty_schedule_create env stack_size calloc epfd evfd s =
    (let size = (if stack_size \<noteq> 0 then stack_size else NTY_CO_MAX_STACKSIZE)
     in if \<not> calloc then Some (- 1, s)
        else let s1 = s\<lparr>n_sched := Some \<lparr>sc_birth = 0, sc_stack_size = 0, sc_spawned = 0, sc_default_timeout = 0,
               sc_curr = None, sc_epfd = epfd, sc_eventfd = 0, sc_eventlist = [], sc_num_new = 0,
               sc_ready = [], sc_sleeping = [], sc_waiting = []\<rparr>\<rparr>
          in if epfd = - 1 then Some (- 2, nty_schedule_free s1)
             else do {
               s2 \<leftarrow> nty_epoller_ev_register_trigger evfd s1;
               let (now, s3) = usec_now env s2;
               Some (0, upd_sched (\<lambda>sc. sc\<lparr>sc_stack_size := size, sc_default_timeout := 3000000, sc_birth := now\<rparr>) s3) })"

text \<open>The scheduler is created on the first call; \<open>init\<close> gives the results of its calls. An allocation
  never gives memory that is in use: a script that does is no run of the program.\<close>

definition nty_coroutine_create :: "env \<Rightarrow> bool \<times> int \<times> int \<Rightarrow> 'l \<Rightarrow> 'l nty \<Rightarrow> (int \<times> 'l nty) option" where
  "nty_coroutine_create env init f s = do {
     s0 \<leftarrow> (if n_sched s \<noteq> None then Some s
            else map_option snd (case init of (calloc, epfd, evfd) \<Rightarrow> nty_schedule_create env 0 calloc epfd evfd s));
     (case n_sched s0 of
        None \<Rightarrow> Some (- 1, s0)
      | Some sc \<Rightarrow>
         (let s1 = s0\<lparr>n_alloc := Suc (n_alloc s0)\<rparr>
          in case e_alloc env (n_alloc s0) of
               NoMemory \<Rightarrow> Some (- 2, s1)
             | NoStack \<Rightarrow> Some (- 3, s1)
             | AllocOk a \<Rightarrow> if n_heap s0 a \<noteq> None then None else
                (let (now, s2) = usec_now env s1;
                     co = \<lparr>co_point = PEntry, co_func = f, co_birth = now, co_status = NEW_BIT, co_id = sc_spawned sc,
                           co_fd = - 1, co_events = 0, co_sleep_usecs = 0\<rparr>
                 in Some (0, upd_sched (\<lambda>sc. sc\<lparr>sc_spawned := sc_spawned sc + 1, sc_ready := sc_ready sc @ [a]\<rparr>)
                      (s2\<lparr>n_heap := (n_heap s2)(a \<mapsto> co)\<rparr>))))) }"

definition nty_coroutine_free :: "addr \<Rightarrow> 'l nty \<Rightarrow> 'l nty option" where
  "nty_coroutine_free a s = do {
     co \<leftarrow> n_heap s a;
     Some (upd_sched (\<lambda>sc. sc\<lparr>sc_spawned := sc_spawned sc - 1\<rparr>) (s\<lparr>n_heap := (n_heap s)(a := None)\<rparr>)) }"

definition nty_coroutine_init :: "addr \<Rightarrow> 'l nty \<Rightarrow> 'l nty option" where
  "nty_coroutine_init a = upd_co a (\<lambda>co. co\<lparr>co_point := PEntry, co_status := READY_BIT\<rparr>)"

section \<open>The socket calls\<close>

fun lib_fd :: "lib \<Rightarrow> int" where
  "lib_fd (LAccept fd) = fd"
| "lib_fd (LRecv fd n) = fd"
| "lib_fd (LSend fd buf sent) = fd"
| "lib_fd (LConnect fd) = fd"
| "lib_fd (LSendto fd buf sent) = fd"
| "lib_fd (LRecvfrom fd n) = fd"

text \<open>\<open>POLLIN | POLLERR | POLLHUP\<close> or \<open>POLLOUT | POLLERR | POLLHUP\<close>.\<close>

fun lib_events :: "lib \<Rightarrow> 32 word" where
  "lib_events (LAccept fd) = 25"
| "lib_events (LRecv fd n) = 25"
| "lib_events (LSend fd buf sent) = 28"
| "lib_events (LConnect fd) = 28"
| "lib_events (LSendto fd buf sent) = 28"
| "lib_events (LRecvfrom fd n) = 25"

text \<open>\<open>nty_epoll_inner\<close> before and after its yield, for the one event all callers pass.\<close>

definition nty_epoll_enter :: "env \<Rightarrow> int \<Rightarrow> 32 word \<Rightarrow> 'l nty \<Rightarrow> (addr \<times> 'l nty) option" where
  "nty_epoll_enter env fd events s = do {
     sc \<leftarrow> n_sched s;
     a \<leftarrow> sc_curr sc;
     let s1 = (if n_epoll s fd = None then s\<lparr>n_epoll := (n_epoll s)(fd \<mapsto> events)\<rparr> else s);
     s2 \<leftarrow> nty_schedule_sched_wait env a fd events 1 s1;
     Some (a, s2) }"

definition nty_epoll_leave :: "int \<Rightarrow> 'l nty \<Rightarrow> 'l nty option" where
  "nty_epoll_leave fd s =
    map_option snd (nty_schedule_desched_wait fd (s\<lparr>n_epoll := (n_epoll s)(fd := None)\<rparr>))"

text \<open>\<open>nty_socket\<close> and the end of \<open>nty_accept\<close> put a new socket into the non-blocking mode; when that
  fails \<open>nty_accept\<close> closes the socket, and \<open>nty_socket\<close> closes the descriptor -1.\<close>

definition nty_socket :: "env \<Rightarrow> 'l nty \<Rightarrow> val \<times> 'l nty" where
  "nty_socket env s = (case sys env CSocket s of (r, s1) \<Rightarrow>
     if r_ret r = - 1 then ((- 1, []), s1)
     else (case sys env (CNonblock (r_ret r)) s1 of (r', s2) \<Rightarrow>
       if r_ret r' = - 1 then ((- 1, []), snd (sys env (CClose (r_ret r')) s2)) else ((r_ret r, []), s2)))"

text \<open>What a call does after its wait: return a value, or wait again.\<close>

type_synonym libres = "val + lib"

definition nty_accept :: "env \<Rightarrow> int \<Rightarrow> 'l nty \<Rightarrow> libres \<times> 'l nty" where
  "nty_accept env fd s = (case sys env (CAccept fd) s of (r, s1) \<Rightarrow>
     if r_ret r < 0 then (if r_err r = EAGAIN then Inr (LAccept fd) else Inl (- 1, []), s1)
     else (case sys env (CNonblock (r_ret r)) s1 of (r', s2) \<Rightarrow>
       if r_ret r' = - 1 then (Inl (- 1, []), snd (sys env (CClose (r_ret r)) s2)) else (Inl (r_ret r, []), s2)))"

definition nty_recv :: "env \<Rightarrow> int \<Rightarrow> nat \<Rightarrow> 'l nty \<Rightarrow> libres \<times> 'l nty" where
  "nty_recv env fd len s = (case sys env (CRecv fd len) s of (r, s1) \<Rightarrow> (Inl (r_ret r, r_data r), s1))"

text \<open>The results of the system calls are values of \<open>ssize_t\<close>; the code keeps them in an \<open>int\<close>, which
  takes the low 32 bits, and counts the bytes sent in an \<open>int\<close>, whose overflow is undefined.\<close>

definition to_int :: "int \<Rightarrow> int" where
  "to_int n = signed_take_bit 31 n"

definition INT_MAX :: int where
  "INT_MAX = 2147483647"

definition add_sent :: "nat \<Rightarrow> int \<Rightarrow> nat option" where
  "add_sent sent ret = (if int sent + ret > INT_MAX then None else Some (nat (int sent + ret)))"

text \<open>\<open>nty_send\<close> at the test of its loop, with the last result.\<close>

definition send_test :: "int \<Rightarrow> byte list \<Rightarrow> nat \<Rightarrow> int \<Rightarrow> libres" where
  "send_test fd buf sent ret =
    (if sent < length buf then Inr (LSend fd buf sent)
     else Inl (if ret \<le> 0 \<and> sent = 0 then ret else int sent, []))"

definition nty_send :: "env \<Rightarrow> int \<Rightarrow> byte list \<Rightarrow> 'l nty \<Rightarrow> (libres \<times> 'l nty) option" where
  "nty_send env fd buf s = (case sys env (CSend fd buf) s of (r, s1) \<Rightarrow>
     let ret = to_int (r_ret r) in
     if ret = 0 then Some (Inl (ret, []), s1)
     else do {
       sent \<leftarrow> (if ret > 0 then add_sent 0 ret else Some 0);
       Some (send_test fd buf sent ret, s1) })"

definition nty_send_again :: "env \<Rightarrow> int \<Rightarrow> byte list \<Rightarrow> nat \<Rightarrow> 'l nty \<Rightarrow> (libres \<times> 'l nty) option" where
  "nty_send_again env fd buf sent s = (case sys env (CSend fd (drop sent buf)) s of (r, s1) \<Rightarrow>
     let ret = to_int (r_ret r) in
     if ret \<le> 0 then Some (Inl (if sent = 0 then ret else int sent, []), s1)
     else do {
       sent' \<leftarrow> add_sent sent ret;
       Some (send_test fd buf sent' ret, s1) })"

definition nty_connect :: "env \<Rightarrow> int \<Rightarrow> 'l nty \<Rightarrow> libres \<times> 'l nty" where
  "nty_connect env fd s = (case sys env (CConnect fd) s of (r, s1) \<Rightarrow>
     if r_ret r = 0 then (Inl (0, []), s1)
     else if r_ret r = - 1 \<and> r_err r = EAGAIN then (Inr (LConnect fd), s1)
     else (Inl (r_ret r, []), s1))"

definition nty_sendto :: "env \<Rightarrow> int \<Rightarrow> byte list \<Rightarrow> nat \<Rightarrow> 'l nty \<Rightarrow> (libres \<times> 'l nty) option" where
  "nty_sendto env fd buf sent s = (case sys env (CSendto fd (drop sent buf)) s of (r, s1) \<Rightarrow>
     let ret = to_int (r_ret r) in
     if ret \<le> 0 then
       (if r_err r = EAGAIN then Some (Inr (LSendto fd buf sent), s1)
        else if r_err r = ECONNRESET then Some (Inl (ret, []), s1) else None)
     else do {
       n \<leftarrow> add_sent sent ret;
       Some (if n < length buf then Inr (LSendto fd buf n) else Inl (int n, []), s1) })"

definition nty_recvfrom :: "env \<Rightarrow> int \<Rightarrow> nat \<Rightarrow> 'l nty \<Rightarrow> (libres \<times> 'l nty) option" where
  "nty_recvfrom env fd len s = (case sys env (CRecvfrom fd len) s of (r, s1) \<Rightarrow>
     let ret = to_int (r_ret r) in
     if ret < 0 then
       (if r_err r = EAGAIN then Some (Inl (ret, []), s1)
        else if r_err r = ECONNRESET then Some (Inl (0, []), s1) else None)
     else Some (Inl (ret, r_data r), s1))"

definition nty_close :: "env \<Rightarrow> int \<Rightarrow> 'l nty \<Rightarrow> val \<times> 'l nty" where
  "nty_close env fd s = (case sys env (CClose fd) s of (r, s1) \<Rightarrow>
     ((r_ret r, []), s1\<lparr>n_epoll := (n_epoll s1)(fd := None)\<rparr>))"

fun lib_resume :: "env \<Rightarrow> lib \<Rightarrow> 'l nty \<Rightarrow> (libres \<times> 'l nty) option" where
  "lib_resume env (LAccept fd) s = Some (nty_accept env fd s)"
| "lib_resume env (LRecv fd n) s = Some (nty_recv env fd n s)"
| "lib_resume env (LSend fd buf sent) s = nty_send_again env fd buf sent s"
| "lib_resume env (LConnect fd) s = Some (nty_connect env fd s)"
| "lib_resume env (LSendto fd buf sent) s = nty_sendto env fd buf sent s"
| "lib_resume env (LRecvfrom fd n) s = nty_recvfrom env fd n s"

text \<open>The calls up to their first wait.\<close>

fun lib_enter :: "env \<Rightarrow> 'l op \<Rightarrow> 'l nty \<Rightarrow> (libres \<times> 'l nty) option" where
  "lib_enter env (OAccept fd) s = Some (Inr (LAccept fd), s)"
| "lib_enter env (ORecv fd n) s = Some (Inr (LRecv fd n), s)"
| "lib_enter env (OSend fd buf) s = nty_send env fd buf s"
| "lib_enter env (OConnect fd) s = Some (Inr (LConnect fd), s)"
| "lib_enter env (OSendto fd buf) s = Some (if buf = [] then Inl (0, []) else Inr (LSendto fd buf 0), s)"
| "lib_enter env (ORecvfrom fd n) s = Some (Inr (LRecvfrom fd n), s)"
| "lib_enter env (OClose fd) s = (case nty_close env fd s of (v, s1) \<Rightarrow> Some (Inl v, s1))"
| "lib_enter env OSocket s = (case nty_socket env s of (v, s1) \<Rightarrow> Some (Inl v, s1))"
| "lib_enter env (OSleep ms) s = None"
| "lib_enter env (OCreate f) s = None"
| "lib_enter env OExit s = None"

section \<open>Running a coroutine\<close>

datatype 'l mode = MUser 'l | MLib "libres" 'l | MWaited lib 'l

text \<open>The status when the function of a coroutine has returned.\<close>

definition exec_exit :: "'l coroutine \<Rightarrow> 'l coroutine" where
  "exec_exit co = co\<lparr>co_status := co_status co OR (EXITED_BIT OR FDEOF_BIT OR DETACH_BIT), co_point := PExited\<rparr>"

text \<open>\<open>nty_coroutine_sleep\<close>: with zero the coroutine queues itself and yields; otherwise it only enters
  the set of sleepers, and goes on.\<close>

definition user_step :: "env \<Rightarrow> 'l program \<Rightarrow> 'l \<Rightarrow> addr \<Rightarrow> 'l nty \<Rightarrow> ('l mode option \<times> 'l nty) option" where
  "user_step env pg l a s = (case pg_op pg l of
     OExit \<Rightarrow> map_option (Pair None) (upd_co a exec_exit s)
   | OSleep ms \<Rightarrow>
      (if ms = 0
       then map_option (Pair None) (upd_co a (\<lambda>co. co\<lparr>co_point := PYield l\<rparr>) (upd_sched (\<lambda>sc. sc\<lparr>sc_ready := sc_ready sc @ [a]\<rparr>) s))
       else map_option (Pair (Some (MUser (pg_next pg l (0, []))))) (nty_schedule_sched_sleepdown env a ms s))
   | OCreate f \<Rightarrow> do { (r, s1) \<leftarrow> nty_coroutine_create env (False, - 1, - 1) f s; Some (Some (MUser (pg_next pg l (r, []))), s1) }
   | opn \<Rightarrow> do { (r, s1) \<leftarrow> lib_enter env opn s; Some (Some (MLib r l), s1) })"

text \<open>What a coroutine does next; no mode is a yield.\<close>

fun co_step :: "env \<Rightarrow> 'l program \<Rightarrow> 'l mode \<Rightarrow> addr \<Rightarrow> 'l nty \<Rightarrow> ('l mode option \<times> 'l nty) option" where
  "co_step env pg (MUser l) a s = user_step env pg l a s"
| "co_step env pg (MLib (Inl v) l) a s = Some (Some (MUser (pg_next pg l v)), s)"
| "co_step env pg (MLib (Inr lb) l) a s = do {
     (b, s1) \<leftarrow> nty_epoll_enter env (lib_fd lb) (lib_events lb) s;
     map_option (Pair None) (upd_co b (\<lambda>co. co\<lparr>co_point := PWait lb l\<rparr>) s1) }"
| "co_step env pg (MWaited lb l) a s = do {
     s1 \<leftarrow> nty_epoll_leave (lib_fd lb) s;
     (r, s2) \<leftarrow> lib_resume env lb s1;
     Some (Some (MLib r l), s2) }"

partial_function (option) co_run :: "env \<Rightarrow> 'l program \<Rightarrow> 'l mode \<Rightarrow> addr \<Rightarrow> 'l nty \<Rightarrow> 'l nty option" where
  "co_run env pg m a s = do {
     (next_mode, s1) \<leftarrow> co_step env pg m a s;
     (case next_mode of None \<Rightarrow> Some s1 | Some m1 \<Rightarrow> co_run env pg m1 a s1) }"

fun mode_of :: "'l program \<Rightarrow> 'l coroutine \<Rightarrow> 'l mode option" where
  "mode_of pg co = (case co_point co of
     PEntry \<Rightarrow> Some (MUser (co_func co))
   | PYield l \<Rightarrow> Some (MUser (pg_next pg l (0, [])))
   | PWait lb l \<Rightarrow> Some (MWaited lb l)
   | PExited \<Rightarrow> None)"

definition nty_coroutine_resume :: "env \<Rightarrow> 'l program \<Rightarrow> addr \<Rightarrow> 'l nty \<Rightarrow> (int \<times> 'l nty) option" where
  "nty_coroutine_resume env pg a s = do {
     co \<leftarrow> n_heap s a;
     s1 \<leftarrow> (if co_status co AND NEW_BIT \<noteq> 0 then nty_coroutine_init a s else Some s);
     co1 \<leftarrow> n_heap s1 a;
     m \<leftarrow> mode_of pg co1;
     s2 \<leftarrow> co_run env pg m a (upd_sched (\<lambda>sc. sc\<lparr>sc_curr := Some a\<rparr>) s1);
     let s3 = upd_sched (\<lambda>sc. sc\<lparr>sc_curr := None\<rparr>) s2;
     co2 \<leftarrow> n_heap s3 a;
     if co_status co2 AND EXITED_BIT \<noteq> 0 then do {
       s4 \<leftarrow> (if co_status co2 AND DETACH_BIT \<noteq> 0 then nty_coroutine_free a s3 else Some s3);
       Some (- 1, s4) }
     else Some (0, s3) }"

section \<open>The loop of the scheduler\<close>

partial_function (option) run_expired :: "env \<Rightarrow> 'l program \<Rightarrow> 'l nty \<Rightarrow> 'l nty option" where
  "run_expired env pg s = do {
     (x, s1) \<leftarrow> nty_schedule_expired env s;
     (case x of None \<Rightarrow> Some s1 | Some a \<Rightarrow> do { (r, s2) \<leftarrow> nty_coroutine_resume env pg a s1; run_expired env pg s2 }) }"

text \<open>The queue is run up to the coroutine that was last in it.\<close>

partial_function (option) run_queue :: "env \<Rightarrow> 'l program \<Rightarrow> addr option \<Rightarrow> 'l nty \<Rightarrow> 'l nty option" where
  "run_queue env pg last_co s = do {
     sc \<leftarrow> n_sched s;
     (case sc_ready sc of
        [] \<Rightarrow> Some s
      | a # as \<Rightarrow> do {
          let s1 = upd_sched (\<lambda>sc. sc\<lparr>sc_ready := as\<rparr>) s;
          co \<leftarrow> n_heap s1 a;
          if co_status co AND FDEOF_BIT \<noteq> 0 then nty_coroutine_free a s1
          else do {
            (r, s2) \<leftarrow> nty_coroutine_resume env pg a s1;
            if Some a = last_co then Some s2 else run_queue env pg last_co s2 } }) }"

definition wake :: "env \<Rightarrow> 'l program \<Rightarrow> int \<times> 32 word \<Rightarrow> 'l nty \<Rightarrow> 'l nty option" where
  "wake env pg ev s = do {
     (a, s1) \<leftarrow> nty_schedule_search_wait (fst ev) s;
     s2 \<leftarrow> (if snd ev AND POLL_HUP \<noteq> 0 then upd_co a (\<lambda>co. co\<lparr>co_status := co_status co OR FDEOF_BIT\<rparr>) s1 else Some s1);
     (r, s3) \<leftarrow> nty_coroutine_resume env pg a s2;
     Some s3 }"

partial_function (option) run_events :: "env \<Rightarrow> 'l program \<Rightarrow> 'l nty \<Rightarrow> 'l nty option" where
  "run_events env pg s = do {
     sc \<leftarrow> n_sched s;
     if sc_num_new sc = 0 then Some s
     else do {
       let idx = sc_num_new sc - 1;
       s1 \<leftarrow> wake env pg (sc_eventlist sc ! idx) (upd_sched (\<lambda>sc. sc\<lparr>sc_num_new := idx\<rparr>) s);
       run_events env pg s1 } }"

definition schedule_round :: "env \<Rightarrow> 'l program \<Rightarrow> 'l nty \<Rightarrow> 'l nty option" where
  "schedule_round env pg s = do {
     s1 \<leftarrow> run_expired env pg s;
     sc \<leftarrow> n_sched s1;
     s2 \<leftarrow> run_queue env pg (if sc_ready sc = [] then None else Some (last (sc_ready sc))) s1;
     s3 \<leftarrow> nty_schedule_epoll env s2;
     run_events env pg s3 }"

partial_function (option) schedule_loop :: "env \<Rightarrow> 'l program \<Rightarrow> 'l nty \<Rightarrow> 'l nty option" where
  "schedule_loop env pg s = do {
     sc \<leftarrow> n_sched s;
     if nty_schedule_isdone sc then Some (nty_schedule_free s)
     else do { s1 \<leftarrow> schedule_round env pg s; schedule_loop env pg s1 } }"

definition nty_schedule_run :: "env \<Rightarrow> 'l program \<Rightarrow> 'l nty \<Rightarrow> 'l nty option" where
  "nty_schedule_run env pg s = (if n_sched s = None then Some s else schedule_loop env pg s)"

declare sleep_loop.simps [code] and epoll_loop.simps [code] and co_run.simps [code] and run_expired.simps [code]
  and run_queue.simps [code] and run_events.simps [code] and schedule_loop.simps [code]

end
