(* ===== verification/NtyCo_Inv.thy ===== *)
theory NtyCo_Inv
  imports NtyCo_Run
begin

text \<open>
  The invariant of the scheduler for programs that do not sleep for a positive time: between two
  coroutines each live one stands exactly once in the ready queue or in the set of waiting ones, where
  it waits for the descriptor it is filed under; the poll set watches nothing but the trigger and the
  descriptors somebody waits for, and the number of coroutines is the number of live ones.
\<close>

section \<open>Status bits\<close>

lemma bits_below:
  fixes x m b :: "32 word"
  assumes "x AND m = 0" and "m AND b = b"
  shows "x AND b = 0"
proof -
  have "x AND b = x AND (m AND b)" using assms(2) by simp
  also have "\<dots> = (x AND m) AND b" by (simp add: and.assoc)
  finally show ?thesis using assms(1) by simp
qed

lemma or_bits:
  fixes x y m :: "32 word"
  shows "(x OR y) AND m = 0 \<longleftrightarrow> x AND m = 0 \<and> y AND m = 0"
  by (auto simp: bit_eq_iff bit_simps)

lemma bits_join:
  fixes x :: "32 word"
  assumes "x AND 0xBC = 0" and "x AND 1 = 0"
  shows "x AND 0xBD = 0"
proof -
  have "x AND (0xBC OR 1) = (x AND 0xBC) OR (x AND 1)" by (rule bit.conj_disj_distrib)
  then show ?thesis using assms by simp
qed

lemma and_bits:
  fixes x y m :: "32 word"
  assumes "x AND m = 0"
  shows "(x AND y) AND m = 0"
proof -
  have "(x AND y) AND m = (x AND m) AND y" by (simp add: ac_simps)
  then show ?thesis using assms by simp
qed

section \<open>The invariant\<close>

definition live :: "'l nty \<Rightarrow> addr \<Rightarrow> 'l coroutine" where
  "live s a = the (n_heap s a)"

definition quiet :: "'l coroutine \<Rightarrow> bool" where
  "quiet co \<longleftrightarrow> co_status co AND 0xBC = 0"

definition ready_co :: "'l coroutine \<Rightarrow> bool" where
  "ready_co co \<longleftrightarrow> quiet co \<and> (case co_point co of
     PEntry \<Rightarrow> True | PYield l \<Rightarrow> co_status co AND NEW_BIT = 0 | _ \<Rightarrow> False)"

definition waiting_co :: "'l coroutine \<Rightarrow> bool" where
  "waiting_co co \<longleftrightarrow> quiet co \<and> (case co_point co of PWait lb l \<Rightarrow> co_fd co = lib_fd lb | _ \<Rightarrow> False)"

definition running_co :: "'l coroutine \<Rightarrow> bool" where
  "running_co co \<longleftrightarrow> co_status co AND 0xBD = 0"

definition nty_ok :: "addr list \<Rightarrow> 'l nty \<Rightarrow> bool" where
  "nty_ok held s \<longleftrightarrow> (case n_sched s of None \<Rightarrow> False | Some sc \<Rightarrow>
     sc_sleeping sc = [] \<and> distinct (held @ sc_ready sc @ sc_waiting sc) \<and>
     dom (n_heap s) = set (held @ sc_ready sc @ sc_waiting sc) \<and>
     sc_spawned sc = int (length (held @ sc_ready sc @ sc_waiting sc)) \<and>
     (\<forall>a\<in>set (sc_ready sc). ready_co (live s a)) \<and> (\<forall>a\<in>set (sc_waiting sc). waiting_co (live s a)) \<and>
     sorted_wrt (<) (map (\<lambda>a. co_fd (live s a)) (sc_waiting sc)) \<and>
     dom (n_epoll s) \<subseteq> insert (sc_eventfd sc) ((\<lambda>a. co_fd (live s a)) ` set (sc_waiting sc)))"

fun mode_ok :: "'l mode \<Rightarrow> addr \<Rightarrow> 'l nty \<Rightarrow> bool" where
  "mode_ok (MWaited lb l) a s \<longleftrightarrow> nty_ok [] s \<and> running_co (live s a) \<and>
     (\<exists>sc. n_sched s = Some sc \<and> sc_curr sc = Some a \<and> a \<in> set (sc_waiting sc) \<and> co_fd (live s a) = lib_fd lb)"
| "mode_ok m a s \<longleftrightarrow> nty_ok [a] s \<and> running_co (live s a) \<and> (\<exists>sc. n_sched s = Some sc \<and> sc_curr sc = Some a)"

text \<open>How a coroutine gives the processor back.\<close>

definition yielded :: "addr \<Rightarrow> 'l nty \<Rightarrow> bool" where
  "yielded a s \<longleftrightarrow> nty_ok [] s \<and> n_heap s a \<noteq> None \<or>
     nty_ok [a] s \<and> co_status (live s a) AND EXITED_BIT \<noteq> 0 \<and> co_status (live s a) AND DETACH_BIT \<noteq> 0"

definition no_sleep :: "'l program \<Rightarrow> bool" where
  "no_sleep pg \<longleftrightarrow> (\<forall>l ms. pg_op pg l = OSleep ms \<longrightarrow> ms = 0)"

section \<open>The trees\<close>

lemma keys_live:
  assumes "set xs \<subseteq> dom (n_heap s)"
  shows "keys key s xs = Some (map (\<lambda>a. key (live s a)) xs)"
  using assms by (induction xs) (auto simp: keys_def live_def)

lemma tree_insert_perm:
  assumes "length ks = length xs"
  shows "set (tree_insert k a ks xs) = insert a (set xs)" and "length (tree_insert k a ks xs) = Suc (length xs)"
    and "distinct (tree_insert k a ks xs) \<longleftrightarrow> a \<notin> set xs \<and> distinct xs"
  using assms by (induction k a ks xs rule: tree_insert.induct) auto

lemma map_of_zip_in:
  assumes "map_of (zip (map f xs) xs) k = Some b"
  shows "b \<in> set xs \<and> f b = k"
proof -
  have "(k, b) \<in> set (zip (map f xs) xs)" using assms by (rule map_of_SomeD)
  then show ?thesis by (auto simp: in_set_zip)
qed

lemma map_of_zip_none: "map_of (zip (map f xs) xs) k = None \<longleftrightarrow> k \<notin> f ` set xs"
  by (induction xs) auto

lemma map_of_zip_sorted:
  fixes f :: "addr \<Rightarrow> 'k :: linorder"
  assumes "sorted_wrt (<) (map f xs)" and "a \<in> set xs"
  shows "map_of (zip (map f xs) xs) (f a) = Some a"
  using assms by (induction xs) (auto simp: less_le)

lemma sorted_wrt_insert:
  fixes f :: "addr \<Rightarrow> 'k :: linorder"
  assumes "sorted_wrt (<) (map f xs)" and "f a \<notin> f ` set xs"
  shows "sorted_wrt (<) (map f (tree_insert (f a) a (map f xs) xs))"
  using assms
proof (induction xs)
  case (Cons x xs)
  have "set (tree_insert (f a) a (map f xs) xs) = insert a (set xs)" by (rule tree_insert_perm) simp
  then show ?case using Cons by (auto simp: not_less_iff_gr_or_eq)
qed simp

section \<open>What does not disturb the invariant\<close>

definition same_frame :: "'l nty \<Rightarrow> 'l nty \<Rightarrow> bool" where
  "same_frame s s1 \<longleftrightarrow> n_sched s1 = n_sched s \<and> n_heap s1 = n_heap s \<and> dom (n_epoll s1) \<subseteq> dom (n_epoll s)"

lemma ok_sched: "nty_ok held s \<Longrightarrow> \<exists>sc. n_sched s = Some sc"
  by (auto simp: nty_ok_def split: option.splits)

lemma ok_live:
  assumes "nty_ok held s" and "n_sched s = Some sc" and "a \<in> set held \<union> set (sc_ready sc) \<union> set (sc_waiting sc)"
  shows "n_heap s a = Some (live s a)"
proof -
  have "a \<in> dom (n_heap s)" using assms by (simp add: nty_ok_def)
  then show ?thesis by (auto simp: live_def)
qed

lemma ok_frame:
  assumes ok: "nty_ok held s" and same: "same_frame s s1"
  shows "nty_ok held s1"
proof -
  obtain sc where sc: "n_sched s = Some sc" using ok_sched [OF ok] by auto
  have eq: "n_sched s1 = Some sc" "live s1 = live s" "dom (n_heap s1) = dom (n_heap s)" "dom (n_epoll s1) \<subseteq> dom (n_epoll s)"
    using same sc by (auto simp: same_frame_def live_def)
  have "dom (n_epoll s) \<subseteq> insert (sc_eventfd sc) ((\<lambda>a. co_fd (live s a)) ` set (sc_waiting sc))"
    using ok sc by (simp add: nty_ok_def)
  with eq(4) have "dom (n_epoll s1) \<subseteq> insert (sc_eventfd sc) ((\<lambda>a. co_fd (live s a)) ` set (sc_waiting sc))"
    by (rule subset_trans)
  then show ?thesis using ok eq sc by (simp add: nty_ok_def)
qed

lemma mode_frame:
  assumes "same_frame s s1" and "mode_ok (MUser l) a s"
  shows "mode_ok (MUser l') a s1" and "mode_ok (MLib r l') a s1"
  using assms ok_frame [of "[a]" s s1] by (auto simp: same_frame_def live_def)

lemma ok_held:
  assumes ok: "nty_ok held s" and same: "n_sched s1 = n_sched s" "n_epoll s1 = n_epoll s" "dom (n_heap s1) = dom (n_heap s)"
    and others: "\<And>b. b \<notin> set held \<Longrightarrow> n_heap s1 b = n_heap s b"
  shows "nty_ok held s1"
proof -
  obtain sc where sc: "n_sched s = Some sc" using ok by (auto simp: nty_ok_def split: option.splits)
  have eq: "live s1 b = live s b" if "b \<in> set (sc_ready sc) \<union> set (sc_waiting sc)" for b
  proof -
    have "b \<notin> set held" using that ok sc by (auto simp: nty_ok_def)
    then show ?thesis using others by (simp add: live_def)
  qed
  have "map (\<lambda>a. co_fd (live s1 a)) (sc_waiting sc) = map (\<lambda>a. co_fd (live s a)) (sc_waiting sc)"
    "(\<lambda>a. co_fd (live s1 a)) ` set (sc_waiting sc) = (\<lambda>a. co_fd (live s a)) ` set (sc_waiting sc)"
    using eq by (auto intro!: map_cong image_cong)
  with ok sc same eq show ?thesis by (auto simp: nty_ok_def simp del: map_eq_conv)
qed

lemma ok_upd_held:
  assumes "nty_ok held s" and "a \<in> set held" and "upd_co a f s = Some s1"
  shows "nty_ok held s1" and "live s1 a = f (live s a)" and "n_sched s1 = n_sched s" and "n_heap s1 a \<noteq> None"
proof -
  have s1: "s1 = s\<lparr>n_heap := (n_heap s)(a \<mapsto> f (live s a))\<rparr>" and a: "n_heap s a \<noteq> None"
    using assms(3) by (auto simp: upd_co_def live_def split: option.splits)
  show "nty_ok held s1" by (rule ok_held [OF assms(1)]) (use s1 a assms(2) in auto)
  show "live s1 a = f (live s a)" and "n_sched s1 = n_sched s" and "n_heap s1 a \<noteq> None" using s1 by (auto simp: live_def)
qed

lemma ok_curr [simp]:
  "nty_ok held (upd_sched (\<lambda>sc. sc\<lparr>sc_curr := c\<rparr>) s) \<longleftrightarrow> nty_ok held s"
  "nty_ok held (upd_sched (\<lambda>sc. sc\<lparr>sc_num_new := n\<rparr>) s) \<longleftrightarrow> nty_ok held s"
  "nty_ok held (upd_sched (\<lambda>sc. sc\<lparr>sc_eventlist := evs, sc_num_new := n\<rparr>) s) \<longleftrightarrow> nty_ok held s"
  by (auto simp: nty_ok_def upd_sched_def live_def split: option.splits)

lemma live_upd_sched [simp]: "live (upd_sched f s) a = live s a"
  by (simp add: live_def upd_sched_def)

lemma ok_same:
  "nty_ok held (s\<lparr>n_clock := i\<rparr>) \<longleftrightarrow> nty_ok held s" "nty_ok held (s\<lparr>n_poll := i\<rparr>) \<longleftrightarrow> nty_ok held s"
  by (auto simp: nty_ok_def live_def split: option.splits)

lemma sys_frame: "sys env c s = (r, s1) \<Longrightarrow> same_frame s s1"
  by (auto simp: sys_def same_frame_def Let_def)

lemma same_frame_trans: "same_frame s s1 \<Longrightarrow> same_frame s1 s2 \<Longrightarrow> same_frame s s2"
  unfolding same_frame_def using subset_trans by force

lemma lib_resume_frame: "lib_resume env lb s = Some (r, s1) \<Longrightarrow> same_frame s s1"
  by (cases lb) (auto simp: nty_accept_def nty_recv_def nty_send_again_def nty_connect_def nty_sendto_def
      nty_recvfrom_def sys_def Let_def same_frame_def bind_eq_Some_conv split: if_splits)

lemma lib_enter_frame: "lib_enter env opn s = Some (r, s1) \<Longrightarrow> same_frame s s1"
  by (cases opn) (auto simp: nty_send_def nty_close_def nty_socket_def sys_def Let_def same_frame_def bind_eq_Some_conv split: if_splits)

end
