(* ===== verification/NtyCo_Sched.thy ===== *)
theory NtyCo_Sched
  imports NtyCo_Inv
begin

text \<open>
  The operations of the scheduler keep the invariant: a coroutine enters and leaves the set of waiting
  ones, queues itself, creates another one and exits; the rounds of the scheduler are made of these.
\<close>

section \<open>Waiting\<close>

lemma keys_upd:
  assumes "set xs \<subseteq> dom (n_heap s)" and "a \<notin> set xs"
  shows "keys key (s\<lparr>n_heap := (n_heap s)(a \<mapsto> co)\<rparr>) xs = Some (map (\<lambda>b. key (live s b)) xs)"
  using assms by (induction xs) (auto simp: keys_def live_def)

lemma sched_wait_result:
  assumes a: "n_heap s a = Some (live s a)" and w: "set (sc_waiting sc) \<subseteq> dom (n_heap s)" "a \<notin> set (sc_waiting sc)"
    and sc: "n_sched s = Some sc" and run: "nty_schedule_sched_wait env a fd ev 1 s = Some s1"
  obtains bits where "bits = 2 \<or> bits = 3" and "fd \<notin> (\<lambda>b. co_fd (live s b)) ` set (sc_waiting sc)"
    and "s1 = s\<lparr>n_heap := (n_heap s)(a \<mapsto> (live s a)\<lparr>co_status := co_status (live s a) OR bits, co_fd := fd, co_events := ev AND 0xFFFF\<rparr>),
       n_sched := Some (sc\<lparr>sc_waiting := tree_insert fd a (map (\<lambda>b. co_fd (live s b)) (sc_waiting sc)) (sc_waiting sc)\<rparr>)\<rparr>"
proof -
  define bits :: "32 word" where "bits = (if ev AND POLL_IN \<noteq> 0 then 2 else 3)"
  let ?co = "(live s a)\<lparr>co_status := co_status (live s a) OR bits, co_fd := fd, co_events := ev AND 0xFFFF\<rparr>"
  let ?s = "s\<lparr>n_heap := (n_heap s)(a \<mapsto> ?co)\<rparr>"
  let ?w = "sc_waiting sc" and ?k = "map (\<lambda>b. co_fd (live s b)) (sc_waiting sc)"
  have ins: "rb_insert co_fd a ?s ?w =
      Some (case map_of (zip ?k ?w) fd of Some b \<Rightarrow> (Some b, ?w) | None \<Rightarrow> (None, tree_insert fd a ?k ?w))"
    by (simp add: rb_insert_def keys_upd [OF w] cong: option.case_cong)
  have found: "map_of (zip ?k ?w) fd = None \<and> s1 = ?s\<lparr>n_sched := Some (sc\<lparr>sc_waiting := tree_insert fd a ?k ?w\<rparr>)\<rparr>"
    using run a sc ins
    by (auto simp: nty_schedule_sched_wait_def upd_co_def upd_sched_def bits_def Let_def bind_eq_Some_conv
        split: if_splits option.splits)
  then have "fd \<notin> (\<lambda>b. co_fd (live s b)) ` set ?w" using map_of_zip_none by metis
  then show ?thesis using found by (intro that [of bits]) (auto simp: bits_def)
qed

lemma enter_ok:
  assumes ok: "nty_ok [a] s" and sc: "n_sched s = Some sc" "sc_curr sc = Some a" and "running_co (live s a)"
    and enter: "nty_epoll_enter env (lib_fd lb) ev s = Some (b, s1)"
    and wait: "upd_co b (\<lambda>co. co\<lparr>co_point := PWait lb l\<rparr>) s1 = Some s2"
  shows "yielded a s2"
proof -
  let ?fd = "lib_fd lb"
  define s0 where "s0 = (if n_epoll s ?fd = None then s\<lparr>n_epoll := (n_epoll s)(?fd \<mapsto> ev)\<rparr> else s)"
  have b: "b = a" and sw: "nty_schedule_sched_wait env a ?fd ev 1 s0 = Some s1"
    using enter sc by (auto simp: nty_epoll_enter_def s0_def Let_def bind_eq_Some_conv split: if_splits)
  have s0: "n_sched s0 = Some sc" "n_heap s0 = n_heap s" "live s0 = live s" "n_epoll s0 = n_epoll s \<or> n_epoll s0 = (n_epoll s)(?fd \<mapsto> ev)"
    using sc by (auto simp: s0_def live_def)
  have parts: "sc_sleeping sc = []" "distinct (a # sc_ready sc @ sc_waiting sc)" "dom (n_heap s) = set (a # sc_ready sc @ sc_waiting sc)"
    "sc_spawned sc = int (length (a # sc_ready sc @ sc_waiting sc))" "\<forall>b\<in>set (sc_ready sc). ready_co (live s b)"
    "\<forall>b\<in>set (sc_waiting sc). waiting_co (live s b)" "sorted_wrt (<) (map (\<lambda>b. co_fd (live s b)) (sc_waiting sc))"
    "dom (n_epoll s) \<subseteq> insert (sc_eventfd sc) ((\<lambda>b. co_fd (live s b)) ` set (sc_waiting sc))"
    using ok sc by (auto simp: nty_ok_def simp del: map_eq_conv)
  let ?t = "tree_insert ?fd a (map (\<lambda>b. co_fd (live s b)) (sc_waiting sc)) (sc_waiting sc)"
  obtain bits where bits: "bits = 2 \<or> bits = 3" and new: "?fd \<notin> (\<lambda>b. co_fd (live s b)) ` set (sc_waiting sc)"
    and s1: "s1 = s0\<lparr>n_heap := (n_heap s0)(a \<mapsto> (live s a)\<lparr>co_status := co_status (live s a) OR bits, co_fd := ?fd, co_events := ev AND 0xFFFF\<rparr>),
       n_sched := Some (sc\<lparr>sc_waiting := ?t\<rparr>)\<rparr>"
    using sched_wait_result [OF _ _ _ s0(1) sw] parts s0 ok_live [OF ok sc(1), of a] by auto
  define co where "co = (live s a)\<lparr>co_status := co_status (live s a) OR bits, co_fd := ?fd, co_events := ev AND 0xFFFF,
    co_point := PWait lb l\<rparr>"
  have s2: "n_sched s2 = Some (sc\<lparr>sc_waiting := ?t\<rparr>)" "n_heap s2 = (n_heap s)(a \<mapsto> co)" "n_epoll s2 = n_epoll s0"
    using wait b s1 s0 by (auto simp: upd_co_def co_def)
  have t: "set ?t = insert a (set (sc_waiting sc))" "distinct ?t" "length ?t = Suc (length (sc_waiting sc))"
    using tree_insert_perm [of "map (\<lambda>b. co_fd (live s b)) (sc_waiting sc)" "sc_waiting sc" ?fd a] parts(2) by auto
  have eq: "live s2 b = (if b = a then co else live s b)" for b by (simp add: live_def s2)
  have "waiting_co co" using assms(4) bits
    by (auto simp: co_def waiting_co_def quiet_def running_co_def or_bits intro: bits_below [of _ "0xBD"])
  moreover have "sorted_wrt (<) (map (\<lambda>b. co_fd (live s2 b)) ?t)"
  proof -
    have "map (\<lambda>b. co_fd (live s2 b)) (sc_waiting sc) = map (\<lambda>b. co_fd (live s b)) (sc_waiting sc)"
      "(\<lambda>b. co_fd (live s2 b)) ` set (sc_waiting sc) = (\<lambda>b. co_fd (live s b)) ` set (sc_waiting sc)"
      "co_fd (live s2 a) = ?fd" using parts(2) by (auto simp: eq co_def)
    then show ?thesis using sorted_wrt_insert [of "\<lambda>b. co_fd (live s2 b)" "sc_waiting sc" a] parts(7) new by metis
  qed
  moreover have "dom (n_epoll s2) \<subseteq> insert (sc_eventfd sc) ((\<lambda>b. co_fd (live s2 b)) ` set ?t)"
  proof -
    have "(\<lambda>b. co_fd (live s2 b)) ` set ?t = insert ?fd ((\<lambda>b. co_fd (live s b)) ` set (sc_waiting sc))"
      using parts(2) by (auto simp: t eq co_def)
    moreover have "dom (n_epoll s2) \<subseteq> insert ?fd (dom (n_epoll s))" using s0(4) by (auto simp: s2)
    ultimately show ?thesis using parts(8) by blast
  qed
  ultimately have "nty_ok [] s2" using parts t by (auto simp: nty_ok_def s2(1,2) eq)
  then show ?thesis by (simp add: yielded_def s2)
qed

text \<open>Leaving the set never follows a null pointer: the running coroutine is the one filed there.\<close>

lemma find_waiting:
  assumes ok: "nty_ok held s" and sc: "n_sched s = Some sc" and a: "a \<in> set (sc_waiting sc)"
  shows "rb_find co_fd (co_fd (live s a)) s (sc_waiting sc) = Some (Some a)"
proof -
  have "keys co_fd s (sc_waiting sc) = Some (map (\<lambda>b. co_fd (live s b)) (sc_waiting sc))"
    using ok sc by (intro keys_live) (auto simp: nty_ok_def)
  moreover have "map_of (zip (map (\<lambda>b. co_fd (live s b)) (sc_waiting sc)) (sc_waiting sc)) (co_fd (live s a)) = Some a"
    using ok sc a by (intro map_of_zip_sorted) (auto simp: nty_ok_def simp del: map_eq_conv)
  ultimately show ?thesis by (simp add: rb_find_def)
qed

lemma leave_result:
  assumes ok: "nty_ok [] s" and sc: "n_sched s = Some sc" and a: "a \<in> set (sc_waiting sc)" and fd: "co_fd (live s a) = fd"
    and quiet: "running_co (live s a)"
  shows "nty_epoll_leave fd s = Some (s\<lparr>n_epoll := (n_epoll s)(fd := None),
      n_heap := (n_heap s)(a \<mapsto> (live s a)\<lparr>co_status := co_status (live s a) AND NOT WAIT_READ_BIT AND NOT WAIT_WRITE_BIT\<rparr>),
      n_sched := Some (sc\<lparr>sc_waiting := remove1 a (sc_waiting sc)\<rparr>)\<rparr>)"
proof -
  let ?s = "s\<lparr>n_epoll := (n_epoll s)(fd := None)\<rparr>"
  have "rb_find co_fd fd ?s (sc_waiting sc) = Some (Some a)"
    using find_waiting [OF ok sc a] fd by (simp add: rb_find_def keys_def)
  moreover have "n_heap s a = Some (live s a)" using ok_live [OF ok sc] a by simp
  moreover have "(co_status (live s a) AND NOT WAIT_READ_BIT AND NOT WAIT_WRITE_BIT) AND SLEEPING_BIT = 0"
    by (rule and_bits [OF bits_below [of _ "0xBD"]]) (use quiet in \<open>simp_all add: running_co_def\<close>)
  ultimately show ?thesis using sc a
    by (simp add: nty_epoll_leave_def nty_schedule_desched_wait_def rb_remove_def upd_co_def upd_sched_def
        nty_schedule_desched_sleepdown_def)
qed

lemma leave_ok:
  assumes "mode_ok (MWaited lb l) a s" and leave: "nty_epoll_leave (lib_fd lb) s = Some s1"
  shows "mode_ok (MLib r l) a s1"
proof -
  obtain sc where ok: "nty_ok [] s" and run: "running_co (live s a)" and sc: "n_sched s = Some sc" "sc_curr sc = Some a"
    and a: "a \<in> set (sc_waiting sc)" "co_fd (live s a) = lib_fd lb"
    using assms(1) by auto
  let ?fd = "lib_fd lb" and ?w = "remove1 a (sc_waiting sc)"
  define co where "co = (live s a)\<lparr>co_status := co_status (live s a) AND NOT WAIT_READ_BIT AND NOT WAIT_WRITE_BIT\<rparr>"
  have s1: "n_sched s1 = Some (sc\<lparr>sc_waiting := ?w\<rparr>)" "n_heap s1 = (n_heap s)(a \<mapsto> co)" "n_epoll s1 = (n_epoll s)(?fd := None)"
    using leave leave_result [OF ok sc(1) a run] by (auto simp: co_def)
  have parts: "sc_sleeping sc = []" "distinct (sc_ready sc @ sc_waiting sc)" "dom (n_heap s) = set (sc_ready sc @ sc_waiting sc)"
    "sc_spawned sc = int (length (sc_ready sc @ sc_waiting sc))" "\<forall>b\<in>set (sc_ready sc). ready_co (live s b)"
    "\<forall>b\<in>set (sc_waiting sc). waiting_co (live s b)" "sorted_wrt (<) (map (\<lambda>b. co_fd (live s b)) (sc_waiting sc))"
    "dom (n_epoll s) \<subseteq> insert (sc_eventfd sc) ((\<lambda>b. co_fd (live s b)) ` set (sc_waiting sc))"
    using ok sc by (auto simp: nty_ok_def simp del: map_eq_conv)
  have eq: "live s1 b = (if b = a then co else live s b)" for b by (simp add: live_def s1)
  obtain xs ys where w: "sc_waiting sc = xs @ a # ys" and xs: "a \<notin> set xs" using split_list_first [OF a(1)] by auto
  have w1: "?w = xs @ ys" and ys: "a \<notin> set ys" using w xs parts(2) by (auto simp: remove1_append)
  have same: "map (\<lambda>b. co_fd (live s1 b)) ?w = map (\<lambda>b. co_fd (live s b)) (xs @ ys)" using xs ys by (simp add: eq w1)
  have sorted: "sorted_wrt (<) (map (\<lambda>b. co_fd (live s1 b)) ?w)"
    using parts(7) unfolding same by (simp add: w sorted_wrt_append)
  have watched: "dom (n_epoll s1) \<subseteq> insert (sc_eventfd sc) ((\<lambda>b. co_fd (live s1 b)) ` set ?w)"
  proof -
    have "(\<lambda>b. co_fd (live s1 b)) ` set ?w = (\<lambda>b. co_fd (live s b)) ` set ?w" using xs ys by (auto simp: eq w1)
    moreover have "dom (n_epoll s1) = dom (n_epoll s) - {?fd}" by (auto simp: s1)
    moreover have "(\<lambda>b. co_fd (live s b)) ` set (sc_waiting sc) = insert ?fd ((\<lambda>b. co_fd (live s b)) ` set ?w)"
    proof -
      have "set ?w = set (sc_waiting sc) - {a}" using parts(2) by simp
      then show ?thesis using a(1) by (auto simp: a(2) [symmetric])
    qed
    ultimately show ?thesis using parts(8) by auto
  qed
  have "running_co co" using run by (auto simp: running_co_def co_def intro: and_bits)
  moreover have "nty_ok [a] s1" using parts sorted [unfolded w1] watched [unfolded w1]
    by (auto simp: nty_ok_def s1(2) s1(1) [unfolded w1] eq w insert_commute)
  ultimately show ?thesis using sc by (simp add: eq s1)
qed

section \<open>The running coroutine\<close>

lemma exit_ok:
  assumes ok: "nty_ok [a] s" and run: "upd_co a exec_exit s = Some s1"
  shows "yielded a s1"
proof -
  have "nty_ok [a] s1" and co: "live s1 a = exec_exit (live s a)" using ok_upd_held [OF ok _ run] by auto
  moreover have "co_status (exec_exit (live s a)) AND EXITED_BIT \<noteq> 0" "co_status (exec_exit (live s a)) AND DETACH_BIT \<noteq> 0"
    by (auto simp: exec_exit_def or_bits)
  ultimately show ?thesis by (simp add: yielded_def)
qed

lemma append_ready:
  assumes "nty_ok [a] s" and "n_sched s = Some sc" and "n_sched s1 = Some (sc\<lparr>sc_ready := sc_ready sc @ [a]\<rparr>)"
    and "n_heap s1 = (n_heap s)(a \<mapsto> co)" and "n_epoll s1 = n_epoll s" and "ready_co co"
  shows "nty_ok [] s1"
proof -
  have eq: "live s1 b = (if b = a then co else live s b)" for b by (simp add: live_def assms(4))
  have a: "a \<notin> set (sc_ready sc)" "a \<notin> set (sc_waiting sc)" using assms(1,2) by (auto simp: nty_ok_def)
  have "map (\<lambda>b. co_fd (live s1 b)) (sc_waiting sc) = map (\<lambda>b. co_fd (live s b)) (sc_waiting sc)"
    "(\<lambda>b. co_fd (live s1 b)) ` set (sc_waiting sc) = (\<lambda>b. co_fd (live s b)) ` set (sc_waiting sc)"
    using a by (auto simp: eq)
  moreover have "\<forall>b\<in>set (sc_ready sc). ready_co (live s1 b)" "\<forall>b\<in>set (sc_waiting sc). waiting_co (live s1 b)"
    using a assms(1,2) by (auto simp: eq nty_ok_def)
  ultimately show ?thesis using assms a by (simp add: nty_ok_def eq del: map_eq_conv)
qed

lemma yield_ok:
  assumes ok: "nty_ok [a] s" and run: "running_co (live s a)"
    and yield: "upd_co a (\<lambda>co. co\<lparr>co_point := PYield l\<rparr>) (upd_sched (\<lambda>sc. sc\<lparr>sc_ready := sc_ready sc @ [a]\<rparr>) s) = Some s1"
  shows "yielded a s1"
proof -
  obtain sc where sc: "n_sched s = Some sc" using ok_sched [OF ok] by auto
  have a: "n_heap s a = Some (live s a)" using ok_live [OF ok sc] by simp
  have s1: "n_sched s1 = Some (sc\<lparr>sc_ready := sc_ready sc @ [a]\<rparr>)" "n_heap s1 = (n_heap s)(a \<mapsto> (live s a)\<lparr>co_point := PYield l\<rparr>)"
    "n_epoll s1 = n_epoll s" using yield sc a by (auto simp: upd_co_def upd_sched_def)
  moreover have "ready_co ((live s a)\<lparr>co_point := PYield l\<rparr>)" using run
    by (auto simp: running_co_def ready_co_def quiet_def intro: bits_below [of _ "0xBD"])
  ultimately show ?thesis using append_ready [OF ok sc s1] by (simp add: yielded_def)
qed

lemma create_ok:
  assumes ok: "nty_ok held s" and create: "nty_coroutine_create env init f s = Some (r, s1)"
  shows "nty_ok held s1" and "\<forall>b\<in>set held. n_heap s1 b = n_heap s b"
    and "\<exists>sc sc1. n_sched s = Some sc \<and> n_sched s1 = Some sc1 \<and> sc_curr sc1 = sc_curr sc"
proof -
  obtain sc where sc: "n_sched s = Some sc" using ok_sched [OF ok] by auto
  have "nty_ok held s1 \<and> (\<forall>b\<in>set held. n_heap s1 b = n_heap s b) \<and> (\<exists>sc1. n_sched s1 = Some sc1 \<and> sc_curr sc1 = sc_curr sc)"
  proof (cases "e_alloc env (n_alloc s)")
    case (AllocOk a)
    define co where "co = \<lparr>co_point = PEntry, co_func = f, co_birth = e_clock env (n_clock s), co_status = NEW_BIT,
      co_id = sc_spawned sc, co_fd = - 1, co_events = 0, co_sleep_usecs = 0\<rparr>"
    have new: "n_heap s a = None"
      and s1: "n_sched s1 = Some (sc\<lparr>sc_spawned := sc_spawned sc + 1, sc_ready := sc_ready sc @ [a]\<rparr>)"
        "n_heap s1 = (n_heap s)(a \<mapsto> co)" "n_epoll s1 = n_epoll s"
      using create sc AllocOk
      by (auto simp: nty_coroutine_create_def usec_now_def upd_sched_def co_def Let_def bind_eq_Some_conv split: if_splits)
    have "a \<notin> dom (n_heap s)" using new by auto
    then have a: "a \<notin> set held" "a \<notin> set (sc_ready sc)" "a \<notin> set (sc_waiting sc)" using ok sc by (auto simp: nty_ok_def)
    have eq: "live s1 b = (if b = a then co else live s b)" for b by (simp add: live_def s1)
    have "map (\<lambda>b. co_fd (live s1 b)) (sc_waiting sc) = map (\<lambda>b. co_fd (live s b)) (sc_waiting sc)"
      "(\<lambda>b. co_fd (live s1 b)) ` set (sc_waiting sc) = (\<lambda>b. co_fd (live s b)) ` set (sc_waiting sc)"
      using a by (auto simp: eq)
    moreover have "\<forall>b\<in>set (sc_ready sc). ready_co (live s1 b)" "\<forall>b\<in>set (sc_waiting sc). waiting_co (live s1 b)"
      using a ok sc by (auto simp: eq nty_ok_def)
    moreover have "ready_co co" by (simp add: ready_co_def quiet_def co_def)
    ultimately have "nty_ok held s1" using ok sc s1 a by (simp add: nty_ok_def eq del: map_eq_conv)
    then show ?thesis using a s1 by auto
  next
    case NoMemory
    then show ?thesis using create sc ok by (auto simp: nty_coroutine_create_def Let_def nty_ok_def live_def)
  next
    case NoStack
    then show ?thesis using create sc ok by (auto simp: nty_coroutine_create_def Let_def nty_ok_def live_def)
  qed
  then show "nty_ok held s1" and "\<forall>b\<in>set held. n_heap s1 b = n_heap s b"
    and "\<exists>sc sc1. n_sched s = Some sc \<and> n_sched s1 = Some sc1 \<and> sc_curr sc1 = sc_curr sc" using sc by auto
qed

text \<open>One step of the running coroutine.\<close>

lemma user_step_ok:
  assumes m: "mode_ok (MUser l) a s" and pg: "no_sleep pg" and step: "user_step env pg l a s = Some (nm, s1)"
  shows "case nm of None \<Rightarrow> yielded a s1 | Some m1 \<Rightarrow> mode_ok m1 a s1"
proof -
  have ok: "nty_ok [a] s" and run: "running_co (live s a)" using m by auto
  have lib: ?thesis if "lib_enter env (pg_op pg l) s = Some (r, s1)" "nm = Some (MLib r l)" for r
    using mode_frame(2) [OF lib_enter_frame m] that by auto
  show ?thesis
  proof (cases "pg_op pg l")
    case OExit
    then show ?thesis using step exit_ok [OF ok] by (auto simp: user_step_def)
  next
    case (OSleep ms)
    then have "ms = 0" using pg by (auto simp: no_sleep_def)
    then show ?thesis using step OSleep yield_ok [OF ok run] by (auto simp: user_step_def)
  next
    case (OCreate f)
    then obtain r where c: "nty_coroutine_create env (False, - 1, - 1) f s = Some (r, s1)"
      and nm: "nm = Some (MUser (pg_next pg l (r, [])))"
      using step by (auto simp: user_step_def bind_eq_Some_conv)
    have "live s1 a = live s a" using create_ok(2) [OF ok c] by (simp add: live_def)
    then show ?thesis using create_ok [OF ok c] m nm by auto
  qed (use step lib in \<open>auto simp: user_step_def bind_eq_Some_conv split: prod.splits\<close>)
qed

lemma co_step_ok:
  assumes m: "mode_ok m a s" and pg: "no_sleep pg" and step: "co_step env pg m a s = Some (nm, s1)"
  shows "case nm of None \<Rightarrow> yielded a s1 | Some m1 \<Rightarrow> mode_ok m1 a s1"
proof (cases m)
  case (MUser l)
  then show ?thesis using user_step_ok [OF _ pg] m step by auto
next
  case (MLib r l)
  then show ?thesis using m step enter_ok by (cases r) (auto simp: bind_eq_Some_conv)
next
  case (MWaited lb l)
  then obtain s2 r where s2: "nty_epoll_leave (lib_fd lb) s = Some s2" "lib_resume env lb s2 = Some (r, s1)"
    and nm: "nm = Some (MLib r l)" using step by (auto simp: bind_eq_Some_conv)
  have "mode_ok (MUser l) a s2" using leave_ok [OF _ s2(1)] m MWaited by auto
  then show ?thesis using mode_frame(2) [OF lib_resume_frame [OF s2(2)]] nm by auto
qed

lemma co_run_ok:
  assumes run: "co_run env pg m a s = Some s1" and m: "mode_ok m a s" and pg: "no_sleep pg"
  shows "yielded a s1"
proof -
  have "mode_ok m a s \<and> no_sleep pg \<longrightarrow> yielded a s1"
  proof (rule co_run.raw_induct [where P = "\<lambda>env pg m a s s1. mode_ok m a s \<and> no_sleep pg \<longrightarrow> yielded a s1", OF _ run], intro impI)
    fix f env a s s1 and pg :: "'a program" and m
    assume ih: "\<And>env (pg :: 'a program) m a s s1. f env pg m a s = Some s1 \<Longrightarrow> mode_ok m a s \<and> no_sleep pg \<longrightarrow> yielded a s1"
      and body: "co_step env pg m a s \<bind> (\<lambda>(nm, s1). case nm of None \<Rightarrow> Some s1 | Some m1 \<Rightarrow> f env pg m1 a s1) = Some s1"
      and ok: "mode_ok m a s \<and> no_sleep pg"
    obtain nm s2 where step: "co_step env pg m a s = Some (nm, s2)"
      and rest: "(case nm of None \<Rightarrow> Some s2 | Some m1 \<Rightarrow> f env pg m1 a s2) = Some s1"
      using body by (auto simp: bind_eq_Some_conv)
    show "yielded a s1" using co_step_ok [OF _ _ step] ok rest ih by (cases nm) auto
  qed
  then show ?thesis using m pg by simp
qed

end
