(* ===== verification/NtyCo_Rounds.thy ===== *)
theory NtyCo_Rounds
  imports NtyCo_Sched
begin

text \<open>
  The rounds of the scheduler: resuming a coroutine that was taken from the queue or whose descriptor
  is ready, freeing the ones that have returned, and the loops of \<open>nty_schedule_run\<close>. From the start,
  whatever is created and whatever the system answers, the invariant holds before every round.
\<close>

section \<open>Resuming\<close>

lemma free_ok:
  assumes ok: "nty_ok [a] s" and run: "nty_coroutine_free a s = Some s1"
  shows "nty_ok [] s1"
proof -
  obtain sc where sc: "n_sched s = Some sc" using ok_sched [OF ok] by auto
  have s1: "n_sched s1 = Some (sc\<lparr>sc_spawned := sc_spawned sc - 1\<rparr>)" "n_heap s1 = (n_heap s)(a := None)" "n_epoll s1 = n_epoll s"
    using run sc by (auto simp: nty_coroutine_free_def upd_sched_def bind_eq_Some_conv)
  have a: "a \<notin> set (sc_ready sc)" "a \<notin> set (sc_waiting sc)" using ok sc by (auto simp: nty_ok_def)
  have "live s1 b = live s b" if "b \<noteq> a" for b using that by (simp add: live_def s1)
  with a have eq: "\<forall>b\<in>set (sc_ready sc). live s1 b = live s b" "\<forall>b\<in>set (sc_waiting sc). live s1 b = live s b" by metis+
  have "map (\<lambda>b. co_fd (live s1 b)) (sc_waiting sc) = map (\<lambda>b. co_fd (live s b)) (sc_waiting sc)"
    "(\<lambda>b. co_fd (live s1 b)) ` set (sc_waiting sc) = (\<lambda>b. co_fd (live s b)) ` set (sc_waiting sc)"
    using eq(2) by auto
  moreover have "\<forall>b\<in>set (sc_ready sc). ready_co (live s1 b)" "\<forall>b\<in>set (sc_waiting sc). waiting_co (live s1 b)"
    using ok sc eq by (auto simp: nty_ok_def)
  moreover have "dom (n_heap s1) = set (sc_ready sc @ sc_waiting sc)" using ok sc a by (auto simp: s1 nty_ok_def)
  ultimately show ?thesis using ok sc s1 by (simp add: nty_ok_def del: map_eq_conv)
qed

text \<open>What \<open>nty_coroutine_resume\<close> does when the coroutine has given the processor back.\<close>

lemma resume_end:
  assumes y: "yielded a s2" and live: "n_heap s2 a = Some co"
    and rest: "(if co_status co AND EXITED_BIT \<noteq> 0 then do {
       s4 \<leftarrow> (if co_status co AND DETACH_BIT \<noteq> 0 then nty_coroutine_free a s2 else Some s2); Some (- 1 :: int, s4) }
     else Some (0, s2)) = Some (r, s1)"
  shows "nty_ok [] s1"
proof -
  have co: "live s2 a = co" using live by (simp add: live_def)
  consider "nty_ok [] s2" | "nty_ok [a] s2" "co_status co AND EXITED_BIT \<noteq> 0" "co_status co AND DETACH_BIT \<noteq> 0"
    using y co by (auto simp: yielded_def)
  then show ?thesis
  proof cases
    case 1
    obtain sc where sc: "n_sched s2 = Some sc" using ok_sched [OF 1] by auto
    have "a \<in> dom (n_heap s2)" using live by auto
    then have "quiet co" using 1 sc co by (auto simp: nty_ok_def ready_co_def waiting_co_def)
    then have "co_status co AND EXITED_BIT = 0" by (auto simp: quiet_def intro: bits_below [of _ "0xBC"])
    then show ?thesis using rest 1 by simp
  next
    case 2
    then show ?thesis using rest free_ok [OF 2(1)] by (auto simp: bind_eq_Some_conv)
  qed
qed

lemma yielded_curr [simp]: "yielded a (upd_sched (\<lambda>sc. sc\<lparr>sc_curr := c\<rparr>) s) \<longleftrightarrow> yielded a s"
  by (simp add: yielded_def) (simp add: upd_sched_def)

lemma resume_run:
  assumes run: "nty_coroutine_resume env pg a s = Some (r, s1)" and pg: "no_sleep pg"
    and init: "(if co_status (live s a) AND NEW_BIT \<noteq> 0 then nty_coroutine_init a s else Some s) = Some s0"
    and a: "n_heap s a = Some (live s a)" "n_heap s0 a = Some (live s0 a)" and mode: "mode_of pg (live s0 a) = Some m"
    and m: "mode_ok m a (upd_sched (\<lambda>sc. sc\<lparr>sc_curr := Some a\<rparr>) s0)"
  shows "nty_ok [] s1"
proof -
  let ?c = "upd_sched (\<lambda>sc. sc\<lparr>sc_curr := Some a\<rparr>) s0"
  let ?n = "\<lambda>s2. upd_sched (\<lambda>sc. sc\<lparr>sc_curr := None\<rparr>) s2"
  let ?rest = "\<lambda>s2. n_heap (?n s2) a \<bind> (\<lambda>co2. if co_status co2 AND EXITED_BIT \<noteq> 0 then do {
         s4 \<leftarrow> (if co_status co2 AND DETACH_BIT \<noteq> 0 then nty_coroutine_free a (?n s2) else Some (?n s2)); Some (- 1 :: int, s4) }
       else Some (0, ?n s2))"
  have "nty_coroutine_resume env pg a s = co_run env pg m a ?c \<bind> ?rest"
    unfolding nty_coroutine_resume_def a(1) Option.bind.bind_lunit init a(2) mode Let_def ..
  from trans [OF this [symmetric] run] have "co_run env pg m a ?c \<bind> ?rest = Some (r, s1)" .
  from iffD1 [OF bind_eq_Some_conv this] obtain s2 where s2: "co_run env pg m a ?c = Some s2" "?rest s2 = Some (r, s1)" by blast
  have y: "yielded a (?n s2)" using co_run_ok [OF s2(1) m pg] by simp
  from iffD1 [OF bind_eq_Some_conv s2(2)] obtain co where co: "n_heap (?n s2) a = Some co" by blast
  show ?thesis by (rule resume_end [OF y co s2(2) [unfolded co Option.bind.bind_lunit]])
qed

lemma resume_ready:
  assumes ok: "nty_ok [a] s" and co: "ready_co (live s a)" and pg: "no_sleep pg"
    and run: "nty_coroutine_resume env pg a s = Some (r, s1)"
  shows "nty_ok [] s1"
proof -
  let ?c = "\<lambda>s. upd_sched (\<lambda>sc. sc\<lparr>sc_curr := Some a\<rparr>) s"
  have a: "n_heap s a = Some (live s a)" using ok_sched [OF ok] ok_live [OF ok] by fastforce
  define s0 where "s0 = (if co_status (live s a) AND NEW_BIT \<noteq> 0 then the (nty_coroutine_init a s) else s)"
  have init: "(if co_status (live s a) AND NEW_BIT \<noteq> 0 then nty_coroutine_init a s else Some s) = Some s0"
    using a by (simp add: s0_def nty_coroutine_init_def upd_co_def)
  have s0: "nty_ok [a] s0" "running_co (live s0 a)" "\<exists>l. mode_of pg (live s0 a) = Some (MUser l)" "n_heap s0 a = Some (live s0 a)"
  proof -
    show ok0: "nty_ok [a] s0" using ok init ok_upd_held(1) [OF ok, of a] by (auto simp: nty_coroutine_init_def split: if_splits)
    show "running_co (live s0 a)" and "\<exists>l. mode_of pg (live s0 a) = Some (MUser l)"
    proof (atomize (full), cases "co_status (live s a) AND NEW_BIT = 0")
      case True
      then have "s0 = s" using init by simp
      then show "running_co (live s0 a) \<and> (\<exists>l. mode_of pg (live s0 a) = Some (MUser l))"
        using co True bits_join by (auto simp: ready_co_def quiet_def running_co_def split: point.splits)
    next
      case False
      then have "s0 = s\<lparr>n_heap := (n_heap s)(a \<mapsto> (live s a)\<lparr>co_point := PEntry, co_status := READY_BIT\<rparr>)\<rparr>"
        using a by (simp add: s0_def nty_coroutine_init_def upd_co_def)
      then have "live s0 a = (live s a)\<lparr>co_point := PEntry, co_status := READY_BIT\<rparr>" by (simp add: live_def)
      then show "running_co (live s0 a) \<and> (\<exists>l. mode_of pg (live s0 a) = Some (MUser l))" by (simp add: running_co_def)
    qed
    show "n_heap s0 a = Some (live s0 a)" using ok_sched [OF ok0] ok_live [OF ok0] by fastforce
  qed
  then obtain l where mode: "mode_of pg (live s0 a) = Some (MUser l)" by auto
  have "mode_ok (MUser l) a (?c s0)" using s0(1,2) ok_sched [OF s0(1)] by simp (auto simp: upd_sched_def)
  with resume_run [OF run pg init a s0(4) mode] show ?thesis by simp
qed

text \<open>A coroutine whose descriptor is ready, after \<open>search_wait\<close>.\<close>

lemma ok_upd_waiting:
  assumes ok: "nty_ok held s" and sc: "n_sched s = Some sc" and a: "a \<in> set (sc_waiting sc)" and upd: "upd_co a f s = Some s1"
    and f: "waiting_co (f (live s a))" "co_fd (f (live s a)) = co_fd (live s a)"
  shows "nty_ok held s1" and "n_sched s1 = Some sc" and "live s1 a = f (live s a)"
proof -
  have s1: "n_sched s1 = Some sc" "n_heap s1 = (n_heap s)(a \<mapsto> f (live s a))" "n_epoll s1 = n_epoll s"
    using upd sc by (auto simp: upd_co_def live_def split: option.splits)
  have eq: "live s1 b = (if b = a then f (live s a) else live s b)" for b by (simp add: live_def s1)
  have "map (\<lambda>b. co_fd (live s1 b)) (sc_waiting sc) = map (\<lambda>b. co_fd (live s b)) (sc_waiting sc)"
    "(\<lambda>b. co_fd (live s1 b)) ` set (sc_waiting sc) = (\<lambda>b. co_fd (live s b)) ` set (sc_waiting sc)"
    using f(2) by (auto simp: eq)
  moreover have "a \<notin> set (sc_ready sc)" using ok sc a by (auto simp: nty_ok_def)
  moreover have "\<forall>b\<in>set (sc_waiting sc). waiting_co (live s1 b)" using f(1) ok sc by (auto simp: eq nty_ok_def)
  moreover have "dom (n_heap s1) = set (held @ sc_ready sc @ sc_waiting sc)" using ok sc a by (auto simp: s1 nty_ok_def)
  ultimately show "nty_ok held s1" using ok sc s1 by (auto simp: nty_ok_def eq simp del: map_eq_conv)
  show "n_sched s1 = Some sc" and "live s1 a = f (live s a)" by (simp_all add: s1 eq)
qed

lemma resume_waiting:
  assumes ok: "nty_ok [] s" and sc: "n_sched s = Some sc" and a: "a \<in> set (sc_waiting sc)" and co: "running_co (live s a)"
    and pg: "no_sleep pg" and run: "nty_coroutine_resume env pg a s = Some (r, s1)"
  shows "nty_ok [] s1"
proof -
  have live: "n_heap s a = Some (live s a)" using ok_live [OF ok sc] a by simp
  have "waiting_co (live s a)" using ok sc a by (auto simp: nty_ok_def)
  then obtain lb l where p: "co_point (live s a) = PWait lb l" "co_fd (live s a) = lib_fd lb"
    by (auto simp: waiting_co_def split: point.splits)
  have "co_status (live s a) AND NEW_BIT = 0" using co by (auto simp: running_co_def intro: bits_below [of _ "0xBD"])
  then have init: "(if co_status (live s a) AND NEW_BIT \<noteq> 0 then nty_coroutine_init a s else Some s) = Some s" by simp
  have "mode_ok (MWaited lb l) a (upd_sched (\<lambda>sc. sc\<lparr>sc_curr := Some a\<rparr>) s)"
    using ok sc a co p(2) by simp (simp add: upd_sched_def)
  with resume_run [OF run pg init live live] p show ?thesis by simp
qed

section \<open>A round\<close>

lemma expired_ok:
  assumes ok: "nty_ok [] s" and run: "run_expired env pg s = Some s1"
  shows "nty_ok [] s1" and "n_sched s1 = n_sched s"
proof -
  obtain sc where sc: "n_sched s = Some sc" "sc_sleeping sc = []" using ok by (auto simp: nty_ok_def split: option.splits)
  then have "s1 = s\<lparr>n_clock := Suc (n_clock s)\<rparr>"
    using run by (subst (asm) run_expired.simps) (simp add: nty_schedule_expired_def usec_now_def)
  then show "nty_ok [] s1" and "n_sched s1 = n_sched s" using ok by (auto simp: ok_same)
qed

lemma queue_head:
  assumes ok: "nty_ok [] s" and sc: "n_sched s = Some sc" and q: "sc_ready sc = a # as"
  shows "nty_ok [a] (upd_sched (\<lambda>sc. sc\<lparr>sc_ready := as\<rparr>) s)" and "ready_co (live s a)"
proof -
  have "live (upd_sched (\<lambda>sc. sc\<lparr>sc_ready := as\<rparr>) s) = live s" by (simp add: fun_eq_iff)
  then show "nty_ok [a] (upd_sched (\<lambda>sc. sc\<lparr>sc_ready := as\<rparr>) s)" using ok sc q by (simp add: nty_ok_def) (simp add: upd_sched_def)
  show "ready_co (live s a)" using ok sc q by (simp add: nty_ok_def)
qed

lemma queue_ok:
  assumes run: "run_queue env pg last_co s = Some s1" and ok: "nty_ok [] s" and pg: "no_sleep pg"
  shows "nty_ok [] s1"
proof -
  have "nty_ok [] s \<and> no_sleep pg \<longrightarrow> nty_ok [] s1"
  proof (rule run_queue.raw_induct [where P = "\<lambda>env pg last_co s s1. nty_ok [] s \<and> no_sleep pg \<longrightarrow> nty_ok [] s1", OF _ run], intro impI)
    fix f env last_co s s1 and pg :: "'a program"
    assume ih: "\<And>env (pg :: 'a program) last_co s s1. f env pg last_co s = Some s1 \<Longrightarrow> nty_ok [] s \<and> no_sleep pg \<longrightarrow> nty_ok [] s1"
      and body: "n_sched s \<bind> (\<lambda>sc. case sc_ready sc of [] \<Rightarrow> Some s
        | a # as \<Rightarrow> let s1 = upd_sched (\<lambda>sc. sc\<lparr>sc_ready := as\<rparr>) s in n_heap s1 a \<bind> (\<lambda>co.
            if co_status co AND FDEOF_BIT \<noteq> 0 then nty_coroutine_free a s1
            else nty_coroutine_resume env pg a s1 \<bind> (\<lambda>(r, s2). if Some a = last_co then Some s2 else f env pg last_co s2))) = Some s1"
      and h: "nty_ok [] s \<and> no_sleep pg"
    obtain sc where sc: "n_sched s = Some sc" using h ok_sched by blast
    show "nty_ok [] s1"
    proof (cases "sc_ready sc")
      case Nil
      then show ?thesis using body sc h by simp
    next
      case (Cons a as)
      define t where "t = upd_sched (\<lambda>sc. sc\<lparr>sc_ready := as\<rparr>) s"
      have t: "nty_ok [a] t" "ready_co (live t a)" using queue_head [OF _ sc Cons] h by (simp_all add: t_def)
      from body sc Cons consider "nty_coroutine_free a t = Some s1"
        | r s2 where "nty_coroutine_resume env pg a t = Some (r, s2)" "s1 = s2 \<or> f env pg last_co s2 = Some s1"
        by (auto simp: t_def [symmetric] Let_def bind_eq_Some_conv split: if_splits)
      then show ?thesis
      proof cases
        case 1
        then show ?thesis by (rule free_ok [OF t(1)])
      next
        case (2 r s2)
        then show ?thesis using resume_ready [OF t _ 2(1)] ih h by blast
      qed
    qed
  qed
  then show ?thesis using ok pg by simp
qed

lemma epoll_ok:
  assumes ok: "nty_ok [] s" and run: "nty_schedule_epoll env s = Some s1"
  shows "nty_ok [] s1"
proof -
  have loop: "\<exists>i. snd r = s\<lparr>n_poll := i\<rparr>" if "epoll_loop env s = Some r" for env r and s :: "'a nty"
  proof (rule epoll_loop.raw_induct [where P = "\<lambda>env s r. \<exists>i. snd r = s\<lparr>n_poll := i\<rparr>", OF _ that])
    fix f env r and s :: "'a nty"
    assume ih: "\<And>env (s :: 'a nty) r. f env s = Some r \<Longrightarrow> \<exists>i. snd r = s\<lparr>n_poll := i\<rparr>"
      and body: "(case e_poll env (n_poll s) of Inl evs \<Rightarrow> Some (evs, s\<lparr>n_poll := Suc (n_poll s)\<rparr>)
        | Inr e \<Rightarrow> if e = EINTR then f env (s\<lparr>n_poll := Suc (n_poll s)\<rparr>) else None) = Some r"
    show "\<exists>i. snd r = s\<lparr>n_poll := i\<rparr>"
      using body ih [of env "s\<lparr>n_poll := Suc (n_poll s)\<rparr>" r] by (auto split: sum.splits if_splits)
  qed
  obtain sc where sc: "n_sched s = Some sc" "sc_sleeping sc = []" using ok by (auto simp: nty_ok_def split: option.splits)
  define t where "t = upd_sched (\<lambda>sc. sc\<lparr>sc_num_new := 0\<rparr>) (s\<lparr>n_clock := Suc (n_clock s)\<rparr>)"
  have t: "nty_ok [] t" using ok by (simp add: t_def ok_same)
  have "nty_schedule_min_timeout env (upd_sched (\<lambda>sc. sc\<lparr>sc_num_new := 0\<rparr>) s) = Some (sc_default_timeout sc, t)"
    using sc by (simp add: nty_schedule_min_timeout_def usec_now_def upd_sched_def t_def)
  then have "s1 = t \<or> (\<exists>evs s2. epoll_loop env t = Some (evs, s2) \<and>
      s1 = upd_sched (\<lambda>sc. sc\<lparr>sc_eventlist := evs, sc_num_new := length evs\<rparr>) s2)"
    using run by (auto simp: nty_schedule_epoll_def bind_eq_Some_conv split: if_splits)
  then show ?thesis
  proof
    assume "\<exists>evs s2. epoll_loop env t = Some (evs, s2) \<and>
      s1 = upd_sched (\<lambda>sc. sc\<lparr>sc_eventlist := evs, sc_num_new := length evs\<rparr>) s2"
    then obtain evs i where "s1 = upd_sched (\<lambda>sc. sc\<lparr>sc_eventlist := evs, sc_num_new := length evs\<rparr>) (t\<lparr>n_poll := i\<rparr>)"
      using loop by fastforce
    then show ?thesis using t by (simp add: ok_same)
  qed (use t in simp)
qed

text \<open>Every descriptor that is watched, the trigger apart, has a coroutine that waits for it.\<close>

lemma search_wait_finds:
  assumes ok: "nty_ok [] s" and sc: "n_sched s = Some sc" and fd: "fd \<in> dom (n_epoll s)" "fd \<noteq> sc_eventfd sc"
  shows "\<exists>a s1. nty_schedule_search_wait fd s = Some (a, s1) \<and> a \<in> set (sc_waiting sc) \<and> co_fd (live s a) = fd"
proof -
  obtain a where a: "a \<in> set (sc_waiting sc)" "co_fd (live s a) = fd" using ok sc fd by (auto simp: nty_ok_def)
  have "n_heap s a = Some (live s a)" using ok_live [OF ok sc] a by simp
  then show ?thesis using find_waiting [OF ok sc a(1)] a sc
    by (auto simp: nty_schedule_search_wait_def upd_co_def)
qed

lemma search_wait_found:
  assumes ok: "nty_ok [] s" and sc: "n_sched s = Some sc" and run: "nty_schedule_search_wait fd s = Some (a, s1)"
  shows "a \<in> set (sc_waiting sc)" and "upd_co a (\<lambda>co. co\<lparr>co_status := 0\<rparr>) s = Some s1"
proof -
  have k: "keys co_fd s (sc_waiting sc) = Some (map (\<lambda>b. co_fd (live s b)) (sc_waiting sc))"
    using ok sc by (intro keys_live) (auto simp: nty_ok_def)
  have "map_of (zip (map (\<lambda>b. co_fd (live s b)) (sc_waiting sc)) (sc_waiting sc)) fd = Some a"
    and u: "upd_co a (\<lambda>co. co\<lparr>co_status := 0\<rparr>) s = Some s1"
    using run sc k by (auto simp: nty_schedule_search_wait_def rb_find_def bind_eq_Some_conv)
  then show "a \<in> set (sc_waiting sc)" using map_of_zip_in by metis
  show "upd_co a (\<lambda>co. co\<lparr>co_status := 0\<rparr>) s = Some s1" by (rule u)
qed

lemma waiting_status: "waiting_co co \<Longrightarrow> x AND 0xBC = 0 \<Longrightarrow> waiting_co (co\<lparr>co_status := x\<rparr>)"
  by (cases "co_point co") (auto simp: waiting_co_def quiet_def)

lemma wake_ok:
  assumes ok: "nty_ok [] s" and pg: "no_sleep pg" and run: "wake env pg ev s = Some s'"
  shows "nty_ok [] s'"
proof -
  obtain sc where sc: "n_sched s = Some sc" using ok_sched [OF ok] by auto
  obtain a s1 s2 r where search: "nty_schedule_search_wait (fst ev) s = Some (a, s1)"
    and hup: "(if snd ev AND POLL_HUP \<noteq> 0 then upd_co a (\<lambda>co. co\<lparr>co_status := co_status co OR FDEOF_BIT\<rparr>) s1 else Some s1) = Some s2"
    and res: "nty_coroutine_resume env pg a s2 = Some (r, s')"
    using run by (auto simp: wake_def bind_eq_Some_conv)
  note found = search_wait_found [OF ok sc search]
  have w: "waiting_co (live s a)" using ok sc found(1) by (auto simp: nty_ok_def)
  note s1 = ok_upd_waiting [OF ok sc found(1,2)]
  have ok1: "nty_ok [] s1" "n_sched s1 = Some sc" "live s1 a = (live s a)\<lparr>co_status := 0\<rparr>"
    using s1 waiting_status [OF w] by auto
  have "nty_ok [] s2 \<and> n_sched s2 = Some sc \<and> running_co (live s2 a)"
  proof (cases "snd ev AND POLL_HUP = 0")
    case True
    then show ?thesis using hup ok1 by (simp add: running_co_def)
  next
    case False
    then have "upd_co a (\<lambda>co. co\<lparr>co_status := co_status co OR FDEOF_BIT\<rparr>) s1 = Some s2" using hup by simp
    note s2 = ok_upd_waiting [OF ok1(1,2) found(1) this]
    have "waiting_co ((live s1 a)\<lparr>co_status := co_status (live s1 a) OR FDEOF_BIT\<rparr>)"
      using waiting_status [OF w] by (simp add: ok1(3))
    then show ?thesis using s2 by (simp add: running_co_def ok1(3))
  qed
  then show ?thesis using resume_waiting [OF _ _ found(1) _ pg res] by blast
qed

lemma events_ok:
  assumes run: "run_events env pg s = Some s1" and ok: "nty_ok [] s" and pg: "no_sleep pg"
  shows "nty_ok [] s1"
proof -
  have "nty_ok [] s \<and> no_sleep pg \<longrightarrow> nty_ok [] s1"
  proof (rule run_events.raw_induct [where P = "\<lambda>env pg s s1. nty_ok [] s \<and> no_sleep pg \<longrightarrow> nty_ok [] s1", OF _ run], intro impI)
    fix f env s s1 and pg :: "'a program"
    assume ih: "\<And>env (pg :: 'a program) s s1. f env pg s = Some s1 \<Longrightarrow> nty_ok [] s \<and> no_sleep pg \<longrightarrow> nty_ok [] s1"
      and body: "n_sched s \<bind> (\<lambda>sc. if sc_num_new sc = 0 then Some s else let idx = sc_num_new sc - 1 in
        wake env pg (sc_eventlist sc ! idx) (upd_sched (\<lambda>sc. sc\<lparr>sc_num_new := idx\<rparr>) s) \<bind> f env pg) = Some s1"
      and h: "nty_ok [] s \<and> no_sleep pg"
    obtain sc where sc: "n_sched s = Some sc" using h ok_sched by blast
    show "nty_ok [] s1"
    proof (cases "sc_num_new sc = 0")
      case False
      then obtain t where w: "wake env pg (sc_eventlist sc ! (sc_num_new sc - 1)) (upd_sched (\<lambda>sc. sc\<lparr>sc_num_new := n\<rparr>) s) = Some t"
        and rest: "f env pg t = Some s1" if "n = sc_num_new sc - 1" for n using body sc by (auto simp: Let_def bind_eq_Some_conv)
      have "nty_ok [] t" using wake_ok [OF _ _ w [OF refl]] h by simp
      then show ?thesis using ih [OF rest [OF refl]] h by simp
    qed (use body sc h in simp)
  qed
  then show ?thesis using ok pg by simp
qed

lemma round_ok:
  assumes ok: "nty_ok [] s" and pg: "no_sleep pg" and run: "schedule_round env pg s = Some s'"
  shows "nty_ok [] s'"
proof -
  obtain s1 s2 s3 l where r: "run_expired env pg s = Some s1" "run_queue env pg l s1 = Some s2" "nty_schedule_epoll env s2 = Some s3"
    "run_events env pg s3 = Some s'"
    using run by (auto simp: schedule_round_def bind_eq_Some_conv)
  show ?thesis by (rule events_ok [OF r(4) epoll_ok [OF queue_ok [OF r(2) expired_ok(1) [OF ok r(1)] pg] r(3)] pg])
qed

end
