(* ===== verification/NtyCo_Props.thy ===== *)
theory NtyCo_Props
  imports NtyCo_Rounds
begin

text \<open>
  What the coroutines of NtyCo promise: the invariant holds before every round of the scheduler, and
  \<open>nty_send\<close> hands the kernel the bytes of its buffer in order. And what they do not: a positive sleep
  does not sleep and leaves a dangling pointer, and a coroutine that yields by sleeping for zero keeps
  the others from ever being woken.
\<close>

section \<open>From the start\<close>

definition nty_start :: "'l nty" where
  "nty_start = \<lparr>n_sched = None, n_heap = Map.empty, n_epoll = Map.empty, n_log = [], n_sys = 0, n_poll = 0, n_clock = 0, n_alloc = 0\<rparr>"

inductive nty_reach :: "env \<Rightarrow> bool \<times> int \<times> int \<Rightarrow> 'l program \<Rightarrow> 'l nty \<Rightarrow> bool" for env init pg where
  first: "nty_coroutine_create env init f nty_start = Some (r, s) \<Longrightarrow> n_sched s \<noteq> None \<Longrightarrow> nty_reach env init pg s"
| create: "nty_reach env init pg s \<Longrightarrow> nty_coroutine_create env init f s = Some (r, s') \<Longrightarrow> nty_reach env init pg s'"
| round: "nty_reach env init pg s \<Longrightarrow> schedule_round env pg s = Some s' \<Longrightarrow> nty_reach env init pg s'"

lemma schedule_create_ok:
  assumes "nty_schedule_create env n c epfd evfd nty_start = Some (r, s)" and "n_sched s \<noteq> None"
  shows "nty_ok [] s"
  using assms by (auto simp: nty_schedule_create_def nty_start_def nty_schedule_free_def nty_epoller_ev_register_trigger_def
      upd_sched_def usec_now_def nty_ok_def Let_def bind_eq_Some_conv split: if_splits)

lemma first_ok:
  assumes "nty_coroutine_create env init f nty_start = Some (r, s)" and "n_sched s \<noteq> None"
  shows "nty_ok [] s"
proof -
  obtain c epfd evfd where i: "init = (c, epfd, evfd)" by (cases init)
  have start: "n_sched (nty_start :: 'a nty) = None" by (simp add: nty_start_def)
  obtain r0 s0 where s0: "nty_schedule_create env 0 c epfd evfd (nty_start :: 'a nty) = Some (r0, s0)"
    using assms(1) i start by (auto simp: nty_coroutine_create_def bind_eq_Some_conv)
  show ?thesis
  proof (cases "n_sched s0")
    case None
    then show ?thesis using assms i start s0 by (simp add: nty_coroutine_create_def)
  next
    case (Some sc)
    then have "nty_coroutine_create env init f nty_start = nty_coroutine_create env init f s0"
      using s0 i start by (simp add: nty_coroutine_create_def)
    then have run: "nty_coroutine_create env init f s0 = Some (r, s)" using assms(1) by simp
    show ?thesis by (rule create_ok(1) [OF schedule_create_ok [OF s0] run]) (simp add: Some)
  qed
qed

lemma nty_reach_ok: "nty_reach env init pg s \<Longrightarrow> no_sleep pg \<Longrightarrow> nty_ok [] s"
  by (induction rule: nty_reach.induct) (auto intro: first_ok create_ok(1) round_ok)

text \<open>C21: from the first creation of a coroutine on, whatever the system calls, the clock and the
  allocator answer and whatever is created, before every round each live coroutine of a program without
  positive sleeps is in exactly one of the ready queue and the waiting set, filed under the descriptor it
  waits for, the count of coroutines is right, and each watched descriptor but the trigger finds a waiter.\<close>

theorem nty_reach_keeps_invariant:
  assumes "nty_reach env init pg s" and "no_sleep pg"
  shows "\<exists>sc. n_sched s = Some sc \<and> sc_sleeping sc = [] \<and> distinct (sc_ready sc @ sc_waiting sc) \<and>
    dom (n_heap s) = set (sc_ready sc @ sc_waiting sc) \<and> sc_spawned sc = int (length (sc_ready sc @ sc_waiting sc)) \<and>
    (\<forall>a\<in>set (sc_ready sc). ready_co (live s a)) \<and> (\<forall>a\<in>set (sc_waiting sc). waiting_co (live s a)) \<and>
    sorted_wrt (<) (map (\<lambda>a. co_fd (live s a)) (sc_waiting sc)) \<and>
    (\<forall>fd. n_epoll s fd \<noteq> None \<longrightarrow> fd \<noteq> sc_eventfd sc \<longrightarrow>
      (\<exists>a s1. nty_schedule_search_wait fd s = Some (a, s1) \<and> a \<in> set (sc_waiting sc) \<and> co_fd (live s a) = fd))"
proof -
  have ok: "nty_ok [] s" by (rule nty_reach_ok [OF assms])
  obtain sc where sc: "n_sched s = Some sc" using ok_sched [OF ok] by auto
  have "sc_sleeping sc = [] \<and> distinct (sc_ready sc @ sc_waiting sc) \<and>
    dom (n_heap s) = set (sc_ready sc @ sc_waiting sc) \<and> sc_spawned sc = int (length (sc_ready sc @ sc_waiting sc)) \<and>
    (\<forall>a\<in>set (sc_ready sc). ready_co (live s a)) \<and> (\<forall>a\<in>set (sc_waiting sc). waiting_co (live s a)) \<and>
    sorted_wrt (<) (map (\<lambda>a. co_fd (live s a)) (sc_waiting sc))"
    using ok sc by (simp add: nty_ok_def)
  moreover have "\<forall>fd. n_epoll s fd \<noteq> None \<longrightarrow> fd \<noteq> sc_eventfd sc \<longrightarrow>
      (\<exists>a s1. nty_schedule_search_wait fd s = Some (a, s1) \<and> a \<in> set (sc_waiting sc) \<and> co_fd (live s a) = fd)"
    using search_wait_finds [OF ok sc] by blast
  ultimately show ?thesis using sc by blast
qed

section \<open>Sending\<close>

text \<open>The bytes the kernel took, and the contract of \<open>send\<close>.\<close>

fun taken :: "syscall \<times> int \<Rightarrow> byte list" where
  "taken (CSend fd bs, r) = take (nat r) bs"
| "taken (c, r) = []"

fun send_result_ok :: "syscall \<times> int \<Rightarrow> bool" where
  "send_result_ok (CSend fd bs, r) \<longleftrightarrow> - 1 \<le> r \<and> r \<le> int (length bs)"
| "send_result_ok (c, r) \<longleftrightarrow> True"

text \<open>A call of \<open>nty_send\<close> over its waits: between two of its steps anything may happen to the rest of
  the program.\<close>

inductive sending :: "env \<Rightarrow> int \<Rightarrow> byte list \<Rightarrow> libres \<Rightarrow> byte list \<Rightarrow> bool" for env fd buf where
  start: "nty_send env fd buf (s :: unit nty) = Some (r, s1) \<Longrightarrow> send_result_ok (last (n_log s1)) \<Longrightarrow>
    sending env fd buf r (taken (last (n_log s1)))"
| again: "sending env fd buf (Inr (LSend fd buf sent)) out \<Longrightarrow> nty_send_again env fd buf sent (s :: unit nty) = Some (r, s1) \<Longrightarrow>
    send_result_ok (last (n_log s1)) \<Longrightarrow> sending env fd buf r (out @ taken (last (n_log s1)))"

lemma to_int_id: "- 1 \<le> n \<Longrightarrow> n \<le> INT_MAX \<Longrightarrow> to_int n = n"
  by (simp add: to_int_def INT_MAX_def signed_take_bit_int_eq_self_iff)

lemma sys_log: "sys env c s = (r, s1) \<Longrightarrow> last (n_log s1) = (c, r_ret r)"
  by (auto simp: sys_def Let_def)

text \<open>With the contract of \<open>send\<close> a step on a buffer whose length is an int neither truncates nor overflows.\<close>

lemma nty_send_step:
  assumes "int (length buf) \<le> INT_MAX" and "send_result_ok (CSend fd buf, r_ret (e_sys env (n_sys s)))"
  shows "nty_send env fd buf s = (let r = r_ret (e_sys env (n_sys s)); s1 = snd (sys env (CSend fd buf) s) in
    Some (if r = 0 then Inl (0, []) else send_test fd buf (nat r) r, s1))"
  using assms to_int_id [of "r_ret (e_sys env (n_sys s))"]
  by (auto simp: nty_send_def sys_def Let_def add_sent_def)

lemma nty_send_again_step:
  assumes "int (length buf) \<le> INT_MAX" and "sent < length buf" and "send_result_ok (CSend fd (drop sent buf), r_ret (e_sys env (n_sys s)))"
  shows "nty_send_again env fd buf sent s = (let r = r_ret (e_sys env (n_sys s)); s1 = snd (sys env (CSend fd (drop sent buf)) s) in
    Some (if r \<le> 0 then Inl (if sent = 0 then r else int sent, []) else send_test fd buf (sent + nat r) r, s1))"
  using assms to_int_id [of "r_ret (e_sys env (n_sys s))"]
  by (auto simp: nty_send_again_def sys_def Let_def add_sent_def nat_add_distrib)

text \<open>C22: on a buffer of at most \<open>INT_MAX\<close> bytes, with a \<open>send\<close> that returns -1 or the number of bytes it
  took, however its call is cut up by waits, \<open>nty_send\<close> hands the kernel the buffer from its start, in
  order and without gaps: while it waits it has sent the prefix it counts and its next step is defined,
  and it returns the number of bytes sent, or, when nothing was sent, the result of \<open>send\<close>.\<close>

theorem nty_send_delivers_prefix:
  assumes "sending env fd buf r out" and "int (length buf) \<le> INT_MAX"
  shows "case r of Inr lb \<Rightarrow> (\<exists>sent<length buf. lb = LSend fd buf sent \<and> out = take sent buf \<and>
      (\<forall>s :: unit nty. send_result_ok (CSend fd (drop sent buf), r_ret (e_sys env (n_sys s))) \<longrightarrow>
        nty_send_again env fd buf sent s \<noteq> None))
    | Inl v \<Rightarrow> fst v \<le> int (length buf) \<and> out = take (nat (fst v)) buf"
proof -
  have "case r of Inr lb \<Rightarrow> (\<exists>sent<length buf. lb = LSend fd buf sent \<and> out = take sent buf)
    | Inl v \<Rightarrow> fst v \<le> int (length buf) \<and> out = take (nat (fst v)) buf"
    using assms
  proof (induction rule: sending.induct)
    case (start s r s1)
    obtain x where x: "sys env (CSend fd buf) s = (x, s1)" using start(1)
      by (auto simp: nty_send_def sys_def Let_def bind_eq_Some_conv split: if_splits)
    then show ?case using start nty_send_step [of buf fd env s]
      by (auto simp: sys_log [OF x] send_test_def Let_def sys_def split: if_splits)
  next
    case (again sent out s r s1)
    obtain x where x: "sys env (CSend fd (drop sent buf)) s = (x, s1)" using again(2)
      by (auto simp: nty_send_again_def sys_def Let_def bind_eq_Some_conv split: if_splits)
    then show ?case using again nty_send_again_step [of buf sent fd env s]
      by (auto simp: sys_log [OF x] send_test_def Let_def sys_def take_add nat_add_distrib split: if_splits)
  qed
  moreover have "nty_send_again env fd buf sent s \<noteq> None"
    if "sent < length buf" "send_result_ok (CSend fd (drop sent buf), r_ret (e_sys env (n_sys s)))" for sent and s :: "unit nty"
    using nty_send_again_step [OF assms(2) that] by (simp add: Let_def)
  ultimately show ?thesis by (cases r; simp only: sum.case; blast)
qed

text \<open>Beyond \<open>INT_MAX\<close> the counts are wrong: a first call of \<open>send\<close> that takes 2 gigabytes is taken for a
  failure, so that the bytes are sent once more; and a sum above \<open>INT_MAX\<close> is undefined.\<close>

theorem nty_send_long_buffer:
  "r_ret (e_sys env (n_sys s)) = 2147483648 \<Longrightarrow> 2147483648 \<le> length buf \<Longrightarrow>
     \<exists>s1. nty_send env fd buf s = Some (Inr (LSend fd buf 0), s1)"
  "0 < to_int (r_ret (e_sys env (n_sys s))) \<Longrightarrow> INT_MAX < int sent + to_int (r_ret (e_sys env (n_sys s))) \<Longrightarrow>
     nty_send_again env fd buf sent s = None"
proof -
  have t: "to_int 2147483648 = - 2147483648" by (simp add: to_int_def signed_take_bit_eq_take_bit_shift take_bit_eq_mod)
  show "r_ret (e_sys env (n_sys s)) = 2147483648 \<Longrightarrow> 2147483648 \<le> length buf \<Longrightarrow>
     \<exists>s1. nty_send env fd buf s = Some (Inr (LSend fd buf 0), s1)"
    by (auto simp: nty_send_def sys_def Let_def t send_test_def)
  show "0 < to_int (r_ret (e_sys env (n_sys s))) \<Longrightarrow> INT_MAX < int sent + to_int (r_ret (e_sys env (n_sys s))) \<Longrightarrow>
     nty_send_again env fd buf sent s = None"
    by (simp add: nty_send_again_def sys_def Let_def add_sent_def)
qed

section \<open>A sleep that is none\<close>

lemma sleepdown_empty:
  assumes "n_sched s = Some sc" and "sc_sleeping sc = []" and "n_heap s a = Some co" and "0 < ms"
  shows "\<exists>s1 co1. nty_schedule_sched_sleepdown env a ms s = Some s1 \<and> n_sched s1 = Some (sc\<lparr>sc_sleeping := [a]\<rparr>) \<and>
    n_heap s1 a = Some co1"
proof -
  define s0 where "s0 = s\<lparr>n_sched := Some (sc\<lparr>sc_sleeping := []\<rparr>), n_clock := Suc (n_clock s),
    n_heap := (n_heap s)(a \<mapsto> co\<lparr>co_sleep_usecs := diff_usecs (sc_birth sc) (e_clock env (n_clock s)) + ms * 1000\<rparr>)\<rparr>"
  have "nty_schedule_sched_sleepdown env a ms s = sleep_loop a s0"
    using assms by (simp add: nty_schedule_sched_sleepdown_def rb_find_def keys_def usec_now_def upd_sched_def upd_co_def s0_def)
  moreover have "\<exists>s1 co1. sleep_loop a s0 = Some s1 \<and> n_sched s1 = Some (sc\<lparr>sc_sleeping := [a]\<rparr>) \<and> n_heap s1 a = Some co1"
    by (subst sleep_loop.simps) (simp add: s0_def rb_insert_def keys_def upd_sched_def upd_co_def)
  ultimately show ?thesis by simp
qed

lemma sleep_exit_run:
  assumes "n_sched s = Some sc" and "sc_sleeping sc = []" and "n_heap s a = Some co" and "0 < ms"
    and "pg_op pg l = OSleep ms" and "pg_op pg (pg_next pg l (0, [])) = OExit"
  shows "\<exists>s2 co2. co_run env pg (MUser l) a s = Some s2 \<and> n_sched s2 = Some (sc\<lparr>sc_sleeping := [a]\<rparr>) \<and>
    n_heap s2 a = Some (exec_exit co2)"
proof -
  obtain s1 co1 where s1: "nty_schedule_sched_sleepdown env a ms s = Some s1" "n_sched s1 = Some (sc\<lparr>sc_sleeping := [a]\<rparr>)"
    "n_heap s1 a = Some co1" using sleepdown_empty [OF assms(1-4)] by blast
  have "co_run env pg (MUser l) a s = co_run env pg (MUser (pg_next pg l (0, []))) a s1"
    using assms(4,5) s1(1) by (subst co_run.simps) (simp add: user_step_def)
  also have "\<dots> = upd_co a exec_exit s1" using assms(6) s1(3) by (subst co_run.simps) (simp add: user_step_def upd_co_def)
  finally show ?thesis using s1 by (auto simp: upd_co_def)
qed

lemma exec_exit_bits: "co_status (exec_exit co) AND EXITED_BIT \<noteq> 0" "co_status (exec_exit co) AND DETACH_BIT \<noteq> 0"
  by (auto simp: exec_exit_def or_bits)

text \<open>C23: a coroutine that sleeps for a positive time does not give the processor back: its step enters
  the set of the sleeping and goes on with the coroutine itself. When it then returns, its resumption
  frees it while it is still in the set, and the next look at the set, for the timeout of \<open>epoll_wait\<close>,
  reads the freed memory, so that the scheduler's run is undefined.\<close>

theorem nty_sleep_then_exit_uses_freed_memory:
  assumes "n_sched s = Some sc" and "sc_ready sc = [a]" and "sc_sleeping sc = []" and "n_heap s a = Some co"
    and "co_status co = NEW_BIT" and "pg_op pg (co_func co) = OSleep ms" and "0 < ms"
    and "pg_op pg (pg_next pg (co_func co) (0, [])) = OExit"
  shows "(\<forall>w scw cow. n_sched w = Some scw \<longrightarrow> sc_sleeping scw = [] \<longrightarrow> n_heap w a = Some cow \<longrightarrow>
      (\<exists>w1. user_step env pg (co_func co) a w = Some (Some (MUser (pg_next pg (co_func co) (0, []))), w1) \<and>
        map_option sc_sleeping (n_sched w1) = Some [a])) \<and>
    (\<exists>t v. run_expired env pg s = Some t \<and>
      nty_coroutine_resume env pg a (upd_sched (\<lambda>sc. sc\<lparr>sc_ready := []\<rparr>) t) = Some (- 1, v) \<and>
      run_queue env pg (Some a) t = Some v \<and> map_option sc_sleeping (n_sched v) = Some [a] \<and> n_heap v a = None \<and>
      nty_schedule_min_timeout env v = None) \<and>
    nty_schedule_run env pg s = None"
proof (intro conjI)
  let ?l = "pg_next pg (co_func co) (0, [])"
  have "\<exists>w1. user_step env pg (co_func co) a w = Some (Some (MUser ?l), w1) \<and> map_option sc_sleeping (n_sched w1) = Some [a]"
    if w: "n_sched w = Some scw" "sc_sleeping scw = []" "n_heap w a = Some cow" for w scw cow
    using sleepdown_empty [OF w assms(7), of env] assms(6,7) by (auto simp: user_step_def)
  then show "\<forall>w scw cow. n_sched w = Some scw \<longrightarrow> sc_sleeping scw = [] \<longrightarrow> n_heap w a = Some cow \<longrightarrow>
      (\<exists>w1. user_step env pg (co_func co) a w = Some (Some (MUser ?l), w1) \<and> map_option sc_sleeping (n_sched w1) = Some [a])"
    by blast
  define t where "t = s\<lparr>n_clock := Suc (n_clock s)\<rparr>"
  have expired: "run_expired env pg s = Some t"
    using assms by (subst run_expired.simps) (simp add: nty_schedule_expired_def usec_now_def t_def)
  define u where "u = s\<lparr>n_clock := Suc (n_clock s), n_heap := (n_heap s)(a \<mapsto> co\<lparr>co_point := PEntry, co_status := READY_BIT\<rparr>),
    n_sched := Some (sc\<lparr>sc_ready := [], sc_curr := Some a\<rparr>)\<rparr>"
  obtain u2 co2 where u2: "co_run env pg (MUser (co_func co)) a u = Some u2"
    "n_sched u2 = Some (sc\<lparr>sc_ready := [], sc_curr := Some a, sc_sleeping := [a]\<rparr>)" "n_heap u2 a = Some (exec_exit co2)"
    using sleep_exit_run [of u "sc\<lparr>sc_ready := [], sc_curr := Some a\<rparr>" a _ ms pg "co_func co" env] assms by (auto simp: u_def)
  define v where "v = u2\<lparr>n_heap := (n_heap u2)(a := None),
      n_sched := Some (sc\<lparr>sc_ready := [], sc_curr := None, sc_sleeping := [a], sc_spawned := sc_spawned sc - 1\<rparr>)\<rparr>"
  have resume: "nty_coroutine_resume env pg a (upd_sched (\<lambda>sc. sc\<lparr>sc_ready := []\<rparr>) t) = Some (- 1, v)"
    using assms u2 exec_exit_bits [of co2]
    by (simp add: t_def u_def v_def nty_coroutine_resume_def nty_coroutine_init_def upd_co_def upd_sched_def
        nty_coroutine_free_def Let_def)
  have queue: "run_queue env pg (Some a) t = Some v"
    using assms resume by (subst run_queue.simps) (simp add: t_def upd_sched_def)
  have look: "nty_schedule_min_timeout env v = None"
    by (simp add: v_def nty_schedule_min_timeout_def usec_now_def)
  have "map_option sc_sleeping (n_sched v) = Some [a]" and "n_heap v a = None" by (simp_all add: v_def)
  with expired resume queue look show "\<exists>t v. run_expired env pg s = Some t \<and>
      nty_coroutine_resume env pg a (upd_sched (\<lambda>sc. sc\<lparr>sc_ready := []\<rparr>) t) = Some (- 1, v) \<and>
      run_queue env pg (Some a) t = Some v \<and> map_option sc_sleeping (n_sched v) = Some [a] \<and> n_heap v a = None \<and>
      nty_schedule_min_timeout env v = None" by blast
  have "nty_schedule_epoll env v = None"
    using look by (simp add: nty_schedule_epoll_def upd_sched_def) (simp add: v_def nty_schedule_min_timeout_def usec_now_def)
  then have "schedule_round env pg s = None"
    using assms expired queue by (simp add: schedule_round_def t_def)
  then show "nty_schedule_run env pg s = None" using assms
    by (simp add: nty_schedule_run_def) (subst schedule_loop.simps, simp add: nty_schedule_isdone_def)
qed

section \<open>Yielding without an end\<close>

text \<open>One coroutine that only sleeps for zero, alone in the ready queue.\<close>

definition spinning :: "'l program \<Rightarrow> addr \<Rightarrow> 'l nty \<Rightarrow> bool" where
  "spinning pg a s \<longleftrightarrow> (\<exists>sc co. n_sched s = Some sc \<and> sc_ready sc = [a] \<and> sc_sleeping sc = [] \<and> n_heap s a = Some co \<and>
     (co_point co = PEntry \<or> co_point co = PYield (co_func co)) \<and> co_status co AND (EXITED_BIT OR FDEOF_BIT) = 0 \<and>
     pg_op pg (co_func co) = OSleep 0 \<and> pg_next pg (co_func co) (0, []) = co_func co)"

lemma spinning_round:
  assumes "spinning pg a s"
  shows "\<exists>s'. schedule_round env pg s = Some s' \<and> spinning pg a s' \<and> n_poll s' = n_poll s \<and> n_log s' = n_log s \<and>
    map_option sc_waiting (n_sched s') = map_option sc_waiting (n_sched s)"
proof -
  obtain sc co where sc: "n_sched s = Some sc" "sc_ready sc = [a]" "sc_sleeping sc = []" "n_heap s a = Some co"
    and co: "co_point co = PEntry \<or> co_point co = PYield (co_func co)" "co_status co AND EXITED_BIT = 0" "co_status co AND FDEOF_BIT = 0" "co_status co AND 0x60 = 0"
    and pg: "pg_op pg (co_func co) = OSleep 0" "pg_next pg (co_func co) (0, []) = co_func co"
    using assms bits_below [of _ "0x60"] by (auto simp: spinning_def)
  define x :: "32 word" where "x = (if co_status co AND NEW_BIT \<noteq> 0 then READY_BIT else co_status co)"
  define co1 where "co1 = co\<lparr>co_status := x, co_point := PYield (co_func co)\<rparr>"
  define t where "t = s\<lparr>n_clock := Suc (n_clock s)\<rparr>"
  define u where "u = s\<lparr>n_clock := Suc (n_clock s), n_heap := (n_heap s)(a \<mapsto> co1), n_sched := Some (sc\<lparr>sc_curr := None\<rparr>)\<rparr>"
  define v where "v = u\<lparr>n_clock := Suc (Suc (n_clock s)), n_sched := Some (sc\<lparr>sc_curr := None, sc_num_new := 0\<rparr>)\<rparr>"
  have x: "x AND EXITED_BIT = 0" "x AND FDEOF_BIT = 0" "x AND 0x60 = 0" using co by (auto simp: x_def)
  have expired: "run_expired env pg s = Some t"
    using sc by (subst run_expired.simps) (simp add: nty_schedule_expired_def usec_now_def t_def)
  have run: "co_run env pg (MUser (co_func co)) a w =
      upd_co a (\<lambda>co'. co'\<lparr>co_point := PYield (co_func co)\<rparr>) (upd_sched (\<lambda>sc. sc\<lparr>sc_ready := sc_ready sc @ [a]\<rparr>) w)" for w
    using pg by (subst co_run.simps) (auto simp: user_step_def upd_co_def split: option.split)
  have queue: "run_queue env pg (Some a) t = Some u"
  proof (cases "co_status co AND NEW_BIT = 0")
    case True
    have mode: "mode_of pg co = Some (MUser (co_func co))" using co(1) pg(2) by auto
    show ?thesis using sc co x run mode True
      by (subst run_queue.simps) (simp add: t_def u_def x_def co1_def nty_coroutine_resume_def upd_co_def upd_sched_def Let_def
          del: mode_of.simps)
  next
    case False
    show ?thesis using sc co x run False
      by (subst run_queue.simps) (simp add: t_def u_def x_def co1_def nty_coroutine_resume_def nty_coroutine_init_def
          upd_co_def upd_sched_def Let_def)
  qed
  have "nty_schedule_epoll env u = Some v"
    using sc by (simp add: nty_schedule_epoll_def nty_schedule_min_timeout_def usec_now_def upd_sched_def u_def v_def)
  moreover have "run_events env pg v = Some v" by (subst run_events.simps) (simp add: v_def)
  ultimately have "schedule_round env pg s = Some v" using expired queue sc by (simp add: schedule_round_def t_def)
  moreover have "spinning pg a v" using sc co pg x by (auto simp: spinning_def v_def u_def co1_def)
  moreover have "n_poll v = n_poll s" "n_log v = n_log s" "map_option sc_waiting (n_sched v) = map_option sc_waiting (n_sched s)"
    using sc by (simp_all add: v_def u_def)
  ultimately show ?thesis by blast
qed

text \<open>a coroutine that gives way again and again by sleeping for zero stays alone in the ready
  queue, so that \<open>epoll_wait\<close> is never called: however many rounds the scheduler runs, no socket call is made, the
  coroutines that wait are not woken, and \<open>nty_schedule_run\<close> does not return.\<close>

theorem nty_yielding_starves_waiters:
  assumes "spinning pg a s"
  shows "(\<exists>s'. ((\<lambda>r. r \<bind> schedule_round env pg) ^^ n) (Some s) = Some s' \<and> n_poll s' = n_poll s \<and> n_log s' = n_log s \<and>
      map_option sc_waiting (n_sched s') = map_option sc_waiting (n_sched s)) \<and> nty_schedule_run env pg s = None"
proof -
  have "\<exists>s'. ((\<lambda>r. r \<bind> schedule_round env pg) ^^ n) (Some s) = Some s' \<and> spinning pg a s' \<and> n_poll s' = n_poll s \<and>
      n_log s' = n_log s \<and> map_option sc_waiting (n_sched s') = map_option sc_waiting (n_sched s)"
  proof (induction n)
    case (Suc n)
    then obtain s1 where s1: "((\<lambda>r. r \<bind> schedule_round env pg) ^^ n) (Some s) = Some s1" "spinning pg a s1" "n_poll s1 = n_poll s"
      "n_log s1 = n_log s" "map_option sc_waiting (n_sched s1) = map_option sc_waiting (n_sched s)" by blast
    show ?case using spinning_round [OF s1(2), of env] s1 by auto
  qed (use assms in simp)
  then have rounds: "\<exists>s'. ((\<lambda>r. r \<bind> schedule_round env pg) ^^ n) (Some s) = Some s' \<and> n_poll s' = n_poll s \<and> n_log s' = n_log s \<and>
      map_option sc_waiting (n_sched s') = map_option sc_waiting (n_sched s)" by blast
  have "schedule_loop env pg s \<noteq> Some r" for r
  proof
    assume run: "schedule_loop env pg s = Some r"
    have "\<not> spinning pg a s"
    proof (rule schedule_loop.raw_induct [where P = "\<lambda>env pg s r. \<not> spinning pg a s", OF _ run], rule notI)
      fix f env s r and pg :: "'a program"
      assume ih: "\<And>env (pg :: 'a program) s r. f env pg s = Some r \<Longrightarrow> \<not> spinning pg a s"
        and body: "n_sched s \<bind> (\<lambda>sc. if nty_schedule_isdone sc then Some (nty_schedule_free s)
          else schedule_round env pg s \<bind> f env pg) = Some r"
        and s: "spinning pg a s"
      obtain s' where s': "schedule_round env pg s = Some s'" "spinning pg a s'" using spinning_round [OF s] by blast
      obtain sc where "n_sched s = Some sc" "\<not> nty_schedule_isdone sc" using s by (auto simp: spinning_def nty_schedule_isdone_def)
      then have "f env pg s' = Some r" using body s'(1) by simp
      then show False using ih s'(2) by blast
    qed
    then show False using assms by simp
  qed
  moreover have "n_sched s \<noteq> None" using assms by (auto simp: spinning_def)
  ultimately have "nty_schedule_run env pg s = None" by (simp add: nty_schedule_run_def) (meson not_None_eq)
  with rounds show ?thesis by blast
qed

section \<open>Samples\<close>

text \<open>A program that accepts on descriptor 5 or 6, sends three bytes on 7 and exits; another that sleeps;
  and one that spins. The system takes one byte in the first call of \<open>send\<close> and the rest in the second.\<close>

definition sample_env :: env where
  "sample_env = \<lparr>e_sys = (\<lambda>n. \<lparr>r_ret = (if n = 0 then 1 else 2), r_err = EAGAIN, r_data = []\<rparr>), e_poll = (\<lambda>n. Inl []),
     e_clock = id, e_alloc = (\<lambda>n. AllocOk 2)\<rparr>"

definition sample_pg :: "nat program" where
  "sample_pg = \<lparr>pg_op = (\<lambda>l. if l = 5 \<or> l = 6 then OAccept (int l) else if l = 10 then OSleep 0 else OExit),
     pg_next = (\<lambda>l v. if l = 10 then 10 else 0)\<rparr>"

definition sleep_pg :: "nat program" where
  "sleep_pg = \<lparr>pg_op = (\<lambda>l. if l = 0 then OSleep 100 else OExit), pg_next = (\<lambda>l v. l + 1)\<rparr>"

definition sample_created :: "nat \<Rightarrow> nat nty" where
  "sample_created f = snd (the (nty_coroutine_create sample_env (True, 3, 4) f nty_start))"

lemma sample_create: "nty_coroutine_create sample_env (True, 3, 4) f nty_start = Some (0, sample_created f)"
  and sample_sched: "n_sched (sample_created f) = Some \<lparr>sc_birth = 0, sc_stack_size = 2048, sc_spawned = 1, sc_default_timeout = 3000000,
    sc_curr = None, sc_epfd = 3, sc_eventfd = 4, sc_eventlist = [], sc_num_new = 0, sc_ready = [2], sc_sleeping = [], sc_waiting = []\<rparr>"
  and sample_heap: "n_heap (sample_created f) = [2 \<mapsto> \<lparr>co_point = PEntry, co_func = f, co_birth = 1, co_status = 1, co_id = 0,
    co_fd = - 1, co_events = 0, co_sleep_usecs = 0\<rparr>]"
  by (simp_all add: sample_created_def nty_coroutine_create_def nty_start_def nty_schedule_create_def sample_env_def
      nty_epoller_ev_register_trigger_def upd_sched_def usec_now_def Let_def)

lemma sample_co: "n_heap (sample_created f) 2 = Some \<lparr>co_point = PEntry, co_func = f, co_birth = 1, co_status = 1, co_id = 0,
    co_fd = - 1, co_events = 0, co_sleep_usecs = 0\<rparr>"
  by (simp add: sample_heap)

lemma sample_accepts:
  "co_run sample_env sample_pg (MUser 5) 2 w = do {
     (b, s1) \<leftarrow> nty_epoll_enter sample_env 5 25 w; upd_co b (\<lambda>co. co\<lparr>co_point := PWait (LAccept 5) 5\<rparr>) s1 }"
proof -
  have "co_run sample_env sample_pg (MUser 5) 2 w = co_run sample_env sample_pg (MLib (Inr (LAccept 5)) 5) 2 w"
    by (subst co_run.simps) (simp add: user_step_def sample_pg_def)
  also have "\<dots> = do {
     (b, s1) \<leftarrow> nty_epoll_enter sample_env 5 25 w; upd_co b (\<lambda>co. co\<lparr>co_point := PWait (LAccept 5) 5\<rparr>) s1 }"
    by (subst co_run.simps) (auto simp: upd_co_def split: bind_splits option.splits)
  finally show ?thesis .
qed

lemma sample_round:
  "\<exists>s sc. schedule_round sample_env sample_pg (sample_created 5) = Some s \<and> n_sched s = Some sc \<and> sc_waiting sc = [2] \<and>
     sc_eventfd sc = 4 \<and> n_epoll s 5 \<noteq> None"
proof -
  let ?s = "sample_created 5"
  define t where "t = ?s\<lparr>n_clock := Suc (n_clock ?s)\<rparr>"
  have "run_expired sample_env sample_pg ?s = Some t"
    by (subst run_expired.simps) (simp add: nty_schedule_expired_def usec_now_def t_def sample_sched)
  moreover have "\<exists>u sc. run_queue sample_env sample_pg (Some 2) t = Some u \<and> n_sched u = Some sc \<and> sc_waiting sc = [2] \<and>
     sc_sleeping sc = [] \<and> sc_ready sc = [] \<and> sc_eventfd sc = 4 \<and> n_epoll u 5 \<noteq> None"
    by (subst run_queue.simps)
      (simp add: t_def sample_sched sample_heap nty_coroutine_resume_def nty_coroutine_init_def upd_co_def upd_sched_def sample_accepts
        nty_epoll_enter_def nty_schedule_sched_wait_def rb_insert_def keys_def Let_def)
  then obtain u sc where u: "run_queue sample_env sample_pg (Some 2) t = Some u" "n_sched u = Some sc" "sc_waiting sc = [2]"
     "sc_sleeping sc = []" "sc_ready sc = []" "sc_eventfd sc = 4" "n_epoll u 5 \<noteq> None" by blast
  moreover have "\<exists>v sc. nty_schedule_epoll sample_env u \<bind> run_events sample_env sample_pg = Some v \<and> n_sched v = Some sc \<and>
     sc_waiting sc = [2] \<and> sc_eventfd sc = 4 \<and> n_epoll v 5 \<noteq> None"
    using u by (simp add: nty_schedule_epoll_def nty_schedule_min_timeout_def usec_now_def upd_sched_def epoll_loop.simps
        run_events.simps sample_env_def)
  ultimately show ?thesis by (simp add: schedule_round_def t_def sample_sched)
qed

theorem nty_reach_keeps_invariant_witness:
  "\<exists>s sc. nty_reach sample_env (True, 3, 4) sample_pg s \<and> n_sched s = Some sc \<and> sc_waiting sc = [2] \<and>
     (\<exists>a s1. nty_schedule_search_wait 5 s = Some (a, s1))"
proof -
  obtain s sc where s: "schedule_round sample_env sample_pg (sample_created 5) = Some s" and sc: "n_sched s = Some sc"
    "sc_waiting sc = [2]" "sc_eventfd sc = 4" "n_epoll s 5 \<noteq> None" using sample_round by blast
  have "nty_reach sample_env (True, 3, 4) sample_pg s"
    by (rule nty_reach.round [OF nty_reach.first [OF sample_create] s]) (simp add: sample_sched)
  moreover have "no_sleep sample_pg" by (simp add: no_sleep_def sample_pg_def)
  ultimately obtain sc' where "n_sched s = Some sc'" and "\<forall>fd. n_epoll s fd \<noteq> None \<longrightarrow> fd \<noteq> sc_eventfd sc' \<longrightarrow>
      (\<exists>a s1. nty_schedule_search_wait fd s = Some (a, s1) \<and> a \<in> set (sc_waiting sc') \<and> co_fd (live s a) = fd)"
    using nty_reach_keeps_invariant by blast
  then have "\<exists>a s1. nty_schedule_search_wait 5 s = Some (a, s1)" using sc by auto
  then show ?thesis using \<open>nty_reach sample_env (True, 3, 4) sample_pg s\<close> sc by blast
qed

text \<open>Three bytes in two calls.\<close>

theorem nty_send_delivers_prefix_witness:
  "\<exists>out. sending sample_env 7 [1, 2, 3] (Inl (3, [])) out \<and> out = [1, 2, 3]"
proof -
  let ?s = "\<lparr>n_sched = None, n_heap = Map.empty, n_epoll = Map.empty, n_log = [], n_sys = 0, n_poll = 0, n_clock = 0, n_alloc = 0\<rparr> :: unit nty"
  have m: "int (length [1, 2, 3 :: byte]) \<le> INT_MAX" by (simp add: INT_MAX_def)
  obtain s1 where "nty_send sample_env 7 [1, 2, 3] ?s = Some (Inr (LSend 7 [1, 2, 3] 1), s1)" "n_log s1 = [(CSend 7 [1, 2, 3], 1)]"
    using nty_send_step [OF m, of 7 sample_env ?s] by (simp add: sys_def send_test_def sample_env_def Let_def)
  then have 1: "sending sample_env 7 [1, 2, 3] (Inr (LSend 7 [1, 2, 3] 1)) [1]" using sending.start by fastforce
  obtain s2 where "nty_send_again sample_env 7 [1, 2, 3] 1 (?s\<lparr>n_sys := 1\<rparr>) = Some (Inl (3, []), s2)" "n_log s2 = [(CSend 7 [2, 3], 2)]"
    using nty_send_again_step [OF m, of 1 7 sample_env "?s\<lparr>n_sys := 1\<rparr>"] by (simp add: sys_def send_test_def sample_env_def Let_def)
  from sending.again [OF 1 this(1)] this(2) have "\<exists>out. sending sample_env 7 [1, 2, 3] (Inl (3, [])) out" by fastforce
  then show ?thesis using nty_send_delivers_prefix [OF _ m] by fastforce
qed

theorem nty_sleep_then_exit_uses_freed_memory_witness:
  "(\<exists>t v. run_expired sample_env sleep_pg (sample_created 0) = Some t \<and> run_queue sample_env sleep_pg (Some 2) t = Some v \<and>
      map_option sc_sleeping (n_sched v) = Some [2] \<and> n_heap v 2 = None) \<and>
   nty_schedule_run sample_env sleep_pg (sample_created 0) = None"
  using nty_sleep_then_exit_uses_freed_memory [OF sample_sched [of 0] _ _ sample_co [of 0], where pg = sleep_pg and ms = 100 and env = sample_env]
  by (simp add: sleep_pg_def) blast

theorem nty_yielding_starves_waiters_witness: "nty_schedule_run sample_env sample_pg (sample_created 10) = None"
proof -
  have "spinning sample_pg 2 (sample_created 10)" by (simp add: spinning_def sample_sched sample_heap sample_pg_def)
  from nty_yielding_starves_waiters [OF this] show ?thesis by blast
qed

end
