(* ===== verification/RBTree.thy ===== *)
theory RBTree
  imports Prelude
begin

text \<open>
  The red-black tree of the timers, \<open>rbtree.c\<close> and \<open>rbtree.h\<close>: nodes with pointers to their children
  and their parent, one sentinel for all leaves, the insertion and deletion with their re-balancing.

  The two halves of the re-balancing loops are the same code with left and right exchanged, and so are
  the two rotations; the definitions take the side as an argument. A read or a write through a pointer
  to no node is \<open>None\<close>, and so is a loop that never ends.
\<close>

section \<open>Nodes\<close>

record rb_node =
  rb_key :: uint32
  rb_left :: addr
  rb_right :: addr
  rb_parent :: addr
  rb_color :: nat

record rbtree =
  rb_root :: addr
  rb_sentinel :: addr
  rb_mem :: "addr \<Rightarrow> rb_node option"

datatype side = SLeft | SRight

fun opp :: "side \<Rightarrow> side" where
  "opp SLeft = SRight"
| "opp SRight = SLeft"

fun kid :: "side \<Rightarrow> rb_node \<Rightarrow> addr" where
  "kid SLeft n = rb_left n"
| "kid SRight n = rb_right n"

fun set_kid :: "side \<Rightarrow> addr \<Rightarrow> rb_node \<Rightarrow> rb_node" where
  "set_kid SLeft a n = n\<lparr>rb_left := a\<rparr>"
| "set_kid SRight a n = n\<lparr>rb_right := a\<rparr>"

definition rd :: "(rb_node \<Rightarrow> 'b) \<Rightarrow> addr \<Rightarrow> rbtree \<Rightarrow> 'b option" where
  "rd f a s = map_option f (rb_mem s a)"

definition wr :: "addr \<Rightarrow> (rb_node \<Rightarrow> rb_node) \<Rightarrow> rbtree \<Rightarrow> rbtree option" where
  "wr a f s = (case rb_mem s a of None \<Rightarrow> None | Some n \<Rightarrow> Some (s\<lparr>rb_mem := (rb_mem s)(a \<mapsto> f n)\<rparr>))"

text \<open>The macros of \<open>rbtree.h\<close>.\<close>

definition ngx_rbt_red :: "addr \<Rightarrow> rbtree \<Rightarrow> rbtree option" where
  "ngx_rbt_red a = wr a (\<lambda>n. n\<lparr>rb_color := 1\<rparr>)"

definition ngx_rbt_black :: "addr \<Rightarrow> rbtree \<Rightarrow> rbtree option" where
  "ngx_rbt_black a = wr a (\<lambda>n. n\<lparr>rb_color := 0\<rparr>)"

definition ngx_rbt_is_red :: "addr \<Rightarrow> rbtree \<Rightarrow> bool option" where
  "ngx_rbt_is_red = rd (\<lambda>n. rb_color n \<noteq> 0)"

definition ngx_rbt_copy_color :: "addr \<Rightarrow> addr \<Rightarrow> rbtree \<Rightarrow> rbtree option" where
  "ngx_rbt_copy_color a b s = do { c \<leftarrow> rd rb_color b s; wr a (\<lambda>n. n\<lparr>rb_color := c\<rparr>) s }"

text \<open>\<open>sen\<close> is the memory of the sentinel.\<close>

definition ngx_rbtree_init :: "addr \<Rightarrow> rb_node \<Rightarrow> (addr \<Rightarrow> rb_node option) \<Rightarrow> rbtree" where
  "ngx_rbtree_init sen n m = \<lparr>rb_root = sen, rb_sentinel = sen, rb_mem = m(sen \<mapsto> n\<lparr>rb_color := 0\<rparr>)\<rparr>"

partial_function (option) ngx_rbtree_min :: "addr \<Rightarrow> rbtree \<Rightarrow> addr option" where
  "ngx_rbtree_min node s = do {
     l \<leftarrow> rd rb_left node s;
     if l \<noteq> rb_sentinel s then ngx_rbtree_min l s else Some node }"

section \<open>Rotation\<close>

text \<open>\<open>ngx_rbtree_left_rotate\<close> for \<open>SLeft\<close>, \<open>ngx_rbtree_right_rotate\<close> for \<open>SRight\<close>.\<close>

definition rotate_hang :: "side \<Rightarrow> addr \<Rightarrow> addr \<Rightarrow> rbtree \<Rightarrow> rbtree option" where
  "rotate_hang d x t s =
    (if x = rb_root s then Some (s\<lparr>rb_root := t\<rparr>)
     else do {
       p \<leftarrow> rd rb_parent x s;
       q \<leftarrow> rd (kid d) p s;
       if x = q then wr p (set_kid d t) s else wr p (set_kid (opp d) t) s })"

definition ngx_rbtree_rotate :: "side \<Rightarrow> addr \<Rightarrow> rbtree \<Rightarrow> rbtree option" where
  "ngx_rbtree_rotate d x s = do {
     t \<leftarrow> rd (kid (opp d)) x s;
     b \<leftarrow> rd (kid d) t s;
     s1 \<leftarrow> wr x (set_kid (opp d) b) s;
     b1 \<leftarrow> rd (kid d) t s1;
     s2 \<leftarrow> (if b1 \<noteq> rb_sentinel s1 then wr b1 (\<lambda>n. n\<lparr>rb_parent := x\<rparr>) s1 else Some s1);
     p \<leftarrow> rd rb_parent x s2;
     s3 \<leftarrow> wr t (\<lambda>n. n\<lparr>rb_parent := p\<rparr>) s2;
     s4 \<leftarrow> rotate_hang d x t s3;
     s5 \<leftarrow> wr t (set_kid d x) s4;
     wr x (\<lambda>n. n\<lparr>rb_parent := t\<rparr>) s5 }"

section \<open>Insertion\<close>

text \<open>The way down of \<open>ngx_rbtree_insert_value\<close>, for a comparison of keys; the result is the node above
  the free place and the side of the place.\<close>

partial_function (option) insert_place :: "(uint32 \<Rightarrow> uint32 \<Rightarrow> bool) \<Rightarrow> addr \<Rightarrow> addr \<Rightarrow> rbtree \<Rightarrow> (addr \<times> side) option" where
  "insert_place lt temp node s = do {
     k \<leftarrow> rd rb_key node s;
     kt \<leftarrow> rd rb_key temp s;
     let d = (if lt k kt then SLeft else SRight);
     p \<leftarrow> rd (kid d) temp s;
     if p = rb_sentinel s then Some (temp, d) else insert_place lt p node s }"

definition insert_at :: "addr \<Rightarrow> side \<Rightarrow> addr \<Rightarrow> rbtree \<Rightarrow> rbtree option" where
  "insert_at temp d node s = do {
     s1 \<leftarrow> wr temp (set_kid d node) s;
     s2 \<leftarrow> wr node (\<lambda>n. n\<lparr>rb_parent := temp, rb_left := rb_sentinel s, rb_right := rb_sentinel s\<rparr>) s1;
     ngx_rbt_red node s2 }"

definition ngx_rbtree_insert_value :: "addr \<Rightarrow> addr \<Rightarrow> rbtree \<Rightarrow> rbtree option" where
  "ngx_rbtree_insert_value temp node s = do { (t, d) \<leftarrow> insert_place (<) temp node s; insert_at t d node s }"

text \<open>\<open>(ngx_rbtree_key_int_t) (node->key - temp->key) < 0\<close>: the difference wraps and is read with its
  sign.\<close>

definition timer_before :: "uint32 \<Rightarrow> uint32 \<Rightarrow> bool" where
  "timer_before k l \<longleftrightarrow> s32 (u32_sub k l) < 0"

definition ngx_rbtree_insert_timer_value :: "addr \<Rightarrow> addr \<Rightarrow> rbtree \<Rightarrow> rbtree option" where
  "ngx_rbtree_insert_timer_value temp node s = do { (t, d) \<leftarrow> insert_place timer_before temp node s; insert_at t d node s }"

definition insert_step :: "side \<Rightarrow> addr \<Rightarrow> rbtree \<Rightarrow> (addr \<times> rbtree) option" where
  "insert_step d node s = do {
     p \<leftarrow> rd rb_parent node s;
     g \<leftarrow> rd rb_parent p s;
     temp \<leftarrow> rd (kid (opp d)) g s;
     red \<leftarrow> ngx_rbt_is_red temp s;
     if red then do {
       s1 \<leftarrow> ngx_rbt_black p s;
       s2 \<leftarrow> ngx_rbt_black temp s1;
       s3 \<leftarrow> ngx_rbt_red g s2;
       Some (g, s3) }
     else do {
       k \<leftarrow> rd (kid (opp d)) p s;
       (z, s1) \<leftarrow> (if node = k then do { s1 \<leftarrow> ngx_rbtree_rotate d p s; Some (p, s1) } else Some (node, s));
       zp \<leftarrow> rd rb_parent z s1;
       s2 \<leftarrow> ngx_rbt_black zp s1;
       zg \<leftarrow> rd rb_parent zp s2;
       s3 \<leftarrow> ngx_rbt_red zg s2;
       s4 \<leftarrow> ngx_rbtree_rotate (opp d) zg s3;
       Some (z, s4) } }"

partial_function (option) insert_fixup :: "addr \<Rightarrow> rbtree \<Rightarrow> rbtree option" where
  "insert_fixup node s =
    (if node = rb_root s then Some s
     else do {
       p \<leftarrow> rd rb_parent node s;
       red \<leftarrow> ngx_rbt_is_red p s;
       if \<not> red then Some s
       else do {
         g \<leftarrow> rd rb_parent p s;
         gl \<leftarrow> rd rb_left g s;
         (z, s1) \<leftarrow> insert_step (if p = gl then SLeft else SRight) node s;
         insert_fixup z s1 } })"

text \<open>\<open>ins\<close> is the function pointer \<open>tree->insert\<close>.\<close>

definition ngx_rbtree_insert :: "(addr \<Rightarrow> addr \<Rightarrow> rbtree \<Rightarrow> rbtree option) \<Rightarrow> addr \<Rightarrow> rbtree \<Rightarrow> rbtree option" where
  "ngx_rbtree_insert ins node s =
    (if rb_root s = rb_sentinel s then do {
       s1 \<leftarrow> wr node (\<lambda>n. n\<lparr>rb_parent := NULL, rb_left := rb_sentinel s, rb_right := rb_sentinel s, rb_color := 0\<rparr>) s;
       Some (s1\<lparr>rb_root := node\<rparr>) }
     else do {
       s1 \<leftarrow> ins (rb_root s) node s;
       s2 \<leftarrow> insert_fixup node s1;
       ngx_rbt_black (rb_root s2) s2 })"

section \<open>Deletion\<close>

text \<open>The sibling \<open>w\<close> of the node that is short of a black one: first it is made black, then there are
  three ways to go on, and the last two end with the same rotation.\<close>

definition delete_sibling :: "side \<Rightarrow> addr \<Rightarrow> rbtree \<Rightarrow> (addr \<times> rbtree) option" where
  "delete_sibling d p s = do {
     w \<leftarrow> rd (kid (opp d)) p s;
     red \<leftarrow> ngx_rbt_is_red w s;
     if red then do {
       s1 \<leftarrow> ngx_rbt_black w s;
       s2 \<leftarrow> ngx_rbt_red p s1;
       s3 \<leftarrow> ngx_rbtree_rotate d p s2;
       w' \<leftarrow> rd (kid (opp d)) p s3;
       Some (w', s3) }
     else Some (w, s) }"

definition delete_far :: "side \<Rightarrow> addr \<Rightarrow> addr \<Rightarrow> rbtree \<Rightarrow> (addr \<times> rbtree) option" where
  "delete_far d p w s = do {
     far \<leftarrow> rd (kid (opp d)) w s;
     red \<leftarrow> ngx_rbt_is_red far s;
     if \<not> red then do {
       near \<leftarrow> rd (kid d) w s;
       s1 \<leftarrow> ngx_rbt_black near s;
       s2 \<leftarrow> ngx_rbt_red w s1;
       s3 \<leftarrow> ngx_rbtree_rotate (opp d) w s2;
       v \<leftarrow> rd (kid (opp d)) p s3;
       Some (v, s3) }
     else Some (w, s) }"

definition delete_turn :: "side \<Rightarrow> addr \<Rightarrow> addr \<Rightarrow> rbtree \<Rightarrow> (addr \<times> rbtree) option" where
  "delete_turn d p w s = do {
     s1 \<leftarrow> ngx_rbt_copy_color w p s;
     s2 \<leftarrow> ngx_rbt_black p s1;
     far \<leftarrow> rd (kid (opp d)) w s2;
     s3 \<leftarrow> ngx_rbt_black far s2;
     s4 \<leftarrow> ngx_rbtree_rotate d p s3;
     Some (rb_root s4, s4) }"

definition delete_rest :: "side \<Rightarrow> addr \<Rightarrow> addr \<Rightarrow> rbtree \<Rightarrow> (addr \<times> rbtree) option" where
  "delete_rest d p w s = do {
     l \<leftarrow> rd rb_left w s;
     r \<leftarrow> rd rb_right w s;
     redl \<leftarrow> ngx_rbt_is_red l s;
     redr \<leftarrow> ngx_rbt_is_red r s;
     if \<not> redl \<and> \<not> redr then do {
       s1 \<leftarrow> ngx_rbt_red w s;
       Some (p, s1) }
     else do {
       (v, s1) \<leftarrow> delete_far d p w s;
       delete_turn d p v s1 } }"

definition delete_step :: "side \<Rightarrow> addr \<Rightarrow> rbtree \<Rightarrow> (addr \<times> rbtree) option" where
  "delete_step d temp s = do {
     p \<leftarrow> rd rb_parent temp s;
     (w, s1) \<leftarrow> delete_sibling d p s;
     delete_rest d p w s1 }"

partial_function (option) delete_fixup :: "addr \<Rightarrow> rbtree \<Rightarrow> (addr \<times> rbtree) option" where
  "delete_fixup temp s =
    (if temp = rb_root s then Some (temp, s)
     else do {
       red \<leftarrow> ngx_rbt_is_red temp s;
       if red then Some (temp, s)
       else do {
         p \<leftarrow> rd rb_parent temp s;
         l \<leftarrow> rd rb_left p s;
         (t, s1) \<leftarrow> delete_step (if temp = l then SLeft else SRight) temp s;
         delete_fixup t s1 } })"

text \<open>\<open>node\<close> gives its place to \<open>subst\<close>.\<close>

definition take_place :: "addr \<Rightarrow> addr \<Rightarrow> rbtree \<Rightarrow> rbtree option" where
  "take_place node subst s = do {
     n \<leftarrow> rb_mem s node;
     s1 \<leftarrow> wr subst (\<lambda>m. m\<lparr>rb_left := rb_left n, rb_right := rb_right n, rb_parent := rb_parent n, rb_color := rb_color n\<rparr>) s;
     s2 \<leftarrow> (if node = rb_root s1 then Some (s1\<lparr>rb_root := subst\<rparr>)
           else do {
             p \<leftarrow> rd rb_parent node s1;
             l \<leftarrow> rd rb_left p s1;
             if node = l then wr p (\<lambda>m. m\<lparr>rb_left := subst\<rparr>) s1 else wr p (\<lambda>m. m\<lparr>rb_right := subst\<rparr>) s1 });
     sl \<leftarrow> rd rb_left subst s2;
     s3 \<leftarrow> (if sl \<noteq> rb_sentinel s2 then wr sl (\<lambda>m. m\<lparr>rb_parent := subst\<rparr>) s2 else Some s2);
     sr \<leftarrow> rd rb_right subst s3;
     (if sr \<noteq> rb_sentinel s3 then wr sr (\<lambda>m. m\<lparr>rb_parent := subst\<rparr>) s3 else Some s3) }"

definition clear_node :: "addr \<Rightarrow> rbtree \<Rightarrow> rbtree option" where
  "clear_node node = wr node (\<lambda>n. n\<lparr>rb_left := NULL, rb_right := NULL, rb_parent := NULL, rb_key := 0\<rparr>)"

text \<open>The node that leaves its place, and the subtree that takes it.\<close>

definition delete_pick :: "addr \<Rightarrow> rbtree \<Rightarrow> (addr \<times> addr) option" where
  "delete_pick node s = do {
     l \<leftarrow> rd rb_left node s;
     r \<leftarrow> rd rb_right node s;
     if l = rb_sentinel s then Some (r, node)
     else if r = rb_sentinel s then Some (l, node)
     else do {
       subst \<leftarrow> ngx_rbtree_min r s;
       sl \<leftarrow> rd rb_left subst s;
       sr \<leftarrow> rd rb_right subst s;
       Some (if sl \<noteq> rb_sentinel s then sl else sr, subst) } }"

definition delete_unlink :: "addr \<Rightarrow> addr \<Rightarrow> addr \<Rightarrow> rbtree \<Rightarrow> rbtree option" where
  "delete_unlink node subst temp s = do {
     sp \<leftarrow> rd rb_parent subst s;
     spl \<leftarrow> rd rb_left sp s;
     s1 \<leftarrow> (if subst = spl then wr sp (\<lambda>m. m\<lparr>rb_left := temp\<rparr>) s else wr sp (\<lambda>m. m\<lparr>rb_right := temp\<rparr>) s);
     if subst = node then wr temp (\<lambda>m. m\<lparr>rb_parent := sp\<rparr>) s1
     else do {
       s2 \<leftarrow> wr temp (\<lambda>m. m\<lparr>rb_parent := (if sp = node then subst else sp)\<rparr>) s1;
       take_place node subst s2 } }"

definition ngx_rbtree_delete :: "addr \<Rightarrow> rbtree \<Rightarrow> rbtree option" where
  "ngx_rbtree_delete node s = do {
     (temp, subst) \<leftarrow> delete_pick node s;
     if subst = rb_root s then do {
       s1 \<leftarrow> ngx_rbt_black temp (s\<lparr>rb_root := temp\<rparr>);
       clear_node node s1 }
     else do {
       red \<leftarrow> ngx_rbt_is_red subst s;
       s1 \<leftarrow> delete_unlink node subst temp s;
       s2 \<leftarrow> clear_node node s1;
       if red then Some s2
       else do {
         (t, s3) \<leftarrow> delete_fixup temp s2;
         ngx_rbt_black t s3 } } }"

section \<open>The next node\<close>

partial_function (option) next_up :: "addr \<Rightarrow> rbtree \<Rightarrow> addr option" where
  "next_up node s = do {
     parent \<leftarrow> rd rb_parent node s;
     if node = rb_root s then Some NULL
     else do {
       l \<leftarrow> rd rb_left parent s;
       if node = l then Some parent else next_up parent s } }"

definition ngx_rbtree_next :: "addr \<Rightarrow> rbtree \<Rightarrow> addr option" where
  "ngx_rbtree_next node s = do {
     r \<leftarrow> rd rb_right node s;
     if r \<noteq> rb_sentinel s then ngx_rbtree_min r s else next_up node s }"

declare ngx_rbtree_min.simps [code] and insert_place.simps [code] and insert_fixup.simps [code] and delete_fixup.simps [code]
  and next_up.simps [code]

end
