(* ===== verification/RBTree_Shape.thy ===== *)
theory RBTree_Shape
  imports RBTree "HOL-Library.Tree"
begin

text \<open>
  The pointers of the red-black tree as a tree: which memory represents which tree, with the way from a
  subtree up to the root as a context, so that a rotation is one equation between a subtree before and
  after in the same context. The parent pointer of the root is never looked at and may be stale.
\<close>

section \<open>Trees by side\<close>

fun mk :: "side \<Rightarrow> 'a tree \<Rightarrow> 'a \<Rightarrow> 'a tree \<Rightarrow> 'a tree" where
  "mk SLeft l a r = Node l a r"
| "mk SRight l a r = Node r a l"

type_synonym 'a way_up = "(side \<times> 'a \<times> 'a tree) list"

fun plug :: "'a way_up \<Rightarrow> 'a tree \<Rightarrow> 'a tree" where
  "plug [] t = t"
| "plug ((d, a, u) # c) t = plug c (mk d t a u)"

fun above :: "'a way_up \<Rightarrow> 'a option" where
  "above [] = None"
| "above ((d, a, u) # c) = Some a"

fun ctx_nodes :: "'a way_up \<Rightarrow> 'a list" where
  "ctx_nodes [] = []"
| "ctx_nodes ((d, a, u) # c) = a # inorder u @ ctx_nodes c"

lemma opp_opp [simp]: "opp (opp d) = d"
  by (cases d) auto

lemma opp_neq [simp]: "opp d \<noteq> d" "d \<noteq> opp d"
  by (cases d; simp)+

lemma kid_set_kid [simp]:
  "kid d (set_kid d a n) = a" "kid d (set_kid (opp d) a n) = kid d n" "kid (opp d) (set_kid d a n) = kid (opp d) n"
  by (cases d; simp)+

lemma kid_update [simp]:
  "kid d (n\<lparr>rb_parent := p\<rparr>) = kid d n" "kid d (n\<lparr>rb_color := k\<rparr>) = kid d n"
  by (cases d; simp)+

lemma set_kid_fields [simp]:
  "rb_key (set_kid d a n) = rb_key n" "rb_parent (set_kid d a n) = rb_parent n" "rb_color (set_kid d a n) = rb_color n"
  by (cases d; simp)+

lemma mk_simps [simp]:
  "mk d l a r \<noteq> Leaf" "set_tree (mk d l a r) = insert a (set_tree l \<union> set_tree r)" "size (mk d l a r) = Suc (size l + size r)"
  by (cases d; auto)+

lemma mk_inject [simp]: "mk d l a r = mk d l' a' r' \<longleftrightarrow> l = l' \<and> a = a' \<and> r = r'"
  by (cases d) auto

lemma mk_opp: "mk (opp d) l a r = mk d r a l"
  by (cases d) auto

lemma mk_cases:
  obtains (Leaf) "t = Leaf" | (mk) l a r where "t = mk d l a r"
proof (cases t)
  case (Node l a r)
  show ?thesis
  proof (cases d)
    case SLeft
    show ?thesis by (rule mk [of l a r]) (simp add: Node SLeft)
  next
    case SRight
    show ?thesis by (rule mk [of r a l]) (simp add: Node SRight)
  qed
qed (rule Leaf)

lemma mset_inorder_mk [simp]: "mset (inorder (mk d l a r)) = add_mset a (mset (inorder l) + mset (inorder r))"
  by (cases d) auto

lemma inorder_rotate: "inorder (mk d (mk d l a m) b r) = inorder (mk d l a (mk d m b r))"
  by (cases d) auto

lemma distinct_inorder_mk [simp]:
  "distinct (inorder (mk d l a r)) \<longleftrightarrow>
     a \<notin> set_tree l \<and> a \<notin> set_tree r \<and> distinct (inorder l) \<and> distinct (inorder r) \<and> set_tree l \<inter> set_tree r = {}"
  by (cases d) auto

lemma mset_plug: "mset (inorder (plug c t)) = mset (inorder t) + mset (ctx_nodes c)"
  by (induction c t rule: plug.induct) auto

lemma set_plug: "set_tree (plug c t) = set_tree t \<union> set (ctx_nodes c)"
proof -
  have "set_mset (mset (inorder (plug c t))) = set_mset (mset (inorder t) + mset (ctx_nodes c))" by (simp only: mset_plug)
  then show ?thesis by simp
qed

lemma distinct_plug: "distinct (inorder (plug c t)) \<longleftrightarrow>
    distinct (inorder t) \<and> distinct (ctx_nodes c) \<and> set_tree t \<inter> set (ctx_nodes c) = {}"
proof -
  have "distinct (inorder (plug c t)) = distinct (inorder t @ ctx_nodes c)"
    by (rule mset_eq_imp_distinct_iff) (simp add: mset_plug)
  then show ?thesis by auto
qed

lemma plug_cong_inorder: "inorder t = inorder u \<Longrightarrow> inorder (plug c t) = inorder (plug c u)"
proof (induction c arbitrary: t u)
  case (Cons f c)
  obtain d a v where f: "f = (d, a, v)" by (cases f)
  have "inorder (mk d t a v) = inorder (mk d u a v)" using Cons.prems by (cases d) auto
  from Cons.IH [OF this] show ?case by (simp add: f)
qed simp

lemma plug_leaf [simp]: "plug c t = Leaf \<longleftrightarrow> c = [] \<and> t = Leaf"
  by (induction c t rule: plug.induct) auto

section \<open>Memory\<close>

fun ptr :: "rbtree \<Rightarrow> addr tree \<Rightarrow> addr" where
  "ptr s Leaf = rb_sentinel s"
| "ptr s (Node l a r) = a"

definition up_ok :: "addr option \<Rightarrow> rb_node \<Rightarrow> bool" where
  "up_ok par n \<longleftrightarrow> (\<forall>p. par = Some p \<longrightarrow> rb_parent n = p)"

fun rep :: "rbtree \<Rightarrow> addr option \<Rightarrow> addr tree \<Rightarrow> bool" where
  "rep s par Leaf \<longleftrightarrow> True"
| "rep s par (Node l a r) \<longleftrightarrow> (\<exists>n. rb_mem s a = Some n \<and> rb_left n = ptr s l \<and> rb_right n = ptr s r \<and> up_ok par n \<and>
     rep s (Some a) l \<and> rep s (Some a) r)"

fun ctx_rep :: "rbtree \<Rightarrow> addr \<Rightarrow> addr way_up \<Rightarrow> bool" where
  "ctx_rep s hole [] \<longleftrightarrow> rb_root s = hole"
| "ctx_rep s hole ((d, a, u) # c) \<longleftrightarrow> (\<exists>n. rb_mem s a = Some n \<and> kid d n = hole \<and> kid (opp d) n = ptr s u \<and> up_ok (above c) n \<and>
     rep s (Some a) u \<and> ctx_rep s a c)"

lemma ptr_mk [simp]: "ptr s (mk d l a r) = a"
  by (cases d) auto

lemma rep_mk: "rep s par (mk d l a r) \<longleftrightarrow> (\<exists>n. rb_mem s a = Some n \<and> kid d n = ptr s l \<and> kid (opp d) n = ptr s r \<and> up_ok par n \<and>
     rep s (Some a) l \<and> rep s (Some a) r)"
  by (cases d) auto

definition owns :: "rbtree \<Rightarrow> addr tree \<Rightarrow> bool" where
  "owns s t \<longleftrightarrow> rep s None t \<and> rb_root s = ptr s t \<and> distinct (inorder t) \<and> rb_sentinel s \<notin> set_tree t \<and>
     (\<exists>n. rb_mem s (rb_sentinel s) = Some n \<and> rb_color n = 0)"

lemma rep_plug: "rep s (above []) (plug c t) \<and> rb_root s = ptr s (plug c t) \<longleftrightarrow> rep s (above c) t \<and> ctx_rep s (ptr s t) c"
proof (induction c arbitrary: t)
  case (Cons f c)
  obtain d a u where f: "f = (d, a, u)" by (cases f)
  show ?case unfolding f using Cons.IH [of "mk d t a u"] by (auto simp: rep_mk)
qed auto

lemma owns_plug: "owns s (plug c t) \<longleftrightarrow> rep s (above c) t \<and> ctx_rep s (ptr s t) c \<and> distinct (inorder t) \<and> distinct (ctx_nodes c) \<and>
    set_tree t \<inter> set (ctx_nodes c) = {} \<and> rb_sentinel s \<notin> set_tree t \<and> rb_sentinel s \<notin> set (ctx_nodes c) \<and>
    (\<exists>n. rb_mem s (rb_sentinel s) = Some n \<and> rb_color n = 0)"
  using rep_plug [of s c t] by (auto simp: owns_def distinct_plug set_plug)

section \<open>Frames\<close>

definition links :: "rb_node \<Rightarrow> addr \<times> addr \<times> addr" where
  "links n = (rb_left n, rb_right n, rb_parent n)"

lemma links_eq: "links n = links m \<longleftrightarrow> kid d n = kid d m \<and> kid (opp d) n = kid (opp d) m \<and> rb_parent n = rb_parent m"
  by (cases d) (auto simp: links_def)

lemma ptr_cong: "rb_sentinel s' = rb_sentinel s \<Longrightarrow> ptr s' t = ptr s t"
  by (cases t) auto

lemma rep_cong:
  assumes "rb_sentinel s' = rb_sentinel s" and "\<And>a. a \<in> set_tree t \<Longrightarrow> map_option links (rb_mem s' a) = map_option links (rb_mem s a)"
  shows "rep s' par t \<longleftrightarrow> rep s par t"
  using assms(2)
proof (induction t arbitrary: par)
  case (Node l a r)
  have m: "map_option links (rb_mem s' a) = map_option links (rb_mem s a)" using Node.prems by simp
  have "rep s' (Some a) l \<longleftrightarrow> rep s (Some a) l" "rep s' (Some a) r \<longleftrightarrow> rep s (Some a) r" using Node by auto
  then show ?case using m
    by (cases "rb_mem s a"; cases "rb_mem s' a") (simp_all add: ptr_cong [OF assms(1)] links_def up_ok_def)
qed simp

lemma ctx_rep_cong:
  assumes "rb_sentinel s' = rb_sentinel s" and "rb_root s' = rb_root s"
    and "\<And>a. a \<in> set (ctx_nodes c) \<Longrightarrow> map_option links (rb_mem s' a) = map_option links (rb_mem s a)"
  shows "ctx_rep s' h c \<longleftrightarrow> ctx_rep s h c"
  using assms(3)
proof (induction c arbitrary: h)
  case (Cons f c)
  obtain d a u where f: "f = (d, a, u)" by (cases f)
  have m: "map_option links (rb_mem s' a) = map_option links (rb_mem s a)" using Cons.prems by (simp add: f)
  have "rep s' (Some a) u \<longleftrightarrow> rep s (Some a) u" using assms(1) Cons.prems by (intro rep_cong) (auto simp: f)
  moreover have "ctx_rep s' a c \<longleftrightarrow> ctx_rep s a c" using Cons by (simp add: f)
  ultimately show ?case using m
    by (cases "rb_mem s a"; cases "rb_mem s' a") (simp_all add: f ptr_cong [OF assms(1)] links_eq [of _ _ d] up_ok_def)
qed (simp add: assms(2))

end
