(* ===== verification/RBTree_Rotate.thy ===== *)
theory RBTree_Rotate
  imports RBTree_Shape
begin

text \<open>
  What the writes of the tree operations do to the tree they represent: a new parent for a subtree, a
  new subtree under the parent of another, and the rotation as a whole, which replaces a subtree by its
  rotated form in any context and changes neither keys nor colours.
\<close>

section \<open>Keys and colours\<close>

definition pay :: "rbtree \<Rightarrow> addr \<Rightarrow> (uint32 \<times> nat) option" where
  "pay s a = map_option (\<lambda>n. (rb_key n, rb_color n)) (rb_mem s a)"

text \<open>The memory of \<open>s\<close> and \<open>s'\<close> differs at most at \<open>A\<close>, and nowhere in keys and colours.\<close>

definition relinked :: "addr set \<Rightarrow> rbtree \<Rightarrow> rbtree \<Rightarrow> bool" where
  "relinked A s s' \<longleftrightarrow> rb_sentinel s' = rb_sentinel s \<and> pay s' = pay s \<and> (\<forall>a. a \<notin> A \<longrightarrow> rb_mem s' a = rb_mem s a)"

lemma relinked_refl [simp]: "relinked A s s"
  by (simp add: relinked_def)

lemma relinked_trans: "relinked A s s1 \<Longrightarrow> relinked B s1 s2 \<Longrightarrow> A \<union> B \<subseteq> C \<Longrightarrow> relinked C s s2"
  unfolding relinked_def by (metis Un_iff subsetD)

lemma relinked_sentinel: "relinked A s s' \<Longrightarrow> rb_sentinel s' = rb_sentinel s"
  by (simp add: relinked_def)

lemma relinked_mem: "relinked A s s' \<Longrightarrow> a \<notin> A \<Longrightarrow> rb_mem s' a = rb_mem s a"
  by (simp add: relinked_def)

lemma relinked_rep: "relinked A s s' \<Longrightarrow> set_tree t \<inter> A = {} \<Longrightarrow> rep s' par t \<longleftrightarrow> rep s par t"
  by (rule rep_cong) (auto simp: relinked_def)

lemma relinked_ptr: "relinked A s s' \<Longrightarrow> ptr s' t = ptr s t"
  by (rule ptr_cong) (simp add: relinked_def)

lemma relinked_ctx: "relinked A s s' \<Longrightarrow> rb_root s' = rb_root s \<Longrightarrow> set (ctx_nodes c) \<inter> A = {} \<Longrightarrow> ctx_rep s' h c \<longleftrightarrow> ctx_rep s h c"
  by (rule ctx_rep_cong) (auto simp: relinked_def)

lemma wr_relinked:
  assumes "rb_mem s a = Some n" and "rb_key (f n) = rb_key n" and "rb_color (f n) = rb_color n"
  shows "\<exists>s'. wr a f s = Some s' \<and> relinked {a} s s' \<and> rb_root s' = rb_root s \<and> rb_mem s' a = Some (f n)"
  using assms by (auto simp: wr_def relinked_def pay_def)

section \<open>Two links\<close>

lemma set_parent:
  assumes "rep s par t" and "rb_sentinel s \<notin> set_tree t" and "distinct (inorder t)"
  shows "\<exists>s'. (if ptr s t \<noteq> rb_sentinel s then wr (ptr s t) (\<lambda>n. n\<lparr>rb_parent := p\<rparr>) s else Some s) = Some s' \<and>
    relinked (set_tree t) s s' \<and> rb_root s' = rb_root s \<and> rep s' (Some p) t"
proof (cases t)
  case (Node l a r)
  obtain n where n: "rb_mem s a = Some n" "rb_left n = ptr s l" "rb_right n = ptr s r" "rep s (Some a) l" "rep s (Some a) r"
    using assms(1) Node by auto
  define s' where "s' = s\<lparr>rb_mem := (rb_mem s)(a \<mapsto> n\<lparr>rb_parent := p\<rparr>)\<rparr>"
  have w: "wr a (\<lambda>n. n\<lparr>rb_parent := p\<rparr>) s = Some s'" by (simp add: wr_def n s'_def)
  have rl: "relinked {a} s s'" using n by (auto simp: relinked_def s'_def pay_def)
  have "a \<notin> set_tree l" "a \<notin> set_tree r" using assms(3) Node by auto
  then have "rep s' (Some a) l" "rep s' (Some a) r" using n relinked_rep [OF rl] by auto
  then have "rep s' (Some p) t" using n relinked_ptr [OF rl] by (simp add: Node s'_def up_ok_def)
  moreover have "relinked (set_tree t) s s'" using rl by (auto simp: relinked_def Node)
  ultimately show ?thesis using w assms(2) Node by (auto simp: s'_def)
qed simp

lemma ctx_root: "ctx_rep s h (f # c) \<Longrightarrow> rb_root s \<in> set (ctx_nodes (f # c))"
proof (induction c arbitrary: h f)
  case (Cons g c)
  obtain d a u where f: "f = (d, a, u)" by (cases f)
  then have "ctx_rep s a (g # c)" using Cons.prems by auto
  from Cons.IH [OF this] show ?case using f by auto
qed (auto split: prod.splits)

lemma ptr_mem: "ptr s t = rb_sentinel s \<or> ptr s t \<in> set_tree t"
  by (cases t) auto

lemma hang:
  assumes c: "ctx_rep s x c" and x: "rb_mem s x = Some n" "up_ok (above c) n" and out: "x \<notin> set (ctx_nodes c)" "x \<noteq> rb_sentinel s"
    and dist: "distinct (ctx_nodes c)"
  shows "\<exists>s'. rotate_hang d x t s = Some s' \<and> relinked (set (ctx_nodes c)) s s' \<and> ctx_rep s' t c"
proof (cases c)
  case Nil
  then show ?thesis using c by (auto simp: rotate_hang_def relinked_def pay_def)
next
  case (Cons f c')
  obtain e a u where f: "f = (e, a, u)" by (cases f)
  obtain m where m: "rb_mem s a = Some m" "kid e m = x" "kid (opp e) m = ptr s u" "up_ok (above c') m" "rep s (Some a) u" "ctx_rep s a c'"
    using c Cons f by auto
  have root: "x \<noteq> rb_root s" using ctx_root [of s x f c'] c out Cons by auto
  have "rb_parent n = a" using x Cons f by (simp add: up_ok_def)
  then have rd: "rd rb_parent x s = Some a" using x by (simp add: rd_def)
  have "ptr s u \<noteq> x" using ptr_mem [of s u] out Cons f by auto
  then have side: "kid d m = x \<longleftrightarrow> d = e" using m by (cases d; cases e) auto
  define s' where "s' = s\<lparr>rb_mem := (rb_mem s)(a \<mapsto> set_kid e t m)\<rparr>"
  have run: "rotate_hang d x t s = Some s'"
    using root rd m side by (cases d; cases e) (auto simp: rotate_hang_def rd_def wr_def s'_def)
  have rl: "relinked {a} s s'" using m by (auto simp: relinked_def s'_def pay_def)
  have a: "a \<notin> set_tree u" "a \<notin> set (ctx_nodes c')" using dist Cons f by auto
  then have "rep s' (Some a) u" "ctx_rep s' a c'" using m relinked_rep [OF rl] relinked_ctx [OF rl] by (auto simp: s'_def)
  then have "ctx_rep s' t c" using m relinked_ptr [OF rl] by (simp add: Cons f s'_def up_ok_def)
  moreover have "relinked (set (ctx_nodes c)) s s'" using rl by (auto simp: relinked_def Cons f)
  ultimately show ?thesis using run by blast
qed

section \<open>Rotation\<close>

lemma rotate_owns:
  assumes own: "owns s (plug c (mk d A x (mk d B y C)))"
  shows "\<exists>s'. ngx_rbtree_rotate d x s = Some s' \<and> owns s' (plug c (mk d (mk d A x B) y C)) \<and>
    relinked (set_tree (plug c (mk d A x (mk d B y C)))) s s'"
proof -
  note o = own [unfolded owns_plug]
  obtain nx ny where nx: "rb_mem s x = Some nx" "kid d nx = ptr s A" "kid (opp d) nx = y" "up_ok (above c) nx"
    and ny: "rb_mem s y = Some ny" "kid d ny = ptr s B" "kid (opp d) ny = ptr s C" "up_ok (Some x) ny"
    and sub: "rep s (Some x) A" "rep s (Some y) B" "rep s (Some y) C"
    using o by (auto simp: rep_mk)
  have ctx: "ctx_rep s x c" using o by simp
  have dis: "x \<noteq> y" "x \<notin> set_tree A" "x \<notin> set_tree B" "x \<notin> set_tree C" "y \<notin> set_tree A" "y \<notin> set_tree B" "y \<notin> set_tree C"
    "set_tree A \<inter> set_tree B = {}" "set_tree B \<inter> set_tree C = {}" "set_tree A \<inter> set_tree C = {}" "distinct (inorder B)"
    "x \<notin> set (ctx_nodes c)" "y \<notin> set (ctx_nodes c)" "set_tree A \<inter> set (ctx_nodes c) = {}" "set_tree B \<inter> set (ctx_nodes c) = {}"
    "set_tree C \<inter> set (ctx_nodes c) = {}" "distinct (ctx_nodes c)" "x \<noteq> rb_sentinel s" "rb_sentinel s \<notin> set_tree B"
    using o by auto
  define s1 where "s1 = s\<lparr>rb_mem := (rb_mem s)(x \<mapsto> set_kid (opp d) (ptr s B) nx)\<rparr>"
  have r1: "relinked {x} s s1" using nx by (auto simp: relinked_def s1_def pay_def)
  have m1: "rb_mem s1 x = Some (set_kid (opp d) (ptr s B) nx)" "rb_mem s1 y = Some ny" "rb_root s1 = rb_root s" "rb_sentinel s1 = rb_sentinel s"
    using dis ny by (auto simp: s1_def)
  obtain s2 where s2: "(if ptr s1 B \<noteq> rb_sentinel s1 then wr (ptr s1 B) (\<lambda>n. n\<lparr>rb_parent := x\<rparr>) s1 else Some s1) = Some s2"
    and r2: "relinked (set_tree B) s1 s2" and B2: "rb_root s2 = rb_root s1" "rep s2 (Some x) B"
    using set_parent [of s1 "Some y" B x] relinked_rep [OF r1, of B] sub(2) dis by (auto simp: m1)
  have ptrB: "ptr s1 B = ptr s B" by (rule relinked_ptr [OF r1])
  have m2: "rb_mem s2 x = rb_mem s1 x" "rb_mem s2 y = rb_mem s1 y" using relinked_mem [OF r2] dis by auto
  define s3 where "s3 = s2\<lparr>rb_mem := (rb_mem s2)(y \<mapsto> ny\<lparr>rb_parent := rb_parent nx\<rparr>)\<rparr>"
  have r3: "relinked {y} s2 s3" using m1 m2 by (auto simp: relinked_def s3_def pay_def)
  have m3: "rb_mem s3 x = rb_mem s1 x" "rb_mem s3 y = Some (ny\<lparr>rb_parent := rb_parent nx\<rparr>)" "rb_root s3 = rb_root s" "rb_sentinel s3 = rb_sentinel s"
    using m1 m2 dis B2 relinked_sentinel [OF r2] by (auto simp: s3_def)
  have "ctx_rep s1 x c" using ctx relinked_ctx [OF r1] dis by (simp add: m1)
  then have "ctx_rep s2 x c" using relinked_ctx [OF r2 B2(1)] dis by (auto simp: inf_commute)
  then have "ctx_rep s3 x c" using relinked_ctx [OF r3] dis by (simp add: s3_def)
  from hang [OF this, of "set_kid (opp d) (ptr s B) nx" d y] obtain s4 where s4: "rotate_hang d x y s3 = Some s4"
    and r4: "relinked (set (ctx_nodes c)) s3 s4" and c4: "ctx_rep s4 y c"
    using m3 m1 nx(4) dis by (auto simp: up_ok_def)
  have m4: "rb_mem s4 x = rb_mem s1 x" "rb_mem s4 y = rb_mem s3 y" using relinked_mem [OF r4] dis m3 by auto
  define s5 where "s5 = s4\<lparr>rb_mem := (rb_mem s4)(y \<mapsto> set_kid d x (ny\<lparr>rb_parent := rb_parent nx\<rparr>))\<rparr>"
  define s6 where "s6 = s5\<lparr>rb_mem := (rb_mem s5)(x \<mapsto> (set_kid (opp d) (ptr s B) nx)\<lparr>rb_parent := y\<rparr>)\<rparr>"
  have "wr x (set_kid (opp d) (ptr s B)) s = Some s1" using nx by (simp add: wr_def s1_def)
  moreover have "wr y (\<lambda>n. n\<lparr>rb_parent := rb_parent nx\<rparr>) s2 = Some s3" using m1 m2 by (simp add: wr_def s3_def)
  moreover have "wr y (set_kid d x) s4 = Some s5" using m3 m4 by (simp add: wr_def s5_def)
  moreover have "wr x (\<lambda>n. n\<lparr>rb_parent := y\<rparr>) s5 = Some s6" using m4 m1 dis(1) by (simp add: wr_def s5_def s6_def)
  ultimately have run: "ngx_rbtree_rotate d x s = Some s6"
    using nx ny m1 s2 [unfolded ptrB] m2 s4 by (simp add: ngx_rbtree_rotate_def rd_def)
  have r6: "relinked {x, y} s4 s6" using m4 m3 m1 dis(1) by (auto simp: relinked_def s6_def s5_def pay_def)
  have m6: "rb_mem s6 x = Some ((set_kid (opp d) (ptr s B) nx)\<lparr>rb_parent := y\<rparr>)"
    "rb_mem s6 y = Some (set_kid d x (ny\<lparr>rb_parent := rb_parent nx\<rparr>))" "rb_root s6 = rb_root s4" using dis(1) by (auto simp: s6_def s5_def)
  have all: "relinked (set_tree (plug c (mk d A x (mk d B y C)))) s s6"
    by (rule relinked_trans [OF relinked_trans [OF relinked_trans [OF relinked_trans [OF r1 r2 subset_refl] r3 subset_refl] r4 subset_refl] r6])
      (auto simp: set_plug)
  have other: "relinked ({x, y} \<union> set_tree B \<union> set (ctx_nodes c)) s s6"
    by (rule relinked_trans [OF relinked_trans [OF relinked_trans [OF relinked_trans [OF r1 r2 subset_refl] r3 subset_refl] r4 subset_refl] r6])
      auto
  have "set_tree A \<inter> ({x, y} \<union> set_tree B \<union> set (ctx_nodes c)) = {}" "set_tree C \<inter> ({x, y} \<union> set_tree B \<union> set (ctx_nodes c)) = {}"
    using dis by auto
  then have "rep s6 (Some x) A" "rep s6 (Some y) C" using sub relinked_rep [OF other] by metis+
  moreover have "rep s6 (Some x) B"
  proof -
    have "rep s3 (Some x) B" using B2 relinked_rep [OF r3] dis by auto
    then have "rep s4 (Some x) B" using relinked_rep [OF r4] dis by auto
    then show ?thesis using relinked_rep [OF r6] dis by auto
  qed
  moreover have "ctx_rep s6 y c" using c4 relinked_ctx [OF r6 m6(3)] dis by auto
  moreover have "ptr s6 t = ptr s t" for t by (rule relinked_ptr [OF all])
  moreover have "rb_mem s6 (rb_sentinel s) = rb_mem s (rb_sentinel s)" "rb_sentinel s6 = rb_sentinel s"
    using relinked_mem [OF all, of "rb_sentinel s"] relinked_sentinel [OF all] o by (auto simp: set_plug)
  ultimately have "owns s6 (plug c (mk d (mk d A x B) y C))"
    using o nx ny m6 by (auto simp: owns_plug rep_mk up_ok_def)
  then show ?thesis using run all by blast
qed

end
