(* ===== verification/RBTree_Insert.thy ===== *)
theory RBTree_Insert
  imports RBTree_Rotate
begin

text \<open>
  The colours of the red-black tree. \<open>rb col t h\<close>: no red node under a red one and \<open>h\<close> black nodes on
  each way down. \<open>cb col c rr h\<close> is the same for the surroundings of a hole that is to be filled with a
  tree of black height \<open>h\<close> whose root is red if \<open>rr\<close>. The insertion keeps them.
\<close>

section \<open>Colours\<close>

fun root_red :: "(addr \<Rightarrow> bool) \<Rightarrow> addr tree \<Rightarrow> bool" where
  "root_red col Leaf = False"
| "root_red col (Node l a r) = col a"

fun rb :: "(addr \<Rightarrow> bool) \<Rightarrow> addr tree \<Rightarrow> nat \<Rightarrow> bool" where
  "rb col Leaf h \<longleftrightarrow> h = 0"
| "rb col (Node l a r) h \<longleftrightarrow> (if col a then rb col l h \<and> rb col r h \<and> \<not> root_red col l \<and> \<not> root_red col r
     else \<exists>k. h = Suc k \<and> rb col l k \<and> rb col r k)"

fun cb :: "(addr \<Rightarrow> bool) \<Rightarrow> addr way_up \<Rightarrow> bool \<Rightarrow> nat \<Rightarrow> bool" where
  "cb col [] rr h \<longleftrightarrow> \<not> rr"
| "cb col ((d, a, u) # c) rr h \<longleftrightarrow> rb col u h \<and>
     (if col a then \<not> rr \<and> \<not> root_red col u \<and> cb col c True h else cb col c False (Suc h))"

lemma root_red_mk [simp]: "root_red col (mk d l a r) = col a"
  by (cases d) auto

lemma rb_mk [simp]: "rb col (mk d l a r) h \<longleftrightarrow> (if col a then rb col l h \<and> rb col r h \<and> \<not> root_red col l \<and> \<not> root_red col r
     else \<exists>k. h = Suc k \<and> rb col l k \<and> rb col r k)"
  by (cases d) auto

lemma cb_false: "cb col c rr h \<Longrightarrow> cb col c False h"
  by (cases c) (auto split: if_splits)

lemma rb_plug: "(\<exists>h. rb col t h \<and> cb col c (root_red col t) h) \<longleftrightarrow> (\<exists>h. rb col (plug c t) h \<and> \<not> root_red col (plug c t))"
proof (induction c arbitrary: t)
  case (Cons f c)
  obtain d a u where f: "f = (d, a, u)" by (cases f)
  have "(\<exists>h. rb col t h \<and> cb col (f # c) (root_red col t) h) \<longleftrightarrow> (\<exists>h. rb col (mk d t a u) h \<and> cb col c (root_red col (mk d t a u)) h)"
    by (auto simp: f)
  from trans [OF this Cons.IH] show ?case by (simp only: f plug.simps)
qed simp

lemma root_red_cong: "(\<And>a. a \<in> set_tree t \<Longrightarrow> col' a = col a) \<Longrightarrow> root_red col' t = root_red col t"
  by (cases t) auto

lemma rb_cong: "(\<And>a. a \<in> set_tree t \<Longrightarrow> col' a = col a) \<Longrightarrow> rb col' t h = rb col t h"
proof (induction t arbitrary: h)
  case (Node l a r)
  have "root_red col' l = root_red col l" "root_red col' r = root_red col r" using Node.prems by (intro root_red_cong; simp)+
  moreover have "rb col' l k = rb col l k" "rb col' r k = rb col r k" for k using Node by auto
  ultimately show ?case using Node.prems [of a] by simp
qed simp

lemma cb_cong: "(\<And>a. a \<in> set (ctx_nodes c) \<Longrightarrow> col' a = col a) \<Longrightarrow> cb col' c rr h = cb col c rr h"
proof (induction c arbitrary: rr h)
  case (Cons f c)
  obtain d a u where f: "f = (d, a, u)" by (cases f)
  have "rb col' u k = rb col u k" "root_red col' u = root_red col u" for k
    using Cons.prems by (auto simp: f intro!: rb_cong root_red_cong)
  moreover have "cb col' c rr k = cb col c rr k" for rr k using Cons by (auto simp: f)
  ultimately show ?case using Cons.prems [of a] by (simp add: f)
qed simp

section \<open>Colours and keys in memory\<close>

definition red :: "rbtree \<Rightarrow> addr \<Rightarrow> bool" where
  "red s a \<longleftrightarrow> (\<exists>p. pay s a = Some p \<and> snd p \<noteq> 0)"

definition rkey :: "rbtree \<Rightarrow> addr \<Rightarrow> uint32" where
  "rkey s a = fst (the (pay s a))"

lemma relinked_pay: "relinked A s s' \<Longrightarrow> red s' = red s \<and> rkey s' = rkey s"
  by (simp add: relinked_def red_def rkey_def fun_eq_iff)

lemma kid_fun [simp]: "kid SLeft = rb_left" "kid SRight = rb_right"
  by auto

lemma owns_mem: "owns s t \<Longrightarrow> a \<in> insert (rb_sentinel s) (set_tree t) \<Longrightarrow> rb_mem s a \<noteq> None"
proof -
  assume own: "owns s t" and a: "a \<in> insert (rb_sentinel s) (set_tree t)"
  have "a \<in> set_tree t \<Longrightarrow> rep s par t \<Longrightarrow> rb_mem s a \<noteq> None" for par t
    by (induction t arbitrary: par) auto
  then show ?thesis using own a by (auto simp: owns_def)
qed

lemma is_red_owns: "owns s t \<Longrightarrow> a \<in> insert (rb_sentinel s) (set_tree t) \<Longrightarrow> ngx_rbt_is_red a s = Some (red s a)"
  using owns_mem [of s t a] by (auto simp: ngx_rbt_is_red_def rd_def red_def pay_def)

lemma red_sentinel: "owns s t \<Longrightarrow> \<not> red s (rb_sentinel s)"
  by (auto simp: owns_def red_def pay_def)

lemma red_ptr: "owns s T \<Longrightarrow> red s (ptr s t) = root_red (red s) t"
  using red_sentinel by (cases t) auto

text \<open>Painting a node.\<close>

definition painted :: "addr set \<Rightarrow> rbtree \<Rightarrow> rbtree \<Rightarrow> bool" where
  "painted A s s' \<longleftrightarrow> rb_sentinel s' = rb_sentinel s \<and> rb_root s' = rb_root s \<and> rkey s' = rkey s \<and>
     (\<forall>a. map_option links (rb_mem s' a) = map_option links (rb_mem s a)) \<and> (\<forall>a. a \<notin> A \<longrightarrow> rb_mem s' a = rb_mem s a)"

lemma paint:
  assumes own: "owns s t" and a: "a \<in> set_tree t"
  shows "\<exists>s'. wr a (\<lambda>n. n\<lparr>rb_color := k\<rparr>) s = Some s' \<and> owns s' t \<and> painted {a} s s' \<and> red s' = (red s)(a := (k \<noteq> 0))"
proof -
  obtain n where n: "rb_mem s a = Some n" using owns_mem [OF own, of a] a by auto
  define s' where "s' = s\<lparr>rb_mem := (rb_mem s)(a \<mapsto> n\<lparr>rb_color := k\<rparr>)\<rparr>"
  have p: "painted {a} s s'" using n by (auto simp: painted_def s'_def rkey_def pay_def links_def)
  have "rep s' par u = rep s par u" for par u by (rule rep_cong) (use p in \<open>auto simp: painted_def\<close>)
  moreover have "ptr s' t = ptr s t" by (rule ptr_cong) (simp add: s'_def)
  moreover have "rb_sentinel s \<noteq> a" using own a by (auto simp: owns_def)
  ultimately have "owns s' t" using own by (auto simp: owns_def s'_def)
  moreover have "red s' = (red s)(a := (k \<noteq> 0))" by (auto simp: red_def pay_def s'_def fun_eq_iff)
  ultimately show ?thesis using p n by (auto simp: wr_def s'_def)
qed

lemma paint_red: "owns s t \<Longrightarrow> a \<in> set_tree t \<Longrightarrow>
    \<exists>s'. ngx_rbt_red a s = Some s' \<and> owns s' t \<and> painted {a} s s' \<and> red s' = (red s)(a := True)"
  using paint [of s t a 1] by (simp add: ngx_rbt_red_def)

lemma paint_black: "owns s t \<Longrightarrow> a \<in> set_tree t \<Longrightarrow>
    \<exists>s'. ngx_rbt_black a s = Some s' \<and> owns s' t \<and> painted {a} s s' \<and> red s' = (red s)(a := False)"
  using paint [of s t a 0] by (simp add: ngx_rbt_black_def)

text \<open>Reading around a subtree.\<close>

lemma owns_reads:
  assumes "owns s (plug c (mk d l a r))"
  shows "rd (kid d) a s = Some (ptr s l)" and "rd (kid (opp d)) a s = Some (ptr s r)"
    and "above c = Some p \<Longrightarrow> rd rb_parent a s = Some p" and "rb_root s = a \<longleftrightarrow> c = []"
proof -
  note o = assms [unfolded owns_plug]
  show "rd (kid d) a s = Some (ptr s l)" "rd (kid (opp d)) a s = Some (ptr s r)" "above c = Some p \<Longrightarrow> rd rb_parent a s = Some p"
    using o by (auto simp: rep_mk rd_def up_ok_def)
  show "rb_root s = a \<longleftrightarrow> c = []"
  proof (cases c)
    case (Cons f c')
    then have "rb_root s \<in> set (ctx_nodes c)" using ctx_root [of s a f c'] o by simp
    then show ?thesis using o Cons by auto
  qed (use o in simp)
qed

text \<open>What the operations leave alone.\<close>

definition within :: "addr set \<Rightarrow> rbtree \<Rightarrow> rbtree \<Rightarrow> bool" where
  "within A s s' \<longleftrightarrow> rb_sentinel s' = rb_sentinel s \<and> rkey s' = rkey s \<and> (\<forall>a. a \<notin> A \<longrightarrow> rb_mem s' a = rb_mem s a)"

lemma within_refl [simp]: "within A s s"
  by (simp add: within_def)

lemma within_trans [trans]: "within A s s1 \<Longrightarrow> within A s1 s2 \<Longrightarrow> within A s s2"
  by (simp add: within_def)

lemma within_relinked: "relinked B s s' \<Longrightarrow> B \<subseteq> A \<Longrightarrow> within A s s'"
  using relinked_pay [of B s s'] by (auto simp: within_def relinked_def)

lemma within_painted: "painted B s s' \<Longrightarrow> B \<subseteq> A \<Longrightarrow> within A s s'"
  by (auto simp: within_def painted_def)

section \<open>The re-balancing of an insertion\<close>

text \<open>The uncle is red: three nodes change their colours.\<close>

lemma insert_step_recolour:
  assumes own: "owns s (plug c (mk e (mk d Z p u) g v))" and Z: "Z = Node l z r" and v: "v = Node vl w vr" and red: "red s w"
  shows "\<exists>s'. insert_step e z s = Some (g, s') \<and> owns s' (plug c (mk e (mk d Z p u) g v)) \<and>
    red s' = (red s)(p := False, w := False, g := True) \<and> within (set_tree (plug c (mk e (mk d Z p u) g v))) s s'"
proof -
  let ?T = "plug c (mk e (mk d Z p u) g v)"
  have z: "rd rb_parent z s = Some p"
    using owns_reads(3) [of s "(d, p, u) # (e, g, v) # c" SLeft l z r p] own by (simp add: Z)
  have p: "rd rb_parent p s = Some g" using owns_reads(3) [of s "(e, g, v) # c" d Z p u g] own by simp
  have g: "rd (kid (opp e)) g s = Some w" using owns_reads(2) [of s c e _ g v] own by (simp add: v)
  have w: "ngx_rbt_is_red w s = Some True" using is_red_owns [OF own, of w] red by (simp add: set_plug v)
  obtain s1 where s1: "ngx_rbt_black p s = Some s1" "owns s1 ?T" "painted {p} s s1" "red s1 = (red s)(p := False)"
    using paint_black [OF own, of p] by (auto simp: set_plug)
  obtain s2 where s2: "ngx_rbt_black w s1 = Some s2" "owns s2 ?T" "painted {w} s1 s2" "red s2 = (red s1)(w := False)"
    using paint_black [OF s1(2), of w] by (auto simp: set_plug v)
  obtain s3 where s3: "ngx_rbt_red g s2 = Some s3" "owns s3 ?T" "painted {g} s2 s3" "red s3 = (red s2)(g := True)"
    using paint_red [OF s2(2), of g] by (auto simp: set_plug)
  have "within (set_tree ?T) s s3"
    by (rule within_trans [OF within_trans [OF within_painted [OF s1(3)] within_painted [OF s2(3)]] within_painted [OF s3(3)]])
      (auto simp: set_plug v)
  then show ?thesis using z p g w s1 s2 s3 by (simp add: insert_step_def)
qed

text \<open>The uncle is black: the grandparent is rotated down, after the parent if the node is on its inner side.\<close>

lemma insert_step_outer:
  assumes own: "owns s (plug c (mk e (mk e X q Y) g v))" and X: "X = Node l z r"
  shows "\<exists>s1 s3 s'. rd rb_parent z s = Some q \<and> ngx_rbt_black q s = Some s1 \<and> rd rb_parent q s1 = Some g \<and>
    ngx_rbt_red g s1 = Some s3 \<and> ngx_rbtree_rotate (opp e) g s3 = Some s' \<and>
    owns s' (plug c (mk e X q (mk e Y g v))) \<and> red s' = (red s)(q := False, g := True) \<and>
    within (set_tree (plug c (mk e (mk e X q Y) g v))) s s'"
proof -
  let ?T = "plug c (mk e (mk e X q Y) g v)"
  have z: "rd rb_parent z s = Some q"
    using owns_reads(3) [of s "(e, q, Y) # (e, g, v) # c" SLeft l z r q] own by (simp add: X)
  obtain s1 where s1: "ngx_rbt_black q s = Some s1" "owns s1 ?T" "painted {q} s s1" "red s1 = (red s)(q := False)"
    using paint_black [OF own, of q] by (auto simp: set_plug)
  have q: "rd rb_parent q s1 = Some g" using owns_reads(3) [of s1 "(e, g, v) # c" e X q Y g] s1(2) by simp
  obtain s3 where s3: "ngx_rbt_red g s1 = Some s3" "owns s3 ?T" "painted {g} s1 s3" "red s3 = (red s1)(g := True)"
    using paint_red [OF s1(2), of g] by (auto simp: set_plug)
  have turn: "mk e (mk e X q Y) g v = mk (opp e) v g (mk (opp e) Y q X)" "mk (opp e) (mk (opp e) v g Y) q X = mk e X q (mk e Y g v)"
    by (simp_all add: mk_opp)
  obtain s' where s': "ngx_rbtree_rotate (opp e) g s3 = Some s'" "owns s' (plug c (mk e X q (mk e Y g v)))"
    "relinked (set_tree ?T) s3 s'"
    using rotate_owns [of s3 c "opp e" v g Y q X] s3(2) unfolding turn by auto
  have "within (set_tree ?T) s s'"
    by (rule within_trans [OF within_trans [OF within_painted [OF s1(3)] within_painted [OF s3(3)]] within_relinked [OF s'(3)]])
      (auto simp: set_plug)
  moreover have "red s' = (red s)(q := False, g := True)" using relinked_pay [OF s'(3)] s1(4) s3(4) by simp
  ultimately show ?thesis using z s1(1) q s3(1) s'(1,2) by blast
qed

lemma insert_step_rotate:
  assumes own: "owns s (plug c (mk e (mk d Z p u) g v))" and Z: "Z = Node l z r" and black: "\<not> root_red (red s) v"
  shows "\<exists>X q Y z' s'. insert_step e z s = Some (z', s') \<and> owns s' (plug c (mk e X q (mk e Y g v))) \<and>
    red s' = (red s)(q := False, g := True) \<and> within (set_tree (plug c (mk e (mk d Z p u) g v))) s s' \<and>
    (\<exists>l r. X = Node l z' r) \<and> inorder (mk e X q Y) = inorder (mk d Z p u) \<and>
    (d = e \<and> X = Z \<and> q = p \<and> Y = u \<or> d = opp e \<and> q = z \<and> (\<exists>B. X = mk e u p B \<and> Z = mk e B z Y))"
proof -
  let ?T = "plug c (mk e (mk d Z p u) g v)"
  have z: "rd rb_parent z s = Some p"
    using owns_reads(3) [of s "(d, p, u) # (e, g, v) # c" SLeft l z r p] own by (simp add: Z)
  have p: "rd rb_parent p s = Some g" using owns_reads(3) [of s "(e, g, v) # c" d Z p u g] own by simp
  have g: "rd (kid (opp e)) g s = Some (ptr s v)" using owns_reads(2) [of s c e _ g v] own by simp
  have "ptr s v \<in> insert (rb_sentinel s) (set_tree ?T)" using ptr_mem [of s v] by (auto simp: set_plug)
  then have v: "ngx_rbt_is_red (ptr s v) s = Some False" using is_red_owns [OF own, of "ptr s v"] red_ptr [OF own, of v] black by simp
  have start: "insert_step e z s = do {
       k \<leftarrow> rd (kid (opp e)) p s;
       (z, s1) \<leftarrow> (if z = k then do { s1 \<leftarrow> ngx_rbtree_rotate e p s; Some (p, s1) } else Some (z, s));
       zp \<leftarrow> rd rb_parent z s1;
       s2 \<leftarrow> ngx_rbt_black zp s1;
       zg \<leftarrow> rd rb_parent zp s2;
       s3 \<leftarrow> ngx_rbt_red zg s2;
       s4 \<leftarrow> ngx_rbtree_rotate (opp e) zg s3;
       Some (z, s4) }"
    using z p g v by (simp add: insert_step_def)
  show ?thesis
  proof (cases "d = e")
    case True
    have "rd (kid (opp e)) p s = Some (ptr s u)" using owns_reads(2) [of s "(e, g, v) # c" d Z p u] own True by simp
    moreover have "ptr s u \<noteq> z" using own ptr_mem [of s u] unfolding owns_plug by (auto simp: Z True)
    ultimately have k: "insert_step e z s = do {
       zp \<leftarrow> rd rb_parent z s; s2 \<leftarrow> ngx_rbt_black zp s; zg \<leftarrow> rd rb_parent zp s2; s3 \<leftarrow> ngx_rbt_red zg s2;
       s4 \<leftarrow> ngx_rbtree_rotate (opp e) zg s3; Some (z, s4) }" using start by auto
    obtain s' where "insert_step e z s = Some (z, s')" "owns s' (plug c (mk e Z p (mk e u g v)))"
      "red s' = (red s)(p := False, g := True)" "within (set_tree ?T) s s'"
      using insert_step_outer [of s c e Z p u g v l z r] own Z k by (auto simp: True)
    then show ?thesis using True Z by (intro exI [of _ Z] exI [of _ p] exI [of _ u] exI [of _ z] exI [of _ s']) auto
  next
    case False
    then have d: "d = opp e" by (cases d; cases e) auto
    have "rd (kid (opp e)) p s = Some z" using owns_reads(1) [of s "(e, g, v) # c" d Z p u] own d by (simp add: Z)
    then have k: "insert_step e z s = do { s1 \<leftarrow> ngx_rbtree_rotate e p s;
       zp \<leftarrow> rd rb_parent p s1; s2 \<leftarrow> ngx_rbt_black zp s1; zg \<leftarrow> rd rb_parent zp s2; s3 \<leftarrow> ngx_rbt_red zg s2;
       s4 \<leftarrow> ngx_rbtree_rotate (opp e) zg s3; Some (p, s4) }" using start by (simp add: bind_assoc)
    obtain B Y where ZB: "Z = mk e B z Y" using Z by (cases e) auto
    have turn: "mk d Z p u = mk e u p (mk e B z Y)" by (simp add: d mk_opp ZB)
    obtain s0 where s0: "ngx_rbtree_rotate e p s = Some s0" "owns s0 (plug c (mk e (mk e (mk e u p B) z Y) g v))" "relinked (set_tree ?T) s s0"
      using rotate_owns [of s "(e, g, v) # c" e u p B z Y] own by (auto simp: turn)
    have same: "set_tree (plug c (mk e (mk e (mk e u p B) z Y) g v)) = set_tree ?T" by (auto simp: set_plug turn)
    obtain l' r' where X: "mk e u p B = Node l' p r'" by (cases e) auto
    obtain s' where s': "insert_step e z s = Some (p, s')" "owns s' (plug c (mk e (mk e u p B) z (mk e Y g v)))"
      "red s' = (red s0)(z := False, g := True)" "within (set_tree ?T) s0 s'"
      using insert_step_outer [of s0 c e "mk e u p B" z Y g v l' p r'] s0 X k unfolding same by auto
    have "within (set_tree ?T) s s'" using within_trans [OF within_relinked [OF s0(3)] s'(4)] by simp
    moreover have "red s' = (red s)(z := False, g := True)" using s'(3) relinked_pay [OF s0(3)] by simp
    moreover have "inorder (mk e (mk e u p B) z Y) = inorder (mk d Z p u)" by (simp add: turn inorder_rotate)
    ultimately show ?thesis using s'(1,2) d ZB X
      by (intro exI [of _ "mk e u p B"] exI [of _ z] exI [of _ Y] exI [of _ p] exI [of _ s']) auto
  qed
qed

text \<open>The whole loop: the tree is balanced, but for the colour of its root.\<close>

definition balanced :: "rbtree \<Rightarrow> addr tree \<Rightarrow> bool" where
  "balanced s t \<longleftrightarrow> \<not> root_red (red s) t \<and> (\<exists>h. rb (red s) t h)"

lemma whiten_root: "\<not> root_red (red s) T \<Longrightarrow> owns s T \<Longrightarrow> (red s)(rb_root s := False) = red s"
  using red_ptr [of s T T] by (auto simp: owns_def fun_eq_iff)

lemma cb_fun_upd: "a \<notin> set (ctx_nodes c) \<Longrightarrow> cb (col(a := x)) c rr h = cb col c rr h"
  by (rule cb_cong) auto

lemma rb_fun_upd: "a \<notin> set_tree t \<Longrightarrow> rb (col(a := x)) t h = rb col t h"
  by (rule rb_cong) auto

lemma root_red_fun_upd: "a \<notin> set_tree t \<Longrightarrow> root_red (col(a := x)) t = root_red col t"
  by (rule root_red_cong) auto

lemmas colour_upd = cb_fun_upd rb_fun_upd root_red_fun_upd

lemma rotated_balanced:
  assumes own: "owns s' (plug c (mk e X q (mk e Y g v)))" and col: "red s' = col(q := False, g := True)"
    and "rb col X h" and "rb col Y h" and "rb col v h" and "\<not> root_red col Y" and "\<not> root_red col v" and "cb col c False (Suc h)"
  shows "balanced s' (plug c (mk e X q (mk e Y g v)))"
proof -
  have dis: "q \<noteq> g" "q \<notin> set_tree X" "g \<notin> set_tree X" "q \<notin> set_tree Y" "g \<notin> set_tree Y" "q \<notin> set_tree v" "g \<notin> set_tree v"
    "q \<notin> set (ctx_nodes c)" "g \<notin> set (ctx_nodes c)"
    using own unfolding owns_plug by auto
  have "rb (red s') (mk e X q (mk e Y g v)) (Suc h)" using assms dis by (simp add: col colour_upd)
  moreover have "cb (red s') c (root_red (red s') (mk e X q (mk e Y g v))) (Suc h)" using assms dis by (simp add: col colour_upd)
  ultimately have "\<exists>h. rb (red s') (plug c (mk e X q (mk e Y g v))) h \<and> \<not> root_red (red s') (plug c (mk e X q (mk e Y g v)))"
    by (intro iffD1 [OF rb_plug]) blast
  then show ?thesis by (auto simp: balanced_def)
qed

lemma fixup_test:
  assumes own: "owns s (plug ((d, p, u) # c) Z)" and Z: "Z = Node l z r"
  shows "z \<noteq> rb_root s" and "rd rb_parent z s = Some p" and "ngx_rbt_is_red p s = Some (red s p)"
proof -
  have "mk SLeft l z r = Z" by (simp add: Z)
  then have "owns s (plug ((d, p, u) # c) (mk SLeft l z r))" using own by simp
  then show "z \<noteq> rb_root s" "rd rb_parent z s = Some p" using owns_reads(3,4) [of s "(d, p, u) # c" SLeft l z r] by auto
  show "ngx_rbt_is_red p s = Some (red s p)" using own by (intro is_red_owns) (auto simp: set_plug)
qed

lemma side_test:
  assumes own: "owns s (plug c (mk e (mk d Z p u) g v))"
  shows "rd rb_left g s = Some (kid SLeft (the (rb_mem s g)))" and "p = kid SLeft (the (rb_mem s g)) \<longleftrightarrow> e = SLeft"
proof -
  have k: "rd (kid e) g s = Some p" "rd (kid (opp e)) g s = Some (ptr s v)"
    using owns_reads(1,2) [of s c e "mk d Z p u" g v] own by auto
  have "ptr s v \<noteq> p" using own ptr_mem [of s v] unfolding owns_plug by auto
  then show "rd rb_left g s = Some (kid SLeft (the (rb_mem s g)))" "p = kid SLeft (the (rb_mem s g)) \<longleftrightarrow> e = SLeft"
    using k by (cases e; auto simp: rd_def)+
qed

lemma insert_fixup_ok:
  assumes "owns s (plug c (Node l z r))" and "red s z" and "rb (red s) (Node l z r) h" and "cb (red s) c False h"
  shows "\<exists>s' T'. insert_fixup z s = Some s' \<and> owns s' T' \<and> inorder T' = inorder (plug c (Node l z r)) \<and>
    within (set_tree (plug c (Node l z r))) s s' \<and> (\<exists>h. rb ((red s')(rb_root s' := False)) T' h)"
  using assms
proof (induction "length c" arbitrary: s c l z r h rule: less_induct)
  case less
  note own = less.prems(1)
  show ?case
  proof (cases c)
    case Nil
    then have root: "rb_root s = z" using own by (simp add: owns_def)
    have "z \<notin> set_tree l" "z \<notin> set_tree r" using own Nil by (auto simp: owns_def)
    then have "rb ((red s)(z := False)) (Node l z r) (Suc h)" using less.prems by (simp add: colour_upd)
    then have "\<exists>h. rb ((red s)(rb_root s := False)) (Node l z r) h" unfolding root by blast
    moreover have "insert_fixup z s = Some s" by (subst insert_fixup.simps) (simp add: root)
    ultimately show ?thesis using own Nil by (intro exI [of _ s] exI [of _ "Node l z r"]) (simp del: rb.simps)
  next
    case (Cons f c1)
    obtain d p u where f: "f = (d, p, u)" by (cases f)
    note test = fixup_test [of s d p u c1 "Node l z r" l z r] 
    show ?thesis
    proof (cases "red s p")
      case False
      have "insert_fixup z s = Some s" using test own Cons f False by (subst insert_fixup.simps) simp
      moreover have "\<exists>h. rb (red s) (plug c (Node l z r)) h \<and> \<not> root_red (red s) (plug c (Node l z r))"
        using less.prems Cons f False by (intro iffD1 [OF rb_plug] exI [of _ h]) simp
      ultimately show ?thesis using own whiten_root [OF _ own] by (intro exI [of _ s] exI [of _ "plug c (Node l z r)"]) auto
    next
      case True
      then obtain e g v c2 where c1: "c1 = (e, g, v) # c2" using less.prems Cons f by (cases c1) auto
      let ?Z = "Node l z r" and ?T = "plug c (Node l z r)"
      have T: "?T = plug c2 (mk e (mk d ?Z p u) g v)" by (simp add: Cons f c1)
      have own2: "owns s (plug c2 (mk e (mk d ?Z p u) g v))" using own T by simp
      have g: "\<not> red s g" and hs: "rb (red s) u h" "\<not> root_red (red s) u" "rb (red s) v h" "cb (red s) c2 False (Suc h)"
        using less.prems True by (auto simp: Cons f c1 split: if_splits)
      have pg: "rd rb_parent p s = Some g" using owns_reads(3) [of s "(e, g, v) # c2" d ?Z p u g] own2 by simp
      have loop: "insert_fixup z s = insert_step e z s \<bind> (\<lambda>(z, s1). insert_fixup z s1)"
        using test own Cons f True pg side_test [OF own2] by (subst insert_fixup.simps) (cases e; simp)
      show ?thesis
      proof (cases "root_red (red s) v")
        case True
        then obtain vl w vr where v: "v = Node vl w vr" by (cases v) auto
        obtain s1 where s1: "insert_step e z s = Some (g, s1)" "owns s1 (plug c2 (mk e (mk d ?Z p u) g v))"
          "red s1 = (red s)(p := False, w := False, g := True)" "within (set_tree ?T) s s1"
          using insert_step_recolour [OF own2 refl v] True v T by auto
        have dis: "p \<noteq> w" "p \<noteq> g" "w \<noteq> g" "p \<notin> set_tree ?Z" "w \<notin> set_tree ?Z" "g \<notin> set_tree ?Z" "p \<notin> set_tree u" "w \<notin> set_tree u"
          "g \<notin> set_tree u" "p \<notin> set_tree vl" "w \<notin> set_tree vl" "g \<notin> set_tree vl" "p \<notin> set_tree vr" "w \<notin> set_tree vr" "g \<notin> set_tree vr"
          "p \<notin> set (ctx_nodes c2)" "w \<notin> set (ctx_nodes c2)" "g \<notin> set (ctx_nodes c2)"
          using own2 unfolding owns_plug by (auto simp: v)
        obtain l' r' where t1: "mk e (mk d ?Z p u) g v = Node l' g r'" by (cases e) auto
        have "rb (red s) v h" "root_red (red s) v" by (rule hs(3), rule True)
        then have "rb (red s) vl h" "rb (red s) vr h" by (auto simp: v)
        moreover have "rb (red s1) ?Z h" using less.prems(3) dis by (simp add: s1(3) colour_upd del: rb.simps)
        ultimately have rb1: "rb (red s1) (mk e (mk d ?Z p u) g v) (Suc h)"
          using dis hs by (simp add: s1(3) v colour_upd del: rb.simps(2)) (simp add: colour_upd)
        have cb1: "cb (red s1) c2 False (Suc h)" using hs(4) dis by (simp add: s1(3) colour_upd)
        have "length c2 < length c" "red s1 g" by (simp_all add: Cons c1 s1(3))
        from less.hyps [OF this(1), of s1 l' g r' "Suc h", unfolded t1 [symmetric], OF s1(2) this(2) rb1 cb1]
        obtain s' T' where "insert_fixup g s1 = Some s'" "owns s' T'" "inorder T' = inorder ?T" "within (set_tree ?T) s1 s'"
          "\<exists>h. rb ((red s')(rb_root s' := False)) T' h"
          unfolding T [symmetric] by blast
        then show ?thesis using loop s1(1) within_trans [OF s1(4)] by (intro exI [of _ s'] exI [of _ T']) auto
      next
        case False
        obtain X q Y z' s1 l' r' where s1: "insert_step e z s = Some (z', s1)" "owns s1 (plug c2 (mk e X q (mk e Y g v)))"
          "red s1 = (red s)(q := False, g := True)" "within (set_tree ?T) s s1" "X = Node l' z' r'"
          "inorder (mk e X q Y) = inorder (mk d ?Z p u)"
          and cases: "d = e \<and> X = ?Z \<and> q = p \<and> Y = u \<or> d = opp e \<and> q = z \<and> (\<exists>B. X = mk e u p B \<and> ?Z = mk e B z Y)"
          using insert_step_rotate [OF own2 refl False] unfolding T by blast
        have "rb (red s) X h \<and> rb (red s) Y h \<and> \<not> root_red (red s) Y"
          using cases
        proof
          assume "d = opp e \<and> q = z \<and> (\<exists>B. X = mk e u p B \<and> ?Z = mk e B z Y)"
          then obtain B where B: "X = mk e u p B" "?Z = mk e B z Y" by blast
          then have "rb (red s) (mk e B z Y) h" using less.prems(3) by simp
          then show ?thesis using less.prems(2) True hs(1,2) by (simp add: B(1))
        qed (use less.prems(3) hs in auto)
        then have bal: "balanced s1 (plug c2 (mk e X q (mk e Y g v)))"
          using rotated_balanced [OF s1(2,3)] hs(3,4) False by blast
        have "\<not> red s1 q" using s1(3) own2 s1(2) unfolding owns_plug by auto
        then have "insert_fixup z' s1 = Some s1"
          using fixup_test [of s1 e q "mk e Y g v" c2 X l' z' r'] s1(2,5) by (subst insert_fixup.simps) simp
        moreover have "inorder (plug c2 (mk e X q (mk e Y g v))) = inorder ?T"
          unfolding T by (rule plug_cong_inorder) (use s1(6) in \<open>cases e; simp\<close>)
        ultimately show ?thesis using loop s1 bal whiten_root [OF _ s1(2)]
          by (intro exI [of _ s1] exI [of _ "plug c2 (mk e X q (mk e Y g v))"]) (auto simp: balanced_def)
      qed
    qed
  qed
qed

end
