(* ===== verification/RBTree_Order.thy ===== *)
theory RBTree_Order
  imports RBTree_Insert
begin

text \<open>
  Where an insertion puts a node, for any comparison that orders the keys in use: the locale
  \<open>key_order\<close>, interpreted for the comparison of numbers and for the comparison of times that wrap
  around, as long as the times lie within half of the range. The insertion as a whole.
\<close>

section \<open>The tree as a list of nodes\<close>

definition rbt :: "rbtree \<Rightarrow> addr list \<Rightarrow> bool" where
  "rbt s xs \<longleftrightarrow> (\<exists>t. owns s t \<and> balanced s t \<and> inorder t = xs)"

fun before :: "'a way_up \<Rightarrow> 'a list" where
  "before [] = []"
| "before ((d, a, u) # c) = (case d of SLeft \<Rightarrow> before c | SRight \<Rightarrow> before c @ inorder u @ [a])"

fun after :: "'a way_up \<Rightarrow> 'a list" where
  "after [] = []"
| "after ((d, a, u) # c) = (case d of SLeft \<Rightarrow> a # inorder u @ after c | SRight \<Rightarrow> after c)"

lemma inorder_plug: "inorder (plug c t) = before c @ inorder t @ after c"
proof (induction c arbitrary: t)
  case (Cons f c)
  obtain d a u where f: "f = (d, a, u)" by (cases f)
  show ?case by (cases d) (simp_all add: f Cons.IH)
qed simp

lemma insert_at_ok:
  assumes own: "owns s (plug ((d, a, u) # c) Leaf)" and new: "node \<notin> set_tree (plug ((d, a, u) # c) Leaf)" "node \<noteq> rb_sentinel s"
    and mem: "rb_mem s node \<noteq> None"
  shows "\<exists>s'. insert_at a d node s = Some s' \<and> owns s' (plug ((d, a, u) # c) (Node Leaf node Leaf)) \<and> red s' = (red s)(node := True) \<and>
    within (insert node (set_tree (plug ((d, a, u) # c) Leaf))) s s'"
proof -
  note o = own [unfolded owns_plug]
  obtain n where n: "rb_mem s a = Some n" "kid (opp d) n = ptr s u" "up_ok (above c) n" "rep s (Some a) u" "ctx_rep s a c" using o by auto
  obtain m where m: "rb_mem s node = Some m" using mem by auto
  have dis: "node \<noteq> a" "a \<notin> set_tree u" "a \<notin> set (ctx_nodes c)" "node \<notin> set_tree u" "node \<notin> set (ctx_nodes c)"
    using o new by (auto simp: set_plug)
  define s' where "s' = s\<lparr>rb_mem := (rb_mem s)(a \<mapsto> set_kid d node n,
    node \<mapsto> m\<lparr>rb_parent := a, rb_left := rb_sentinel s, rb_right := rb_sentinel s, rb_color := 1\<rparr>)\<rparr>"
  have run: "insert_at a d node s = Some s'" using n m dis(1) by (simp add: insert_at_def wr_def ngx_rbt_red_def s'_def)
  have rep: "rep s' par t = rep s par t" if "set_tree t \<inter> {a, node} = {}" for par t
    using that by (intro rep_cong) (auto simp: s'_def)
  have ctx: "ctx_rep s' h c = ctx_rep s h c" for h using dis by (intro ctx_rep_cong) (auto simp: s'_def)
  have ptr: "ptr s' t = ptr s t" for t by (rule ptr_cong) (simp add: s'_def)
  have "rep s' (Some a) u" "ctx_rep s' a c" using n dis by (auto simp: rep ctx)
  moreover have "rb_mem s' a = Some (set_kid d node n)"
    "rb_mem s' node = Some (m\<lparr>rb_parent := a, rb_left := rb_sentinel s, rb_right := rb_sentinel s, rb_color := 1\<rparr>)"
    "rb_sentinel s' = rb_sentinel s" "rb_mem s' (rb_sentinel s) = rb_mem s (rb_sentinel s)"
    using dis(1) o new by (auto simp: s'_def)
  ultimately have "owns s' (plug ((d, a, u) # c) (Node Leaf node Leaf))"
    unfolding owns_plug using o n dis new by (auto simp: ptr up_ok_def)
  moreover have "red s' = (red s)(node := True)" using n m dis(1) by (auto simp: red_def pay_def s'_def fun_eq_iff)
  moreover have "within (insert node (set_tree (plug ((d, a, u) # c) Leaf))) s s'"
    using n m dis(1) by (auto simp: within_def rkey_def pay_def s'_def set_plug fun_eq_iff)
  ultimately show ?thesis using run by blast
qed

section \<open>Orders of keys\<close>

locale key_order =
  fixes lt :: "uint32 \<Rightarrow> uint32 \<Rightarrow> bool" and K :: "uint32 set"
  assumes irrefl: "k \<in> K \<Longrightarrow> \<not> lt k k"
    and trans: "lt k l \<Longrightarrow> lt l m \<Longrightarrow> k \<in> K \<Longrightarrow> l \<in> K \<Longrightarrow> m \<in> K \<Longrightarrow> lt k m"
    and total: "k \<in> K \<Longrightarrow> l \<in> K \<Longrightarrow> k \<noteq> l \<Longrightarrow> lt k l \<or> lt l k"
begin

definition in_order :: "(addr \<Rightarrow> uint32) \<Rightarrow> addr list \<Rightarrow> bool" where
  "in_order key xs \<longleftrightarrow> key ` set xs \<subseteq> K \<and> sorted_wrt (\<lambda>x y. \<not> lt (key y) (key x)) xs"

lemma le_lt: "\<not> lt l k \<Longrightarrow> lt m k \<Longrightarrow> k \<in> K \<Longrightarrow> l \<in> K \<Longrightarrow> m \<in> K \<Longrightarrow> lt m l"
  by (metis trans total)

lemma insert_place_ok:
  assumes "owns s (plug c (Node l a r))" and "in_order (rkey s) (inorder (plug c (Node l a r)))" and "rb_mem s node \<noteq> None"
    and "rkey s node \<in> K" and "\<forall>x\<in>set (before c). \<not> lt (rkey s node) (rkey s x)" and "\<forall>x\<in>set (after c). lt (rkey s node) (rkey s x)"
  shows "\<exists>temp d u c'. insert_place lt a node s = Some (temp, d) \<and> plug c (Node l a r) = plug ((d, temp, u) # c') Leaf \<and>
    (\<forall>x\<in>set (before ((d, temp, u) # c')). \<not> lt (rkey s node) (rkey s x)) \<and>
    (\<forall>x\<in>set (after ((d, temp, u) # c')). lt (rkey s node) (rkey s x))"
  using assms
proof (induction "size (Node l a r)" arbitrary: c l a r rule: less_induct)
  case less
  let ?k = "rkey s node"
  define d where "d = (if lt ?k (rkey s a) then SLeft else SRight)"
  obtain t u where t: "Node l a r = mk d t a u" and tu: "(d = SLeft \<longrightarrow> t = l \<and> u = r) \<and> (d = SRight \<longrightarrow> t = r \<and> u = l)" by (cases d) auto
  have keys: "rkey s ` (set (before c) \<union> set_tree l \<union> {a} \<union> set_tree r \<union> set (after c)) \<subseteq> K"
    and sorted: "\<forall>x\<in>set_tree l. \<not> lt (rkey s a) (rkey s x)" "\<forall>x\<in>set_tree r. \<not> lt (rkey s x) (rkey s a)"
    using less.prems(2) by (auto simp: in_order_def inorder_plug sorted_wrt_append)
  have side: "\<forall>x\<in>set (before ((d, a, u) # c)). \<not> lt ?k (rkey s x)" "\<forall>x\<in>set (after ((d, a, u) # c)). lt ?k (rkey s x)"
  proof -
    have left: "\<forall>x\<in>set_tree l. \<not> lt ?k (rkey s x)" if "\<not> lt ?k (rkey s a)"
    proof
      fix x assume x: "x \<in> set_tree l"
      then have "rkey s x \<in> K" "rkey s a \<in> K" using keys by auto
      then show "\<not> lt ?k (rkey s x)" using sorted(1) x that less.prems(4) le_lt by blast
    qed
    have right: "\<forall>x\<in>set_tree r. lt ?k (rkey s x)" if "lt ?k (rkey s a)"
    proof
      fix x assume x: "x \<in> set_tree r"
      then have "rkey s x \<in> K" "rkey s a \<in> K" using keys by auto
      then show "lt ?k (rkey s x)" using sorted(2) x that less.prems(4) le_lt by blast
    qed
    have "(\<forall>x\<in>set (before ((d, a, u) # c)). \<not> lt ?k (rkey s x)) \<and> (\<forall>x\<in>set (after ((d, a, u) # c)). lt ?k (rkey s x))"
    proof (cases "lt ?k (rkey s a)")
      case True
      then have d: "d = SLeft" by (simp add: d_def)
      then show ?thesis using less.prems(5,6) right [OF True] True tu by auto
    next
      case False
      then have d: "d = SRight" by (simp add: d_def)
      then show ?thesis using less.prems(5,6) left [OF False] False tu by auto
    qed
    then show "\<forall>x\<in>set (before ((d, a, u) # c)). \<not> lt ?k (rkey s x)" "\<forall>x\<in>set (after ((d, a, u) # c)). lt ?k (rkey s x)" by blast+
  qed
  have "rd rb_key node s = Some ?k" using less.prems(3) by (auto simp: rd_def rkey_def pay_def)
  moreover have "rd rb_key a s = Some (rkey s a)" using owns_mem [OF less.prems(1), of a] by (auto simp: rd_def rkey_def pay_def set_plug)
  moreover have "rd (kid d) a s = Some (ptr s t)" using owns_reads(1) [of s c d t a u] less.prems(1) by (simp add: t)
  ultimately have loop: "insert_place lt a node s = (if ptr s t = rb_sentinel s then Some (a, d) else insert_place lt (ptr s t) node s)"
    by (subst insert_place.simps) (simp add: d_def)
  have pl: "plug c (Node l a r) = plug ((d, a, u) # c) t" by (simp add: t)
  show ?case
  proof (cases t)
    case Leaf
    then show ?thesis using loop pl side by (intro exI [of _ a] exI [of _ d] exI [of _ u] exI [of _ c]) simp
  next
    case (Node l' a' r')
    have "a' \<noteq> rb_sentinel s" using less.prems(1) pl Node unfolding owns_def by (auto simp: set_plug)
    then have go: "insert_place lt a node s = insert_place lt a' node s" using loop Node by simp
    have "size (Node l' a' r') < size (Node l a r)" unfolding t Node by simp
    from less.hyps [OF this, of "(d, a, u) # c"] less.prems(1-4) side show ?thesis unfolding go pl Node by simp
  qed
qed

text \<open>The insertion: the node comes after all nodes that do not come after it.\<close>

lemma insert_ok:
  assumes tree: "rbt s xs" and sorted: "in_order (rkey s) xs" and node: "node \<notin> set xs" "node \<noteq> rb_sentinel s" "rb_mem s node \<noteq> None"
    and key: "rkey s node \<in> K" and ins: "\<And>temp node s. ins temp node s = do { (t, d) \<leftarrow> insert_place lt temp node s; insert_at t d node s }"
  shows "\<exists>s' ys zs. ngx_rbtree_insert ins node s = Some s' \<and> rbt s' (ys @ node # zs) \<and> xs = ys @ zs \<and>
    (\<forall>x\<in>set ys. \<not> lt (rkey s node) (rkey s x)) \<and> (\<forall>x\<in>set zs. lt (rkey s node) (rkey s x)) \<and> within (insert node (set xs)) s s' \<and>
    in_order (rkey s') (ys @ node # zs)"
proof -
  obtain T where own: "owns s T" and bal: "balanced s T" and xs: "inorder T = xs" using tree by (auto simp: rbt_def)
  have root: "rb_root s = ptr s T" using own by (simp add: owns_def)
  have set: "set xs = set_tree T" using xs by auto
  have order: "in_order (rkey s') (ys @ node # zs)" if "xs = ys @ zs" "\<forall>x\<in>set ys. \<not> lt (rkey s node) (rkey s x)"
    "\<forall>x\<in>set zs. lt (rkey s node) (rkey s x)" "within (insert node (set xs)) s s'" for s' ys zs
  proof -
    have "rkey s' = rkey s" using that(4) by (simp add: within_def)
    moreover have "\<forall>x\<in>set zs. \<not> lt (rkey s x) (rkey s node)"
    proof
      fix x assume x: "x \<in> set zs"
      then have "rkey s x \<in> K" "lt (rkey s node) (rkey s x)" using that(1,3) sorted by (auto simp: in_order_def)
      then show "\<not> lt (rkey s x) (rkey s node)" using key trans irrefl by blast
    qed
    ultimately show ?thesis using that sorted key by (auto simp: in_order_def sorted_wrt_append)
  qed
  show ?thesis
  proof (cases T)
    case Leaf
    obtain n where n: "rb_mem s node = Some n" using node by auto
    define s' where "s' = s\<lparr>rb_root := node, rb_mem := (rb_mem s)(node \<mapsto>
      n\<lparr>rb_parent := NULL, rb_left := rb_sentinel s, rb_right := rb_sentinel s, rb_color := 0\<rparr>)\<rparr>"
    have run: "ngx_rbtree_insert ins node s = Some s'" using n root Leaf by (simp add: ngx_rbtree_insert_def wr_def s'_def)
    have "owns s' (Node Leaf node Leaf)" using own node by (auto simp: owns_def s'_def up_ok_def)
    moreover have "balanced s' (Node Leaf node Leaf)" by (auto simp: balanced_def red_def pay_def s'_def)
    ultimately have "rbt s' [node]" by (auto simp: rbt_def intro: exI [of _ "Node Leaf node Leaf"])
    moreover have w: "within (insert node (set xs)) s s'" using n by (auto simp: within_def s'_def rkey_def pay_def)
    ultimately show ?thesis using run order [of "[]" "[]" s'] xs Leaf
      by (intro exI [of _ s'] exI [of _ "[]"] exI [of _ "[]"]) simp
  next
    case (Node l a r)
    have "a \<noteq> rb_sentinel s" using own Node by (auto simp: owns_def)
    obtain temp d u c where place: "insert_place lt a node s = Some (temp, d)" and T: "T = plug ((d, temp, u) # c) Leaf"
      and order_c: "\<forall>x\<in>set (before ((d, temp, u) # c)). \<not> lt (rkey s node) (rkey s x)"
        "\<forall>x\<in>set (after ((d, temp, u) # c)). lt (rkey s node) (rkey s x)"
      using insert_place_ok [of s "[]" l a r node] own sorted node key xs Node by auto
    let ?c = "(d, temp, u) # c"
    obtain s1 where s1: "insert_at temp d node s = Some s1" "owns s1 (plug ?c (Node Leaf node Leaf))" "red s1 = (red s)(node := True)"
      "within (insert node (set xs)) s s1"
      using insert_at_ok [of s d temp u c node] own node set T by auto
    have out: "node \<notin> set (ctx_nodes ?c)" using node(1) unfolding set T set_plug by simp
    obtain h where h: "rb (red s) Leaf h" "cb (red s) ?c (root_red (red s) Leaf) h"
      using iffD2 [OF rb_plug, of "red s" ?c Leaf] bal by (auto simp: T balanced_def)
    have "rb (red s1) (Node Leaf node Leaf) h" using h(1) by (simp add: s1(3))
    moreover have "cb (red s1) ?c False h" using h(2) out by (simp add: s1(3) colour_upd del: cb.simps ctx_nodes.simps)
    moreover have "red s1 node" by (simp add: s1(3))
    ultimately obtain s2 T2 where s2: "insert_fixup node s1 = Some s2" "owns s2 T2" "inorder T2 = inorder (plug ?c (Node Leaf node Leaf))"
      "within (set_tree (plug ?c (Node Leaf node Leaf))) s1 s2" "\<exists>h. rb ((red s2)(rb_root s2 := False)) T2 h"
      using insert_fixup_ok [OF s1(2)] by blast
    have in2: "inorder T2 = before ?c @ node # after ?c" using s2(3) by (simp only: inorder_plug) simp
    then have "T2 \<noteq> Leaf" by auto
    then have r2: "rb_root s2 \<in> set_tree T2" using s2(2) by (cases T2) (auto simp: owns_def)
    obtain s3 where s3: "ngx_rbt_black (rb_root s2) s2 = Some s3" "owns s3 T2" "painted {rb_root s2} s2 s3" "red s3 = (red s2)(rb_root s2 := False)"
      using paint_black [OF s2(2) r2] by auto
    have "ptr s3 T2 = rb_root s2" using s3(2,3) by (simp add: owns_def painted_def)
    then have "\<not> root_red (red s3) T2" using s3(4) red_ptr [OF s3(2), of T2] by simp
    then have rbt3: "rbt s3 (before ?c @ node # after ?c)" using s3(2,4) s2(5) in2 by (auto simp: rbt_def balanced_def)
    moreover have run: "ngx_rbtree_insert ins node s = Some s3"
      using root Node \<open>a \<noteq> rb_sentinel s\<close> place s1(1) s2(1) s3(1) by (simp add: ngx_rbtree_insert_def ins)
    moreover have xs': "xs = before ?c @ after ?c" using xs unfolding T inorder_plug by simp
    moreover have w: "within (insert node (set xs)) s s3"
    proof -
      have eq: "set_tree (plug ?c (Node Leaf node Leaf)) = insert node (set xs)" unfolding set T set_plug by auto
      have "rb_root s2 \<in> set (inorder T2)" using r2 by simp
      then have "rb_root s2 \<in> insert node (set xs)" unfolding in2 xs' by auto
      then have "within (insert node (set xs)) s2 s3" using within_painted [OF s3(3)] by auto
      from within_trans [OF within_trans [OF s1(4) s2(4) [unfolded eq]] this] show ?thesis .
    qed
    ultimately show ?thesis using rbt3 order [OF xs' order_c w] order_c
      by (intro exI [of _ s3] exI [of _ "before ?c"] exI [of _ "after ?c"] conjI) assumption+
  qed
qed

end

end
