(* ===== verification/RBTree_Fixup.thy ===== *)
theory RBTree_Fixup
  imports RBTree_Order
begin

text \<open>
  The re-balancing of a deletion. A subtree is short of one black node; each turn of the loop either
  moves the shortage up to the parent or ends it.
\<close>

section \<open>The steps\<close>

lemma mk_near: "mk d (mk d x v y) w u = mk (opp d) u w (mk (opp d) y v x)"
  "mk (opp d) (mk (opp d) u w y) v x = mk d x v (mk d y w u)"
  by (simp_all add: mk_opp)

lemma delete_sibling_red:
  assumes own: "owns s (plug c (mk d t p (mk d u1 w u2)))" and w: "red s w"
  shows "\<exists>s'. delete_sibling d p s = Some (ptr s u1, s') \<and> owns s' (plug c (mk d (mk d t p u1) w u2)) \<and>
    red s' = (red s)(w := False, p := True) \<and> within (set_tree (plug c (mk d t p (mk d u1 w u2)))) s s'"
proof -
  let ?T = "plug c (mk d t p (mk d u1 w u2))"
  have r: "rd (kid (opp d)) p s = Some w" using owns_reads(2) [OF own] by simp
  have red: "ngx_rbt_is_red w s = Some True" using is_red_owns [OF own, of w] w by (simp add: set_plug)
  obtain s1 where s1: "ngx_rbt_black w s = Some s1" "owns s1 ?T" "painted {w} s s1" "red s1 = (red s)(w := False)"
    using paint_black [OF own, of w] by (auto simp: set_plug)
  obtain s2 where s2: "ngx_rbt_red p s1 = Some s2" "owns s2 ?T" "painted {p} s1 s2" "red s2 = (red s1)(p := True)"
    using paint_red [OF s1(2), of p] by (auto simp: set_plug)
  obtain s3 where s3: "ngx_rbtree_rotate d p s2 = Some s3" "owns s3 (plug c (mk d (mk d t p u1) w u2))" "relinked (set_tree ?T) s2 s3"
    using rotate_owns [OF s2(2)] by blast
  have "within (set_tree ?T) s s3"
    by (rule within_trans [OF within_trans [OF within_painted [OF s1(3)] within_painted [OF s2(3)]] within_relinked [OF s3(3)]])
      (auto simp: set_plug)
  moreover have "rd (kid (opp d)) p s3 = Some (ptr s3 u1)" using owns_reads(2) [of s3 "(d, w, u2) # c" d t p u1] s3(2) by simp
  moreover have "ptr s3 u1 = ptr s u1" by (rule ptr_cong) (use calculation(1) in \<open>simp add: within_def\<close>)
  moreover have "red s3 = (red s)(w := False, p := True)" using relinked_pay [OF s3(3)] s1(4) s2(4) by simp
  ultimately show ?thesis using r red s1(1) s2(1) s3(1,2) by (simp add: delete_sibling_def)
qed

lemma delete_sibling_black:
  assumes own: "owns s (plug c (mk d t p (mk d u1 w u2)))" and w: "\<not> red s w"
  shows "delete_sibling d p s = Some (w, s)"
proof -
  have "rd (kid (opp d)) p s = Some w" using owns_reads(2) [OF own] by simp
  moreover have "ngx_rbt_is_red w s = Some False" using is_red_owns [OF own, of w] w by (simp add: set_plug)
  ultimately show ?thesis by (simp add: delete_sibling_def)
qed

lemma delete_far_red:
  assumes own: "owns s (plug c (mk d t p (mk d u1 w u2)))" and far: "root_red (red s) u2"
  shows "delete_far d p w s = Some (w, s)"
proof -
  have "rd (kid (opp d)) w s = Some (ptr s u2)" using owns_reads(2) [of s "(opp d, p, t) # c" d u1 w u2] own by (simp add: mk_opp)
  moreover have "ngx_rbt_is_red (ptr s u2) s = Some True"
    using is_red_owns [OF own, of "ptr s u2"] red_ptr [OF own, of u2] far ptr_mem [of s u2] by (auto simp: set_plug)
  ultimately show ?thesis by (simp add: delete_far_def)
qed

lemma delete_far_black:
  assumes own: "owns s (plug c (mk d t p (mk d (mk d x v y) w u2)))" and far: "\<not> root_red (red s) u2"
  shows "\<exists>s'. delete_far d p w s = Some (v, s') \<and> owns s' (plug c (mk d t p (mk d x v (mk d y w u2)))) \<and>
    red s' = (red s)(v := False, w := True) \<and> within (set_tree (plug c (mk d t p (mk d (mk d x v y) w u2)))) s s'"
proof -
  let ?T = "plug c (mk d t p (mk d (mk d x v y) w u2))"
  have T: "?T = plug ((opp d, p, t) # c) (mk d (mk d x v y) w u2)" by (simp add: mk_opp)
  have "rd (kid (opp d)) w s = Some (ptr s u2)" using owns_reads(2) [OF own [unfolded T]] .
  moreover have "ngx_rbt_is_red (ptr s u2) s = Some False"
    using is_red_owns [OF own, of "ptr s u2"] red_ptr [OF own, of u2] far ptr_mem [of s u2] by (auto simp: set_plug)
  moreover have "rd (kid d) w s = Some v" using owns_reads(1) [OF own [unfolded T]] by simp
  moreover obtain s1 where s1: "ngx_rbt_black v s = Some s1" "owns s1 ?T" "painted {v} s s1" "red s1 = (red s)(v := False)"
    using paint_black [OF own, of v] by (auto simp: set_plug)
  moreover obtain s2 where s2: "ngx_rbt_red w s1 = Some s2" "owns s2 ?T" "painted {w} s1 s2" "red s2 = (red s1)(w := True)"
    using paint_red [OF s1(2), of w] by (auto simp: set_plug)
  moreover have "owns s2 (plug ((opp d, p, t) # c) (mk (opp d) u2 w (mk (opp d) y v x)))" using s2(2) by (simp add: mk_opp)
  from rotate_owns [OF this] obtain s3 where s3: "ngx_rbtree_rotate (opp d) w s2 = Some s3"
    "owns s3 (plug ((opp d, p, t) # c) (mk d x v (mk d y w u2)))" "relinked (set_tree ?T) s2 s3"
    by (auto simp: mk_opp)
  moreover note s3
  moreover have "rd (kid (opp d)) p s3 = Some v" using owns_reads(2) [of s3 c d t p "mk d x v (mk d y w u2)"] s3(2) by (simp add: mk_opp)
  moreover have "within (set_tree ?T) s s3"
    by (rule within_trans [OF within_trans [OF within_painted [OF s1(3)] within_painted [OF s2(3)]] within_relinked [OF s3(3)]])
      (auto simp: set_plug)
  moreover have "red s3 = (red s)(v := False, w := True)" using relinked_pay [OF s3(3)] s1(4) s2(4) by simp
  ultimately show ?thesis by (simp add: delete_far_def mk_opp)
qed

lemma delete_turn_ok:
  assumes own: "owns s (plug c (mk d t p (mk d x v z)))" and z: "z \<noteq> Leaf"
  shows "\<exists>s'. delete_turn d p v s = Some (rb_root s', s') \<and> owns s' (plug c (mk d (mk d t p x) v z)) \<and>
    red s' = (red s)(v := red s p, p := False, ptr s z := False) \<and> within (set_tree (plug c (mk d t p (mk d x v z)))) s s'"
proof -
  let ?T = "plug c (mk d t p (mk d x v z))"
  obtain n where n: "rb_mem s p = Some n" using owns_mem [OF own, of p] by (auto simp: set_plug)
  obtain s1 where s1: "ngx_rbt_copy_color v p s = Some s1" "owns s1 ?T" "painted {v} s s1" "red s1 = (red s)(v := red s p)"
    using paint [OF own, of v "rb_color n"] n by (auto simp: set_plug ngx_rbt_copy_color_def rd_def red_def pay_def)
  obtain s2 where s2: "ngx_rbt_black p s1 = Some s2" "owns s2 ?T" "painted {p} s1 s2" "red s2 = (red s1)(p := False)"
    using paint_black [OF s1(2), of p] by (auto simp: set_plug)
  have "ptr s2 z = ptr s z" by (rule ptr_cong) (use s1(3) s2(3) in \<open>simp add: painted_def\<close>)
  then have far: "rd (kid (opp d)) v s2 = Some (ptr s z)"
    using owns_reads(2) [of s2 "(opp d, p, t) # c" d x v z] s2(2) by (simp add: mk_opp)
  have "ptr s z \<in> set_tree z" using z by (cases z) auto
  then obtain s3 where s3: "ngx_rbt_black (ptr s z) s2 = Some s3" "owns s3 ?T" "painted {ptr s z} s2 s3" "red s3 = (red s2)(ptr s z := False)"
    and zin: "ptr s z \<in> set_tree ?T" using paint_black [OF s2(2), of "ptr s z"] by (auto simp: set_plug)
  obtain s4 where s4: "ngx_rbtree_rotate d p s3 = Some s4" "owns s4 (plug c (mk d (mk d t p x) v z))" "relinked (set_tree ?T) s3 s4"
    using rotate_owns [OF s3(2)] by blast
  have "within (set_tree ?T) s s4"
    by (rule within_trans [OF within_trans [OF within_trans [OF within_painted [OF s1(3)] within_painted [OF s2(3)]]
          within_painted [OF s3(3)]] within_relinked [OF s4(3)]]) (use zin in \<open>auto simp: set_plug\<close>)
  moreover have "red s4 = (red s)(v := red s p, p := False, ptr s z := False)" using relinked_pay [OF s4(3)] s1(4) s2(4) s3(4) by simp
  ultimately show ?thesis using s1(1) s2(1) far s3(1) s4(1,2) by (simp add: delete_turn_def)
qed

text \<open>The two colours of the children of the sibling.\<close>

lemma sibling_test:
  assumes own: "owns s (plug c (mk d t p (mk d u1 w u2)))"
  shows "\<exists>l r. rd rb_left w s = Some l \<and> rd rb_right w s = Some r \<and> (\<exists>x y. ngx_rbt_is_red l s = Some x \<and> ngx_rbt_is_red r s = Some y \<and>
    ((\<not> x \<and> \<not> y) \<longleftrightarrow> \<not> root_red (red s) u1 \<and> \<not> root_red (red s) u2))"
proof -
  have k: "rd (kid d) w s = Some (ptr s u1)" "rd (kid (opp d)) w s = Some (ptr s u2)"
    using owns_reads(1,2) [of s "(opp d, p, t) # c" d u1 w u2] own by (auto simp: mk_opp)
  have "ngx_rbt_is_red (ptr s u) s = Some (root_red (red s) u)" if "u = u1 \<or> u = u2" for u
    using is_red_owns [OF own, of "ptr s u"] red_ptr [OF own, of u] that ptr_mem [of s u] by (auto simp: set_plug)
  then show ?thesis using k by (cases d) auto
qed

section \<open>One turn of the loop\<close>

text \<open>What is left after a turn: a shortage one level up, a red subtree that will be painted black, or a
  balanced tree.\<close>

definition pending :: "rbtree \<Rightarrow> addr way_up \<Rightarrow> addr tree \<Rightarrow> bool" where
  "pending s c t \<longleftrightarrow> \<not> root_red (red s) t \<and> (\<exists>h. rb (red s) t h \<and> cb (red s) c False (Suc h))"

definition reddish :: "rbtree \<Rightarrow> addr way_up \<Rightarrow> addr tree \<Rightarrow> bool" where
  "reddish s c t \<longleftrightarrow> root_red (red s) t \<and> (\<exists>h. rb ((red s)(ptr s t := False)) t h \<and> cb (red s) c False h)"

lemma delete_turn_balanced:
  assumes own: "owns s (plug c (mk d t p (mk d x v z)))" and z: "z \<noteq> Leaf"
    and col: "rb (red s) t h" "rb (red s) x h" "rb ((red s)(ptr s z := False)) z (Suc h)"
    and ctx: "if red s p then cb (red s) c True (Suc h) else cb (red s) c False (Suc (Suc h))"
  shows "\<exists>s'. delete_turn d p v s = Some (rb_root s', s') \<and> owns s' (plug c (mk d (mk d t p x) v z)) \<and>
    balanced s' (plug c (mk d (mk d t p x) v z)) \<and> within (set_tree (plug c (mk d t p (mk d x v z)))) s s'"
proof -
  obtain s' where s': "delete_turn d p v s = Some (rb_root s', s')" "owns s' (plug c (mk d (mk d t p x) v z))"
    "red s' = (red s)(v := red s p, p := False, ptr s z := False)" "within (set_tree (plug c (mk d t p (mk d x v z)))) s s'"
    using delete_turn_ok [OF own z] by blast
  let ?q = "ptr s z"
  have q: "?q \<in> set_tree z" using z by (cases z) auto
  have dis: "v \<noteq> p" "v \<notin> set_tree t" "v \<notin> set_tree x" "v \<notin> set_tree z" "v \<notin> set (ctx_nodes c)" "p \<notin> set_tree t" "p \<notin> set_tree x"
    "p \<notin> set_tree z" "p \<notin> set (ctx_nodes c)" "?q \<notin> set_tree t" "?q \<notin> set_tree x" "?q \<notin> set (ctx_nodes c)" "?q \<noteq> v" "?q \<noteq> p"
    using own q unfolding owns_plug by auto
  have "rb (red s') z (Suc h)"
  proof -
    have "rb (red s') z (Suc h) = rb ((red s)(?q := False)) z (Suc h)" by (rule rb_cong) (use dis in \<open>auto simp: s'(3)\<close>)
    then show ?thesis using col(3) by simp
  qed
  moreover have "\<not> root_red (red s') z" using z by (cases z) (auto simp: s'(3))
  moreover have "rb (red s') t h" "rb (red s') x h" using col dis by (simp_all add: s'(3) colour_upd)
  moreover have "red s' p = False" "red s' v = red s p" using dis by (auto simp: s'(3))
  ultimately have "rb (red s') (mk d (mk d t p x) v z) (if red s p then Suc h else Suc (Suc h))" by simp
  moreover have "cb (red s') c (root_red (red s') (mk d (mk d t p x) v z)) (if red s p then Suc h else Suc (Suc h))"
    using ctx dis \<open>red s' v = red s p\<close> by (auto simp: s'(3) colour_upd)
  ultimately have "\<exists>h. rb (red s') (plug c (mk d (mk d t p x) v z)) h \<and> \<not> root_red (red s') (plug c (mk d (mk d t p x) v z))"
    by (intro iffD1 [OF rb_plug]) blast
  then show ?thesis using s' by (auto simp: balanced_def)
qed

lemma delete_rest_ok:
  assumes own: "owns s (plug c (mk d t p (mk d u1 w u2)))" and w: "\<not> red s w"
    and col: "rb (red s) t h" "\<not> root_red (red s) t" "rb (red s) u1 h" "rb (red s) u2 h"
    and ctx: "if red s p then cb (red s) c True (Suc h) else cb (red s) c False (Suc (Suc h))"
  shows "\<exists>s' c' t'. delete_rest d p w s = Some (ptr s' t', s') \<and> owns s' (plug c' t') \<and> t' \<noteq> Leaf \<and>
    inorder (plug c' t') = inorder (plug c (mk d t p (mk d u1 w u2))) \<and>
    within (set_tree (plug c (mk d t p (mk d u1 w u2)))) s s' \<and>
    (c' = c \<and> \<not> red s p \<and> pending s' c' t' \<or> reddish s' c' t' \<or> c' = [] \<and> balanced s' t')"
proof -
  let ?T = "plug c (mk d t p (mk d u1 w u2))"
  obtain l r x y where test: "rd rb_left w s = Some l" "rd rb_right w s = Some r" "ngx_rbt_is_red l s = Some x" "ngx_rbt_is_red r s = Some y"
    "(\<not> x \<and> \<not> y) \<longleftrightarrow> \<not> root_red (red s) u1 \<and> \<not> root_red (red s) u2" using sibling_test [OF own] by blast
  have dis: "w \<noteq> p" "w \<notin> set_tree t" "w \<notin> set_tree u1" "w \<notin> set_tree u2" "w \<notin> set (ctx_nodes c)" "p \<notin> set_tree t" "p \<notin> set_tree u1"
    "p \<notin> set_tree u2" "p \<notin> set (ctx_nodes c)" using own unfolding owns_plug by auto
  show ?thesis
  proof (cases "\<not> root_red (red s) u1 \<and> \<not> root_red (red s) u2")
    case True
    obtain s1 where s1: "ngx_rbt_red w s = Some s1" "owns s1 ?T" "painted {w} s s1" "red s1 = (red s)(w := True)"
      using paint_red [OF own, of w] by (auto simp: set_plug)
    have run: "delete_rest d p w s = Some (p, s1)" using test True s1(1) by (simp add: delete_rest_def)
    have sub: "rb (red s1) (mk d u1 w u2) h" "rb (red s1) t h" "\<not> root_red (red s1) t" "red s1 p = red s p"
      using col True dis by (simp_all add: s1(4) colour_upd)
    have "if red s p then reddish s1 c (mk d t p (mk d u1 w u2)) else pending s1 c (mk d t p (mk d u1 w u2))"
    proof (cases "red s p")
      case True
      have "rb ((red s1)(p := False)) (mk d u1 w u2) h" "rb ((red s1)(p := False)) t h"
        using sub(1,2) dis by (simp_all add: colour_upd del: rb_mk)
      then have "rb ((red s1)(p := False)) (mk d t p (mk d u1 w u2)) (Suc h)" by simp
      moreover have "cb (red s1) c False (Suc h)" using ctx True dis by (simp add: s1(4) colour_upd cb_false)
      ultimately have "\<exists>h. rb ((red s1)(p := False)) (mk d t p (mk d u1 w u2)) h \<and> cb (red s1) c False h" by blast
      then show ?thesis using True sub(4) by (simp add: reddish_def del: rb_mk)
    next
      case False
      have "rb (red s1) (mk d t p (mk d u1 w u2)) (Suc h)" using sub False by simp
      moreover have "cb (red s1) c False (Suc (Suc h))" using ctx False dis by (simp add: s1(4) colour_upd)
      ultimately have "\<exists>h. rb (red s1) (mk d t p (mk d u1 w u2)) h \<and> cb (red s1) c False (Suc h)" by blast
      then show ?thesis using False sub(4) by (simp add: pending_def del: rb_mk)
    qed
    moreover have "within (set_tree ?T) s s1" by (rule within_painted [OF s1(3)]) (simp add: set_plug)
    ultimately show ?thesis using run s1(2) by (intro exI [of _ s1] exI [of _ c] exI [of _ "mk d t p (mk d u1 w u2)"]) (auto split: if_splits)
  next
    case False
    have go: "delete_rest d p w s = delete_far d p w s \<bind> (\<lambda>(v, s1). delete_turn d p v s1)"
      using test False by (auto simp: delete_rest_def)
    have "\<exists>v s1 x z. delete_far d p w s = Some (v, s1) \<and> owns s1 (plug c (mk d t p (mk d x v z))) \<and> z \<noteq> Leaf \<and>
      inorder (mk d x v z) = inorder (mk d u1 w u2) \<and> within (set_tree ?T) s s1 \<and> rb (red s1) t h \<and> rb (red s1) x h \<and>
      rb ((red s1)(ptr s1 z := False)) z (Suc h) \<and> red s1 p = red s p \<and> (\<forall>rr h. cb (red s1) c rr h = cb (red s) c rr h)"
    proof (cases "root_red (red s) u2")
      case True
      then obtain z1 q z2 where u2: "u2 = Node z1 q z2" by (cases u2) auto
      have "q \<notin> set_tree z1" "q \<notin> set_tree z2" using own unfolding owns_plug by (auto simp: u2)
      then have "rb ((red s)(ptr s u2 := False)) u2 (Suc h)" using col(4) True by (simp add: u2 colour_upd)
      then show ?thesis using delete_far_red [OF own True] own col
        by (intro exI [of _ w] exI [of _ s] exI [of _ u1] exI [of _ u2]) (simp add: u2)
    next
      case far: False
      then have "root_red (red s) u1" using False by simp
      then obtain x v y where u1: "u1 = mk d x v y" and v: "red s v" by (cases u1 rule: mk_cases [where d = d]) auto
      obtain s1 where s1: "delete_far d p w s = Some (v, s1)" "owns s1 (plug c (mk d t p (mk d x v (mk d y w u2))))"
        "red s1 = (red s)(v := False, w := True)" "within (set_tree ?T) s s1"
        using delete_far_black [of s c d t p x v y w u2] own far by (auto simp: u1)
      have vd: "v \<noteq> w" "v \<noteq> p" "v \<notin> set_tree t" "v \<notin> set_tree x" "v \<notin> set_tree y" "v \<notin> set_tree u2" "v \<notin> set (ctx_nodes c)"
        using own unfolding owns_plug by (auto simp: u1)
      have xy: "rb (red s) x h" "rb (red s) y h" "w \<notin> set_tree x" "w \<notin> set_tree y" using col(3) v dis(3) by (auto simp: u1)
      have "rb ((red s1)(w := False)) (mk d y w u2) (Suc h)" using xy col(4) vd dis far by (simp add: s1(3) colour_upd)
      moreover have "inorder (mk d x v (mk d y w u2)) = inorder (mk d u1 w u2)" by (simp add: u1 inorder_rotate)
      moreover have "rb (red s1) t h" "rb (red s1) x h" "red s1 p = red s p" "\<forall>rr h. cb (red s1) c rr h = cb (red s) c rr h"
        using col xy vd dis by (simp_all add: s1(3) colour_upd)
      ultimately show ?thesis using s1(1,2,4)
        by (intro exI [of _ v] exI [of _ s1] exI [of _ x] exI [of _ "mk d y w u2"]) simp
    qed
    then obtain v s1 x z where far: "delete_far d p w s = Some (v, s1)" "owns s1 (plug c (mk d t p (mk d x v z)))" "z \<noteq> Leaf"
      "inorder (mk d x v z) = inorder (mk d u1 w u2)" "within (set_tree ?T) s s1" "rb (red s1) t h" "rb (red s1) x h"
      "rb ((red s1)(ptr s1 z := False)) z (Suc h)" "red s1 p = red s p" "\<forall>rr h. cb (red s1) c rr h = cb (red s) c rr h" by blast
    let ?T1 = "plug c (mk d (mk d t p x) v z)"
    obtain s2 where s2: "delete_turn d p v s1 = Some (rb_root s2, s2)" "owns s2 ?T1" "balanced s2 ?T1"
      "within (set_tree (plug c (mk d t p (mk d x v z)))) s1 s2"
      using delete_turn_balanced [OF far(2,3,6,7,8)] ctx far(9,10) by auto
    have in1: "inorder (plug c (mk d t p (mk d x v z))) = inorder ?T" by (rule plug_cong_inorder) (use far(4) in \<open>cases d; simp\<close>)
    then have "set_tree (plug c (mk d t p (mk d x v z))) = set_tree ?T" by (metis set_inorder)
    then have "within (set_tree ?T) s s2" using within_trans [OF far(5)] s2(4) by simp
    moreover have "inorder ?T1 = inorder ?T" using in1 plug_cong_inorder [OF inorder_rotate] by metis
    moreover have "rb_root s2 = ptr s2 ?T1" using s2(2) by (simp add: owns_def)
    ultimately show ?thesis using go far(1) s2(1,2,3) by (intro exI [of _ s2] exI [of _ "[]"] exI [of _ ?T1]) simp
  qed
qed

lemma delete_step_ok:
  assumes own: "owns s (plug c (mk d t p u))" and par: "rd rb_parent (ptr s t) s = Some p" and pend: "pending s ((d, p, u) # c) t"
  shows "\<exists>s' c' t'. delete_step d (ptr s t) s = Some (ptr s' t', s') \<and> owns s' (plug c' t') \<and> t' \<noteq> Leaf \<and>
    inorder (plug c' t') = inorder (plug c (mk d t p u)) \<and> within (set_tree (plug c (mk d t p u))) s s' \<and>
    (c' = c \<and> pending s' c' t' \<or> reddish s' c' t' \<or> c' = [] \<and> balanced s' t')"
proof -
  let ?T = "plug c (mk d t p u)"
  obtain h where col: "rb (red s) t h" "\<not> root_red (red s) t" "rb (red s) u (Suc h)"
    and ctx: "if red s p then \<not> root_red (red s) u \<and> cb (red s) c True (Suc h) else cb (red s) c False (Suc (Suc h))"
    using pend by (auto simp: pending_def split: if_splits)
  obtain u1 w u2 where u: "u = mk d u1 w u2" using col(3) by (cases u rule: mk_cases [where d = d]) auto
  show ?thesis
  proof (cases "red s w")
    case False
    have run: "delete_step d (ptr s t) s = delete_rest d p w s"
      using par delete_sibling_black [of s c d t p u1 w u2] own False by (simp add: delete_step_def u)
    have ctx': "if red s p then cb (red s) c True (Suc h) else cb (red s) c False (Suc (Suc h))" using ctx by simp
    have sub: "rb (red s) u1 h" "rb (red s) u2 h" using col(3) False by (auto simp: u)
    from delete_rest_ok [OF own [unfolded u] False col(1,2) sub ctx'] show ?thesis unfolding run u by blast
  next
    case True
    have p: "\<not> red s p" using ctx True by (auto simp: u split: if_splits)
    have sub: "rb (red s) u1 (Suc h)" "rb (red s) u2 (Suc h)" "\<not> root_red (red s) u1" using col(3) True by (auto simp: u)
    obtain s1 where s1: "delete_sibling d p s = Some (ptr s u1, s1)" "owns s1 (plug ((d, w, u2) # c) (mk d t p u1))"
      "red s1 = (red s)(w := False, p := True)" "within (set_tree ?T) s s1"
      using delete_sibling_red [of s c d t p u1 w u2] own True by (auto simp: u)
    obtain v1 x v2 where u1: "u1 = mk d v1 x v2" using sub(1) by (cases u1 rule: mk_cases [where d = d]) auto
    have run: "delete_step d (ptr s t) s = delete_rest d p x s1" using par s1(1) by (simp add: delete_step_def u1)
    have dis: "w \<noteq> p" "w \<notin> set_tree t" "w \<notin> set_tree v1" "w \<notin> set_tree v2" "w \<notin> set_tree u2" "w \<notin> set (ctx_nodes c)" "p \<notin> set_tree t"
      "p \<notin> set_tree v1" "p \<notin> set_tree v2" "p \<notin> set_tree u2" "p \<notin> set (ctx_nodes c)" "x \<noteq> w" "x \<noteq> p"
      using own unfolding owns_plug by (auto simp: u u1)
    have "\<not> red s1 x" using sub(3) dis by (simp add: u1 s1(3))
    moreover have "rb (red s1) t h" "\<not> root_red (red s1) t" using col dis by (simp_all add: s1(3) colour_upd)
    moreover have "rb (red s1) v1 h" "rb (red s1) v2 h" using sub(1,3) dis by (simp_all add: s1(3) u1 colour_upd)
    moreover have "red s1 p" by (simp add: s1(3))
    moreover have "cb (red s1) ((d, w, u2) # c) True (Suc h)" using sub(2) ctx p dis by (simp add: s1(3) colour_upd)
    ultimately obtain s2 c' t' where s2: "delete_rest d p x s1 = Some (ptr s2 t', s2)" "owns s2 (plug c' t')" "t' \<noteq> Leaf"
      "inorder (plug c' t') = inorder (plug ((d, w, u2) # c) (mk d t p u1))"
      "within (set_tree (plug ((d, w, u2) # c) (mk d t p u1))) s1 s2" "reddish s2 c' t' \<or> c' = [] \<and> balanced s2 t'"
      using delete_rest_ok [OF s1(2) [unfolded u1], of h] unfolding u1 by auto
    have same: "inorder (plug ((d, w, u2) # c) (mk d t p u1)) = inorder ?T"
      by (simp add: u plug_cong_inorder [OF inorder_rotate])
    then have "set_tree (plug ((d, w, u2) # c) (mk d t p u1)) = set_tree ?T" by (metis set_inorder)
    then have "within (set_tree ?T) s s2" using within_trans [OF s1(4)] s2(5) by simp
    then show ?thesis using run s2 same by (intro exI [of _ s2] exI [of _ c'] exI [of _ t']) auto
  qed
qed

section \<open>The loop\<close>

lemma side_test':
  assumes own: "owns s (plug c (mk d t p u))" and u: "u \<noteq> Leaf"
  shows "\<exists>l. rd rb_left p s = Some l \<and> (ptr s t = l \<longleftrightarrow> d = SLeft)"
proof -
  have k: "rd (kid d) p s = Some (ptr s t)" "rd (kid (opp d)) p s = Some (ptr s u)" using owns_reads(1,2) [OF own] by auto
  have "ptr s u \<in> set_tree u" using u by (cases u) auto
  then have "ptr s u \<noteq> ptr s t" using own ptr_mem [of s t] unfolding owns_plug by auto
  then show ?thesis using k by (cases d) auto
qed

text \<open>After the loop the node it stopped at is painted black.\<close>

definition settles :: "addr \<Rightarrow> rbtree \<Rightarrow> addr tree \<Rightarrow> bool" where
  "settles temp s T \<longleftrightarrow> (\<exists>t' s' s'' T'. delete_fixup temp s = Some (t', s') \<and> ngx_rbt_black t' s' = Some s'' \<and> owns s'' T' \<and>
     balanced s'' T' \<and> inorder T' = inorder T \<and> within (set_tree T) s s'')"

lemma paint_settles:
  assumes stop: "delete_fixup temp s = Some (ptr s' t, s')" and own: "owns s' (plug c t)" and t: "t \<noteq> Leaf"
    and same: "inorder (plug c t) = inorder T" and w: "within (set_tree T) s s'"
    and col: "\<exists>h. rb ((red s')(ptr s' t := False)) t h \<and> cb (red s') c False h"
  shows "settles temp s T"
proof -
  let ?a = "ptr s' t"
  have a: "?a \<in> set_tree t" using t by (cases t) auto
  obtain s'' where s'': "ngx_rbt_black ?a s' = Some s''" "owns s'' (plug c t)" "painted {?a} s' s''" "red s'' = (red s')(?a := False)"
    using paint_black [OF own, of ?a] a by (auto simp: set_plug)
  have out: "?a \<notin> set (ctx_nodes c)" using own a unfolding owns_plug by auto
  have "\<not> root_red (red s'') t" using t by (cases t) (auto simp: s''(4))
  then have "\<exists>h. rb (red s'') t h \<and> cb (red s'') c (root_red (red s'') t) h" using col out by (simp add: s''(4) colour_upd)
  then have "balanced s'' (plug c t)" using rb_plug [of "red s''" t c] by (auto simp: balanced_def)
  moreover have "?a \<in> set_tree T" using a same set_plug [of c t] by (metis Un_iff set_inorder)
  then have "within (set_tree T) s s''" using within_trans [OF w within_painted [OF s''(3)]] by simp
  ultimately show ?thesis using stop s''(1,2) same unfolding settles_def by blast
qed

lemma reddish_stops:
  assumes own: "owns s (plug c t)" and h: "reddish s c t"
  shows "delete_fixup (ptr s t) s = Some (ptr s t, s)"
proof (cases "ptr s t = rb_root s")
  case False
  have "ngx_rbt_is_red (ptr s t) s = Some True"
    using is_red_owns [OF own, of "ptr s t"] red_ptr [OF own, of t] h ptr_mem [of s t] by (auto simp: reddish_def set_plug)
  then show ?thesis using False by (subst delete_fixup.simps) simp
qed (subst delete_fixup.simps, simp)

lemma reddish_settles: "owns s (plug c t) \<Longrightarrow> reddish s c t \<Longrightarrow> settles (ptr s t) s (plug c t)"
  using paint_settles [of "ptr s t" s s t c "plug c t"] reddish_stops [of s c t] by (cases t) (simp_all add: reddish_def)

lemma delete_fixup_ok:
  assumes "owns s (plug c t)" and "pending s c t" and "t \<noteq> Leaf \<or> c \<noteq> []"
    and "\<forall>p. above c = Some p \<longrightarrow> rd rb_parent (ptr s t) s = Some p"
  shows "settles (ptr s t) s (plug c t)"
  using assms
proof (induction "length c" arbitrary: s c t rule: less_induct)
  case less
  note own = less.prems(1)
  show ?case
  proof (cases c)
    case Nil
    have t: "t \<noteq> Leaf" using less.prems(3) Nil by simp
    have "delete_fixup (ptr s t) s = Some (ptr s t, s)" using own Nil by (subst delete_fixup.simps) (simp add: owns_def)
    moreover have "(red s)(ptr s t := False) = red s" using less.prems(2) red_ptr [OF own, of t] by (auto simp: pending_def fun_eq_iff)
    ultimately show ?thesis using paint_settles [of "ptr s t" s s t c "plug c t"] own t less.prems(2) Nil by (auto simp: pending_def)
  next
    case (Cons f c1)
    obtain d p u where f: "f = (d, p, u)" by (cases f)
    have own': "owns s (plug c1 (mk d t p u))" using own by (simp add: Cons f)
    have par: "rd rb_parent (ptr s t) s = Some p" using less.prems(4) by (simp add: Cons f)
    have u: "u \<noteq> Leaf" using less.prems(2) by (cases u) (auto simp: pending_def Cons f)
    obtain l where l: "rd rb_left p s = Some l" "ptr s t = l \<longleftrightarrow> d = SLeft" using side_test' [OF own' u] by blast
    have "ptr s t \<noteq> rb_root s" 
    proof -
      have "rb_root s \<in> set (ctx_nodes c)" using ctx_root [of s "ptr s t" f c1] own unfolding owns_plug by (simp add: Cons)
      then show ?thesis using own ptr_mem [of s t] unfolding owns_plug by auto
    qed
    moreover have "ngx_rbt_is_red (ptr s t) s = Some False"
      using is_red_owns [OF own, of "ptr s t"] red_ptr [OF own, of t] less.prems(2) ptr_mem [of s t] by (auto simp: pending_def set_plug)
    ultimately have loop: "delete_fixup (ptr s t) s = delete_step d (ptr s t) s \<bind> (\<lambda>(t, s1). delete_fixup t s1)"
      using par l by (subst delete_fixup.simps) (cases d; simp)
    have pend: "pending s ((d, p, u) # c1) t" using less.prems(2) by (simp add: Cons f)
    obtain s1 c' t' where s1: "delete_step d (ptr s t) s = Some (ptr s1 t', s1)" "owns s1 (plug c' t')" "t' \<noteq> Leaf"
      "inorder (plug c' t') = inorder (plug c t)" "within (set_tree (plug c t)) s s1"
      and cases: "c' = c1 \<and> pending s1 c' t' \<or> reddish s1 c' t' \<or> c' = [] \<and> balanced s1 t'"
      using delete_step_ok [OF own' par pend] by (auto simp: Cons f)
    obtain l1 a1 r1 where t': "t' = mk SLeft l1 a1 r1" using s1(3) by (cases t') auto
    have go: "delete_fixup (ptr s t) s = delete_fixup (ptr s1 t') s1" using loop s1(1) by simp
    from cases show ?thesis
    proof (elim disjE)
      assume h: "c' = c1 \<and> pending s1 c' t'"
      have "\<forall>q. above c1 = Some q \<longrightarrow> rd rb_parent (ptr s1 t') s1 = Some q"
        using owns_reads(3) [of s1 c1 SLeft l1 a1 r1] s1(2) h by (simp add: t')
      moreover have "pending s1 c1 t'" "owns s1 (plug c1 t')" using h s1(2) by auto
      ultimately have "settles (ptr s1 t') s1 (plug c1 t')" using less.hyps [of c1 s1 t'] s1(3) by (simp add: Cons)
      then obtain t2 s2 s3 T3 where e: "delete_fixup (ptr s1 t') s1 = Some (t2, s2)" "ngx_rbt_black t2 s2 = Some s3" "owns s3 T3"
        "balanced s3 T3" "inorder T3 = inorder (plug c t)" "within (set_tree (plug c1 t')) s1 s3"
        using s1(4) h unfolding settles_def by auto
      have "set_tree (plug c1 t') = set_tree (plug c t)" using s1(4) h by (metis set_inorder)
      then have "within (set_tree (plug c t)) s s3" using within_trans [OF s1(5)] e(6) by simp
      then show ?thesis using go e(1-5) unfolding settles_def by auto
    next
      assume h: "reddish s1 c' t'"
      have "delete_fixup (ptr s1 t') s1 = Some (ptr s1 t', s1)" by (rule reddish_stops [OF s1(2) h])
      then show ?thesis using paint_settles [of "ptr s t" s s1 t' c' "plug c t"] go s1 h by (auto simp: reddish_def)
    next
      assume h: "c' = [] \<and> balanced s1 t'"
      have "delete_fixup (ptr s1 t') s1 = Some (ptr s1 t', s1)" using s1(2) h by (subst delete_fixup.simps) (simp add: owns_def)
      moreover have "(red s1)(ptr s1 t' := False) = red s1" using h red_ptr [OF s1(2), of t'] by (auto simp: balanced_def fun_eq_iff)
      ultimately show ?thesis using paint_settles [of "ptr s t" s s1 t' c' "plug c t"] go s1 h by (auto simp: balanced_def)
    qed
  qed
qed

end
