(* ===== verification/RBTree_Delete.thy ===== *)
theory RBTree_Delete
  imports RBTree_Fixup
begin

text \<open>
  Deletion: the node, or its successor, is taken out of its place and its only subtree put there; the
  successor then takes the place of the node; and what is missing is made good by the re-balancing.
\<close>

section \<open>The least node\<close>

lemma plug_append: "plug (c1 @ c2) t = plug c2 (plug c1 t)"
  by (induction c1 t rule: plug.induct) auto

lemma ctx_nodes_append [simp]: "ctx_nodes (c1 @ c2) = ctx_nodes c1 @ ctx_nodes c2"
  by (induction c1 rule: ctx_nodes.induct) auto

lemma before_left: "\<forall>f\<in>set c. fst f = SLeft \<Longrightarrow> before c = []"
  by (induction c rule: before.induct) auto

lemma min_ok:
  assumes "rep s par t" and "t \<noteq> Leaf" and "rb_sentinel s \<notin> set_tree t"
  shows "\<exists>c m x. ngx_rbtree_min (ptr s t) s = Some m \<and> t = plug c (Node Leaf m x) \<and> (\<forall>f\<in>set c. fst f = SLeft)"
  using assms
proof (induction t arbitrary: par)
  case (Node l a r)
  have step: "ngx_rbtree_min a s = (if l = Leaf then Some a else ngx_rbtree_min (ptr s l) s)"
  proof -
    have "ptr s l = rb_sentinel s \<longleftrightarrow> l = Leaf" using Node.prems(3) by (cases l) auto
    moreover have "rd rb_left a s = Some (ptr s l)" using Node.prems(1) by (auto simp: rd_def)
    ultimately show ?thesis by (subst ngx_rbtree_min.simps) simp
  qed
  show ?case
  proof (cases "l = Leaf")
    case True
    then show ?thesis using step by (intro exI [of _ "[]"] exI [of _ a] exI [of _ r]) simp
  next
    case False
    then obtain c m x where "ngx_rbtree_min (ptr s l) s = Some m" "l = plug c (Node Leaf m x)" "\<forall>f\<in>set c. fst f = SLeft"
      using Node.IH(1) [of "Some a"] Node.prems by auto
    then show ?thesis using step False by (intro exI [of _ "c @ [(SLeft, a, r)]"] exI [of _ m] exI [of _ x]) (auto simp: plug_append)
  qed
qed simp

section \<open>Taking a node out of its place\<close>

text \<open>\<open>subst\<close> with one empty side is replaced by its other side \<open>x\<close>; \<open>p\<close> is the new parent of \<open>x\<close>.\<close>

definition unlink :: "addr \<Rightarrow> addr \<Rightarrow> addr \<Rightarrow> rbtree \<Rightarrow> rbtree option" where
  "unlink subst temp p s = do {
     s1 \<leftarrow> rotate_hang SLeft subst temp s;
     wr temp (\<lambda>m. m\<lparr>rb_parent := p\<rparr>) s1 }"

lemma unlink_ok:
  assumes own: "owns s (plug c (mk d Leaf m x))"
  shows "\<exists>s'. unlink m (ptr s x) p s = Some s' \<and> relinked (set (ctx_nodes c) \<union> insert (rb_sentinel s) (set_tree x)) s s' \<and>
    rep s' None x \<and> (above c = Some p \<longrightarrow> rep s' (Some p) x) \<and> ctx_rep s' (ptr s x) c \<and> rd rb_parent (ptr s x) s' = Some p"
proof -
  note o = own [unfolded owns_plug]
  obtain n where n: "rb_mem s m = Some n" "up_ok (above c) n" and x: "rep s (Some m) x" using o by (auto simp: rep_mk)
  have ctx: "ctx_rep s m c" using o by simp
  obtain s1 where s1: "rotate_hang SLeft m (ptr s x) s = Some s1" "relinked (set (ctx_nodes c)) s s1" "ctx_rep s1 (ptr s x) c"
    using hang [OF ctx n, of SLeft "ptr s x"] o by auto
  have dis: "set_tree x \<inter> set (ctx_nodes c) = {}" "rb_sentinel s \<notin> set (ctx_nodes c)" "distinct (inorder x)" "rb_sentinel s \<notin> set_tree x"
    using o by auto
  have x1: "rep s1 (Some m) x" using x relinked_rep [OF s1(2)] dis by simp
  have "\<exists>k. rb_mem s1 (ptr s x) = Some k"
  proof (cases x)
    case Leaf
    then show ?thesis using relinked_mem [OF s1(2) dis(2)] o by auto
  qed (use x1 in auto)
  then obtain k where k: "rb_mem s1 (ptr s x) = Some k" by blast
  obtain s2 where s2: "wr (ptr s x) (\<lambda>m. m\<lparr>rb_parent := p\<rparr>) s1 = Some s2" "relinked {ptr s x} s1 s2" "rb_root s2 = rb_root s1"
    "rb_mem s2 (ptr s x) = Some (k\<lparr>rb_parent := p\<rparr>)" using wr_relinked [OF k, of "\<lambda>m. m\<lparr>rb_parent := p\<rparr>"] by auto
  have inx: "ptr s x \<in> insert (rb_sentinel s) (set_tree x)" using ptr_mem [of s x] by auto
  have rl: "relinked (set (ctx_nodes c) \<union> insert (rb_sentinel s) (set_tree x)) s s2"
    by (rule relinked_trans [OF s1(2) s2(2)]) (use inx in auto)
  have "rep s2 (Some p) x"
  proof (cases x)
    case (Node l a r)
    have "a \<notin> set_tree l" "a \<notin> set_tree r" using dis(3) Node by auto
    then have "rep s2 (Some a) l" "rep s2 (Some a) r" using x1 relinked_rep [OF s2(2)] Node by auto
    then show ?thesis using x1 s2(4) k relinked_ptr [OF s2(2)] by (auto simp: Node up_ok_def)
  qed simp
  moreover from this have "rep s2 None x" by (cases x) (auto simp: up_ok_def)
  moreover have "ctx_rep s2 (ptr s x) c" using s1(3) relinked_ctx [OF s2(2,3)] inx dis by auto
  ultimately show ?thesis using s1(1) s2(1,4) rl by (auto simp: unlink_def rd_def)
qed

section \<open>Giving a place away\<close>

lemma set_kid_fun: "set_kid SLeft a = (\<lambda>m. m\<lparr>rb_left := a\<rparr>)" "set_kid SRight a = (\<lambda>m. m\<lparr>rb_right := a\<rparr>)"
  by auto

lemma take_place_ok:
  assumes n: "rb_mem s node = Some n" "rb_left n = ptr s l" "rb_right n = ptr s r" "up_ok (above c) n"
    and sub: "rep s p1 l" "rep s p2 r" and ctx: "ctx_rep s node c" and m: "rb_mem s m \<noteq> None"
    and dis: "node \<noteq> m" "node \<noteq> rb_sentinel s" "node \<notin> set_tree l" "node \<notin> set_tree r" "node \<notin> set (ctx_nodes c)" "m \<notin> set_tree l" "m \<notin> set_tree r" "m \<notin> set (ctx_nodes c)"
      "set_tree l \<inter> set_tree r = {}" "set_tree l \<inter> set (ctx_nodes c) = {}" "set_tree r \<inter> set (ctx_nodes c) = {}"
      "distinct (inorder l)" "distinct (inorder r)" "distinct (ctx_nodes c)" "rb_sentinel s \<notin> set_tree l" "rb_sentinel s \<notin> set_tree r"
  shows "\<exists>s'. take_place node m s = Some s' \<and> rep s' (above c) (Node l m r) \<and> ctx_rep s' m c \<and> rb_sentinel s' = rb_sentinel s \<and>
    rkey s' = rkey s \<and> red s' = (red s)(m := red s node) \<and>
    (\<forall>a. a \<notin> insert m (set_tree l \<union> set_tree r \<union> set (ctx_nodes c)) \<longrightarrow> rb_mem s' a = rb_mem s a)"
proof -
  obtain k where k: "rb_mem s m = Some k" using m by auto
  define k1 where "k1 = k\<lparr>rb_left := rb_left n, rb_right := rb_right n, rb_parent := rb_parent n, rb_color := rb_color n\<rparr>"
  define s1 where "s1 = s\<lparr>rb_mem := (rb_mem s)(m \<mapsto> k1)\<rparr>"
  have w1: "wr m (\<lambda>m. m\<lparr>rb_left := rb_left n, rb_right := rb_right n, rb_parent := rb_parent n, rb_color := rb_color n\<rparr>) s = Some s1"
    using k by (simp add: wr_def s1_def k1_def)
  have f1: "rep s1 p t = rep s p t" if "m \<notin> set_tree t" for p t by (rule rep_cong) (use that in \<open>auto simp: s1_def\<close>)
  have p1: "ptr s1 t = ptr s t" for t by (rule ptr_cong) (simp add: s1_def)
  have "ctx_rep s1 node c = ctx_rep s node c" by (rule ctx_rep_cong) (use dis(8) in \<open>auto simp: s1_def\<close>)
  then have "ctx_rep s1 node c" using ctx by simp
  then obtain s2 where s2: "rotate_hang SLeft node m s1 = Some s2" "relinked (set (ctx_nodes c)) s1 s2" "ctx_rep s2 m c"
    using hang [of s1 node c n SLeft m] n dis by (auto simp: s1_def)
  have m2: "rb_mem s2 m = Some k1" "rb_sentinel s2 = rb_sentinel s" using relinked_mem [OF s2(2), of m] dis relinked_sentinel [OF s2(2)] by (auto simp: s1_def)
  have "rep s2 p1 l" "rep s2 p2 r" using sub f1 relinked_rep [OF s2(2)] dis by auto
  obtain s3 where s3: "(if ptr s2 l \<noteq> rb_sentinel s2 then wr (ptr s2 l) (\<lambda>n. n\<lparr>rb_parent := m\<rparr>) s2 else Some s2) = Some s3"
    "relinked (set_tree l) s2 s3" "rb_root s3 = rb_root s2" "rep s3 (Some m) l"
    using set_parent [OF \<open>rep s2 p1 l\<close>, of m] dis m2(2) by auto
  have "rep s3 p2 r" using \<open>rep s2 p2 r\<close> relinked_rep [OF s3(2)] dis by (auto simp: inf_commute)
  obtain s4 where s4: "(if ptr s3 r \<noteq> rb_sentinel s3 then wr (ptr s3 r) (\<lambda>n. n\<lparr>rb_parent := m\<rparr>) s3 else Some s3) = Some s4"
    "relinked (set_tree r) s3 s4" "rb_root s4 = rb_root s3" "rep s4 (Some m) r"
    using set_parent [OF \<open>rep s3 p2 r\<close>, of m] dis m2(2) relinked_sentinel [OF s3(2)] by auto
  have ps: "ptr s2 t = ptr s t" "ptr s3 t = ptr s t" "ptr s4 t = ptr s t" for t
    using relinked_ptr [OF s2(2)] relinked_ptr [OF s3(2)] relinked_ptr [OF s4(2)] p1 by auto
  have mem: "rb_mem s3 m = Some k1" "rb_mem s4 m = Some k1" using relinked_mem [OF s3(2), of m] relinked_mem [OF s4(2), of m] m2 dis by auto
  have k1: "rb_left k1 = ptr s l" "rb_right k1 = ptr s r" "up_ok (above c) k1" using n by (auto simp: k1_def up_ok_def)
  have hangs: "rotate_hang SLeft node m s1 = (if node = rb_root s1 then Some (s1\<lparr>rb_root := m\<rparr>) else do {
      p \<leftarrow> rd rb_parent node s1; l \<leftarrow> rd rb_left p s1;
      if node = l then wr p (\<lambda>x. x\<lparr>rb_left := m\<rparr>) s1 else wr p (\<lambda>x. x\<lparr>rb_right := m\<rparr>) s1 })"
    by (simp add: rotate_hang_def set_kid_fun cong: if_cong)
  have run: "take_place node m s = Some s4"
  proof -
    have "rd rb_left m s2 = Some (ptr s2 l)" "rd rb_right m s3 = Some (ptr s3 r)" using m2 mem k1 ps by (simp_all add: rd_def)
    then show ?thesis unfolding take_place_def n(1) Option.bind.bind_lunit w1 hangs [symmetric] s2(1) by (simp only: s3(1) s4(1) Option.bind.bind_lunit)
  qed
  have "rep s4 (Some m) l" using s3(4) relinked_rep [OF s4(2)] dis by auto
  then have "rep s4 (above c) (Node l m r)" using mem k1 ps s4(4) by simp
  moreover have "ctx_rep s4 m c" using s2(3) relinked_ctx [OF s3(2,3)] relinked_ctx [OF s4(2,3)] dis by (auto simp: inf_commute)
  moreover have "rb_sentinel s4 = rb_sentinel s" using m2(2) relinked_sentinel [OF s3(2)] relinked_sentinel [OF s4(2)] by simp
  moreover have "rkey s4 = rkey s" "red s4 = (red s)(m := red s node)"
    using relinked_pay [OF s2(2)] relinked_pay [OF s3(2)] relinked_pay [OF s4(2)] k n(1)
    by (auto simp: rkey_def red_def pay_def s1_def k1_def fun_eq_iff)
  moreover have "rb_mem s4 a = rb_mem s a" if "a \<notin> insert m (set_tree l \<union> set_tree r \<union> set (ctx_nodes c))" for a
    using that relinked_mem [OF s2(2)] relinked_mem [OF s3(2)] relinked_mem [OF s4(2)] by (auto simp: s1_def)
  ultimately show ?thesis using run by blast
qed

end
