(* ===== verification/RBTree_Remove.thy ===== *)
theory RBTree_Remove
  imports RBTree_Delete
begin

text \<open>
  The deletion as a whole: the node is taken out, alone or with its successor in its place, the rest is
  coloured right except for one missing black node, and the re-balancing makes it good.
\<close>

section \<open>Unlinking\<close>

lemma delete_unlink_eq:
  assumes "subst \<noteq> rb_root s" and "rd rb_parent subst s = Some sp"
  shows "delete_unlink node subst temp s = (if subst = node then unlink subst temp sp s
     else unlink subst temp (if sp = node then subst else sp) s \<bind> take_place node subst)"
  using assms by (cases "rd rb_left sp s"; cases "subst = node") (auto simp: delete_unlink_def unlink_def rotate_hang_def set_kid_fun)

lemma sentinel_kept: "pay s' (rb_sentinel s) = pay s (rb_sentinel s) \<Longrightarrow> \<exists>n. rb_mem s (rb_sentinel s) = Some n \<and> rb_color n = 0 \<Longrightarrow>
    \<exists>n. rb_mem s' (rb_sentinel s) = Some n \<and> rb_color n = 0"
  by (auto simp: pay_def)

text \<open>A node with an empty side goes; its other side takes its place.\<close>

lemma unlink_alone:
  assumes own: "owns s (plug c (mk d Leaf node x))" and c: "above c = Some p"
  shows "\<exists>s'. delete_unlink node node (ptr s x) s = Some s' \<and> owns s' (plug c x) \<and> red s' = red s \<and>
    within (insert (rb_sentinel s) (set_tree (plug c (mk d Leaf node x)))) s s' \<and> rd rb_parent (ptr s x) s' = Some p \<and> rb_mem s' node \<noteq> None"
proof -
  note o = own [unfolded owns_plug]
  obtain s' where s': "unlink node (ptr s x) p s = Some s'" "relinked (set (ctx_nodes c) \<union> insert (rb_sentinel s) (set_tree x)) s s'"
    "rep s' (Some p) x" "ctx_rep s' (ptr s x) c" "rd rb_parent (ptr s x) s' = Some p"
    using unlink_ok [OF own, of p] c by auto
  have "c \<noteq> []" using c by auto
  then have run: "delete_unlink node node (ptr s x) s = Some s'"
    using delete_unlink_eq [of node s p node "ptr s x"] owns_reads(3,4) [OF own] c s'(1) by simp
  have "\<exists>n. rb_mem s' (rb_sentinel s) = Some n \<and> rb_color n = 0"
    by (rule sentinel_kept) (use s'(2) o in \<open>auto simp: relinked_def\<close>)
  then have "owns s' (plug c x)" unfolding owns_plug
    using o s'(3,4) c relinked_ptr [OF s'(2)] relinked_sentinel [OF s'(2)] by auto
  moreover have "within (insert (rb_sentinel s) (set_tree (plug c (mk d Leaf node x)))) s s'"
    by (rule within_relinked [OF s'(2)]) (auto simp: set_plug)
  moreover have "pay s' node = pay s node" using s'(2) by (simp add: relinked_def)
  then have "rb_mem s' node \<noteq> None" using owns_mem [OF own, of node] by (auto simp: pay_def set_plug)
  ultimately show ?thesis using run relinked_pay [OF s'(2)] s'(5) by blast
qed

lemma ctx_rep_append: "ctx_rep s (ptr s t) (c1 @ c2) \<and> rep s (above (c1 @ c2)) t \<longleftrightarrow> rep s (above c2) (plug c1 t) \<and> ctx_rep s (ptr s (plug c1 t)) c2"
proof (induction c1 arbitrary: t)
  case (Cons f c1)
  obtain d a u where f: "f = (d, a, u)" by (cases f)
  show ?case unfolding f using Cons.IH [of "mk d t a u"] by (auto simp: rep_mk)
qed auto

text \<open>The successor \<open>m\<close>, the least node of the right side, goes and then takes the place of the node.\<close>

lemma unlink_successor:
  assumes own: "owns s (plug c (Node l node (plug cl (Node Leaf m x))))"
    and p: "above (cl @ (SRight, node, l) # c) = Some p"
  shows "\<exists>s'. delete_unlink node m (ptr s x) s = Some s' \<and> owns s' (plug (cl @ (SRight, m, l) # c) x) \<and> red s' = (red s)(m := red s node) \<and>
    within (insert (rb_sentinel s) (set_tree (plug c (Node l node (plug cl (Node Leaf m x)))))) s s' \<and>
    rd rb_parent (ptr s x) s' = above (cl @ (SRight, m, l) # c) \<and> rb_mem s' node \<noteq> None"
proof -
  let ?c = "cl @ (SRight, node, l) # c" and ?q = "if p = node then m else p" and ?T = "plug c (Node l node (plug cl (Node Leaf m x)))"
  have own3: "owns s (plug ?c (mk SLeft Leaf m x))" using own by (simp add: plug_append)
  note o = own3 [unfolded owns_plug]
  have dis: "node \<noteq> m" "node \<noteq> rb_sentinel s" "node \<notin> set_tree l" "node \<notin> set_tree (plug cl x)" "node \<notin> set (ctx_nodes c)" "m \<notin> set_tree l"
    "m \<notin> set_tree (plug cl x)" "m \<notin> set (ctx_nodes c)" "set_tree l \<inter> set_tree (plug cl x) = {}" "set_tree l \<inter> set (ctx_nodes c) = {}"
    "set_tree (plug cl x) \<inter> set (ctx_nodes c) = {}" "distinct (inorder l)" "distinct (inorder (plug cl x))" "distinct (ctx_nodes c)"
    "rb_sentinel s \<notin> set_tree l" "rb_sentinel s \<notin> set_tree (plug cl x)"
    using o by (auto simp: set_plug distinct_plug)
  have q: "above (cl @ (SRight, m, l) # c) = Some ?q" "cl \<noteq> [] \<Longrightarrow> ?q = p"
    using p dis(4) by (cases cl; auto simp: set_plug)+
  have q': "cl \<noteq> [] \<longrightarrow> above ?c = Some ?q" using q(2) p by auto
  obtain s1 where s1: "unlink m (ptr s x) ?q s = Some s1" "relinked (set (ctx_nodes ?c) \<union> insert (rb_sentinel s) (set_tree x)) s s1"
    "rep s1 None x" "cl \<noteq> [] \<longrightarrow> rep s1 (Some ?q) x" "ctx_rep s1 (ptr s x) ?c" "rd rb_parent (ptr s x) s1 = Some ?q"
    using unlink_ok [OF own3, of ?q] q' by blast
  have ps: "ptr s1 t = ptr s t" for t by (rule relinked_ptr [OF s1(2)])
  have "\<exists>p2. rep s1 p2 (plug cl x) \<and> ctx_rep s1 (ptr s1 (plug cl x)) ((SRight, node, l) # c)"
  proof (cases "cl = []")
    case False
    then have "rep s1 (above ?c) x" using s1(4) q' by simp
    then show ?thesis using ctx_rep_append [of s1 x cl "(SRight, node, l) # c"] s1(5) ps by auto
  qed (use s1(3,5) ps in auto)
  then obtain p2 n where n: "rep s1 p2 (plug cl x)" "rb_mem s1 node = Some n" "rb_left n = ptr s1 l" "rb_right n = ptr s1 (plug cl x)"
    "up_ok (above c) n" "rep s1 (Some node) l" "ctx_rep s1 node c" by auto
  have m1: "rb_mem s1 m \<noteq> None"
  proof -
    have "pay s1 m = pay s m" using s1(2) by (simp add: relinked_def)
    then show ?thesis using owns_mem [OF own3, of m] by (auto simp: pay_def set_plug)
  qed
  have sen: "rb_sentinel s1 = rb_sentinel s" by (rule relinked_sentinel [OF s1(2)])
  obtain s2 where s2: "take_place node m s1 = Some s2" "rep s2 (above c) (Node l m (plug cl x))" "ctx_rep s2 m c" "rb_sentinel s2 = rb_sentinel s1"
    "rkey s2 = rkey s1" "red s2 = (red s1)(m := red s1 node)"
    "\<forall>a. a \<notin> insert m (set_tree l \<union> set_tree (plug cl x) \<union> set (ctx_nodes c)) \<longrightarrow> rb_mem s2 a = rb_mem s1 a"
    using take_place_ok [OF n(2,3,4,5,6,1,7) m1] dis sen by auto
  have "m \<noteq> rb_root s" using owns_reads(4) [OF own3] by simp
  moreover have "rd rb_parent m s = Some p" using owns_reads(3) [OF own3 p] .
  ultimately have run: "delete_unlink node m (ptr s x) s = Some s2" using delete_unlink_eq [of m s p node "ptr s x"] dis(1) s1(1) s2(1) by simp
  have same: "rb_mem s2 (rb_sentinel s) = rb_mem s1 (rb_sentinel s)" using s2(7) o dis by auto
  have "\<exists>n. rb_mem s1 (rb_sentinel s) = Some n \<and> rb_color n = 0"
    by (rule sentinel_kept) (use s1(2) o in \<open>auto simp: relinked_def\<close>)
  then have "owns s2 (plug c (Node l m (plug cl x)))" unfolding owns_plug
    using s2(2,3,4) sen same dis o by auto
  then have own': "owns s2 (plug (cl @ (SRight, m, l) # c) x)" by (simp add: plug_append)
  have "rd rb_parent (ptr s x) s2 = Some ?q"
  proof (cases x)
    case Leaf
    then show ?thesis using s1(6) same by (simp add: rd_def)
  next
    case (Node x1 a x2)
    then show ?thesis using owns_reads(3) [of s2 _ SLeft x1 a x2 ?q] own' q(1) by simp
  qed
  moreover have "red s2 = (red s)(m := red s node)" using s2(6) relinked_pay [OF s1(2)] by simp
  moreover have "within (insert (rb_sentinel s) (set_tree ?T)) s s2"
  proof -
    have "within (insert (rb_sentinel s) (set_tree ?T)) s s1" by (rule within_relinked [OF s1(2)]) (auto simp: set_plug)
    moreover have "within (insert (rb_sentinel s) (set_tree ?T)) s1 s2" using s2(4,5,7) by (auto simp: within_def set_plug)
    ultimately show ?thesis by (rule within_trans)
  qed
  moreover have "rb_mem s2 node \<noteq> None" using s2(7) n(2) dis by auto
  ultimately show ?thesis using run own' q(1) by auto
qed

section \<open>Colours\<close>

lemma cb_swap:
  assumes "m \<notin> set (ctx_nodes (cl @ (d, node, l) # c))" and "col' = col(m := col node)"
  shows "cb col' (cl @ (d, m, l) # c) rr h = cb col (cl @ (d, node, l) # c) rr h"
  using assms(1)
proof (induction cl arbitrary: rr h)
  case Nil
  have "col' m = col node" by (simp add: assms(2))
  moreover have "rb col' l k = rb col l k" "root_red col' l = root_red col l" "cb col' c x k = cb col c x k" for x k
    unfolding assms(2) using Nil by (auto intro!: rb_fun_upd root_red_fun_upd cb_fun_upd simp del: fun_upd_apply)
  ultimately show ?case by simp
next
  case (Cons f cl)
  obtain e a u where f: "f = (e, a, u)" by (cases f)
  have "col' a = col a" using Cons.prems by (auto simp: assms(2) f)
  moreover have "rb col' u k = rb col u k" "root_red col' u = root_red col u" for k
    unfolding assms(2) using Cons.prems by (auto simp: f intro!: rb_fun_upd root_red_fun_upd)
  ultimately show ?case using Cons by (simp add: f)
qed

text \<open>What is to be done after a node of colour \<open>r\<close> has gone from above \<open>x\<close>.\<close>

definition left_over :: "bool \<Rightarrow> (addr \<Rightarrow> bool) \<Rightarrow> addr way_up \<Rightarrow> addr tree \<Rightarrow> bool" where
  "left_over r col c x \<longleftrightarrow> (\<exists>h. rb col x h \<and> (if r then cb col c (root_red col x) h else cb col c False (Suc h)))"

lemma left_over_intro: "rb col (mk d Leaf m x) h \<Longrightarrow> cb col c (col m) h \<Longrightarrow> left_over (col m) col c x"
  using cb_false [of col c True h] by (cases "col m") (auto simp: left_over_def)

lemma clear_node_ok:
  assumes own: "owns s T" and node: "node \<notin> set_tree T" "node \<noteq> rb_sentinel s" "rb_mem s node \<noteq> None"
  shows "\<exists>s'. clear_node node s = Some s' \<and> owns s' T \<and> red s' = red s \<and> rb_root s' = rb_root s \<and> rb_sentinel s' = rb_sentinel s \<and>
    (\<forall>a. a \<noteq> node \<longrightarrow> rb_mem s' a = rb_mem s a \<and> rkey s' a = rkey s a)"
proof -
  obtain n where n: "rb_mem s node = Some n" using node by auto
  define s' where "s' = s\<lparr>rb_mem := (rb_mem s)(node \<mapsto> n\<lparr>rb_left := NULL, rb_right := NULL, rb_parent := NULL, rb_key := 0\<rparr>)\<rparr>"
  have "rep s' par T = rep s par T" for par by (rule rep_cong) (use node in \<open>auto simp: s'_def\<close>)
  moreover have "ptr s' T = ptr s T" by (rule ptr_cong) (simp add: s'_def)
  ultimately have "owns s' T" using own node by (auto simp: owns_def s'_def)
  moreover have "red s' = red s" using n by (auto simp: red_def pay_def s'_def fun_eq_iff)
  ultimately show ?thesis using n by (auto simp: clear_node_def wr_def s'_def rkey_def pay_def)
qed

text \<open>The state after is that before but for \<open>A\<close>, and only \<open>node\<close> has lost its key.\<close>

definition forgets :: "addr \<Rightarrow> addr set \<Rightarrow> rbtree \<Rightarrow> rbtree \<Rightarrow> bool" where
  "forgets node A s s' \<longleftrightarrow> rb_sentinel s' = rb_sentinel s \<and> (\<forall>a. a \<noteq> node \<longrightarrow> rkey s' a = rkey s a) \<and>
     (\<forall>a. a \<notin> A \<longrightarrow> rb_mem s' a = rb_mem s a)"

lemma delete_end:
  assumes own: "owns s (plug c x)" and c: "c \<noteq> []" "rd rb_parent (ptr s x) s = above c"
    and node: "node \<notin> set_tree (plug c x)" "node \<noteq> rb_sentinel s" "rb_mem s node \<noteq> None" and col: "left_over r (red s) c x"
  shows "\<exists>s'. do { s2 \<leftarrow> clear_node node s; if r then Some s2 else do { (t, s3) \<leftarrow> delete_fixup (ptr s x) s2; ngx_rbt_black t s3 } } = Some s' \<and>
    rbt s' (inorder (plug c x)) \<and> forgets node (insert node (set_tree (plug c x))) s s'"
proof -
  obtain s2 where s2: "clear_node node s = Some s2" "owns s2 (plug c x)" "red s2 = red s" "rb_sentinel s2 = rb_sentinel s"
    "\<forall>a. a \<noteq> node \<longrightarrow> rb_mem s2 a = rb_mem s a \<and> rkey s2 a = rkey s a" using clear_node_ok [OF own node] by blast
  have f2: "forgets node (insert node (set_tree (plug c x))) s s2" using s2(4,5) by (auto simp: forgets_def)
  have px: "ptr s2 x = ptr s x" by (rule ptr_cong) (rule s2(4))
  obtain h where h: "rb (red s2) x h" "if r then cb (red s2) c (root_red (red s2) x) h else cb (red s2) c False (Suc h)"
    using col s2(3) by (auto simp: left_over_def)
  show ?thesis
  proof (cases r)
    case True
    then have "balanced s2 (plug c x)" using h rb_plug [of "red s2" x c] by (auto simp: balanced_def)
    then show ?thesis using True s2(1,2) f2 by (auto simp: rbt_def)
  next
    case False
    have "settles (ptr s2 x) s2 (plug c x)"
    proof (cases "root_red (red s2) x")
      case True
      then obtain l a r' where x: "x = Node l a r'" by (cases x) auto
      have "a \<notin> set_tree l" "a \<notin> set_tree r'" using own unfolding owns_plug by (auto simp: x)
      then have "rb ((red s2)(a := False)) x (Suc h)" using h(1) True by (simp add: x colour_upd)
      then have "reddish s2 c x" using h(2) False True by (auto simp: reddish_def x)
      then show ?thesis using reddish_settles [OF s2(2)] by simp
    next
      case black: False
      have "ptr s x \<noteq> node" using ptr_mem [of s x] node by (auto simp: set_plug)
      then have "rd rb_parent (ptr s2 x) s2 = above c" using c(2) s2(5) by (simp add: px rd_def)
      moreover have "pending s2 c x" using h False black by (auto simp: pending_def)
      ultimately show ?thesis using delete_fixup_ok [OF s2(2)] c(1) by simp
    qed
    then obtain t s3 s' T' where s': "delete_fixup (ptr s2 x) s2 = Some (t, s3)" "ngx_rbt_black t s3 = Some s'" "owns s' T'" "balanced s' T'"
      "inorder T' = inorder (plug c x)" "within (set_tree (plug c x)) s2 s'" by (auto simp: settles_def)
    have "forgets node (insert node (set_tree (plug c x))) s s'" using f2 s'(6) by (auto simp: forgets_def within_def)
    then show ?thesis using False s2(1) s' by (auto simp: rbt_def px)
  qed
qed

section \<open>Deletion\<close>

lemma split_tree: "a \<in> set_tree t \<Longrightarrow> \<exists>c l r. t = plug c (Node l a r)"
proof (induction t)
  case (Node l b r)
  consider "a = b" | "a \<in> set_tree l" | "a \<in> set_tree r" using Node.prems by auto
  then show ?case
  proof cases
    case 1
    then show ?thesis by (intro exI [of _ "[]"]) simp
  next
    case 2
    then obtain c l1 r1 where "l = plug c (Node l1 a r1)" using Node.IH by blast
    then show ?thesis by (intro exI [of _ "c @ [(SLeft, b, r)]"] exI [of _ l1] exI [of _ r1]) (simp add: plug_append)
  next
    case 3
    then obtain c l1 r1 where "r = plug c (Node l1 a r1)" using Node.IH by blast
    then show ?thesis by (intro exI [of _ "c @ [(SRight, b, l)]"] exI [of _ l1] exI [of _ r1]) (simp add: plug_append)
  qed
qed simp

lemma paint_black_any:
  assumes own: "owns s t" and a: "a \<in> insert (rb_sentinel s) (set_tree t)"
  shows "\<exists>s'. ngx_rbt_black a s = Some s' \<and> owns s' t \<and> painted {a} s s' \<and> red s' = (red s)(a := False)"
proof (cases "a = rb_sentinel s")
  case True
  obtain n where n: "rb_mem s a = Some n" "rb_color n = 0" using own True by (auto simp: owns_def)
  then have "n\<lparr>rb_color := 0\<rparr> = n" by (cases n) simp
  then have "s\<lparr>rb_mem := (rb_mem s)(a \<mapsto> n\<lparr>rb_color := 0\<rparr>)\<rparr> = s" using n by (cases s) auto
  then have "ngx_rbt_black a s = Some s" using n by (simp add: ngx_rbt_black_def wr_def)
  moreover have "(red s)(a := False) = red s" using red_sentinel [OF own] True by (auto simp: fun_eq_iff)
  ultimately show ?thesis using own by (auto simp: painted_def)
qed (use paint_black [OF own] a in auto)

lemma delete_root:
  assumes own: "owns s (mk d Leaf node x)" and bal: "balanced s (mk d Leaf node x)" and pick: "delete_pick node s = Some (ptr s x, node)"
  shows "\<exists>s'. ngx_rbtree_delete node s = Some s' \<and> rbt s' (inorder x) \<and>
    forgets node (insert (rb_sentinel s) (set_tree (mk d Leaf node x))) s s'"
proof -
  let ?s = "s\<lparr>rb_root := ptr s x\<rparr>"
  have o: "rep s (Some node) x" "rb_root s = node" "node \<notin> set_tree x" "distinct (inorder x)" "rb_sentinel s \<notin> set_tree x" "node \<noteq> rb_sentinel s"
    "\<exists>n. rb_mem s (rb_sentinel s) = Some n \<and> rb_color n = 0" "rb_mem s node \<noteq> None"
    using own owns_mem [OF own, of node] by (auto simp: owns_def rep_mk)
  have "rep s None x" using o(1) by (cases x) (auto simp: up_ok_def)
  then have "rep ?s None x" using rep_cong [of ?s s x None] by simp
  moreover have "ptr ?s x = ptr s x" by (rule ptr_cong) simp
  ultimately have own1: "owns ?s x" using o by (auto simp: owns_def)
  have "red ?s = red s" by (simp add: red_def pay_def fun_eq_iff)
  then obtain s1 where s1: "ngx_rbt_black (ptr s x) ?s = Some s1" "owns s1 x" "painted {ptr s x} ?s s1" "red s1 = (red s)(ptr s x := False)"
    using paint_black_any [OF own1, of "ptr s x"] ptr_mem [of s x] by auto
  have "ptr s x \<noteq> node" using ptr_mem [of s x] o by auto
  then have mem1: "rb_mem s1 node = rb_mem s node" "rb_sentinel s1 = rb_sentinel s" using s1(3) by (auto simp: painted_def)
  have bal1: "balanced s1 x"
  proof (cases x)
    case (Node l a r)
    have "rb (red s) x 0" using bal by (auto simp: balanced_def split: if_splits)
    moreover have "a \<notin> set_tree l" "a \<notin> set_tree r" using o Node by auto
    ultimately have "rb (red s1) x (Suc 0)" by (auto simp: Node s1(4) colour_upd split: if_splits)
    then show ?thesis by (auto simp: balanced_def Node s1(4))
  qed (simp add: balanced_def)
  obtain s2 where s2: "clear_node node s1 = Some s2" "owns s2 x" "red s2 = red s1" "rb_sentinel s2 = rb_sentinel s1"
    "\<forall>a. a \<noteq> node \<longrightarrow> rb_mem s2 a = rb_mem s1 a \<and> rkey s2 a = rkey s1 a"
    using clear_node_ok [OF s1(2), of node] o mem1 by auto
  have "ngx_rbtree_delete node s = Some s2" using pick o(2) s1(1) s2(1) by (simp add: ngx_rbtree_delete_def)
  moreover have "rbt s2 (inorder x)" using s2(2,3) bal1 by (auto simp: rbt_def balanced_def)
  moreover have "rkey ?s = rkey s" by (simp add: rkey_def pay_def fun_eq_iff)
  then have "forgets node (insert (rb_sentinel s) (set_tree (mk d Leaf node x))) s s2"
    using s2(4,5) s1(3) ptr_mem [of s x] by (auto simp: forgets_def painted_def)
  ultimately show ?thesis by blast
qed

lemma forgets_within: "within A s s1 \<Longrightarrow> forgets node B s1 s' \<Longrightarrow> A \<subseteq> C \<Longrightarrow> B \<subseteq> C \<Longrightarrow> forgets node C s s'"
  unfolding within_def forgets_def by (metis subsetD)

lemma delete_run:
  assumes "delete_pick node s = Some (temp, subst)" and "subst \<noteq> rb_root s" and "ngx_rbt_is_red subst s = Some r"
    and "delete_unlink node subst temp s = Some s1"
  shows "ngx_rbtree_delete node s =
    do { s2 \<leftarrow> clear_node node s1; if r then Some s2 else do { (t, s3) \<leftarrow> delete_fixup temp s2; ngx_rbt_black t s3 } }"
  using assms by (simp add: ngx_rbtree_delete_def)

lemma delete_alone:
  assumes own: "owns s (plug c (mk d Leaf node x))" and bal: "balanced s (plug c (mk d Leaf node x))"
    and pick: "delete_pick node s = Some (ptr s x, node)"
  shows "\<exists>s'. ngx_rbtree_delete node s = Some s' \<and> rbt s' (inorder (plug c x)) \<and>
    forgets node (insert (rb_sentinel s) (set_tree (plug c (mk d Leaf node x)))) s s'"
proof (cases c)
  case Nil
  then show ?thesis using delete_root [of s d node x] assms by simp
next
  case (Cons f c1)
  then obtain p where p: "above c = Some p" by (cases f) auto
  let ?T = "plug c (mk d Leaf node x)"
  obtain s1 where s1: "delete_unlink node node (ptr s x) s = Some s1" "owns s1 (plug c x)" "red s1 = red s"
    "within (insert (rb_sentinel s) (set_tree ?T)) s s1" "rd rb_parent (ptr s x) s1 = Some p" "rb_mem s1 node \<noteq> None"
    using unlink_alone [OF own p] by blast
  have px: "ptr s1 x = ptr s x" by (rule ptr_cong) (use s1(4) in \<open>simp add: within_def\<close>)
  have node: "node \<notin> set_tree (plug c x)" "node \<noteq> rb_sentinel s1" "rb_mem s1 node \<noteq> None"
  proof -
    show "node \<notin> set_tree (plug c x)" "node \<noteq> rb_sentinel s1" using own s1(4) unfolding owns_plug by (auto simp: set_plug within_def)
  qed (rule s1(6))
  obtain h where "rb (red s) (mk d Leaf node x) h" "cb (red s) c (red s node) h"
    using iffD2 [OF rb_plug, of "red s" c "mk d Leaf node x"] bal by (auto simp: balanced_def)
  then have "left_over (red s node) (red s1) c x" unfolding s1(3) by (rule left_over_intro)
  moreover have "rd rb_parent (ptr s1 x) s1 = above c" using s1(5) p px by simp
  ultimately obtain s' where s': "do { s2 \<leftarrow> clear_node node s1; if red s node then Some s2 else do { (t, s3) \<leftarrow> delete_fixup (ptr s1 x) s2; ngx_rbt_black t s3 } } = Some s'"
    "rbt s' (inorder (plug c x))" "forgets node (insert node (set_tree (plug c x))) s1 s'"
    using delete_end [OF s1(2) _ _ node] Cons by blast
  have root: "node \<noteq> rb_root s" using owns_reads(4) [OF own] Cons by auto
  have "ngx_rbt_is_red node s = Some (red s node)" using is_red_owns [OF own, of node] by (simp add: set_plug)
  from delete_run [OF pick root this s1(1)] have "ngx_rbtree_delete node s = Some s'" using s'(1) unfolding px by simp
  moreover have "forgets node (insert (rb_sentinel s) (set_tree ?T)) s s'"
    by (rule forgets_within [OF s1(4) s'(3)]) (auto simp: set_plug)
  ultimately show ?thesis using s'(2) by blast
qed

lemma delete_successor:
  assumes own: "owns s (plug c (Node l node (plug cl (Node Leaf m x))))" and bal: "balanced s (plug c (Node l node (plug cl (Node Leaf m x))))"
    and pick: "delete_pick node s = Some (ptr s x, m)"
  shows "\<exists>s'. ngx_rbtree_delete node s = Some s' \<and> rbt s' (inorder (plug (cl @ (SRight, m, l) # c) x)) \<and>
    forgets node (insert (rb_sentinel s) (set_tree (plug c (Node l node (plug cl (Node Leaf m x)))))) s s'"
proof -
  let ?T = "plug c (Node l node (plug cl (Node Leaf m x)))" and ?c = "cl @ (SRight, node, l) # c" and ?c' = "cl @ (SRight, m, l) # c"
  obtain p where p: "above ?c = Some p" by (cases cl) auto
  obtain s1 where s1: "delete_unlink node m (ptr s x) s = Some s1" "owns s1 (plug ?c' x)" "red s1 = (red s)(m := red s node)"
    "within (insert (rb_sentinel s) (set_tree ?T)) s s1" "rd rb_parent (ptr s x) s1 = above ?c'" "rb_mem s1 node \<noteq> None"
    using unlink_successor [OF own p] by blast
  have px: "ptr s1 x = ptr s x" by (rule ptr_cong) (use s1(4) in \<open>simp add: within_def\<close>)
  have own3: "owns s (plug ?c (mk SLeft Leaf m x))" using own by (simp add: plug_append)
  note o = own3 [unfolded owns_plug]
  have node: "node \<notin> set_tree (plug ?c' x)" "node \<noteq> rb_sentinel s1" using o s1(4) by (auto simp: set_plug within_def)
  have m: "m \<notin> set_tree x" "m \<notin> set (ctx_nodes ?c)" using o by auto
  have "balanced s (plug ?c (mk SLeft Leaf m x))" using bal by (simp add: plug_append)
  then obtain h where h: "rb (red s) (mk SLeft Leaf m x) h" "cb (red s) ?c (red s m) h"
    using iffD2 [OF rb_plug, of "red s" ?c "mk SLeft Leaf m x"] by (auto simp: balanced_def)
  then have "left_over (red s m) (red s) ?c x" by (rule left_over_intro)
  moreover have "rb (red s1) x = rb (red s) x" "root_red (red s1) x = root_red (red s) x"
    unfolding s1(3) by (simp_all only: fun_eq_iff rb_fun_upd [OF m(1)] root_red_fun_upd [OF m(1)] simp_thms)
  ultimately have "left_over (red s m) (red s1) ?c' x" by (simp only: left_over_def cb_swap [OF m(2) s1(3)])
  moreover have "rd rb_parent (ptr s1 x) s1 = above ?c'" using s1(5) px by simp
  ultimately obtain s' where s': "do { s2 \<leftarrow> clear_node node s1; if red s m then Some s2 else do { (t, s3) \<leftarrow> delete_fixup (ptr s1 x) s2; ngx_rbt_black t s3 } } = Some s'"
    "rbt s' (inorder (plug ?c' x))" "forgets node (insert node (set_tree (plug ?c' x))) s1 s'"
    using delete_end [OF s1(2) _ _ node s1(6)] by blast
  have root: "m \<noteq> rb_root s" using owns_reads(4) [OF own3] by auto
  have "ngx_rbt_is_red m s = Some (red s m)" using is_red_owns [OF own3, of m] by (simp add: set_plug)
  from delete_run [OF pick root this s1(1)] have "ngx_rbtree_delete node s = Some s'" using s'(1) unfolding px by simp
  moreover have "forgets node (insert (rb_sentinel s) (set_tree ?T)) s s'"
    by (rule forgets_within [OF s1(4) s'(3)]) (auto simp: set_plug)
  ultimately show ?thesis using s'(2) by blast
qed

lemma ptr_leaf: "rb_sentinel s \<notin> set_tree t \<Longrightarrow> ptr s t = rb_sentinel s \<longleftrightarrow> t = Leaf"
  by (cases t) auto

lemma remove1_middle: "distinct (xs @ a # ys) \<Longrightarrow> remove1 a (xs @ a # ys) = xs @ ys"
  by (simp add: remove1_append)

theorem delete_ok:
  assumes tree: "rbt s xs" and node: "node \<in> set xs"
  shows "\<exists>s'. ngx_rbtree_delete node s = Some s' \<and> rbt s' (remove1 node xs) \<and> forgets node (insert (rb_sentinel s) (set xs)) s s'"
proof -
  obtain T where own: "owns s T" and bal: "balanced s T" and xs: "inorder T = xs" using tree by (auto simp: rbt_def)
  then obtain c l r where T: "T = plug c (Node l node r)" using split_tree [of node T] node by (metis set_inorder)
  have set: "set_tree T = set xs" using xs by auto
  have dist: "distinct (before c @ inorder l @ node # inorder r @ after c)" using own xs by (auto simp: owns_def T inorder_plug)
  have rem: "remove1 node xs = before c @ inorder l @ inorder r @ after c"
    using remove1_middle [of "before c @ inorder l" node "inorder r @ after c"] dist xs by (simp add: T inorder_plug)
  have sen: "rb_sentinel s \<notin> set_tree l" "rb_sentinel s \<notin> set_tree r" using own by (auto simp: owns_def T set_plug)
  have kids: "rd rb_left node s = Some (ptr s l)" "rd rb_right node s = Some (ptr s r)"
    using owns_reads(1,2) [of s c SLeft l node r] own by (simp_all add: T)
  show ?thesis
  proof (cases "l = Leaf \<or> r = Leaf")
    case True
    then obtain d x where x: "Node l node r = mk d Leaf node x" "delete_pick node s = Some (ptr s x, node)" "inorder l @ inorder r = inorder x"
    proof (elim disjE)
      assume l: "l = Leaf"
      show thesis by (rule that [of SLeft r]) (use kids l in \<open>auto simp: delete_pick_def\<close>)
    next
      assume r: "r = Leaf"
      show thesis by (rule that [of SRight l]) (use kids r ptr_leaf [OF sen(1)] in \<open>auto simp: delete_pick_def\<close>)
    qed
    have "remove1 node xs = inorder (plug c x)" using rem x(3) by (simp add: inorder_plug)
    then show ?thesis using delete_alone [of s c d node x] own bal x(1,2) set by (simp add: T)
  next
    case False
    then have lr: "l \<noteq> Leaf" "r \<noteq> Leaf" by auto
    have "rep s (Some node) r" using own unfolding T owns_plug by auto
    from min_ok [OF this lr(2) sen(2)] obtain cl m x where m: "ngx_rbtree_min (ptr s r) s = Some m" "r = plug cl (Node Leaf m x)"
      "\<forall>f\<in>set cl. fst f = SLeft" by blast
    have T': "T = plug c (Node l node (plug cl (Node Leaf m x)))" by (simp add: T m(2))
    have "owns s (plug (cl @ (SRight, node, l) # c) (mk SLeft Leaf m x))" using own by (simp add: T' plug_append)
    from owns_reads(1,2) [OF this] have mk: "rd rb_left m s = Some (rb_sentinel s)" "rd rb_right m s = Some (ptr s x)" by auto
    have pick: "delete_pick node s = Some (ptr s x, m)"
      using kids lr ptr_leaf [OF sen(1)] ptr_leaf [OF sen(2)] m(1) mk by (simp add: delete_pick_def)
    have "before cl = []" by (rule before_left [OF m(3)])
    then have "remove1 node xs = inorder (plug (cl @ (SRight, m, l) # c) x)"
      unfolding rem by (simp add: plug_append inorder_plug m(2))
    then show ?thesis using delete_successor [of s c l node cl m x] own bal pick set by (simp add: T')
  qed
qed

end
