(* ===== verification/RBTree_Keys.thy ===== *)
theory RBTree_Keys
  imports RBTree_Remove
begin

text \<open>
  The two comparisons of the keys as orders, what an insertion does to the list of the nodes, the way
  through the tree with \<open>ngx_rbtree_next\<close>, and the height of the tree.
\<close>

section \<open>Times that wrap around\<close>

lemma int_u32_sub: "int (u32_sub x y) = (int x - int y) mod 4294967296"
proof -
  have "y mod UINT32_MOD \<le> UINT32_MOD" by (simp add: less_imp_le)
  then have "int (u32_sub x y) = (int x + (4294967296 - int y mod 4294967296)) mod 4294967296"
    by (simp add: u32_sub_def zmod_int of_nat_diff add_diff_eq)
  also have "\<dots> = (int x - int y mod 4294967296 + 4294967296) mod 4294967296" by (simp add: algebra_simps)
  also have "\<dots> = (int x - int y) mod 4294967296" by (simp add: mod_diff_right_eq)
  finally show ?thesis .
qed

lemma s32_sub_window:
  assumes "u32_sub k b < 2147483648" and "u32_sub l b < 2147483648"
  shows "s32 (u32_sub k l) = int (u32_sub k b) - int (u32_sub l b)"
proof -
  have "int (u32_sub k l) = (int (u32_sub k b) - int (u32_sub l b)) mod 4294967296"
    by (simp add: int_u32_sub mod_diff_eq)
  moreover have "(a - c) mod 4294967296 = (if c \<le> a then a - c else a - c + 4294967296)"
    if "0 \<le> a" "a < 2147483648" "0 \<le> c" "c < 2147483648" for a c :: int
    using that by (auto intro: int_mod_pos_eq [of _ _ "-1"] mod_pos_pos_trivial)
  ultimately have "int (u32_sub k l) = (if int (u32_sub l b) \<le> int (u32_sub k b) then int (u32_sub k b) - int (u32_sub l b)
     else int (u32_sub k b) - int (u32_sub l b) + 4294967296)" using assms by simp
  moreover have "u32_sub k l < UINT32_MOD" by simp
  ultimately show ?thesis using assms by (auto simp: s32_def split: if_splits)
qed

lemma u32_sub_inj: "k < UINT32_MOD \<Longrightarrow> l < UINT32_MOD \<Longrightarrow> u32_sub k b = u32_sub l b \<Longrightarrow> k = l"
proof -
  assume k: "k < UINT32_MOD" and l: "l < UINT32_MOD" and e: "u32_sub k b = u32_sub l b"
  have "(int k - int b) mod 4294967296 = (int l - int b) mod 4294967296" using e by (metis int_u32_sub)
  then have "((int k - int b) mod 4294967296 + int b) mod 4294967296 = ((int l - int b) mod 4294967296 + int b) mod 4294967296" by simp
  then have "int k mod 4294967296 = int l mod 4294967296" by (simp add: mod_add_left_eq)
  then show "k = l" using k l by simp
qed

text \<open>The times within half of the range after \<open>base\<close>.\<close>

definition window :: "uint32 \<Rightarrow> uint32 set" where
  "window base = {k. k < UINT32_MOD \<and> u32_sub k base < 2147483648}"

lemma timer_before_window: "k \<in> window base \<Longrightarrow> l \<in> window base \<Longrightarrow> timer_before k l \<longleftrightarrow> u32_sub k base < u32_sub l base"
  by (auto simp: timer_before_def window_def s32_sub_window [of k base l])

lemma timer_before_near:
  assumes "k < UINT32_MOD" and "l < UINT32_MOD \<and> \<bar>int k - int l\<bar> < 2147483648"
  shows "timer_before k l \<longleftrightarrow> k < l"
proof (cases "l \<le> k")
  case True
  then have "u32_sub k l = k - l" using assms by (intro u32_sub_id) auto
  then show ?thesis using True assms by (simp add: timer_before_def s32_def)
next
  case False
  then have "u32_sub k l = UINT32_MOD - (l - k)" using assms by (simp add: u32_sub_def)
  then show ?thesis using False assms by (auto simp: timer_before_def s32_def)
qed

interpretation number_keys: key_order "(<)" UNIV
  by unfold_locales auto

interpretation timer_keys: key_order timer_before "window base" for base
proof
  fix k l m
  show "k \<in> window base \<Longrightarrow> \<not> timer_before k k" by (simp add: timer_before_window)
  show "timer_before k l \<Longrightarrow> timer_before l m \<Longrightarrow> k \<in> window base \<Longrightarrow> l \<in> window base \<Longrightarrow> m \<in> window base \<Longrightarrow> timer_before k m"
    by (simp add: timer_before_window)
  show "k \<in> window base \<Longrightarrow> l \<in> window base \<Longrightarrow> k \<noteq> l \<Longrightarrow> timer_before k l \<or> timer_before l k"
    using u32_sub_inj [of k l base] nat_neq_iff [of "u32_sub k base" "u32_sub l base"]
    by (simp add: timer_before_window) (auto simp: window_def)
qed

section \<open>Insertion into the list of the nodes\<close>

text \<open>The node goes behind all nodes that do not come after it.\<close>

definition place_after :: "(uint32 \<Rightarrow> uint32 \<Rightarrow> bool) \<Rightarrow> (addr \<Rightarrow> uint32) \<Rightarrow> addr \<Rightarrow> addr list \<Rightarrow> addr list" where
  "place_after lt key node xs = takeWhile (\<lambda>x. \<not> lt (key node) (key x)) xs @ node # dropWhile (\<lambda>x. \<not> lt (key node) (key x)) xs"

lemma place_after_split:
  assumes "\<forall>x\<in>set ys. \<not> lt (key node) (key x)" and "\<forall>x\<in>set zs. lt (key node) (key x)"
  shows "place_after lt key node (ys @ zs) = ys @ node # zs"
  using assms by (cases zs) (auto simp: place_after_def takeWhile_append dropWhile_append)

lemma set_place_after [simp]: "set (place_after lt key node xs) = insert node (set xs)"
proof -
  have "set xs = set (takeWhile P xs) \<union> set (dropWhile P xs)" for P by (metis set_append takeWhile_dropWhile_id)
  then show ?thesis by (auto simp: place_after_def dest: set_takeWhileD)
qed

context key_order
begin

lemma insert_list:
  assumes "rbt s xs" and "in_order (rkey s) xs" and "node \<notin> set xs" and "node \<noteq> rb_sentinel s" and "rb_mem s node \<noteq> None"
    and "rkey s node \<in> K" and "\<And>temp node s. ins temp node s = do { (t, d) \<leftarrow> insert_place lt temp node s; insert_at t d node s }"
  shows "\<exists>s'. ngx_rbtree_insert ins node s = Some s' \<and> rbt s' (place_after lt (rkey s) node xs) \<and>
    in_order (rkey s') (place_after lt (rkey s) node xs) \<and> within (insert node (set xs)) s s'"
proof -
  obtain s' ys zs where r: "ngx_rbtree_insert ins node s = Some s'" "rbt s' (ys @ node # zs)" "xs = ys @ zs"
    "\<forall>x\<in>set ys. \<not> lt (rkey s node) (rkey s x)" "\<forall>x\<in>set zs. lt (rkey s node) (rkey s x)" "within (insert node (set xs)) s s'"
    "in_order (rkey s') (ys @ node # zs)" using insert_ok [OF assms] by blast
  then show ?thesis using place_after_split [of ys lt "rkey s" node zs] by auto
qed

end

section \<open>The next node\<close>

lemma next_up_ok:
  assumes "owns s (plug c (mk e l a r))"
  shows "next_up a s = Some (if after c = [] then NULL else hd (after c))"
  using assms
proof (induction c arbitrary: e l a r)
  case Nil
  have "rb_mem s a \<noteq> None" using owns_mem [OF Nil, of a] by simp
  moreover have "rb_root s = a" using owns_reads(4) [OF Nil] by simp
  ultimately show ?case by (subst next_up.simps) (auto simp: rd_def)
next
  case (Cons f c)
  obtain d p u where f: "f = (d, p, u)" by (cases f)
  let ?t = "mk e l a r"
  have own: "owns s (plug c (mk d ?t p u))" using Cons.prems by (simp add: f)
  have up: "rd rb_parent a s = Some p" "a \<noteq> rb_root s"
    using owns_reads(3,4) [OF Cons.prems] by (auto simp: f)
  have k: "rd (kid d) p s = Some a" "rd (kid (opp d)) p s = Some (ptr s u)" using owns_reads(1,2) [OF own] by auto
  have "ptr s u \<noteq> a" using own ptr_mem [of s u] unfolding owns_plug by auto
  then show ?case using up k Cons.IH [OF own] by (subst next_up.simps) (cases d; auto simp: f)
qed

lemma next_ok:
  assumes tree: "rbt s (ys @ node # zs)"
  shows "ngx_rbtree_next node s = Some (if zs = [] then NULL else hd zs)"
proof -
  obtain T where own: "owns s T" and T0: "inorder T = ys @ node # zs" using tree by (auto simp: rbt_def)
  then have "node \<in> set_tree T" by (metis in_set_conv_decomp set_inorder)
  then obtain c l r where T: "T = plug c (mk SLeft l node r)" using split_tree by fastforce
  have "distinct (ys @ node # zs)" using own T0 by (simp add: owns_def)
  then have zs: "zs = inorder r @ after c"
    using T0 append_Cons_eq_iff [of node ys zs "before c @ inorder l" "inorder r @ after c"] by (auto simp: T inorder_plug)
  have rt: "rd rb_right node s = Some (ptr s r)" using owns_reads(2) [of s c SLeft l node r] own by (simp add: T)
  have sen: "rb_sentinel s \<notin> set_tree r" using own unfolding T owns_plug by auto
  show ?thesis
  proof (cases "r = Leaf")
    case True
    then show ?thesis using rt next_up_ok [of s c SLeft l node r] own by (simp add: ngx_rbtree_next_def T zs)
  next
    case False
    have "rep s (Some node) r" using own unfolding T owns_plug by auto
    from min_ok [OF this False sen] obtain cl m x where m: "ngx_rbtree_min (ptr s r) s = Some m" "r = plug cl (Node Leaf m x)"
      "\<forall>f\<in>set cl. fst f = SLeft" by blast
    have "hd zs = m" "zs \<noteq> []" using before_left [OF m(3)] by (simp_all add: zs m(2) inorder_plug)
    then show ?thesis using rt m(1) False ptr_leaf [OF sen] by (simp add: ngx_rbtree_next_def)
  qed
qed

lemma min_list:
  assumes tree: "rbt s xs" and ne: "xs \<noteq> []"
  shows "ngx_rbtree_min (rb_root s) s = Some (hd xs)" and "rb_root s \<noteq> rb_sentinel s"
proof -
  obtain T where own: "owns s T" and T: "inorder T = xs" using tree by (auto simp: rbt_def)
  have "T \<noteq> Leaf" using T ne by auto
  moreover have "rep s None T" "rb_sentinel s \<notin> set_tree T" "rb_root s = ptr s T" using own by (auto simp: owns_def)
  moreover from this obtain cl m x where m: "ngx_rbtree_min (ptr s T) s = Some m" "T = plug cl (Node Leaf m x)"
      "\<forall>f\<in>set cl. fst f = SLeft" using min_ok [of s None T] \<open>T \<noteq> Leaf\<close> by blast
  ultimately show "ngx_rbtree_min (rb_root s) s = Some (hd xs)" "rb_root s \<noteq> rb_sentinel s"
    using before_left [OF m(3)] T ptr_leaf [of s T] by (auto simp: inorder_plug)
qed

lemma empty_root: "rbt s [] \<Longrightarrow> rb_root s = rb_sentinel s"
  by (auto simp: rbt_def owns_def)

text \<open>From the least node on, \<open>ngx_rbtree_next\<close> gives all nodes in order; the walk of a client.\<close>

partial_function (option) rb_walk :: "rbtree \<Rightarrow> addr \<Rightarrow> addr list option" where
  "rb_walk s x = (if x = NULL then Some [] else do { y \<leftarrow> ngx_rbtree_next x s; r \<leftarrow> rb_walk s y; Some (x # r) })"

definition rb_nodes :: "rbtree \<Rightarrow> addr list option" where
  "rb_nodes s = (if rb_root s = rb_sentinel s then Some [] else do { x \<leftarrow> ngx_rbtree_min (rb_root s) s; rb_walk s x })"

declare rb_walk.simps [code]

lemma walk_from: "rbt s (ys @ zs) \<Longrightarrow> NULL \<notin> set zs \<Longrightarrow> zs \<noteq> [] \<Longrightarrow> rb_walk s (hd zs) = Some zs"
proof (induction zs arbitrary: ys)
  case (Cons z zs)
  have "ngx_rbtree_next z s = Some (if zs = [] then NULL else hd zs)" by (rule next_ok [OF Cons.prems(1)])
  moreover have "zs \<noteq> [] \<Longrightarrow> rb_walk s (hd zs) = Some zs" using Cons.IH [of "ys @ [z]"] Cons.prems by simp
  moreover have "rb_walk s NULL = Some []" by (subst rb_walk.simps) simp
  ultimately show ?case using Cons.prems(2) by (subst rb_walk.simps) auto
qed simp

lemma nodes_list:
  assumes "rbt s xs" and "NULL \<notin> set xs"
  shows "rb_nodes s = Some xs"
proof (cases "xs = []")
  case True
  then show ?thesis using empty_root assms by (simp add: rb_nodes_def)
next
  case False
  then show ?thesis using min_list [OF assms(1) False] walk_from [of s "[]" xs] assms by (simp add: rb_nodes_def)
qed

section \<open>Height\<close>

lemma rb_height: "rb col t h \<Longrightarrow> height t \<le> 2 * h + (if root_red col t then 1 else 0) \<and> 2 ^ h \<le> size t + 1"
proof (induction t arbitrary: h)
  case (Node l a r)
  show ?case
  proof (cases "col a")
    case True
    then have "rb col l h" "rb col r h" "\<not> root_red col l" "\<not> root_red col r" using Node.prems by auto
    then show ?thesis using Node.IH(1) [of h] Node.IH(2) [of h] True by auto
  next
    case False
    then obtain k where k: "h = Suc k" "rb col l k" "rb col r k" using Node.prems by auto
    then show ?thesis using Node.IH(1) [of k] Node.IH(2) [of k] False by (auto split: if_splits)
  qed
qed simp

lemma balanced_height:
  assumes "balanced s t"
  shows "2 ^ height t \<le> (size t + 1) ^ 2"
proof -
  obtain h where h: "rb (red s) t h" "\<not> root_red (red s) t" using assms by (auto simp: balanced_def)
  then have "(2::nat) ^ height t \<le> 2 ^ (2 * h)" using rb_height [OF h(1)] by (intro power_increasing) auto
  also have "\<dots> = (2 ^ h) ^ 2" by (simp add: power_mult [symmetric] mult.commute)
  also have "\<dots> \<le> (size t + 1) ^ 2" using rb_height [OF h(1)] by (intro power_mono) auto
  finally show ?thesis .
qed

section \<open>Two comparisons, one tree\<close>

text \<open>On keys that the comparisons order alike the way down is the same.\<close>

lemma insert_place_cong:
  assumes "owns s (plug c t)" and "t \<noteq> Leaf" and "rb_mem s node \<noteq> None"
    and "\<forall>x\<in>set_tree t. lt (rkey s node) (rkey s x) = lt' (rkey s node) (rkey s x)"
  shows "insert_place lt (ptr s t) node s = insert_place lt' (ptr s t) node s"
  using assms
proof (induction "size t" arbitrary: c t rule: less_induct)
  case less
  obtain l a r where t: "t = Node l a r" using less.prems(2) by (cases t) auto
  have key: "rd rb_key node s = Some (rkey s node)" "rd rb_key a s = Some (rkey s a)"
    using less.prems(3) owns_mem [OF less.prems(1), of a] by (auto simp: rd_def rkey_def pay_def set_plug t)
  define d where "d = (if lt (rkey s node) (rkey s a) then SLeft else SRight)"
  obtain u v where k: "t = mk d u a v" using t by (cases d) auto
  have kd: "rd (kid d) a s = Some (ptr s u)" using owns_reads(1) [of s c d u a v] less.prems(1) by (simp add: k)
  have sen: "rb_sentinel s \<notin> set_tree u" using less.prems(1) unfolding k owns_plug by auto
  have "insert_place lt (ptr s u) node s = insert_place lt' (ptr s u) node s" if "u \<noteq> Leaf"
    using less.hyps [of u "(d, a, v) # c"] less.prems that by (simp add: k)
  moreover have "insert_place f a node s = (if ptr s u = rb_sentinel s then Some (a, d) else insert_place f (ptr s u) node s)"
    if "f = lt \<or> f = lt'" for f
  proof -
    have "f (rkey s node) (rkey s a) = lt (rkey s node) (rkey s a)" using that less.prems(4) by (auto simp: t)
    then show ?thesis using key kd by (subst insert_place.simps) (simp add: d_def [symmetric] Let_def)
  qed
  ultimately show ?case using ptr_leaf [OF sen] by (auto simp: t)
qed

end
