(* ===== verification/RBTree_Typed.thy ===== *)
theory RBTree_Typed
  imports RBTree
begin

text \<open>
  The types of the fields: whatever the operations are called with, valid or not, keys stay in the range
  of the machine's unsigned numbers, colours stay 0 or 1, and no node comes or goes.
\<close>

section \<open>Sound steps\<close>

definition node_typed :: "rb_node \<Rightarrow> bool" where
  "node_typed n \<longleftrightarrow> rb_key n < UINT32_MOD \<and> rb_color n \<le> 1"

definition rb_typed :: "rbtree \<Rightarrow> bool" where
  "rb_typed s \<longleftrightarrow> (\<forall>a n. rb_mem s a = Some n \<longrightarrow> node_typed n)"

text \<open>The step from \<open>s\<close> to \<open>s'\<close> keeps the types, the set of the nodes and the sentinel.\<close>

definition keeps :: "rbtree \<Rightarrow> rbtree \<Rightarrow> bool" where
  "keeps s s' \<longleftrightarrow> (rb_typed s \<longrightarrow> rb_typed s') \<and> dom (rb_mem s') = dom (rb_mem s) \<and> rb_sentinel s' = rb_sentinel s"

lemma rb_keeps_refl: "keeps s s"
  by (simp add: keeps_def)

lemma rb_keeps_trans: "keeps s s1 \<Longrightarrow> keeps s1 s2 \<Longrightarrow> keeps s s2"
  by (auto simp: keeps_def)

definition sound :: "rbtree \<Rightarrow> rbtree option \<Rightarrow> bool" where
  "sound s r \<longleftrightarrow> (\<forall>s'. r = Some s' \<longrightarrow> keeps s s')"

definition sound2 :: "rbtree \<Rightarrow> (addr \<times> rbtree) option \<Rightarrow> bool" where
  "sound2 s r \<longleftrightarrow> (\<forall>a s'. r = Some (a, s') \<longrightarrow> keeps s s')"

named_theorems sound_intros

lemma sound_some [sound_intros]: "sound s (Some s)" "sound s None" "sound2 s (Some (a, s))" "sound s (Some (s\<lparr>rb_root := t\<rparr>))"
  by (auto simp: sound_def sound2_def keeps_def rb_typed_def)

lemma sound_bind [sound_intros]: "sound s r \<Longrightarrow> (\<And>s1. sound s1 (f s1)) \<Longrightarrow> sound s (r \<bind> f)"
  unfolding sound_def by (auto simp: bind_eq_Some_conv intro: rb_keeps_trans)

lemma sound_bind2 [sound_intros]: "sound s r \<Longrightarrow> (\<And>s1. sound2 s1 (f s1)) \<Longrightarrow> sound2 s (r \<bind> f)"
  unfolding sound_def sound2_def by (auto simp: bind_eq_Some_conv intro: rb_keeps_trans)

lemma sound2_bind [sound_intros]: "sound2 s r \<Longrightarrow> (\<And>a s1. sound s1 (f (a, s1))) \<Longrightarrow> sound s (r \<bind> f)"
  unfolding sound_def sound2_def by (auto simp: bind_eq_Some_conv intro: rb_keeps_trans)

lemma sound2_bind2 [sound_intros]: "sound2 s r \<Longrightarrow> (\<And>a s1. sound2 s1 (f (a, s1))) \<Longrightarrow> sound2 s (r \<bind> f)"
  unfolding sound2_def by (auto simp: bind_eq_Some_conv intro: rb_keeps_trans)

text \<open>What is only read does not matter.\<close>

lemma sound_read: "(\<And>x. sound s (f x)) \<Longrightarrow> sound s (r \<bind> f)" "(\<And>x. sound2 s (g x)) \<Longrightarrow> sound2 s (r \<bind> g)"
  unfolding sound_def sound2_def by (auto simp: bind_eq_Some_conv)

lemmas sound_reads [sound_intros] = sound_read [of s f "rd h a s'" for s f h a s'] sound_read [of s f "ngx_rbt_is_red a s'" for s f a s']
  sound_read [of s f "rb_mem s' a" for s f a s'] sound_read [of s f "insert_place lt temp node s'" for s f lt temp node s']
  sound_read [of s f "delete_pick node s'" for s f node s']

lemma sound_if [sound_intros]: "(b \<Longrightarrow> sound s x) \<Longrightarrow> (\<not> b \<Longrightarrow> sound s y) \<Longrightarrow> sound s (if b then x else y)"
  "(b \<Longrightarrow> sound2 s u) \<Longrightarrow> (\<not> b \<Longrightarrow> sound2 s v) \<Longrightarrow> sound2 s (if b then u else v)"
  by simp_all

lemma sound_wr: "(\<And>n. rb_mem s a = Some n \<Longrightarrow> rb_typed s \<Longrightarrow> node_typed n \<Longrightarrow> node_typed (f n)) \<Longrightarrow> sound s (wr a f s)"
  by (auto simp: sound_def keeps_def wr_def rb_typed_def split: option.splits)

lemma node_typed_set_kid [simp]: "node_typed (set_kid d a n) = node_typed n"
  by (cases d) (auto simp: node_typed_def)

lemma sound_links [sound_intros]: "sound s (wr a (\<lambda>n. n\<lparr>rb_parent := p\<rparr>) s)" "sound s (wr a (set_kid d b) s)"
  "sound s (wr a (\<lambda>n. n\<lparr>rb_left := b\<rparr>) s)" "sound s (wr a (\<lambda>n. n\<lparr>rb_right := b\<rparr>) s)"
  "sound s (wr a (\<lambda>n. n\<lparr>rb_parent := p, rb_left := b, rb_right := c\<rparr>) s)"
  "sound s (wr a (\<lambda>n. n\<lparr>rb_parent := p, rb_left := b, rb_right := c, rb_color := 0\<rparr>) s)"
  "sound s (clear_node a s)" "sound s (ngx_rbt_red a s)" "sound s (ngx_rbt_black a s)"
  by (auto simp: clear_node_def ngx_rbt_red_def ngx_rbt_black_def intro!: sound_wr) (auto simp: node_typed_def)

lemma sound_copy [sound_intros]: "sound s (ngx_rbt_copy_color a b s)"
proof -
  have "sound s (wr a (\<lambda>n. n\<lparr>rb_color := c\<rparr>) s)" if "rd rb_color b s = Some c" for c
    by (rule sound_wr) (use that in \<open>auto simp: rd_def rb_typed_def node_typed_def\<close>)
  then show ?thesis by (cases "rd rb_color b s") (auto simp: ngx_rbt_copy_color_def sound_some)
qed

section \<open>The operations\<close>

lemma sound_rotate [sound_intros]: "sound s (ngx_rbtree_rotate d x s)"
  unfolding ngx_rbtree_rotate_def rotate_hang_def by (intro sound_intros)

lemma sound_insert_step [sound_intros]: "sound2 s (insert_step d node s)"
  unfolding insert_step_def by (auto intro!: sound_intros split: prod.splits)

lemma sound_insert_at [sound_intros]: "sound s (insert_at temp d node s)"
  unfolding insert_at_def by (intro sound_intros)

lemma sound_insert_fixup [sound_intros]: "sound s (insert_fixup node s)"
proof -
  have "keeps s s'" if "insert_fixup node s = Some s'" for s'
  proof (rule insert_fixup.raw_induct [where P = "\<lambda>node s s'. keeps s s'", OF _ that])
    fix f :: "addr \<Rightarrow> rbtree \<Rightarrow> rbtree option" and node s s'
    assume "\<And>node s s'. f node s = Some s' \<Longrightarrow> keeps s s'"
    then have f: "sound s (f node s)" for node s by (simp add: sound_def)
    assume run: "(if node = rb_root s then Some s
     else do {
       p \<leftarrow> rd rb_parent node s;
       red \<leftarrow> ngx_rbt_is_red p s;
       if \<not> red then Some s
       else do {
         g \<leftarrow> rd rb_parent p s;
         gl \<leftarrow> rd rb_left g s;
         (z, s1) \<leftarrow> insert_step (if p = gl then SLeft else SRight) node s;
         f z s1 } }) = Some s'" (is "?run = _")
    have "sound s ?run" by (auto intro!: sound_intros f)
    then show "keeps s s'" unfolding run by (simp add: sound_def)
  qed
  then show ?thesis by (simp add: sound_def)
qed

text \<open>\<open>ins\<close> is one of the two insertions.\<close>

lemma sound_insert: "(\<And>temp node s. sound s (ins temp node s)) \<Longrightarrow> sound s (ngx_rbtree_insert ins node s)"
  unfolding ngx_rbtree_insert_def by (intro sound_intros) auto

lemma sound_delete_parts [sound_intros]: "sound2 s (delete_sibling d p s)" "sound2 s (delete_far d p w s)" "sound2 s (delete_turn d p w s)"
  unfolding delete_sibling_def delete_far_def delete_turn_def by (auto intro!: sound_intros)

lemma sound_delete_step [sound_intros]: "sound2 s (delete_step d temp s)"
  unfolding delete_step_def delete_rest_def by (auto intro!: sound_intros)

lemma sound_delete_fixup [sound_intros]: "sound2 s (delete_fixup temp s)"
proof -
  have "keeps s (snd r)" if "delete_fixup temp s = Some r" for r
  proof (rule delete_fixup.raw_induct [where P = "\<lambda>temp s r. keeps s (snd r)", OF _ that])
    fix f :: "addr \<Rightarrow> rbtree \<Rightarrow> (addr \<times> rbtree) option" and temp s r
    assume "\<And>temp s r. f temp s = Some r \<Longrightarrow> keeps s (snd r)"
    then have f: "sound2 s (f temp s)" for temp s by (force simp: sound2_def)
    assume run: "(if temp = rb_root s then Some (temp, s)
     else do {
       red \<leftarrow> ngx_rbt_is_red temp s;
       if red then Some (temp, s)
       else do {
         p \<leftarrow> rd rb_parent temp s;
         l \<leftarrow> rd rb_left p s;
         (t, s1) \<leftarrow> delete_step (if temp = l then SLeft else SRight) temp s;
         f t s1 } }) = Some r" (is "?run = _")
    have "sound2 s ?run" by (auto intro!: sound_intros f)
    then show "keeps s (snd r)" unfolding run by (cases r) (simp add: sound2_def)
  qed
  then show ?thesis by (force simp: sound2_def)
qed

lemma sound_place [sound_intros]: "sound s (take_place node m s)"
proof -
  have "sound s (wr m (\<lambda>k. k\<lparr>rb_left := rb_left n, rb_right := rb_right n, rb_parent := rb_parent n, rb_color := rb_color n\<rparr>) s)"
    if "rb_mem s node = Some n" for n
    by (rule sound_wr) (use that in \<open>auto simp: rb_typed_def node_typed_def\<close>)
  then show ?thesis unfolding take_place_def
    by (cases "rb_mem s node") (auto intro!: sound_intros)
qed

lemma sound_unlink [sound_intros]: "sound s (delete_unlink node subst temp s)"
  unfolding delete_unlink_def by (auto intro!: sound_intros)

lemma sound_delete: "sound s (ngx_rbtree_delete node s)"
  unfolding ngx_rbtree_delete_def
proof (rule sound_reads, clarify)
  fix temp subst
  have "keeps s (s\<lparr>rb_root := temp\<rparr>)" by (auto simp: keeps_def rb_typed_def)
  moreover have "sound (s\<lparr>rb_root := temp\<rparr>) (do { s1 \<leftarrow> ngx_rbt_black temp (s\<lparr>rb_root := temp\<rparr>); clear_node node s1 })"
    by (intro sound_intros)
  ultimately have "sound s (do { s1 \<leftarrow> ngx_rbt_black temp (s\<lparr>rb_root := temp\<rparr>); clear_node node s1 })"
    using rb_keeps_trans unfolding sound_def by blast
  then show "sound s (if subst = rb_root s then do { s1 \<leftarrow> ngx_rbt_black temp (s\<lparr>rb_root := temp\<rparr>); clear_node node s1 }
     else do {
       red \<leftarrow> ngx_rbt_is_red subst s;
       s1 \<leftarrow> delete_unlink node subst temp s;
       s2 \<leftarrow> clear_node node s1;
       if red then Some s2
       else do {
         (t, s3) \<leftarrow> delete_fixup temp s2;
         ngx_rbt_black t s3 } })"
    by (auto intro!: sound_intros)
qed

lemma sound_insert_value [sound_intros]: "sound s (ngx_rbtree_insert_value temp node s)" "sound s (ngx_rbtree_insert_timer_value temp node s)"
  unfolding ngx_rbtree_insert_value_def ngx_rbtree_insert_timer_value_def by (auto intro!: sound_intros)

end
