(* ===== verification/Rbt_Timer.thy ===== *)
theory Rbt_Timer
  imports RBTree_Keys RBTree_Typed Timer_Store
begin

text \<open>
  The timer over the red-black tree, \<open>rbt-timer.h\<close>, and the properties of the tree and the timer. A
  timer entry starts with its node, so both have one address; the handlers are kept beside the tree. The
  clock reading, the result of \<open>malloc\<close> and the user's callbacks are parameters.
\<close>

section \<open>The timer\<close>

record rbt_timer =
  rt_tree :: rbtree
  rt_handler :: "addr \<Rightarrow> nat option"

definition rbt_current_time :: "nat \<Rightarrow> nat \<Rightarrow> uint32" where
  "rbt_current_time tv_sec tv_nsec = u32_add (u32 (u32 tv_sec * 1000)) (u32 (tv_nsec div 1000000))"

text \<open>\<open>sen\<close> and \<open>n\<close>: the address and the memory of the static sentinel.\<close>

definition rbt_init_timer :: "addr \<Rightarrow> rb_node \<Rightarrow> rbt_timer \<Rightarrow> rbt_timer" where
  "rbt_init_timer sen n t = t\<lparr>rt_tree := ngx_rbtree_init sen n (rb_mem (rt_tree t))\<rparr>"

text \<open>The result of \<open>malloc\<close> is used unchecked.\<close>

definition rbt_add_timer :: "addr option \<Rightarrow> uint32 \<Rightarrow> uint32 \<Rightarrow> nat \<Rightarrow> rbt_timer \<Rightarrow> rbt_timer option" where
  "rbt_add_timer malloc now msec func t = do {
     te \<leftarrow> malloc;
     let s = rt_tree t;
     let n = \<lparr>rb_key = u32_add msec now, rb_left = NULL, rb_right = NULL, rb_parent = NULL, rb_color = 0\<rparr>;
     s1 \<leftarrow> ngx_rbtree_insert ngx_rbtree_insert_timer_value te (s\<lparr>rb_mem := (rb_mem s)(te \<mapsto> n)\<rparr>);
     Some (t\<lparr>rt_tree := s1, rt_handler := (rt_handler t)(te \<mapsto> func)\<rparr>) }"

definition rbt_free :: "addr \<Rightarrow> rbt_timer \<Rightarrow> rbt_timer option" where
  "rbt_free te t = (let s = rt_tree t in if rb_mem s te = None then None
     else Some (t\<lparr>rt_tree := s\<lparr>rb_mem := (rb_mem s)(te := None)\<rparr>, rt_handler := (rt_handler t)(te := None)\<rparr>))"

definition rbt_del_timer :: "addr \<Rightarrow> rbt_timer \<Rightarrow> rbt_timer option" where
  "rbt_del_timer te t = do { s \<leftarrow> ngx_rbtree_delete te (rt_tree t); rbt_free te (t\<lparr>rt_tree := s\<rparr>) }"

definition rbt_peek :: "rbt_timer \<Rightarrow> addr option option" where
  "rbt_peek t = (let s = rt_tree t in if rb_root s = rb_sentinel s then Some None
     else do { x \<leftarrow> ngx_rbtree_min (rb_root s) s; Some (Some x) })"

definition rbt_deadline :: "rbt_timer \<Rightarrow> addr \<Rightarrow> uint32 option" where
  "rbt_deadline t x = rd rb_key x (rt_tree t)"

text \<open>The subtraction of the two \<open>int\<close>s is undefined when it overflows.\<close>

definition rbt_find_nearest_expire_timer :: "uint32 \<Rightarrow> rbt_timer \<Rightarrow> int option" where
  "rbt_find_nearest_expire_timer now t = do {
     p \<leftarrow> rbt_peek t;
     (case p of None \<Rightarrow> Some (-1)
      | Some x \<Rightarrow> do {
          k \<leftarrow> rbt_deadline t x;
          let diff = s32 k - s32 now;
          if diff < -2147483648 \<or> 2147483647 < diff then None else Some (if diff > 0 then diff else 0) }) }"

definition rbt_call :: "(nat \<Rightarrow> addr \<Rightarrow> rbt_timer \<Rightarrow> rbt_timer option) \<Rightarrow> addr \<Rightarrow> rbt_timer \<Rightarrow> rbt_timer option" where
  "rbt_call call te t = do { h \<leftarrow> rt_handler t te; call h te t }"

definition rbt_expire_timer :: "(nat \<Rightarrow> addr \<Rightarrow> rbt_timer \<Rightarrow> rbt_timer option) \<Rightarrow> uint32 \<Rightarrow> rbt_timer \<Rightarrow>
    ((addr \<times> nat) list \<times> rbt_timer) option" where
  "rbt_expire_timer call now t = expire_loop rbt_peek rbt_deadline (\<lambda>te t. do { t1 \<leftarrow> rbt_call call te t; rbt_del_timer te t1 }) now t"

section \<open>The invariant\<close>

text \<open>The content as a client reads it. \<open>rbt_ok base t\<close>: the deadlines lie within half of the range after
  \<open>base\<close>.\<close>

definition rbt_items :: "rbt_timer \<Rightarrow> addr list" where
  "rbt_items t = (case rb_nodes (rt_tree t) of None \<Rightarrow> [] | Some xs \<Rightarrow> xs)"

definition rbt_key :: "rbt_timer \<Rightarrow> addr \<Rightarrow> uint32" where
  "rbt_key t = rkey (rt_tree t)"

definition rbt_ok :: "uint32 \<Rightarrow> rbt_timer \<Rightarrow> bool" where
  "rbt_ok base t \<longleftrightarrow> rbt (rt_tree t) (rbt_items t) \<and> NULL \<notin> set (rbt_items t) \<and> rbt_key t ` set (rbt_items t) \<subseteq> window base \<and>
     sorted (map (\<lambda>x. u32_sub (rbt_key t x) base) (rbt_items t)) \<and> (\<forall>x\<in>set (rbt_items t). rt_handler t x \<noteq> None)"

lemma rbt_items_eq: "rbt (rt_tree t) xs \<Longrightarrow> NULL \<notin> set xs \<Longrightarrow> rbt_items t = xs"
  by (simp add: rbt_items_def nodes_list)

lemma rbt_okI: "rbt (rt_tree t) xs \<Longrightarrow> NULL \<notin> set xs \<Longrightarrow> rbt_key t ` set xs \<subseteq> window base \<Longrightarrow>
    sorted (map (\<lambda>x. u32_sub (rbt_key t x) base) xs) \<Longrightarrow> \<forall>x\<in>set xs. rt_handler t x \<noteq> None \<Longrightarrow> rbt_ok base t \<and> rbt_items t = xs"
  using rbt_items_eq [of t xs] by (simp add: rbt_ok_def)

lemma timer_in_order: "timer_keys.in_order base key xs \<longleftrightarrow> key ` set xs \<subseteq> window base \<and> sorted (map (\<lambda>x. u32_sub (key x) base) xs)"
proof -
  have "(\<not> timer_before (key y) (key x)) = (u32_sub (key x) base \<le> u32_sub (key y) base)"
    if "key ` set xs \<subseteq> window base" "x \<in> set xs" "y \<in> set xs" for x y
  proof -
    have "key x \<in> window base" "key y \<in> window base" using that by auto
    then show ?thesis by (simp add: timer_before_window not_less)
  qed
  then have "sorted_wrt (\<lambda>x y. \<not> timer_before (key y) (key x)) xs = sorted_wrt (\<lambda>x y. u32_sub (key x) base \<le> u32_sub (key y) base) xs"
    if "key ` set xs \<subseteq> window base"
    using that by (intro iffI; elim sorted_wrt_mono_rel [rotated]) auto
  then show ?thesis by (auto simp: timer_keys.in_order_def sorted_map)
qed

lemma owns_elsewhere:
  assumes own: "owns s t" and same: "rb_root s' = rb_root s" "rb_sentinel s' = rb_sentinel s"
    "\<forall>a\<in>insert (rb_sentinel s) (set_tree t). rb_mem s' a = rb_mem s a"
  shows "owns s' t"
proof -
  have "rep s' None t = rep s None t" by (rule rep_cong) (use same in auto)
  moreover have "ptr s' t = ptr s t" by (rule ptr_cong) (rule same(2))
  ultimately show ?thesis using own same by (auto simp: owns_def)
qed

lemma rbt_elsewhere:
  assumes "rbt s xs" and same: "rb_root s' = rb_root s" "rb_sentinel s' = rb_sentinel s"
    "\<forall>a\<in>insert (rb_sentinel s) (set xs). rb_mem s' a = rb_mem s a"
  shows "rbt s' xs"
proof -
  obtain t where t: "owns s t" "balanced s t" "inorder t = xs" using assms(1) by (auto simp: rbt_def)
  have set: "set_tree t = set xs" using t(3) by auto
  have "root_red (red s') t = root_red (red s) t" "rb (red s') t h = rb (red s) t h" for h
    by (rule root_red_cong rb_cong; use same(3) set in \<open>simp add: red_def pay_def\<close>)+
  then have "balanced s' t" using t(2) by (simp add: balanced_def)
  moreover have "owns s' t" using owns_elsewhere [OF t(1) same(1,2)] same(3) set by simp
  ultimately show ?thesis using t(3) by (auto simp: rbt_def)
qed

lemma rbt_member_mem:
  assumes "rbt s xs" and "x \<in> set xs"
  shows "rb_mem s x \<noteq> None"
proof -
  obtain T where T: "owns s T" "inorder T = xs" using assms(1) by (auto simp: rbt_def)
  then show ?thesis using owns_mem [OF T(1), of x] assms(2) by (metis insertI2 set_inorder)
qed

section \<open>Adding and deleting\<close>

lemma rbt_ok_sentinel: "rbt s xs \<Longrightarrow> rb_sentinel s \<notin> set xs"
  by (auto simp: rbt_def owns_def)

lemma add_timer_ok:
  assumes ok: "rbt_ok base t" and te: "te \<notin> set (rbt_items t)" "te \<noteq> NULL" "te \<noteq> rb_sentinel (rt_tree t)" and key: "u32_add msec now \<in> window base"
  shows "\<exists>t'. rbt_add_timer (Some te) now msec func t = Some t' \<and> rbt_ok base t' \<and>
    rbt_items t' = place_after timer_before (rbt_key t') te (rbt_items t) \<and>
    rbt_key t' = (rbt_key t)(te := u32_add msec now) \<and> rt_handler t' = (rt_handler t)(te \<mapsto> func)"
proof -
  let ?xs = "rbt_items t" and ?n = "\<lparr>rb_key = u32_add msec now, rb_left = NULL, rb_right = NULL, rb_parent = NULL, rb_color = 0\<rparr>"
  define s where "s = (rt_tree t)\<lparr>rb_mem := (rb_mem (rt_tree t))(te \<mapsto> ?n)\<rparr>"
  have tree: "rbt s ?xs" by (rule rbt_elsewhere [of "rt_tree t"]) (use ok te in \<open>auto simp: rbt_ok_def s_def\<close>)
  have rk: "rkey s = (rbt_key t)(te := u32_add msec now)" by (auto simp: rbt_key_def rkey_def pay_def s_def)
  have same: "rkey s x = rbt_key t x" if "x \<in> set ?xs" for x using that te by (auto simp: rk)
  have sub: "rkey s ` set ?xs \<subseteq> window base"
  proof -
    have "rkey s ` set ?xs = rbt_key t ` set ?xs" by (rule image_cong) (use same in auto)
    then show ?thesis using ok by (simp add: rbt_ok_def)
  qed
  have "map (\<lambda>x. u32_sub (rkey s x) base) ?xs = map (\<lambda>x. u32_sub (rbt_key t x) base) ?xs" using same by simp
  moreover have "sorted (map (\<lambda>x. u32_sub (rbt_key t x) base) ?xs)" using ok by (simp add: rbt_ok_def)
  ultimately have "sorted (map (\<lambda>x. u32_sub (rkey s x) base) ?xs)" by (simp only:)
  then have ord: "timer_keys.in_order base (rkey s) ?xs" using sub unfolding timer_in_order by blast
  obtain s' where s': "ngx_rbtree_insert ngx_rbtree_insert_timer_value te s = Some s'" "rbt s' (place_after timer_before (rkey s) te ?xs)"
    "timer_keys.in_order base (rkey s') (place_after timer_before (rkey s) te ?xs)" "within (insert te (set ?xs)) s s'"
    using timer_keys.insert_list [OF tree ord te(1), of ngx_rbtree_insert_timer_value] te(3) key
    by (auto simp: rk ngx_rbtree_insert_timer_value_def) (auto simp: s_def)
  let ?t' = "t\<lparr>rt_tree := s', rt_handler := (rt_handler t)(te \<mapsto> func)\<rparr>" and ?ys = "place_after timer_before (rkey s) te ?xs"
  have run: "rbt_add_timer (Some te) now msec func t = Some ?t'" using s'(1) by (simp add: rbt_add_timer_def s_def)
  note set = set_place_after [of timer_before "rkey s" te ?xs]
  have rk': "rbt_key ?t' = rkey s" using s'(4) by (simp add: rbt_key_def within_def)
  have "rbt_ok base ?t' \<and> rbt_items ?t' = ?ys"
    by (rule rbt_okI) (use s'(2,3) ok te set in \<open>auto simp: timer_in_order rbt_key_def rbt_ok_def\<close>)
  then show ?thesis using run rk' rk by simp
qed

lemma del_timer_ok:
  assumes ok: "rbt_ok base t" and te: "te \<in> set (rbt_items t)"
  shows "\<exists>t'. rbt_del_timer te t = Some t' \<and> rbt_ok base t' \<and> rbt_items t' = remove1 te (rbt_items t) \<and>
    (\<forall>x. x \<noteq> te \<longrightarrow> rbt_key t' x = rbt_key t x) \<and> dom (rb_mem (rt_tree t')) = dom (rb_mem (rt_tree t)) - {te} \<and>
    rt_handler t' = (rt_handler t)(te := None)"
proof -
  let ?xs = "rbt_items t"
  have tree: "rbt (rt_tree t) ?xs" using ok by (simp add: rbt_ok_def)
  obtain s where s: "ngx_rbtree_delete te (rt_tree t) = Some s" "rbt s (remove1 te ?xs)"
    "forgets te (insert (rb_sentinel (rt_tree t)) (set ?xs)) (rt_tree t) s" using delete_ok [OF tree te] by blast
  have "rb_mem (rt_tree t) te \<noteq> None" by (rule rbt_member_mem [OF tree te])
  moreover have dom: "dom (rb_mem s) = dom (rb_mem (rt_tree t))" using sound_delete [of "rt_tree t" te] s(1) by (simp add: sound_def keeps_def)
  ultimately have mem: "rb_mem s te \<noteq> None" by (metis domIff)
  let ?s' = "s\<lparr>rb_mem := (rb_mem s)(te := None)\<rparr>"
  let ?t' = "t\<lparr>rt_tree := ?s', rt_handler := (rt_handler t)(te := None)\<rparr>"
  have run: "rbt_del_timer te t = Some ?t'" using s(1) mem by (auto simp: rbt_del_timer_def rbt_free_def)
  have dist: "distinct ?xs" using tree by (auto simp: rbt_def owns_def)
  then have out: "set (remove1 te ?xs) = set ?xs - {te}" by (rule set_remove1_eq)
  have sen: "rb_sentinel s \<noteq> te" using rbt_ok_sentinel [OF tree] te s(3) by (auto simp: forgets_def)
  have tree': "rbt ?s' (remove1 te ?xs)" by (rule rbt_elsewhere [OF s(2)]) (use out sen in auto)
  have key: "rbt_key ?t' x = rbt_key t x" if "x \<noteq> te" for x
    using that s(3) by (simp add: rbt_key_def forgets_def rkey_def pay_def)
  have keys: "map (rbt_key ?t') (remove1 te ?xs) = map (rbt_key t) (remove1 te ?xs)" using key out by auto
  have "sorted (map (\<lambda>x. u32_sub (rbt_key t x) base) (remove1 te ?xs))" using ok by (auto simp: rbt_ok_def intro: sorted_map_remove1)
  moreover have "map (\<lambda>x. u32_sub (rbt_key ?t' x) base) (remove1 te ?xs) = map (\<lambda>x. u32_sub (rbt_key t x) base) (remove1 te ?xs)"
    by (rule map_cong [OF refl]) (use key out in auto)
  ultimately have "sorted (map (\<lambda>x. u32_sub (rbt_key ?t' x) base) (remove1 te ?xs))" by (simp only:)
  moreover have "rbt_key ?t' ` set (remove1 te ?xs) \<subseteq> window base" using ok key by (auto simp: out rbt_ok_def)
  ultimately have "rbt_ok base ?t' \<and> rbt_items ?t' = remove1 te ?xs"
    by (intro rbt_okI) (use tree' ok out in \<open>auto simp: rbt_ok_def\<close>)
  then show ?thesis using run key dom by (intro exI [of _ ?t']) simp
qed

section \<open>The tree keeps the timer contract\<close>

text \<open>In the lower half of the range the order of the times is the order of the numbers.\<close>

lemma window_low: "base \<le> 2147483648 \<Longrightarrow> k \<in> window base \<Longrightarrow> base \<le> k \<and> u32_sub k base = k - base"
proof -
  assume b: "base \<le> 2147483648" and k: "k \<in> window base"
  have "base \<le> k"
  proof (rule ccontr)
    assume "\<not> base \<le> k"
    then have "u32_sub k base = k + UINT32_MOD - base" using b by (simp add: u32_sub_def)
    then show False using b k by (simp add: window_def) arith
  qed
  then show ?thesis using k by (simp add: window_def u32_sub_id)
qed

lemma rbt_sorted:
  assumes "rbt_ok base t" and "base \<le> 2147483648"
  shows "sorted (map (rbt_key t) (rbt_items t))"
proof -
  have w: "base \<le> rbt_key t x \<and> u32_sub (rbt_key t x) base = rbt_key t x - base" if "x \<in> set (rbt_items t)" for x
    using assms that by (intro window_low) (auto simp: rbt_ok_def)
  have "sorted_wrt (\<lambda>x y. u32_sub (rbt_key t x) base \<le> u32_sub (rbt_key t y) base) (rbt_items t)"
    using assms(1) by (simp add: rbt_ok_def sorted_map)
  then have "sorted_wrt (\<lambda>x y. rbt_key t x \<le> rbt_key t y) (rbt_items t)"
    by (rule sorted_wrt_mono_rel [rotated]) (use w in force)
  then show ?thesis by (simp add: sorted_map)
qed

lemma rbt_peek_eq: "rbt_ok base t \<Longrightarrow> rbt_peek t = Some (if rbt_items t = [] then None else Some (hd (rbt_items t)))"
  using min_list [of "rt_tree t" "rbt_items t"] empty_root [of "rt_tree t"] by (auto simp: rbt_ok_def rbt_peek_def Let_def)

lemma rbt_deadline_eq: "rbt_ok base t \<Longrightarrow> e \<in> set (rbt_items t) \<Longrightarrow> rbt_deadline t e = Some (rbt_key t e)"
  using rbt_member_mem [of "rt_tree t" "rbt_items t" e] by (auto simp: rbt_ok_def rbt_deadline_def rd_def rbt_key_def rkey_def pay_def)

definition rbt_low :: "uint32 \<Rightarrow> rbt_timer \<Rightarrow> bool" where
  "rbt_low base t \<longleftrightarrow> rbt_ok base t \<and> base \<le> 2147483648"

text \<open>What is allocated are the entries of the tree and the blocks \<open>C\<close>, which are none of its entries.\<close>

definition rbt_owns :: "uint32 \<Rightarrow> addr set \<Rightarrow> rbt_timer \<Rightarrow> bool" where
  "rbt_owns base C t \<longleftrightarrow> rbt_low base t \<and> dom (rb_mem (rt_tree t)) = C \<union> set (rbt_items t) \<and> C \<inter> set (rbt_items t) = {}"

lemma rbt_items_alloc: "rbt_ok base t \<Longrightarrow> set (rbt_items t) \<subseteq> dom (rb_mem (rt_tree t))"
  using rbt_member_mem [of "rt_tree t" "rbt_items t"] by (auto simp: rbt_ok_def)

lemma rbt_owns_start: "rbt_low base t \<Longrightarrow> rbt_owns base (dom (rb_mem (rt_tree t)) - set (rbt_items t)) t"
  using rbt_items_alloc [of base t] by (auto simp: rbt_owns_def rbt_low_def)

interpretation rbtt: timer_store "rbt_owns base C" "\<lambda>t. mset (rbt_items t)" rbt_key rbt_peek rbt_deadline rbt_del_timer for base C
proof
  fix t :: rbt_timer and e :: addr
  assume own: "rbt_owns base C t"
  then have ok: "rbt_ok base t" and b: "base \<le> 2147483648" by (auto simp: rbt_owns_def rbt_low_def)
  show "mset (rbt_items t) = {#} \<Longrightarrow> rbt_peek t = Some None" using rbt_peek_eq [OF ok] by simp
  show "\<exists>e. rbt_peek t = Some (Some e) \<and> e \<in># mset (rbt_items t) \<and> (\<forall>x\<in>#mset (rbt_items t). rbt_key t e \<le> rbt_key t x)"
    if "mset (rbt_items t) \<noteq> {#}"
    using rbt_peek_eq [OF ok] rbt_sorted [OF ok b] that by (cases "rbt_items t") auto
  show "rbt_deadline t e = Some (rbt_key t e)" if "e \<in># mset (rbt_items t)" using rbt_deadline_eq [OF ok] that by simp
  assume "rbt_peek t = Some (Some e)"
  then have e: "e \<in> set (rbt_items t)" using rbt_peek_eq [OF ok] by (auto split: if_splits)
  have "distinct (rbt_items t)" using ok by (auto simp: rbt_ok_def rbt_def owns_def)
  then have out: "set (remove1 e (rbt_items t)) = set (rbt_items t) - {e}" by (rule set_remove1_eq)
  obtain t' where t': "rbt_del_timer e t = Some t'" "rbt_ok base t'" "rbt_items t' = remove1 e (rbt_items t)"
    "\<forall>x. x \<noteq> e \<longrightarrow> rbt_key t' x = rbt_key t x" "dom (rb_mem (rt_tree t')) = dom (rb_mem (rt_tree t)) - {e}"
    using del_timer_ok [OF ok e] by blast
  have "rbt_owns base C t'" using own e t'(2,3,5) out by (auto simp: rbt_owns_def rbt_low_def)
  then show "\<exists>t'. rbt_del_timer e t = Some t' \<and> rbt_owns base C t' \<and> mset (rbt_items t') = mset (rbt_items t) - {#e#} \<and>
      (\<forall>x\<in>#mset (rbt_items t'). rbt_key t' x = rbt_key t x)"
    using t' out by (intro exI [of _ t']) (auto simp del: set_remove1_eq simp flip: mset_remove1)
qed

section \<open>Handlers\<close>

text \<open>The discipline the loop needs of the handlers: called on the first entry they return, leave the tree in
  order with that entry still first, delete and free nothing, and add only timers later than \<open>now\<close>, in new
  blocks.\<close>

definition rbt_handlers_ok :: "uint32 \<Rightarrow> uint32 \<Rightarrow> (nat \<Rightarrow> addr \<Rightarrow> rbt_timer \<Rightarrow> rbt_timer option) \<Rightarrow> bool" where
  "rbt_handlers_ok base now call \<longleftrightarrow>
     (\<forall>te t. rbt_low base t \<longrightarrow> rbt_peek t = Some (Some te) \<longrightarrow>
        (\<exists>t' new. rbt_call call te t = Some t' \<and> rbt_low base t' \<and> rbt_peek t' = Some (Some te) \<and>
           mset (rbt_items t') = mset (rbt_items t) + new \<and> (\<forall>y\<in>set (rbt_items t). rbt_key t' y = rbt_key t y) \<and>
           (\<forall>y\<in>#new. now < rbt_key t' y) \<and> dom (rb_mem (rt_tree t')) = dom (rb_mem (rt_tree t)) \<union> set_mset new \<and>
           dom (rb_mem (rt_tree t)) \<inter> set_mset new = {}))"

lemma rbt_handlers_well_behaved:
  assumes "rbt_handlers_ok base now call"
  shows "rbtt.well_behaved base C now (rbt_call call)"
  unfolding rbtt.well_behaved_def
proof (intro allI impI)
  fix te t
  assume own: "rbt_owns base C t" and pk: "rbt_peek t = Some (Some te)"
  then have low: "rbt_low base t" by (simp add: rbt_owns_def)
  obtain t' new where t': "rbt_call call te t = Some t'" "rbt_low base t'" "rbt_peek t' = Some (Some te)"
    "mset (rbt_items t') = mset (rbt_items t) + new" "\<forall>y\<in>set (rbt_items t). rbt_key t' y = rbt_key t y"
    "\<forall>y\<in>#new. now < rbt_key t' y"
    and dom: "dom (rb_mem (rt_tree t')) = dom (rb_mem (rt_tree t)) \<union> set_mset new"
      "dom (rb_mem (rt_tree t)) \<inter> set_mset new = {}"
    using assms [unfolded rbt_handlers_ok_def, rule_format, OF low pk] by (elim exE conjE)
  have "set (rbt_items t') = set (rbt_items t) \<union> set_mset new" using t'(4) by (metis set_mset_mset set_mset_union)
  then have "rbt_owns base C t'" using own t'(2) dom by (auto simp: rbt_owns_def)
  then show "\<exists>t' new. rbt_call call te t = Some t' \<and> rbt_owns base C t' \<and> rbt_peek t' = Some (Some te) \<and>
      mset (rbt_items t') = mset (rbt_items t) + new \<and> (\<forall>y\<in>#mset (rbt_items t). rbt_key t' y = rbt_key t y) \<and>
      (\<forall>y\<in>#new. now < rbt_key t' y)"
    using t' by auto
qed

end
