(* ===== verification/Rbt_Props.thy ===== *)
theory Rbt_Props
  imports Rbt_Timer
begin

text \<open>
  The properties of the red-black tree and of its timer, each with a witness on a concrete tree.
\<close>

section \<open>A concrete tree\<close>

text \<open>Sentinel at 1, root at 5, a red left child at 6, and a node at 7 that is not in the tree.\<close>

definition demo_node :: "uint32 \<Rightarrow> addr \<Rightarrow> addr \<Rightarrow> nat \<Rightarrow> rb_node" where
  "demo_node k l p c = \<lparr>rb_key = k, rb_left = l, rb_right = 1, rb_parent = p, rb_color = c\<rparr>"

definition demo_tree :: rbtree where
  "demo_tree = \<lparr>rb_root = 5, rb_sentinel = 1,
     rb_mem = [1 \<mapsto> demo_node 0 0 0 0, 5 \<mapsto> demo_node 30 6 0 0, 6 \<mapsto> demo_node 20 1 5 1, 7 \<mapsto> demo_node 25 0 0 0]\<rparr>"

lemma demo_rbt: "rbt demo_tree [6, 5]"
  unfolding rbt_def
  by (rule exI [of _ "Node (Node Leaf 6 Leaf) 5 Leaf"])
    (simp add: owns_def demo_tree_def demo_node_def up_ok_def balanced_def red_def pay_def)

lemma demo_keys: "rkey demo_tree 5 = 30" "rkey demo_tree 6 = 20" "rkey demo_tree 7 = 25"
  by (simp_all add: rkey_def pay_def demo_tree_def demo_node_def)

lemma demo_window: "20 \<in> window 0" "25 \<in> window 0" "30 \<in> window 0"
  by (simp_all add: window_def u32_sub_def)

section \<open>The tree\<close>

text \<open>C4: inserting a node into a red-black tree whose times lie within half of the range, in the order of
  the wrap-around comparison, succeeds; the result is a red-black tree again whose nodes in order are the
  old ones with the new one behind all that do not come after it, and nothing else in memory changes.\<close>

theorem rbtree_insert_correct:
  assumes "rbt s xs" and "rkey s ` set xs \<subseteq> window base" and "sorted (map (\<lambda>x. u32_sub (rkey s x) base) xs)"
    and "node \<notin> set xs" and "node \<noteq> rb_sentinel s" and "rb_mem s node \<noteq> None" and "rkey s node \<in> window base"
  shows "\<exists>s'. ngx_rbtree_insert ngx_rbtree_insert_timer_value node s = Some s' \<and>
    rbt s' (place_after timer_before (rkey s) node xs) \<and> rkey s' = rkey s \<and> rb_sentinel s' = rb_sentinel s \<and>
    (\<forall>a. a \<notin> insert node (set xs) \<longrightarrow> rb_mem s' a = rb_mem s a)"
proof -
  have "timer_keys.in_order base (rkey s) xs" using assms(2,3) by (simp add: timer_in_order)
  from timer_keys.insert_list [OF assms(1) this assms(4-7), of ngx_rbtree_insert_timer_value] show ?thesis
    by (auto simp: ngx_rbtree_insert_timer_value_def within_def)
qed

theorem rbtree_insert_witness:
  "\<exists>s'. ngx_rbtree_insert ngx_rbtree_insert_timer_value 7 demo_tree = Some s' \<and> rbt s' [6, 7, 5]"
proof -
  have "place_after timer_before (rkey demo_tree) 7 [6, 5] = [6, 7, 5]"
    by (simp add: place_after_def demo_keys timer_before_def s32_def u32_sub_def)
  then show ?thesis
    using rbtree_insert_correct [OF demo_rbt, of 0 7] demo_window
    by (auto simp: demo_keys) (auto simp: demo_tree_def u32_sub_def)
qed

text \<open>C3: deleting any node of a red-black tree succeeds; the result is a red-black tree again whose nodes
  in order are the old ones without that node, only the deleted node loses its key, and nothing in memory
  changes apart from the nodes of the tree and the sentinel.\<close>

theorem rbtree_delete_correct:
  assumes "rbt s xs" and "node \<in> set xs"
  shows "\<exists>s'. ngx_rbtree_delete node s = Some s' \<and> rbt s' (remove1 node xs) \<and> rb_sentinel s' = rb_sentinel s \<and>
    (\<forall>a. a \<noteq> node \<longrightarrow> rkey s' a = rkey s a) \<and> (\<forall>a. a \<notin> insert (rb_sentinel s) (set xs) \<longrightarrow> rb_mem s' a = rb_mem s a)"
  using delete_ok [OF assms] by (auto simp: forgets_def)

theorem rbtree_delete_witness: "\<exists>s'. ngx_rbtree_delete 5 demo_tree = Some s' \<and> rbt s' [6]"
  using rbtree_delete_correct [OF demo_rbt, of 5] by auto

text \<open>C24: while no two times are half of the range apart, the insertion with the comparison of numbers and
  the one with the comparison of times that may wrap around do the same.\<close>

theorem rbtree_insertions_agree:
  assumes "rbt s xs" and "rb_mem s node \<noteq> None" and "rkey s node < UINT32_MOD"
    and "\<And>x. x \<in> set xs \<Longrightarrow> rkey s x < UINT32_MOD \<and> \<bar>int (rkey s node) - int (rkey s x)\<bar> < 2147483648"
  shows "ngx_rbtree_insert ngx_rbtree_insert_timer_value node s = ngx_rbtree_insert ngx_rbtree_insert_value node s"
proof (cases "rb_root s = rb_sentinel s")
  case False
  obtain t where own: "owns s t" and t: "inorder t = xs" using assms(1) by (auto simp: rbt_def)
  have root: "rb_root s = ptr s t" "t \<noteq> Leaf" using own False by (auto simp: owns_def)
  have "timer_before (rkey s node) (rkey s x) = (rkey s node < rkey s x)" if "x \<in> set_tree t" for x
  proof -
    have x: "x \<in> set xs" using that t by auto
    show ?thesis using timer_before_near [OF assms(3)] assms(4) [OF x] by blast
  qed
  then have "insert_place timer_before (rb_root s) node s = insert_place (<) (rb_root s) node s"
    using insert_place_cong [of s "[]" t node] own root assms(2) by simp
  then show ?thesis using False by (simp add: ngx_rbtree_insert_def ngx_rbtree_insert_timer_value_def ngx_rbtree_insert_value_def)
qed (simp add: ngx_rbtree_insert_def)

theorem rbtree_insertions_agree_witness:
  "ngx_rbtree_insert ngx_rbtree_insert_timer_value 7 demo_tree = ngx_rbtree_insert ngx_rbtree_insert_value 7 demo_tree"
  by (rule rbtree_insertions_agree [OF demo_rbt]) (auto simp: demo_keys, simp add: demo_tree_def)

text \<open>C26: from the least node on, following \<open>ngx_rbtree_next\<close> ends and visits every node of the tree once,
  in order.\<close>

theorem rbtree_walk_ends:
  assumes "rbt s xs" and "NULL \<notin> set xs"
  shows "rb_nodes s = Some xs"
  by (rule nodes_list [OF assms])

theorem rbtree_walk_witness: "rb_nodes demo_tree = Some [6, 5]"
  by (rule rbtree_walk_ends [OF demo_rbt]) simp

section \<open>Every sequence of operations\<close>

text \<open>A client of the tree: it writes the key of a node and inserts it, or it deletes a node.\<close>

datatype rb_call = Add_node addr uint32 | Delete_node addr

fun rb_do :: "rb_call \<Rightarrow> rbtree \<Rightarrow> rbtree option" where
  "rb_do (Add_node a k) s = do { s1 \<leftarrow> wr a (\<lambda>n. n\<lparr>rb_key := k\<rparr>) s; ngx_rbtree_insert ngx_rbtree_insert_timer_value a s1 }"
| "rb_do (Delete_node a) s = ngx_rbtree_delete a s"

fun rb_run :: "rb_call list \<Rightarrow> rbtree \<Rightarrow> rbtree option" where
  "rb_run [] s = Some s"
| "rb_run (c # cs) s = do { s1 \<leftarrow> rb_do c s; rb_run cs s1 }"

text \<open>The nodes the client has in the tree, with their keys. It inserts only nodes \<open>A\<close> that are not in the tree
  and deletes only nodes that are, and its keys are times within half of the range after \<open>base\<close>.\<close>

fun rb_held :: "rb_call \<Rightarrow> (addr \<Rightarrow> uint32 option) \<Rightarrow> addr \<Rightarrow> uint32 option" where
  "rb_held (Add_node a k) m = m(a \<mapsto> k)"
| "rb_held (Delete_node a) m = m(a := None)"

fun rb_fair :: "addr set \<Rightarrow> uint32 \<Rightarrow> rb_call list \<Rightarrow> (addr \<Rightarrow> uint32 option) \<Rightarrow> bool" where
  "rb_fair A base [] m \<longleftrightarrow> True"
| "rb_fair A base (c # cs) m \<longleftrightarrow>
     (case c of Add_node a k \<Rightarrow> a \<in> A \<and> m a = None \<and> k \<in> window base | Delete_node a \<Rightarrow> m a \<noteq> None) \<and>
     rb_fair A base cs (rb_held c m)"

definition rb_holds :: "addr set \<Rightarrow> addr \<Rightarrow> uint32 \<Rightarrow> (addr \<Rightarrow> uint32 option) \<Rightarrow> rbtree \<Rightarrow> addr list \<Rightarrow> bool" where
  "rb_holds A sen base m s xs \<longleftrightarrow> rbt s xs \<and> set xs = dom m \<and> (\<forall>x\<in>set xs. m x = Some (rkey s x)) \<and>
     timer_keys.in_order base (rkey s) xs \<and> rb_sentinel s = sen \<and> A \<subseteq> dom (rb_mem s)"

lemma rb_do_holds:
  assumes h: "rb_holds A sen base m s xs" and fair: "rb_fair A base [c] m" and sen: "sen \<notin> A"
  shows "\<exists>s' xs'. rb_do c s = Some s' \<and> rb_holds A sen base (rb_held c m) s' xs'"
proof (cases c)
  case (Add_node a k)
  then have a: "a \<in> A" "m a = None" "k \<in> window base" using fair by auto
  then obtain n where n: "rb_mem s a = Some n" using h by (auto simp: rb_holds_def)
  define s1 where "s1 = s\<lparr>rb_mem := (rb_mem s)(a \<mapsto> n\<lparr>rb_key := k\<rparr>)\<rparr>"
  have out: "a \<notin> set xs" "a \<noteq> sen" using a h sen by (auto simp: rb_holds_def)
  have key: "rkey s1 = (rkey s)(a := k)" by (auto simp: rkey_def pay_def s1_def)
  have "rbt s1 xs" by (rule rbt_elsewhere [of s]) (use h out in \<open>auto simp: rb_holds_def s1_def\<close>)
  moreover have "timer_keys.in_order base (rkey s1) xs"
  proof -
    have same: "\<forall>x\<in>set xs. rkey s1 x = rkey s x" using key out by auto
    then have "rkey s1 ` set xs = rkey s ` set xs" by simp
    moreover have "map (\<lambda>x. u32_sub (rkey s1 x) base) xs = map (\<lambda>x. u32_sub (rkey s x) base) xs" using same by simp
    ultimately show ?thesis using h unfolding rb_holds_def timer_in_order by metis
  qed
  ultimately obtain s' where s': "ngx_rbtree_insert ngx_rbtree_insert_timer_value a s1 = Some s'"
    "rbt s' (place_after timer_before (rkey s1) a xs)" "timer_keys.in_order base (rkey s') (place_after timer_before (rkey s1) a xs)"
    "within (insert a (set xs)) s1 s'"
    using timer_keys.insert_list [of s1 xs base a ngx_rbtree_insert_timer_value] out a(3) h
    by (auto simp: key ngx_rbtree_insert_timer_value_def) (auto simp: s1_def rb_holds_def)
  have "dom (rb_mem s') = dom (rb_mem s1)"
    using sound_insert [of ngx_rbtree_insert_timer_value s1 a] sound_insert_value s'(1) by (simp add: sound_def keeps_def)
  moreover have "rkey s' = rkey s1" "rb_sentinel s' = rb_sentinel s1" using s'(4) by (auto simp: within_def)
  ultimately have "rb_holds A sen base (m(a \<mapsto> k)) s' (place_after timer_before (rkey s1) a xs)"
    using s'(2,3) h out a(1) key by (auto simp: rb_holds_def s1_def)
  moreover have "rb_do c s = Some s'" using s'(1) n by (simp add: Add_node wr_def s1_def)
  ultimately show ?thesis using Add_node by auto
next
  case (Delete_node a)
  then have a: "a \<in> set xs" using fair h by (auto simp: rb_holds_def)
  obtain s' where s': "ngx_rbtree_delete a s = Some s'" "rbt s' (remove1 a xs)" "forgets a (insert (rb_sentinel s) (set xs)) s s'"
    using delete_ok [of s xs a] h a by (auto simp: rb_holds_def)
  have dist: "distinct xs" using h by (auto simp: rb_holds_def rbt_def owns_def)
  then have out: "set (remove1 a xs) = set xs - {a}" by (rule set_remove1_eq)
  have same: "\<forall>x\<in>set xs - {a}. rkey s' x = rkey s x" using s'(3) by (auto simp: forgets_def)
  have "dom (rb_mem s') = dom (rb_mem s)" using sound_delete [of s a] s'(1) by (simp add: sound_def keeps_def)
  moreover have "timer_keys.in_order base (rkey s') (remove1 a xs)"
  proof -
    have "map (\<lambda>x. u32_sub (rkey s' x) base) (remove1 a xs) = map (\<lambda>x. u32_sub (rkey s x) base) (remove1 a xs)"
      by (rule map_cong [OF refl]) (use same out in auto)
    moreover have "sorted (map (\<lambda>x. u32_sub (rkey s x) base) (remove1 a xs))"
      using h by (auto simp: rb_holds_def timer_in_order intro: sorted_map_remove1)
    moreover have "rkey s ` set xs \<subseteq> window base" using h by (auto simp: rb_holds_def timer_in_order)
    then have "rkey s' ` set (remove1 a xs) \<subseteq> window base" using same by (auto simp: out)
    ultimately show ?thesis unfolding timer_in_order by (simp only:)
  qed
  ultimately have "rb_holds A sen base (m(a := None)) s' (remove1 a xs)"
    using h s'(2,3) same out by (auto simp: rb_holds_def forgets_def)
  then show ?thesis using s'(1) Delete_node by auto
qed

lemma rb_run_holds:
  "rb_holds A sen base m s xs \<Longrightarrow> rb_fair A base cs m \<Longrightarrow> sen \<notin> A \<Longrightarrow>
    \<exists>s' xs'. rb_run cs s = Some s' \<and> rb_holds A sen base (fold rb_held cs m) s' xs'"
proof (induction cs arbitrary: m s xs)
  case (Cons c cs)
  then have "rb_fair A base [c] m" "rb_fair A base cs (rb_held c m)" by auto
  then obtain s1 ys where s1: "rb_do c s = Some s1" "rb_holds A sen base (rb_held c m) s1 ys"
    using rb_do_holds [OF Cons.prems(1) _ Cons.prems(3)] by blast
  then show ?case using Cons.IH [OF s1(2)] Cons.prems \<open>rb_fair A base cs (rb_held c m)\<close> by simp
qed auto

lemma rb_init_holds: "A \<subseteq> dom M \<Longrightarrow> rb_holds A sen base Map.empty (ngx_rbtree_init sen n M) []"
  by (auto simp: rb_holds_def rbt_def ngx_rbtree_init_def owns_def balanced_def timer_in_order intro!: exI [of _ Leaf])

text \<open>C25: whatever nodes a client inserts and deletes after \<open>ngx_rbtree_init\<close>, in whatever order, no call
  faults; the tree is a red-black tree at the end whose nodes, in the order of their times, are exactly those
  inserted and not deleted since, each with its key, and its height is at most \<open>2 log (n + 1)\<close>.\<close>

theorem rbtree_runs_correct:
  assumes "rb_fair A base cs Map.empty" and "A \<subseteq> dom M" and "sen \<notin> A"
  shows "\<exists>s xs t. rb_run cs (ngx_rbtree_init sen n M) = Some s \<and> rbt s xs \<and> distinct xs \<and>
    set xs = dom (fold rb_held cs Map.empty) \<and> (\<forall>x\<in>set xs. fold rb_held cs Map.empty x = Some (rkey s x)) \<and>
    sorted (map (\<lambda>x. u32_sub (rkey s x) base) xs) \<and>
    owns s t \<and> inorder t = xs \<and> 2 ^ height t \<le> (length xs + 1) ^ 2"
proof -
  obtain s xs where r: "rb_run cs (ngx_rbtree_init sen n M) = Some s" "rb_holds A sen base (fold rb_held cs Map.empty) s xs"
    using rb_run_holds [OF rb_init_holds [OF assms(2)] assms(1,3)] by blast
  then obtain t where t: "owns s t" "balanced s t" "inorder t = xs" by (auto simp: rb_holds_def rbt_def)
  then have "2 ^ height t \<le> (length xs + 1) ^ 2" using balanced_height [OF t(2)] by auto
  moreover have "distinct xs" using t by (auto simp: owns_def)
  ultimately show ?thesis using r t by (auto simp: rb_holds_def timer_in_order)
qed

theorem rbtree_runs_witness:
  "\<exists>s. rb_run [Add_node 5 30, Add_node 6 4294967290, Add_node 7 20, Delete_node 5, Add_node 5 10] (ngx_rbtree_init 1 (demo_node 0 0 0 0) (rb_mem demo_tree)) = Some s \<and>
    rbt s [6, 5, 7]"
proof -
  let ?cs = "[Add_node 5 30, Add_node 6 4294967290, Add_node 7 20, Delete_node 5, Add_node 5 10]" and ?b = 4294967000
  let ?m = "fold rb_held ?cs Map.empty"
  have "rb_fair {5, 6, 7} ?b ?cs Map.empty" by (simp add: window_def u32_sub_def)
  moreover have "{5, 6, 7} \<subseteq> dom (rb_mem demo_tree)" by (auto simp: demo_tree_def)
  ultimately obtain s xs where r: "rb_run ?cs (ngx_rbtree_init 1 (demo_node 0 0 0 0) (rb_mem demo_tree)) = Some s" "rbt s xs" "distinct xs"
    "set xs = dom ?m" "\<forall>x\<in>set xs. ?m x = Some (rkey s x)" "sorted (map (\<lambda>x. u32_sub (rkey s x) ?b) xs)"
    using rbtree_runs_correct [of "{5, 6, 7}" ?b ?cs "rb_mem demo_tree" 1 "demo_node 0 0 0 0"] by auto
  have set: "set xs = {5, 6, 7}" using r(4) by auto
  define f where "f = (\<lambda>x. u32_sub (rkey s x) ?b)"
  have f: "f 5 = 306" "f 6 = 290" "f 7 = 316" using r(5) set by (auto simp: f_def u32_sub_def)
  have inj: "inj_on f (set xs \<union> set [6, 5, 7])" using f by (auto simp: set inj_on_def)
  have "distinct (map f xs)" using r(3) inj by (auto simp: distinct_map inj_on_def)
  then have "xs = [6, 5, 7]"
    using map_sorted_distinct_set_unique [OF inj, of] r(6) f set insert_commute [of 5 6 "{7}"] unfolding f_def [symmetric] by simp
  then show ?thesis using r by auto
qed

section \<open>The timer\<close>

text \<open>C5: \<open>expire_timer\<close> at \<open>now\<close> ends without a fault, runs the handler of every due timer exactly once in
  the order of the deadlines, and leaves none due, provided the deadlines do not wrap around, and the handlers
  delete nothing and add only later timers. The entries of the timers that fired are freed: what is allocated
  afterwards is what was, without these entries, and the timers in the tree, among them those the handlers
  added.\<close>

theorem rbt_expire_timer_correct:
  assumes "rbt_low base t" and "rbt_handlers_ok base now call"
  shows "\<exists>fired t'. rbt_expire_timer call now t = Some (fired, t') \<and> rbt_low base t' \<and>
     mset (map fst fired) = filter_mset (\<lambda>x. rbt_key t x \<le> now) (mset (rbt_items t)) \<and>
     (\<forall>p\<in>set fired. snd p = rbt_key t (fst p)) \<and> sorted (map snd fired) \<and>
     filter_mset (\<lambda>x. now < rbt_key t x) (mset (rbt_items t)) \<subseteq># mset (rbt_items t') \<and>
     (\<forall>x\<in>set (rbt_items t'). now < rbt_key t' x) \<and>
     dom (rb_mem (rt_tree t')) = dom (rb_mem (rt_tree t)) - fst ` set fired \<union> set (rbt_items t')"
proof -
  let ?C = "dom (rb_mem (rt_tree t)) - set (rbt_items t)"
  have "rbt_ok base t" using assms(1) by (simp add: rbt_low_def)
  note al = rbt_items_alloc [OF this]
  obtain fired t' where r: "rbt_expire_timer call now t = Some (fired, t')" "rbt_owns base ?C t'"
    "mset (map fst fired) = filter_mset (\<lambda>x. rbt_key t x \<le> now) (mset (rbt_items t))"
    "\<forall>p\<in>set fired. snd p = rbt_key t (fst p)" "sorted (map snd fired)"
    "filter_mset (\<lambda>x. now < rbt_key t x) (mset (rbt_items t)) \<subseteq># mset (rbt_items t')" "\<forall>x\<in>set (rbt_items t'). now < rbt_key t' x"
    using rbtt.expire_loop_correct [OF rbt_owns_start [OF assms(1)] rbt_handlers_well_behaved [OF assms(2)]]
    by (auto simp: rbt_expire_timer_def rbtt.due_def rbtt.waiting_def filter_mset_eq_mempty_iff not_le)
  have "dom (rb_mem (rt_tree t')) = dom (rb_mem (rt_tree t)) - fst ` set fired \<union> set (rbt_items t')"
    by (rule owned_after [OF r(3,6)]) (use r(2) al in \<open>auto simp: rbt_owns_def\<close>)
  then show ?thesis using r by (auto simp: rbt_owns_def)
qed

definition demo_timer :: rbt_timer where
  "demo_timer = \<lparr>rt_tree = demo_tree, rt_handler = [5 \<mapsto> 0, 6 \<mapsto> 0]\<rparr>"

lemma demo_timer_ok: "rbt_ok 0 demo_timer \<and> rbt_items demo_timer = [6, 5]"
  by (rule rbt_okI) (use demo_rbt demo_window in \<open>auto simp: demo_timer_def rbt_key_def demo_keys u32_sub_def\<close>)

lemma silent_call: "rbt_ok base t \<Longrightarrow> rbt_peek t = Some (Some te) \<Longrightarrow> rbt_call (\<lambda>h te t. Some t) te t = Some t"
proof -
  assume ok: "rbt_ok base t" and "rbt_peek t = Some (Some te)"
  then have "te \<in> set (rbt_items t)" using rbt_peek_eq [OF ok] by (auto split: if_splits)
  then have "rt_handler t te \<noteq> None" using ok by (auto simp: rbt_ok_def)
  then show ?thesis by (auto simp: rbt_call_def)
qed

theorem rbt_expire_timer_witness:
  "\<exists>fired t'. rbt_expire_timer (\<lambda>h te t. Some t) 25 demo_timer = Some (fired, t') \<and> mset (map fst fired) = {#6#} \<and>
    dom (rb_mem (rt_tree t')) = {1, 5, 7} \<union> set (rbt_items t')"
proof -
  have low: "rbt_low 0 demo_timer" using demo_timer_ok by (simp add: rbt_low_def)
  have keys: "rbt_key demo_timer 5 = 30" "rbt_key demo_timer 6 = 20" by (simp_all add: rbt_key_def demo_timer_def demo_keys)
  have "rbt_handlers_ok 0 25 (\<lambda>h te t. Some t)"
    unfolding rbt_handlers_ok_def
  proof (intro allI impI)
    fix te t assume "rbt_low 0 t" "rbt_peek t = Some (Some te)"
    then show "\<exists>t' new. rbt_call (\<lambda>h te t. Some t) te t = Some t' \<and> rbt_low 0 t' \<and> rbt_peek t' = Some (Some te) \<and>
        mset (rbt_items t') = mset (rbt_items t) + new \<and> (\<forall>y\<in>set (rbt_items t). rbt_key t' y = rbt_key t y) \<and>
        (\<forall>y\<in>#new. 25 < rbt_key t' y) \<and> dom (rb_mem (rt_tree t')) = dom (rb_mem (rt_tree t)) \<union> set_mset new \<and>
        dom (rb_mem (rt_tree t)) \<inter> set_mset new = {}"
      using silent_call [of 0 t te] by (intro exI [of _ t] exI [of _ "{#}"]) (simp add: rbt_low_def)
  qed
  from rbt_expire_timer_correct [OF low this]
  obtain fired t' where r: "rbt_expire_timer (\<lambda>h te t. Some t) 25 demo_timer = Some (fired, t')" "mset (map fst fired) = {#6#}"
    "dom (rb_mem (rt_tree t')) = dom (rb_mem (rt_tree demo_timer)) - fst ` set fired \<union> set (rbt_items t')"
    using demo_timer_ok keys by auto
  have "fst ` set fired = {6}" using arg_cong [OF r(2), of set_mset] by auto
  moreover have "dom (rb_mem (rt_tree demo_timer)) = {1, 5, 6, 7}" by (auto simp: demo_timer_def demo_tree_def split: if_splits)
  ultimately show ?thesis using r by auto
qed

text \<open>\<open>add_timer\<close> puts a new entry with the deadline \<open>msec + now\<close>, taken modulo \<open>2 ^ 32\<close>, and its handler
  behind all entries that do not come after it, and changes no other deadline or handler, as long as all
  deadlines lie within half of the range.\<close>

theorem rbt_add_timer_correct:
  assumes "rbt_ok base t" and "te \<notin> set (rbt_items t)" and "te \<noteq> NULL" and "te \<noteq> rb_sentinel (rt_tree t)"
    and "u32_add msec now \<in> window base"
  shows "\<exists>t'. rbt_add_timer (Some te) now msec func t = Some t' \<and> rbt_ok base t' \<and>
    rbt_items t' = place_after timer_before (rbt_key t') te (rbt_items t) \<and>
    rbt_key t' = (rbt_key t)(te := u32_add msec now) \<and> rt_handler t' = (rt_handler t)(te \<mapsto> func)"
  by (rule add_timer_ok [OF assms])

theorem rbt_add_timer_witness:
  "\<exists>t'. rbt_add_timer (Some 8) 10 15 3 demo_timer = Some t' \<and> rbt_items t' = [6, 8, 5] \<and> rbt_key t' 8 = 25"
proof -
  have k: "u32_add 15 10 = 25" by (simp add: u32_add_def)
  obtain t' where t': "rbt_add_timer (Some 8) 10 15 3 demo_timer = Some t'"
    "rbt_items t' = place_after timer_before (rbt_key t') 8 [6, 5]" "rbt_key t' = (rbt_key demo_timer)(8 := 25)"
    using rbt_add_timer_correct [of 0 demo_timer 8 15 10 3] demo_timer_ok demo_window
    by (auto simp: k) (auto simp: demo_timer_def demo_tree_def)
  then show ?thesis
    by (simp add: place_after_def rbt_key_def demo_timer_def demo_keys timer_before_def s32_def u32_sub_def)
qed

text \<open>the insertion compares the deadlines as times that wrap around, but \<open>expire_timer\<close> compares them
  with \<open>now\<close> as numbers. When the clock is about to wrap, a timer whose deadline lies behind the wrap fires at
  once.\<close>

theorem rbt_wrapped_timer_fires_early:
  assumes "rbt (rt_tree t) []" and "te \<noteq> NULL" and "te \<noteq> rb_sentinel (rt_tree t)"
    and "now < UINT32_MOD" and "msec < UINT32_MOD" and "UINT32_MOD \<le> now + msec"
  shows "\<exists>t1 t2. rbt_add_timer (Some te) now msec func t = Some t1 \<and>
    rbt_expire_timer (\<lambda>h te t. Some t) now t1 = Some ([(te, msec + now - UINT32_MOD)], t2)"
proof -
  let ?k = "u32_add msec now"
  have k: "?k = msec + now - UINT32_MOD" "?k \<le> now" using assms(4-6) by (auto simp: u32_add_def mod_if)
  have w: "?k \<in> window ?k" by (simp add: window_def u32_add_def)
  have ok: "rbt_ok ?k t \<and> rbt_items t = []" by (rule rbt_okI) (use assms(1) in auto)
  obtain t1 where t1: "rbt_add_timer (Some te) now msec func t = Some t1" "rbt_ok ?k t1" "rbt_items t1 = [te]" "rbt_key t1 te = ?k"
    using add_timer_ok [of ?k t te msec now func] ok assms(2,3) w by (auto simp: place_after_def)
  obtain t2 where t2: "rbt_del_timer te t1 = Some t2" "rbt_ok ?k t2" "rbt_items t2 = []"
    using del_timer_ok [OF t1(2), of te] t1(3) by auto
  have pk: "rbt_peek t1 = Some (Some te)" "rbt_peek t2 = Some None" using rbt_peek_eq t1(2,3) t2(2,3) by auto
  have "rbt_deadline t1 te = Some ?k" using rbt_deadline_eq [OF t1(2), of te] t1(3,4) by simp
  moreover have "expire_loop rbt_peek rbt_deadline f now t2 = Some ([], t2)" for f
    using pk by (subst expire_loop.simps) simp
  ultimately have "rbt_expire_timer (\<lambda>h te t. Some t) now t1 = Some ([(te, ?k)], t2)"
    using pk k(2) silent_call [OF t1(2) pk(1)] t2(1) unfolding rbt_expire_timer_def by (subst expire_loop.simps) simp
  then show ?thesis using t1(1) k(1) by auto
qed

definition empty_timer :: rbt_timer where
  "empty_timer = rbt_init_timer 1 (demo_node 0 0 0 0) \<lparr>rt_tree = demo_tree, rt_handler = (\<lambda>_. None)\<rparr>"

lemma empty_timer_rbt: "rbt (rt_tree empty_timer) [] \<and> rb_sentinel (rt_tree empty_timer) = 1"
  unfolding rbt_def
  by (auto simp: empty_timer_def rbt_init_timer_def ngx_rbtree_init_def owns_def balanced_def intro!: exI [of _ Leaf])

theorem rbt_wrapped_timer_fires_early_witness:
  "\<exists>t1 t2. rbt_add_timer (Some 8) 4294967000 3000 0 empty_timer = Some t1 \<and>
    rbt_expire_timer (\<lambda>h te t. Some t) 4294967000 t1 = Some ([(8, 2704)], t2)"
  using rbt_wrapped_timer_fires_early [of empty_timer 8 4294967000 3000 0] empty_timer_rbt by simp

end
