(* ===== verification/ThreadPool.thy ===== *)
theory ThreadPool
  imports Paths
begin

text \<open>
  The thread pool of \<open>3.1.1\<close>: the workers with their loop, the task list, and the operations of the
  thread that owns the pool, as a system whose steps are interleaved in any order. What happens under the
  mutex is atomic for everything that needs the mutex; what the code does without it, the flag and the
  list of the workers, is one step for each access.
\<close>

section \<open>The lists\<close>

record link =
  lk_prev :: addr
  lk_next :: addr

definition LL_ADD :: "addr \<Rightarrow> addr \<Rightarrow> (addr \<Rightarrow> 'a link_scheme option) \<Rightarrow> (addr \<times> (addr \<Rightarrow> 'a link_scheme option)) option" where
  "LL_ADD item list m = do {
     i \<leftarrow> m item;
     let m1 = m(item \<mapsto> i\<lparr>lk_prev := NULL, lk_next := list\<rparr>);
     m2 \<leftarrow> (if list \<noteq> NULL then do { l \<leftarrow> m1 list; Some (m1(list \<mapsto> l\<lparr>lk_prev := item\<rparr>)) } else Some m1);
     Some (item, m2) }"

definition LL_REMOVE :: "addr \<Rightarrow> addr \<Rightarrow> (addr \<Rightarrow> 'a link_scheme option) \<Rightarrow> (addr \<times> (addr \<Rightarrow> 'a link_scheme option)) option" where
  "LL_REMOVE item list m = do {
     i \<leftarrow> m item;
     m1 \<leftarrow> (if lk_prev i \<noteq> NULL then do { p \<leftarrow> m (lk_prev i); Some (m(lk_prev i \<mapsto> p\<lparr>lk_next := lk_next i\<rparr>)) } else Some m);
     m2 \<leftarrow> (if lk_next i \<noteq> NULL then do { n \<leftarrow> m1 (lk_next i); Some (m1(lk_next i \<mapsto> n\<lparr>lk_prev := lk_prev i\<rparr>)) } else Some m1);
     j \<leftarrow> m2 item;
     Some (if list = item then lk_next j else list, m2(item \<mapsto> j\<lparr>lk_prev := NULL, lk_next := NULL\<rparr>)) }"

section \<open>State\<close>

record worker = link +
  wk_termination :: int

record task = link +
  tk_func :: nat
  tk_user_data :: nat

text \<open>Where a worker is: before the lock, at the test of the list of workers, at the test of its flag in
  that loop, in \<open>pthread_cond_wait\<close>, on the way out of it, at the test of its flag after the loop, at the
  task list, with a task, before \<open>free\<close>, or ended.\<close>

datatype wpc = WLock | WWorkers | WFlag | WWaiting | WWoken | WTest | WTake | WRun addr | WExit | WGone

text \<open>Where the owner is: with \<open>n\<close> workers to create, about to link a worker, between two calls, or in
  \<open>thread_destroy\<close>: at the flag of a worker, at its successor, before the broadcast.\<close>

datatype mpc = MCreate nat | MAdd addr nat | MIdle | MMark addr | MNext addr | MBroadcast

datatype thr = Owner | Worker addr

record tpool =
  tp_workers :: addr
  tp_tasks :: addr
  tp_mutex :: "thr option"
  tp_wmem :: "addr \<Rightarrow> worker option"
  tp_tmem :: "addr \<Rightarrow> task option"
  tp_pc :: "addr \<Rightarrow> wpc option"
  tp_main :: mpc
  tp_idx :: nat
  tp_pushed :: "addr list"
  tp_ran :: "addr list"

text \<open>\<open>tp_idx\<close> is the result of \<open>thread_poll_create\<close>; the last two components are a record of what was pushed and what was run.\<close>

datatype outcome = Blocked | Fault | Next tpool

fun of_option :: "tpool option \<Rightarrow> outcome" where
  "of_option None = Fault"
| "of_option (Some s) = Next s"

lemma of_option_simps [simp]: "of_option r = Next s \<longleftrightarrow> r = Some s" "of_option r = Fault \<longleftrightarrow> r = None" "of_option r \<noteq> Blocked"
  by (cases r; simp)+

section \<open>The workers\<close>

definition move_to :: "addr \<Rightarrow> wpc \<Rightarrow> tpool \<Rightarrow> tpool" where
  "move_to w pc s = s\<lparr>tp_pc := (tp_pc s)(w \<mapsto> pc)\<rparr>"

definition take_lock :: "addr \<Rightarrow> tpool \<Rightarrow> outcome" where
  "take_lock w s = (if tp_mutex s = None then Next (move_to w WWorkers (s\<lparr>tp_mutex := Some (Worker w)\<rparr>)) else Blocked)"

definition unlock :: "tpool \<Rightarrow> tpool" where
  "unlock s = s\<lparr>tp_mutex := None\<rparr>"

definition get_task :: "addr \<Rightarrow> tpool \<Rightarrow> tpool option" where
  "get_task w s =
    (if tp_tasks s \<noteq> NULL then do {
       (l, m) \<leftarrow> LL_REMOVE (tp_tasks s) (tp_tasks s) (tp_tmem s);
       Some (move_to w (WRun (tp_tasks s)) (unlock (s\<lparr>tp_tasks := l, tp_tmem := m\<rparr>))) }
     else Some (move_to w WLock (unlock s)))"

text \<open>\<open>counter\<close>, the function of the tasks, frees its task.\<close>

definition counter :: "addr \<Rightarrow> tpool \<Rightarrow> tpool option" where
  "counter t s = do {
     k \<leftarrow> tp_tmem s t;
     Some (s\<lparr>tp_tmem := (tp_tmem s)(t := None), tp_ran := t # tp_ran s\<rparr>) }"

definition thread_callback :: "addr \<Rightarrow> wpc \<Rightarrow> tpool \<Rightarrow> outcome" where
  "thread_callback w pc s = (case pc of
     WLock \<Rightarrow> take_lock w s
   | WWorkers \<Rightarrow> Next (move_to w (if tp_workers s = NULL then WFlag else WTest) s)
   | WFlag \<Rightarrow> of_option (do {
       n \<leftarrow> tp_wmem s w;
       Some (if wk_termination n \<noteq> 0 then move_to w WTest s else move_to w WWaiting (unlock s)) })
   | WWaiting \<Rightarrow> Blocked
   | WWoken \<Rightarrow> take_lock w s
   | WTest \<Rightarrow> of_option (do {
       n \<leftarrow> tp_wmem s w;
       Some (if wk_termination n \<noteq> 0 then move_to w WExit (unlock s) else move_to w WTake s) })
   | WTake \<Rightarrow> of_option (get_task w s)
   | WRun t \<Rightarrow> of_option (do { s1 \<leftarrow> counter t s; Some (move_to w WLock s1) })
   | WExit \<Rightarrow> of_option (do { n \<leftarrow> tp_wmem s w; Some (move_to w WGone (s\<lparr>tp_wmem := (tp_wmem s)(w := None)\<rparr>)) })
   | WGone \<Rightarrow> Blocked)"

section \<open>The owner\<close>

definition thread_poll_create :: "int \<Rightarrow> tpool" where
  "thread_poll_create thread_num = (let n = (if thread_num < 1 then 1 else thread_num) in
    \<lparr>tp_workers = NULL, tp_tasks = NULL, tp_mutex = None, tp_wmem = (\<lambda>_. None), tp_tmem = (\<lambda>_. None), tp_pc = (\<lambda>_. None),
     tp_main = MCreate (nat n), tp_idx = 0, tp_pushed = [], tp_ran = []\<rparr>)"

text \<open>One round of its loop; \<open>ok\<close>: \<open>pthread_create\<close> succeeds. The new thread runs before it is linked.\<close>

definition create_worker :: "addr option \<Rightarrow> bool \<Rightarrow> nat \<Rightarrow> tpool \<Rightarrow> tpool" where
  "create_worker malloc ok k s = (case malloc of
     None \<Rightarrow> s\<lparr>tp_main := MIdle\<rparr>
   | Some w \<Rightarrow> if ok then s\<lparr>tp_wmem := (tp_wmem s)(w \<mapsto> \<lparr>lk_prev = NULL, lk_next = NULL, wk_termination = 0\<rparr>),
         tp_pc := (tp_pc s)(w \<mapsto> WLock), tp_main := MAdd w k\<rparr>
       else s\<lparr>tp_main := MIdle\<rparr>)"

definition add_worker :: "addr \<Rightarrow> nat \<Rightarrow> tpool \<Rightarrow> tpool option" where
  "add_worker w k s = do {
     (l, m) \<leftarrow> LL_ADD w (tp_workers s) (tp_wmem s);
     Some (s\<lparr>tp_workers := l, tp_wmem := m, tp_main := MCreate k, tp_idx := Suc (tp_idx s)\<rparr>) }"

text \<open>\<open>pthread_cond_signal\<close> wakes one of the waiting threads, \<open>pthread_cond_broadcast\<close> all.\<close>

definition wake_some :: "(addr \<Rightarrow> bool) \<Rightarrow> tpool \<Rightarrow> tpool" where
  "wake_some W s = s\<lparr>tp_pc := (\<lambda>w. if W w \<and> tp_pc s w = Some WWaiting then Some WWoken else tp_pc s w)\<rparr>"

definition thread_poll_push_task :: "addr \<Rightarrow> task \<Rightarrow> addr option \<Rightarrow> tpool \<Rightarrow> outcome" where
  "thread_poll_push_task t k signalled s =
    (if tp_mutex s \<noteq> None then Blocked
     else of_option (do {
       (l, m) \<leftarrow> LL_ADD t (tp_tasks s) ((tp_tmem s)(t \<mapsto> k));
       Some (wake_some (\<lambda>w. signalled = Some w) (s\<lparr>tp_tasks := l, tp_tmem := m, tp_pushed := t # tp_pushed s\<rparr>)) }))"

definition destroy_at :: "addr \<Rightarrow> mpc" where
  "destroy_at w = (if w \<noteq> NULL then MMark w else MBroadcast)"

definition thread_destroy :: "mpc \<Rightarrow> tpool \<Rightarrow> outcome" where
  "thread_destroy pc s = (case pc of
     MIdle \<Rightarrow> Next (s\<lparr>tp_main := destroy_at (tp_workers s)\<rparr>)
   | MMark w \<Rightarrow> of_option (do {
       n \<leftarrow> tp_wmem s w;
       Some (s\<lparr>tp_wmem := (tp_wmem s)(w \<mapsto> n\<lparr>wk_termination := 1\<rparr>), tp_main := MNext w\<rparr>) })
   | MNext w \<Rightarrow> of_option (do { n \<leftarrow> tp_wmem s w; Some (s\<lparr>tp_main := destroy_at (lk_next n)\<rparr>) })
   | MBroadcast \<Rightarrow> (if tp_mutex s \<noteq> None then Blocked else Next (wake_some (\<lambda>_. True) s\<lparr>tp_main := MIdle\<rparr>))
   | _ \<Rightarrow> Blocked)"

section \<open>Interleavings\<close>

text \<open>\<open>AWake\<close> is a wake-up without a signal, which POSIX allows. The owner hands in tasks from \<open>malloc\<close>.\<close>

datatype act = AWorker addr | AWake addr | ACreate "addr option" bool | AAdd | APush addr nat nat "addr option" | ADestroy

definition fresh_worker :: "addr \<Rightarrow> tpool \<Rightarrow> bool" where
  "fresh_worker w s \<longleftrightarrow> w \<noteq> NULL \<and> tp_wmem s w = None \<and> (tp_pc s w = None \<or> tp_pc s w = Some WGone)"

fun perform :: "act \<Rightarrow> tpool \<Rightarrow> outcome" where
  "perform (AWorker w) s = (case tp_pc s w of None \<Rightarrow> Blocked | Some pc \<Rightarrow> thread_callback w pc s)"
| "perform (AWake w) s = (if tp_pc s w = Some WWaiting then Next (move_to w WWoken s) else Blocked)"
| "perform (ACreate malloc ok) s = (case tp_main s of
     MCreate 0 \<Rightarrow> Next (s\<lparr>tp_main := MIdle\<rparr>)
   | MCreate (Suc k) \<Rightarrow> if (\<forall>w. malloc = Some w \<longrightarrow> fresh_worker w s) then Next (create_worker malloc ok k s) else Blocked
   | _ \<Rightarrow> Blocked)"
| "perform AAdd s = (case tp_main s of MAdd w k \<Rightarrow> of_option (add_worker w k s) | _ \<Rightarrow> Blocked)"
| "perform (APush t f d signalled) s =
     (if tp_main s = MIdle \<and> t \<noteq> NULL \<and> tp_tmem s t = None
      then thread_poll_push_task t \<lparr>lk_prev = NULL, lk_next = NULL, tk_func = f, tk_user_data = d\<rparr> signalled s else Blocked)"
| "perform ADestroy s = thread_destroy (tp_main s) s"

inductive tp_reach :: "int \<Rightarrow> tpool \<Rightarrow> bool" for n where
  reach_init: "tp_reach n (thread_poll_create n)"
| reach_step: "tp_reach n s \<Longrightarrow> perform a s = Next s' \<Longrightarrow> tp_reach n s'"

fun performs :: "act list \<Rightarrow> tpool \<Rightarrow> outcome" where
  "performs [] s = Next s"
| "performs (a # as) s = (case perform a s of Next s1 \<Rightarrow> performs as s1 | r \<Rightarrow> r)"

lemma performs_reach: "performs as s = Next s' \<Longrightarrow> tp_reach n s \<Longrightarrow> tp_reach n s'"
  by (induction "as" arbitrary: s) (auto split: outcome.splits intro: reach_step)

end
