(* ===== verification/ThreadPool_Inv.thy ===== *)
theory ThreadPool_Inv
  imports ThreadPool
begin

text \<open>
  What every interleaving of the thread pool keeps: the task list is a doubly linked list, a task that was
  pushed is queued, or held by exactly one worker, or has run, the mutex belongs to the worker between its
  lock and its unlock, and the memory of a worker lives until it frees it itself.
\<close>

section \<open>Doubly linked lists\<close>

fun dlist :: "(addr \<Rightarrow> 'a link_scheme option) \<Rightarrow> addr \<Rightarrow> addr list \<Rightarrow> addr \<Rightarrow> bool" where
  "dlist m p [] x \<longleftrightarrow> x = NULL"
| "dlist m p (y # ys) x \<longleftrightarrow> x = y \<and> y \<noteq> NULL \<and> (\<exists>n. m y = Some n \<and> lk_prev n = p \<and> dlist m y ys (lk_next n))"

lemma dlist_cong: "(\<And>a. a \<in> set xs \<Longrightarrow> map_option (\<lambda>n. (lk_prev n, lk_next n)) (m' a) = map_option (\<lambda>n. (lk_prev n, lk_next n)) (m a)) \<Longrightarrow>
    dlist m' p xs x = dlist m p xs x"
proof (induction xs arbitrary: p x)
  case (Cons y ys)
  have "map_option (\<lambda>n. (lk_prev n, lk_next n)) (m' y) = map_option (\<lambda>n. (lk_prev n, lk_next n)) (m y)" using Cons.prems by simp
  moreover have "dlist m' y ys z = dlist m y ys z" for z using Cons by simp
  ultimately show ?case by (cases "m y"; cases "m' y") auto
qed simp

lemma dlist_dom: "dlist m p xs x \<Longrightarrow> y \<in> set xs \<Longrightarrow> m y \<noteq> None \<and> y \<noteq> NULL"
  by (induction xs arbitrary: p x) auto

lemma dlist_head: "dlist m p xs x \<Longrightarrow> x = (if xs = [] then NULL else hd xs)"
  by (cases xs) auto

lemma LL_ADD_ok:
  assumes d: "dlist m NULL xs h" "distinct xs" and i: "m item = Some i" "item \<notin> set xs" "item \<noteq> NULL"
  shows "\<exists>m'. LL_ADD item h m = Some (item, m') \<and> dlist m' NULL (item # xs) item \<and> dom m' = dom m \<and>
    (\<forall>a. map_option link.more (m' a) = map_option link.more (m a)) \<and> (\<forall>a. a \<notin> insert item (set xs) \<longrightarrow> m' a = m a)"
proof (cases xs)
  case Nil
  then show ?thesis using d i by (auto simp: LL_ADD_def)
next
  case (Cons y ys)
  obtain n where n: "m y = Some n" "dlist m y ys (lk_next n)" "h = y" "y \<noteq> NULL" using d(1) Cons by auto
  define m' where "m' = m(item \<mapsto> i\<lparr>lk_prev := NULL, lk_next := y\<rparr>, y \<mapsto> n\<lparr>lk_prev := item\<rparr>)"
  have yi: "y \<noteq> item" using i Cons by auto
  have run: "LL_ADD item h m = Some (item, m')" using n i yi by (simp add: LL_ADD_def m'_def)
  have "dlist m' y ys (lk_next n) = dlist m y ys (lk_next n)"
    by (rule dlist_cong) (use d(2) i Cons in \<open>auto simp: m'_def\<close>)
  then have "dlist m' NULL (item # xs) item" using n i yi Cons by (simp add: m'_def)
  moreover have "dom m' = dom m" using n i by (auto simp: m'_def)
  moreover have "map_option link.more (m' a) = map_option link.more (m a)" for a using n i yi by (simp add: m'_def)
  ultimately show ?thesis using run Cons by (auto simp: m'_def)
qed

lemma LL_REMOVE_head:
  assumes d: "dlist m NULL (y # ys) y" "distinct (y # ys)"
  shows "\<exists>h m'. LL_REMOVE y y m = Some (h, m') \<and> dlist m' NULL ys h \<and> dom m' = dom m \<and>
    (\<forall>a. map_option link.more (m' a) = map_option link.more (m a))"
proof -
  obtain n where n: "m y = Some n" "lk_prev n = NULL" "dlist m y ys (lk_next n)" "y \<noteq> NULL" using d(1) by auto
  show ?thesis
  proof (cases ys)
    case Nil
    then show ?thesis using n by (auto simp: LL_REMOVE_def)
  next
    case (Cons z zs)
    obtain k where k: "m z = Some k" "dlist m z zs (lk_next k)" "lk_next n = z" "z \<noteq> NULL" "lk_prev k = y" using n(3) Cons by auto
    have zy: "z \<noteq> y" using d(2) Cons by auto
    define m' where "m' = m(z \<mapsto> k\<lparr>lk_prev := NULL\<rparr>, y \<mapsto> n\<lparr>lk_prev := NULL, lk_next := NULL\<rparr>)"
    have run: "LL_REMOVE y y m = Some (z, m')" using n k zy by (simp add: LL_REMOVE_def m'_def)
    have "dlist m' z zs (lk_next k) = dlist m z zs (lk_next k)"
      by (rule dlist_cong) (use d(2) Cons in \<open>auto simp: m'_def\<close>)
    then have "dlist m' NULL ys z" using k zy Cons by (simp add: m'_def)
    moreover have "dom m' = dom m" using n k by (auto simp: m'_def)
    moreover have "map_option link.more (m' a) = map_option link.more (m a)" for a using n k zy by (simp add: m'_def)
    ultimately show ?thesis using run by blast
  qed
qed

section \<open>The invariant\<close>

definition held :: "tpool \<Rightarrow> addr \<Rightarrow> bool" where
  "held s t \<longleftrightarrow> (\<exists>w. tp_pc s w = Some (WRun t))"

text \<open>The tasks.\<close>

definition task_inv :: "tpool \<Rightarrow> addr list \<Rightarrow> bool" where
  "task_inv s ts \<longleftrightarrow> dlist (tp_tmem s) NULL ts (tp_tasks s) \<and> distinct ts \<and>
     (\<forall>t. tp_tmem s t \<noteq> None \<longleftrightarrow> t \<in> set ts \<or> held s t) \<and> (\<forall>t. t \<in> set ts \<longrightarrow> \<not> held s t) \<and>
     (\<forall>t v w. tp_pc s v = Some (WRun t) \<longrightarrow> tp_pc s w = Some (WRun t) \<longrightarrow> v = w) \<and>
     (\<forall>t. count_list (tp_pushed s) t = count_list (tp_ran s) t + (if tp_tmem s t \<noteq> None then 1 else 0))"

text \<open>The mutex and the memory of the workers.\<close>

definition locked_pc :: "wpc \<Rightarrow> bool" where
  "locked_pc pc \<longleftrightarrow> pc \<in> {WWorkers, WFlag, WTest, WTake}"

definition work_inv :: "tpool \<Rightarrow> bool" where
  "work_inv s \<longleftrightarrow> tp_mutex s \<noteq> Some Owner \<and> (\<forall>w. tp_mutex s = Some (Worker w) \<longrightarrow> tp_pc s w \<noteq> None) \<and>
     (\<forall>w pc. tp_pc s w = Some pc \<longrightarrow> (locked_pc pc \<longleftrightarrow> tp_mutex s = Some (Worker w))) \<and>
     (\<forall>w. tp_wmem s w \<noteq> None \<longleftrightarrow> (\<exists>pc. tp_pc s w = Some pc \<and> pc \<noteq> WGone))"

text \<open>While the workers are created none of them ends.\<close>

fun creating :: "mpc \<Rightarrow> bool" where
  "creating (MCreate k) = True"
| "creating (MAdd w k) = True"
| "creating _ = False"

definition create_inv :: "tpool \<Rightarrow> bool" where
  "create_inv s \<longleftrightarrow> (creating (tp_main s) \<longrightarrow>
     (\<forall>w n. tp_wmem s w = Some n \<longrightarrow> wk_termination n = 0) \<and> (\<forall>w. tp_pc s w \<noteq> Some WExit \<and> tp_pc s w \<noteq> Some WGone) \<and>
     (\<exists>ws. dlist (tp_wmem s) NULL ws (tp_workers s) \<and> distinct ws \<and> (\<forall>w k. tp_main s = MAdd w k \<longrightarrow> w \<notin> set ws \<and> w \<noteq> NULL \<and> tp_wmem s w \<noteq> None)))"

definition tp_inv :: "tpool \<Rightarrow> bool" where
  "tp_inv s \<longleftrightarrow> (\<exists>ts. task_inv s ts) \<and> work_inv s \<and> create_inv s"

lemma inv_start: "tp_inv (thread_poll_create n)"
proof -
  have "task_inv (thread_poll_create n) []" by (simp add: task_inv_def thread_poll_create_def Let_def held_def)
  then show ?thesis by (auto simp: tp_inv_def work_inv_def create_inv_def thread_poll_create_def Let_def intro: exI [of _ "[]"])
qed

section \<open>The workers keep it\<close>

lemma task_inv_cong:
  assumes "tp_tmem s' = tp_tmem s" "tp_tasks s' = tp_tasks s" "tp_pushed s' = tp_pushed s" "tp_ran s' = tp_ran s"
    and "\<And>w t. tp_pc s' w = Some (WRun t) \<longleftrightarrow> tp_pc s w = Some (WRun t)"
  shows "task_inv s' ts = task_inv s ts"
  using assms by (simp add: task_inv_def held_def)

lemmas tp_simps = move_to_def unlock_def take_lock_def wake_some_def

lemma held_move: "held (move_to w pc s) t \<longleftrightarrow> pc = WRun t \<or> (\<exists>v. v \<noteq> w \<and> tp_pc s v = Some (WRun t))"
  by (auto simp: held_def move_to_def)

lemma held_keep: "tp_pc s w = Some pc0 \<Longrightarrow> pc0 \<noteq> WRun u \<Longrightarrow> held (move_to w pc s) u \<longleftrightarrow> pc = WRun u \<or> held s u"
proof -
  assume w: "tp_pc s w = Some pc0" and n: "pc0 \<noteq> WRun u"
  have "v \<noteq> w" if "tp_pc s v = Some (WRun u)" for v using that w n by auto
  then show ?thesis unfolding held_move by (auto simp: held_def)
qed

lemma get_task_ok:
  assumes inv: "task_inv s ts" and w: "tp_pc s w = Some WTake"
  shows "\<exists>s' ts'. get_task w s = Some s' \<and> task_inv s' ts' \<and> tp_mutex s' = None \<and> tp_wmem s' = tp_wmem s \<and> tp_main s' = tp_main s \<and>
    tp_workers s' = tp_workers s \<and> (\<exists>pc. tp_pc s' = (tp_pc s)(w \<mapsto> pc) \<and> (pc = WLock \<or> (\<exists>t. pc = WRun t)))"
proof (cases ts)
  case Nil
  then have e: "tp_tasks s = NULL" using inv by (simp add: task_inv_def)
  have "task_inv (move_to w WLock (unlock s)) ts = task_inv s ts"
    by (rule task_inv_cong) (use w in \<open>auto simp: tp_simps\<close>)
  then show ?thesis using e inv by (auto simp: get_task_def tp_simps)
next
  case (Cons y ys)
  have d: "dlist (tp_tmem s) NULL (y # ys) y" "distinct (y # ys)" "tp_tasks s = y" "y \<noteq> NULL" using inv Cons by (auto simp: task_inv_def)
  obtain h m' where r: "LL_REMOVE y y (tp_tmem s) = Some (h, m')" "dlist m' NULL ys h" "dom m' = dom (tp_tmem s)"
    using LL_REMOVE_head [OF d(1,2)] by blast
  let ?s' = "move_to w (WRun y) (unlock (s\<lparr>tp_tasks := h, tp_tmem := m'\<rparr>))"
  have run: "get_task w s = Some ?s'" using d r(1) by (simp add: get_task_def)
  have mem: "m' t \<noteq> None \<longleftrightarrow> tp_tmem s t \<noteq> None" for t using r(3) by (auto simp: dom_def)
  have held: "held ?s' t \<longleftrightarrow> held s t \<or> t = y" for t using w held_keep [of "unlock (s\<lparr>tp_tasks := h, tp_tmem := m'\<rparr>)" w WTake t "WRun y"] by (auto simp: held_def tp_simps)
  have pcs: "tp_pc ?s' = (tp_pc s)(w \<mapsto> WRun y)" by (simp add: tp_simps)
  have "task_inv ?s' ys"
    using inv Cons d(2) r(2) mem w unfolding task_inv_def held
    by (auto simp: tp_simps held_def split: if_splits)
  then show ?thesis using run pcs by (auto simp: tp_simps)
qed

lemma counter_ok:
  assumes inv: "task_inv s ts" and w: "tp_pc s w = Some (WRun t)"
  shows "\<exists>s1. counter t s = Some s1 \<and> task_inv (move_to w WLock s1) ts \<and> tp_mutex s1 = tp_mutex s \<and> tp_wmem s1 = tp_wmem s \<and>
    tp_main s1 = tp_main s \<and> tp_workers s1 = tp_workers s \<and> tp_pc s1 = tp_pc s"
proof -
  have t: "held s t" "t \<notin> set ts" "tp_tmem s t \<noteq> None" using inv w by (auto simp: task_inv_def held_def)
  then obtain k where k: "tp_tmem s t = Some k" by auto
  let ?s1 = "s\<lparr>tp_tmem := (tp_tmem s)(t := None), tp_ran := t # tp_ran s\<rparr>"
  have run: "counter t s = Some ?s1" using k by (simp add: counter_def)
  have held: "held (move_to w WLock ?s1) u \<longleftrightarrow> held s u \<and> u \<noteq> t" for u
  proof (cases "u = t")
    case True
    then show ?thesis using inv w unfolding task_inv_def held_move by auto
  next
    case False
    then have "held (move_to w WLock ?s1) u \<longleftrightarrow> held ?s1 u" using held_keep [of ?s1 w "WRun t" u WLock] w by simp
    then show ?thesis using False by (simp add: held_def)
  qed
  have "dlist ((tp_tmem s)(t := None)) NULL ts (tp_tasks s) = dlist (tp_tmem s) NULL ts (tp_tasks s)"
    by (rule dlist_cong) (use t(2) in auto)
  then have "task_inv (move_to w WLock ?s1) ts"
    using inv t unfolding task_inv_def held by (auto simp: tp_simps)
  then show ?thesis using run by simp
qed

lemma worker_tasks:
  assumes inv: "task_inv s ts" and pc: "tp_pc s w = Some pc" and run: "thread_callback w pc s = Next s'"
  shows "\<exists>ts. task_inv s' ts"
proof -
  have same: ?thesis if "tp_tmem s' = tp_tmem s" "tp_tasks s' = tp_tasks s" "tp_pushed s' = tp_pushed s" "tp_ran s' = tp_ran s"
    "\<And>v t. tp_pc s' v = Some (WRun t) \<longleftrightarrow> tp_pc s v = Some (WRun t)"
    using task_inv_cong [OF that] inv by blast
  show ?thesis
  proof (cases pc)
    case WTake
    then show ?thesis using get_task_ok [OF inv, of w] pc run by (auto simp: thread_callback_def)
  next
    case (WRun t)
    then show ?thesis using counter_ok [OF inv, of w t] pc run by (auto simp: thread_callback_def)
  qed (rule same; use pc run in \<open>auto simp: thread_callback_def tp_simps bind_eq_Some_conv split: if_splits\<close>)+
qed

lemma work_inv_move:
  assumes inv: "work_inv s" and w: "tp_pc s w = Some pc" "pc \<noteq> WGone" "pc' \<noteq> WGone"
    and s': "tp_pc s' = (tp_pc s)(w \<mapsto> pc')" "dom (tp_wmem s') = dom (tp_wmem s)"
    and lock: "tp_mutex s' = (if locked_pc pc' then Some (Worker w) else if locked_pc pc then None else tp_mutex s)"
    and free: "locked_pc pc' \<Longrightarrow> \<not> locked_pc pc \<Longrightarrow> tp_mutex s = None"
  shows "work_inv s'"
proof -
  have m: "tp_wmem s' v \<noteq> None \<longleftrightarrow> tp_wmem s v \<noteq> None" for v using s'(2) by (auto simp: dom_def)
  have mut: "locked_pc q \<longleftrightarrow> tp_mutex s = Some (Worker v)" if "tp_pc s v = Some q" for v q
    using inv that by (auto simp: work_inv_def)
  have own: "tp_mutex s' \<noteq> Some Owner" using inv lock by (auto simp: work_inv_def)
  have "locked_pc q \<longleftrightarrow> tp_mutex s' = Some (Worker v)" if "tp_pc s' v = Some q" for v q
  proof (cases "v = w")
    case True
    then show ?thesis using that s'(1) lock mut [OF w(1)] by auto
  next
    case False
    then have "locked_pc q \<longleftrightarrow> tp_mutex s = Some (Worker v)" using that s'(1) mut by simp
    then show ?thesis using False lock free mut [OF w(1)] by (auto split: if_splits)
  qed
  moreover have "tp_wmem s' v \<noteq> None \<longleftrightarrow> (\<exists>pc. tp_pc s' v = Some pc \<and> pc \<noteq> WGone)" for v
    using inv w s'(1) unfolding m by (auto simp: work_inv_def)
  moreover have "tp_pc s' v \<noteq> None" if "tp_mutex s' = Some (Worker v)" for v
    using that inv lock s'(1) by (auto simp: work_inv_def split: if_splits)
  ultimately show ?thesis using own by (simp add: work_inv_def)
qed

lemma worker_work:
  assumes inv: "work_inv s" and pc: "tp_pc s w = Some pc" and run: "thread_callback w pc s = Next s'" and tasks: "task_inv s ts"
  shows "work_inv s'"
proof -
  have lk: "locked_pc pc \<longleftrightarrow> tp_mutex s = Some (Worker w)" using inv pc by (simp add: work_inv_def)
  show ?thesis
  proof (cases pc)
    case WTake
    then obtain pc' where "tp_pc s' = (tp_pc s)(w \<mapsto> pc')" "pc' = WLock \<or> (\<exists>t. pc' = WRun t)" "tp_mutex s' = None" "tp_wmem s' = tp_wmem s"
      using get_task_ok [OF tasks, of w] pc run by (auto simp: thread_callback_def)
    then show ?thesis using WTake by (intro work_inv_move [OF inv pc]) (auto simp: locked_pc_def)
  next
    case (WRun t)
    then have "tp_pc s' = (tp_pc s)(w \<mapsto> WLock)" "tp_mutex s' = tp_mutex s" "tp_wmem s' = tp_wmem s"
      using counter_ok [OF tasks, of w t] pc run by (auto simp: thread_callback_def move_to_def)
    then show ?thesis using WRun by (intro work_inv_move [OF inv pc]) (auto simp: locked_pc_def)
  next
    case WExit
    then have s': "tp_pc s' = (tp_pc s)(w \<mapsto> WGone)" "tp_mutex s' = tp_mutex s" "tp_wmem s' = (tp_wmem s)(w := None)"
      using run by (auto simp: thread_callback_def move_to_def bind_eq_Some_conv)
    show ?thesis using inv pc WExit s' unfolding work_inv_def by (auto simp: locked_pc_def)
  next
    case WLock
    then show ?thesis using run by (intro work_inv_move [OF inv pc, of WWorkers]) (auto simp: thread_callback_def tp_simps locked_pc_def split: if_splits)
  next
    case WWoken
    then show ?thesis using run by (intro work_inv_move [OF inv pc, of WWorkers]) (auto simp: thread_callback_def tp_simps locked_pc_def split: if_splits)
  next
    case WWorkers
    then show ?thesis using run lk by (intro work_inv_move [OF inv pc, of "if tp_workers s = NULL then WFlag else WTest"])
      (auto simp: thread_callback_def tp_simps locked_pc_def)
  next
    case WFlag
    then obtain n where n: "tp_wmem s w = Some n" "s' = (if wk_termination n \<noteq> 0 then move_to w WTest s else move_to w WWaiting (unlock s))"
      using run by (auto simp: thread_callback_def bind_eq_Some_conv)
    show ?thesis using WFlag lk n(2) by (intro work_inv_move [OF inv pc, of "if wk_termination n \<noteq> 0 then WTest else WWaiting"])
      (auto simp: tp_simps locked_pc_def)
  next
    case WTest
    then obtain n where n: "tp_wmem s w = Some n" "s' = (if wk_termination n \<noteq> 0 then move_to w WExit (unlock s) else move_to w WTake s)"
      using run by (auto simp: thread_callback_def bind_eq_Some_conv)
    show ?thesis using WTest lk n(2) by (intro work_inv_move [OF inv pc, of "if wk_termination n \<noteq> 0 then WExit else WTake"])
      (auto simp: tp_simps locked_pc_def)
  qed (use run in \<open>auto simp: thread_callback_def\<close>)
qed

lemma worker_create:
  assumes inv: "create_inv s" and pc: "tp_pc s w = Some pc" and run: "thread_callback w pc s = Next s'" and tasks: "task_inv s ts"
  shows "create_inv s'"
proof -
  have keep: ?thesis if "tp_main s' = tp_main s" "tp_workers s' = tp_workers s" "tp_wmem s' = tp_wmem s"
    "tp_pc s' = (tp_pc s)(w \<mapsto> pc')" "creating (tp_main s) \<Longrightarrow> pc' \<noteq> WExit \<and> pc' \<noteq> WGone" for pc'
    using inv that unfolding create_inv_def by auto
  show ?thesis
  proof (cases pc)
    case WTake
    then show ?thesis using get_task_ok [OF tasks, of w] pc run by (auto simp: thread_callback_def intro: keep)
  next
    case (WRun t)
    then show ?thesis using counter_ok [OF tasks, of w t] pc run
      by (intro keep [of WLock]) (auto simp: thread_callback_def move_to_def)
  next
    case WExit
    then show ?thesis using inv pc run unfolding create_inv_def by (auto simp: thread_callback_def move_to_def bind_eq_Some_conv)
  next
    case WTest
    then obtain n where n: "tp_wmem s w = Some n" "s' = (if wk_termination n \<noteq> 0 then move_to w WExit (unlock s) else move_to w WTake s)"
      using run by (auto simp: thread_callback_def bind_eq_Some_conv)
    then have "creating (tp_main s) \<Longrightarrow> wk_termination n = 0" using inv by (auto simp: create_inv_def)
    then show ?thesis using n(2) by (intro keep [of "if wk_termination n \<noteq> 0 then WExit else WTake"]) (auto simp: tp_simps)
  next
    case WFlag
    then obtain n where n: "tp_wmem s w = Some n" "s' = (if wk_termination n \<noteq> 0 then move_to w WTest s else move_to w WWaiting (unlock s))"
      using run by (auto simp: thread_callback_def bind_eq_Some_conv)
    show ?thesis using n(2) by (intro keep [of "if wk_termination n \<noteq> 0 then WTest else WWaiting"]) (auto simp: tp_simps)
  next
    case WWorkers
    then show ?thesis using run by (intro keep [of "if tp_workers s = NULL then WFlag else WTest"]) (auto simp: thread_callback_def tp_simps)
  next
    case WLock
    then show ?thesis using run by (intro keep [of WWorkers]) (auto simp: thread_callback_def tp_simps split: if_splits)
  next
    case WWoken
    then show ?thesis using run by (intro keep [of WWorkers]) (auto simp: thread_callback_def tp_simps split: if_splits)
  qed (use run in \<open>auto simp: thread_callback_def\<close>)
qed

lemma worker_no_fault:
  assumes inv: "tp_inv s" and pc: "tp_pc s w = Some pc"
  shows "thread_callback w pc s \<noteq> Fault"
proof -
  obtain ts where ts: "task_inv s ts" using inv by (auto simp: tp_inv_def)
  have "pc \<noteq> WGone \<Longrightarrow> tp_wmem s w \<noteq> None" using inv pc by (auto simp: tp_inv_def work_inv_def)
  then show ?thesis using get_task_ok [OF ts, of w] counter_ok [OF ts, of w] pc
    by (cases pc) (auto simp: thread_callback_def take_lock_def)
qed

section \<open>The owner keeps it\<close>

lemma work_wake: "work_inv s \<Longrightarrow> work_inv (wake_some W s)"
  unfolding work_inv_def by (auto simp: wake_some_def locked_pc_def)

lemma create_wake: "create_inv s \<Longrightarrow> create_inv (wake_some W s)"
  unfolding create_inv_def by (auto simp: wake_some_def)

lemma task_wake: "task_inv (wake_some W s) ts = task_inv s ts"
  by (rule task_inv_cong) (auto simp: wake_some_def)

lemma tp_push_ok:
  assumes inv: "tp_inv s" and t: "t \<noteq> NULL" "tp_tmem s t = None" and idle: "tp_main s = MIdle" and free: "tp_mutex s = None"
  shows "\<exists>s'. thread_poll_push_task t k sig s = Next s' \<and> tp_inv s' \<and> tp_tasks s' = t"
proof -
  obtain ts where ts: "task_inv s ts" using inv by (auto simp: tp_inv_def)
  let ?m = "(tp_tmem s)(t \<mapsto> k)"
  have "tp_tmem s t \<noteq> None \<longleftrightarrow> t \<in> set ts \<or> held s t" using ts by (simp add: task_inv_def)
  then have out: "t \<notin> set ts" "\<not> held s t" using t(2) by auto
  have "dlist ?m NULL ts (tp_tasks s) = dlist (tp_tmem s) NULL ts (tp_tasks s)" by (rule dlist_cong) (use out in auto)
  then have d: "dlist ?m NULL ts (tp_tasks s)" "distinct ts" using ts by (auto simp: task_inv_def)
  have mt: "?m t = Some k" by simp
  obtain m' where m': "LL_ADD t (tp_tasks s) ?m = Some (t, m')" "dlist m' NULL (t # ts) t" "dom m' = dom ?m"
    using LL_ADD_ok [OF d mt out(1) t(1)] by blast
  let ?s1 = "s\<lparr>tp_tasks := t, tp_tmem := m', tp_pushed := t # tp_pushed s\<rparr>"
  have run: "thread_poll_push_task t k sig s = Next (wake_some (\<lambda>w. sig = Some w) ?s1)"
    using m'(1) free by (simp add: thread_poll_push_task_def)
  have mem: "m' u \<noteq> None \<longleftrightarrow> u = t \<or> tp_tmem s u \<noteq> None" for u
  proof -
    have "u \<in> dom m' \<longleftrightarrow> u \<in> dom ?m" by (simp only: m'(3))
    then show ?thesis by (auto simp: domIff split: if_splits)
  qed
  have "held ?s1 u = held s u" for u by (simp add: held_def)
  then have "task_inv ?s1 (t # ts)" using ts out m'(2) d(2) mem t(2) unfolding task_inv_def by auto
  moreover have "work_inv ?s1" using inv by (simp add: tp_inv_def work_inv_def)
  moreover have "create_inv ?s1" using idle by (simp add: create_inv_def)
  ultimately have "tp_inv (wake_some (\<lambda>w. sig = Some w) ?s1)"
    unfolding tp_inv_def using work_wake create_wake task_wake by blast
  then show ?thesis using run by (simp add: wake_some_def)
qed

lemma tp_create_ok:
  assumes inv: "tp_inv s" and main: "tp_main s = MCreate (Suc k)" and new: "\<forall>w. malloc = Some w \<longrightarrow> fresh_worker w s"
  shows "tp_inv (create_worker malloc ok k s)"
proof -
  obtain ts ws where ts: "task_inv s ts" and ws: "dlist (tp_wmem s) NULL ws (tp_workers s)" "distinct ws"
    using inv main by (auto simp: tp_inv_def create_inv_def)
  have idle: "tp_inv (s\<lparr>tp_main := MIdle\<rparr>)"
  proof -
    have "task_inv (s\<lparr>tp_main := MIdle\<rparr>) ts = task_inv s ts" by (rule task_inv_cong) auto
    then show ?thesis using inv ts by (auto simp: tp_inv_def work_inv_def create_inv_def)
  qed
  show ?thesis
  proof (cases "malloc = None \<or> \<not> ok")
    case False
    then obtain w where w: "malloc = Some w" "fresh_worker w s" ok using new by auto
    let ?n = "\<lparr>lk_prev = NULL, lk_next = NULL, wk_termination = 0\<rparr>"
    let ?s = "s\<lparr>tp_wmem := (tp_wmem s)(w \<mapsto> ?n), tp_pc := (tp_pc s)(w \<mapsto> WLock), tp_main := MAdd w k\<rparr>"
    have eq: "create_worker malloc ok k s = ?s" using w by (simp add: create_worker_def)
    have "task_inv ?s ts = task_inv s ts" by (rule task_inv_cong) (use w(2) in \<open>auto simp: fresh_worker_def\<close>)
    moreover have "tp_mutex s \<noteq> Some (Worker w)" if "tp_pc s w = Some WGone"
      using inv that by (auto simp: tp_inv_def work_inv_def locked_pc_def)
    then have "work_inv ?s" using inv w(2) unfolding tp_inv_def work_inv_def fresh_worker_def
      by (auto simp: locked_pc_def)
    moreover have out: "w \<notin> set ws" using dlist_dom [OF ws(1), of w] w(2) by (auto simp: fresh_worker_def)
    have "dlist (tp_wmem ?s) NULL ws (tp_workers s) = dlist (tp_wmem s) NULL ws (tp_workers s)"
      by (rule dlist_cong) (use out in auto)
    then have "create_inv ?s" using inv ws out w(2) main unfolding create_inv_def tp_inv_def
      by (auto simp: fresh_worker_def)
    ultimately show ?thesis unfolding eq using ts by (auto simp: tp_inv_def)
  qed (use idle in \<open>auto simp: create_worker_def split: option.splits\<close>)
qed

lemma tp_add_ok:
  assumes inv: "tp_inv s" and main: "tp_main s = MAdd w k"
  shows "\<exists>s'. add_worker w k s = Some s' \<and> tp_inv s' \<and> tp_workers s' = w"
proof -
  obtain ts ws n where ts: "task_inv s ts" and ws: "dlist (tp_wmem s) NULL ws (tp_workers s)" "distinct ws"
    and w: "w \<notin> set ws" "w \<noteq> NULL" "tp_wmem s w = Some n" and flags: "\<And>v m. tp_wmem s v = Some m \<Longrightarrow> wk_termination m = 0"
    using inv main by (fastforce simp: tp_inv_def create_inv_def)
  obtain m' where m': "LL_ADD w (tp_workers s) (tp_wmem s) = Some (w, m')" "dlist m' NULL (w # ws) w" "dom m' = dom (tp_wmem s)"
    "\<forall>a. map_option link.more (m' a) = map_option link.more (tp_wmem s a)" using LL_ADD_ok [OF ws w(3,1,2)] by blast
  let ?s = "s\<lparr>tp_workers := w, tp_wmem := m', tp_main := MCreate k, tp_idx := Suc (tp_idx s)\<rparr>"
  have run: "add_worker w k s = Some ?s" using m'(1) by (simp add: add_worker_def)
  have "task_inv ?s ts = task_inv s ts" by (rule task_inv_cong) auto
  moreover have "m' v \<noteq> None \<longleftrightarrow> tp_wmem s v \<noteq> None" for v using m'(3) by (metis domIff)
  then have "work_inv ?s" using inv by (simp add: tp_inv_def work_inv_def)
  moreover have "wk_termination x = 0" if mv: "m' v = Some x" for v x
  proof -
    obtain y where y: "tp_wmem s v = Some y" "link.more x = link.more y" using mv m'(4) [rule_format, of v] by (cases "tp_wmem s v") auto
    then have "wk_termination x = wk_termination y" by (cases x; cases y) simp
    then show ?thesis using flags [OF y(1)] by simp
  qed
  then have "create_inv ?s" using inv main m'(2) ws w(1) unfolding tp_inv_def create_inv_def
    by (auto intro!: exI [of _ "w # ws"])
  ultimately show ?thesis using run ts by (auto simp: tp_inv_def)
qed

lemma destroy_ok:
  assumes inv: "tp_inv s" and run: "thread_destroy (tp_main s) s = Next s'"
  shows "tp_inv s'"
proof -
  obtain ts where ts: "task_inv s ts" using inv by (auto simp: tp_inv_def)
  have main: "\<not> creating (tp_main s)" using run by (cases "tp_main s") (auto simp: thread_destroy_def)
  have keep: "tp_inv (t\<lparr>tp_main := pc\<rparr>)" if "tp_inv t" "\<not> creating pc" for t pc
  proof -
    have "task_inv (t\<lparr>tp_main := pc\<rparr>) ts = task_inv t ts" for ts by (rule task_inv_cong) auto
    then show ?thesis using that by (auto simp: tp_inv_def work_inv_def create_inv_def)
  qed
  have at: "\<not> creating (destroy_at w)" for w by (simp add: destroy_at_def)
  show ?thesis
  proof (cases "tp_main s")
    case (MMark w)
    then obtain n where n: "tp_wmem s w = Some n" "s' = s\<lparr>tp_wmem := (tp_wmem s)(w \<mapsto> n\<lparr>wk_termination := 1\<rparr>), tp_main := MNext w\<rparr>"
      using run by (auto simp: thread_destroy_def bind_eq_Some_conv)
    let ?s = "s\<lparr>tp_wmem := (tp_wmem s)(w \<mapsto> n\<lparr>wk_termination := 1\<rparr>)\<rparr>"
    have "task_inv ?s ts = task_inv s ts" by (rule task_inv_cong) auto
    moreover have "work_inv ?s" using inv n(1) unfolding tp_inv_def work_inv_def by auto
    moreover have "create_inv ?s" using main by (simp add: create_inv_def)
    ultimately have "tp_inv ?s" using ts by (auto simp: tp_inv_def)
    from keep [OF this, of "MNext w"] show ?thesis using n(2) by simp
  next
    case (MNext w)
    then show ?thesis using run keep [OF inv] at by (auto simp: thread_destroy_def bind_eq_Some_conv)
  next
    case MBroadcast
    have "tp_inv (wake_some (\<lambda>_. True) s)" using inv work_wake create_wake task_wake unfolding tp_inv_def by blast
    from keep [OF this, of MIdle] show ?thesis using run MBroadcast by (auto simp: thread_destroy_def split: if_splits)
  qed (use run keep [OF inv] at in \<open>auto simp: thread_destroy_def\<close>)
qed

lemma perform_inv:
  assumes inv: "tp_inv s" and run: "perform a s = Next s'"
  shows "tp_inv s'"
proof (cases a)
  case (AWorker w)
  then obtain pc where pc: "tp_pc s w = Some pc" "thread_callback w pc s = Next s'" using run by (auto split: option.splits)
  obtain ts where ts: "task_inv s ts" "work_inv s" "create_inv s" using inv by (auto simp: tp_inv_def)
  show ?thesis unfolding tp_inv_def
    using worker_tasks [OF ts(1) pc] worker_work [OF ts(2) pc ts(1)] worker_create [OF ts(3) pc ts(1)] by blast
next
  case (AWake w)
  then have "s' = wake_some (\<lambda>v. v = w) s" using run by (auto simp: wake_some_def move_to_def fun_eq_iff split: if_splits)
  then show ?thesis using inv work_wake create_wake task_wake unfolding tp_inv_def by blast
next
  case (ACreate malloc ok)
  have "tp_inv (s\<lparr>tp_main := MIdle\<rparr>)"
  proof -
    have "task_inv (s\<lparr>tp_main := MIdle\<rparr>) ts = task_inv s ts" for ts by (rule task_inv_cong) auto
    then show ?thesis using inv by (auto simp: tp_inv_def work_inv_def create_inv_def)
  qed
  then show ?thesis using run ACreate tp_create_ok [OF inv] by (auto split: mpc.splits nat.splits if_splits)
next
  case AAdd
  then show ?thesis using run tp_add_ok [OF inv] by (fastforce split: mpc.splits)
next
  case (APush t f d sig)
  then show ?thesis using run tp_push_ok [OF inv, of t "\<lparr>lk_prev = NULL, lk_next = NULL, tk_func = f, tk_user_data = d\<rparr>" sig]
    by (auto simp: thread_poll_push_task_def split: if_splits)
next
  case ADestroy
  then show ?thesis using run destroy_ok [OF inv] by simp
qed

lemma tp_reach_inv: "tp_reach n s \<Longrightarrow> tp_inv s"
  by (induction rule: tp_reach.induct) (auto intro: inv_start perform_inv)

text \<open>
  The properties of the thread pool over all interleavings, and what its test of the wrong list and its
  unprotected flag lead to.
\<close>

section \<open>Tasks\<close>

text \<open>C28: in every reachable state of the pool the task list is a doubly linked list, and each task that was
  ever pushed is in exactly one place: as often as it was pushed it has run, or is in the list, or is held by
  exactly one worker. No task is lost and none runs twice.\<close>

theorem thread_pool_runs_once:
  assumes "tp_reach n s"
  shows "\<exists>ts. dlist (tp_tmem s) NULL ts (tp_tasks s) \<and> distinct ts \<and>
    (\<forall>t. count_list (tp_pushed s) t = count_list (tp_ran s) t + (if t \<in> set ts then 1 else 0) + (if held s t then 1 else 0)) \<and>
    (\<forall>t v w. tp_pc s v = Some (WRun t) \<longrightarrow> tp_pc s w = Some (WRun t) \<longrightarrow> v = w)"
proof -
  obtain ts where ts: "task_inv s ts" using tp_reach_inv [OF assms] by (auto simp: tp_inv_def)
  have "count_list (tp_pushed s) t = count_list (tp_ran s) t + (if t \<in> set ts then 1 else 0) + (if held s t then 1 else 0)" for t
  proof -
    have "count_list (tp_pushed s) t = count_list (tp_ran s) t + (if tp_tmem s t \<noteq> None then 1 else 0)"
      "tp_tmem s t \<noteq> None \<longleftrightarrow> t \<in> set ts \<or> held s t" "t \<in> set ts \<longrightarrow> \<not> held s t" using ts by (simp_all only: task_inv_def) blast+
    then show ?thesis by auto
  qed
  moreover have "dlist (tp_tmem s) NULL ts (tp_tasks s)" "distinct ts"
    "\<forall>t v w. tp_pc s v = Some (WRun t) \<longrightarrow> tp_pc s w = Some (WRun t) \<longrightarrow> v = w" using ts by (simp_all add: task_inv_def)
  ultimately show ?thesis by blast
qed

text \<open>A pool with one worker at address 1.\<close>

definition one_worker :: tpool where
  "one_worker = \<lparr>tp_workers = 1, tp_tasks = NULL, tp_mutex = None,
     tp_wmem = [1 \<mapsto> \<lparr>lk_prev = NULL, lk_next = NULL, wk_termination = 0\<rparr>], tp_tmem = Map.empty, tp_pc = [1 \<mapsto> WLock],
     tp_main = MIdle, tp_idx = 1, tp_pushed = [], tp_ran = []\<rparr>"

lemma one_worker_run: "performs [ACreate (Some 1) True, AAdd, ACreate None True] (thread_poll_create 1) = Next one_worker"
  by (simp add: thread_poll_create_def fresh_worker_def create_worker_def add_worker_def LL_ADD_def one_worker_def fun_eq_iff)

lemma one_worker_reach: "tp_reach 1 one_worker"
  by (rule performs_reach [OF one_worker_run reach_init])

theorem thread_pool_runs_once_witness:
  "\<exists>s ts. performs [APush 9 0 0 None] one_worker = Next s \<and> dlist (tp_tmem s) NULL ts (tp_tasks s) \<and>
    count_list (tp_pushed s) 9 = count_list (tp_ran s) 9 + (if 9 \<in> set ts then 1 else 0) + (if held s 9 then 1 else 0)"
proof -
  obtain s where s: "performs [APush 9 0 0 None] one_worker = Next s"
    by (simp add: one_worker_def thread_poll_push_task_def LL_ADD_def)
  show ?thesis using thread_pool_runs_once [OF performs_reach [OF s one_worker_reach]] s by blast
qed

text \<open>no worker, no creation and no push ever touches memory that is not there, in any interleaving.\<close>

theorem thread_pool_workers_safe:
  assumes "tp_reach n s"
  shows "perform (AWorker w) s \<noteq> Fault \<and> perform AAdd s \<noteq> Fault \<and> perform (APush t f d sig) s \<noteq> Fault"
proof -
  note inv = tp_reach_inv [OF assms]
  have "perform (AWorker w) s \<noteq> Fault" using worker_no_fault [OF inv] by (auto split: option.splits)
  moreover have "perform AAdd s \<noteq> Fault" using tp_add_ok [OF inv] by (fastforce split: mpc.splits)
  moreover have "perform (APush t f d sig) s \<noteq> Fault"
    using tp_push_ok [OF inv, of t "\<lparr>lk_prev = NULL, lk_next = NULL, tk_func = f, tk_user_data = d\<rparr>" sig]
    by (cases "tp_mutex s") (auto simp: thread_poll_push_task_def)
  ultimately show ?thesis by blast
qed

theorem thread_pool_workers_safe_witness: "perform (APush 9 0 0 None) one_worker \<noteq> Fault"
  using thread_pool_workers_safe [OF one_worker_reach] by blast

text \<open>a task that is pushed is run by the next worker that comes to the list, before the tasks that wait
  there: the last task pushed is the first to run.\<close>

theorem thread_pool_last_in_first_out:
  assumes "tp_reach n s" and "tp_main s = MIdle" and "tp_mutex s = None" and "tp_workers s \<noteq> NULL"
    and "tp_pc s w = Some WLock" and "tp_wmem s w = Some m" and "wk_termination m = 0" and "t \<noteq> NULL" and "tp_tmem s t = None"
  shows "\<exists>s'. performs [APush t f d None, AWorker w, AWorker w, AWorker w, AWorker w, AWorker w] s = Next s' \<and>
    tp_ran s' = t # tp_ran s \<and> tp_tasks s' = tp_tasks s \<and> tp_pc s' = tp_pc s"
proof -
  let ?k = "\<lparr>lk_prev = NULL, lk_next = NULL, tk_func = f, tk_user_data = d\<rparr>"
  obtain ts where ts: "task_inv s ts" using tp_reach_inv [OF assms(1)] by (auto simp: tp_inv_def)
  have "tp_tmem s t \<noteq> None \<longleftrightarrow> t \<in> set ts \<or> held s t" using ts by (simp add: task_inv_def)
  then have out: "t \<notin> set ts" using assms(9) by auto
  have "dlist ((tp_tmem s)(t \<mapsto> ?k)) NULL ts (tp_tasks s) = dlist (tp_tmem s) NULL ts (tp_tasks s)" by (rule dlist_cong) (use out in auto)
  then have d: "dlist ((tp_tmem s)(t \<mapsto> ?k)) NULL ts (tp_tasks s)" "distinct ts" using ts by (auto simp: task_inv_def)
  have mt: "((tp_tmem s)(t \<mapsto> ?k)) t = Some ?k" by simp
  obtain m1 where m1: "LL_ADD t (tp_tasks s) ((tp_tmem s)(t \<mapsto> ?k)) = Some (t, m1)" "dlist m1 NULL (t # ts) t"
    using LL_ADD_ok [OF d mt out assms(8)] by blast
  have dist: "distinct (t # ts)" using d(2) out by simp
  obtain h m2 where m2: "LL_REMOVE t t m1 = Some (h, m2)" "dlist m2 NULL ts h" "dom m2 = dom m1" using LL_REMOVE_head [OF m1(2) dist] by blast
  have "h = tp_tasks s" using dlist_head [OF m2(2)] dlist_head [OF d(1)] by simp
  moreover have "m1 t \<noteq> None" using m1(2) by auto
  then obtain x where "m2 t = Some x" using m2(3) by (metis domD domI not_None_eq)
  ultimately show ?thesis using assms(2-8) m1(1) m2(1) assms(9)
    by (simp add: thread_poll_push_task_def wake_some_def thread_callback_def take_lock_def move_to_def unlock_def get_task_def
        counter_def fun_eq_iff)
qed

theorem thread_pool_last_in_first_out_witness:
  "\<exists>s'. performs [APush 9 0 0 None, AWorker 1, AWorker 1, AWorker 1, AWorker 1, AWorker 1] one_worker = Next s' \<and> tp_ran s' = [9]"
  using thread_pool_last_in_first_out [OF one_worker_reach, of 1 "\<lparr>lk_prev = NULL, lk_next = NULL, wk_termination = 0\<rparr>" 9 0 0]
  by (auto simp: one_worker_def simp del: performs.simps)

section \<open>Waiting and ending\<close>

text \<open>the loop around \<open>pthread_cond_wait\<close> tests the list of workers instead of the list of tasks. Once a
  worker is linked, a worker without a task never waits: it goes round and round, and each round ends in the
  state it began in.\<close>

theorem idle_workers_spin:
  assumes "tp_workers s \<noteq> NULL" and "tp_tasks s = NULL" and "tp_mutex s = None" and "tp_pc s w = Some WLock"
    and "tp_wmem s w = Some n" and "wk_termination n = 0"
  shows "performs (concat (replicate k (replicate 4 (AWorker w)))) s = Next s"
proof -
  have pc: "(tp_pc s)(w \<mapsto> WLock) = tp_pc s" using assms(4) by (simp add: fun_upd_idem)
  have mx: "s\<lparr>tp_mutex := None\<rparr> = s" using assms(3) by (cases s) simp
  have four: "replicate 4 (AWorker w) = [AWorker w, AWorker w, AWorker w, AWorker w]" by (simp add: numeral_eq_Suc)
  have "performs (replicate 4 (AWorker w) @ as) s = performs as s" for "as"
    unfolding four using assms pc
    by (simp add: thread_callback_def take_lock_def move_to_def unlock_def get_task_def mx)
  then show ?thesis by (induction k) simp_all
qed

theorem idle_workers_spin_witness: "performs (concat (replicate 1000 (replicate 4 (AWorker 1)))) one_worker = Next one_worker"
  by (rule idle_workers_spin [where n = "\<lparr>lk_prev = NULL, lk_next = NULL, wk_termination = 0\<rparr>"]) (simp_all add: one_worker_def)

text \<open>\<open>thread_destroy\<close> sets the flag of a worker without the mutex and then reads its successor. The worker
  can see the flag, leave its loop and free itself in between: then the memory that is read is gone.\<close>

theorem thread_destroy_reads_freed_worker:
  assumes "tp_main s = MMark w" and "tp_workers s \<noteq> NULL" and "tp_mutex s = None" and "tp_pc s w = Some WLock" and "tp_wmem s w \<noteq> None"
  shows "performs [ADestroy, AWorker w, AWorker w, AWorker w, AWorker w, ADestroy] s = Fault"
  using assms by (auto simp: thread_destroy_def thread_callback_def take_lock_def move_to_def unlock_def)

theorem thread_destroy_reads_freed_worker_witness:
  "performs (ADestroy # [ADestroy, AWorker 1, AWorker 1, AWorker 1, AWorker 1, ADestroy]) one_worker = Fault"
proof -
  define s where "s = one_worker\<lparr>tp_main := MMark 1\<rparr>"
  have "perform ADestroy one_worker = Next s" by (simp add: one_worker_def s_def thread_destroy_def destroy_at_def)
  moreover have "performs [ADestroy, AWorker 1, AWorker 1, AWorker 1, AWorker 1, ADestroy] s = Fault"
    by (rule thread_destroy_reads_freed_worker) (simp_all add: s_def one_worker_def)
  ultimately show ?thesis by (simp only: performs.simps outcome.case)
qed

end
