(* ===== verification/TryCatch.thy ===== *)
theory TryCatch
  imports Prelude
begin

text \<open>
  The exceptions of \<open>3.2.2\<close>: the macros \<open>Try\<close>, \<open>Catch\<close>, \<open>Finally\<close>, \<open>EndTry\<close>, \<open>Throw\<close>, and
  \<open>ntyExceptionThrow\<close>. The programs that use them are a small language; its semantics is what the macros
  expand to, with the frames of the \<open>Try\<close> blocks on the stack of the thread, \<open>setjmp\<close> and \<open>longjmp\<close> as
  the outcome \<open>Jump\<close> that unwinds to the block of the frame, and a thread-local pointer to the innermost
  frame. \<open>None\<close> is a use of a frame that does not exist.
\<close>

section \<open>State\<close>

type_synonym exc = nat

text \<open>\<open>fr_loc\<close> stands for the function, file and line of the throw, \<open>fr_message\<close> for the formatted text;
  \<open>None\<close> is the empty one.\<close>

record frame =
  fr_exception :: exc
  fr_loc :: nat
  fr_message :: "nat option"
  fr_next :: "nat option"

datatype printed = Said nat | Uncaught exc nat "nat option"

record tc =
  tc_top :: "nat option"
  tc_frames :: "nat \<Rightarrow> frame option"
  tc_out :: "printed list"

datatype outcome = Done | Returned | Jump nat

datatype flag = ExceptionEntered | ExceptionThrown | ExceptionHandled | ExceptionFinalized

section \<open>Macros\<close>

definition ntyExceptionPopStack :: "tc \<Rightarrow> tc option" where
  "ntyExceptionPopStack s = do { a \<leftarrow> tc_top s; f \<leftarrow> tc_frames s a; Some (s\<lparr>tc_top := fr_next f\<rparr>) }"

definition ntyExceptionThrow :: "exc \<Rightarrow> nat \<Rightarrow> nat option \<Rightarrow> tc \<Rightarrow> (outcome \<times> tc) option" where
  "ntyExceptionThrow excep loc cause s = (case tc_top s of
     Some a \<Rightarrow> do {
       f \<leftarrow> tc_frames s a;
       let f1 = f\<lparr>fr_exception := excep, fr_loc := loc\<rparr>;
       let f2 = (if cause \<noteq> None then f1\<lparr>fr_message := cause\<rparr> else f1);
       s1 \<leftarrow> ntyExceptionPopStack (s\<lparr>tc_frames := (tc_frames s)(a \<mapsto> f2)\<rparr>);
       Some (Jump a, s1) }
   | None \<Rightarrow> Some (Done, s\<lparr>tc_out := tc_out s @ [Uncaught excep loc cause]\<rparr>))"

text \<open>The head of \<open>Try\<close>: the frame of the block at depth \<open>d\<close>; its exception is not initialised.\<close>

definition try_enter :: "nat \<Rightarrow> tc \<Rightarrow> tc" where
  "try_enter d s = s\<lparr>tc_top := Some d,
     tc_frames := (tc_frames s)(d \<mapsto> \<lparr>fr_exception = 0, fr_loc = 0, fr_message = None, fr_next = tc_top s\<rparr>)\<rparr>"

text \<open>The end of the block: its frame is gone.\<close>

definition leave_block :: "nat \<Rightarrow> tc \<Rightarrow> tc" where
  "leave_block d s = s\<lparr>tc_frames := (tc_frames s)(d := None)\<rparr>"

definition end_try :: "nat \<Rightarrow> flag \<Rightarrow> tc \<Rightarrow> (outcome \<times> tc) option" where
  "end_try d flag s =
    (if flag = ExceptionThrown then do {
       f \<leftarrow> tc_frames s d;
       (r, s1) \<leftarrow> ntyExceptionThrow (fr_exception f) (fr_loc f) None s;
       Some (r, leave_block d s1) }
     else Some (Done, leave_block d s))"

text \<open>After the body: it fell through, it was left by \<open>return\<close>, or \<open>longjmp\<close> came back to \<open>setjmp\<close>. \<open>handler\<close> is
  the chain of the \<open>Catch\<close> branches: what the first that matches does, if one matches.\<close>

definition after_body :: "nat \<Rightarrow> (exc \<Rightarrow> tc \<Rightarrow> (outcome \<times> tc) option option) \<Rightarrow> (flag \<Rightarrow> tc \<Rightarrow> (outcome \<times> tc) option) \<Rightarrow>
    outcome \<times> tc \<Rightarrow> (outcome \<times> tc) option" where
  "after_body d handler rest rs = (case rs of
     (Done, s) \<Rightarrow> do { s1 \<leftarrow> ntyExceptionPopStack s; rest ExceptionEntered s1 }
   | (Returned, s) \<Rightarrow> Some (Returned, leave_block d s)
   | (Jump a, s) \<Rightarrow>
       if a = d then do {
         f \<leftarrow> tc_frames s d;
         (case handler (fr_exception f) s of
            None \<Rightarrow> rest ExceptionThrown s
          | Some h \<Rightarrow> do {
              (r, s1) \<leftarrow> h;
              (if r = Done then rest ExceptionHandled s1 else Some (r, leave_block d s1)) }) }
       else Some (Jump a, leave_block d s))"

text \<open>\<open>Finally\<close>; its block runs for every flag.\<close>

definition finally_block :: "nat \<Rightarrow> (tc \<Rightarrow> (outcome \<times> tc) option) \<Rightarrow> flag \<Rightarrow> tc \<Rightarrow> (outcome \<times> tc) option" where
  "finally_block d block flag s = do {
     let flag1 = (if flag = ExceptionEntered then ExceptionFinalized else flag);
     (r, s1) \<leftarrow> block s;
     (if r \<noteq> Done then Some (r, leave_block d s1)
      else do {
        s2 \<leftarrow> (if flag1 = ExceptionEntered then ntyExceptionPopStack s1 else Some s1);
        end_try d flag1 s2 }) }"

section \<open>Programs\<close>

datatype stmt = Skip | Print nat | Seq stmt stmt | Throw exc nat "nat option" | Return | Call stmt
  | Try stmt catches | TryFinally stmt catches stmt
and catches = NoCatch | Catch exc stmt catches

primrec exec :: "stmt \<Rightarrow> nat \<Rightarrow> tc \<Rightarrow> (outcome \<times> tc) option"
  and exec_catches :: "catches \<Rightarrow> nat \<Rightarrow> exc \<Rightarrow> tc \<Rightarrow> (outcome \<times> tc) option option" where
  "exec Skip d s = Some (Done, s)"
| "exec (Print k) d s = Some (Done, s\<lparr>tc_out := tc_out s @ [Said k]\<rparr>)"
| "exec (Seq p q) d s = do { (r, s1) \<leftarrow> exec p d s; (if r = Done then exec q d s1 else Some (r, s1)) }"
| "exec (Throw e loc cause) d s = ntyExceptionThrow e loc cause s"
| "exec Return d s = Some (Returned, s)"
| "exec (Call p) d s = do { (r, s1) \<leftarrow> exec p d s; Some (if r = Returned then Done else r, s1) }"
| "exec (Try p cs) d s = exec p (Suc d) (try_enter d s) \<bind> after_body d (exec_catches cs (Suc d)) (end_try d)"
| "exec (TryFinally p cs q) d s =
     exec p (Suc d) (try_enter d s) \<bind> after_body d (exec_catches cs (Suc d)) (finally_block d (exec q (Suc d)))"
| "exec_catches NoCatch d e s = None"
| "exec_catches (Catch x h cs) d e s = (if e = x then Some (exec h d s) else exec_catches cs d e s)"

section \<open>What exceptions mean\<close>

text \<open>
  The same language without frames and without jumps: a statement completes, returns or raises an exception
  with its message. The first handler of a \<open>Try\<close> that matches is run in place of the exception; the block of
  \<open>Finally\<close> runs after the body and the handler however these end, and its own return or exception
  replaces theirs; an exception without a handler is passed on as it was thrown. \<open>inside\<close>: there is a \<open>Try\<close>
  around; without one an exception is printed, and the program goes on.
\<close>

datatype ending = Completes | Returns | Raises exc nat "nat option"

definition pass_on :: "bool \<Rightarrow> exc \<Rightarrow> nat \<Rightarrow> nat option \<Rightarrow> ending \<times> printed list" where
  "pass_on inside e loc msg = (if inside then (Raises e loc msg, []) else (Completes, [Uncaught e loc msg]))"

definition handled :: "ending \<times> printed list \<Rightarrow> (exc \<Rightarrow> (ending \<times> printed list) option) \<Rightarrow> ending \<times> printed list" where
  "handled body handler = (case body of
     (Raises e loc msg, out) \<Rightarrow> (case handler e of None \<Rightarrow> body | Some (r, out2) \<Rightarrow> (r, out @ out2))
   | _ \<Rightarrow> body)"

definition finally_runs :: "bool \<Rightarrow> ending \<times> printed list \<Rightarrow> ending \<times> printed list \<Rightarrow> ending \<times> printed list" where
  "finally_runs inside m fin = (case (fst fin, fst m) of
     (Completes, Raises e loc msg) \<Rightarrow>
       (fst (pass_on inside e loc msg), snd m @ snd fin @ snd (pass_on inside e loc msg))
   | (Completes, r) \<Rightarrow> (r, snd m @ snd fin)
   | (r, _) \<Rightarrow> (r, snd m @ snd fin))"

primrec meaning :: "stmt \<Rightarrow> bool \<Rightarrow> ending \<times> printed list"
  and meaning_catches :: "catches \<Rightarrow> bool \<Rightarrow> exc \<Rightarrow> (ending \<times> printed list) option" where
  "meaning Skip inside = (Completes, [])"
| "meaning (Print k) inside = (Completes, [Said k])"
| "meaning (Seq p q) inside = (let (r, out) = meaning p inside in
     if r = Completes then (fst (meaning q inside), out @ snd (meaning q inside)) else (r, out))"
| "meaning (Throw e loc cause) inside = pass_on inside e loc cause"
| "meaning Return inside = (Returns, [])"
| "meaning (Call p) inside = (let (r, out) = meaning p inside in (if r = Returns then Completes else r, out))"
| "meaning (Try p cs) inside = finally_runs inside (handled (meaning p True) (meaning_catches cs inside)) (Completes, [])"
| "meaning (TryFinally p cs q) inside =
     finally_runs inside (handled (meaning p True) (meaning_catches cs inside)) (meaning q inside)"
| "meaning_catches NoCatch inside e = None"
| "meaning_catches (Catch x h cs) inside e = (if e = x then Some (meaning h inside) else meaning_catches cs inside e)"

text \<open>The exceptions that may leave a statement, and those a list of handlers takes.\<close>

primrec caught :: "catches \<Rightarrow> exc set" where
  "caught NoCatch = {}"
| "caught (Catch x h cs) = insert x (caught cs)"

primrec throws :: "stmt \<Rightarrow> exc set" and throws_catches :: "catches \<Rightarrow> exc set" where
  "throws Skip = {}"
| "throws (Print k) = {}"
| "throws (Seq p q) = throws p \<union> throws q"
| "throws (Throw e loc cause) = {e}"
| "throws Return = {}"
| "throws (Call p) = throws p"
| "throws (Try p cs) = (throws p - caught cs) \<union> throws_catches cs"
| "throws (TryFinally p cs q) = (throws p - caught cs) \<union> throws_catches cs \<union> throws q"
| "throws_catches NoCatch = {}"
| "throws_catches (Catch x h cs) = throws h \<union> throws_catches cs"

text \<open>No \<open>return\<close> out of the body of a \<open>Try\<close>: \<open>no_escape True p\<close> holds if \<open>p\<close> has no \<open>return\<close> that leaves it.\<close>

primrec no_escape :: "bool \<Rightarrow> stmt \<Rightarrow> bool" and no_escape_catches :: "bool \<Rightarrow> catches \<Rightarrow> bool" where
  "no_escape b Skip = True"
| "no_escape b (Print k) = True"
| "no_escape b (Seq p q) = (no_escape b p \<and> no_escape b q)"
| "no_escape b (Throw e loc cause) = True"
| "no_escape b Return = (\<not> b)"
| "no_escape b (Call p) = no_escape False p"
| "no_escape b (Try p cs) = (no_escape True p \<and> no_escape_catches b cs)"
| "no_escape b (TryFinally p cs q) = (no_escape True p \<and> no_escape_catches b cs \<and> no_escape b q)"
| "no_escape_catches b NoCatch = True"
| "no_escape_catches b (Catch x h cs) = (no_escape b h \<and> no_escape_catches b cs)"

text \<open>No exception and no \<open>return\<close> leaves a handler of a \<open>Try\<close> that has a \<open>Finally\<close>.\<close>

primrec handlers_complete :: "stmt \<Rightarrow> bool" and handlers_complete_catches :: "catches \<Rightarrow> bool" where
  "handlers_complete Skip = True"
| "handlers_complete (Print k) = True"
| "handlers_complete (Seq p q) = (handlers_complete p \<and> handlers_complete q)"
| "handlers_complete (Throw e loc cause) = True"
| "handlers_complete Return = True"
| "handlers_complete (Call p) = handlers_complete p"
| "handlers_complete (Try p cs) = (handlers_complete p \<and> handlers_complete_catches cs)"
| "handlers_complete (TryFinally p cs q) = (handlers_complete p \<and> handlers_complete_catches cs \<and> handlers_complete q \<and>
     throws_catches cs = {} \<and> no_escape_catches True cs)"
| "handlers_complete_catches NoCatch = True"
| "handlers_complete_catches (Catch x h cs) = (handlers_complete h \<and> handlers_complete_catches cs)"

text \<open>Every \<open>Try\<close> that has none around it takes all exceptions that may leave its body.\<close>

primrec all_caught :: "stmt \<Rightarrow> bool" and all_caught_catches :: "catches \<Rightarrow> bool" where
  "all_caught Skip = True"
| "all_caught (Print k) = True"
| "all_caught (Seq p q) = (all_caught p \<and> all_caught q)"
| "all_caught (Throw e loc cause) = True"
| "all_caught Return = True"
| "all_caught (Call p) = all_caught p"
| "all_caught (Try p cs) = (throws p \<subseteq> caught cs \<and> all_caught_catches cs)"
| "all_caught (TryFinally p cs q) = (throws p \<subseteq> caught cs \<and> all_caught_catches cs \<and> all_caught q)"
| "all_caught_catches NoCatch = True"
| "all_caught_catches (Catch x h cs) = (all_caught h \<and> all_caught_catches cs)"

section \<open>Unwinding without frames\<close>

text \<open>
  Half way between the macros and the meaning, for the proof: still without frames, but as the macros do it. A
  handler that does not fall through leaves without the block of \<open>Finally\<close>, and an exception is thrown
  again without its message.
\<close>

datatype result = Fell | Left | Raised exc nat

definition raise_or_print :: "bool \<Rightarrow> exc \<Rightarrow> nat \<Rightarrow> nat option \<Rightarrow> result \<times> printed list" where
  "raise_or_print inside e loc cause = (if inside then (Raised e loc, []) else (Fell, [Uncaught e loc cause]))"

definition unwound_rest :: "bool \<Rightarrow> result \<times> printed list \<Rightarrow> (exc \<Rightarrow> (result \<times> printed list) option) \<Rightarrow> (result \<times> printed list) \<Rightarrow> result \<times> printed list" where
  "unwound_rest inside body handler fin = (case body of
     (Fell, out) \<Rightarrow> (fst fin, out @ snd fin)
   | (Left, out) \<Rightarrow> (Left, out)
   | (Raised e loc, out) \<Rightarrow> (case handler e of
       None \<Rightarrow> (if fst fin = Fell then (fst (raise_or_print inside e loc None), out @ snd fin @ snd (raise_or_print inside e loc None))
                else (fst fin, out @ snd fin))
     | Some (r, out2) \<Rightarrow> if r = Fell then (fst fin, out @ out2 @ snd fin) else (r, out @ out2)))"

primrec unwound :: "stmt \<Rightarrow> bool \<Rightarrow> result \<times> printed list"
  and unwound_catches :: "catches \<Rightarrow> bool \<Rightarrow> exc \<Rightarrow> (result \<times> printed list) option" where
  "unwound Skip inside = (Fell, [])"
| "unwound (Print k) inside = (Fell, [Said k])"
| "unwound (Seq p q) inside = (let (r, out) = unwound p inside in
     if r = Fell then (fst (unwound q inside), out @ snd (unwound q inside)) else (r, out))"
| "unwound (Throw e loc cause) inside = raise_or_print inside e loc cause"
| "unwound Return inside = (Left, [])"
| "unwound (Call p) inside = (let (r, out) = unwound p inside in (if r = Left then Fell else r, out))"
| "unwound (Try p cs) inside = unwound_rest inside (unwound p True) (unwound_catches cs inside) (Fell, [])"
| "unwound (TryFinally p cs q) inside = unwound_rest inside (unwound p True) (unwound_catches cs inside) (unwound q inside)"
| "unwound_catches NoCatch inside e = None"
| "unwound_catches (Catch x h cs) inside e = (if e = x then Some (unwound h inside) else unwound_catches cs inside e)"

section \<open>The frames unwind\<close>

definition good :: "nat \<Rightarrow> tc \<Rightarrow> bool" where
  "good d s \<longleftrightarrow> (\<forall>a. tc_top s = Some a \<longrightarrow> a < d \<and> tc_frames s a \<noteq> None)"

text \<open>\<open>p\<close>, started in \<open>s\<close>, ended with \<open>r\<close> in \<open>s'\<close>, printing \<open>out\<close>.\<close>

definition agrees :: "nat \<Rightarrow> tc \<Rightarrow> result \<times> printed list \<Rightarrow> (outcome \<times> tc) option \<Rightarrow> bool" where
  "agrees d s m x \<longleftrightarrow> (\<exists>o' s'. x = Some (o', s') \<and> tc_out s' = tc_out s @ snd m \<and> (case fst m of
     Fell \<Rightarrow> o' = Done \<and> tc_top s' = tc_top s \<and> (\<forall>a<d. tc_frames s' a = tc_frames s a)
   | Left \<Rightarrow> o' = Returned \<and> tc_top s' = tc_top s \<and> (\<forall>a<d. tc_frames s' a = tc_frames s a)
   | Raised e loc \<Rightarrow> (\<exists>a f msg. tc_top s = Some a \<and> tc_frames s a = Some f \<and> o' = Jump a \<and> tc_top s' = fr_next f \<and>
       tc_frames s' a = Some (f\<lparr>fr_exception := e, fr_loc := loc, fr_message := msg\<rparr>) \<and>
       (\<forall>b<d. b \<noteq> a \<longrightarrow> tc_frames s' b = tc_frames s b))))"

text \<open>
  The frames behave as exceptions should: the simulation between the two semantics, block by block, and
  where they part: \<open>return\<close> out of a \<open>Try\<close>.
\<close>

section \<open>Blocks\<close>

definition same_below :: "nat \<Rightarrow> tc \<Rightarrow> tc \<Rightarrow> bool" where
  "same_below d s s' \<longleftrightarrow> tc_top s' = tc_top s \<and> (\<forall>a<d. tc_frames s' a = tc_frames s a)"

lemma same_below_trans: "same_below d s s1 \<Longrightarrow> same_below (Suc d) s1 s2 \<Longrightarrow> same_below d s s2"
  by (simp add: same_below_def)

lemma same_below_good: "good d s \<Longrightarrow> same_below d s s1 \<Longrightarrow> good (Suc d) s1"
  by (fastforce simp: good_def same_below_def)

lemma throw_agrees:
  assumes "good d s"
  shows "agrees d s (raise_or_print (tc_top s \<noteq> None) e loc cause) (ntyExceptionThrow e loc cause s)"
proof (cases "tc_top s")
  case None
  then show ?thesis by (simp add: ntyExceptionThrow_def raise_or_print_def agrees_def)
next
  case (Some a)
  then obtain f where f: "tc_frames s a = Some f" using assms by (auto simp: good_def)
  define msg where "msg = (if cause \<noteq> None then cause else fr_message f)"
  have "(if cause \<noteq> None then f\<lparr>fr_exception := e, fr_loc := loc\<rparr>\<lparr>fr_message := cause\<rparr> else f\<lparr>fr_exception := e, fr_loc := loc\<rparr>) =
      f\<lparr>fr_exception := e, fr_loc := loc, fr_message := msg\<rparr>" by (simp add: msg_def)
  then show ?thesis using Some f
    by (simp add: ntyExceptionThrow_def raise_or_print_def agrees_def ntyExceptionPopStack_def Let_def)
      (rule exI [of _ msg], auto)
qed

text \<open>From inside a block to the block.\<close>

lemma agrees_leave:
  assumes "agrees (Suc d) s1 m (Some (o', s'))" and "same_below d s s1" and "tc_out s1 = tc_out s @ out" and "good d s"
  shows "agrees d s (fst m, out @ snd m) (Some (o', leave_block d s'))"
proof (cases "fst m")
  case (Raised e loc)
  then obtain a f msg where a: "tc_top s1 = Some a" "tc_frames s1 a = Some f" "o' = Jump a" "tc_top s' = fr_next f"
    "tc_frames s' a = Some (f\<lparr>fr_exception := e, fr_loc := loc, fr_message := msg\<rparr>)" "\<forall>b<Suc d. b \<noteq> a \<longrightarrow> tc_frames s' b = tc_frames s1 b"
    "tc_out s' = tc_out s1 @ snd m" using assms(1) by (auto simp: agrees_def)
  have top: "tc_top s = Some a" using a(1) assms(2) by (simp add: same_below_def)
  then have "a < d" using assms(4) by (simp add: good_def)
  moreover from this have "tc_frames s a = Some f" using a(2) assms(2) by (simp add: same_below_def)
  ultimately show ?thesis using a top assms(2,3) Raised
    by (simp add: agrees_def leave_block_def same_below_def) (rule exI [of _ msg], rule refl)
qed (use assms in \<open>simp_all add: agrees_def leave_block_def same_below_def\<close>)

lemma agrees_after:
  assumes "agrees d s1 m x" and "tc_top s1 = tc_top s" and "\<forall>a<d. tc_frames s1 a = tc_frames s a" and "tc_out s1 = tc_out s @ out" and "good d s"
  shows "agrees d s (fst m, out @ snd m) x"
  using assms by (cases "fst m") (auto simp: agrees_def good_def)

lemma agrees_fell:
  assumes "agrees (Suc d) s1 m (Some (o', s'))" and "fst m = Fell" and "same_below d s s1" and "tc_out s1 = tc_out s @ out"
  shows "o' = Done \<and> same_below d s s' \<and> tc_out s' = tc_out s @ out @ snd m \<and> tc_frames s' d = tc_frames s1 d"
  using assms by (simp add: agrees_def same_below_def)

text \<open>What comes after the body and the handlers: nothing, or the block of \<open>Finally\<close>, with the outcome \<open>fin\<close>.\<close>

definition rest_ok :: "nat \<Rightarrow> tc \<Rightarrow> result \<times> printed list \<Rightarrow> (flag \<Rightarrow> tc \<Rightarrow> (outcome \<times> tc) option) \<Rightarrow> bool" where
  "rest_ok d s fin rest \<longleftrightarrow> (\<forall>flag s1 f out. same_below d s s1 \<longrightarrow> tc_out s1 = tc_out s @ out \<longrightarrow> tc_frames s1 d = Some f \<longrightarrow>
     agrees d s (if flag = ExceptionThrown \<and> fst fin = Fell
       then (fst (raise_or_print (tc_top s \<noteq> None) (fr_exception f) (fr_loc f) None),
             out @ snd fin @ snd (raise_or_print (tc_top s \<noteq> None) (fr_exception f) (fr_loc f) None))
       else (fst fin, out @ snd fin)) (rest flag s1))"

lemma end_try_ok:
  assumes "good d s"
  shows "rest_ok d s (Fell, []) (end_try d)"
  unfolding rest_ok_def
proof (intro allI impI)
  fix flag s1 f out
  assume s1: "same_below d s s1" "tc_out s1 = tc_out s @ out" and f: "tc_frames s1 d = Some f"
  let ?m = "raise_or_print (tc_top s \<noteq> None) (fr_exception f) (fr_loc f) None"
  show "agrees d s (if flag = ExceptionThrown \<and> fst (Fell, [] :: printed list) = Fell then (fst ?m, out @ snd (Fell, []) @ snd ?m)
      else (fst (Fell, []), out @ snd (Fell, []))) (end_try d flag s1)"
  proof (cases "flag = ExceptionThrown")
    case True
    have "agrees (Suc d) s1 ?m (ntyExceptionThrow (fr_exception f) (fr_loc f) None s1)"
      using throw_agrees [OF same_below_good [OF assms s1(1)], of "fr_exception f" "fr_loc f" None] s1(1) by (simp add: same_below_def)
    moreover from this obtain o' s' where "ntyExceptionThrow (fr_exception f) (fr_loc f) None s1 = Some (o', s')" by (auto simp: agrees_def)
    ultimately show ?thesis using agrees_leave [OF _ s1 assms, of ?m o' s'] True f by (simp add: end_try_def)
  next
    case False
    then show ?thesis using s1 by (simp add: end_try_def agrees_def leave_block_def same_below_def)
  qed
qed

lemma finally_ok:
  assumes good: "good d s" and block: "\<And>s1. good (Suc d) s1 \<Longrightarrow> tc_top s1 = tc_top s \<Longrightarrow> agrees (Suc d) s1 fin (block s1)"
  shows "rest_ok d s fin (finally_block d block)"
  unfolding rest_ok_def
proof (intro allI impI)
  fix flag s1 f out
  assume s1: "same_below d s s1" "tc_out s1 = tc_out s @ out" and f: "tc_frames s1 d = Some f"
  have ag: "agrees (Suc d) s1 fin (block s1)" using block same_below_good [OF good s1(1)] s1(1) by (simp add: same_below_def)
  then obtain o' s2 where b: "block s1 = Some (o', s2)" by (auto simp: agrees_def)
  let ?flag = "if flag = ExceptionEntered then ExceptionFinalized else flag"
  show "agrees d s (if flag = ExceptionThrown \<and> fst fin = Fell
       then (fst (raise_or_print (tc_top s \<noteq> None) (fr_exception f) (fr_loc f) None),
             out @ snd fin @ snd (raise_or_print (tc_top s \<noteq> None) (fr_exception f) (fr_loc f) None))
       else (fst fin, out @ snd fin)) (finally_block d block flag s1)"
  proof (cases "fst fin = Fell")
    case True
    then have s2: "o' = Done" "same_below d s s2" "tc_out s2 = tc_out s @ (out @ snd fin)" "tc_frames s2 d = Some f"
      using agrees_fell [OF _ True s1, of o' s2] ag b f by auto
    have "finally_block d block flag s1 = end_try d ?flag s2" using b s2(1) by (auto simp: finally_block_def)
    moreover have "agrees d s (if ?flag = ExceptionThrown
       then (fst (raise_or_print (tc_top s \<noteq> None) (fr_exception f) (fr_loc f) None),
             (out @ snd fin) @ snd (raise_or_print (tc_top s \<noteq> None) (fr_exception f) (fr_loc f) None))
       else (Fell, out @ snd fin)) (end_try d ?flag s2)"
      using end_try_ok [OF good, unfolded rest_ok_def, rule_format, OF s2(2-4), of ?flag] by (simp split: if_splits)
    ultimately show ?thesis using True by (auto split: if_splits)
  next
    case False
    then have "o' \<noteq> Done" using ag b by (cases "fst fin") (auto simp: agrees_def)
    then have "finally_block d block flag s1 = Some (o', leave_block d s2)" using b by (simp add: finally_block_def)
    then show ?thesis using agrees_leave [OF _ s1 good, of fin o' s2] ag b False by simp
  qed
qed

lemma after_body_ok:
  assumes good: "good d s" and body: "agrees (Suc d) (try_enter d s) m x" and left: "fst m \<noteq> Left"
    and handler: "\<And>e s1. good (Suc d) s1 \<Longrightarrow> tc_top s1 = tc_top s \<Longrightarrow>
      (case meant e of None \<Rightarrow> handler e s1 = None | Some h \<Rightarrow> \<exists>y. handler e s1 = Some y \<and> agrees (Suc d) s1 h y)"
    and rest: "rest_ok d s fin rest"
  shows "agrees d s (unwound_rest (tc_top s \<noteq> None) m meant fin) (x \<bind> after_body d handler rest)"
proof -
  obtain o1 s1 where x: "x = Some (o1, s1)" and out1: "tc_out s1 = tc_out s @ snd m"
    using body by (auto simp: agrees_def try_enter_def)
  have enter: "tc_top (try_enter d s) = Some d" "\<And>a. a < d \<Longrightarrow> tc_frames (try_enter d s) a = tc_frames s a"
    "tc_frames (try_enter d s) d = Some \<lparr>fr_exception = 0, fr_loc = 0, fr_message = None, fr_next = tc_top s\<rparr>"
    by (simp_all add: try_enter_def)
  note go = rest [unfolded rest_ok_def, rule_format]
  show ?thesis
  proof (cases "fst m")
    case Fell
    then have b: "o1 = Done" "tc_top s1 = Some d" "\<forall>a<Suc d. tc_frames s1 a = tc_frames (try_enter d s) a"
      using body x enter by (auto simp: agrees_def)
    define s2 where "s2 = s1\<lparr>tc_top := tc_top s\<rparr>"
    have pop: "ntyExceptionPopStack s1 = Some s2" using b enter by (simp add: ntyExceptionPopStack_def s2_def)
    have "same_below d s s2" "tc_out s2 = tc_out s @ snd m" "tc_frames s2 d = Some \<lparr>fr_exception = 0, fr_loc = 0, fr_message = None, fr_next = tc_top s\<rparr>"
      using b enter out1 by (auto simp: same_below_def s2_def)
    from go [OF this, of ExceptionEntered] have "agrees d s (fst fin, snd m @ snd fin) (rest ExceptionEntered s2)" by simp
    moreover have "m = (Fell, snd m)" using Fell by (cases m) auto
    ultimately show ?thesis using x b(1) pop by (cases m) (auto simp: after_body_def unwound_rest_def)
  next
    case (Raised e loc)
    then obtain msg where b: "o1 = Jump d" "tc_top s1 = tc_top s" "\<forall>a<d. tc_frames s1 a = tc_frames s a"
      "tc_frames s1 d = Some \<lparr>fr_exception = e, fr_loc = loc, fr_message = msg, fr_next = tc_top s\<rparr>"
      using body x enter by (auto simp: agrees_def)
    have s1: "same_below d s s1" "good (Suc d) s1" using b good same_below_good by (auto simp: same_below_def)
    have m: "m = (Raised e loc, snd m)" using Raised by (cases m) auto
    show ?thesis
    proof (cases "meant e")
      case None
      then have "handler e s1 = None" using handler [OF s1(2) b(2), of e] by simp
      then have run: "x \<bind> after_body d handler rest = rest ExceptionThrown s1" using x b by (simp add: after_body_def)
      show ?thesis unfolding run using go [OF s1(1) out1 b(4), of ExceptionThrown] m None
        by (cases m) (simp add: unwound_rest_def split: if_splits)
    next
      case (Some h)
      then obtain y where y: "handler e s1 = Some y" "agrees (Suc d) s1 h y" using handler [OF s1(2) b(2), of e] by auto
      then obtain o2 s2 where y2: "y = Some (o2, s2)" by (auto simp: agrees_def)
      have run: "x \<bind> after_body d handler rest = (if o2 = Done then rest ExceptionHandled s2 else Some (o2, leave_block d s2))"
        using x b y(1) y2 by (simp add: after_body_def)
      show ?thesis
      proof (cases "fst h = Fell")
        case True
        then have "o2 = Done" "same_below d s s2" "tc_out s2 = tc_out s @ (snd m @ snd h)" "tc_frames s2 d = tc_frames s1 d"
          using agrees_fell [OF _ True s1(1) out1, of o2 s2] y(2) y2 by auto
        with go [OF this(2,3), of _ ExceptionHandled] b(4)
        have "agrees d s (fst fin, (snd m @ snd h) @ snd fin) (rest ExceptionHandled s2)" by simp
        then show ?thesis unfolding run using \<open>o2 = Done\<close> True Some m by (cases m; cases h) (auto simp: unwound_rest_def)
      next
        case False
        then have "o2 \<noteq> Done" using y(2) y2 by (cases "fst h") (auto simp: agrees_def)
        moreover have "agrees d s (fst h, snd m @ snd h) (Some (o2, leave_block d s2))"
          using agrees_leave [OF _ s1(1) out1 good, of h o2 s2] y(2) y2 by simp
        ultimately show ?thesis unfolding run using False Some m by (cases m; cases h) (auto simp: unwound_rest_def)
      qed
    qed
  qed (use left in simp)
qed

section \<open>Programs\<close>

lemma rest_left:
  assumes "fst m \<noteq> Left" and "\<And>e h. handler e = Some h \<Longrightarrow> fst h \<noteq> Left" and "fst fin \<noteq> Left"
  shows "fst (unwound_rest b m handler fin) \<noteq> Left"
  using assms(1,3) assms(2)
  by (cases m; cases "fst m") (auto simp: unwound_rest_def raise_or_print_def split: option.splits dest: assms(2))

lemma no_escape_left: "no_escape True p \<Longrightarrow> fst (unwound p b) \<noteq> Left"
  and no_escape_left_catches: "no_escape_catches True cs \<Longrightarrow> unwound_catches cs b e = Some h \<Longrightarrow> fst h \<noteq> Left"
proof (induction p and cs arbitrary: b and b e h)
  case (Seq p q)
  then show ?case by (simp add: split_beta)
next
  case (Try p cs)
  have "fst (unwound p True) \<noteq> Left" using Try by simp
  then show ?case using Try.IH(2) Try.prems by simp (rule rest_left, auto)
next
  case (TryFinally p cs q)
  have "fst (unwound p True) \<noteq> Left" using TryFinally by simp
  then show ?case using TryFinally.IH(2,3) TryFinally.prems by simp (rule rest_left, auto)
next
  case (Catch x p cs)
  then show ?case by (auto split: if_splits)
qed (auto simp: raise_or_print_def split_beta)

lemma exec_agrees: "no_escape b p \<Longrightarrow> good d s \<Longrightarrow> agrees d s (unwound p (tc_top s \<noteq> None)) (exec p d s)"
  and "no_escape_catches b cs \<Longrightarrow> good d s \<Longrightarrow> (case unwound_catches cs (tc_top s \<noteq> None) e of None \<Rightarrow> exec_catches cs d e s = None
    | Some h \<Rightarrow> \<exists>y. exec_catches cs d e s = Some y \<and> agrees d s h y)"
proof (induction p and cs arbitrary: b d s and b d s e)
  case (Seq p q)
  then obtain o1 s1 where s1: "exec p d s = Some (o1, s1)" by (fastforce simp: agrees_def)
  then have ag: "agrees d s (unwound p (tc_top s \<noteq> None)) (Some (o1, s1))" using Seq by fastforce
  show ?case
  proof (cases "fst (unwound p (tc_top s \<noteq> None)) = Fell")
    case True
    then have p: "o1 = Done" "tc_top s1 = tc_top s" "\<forall>a<d. tc_frames s1 a = tc_frames s a" "tc_out s1 = tc_out s @ snd (unwound p (tc_top s \<noteq> None))"
      using ag by (auto simp: agrees_def)
    then have "good d s1" using Seq.prems(2) by (auto simp: good_def)
    then have "agrees d s1 (unwound q (tc_top s \<noteq> None)) (exec q d s1)" using Seq.IH(2) [of b d s1] Seq.prems p(2) by simp
    then have "agrees d s (fst (unwound q (tc_top s \<noteq> None)), snd (unwound p (tc_top s \<noteq> None)) @ snd (unwound q (tc_top s \<noteq> None))) (exec q d s1)"
      by (rule agrees_after [OF _ p(2-4)]) (rule Seq.prems(2))
    then show ?thesis using True s1 p(1) by (auto simp: split_beta)
  next
    case False
    then have "o1 \<noteq> Done" using ag by (cases "fst (unwound p (tc_top s \<noteq> None))") (auto simp: agrees_def)
    then show ?thesis using False s1 ag by (simp add: split_beta)
  qed
next
  case (Throw e loc cause)
  then show ?case using throw_agrees by simp
next
  case (Call p)
  have np: "no_escape False p" using Call.prems by simp
  from Call.IH [OF np Call.prems(2)] show ?case
    by (cases "fst (unwound p (tc_top s \<noteq> None))") (auto simp: agrees_def split_beta)
next
  case (Try p cs)
  have g: "good (Suc d) (try_enter d s)" by (simp add: good_def try_enter_def)
  have p: "no_escape True p" "no_escape_catches b cs" using Try.prems by auto
  have body: "agrees (Suc d) (try_enter d s) (unwound p True) (exec p (Suc d) (try_enter d s))"
    using Try.IH(1) [OF p(1) g] by (simp add: try_enter_def)
  have h: "case unwound_catches cs (tc_top s \<noteq> None) e of None \<Rightarrow> exec_catches cs (Suc d) e s1 = None
      | Some h \<Rightarrow> \<exists>y. exec_catches cs (Suc d) e s1 = Some y \<and> agrees (Suc d) s1 h y" if "good (Suc d) s1" "tc_top s1 = tc_top s" for e s1
    using Try.IH(2) [OF p(2) that(1), of e] that(2) by simp
  show ?case unfolding exec.simps unwound.simps
    by (rule after_body_ok [OF Try.prems(2) body no_escape_left [OF p(1)] h end_try_ok [OF Try.prems(2)]])
next
  case (TryFinally p cs q)
  have g: "good (Suc d) (try_enter d s)" by (simp add: good_def try_enter_def)
  have p: "no_escape True p" "no_escape_catches b cs" "no_escape b q" using TryFinally.prems by auto
  have body: "agrees (Suc d) (try_enter d s) (unwound p True) (exec p (Suc d) (try_enter d s))"
    using TryFinally.IH(1) [OF p(1) g] by (simp add: try_enter_def)
  have h: "case unwound_catches cs (tc_top s \<noteq> None) e of None \<Rightarrow> exec_catches cs (Suc d) e s1 = None
      | Some h \<Rightarrow> \<exists>y. exec_catches cs (Suc d) e s1 = Some y \<and> agrees (Suc d) s1 h y" if "good (Suc d) s1" "tc_top s1 = tc_top s" for e s1
    using TryFinally.IH(2) [OF p(2) that(1), of e] that(2) by simp
  have q: "agrees (Suc d) s1 (unwound q (tc_top s \<noteq> None)) (exec q (Suc d) s1)" if "good (Suc d) s1" "tc_top s1 = tc_top s" for s1
    using TryFinally.IH(3) [OF p(3) that(1)] that(2) by simp
  show ?case unfolding exec.simps unwound.simps
    by (rule after_body_ok [OF TryFinally.prems(2) body no_escape_left [OF p(1)] h finally_ok [OF TryFinally.prems(2) q]])
next
  case (Catch x h cs)
  have "no_escape b h" "no_escape_catches b cs" using Catch.prems by auto
  then show ?case using Catch.IH(1) [of b d s] Catch.IH(2) [of b d s e] Catch.prems(2)
    by (cases "e = x"; cases "unwound_catches cs (tc_top s \<noteq> None) e") simp_all
qed (auto simp: agrees_def)

section \<open>Unwinding does what exceptions mean\<close>

primrec plain :: "ending \<Rightarrow> result" where
  "plain Completes = Fell"
| "plain Returns = Left"
| "plain (Raises e loc msg) = Raised e loc"

primrec forget :: "printed \<Rightarrow> printed" where
  "forget (Said k) = Said k"
| "forget (Uncaught e loc msg) = Uncaught e loc None"

text \<open>The same ending but for the message, the same output but for the messages, and \<open>exact\<close>ly the same output.\<close>

definition matches :: "bool \<Rightarrow> ending \<times> printed list \<Rightarrow> result \<times> printed list \<Rightarrow> bool" where
  "matches exact m u \<longleftrightarrow> plain (fst m) = fst u \<and> map forget (snd m) = map forget (snd u) \<and> (exact \<longrightarrow> snd m = snd u)"

lemma plain_eq [simp]:
  "plain r = Fell \<longleftrightarrow> r = Completes" "plain r = Left \<longleftrightarrow> r = Returns" "plain r = Raised e loc \<longleftrightarrow> (\<exists>msg. r = Raises e loc msg)"
  by (cases r; simp)+

lemma rest_raises:
  assumes "fst (unwound_rest i u h fin) = Raised e loc"
  shows "fst fin = Raised e loc \<or> (i \<and> fst u = Raised e loc \<and> h e = None) \<or>
    (\<exists>x l y. fst u = Raised x l \<and> h x = Some y \<and> fst y = Raised e loc)"
  using assms by (cases u; cases "fst u"; cases "h e")
    (auto simp: unwound_rest_def raise_or_print_def split: option.splits prod.splits if_splits)

lemma unwound_throws:
  "fst (unwound p i) = Raised e loc \<Longrightarrow> e \<in> throws p"
  "unwound_catches cs i x = Some (Raised e loc, out) \<Longrightarrow> e \<in> throws_catches cs"
  "unwound_catches cs i x = None \<longleftrightarrow> x \<notin> caught cs"
proof (induction p and cs arbitrary: i e loc and i e loc x out)
  case (Seq p q)
  then show ?case by (cases "fst (unwound p i)") (auto simp: split_beta)
next
  case (Call p)
  then show ?case by (cases "fst (unwound p i)") (auto simp: split_beta)
next
  case (Try p cs)
  from rest_raises [OF Try.prems [simplified]] consider "fst (unwound p True) = Raised e loc" "unwound_catches cs i e = None"
    | x out where "unwound_catches cs i x = Some (Raised e loc, out)" by auto
  then show ?case
  proof cases
    case 1
    from Try.IH(1) [OF 1(1)] Try.IH(3) 1(2) have "e \<in> throws p - caught cs" by blast
    then show ?thesis by simp
  next
    case 2
    from Try.IH(2) [OF this] show ?thesis by simp
  qed
next
  case (TryFinally p cs q)
  from rest_raises [OF TryFinally.prems [simplified]] consider "fst (unwound q i) = Raised e loc"
    | "fst (unwound p True) = Raised e loc" "unwound_catches cs i e = None"
    | x out where "unwound_catches cs i x = Some (Raised e loc, out)" by auto
  then show ?case
  proof cases
    case 1
    from TryFinally.IH(4) [OF this] show ?thesis by simp
  next
    case 2
    from TryFinally.IH(1) [OF 2(1)] TryFinally.IH(3) 2(2) have "e \<in> throws p - caught cs" by blast
    then show ?thesis by simp
  next
    case 3
    from TryFinally.IH(2) [OF this] show ?thesis by simp
  qed
next
  case (Catch x h cs)
  {
    case 1
    then show ?case using Catch.IH(1) [of i e loc] Catch.IH(2) by (auto split: if_splits)
  next
    case 2
    then show ?case using Catch.IH(3) by simp
  }
qed (auto simp: raise_or_print_def split: if_splits)

lemma unwound_outside:
  "fst (unwound p False) = Raised e loc \<Longrightarrow> False"
  "unwound_catches cs False x = Some (Raised e loc, out) \<Longrightarrow> False"
proof (induction p and cs arbitrary: e loc and e loc x out)
  case (Seq p q)
  then show ?case by (cases "fst (unwound p False)") (auto simp: split_beta)
next
  case (Call p)
  then show ?case by (cases "fst (unwound p False)") (auto simp: split_beta)
next
  case (Try p cs)
  from rest_raises [OF Try.prems [simplified]] have "\<exists>x out. unwound_catches cs False x = Some (Raised e loc, out)" by auto
  then show ?case using Try.IH(2) by blast
next
  case (TryFinally p cs q)
  from rest_raises [OF TryFinally.prems [simplified]] have "fst (unwound q False) = Raised e loc \<or>
      (\<exists>x out. unwound_catches cs False x = Some (Raised e loc, out))" by auto
  then show ?case using TryFinally.IH(2,3) by blast
qed (auto simp: raise_or_print_def split: if_splits)

text \<open>The block of \<open>Finally\<close> is missing, or all handlers complete.\<close>

lemma block_matches:
  assumes body: "matches True m u" and left: "fst u \<noteq> Left"
    and h: "\<And>e. case hu e of None \<Rightarrow> hm e = None | Some y \<Rightarrow> \<exists>x. hm e = Some x \<and> matches (i \<or> eh) x y"
    and fin: "matches (i \<or> ef) fm fu"
    and complete: "fm = (Completes, []) \<or> (\<forall>e y. hu e = Some y \<longrightarrow> fst y = Fell)"
    and outside: "\<And>e y x loc. \<not> i \<Longrightarrow> hu e = Some y \<Longrightarrow> fst y \<noteq> Raised x loc"
    and exact: "\<And>e loc. exact \<Longrightarrow> fst u = Raised e loc \<Longrightarrow> hu e \<noteq> None" "exact \<Longrightarrow> eh \<and> ef"
  shows "matches (i \<or> exact) (finally_runs i (handled m hm) fm) (unwound_rest i u hu fu)"
proof (cases "fst u")
  case Fell
  then show ?thesis using body fin exact(2)
    by (cases m; cases u; cases fm; cases fu; cases "fst fm")
      (auto simp: matches_def handled_def finally_runs_def unwound_rest_def)
next
  case (Raised e loc)
  then obtain msg out where m: "m = (Raises e loc msg, out)" and u: "u = (Raised e loc, out)"
    using body by (cases m; cases u) (auto simp: matches_def)
  show ?thesis
  proof (cases "hu e")
    case None
    then have "hm e = None" using h [of e] by simp
    moreover have "\<not> exact" using None exact(1) Raised by blast
    ultimately show ?thesis using None fin
      by (cases fm; cases fu; cases "fst fm")
        (auto simp: m u matches_def handled_def finally_runs_def unwound_rest_def pass_on_def raise_or_print_def)
  next
    case (Some y)
    then obtain x where x: "hm e = Some x" "matches (i \<or> eh) x y" using h [of e] by auto
    show ?thesis
    proof (cases "fst y = Fell")
      case True
      then show ?thesis using Some x fin exact(2)
        by (cases x; cases y; cases fm; cases fu; cases "fst fm")
          (auto simp: m u matches_def handled_def finally_runs_def unwound_rest_def)
    next
      case False
      then have f: "fm = (Completes, [])" using complete Some by blast
      show ?thesis using Some x outside [OF _ Some] False exact(2)
        by (cases x; cases y; cases "fst x")
          (auto simp: m u f matches_def handled_def finally_runs_def unwound_rest_def pass_on_def)
    qed
  qed
qed (use left in simp)

lemma handlers_fall:
  assumes "throws_catches cs = {}" and "no_escape_catches True cs" and "unwound_catches cs i e = Some y"
  shows "fst y = Fell"
proof -
  have "fst y \<noteq> Left" using assms(2,3) by (rule no_escape_left_catches)
  moreover have "fst y \<noteq> Raised x loc" for x loc using unwound_throws(2) [of cs i e x loc "snd y"] assms(1,3) by (cases y) auto
  ultimately show ?thesis by (cases "fst y") auto
qed

lemma meaning_matches:
  "handlers_complete p \<Longrightarrow> no_escape b p \<Longrightarrow> matches (i \<or> all_caught p) (meaning p i) (unwound p i)"
  "handlers_complete_catches cs \<Longrightarrow> no_escape_catches b cs \<Longrightarrow> (case unwound_catches cs i e of None \<Rightarrow> meaning_catches cs i e = None
     | Some y \<Rightarrow> \<exists>x. meaning_catches cs i e = Some x \<and> matches (i \<or> all_caught_catches cs) x y)"
proof (induction p and cs arbitrary: b i and b i e)
  case (Seq p q)
  then have "matches (i \<or> all_caught p) (meaning p i) (unwound p i)" "matches (i \<or> all_caught q) (meaning q i) (unwound q i)"
    by fastforce+
  then show ?case by (cases "fst (meaning p i)") (auto simp: matches_def split_beta)
next
  case (Call p)
  then have "matches (i \<or> all_caught p) (meaning p i) (unwound p i)" by fastforce
  then show ?case by (cases "fst (meaning p i)") (auto simp: matches_def split_beta)
next
  case (Try p cs)
  have n: "no_escape True p" "no_escape_catches b cs" using Try.prems by auto
  show ?case unfolding meaning.simps unwound.simps
  proof (rule block_matches)
    show "matches True (meaning p True) (unwound p True)" using Try.IH(1) [of True True] Try.prems n by simp
    show "fst (unwound p True) \<noteq> Left" by (rule no_escape_left [OF n(1)])
    show "case unwound_catches cs i e of None \<Rightarrow> meaning_catches cs i e = None
        | Some y \<Rightarrow> \<exists>x. meaning_catches cs i e = Some x \<and> matches (i \<or> all_caught_catches cs) x y" for e
      using Try.IH(2) [of b i e] Try.prems n by simp
    show "matches (i \<or> True) (Completes, []) (Fell, [])" by (simp add: matches_def)
    show "fst y \<noteq> Raised x loc" if "\<not> i" "unwound_catches cs i e = Some y" for e y x loc
      using that unwound_outside(2) by (cases y) auto
    show "unwound_catches cs i e \<noteq> None" if "all_caught (Try p cs)" "fst (unwound p True) = Raised e loc" for e loc
      using that unwound_throws(1,3) by fastforce
  qed auto
next
  case (TryFinally p cs q)
  have n: "no_escape True p" "no_escape_catches b cs" "no_escape b q" using TryFinally.prems by auto
  show ?case unfolding meaning.simps unwound.simps
  proof (rule block_matches)
    show "matches True (meaning p True) (unwound p True)" using TryFinally.IH(1) [of True True] TryFinally.prems n by simp
    show "fst (unwound p True) \<noteq> Left" by (rule no_escape_left [OF n(1)])
    show "case unwound_catches cs i e of None \<Rightarrow> meaning_catches cs i e = None
        | Some y \<Rightarrow> \<exists>x. meaning_catches cs i e = Some x \<and> matches (i \<or> all_caught_catches cs) x y" for e
      using TryFinally.IH(2) [of b i e] TryFinally.prems n by simp
    show "matches (i \<or> all_caught q) (meaning q i) (unwound q i)" using TryFinally.IH(3) [of b i] TryFinally.prems n by simp
    show "meaning q i = (Completes, []) \<or> (\<forall>e y. unwound_catches cs i e = Some y \<longrightarrow> fst y = Fell)"
      using handlers_fall TryFinally.prems by auto
    show "fst y \<noteq> Raised x loc" if "\<not> i" "unwound_catches cs i e = Some y" for e y x loc
      using that unwound_outside(2) by (cases y) auto
    show "unwound_catches cs i e \<noteq> None" if "all_caught (TryFinally p cs q)" "fst (unwound p True) = Raised e loc" for e loc
      using that unwound_throws(1,3) by fastforce
  qed auto
next
  case (Catch x h cs)
  have "no_escape b h" "no_escape_catches b cs" using Catch.prems by auto
  then have "matches (i \<or> all_caught h) (meaning h i) (unwound h i)"
    "case unwound_catches cs i e of None \<Rightarrow> meaning_catches cs i e = None
       | Some y \<Rightarrow> \<exists>x. meaning_catches cs i e = Some x \<and> matches (i \<or> all_caught_catches cs) x y" using Catch by auto
  then show ?case by (cases "e = x"; cases "unwound_catches cs i e") (auto simp: matches_def)
qed (auto simp: matches_def pass_on_def raise_or_print_def)

section \<open>Properties\<close>

definition start :: tc where
  "start = \<lparr>tc_top = None, tc_frames = (\<lambda>_. None), tc_out = []\<rparr>"

text \<open>C29: a thread that runs any program with \<open>Try\<close>, \<open>Catch\<close>, \<open>Finally\<close> and \<open>Throw\<close>, nested in any way, without a
  \<open>return\<close> out of the body of a \<open>Try\<close> and with no exception and no \<open>return\<close> out of a handler of a \<open>Try\<close> with a
  \<open>Finally\<close>, never uses a frame that is gone, ends with the empty stack of frames, and does what exceptions mean; what it
  prints differs at most in the messages of exceptions that leave an outermost \<open>Try\<close>, and not at all when none can.\<close>

theorem try_catch_correct:
  assumes "no_escape False p" and "handlers_complete p"
  shows "\<exists>o' s'. exec p 0 start = Some (o', s') \<and> tc_top s' = None \<and>
    map forget (tc_out s') = map forget (snd (meaning p False)) \<and>
    (all_caught p \<longrightarrow> tc_out s' = snd (meaning p False)) \<and>
    (o' = Done \<longleftrightarrow> fst (meaning p False) = Completes) \<and> (o' = Returned \<longleftrightarrow> fst (meaning p False) = Returns)"
proof -
  have "agrees 0 start (unwound p False) (exec p 0 start)"
    using exec_agrees(1) [OF assms(1), of 0 start] by (simp add: good_def start_def)
  moreover have m: "matches (all_caught p) (meaning p False) (unwound p False)"
    using meaning_matches(1) [OF assms(2,1), of False] by simp
  moreover have "fst (unwound p False) \<noteq> Raised e loc" for e loc using unwound_outside(1) by blast
  ultimately show ?thesis
    by (cases "fst (unwound p False)") (auto simp: agrees_def matches_def start_def)
qed

text \<open>The nested blocks of the second test of \<open>main\<close>, with a \<open>Finally\<close>: exceptions 1 (\<open>A\<close>) and 2 (\<open>B\<close>).\<close>

theorem try_catch_witness:
  "\<exists>s'. exec (TryFinally (Seq (Try (Throw 2 7 (Some 5)) (Catch 2 (Print 20) NoCatch)) (Throw 1 8 None)) (Catch 1 (Print 10) NoCatch) (Print 30)) 0 start
     = Some (Done, s') \<and> tc_out s' = [Said 20, Said 10, Said 30]"
  using try_catch_correct [of "TryFinally (Seq (Try (Throw 2 7 (Some 5)) (Catch 2 (Print 20) NoCatch)) (Throw 1 8 None)) (Catch 1 (Print 10) NoCatch) (Print 30)"]
  by (auto simp: handled_def finally_runs_def pass_on_def simp del: exec.simps)

text \<open>a \<open>return\<close> out of the body of a \<open>Try\<close> leaves the frame of the block on the stack of the thread; the next
  \<open>Throw\<close> jumps to a block that is gone.\<close>

theorem return_leaves_dangling_frame:
  "exec (Seq (Call (Try Return cs)) (Throw e loc cause)) 0 start = None"
  by (simp add: start_def try_enter_def after_body_def leave_block_def ntyExceptionThrow_def)

text \<open>when a handler throws, the block of \<open>Finally\<close> of its \<open>Try\<close> does not run: inside another \<open>Try\<close> the block makes
  no difference at all.\<close>

theorem throwing_handler_skips_finally:
  assumes "good d s" and "tc_top s \<noteq> None"
  shows "exec (TryFinally (Throw a l c) (Catch a (Throw b l2 c2) cs) q) d s = exec (TryFinally (Throw a l c) (Catch a (Throw b l2 c2) cs) q') d s"
proof -
  obtain k f where k: "tc_top s = Some k" "k < d" "tc_frames s k = Some f" using assms by (auto simp: good_def)
  then show ?thesis
    by (simp add: try_enter_def ntyExceptionThrow_def ntyExceptionPopStack_def after_body_def Let_def)
qed

theorem throwing_handler_skips_finally_witness:
  "exec (TryFinally (Throw 1 7 None) (Catch 1 (Throw 2 8 None) NoCatch) (Print 3)) 1 (try_enter 0 start) =
   exec (TryFinally (Throw 1 7 None) (Catch 1 (Throw 2 8 None) NoCatch) Skip) 1 (try_enter 0 start) \<and>
   meaning (TryFinally (Throw 1 7 None) (Catch 1 (Throw 2 8 None) NoCatch) (Print 3)) True = (Raises 2 8 None, [Said 3])"
  using throwing_handler_skips_finally [of 1 "try_enter 0 start" 1 7 None 2 8 None NoCatch "Print 3" Skip]
  by (simp add: good_def try_enter_def handled_def finally_runs_def pass_on_def)

text \<open>An exception that is caught nowhere loses its message: it is thrown again without it.\<close>

theorem uncaught_loses_message:
  "(\<exists>s'. exec (Try (Throw e loc (Some msg)) NoCatch) 0 start = Some (Done, s') \<and> tc_out s' = [Uncaught e loc None]) \<and>
   meaning (Try (Throw e loc (Some msg)) NoCatch) False = (Completes, [Uncaught e loc (Some msg)])"
  by (simp add: start_def try_enter_def after_body_def leave_block_def ntyExceptionThrow_def ntyExceptionPopStack_def end_try_def Let_def
      handled_def finally_runs_def pass_on_def)

end
