(* ===== verification/LeakHooks.thy ===== *)
theory LeakHooks
  imports Prelude
begin

text \<open>
  The three leak detectors of \<open>3.2.6\<close>: macros around \<open>malloc\<close> and \<open>free\<close> (\<open>second.c\<close>), replaced functions
  that call the originals (\<open>first.c\<close>), and the hooks of the C library (\<open>three.c\<close>). Each keeps one file per
  block in a directory. The heap is the set of the live blocks; \<open>None\<close> is the release of a block that is
  not live, or a file that cannot be opened.
\<close>

section \<open>The heap and the directory\<close>

text \<open>What a file says: the place of the call and, for the macros, the size.\<close>

datatype file_note = At nat "nat option"

datatype report = Allocated addr nat | Released addr | DoubleFree addr

record leak =
  lh_heap :: "addr set"
  lh_files :: "addr \<Rightarrow> file_note option"
  lh_out :: "report list"

definition got :: "addr \<Rightarrow> 'a leak_scheme \<Rightarrow> 'a leak_scheme" where
  "got p s = (if p = NULL then s else s\<lparr>lh_heap := insert p (lh_heap s)\<rparr>)"

definition release :: "addr \<Rightarrow> 'a leak_scheme \<Rightarrow> 'a leak_scheme option" where
  "release p s = (if p = NULL then Some s else if p \<in> lh_heap s then Some (s\<lparr>lh_heap := lh_heap s - {p}\<rparr>) else None)"

definition put_file :: "addr \<Rightarrow> file_note \<Rightarrow> 'a leak_scheme \<Rightarrow> 'a leak_scheme" where
  "put_file p n s = s\<lparr>lh_files := (lh_files s)(p \<mapsto> n)\<rparr>"

definition say :: "report \<Rightarrow> 'a leak_scheme \<Rightarrow> 'a leak_scheme" where
  "say r s = s\<lparr>lh_out := lh_out s @ [r]\<rparr>"

text \<open>\<open>unlink\<close>: \<open>None\<close> for its error.\<close>

definition unlink_file :: "addr \<Rightarrow> 'a leak_scheme \<Rightarrow> 'a leak_scheme option" where
  "unlink_file p s = (if lh_files s p = None then None else Some (s\<lparr>lh_files := (lh_files s)(p := None)\<rparr>))"

section \<open>Macros\<close>

text \<open>\<open>p\<close> is the result of \<open>malloc\<close>, \<open>opened\<close> whether \<open>fopen\<close> succeeds; the stream is used unchecked.\<close>

definition malloc_def :: "addr \<Rightarrow> bool \<Rightarrow> nat \<Rightarrow> nat \<Rightarrow> leak \<Rightarrow> (addr \<times> leak) option" where
  "malloc_def p opened sz loc s = (if opened then Some (p, put_file p (At loc (Some sz)) (got p s)) else None)"

definition free_def :: "addr \<Rightarrow> nat \<Rightarrow> leak \<Rightarrow> leak option" where
  "free_def p loc s = (case unlink_file p s of None \<Rightarrow> Some (say (DoubleFree p) s) | Some s1 \<Rightarrow> release p s1)"

section \<open>Replaced functions\<close>

record hooked = leak +
  enable_malloc_hook :: bool
  enable_free_hook :: bool

definition hook_malloc :: "addr \<Rightarrow> nat \<Rightarrow> nat \<Rightarrow> hooked \<Rightarrow> hooked" where
  "hook_malloc p sz caller s =
    (if enable_malloc_hook s then
       let s1 = got p (s\<lparr>enable_malloc_hook := False\<rparr>);
           s2 = put_file p (At caller None) (say (Allocated p sz) s1) in
       s2\<lparr>enable_malloc_hook := True\<rparr>
     else got p s)"

definition hook_free :: "addr \<Rightarrow> nat \<Rightarrow> hooked \<Rightarrow> hooked option" where
  "hook_free p caller s =
    (if enable_free_hook s then do {
       let s1 = say (Released p) (s\<lparr>enable_free_hook := False\<rparr>);
       let s2 = (case unlink_file p s1 of None \<Rightarrow> say (DoubleFree p) s1 | Some s2 \<Rightarrow> s2);
       s3 \<leftarrow> release p s2;
       Some (s3\<lparr>enable_free_hook := True\<rparr>) }
     else release p s)"

section \<open>Hooks of the library\<close>

datatype hook = System | Ours

record traced = leak +
  malloc_hook :: hook
  free_hook :: hook
  malloc_f :: hook
  free_f :: hook
  replaced :: nat

definition mem_trace :: "traced \<Rightarrow> traced" where
  "mem_trace s = s\<lparr>replaced := 1, malloc_f := malloc_hook s, free_f := free_hook s, malloc_hook := Ours, free_hook := Ours\<rparr>"

definition mem_untrace :: "traced \<Rightarrow> traced" where
  "mem_untrace s = s\<lparr>malloc_hook := malloc_f s, free_hook := free_f s, replaced := 0\<rparr>"

text \<open>The library calls the hook if it is replaced; \<open>malloc_hook_f\<close> and \<open>free_hook_f\<close> call the library again.\<close>

partial_function (option) lib_malloc :: "addr \<Rightarrow> nat \<Rightarrow> nat \<Rightarrow> traced \<Rightarrow> traced option" where
  "lib_malloc p sz caller s =
    (if malloc_hook s = System then Some (got p s)
     else do {
       s1 \<leftarrow> lib_malloc p sz caller (mem_untrace s);
       let s2 = say (Allocated p sz) (put_file p (At caller None) s1);
       Some (mem_trace s2) })"

partial_function (option) lib_free :: "addr \<Rightarrow> nat \<Rightarrow> traced \<Rightarrow> traced option" where
  "lib_free p caller s =
    (if free_hook s = System then release p s
     else do {
       let s1 = say (Released p) (put_file p (At caller None) (mem_untrace s));
       let s2 = (case unlink_file p s1 of None \<Rightarrow> say (DoubleFree p) s1 | Some s2 \<Rightarrow> s2);
       s3 \<leftarrow> lib_free p caller s2;
       Some (mem_trace s3) })"

declare lib_malloc.simps [code] and lib_free.simps [code]

section \<open>Runs\<close>

datatype heap_op = OpMalloc addr nat nat | OpFree addr nat

fun run_macros :: "heap_op list \<Rightarrow> leak \<Rightarrow> leak option" where
  "run_macros [] s = Some s"
| "run_macros (OpMalloc p sz loc # ops) s = do { (q, s1) \<leftarrow> malloc_def p True sz loc s; run_macros ops s1 }"
| "run_macros (OpFree p loc # ops) s = do { s1 \<leftarrow> free_def p loc s; run_macros ops s1 }"

fun run_hooked :: "heap_op list \<Rightarrow> hooked \<Rightarrow> hooked option" where
  "run_hooked [] s = Some s"
| "run_hooked (OpMalloc p sz caller # ops) s = run_hooked ops (hook_malloc p sz caller s)"
| "run_hooked (OpFree p caller # ops) s = do { s1 \<leftarrow> hook_free p caller s; run_hooked ops s1 }"

fun run_traced :: "heap_op list \<Rightarrow> traced \<Rightarrow> traced option" where
  "run_traced [] s = Some s"
| "run_traced (OpMalloc p sz caller # ops) s = do { s1 \<leftarrow> lib_malloc p sz caller s; run_traced ops s1 }"
| "run_traced (OpFree p caller # ops) s = do { s1 \<leftarrow> lib_free p caller s; run_traced ops s1 }"

definition macros_start :: leak where
  "macros_start = \<lparr>lh_heap = {}, lh_files = Map.empty, lh_out = []\<rparr>"

definition hooked_start :: hooked where
  "hooked_start = leak.extend macros_start \<lparr>enable_malloc_hook = True, enable_free_hook = True\<rparr>"

definition traced_start :: traced where
  "traced_start = mem_trace (leak.extend macros_start \<lparr>malloc_hook = System, free_hook = System, malloc_f = System, free_f = System, replaced = 0\<rparr>)"

text \<open>The allocator hands out blocks that are not live. A correct program frees live blocks; \<open>live_after\<close> is what
  it leaves.\<close>

fun allocates :: "heap_op list \<Rightarrow> addr set \<Rightarrow> bool" where
  "allocates [] L = True"
| "allocates (OpMalloc p sz loc # ops) L = (p \<noteq> NULL \<and> p \<notin> L \<and> allocates ops (insert p L))"
| "allocates (OpFree p loc # ops) L = allocates ops (L - {p})"

fun frees_live :: "heap_op list \<Rightarrow> addr set \<Rightarrow> bool" where
  "frees_live [] L = True"
| "frees_live (OpMalloc p sz loc # ops) L = frees_live ops (insert p L)"
| "frees_live (OpFree p loc # ops) L = (p \<in> L \<and> frees_live ops (L - {p}))"

fun live_after :: "heap_op list \<Rightarrow> addr set \<Rightarrow> addr set" where
  "live_after [] L = L"
| "live_after (OpMalloc p sz loc # ops) L = live_after ops (insert p L)"
| "live_after (OpFree p loc # ops) L = live_after ops (L - {p})"

section \<open>One call\<close>

lemmas leak_simps = got_def release_def put_file_def say_def unlink_file_def

lemma lib_system: "malloc_hook s = System \<Longrightarrow> lib_malloc p sz caller s = Some (got p s)" "free_hook s = System \<Longrightarrow> lib_free p caller s = release p s"
  by (subst lib_malloc.simps lib_free.simps, simp)+

lemma lib_malloc_traced:
  assumes "malloc_hook s = Ours" and "malloc_f s = System"
  shows "lib_malloc p sz caller s = Some (mem_trace (say (Allocated p sz) (put_file p (At caller None) (got p (mem_untrace s)))))"
proof -
  have "malloc_hook (mem_untrace s) = System" using assms by (simp add: mem_untrace_def)
  then show ?thesis using assms by (subst lib_malloc.simps) (simp add: lib_system Let_def)
qed

lemma lib_free_traced:
  assumes "free_hook s = Ours" and "free_f s = System"
  shows "lib_free p caller s = map_option mem_trace (release p ((say (Released p) (mem_untrace s))\<lparr>lh_files := (lh_files s)(p := None)\<rparr>))"
proof -
  let ?t = "(say (Released p) (mem_untrace s))\<lparr>lh_files := (lh_files s)(p := None)\<rparr>"
  have un: "unlink_file p (say (Released p) (put_file p (At caller None) (mem_untrace s))) = Some ?t"
    by (simp add: unlink_file_def say_def put_file_def mem_untrace_def)
  have "free_hook ?t = System" using assms by (simp add: mem_untrace_def say_def)
  then have "lib_free p caller ?t = release p ?t" by (rule lib_system(2))
  then show ?thesis using assms by (subst lib_free.simps) (cases "release p ?t"; simp add: Let_def un)
qed

text \<open>
  What the files of the three leak detectors say: for programs that free what they allocated all three
  agree; what happens to the others.
\<close>

section \<open>The files are the live blocks\<close>

lemma dom_put: "dom (\<lambda>a. if a = p then Some x else f a) = insert p (dom f)"
  by (auto split: if_splits)

lemma dom_drop: "dom (\<lambda>a. if a = p then None else f a) = dom f - {p}"
  by (auto split: if_splits)

lemma run_macros_ok:
  assumes "allocates ops L" and "lh_heap s = L" and "dom (lh_files s) = L" and "NULL \<notin> L"
  shows "\<exists>s'. run_macros ops s = Some s' \<and> dom (lh_files s') = lh_heap s' \<and> NULL \<notin> lh_heap s' \<and> (frees_live ops L \<longrightarrow> lh_heap s' = live_after ops L)"
  using assms
proof (induction ops arbitrary: s L)
  case (Cons op ops)
  show ?case
  proof (cases op)
    case (OpMalloc p sz loc)
    let ?s = "put_file p (At loc (Some sz)) (got p s)"
    have "\<exists>s'. run_macros ops ?s = Some s' \<and> dom (lh_files s') = lh_heap s' \<and> NULL \<notin> lh_heap s' \<and>
        (frees_live ops (insert p L) \<longrightarrow> lh_heap s' = live_after ops (insert p L))"
      by (rule Cons.IH) (use Cons.prems OpMalloc in \<open>simp_all add: dom_put leak_simps\<close>)
    then show ?thesis using OpMalloc by (simp add: malloc_def_def)
  next
    case (OpFree p loc)
    show ?thesis
    proof (cases "p \<in> L")
      case True
      then have fl: "lh_files s p \<noteq> None" "p \<noteq> NULL" using Cons.prems by auto
      let ?s = "s\<lparr>lh_files := (lh_files s)(p := None), lh_heap := lh_heap s - {p}\<rparr>"
      have run: "free_def p loc s = Some ?s" using fl True Cons.prems(2) by (auto simp: free_def_def leak_simps)
      have "\<exists>s'. run_macros ops ?s = Some s' \<and> dom (lh_files s') = lh_heap s' \<and> NULL \<notin> lh_heap s' \<and>
          (frees_live ops (L - {p}) \<longrightarrow> lh_heap s' = live_after ops (L - {p}))"
        by (rule Cons.IH) (use Cons.prems OpFree in \<open>simp_all add: dom_drop\<close>)
      then show ?thesis using OpFree run by auto
    next
      case False
      then have "lh_files s p = None" using Cons.prems by auto
      then have run: "free_def p loc s = Some (say (DoubleFree p) s)" by (simp add: free_def_def unlink_file_def)
      have "\<exists>s'. run_macros ops (say (DoubleFree p) s) = Some s' \<and> dom (lh_files s') = lh_heap s' \<and> NULL \<notin> lh_heap s' \<and>
          (frees_live ops (L - {p}) \<longrightarrow> lh_heap s' = live_after ops (L - {p}))"
        by (rule Cons.IH) (use Cons.prems OpFree False in \<open>auto simp: say_def\<close>)
      then show ?thesis using OpFree run False by auto
    qed
  qed
qed auto

lemma run_hooked_ok:
  assumes "allocates ops L" and "frees_live ops L" and "lh_heap s = L" and "dom (lh_files s) = L" and "NULL \<notin> L"
    and "enable_malloc_hook s" and "enable_free_hook s"
  shows "\<exists>s'. run_hooked ops s = Some s' \<and> dom (lh_files s') = live_after ops L \<and> lh_heap s' = live_after ops L"
  using assms
proof (induction ops arbitrary: s L)
  case (Cons op ops)
  show ?case
  proof (cases op)
    case (OpMalloc p sz caller)
    have "\<exists>s'. run_hooked ops (hook_malloc p sz caller s) = Some s' \<and> dom (lh_files s') = live_after ops (insert p L) \<and> lh_heap s' = live_after ops (insert p L)"
      by (rule Cons.IH) (use Cons.prems OpMalloc in \<open>simp_all add: dom_put hook_malloc_def leak_simps Let_def\<close>)
    then show ?thesis using OpMalloc by simp
  next
    case (OpFree p caller)
    then have p: "p \<in> lh_heap s" "p \<noteq> NULL" "lh_files s p \<noteq> None" using Cons.prems by auto
    let ?s = "s\<lparr>enable_free_hook := True, lh_out := lh_out s @ [Released p], lh_files := (lh_files s)(p := None), lh_heap := lh_heap s - {p}\<rparr>"
    have run: "hook_free p caller s = Some ?s" using p Cons.prems(7) by (auto simp: hook_free_def leak_simps)
    have "\<exists>s'. run_hooked ops ?s = Some s' \<and> dom (lh_files s') = live_after ops (L - {p}) \<and> lh_heap s' = live_after ops (L - {p})"
      by (rule Cons.IH) (use Cons.prems OpFree in \<open>simp_all add: dom_drop\<close>)
    then show ?thesis using OpFree run by simp
  qed
qed auto

lemma run_traced_ok:
  assumes "allocates ops L" and "frees_live ops L" and "lh_heap s = L" and "dom (lh_files s) = L" and "NULL \<notin> L"
    and "malloc_hook s = Ours" and "free_hook s = Ours" and "malloc_f s = System" and "free_f s = System"
  shows "\<exists>s'. run_traced ops s = Some s' \<and> dom (lh_files s') = live_after ops L \<and> lh_heap s' = live_after ops L"
  using assms
proof (induction ops arbitrary: s L)
  case (Cons op ops)
  show ?case
  proof (cases op)
    case (OpMalloc p sz caller)
    let ?s = "mem_trace (say (Allocated p sz) (put_file p (At caller None) (got p (mem_untrace s))))"
    have "\<exists>s'. run_traced ops ?s = Some s' \<and> dom (lh_files s') = live_after ops (insert p L) \<and> lh_heap s' = live_after ops (insert p L)"
      by (rule Cons.IH) (use Cons.prems OpMalloc in \<open>simp_all add: dom_put leak_simps mem_trace_def mem_untrace_def\<close>)
    then show ?thesis using OpMalloc Cons.prems lib_malloc_traced [of s p sz caller] by simp
  next
    case (OpFree p caller)
    then have p: "p \<in> lh_heap s" "p \<noteq> NULL" using Cons.prems by auto
    let ?t = "(say (Released p) (mem_untrace s))\<lparr>lh_files := (lh_files s)(p := None)\<rparr>"
    let ?s = "mem_trace (?t\<lparr>lh_heap := lh_heap s - {p}\<rparr>)"
    have run: "lib_free p caller s = Some ?s"
      using p Cons.prems lib_free_traced [of s p caller] by (simp add: release_def say_def mem_untrace_def)
    have "\<exists>s'. run_traced ops ?s = Some s' \<and> dom (lh_files s') = live_after ops (L - {p}) \<and> lh_heap s' = live_after ops (L - {p})"
      by (rule Cons.IH) (use Cons.prems OpFree in \<open>simp_all add: dom_drop say_def mem_trace_def mem_untrace_def\<close>)
    then show ?thesis using OpFree run by simp
  qed
qed auto

section \<open>Properties\<close>

text \<open>with the macros, whatever a program allocates and whatever pointers it frees, no release is ever
  undefined, and at the end the files are exactly the live blocks: the leaks.\<close>

theorem leak_files_are_live_blocks:
  assumes "allocates ops {}"
  shows "\<exists>s'. run_macros ops macros_start = Some s' \<and> dom (lh_files s') = lh_heap s'"
  using run_macros_ok [OF assms, of macros_start] by (auto simp: macros_start_def)

theorem leak_files_are_live_blocks_witness:
  "\<exists>s'. run_macros [OpMalloc 8 10 1, OpMalloc 16 20 2, OpFree 8 3, OpFree 8 4] macros_start = Some s' \<and> dom (lh_files s') = lh_heap s'"
  by (rule leak_files_are_live_blocks) simp

text \<open>C30: on a program that frees live blocks only, the three detectors leave files for the same blocks, those
  that are still live.\<close>

theorem leak_detectors_agree:
  assumes "allocates ops {}" and "frees_live ops {}"
  shows "\<exists>a b c. run_macros ops macros_start = Some a \<and> run_hooked ops hooked_start = Some b \<and> run_traced ops traced_start = Some c \<and>
    dom (lh_files a) = live_after ops {} \<and> dom (lh_files b) = live_after ops {} \<and> dom (lh_files c) = live_after ops {}"
proof -
  obtain a where a: "run_macros ops macros_start = Some a" "dom (lh_files a) = live_after ops {}"
    using run_macros_ok [OF assms(1), of macros_start] assms(2) by (auto simp: macros_start_def)
  obtain b where b: "run_hooked ops hooked_start = Some b" "dom (lh_files b) = live_after ops {}"
    using run_hooked_ok [OF assms, of hooked_start] by (auto simp: hooked_start_def macros_start_def leak.defs)
  obtain c where c: "run_traced ops traced_start = Some c" "dom (lh_files c) = live_after ops {}"
    using run_traced_ok [OF assms, of traced_start] by (auto simp: traced_start_def mem_trace_def macros_start_def leak.defs)
  show ?thesis using a b c by blast
qed

theorem leak_detectors_agree_witness:
  "\<exists>a b c. run_macros [OpMalloc 8 10 1, OpMalloc 16 20 2, OpFree 8 3] macros_start = Some a \<and>
    run_hooked [OpMalloc 8 10 1, OpMalloc 16 20 2, OpFree 8 3] hooked_start = Some b \<and>
    run_traced [OpMalloc 8 10 1, OpMalloc 16 20 2, OpFree 8 3] traced_start = Some c \<and>
    dom (lh_files a) = {16} \<and> dom (lh_files b) = {16} \<and> dom (lh_files c) = {16}"
proof -
  have "live_after [OpMalloc 8 10 1, OpMalloc 16 20 2, OpFree 8 3] {} = {16}" by auto
  then show ?thesis
    using leak_detectors_agree [of "[OpMalloc 8 10 1, OpMalloc 16 20 2, OpFree 8 3]"] by (simp del: run_macros.simps run_hooked.simps run_traced.simps)
qed

text \<open>a second free of a block is reported and ignored by the macros. The replaced functions report it and
  free the block again all the same; the hooks of the library do not even see it, since \<open>free_hook_f\<close> writes the
  file of the block again before it tests for it.\<close>

theorem double_free_only_macros_stop:
  assumes "p \<noteq> NULL" and "p \<notin> lh_heap s" and "lh_files s p = None" and "p \<notin> lh_heap h" and "p \<notin> lh_heap t"
    and "free_hook t = Ours" and "free_f t = System"
  shows "free_def p loc s = Some (say (DoubleFree p) s) \<and> hook_free p loc h = None \<and> lib_free p loc t = None"
proof -
  have "hook_free p loc h = None" using assms(1,4) by (auto simp: hook_free_def leak_simps Let_def split: option.splits)
  moreover have "lib_free p loc t = None" using assms(1,5,6,7) lib_free_traced [of t p loc] by (simp add: release_def say_def mem_untrace_def)
  ultimately show ?thesis using assms(3) by (simp add: free_def_def unlink_file_def)
qed

theorem double_free_only_macros_stop_witness:
  "free_def 8 1 macros_start = Some (say (DoubleFree 8) macros_start) \<and> hook_free 8 1 hooked_start = None \<and> lib_free 8 1 traced_start = None"
  by (rule double_free_only_macros_stop)
    (simp_all add: macros_start_def hooked_start_def traced_start_def mem_trace_def leak.defs)

text \<open>The flags of the replaced functions are shared by all threads: a block that one thread allocates while
  another is in the hook has no file, and its only release is reported as a double free.\<close>

lemma allocation_during_hook_is_not_seen:
  assumes "\<not> enable_malloc_hook s" and "lh_files s p = None" and "enable_free_hook s" and "p \<noteq> NULL"
  shows "\<exists>s'. hook_free p caller (hook_malloc p sz caller s) = Some s' \<and> DoubleFree p \<in> set (lh_out s')"
  using assms by (simp add: hook_malloc_def hook_free_def leak_simps)

end
