(* ===== verification/Packets.thy ===== *)
theory Packets
  imports Bytes "HOL-Library.Numeral_Type"
begin

text \<open>
  The packets of \<open>udp_icmp_arp.c\<close>: the packed headers as records, their layout in memory, the answers
  to UDP, ICMP and ARP packets, and what \<open>main\<close> does with the packets of the network card. A host
  is little-endian, so a 16-bit field is read with \<open>load16\<close>.
\<close>

section \<open>Bytes of 32-bit fields\<close>

definition bytes32 :: "32 word \<Rightarrow> byte list" where
  "bytes32 x = [ucast x, ucast (drop_bit 8 x), ucast (drop_bit 16 x), ucast (drop_bit 24 x)]"

definition load32 :: "byte list \<Rightarrow> 32 word" where
  "load32 bs = ucast (bs ! 0) OR push_bit 8 (ucast (bs ! 1)) OR push_bit 16 (ucast (bs ! 2)) OR push_bit 24 (ucast (bs ! 3))"

section \<open>Headers\<close>

record ethhdr =
  h_dst :: "byte list"
  h_src :: "byte list"
  h_proto :: "16 word"

record iphdr =
  ip_hdrlen :: "4 word"
  ip_version :: "4 word"
  ip_tos :: byte
  ip_totlen :: "16 word"
  ip_id :: "16 word"
  ip_flag_offset :: "16 word"
  ip_ttl :: byte
  ip_type :: byte
  ip_check :: "16 word"
  ip_sip :: "32 word"
  ip_dip :: "32 word"

record ippkt =
  eh :: ethhdr
  ip :: iphdr

record udphdr =
  udp_sport :: "16 word"
  udp_dport :: "16 word"
  udp_length :: "16 word"
  udp_check :: "16 word"

record udppkt = ippkt +
  udp :: udphdr

record arphdr =
  arp_h_type :: "16 word"
  arp_h_proto :: "16 word"
  arp_addrlen :: byte
  arp_protolen :: byte
  arp_oper :: "16 word"
  arp_smac :: "byte list"
  arp_sip :: "32 word"
  arp_dmac :: "byte list"
  arp_dip :: "32 word"

record arppkt =
  arp_eh :: ethhdr
  arp :: arphdr

record icmphdr =
  icmp_type :: byte
  icmp_code :: byte
  icmp_check :: "16 word"
  icmp_identifier :: "16 word"
  icmp_seq :: "16 word"
  icmp_data :: "byte list"

record icmppkt = ippkt +
  icmp :: icmphdr

section \<open>Layout\<close>

definition load_eth :: "byte list \<Rightarrow> ethhdr" where
  "load_eth bs = \<lparr>h_dst = take 6 bs, h_src = take 6 (drop 6 bs), h_proto = load16 (drop 12 bs)\<rparr>"

definition store_eth :: "ethhdr \<Rightarrow> byte list" where
  "store_eth e = h_dst e @ h_src e @ bytes16 (h_proto e)"

text \<open>A byte of two bit-fields, the first one low.\<close>

definition low_bits :: "byte \<Rightarrow> 4 word" where
  "low_bits b = ucast b"

definition high_bits :: "byte \<Rightarrow> 4 word" where
  "high_bits b = ucast (drop_bit 4 b)"

definition bit_fields :: "4 word \<Rightarrow> 4 word \<Rightarrow> byte" where
  "bit_fields lo hi = ucast lo OR push_bit 4 (ucast hi)"

definition load_ip :: "byte list \<Rightarrow> iphdr" where
  "load_ip bs = \<lparr>ip_hdrlen = low_bits (bs ! 0), ip_version = high_bits (bs ! 0), ip_tos = bs ! 1,
     ip_totlen = load16 (drop 2 bs), ip_id = load16 (drop 4 bs), ip_flag_offset = load16 (drop 6 bs), ip_ttl = bs ! 8,
     ip_type = bs ! 9, ip_check = load16 (drop 10 bs), ip_sip = load32 (drop 12 bs), ip_dip = load32 (drop 16 bs)\<rparr>"

definition store_ip :: "iphdr \<Rightarrow> byte list" where
  "store_ip h = [bit_fields (ip_hdrlen h) (ip_version h), ip_tos h] @ bytes16 (ip_totlen h) @ bytes16 (ip_id h) @
     bytes16 (ip_flag_offset h) @ [ip_ttl h, ip_type h] @ bytes16 (ip_check h) @ bytes32 (ip_sip h) @ bytes32 (ip_dip h)"

definition load_udp :: "byte list \<Rightarrow> udphdr" where
  "load_udp bs = \<lparr>udp_sport = load16 bs, udp_dport = load16 (drop 2 bs), udp_length = load16 (drop 4 bs), udp_check = load16 (drop 6 bs)\<rparr>"

definition store_udp :: "udphdr \<Rightarrow> byte list" where
  "store_udp u = bytes16 (udp_sport u) @ bytes16 (udp_dport u) @ bytes16 (udp_length u) @ bytes16 (udp_check u)"

definition load_arp :: "byte list \<Rightarrow> arphdr" where
  "load_arp bs = \<lparr>arp_h_type = load16 bs, arp_h_proto = load16 (drop 2 bs), arp_addrlen = bs ! 4, arp_protolen = bs ! 5,
     arp_oper = load16 (drop 6 bs), arp_smac = take 6 (drop 8 bs), arp_sip = load32 (drop 14 bs),
     arp_dmac = take 6 (drop 18 bs), arp_dip = load32 (drop 24 bs)\<rparr>"

definition store_arp :: "arphdr \<Rightarrow> byte list" where
  "store_arp a = bytes16 (arp_h_type a) @ bytes16 (arp_h_proto a) @ [arp_addrlen a, arp_protolen a] @ bytes16 (arp_oper a) @
     arp_smac a @ bytes32 (arp_sip a) @ arp_dmac a @ bytes32 (arp_dip a)"

definition load_icmp :: "byte list \<Rightarrow> icmphdr" where
  "load_icmp bs = \<lparr>icmp_type = bs ! 0, icmp_code = bs ! 1, icmp_check = load16 (drop 2 bs), icmp_identifier = load16 (drop 4 bs),
     icmp_seq = load16 (drop 6 bs), icmp_data = take 32 (drop 8 bs)\<rparr>"

definition store_icmp :: "icmphdr \<Rightarrow> byte list" where
  "store_icmp i = [icmp_type i, icmp_code i] @ bytes16 (icmp_check i) @ bytes16 (icmp_identifier i) @ bytes16 (icmp_seq i) @ icmp_data i"

definition store_udppkt :: "udppkt \<Rightarrow> byte list" where
  "store_udppkt p = store_eth (eh p) @ store_ip (ip p) @ store_udp (udp p)"

definition store_arppkt :: "arppkt \<Rightarrow> byte list" where
  "store_arppkt p = store_eth (arp_eh p) @ store_arp (arp p)"

definition store_icmppkt :: "icmppkt \<Rightarrow> byte list" where
  "store_icmppkt p = store_eth (eh p) @ store_ip (ip p) @ store_icmp (icmp p)"

text \<open>A pointer to the packet as a pointer to a structure: its bytes have to be in the buffer.\<close>

definition as_udppkt :: "byte list \<Rightarrow> udppkt option" where
  "as_udppkt stream = do { bs \<leftarrow> read_at 0 42 stream;
     Some \<lparr>eh = load_eth (take 14 bs), ip = load_ip (take 20 (drop 14 bs)), udp = load_udp (drop 34 bs)\<rparr> }"

definition as_arppkt :: "byte list \<Rightarrow> arppkt option" where
  "as_arppkt stream = do { bs \<leftarrow> read_at 0 42 stream; Some \<lparr>arp_eh = load_eth (take 14 bs), arp = load_arp (drop 14 bs)\<rparr> }"

definition as_icmppkt :: "byte list \<Rightarrow> icmppkt option" where
  "as_icmppkt stream = do { bs \<leftarrow> read_at 0 74 stream;
     Some \<lparr>eh = load_eth (take 14 bs), ip = load_ip (take 20 (drop 14 bs)), icmp = load_icmp (drop 34 bs)\<rparr> }"

section \<open>Addresses as text\<close>

definition hex_value :: "byte \<Rightarrow> byte option" where
  "hex_value temp =
    (if temp \<le> 57 \<and> temp \<ge> 48 then Some (temp - 48)
     else if temp \<le> 102 \<and> temp \<ge> 97 then Some (temp - 97 + 10)
     else if temp \<le> 70 \<and> temp \<ge> 65 then Some (temp - 65 + 10)
     else None)"

text \<open>The condition of the loop compares the pointer, so only a character that is neither a digit nor a
  colon ends it, the null byte among them.\<close>

fun str2mac_loop :: "byte list \<Rightarrow> byte \<Rightarrow> nat \<Rightarrow> byte list \<Rightarrow> byte list option" where
  "str2mac_loop mac v i [] = None"
| "str2mac_loop mac v i (c # p) =
    (if c = 58 then do { mac1 \<leftarrow> write_at i [v] mac; str2mac_loop mac1 0 (Suc i) p }
     else (case hex_value c of
        Some temp \<Rightarrow> str2mac_loop mac (push_bit 4 v OR temp) i p
      | None \<Rightarrow> write_at i [v] mac))"

definition str2mac :: "byte list \<Rightarrow> byte list \<Rightarrow> byte list option" where
  "str2mac mac str = str2mac_loop mac 0 0 str"

section \<open>Checksum\<close>

text \<open>The sum is an \<open>int\<close>: \<open>None\<close> is its overflow.\<close>

fun sum_words :: "nat \<Rightarrow> byte list \<Rightarrow> nat option" where
  "sum_words acc [] = Some acc"
| "sum_words acc [a] = (if acc + unat a < 2147483648 then Some (acc + unat a) else None)"
| "sum_words acc (a # b # w) =
    (if acc + unat (load16 [a, b]) < 2147483648 then sum_words (acc + unat (load16 [a, b])) w else None)"

definition in_cksum :: "byte list \<Rightarrow> nat \<Rightarrow> 16 word option" where
  "in_cksum addr len = do {
     bs \<leftarrow> read_at 0 len addr;
     sum \<leftarrow> sum_words 0 bs;
     let sum1 = sum div 65536 + sum mod 65536;
     let sum2 = sum1 + sum1 div 65536;
     Some (NOT (word_of_nat sum2)) }"

section \<open>Answers\<close>

definition echo_udp_pkt :: "udppkt \<Rightarrow> udppkt" where
  "echo_udp_pkt p = p
    \<lparr>eh := (eh p)\<lparr>h_dst := h_src (eh p), h_src := h_dst (eh p)\<rparr>,
     ip := (ip p)\<lparr>ip_sip := ip_dip (ip p), ip_dip := ip_sip (ip p)\<rparr>,
     udp := (udp p)\<lparr>udp_sport := udp_dport (udp p), udp_dport := udp_sport (udp p)\<rparr>\<rparr>"

definition echo_arp_pkt :: "arppkt \<Rightarrow> byte list \<Rightarrow> arppkt option" where
  "echo_arp_pkt p mac = do {
     src \<leftarrow> str2mac (h_src (arp_eh p)) mac;
     smac \<leftarrow> str2mac (arp_smac (arp p)) mac;
     Some (p\<lparr>arp_eh := (arp_eh p)\<lparr>h_dst := h_src (arp_eh p), h_src := src, h_proto := h_proto (arp_eh p)\<rparr>,
       arp := (arp p)\<lparr>arp_addrlen := 6, arp_protolen := 4, arp_oper := htons 2, arp_smac := smac, arp_sip := arp_dip (arp p),
         arp_dmac := arp_smac (arp p), arp_dip := arp_sip (arp p)\<rparr>\<rparr>) }"

definition echo_icmp_pkt :: "icmppkt \<Rightarrow> icmppkt option" where
  "echo_icmp_pkt p = do {
     let i = (icmp p)\<lparr>icmp_type := 0, icmp_code := 0, icmp_check := 0\<rparr>;
     let p1 = p\<lparr>icmp := i,
       ip := (ip p)\<lparr>ip_sip := ip_dip (ip p), ip_dip := ip_sip (ip p)\<rparr>,
       eh := (eh p)\<lparr>h_dst := h_src (eh p), h_src := h_dst (eh p)\<rparr>\<rparr>;
     ck \<leftarrow> in_cksum (store_icmp i) 40;
     Some (p1\<lparr>icmp := i\<lparr>icmp_check := ck\<rparr>\<rparr>) }"

section \<open>The loop\<close>

text \<open>Addresses of \<open>main\<close>: the result of \<open>inet_addr\<close> for 192.168.109.100, and the text of the own one.\<close>

definition own_ip :: "32 word" where
  "own_ip = load32 [192, 168, 109, 100]"

definition own_mac :: "byte list" where
  "own_mac = [48, 48, 58, 48, 99, 58, 50, 57, 58, 49, 98, 58, 49, 56, 58, 50, 48, 0]"

text \<open>Each packet is answered with the frames that are injected. The text of a UDP packet is printed up to its null byte.\<close>

definition udp_packet :: "byte list \<Rightarrow> byte list list option" where
  "udp_packet stream = do {
     p \<leftarrow> as_udppkt stream;
     stream1 \<leftarrow> write_at (34 + unat (htons (udp_length (udp p)))) [0] stream;
     printed \<leftarrow> c_string (drop 42 stream1);
     p1 \<leftarrow> as_udppkt stream1;
     Some [store_udppkt (echo_udp_pkt p1)] }"

definition icmp_packet :: "byte list \<Rightarrow> byte list list option" where
  "icmp_packet stream = do {
     ty \<leftarrow> byte_at stream 34;
     check \<leftarrow> read16 stream 36;
     (if ty = 8 then do {
        p \<leftarrow> as_icmppkt stream;
        r \<leftarrow> echo_icmp_pkt p;
        Some [store_icmppkt r] }
      else Some []) }"

definition arp_packet :: "byte list \<Rightarrow> byte list list option" where
  "arp_packet stream = do {
     p \<leftarrow> as_arppkt stream;
     (if arp_dip (arp p) = own_ip then do {
        r \<leftarrow> echo_arp_pkt p own_mac;
        Some [store_arppkt r] }
      else Some []) }"

definition packet :: "byte list \<Rightarrow> byte list list option" where
  "packet stream = do {
     proto \<leftarrow> read16 stream 12;
     (if htons proto = 0x0800 then do {
        ty \<leftarrow> byte_at stream 23;
        (if ty = 17 then udp_packet stream else if ty = 1 then icmp_packet stream else Some []) }
      else if htons proto = 0x0806 then arp_packet stream
      else Some []) }"

text \<open>What \<open>poll\<close> and \<open>nm_nextpkt\<close> give: an error, no input, a packet, or no packet in spite of input, in which
  case its address is null.\<close>

datatype poll_result = PollError | NoInput | Packet "byte list option"

fun packet_loop :: "poll_result list \<Rightarrow> byte list list option" where
  "packet_loop [] = Some []"
| "packet_loop (PollError # evs) = packet_loop evs"
| "packet_loop (NoInput # evs) = packet_loop evs"
| "packet_loop (Packet pkt # evs) = do { stream \<leftarrow> pkt; out \<leftarrow> packet stream; rest \<leftarrow> packet_loop evs; Some (out @ rest) }"

section \<open>A layout\<close>

text \<open>What the headers promise: a structure of \<open>n\<close> bytes is written and read back.\<close>

locale layout =
  fixes n :: nat
    and ld :: "byte list \<Rightarrow> 'a"
    and st :: "'a \<Rightarrow> byte list"
    and wf :: "'a \<Rightarrow> bool"
  assumes ld_wf: "length bs = n \<Longrightarrow> wf (ld bs)"
    and st_length: "wf x \<Longrightarrow> length (st x) = n"
    and st_ld: "length bs = n \<Longrightarrow> st (ld bs) = bs"
    and ld_st: "wf x \<Longrightarrow> ld (st x) = x"
begin

lemma ld_at:
  assumes "p + n \<le> length buf"
  shows "\<exists>x pre suf. wf x \<and> buf = pre @ st x @ suf \<and> length pre = p \<and> ld (take n (drop p buf)) = x"
proof -
  have len: "length (take n (drop p buf)) = n" using assms by simp
  have "buf = take p buf @ take n (drop p buf) @ drop n (drop p buf)" by (simp only: append_take_drop_id)
  then show ?thesis using ld_wf [OF len] st_ld [OF len] assms
    by (intro exI [of _ "ld (take n (drop p buf))"] exI [of _ "take p buf"] exI [of _ "drop n (drop p buf)"]) simp
qed

lemma ld_here [simp]: "wf x \<Longrightarrow> ld (take n (st x @ suf)) = x"
  by (simp add: st_length ld_st)

lemma drop_here [simp]: "wf x \<Longrightarrow> drop n (st x @ suf) = suf"
  by (simp add: st_length)

lemma st_inj: "wf x \<Longrightarrow> wf y \<Longrightarrow> st x = st y \<longleftrightarrow> x = y"
  using ld_st by metis

end

definition wf_eth :: "ethhdr \<Rightarrow> bool" where
  "wf_eth e \<longleftrightarrow> length (h_dst e) = 6 \<and> length (h_src e) = 6"

definition wf_arp :: "arphdr \<Rightarrow> bool" where
  "wf_arp a \<longleftrightarrow> length (arp_smac a) = 6 \<and> length (arp_dmac a) = 6"

definition wf_icmp :: "icmphdr \<Rightarrow> bool" where
  "wf_icmp i \<longleftrightarrow> length (icmp_data i) = 32"

lemma load16_bytes16 [simp]: "load16 (bytes16 x @ r) = x"
  unfolding load16_def bytes16_def by (simp, intro bit_eqI) (auto simp: bit_simps)

lemma bytes16_load16 [simp]: "bytes16 (load16 (a # b # r)) = [a, b]"
  unfolding load16_def bytes16_def by (simp, intro conjI bit_eqI) (auto simp: bit_simps dest: bit_imp_le_length)

lemma load32_bytes32 [simp]: "load32 (bytes32 x @ r) = x"
proof -
  have "bit (load32 (bytes32 x @ r)) k = bit x k" if "k < 32" for k
    using that by (cases "k < 8"; cases "k < 16"; cases "k < 24") (auto simp: load32_def bytes32_def bit_simps)
  then show ?thesis by (intro bit_word_eqI) simp
qed

lemma bytes32_load32 [simp]: "bytes32 (load32 (a # b # c # d # r)) = [a, b, c, d]"
  unfolding load32_def bytes32_def by (simp, intro conjI bit_eqI) (auto simp: bit_simps dest: bit_imp_le_length)

lemma length_bytes32 [simp]: "length (bytes32 x) = 4"
  by (simp add: bytes32_def)

lemmas load16_bytes16_end [simp] = load16_bytes16 [of _ "[]", simplified]
lemmas load32_bytes32_end [simp] = load32_bytes32 [of _ "[]", simplified]

lemma bit_fields_simps [simp]: "low_bits (bit_fields a b) = a" "high_bits (bit_fields a b) = b"
  "bit_fields (low_bits c) (high_bits c) = c"
  unfolding low_bits_def high_bits_def bit_fields_def
  by (intro bit_eqI; auto simp: bit_simps dest: bit_imp_le_length)+

text \<open>Each header interprets the locale; a list of a known length is split into its bytes.\<close>

lemmas split_bytes = length_Suc_conv numeral_eq_Suc

interpretation le: layout 14 load_eth store_eth wf_eth
proof unfold_locales
  fix bs :: "byte list" assume "length bs = 14"
  then show "wf_eth (load_eth bs)" "store_eth (load_eth bs) = bs" by (auto simp: wf_eth_def load_eth_def store_eth_def split_bytes)
qed (auto simp: wf_eth_def load_eth_def store_eth_def)

interpretation li: layout 20 load_ip store_ip "\<lambda>_. True"
proof unfold_locales
  fix bs :: "byte list" assume "length bs = 20"
  then show "store_ip (load_ip bs) = bs" by (auto simp: load_ip_def store_ip_def split_bytes)
next
  fix x :: iphdr
  show "load_ip (store_ip x) = x" by (simp add: load_ip_def store_ip_def nth_append)
qed (auto simp: store_ip_def)

interpretation lu: layout 8 load_udp store_udp "\<lambda>_. True"
proof unfold_locales
  fix bs :: "byte list" assume "length bs = 8"
  then show "store_udp (load_udp bs) = bs" by (auto simp: load_udp_def store_udp_def split_bytes)
qed (auto simp: load_udp_def store_udp_def)

interpretation la: layout 28 load_arp store_arp wf_arp
proof unfold_locales
  fix bs :: "byte list" assume "length bs = 28"
  then show "wf_arp (load_arp bs)" "store_arp (load_arp bs) = bs" by (auto simp: wf_arp_def load_arp_def store_arp_def split_bytes)
qed (auto simp: wf_arp_def load_arp_def store_arp_def nth_append)

interpretation lc: layout 40 load_icmp store_icmp wf_icmp
proof unfold_locales
  fix bs :: "byte list" assume l: "length bs = 40"
  then show "wf_icmp (load_icmp bs)" by (simp add: wf_icmp_def load_icmp_def)
  have "length (take 8 bs) = 8" using l by simp
  then have "store_icmp (load_icmp (take 8 bs @ drop 8 bs)) = take 8 bs @ drop 8 bs" using l
    by (auto simp: load_icmp_def store_icmp_def split_bytes)
  then show "store_icmp (load_icmp bs) = bs" by simp
qed (auto simp: wf_icmp_def load_icmp_def store_icmp_def)

end
