(* ===== verification/Packets_Props.thy ===== *)
theory Packets_Props
  imports Packets
begin

text \<open>
  The address parser and the checksum are right; what the program answers to ping, ARP and UDP, byte
  by byte; and where its trust in the packet fails.
\<close>

lemma unat_byte: "unat (b :: byte) < 256" and unat_16: "unat (w :: 16 word) < 65536"
proof -
  have "unat b < 2 ^ LENGTH(8)" "unat w < 2 ^ LENGTH(16)" by (rule unsigned_less)+
  then show "unat b < 256" "unat w < 65536" by simp_all
qed

section \<open>Addresses\<close>

definition hex_digit :: "byte \<Rightarrow> byte" where
  "hex_digit w = (if w < 10 then w + 48 else w + 87)"

fun mac_text :: "byte list \<Rightarrow> byte list" where
  "mac_text [] = []"
| "mac_text [b] = [hex_digit (drop_bit 4 b), hex_digit (b AND 15)]"
| "mac_text (b # c # bs) = hex_digit (drop_bit 4 b) # hex_digit (b AND 15) # 58 # mac_text (c # bs)"

lemma hex_value_digit:
  assumes "w < 16"
  shows "hex_value (hex_digit w) = Some w" and "hex_digit w \<noteq> 58"
proof -
  have u: "unat w < 16" using assms by (simp add: word_less_nat_alt)
  show "hex_value (hex_digit w) = Some w"
    using u by (auto simp: hex_value_def hex_digit_def word_le_nat_alt word_less_nat_alt unat_word_ariths)
  have "unat (hex_digit w) \<noteq> 58" using u by (auto simp: hex_digit_def word_less_nat_alt unat_word_ariths)
  then show "hex_digit w \<noteq> 58" by auto
qed

lemma hex_value_0 [simp]: "hex_value 0 = None"
  by (simp add: hex_value_def)

lemma nibble_less: "drop_bit 4 (b :: byte) < 16" "(b :: byte) AND 15 < 16"
proof -
  have "unat (drop_bit 4 b) < 16" using unat_byte [of b] by (subst unat_drop_bit_eq) (simp add: drop_bit_eq_div)
  then show "drop_bit 4 b < 16" by (simp add: word_less_nat_alt)
  have "b AND 15 = take_bit 4 b" by (simp add: take_bit_eq_mask mask_eq_exp_minus_1)
  moreover have "unat (take_bit 4 b) < 16" by (subst unsigned_take_bit_eq) (simp add: take_bit_eq_mod)
  ultimately show "b AND 15 < 16" by (simp add: word_less_nat_alt)
qed

lemma nibbles_join: "push_bit 4 (drop_bit 4 (b :: byte)) OR (b AND 15) = b"
proof -
  have "b AND 15 = take_bit 4 b" by (simp add: take_bit_eq_mask mask_eq_exp_minus_1)
  then show ?thesis by (auto intro!: bit_eqI simp: bit_simps)
qed

lemma str2mac_loop_text:
  "bs \<noteq> [] \<Longrightarrow> i + length bs \<le> length mac \<Longrightarrow>
    str2mac_loop mac 0 i (mac_text bs @ 0 # rest) = Some (take i mac @ bs @ drop (i + length bs) mac)"
proof (induction bs arbitrary: mac i rule: mac_text.induct)
  case (2 b)
  then show ?case by (simp add: hex_value_digit nibble_less nibbles_join write_at_def)
next
  case (3 b c bs)
  have w: "write_at i [b] mac = Some (take i mac @ b # drop (Suc i) mac)" using 3(3) by (simp add: write_at_def)
  have "str2mac_loop (take i mac @ b # drop (Suc i) mac) 0 (Suc i) (mac_text (c # bs) @ 0 # rest) =
      Some (take (Suc i) (take i mac @ b # drop (Suc i) mac) @ (c # bs) @ drop (Suc i + length (c # bs)) (take i mac @ b # drop (Suc i) mac))"
    using 3(3) by (intro 3(1)) simp_all
  moreover have "take (Suc i) (take i mac @ b # drop (Suc i) mac) = take i mac @ [b]" using 3(3) by (simp add: min_def)
  moreover have "drop (Suc i + length (c # bs)) (take i mac @ b # drop (Suc i) mac) = drop (i + length (b # c # bs)) mac"
    using 3(3) by (simp add: min_def add.commute)
  ultimately show ?case by (simp add: hex_value_digit nibble_less nibbles_join w)
qed simp

text \<open>\<open>str2mac\<close> reads back what printing an address with colons gives, whatever follows the null byte.\<close>

theorem str2mac_roundtrip:
  assumes "length bs = 6" and "length mac = 6"
  shows "str2mac mac (mac_text bs @ 0 # rest) = Some bs"
proof -
  have "bs \<noteq> []" using assms(1) by auto
  then show ?thesis using str2mac_loop_text [of bs 0 mac rest] assms by (simp add: str2mac_def)
qed

theorem str2mac_roundtrip_witness: "str2mac (replicate 6 0) (mac_text [0, 12, 41, 27, 24, 32] @ 0 # []) = Some [0, 12, 41, 27, 24, 32]"
  by (rule str2mac_roundtrip) simp_all

section \<open>Checksum\<close>

fun total :: "byte list \<Rightarrow> nat" where
  "total [] = 0"
| "total [a] = unat a"
| "total (a # b # w) = unat (load16 [a, b]) + total w"

definition fold16 :: "nat \<Rightarrow> nat" where
  "fold16 n = ((n div 65536 + n mod 65536) + (n div 65536 + n mod 65536) div 65536) mod 65536"

lemma sum_words_total: "acc + total bs < 2147483648 \<Longrightarrow> sum_words acc bs = Some (acc + total bs)"
  by (induction acc bs rule: sum_words.induct) (auto simp: add.assoc)

lemma total_append: "even (length xs) \<Longrightarrow> total (xs @ ys) = total xs + total ys"
  by (induction xs rule: total.induct) auto

lemma total_bound: "total bs \<le> 65535 * length bs"
proof (induction bs rule: total.induct)
  case (2 a)
  then show ?case using unat_byte [of a] by simp
next
  case (3 a b w)
  then show ?case using unat_16 [of "load16 [a, b]"] by simp
qed simp

lemma total_bytes16 [simp]: "total (bytes16 x) = unat x"
  using load16_bytes16 [of x "[]"] by (simp add: bytes16_def)

lemma fold16_mod:
  assumes "n < 2147483648"
  shows "fold16 n mod 65535 = n mod 65535" and "fold16 n \<le> 65535" and "fold16 n = 0 \<longleftrightarrow> n = 0"
proof -
  define q r where "q = n div 65536" and "r = n mod 65536"
  have n: "n = 65536 * q + r" "r < 65536" "q < 32768" using assms by (simp_all add: q_def r_def)
  have f: "fold16 n = (if q + r < 65536 then q + r else q + r - 65535)"
  proof (cases "q + r < 65536")
    case True
    then show ?thesis by (simp add: fold16_def q_def r_def)
  next
    case False
    then have "(q + r) div 65536 = 1" using n by simp
    then have "fold16 n = (q + r + 1) mod 65536" by (simp add: fold16_def q_def r_def)
    also have "\<dots> = q + r - 65535" using False n by (simp add: mod_if)
    finally show ?thesis using False by simp
  qed
  have "n = 65535 * q + (q + r)" using n by simp
  then have m: "n mod 65535 = (q + r) mod 65535" by (simp only: mod_mult_self4)
  show "fold16 n mod 65535 = n mod 65535" using f m by (auto simp: mod_if [of "q + r"] not_less)
  show "fold16 n \<le> 65535" using f n by auto
  show "fold16 n = 0 \<longleftrightarrow> n = 0" using f n by auto
qed

lemma word_of_nat_mod: "word_of_nat (m mod 65536) = (word_of_nat m :: 16 word)"
  by (simp add: word_of_nat_eq_iff take_bit_eq_mod)

lemma in_cksum_total:
  assumes "length buf = len" and "total buf < 2147483648"
  shows "in_cksum buf len = Some (NOT (word_of_nat (fold16 (total buf))))"
proof -
  have "word_of_nat (fold16 n) = (word_of_nat (n div 65536 + n mod 65536 + (n div 65536 + n mod 65536) div 65536) :: 16 word)" for n
    unfolding fold16_def by (simp only: word_of_nat_mod)
  then show ?thesis using sum_words_total [of 0 buf] assms by (simp add: in_cksum_def read_at_def Let_def)
qed

lemma unat_cksum: "n \<le> 65535 \<Longrightarrow> unat (NOT (word_of_nat n) :: 16 word) = 65535 - n"
proof -
  assume n: "n \<le> 65535"
  have "uint (NOT (word_of_nat n) :: 16 word) = take_bit 16 (NOT (int n))"
    using n by (simp add: unsigned_not_eq unsigned_of_nat take_bit_eq_mod)
  also have "\<dots> = 65535 - int n" proof -
    have "NOT (int n) = (65535 - int n) + (- 1) * 65536" by (simp add: not_int_def)
    then have "NOT (int n) mod 65536 = (65535 - int n) mod 65536" by (simp only: mod_mult_self1)
    then show ?thesis using n by (simp only: take_bit_eq_mod) simp
  qed
  finally show ?thesis using n by (simp flip: nat_uint_eq)
qed

text \<open>a checksum that is written into an even place of a buffer that was zero there makes the checksum of the
  whole buffer zero: the receiver accepts it.\<close>

theorem in_cksum_verifies:
  assumes "even (length pre)" and "length (pre @ bytes16 0 @ suf) < 32768" and "in_cksum (pre @ bytes16 0 @ suf) (length (pre @ bytes16 0 @ suf)) = Some ck"
  shows "in_cksum (pre @ bytes16 ck @ suf) (length (pre @ bytes16 ck @ suf)) = Some 0"
proof -
  let ?T = "total pre + total suf"
  have b: "65535 * (length pre + length suf) + 65535 < 2147483648" using assms(2) by simp
  have T: "?T + 65535 < 2147483648" using total_bound [of pre] total_bound [of suf] b by (simp add: distrib_left)
  have t: "total (pre @ bytes16 x @ suf) = ?T + unat x" for x using assms(1) by (simp add: total_append)
  have ck: "ck = NOT (word_of_nat (fold16 ?T))" using assms(3) T in_cksum_total [of "pre @ bytes16 0 @ suf"] by (simp add: t)
  have u: "unat ck = 65535 - fold16 ?T" using T by (simp add: ck unat_cksum fold16_mod(2))
  have lt: "?T + unat ck < 2147483648" using u T by simp
  have le: "fold16 ?T \<le> 65535" using T by (intro fold16_mod(2)) simp
  have "(?T + unat ck) mod 65535 = (?T mod 65535 + (65535 - fold16 ?T) mod 65535) mod 65535" by (simp add: u mod_add_eq)
  also have "\<dots> = (fold16 ?T mod 65535 + (65535 - fold16 ?T) mod 65535) mod 65535" using T by (simp add: fold16_mod(1))
  also have "\<dots> = 0" using le by (simp add: mod_add_eq)
  finally have "fold16 (?T + unat ck) mod 65535 = 0" using fold16_mod(1) [OF lt] by simp
  moreover have "fold16 (?T + unat ck) \<noteq> 0" using fold16_mod(3) [OF lt] fold16_mod(3) [of ?T] T u by auto
  ultimately have "fold16 (?T + unat ck) = 65535" using fold16_mod(2) [OF lt] by (auto simp: mod_eq_0_iff_dvd elim!: dvdE)
  then show ?thesis using lt in_cksum_total [of "pre @ bytes16 ck @ suf"] by (simp add: t)
qed

theorem in_cksum_verifies_witness:
  "in_cksum ([8, 0] @ bytes16 0xfff7 @ []) 4 = Some 0"
  using in_cksum_verifies [of "[8, 0]" "[]" "0xfff7"]
  by (simp add: in_cksum_def read_at_def bytes16_def load16_def)

section \<open>Packets in a buffer\<close>

lemmas layout_lengths = le.st_length li.st_length [OF TrueI] lu.st_length [OF TrueI] la.st_length lc.st_length
lemmas layout_loads = le.ld_st li.ld_st [OF TrueI] lu.ld_st [OF TrueI] la.ld_st lc.ld_st

lemma as_udppkt_here [mem_simps]: "wf_eth (eh p) \<Longrightarrow> as_udppkt (store_udppkt p @ rest) = Some p"
  by (simp add: as_udppkt_def read_at_def store_udppkt_def layout_lengths layout_loads)

lemma as_arppkt_here [mem_simps]: "wf_eth (arp_eh p) \<Longrightarrow> wf_arp (arp p) \<Longrightarrow> as_arppkt (store_arppkt p @ rest) = Some p"
  by (simp add: as_arppkt_def read_at_def store_arppkt_def layout_lengths layout_loads)

lemma as_icmppkt_here [mem_simps]: "wf_eth (eh p) \<Longrightarrow> wf_icmp (icmp p) \<Longrightarrow> as_icmppkt (store_icmppkt p @ rest) = Some p"
  by (simp add: as_icmppkt_def read_at_def store_icmppkt_def layout_lengths layout_loads)

lemma read_proto [mem_simps]: "wf_eth e \<Longrightarrow> read16 (store_eth e @ r) 12 = Some (h_proto e)"
  by (simp add: read16_def read_at_def wf_eth_def store_eth_def)

lemma read_ip_type [mem_simps]: "wf_eth e \<Longrightarrow> byte_at (store_eth e @ store_ip h @ r) 23 = Some (ip_type h)"
  by (simp add: byte_at_def nth_append layout_lengths store_ip_def)

text \<open>What \<open>main\<close> does with a packet is the branch of its protocol.\<close>

lemma packet_branches:
  assumes "wf_eth e"
  shows "h_proto e = htons 0x0800 \<Longrightarrow> ip_type h = 17 \<Longrightarrow> packet (store_eth e @ store_ip h @ r) = udp_packet (store_eth e @ store_ip h @ r)"
    and "h_proto e = htons 0x0800 \<Longrightarrow> ip_type h = 1 \<Longrightarrow> packet (store_eth e @ store_ip h @ r) = icmp_packet (store_eth e @ store_ip h @ r)"
    and "h_proto e = htons 0x0806 \<Longrightarrow> packet (store_eth e @ r) = arp_packet (store_eth e @ r)"
  using assms by (simp_all add: packet_def mem_simps)

section \<open>Ping\<close>

lemma in_cksum_swapped: "in_cksum (store_ip (h\<lparr>ip_sip := ip_dip h, ip_dip := ip_sip h\<rparr>)) 20 = in_cksum (store_ip h) 20"
proof -
  have "total (store_ip g) \<le> 65535 * 20" for g using total_bound [of "store_ip g"] by (simp add: layout_lengths)
  then have "total (store_ip g) < 2147483648" for g by (rule le_less_trans) simp
  moreover have "total (store_ip (h\<lparr>ip_sip := ip_dip h, ip_dip := ip_sip h\<rparr>)) = total (store_ip h)"
    by (simp add: store_ip_def bytes16_def bytes32_def)
  ultimately show ?thesis by (simp add: in_cksum_total layout_lengths)
qed

lemma echo_icmp_checked:
  assumes "wf_icmp (icmp p)"
  shows "\<exists>ck. echo_icmp_pkt p = Some \<lparr>eh = (eh p)\<lparr>h_dst := h_src (eh p), h_src := h_dst (eh p)\<rparr>,
      ip = (ip p)\<lparr>ip_sip := ip_dip (ip p), ip_dip := ip_sip (ip p)\<rparr>,
      icmp = (icmp p)\<lparr>icmp_type := 0, icmp_code := 0, icmp_check := ck\<rparr>\<rparr> \<and>
    in_cksum (store_icmp ((icmp p)\<lparr>icmp_type := 0, icmp_code := 0, icmp_check := ck\<rparr>)) 40 = Some 0"
proof -
  let ?i = "\<lambda>c. (icmp p)\<lparr>icmp_type := 0, icmp_code := 0, icmp_check := c\<rparr>"
  let ?suf = "bytes16 (icmp_identifier (icmp p)) @ bytes16 (icmp_seq (icmp p)) @ icmp_data (icmp p)"
  have st: "store_icmp (?i c) = [0, 0] @ bytes16 c @ ?suf" for c by (simp add: store_icmp_def)
  have l: "length ([0, 0] @ bytes16 c @ ?suf) = 40" for c using assms by (simp add: wf_icmp_def)
  have "total (store_icmp (?i 0)) < 2147483648" using total_bound [of "store_icmp (?i 0)"] l [of 0] by (simp only: st)
  then obtain ck where ck: "in_cksum (store_icmp (?i 0)) 40 = Some ck" using in_cksum_total [of "store_icmp (?i 0)" 40] l [of 0] by (simp add: st)
  then have "in_cksum (store_icmp (?i ck)) 40 = Some 0" using in_cksum_verifies [of "[0, 0]" ?suf ck] l by (simp only: st) simp
  then show ?thesis using ck by (intro exI [of _ ck]) (simp add: echo_icmp_pkt_def)
qed

lemma icmp_packet_here:
  assumes "wf_eth (eh p)" and "wf_icmp (icmp p)" and "h_proto (eh p) = htons 0x0800" and "ip_type (ip p) = 1"
  shows "packet (store_icmppkt p @ rest) =
    (if icmp_type (icmp p) = 8 then do { r \<leftarrow> echo_icmp_pkt p; Some [store_icmppkt r] } else Some [])"
proof -
  have b: "byte_at (store_icmppkt p @ rest) 34 = Some (icmp_type (icmp p))"
    using assms(1,2) by (simp add: byte_at_def store_icmppkt_def nth_append layout_lengths) (simp add: store_icmp_def)
  have r: "read16 (store_icmppkt p @ rest) 36 = Some (icmp_check (icmp p))"
    using assms(1,2) by (simp add: read16_def read_at_def store_icmppkt_def layout_lengths) (simp add: store_icmp_def)
  have "packet (store_icmppkt p @ rest) = icmp_packet (store_icmppkt p @ rest)"
    using packet_branches(2) [OF assms(1,3,4), of "store_icmp (icmp p) @ rest"] by (simp add: store_icmppkt_def)
  then show ?thesis using assms(1,2) by (simp add: icmp_packet_def b r as_icmppkt_here)
qed

definition echo_message :: "byte \<Rightarrow> byte \<Rightarrow> 16 word \<Rightarrow> 16 word \<Rightarrow> 16 word \<Rightarrow> byte list \<Rightarrow> byte list" where
  "echo_message ty code ck ident sq data = [ty, code] @ bytes16 ck @ bytes16 ident @ bytes16 sq @ data"

definition swap_eth :: "ethhdr \<Rightarrow> ethhdr" where
  "swap_eth e = e\<lparr>h_dst := h_src e, h_src := h_dst e\<rparr>"

definition swap_ip :: "iphdr \<Rightarrow> iphdr" where
  "swap_ip h = h\<lparr>ip_sip := ip_dip h, ip_dip := ip_sip h\<rparr>"

text \<open>C31: a ping with any data, \<open>rest\<close> being what the buffer holds behind it, is answered with the identifier
  and the sequence number of the request and the first 32 bytes behind its header, addresses swapped, a
  checksum that is valid for these 32 bytes, and the checksum of the internet header kept valid. The
  length that the internet header announces is that of the request, so that it is the length of the
  answer just for a ping with 32 bytes of data, and then the answer carries exactly its data.\<close>

theorem ping_answered:
  assumes "wf_eth e" and "h_proto e = htons 0x0800" and "ip_type h = 1" and "32 \<le> length (data @ rest)"
  shows "\<exists>ck reply. packet (store_eth e @ store_ip h @ echo_message 8 code check ident sq data @ rest) =
      Some [store_eth (swap_eth e) @ store_ip (swap_ip h) @ reply] \<and>
    reply = echo_message 0 0 ck ident sq (take 32 (data @ rest)) \<and> in_cksum reply (length reply) = Some 0 \<and>
    in_cksum (store_ip (swap_ip h)) 20 = in_cksum (store_ip h) 20 \<and>
    (unat (htons (ip_totlen h)) = 28 + length data \<longrightarrow>
      (unat (htons (ip_totlen (swap_ip h))) = length (store_ip (swap_ip h) @ reply) \<longleftrightarrow> length data = 32)) \<and>
    (length data = 32 \<longrightarrow> reply = echo_message 0 0 ck ident sq data)"
proof -
  define p where "p = \<lparr>eh = e, ip = h, icmp = \<lparr>icmp_type = 8, icmp_code = code, icmp_check = check, icmp_identifier = ident, icmp_seq = sq,
    icmp_data = take 32 (data @ rest)\<rparr>\<rparr>"
  have "data @ rest = take 32 (data @ rest) @ drop 32 (data @ rest)" by (rule append_take_drop_id [symmetric])
  then have s: "store_eth e @ store_ip h @ echo_message 8 code check ident sq data @ rest = store_icmppkt p @ drop 32 (data @ rest)"
    unfolding echo_message_def by (simp add: p_def store_icmppkt_def store_icmp_def del: take_append drop_append)
  have wf: "wf_icmp (icmp p)" using assms(4) by (simp add: p_def wf_icmp_def)
  obtain ck where ck: "echo_icmp_pkt p = Some \<lparr>eh = (eh p)\<lparr>h_dst := h_src (eh p), h_src := h_dst (eh p)\<rparr>,
      ip = (ip p)\<lparr>ip_sip := ip_dip (ip p), ip_dip := ip_sip (ip p)\<rparr>, icmp = (icmp p)\<lparr>icmp_type := 0, icmp_code := 0, icmp_check := ck\<rparr>\<rparr>"
    "in_cksum (store_icmp ((icmp p)\<lparr>icmp_type := 0, icmp_code := 0, icmp_check := ck\<rparr>)) 40 = Some 0"
    using echo_icmp_checked [OF wf] by blast
  define reply where "reply = echo_message 0 0 ck ident sq (take 32 (data @ rest))"
  have r: "store_icmp ((icmp p)\<lparr>icmp_type := 0, icmp_code := 0, icmp_check := ck\<rparr>) = reply"
    by (simp add: reply_def echo_message_def store_icmp_def p_def)
  have l: "length reply = 40" using assms(4) by (simp add: reply_def echo_message_def)
  have "packet (store_icmppkt p @ drop 32 (data @ rest)) = Some [store_eth (swap_eth e) @ store_ip (swap_ip h) @ reply]"
    using icmp_packet_here [of p "drop 32 (data @ rest)"] wf assms(1-3) ck(1) r
    by (simp add: store_icmppkt_def swap_eth_def swap_ip_def p_def)
  moreover have "in_cksum reply (length reply) = Some 0" using ck(2) by (simp add: r l)
  moreover have "in_cksum (store_ip (swap_ip h)) 20 = in_cksum (store_ip h) 20" by (simp add: swap_ip_def in_cksum_swapped)
  moreover have "unat (htons (ip_totlen (swap_ip h))) = unat (htons (ip_totlen h))" by (simp add: swap_ip_def)
  ultimately show ?thesis unfolding s using l
    by (intro exI [of _ ck] exI [of _ reply]) (auto simp: layout_lengths reply_def)
qed

definition sample_eth :: "16 word \<Rightarrow> ethhdr" where
  "sample_eth proto = \<lparr>h_dst = [0, 12, 41, 27, 24, 32], h_src = [1, 2, 3, 4, 5, 6], h_proto = htons proto\<rparr>"

definition sample_ip :: "byte \<Rightarrow> iphdr" where
  "sample_ip ty = \<lparr>ip_hdrlen = 5, ip_version = 4, ip_tos = 0, ip_totlen = htons 60, ip_id = 1, ip_flag_offset = 0, ip_ttl = 64,
     ip_type = ty, ip_check = 0, ip_sip = load32 [192, 168, 109, 1], ip_dip = own_ip\<rparr>"

theorem ping_answered_witness:
  "\<exists>ck. packet (store_eth (sample_eth 0x0800) @ store_ip (sample_ip 1) @ echo_message 8 0 0 7 1 (replicate 32 97) @ [5]) =
      Some [store_eth (swap_eth (sample_eth 0x0800)) @ store_ip (swap_ip (sample_ip 1)) @ echo_message 0 0 ck 7 1 (replicate 32 97)] \<and>
    in_cksum (echo_message 0 0 ck 7 1 (replicate 32 97)) 40 = Some 0"
proof -
  have "wf_eth (sample_eth 0x0800)" "h_proto (sample_eth 0x0800) = htons 0x0800" "ip_type (sample_ip 1) = 1"
    by (simp_all add: sample_eth_def sample_ip_def wf_eth_def)
  from ping_answered [OF this, of "replicate 32 97" "[5]" 0 0 7 1] show ?thesis by (auto simp: echo_message_def)
qed

text \<open>a ping with less than 32 bytes of data is answered with 32: the rest of the answer is what the buffer
  holds behind the packet.\<close>

theorem short_ping_leaks_buffer:
  assumes "wf_eth e" and "h_proto e = htons 0x0800" and "ip_type h = 1" and "length data < 32" and "32 \<le> length data + length stale"
  shows "\<exists>frame. packet (store_eth e @ store_ip h @ [8, 0] @ bytes16 ck @ bytes16 ident @ bytes16 sq @ data @ stale) = Some [frame] \<and>
    drop (42 + length data) frame = take (32 - length data) stale"
proof -
  define p where "p = \<lparr>eh = e, ip = h, icmp = \<lparr>icmp_type = 8, icmp_code = 0, icmp_check = ck, icmp_identifier = ident, icmp_seq = sq,
    icmp_data = data @ take (32 - length data) stale\<rparr>\<rparr>"
  have s: "store_eth e @ store_ip h @ [8, 0] @ bytes16 ck @ bytes16 ident @ bytes16 sq @ data @ stale =
      store_icmppkt p @ drop (32 - length data) stale" by (simp add: p_def store_icmppkt_def store_icmp_def)
  have "\<exists>ck' r. packet (store_icmppkt p @ drop (32 - length data) stale) = Some [store_icmppkt r] \<and>
    r = \<lparr>eh = (eh p)\<lparr>h_dst := h_src (eh p), h_src := h_dst (eh p)\<rparr>, ip = (ip p)\<lparr>ip_sip := ip_dip (ip p), ip_dip := ip_sip (ip p)\<rparr>,
      icmp = (icmp p)\<lparr>icmp_type := 0, icmp_code := 0, icmp_check := ck'\<rparr>\<rparr>"
    using icmp_packet_here [of p "drop (32 - length data) stale"] echo_icmp_checked [of p] assms
    by (force simp: p_def wf_icmp_def)
  then obtain r where r: "packet (store_icmppkt p @ drop (32 - length data) stale) = Some [store_icmppkt r]"
    "wf_eth (eh r)" "icmp_data (icmp r) = data @ take (32 - length data) stale"
    using assms(1) by (auto simp: p_def wf_eth_def)
  let ?pre = "store_eth (eh r) @ store_ip (ip r) @ [icmp_type (icmp r), icmp_code (icmp r)] @ bytes16 (icmp_check (icmp r)) @
    bytes16 (icmp_identifier (icmp r)) @ bytes16 (icmp_seq (icmp r)) @ data"
  have "store_icmppkt r = ?pre @ take (32 - length data) stale" by (simp add: store_icmppkt_def store_icmp_def r(3))
  moreover have "length ?pre = 42 + length data" using r(2) by (simp add: layout_lengths)
  ultimately have "drop (42 + length data) (store_icmppkt r) = take (32 - length data) stale" by (metis append_eq_conv_conj)
  then show ?thesis unfolding s using r(1) by blast
qed

theorem short_ping_leaks_buffer_witness:
  "\<exists>frame. packet (store_eth (sample_eth 0x0800) @ store_ip (sample_ip 1) @ [8, 0] @ bytes16 0 @ bytes16 7 @ bytes16 1 @ [97] @ replicate 40 115) = Some [frame] \<and>
    drop (42 + length [97 :: byte]) frame = take (32 - length [97 :: byte]) (replicate 40 115)"
  by (rule short_ping_leaks_buffer) (simp_all add: sample_eth_def sample_ip_def wf_eth_def)

section \<open>ARP\<close>

lemma own_mac_read: "length mac = 6 \<Longrightarrow> str2mac mac own_mac = Some [0, 12, 41, 27, 24, 32]"
proof -
  assume "length mac = 6"
  moreover have "own_mac = mac_text [0, 12, 41, 27, 24, 32] @ 0 # []" by (simp add: own_mac_def hex_digit_def)
  ultimately show ?thesis using str2mac_loop_text [of "[0, 12, 41, 27, 24, 32]" 0 mac "[]"] by (simp add: str2mac_def)
qed

text \<open>a packet that asks for the address of the program is answered with its hardware address, to the one who asked;
  all others are not answered.\<close>

theorem arp_answered:
  assumes "wf_eth (arp_eh p)" and "wf_arp (arp p)" and "h_proto (arp_eh p) = htons 0x0806"
  shows "packet (store_arppkt p @ rest) = Some (if arp_dip (arp p) = own_ip then [store_arppkt
    \<lparr>arp_eh = \<lparr>h_dst = h_src (arp_eh p), h_src = [0, 12, 41, 27, 24, 32], h_proto = htons 0x0806\<rparr>,
     arp = \<lparr>arp_h_type = arp_h_type (arp p), arp_h_proto = arp_h_proto (arp p), arp_addrlen = 6, arp_protolen = 4, arp_oper = htons 2,
       arp_smac = [0, 12, 41, 27, 24, 32], arp_sip = own_ip, arp_dmac = arp_smac (arp p), arp_dip = arp_sip (arp p)\<rparr>\<rparr>] else [])"
proof -
  have "packet (store_arppkt p @ rest) = arp_packet (store_arppkt p @ rest)"
    using packet_branches(3) [OF assms(1,3), of "store_arp (arp p) @ rest"] by (simp add: store_arppkt_def)
  moreover have "length (h_src (arp_eh p)) = 6" "length (arp_smac (arp p)) = 6" using assms(1,2) by (simp_all add: wf_eth_def wf_arp_def)
  moreover have eq: "arp_dip (arp p) = own_ip \<Longrightarrow> p\<lparr>arp_eh := (arp_eh p)\<lparr>h_dst := h_src (arp_eh p), h_src := m, h_proto := htons 2054\<rparr>,
      arp := (arp p)\<lparr>arp_addrlen := 6, arp_protolen := 4, arp_oper := htons 2, arp_smac := m, arp_sip := own_ip,
        arp_dmac := arp_smac (arp p), arp_dip := arp_sip (arp p)\<rparr>\<rparr> =
    \<lparr>arp_eh = \<lparr>h_dst = h_src (arp_eh p), h_src = m, h_proto = htons 2054\<rparr>,
     arp = \<lparr>arp_h_type = arp_h_type (arp p), arp_h_proto = arp_h_proto (arp p), arp_addrlen = 6, arp_protolen = 4, arp_oper = htons 2,
       arp_smac = m, arp_sip = own_ip, arp_dmac = arp_smac (arp p), arp_dip = arp_sip (arp p)\<rparr>\<rparr>" for m
    by (intro arppkt.equality ethhdr.equality arphdr.equality) simp_all
  ultimately show ?thesis using assms by (simp add: arp_packet_def as_arppkt_here echo_arp_pkt_def own_mac_read eq)
qed

definition sample_arp :: arppkt where
  "sample_arp = \<lparr>arp_eh = sample_eth 0x0806, arp = \<lparr>arp_h_type = htons 1, arp_h_proto = htons 0x0800, arp_addrlen = 6, arp_protolen = 4,
     arp_oper = htons 1, arp_smac = [1, 2, 3, 4, 5, 6], arp_sip = load32 [192, 168, 109, 1], arp_dmac = replicate 6 0, arp_dip = own_ip\<rparr>\<rparr>"

theorem arp_answered_witness:
  "packet (store_arppkt sample_arp @ [7]) = Some [store_arppkt
    \<lparr>arp_eh = \<lparr>h_dst = [1, 2, 3, 4, 5, 6], h_src = [0, 12, 41, 27, 24, 32], h_proto = htons 0x0806\<rparr>,
     arp = \<lparr>arp_h_type = htons 1, arp_h_proto = htons 0x0800, arp_addrlen = 6, arp_protolen = 4, arp_oper = htons 2,
       arp_smac = [0, 12, 41, 27, 24, 32], arp_sip = own_ip, arp_dmac = [1, 2, 3, 4, 5, 6], arp_dip = load32 [192, 168, 109, 1]\<rparr>\<rparr>]"
  using arp_answered [of sample_arp "[7]"] by (simp add: sample_arp_def sample_eth_def wf_eth_def wf_arp_def)

section \<open>UDP\<close>

lemma udp_packet_here:
  assumes "wf_eth (eh p)" and "h_proto (eh p) = htons 0x0800" and "ip_type (ip p) = 17"
  shows "packet (store_udppkt p @ rest) = do {
    stream1 \<leftarrow> write_at (34 + unat (htons (udp_length (udp p)))) [0] (store_udppkt p @ rest);
    printed \<leftarrow> c_string (drop 42 stream1);
    p1 \<leftarrow> as_udppkt stream1;
    Some [store_udppkt (echo_udp_pkt p1)] }"
  using packet_branches(1) [OF assms, of "store_udp (udp p) @ rest"] as_udppkt_here [OF assms(1), of rest]
  by (simp add: store_udppkt_def udp_packet_def)

lemma length_store_udppkt [simp]: "wf_eth (eh p) \<Longrightarrow> length (store_udppkt p) = 42"
  by (simp add: store_udppkt_def layout_lengths)

text \<open>a datagram is answered with its header, addresses and ports swapped, and nothing else: the answer has the
  length and the checksum of the request, but carries no data.\<close>

theorem udp_answered_without_data:
  assumes "wf_eth (eh p)" and "h_proto (eh p) = htons 0x0800" and "ip_type (ip p) = 17"
    and "8 \<le> unat (htons (udp_length (udp p)))" and "unat (htons (udp_length (udp p))) - 8 < length rest"
  shows "packet (store_udppkt p @ rest) = Some [store_udppkt (echo_udp_pkt p)] \<and> length (store_udppkt (echo_udp_pkt p)) = 42 \<and>
    udp_length (udp (echo_udp_pkt p)) = udp_length (udp p) \<and> ip_totlen (ip (echo_udp_pkt p)) = ip_totlen (ip p)"
proof -
  define l where "l = unat (htons (udp_length (udp p))) - 8"
  have l: "34 + unat (htons (udp_length (udp p))) = 42 + l" "l < length rest" using assms(4,5) by (simp_all add: l_def)
  have w: "write_at (42 + l) [0] (store_udppkt p @ rest) = Some (store_udppkt p @ take l rest @ 0 # drop (Suc l) rest)"
    using l(2) assms(1) by (simp add: write_at_def)
  have "c_string (drop 42 (store_udppkt p @ take l rest @ 0 # drop (Suc l) rest)) \<noteq> None" using assms(1) by (simp add: c_string_def)
  then obtain s where "c_string (drop 42 (store_udppkt p @ take l rest @ 0 # drop (Suc l) rest)) = Some s" by blast
  moreover have "wf_eth (eh (echo_udp_pkt p))" using assms(1) by (simp add: echo_udp_pkt_def wf_eth_def)
  ultimately show ?thesis using assms(1)
    by (simp add: udp_packet_here [OF assms(1-3)] l(1) w as_udppkt_here) (simp add: echo_udp_pkt_def)
qed

definition sample_udp :: "16 word \<Rightarrow> udppkt" where
  "sample_udp l = \<lparr>eh = sample_eth 0x0800, ip = sample_ip 17,
     udp = \<lparr>udp_sport = htons 4000, udp_dport = htons 53, udp_length = htons l, udp_check = 9\<rparr>\<rparr>"

lemma sample_udp_simps [simp]: "wf_eth (eh (sample_udp l))" "h_proto (eh (sample_udp l)) = htons 0x0800" "ip_type (ip (sample_udp l)) = 17"
  "udp_length (udp (sample_udp l)) = htons l"
  by (simp_all add: sample_udp_def sample_eth_def sample_ip_def wf_eth_def)

theorem udp_answered_without_data_witness:
  "packet (store_udppkt (sample_udp 10) @ [104, 105, 0]) = Some [store_udppkt (echo_udp_pkt (sample_udp 10))]"
  using udp_answered_without_data [of "sample_udp 10" "[104, 105, 0]"] by simp

text \<open>the length of a datagram is trusted: one that reaches behind the buffer makes the program write there, and
  a length of zero makes it overwrite the port of the sender, so that the answer goes to another port.\<close>

theorem udp_length_trusted:
  assumes "wf_eth (eh p)" and "h_proto (eh p) = htons 0x0800" and "ip_type (ip p) = 17" and "0 \<in> set rest"
  shows "(length rest + 8 \<le> unat (htons (udp_length (udp p))) \<longrightarrow> packet (store_udppkt p @ rest) = None) \<and>
    (udp_length (udp p) = 0 \<longrightarrow> (\<exists>r. packet (store_udppkt p @ rest) = Some [store_udppkt r] \<and>
      udp_dport (udp r) = push_bit 8 (drop_bit 8 (udp_sport (udp p)))))"
proof (intro conjI impI)
  assume "length rest + 8 \<le> unat (htons (udp_length (udp p)))"
  then show "packet (store_udppkt p @ rest) = None" using assms(1) by (simp add: udp_packet_here [OF assms(1-3)] write_at_def)
next
  assume "udp_length (udp p) = 0"
  then have z: "34 + unat (htons (udp_length (udp p))) = 34" by (simp add: htons_def)
  define q where "q = p\<lparr>udp := (udp p)\<lparr>udp_sport := push_bit 8 (drop_bit 8 (udp_sport (udp p)))\<rparr>\<rparr>"
  have port: "bytes16 (push_bit 8 (drop_bit 8 x)) = [0, ucast (drop_bit 8 x)]" for x
    unfolding bytes16_def by (simp only: list.inject, intro conjI bit_eqI) (auto simp: bit_simps)
  have "write_at 34 [0] (store_udppkt p @ rest) = Some (store_udppkt q @ rest)"
    using assms(1) by (simp add: write_at_def store_udppkt_def layout_lengths q_def)
      (simp add: store_udp_def port, simp add: bytes16_def)
  moreover have "wf_eth (eh q)" using assms(1) by (simp add: q_def)
  moreover have "c_string rest \<noteq> None" using assms(4) by (simp add: c_string_def)
  moreover have "udp_dport (udp (echo_udp_pkt q)) = push_bit 8 (drop_bit 8 (udp_sport (udp p)))" by (simp add: q_def echo_udp_pkt_def)
  ultimately show "\<exists>r. packet (store_udppkt p @ rest) = Some [store_udppkt r] \<and> udp_dport (udp r) = push_bit 8 (drop_bit 8 (udp_sport (udp p)))"
    by (intro exI [of _ "echo_udp_pkt q"]) (auto simp: udp_packet_here [OF assms(1-3)] z as_udppkt_here)
qed

theorem udp_length_trusted_witness:
  "packet (store_udppkt (sample_udp 11) @ [104, 105, 0]) = None \<and>
    (\<exists>r. packet (store_udppkt (sample_udp 0) @ [104, 105, 0]) = Some [store_udppkt r] \<and> udp_dport (udp r) = push_bit 8 (drop_bit 8 (htons 4000)))"
  using udp_length_trusted [of "sample_udp 11" "[104, 105, 0]"] udp_length_trusted [of "sample_udp 0" "[104, 105, 0]"]
  by (simp add: htons_def) (simp add: sample_udp_def htons_def)

section \<open>The loop\<close>

text \<open>The loop goes on as long as every packet is there and is handled, and what it sends are the answers in order.\<close>

lemma packet_loop_runs:
  assumes "\<forall>pkt. Packet pkt \<in> set evs \<longrightarrow> (\<exists>s. pkt = Some s \<and> packet s \<noteq> None)"
  shows "packet_loop evs = Some (concat (map (\<lambda>ev. case ev of Packet (Some s) \<Rightarrow> the (packet s) | _ \<Rightarrow> []) evs))"
  using assms by (induction evs rule: packet_loop.induct) fastforce+

end
