(* ===== verification/EchoServer.thy ===== *)
theory EchoServer
  imports Reactor_Turn
begin

text \<open>
  The echo server of \<open>2.2.1C1000K/C1000Kserver.c\<close>, which listens on a hundred ports: the reactor of
  \<open>Reactor\<close> (its functions are the same here) with callbacks that send back what was received.
\<close>

definition echo_zero :: ntyevent where
  "echo_zero = \<lparr>ev_fd = 0, ev_events = 0, ev_arg = False, ev_callback = NoCB, ev_status = 0,
     ev_buffer = replicate BUFFER_LENGTH 0, ev_length = 0\<rparr>"

section \<open>The callbacks\<close>

text \<open>The null byte behind the data needs room: a full buffer is written past its end.\<close>

definition echo_recv_cb :: "int \<Rightarrow> ntyevent server \<Rightarrow> (int \<times> ntyevent server) option" where
  "echo_recv_cb fd s = do {
     (p, s1) \<leftarrow> ntyreactor_find_event_idx echo_zero fd s;
     let (r, k) = recv_bytes fd BUFFER_LENGTH (s_kernel s1);
     case r of
       None \<Rightarrow> (let s3 = snd (nty_event_del p (s1\<lparr>s_kernel := k\<rparr>))
                in Some (- 1, upd_kernel (close_fd (ev_fd (ev_at s3 p))) s3))
     | Some bs \<Rightarrow> do {
         buf \<leftarrow> write_at 0 bs (ev_buffer (ev_at s1 p));
         let s3 = snd (nty_event_del p ((upd_ev p (\<lambda>ev. ev\<lparr>ev_buffer := buf\<rparr>) s1)\<lparr>s_kernel := k\<rparr>));
         if bs \<noteq> [] then do {
           b \<leftarrow> write_at (length bs) [0] buf;
           let ev1 = (ev_at s3 p)\<lparr>ev_length := int (length bs), ev_buffer := b\<rparr>;
           let s5 = upd_ev p (nty_event_set fd SendCB True) (upd_ev p (\<lambda>_. ev1) s3);
           Some (int (length bs), snd (nty_event_add EPOLLOUT p s5)) }
         else Some (0, upd_kernel (close_fd (ev_fd (ev_at s3 p))) s3) } }"

definition echo_send_cb :: "int \<Rightarrow> ntyevent server \<Rightarrow> (int \<times> ntyevent server) option" where
  "echo_send_cb fd s = do {
     (p, s1) \<leftarrow> ntyreactor_find_event_idx echo_zero fd s;
     let ev = ev_at s1 p;
     bs \<leftarrow> (if ev_length ev < 0 then None else read_at 0 (nat (ev_length ev)) (ev_buffer ev));
     let (len, k) = send_bytes fd bs (s_kernel s1);
     let s3 = snd (nty_event_del p (s1\<lparr>s_kernel := k\<rparr>));
     if len > 0 then
       Some (len, snd (nty_event_add EPOLLIN p (upd_ev p (nty_event_set fd RecvCB True) s3)))
     else Some (len, upd_kernel (close_fd (ev_fd (ev_at s3 p))) s3) }"

definition echo_accept_cb :: "int \<Rightarrow> bool \<Rightarrow> ntyevent server \<Rightarrow> (int \<times> ntyevent server) option" where
  "echo_accept_cb fd reactor s =
    (if \<not> reactor then Some (- 1, s)
     else case accept_conn fd (s_kernel s) of (clientfd, k) \<Rightarrow>
       if clientfd = - 1 then Some (- 1, s)
       else if \<not> k_fcntl k clientfd then Some (- 1, s\<lparr>s_kernel := k\<rparr>)
       else do {
         (p, s1) \<leftarrow> ntyreactor_find_event_idx echo_zero clientfd (s\<lparr>s_kernel := k\<rparr>);
         let s2 = upd_ev p (nty_event_set clientfd RecvCB True) s1;
         Some (0, snd (nty_event_add EPOLLIN p s2)) })"

fun echo_handlers :: "callback \<Rightarrow> int \<Rightarrow> 32 word \<Rightarrow> bool \<Rightarrow> ntyevent server \<Rightarrow> (int \<times> ntyevent server) option" where
  "echo_handlers NoCB fd evs arg s = None"
| "echo_handlers RecvCB fd evs arg s = (if arg then echo_recv_cb fd s else None)"
| "echo_handlers SendCB fd evs arg s = (if arg then echo_send_cb fd s else None)"
| "echo_handlers AcceptCB fd evs arg s = echo_accept_cb fd arg s"

section \<open>The program\<close>

text \<open>\<open>created\<close>: whether \<open>socket\<close> succeeds; the results of the other calls are not used.\<close>

definition init_sock :: "bool \<Rightarrow> kernel \<Rightarrow> int \<times> kernel" where
  "init_sock created k =
    (if created then (let fd = fresh_fd (k_open k) in (fd, k\<lparr>k_open := fd # k_open k\<rparr>)) else (- 1, k))"

fun add_listeners :: "bool list \<Rightarrow> ntyevent server \<Rightarrow> (int list \<times> ntyevent server) option" where
  "add_listeners [] s = Some ([], s)"
| "add_listeners (c # cs) s = do {
     let (fd, k) = init_sock c (s_kernel s);
     (r, s1) \<leftarrow> ntyreactor_addlistener echo_zero fd AcceptCB (s\<lparr>s_kernel := k\<rparr>);
     (fds, s2) \<leftarrow> add_listeners cs s1;
     Some (fd # fds, s2) }"

text \<open>\<open>main\<close> up to its loop, with one entry of \<open>created\<close> per port; the result of \<open>ntyreactor_init\<close> is not tested.\<close>

definition echo_main :: "bool \<Rightarrow> bool list \<Rightarrow> ntyevent server \<Rightarrow> (int list \<times> ntyevent server) option" where
  "echo_main epoll_created created s = add_listeners created (snd (ntyreactor_init echo_zero epoll_created s))"

section \<open>The callbacks keep the invariant\<close>

lemma echo_recv_keeps:
  assumes ok: "reactor_ok s" and i: "interest s fd = Some (p, e)" and r: "echo_recv_cb fd s = Some (n, s')"
  shows "keeps s fd s'"
proof -
  note d = reactor_okD [OF ok i]
  let ?p = "slot_of fd"
  obtain a k where rb: "recv_bytes fd BUFFER_LENGTH (s_kernel s) = (a, k)" by fastforce
  note fr = recv_bytes_frame [OF rb]
  note fa = find_armed [OF ok i, of echo_zero]
  show ?thesis
  proof (cases a)
    case None
    let ?s1 = "s\<lparr>s_kernel := k\<rparr>"
    have kk: "k_interest k = interest s" "k_open k = k_open (s_kernel s)" using fr by simp_all
    note b = kernel_keeps [OF ok i kk]
    have "s' = upd_kernel (close_fd (ev_fd (ev_at (snd (nty_event_del ?p ?s1)) ?p))) (snd (nty_event_del ?p ?s1))"
      using r fa rb None by (simp add: echo_recv_cb_def Let_def)
    then show ?thesis using drop_keeps [OF b(1,2)] keeps_trans [OF b(3)] by simp
  next
    case (Some bs)
    obtain buf where w: "write_at 0 bs (ev_buffer (ev_at s ?p)) = Some buf"
      using r fa rb Some by (auto simp: echo_recv_cb_def Let_def bind_Some_iff)
    let ?s1 = "(upd_ev ?p (\<lambda>ev. ev\<lparr>ev_buffer := buf\<rparr>) s)\<lparr>s_kernel := k\<rparr>"
    have ar: "same_arming (ev_at s ?p) ((ev_at s ?p)\<lparr>ev_buffer := buf\<rparr>)" by (simp add: same_arming_def)
    have kk: "k_interest k = interest s" "k_open k = k_open (s_kernel s)" using fr by simp_all
    note b = data_keeps [where f = "\<lambda>ev. ev\<lparr>ev_buffer := buf\<rparr>", OF ok i ar kk refl]
    show ?thesis
    proof (cases "bs = []")
      case True
      have "s' = upd_kernel (close_fd (ev_fd (ev_at (snd (nty_event_del ?p ?s1)) ?p))) (snd (nty_event_del ?p ?s1))"
        using r fa rb Some w True by (simp add: echo_recv_cb_def Let_def)
      then show ?thesis using drop_keeps [OF b(1,2)] keeps_trans [OF b(3)] by simp
    next
      case False
      obtain ev1 where "s' = snd (nty_event_add EPOLLOUT ?p (upd_ev ?p (nty_event_set fd SendCB True)
          (upd_ev ?p (\<lambda>_. ev1) (snd (nty_event_del ?p ?s1)))))"
        using r fa rb Some w False by (auto simp: echo_recv_cb_def Let_def bind_Some_iff)
      then show ?thesis using turn_keeps [OF b(1,2), of EPOLLOUT SendCB] keeps_trans [OF b(3)] by (simp add: fits_def)
    qed
  qed
qed

lemma echo_send_keeps:
  assumes ok: "reactor_ok s" and i: "interest s fd = Some (p, e)" and r: "echo_send_cb fd s = Some (n, s')"
  shows "keeps s fd s'"
proof -
  note d = reactor_okD [OF ok i]
  let ?p = "slot_of fd"
  note fa = find_armed [OF ok i, of echo_zero]
  obtain bs where bs: "read_at 0 (nat (ev_length (ev_at s ?p))) (ev_buffer (ev_at s ?p)) = Some bs" "\<not> ev_length (ev_at s ?p) < 0"
    using r fa by (auto simp: echo_send_cb_def Let_def bind_Some_iff split: if_splits)
  obtain len k where sb: "send_bytes fd bs (s_kernel s) = (len, k)" by fastforce
  note fr = send_bytes_frame [OF sb]
  let ?s1 = "s\<lparr>s_kernel := k\<rparr>"
  have ok1: "reactor_ok ?s1" by (rule ok_same_kernel [OF ok]) (use fr in simp_all)
  have i1: "interest ?s1 fd = Some (?p, e)" using fr i d(5) by simp
  have k1: "keeps s fd ?s1" by (rule keeps_same [OF ok1]) (use fr in simp)
  show ?thesis
  proof (cases "len > 0")
    case False
    then have "s' = upd_kernel (close_fd (ev_fd (ev_at (snd (nty_event_del ?p ?s1)) ?p))) (snd (nty_event_del ?p ?s1))"
      using r fa bs sb by (simp add: echo_send_cb_def Let_def)
    then show ?thesis using drop_keeps [OF ok1 i1] keeps_trans [OF k1] by simp
  next
    case True
    then have s': "s' = snd (nty_event_add EPOLLIN ?p (upd_ev ?p (nty_event_set fd RecvCB True) (snd (nty_event_del ?p ?s1))))"
      using r fa bs sb by (simp add: echo_send_cb_def Let_def)
    note dk = del_keeps [OF ok1 i1]
    have "reactor_ok (snd (nty_event_del ?p ?s1))" using dk(1) by (simp add: keeps_def)
    then have "keeps (snd (nty_event_del ?p ?s1)) fd s'" unfolding s'
      by (rule rearm_keeps [OF _ dk(2) d(4)]) (use dk(3,4) d(3,6) in \<open>simp_all add: fits_def\<close>)
    then show ?thesis using k1 dk(1) keeps_trans by blast
  qed
qed

lemma echo_accept_keeps:
  assumes ok: "reactor_ok s" and r: "echo_accept_cb fd arg s = Some (n, s')"
  shows "reactor_ok s' \<and> (\<forall>fd' x. interest s fd' = Some x \<longrightarrow> interest s' fd' = Some x)"
proof (cases "arg \<and> fst (accept_conn fd (s_kernel s)) \<noteq> - 1")
  case False
  then show ?thesis using r ok by (auto simp: echo_accept_cb_def split: prod.splits if_splits)
next
  case True
  obtain c k where a: "accept_conn fd (s_kernel s) = (c, k)" by fastforce
  then have "c \<noteq> - 1" using True by simp
  note ac = accept_ok [OF ok a this]
  show ?thesis
  proof (cases "k_fcntl k c")
    case False
    then show ?thesis using r a \<open>c \<noteq> - 1\<close> True ac(1,4) by (auto simp: echo_accept_cb_def)
  next
    case fc: True
    obtain p s1 where f: "ntyreactor_find_event_idx echo_zero c (s\<lparr>s_kernel := k\<rparr>) = Some (p, s1)"
      and s': "s' = snd (nty_event_add EPOLLIN p (upd_ev p (nty_event_set c RecvCB True) s1))"
      using r a \<open>c \<noteq> - 1\<close> True fc by (auto simp: echo_accept_cb_def Let_def bind_Some_iff)
    show ?thesis unfolding s' by (rule new_conn_keeps [OF ok a \<open>c \<noteq> - 1\<close> f]) (simp add: fits_def)
  qed
qed

interpretation echo: reactor_handlers echo_handlers
proof
  fix s :: "ntyevent server" and fd p e evs r s'
  assume ok: "reactor_ok s" and i: "interest s fd = Some (p, e)"
    and h: "echo_handlers (ev_callback (ev_at s p)) fd evs True s = Some (r, s')"
  have k: "keeps s fd s'"
    using h echo_recv_keeps [OF ok i] echo_send_keeps [OF ok i] echo_accept_keeps [OF ok]
    by (cases "ev_callback (ev_at s p)") (auto simp: keeps_def)
  then show "reactor_ok s'" by (simp add: keeps_def)
  show "interest s' fd' = Some x" if "fd' \<noteq> fd" "interest s fd' = Some x" for fd' x
    using k that unfolding keeps_def by blast
qed

text \<open>
  The echo server starts with all its listeners registered and keeps the invariant of the reactor; what
  it sends back, and where it fails.
\<close>

section \<open>Starting\<close>

text \<open>What holds while the listeners \<open>fds\<close> are added.\<close>

definition listeners_ok :: "int list \<Rightarrow> ntyevent server \<Rightarrow> bool" where
  "listeners_ok fds s \<longleftrightarrow> reactor_ok s \<and> memory_lasts s \<and> (\<forall>fd. fd \<notin> set fds \<longrightarrow> interest s fd = None) \<and>
     (\<forall>fd\<ge>0. fd \<notin> set fds \<longrightarrow> ev_status (events echo_zero s fd) = 0) \<and>
     (\<forall>fd\<in>set fds. interest s fd = Some (slot_of fd, EPOLLIN) \<and> ev_callback (ev_at s (slot_of fd)) = AcceptCB)"

lemma init_listeners:
  assumes "0 \<in> set (k_open (s_kernel s))" and "\<forall>fd. interest s fd = None" and "\<forall>n. s_malloc s n"
  shows "listeners_ok [] (snd (ntyreactor_init echo_zero True s))"
proof -
  have "fresh_fd (k_open (s_kernel s)) \<noteq> 0" using fresh_fd_new [of "k_open (s_kernel s)"] assms(1) by metis
  then have "0 < fresh_fd (k_open (s_kernel s))" using fresh_fd_new [of "k_open (s_kernel s)"] by linarith
  then show ?thesis using assms(2,3)
    by (auto simp: ntyreactor_init_def Let_def malloc_def reactor_ok_def table_ok_def listeners_ok_def memory_lasts_def events_def ev_at_def echo_zero_def)
qed

lemma events_kernel [simp]: "events z (s\<lparr>s_kernel := k\<rparr>) = events z s"
  by (rule ext) (simp add: events_def)

lemma listener_step:
  assumes L: "listeners_ok fds s" and fd: "init_sock True (s_kernel s) = (fd, k)"
  shows "\<exists>s1. ntyreactor_addlistener echo_zero fd AcceptCB (s\<lparr>s_kernel := k\<rparr>) = Some (0, s1) \<and> listeners_ok (fds @ [fd]) s1 \<and> fd \<notin> set fds"
proof -
  have new: "fd \<notin> set (k_open (s_kernel s))" "0 \<le> fd" and k: "k = (s_kernel s)\<lparr>k_open := fd # k_open (s_kernel s)\<rparr>"
    using fd fresh_fd_new [of "k_open (s_kernel s)"] by (auto simp: init_sock_def Let_def)
  have ok: "reactor_ok s" and i: "interest s fd = None" and out: "fd \<notin> set fds"
    using L new(1) reactor_okD(1) [of s fd] unfolding listeners_ok_def by (auto, metis not_None_eq old.prod.exhaust)
  let ?s = "s\<lparr>s_kernel := k\<rparr>"
  have ok0: "reactor_ok ?s" using ok by (auto simp: reactor_ok_def k)
  have t0: "table_ok ?s" "memory_lasts ?s" "evblk (s_reactor ?s) \<noteq> []" using ok L by (auto simp: reactor_ok_def listeners_ok_def table_ok_def memory_lasts_def)
  obtain s1 where f: "ntyreactor_find_event_idx echo_zero fd ?s = Some (slot_of fd, s1)"
    using find_event_Some [OF t0(1,2) new(2)] by blast
  note fo = find_ok [OF ok0 new(2) f]
  have s1: "s_kernel s1 = k" "s_malloc s1 = s_malloc s" using fo(3) by (simp_all add: same_but_table_def)
  have ev1: "events echo_zero s1 = events echo_zero s" using fo(5) by simp
  have i1: "interest s1 fd = None" using i s1(1) k by simp
  have st: "ev_status (ev_at s1 (slot_of fd)) = 0"
    using L new(2) out fo(4) fun_cong [OF ev1, of fd] by (simp add: listeners_ok_def events_def)
  let ?s2 = "snd (nty_event_add EPOLLIN (slot_of fd) (upd_ev (slot_of fd) (nty_event_set fd AcceptCB True) s1))"
  let ?f = "\<lambda>ev. (nty_event_set fd AcceptCB True ev)\<lparr>ev_events := EPOLLIN, ev_status := 1\<rparr>"
  have r: "?s2 = (upd_ev (slot_of fd) ?f s1)\<lparr>s_kernel := k\<lparr>k_interest := (interest s1)(fd \<mapsto> (slot_of fd, EPOLLIN))\<rparr>\<rparr>"
    using add_result [OF fo(2) i1 new(2) fo(4), of EPOLLIN AcceptCB] st s1(1) k by (simp add: Let_def)
  have "fd \<noteq> epfd (s_reactor s1)" using new(1) ok fo(3) by (auto simp: reactor_ok_def same_but_table_def)
  then have ok2: "reactor_ok ?s2" by (intro add_ok [OF fo(2) i1 new(2) fo(4)]) (simp_all add: fits_def)
  have ev2: "events echo_zero ?s2 g = (if g = fd then ?f (events echo_zero s1 fd) else events echo_zero s g)" if "0 \<le> g" for g
    using events_upd [OF fo(4) new(2) that, of echo_zero ?f] ev1 unfolding r events_kernel by simp
  have m2: "memory_lasts ?s2" using L s1(2) unfolding r by (simp add: listeners_ok_def memory_lasts_def frame_simps)
  have i2: "interest ?s2 g = (if g = fd then Some (slot_of fd, EPOLLIN) else interest s g)" for g
    unfolding r using s1(1) k by simp
  have cb: "ev_callback (ev_at ?s2 (slot_of g)) = AcceptCB" if "g = fd \<or> g \<in> set fds" for g
  proof -
    have g: "interest ?s2 g = Some (slot_of g, EPOLLIN)" using that L by (auto simp: i2 listeners_ok_def)
    note a = reactor_okD(4,6) [OF ok2 g]
    show ?thesis
    proof (cases "g = fd")
      case True
      then show ?thesis using ev2 [OF a(1)] a(2) by (simp add: events_def nty_event_set_def)
    next
      case False
      then have gi: "interest s g = Some (slot_of g, EPOLLIN)" "ev_callback (ev_at s (slot_of g)) = AcceptCB" using that L by (auto simp: listeners_ok_def)
      then show ?thesis using ev2 [OF a(1)] a(2) False reactor_okD(6) [OF ok gi(1)] by (simp add: events_def)
    qed
  qed
  have "listeners_ok (fds @ [fd]) ?s2" using L ok2 m2 cb by (auto simp: listeners_ok_def i2 ev2)
  moreover have "ntyreactor_addlistener echo_zero fd AcceptCB ?s = Some (0, ?s2)"
    using t0(3) f by (simp add: ntyreactor_addlistener_def Let_def)
  ultimately show ?thesis using out by blast
qed

lemma add_listeners_ok:
  "listeners_ok old s \<Longrightarrow> \<exists>fds s'. add_listeners (replicate n True) s = Some (fds, s') \<and> length fds = n \<and> listeners_ok (old @ fds) s' \<and>
    distinct fds \<and> set fds \<inter> set old = {}"
proof (induction n arbitrary: old s)
  case (Suc n)
  obtain fd k where fd: "init_sock True (s_kernel s) = (fd, k)" by fastforce
  obtain s1 where s1: "ntyreactor_addlistener echo_zero fd AcceptCB (s\<lparr>s_kernel := k\<rparr>) = Some (0, s1)" "listeners_ok (old @ [fd]) s1" "fd \<notin> set old"
    using listener_step [OF Suc.prems fd] by blast
  from Suc.IH [OF s1(2)] obtain fds s' where "add_listeners (replicate n True) s1 = Some (fds, s')" "length fds = n"
    "listeners_ok ((old @ [fd]) @ fds) s'" "distinct fds" "set fds \<inter> set (old @ [fd]) = {}" by blast
  then show ?case using fd s1(1,3) by auto
qed simp

text \<open>when memory and sockets last, the program starts with all its ports registered, and the loop keeps the
  invariant of the reactor from there on, whatever \<open>epoll_wait\<close> reports.\<close>

theorem echo_server_runs:
  assumes "0 \<in> set (k_open (s_kernel s))" and "\<forall>fd. interest s fd = None" and "\<forall>n. s_malloc s n"
  shows "\<exists>fds s1. echo_main True (replicate n True) s = Some (fds, s1) \<and> length fds = n \<and> distinct fds \<and>
    (\<forall>fd\<in>set fds. interest s1 fd = Some (slot_of fd, EPOLLIN) \<and> ev_callback (ev_at s1 (slot_of fd)) = AcceptCB) \<and>
    (\<forall>ws s2. rounds_ok echo_handlers ws s1 \<longrightarrow> ntyreactor_run echo_handlers ws s1 = Some (Inr s2) \<longrightarrow> reactor_ok s2)"
proof -
  obtain fds s1 where s1: "echo_main True (replicate n True) s = Some (fds, s1)" "length fds = n" "listeners_ok fds s1" "distinct fds"
    using add_listeners_ok [OF init_listeners [OF assms], of n] by (auto simp: echo_main_def)
  have "reactor_ok s2" if "rounds_ok echo_handlers ws s1" "ntyreactor_run echo_handlers ws s1 = Some (Inr s2)" for ws s2
  proof -
    have "run_rounds echo_handlers ws s1 = Some s2" using that(2) by (auto simp: ntyreactor_run_def split: if_splits)
    then show ?thesis using echo.run_rounds_ok that(1) s1(3) by (auto simp: listeners_ok_def)
  qed
  then show ?thesis using s1 by (auto simp: listeners_ok_def)
qed

theorem echo_server_runs_witness:
  "\<exists>fds s1. echo_main True (replicate 100 True) (\<lparr>s_reactor = \<lparr>epfd = 0, blkcnt = 0, evblk = []\<rparr>,
     s_kernel = \<lparr>k_open = [0, 1, 2], k_interest = Map.empty, k_backlog = (\<lambda>_. []), k_fcntl = (\<lambda>_. True),
       k_conn = (\<lambda>_. \<lparr>c_in = [], c_eof = False, c_room = 0\<rparr>), k_out = (\<lambda>_. [])\<rparr>,
     s_malloc = (\<lambda>_. True), s_calls = 0, s_live = 0\<rparr>) = Some (fds, s1) \<and> length fds = 100 \<and> distinct fds \<and>
    (\<forall>fd\<in>set fds. interest s1 fd = Some (slot_of fd, EPOLLIN) \<and> ev_callback (ev_at s1 (slot_of fd)) = AcceptCB) \<and>
    (\<forall>ws s2. rounds_ok echo_handlers ws s1 \<longrightarrow> ntyreactor_run echo_handlers ws s1 = Some (Inr s2) \<longrightarrow> reactor_ok s2)"
  by (rule echo_server_runs) simp_all

section \<open>The echo\<close>

lemma write_prefix: "length bs \<le> length old \<Longrightarrow> write_at 0 bs old = Some (bs @ drop (length bs) old)"
  by (simp add: write_at_def)

lemma echo_recv_data:
  assumes ok: "reactor_ok s" and i: "interest s fd = Some (p, e)" and b: "length (ev_buffer (ev_at s p)) = BUFFER_LENGTH"
    and c: "c_in (k_conn (s_kernel s) fd) = data # segs" and l: "data \<noteq> []" "length data < BUFFER_LENGTH"
  shows "\<exists>s1 junk. echo_recv_cb fd s = Some (int (length data), s1) \<and> reactor_ok s1 \<and>
    ev_at s1 p = (nty_event_set fd SendCB True ((ev_at s p)\<lparr>ev_status := 0, ev_length := int (length data), ev_buffer := data @ 0 # junk\<rparr>))
      \<lparr>ev_events := EPOLLOUT, ev_status := 1\<rparr> \<and>
    s_kernel s1 = (s_kernel s)\<lparr>k_conn := (k_conn (s_kernel s))(fd := (k_conn (s_kernel s) fd)\<lparr>c_in := segs\<rparr>),
      k_interest := (interest s)(fd \<mapsto> (p, EPOLLOUT))\<rparr>"
proof -
  note d = reactor_okD [OF ok i]
  let ?p = "slot_of fd"
  define old where "old = ev_buffer (ev_at s p)"
  have lo: "length data < length old" using b l by (simp add: old_def)
  define k where "k = (s_kernel s)\<lparr>k_conn := (k_conn (s_kernel s))(fd := (k_conn (s_kernel s) fd)\<lparr>c_in := segs\<rparr>)\<rparr>"
  have rb: "recv_bytes fd BUFFER_LENGTH (s_kernel s) = (Some data, k)" using c l by (simp add: recv_bytes_def k_def)
  define junk where "junk = drop (Suc (length data)) old"
  have w1: "write_at 0 data old = Some (data @ drop (length data) old)" using lo by (simp add: write_prefix)
  have w2: "write_at (length data) [0] (data @ drop (length data) old) = Some (data @ 0 # junk)"
    using write_at_here [of _ data "[old ! length data]" junk _ "[0]"] Cons_nth_drop_Suc [OF lo] by (simp add: junk_def)
  define s1 where "s1 = (upd_ev ?p (\<lambda>ev. ev\<lparr>ev_buffer := data @ drop (length data) old\<rparr>) s)\<lparr>s_kernel := k\<rparr>"
  have ok1: "reactor_ok s1" unfolding s1_def
    by (rule ok_same_kernel, rule upd_data_ok [OF ok d(6)]) (simp_all add: k_def same_arming_def frame_simps)
  have i1: "interest s1 fd = Some (?p, e)" using i d(5) by (simp add: s1_def k_def)
  have in1: "fst ?p < length (evblk (s_reactor s1))" using d(6) by (simp add: s1_def frame_simps)
  define s3 where "s3 = snd (nty_event_del ?p s1)"
  have e3: "ev_at s3 ?p = (ev_at s ?p)\<lparr>ev_buffer := data @ drop (length data) old, ev_status := 0\<rparr>"
    using ev_at_upd [OF in1] ev_at_upd [OF d(6)] by (simp add: s3_def del_armed [OF ok1 i1]) (simp add: s1_def)
  let ?ev1 = "(ev_at s3 ?p)\<lparr>ev_length := int (length data), ev_buffer := data @ 0 # junk\<rparr>"
  define s5 where "s5 = snd (nty_event_add EPOLLOUT ?p (upd_ev ?p (nty_event_set fd SendCB True) (upd_ev ?p (\<lambda>_. ?ev1) s3)))"
  have st: "ev_status ?ev1 \<noteq> 1" "fits EPOLLOUT SendCB" by (simp_all add: e3 fits_def)
  note ta = turn_around [OF ok1 i1 st, of s5, folded s3_def, OF s5_def]
  have "echo_recv_cb fd s = Some (int (length data), s5)"
    using find_armed [OF ok i, of echo_zero] rb w1 w2 l(1) d(5)
    by (simp add: echo_recv_cb_def Let_def old_def flip: s1_def s3_def) (simp add: s5_def s3_def s1_def old_def)
  moreover have "s_kernel s5 = k\<lparr>k_interest := (interest s)(fd \<mapsto> (?p, EPOLLOUT))\<rparr>" using ta(2) by (simp add: s1_def k_def)
  ultimately show ?thesis using ta(1,3) d(5) by (intro exI [of _ s5] exI [of _ junk]) (simp add: e3 k_def)
qed

lemma echo_send_data:
  assumes ok: "reactor_ok s" and i: "interest s fd = Some (p, e)" and b: "ev_buffer (ev_at s p) = data @ junk"
    and n: "ev_length (ev_at s p) = int (length data)" "data \<noteq> []" "0 < c_room (k_conn (s_kernel s) fd)"
  shows "\<exists>s1. echo_send_cb fd s = Some (int (min (c_room (k_conn (s_kernel s) fd)) (length data)), s1) \<and> reactor_ok s1 \<and>
    interest s1 fd = Some (p, EPOLLIN) \<and> ev_callback (ev_at s1 p) = RecvCB \<and>
    c_in (k_conn (s_kernel s1) fd) = c_in (k_conn (s_kernel s) fd) \<and>
    k_out (s_kernel s1) fd = k_out (s_kernel s) fd @ take (c_room (k_conn (s_kernel s) fd)) data"
proof -
  note d = reactor_okD [OF ok i]
  let ?p = "slot_of fd" and ?c = "k_conn (s_kernel s) fd"
  have r: "read_at 0 (nat (ev_length (ev_at s p))) (ev_buffer (ev_at s p)) = Some data" using b n by (simp add: read_at_def)
  define m where "m = min (c_room ?c) (length data)"
  have m: "0 < m" "take m data = take (c_room ?c) data" using n(2,3) by (simp_all add: m_def min_def)
  define k where "k = (s_kernel s)\<lparr>k_conn := (k_conn (s_kernel s))(fd := ?c\<lparr>c_room := c_room ?c - m\<rparr>),
    k_out := (k_out (s_kernel s))(fd := k_out (s_kernel s) fd @ take m data)\<rparr>"
  have sb: "send_bytes fd data (s_kernel s) = (int m, k)" using m(1) by (simp add: send_bytes_def Let_def k_def m_def)
  define s1 where "s1 = s\<lparr>s_kernel := k\<rparr>"
  have ok1: "reactor_ok s1" unfolding s1_def by (rule ok_same_kernel [OF ok]) (simp_all add: k_def)
  have i1: "interest s1 fd = Some (?p, e)" using i d(5) by (simp add: s1_def k_def)
  define s3 where "s3 = snd (nty_event_del ?p s1)"
  have st: "ev_status (ev_at s3 ?p) \<noteq> 1" "fits EPOLLIN RecvCB"
    using ev_at_upd [of ?p s1] d(6) by (simp_all add: s3_def del_armed [OF ok1 i1] fits_def) (simp add: s1_def)
  define s5 where "s5 = snd (nty_event_add EPOLLIN ?p (upd_ev ?p (nty_event_set fd RecvCB True) s3))"
  note ta = turn_around [OF ok1 i1 st, of s5, folded s3_def, unfolded upd_ev_same, OF s5_def]
  have "echo_send_cb fd s = Some (int m, s5)"
    using find_armed [OF ok i, of echo_zero] r n(1) sb m(1) d(5) by (simp add: echo_send_cb_def Let_def s5_def s3_def s1_def)
  then show ?thesis using ta d(5) m(2) by (auto simp: nty_event_set_def s1_def k_def m_def)
qed

text \<open>two rounds of the loop send back what a connection sent, as much of it as the socket takes at once, and the
  connection waits for the next data: the rest is dropped.\<close>

theorem echo_sends_what_fits:
  assumes ok: "reactor_ok s" and i: "interest s fd = Some (p, EPOLLIN)" and cb: "ev_callback (ev_at s p) = RecvCB"
    and b: "length (ev_buffer (ev_at s p)) = BUFFER_LENGTH" and c: "c_in (k_conn (s_kernel s) fd) = data # segs"
    and l: "data \<noteq> []" "length data < BUFFER_LENGTH" and room: "0 < c_room (k_conn (s_kernel s) fd)"
  shows "\<exists>s2. run_rounds echo_handlers [Some [(p, EPOLLIN)], Some [(p, EPOLLOUT)]] s = Some s2 \<and> reactor_ok s2 \<and>
    interest s2 fd = Some (p, EPOLLIN) \<and> ev_callback (ev_at s2 p) = RecvCB \<and> c_in (k_conn (s_kernel s2) fd) = segs \<and>
    k_out (s_kernel s2) fd = k_out (s_kernel s) fd @ take (c_room (k_conn (s_kernel s) fd)) data"
proof -
  obtain s1 junk where s1: "echo_recv_cb fd s = Some (int (length data), s1)" "reactor_ok s1"
    "ev_at s1 p = (nty_event_set fd SendCB True ((ev_at s p)\<lparr>ev_status := 0, ev_length := int (length data), ev_buffer := data @ 0 # junk\<rparr>))
      \<lparr>ev_events := EPOLLOUT, ev_status := 1\<rparr>"
    "s_kernel s1 = (s_kernel s)\<lparr>k_conn := (k_conn (s_kernel s))(fd := (k_conn (s_kernel s) fd)\<lparr>c_in := segs\<rparr>),
      k_interest := (interest s)(fd \<mapsto> (p, EPOLLOUT))\<rparr>"
    using echo_recv_data [OF ok i b c l] by blast
  have e1: "ev_buffer (ev_at s1 p) = data @ 0 # junk" "ev_length (ev_at s1 p) = int (length data)" "ev_callback (ev_at s1 p) = SendCB"
    "ev_fd (ev_at s1 p) = fd" "ev_arg (ev_at s1 p)" "ev_events (ev_at s1 p) = EPOLLOUT" by (simp_all add: s1(3) nty_event_set_def)
  have i1: "interest s1 fd = Some (p, EPOLLOUT)" using s1(4) by simp
  obtain n s2 where s2: "echo_send_cb fd s1 = Some (n, s2)" "reactor_ok s2" "interest s2 fd = Some (p, EPOLLIN)"
    "ev_callback (ev_at s2 p) = RecvCB" "c_in (k_conn (s_kernel s2) fd) = segs"
    "k_out (s_kernel s2) fd = k_out (s_kernel s) fd @ take (c_room (k_conn (s_kernel s) fd)) data"
    using echo_send_data [OF s1(2) i1 e1(1,2) l(1)] room s1(4) by auto
  have e0: "ev_fd (ev_at s p) = fd" "ev_arg (ev_at s p)" "ev_events (ev_at s p) = EPOLLIN"
    using reactor_okD(2) [OF ok i] by (auto simp: armed_def)
  show ?thesis using s1(1) s2 e0 e1(3-6) cb by (simp add: call_if_def Let_def)
qed

definition echo_sample :: "byte list \<Rightarrow> ntyevent server" where
  "echo_sample data = \<lparr>s_reactor = \<lparr>epfd = 3, blkcnt = 1, evblk = [\<lambda>i. if i = 5
       then echo_zero\<lparr>ev_fd := 5, ev_callback := RecvCB, ev_arg := True, ev_events := EPOLLIN, ev_status := 1\<rparr> else echo_zero]\<rparr>,
     s_kernel = \<lparr>k_open = [0, 1, 2, 3, 5], k_interest = [5 \<mapsto> ((0, 5), EPOLLIN)], k_backlog = (\<lambda>_. []), k_fcntl = (\<lambda>_. True),
       k_conn = (\<lambda>_. \<lparr>c_in = [data], c_eof = False, c_room = 2\<rparr>), k_out = (\<lambda>_. [])\<rparr>,
     s_malloc = (\<lambda>_. True), s_calls = 2, s_live = 2\<rparr>"

lemma echo_sample_simps [simp]:
  "reactor_ok (echo_sample data)" "interest (echo_sample data) 5 = Some ((0, 5), EPOLLIN)" "ev_callback (ev_at (echo_sample data) (0, 5)) = RecvCB"
  "length (ev_buffer (ev_at (echo_sample data) (0, 5))) = BUFFER_LENGTH" "c_in (k_conn (s_kernel (echo_sample data)) 5) = [data]"
  "c_room (k_conn (s_kernel (echo_sample data)) 5) = 2" "k_out (s_kernel (echo_sample data)) 5 = []"
  by (auto simp: reactor_ok_def echo_sample_def table_ok_def armed_def ev_at_def slot_of_def fits_def echo_zero_def split: if_splits)

theorem echo_sends_what_fits_witness:
  "\<exists>s2. run_rounds echo_handlers [Some [((0, 5), EPOLLIN)], Some [((0, 5), EPOLLOUT)]] (echo_sample [104, 101, 121]) = Some s2 \<and>
    interest s2 5 = Some ((0, 5), EPOLLIN) \<and> k_out (s_kernel s2) 5 = [104, 101]"
proof -
  have "take (c_room (k_conn (s_kernel (echo_sample [104, 101, 121])) 5)) [104, 101, 121 :: byte] = [104, 101]"
    by (simp add: numeral_eq_Suc)
  then show ?thesis using echo_sends_what_fits [of "echo_sample [104, 101, 121]" 5 "(0, 5)" "[104, 101, 121]" "[]"] by simp metis
qed

text \<open>a segment that fills the buffer makes the program write a null byte behind it.\<close>

theorem echo_full_buffer_overflows:
  assumes ok: "reactor_ok s" and i: "interest s fd = Some (p, e)" and b: "length (ev_buffer (ev_at s p)) = BUFFER_LENGTH"
    and c: "c_in (k_conn (s_kernel s) fd) = data # segs" and l: "BUFFER_LENGTH \<le> length data"
  shows "echo_recv_cb fd s = None"
proof -
  obtain k where rb: "recv_bytes fd BUFFER_LENGTH (s_kernel s) = (Some (take BUFFER_LENGTH data), k)"
    using c by (simp add: recv_bytes_def)
  have w: "write_at 0 (take BUFFER_LENGTH data) (ev_buffer (ev_at s p)) = Some (take BUFFER_LENGTH data)"
    using b l write_prefix [of "take BUFFER_LENGTH data" "ev_buffer (ev_at s p)"] by simp
  have "write_at (length (take BUFFER_LENGTH data)) [0] (take BUFFER_LENGTH data) = None" by (simp add: write_at_def)
  moreover have "take BUFFER_LENGTH data \<noteq> []" using l by auto
  ultimately show ?thesis using find_armed [OF ok i, of echo_zero] rb w reactor_okD(5) [OF ok i] by (simp add: echo_recv_cb_def Let_def)
qed

theorem echo_full_buffer_overflows_witness: "echo_recv_cb 5 (echo_sample (replicate 5000 97)) = None"
  by (rule echo_full_buffer_overflows [where p = "(0, 5)" and segs = "[]" and e = EPOLLIN and data = "replicate 5000 97"]) (simp_all only: echo_sample_simps length_replicate)

end
