(* ===== verification/EpollSingle.thy ===== *)
theory EpollSingle
  imports Reactor_Turn
begin

text \<open>
  The reactor of \<open>2.1.2reactor/epoll_reactor_singecb.c\<close>: one block of 1024 events, no growth, an event
  with the time of its last activity, and a loop that looks at a hundred events a round and closes
  those that were idle for a minute. The functions that move an event are those of \<open>Reactor\<close>; times are
  the results of the calls of \<open>time\<close>, given where they are made.
\<close>

section \<open>Events\<close>

record hb_event = ntyevent +
  last_active :: int

definition hb_zero :: hb_event where
  "hb_zero = \<lparr>ev_fd = 0, ev_events = 0, ev_arg = False, ev_callback = NoCB, ev_status = 0,
     ev_buffer = replicate BUFFER_LENGTH 0, ev_length = 0, last_active = 0\<rparr>"

text \<open>The event of a descriptor: outside of the block there is none.\<close>

definition hb_slot :: "int \<Rightarrow> slot option" where
  "hb_slot fd = (if 0 \<le> fd \<and> fd < MAX_EPOLL_EVENTS then Some (0, nat fd) else None)"

definition hb_event_set :: "int \<Rightarrow> int \<Rightarrow> callback \<Rightarrow> bool \<Rightarrow> hb_event \<Rightarrow> hb_event" where
  "hb_event_set now fd cb arg ev = ev\<lparr>ev_fd := fd, ev_callback := cb, ev_events := 0, ev_arg := arg, last_active := now\<rparr>"

section \<open>The callbacks\<close>

definition hb_recv_cb :: "int \<Rightarrow> int \<Rightarrow> hb_event server \<Rightarrow> (int \<times> hb_event server) option" where
  "hb_recv_cb now fd s = do {
     p \<leftarrow> hb_slot fd;
     let (r, k) = recv_bytes fd BUFFER_LENGTH (s_kernel s);
     case r of
       None \<Rightarrow> (let s3 = snd (nty_event_del p (s\<lparr>s_kernel := k\<rparr>))
                in Some (- 1, upd_kernel (close_fd (ev_fd (ev_at s3 p))) s3))
     | Some bs \<Rightarrow> do {
         buf \<leftarrow> write_at 0 bs (ev_buffer (ev_at s p));
         let s3 = snd (nty_event_del p ((upd_ev p (\<lambda>ev. ev\<lparr>ev_buffer := buf\<rparr>) s)\<lparr>s_kernel := k\<rparr>));
         if bs \<noteq> [] then do {
           b \<leftarrow> write_at (length bs) [0] buf;
           let ev1 = (ev_at s3 p)\<lparr>ev_length := int (length bs), ev_buffer := b\<rparr>;
           let s5 = upd_ev p (hb_event_set now fd SendCB True) (upd_ev p (\<lambda>_. ev1) s3);
           Some (int (length bs), snd (nty_event_add EPOLLOUT p s5)) }
         else Some (0, upd_kernel (close_fd (ev_fd (ev_at s3 p))) s3) } }"

text \<open>When nothing could be sent, the descriptor is closed before its event is removed.\<close>

definition hb_send_cb :: "int \<Rightarrow> int \<Rightarrow> hb_event server \<Rightarrow> (int \<times> hb_event server) option" where
  "hb_send_cb now fd s = do {
     p \<leftarrow> hb_slot fd;
     let ev = ev_at s p;
     bs \<leftarrow> (if ev_length ev < 0 then None else read_at 0 (nat (ev_length ev)) (ev_buffer ev));
     let (len, k) = send_bytes fd bs (s_kernel s);
     let s1 = s\<lparr>s_kernel := k\<rparr>;
     if len > 0 then
       Some (len, snd (nty_event_add EPOLLIN p (upd_ev p (hb_event_set now fd RecvCB True) (snd (nty_event_del p s1)))))
     else Some (len, snd (nty_event_del p (upd_kernel (close_fd (ev_fd ev)) s1))) }"

definition hb_accept_cb :: "int \<Rightarrow> int \<Rightarrow> bool \<Rightarrow> hb_event server \<Rightarrow> (int \<times> hb_event server) option" where
  "hb_accept_cb now fd reactor s =
    (if \<not> reactor then Some (- 1, s)
     else case accept_conn fd (s_kernel s) of (clientfd, k) \<Rightarrow>
       if clientfd = - 1 then Some (- 1, s)
       else if \<not> k_fcntl k clientfd then Some (- 1, s\<lparr>s_kernel := k\<rparr>)
       else do {
         p \<leftarrow> hb_slot clientfd;
         let s2 = upd_ev p (hb_event_set now clientfd RecvCB True) (s\<lparr>s_kernel := k\<rparr>);
         Some (0, snd (nty_event_add EPOLLIN p s2)) })"

fun hb_handlers :: "int \<Rightarrow> callback \<Rightarrow> int \<Rightarrow> 32 word \<Rightarrow> bool \<Rightarrow> hb_event server \<Rightarrow> (int \<times> hb_event server) option" where
  "hb_handlers now NoCB fd evs arg s = None"
| "hb_handlers now RecvCB fd evs arg s = (if arg then hb_recv_cb now fd s else None)"
| "hb_handlers now SendCB fd evs arg s = (if arg then hb_send_cb now fd s else None)"
| "hb_handlers now AcceptCB fd evs arg s = hb_accept_cb now fd arg s"

section \<open>The reactor\<close>

text \<open>The new block is cleared before the result of \<open>malloc\<close> is tested.\<close>

definition hb_init :: "bool \<Rightarrow> hb_event server \<Rightarrow> (int \<times> hb_event server) option" where
  "hb_init created s =
    (let ep = (if created then fresh_fd (k_open (s_kernel s)) else - 1);
         s0 = s\<lparr>s_reactor := \<lparr>epfd = ep, blkcnt = 0, evblk = []\<rparr>,
           s_kernel := (if created then (s_kernel s)\<lparr>k_open := ep # k_open (s_kernel s)\<rparr> else s_kernel s)\<rparr>
     in if ep \<le> 0 then Some (- 2, s0)
        else case malloc s0 of (ok, s1) \<Rightarrow>
          if \<not> ok then None
          else Some (0, s1\<lparr>s_reactor := (s_reactor s1)\<lparr>evblk := [\<lambda>_. hb_zero], blkcnt := 1\<rparr>\<rparr>))"

definition hb_destory :: "hb_event server \<Rightarrow> hb_event server" where
  "hb_destory s = (upd_kernel (close_fd (epfd (s_reactor s))) s)\<lparr>s_live := s_live s - 1\<rparr>"

definition hb_addlistener :: "int \<Rightarrow> int \<Rightarrow> callback \<Rightarrow> hb_event server \<Rightarrow> (int \<times> hb_event server) option" where
  "hb_addlistener now sockfd acceptor s =
    (if evblk (s_reactor s) = [] then Some (- 1, s)
     else do {
       p \<leftarrow> hb_slot sockfd;
       Some (0, snd (nty_event_add EPOLLIN p (upd_ev p (hb_event_set now sockfd acceptor True) s))) })"

section \<open>The heartbeat\<close>

text \<open>The loop over a hundred events from \<open>checkpos\<close> on; \<open>i\<close> counts what is left.\<close>

definition hb_check :: "int \<Rightarrow> nat \<Rightarrow> hb_event server \<Rightarrow> hb_event server" where
  "hb_check now pos s =
    (let ev = ev_at s (0, pos)
     in if ev_status ev \<noteq> 1 \<or> pos = 3 then s
        else if now - last_active ev \<ge> 60
        then snd (nty_event_del (0, pos) (upd_kernel (close_fd (ev_fd ev)) s)) else s)"

fun hb_beat :: "nat \<Rightarrow> int \<Rightarrow> nat \<Rightarrow> hb_event server \<Rightarrow> nat \<times> hb_event server" where
  "hb_beat 0 now checkpos s = (checkpos, s)"
| "hb_beat (Suc i) now checkpos s =
    (let pos = (if checkpos = 1024 then 0 else checkpos) in hb_beat i now (Suc pos) (hb_check now pos s))"

fun hb_ready :: "((slot \<times> 32 word) \<times> int) list \<Rightarrow> hb_event server \<Rightarrow> hb_event server option" where
  "hb_ready [] s = Some s"
| "hb_ready ((r, now) # rs) s = do {
     s1 \<leftarrow> call_if EPOLLIN (hb_handlers now) r s;
     s2 \<leftarrow> call_if EPOLLOUT (hb_handlers now) r s1;
     hb_ready rs s2 }"

text \<open>A round: the time of the heartbeat and the result of \<open>epoll_wait\<close> after it, with the times of the callbacks.\<close>

fun hb_rounds :: "(int \<times> ((slot \<times> 32 word) \<times> int) list option) list \<Rightarrow> nat \<Rightarrow> hb_event server \<Rightarrow> hb_event server option" where
  "hb_rounds [] checkpos s = Some s"
| "hb_rounds ((now, w) # ws) checkpos s =
    (case hb_beat 100 now checkpos s of (pos, s1) \<Rightarrow>
       (case w of
          None \<Rightarrow> hb_rounds ws pos s1
        | Some rs \<Rightarrow> do { s2 \<leftarrow> hb_ready rs s1; hb_rounds ws pos s2 }))"

definition hb_run :: "(int \<times> ((slot \<times> 32 word) \<times> int) list option) list \<Rightarrow> hb_event server \<Rightarrow> (int + hb_event server) option" where
  "hb_run ws s =
    (if epfd (s_reactor s) < 0 \<or> evblk (s_reactor s) = [] then Some (Inl (- 1))
     else map_option Inr (hb_rounds ws 0 s))"

section \<open>The callbacks keep the invariant\<close>

lemma hb_slot_of: "hb_slot fd = Some p \<longleftrightarrow> 0 \<le> fd \<and> fd < 1024 \<and> p = slot_of fd"
  by (auto simp: hb_slot_def slot_of_def)

lemma hb_set_split: "hb_event_set now fd cb arg = (\<lambda>ev. nty_event_set fd cb arg (ev\<lparr>last_active := now\<rparr>))"
  by (rule ext) (simp add: hb_event_set_def nty_event_set_def)

text \<open>Setting an event with its time is setting it after its time.\<close>

lemma hb_set_upd:
  assumes "fst p < length (evblk (s_reactor s))"
  shows "upd_ev p (hb_event_set now fd cb arg) s = upd_ev p (nty_event_set fd cb arg) (upd_ev p (\<lambda>ev. ev\<lparr>last_active := now\<rparr>) s)"
  using assms by (simp add: upd_ev_twice hb_set_split)

text \<open>What a step for \<open>fd\<close> keeps: the invariant, the other events, and that a set status means a registered event.\<close>

definition hb_keeps :: "hb_event server \<Rightarrow> int \<Rightarrow> hb_event server \<Rightarrow> bool" where
  "hb_keeps s fd s' \<longleftrightarrow> keeps s fd s' \<and> length (evblk (s_reactor s')) = length (evblk (s_reactor s)) \<and>
     (\<forall>q. q \<noteq> slot_of fd \<longrightarrow> ev_at s' q = ev_at s q) \<and> (ev_status (ev_at s' (slot_of fd)) = 1 \<longrightarrow> interest s' fd \<noteq> None)"

lemma hb_keeps_trans: "hb_keeps a fd b \<Longrightarrow> hb_keeps b fd c \<Longrightarrow> hb_keeps a fd c"
  by (auto simp: hb_keeps_def keeps_def)

lemma ev_at_kept:
  assumes "fst p < length (evblk (s_reactor s))" and "q \<noteq> p"
  shows "ev_at (snd (nty_event_add e p s)) q = ev_at s q" and "ev_at (snd (nty_event_del p s)) q = ev_at s q"
  using assms by (simp_all add: nty_event_add_def nty_event_del_def Let_def ev_at_upd split: prod.split)

lemma ev_at_upd_kernel [simp]: "ev_at (upd_kernel g s) q = ev_at s q"
  by (simp add: upd_kernel_def)

lemma hb_data:
  assumes ok: "reactor_ok s" and i: "interest s fd = Some (p, e)" and a: "same_arming (ev_at s (slot_of fd)) (f (ev_at s (slot_of fd)))"
    and k: "k_interest k = interest s" "k_open k = k_open (s_kernel s)"
  shows "hb_keeps s fd ((upd_ev (slot_of fd) f s)\<lparr>s_kernel := k\<rparr>)"
  using data_keeps(3) [where f = f, OF ok i a k refl] reactor_okD(6) [OF ok i] i k(1)
  by (simp add: hb_keeps_def frame_simps ev_at_upd)

lemma hb_kernel:
  assumes ok: "reactor_ok s" and i: "interest s fd = Some (p, e)" and k: "k_interest k = interest s" "k_open k = k_open (s_kernel s)"
  shows "hb_keeps s fd (s\<lparr>s_kernel := k\<rparr>)"
  using kernel_keeps(3) [OF ok i k] i k(1) by (simp add: hb_keeps_def)

lemma hb_drop:
  assumes "reactor_ok s" and "interest s fd = Some (slot_of fd, e)"
  shows "hb_keeps s fd (upd_kernel (close_fd (ev_fd (ev_at (snd (nty_event_del (slot_of fd) s)) (slot_of fd)))) (snd (nty_event_del (slot_of fd) s)))"
proof -
  note d = reactor_okD [OF assms]
  have "ev_status (ev_at (snd (nty_event_del (slot_of fd) s)) (slot_of fd)) = 0"
    using ev_at_upd [OF d(6)] by (simp add: del_armed [OF assms])
  then show ?thesis using drop_keeps [OF assms] ev_at_kept(2) [OF d(6)] by (simp add: hb_keeps_def)
qed

lemma hb_turn:
  assumes "reactor_ok s" and "interest s fd = Some (slot_of fd, e)" and "fits e' cb" and "ev_status ev1 \<noteq> 1"
  shows "hb_keeps s fd (snd (nty_event_add e' (slot_of fd) (upd_ev (slot_of fd) (hb_event_set now fd cb True)
      (upd_ev (slot_of fd) (\<lambda>_. ev1) (snd (nty_event_del (slot_of fd) s))))))"
proof -
  let ?p = "slot_of fd" and ?s3 = "snd (nty_event_del (slot_of fd) s)" and ?ev = "ev1\<lparr>last_active := now\<rparr>"
  note d = reactor_okD [OF assms(1,2)]
  have l: "fst ?p < length (evblk (s_reactor ?s3))" using d(6) by simp
  have u: "upd_ev ?p (hb_event_set now fd cb True) (upd_ev ?p (\<lambda>_. ev1) ?s3) =
      upd_ev ?p (nty_event_set fd cb True) (upd_ev ?p (\<lambda>_. ?ev) ?s3)"
    using l by (simp add: upd_ev_twice hb_set_split)
  have o: "ev_at (snd (nty_event_add e' ?p (upd_ev ?p (nty_event_set fd cb True) (upd_ev ?p (\<lambda>_. ?ev) ?s3)))) q = ev_at s q" if "q \<noteq> ?p" for q
    using that l d(6) by (simp add: ev_at_kept frame_simps ev_at_upd)
  have "ev_status ?ev \<noteq> 1" using assms(4) by simp
  note ta = turn_around(2) [OF assms(1,2) this assms(3) refl]
  show ?thesis using turn_keeps [OF assms(1-3), of ?ev] ta o unfolding u hb_keeps_def by (simp add: frame_simps)
qed

lemma hb_recv_keeps:
  assumes ok: "reactor_ok s" and i: "interest s fd = Some (p, e)" and r: "hb_recv_cb now fd s = Some (n, s')"
  shows "hb_keeps s fd s'"
proof -
  let ?p = "slot_of fd"
  obtain a k where rb: "recv_bytes fd BUFFER_LENGTH (s_kernel s) = (a, k)" by fastforce
  have kk: "k_interest k = interest s" "k_open k = k_open (s_kernel s)" using recv_bytes_frame [OF rb] by simp_all
  have sl: "hb_slot fd = Some ?p" using r by (cases "hb_slot fd") (auto simp: hb_recv_cb_def hb_slot_of)
  show ?thesis
  proof (cases a)
    case None
    note b = kernel_keeps [OF ok i kk]
    have "s' = upd_kernel (close_fd (ev_fd (ev_at (snd (nty_event_del ?p (s\<lparr>s_kernel := k\<rparr>))) ?p))) (snd (nty_event_del ?p (s\<lparr>s_kernel := k\<rparr>)))"
      using r sl rb None by (simp add: hb_recv_cb_def Let_def)
    then show ?thesis using hb_drop [OF b(1,2)] hb_keeps_trans [OF hb_kernel [OF ok i kk]] by simp
  next
    case (Some bs)
    obtain buf where w: "write_at 0 bs (ev_buffer (ev_at s ?p)) = Some buf"
      using r sl rb Some by (auto simp: hb_recv_cb_def Let_def bind_Some_iff)
    let ?s1 = "(upd_ev ?p (\<lambda>ev. ev\<lparr>ev_buffer := buf\<rparr>) s)\<lparr>s_kernel := k\<rparr>"
    have ar: "same_arming (ev_at s ?p) ((ev_at s ?p)\<lparr>ev_buffer := buf\<rparr>)" by (simp add: same_arming_def)
    note b = data_keeps [where f = "\<lambda>ev. ev\<lparr>ev_buffer := buf\<rparr>", OF ok i ar kk refl]
    note hd = hb_data [where f = "\<lambda>ev. ev\<lparr>ev_buffer := buf\<rparr>", OF ok i ar kk]
    show ?thesis
    proof (cases "bs = []")
      case True
      have "s' = upd_kernel (close_fd (ev_fd (ev_at (snd (nty_event_del ?p ?s1)) ?p))) (snd (nty_event_del ?p ?s1))"
        using r sl rb Some w True by (simp add: hb_recv_cb_def Let_def)
      then show ?thesis using hb_drop [OF b(1,2)] hb_keeps_trans [OF hd] by simp
    next
      case False
      have st: "ev_status (ev_at (snd (nty_event_del ?p ?s1)) ?p) = 0"
        using ev_at_upd [of ?p ?s1] reactor_okD(6) [OF ok i] by (simp add: del_armed [OF b(1,2)] frame_simps)
      obtain b' where "s' = snd (nty_event_add EPOLLOUT ?p (upd_ev ?p (hb_event_set now fd SendCB True)
          (upd_ev ?p (\<lambda>_. (ev_at (snd (nty_event_del ?p ?s1)) ?p)\<lparr>ev_length := int (length bs), ev_buffer := b'\<rparr>) (snd (nty_event_del ?p ?s1)))))"
        using r sl rb Some w False by (auto simp: hb_recv_cb_def Let_def bind_Some_iff)
      then show ?thesis using hb_turn [OF b(1,2), of EPOLLOUT SendCB] hb_keeps_trans [OF hd] st by (simp add: fits_def)
    qed
  qed
qed

text \<open>An event that is removed after its descriptor was closed.\<close>

lemma close_then_del:
  assumes ok: "reactor_ok s" and i: "interest s fd = Some (p, e)"
  shows "keeps s fd (snd (nty_event_del (slot_of fd) (upd_kernel (close_fd fd) s)))"
    and "interest (snd (nty_event_del (slot_of fd) (upd_kernel (close_fd fd) s))) fd = None"
    and "s_kernel (snd (nty_event_del (slot_of fd) (upd_kernel (close_fd fd) s))) = close_fd fd (s_kernel s)"
    and "ev_at (snd (nty_event_del (slot_of fd) (upd_kernel (close_fd fd) s))) q =
      (if q = slot_of fd then (ev_at s q)\<lparr>ev_status := 0\<rparr> else ev_at s q)"
proof -
  note d = reactor_okD [OF ok i]
  let ?s = "upd_kernel (close_fd fd) s"
  have ok1: "reactor_ok ?s" and i1: "interest ?s fd = None" using close_ok [OF ok d(3)] by (simp_all add: upd_kernel_def close_fd_def)
  have st: "ev_status (ev_at ?s (slot_of fd)) = 1" "ev_fd (ev_at s (slot_of fd)) = fd" using d(2,5) by (simp_all add: armed_def upd_kernel_def)
  have k: "snd (nty_event_del (slot_of fd) ?s) = (upd_ev (slot_of fd) (\<lambda>ev. ev\<lparr>ev_status := 0\<rparr>) ?s)\<lparr>s_kernel := close_fd fd (s_kernel s)\<rparr>"
    using st by (simp add: nty_event_del_def Let_def epoll_ctl_def close_fd_def upd_kernel_def)
  have ok2: "reactor_ok (upd_ev (slot_of fd) (\<lambda>ev. ev\<lparr>ev_status := 0\<rparr>) ?s)"
    by (rule upd_ev_ok [OF ok1 i1 d(4)]) (use d(6) in simp)
  have same: "(upd_ev (slot_of fd) (\<lambda>ev. ev\<lparr>ev_status := 0\<rparr>) ?s)\<lparr>s_kernel := close_fd fd (s_kernel s)\<rparr> = upd_ev (slot_of fd) (\<lambda>ev. ev\<lparr>ev_status := 0\<rparr>) ?s"
    by (simp add: upd_ev_def upd_kernel_def)
  have "interest (upd_ev (slot_of fd) (\<lambda>ev. ev\<lparr>ev_status := 0\<rparr>) ?s) = (interest s)(fd := None)"
    by (simp add: frame_simps upd_kernel_def close_fd_def)
  then show "keeps s fd (snd (nty_event_del (slot_of fd) ?s))" using ok2 unfolding k same keeps_def by simp
  show "interest (snd (nty_event_del (slot_of fd) ?s)) fd = None" and "s_kernel (snd (nty_event_del (slot_of fd) ?s)) = close_fd fd (s_kernel s)"
    unfolding k by (simp_all add: close_fd_def)
  show "ev_at (snd (nty_event_del (slot_of fd) ?s)) q = (if q = slot_of fd then (ev_at s q)\<lparr>ev_status := 0\<rparr> else ev_at s q)"
    unfolding k using ev_at_upd [of "slot_of fd" ?s] d(6) by (simp add: upd_kernel_def)
qed

lemma hb_close_del:
  assumes "reactor_ok s" and "interest s fd = Some (p, e)"
  shows "hb_keeps s fd (snd (nty_event_del (slot_of fd) (upd_kernel (close_fd fd) s)))"
  using close_then_del [OF assms] by (simp add: hb_keeps_def)

lemma hb_send_keeps:
  assumes ok: "reactor_ok s" and i: "interest s fd = Some (p, e)" and r: "hb_send_cb now fd s = Some (n, s')"
  shows "hb_keeps s fd s'"
proof -
  note d = reactor_okD [OF ok i]
  let ?p = "slot_of fd"
  have sl: "hb_slot fd = Some ?p" using r by (cases "hb_slot fd") (auto simp: hb_send_cb_def hb_slot_of)
  obtain bs where bs: "read_at 0 (nat (ev_length (ev_at s ?p))) (ev_buffer (ev_at s ?p)) = Some bs" "\<not> ev_length (ev_at s ?p) < 0"
    using r sl by (auto simp: hb_send_cb_def Let_def bind_Some_iff split: if_splits)
  obtain len k where sb: "send_bytes fd bs (s_kernel s) = (len, k)" by fastforce
  have kk: "k_interest k = interest s" "k_open k = k_open (s_kernel s)" using send_bytes_frame [OF sb] by simp_all
  note b = kernel_keeps [OF ok i kk]
  let ?s1 = "s\<lparr>s_kernel := k\<rparr>"
  show ?thesis
  proof (cases "len > 0")
    case False
    moreover have "ev_fd (ev_at s ?p) = fd" using d(2,5) by (simp add: armed_def)
    ultimately have "s' = snd (nty_event_del ?p (upd_kernel (close_fd fd) ?s1))" using r sl bs sb by (simp add: hb_send_cb_def Let_def)
    then show ?thesis using hb_close_del [OF b(1,2)] hb_keeps_trans [OF hb_kernel [OF ok i kk]] by simp
  next
    case True
    then have s': "s' = snd (nty_event_add EPOLLIN ?p (upd_ev ?p (hb_event_set now fd RecvCB True) (snd (nty_event_del ?p ?s1))))"
      using r sl bs sb by (simp add: hb_send_cb_def Let_def)
    have "ev_status (ev_at (snd (nty_event_del ?p ?s1)) ?p) = 0"
      using ev_at_upd [of ?p ?s1] d(6) by (simp add: del_armed [OF b(1,2)])
    then show ?thesis using s' hb_turn [OF b(1,2), of EPOLLIN RecvCB "ev_at (snd (nty_event_del ?p ?s1)) ?p" now] hb_keeps_trans [OF hb_kernel [OF ok i kk]]
      by (simp add: fits_def upd_ev_same)
  qed
qed

text \<open>Every descriptor below 1024 has its event in the first block, and a set status means that it is registered.\<close>

definition hb_sync :: "hb_event server \<Rightarrow> bool" where
  "hb_sync s \<longleftrightarrow> (\<forall>fd. 0 \<le> fd \<longrightarrow> fd < 1024 \<longrightarrow> ev_status (ev_at s (slot_of fd)) = 1 \<longrightarrow> interest s fd \<noteq> None)"

lemma hb_keeps_sync:
  assumes "hb_keeps s fd s'" and "hb_sync s" and "0 \<le> fd"
  shows "hb_sync s'"
  unfolding hb_sync_def
proof (intro allI impI)
  fix g :: int assume g: "0 \<le> g" "g < 1024" "ev_status (ev_at s' (slot_of g)) = 1"
  show "interest s' g \<noteq> None"
  proof (cases "g = fd")
    case False
    then have "slot_of g \<noteq> slot_of fd" using slot_of_inj g(1) assms(3) by simp
    then have "ev_at s' (slot_of g) = ev_at s (slot_of g)" using assms(1) unfolding hb_keeps_def by blast
    then have "interest s g \<noteq> None" using assms(2) g unfolding hb_sync_def by simp
    then show ?thesis using assms(1) False by (auto simp: hb_keeps_def keeps_def)
  qed (use assms(1) g(3) in \<open>simp add: hb_keeps_def\<close>)
qed

text \<open>An event that is registered anew.\<close>

lemma hb_register:
  assumes ok: "reactor_ok s" and i: "interest s c = None" and c: "0 \<le> c" "c < 1024" "c \<noteq> epfd (s_reactor s)" and f: "fits e cb"
    and s': "s' = snd (nty_event_add e (slot_of c) (upd_ev (slot_of c) (hb_event_set now c cb True) s))"
  shows "reactor_ok s' \<and> length (evblk (s_reactor s')) = length (evblk (s_reactor s)) \<and>
      (\<forall>fd' x. interest s fd' = Some x \<longrightarrow> interest s' fd' = Some x)"
    and "hb_sync s \<Longrightarrow> c \<in> set (k_open (s_kernel s)) \<Longrightarrow> hb_sync s' \<and> interest s' c = Some (slot_of c, e) \<and>
      ev_at s' (slot_of c) = (hb_event_set now c cb True (ev_at s (slot_of c)))\<lparr>ev_events := e, ev_status := 1\<rparr>"
proof -
  let ?p = "slot_of c"
  have lt: "fst ?p < length (evblk (s_reactor s))" using c(1,2) ok by (simp add: slot_of_def reactor_ok_def table_ok_def)
  let ?s1 = "upd_ev ?p (\<lambda>ev. ev\<lparr>last_active := now\<rparr>) s"
  have s1: "s' = snd (nty_event_add e ?p (upd_ev ?p (nty_event_set c cb True) ?s1))" using s' hb_set_upd [OF lt] by simp
  have ok1: "reactor_ok ?s1" by (rule upd_ev_ok [OF ok i c(1) lt])
  have i1: "interest ?s1 c = None" and lt1: "fst ?p < length (evblk (s_reactor ?s1))" using i lt by (simp_all add: frame_simps)
  have k: "keeps ?s1 c s'" unfolding s1 by (rule rearm_keeps [OF ok1 i1 c(1) lt1 f]) (use c(3) in \<open>simp add: frame_simps\<close>)
  have len: "length (evblk (s_reactor s')) = length (evblk (s_reactor s))" unfolding s1 by (simp add: frame_simps)
  show "reactor_ok s' \<and> length (evblk (s_reactor s')) = length (evblk (s_reactor s)) \<and>
      (\<forall>fd' x. interest s fd' = Some x \<longrightarrow> interest s' fd' = Some x)"
    using k len i unfolding keeps_def by (auto simp: frame_simps) (metis option.distinct(1))
  assume sy: "hb_sync s" and o: "c \<in> set (k_open (s_kernel s))"
  have "ev_status (ev_at s ?p) \<noteq> 1" using sy c(1,2) i by (auto simp: hb_sync_def)
  then have r: "s' = (upd_ev ?p (\<lambda>ev. (nty_event_set c cb True ev)\<lparr>ev_events := e, ev_status := 1\<rparr>) ?s1)
      \<lparr>s_kernel := (s_kernel s)\<lparr>k_interest := (interest s)(c \<mapsto> (?p, e))\<rparr>\<rparr>"
    using add_result [OF ok1 i1 c(1) lt1, of e cb] lt o unfolding s1 by (simp add: Let_def frame_simps ev_at_upd)
  have "hb_keeps ?s1 c s'" using k len lt unfolding r by (simp add: hb_keeps_def frame_simps ev_at_upd)
  moreover have "hb_sync ?s1" using sy lt by (auto simp: hb_sync_def ev_at_upd frame_simps split: if_splits)
  ultimately have "hb_sync s'" using hb_keeps_sync c(1) by blast
  then show "hb_sync s' \<and> interest s' c = Some (?p, e) \<and>
      ev_at s' ?p = (hb_event_set now c cb True (ev_at s ?p))\<lparr>ev_events := e, ev_status := 1\<rparr>"
    using lt unfolding r by (simp add: ev_at_upd frame_simps hb_set_split)
qed

lemma hb_accept_keeps:
  assumes ok: "reactor_ok s" and r: "hb_accept_cb now fd arg s = Some (n, s')"
  shows "reactor_ok s' \<and> length (evblk (s_reactor s')) = length (evblk (s_reactor s)) \<and>
    (\<forall>fd' x. interest s fd' = Some x \<longrightarrow> interest s' fd' = Some x) \<and> (hb_sync s \<longrightarrow> hb_sync s')"
proof (cases "arg \<and> fst (accept_conn fd (s_kernel s)) \<noteq> - 1")
  case False
  then show ?thesis using r ok by (auto simp: hb_accept_cb_def split: prod.splits if_splits)
next
  case True
  obtain c k where a: "accept_conn fd (s_kernel s) = (c, k)" by fastforce
  then have c: "c \<noteq> - 1" using True by simp
  note ac = accept_ok [OF ok a c]
  show ?thesis
  proof (cases "k_fcntl k c")
    case False
    then show ?thesis using r a c True ac(1,4) by (auto simp: hb_accept_cb_def hb_sync_def)
  next
    case fc: True
    let ?s = "s\<lparr>s_kernel := k\<rparr>" and ?p = "slot_of c"
    have sl: "hb_slot c = Some ?p" using r a c True fc by (cases "hb_slot c") (auto simp: hb_accept_cb_def Let_def hb_slot_of)
    have i0: "interest ?s c = None" "c < 1024" "c \<noteq> epfd (s_reactor ?s)" "c \<in> set (k_open (s_kernel ?s))" "hb_sync ?s = hb_sync s"
      using ac(3,4,5,6) sl by (simp_all add: hb_slot_of hb_sync_def)
    have s': "s' = snd (nty_event_add EPOLLIN ?p (upd_ev ?p (hb_event_set now c RecvCB True) ?s))"
      using r a c True fc sl by (simp add: hb_accept_cb_def Let_def)
    have "fits EPOLLIN RecvCB" by (simp add: fits_def)
    note reg = hb_register [OF ac(1) i0(1) ac(2) i0(2,3) this s']
    show ?thesis using reg i0(4,5) ac(4) by auto
  qed
qed

interpretation hb: reactor_handlers "hb_handlers now" for now
proof
  fix s :: "hb_event server" and fd p e evs r s'
  assume ok: "reactor_ok s" and i: "interest s fd = Some (p, e)"
    and h: "hb_handlers now (ev_callback (ev_at s p)) fd evs True s = Some (r, s')"
  have k: "keeps s fd s'"
    using h hb_recv_keeps [OF ok i] hb_send_keeps [OF ok i] hb_accept_keeps [OF ok]
    by (cases "ev_callback (ev_at s p)") (auto simp: keeps_def hb_keeps_def)
  then show "reactor_ok s'" by (simp add: keeps_def)
  show "interest s' fd' = Some x" if "fd' \<noteq> fd" "interest s fd' = Some x" for fd' x
    using k that unfolding keeps_def by blast
qed

end
