(* ===== verification/EpollSingle_Props.thy ===== *)
theory EpollSingle_Props
  imports EpollSingle
begin

text \<open>
  The heartbeat closes exactly the connections it finds idle, looks at every event within eleven rounds,
  and keeps the invariant together with the callbacks; where its assumptions on descriptors fail.
\<close>

section \<open>The invariant\<close>

definition hb_inv :: "hb_event server \<Rightarrow> bool" where
  "hb_inv s \<longleftrightarrow> reactor_ok s \<and> length (evblk (s_reactor s)) = 1 \<and> hb_sync s"

lemma hb_inv_below: "hb_inv s \<Longrightarrow> interest s fd = Some (p, e) \<Longrightarrow> 0 \<le> fd \<and> fd < 1024 \<and> p = (0, nat fd) \<and> slot_of fd = (0, nat fd)"
  using reactor_okD(4-6) [of s fd p e] unfolding hb_inv_def by (auto simp: slot_of_def)

lemma slot_of_nat [simp]: "pos < 1024 \<Longrightarrow> slot_of (int pos) = (0, pos)"
  by (simp add: slot_of_def)

text \<open>A registered descriptor that the heartbeat closes when it comes to it.\<close>

definition idle :: "int \<Rightarrow> hb_event server \<Rightarrow> int \<Rightarrow> bool" where
  "idle now s fd \<longleftrightarrow> interest s fd \<noteq> None \<and> fd \<noteq> 3 \<and> now - last_active (ev_at s (slot_of fd)) \<ge> 60"

definition closed :: "hb_event server \<Rightarrow> int \<Rightarrow> hb_event server \<Rightarrow> bool" where
  "closed s fd s' \<longleftrightarrow> hb_inv s' \<and> s_kernel s' = close_fd fd (s_kernel s) \<and> (\<forall>q. q \<noteq> slot_of fd \<longrightarrow> ev_at s' q = ev_at s q)"

lemma hb_check_cases:
  assumes "hb_inv s" and "pos < 1024"
  shows "idle now s (int pos) \<Longrightarrow> closed s (int pos) (hb_check now pos s)" and "\<not> idle now s (int pos) \<Longrightarrow> hb_check now pos s = s"
proof -
  have ok: "reactor_ok s" and sy: "hb_sync s" and one: "length (evblk (s_reactor s)) = 1" using assms(1) by (simp_all add: hb_inv_def)
  {
    assume id: "idle now s (int pos)"
    then obtain p e where i: "interest s (int pos) = Some (p, e)" by (auto simp: idle_def)
    have a: "ev_status (ev_at s (0, pos)) = 1" "ev_fd (ev_at s (0, pos)) = int pos"
      using reactor_okD(2) [OF ok i] assms(2) by (auto simp: armed_def)
    have c: "hb_check now pos s = snd (nty_event_del (slot_of (int pos)) (upd_kernel (close_fd (int pos)) s))"
      using id a assms(2) by (simp add: hb_check_def Let_def idle_def)
    have h: "hb_keeps s (int pos) (hb_check now pos s)" using hb_close_del [OF ok i] c by simp
    then have "hb_sync (hb_check now pos s)" using hb_keeps_sync sy by simp
    then have "hb_inv (hb_check now pos s)" using h one by (simp add: hb_inv_def hb_keeps_def keeps_def)
    moreover have "\<forall>q. q \<noteq> slot_of (int pos) \<longrightarrow> ev_at (hb_check now pos s) q = ev_at s q" using h unfolding hb_keeps_def by blast
    ultimately show "closed s (int pos) (hb_check now pos s)" using close_then_del(3) [OF ok i] c unfolding closed_def by simp
  next
    assume "\<not> idle now s (int pos)"
    moreover have "interest s (int pos) \<noteq> None" if "ev_status (ev_at s (0, pos)) = 1"
    proof -
      have "ev_status (ev_at s (slot_of (int pos))) = 1" using that assms(2) by simp
      then show ?thesis using sy assms(2) unfolding hb_sync_def by (metis of_nat_0_le_iff of_nat_less_iff of_nat_numeral)
    qed
    ultimately show "hb_check now pos s = s" using assms(2) by (auto simp: hb_check_def Let_def idle_def)
  }
qed

section \<open>One heartbeat\<close>

text \<open>The positions that \<open>n\<close> turns of the loop look at.\<close>

fun visits :: "nat \<Rightarrow> nat \<Rightarrow> nat list" where
  "visits 0 checkpos = []"
| "visits (Suc i) checkpos = (let pos = (if checkpos = 1024 then 0 else checkpos) in pos # visits i (Suc pos))"

lemma visits_mod: "checkpos \<le> 1024 \<Longrightarrow> set (visits n checkpos) = {x. \<exists>j<n. x = (checkpos + j) mod 1024}"
proof (induction n arbitrary: checkpos)
  case (Suc n)
  define pos where "pos = (if checkpos = 1024 then 0 else checkpos)"
  have pos: "pos < 1024" "pos mod 1024 = checkpos mod 1024" using Suc.prems by (auto simp: pos_def)
  have "(Suc pos + j) mod 1024 = (checkpos + Suc j) mod 1024" for j using pos(2) by (metis add_Suc add_Suc_right mod_add_left_eq)
  then have "set (visits (Suc n) checkpos) = {x. x = checkpos mod 1024 \<or> (\<exists>j<n. x = (checkpos + Suc j) mod 1024)}"
    using Suc.IH [of "Suc pos"] pos by (auto simp: pos_def [symmetric] Let_def)
  then show ?case by (simp add: Ex_less_Suc2)
qed simp

lemma hb_beat_effect:
  assumes "hb_inv s" and "checkpos \<le> 1024" and "hb_beat n now checkpos s = (pos', s')"
  shows "hb_inv s' \<and> pos' \<le> 1024 \<and> pos' mod 1024 = (checkpos + n) mod 1024 \<and>
    set (k_open (s_kernel s')) = set (k_open (s_kernel s)) - {fd. idle now s fd \<and> nat fd \<in> set (visits n checkpos)} \<and>
    (\<forall>fd. interest s' fd = (if idle now s fd \<and> nat fd \<in> set (visits n checkpos) then None else interest s fd)) \<and>
    (\<forall>fd. interest s' fd \<noteq> None \<longrightarrow> ev_at s' (slot_of fd) = ev_at s (slot_of fd))"
  using assms
proof (induction n arbitrary: checkpos s)
  case (Suc n)
  define pos where "pos = (if checkpos = 1024 then 0 else checkpos)"
  have "pos mod 1024 = checkpos mod 1024" by (simp add: pos_def)
  then have pos: "pos < 1024" "(Suc pos + n) mod 1024 = (checkpos + Suc n) mod 1024"
    using Suc.prems(2) by (auto simp: pos_def) (metis add_Suc add_Suc_right mod_add_left_eq)
  define s1 where "s1 = hb_check now pos s"
  have v: "visits (Suc n) checkpos = pos # visits n (Suc pos)" and b: "hb_beat n now (Suc pos) s1 = (pos', s')"
    using Suc.prems(3) by (simp_all add: pos_def [symmetric] Let_def s1_def)
  show ?case
  proof (cases "idle now s (int pos)")
    case False
    then have "s1 = s" using hb_check_cases(2) [OF Suc.prems(1) pos(1)] by (simp add: s1_def)
    then have "hb_beat n now (Suc pos) s = (pos', s')" using b by simp
    note ih = Suc.IH [OF Suc.prems(1) _ this]
    have "idle now s fd \<and> nat fd \<in> set (visits (Suc n) checkpos) \<longleftrightarrow> idle now s fd \<and> nat fd \<in> set (visits n (Suc pos))" for fd
      using False hb_inv_below [OF Suc.prems(1), of fd] unfolding v idle_def by auto
    then show ?thesis using ih pos by simp
  next
    case True
    note c = hb_check_cases(1) [OF Suc.prems(1) pos(1) True, folded s1_def]
    have inv1: "hb_inv s1" using c by (simp add: closed_def)
    have i1: "interest s1 fd = (if fd = int pos then None else interest s fd)" for fd using c by (simp add: closed_def close_fd_def)
    have e1: "ev_at s1 (slot_of fd) = ev_at s (slot_of fd)" if "interest s fd \<noteq> None" "fd \<noteq> int pos" for fd
    proof -
      have "slot_of fd \<noteq> slot_of (int pos)" using that hb_inv_below [OF Suc.prems(1), of fd] pos(1) by (auto simp: nat_eq_iff)
      then show ?thesis using c unfolding closed_def by blast
    qed
    have id1: "idle now s1 fd \<longleftrightarrow> idle now s fd \<and> fd \<noteq> int pos" for fd using e1 [of fd] by (auto simp: idle_def i1)
    have nn: "idle now s fd \<Longrightarrow> nat fd = pos \<longleftrightarrow> fd = int pos" for fd
      using hb_inv_below [OF Suc.prems(1), of fd] by (auto simp: idle_def)
    have o1: "set (k_open (s_kernel s1)) = set (k_open (s_kernel s)) - {int pos}" using c by (auto simp: closed_def close_fd_def)
    note ih = Suc.IH [OF inv1 _ b]
    have "set (k_open (s_kernel s')) = set (k_open (s_kernel s)) - {fd. idle now s fd \<and> nat fd \<in> set (visits (Suc n) checkpos)}"
      using ih pos(1) True nn unfolding v o1 id1 by auto
    moreover have "interest s' fd = (if idle now s fd \<and> nat fd \<in> set (visits (Suc n) checkpos) then None else interest s fd)" for fd
      using ih pos(1) True nn unfolding v id1 i1 by auto
    moreover have "ev_at s' (slot_of fd) = ev_at s (slot_of fd)" if "interest s' fd \<noteq> None" for fd
    proof -
      have "interest s1 fd \<noteq> None" "ev_at s' (slot_of fd) = ev_at s1 (slot_of fd)" using ih pos(1) that by (auto split: if_splits)
      then show ?thesis using e1 [of fd] by (simp add: i1 split: if_splits)
    qed
    ultimately show ?thesis using ih pos by simp
  qed
qed simp

text \<open>C32: one heartbeat closes exactly those registered connections among the next hundred positions that were idle for a
  minute, number 3 excepted, which the loop skips: their descriptors are closed and no longer registered, all other
  descriptors stay open and registered as they were, and their events are left alone.\<close>

theorem heartbeat_closes_exactly_the_idle:
  assumes "hb_inv s" and "checkpos \<le> 1024" and "hb_beat 100 now checkpos s = (pos', s')"
  shows "hb_inv s' \<and> pos' \<le> 1024 \<and> pos' mod 1024 = (checkpos + 100) mod 1024 \<and>
    set (k_open (s_kernel s')) = set (k_open (s_kernel s)) - {fd. idle now s fd \<and> (\<exists>j<100. nat fd = (checkpos + j) mod 1024)} \<and>
    (\<forall>fd. interest s' fd = (if idle now s fd \<and> (\<exists>j<100. nat fd = (checkpos + j) mod 1024) then None else interest s fd)) \<and>
    (\<forall>fd. interest s' fd \<noteq> None \<longrightarrow> ev_at s' (slot_of fd) = ev_at s (slot_of fd))"
proof -
  have "nat fd \<in> set (visits 100 checkpos) \<longleftrightarrow> (\<exists>j<100. nat fd = (checkpos + j) mod 1024)" for fd
    using visits_mod [OF assms(2), of 100] by auto
  then show ?thesis using hb_beat_effect [OF assms] by simp
qed

section \<open>Eleven rounds\<close>

text \<open>Rounds in which \<open>epoll_wait\<close> fails or reports nothing.\<close>

fun beats :: "int list \<Rightarrow> nat \<Rightarrow> hb_event server \<Rightarrow> nat \<times> hb_event server" where
  "beats [] checkpos s = (checkpos, s)"
| "beats (t # ts) checkpos s = (case hb_beat 100 t checkpos s of (pos, s1) \<Rightarrow> beats ts pos s1)"

lemma hb_rounds_quiet: "hb_rounds (map (\<lambda>t. (t, None)) ts) checkpos s = Some (snd (beats ts checkpos s))"
  by (induction ts arbitrary: checkpos s) (simp_all split: prod.split)

lemma beats_close:
  assumes "hb_inv s" and "checkpos \<le> 1024" and "\<forall>t\<in>set ts. idle t s fd" and "nat fd = (checkpos + j) mod 1024" and "j < 100 * length ts"
  shows "interest (snd (beats ts checkpos s)) fd = None \<and> fd \<notin> set (k_open (s_kernel (snd (beats ts checkpos s))))"
  using assms
proof (induction ts arbitrary: checkpos s j)
  case (Cons t ts)
  obtain pos s1 where b: "hb_beat 100 t checkpos s = (pos, s1)" by fastforce
  note eff = hb_beat_effect [OF Cons.prems(1,2) b]
  have inv1: "hb_inv s1" and p1: "pos \<le> 1024" "pos mod 1024 = (checkpos + 100) mod 1024" using eff by simp_all
  have gone: "interest (snd (beats ts q r)) fd = None \<and> fd \<notin> set (k_open (s_kernel (snd (beats ts q r))))"
    if "hb_inv r" "q \<le> 1024" "interest r fd = None" "fd \<notin> set (k_open (s_kernel r))" for ts q r
    using that
  proof (induction ts arbitrary: q r)
    case (Cons t ts)
    obtain q' r' where b: "hb_beat 100 t q r = (q', r')" by fastforce
    from hb_beat_effect [OF Cons.prems(1,2) b] Cons.prems(3,4) show ?case using Cons.IH [of r' q'] b by simp
  qed simp
  show ?case
  proof (cases "interest s1 fd = None")
    case True
    moreover have "idle t s fd" using Cons.prems(3) by simp
    moreover from this have "interest s fd \<noteq> None" by (simp add: idle_def)
    ultimately have "fd \<notin> set (k_open (s_kernel s1))" using eff by (auto split: if_splits)
    then show ?thesis using gone [OF inv1 p1(1) True] b by simp
  next
    case False
    then have e: "ev_at s1 (slot_of fd) = ev_at s (slot_of fd)" and nv: "nat fd \<notin> set (visits 100 checkpos)"
      using eff Cons.prems(3) by auto
    then have j: "100 \<le> j" using visits_mod [OF Cons.prems(2), of 100] Cons.prems(4) by (force simp: not_le)
    have "(pos + (j - 100)) mod 1024 = (pos mod 1024 + (j - 100)) mod 1024" by (simp add: mod_add_left_eq)
    also have "\<dots> = (checkpos + 100 + (j - 100)) mod 1024" unfolding p1(2) by (simp only: mod_add_left_eq)
    finally have n: "nat fd = (pos + (j - 100)) mod 1024" using Cons.prems(4) j by simp
    have id: "\<forall>t\<in>set ts. idle t s1 fd" using Cons.prems(3) False e by (auto simp: idle_def)
    have "j - 100 < 100 * length ts" using Cons.prems(5) j by simp
    from Cons.IH [OF inv1 p1(1) id n this] show ?thesis using b by simp
  qed
qed simp

lemma heartbeat_idle_lemma:
  assumes "hb_inv s" and "checkpos \<le> 1024" and "length ts = 11" and "\<forall>t\<in>set ts. idle t s fd"
  shows "\<exists>s'. hb_rounds (map (\<lambda>t. (t, None)) ts) checkpos s = Some s' \<and> interest s' fd = None \<and>
    fd \<notin> set (k_open (s_kernel s'))"
proof -
  have "ts \<noteq> []" using assms(3) by auto
  then have "idle (hd ts) s fd" using assms(4) by simp
  then have fd: "nat fd < 1024" using hb_inv_below [OF assms(1), of fd] by (auto simp: idle_def)
  define j where "j = (if checkpos \<le> nat fd then nat fd - checkpos else nat fd + 1024 - checkpos)"
  have "nat fd = (checkpos + j) mod 1024" "j < 100 * length ts" using fd assms(2,3) by (auto simp: j_def)
  from beats_close [OF assms(1,2,4) this] show ?thesis by (simp add: hb_rounds_quiet)
qed

text \<open>C33: whatever position the heartbeat is at, eleven rounds in which nothing happens close every connection that is idle,
  other than number 3: its descriptor is no longer registered and no longer open.\<close>

theorem heartbeat_finds_the_idle:
  assumes "hb_inv s" and "checkpos \<le> 1024" and "length ts = 11" and "\<forall>t\<in>set ts. idle t s fd"
  shows "\<exists>s'. hb_rounds (map (\<lambda>t. (t, None)) ts) checkpos s = Some s' \<and> interest s' fd = None \<and>
    fd \<notin> set (k_open (s_kernel s'))"
  by (rule heartbeat_idle_lemma [OF assms])

section \<open>The loop\<close>

fun hb_rounds_ok :: "(int \<times> ((slot \<times> 32 word) \<times> int) list option) list \<Rightarrow> nat \<Rightarrow> hb_event server \<Rightarrow> bool" where
  "hb_rounds_ok [] checkpos s = True"
| "hb_rounds_ok ((now, w) # ws) checkpos s =
    (case hb_beat 100 now checkpos s of (pos, s1) \<Rightarrow>
       (case w of
          None \<Rightarrow> hb_rounds_ok ws pos s1
        | Some rs \<Rightarrow> ready_ok (map fst rs) s1 \<and> (case hb_ready rs s1 of None \<Rightarrow> True | Some s2 \<Rightarrow> hb_rounds_ok ws pos s2)))"

lemma call_sync:
  assumes ok: "reactor_ok s" and i: "interest s fd = Some (p, e)" and c: "call_if bits (hb_handlers now) (p, evs) s = Some s'" and sy: "hb_sync s"
  shows "hb_sync s' \<and> length (evblk (s_reactor s')) = length (evblk (s_reactor s))"
proof (cases "evs AND bits \<noteq> 0 \<and> ev_events (ev_at s p) AND bits \<noteq> 0")
  case True
  have a: "ev_fd (ev_at s p) = fd" "ev_arg (ev_at s p)" using reactor_okD(2) [OF ok i] by (auto simp: armed_def)
  obtain r where h: "hb_handlers now (ev_callback (ev_at s p)) fd evs True s = Some (r, s')"
    using c a True by (auto simp: call_if_def Let_def)
  show ?thesis
    using h hb_recv_keeps [OF ok i] hb_send_keeps [OF ok i] hb_accept_keeps [OF ok] hb_keeps_sync [OF _ sy reactor_okD(4) [OF ok i]] sy
    by (cases "ev_callback (ev_at s p)") (auto simp: hb_keeps_def)
next
  case False
  then show ?thesis using c sy by (auto simp: call_if_def Let_def)
qed

lemma hb_ready_inv: "hb_inv s \<Longrightarrow> ready_ok (map fst rs) s \<Longrightarrow> hb_ready rs s = Some s' \<Longrightarrow> hb_inv s'"
proof (induction rs arbitrary: s)
  case (Cons r rs)
  obtain p evs now where r: "r = ((p, evs), now)" by (metis surj_pair)
  obtain s1 s2 where c: "call_if EPOLLIN (hb_handlers now) (p, evs) s = Some s1" "call_if EPOLLOUT (hb_handlers now) (p, evs) s1 = Some s2"
    "hb_ready rs s2 = Some s'" using Cons.prems(3) by (auto simp: r bind_Some_iff)
  have ok: "reactor_ok s" and sy: "hb_sync s" and one: "length (evblk (s_reactor s)) = 1" using Cons.prems(1) by (simp_all add: hb_inv_def)
  have rd: "ready_ok ((p, evs) # map fst rs) s" using Cons.prems(2) by (simp add: r)
  obtain fd e where i: "interest s fd = Some (p, e)" and m: "evs AND EPOLLIN \<noteq> 0 \<longrightarrow> e = EPOLLIN" "evs AND EPOLLOUT \<noteq> 0 \<longrightarrow> e = EPOLLOUT"
    using rd by (auto simp: ready_ok_def)
  have "hb_sync s2 \<and> length (evblk (s_reactor s2)) = 1"
  proof (cases "evs AND EPOLLIN = 0")
    case True
    then have "s1 = s" using c(1) hb.call_skip by simp
    then show ?thesis using call_sync [OF ok i _ sy] c(2) one by auto
  next
    case False
    then have "evs AND EPOLLOUT = 0" using m by auto
    then have "s2 = s1" using c(2) hb.call_skip by simp
    then show ?thesis using call_sync [OF ok i c(1) sy] one by auto
  qed
  then show ?case using hb.ready_step [OF ok rd c(1,2)] Cons.IH c(3) by (auto simp: hb_inv_def)
qed simp

text \<open>heartbeats and callbacks together keep the invariant: after any number of rounds a set status means a registered
  event, and each registered descriptor is open, below 1024 and served by the right callback.\<close>

theorem hb_run_keeps_invariant:
  assumes "hb_inv s" and "hb_rounds_ok ws 0 s" and "hb_run ws s = Some (Inr s')"
  shows "hb_inv s'"
proof -
  have "hb_inv s \<Longrightarrow> pos \<le> 1024 \<Longrightarrow> hb_rounds_ok ws pos s \<Longrightarrow> hb_rounds ws pos s = Some s' \<Longrightarrow> hb_inv s'" for pos
  proof (induction ws arbitrary: pos s)
    case (Cons r ws)
    obtain now w where r: "r = (now, w)" by fastforce
    obtain q s1 where b: "hb_beat 100 now pos s = (q, s1)" by fastforce
    have inv1: "hb_inv s1" and q: "q \<le> 1024" using hb_beat_effect [OF Cons.prems(1,2) b] by simp_all
    show ?case
    proof (cases w)
      case None
      then show ?thesis using Cons.IH [OF inv1 q] Cons.prems(3,4) b r by simp
    next
      case (Some rs)
      then obtain s2 where s2: "hb_ready rs s1 = Some s2" "hb_rounds ws q s2 = Some s'" using Cons.prems(4) b r by (auto simp: bind_Some_iff)
      then have "ready_ok (map fst rs) s1" "hb_rounds_ok ws q s2" using Cons.prems(3) Some b r by simp_all
      then show ?thesis using Cons.IH [OF hb_ready_inv [OF inv1 _ s2(1)] q] s2(2) by simp
    qed
  qed simp
  then show ?thesis using assms by (auto simp: hb_run_def split: if_splits)
qed

section \<open>Descriptors\<close>

text \<open>a listening socket is told from connections by the number 3: any other is closed after a minute.\<close>

theorem heartbeat_closes_listener:
  assumes "hb_inv s" and "0 \<le> fd" "fd < 1024" "fd \<noteq> 3" and "fd \<in> set (k_open (s_kernel s))" and "interest s fd = None" and "fd \<noteq> epfd (s_reactor s)"
    and "length ts = 11" and "\<forall>t\<in>set ts. t0 + 60 \<le> t"
  shows "\<exists>s1 s2. hb_addlistener t0 fd AcceptCB s = Some (0, s1) \<and> interest s1 fd = Some (slot_of fd, EPOLLIN) \<and>
    hb_rounds (map (\<lambda>t. (t, None)) ts) 0 s1 = Some s2 \<and> interest s2 fd = None \<and> fd \<notin> set (k_open (s_kernel s2))"
proof -
  have ok: "reactor_ok s" and sy: "hb_sync s" and one: "length (evblk (s_reactor s)) = 1" using assms(1) by (simp_all add: hb_inv_def)
  define s1 where "s1 = snd (nty_event_add EPOLLIN (slot_of fd) (upd_ev (slot_of fd) (hb_event_set t0 fd AcceptCB True) s))"
  have "fits EPOLLIN AcceptCB" by (simp add: fits_def)
  note reg = hb_register [OF ok assms(6,2,3,7) this s1_def]
  have r2: "hb_sync s1" "interest s1 fd = Some (slot_of fd, EPOLLIN)" "last_active (ev_at s1 (slot_of fd)) = t0"
    using reg(2) [OF sy assms(5)] by (simp_all add: hb_event_set_def)
  have inv1: "hb_inv s1" using reg(1) r2(1) one by (simp add: hb_inv_def)
  have "hb_slot fd = Some (slot_of fd)" using assms(2,3) by (simp add: hb_slot_of)
  moreover have "evblk (s_reactor s) \<noteq> []" using one by auto
  ultimately have a: "hb_addlistener t0 fd AcceptCB s = Some (0, s1)" by (simp add: hb_addlistener_def s1_def)
  have "\<forall>t\<in>set ts. idle t s1 fd" using assms(4,9) r2(2,3) by (auto simp: idle_def)
  from heartbeat_idle_lemma [OF inv1 _ assms(8) this, of 0] show ?thesis using a r2(2) by auto
qed

text \<open>the array has 1024 events and the number of a new connection is not compared with it: the event of
  connection 1024 is written behind it.\<close>

theorem hb_many_connections_overflow:
  assumes "accept_conn fd (s_kernel s) = (c, k)" and "1024 \<le> c" and "k_fcntl k c"
  shows "hb_accept_cb now fd True s = None"
  using assms by (simp add: hb_accept_cb_def hb_slot_def)

section \<open>Samples\<close>

definition hb_sample :: "hb_event server" where
  "hb_sample = \<lparr>s_reactor = \<lparr>epfd = 4, blkcnt = 1, evblk = [\<lambda>i.
       if i = 3 then hb_zero\<lparr>ev_fd := 3, ev_callback := AcceptCB, ev_arg := True, ev_events := EPOLLIN, ev_status := 1, last_active := 100\<rparr>
       else if i = 5 then hb_zero\<lparr>ev_fd := 5, ev_callback := RecvCB, ev_arg := True, ev_events := EPOLLIN, ev_status := 1, last_active := 100\<rparr>
       else hb_zero]\<rparr>,
     s_kernel = \<lparr>k_open = [0, 1, 2, 3, 4, 5, 6], k_interest = [3 \<mapsto> ((0, 3), EPOLLIN), 5 \<mapsto> ((0, 5), EPOLLIN)], k_backlog = (\<lambda>_. []),
       k_fcntl = (\<lambda>_. True), k_conn = (\<lambda>_. \<lparr>c_in = [], c_eof = False, c_room = 0\<rparr>), k_out = (\<lambda>_. [])\<rparr>,
     s_malloc = (\<lambda>_. True), s_calls = 1, s_live = 1\<rparr>"

lemma hb_sample_inv: "hb_inv hb_sample"
proof -
  have "hb_sync hb_sample"
    by (auto simp: hb_sync_def hb_sample_def ev_at_def slot_of_def hb_zero_def nat_eq_iff split: if_splits)
  moreover have "reactor_ok hb_sample"
    by (auto simp: reactor_ok_def hb_sample_def table_ok_def armed_def ev_at_def slot_of_def fits_def split: if_splits)
  ultimately show ?thesis by (simp add: hb_inv_def) (simp add: hb_sample_def)
qed

lemma hb_sample_idle: "160 \<le> t \<Longrightarrow> idle t hb_sample 5" "\<not> idle t hb_sample 3" "interest hb_sample 3 \<noteq> None"
  by (simp_all add: idle_def hb_sample_def ev_at_def slot_of_def)

theorem heartbeat_closes_exactly_the_idle_witness:
  "\<exists>pos' s'. hb_beat 100 200 0 hb_sample = (pos', s') \<and> interest s' 5 = None \<and> interest s' 3 = interest hb_sample 3 \<and>
    5 \<notin> set (k_open (s_kernel s')) \<and> 3 \<in> set (k_open (s_kernel s'))"
proof -
  obtain pos' s' where b: "hb_beat 100 200 0 hb_sample = (pos', s')" by fastforce
  have "\<exists>j<100. nat 5 = (0 + j) mod (1024 :: nat)" by (rule exI [of _ 5]) simp
  then show ?thesis using heartbeat_closes_exactly_the_idle [OF hb_sample_inv _ b] b hb_sample_idle(1) [of 200] hb_sample_idle(2) [of 200]
    by (simp add: hb_sample_def)
qed

theorem heartbeat_finds_the_idle_witness:
  "\<exists>s'. hb_rounds (map (\<lambda>t. (t, None)) (replicate 11 200)) 1000 hb_sample = Some s' \<and> interest s' 5 = None \<and>
    5 \<notin> set (k_open (s_kernel s'))"
  by (rule heartbeat_finds_the_idle [OF hb_sample_inv]) (simp_all add: hb_sample_idle)

theorem hb_run_keeps_invariant_witness: "\<exists>s'. hb_run [(200, None), (300, Some [])] hb_sample = Some (Inr s') \<and> hb_inv s'"
proof -
  have ok: "hb_rounds_ok [(200, None), (300, Some [])] 0 hb_sample" by (auto simp: ready_ok_def split: prod.split)
  obtain s' where r: "hb_rounds [(200, None), (300, Some [])] 0 hb_sample = Some s'"
    by (cases "hb_beat 100 200 0 hb_sample"; cases "hb_beat 100 300 (fst (hb_beat 100 200 0 hb_sample)) (snd (hb_beat 100 200 0 hb_sample))") auto
  have "hb_run [(200, None), (300, Some [])] hb_sample = Some (Inr s')"
    unfolding hb_run_def r by (simp add: hb_sample_def)
  then show ?thesis using hb_run_keeps_invariant [OF hb_sample_inv ok] by blast
qed

theorem heartbeat_closes_listener_witness:
  "\<exists>s1 s2. hb_addlistener 100 6 AcceptCB hb_sample = Some (0, s1) \<and> interest s1 6 = Some (slot_of 6, EPOLLIN) \<and>
    hb_rounds (map (\<lambda>t. (t, None)) (replicate 11 160)) 0 s1 = Some s2 \<and> interest s2 6 = None \<and> 6 \<notin> set (k_open (s_kernel s2))"
  by (rule heartbeat_closes_listener [OF hb_sample_inv]) (simp_all add: hb_sample_def)

theorem hb_many_connections_overflow_witness:
  "hb_accept_cb 0 3 True (hb_sample\<lparr>s_kernel := (s_kernel hb_sample)\<lparr>k_open := map int [0..<1024],
     k_backlog := (\<lambda>_. [\<lparr>c_in = [], c_eof = False, c_room = 0\<rparr>])\<rparr>\<rparr>) = None"
proof -
  let ?s = "hb_sample\<lparr>s_kernel := (s_kernel hb_sample)\<lparr>k_open := map int [0..<1024], k_backlog := (\<lambda>_. [\<lparr>c_in = [], c_eof = False, c_room = 0\<rparr>])\<rparr>\<rparr>"
  obtain c k where a: "accept_conn 3 (s_kernel ?s) = (c, k)" by fastforce
  have c: "c = fresh_fd (map int [0..<1024])" and f: "k_fcntl k c" using a by (auto simp: accept_conn_def Let_def hb_sample_def)
  have "int ` {0..<1024} = {0..<1024}" by (simp add: image_int_atLeastLessThan)
  then have "1024 \<le> c" using fresh_fd_new [of "map int [0..<1024]"] unfolding c by auto
  from hb_many_connections_overflow [OF a this f] show ?thesis .
qed

end
