(* ===== verification/EpollMulti.thy ===== *)
theory EpollMulti
  imports Reactor_Turn
begin

text \<open>
  The reactor of \<open>2.1.2reactor/epoll_reactor_mulcb.c\<close>: a singleton that is created on the first use, an
  item per descriptor with a callback for each kind of event, and an echo server on it. The kernel is
  that of \<open>Reactor\<close>.
\<close>

section \<open>State\<close>

abbreviation (input) ITEM_BUFFER :: nat where
  "ITEM_BUFFER \<equiv> 1024"

datatype event_kind = NOSET_CB | READ_CB | WRITE_CB | ACCEPT_CB

record nitem =
  it_fd :: int
  it_events :: event_kind
  it_read_cb :: callback
  it_write_cb :: callback
  it_accept_cb :: callback
  it_sbuffer :: "byte list"
  it_slength :: int
  it_rbuffer :: "byte list"

definition item_zero :: nitem where
  "item_zero = \<lparr>it_fd = 0, it_events = NOSET_CB, it_read_cb = NoCB, it_write_cb = NoCB, it_accept_cb = NoCB,
     it_sbuffer = replicate ITEM_BUFFER 0, it_slength = 0, it_rbuffer = replicate ITEM_BUFFER 0\<rparr>"

text \<open>The pointer to the reactor: null, to the reactor, or to freed memory. \<open>m_malloc\<close> gives the outcome of each
  call of \<open>malloc\<close>, \<open>m_epoll\<close> that of \<open>epoll_create\<close>.\<close>

datatype inst = NoInstance | Live | Freed

record mserver =
  m_instance :: inst
  m_epfd :: int
  m_items :: "nat \<Rightarrow> nitem"
  m_kernel :: kernel
  m_malloc :: "nat \<Rightarrow> bool"
  m_calls :: nat
  m_epoll :: bool

section \<open>The singleton\<close>

definition m_alloc :: "mserver \<Rightarrow> bool \<times> mserver" where
  "m_alloc s = (m_malloc s (m_calls s), s\<lparr>m_calls := Suc (m_calls s)\<rparr>)"

definition init_reactor :: "mserver \<Rightarrow> int \<times> mserver" where
  "init_reactor s =
    (let ep = (if m_epoll s then fresh_fd (k_open (m_kernel s)) else - 1);
         s0 = s\<lparr>m_epfd := ep, m_kernel := (if m_epoll s then (m_kernel s)\<lparr>k_open := ep # k_open (m_kernel s)\<rparr> else m_kernel s)\<rparr>
     in case m_alloc s0 of (ok, s1) \<Rightarrow>
       if \<not> ok then (- 2, s1\<lparr>m_kernel := close_fd ep (m_kernel s1)\<rparr>)
       else case m_alloc s1 of (ok2, s2) \<Rightarrow>
         if \<not> ok2 then (- 2, s2\<lparr>m_kernel := close_fd ep (m_kernel s2)\<rparr>)
         else (0, s2\<lparr>m_items := \<lambda>_. item_zero\<rparr>))"

definition getInstance :: "mserver \<Rightarrow> inst \<times> mserver" where
  "getInstance s =
    (if m_instance s = NoInstance then
       (case m_alloc s of (ok, s1) \<Rightarrow>
          if \<not> ok then (NoInstance, s1)
          else case init_reactor s1 of (r, s2) \<Rightarrow>
            if r < 0 then (NoInstance, s2\<lparr>m_instance := Freed\<rparr>) else (Live, s2\<lparr>m_instance := Live\<rparr>))
     else (m_instance s, s))"

text \<open>Every user of the pointer reads through it at once.\<close>

definition the_reactor :: "mserver \<Rightarrow> mserver option" where
  "the_reactor s = (case getInstance s of (r, s1) \<Rightarrow> if r = Live then Some s1 else None)"

definition item_of :: "int \<Rightarrow> nat option" where
  "item_of fd = (if 0 \<le> fd \<and> fd < 1024 then Some (nat fd) else None)"

definition upd_item :: "nat \<Rightarrow> (nitem \<Rightarrow> nitem) \<Rightarrow> mserver \<Rightarrow> mserver" where
  "upd_item i f s = s\<lparr>m_items := (m_items s)(i := f (m_items s i))\<rparr>"

section \<open>Events\<close>

definition event_bits :: "event_kind \<Rightarrow> 32 word" where
  "event_bits k = (case k of READ_CB \<Rightarrow> EPOLLIN | WRITE_CB \<Rightarrow> EPOLLOUT | ACCEPT_CB \<Rightarrow> EPOLLIN | NOSET_CB \<Rightarrow> 0)"

definition reactor_set_event :: "int \<Rightarrow> callback \<Rightarrow> event_kind \<Rightarrow> mserver \<Rightarrow> (int \<times> mserver) option" where
  "reactor_set_event fd cb event s = do {
     s0 \<leftarrow> the_reactor s;
     i \<leftarrow> item_of fd;
     let s1 = upd_item i (\<lambda>it. it\<lparr>it_fd := fd\<rparr>) s0;
     let s2 = upd_item i (\<lambda>it. case event of
         READ_CB \<Rightarrow> it\<lparr>it_read_cb := cb\<rparr> | WRITE_CB \<Rightarrow> it\<lparr>it_write_cb := cb\<rparr> | ACCEPT_CB \<Rightarrow> it\<lparr>it_accept_cb := cb\<rparr> | NOSET_CB \<Rightarrow> it) s1;
     let ctl = (\<lambda>opn. case epoll_ctl (m_epfd s2) opn fd (0, i) (event_bits event) (m_kernel s2) of (r, k) \<Rightarrow>
         if r < 0 then (- 1, s2\<lparr>m_kernel := k\<rparr>) else (0, upd_item i (\<lambda>it. it\<lparr>it_events := event\<rparr>) (s2\<lparr>m_kernel := k\<rparr>)));
     Some (if it_events (m_items s2 i) = NOSET_CB then ctl EPOLL_CTL_ADD
       else if it_events (m_items s2 i) \<noteq> event then ctl EPOLL_CTL_MOD
       else (0, s2)) }"

definition reactor_del_event :: "int \<Rightarrow> mserver \<Rightarrow> (int \<times> mserver) option" where
  "reactor_del_event fd s = do {
     s0 \<leftarrow> the_reactor s;
     i \<leftarrow> item_of fd;
     let k = snd (epoll_ctl (m_epfd s0) EPOLL_CTL_DEL fd (0, i) 0 (m_kernel s0));
     Some (0, upd_item i (\<lambda>it. it\<lparr>it_events := NOSET_CB\<rparr>) (s0\<lparr>m_kernel := k\<rparr>)) }"

section \<open>The callbacks\<close>

definition accept_callback :: "int \<Rightarrow> mserver \<Rightarrow> mserver option" where
  "accept_callback listenfd s = (case accept_conn listenfd (m_kernel s) of (connfd, k) \<Rightarrow>
     if connfd = - 1 then Some s
     else map_option snd (reactor_set_event connfd RecvCB READ_CB (s\<lparr>m_kernel := k\<rparr>)))"

text \<open>What arrived is printed as a string, up to a null byte in the buffer.\<close>

definition read_callback :: "int \<Rightarrow> mserver \<Rightarrow> mserver option" where
  "read_callback fd s = do {
     s0 \<leftarrow> the_reactor s;
     i \<leftarrow> item_of fd;
     (case recv_bytes fd ITEM_BUFFER (m_kernel s0) of
        (None, k) \<Rightarrow> Some (s0\<lparr>m_kernel := k\<rparr>)
      | (Some [], k) \<Rightarrow> do {
          (r, s1) \<leftarrow> reactor_del_event fd (s0\<lparr>m_kernel := k\<rparr>);
          Some (s1\<lparr>m_kernel := close_fd fd (m_kernel s1)\<rparr>) }
      | (Some bs, k) \<Rightarrow> do {
          rb \<leftarrow> write_at 0 bs (it_rbuffer (m_items s0 i));
          sb \<leftarrow> write_at 0 bs (it_sbuffer (m_items s0 i));
          printed \<leftarrow> c_string sb;
          let s1 = upd_item i (\<lambda>it. it\<lparr>it_rbuffer := rb, it_sbuffer := sb, it_slength := int (length bs)\<rparr>) (s0\<lparr>m_kernel := k\<rparr>);
          map_option snd (reactor_set_event fd SendCB WRITE_CB s1) }) }"

definition write_callback :: "int \<Rightarrow> mserver \<Rightarrow> mserver option" where
  "write_callback fd s = do {
     s0 \<leftarrow> the_reactor s;
     i \<leftarrow> item_of fd;
     let len = it_slength (m_items s0 i);
     bs \<leftarrow> (if len < 0 then None else read_at 0 (nat len) (it_sbuffer (m_items s0 i)));
     let (ret, k) = send_bytes fd bs (m_kernel s0);
     let s1 = s0\<lparr>m_kernel := k\<rparr>;
     map_option snd (if ret < len then reactor_set_event fd SendCB WRITE_CB s1 else reactor_set_event fd RecvCB READ_CB s1) }"

fun run_callback :: "callback \<Rightarrow> int \<Rightarrow> mserver \<Rightarrow> mserver option" where
  "run_callback NoCB fd s = None"
| "run_callback RecvCB fd s = read_callback fd s"
| "run_callback SendCB fd s = write_callback fd s"
| "run_callback AcceptCB fd s = accept_callback fd s"

section \<open>The loop\<close>

text \<open>One ready item: its number and what it is ready for.\<close>

definition react :: "int \<Rightarrow> nat \<times> 32 word \<Rightarrow> mserver \<Rightarrow> mserver option" where
  "react listenfd r s =
    (let i = fst r; fd = it_fd (m_items s i)
     in if fd = listenfd then run_callback (it_accept_cb (m_items s i)) fd s
        else do {
          s1 \<leftarrow> (if snd r AND EPOLLIN \<noteq> 0 then run_callback (it_read_cb (m_items s i)) fd s else Some s);
          (if snd r AND EPOLLOUT \<noteq> 0 then run_callback (it_write_cb (m_items s1 i)) fd s1 else Some s1) })"

fun react_all :: "int \<Rightarrow> (nat \<times> 32 word) list \<Rightarrow> mserver \<Rightarrow> mserver option" where
  "react_all listenfd [] s = Some s"
| "react_all listenfd (r # rs) s = react listenfd r s \<bind> react_all listenfd rs"

text \<open>The results of \<open>epoll_wait\<close>, an error or the ready items.\<close>

fun reactor_loop :: "int \<Rightarrow> (nat \<times> 32 word) list option list \<Rightarrow> mserver \<Rightarrow> mserver option" where
  "reactor_loop listenfd [] s = Some s"
| "reactor_loop listenfd (None # ws) s = reactor_loop listenfd ws s"
| "reactor_loop listenfd (Some rs # ws) s = react_all listenfd rs s \<bind> reactor_loop listenfd ws"

text \<open>\<open>init_server\<close>: the results of \<open>socket\<close>, \<open>bind\<close> and \<open>listen\<close>; 0 stands for a failure.\<close>

definition init_server :: "bool \<Rightarrow> bool \<Rightarrow> bool \<Rightarrow> mserver \<Rightarrow> int \<times> mserver" where
  "init_server created bound listens s =
    (if \<not> created then (0, s)
     else let fd = fresh_fd (k_open (m_kernel s)); s1 = s\<lparr>m_kernel := (m_kernel s)\<lparr>k_open := fd # k_open (m_kernel s)\<rparr>\<rparr>
       in if \<not> bound then (0, s1) else if \<not> listens then (0, s1) else (fd, s1))"

text \<open>\<open>main\<close>, with \<open>ws\<close> for the results of \<open>epoll_wait\<close>.\<close>

definition multi_main :: "bool \<Rightarrow> bool \<Rightarrow> bool \<Rightarrow> (nat \<times> 32 word) list option list \<Rightarrow> mserver \<Rightarrow> (int + mserver) option" where
  "multi_main created bound listens ws s =
    (case init_server created bound listens s of (listenfd, s1) \<Rightarrow>
       if listenfd = 0 then Some (Inl (- 1))
       else do {
         (r, s2) \<leftarrow> reactor_set_event listenfd AcceptCB ACCEPT_CB s1;
         s3 \<leftarrow> the_reactor s2;
         map_option Inr (reactor_loop listenfd ws s3) })"

section \<open>The invariant\<close>

text \<open>What the kernel waits for is what the items say, at their place; items that are set carry their descriptor and
  the callback for what they are set to, and buffers have their size.\<close>

definition item_interest :: "mserver \<Rightarrow> int \<Rightarrow> (slot \<times> 32 word) option" where
  "item_interest s fd = (if 0 \<le> fd \<and> fd < 1024 \<and> it_events (m_items s (nat fd)) \<noteq> NOSET_CB
     then Some ((0, nat fd), event_bits (it_events (m_items s (nat fd)))) else None)"

definition item_ok :: "nat \<Rightarrow> nitem \<Rightarrow> bool" where
  "item_ok i it \<longleftrightarrow> length (it_sbuffer it) = ITEM_BUFFER \<and> length (it_rbuffer it) = ITEM_BUFFER \<and> 0 \<le> it_slength it \<and>
     it_slength it \<le> int ITEM_BUFFER \<and>
     (it_events it \<noteq> NOSET_CB \<longrightarrow> it_fd it = int i) \<and> (it_events it = READ_CB \<longrightarrow> it_read_cb it = RecvCB) \<and>
     (it_events it = WRITE_CB \<longrightarrow> it_write_cb it = SendCB) \<and> (it_events it = ACCEPT_CB \<longrightarrow> it_accept_cb it = AcceptCB)"

definition m_ok :: "mserver \<Rightarrow> bool" where
  "m_ok s \<longleftrightarrow> m_instance s = Live \<and> m_epfd s \<in> set (k_open (m_kernel s)) \<and> k_interest (m_kernel s) = item_interest s \<and>
     (\<forall>i<1024. item_ok i (m_items s i)) \<and>
     (\<forall>fd. item_interest s fd \<noteq> None \<longrightarrow> fd \<in> set (k_open (m_kernel s)) \<and> fd \<noteq> m_epfd s)"

lemma the_reactor_live [simp]: "m_instance s = Live \<Longrightarrow> the_reactor s = Some s"
  by (simp add: the_reactor_def getInstance_def)

end
