(* ===== verification/EpollMulti_Props.thy ===== *)
theory EpollMulti_Props
  imports EpollMulti
begin

text \<open>
  What the kernel waits for is always what the items say; what the echo server sends back; and where it
  fails: partial sends, broken connections, an allocation that fails.
\<close>

section \<open>Setting and deleting events\<close>

fun right_cb :: "event_kind \<Rightarrow> callback" where
  "right_cb READ_CB = RecvCB"
| "right_cb WRITE_CB = SendCB"
| "right_cb ACCEPT_CB = AcceptCB"
| "right_cb NOSET_CB = NoCB"

definition set_item :: "int \<Rightarrow> event_kind \<Rightarrow> nitem \<Rightarrow> nitem" where
  "set_item fd event it = (case event of
     READ_CB \<Rightarrow> it\<lparr>it_fd := fd, it_read_cb := RecvCB, it_events := READ_CB\<rparr>
   | WRITE_CB \<Rightarrow> it\<lparr>it_fd := fd, it_write_cb := SendCB, it_events := WRITE_CB\<rparr>
   | ACCEPT_CB \<Rightarrow> it\<lparr>it_fd := fd, it_accept_cb := AcceptCB, it_events := ACCEPT_CB\<rparr>
   | NOSET_CB \<Rightarrow> it\<lparr>it_fd := fd\<rparr>)"

lemma set_item_events [simp]: "event \<noteq> NOSET_CB \<Longrightarrow> it_events (set_item fd event it) = event"
  by (cases event) (simp_all add: set_item_def)

lemma set_item_ok: "item_ok i it \<Longrightarrow> event \<noteq> NOSET_CB \<Longrightarrow> item_ok i (set_item (int i) event it)"
  by (cases event) (simp_all add: set_item_def item_ok_def)

lemma set_item_data [simp]:
  "it_sbuffer (set_item fd event it) = it_sbuffer it" "it_slength (set_item fd event it) = it_slength it" "it_rbuffer (set_item fd event it) = it_rbuffer it"
  by (cases event; simp add: set_item_def)+

text \<open>What changing one item does to what the kernel should wait for.\<close>

lemma item_interest_upd:
  assumes "0 \<le> fd" and "fd < 1024"
  shows "item_interest (s\<lparr>m_items := (m_items s)(nat fd := it), m_kernel := k\<rparr>) =
    (item_interest s)(fd := if it_events it = NOSET_CB then None else Some ((0, nat fd), event_bits (it_events it)))"
  using assms by (rule_tac ext) (auto simp: item_interest_def nat_eq_iff)

lemma item_interest_kernel [simp]: "item_interest (s\<lparr>m_kernel := k\<rparr>) = item_interest s"
  by (rule ext) (simp add: item_interest_def)

lemma m_ok_open: "m_ok s \<Longrightarrow> item_interest s fd \<noteq> None \<Longrightarrow> fd \<in> set (k_open (m_kernel s)) \<and> fd \<noteq> m_epfd s"
  unfolding m_ok_def by blast

lemma set_event_ok:
  assumes ok: "m_ok s" and fd: "0 \<le> fd" "fd < 1024" and o: "fd \<in> set (k_open (m_kernel s))" "fd \<noteq> m_epfd s" and ev: "event \<noteq> NOSET_CB"
    and s': "s' = s\<lparr>m_items := (m_items s)(nat fd := set_item fd event (m_items s (nat fd))),
      m_kernel := (m_kernel s)\<lparr>k_interest := (k_interest (m_kernel s))(fd \<mapsto> ((0, nat fd), event_bits event))\<rparr>\<rparr>"
  shows "reactor_set_event fd (right_cb event) event s = Some (0, s')" and "m_ok s'"
    and "item_interest s' = (item_interest s)(fd \<mapsto> ((0, nat fd), event_bits event))"
proof -
  let ?it = "m_items s (nat fd)" and ?i = "nat fd"
  have live: "m_instance s = Live" and ep: "m_epfd s \<in> set (k_open (m_kernel s))" and ki: "k_interest (m_kernel s) = item_interest s"
    using ok by (simp_all add: m_ok_def)
  have io: "item_of fd = Some ?i" using fd by (simp add: item_of_def)
  have int: "k_interest (m_kernel s) fd = (if it_events ?it = NOSET_CB then None else Some ((0, ?i), event_bits (it_events ?it)))"
    unfolding ki using fd by (simp add: item_interest_def)
  have two: "upd_item ?i (\<lambda>it. case event of READ_CB \<Rightarrow> it\<lparr>it_read_cb := right_cb event\<rparr> | WRITE_CB \<Rightarrow> it\<lparr>it_write_cb := right_cb event\<rparr>
      | ACCEPT_CB \<Rightarrow> it\<lparr>it_accept_cb := right_cb event\<rparr> | NOSET_CB \<Rightarrow> it) (upd_item ?i (\<lambda>it. it\<lparr>it_fd := fd\<rparr>) s) =
      s\<lparr>m_items := (m_items s)(?i := (set_item fd event ?it)\<lparr>it_events := it_events ?it\<rparr>)\<rparr>"
    using ev by (cases event) (simp_all add: upd_item_def set_item_def)
  have fin: "(set_item fd event ?it)\<lparr>it_events := it_events ?it, it_events := event\<rparr> = set_item fd event ?it"
    using ev by (cases event) (simp_all add: set_item_def)
  define s2 where "s2 = s\<lparr>m_items := (m_items s)(?i := (set_item fd event ?it)\<lparr>it_events := it_events ?it\<rparr>)\<rparr>"
  have s2: "m_epfd s2 = m_epfd s" "m_kernel s2 = m_kernel s" "it_events (m_items s2 ?i) = it_events ?it" by (simp_all add: s2_def)
  define ctl where "ctl = (\<lambda>opn. case epoll_ctl (m_epfd s2) opn fd (0, ?i) (event_bits event) (m_kernel s2) of (r, k) \<Rightarrow>
    if r < 0 then (- 1 :: int, s2\<lparr>m_kernel := k\<rparr>) else (0, upd_item ?i (\<lambda>it. it\<lparr>it_events := event\<rparr>) (s2\<lparr>m_kernel := k\<rparr>)))"
  have eq: "reactor_set_event fd (right_cb event) event s =
    Some (if it_events ?it = NOSET_CB then ctl EPOLL_CTL_ADD else if it_events ?it \<noteq> event then ctl EPOLL_CTL_MOD else (0, s2))"
    using live io by (simp only: reactor_set_event_def the_reactor_live Option.bind.bind_lunit Let_def two s2_def [symmetric] s2(3) ctl_def)
  show "reactor_set_event fd (right_cb event) event s = Some (0, s')"
  proof (cases "it_events ?it = event")
    case False
    have "s' = upd_item ?i (\<lambda>it. it\<lparr>it_events := event\<rparr>)
        (s2\<lparr>m_kernel := (m_kernel s)\<lparr>k_interest := (k_interest (m_kernel s))(fd \<mapsto> ((0, ?i), event_bits event))\<rparr>\<rparr>)"
      using fin by (simp add: s' s2_def upd_item_def)
    then show ?thesis using False int ep o(1) by (simp add: eq ctl_def s2 epoll_ctl_def)
  next
    case True
    then have k: "(m_kernel s)\<lparr>k_interest := (k_interest (m_kernel s))(fd \<mapsto> ((0, ?i), event_bits event))\<rparr> = m_kernel s"
      using int ev by (simp add: fun_upd_idem)
    have "(set_item fd event ?it)\<lparr>it_events := event\<rparr> = set_item fd event ?it" using fin True by simp
    then have "s2 = s'" using True by (simp add: s2_def s' k)
    then show ?thesis using True ev by (simp add: eq)
  qed
  show ii: "item_interest s' = (item_interest s)(fd \<mapsto> ((0, nat fd), event_bits event))"
    unfolding s' item_interest_upd [OF fd] using ev by simp
  have "item_ok i (m_items s' i)" if "i < 1024" for i
  proof (cases "i = ?i")
    case True
    then show ?thesis using ok that ev fd set_item_ok [of ?i ?it event] by (simp add: m_ok_def s')
  qed (use ok that in \<open>simp add: m_ok_def s'\<close>)
  then show "m_ok s'" using ok o ii unfolding m_ok_def by (simp add: s')
qed

lemma del_event_ok:
  assumes ok: "m_ok s" and fd: "item_interest s fd \<noteq> None"
    and s': "s' = s\<lparr>m_items := (m_items s)(nat fd := (m_items s (nat fd))\<lparr>it_events := NOSET_CB\<rparr>),
      m_kernel := (m_kernel s)\<lparr>k_interest := (k_interest (m_kernel s))(fd := None)\<rparr>\<rparr>"
  shows "reactor_del_event fd s = Some (0, s')" and "m_ok s'" and "item_interest s' = (item_interest s)(fd := None)"
proof -
  have b: "0 \<le> fd" "fd < 1024" using fd by (auto simp: item_interest_def split: if_splits)
  have live: "m_instance s = Live" and ep: "m_epfd s \<in> set (k_open (m_kernel s))" and ki: "k_interest (m_kernel s) = item_interest s"
    and o: "fd \<in> set (k_open (m_kernel s))"
    using ok m_ok_open [OF ok fd] by (simp_all add: m_ok_def)
  have "k_interest (m_kernel s) fd \<noteq> None" using fd ki by metis
  then obtain y where "k_interest (m_kernel s) fd = Some y" by blast
  then show "reactor_del_event fd s = Some (0, s')" using live ep o b s'
    by (simp add: reactor_del_event_def item_of_def epoll_ctl_def Let_def upd_item_def)
  show ii: "item_interest s' = (item_interest s)(fd := None)" unfolding s' item_interest_upd [OF b] by simp
  have "item_ok i (m_items s' i)" if "i < 1024" for i
    using ok that by (cases "i = nat fd") (simp_all add: m_ok_def s' item_ok_def)
  then show "m_ok s'" using ok ii unfolding m_ok_def by (simp add: s')
qed

section \<open>The callbacks keep the invariant\<close>

text \<open>The invariant of the running server: only the listening socket is set to accept.\<close>

definition serving :: "int \<Rightarrow> mserver \<Rightarrow> bool" where
  "serving l s \<longleftrightarrow> m_ok s \<and> 0 \<le> l \<and> l < 1024 \<and> (\<forall>i<1024. it_events (m_items s i) = ACCEPT_CB \<longleftrightarrow> int i = l)"

definition m_keeps :: "int \<Rightarrow> mserver \<Rightarrow> int \<Rightarrow> mserver \<Rightarrow> bool" where
  "m_keeps l s fd s' \<longleftrightarrow> serving l s' \<and> (\<forall>fd'. fd' \<noteq> fd \<longrightarrow> item_interest s fd' \<noteq> None \<longrightarrow> item_interest s' fd' = item_interest s fd')"

lemma serving_kernel:
  assumes "serving l s" and "k_interest k = k_interest (m_kernel s)" and "set (k_open (m_kernel s)) \<subseteq> set (k_open k)"
  shows "serving l (s\<lparr>m_kernel := k\<rparr>)"
  using assms unfolding serving_def m_ok_def by auto

lemma serving_data:
  assumes "serving l s" and "i < 1024" and "length sb = ITEM_BUFFER" "length rb = ITEM_BUFFER" "0 \<le> n" "n \<le> int ITEM_BUFFER"
  shows "serving l (upd_item i (\<lambda>it. it\<lparr>it_rbuffer := rb, it_sbuffer := sb, it_slength := n\<rparr>) s)"
    and "item_interest (upd_item i (\<lambda>it. it\<lparr>it_rbuffer := rb, it_sbuffer := sb, it_slength := n\<rparr>) s) = item_interest s"
proof -
  let ?s = "upd_item i (\<lambda>it. it\<lparr>it_rbuffer := rb, it_sbuffer := sb, it_slength := n\<rparr>) s"
  show ii: "item_interest ?s = item_interest s" by (rule ext) (auto simp: item_interest_def upd_item_def)
  have "item_ok j (m_items ?s j)" if "j < 1024" for j
    using assms that by (auto simp: serving_def m_ok_def item_ok_def upd_item_def)
  then show "serving l ?s" using assms(1) ii unfolding serving_def m_ok_def by (auto simp: upd_item_def)
qed

lemma set_event_keeps:
  assumes sv: "serving l s" and fd: "0 \<le> fd" "fd < 1024" "fd \<noteq> l" and o: "fd \<in> set (k_open (m_kernel s))" "fd \<noteq> m_epfd s"
    and ev: "event = READ_CB \<or> event = WRITE_CB"
  shows "\<exists>s'. reactor_set_event fd (right_cb event) event s = Some (0, s') \<and> m_keeps l s fd s' \<and>
    item_interest s' fd = Some ((0, nat fd), event_bits event) \<and> m_items s' (nat fd) = set_item fd event (m_items s (nat fd)) \<and>
    m_kernel s' = (m_kernel s)\<lparr>k_interest := (k_interest (m_kernel s))(fd \<mapsto> ((0, nat fd), event_bits event))\<rparr>"
proof -
  have ok: "m_ok s" and e: "event \<noteq> NOSET_CB" using sv ev by (auto simp: serving_def)
  note so = set_event_ok [OF ok fd(1,2) o e refl]
  let ?s = "s\<lparr>m_items := (m_items s)(nat fd := set_item fd event (m_items s (nat fd))),
      m_kernel := (m_kernel s)\<lparr>k_interest := (k_interest (m_kernel s))(fd \<mapsto> ((0, nat fd), event_bits event))\<rparr>\<rparr>"
  have "it_events (m_items ?s i) = ACCEPT_CB \<longleftrightarrow> int i = l" if "i < 1024" for i
    using sv that ev fd by (cases "i = nat fd") (auto simp: serving_def)
  then have "serving l ?s" using so(2) sv by (simp add: serving_def)
  then show ?thesis using so(1,3) by (auto simp: m_keeps_def)
qed

lemma registered:
  assumes "serving l s" and "item_interest s fd = Some x"
  shows "0 \<le> fd" "fd < 1024" "fd \<in> set (k_open (m_kernel s))" "fd \<noteq> m_epfd s" "item_of fd = Some (nat fd)" "m_instance s = Live"
    "item_ok (nat fd) (m_items s (nat fd))"
proof -
  show b: "0 \<le> fd" "fd < 1024" using assms(2) by (auto simp: item_interest_def split: if_splits)
  then show "item_of fd = Some (nat fd)" by (simp add: item_of_def)
  have ok: "m_ok s" using assms(1) by (simp add: serving_def)
  show "fd \<in> set (k_open (m_kernel s))" "fd \<noteq> m_epfd s" using m_ok_open [OF ok, of fd] assms(2) by simp_all
  show "m_instance s = Live" using ok by (simp add: m_ok_def)
  show "item_ok (nat fd) (m_items s (nat fd))" using assms(1) b by (auto simp: serving_def m_ok_def)
qed

lemma read_keeps:
  assumes sv: "serving l s" and i: "item_interest s fd = Some x" and l: "fd \<noteq> l" and r: "read_callback fd s = Some s'"
  shows "m_keeps l s fd s'"
proof -
  note rg = registered [OF sv i]
  obtain a k where rb: "recv_bytes fd ITEM_BUFFER (m_kernel s) = (a, k)" by fastforce
  have fr: "k_interest k = k_interest (m_kernel s)" "k_open k = k_open (m_kernel s)" using recv_bytes_frame [OF rb] by simp_all
  let ?s1 = "s\<lparr>m_kernel := k\<rparr>"
  have sv1: "serving l ?s1" by (rule serving_kernel [OF sv]) (use fr in simp_all)
  consider "a = None" | "a = Some []" | b bs where "a = Some (b # bs)" by (metis list.exhaust not_None_eq)
  then show ?thesis
  proof cases
    case 1
    then have "s' = ?s1" using r rb rg(5,6) by (simp add: read_callback_def)
    then show ?thesis using sv1 by (simp add: m_keeps_def)
  next
    case 2
    have i1: "item_interest ?s1 fd \<noteq> None" using i by simp
    have ok1: "m_ok ?s1" using sv1 by (simp add: serving_def)
    note d = del_event_ok [OF ok1 i1 refl]
    define s2 where "s2 = ?s1\<lparr>m_items := (m_items ?s1)(nat fd := (m_items ?s1 (nat fd))\<lparr>it_events := NOSET_CB\<rparr>),
      m_kernel := (m_kernel ?s1)\<lparr>k_interest := (k_interest (m_kernel ?s1))(fd := None)\<rparr>\<rparr>"
    note d = d [folded s2_def]
    have s': "s' = s2\<lparr>m_kernel := close_fd fd (m_kernel s2)\<rparr>" using r rb rg(5,6) 2 d(1) by (simp add: read_callback_def)
    have fa: "it_events (m_items s2 j) = ACCEPT_CB \<longleftrightarrow> int j = l" if "j < 1024" for j
      using sv that l rg(1,2) by (cases "j = nat fd") (auto simp: serving_def s2_def)
    have ki: "k_interest (m_kernel s2) fd = None" "item_interest s2 fd = None" using d(3) by (simp_all add: s2_def)
    have "m_ok s'" using d(2) ki rg(4) unfolding s' m_ok_def by (auto simp: close_fd_def fun_upd_idem s2_def)
    then have "serving l s'" using fa sv unfolding s' serving_def by simp
    then show ?thesis using d(3) by (simp add: m_keeps_def s')
  next
    case (3 b bs)
    obtain rbf sb where w: "write_at 0 (b # bs) (it_rbuffer (m_items s (nat fd))) = Some rbf" "write_at 0 (b # bs) (it_sbuffer (m_items s (nat fd))) = Some sb"
      using r rb rg(5,6) 3 by (auto simp: read_callback_def bind_Some_iff)
    have len: "length rbf = ITEM_BUFFER" "length sb = ITEM_BUFFER" "length (b # bs) \<le> ITEM_BUFFER"
      using write_at_length [OF w(1)] write_at_length [OF w(2)] w(2) rg(7) by (auto simp: item_ok_def write_at_def split: if_splits)
    define s2 where "s2 = upd_item (nat fd) (\<lambda>it. it\<lparr>it_rbuffer := rbf, it_sbuffer := sb, it_slength := int (length (b # bs))\<rparr>) ?s1"
    have sv2: "serving l s2" and ii: "item_interest s2 = item_interest s"
      using serving_data [OF sv1 _ len(2,1), of "nat fd" "int (length (b # bs))"] len(3) rg(1,2) by (simp_all add: s2_def)
    have o: "fd \<in> set (k_open (m_kernel s2))" "fd \<noteq> m_epfd s2" using rg(3,4) fr by (simp_all add: s2_def upd_item_def)
    obtain s3 where "reactor_set_event fd (right_cb WRITE_CB) WRITE_CB s2 = Some (0, s3)" "m_keeps l s2 fd s3"
      using set_event_keeps [OF sv2 rg(1,2) l o] by blast
    moreover have "map_option snd (reactor_set_event fd SendCB WRITE_CB s2) = Some s'"
      using r rb rg(5,6) 3 w by (auto simp: read_callback_def bind_Some_iff s2_def)
    ultimately show ?thesis using ii by (simp add: m_keeps_def)
  qed
qed

lemma write_keeps:
  assumes sv: "serving l s" and i: "item_interest s fd = Some x" and l: "fd \<noteq> l" and r: "write_callback fd s = Some s'"
  shows "m_keeps l s fd s'"
proof -
  note rg = registered [OF sv i]
  let ?it = "m_items s (nat fd)"
  obtain bs where bs: "read_at 0 (nat (it_slength ?it)) (it_sbuffer ?it) = Some bs" "\<not> it_slength ?it < 0"
    using r rg(5,6) by (auto simp: write_callback_def Let_def bind_Some_iff split: if_splits)
  obtain n k where sb: "send_bytes fd bs (m_kernel s) = (n, k)" by fastforce
  have fr: "k_interest k = k_interest (m_kernel s)" "k_open k = k_open (m_kernel s)" using send_bytes_frame [OF sb] by simp_all
  let ?s1 = "s\<lparr>m_kernel := k\<rparr>"
  have sv1: "serving l ?s1" by (rule serving_kernel [OF sv]) (use fr in simp_all)
  have o: "fd \<in> set (k_open (m_kernel ?s1))" "fd \<noteq> m_epfd ?s1" using rg(3,4) fr by simp_all
  have e: "WRITE_CB = READ_CB \<or> WRITE_CB = WRITE_CB" "READ_CB = READ_CB \<or> READ_CB = WRITE_CB" by simp_all
  obtain s2 where s2: "reactor_set_event fd (right_cb WRITE_CB) WRITE_CB ?s1 = Some (0, s2)" "m_keeps l ?s1 fd s2"
    using set_event_keeps [OF sv1 rg(1,2) l o e(1)] by blast
  obtain s3 where s3: "reactor_set_event fd (right_cb READ_CB) READ_CB ?s1 = Some (0, s3)" "m_keeps l ?s1 fd s3"
    using set_event_keeps [OF sv1 rg(1,2) l o e(2)] by blast
  have "s' = (if n < it_slength ?it then s2 else s3)" using r rg(5,6) bs sb s2(1) s3(1) by (simp add: write_callback_def Let_def split: if_splits)
  then show ?thesis using s2(2) s3(2) by (simp add: m_keeps_def)
qed

lemma m_accept_keeps:
  assumes sv: "serving l s" and i: "item_interest s l \<noteq> None" and r: "accept_callback l s = Some s'"
  shows "m_keeps l s l s' \<and> item_interest s' l = item_interest s l"
proof -
  obtain c k where a: "accept_conn l (m_kernel s) = (c, k)" by fastforce
  show ?thesis
  proof (cases "c = - 1")
    case True
    then show ?thesis using r a sv by (simp add: accept_callback_def m_keeps_def)
  next
    case False
    let ?s1 = "s\<lparr>m_kernel := k\<rparr>"
    obtain x xs where "k_backlog (m_kernel s) l = x # xs" using a False by (auto simp: accept_conn_def split: list.splits)
    then have k: "k_interest k = k_interest (m_kernel s)" "k_open k = c # k_open (m_kernel s)" "c = fresh_fd (k_open (m_kernel s))"
      using a by (auto simp: accept_conn_def Let_def)
    have new: "c \<notin> set (k_open (m_kernel s))" "0 \<le> c" using fresh_fd_new [of "k_open (m_kernel s)"] k(3) by auto
    have sv1: "serving l ?s1" by (rule serving_kernel [OF sv]) (use k in auto)
    have ok: "m_ok s" using sv by (simp add: serving_def)
    have cl: "c \<noteq> l" "item_interest s c = None" using new m_ok_open [OF ok] i by metis+
    have ce: "c \<noteq> m_epfd ?s1" using new ok by (auto simp: m_ok_def)
    have set: "map_option snd (reactor_set_event c RecvCB READ_CB ?s1) = Some s'" using r a False by (simp add: accept_callback_def)
    then have "item_of c \<noteq> None" by (cases "item_of c") (auto simp: reactor_set_event_def bind_Some_iff split: option.splits)
    then have c: "c < 1024" by (simp add: item_of_def split: if_splits)
    have o: "c \<in> set (k_open (m_kernel ?s1))" using k(2) by simp
    have e: "READ_CB = READ_CB \<or> READ_CB = WRITE_CB" by simp
    obtain s2 where "reactor_set_event c (right_cb READ_CB) READ_CB ?s1 = Some (0, s2)" "m_keeps l ?s1 c s2"
      using set_event_keeps [OF sv1 new(2) c cl(1) o ce e] by blast
    then have "m_keeps l s c s'" using set by (simp add: m_keeps_def)
    then show ?thesis using i cl unfolding m_keeps_def by metis
  qed
qed

section \<open>The loop\<close>

definition m_ready :: "(nat \<times> 32 word) list \<Rightarrow> mserver \<Rightarrow> bool" where
  "m_ready rs s \<longleftrightarrow> distinct (map fst rs) \<and> (\<forall>(i, evs)\<in>set rs. \<exists>e. item_interest s (int i) = Some ((0, i), e) \<and>
     (evs AND EPOLLIN \<noteq> 0 \<longrightarrow> e = EPOLLIN) \<and> (evs AND EPOLLOUT \<noteq> 0 \<longrightarrow> e = EPOLLOUT))"

lemma react_keeps:
  assumes sv: "serving l s" and rd: "m_ready ((i, evs) # rs) s" and r: "react l (i, evs) s = Some s'"
  shows "serving l s' \<and> m_ready rs s'"
proof -
  obtain e where e: "item_interest s (int i) = Some ((0, i), e)" "evs AND EPOLLIN \<noteq> 0 \<longrightarrow> e = EPOLLIN" "evs AND EPOLLOUT \<noteq> 0 \<longrightarrow> e = EPOLLOUT"
    using rd by (auto simp: m_ready_def)
  let ?it = "m_items s i"
  have i: "i < 1024" "it_events ?it \<noteq> NOSET_CB" "e = event_bits (it_events ?it)" using e(1) by (auto simp: item_interest_def split: if_splits)
  have it: "item_ok i ?it" and fd: "it_fd ?it = int i" using registered(7) [OF sv e(1)] i(2) by (auto simp: item_ok_def)
  have "m_keeps l s (int i) s'"
  proof (cases "int i = l")
    case True
    then have "it_accept_cb ?it = AcceptCB" using sv i(1) it by (auto simp: serving_def item_ok_def)
    then have "accept_callback l s = Some s'" using r fd True by (simp add: react_def)
    then show ?thesis using m_accept_keeps [OF sv] e(1) True by simp
  next
    case False
    then have "it_events ?it \<noteq> ACCEPT_CB" using sv i(1) by (auto simp: serving_def)
    then consider "it_events ?it = READ_CB" "e = EPOLLIN" | "it_events ?it = WRITE_CB" "e = EPOLLOUT"
      using i(2,3) by (cases "it_events ?it") (auto simp: event_bits_def)
    then show ?thesis
    proof cases
      case 1
      then have o: "evs AND EPOLLOUT = 0" and cb: "it_read_cb ?it = RecvCB" using e(3) it by (auto simp: item_ok_def)
      show ?thesis
      proof (cases "evs AND EPOLLIN = 0")
        case True
        then show ?thesis using r fd False o sv by (simp add: react_def m_keeps_def)
      next
        case c: False
        then have "read_callback (int i) s = Some s'" using r fd False o cb by (cases "read_callback (int i) s") (auto simp: react_def)
        then show ?thesis using read_keeps [OF sv e(1) False] by simp
      qed
    next
      case 2
      then have o: "evs AND EPOLLIN = 0" and cb: "it_write_cb ?it = SendCB" using e(2) it by (auto simp: item_ok_def)
      show ?thesis
      proof (cases "evs AND EPOLLOUT = 0")
        case True
        then show ?thesis using r fd False o sv by (simp add: react_def m_keeps_def)
      next
        case c: False
        then have "write_callback (int i) s = Some s'" using r fd False o cb by (simp add: react_def)
        then show ?thesis using write_keeps [OF sv e(1) False] by simp
      qed
    qed
  qed
  moreover have "item_interest s' (int j) = item_interest s (int j)" if "(j, ev) \<in> set rs" for j ev
  proof -
    have "int j \<noteq> int i" using rd that by (force simp: m_ready_def)
    moreover have "item_interest s (int j) \<noteq> None" using rd that unfolding m_ready_def by fastforce
    ultimately show ?thesis using \<open>m_keeps l s (int i) s'\<close> unfolding m_keeps_def by blast
  qed
  ultimately show ?thesis using rd unfolding m_ready_def m_keeps_def by fastforce
qed

fun m_rounds_ok :: "int \<Rightarrow> (nat \<times> 32 word) list option list \<Rightarrow> mserver \<Rightarrow> bool" where
  "m_rounds_ok l [] s = True"
| "m_rounds_ok l (None # ws) s = m_rounds_ok l ws s"
| "m_rounds_ok l (Some rs # ws) s = (m_ready rs s \<and> (case react_all l rs s of None \<Rightarrow> True | Some s1 \<Rightarrow> m_rounds_ok l ws s1))"

lemma react_all_keeps: "serving l s \<Longrightarrow> m_ready rs s \<Longrightarrow> react_all l rs s = Some s' \<Longrightarrow> serving l s'"
proof (induction rs arbitrary: s)
  case (Cons r rs)
  obtain i evs where r: "r = (i, evs)" by fastforce
  obtain s1 where s1: "react l (i, evs) s = Some s1" "react_all l rs s1 = Some s'" using Cons.prems(3) by (auto simp: r bind_Some_iff)
  have "serving l s1 \<and> m_ready rs s1" using react_keeps [OF Cons.prems(1) _ s1(1), of rs] Cons.prems(2) by (simp add: r)
  then show ?case using Cons.IH s1(2) by blast
qed simp

lemma reactor_loop_keeps: "serving l s \<Longrightarrow> m_rounds_ok l ws s \<Longrightarrow> reactor_loop l ws s = Some s' \<Longrightarrow> serving l s'"
proof (induction l ws s rule: reactor_loop.induct)
  case (3 l rs ws s)
  obtain s1 where s1: "react_all l rs s = Some s1" "reactor_loop l ws s1 = Some s'" using 3(4) by (auto simp: bind_Some_iff)
  have "m_ready rs s" "m_rounds_ok l ws s1" using 3(3) s1(1) by simp_all
  then show ?case using 3(1) [OF s1(1) react_all_keeps [OF 3(2) _ s1(1)]] s1(2) by simp
qed simp_all

section \<open>The program\<close>

definition first_use :: "mserver \<Rightarrow> bool" where
  "first_use s \<longleftrightarrow> m_instance s = NoInstance \<and> (\<forall>n. m_malloc s n) \<and> m_epoll s \<and> (\<forall>fd. k_interest (m_kernel s) fd = None)"

text \<open>The first use of the pointer creates the reactor.\<close>

lemma first_use_creates:
  assumes "first_use s"
  shows "\<exists>s1. the_reactor s = Some s1 \<and> m_ok s1 \<and> (\<forall>fd. item_interest s1 fd = None) \<and> m_items s1 = (\<lambda>_. item_zero) \<and>
    m_kernel s1 = (m_kernel s)\<lparr>k_open := m_epfd s1 # k_open (m_kernel s)\<rparr> \<and> m_epfd s1 = fresh_fd (k_open (m_kernel s))"
proof -
  define ep where "ep = fresh_fd (k_open (m_kernel s))"
  define s1 where "s1 = s\<lparr>m_instance := Live, m_epfd := ep, m_items := (\<lambda>_. item_zero), m_kernel := (m_kernel s)\<lparr>k_open := ep # k_open (m_kernel s)\<rparr>,
    m_calls := Suc (Suc (Suc (m_calls s)))\<rparr>"
  have "the_reactor s = Some s1" using assms
    by (simp add: first_use_def the_reactor_def getInstance_def init_reactor_def m_alloc_def Let_def s1_def ep_def)
  moreover have "item_interest s1 = (\<lambda>_. None)" by (rule ext) (simp add: item_interest_def s1_def item_zero_def)
  moreover have "k_interest (m_kernel s) = (\<lambda>_. None)" using assms by (simp add: first_use_def fun_eq_iff)
  ultimately show ?thesis
    by (intro exI [of _ s1]) (simp add: m_ok_def s1_def item_ok_def item_zero_def ep_def)
qed

lemma multi_main_starts:
  assumes "first_use s" and "init_server True True True s = (l, s1)" and "l \<noteq> 0" and "l < 1024"
  shows "\<exists>s2. reactor_set_event l AcceptCB ACCEPT_CB s1 = Some (0, s2) \<and> serving l s2 \<and>
    multi_main True True True ws s = map_option Inr (reactor_loop l ws s2)"
proof -
  have l: "l = fresh_fd (k_open (m_kernel s))" and s1: "s1 = s\<lparr>m_kernel := (m_kernel s)\<lparr>k_open := l # k_open (m_kernel s)\<rparr>\<rparr>"
    using assms(2) by (auto simp: init_server_def Let_def)
  have fu: "first_use s1" using assms(1) by (simp add: first_use_def s1)
  obtain r where r: "the_reactor s1 = Some r" "m_ok r" "\<forall>fd. item_interest r fd = None" "m_items r = (\<lambda>_. item_zero)"
    "m_kernel r = (m_kernel s1)\<lparr>k_open := m_epfd r # k_open (m_kernel s1)\<rparr>" "m_epfd r = fresh_fd (k_open (m_kernel s1))"
    using first_use_creates [OF fu] by blast
  have lo: "0 \<le> l" "l \<in> set (k_open (m_kernel r))" "l \<noteq> m_epfd r"
    using fresh_fd_new [of "k_open (m_kernel s)"] fresh_fd_new [of "k_open (m_kernel s1)"] r(5,6) by (auto simp: l s1)
  have live: "m_instance r = Live" using r(2) by (simp add: m_ok_def)
  have same: "reactor_set_event l AcceptCB ACCEPT_CB s1 = reactor_set_event l AcceptCB ACCEPT_CB r"
    using r(1) live by (simp add: reactor_set_event_def)
  have ne: "ACCEPT_CB \<noteq> NOSET_CB" by simp
  define s2 where "s2 = r\<lparr>m_items := (m_items r)(nat l := set_item l ACCEPT_CB (m_items r (nat l))),
      m_kernel := (m_kernel r)\<lparr>k_interest := (k_interest (m_kernel r))(l \<mapsto> ((0, nat l), event_bits ACCEPT_CB))\<rparr>\<rparr>"
  note so = set_event_ok [OF r(2) lo(1) assms(4) lo(2,3) ne s2_def]
  have set: "reactor_set_event l AcceptCB ACCEPT_CB s1 = Some (0, s2)" using so(1) same by simp
  have "it_events (m_items s2 i) = ACCEPT_CB \<longleftrightarrow> int i = l" if "i < 1024" for i
    using lo(1) by (cases "i = nat l") (auto simp: s2_def r(4) item_zero_def)
  then have sv: "serving l s2" using so(2) lo(1) assms(4) by (simp add: serving_def)
  have "m_instance s2 = Live" using live by (simp add: s2_def)
  then have "multi_main True True True ws s = map_option Inr (reactor_loop l ws s2)" using assms(3) by (simp add: multi_main_def assms(2) set)
  then show ?thesis using set sv by blast
qed

text \<open>C34: the program, from the creation of its listening socket and of the reactor on, keeps the kernel waiting for exactly
  what its items say, each descriptor with the callback for it, whatever \<open>epoll_wait\<close> reports.\<close>

theorem multi_main_keeps_items:
  assumes "first_use s" and "init_server True True True s = (l, s1)" and "l \<noteq> 0" and "l < 1024"
    and "\<forall>s2. reactor_set_event l AcceptCB ACCEPT_CB s1 = Some (0, s2) \<longrightarrow> m_rounds_ok l ws s2"
    and "multi_main True True True ws s = Some (Inr s')"
  shows "serving l s' \<and> k_interest (m_kernel s') = item_interest s'"
proof -
  obtain s2 where s2: "reactor_set_event l AcceptCB ACCEPT_CB s1 = Some (0, s2)" "serving l s2"
    "multi_main True True True ws s = map_option Inr (reactor_loop l ws s2)" using multi_main_starts [OF assms(1-4)] by blast
  then have "reactor_loop l ws s2 = Some s'" using assms(6) by (cases "reactor_loop l ws s2") simp_all
  then have "serving l s'" using reactor_loop_keeps [OF s2(2)] assms(5) s2(1) by blast
  then show ?thesis by (simp add: serving_def m_ok_def)
qed

section \<open>The echo\<close>

text \<open>a send that takes only part of the data is repeated from the start: the other side gets that part twice.\<close>

theorem partial_send_duplicates:
  assumes sv: "serving l s" and i: "item_interest s fd = Some ((0, nat fd), EPOLLOUT)" and l: "fd \<noteq> l"
    and b: "it_sbuffer (m_items s (nat fd)) = data @ junk" "it_slength (m_items s (nat fd)) = int (length data)"
    and m: "c_room (k_conn (m_kernel s) fd) = m" "0 < m" "m < length data" and n: "length data \<le> n"
  shows "\<exists>s1 s2. write_callback fd s = Some s1 \<and>
    write_callback fd (s1\<lparr>m_kernel := (m_kernel s1)\<lparr>k_conn := (k_conn (m_kernel s1))(fd := (k_conn (m_kernel s1) fd)\<lparr>c_room := n\<rparr>)\<rparr>\<rparr>) = Some s2 \<and>
    k_out (m_kernel s2) fd = k_out (m_kernel s) fd @ take m data @ data"
proof -
  note rg = registered [OF sv i]
  let ?i = "nat fd"
  have rd: "read_at 0 (nat (it_slength (m_items s ?i))) (it_sbuffer (m_items s ?i)) = Some data" using b by (simp add: read_at_def)
  define k where "k = (m_kernel s)\<lparr>k_conn := (k_conn (m_kernel s))(fd := (k_conn (m_kernel s) fd)\<lparr>c_room := 0\<rparr>),
    k_out := (k_out (m_kernel s))(fd := k_out (m_kernel s) fd @ take m data)\<rparr>"
  have sb: "send_bytes fd data (m_kernel s) = (int m, k)" using m by (simp add: send_bytes_def Let_def k_def)
  have sv1: "serving l (s\<lparr>m_kernel := k\<rparr>)" by (rule serving_kernel [OF sv]) (simp_all add: k_def)
  have o1: "fd \<in> set (k_open (m_kernel (s\<lparr>m_kernel := k\<rparr>)))" "fd \<noteq> m_epfd (s\<lparr>m_kernel := k\<rparr>)" using rg(3,4) by (simp_all add: k_def)
  have e: "WRITE_CB = READ_CB \<or> WRITE_CB = WRITE_CB" "READ_CB = READ_CB \<or> READ_CB = WRITE_CB" by simp_all
  obtain s1 where s1: "reactor_set_event fd (right_cb WRITE_CB) WRITE_CB (s\<lparr>m_kernel := k\<rparr>) = Some (0, s1)" "m_keeps l (s\<lparr>m_kernel := k\<rparr>) fd s1"
    "item_interest s1 fd = Some ((0, ?i), event_bits WRITE_CB)" "m_items s1 ?i = set_item fd WRITE_CB (m_items s ?i)"
    "m_kernel s1 = k\<lparr>k_interest := (k_interest k)(fd \<mapsto> ((0, ?i), event_bits WRITE_CB))\<rparr>"
    using set_event_keeps [OF sv1 rg(1,2) l o1 e(1)] by auto
  have w1: "write_callback fd s = Some s1" using rg(5,6) rd b(2) sb m s1(1) by (simp add: write_callback_def Let_def)
  let ?k1 = "(m_kernel s1)\<lparr>k_conn := (k_conn (m_kernel s1))(fd := (k_conn (m_kernel s1) fd)\<lparr>c_room := n\<rparr>)\<rparr>"
  have sv2: "serving l (s1\<lparr>m_kernel := ?k1\<rparr>)" by (rule serving_kernel) (use s1(2) in \<open>simp_all add: m_keeps_def\<close>)
  have i2: "item_interest (s1\<lparr>m_kernel := ?k1\<rparr>) fd = Some ((0, ?i), event_bits WRITE_CB)" using s1(3) by simp
  note rg2 = registered [OF sv2 i2]
  define k2 where "k2 = ?k1\<lparr>k_conn := (k_conn ?k1)(fd := (k_conn ?k1 fd)\<lparr>c_room := n - length data\<rparr>),
    k_out := (k_out ?k1)(fd := k_out ?k1 fd @ data)\<rparr>"
  have "data \<noteq> []" using m by auto
  then have sb2: "send_bytes fd data ?k1 = (int (length data), k2)" using n by (simp add: send_bytes_def Let_def k2_def)
  have sv3: "serving l (s1\<lparr>m_kernel := k2\<rparr>)" by (rule serving_kernel) (use s1(2) in \<open>simp_all add: m_keeps_def k2_def\<close>)
  have o2: "fd \<in> set (k_open (m_kernel (s1\<lparr>m_kernel := k2\<rparr>)))" "fd \<noteq> m_epfd (s1\<lparr>m_kernel := k2\<rparr>)" using rg2(3,4) by (simp_all add: k2_def)
  obtain s2 where s2: "reactor_set_event fd (right_cb READ_CB) READ_CB (s1\<lparr>m_kernel := k2\<rparr>) = Some (0, s2)"
    "m_kernel s2 = k2\<lparr>k_interest := (k_interest k2)(fd \<mapsto> ((0, ?i), event_bits READ_CB))\<rparr>"
    using set_event_keeps [OF sv3 rg(1,2) l o2 e(2)] by auto
  have "write_callback fd (s1\<lparr>m_kernel := ?k1\<rparr>) = Some s2"
    using rg2(5,6) rd b(2) sb2 s2(1) by (simp add: write_callback_def Let_def s1(4))
  moreover have "k_out (m_kernel s2) fd = k_out (m_kernel s) fd @ take m data @ data" by (simp add: s2(2) k2_def s1(5) k_def)
  ultimately show ?thesis using w1 by blast
qed

text \<open>a connection that is reported as ready but cannot be read, because it was reset, is neither closed nor removed:
  every further round leads to the same state.\<close>

theorem broken_connection_spins:
  assumes sv: "serving l s" and i: "item_interest s fd = Some ((0, nat fd), EPOLLIN)" and l: "fd \<noteq> l"
    and c: "c_in (k_conn (m_kernel s) fd) = []" "\<not> c_eof (k_conn (m_kernel s) fd)"
  shows "reactor_loop l (replicate n (Some [(nat fd, EPOLLIN)])) s = Some s"
proof (induction n)
  case (Suc n)
  note rg = registered [OF sv i]
  have "recv_bytes fd ITEM_BUFFER (m_kernel s) = (None, m_kernel s)" using c by (simp add: recv_bytes_def)
  then have r: "read_callback fd s = Some s" using rg(5,6) by (simp add: read_callback_def)
  have "it_events (m_items s (nat fd)) \<noteq> NOSET_CB" "event_bits (it_events (m_items s (nat fd))) = EPOLLIN"
    using i by (auto simp: item_interest_def split: if_splits)
  moreover have "it_events (m_items s (nat fd)) \<noteq> ACCEPT_CB" using sv rg(1,2) l by (auto simp: serving_def)
  ultimately have "it_events (m_items s (nat fd)) = READ_CB" by (cases "it_events (m_items s (nat fd))") (simp_all add: event_bits_def)
  then have "it_fd (m_items s (nat fd)) = fd" "it_read_cb (m_items s (nat fd)) = RecvCB" using rg(1,7) by (simp_all add: item_ok_def)
  then have "react l (nat fd, EPOLLIN) s = Some s" using r l by (simp add: react_def)
  then show ?case using Suc by simp
qed simp

text \<open>when the memory for the items is missing, \<open>getInstance\<close> frees the reactor but keeps the pointer: the first call
  gives null, every later one the freed memory.\<close>

theorem getInstance_keeps_freed_pointer:
  assumes "m_instance s = NoInstance" and "m_malloc s (m_calls s)" and "\<not> m_malloc s (Suc (m_calls s)) \<or> \<not> m_malloc s (Suc (Suc (m_calls s)))"
  shows "\<exists>s1. getInstance s = (NoInstance, s1) \<and> getInstance s1 = (Freed, s1)"
  using assms by (cases "m_malloc s (Suc (m_calls s))") (auto simp: getInstance_def init_reactor_def m_alloc_def Let_def)

section \<open>Samples\<close>

definition sample_kernel :: kernel where
  "sample_kernel = \<lparr>k_open = [0, 1, 2], k_interest = Map.empty, k_backlog = (\<lambda>_. []), k_fcntl = (\<lambda>_. True),
     k_conn = (\<lambda>_. \<lparr>c_in = [], c_eof = False, c_room = 2\<rparr>), k_out = (\<lambda>_. [])\<rparr>"

definition multi_start :: mserver where
  "multi_start = \<lparr>m_instance = NoInstance, m_epfd = 0, m_items = (\<lambda>_. item_zero), m_kernel = sample_kernel, m_malloc = (\<lambda>_. True), m_calls = 0, m_epoll = True\<rparr>"

text \<open>A listening socket 3 and a connection 5 that waits as \<open>event\<close> says.\<close>

definition multi_sample :: "event_kind \<Rightarrow> mserver" where
  "multi_sample event = \<lparr>m_instance = Live, m_epfd = 4,
     m_items = (\<lambda>i. if i = 3 then set_item 3 ACCEPT_CB item_zero
       else if i = 5 then set_item 5 event (item_zero\<lparr>it_sbuffer := [104, 101, 121] @ replicate 1021 0, it_slength := 3\<rparr>) else item_zero),
     m_kernel = sample_kernel\<lparr>k_open := [0, 1, 2, 3, 4, 5], k_interest := [3 \<mapsto> ((0, 3), EPOLLIN), 5 \<mapsto> ((0, 5), event_bits event)]\<rparr>,
     m_malloc = (\<lambda>_. True), m_calls = 3, m_epoll = True\<rparr>"

lemma multi_sample_serving:
  assumes "event = READ_CB \<or> event = WRITE_CB"
  shows "serving 3 (multi_sample event)" and "item_interest (multi_sample event) 5 = Some ((0, 5), event_bits event)"
proof -
  have n: "event \<noteq> NOSET_CB" using assms by auto
  have ii: "item_interest (multi_sample event) = [3 \<mapsto> ((0, 3), EPOLLIN), 5 \<mapsto> ((0, 5), event_bits event)]"
    using n by (rule_tac ext) (auto simp: item_interest_def multi_sample_def item_zero_def event_bits_def nat_eq_iff)
  then show "item_interest (multi_sample event) 5 = Some ((0, 5), event_bits event)" by simp
  have z: "item_ok i item_zero" "item_ok i (item_zero\<lparr>it_sbuffer := [104, 101, 121] @ replicate 1021 0, it_slength := 3\<rparr>)" for i
    by (simp_all add: item_ok_def item_zero_def)
  have "item_ok i (m_items (multi_sample event) i)" for i
    using z set_item_ok [of 3 item_zero ACCEPT_CB] set_item_ok [OF z(2) n, of 5] by (simp add: multi_sample_def)
  then have "m_ok (multi_sample event)" using ii by (simp add: m_ok_def) (simp add: multi_sample_def)
  moreover have "it_events (m_items (multi_sample event) i) = ACCEPT_CB \<longleftrightarrow> int i = 3" for i
    using assms by (auto simp: multi_sample_def item_zero_def set_item_def)
  ultimately show "serving 3 (multi_sample event)" by (simp add: serving_def)
qed

theorem multi_main_keeps_items_witness:
  "\<exists>s'. multi_main True True True [None, Some []] multi_start = Some (Inr s') \<and> serving 3 s' \<and> k_interest (m_kernel s') = item_interest s'"
proof -
  have fu: "first_use multi_start" by (simp add: first_use_def multi_start_def sample_kernel_def)
  have "fresh_fd [0, 1, 2] = 3" by (simp add: fresh_fd_def upt_rec)
  then obtain s1 where i: "init_server True True True multi_start = (3, s1)"
    by (simp add: init_server_def Let_def multi_start_def sample_kernel_def)
  obtain s2 where "multi_main True True True [None, Some []] multi_start = Some (Inr s2)"
    using multi_main_starts [OF fu i, of "[None, Some []]"] by auto
  moreover have "\<forall>s2. reactor_set_event 3 AcceptCB ACCEPT_CB s1 = Some (0, s2) \<longrightarrow> m_rounds_ok 3 [None, Some []] s2"
    by (simp add: m_ready_def)
  ultimately show ?thesis using multi_main_keeps_items [OF fu i, of "[None, Some []]"] by auto
qed

theorem partial_send_duplicates_witness:
  "\<exists>s1 s2. write_callback 5 (multi_sample WRITE_CB) = Some s1 \<and>
    write_callback 5 (s1\<lparr>m_kernel := (m_kernel s1)\<lparr>k_conn := (k_conn (m_kernel s1))(5 := (k_conn (m_kernel s1) 5)\<lparr>c_room := 10\<rparr>)\<rparr>\<rparr>) = Some s2 \<and>
    k_out (m_kernel s2) 5 = [104, 101] @ [104, 101, 121]"
proof -
  let ?s = "multi_sample WRITE_CB"
  have "k_out (m_kernel ?s) 5 @ take 2 [104, 101, 121] @ [104, 101, 121] = [104, 101] @ [104, 101, 121 :: byte]"
    by (simp add: multi_sample_def sample_kernel_def)
  moreover have "item_interest ?s 5 = Some ((0, nat 5), EPOLLOUT)" using multi_sample_serving(2) [of WRITE_CB] by (simp add: event_bits_def)
  moreover have "it_sbuffer (m_items ?s (nat 5)) = [104, 101, 121] @ replicate 1021 0" "it_slength (m_items ?s (nat 5)) = int (length [104, 101, 121 :: byte])"
    "c_room (k_conn (m_kernel ?s) 5) = 2" by (simp_all add: multi_sample_def set_item_def sample_kernel_def)
  ultimately show ?thesis
    using partial_send_duplicates [OF multi_sample_serving(1), of WRITE_CB 5 "[104, 101, 121]" "replicate 1021 0" 2 10] by simp
qed

theorem broken_connection_spins_witness:
  "reactor_loop 3 (replicate 100 (Some [(nat 5, EPOLLIN)])) (multi_sample READ_CB) = Some (multi_sample READ_CB)"
proof (rule broken_connection_spins [OF multi_sample_serving(1)])
  show "item_interest (multi_sample READ_CB) 5 = Some ((0, nat 5), EPOLLIN)" using multi_sample_serving(2) [of READ_CB] by (simp add: event_bits_def)
qed (simp_all add: multi_sample_def sample_kernel_def)

theorem getInstance_keeps_freed_pointer_witness:
  "\<exists>s1. getInstance (multi_start\<lparr>m_malloc := (\<lambda>n. n = 0)\<rparr>) = (NoInstance, s1) \<and> getInstance s1 = (Freed, s1)"
  by (rule getInstance_keeps_freed_pointer) (simp_all add: multi_start_def)

end
