(* ===== verification/EpollInitial.thy ===== *)
theory EpollInitial
  imports Reactor_Turn
begin

text \<open>
  The server of \<open>2.1.1.../epoll_initial.c\<close>: one loop over \<open>epoll_wait\<close> that accepts connections and sends
  back what they send, over the kernel of \<open>Reactor\<close>. There is no table of events: \<open>data.fd\<close> holds
  the descriptor itself, so the slot of an event is not used.
\<close>

section \<open>The program\<close>

abbreviation (input) MAX_LEN :: nat where
  "MAX_LEN \<equiv> 4096"

record initial =
  listenfd :: int
  initial_epfd :: int
  buff :: "byte list"
  initial_kernel :: kernel

datatype progress = Running initial | Exited initial

text \<open>\<open>main\<close> up to its loop; the results of \<open>socket\<close>, \<open>bind\<close> and \<open>listen\<close> are given, those of
  \<open>epoll_create\<close> and \<open>epoll_ctl\<close> are not tested. \<open>garbage\<close> is what the buffer holds.\<close>

definition initial_start :: "bool \<Rightarrow> bool \<Rightarrow> bool \<Rightarrow> bool \<Rightarrow> byte list \<Rightarrow> kernel \<Rightarrow> progress" where
  "initial_start created bound listening epoll_created garbage k =
    (let l = (if created then fresh_fd (k_open k) else - 1);
         k1 = (if created then k\<lparr>k_open := l # k_open k\<rparr> else k);
         stop = Exited \<lparr>listenfd = l, initial_epfd = - 1, buff = garbage, initial_kernel = k1\<rparr>
     in if \<not> created then stop
        else if \<not> bound then stop
        else if \<not> listening then stop
        else (let ep = (if epoll_created then fresh_fd (k_open k1) else - 1);
                  k2 = (if epoll_created then k1\<lparr>k_open := ep # k_open k1\<rparr> else k1)
              in Running \<lparr>listenfd = l, initial_epfd = ep, buff = garbage,
                   initial_kernel = snd (epoll_ctl ep EPOLL_CTL_ADD l (0, 0) EPOLLIN k2)\<rparr>))"

text \<open>One event of the array: the listening socket first, then a readable connection.\<close>

definition initial_event :: "int \<times> 32 word \<Rightarrow> initial \<Rightarrow> progress option" where
  "initial_event e s = (case e of (actFd, evs) \<Rightarrow>
    (if actFd = listenfd s then
       (case accept_conn (listenfd s) (initial_kernel s) of (connfd, k) \<Rightarrow>
          if connfd = - 1 then Some (Exited s)
          else Some (Running (s\<lparr>initial_kernel := snd (epoll_ctl (initial_epfd s) EPOLL_CTL_ADD connfd (0, 0) EPOLLIN k)\<rparr>)))
     else if evs AND EPOLLIN \<noteq> 0 then
       (case recv_bytes actFd MAX_LEN (initial_kernel s) of (r, k) \<Rightarrow>
          (case r of
             None \<Rightarrow> Some (Running (s\<lparr>initial_kernel := k\<rparr>))
           | Some bs \<Rightarrow> do {
               b \<leftarrow> write_at 0 bs (buff s);
               if bs \<noteq> [] then do {
                 b' \<leftarrow> write_at (length bs) [0] b;
                 Some (Running (s\<lparr>buff := b', initial_kernel := snd (send_bytes actFd bs k)\<rparr>)) }
               else Some (Running (s\<lparr>buff := b, initial_kernel :=
                      close_fd actFd (snd (epoll_ctl (initial_epfd s) EPOLL_CTL_DEL actFd (0, 0) 0 k))\<rparr>)) }))
     else Some (Running s)))"

fun initial_events :: "(int \<times> 32 word) list \<Rightarrow> initial \<Rightarrow> progress option" where
  "initial_events [] s = Some (Running s)"
| "initial_events (e # es) s = (case initial_event e s of
     Some (Running s') \<Rightarrow> initial_events es s' | r \<Rightarrow> r)"

text \<open>The loop over what \<open>epoll_wait\<close> returns; no events is the result -1.\<close>

fun initial_loop :: "(int \<times> 32 word) list option list \<Rightarrow> initial \<Rightarrow> progress option" where
  "initial_loop [] s = Some (Running s)"
| "initial_loop (None # ws) s = initial_loop ws s"
| "initial_loop (Some es # ws) s = (case initial_events es s of
     Some (Running s') \<Rightarrow> initial_loop ws s' | r \<Rightarrow> r)"

section \<open>A connection gets back what it sends\<close>

text \<open>Segments that leave room for the null byte.\<close>

definition short_segments :: "conn \<Rightarrow> bool" where
  "short_segments c \<longleftrightarrow> (\<forall>seg\<in>set (c_in c). seg \<noteq> [] \<and> length seg < MAX_LEN)"

definition short_traffic :: "initial \<Rightarrow> bool" where
  "short_traffic s \<longleftrightarrow> length (buff s) = MAX_LEN \<and> (\<forall>fd. short_segments (k_conn (initial_kernel s) fd)) \<and>
     (\<forall>fd. \<forall>c\<in>set (k_backlog (initial_kernel s) fd). short_segments c)"

text \<open>What a connection has before and after \<open>m\<close> of its events.\<close>

definition echoed :: "int \<Rightarrow> nat \<Rightarrow> initial \<Rightarrow> initial \<Rightarrow> bool" where
  "echoed fd m s s' \<longleftrightarrow> c_in (k_conn (initial_kernel s') fd) = drop m (c_in (k_conn (initial_kernel s) fd)) \<and>
     k_out (initial_kernel s') fd = k_out (initial_kernel s) fd @ concat (take m (c_in (k_conn (initial_kernel s) fd))) \<and>
     c_room (k_conn (initial_kernel s) fd) = c_room (k_conn (initial_kernel s') fd) + length (concat (take m (c_in (k_conn (initial_kernel s) fd)))) \<and>
     c_eof (k_conn (initial_kernel s') fd) = c_eof (k_conn (initial_kernel s) fd) \<and>
     (fd \<in> set (k_open (initial_kernel s)) \<longrightarrow> fd \<in> set (k_open (initial_kernel s')))"

lemma epoll_ctl_frame [simp]:
  "k_conn (snd (epoll_ctl ep opn fd p evs k)) = k_conn k" "k_out (snd (epoll_ctl ep opn fd p evs k)) = k_out k"
  "k_open (snd (epoll_ctl ep opn fd p evs k)) = k_open k" "k_backlog (snd (epoll_ctl ep opn fd p evs k)) = k_backlog k"
  by (auto simp: epoll_ctl_def split: ctl_op.splits)

lemma write_at_start: "length bs \<le> length buf \<Longrightarrow> \<exists>b. write_at 0 bs buf = Some b \<and> length b = length buf"
  by (simp add: write_at_def)

definition own_event :: "int \<Rightarrow> int \<times> 32 word \<Rightarrow> bool" where
  "own_event fd e \<longleftrightarrow> fst e = fd \<and> snd e AND EPOLLIN \<noteq> 0"

lemma initial_event_echoes:
  assumes s: "short_traffic s" and fd: "fd \<noteq> listenfd s" "fd \<in> set (k_open (initial_kernel s))" "\<not> c_eof (k_conn (initial_kernel s) fd)"
    and room: "length (concat (c_in (k_conn (initial_kernel s) fd))) \<le> c_room (k_conn (initial_kernel s) fd)"
  shows "\<exists>r. initial_event e s = Some r \<and> (\<forall>s'. r = Running s' \<longrightarrow> short_traffic s' \<and> listenfd s' = listenfd s \<and>
    echoed fd (if own_event fd e then 1 else 0) s s')"
proof -
  let ?k = "initial_kernel s"
  obtain act evs where e: "e = (act, evs)" by (cases e)
  show ?thesis
  proof (cases "act = listenfd s")
    case True
    have own: "\<not> own_event fd e" using True fd(1) e by (simp add: own_event_def)
    show ?thesis
    proof (cases "k_backlog ?k (listenfd s)")
      case Nil
      then show ?thesis using True e by (simp add: initial_event_def accept_conn_def)
    next
      case (Cons c cs)
      have n: "fresh_fd (k_open ?k) \<noteq> fd" "fresh_fd (k_open ?k) \<noteq> - 1" using fresh_fd_new [of "k_open ?k"] fd(2) by auto
      have bl: "short_segments c" "\<forall>d\<in>set cs. short_segments d" using s Cons unfolding short_traffic_def by (metis list.set_intros)+
      show ?thesis using True e own Cons s fd(2) n bl
        by (auto simp: initial_event_def accept_conn_def Let_def short_traffic_def echoed_def)
    qed
  next
    case act: False
    show ?thesis
    proof (cases "evs AND EPOLLIN \<noteq> 0")
      case False
      then show ?thesis using act e s by (simp add: initial_event_def echoed_def own_event_def)
    next
      case inn: True
      show ?thesis
      proof (cases "c_in (k_conn ?k act)")
        case Nil
        obtain b where b: "write_at 0 [] (buff s) = Some b" "length b = length (buff s)" using write_at_start [of "[]" "buff s"] by auto
        show ?thesis using act inn e s Nil fd b
          by (cases "c_eof (k_conn ?k act)") (auto simp: initial_event_def recv_bytes_def echoed_def own_event_def short_traffic_def close_fd_def)
      next
        case (Cons seg segs)
        have seg: "seg \<noteq> []" "length seg < MAX_LEN" using s Cons unfolding short_traffic_def short_segments_def by (metis list.set_intros(1))+
        obtain b where b: "write_at 0 seg (buff s) = Some b" "length b = MAX_LEN"
          using write_at_start [of seg "buff s"] seg s by (auto simp: short_traffic_def)
        obtain b' where b': "write_at (length seg) [0] b = Some b'" "length b' = MAX_LEN" using seg b(2) by (simp add: write_at_def)
        have r: "recv_bytes act MAX_LEN ?k = (Some seg, ?k\<lparr>k_conn := (k_conn ?k)(act := (k_conn ?k act)\<lparr>c_in := segs\<rparr>)\<rparr>)"
          using Cons seg by (simp add: recv_bytes_def)
        have short: "short_segments (k_conn ?k act)" using s by (simp add: short_traffic_def)
        show ?thesis using act inn e s Cons fd b b' r seg room short
          by (auto simp: initial_event_def send_bytes_def Let_def echoed_def own_event_def short_traffic_def short_segments_def)
      qed
    qed
  qed
qed

lemma echoed_trans: "echoed fd m s t \<Longrightarrow> echoed fd n t u \<Longrightarrow> echoed fd (m + n) s u"
  unfolding echoed_def by (simp add: take_add add.commute)

lemma initial_events_echo:
  assumes "short_traffic s" and "fd \<noteq> listenfd s" "fd \<in> set (k_open (initial_kernel s))" "\<not> c_eof (k_conn (initial_kernel s) fd)"
    and "length (concat (c_in (k_conn (initial_kernel s) fd))) \<le> c_room (k_conn (initial_kernel s) fd)"
  shows "\<exists>r. initial_events es s = Some r \<and> (\<forall>s'. r = Running s' \<longrightarrow> short_traffic s' \<and> listenfd s' = listenfd s \<and>
    echoed fd (length (filter (own_event fd) es)) s s')"
  using assms
proof (induction es arbitrary: s)
  case Nil
  then show ?case by (simp add: echoed_def)
next
  case (Cons e es)
  let ?m = "if own_event fd e then 1 else 0 :: nat"
  obtain r where r: "initial_event e s = Some r" and i: "\<And>t. r = Running t \<Longrightarrow> short_traffic t \<and> listenfd t = listenfd s \<and> echoed fd ?m s t"
    using initial_event_echoes [OF Cons.prems, of e] by blast
  show ?case
  proof (cases r)
    case (Exited t)
    then show ?thesis using r by simp
  next
    case (Running t)
    note t = i [OF Running]
    have l: "length (concat xs) = length (concat (take ?m xs)) + length (concat (drop ?m xs))" for xs :: "byte list list"
      by (metis append_take_drop_id concat_append length_append)
    have c: "c_in (k_conn (initial_kernel t) fd) = drop ?m (c_in (k_conn (initial_kernel s) fd))"
      "c_room (k_conn (initial_kernel s) fd) = c_room (k_conn (initial_kernel t) fd) + length (concat (take ?m (c_in (k_conn (initial_kernel s) fd))))"
      using t unfolding echoed_def by blast+
    have "length (concat (c_in (k_conn (initial_kernel t) fd))) \<le> c_room (k_conn (initial_kernel t) fd)"
      unfolding c(1) using Cons.prems(5) c(2) l [of "c_in (k_conn (initial_kernel s) fd)"] by linarith
    moreover have "fd \<noteq> listenfd t" "fd \<in> set (k_open (initial_kernel t))" "\<not> c_eof (k_conn (initial_kernel t) fd)" "short_traffic t"
      using t Cons.prems(2-4) unfolding echoed_def by simp_all
    ultimately obtain q where q: "initial_events es t = Some q" and j: "\<And>u. q = Running u \<Longrightarrow> short_traffic u \<and> listenfd u = listenfd t \<and>
        echoed fd (length (filter (own_event fd) es)) t u"
      using Cons.IH [of t] by blast
    have n: "length (filter (own_event fd) (e # es)) = ?m + length (filter (own_event fd) es)" by simp
    have "short_traffic u \<and> listenfd u = listenfd s \<and> echoed fd (length (filter (own_event fd) (e # es))) s u" if "q = Running u" for u
      unfolding n using j [OF that] t echoed_trans by (metis (no_types))
    moreover have "initial_events (e # es) s = Some q" using r Running q by simp
    ultimately show ?thesis by blast
  qed
qed

text \<open>The rounds of the loop are one sequence of events.\<close>

definition reported :: "(int \<times> 32 word) list option list \<Rightarrow> (int \<times> 32 word) list" where
  "reported ws = concat (map (case_option [] id) ws)"

lemma events_append:
  "initial_events (es @ ds) s = (case initial_events es s of Some (Running s') \<Rightarrow> initial_events ds s' | r \<Rightarrow> r)"
  by (induction es arbitrary: s) (auto split: option.split progress.split)

lemma loop_is_events: "initial_loop ws s = initial_events (reported ws) s"
proof (induction ws arbitrary: s)
  case (Cons w ws)
  then show ?case by (cases w) (auto simp: reported_def events_append split: option.split progress.split)
qed (simp add: reported_def)

text \<open>a connection that stays open, in segments shorter than the buffer and with room for the answer, gets back
  what it sent, one segment for each of its events, whatever the other connections do, unless an
  \<open>accept\<close> that fails ends the server.\<close>

theorem initial_server_echoes:
  assumes "short_traffic s" and "fd \<noteq> listenfd s" and "fd \<in> set (k_open (initial_kernel s))" and "\<not> c_eof (k_conn (initial_kernel s) fd)"
    and "length (concat (c_in (k_conn (initial_kernel s) fd))) \<le> c_room (k_conn (initial_kernel s) fd)"
  shows "\<exists>r. initial_loop ws s = Some r \<and> (\<forall>s'. r = Running s' \<longrightarrow> short_traffic s' \<and>
    echoed fd (length (filter (own_event fd) (reported ws))) s s')"
  using initial_events_echo [OF assms] unfolding loop_is_events by blast

definition initial_example :: "nat \<Rightarrow> initial" where
  "initial_example n = \<lparr>listenfd = 3, initial_epfd = 4, buff = replicate 4096 0,
     initial_kernel = \<lparr>k_open = [0, 1, 2, 3, 4, 5], k_interest = Map.empty, k_backlog = (\<lambda>_. []), k_fcntl = (\<lambda>_. True),
       k_conn = (\<lambda>_. \<lparr>c_in = [], c_eof = False, c_room = 0\<rparr>)(5 := \<lparr>c_in = [replicate n 7, [8, 9]], c_eof = False, c_room = 9000\<rparr>),
       k_out = (\<lambda>_. [])\<rparr>\<rparr>"

theorem initial_server_echoes_witness:
  "\<exists>r. initial_loop [Some [(5, EPOLLIN)], None, Some [(5, EPOLLIN)]] (initial_example 3) = Some r \<and>
    (\<forall>s'. r = Running s' \<longrightarrow> k_out (initial_kernel s') 5 = [7, 7, 7, 8, 9])"
proof -
  have "short_traffic (initial_example 3)" by (auto simp: initial_example_def short_traffic_def short_segments_def)
  from initial_server_echoes [OF this, of 5 "[Some [(5, EPOLLIN)], None, Some [(5, EPOLLIN)]]"]
  show ?thesis by (auto simp: initial_example_def own_event_def echoed_def reported_def numeral_2_eq_2 numeral_3_eq_3)
qed

text \<open>a segment that fills the buffer makes the program write the null byte behind the buffer.\<close>

theorem initial_full_buffer_overflows:
  assumes "fd \<noteq> listenfd s" and "length (buff s) = MAX_LEN" and "c_in (k_conn (initial_kernel s) fd) = seg # segs" and "MAX_LEN \<le> length seg"
  shows "initial_event (fd, EPOLLIN) s = None"
  using assms by (auto simp: initial_event_def recv_bytes_def write_at_def)

theorem initial_full_buffer_overflows_witness: "initial_event (5, EPOLLIN) (initial_example 4096) = None"
  by (rule initial_full_buffer_overflows [where seg = "replicate 4096 7" and segs = "[[8, 9]]"]) (simp_all add: initial_example_def)

text \<open>an \<open>accept\<close> that fails ends the server for all its connections: the connection that was reported may
  have been reset before it is accepted.\<close>

theorem initial_accept_failure_ends_server:
  assumes "k_backlog (initial_kernel s) (listenfd s) = []"
  shows "initial_loop (Some ((listenfd s, evs) # es) # ws) s = Some (Exited s)"
  using assms by (simp add: initial_event_def accept_conn_def)

theorem initial_accept_failure_ends_server_witness:
  "initial_loop [Some [(3, EPOLLIN), (5, EPOLLIN)], Some [(5, EPOLLIN)]] (initial_example 3) = Some (Exited (initial_example 3))"
  using initial_accept_failure_ends_server [of "initial_example 3" EPOLLIN "[(5, EPOLLIN)]" "[Some [(5, EPOLLIN)]]"]
  by (simp add: initial_example_def)

end
