(* ===== verification/Interleave.thy ===== *)
theory Interleave
  imports Prelude
begin

text \<open>
  Runs of programs with several threads. A schedule is the list of what happens, in order: which thread
  makes its next atomic access to shared memory, or which call it begins. \<open>run\<close> follows a schedule; the
  locale has what all such programs share: what each action keeps, every schedule keeps, and a schedule of
  \<open>n\<close> actions reaches at most the \<open>n\<close>-th stage of an invariant that may count.
\<close>

fun run :: "('a \<Rightarrow> 's \<Rightarrow> 's option) \<Rightarrow> 'a list \<Rightarrow> 's \<Rightarrow> 's option" where
  "run act [] s = Some s"
| "run act (a # as) s = (case act a s of None \<Rightarrow> None | Some s' \<Rightarrow> run act as s')"

lemma run_append: "run act (as @ bs) s = Option.bind (run act as s) (run act bs)"
  by (induction as arbitrary: s) (auto split: option.split)

lemma run_appendI: "run act as s = Some s' \<Longrightarrow> run act bs s' = Some s'' \<Longrightarrow> run act (as @ bs) s = Some s''"
  by (simp add: run_append)

lemma run_invariant: "run act as s = Some s' \<Longrightarrow> P s \<Longrightarrow> (\<And>a s s'. P s \<Longrightarrow> act a s = Some s' \<Longrightarrow> P s') \<Longrightarrow> P s'"
  by (induction as arbitrary: s) (auto split: option.splits)

locale interleaving =
  fixes act :: "'a \<Rightarrow> 's \<Rightarrow> 's option"
    and stage :: "nat \<Rightarrow> 's \<Rightarrow> bool"
    and bound :: nat
  assumes act_keeps: "stage n s \<Longrightarrow> n < bound \<Longrightarrow> act a s = Some s' \<Longrightarrow> stage (Suc n) s'"
begin

lemma run_keeps: "stage n s \<Longrightarrow> n + length as \<le> bound \<Longrightarrow> run act as s = Some s' \<Longrightarrow> stage (n + length as) s'"
proof (induction as arbitrary: n s)
  case (Cons a as)
  obtain t where t: "act a s = Some t" "run act as t = Some s'" using Cons.prems(3) by (auto split: option.splits)
  have "stage (Suc n) t" using act_keeps [OF Cons.prems(1) _ t(1)] Cons.prems(2) by simp
  then show ?case using Cons.IH [of "Suc n" t] Cons.prems(2) t(2) by simp
qed simp

end

text \<open>Updating one place of a list of threads.\<close>

lemma sum_list_place: "t < length ps \<Longrightarrow> (\<Sum>p\<leftarrow>ps[t := q]. f p) = (\<Sum>p\<leftarrow>ps. f p) - f (ps ! t) + (f q :: 'b :: ab_group_add)"
proof (induction ps arbitrary: t)
  case (Cons p ps)
  then show ?case by (cases t) (auto simp: algebra_simps)
qed simp

lemma nth_place: "t < length ps \<Longrightarrow> ps[t := q] ! u = (if u = t then q else ps ! u)"
  by (simp add: nth_list_update)

end
