(* ===== verification/LockFreeQueue.thy ===== *)
theory LockFreeQueue
  imports Interleave "HOL-Library.Word"
begin

text \<open>
  The queue of \<^verbatim>\<open>ArrayLockFreeQueue.h\<close> and \<^verbatim>\<open>ArrayLockFreeQueueImp.h\<close> under any number of threads.
  The indices are machine words of any width \<open>'w\<close> (\<open>unsigned long\<close>), with their wrap-around. A thread
  that calls \<open>enqueue\<close> or \<open>dequeue\<close> makes one access to a shared variable at a time: each constructor of
  \<open>place\<close> is the point in the code before one such access, with the values of the local variables that
  are still used. The atomic builtins are full barriers and the variables are volatile, so the accesses
  of all threads are one sequence.
\<close>

section \<open>The object and the builtins\<close>

record ('e, 'i) alfq =
  m_thequeue :: "'e list"
  m_count :: 'i
  m_writeIndex :: 'i
  m_readIndex :: 'i
  m_maximumReadIndex :: 'i

text \<open>The constructor; the array is not initialised.\<close>

definition ArrayLockFreeQueue :: "'e list \<Rightarrow> ('e, 'w :: len word) alfq" where
  "ArrayLockFreeQueue garbage =
     \<lparr>m_thequeue = garbage, m_count = 0, m_writeIndex = 0, m_readIndex = 0, m_maximumReadIndex = 0\<rparr>"

text \<open>\<open>CAS\<close> of \<^verbatim>\<open>atom_opt.h\<close>: whether it succeeds, and the new value.\<close>

definition CAS :: "'w :: len word \<Rightarrow> 'w word \<Rightarrow> 'w word \<Rightarrow> bool \<times> 'w word" where
  "CAS x old new = (if x = old then (True, new) else (False, x))"

definition AtomicAdd :: "'w :: len word \<Rightarrow> 'w word \<Rightarrow> 'w word" where
  "AtomicAdd x n = x + n"

definition AtomicSub :: "'w :: len word \<Rightarrow> 'w word \<Rightarrow> 'w word" where
  "AtomicSub x n = x - n"

definition countToIndex :: "'w :: len word \<Rightarrow> 'w word \<Rightarrow> 'w word" where
  "countToIndex Q a_count = a_count mod Q"

text \<open>The method \<open>size\<close>, from the two values it reads.\<close>

definition queue_size :: "'w :: len word \<Rightarrow> 'w word \<Rightarrow> 'w word \<Rightarrow> 'w word" where
  "queue_size Q currentWriteIndex currentReadIndex =
     (if currentReadIndex \<le> currentWriteIndex then currentWriteIndex - currentReadIndex
      else Q + currentWriteIndex - currentReadIndex)"

section \<open>The operations, one access at a time\<close>

datatype ('e, 'i) place =
  Idle
| EnqWrite 'e
| EnqRead 'e 'i
| EnqCas 'e 'i
| EnqStore 'e 'i
| EnqPublish 'e 'i
| EnqCount 'e
| DeqRead
| DeqMaximum 'i
| DeqLoad 'i
| DeqCas 'i 'e
| DeqCount 'e

text \<open>What can be seen of a call: its reservation of a place, its taking of an element, its result.\<close>

datatype 'e event = Reserved 'e | Taken 'e | Enqueued 'e bool | Dequeued "'e option"

fun enqueue :: "'w :: len word \<Rightarrow> ('e, 'w word) place \<Rightarrow> ('e, 'w word) alfq \<Rightarrow> ('e, 'w word) place \<times> ('e, 'w word) alfq \<times> 'e event list" where
  "enqueue Q (EnqWrite v) q = (EnqRead v (m_writeIndex q), q, [])"
| "enqueue Q (EnqRead v w) q =
     (if countToIndex Q (w + 1) = countToIndex Q (m_readIndex q) then (Idle, q, [Enqueued v False])
      else (EnqCas v w, q, []))"
| "enqueue Q (EnqCas v w) q =
     (let (ok, x) = CAS (m_writeIndex q) w (w + 1) in
      if ok then (EnqStore v w, q\<lparr>m_writeIndex := x\<rparr>, [Reserved v]) else (EnqWrite v, q, []))"
| "enqueue Q (EnqStore v w) q =
     (EnqPublish v w, q\<lparr>m_thequeue := (m_thequeue q)[unat (countToIndex Q w) := v]\<rparr>, [])"
| "enqueue Q (EnqPublish v w) q =
     (let (ok, x) = CAS (m_maximumReadIndex q) w (w + 1) in
      if ok then (EnqCount v, q\<lparr>m_maximumReadIndex := x\<rparr>, []) else (EnqPublish v w, q, []))"
| "enqueue Q (EnqCount v) q = (Idle, q\<lparr>m_count := AtomicAdd (m_count q) 1\<rparr>, [Enqueued v True])"
| "enqueue Q p q = (p, q, [])"

fun dequeue :: "'w :: len word \<Rightarrow> ('e, 'w word) place \<Rightarrow> ('e, 'w word) alfq \<Rightarrow> ('e, 'w word) place \<times> ('e, 'w word) alfq \<times> 'e event list" where
  "dequeue Q DeqRead q = (DeqMaximum (m_readIndex q), q, [])"
| "dequeue Q (DeqMaximum r) q =
     (if countToIndex Q r = countToIndex Q (m_maximumReadIndex q) then (Idle, q, [Dequeued None])
      else (DeqLoad r, q, []))"
| "dequeue Q (DeqLoad r) q = (DeqCas r (m_thequeue q ! unat (countToIndex Q r)), q, [])"
| "dequeue Q (DeqCas r v) q =
     (let (ok, x) = CAS (m_readIndex q) r (r + 1) in
      if ok then (DeqCount v, q\<lparr>m_readIndex := x\<rparr>, [Taken v]) else (DeqRead, q, []))"
| "dequeue Q (DeqCount v) q = (Idle, q\<lparr>m_count := AtomicSub (m_count q) 1\<rparr>, [Dequeued (Some v)])"
| "dequeue Q p q = (p, q, [])"

section \<open>Threads that call them\<close>

record ('e, 'i) qsys =
  object :: "('e, 'i) alfq"
  places :: "('e, 'i) place list"
  history :: "(nat \<times> 'e event) list"

datatype 'e qcall = Enqueue nat 'e | Dequeue nat | Go nat

fun enqueuing :: "('e, 'w :: len word) place \<Rightarrow> bool" where
  "enqueuing (EnqWrite v) = True"
| "enqueuing (EnqRead v w) = True"
| "enqueuing (EnqCas v w) = True"
| "enqueuing (EnqStore v w) = True"
| "enqueuing (EnqPublish v w) = True"
| "enqueuing (EnqCount v) = True"
| "enqueuing p = False"

definition advance :: "nat \<Rightarrow> ('e, 'w :: len word) place \<Rightarrow> ('e, 'w word) alfq \<Rightarrow> 'e event list \<Rightarrow> ('e, 'w word) qsys \<Rightarrow> ('e, 'w word) qsys" where
  "advance t p q es s = \<lparr>object = q, places = (places s)[t := p], history = history s @ map (Pair t) es\<rparr>"

definition go :: "'w :: len word \<Rightarrow> nat \<Rightarrow> ('e, 'w word) qsys \<Rightarrow> ('e, 'w word) qsys" where
  "go Q t s = (let (p, q, es) = (if enqueuing (places s ! t) then enqueue else dequeue) Q (places s ! t) (object s)
     in advance t p q es s)"

text \<open>A call begins when the thread is in no other; \<open>try_dequeue\<close> is \<open>dequeue\<close>.\<close>

fun qact :: "'w :: len word \<Rightarrow> 'e qcall \<Rightarrow> ('e, 'w word) qsys \<Rightarrow> ('e, 'w word) qsys option" where
  "qact Q (Enqueue t v) s =
     (if t < length (places s) \<and> places s ! t = Idle then Some (advance t (EnqWrite v) (object s) [] s) else None)"
| "qact Q (Dequeue t) s =
     (if t < length (places s) \<and> places s ! t = Idle then Some (advance t DeqRead (object s) [] s) else None)"
| "qact Q (Go t) s = (if t < length (places s) \<and> places s ! t \<noteq> Idle then Some (go Q t s) else None)"

definition qstart :: "'e list \<Rightarrow> nat \<Rightarrow> ('e, 'w :: len word) qsys" where
  "qstart garbage threads =
     \<lparr>object = ArrayLockFreeQueue garbage, places = replicate threads Idle, history = []\<rparr>"

section \<open>What the history says\<close>

fun reserved_of :: "'e event \<Rightarrow> 'e list" where
  "reserved_of (Reserved v) = [v]"
| "reserved_of e = []"

fun taken_of :: "'e event \<Rightarrow> 'e list" where
  "taken_of (Taken v) = [v]"
| "taken_of e = []"

fun enqueued_of :: "'e event \<Rightarrow> 'e list" where
  "enqueued_of (Enqueued v True) = [v]"
| "enqueued_of e = []"

fun dequeued_of :: "'e event \<Rightarrow> 'e list" where
  "dequeued_of (Dequeued (Some v)) = [v]"
| "dequeued_of e = []"

text \<open>The elements in the order in which their places were reserved, and in which they were taken.\<close>

definition reserved :: "('e, 'w :: len word) qsys \<Rightarrow> 'e list" where
  "reserved s = concat (map (reserved_of \<circ> snd) (history s))"

definition taken :: "('e, 'w :: len word) qsys \<Rightarrow> 'e list" where
  "taken s = concat (map (taken_of \<circ> snd) (history s))"

text \<open>The part of the history that belongs to one thread.\<close>

definition by_thread :: "('e event \<Rightarrow> 'e list) \<Rightarrow> nat \<Rightarrow> ('e, 'w :: len word) qsys \<Rightarrow> 'e list" where
  "by_thread f t s = concat (map (f \<circ> snd) (filter (\<lambda>h. fst h = t) (history s)))"

lemmas history_defs = reserved_def taken_def by_thread_def

end
