(* ===== verification/LockFreeQueue_Inv.thy ===== *)
theory LockFreeQueue_Inv
  imports LockFreeQueue
begin

text \<open>
  What every interleaving of calls of the queue keeps. \<open>core_inv\<close> is over naturals: the elements that were
  reserved, how many of them were taken (\<open>R\<close>) and how many published (\<open>X\<close>), the array, and the places of
  the threads; one lemma for each access that changes them. \<open>queue_inv\<close> ties it to the words of the object.
\<close>

section \<open>The invariant over naturals\<close>

text \<open>The index a thread has reserved and not yet published.\<close>

fun holds :: "('e, 'w :: len word) place \<Rightarrow> nat option" where
  "holds (EnqStore v w) = Some (unat w)"
| "holds (EnqPublish v w) = Some (unat w)"
| "holds p = None"

fun place_ok :: "nat \<Rightarrow> 'e list \<Rightarrow> 'e list \<Rightarrow> nat \<Rightarrow> nat \<Rightarrow> ('e, 'w :: len word) place \<Rightarrow> bool" where
  "place_ok Q arr res R X (EnqRead v w) = (unat w \<le> length res)"
| "place_ok Q arr res R X (EnqCas v w) = (unat w \<le> length res \<and> (unat w = length res \<longrightarrow> length res + 1 < R + Q))"
| "place_ok Q arr res R X (EnqStore v w) = (X \<le> unat w \<and> unat w < length res \<and> res ! unat w = v)"
| "place_ok Q arr res R X (EnqPublish v w) =
     (X \<le> unat w \<and> unat w < length res \<and> res ! unat w = v \<and> arr ! (unat w mod Q) = v)"
| "place_ok Q arr res R X (DeqMaximum r) = (unat r \<le> R)"
| "place_ok Q arr res R X (DeqLoad r) = (unat r \<le> R \<and> (unat r = R \<longrightarrow> R < X))"
| "place_ok Q arr res R X (DeqCas r v) = (unat r \<le> R \<and> (unat r = R \<longrightarrow> R < X \<and> res ! R = v))"
| "place_ok Q arr res R X p = True"

text \<open>Each index between the published ones and the reserved ones is held by one thread.\<close>

definition owned :: "nat \<Rightarrow> nat \<Rightarrow> nat option list \<Rightarrow> bool" where
  "owned X W hs \<longleftrightarrow> (\<forall>k. X \<le> k \<and> k < W \<longrightarrow> (\<exists>t<length hs. hs ! t = Some k)) \<and>
     (\<forall>t u k. t < length hs \<longrightarrow> u < length hs \<longrightarrow> hs ! t = Some k \<longrightarrow> hs ! u = Some k \<longrightarrow> t = u)"

definition core_inv :: "nat \<Rightarrow> 'e list \<Rightarrow> 'e list \<Rightarrow> nat \<Rightarrow> nat \<Rightarrow> ('e, 'w :: len word) place list \<Rightarrow> bool" where
  "core_inv Q arr res R X ps \<longleftrightarrow> length arr = Q \<and> R \<le> X \<and> X \<le> length res \<and> length res < R + Q \<and>
     (\<forall>k. R \<le> k \<and> k < X \<longrightarrow> arr ! (k mod Q) = res ! k) \<and>
     (\<forall>t<length ps. place_ok Q arr res R X (ps ! t)) \<and>
     owned X (length res) (map holds ps)"

lemma core_start: "length arr = Q \<Longrightarrow> 0 < Q \<Longrightarrow> core_inv Q arr [] 0 0 (replicate n Idle)"
  by (simp add: core_inv_def owned_def)

lemma owned_one: "owned X W (map holds ps) \<Longrightarrow> t < length ps \<Longrightarrow> u < length ps \<Longrightarrow> holds (ps ! t) = Some k \<Longrightarrow>
    holds (ps ! u) = Some k \<Longrightarrow> t = u"
  by (simp add: owned_def)

lemma owned_some: "owned X W (map holds ps) \<Longrightarrow> X \<le> k \<Longrightarrow> k < W \<Longrightarrow> \<exists>t<length ps. holds (ps ! t) = Some k"
  unfolding owned_def by (metis length_map nth_map)

lemma owned_new:
  assumes o: "owned X W hs" and t: "t < length hs" "hs ! t = None" and low: "\<And>u k. u < length hs \<Longrightarrow> hs ! u = Some k \<Longrightarrow> k < W"
  shows "owned X (Suc W) (hs[t := Some W])"
proof -
  have "\<exists>u<length hs. hs[t := Some W] ! u = Some k" if k: "X \<le> k" "k < Suc W" for k
  proof (cases "k = W")
    case True
    then show ?thesis using t(1) by (intro exI [of _ t]) simp
  next
    case False
    then obtain u where "u < length hs" "hs ! u = Some k" using o k unfolding owned_def by auto
    moreover have "u \<noteq> t" using t(2) calculation by auto
    ultimately show ?thesis by (intro exI [of _ u]) simp
  qed
  moreover have "a = b" if "a < length hs" "b < length hs" "hs[t := Some W] ! a = Some k" "hs[t := Some W] ! b = Some k" for a b k
  proof -
    have l: "hs ! u \<noteq> Some W" if "u < length hs" for u using low [OF that] by auto
    show ?thesis using that o l t(1) unfolding owned_def by (simp add: nth_list_update split: if_splits)
  qed
  ultimately show ?thesis by (simp add: owned_def)
qed

lemma owned_free:
  assumes o: "owned X W hs" and t: "t < length hs" "hs ! t = Some X"
  shows "owned (Suc X) W (hs[t := None])"
proof -
  have "\<exists>u<length hs. hs[t := None] ! u = Some k" if k: "Suc X \<le> k" "k < W" for k
  proof -
    obtain u where "u < length hs" "hs ! u = Some k" using o k unfolding owned_def by (metis Suc_leD)
    moreover have "u \<noteq> t" using t(2) k calculation by auto
    ultimately show ?thesis by (intro exI [of _ u]) simp
  qed
  moreover have "a = b" if "a < length hs" "b < length hs" "hs[t := None] ! a = Some k" "hs[t := None] ! b = Some k" for a b k
    using that o t(1) unfolding owned_def by (simp add: nth_list_update split: if_splits)
  ultimately show ?thesis by (simp add: owned_def)
qed

text \<open>Two indices less than \<open>Q\<close> apart have different slots.\<close>

lemma slots_apart: "(j :: nat) < k \<Longrightarrow> k < j + Q \<Longrightarrow> k mod Q \<noteq> j mod Q"
proof
  assume jk: "j < k" "k < j + Q" and eq: "k mod Q = j mod Q"
  then have "(k - j) mod Q = 0" by (metis mod_eq_dvd_iff_nat dvd_imp_mod_0 less_imp_le)
  then show False using jk by auto
qed

lemma slots_differ: "(j :: nat) \<noteq> k \<Longrightarrow> R \<le> j \<Longrightarrow> R \<le> k \<Longrightarrow> j < R + Q \<Longrightarrow> k < R + Q \<Longrightarrow> k mod Q \<noteq> j mod Q"
  using slots_apart [of j k Q] slots_apart [of k j Q] by (cases "j < k") auto

text \<open>A thread that holds nothing goes to another such place.\<close>

lemma core_move:
  assumes c: "core_inv Q arr res R X ps" and t: "holds (ps ! t) = None"
    and p: "place_ok Q arr res R X p" "holds p = None"
  shows "core_inv Q arr res R X (ps[t := p])"
proof -
  have "map holds (ps[t := p]) = map holds ps"
    using t p(2) by (cases "t < length ps") (simp_all add: map_update list_update_same_conv list_update_beyond)
  moreover have "u < length ps \<Longrightarrow> place_ok Q arr res R X (ps[t := p] ! u)" for u
    using c p(1) unfolding core_inv_def by (cases "t < length ps") (auto simp: nth_list_update)
  ultimately show ?thesis using c unfolding core_inv_def by simp
qed

lemma core_reserve:
  assumes c: "core_inv Q arr res R X ps" and t: "t < length ps" "ps ! t = EnqCas v w" and w: "unat w = length res"
  shows "core_inv Q arr (res @ [v]) R X (ps[t := EnqStore v w])"
proof -
  have room: "length res + 1 < R + Q" using c t w by (fastforce simp: core_inv_def)
  have low: "k < length res" if "u < length ps" "holds (ps ! u) = Some k" for u k
  proof -
    have "place_ok Q arr res R X (ps ! u)" using c that(1) by (simp add: core_inv_def)
    then show ?thesis using that(2) by (cases "ps ! u") auto
  qed
  have "owned X (Suc (length res)) ((map holds ps)[t := Some (length res)])"
    by (rule owned_new) (use c t low in \<open>auto simp: core_inv_def\<close>)
  then have own: "owned X (length (res @ [v])) (map holds (ps[t := EnqStore v w]))" using w by (simp add: map_update)
  have ok: "place_ok Q arr (res @ [v]) R X (ps[t := EnqStore v w] ! u)" if u: "u < length ps" for u
  proof (cases "u = t")
    case True
    then show ?thesis using t w c by (simp add: core_inv_def)
  next
    case False
    have "place_ok Q arr res R X (ps ! u)" using c u by (simp add: core_inv_def)
    moreover have "R \<le> X" "X \<le> length res" using c by (simp_all add: core_inv_def)
    ultimately show ?thesis using False by (cases "ps ! u") (auto simp: nth_append)
  qed
  show ?thesis using c room ok own unfolding core_inv_def by (auto simp: nth_append)
qed

lemma core_store:
  assumes c: "core_inv Q arr res R X ps" and t: "t < length ps" "ps ! t = EnqStore v w"
  shows "core_inv Q (arr[unat w mod Q := v]) res R X (ps[t := EnqPublish v w])"
proof -
  define k where "k = unat w"
  have k: "X \<le> k" "k < length res" "res ! k = v" using c t unfolding core_inv_def k_def by fastforce+
  have q: "length arr = Q" "R \<le> X" "X \<le> length res" "length res < R + Q" using c by (simp_all add: core_inv_def)
  then have Q: "0 < Q" by linarith
  have same: "arr[k mod Q := v] ! (j mod Q) = arr ! (j mod Q)" if "j \<noteq> k" "R \<le> j" "j < length res" for j
    using slots_differ [of j k R Q] that k q by simp
  have "map holds (ps[t := EnqPublish v w]) = map holds ps" using t by (simp add: map_update list_update_same_conv)
  moreover have "place_ok Q (arr[k mod Q := v]) res R X (ps[t := EnqPublish v w] ! u)" if u: "u < length ps" for u
  proof (cases "u = t")
    case True
    then show ?thesis using t k q Q by (simp add: k_def)
  next
    case False
    have p: "place_ok Q arr res R X (ps ! u)" using c u by (simp add: core_inv_def)
    show ?thesis
    proof (cases "ps ! u")
      case (EnqPublish v' w')
      have "owned X (length res) (map holds ps)" using c by (simp add: core_inv_def)
      then have "unat w' \<noteq> k" using owned_one [of X "length res" ps u t k] u t False EnqPublish k_def by auto
      then show ?thesis using p EnqPublish False same [of "unat w'"] q(2) by simp
    qed (use p False in auto)
  qed
  moreover have "arr[k mod Q := v] ! (j mod Q) = res ! j" if "R \<le> j" "j < X" for j
    using same [of j] that k q c unfolding core_inv_def by auto
  ultimately show ?thesis using c unfolding core_inv_def k_def by simp
qed

lemma core_publish:
  assumes c: "core_inv Q arr res R X ps" and t: "t < length ps" "ps ! t = EnqPublish v w" and w: "unat w = X"
  shows "core_inv Q arr res R (Suc X) (ps[t := EnqCount v])"
proof -
  have x: "X < length res" "arr ! (X mod Q) = res ! X" using c t w unfolding core_inv_def by fastforce+
  have own: "owned X (length res) (map holds ps)" using c by (simp add: core_inv_def)
  have "owned (Suc X) (length res) ((map holds ps)[t := None])" by (rule owned_free) (use own t w in auto)
  then have own': "owned (Suc X) (length res) (map holds (ps[t := EnqCount v]))" by (simp add: map_update)
  have ok: "place_ok Q arr res R (Suc X) (ps[t := EnqCount v] ! u)" if u: "u < length ps" for u
  proof (cases "u = t")
    case False
    have "holds (ps ! u) \<noteq> Some X" using owned_one [OF own u t(1), of X] False t w by auto
    moreover have "place_ok Q arr res R X (ps ! u)" using c u by (simp add: core_inv_def)
    ultimately show ?thesis using False by (cases "ps ! u") (auto simp: less_Suc_eq_le)
  qed (use t in simp)
  show ?thesis using c x ok own' unfolding core_inv_def by (auto simp: less_Suc_eq)
qed

lemma core_take:
  assumes c: "core_inv Q arr res R X ps" and t: "t < length ps" "ps ! t = DeqCas r v" and r: "unat r = R"
  shows "core_inv Q arr res (Suc R) X (ps[t := DeqCount v])" and "R < length res" and "res ! R = v"
proof -
  show x: "R < length res" "res ! R = v" using c t r unfolding core_inv_def by fastforce+
  have RX: "R < X" using c t r unfolding core_inv_def by fastforce
  have ok: "place_ok Q arr res (Suc R) X (ps ! u)" if u: "u < length ps" for u
  proof -
    have "place_ok Q arr res R X (ps ! u)" using c u by (simp add: core_inv_def)
    then show ?thesis using RX by (cases "ps ! u") auto
  qed
  have "core_inv Q arr res (Suc R) X ps" using c RX ok unfolding core_inv_def by auto
  then show "core_inv Q arr res (Suc R) X (ps[t := DeqCount v])" by (rule core_move) (use t in simp_all)
qed

section \<open>The invariant of the program\<close>

definition queue_inv :: "'w :: len word \<Rightarrow> nat \<Rightarrow> ('e, 'w word) qsys \<Rightarrow> bool" where
  "queue_inv Q n s \<longleftrightarrow> length (reserved s) \<le> n \<and> taken s = take (length (taken s)) (reserved s) \<and>
     m_writeIndex (object s) = of_nat (length (reserved s)) \<and> m_readIndex (object s) = of_nat (length (taken s)) \<and>
     core_inv (unat Q) (m_thequeue (object s)) (reserved s) (length (taken s)) (unat (m_maximumReadIndex (object s))) (places s)"

lemma advance_simps [simp]:
  "object (advance t p q es s) = q" "places (advance t p q es s) = (places s)[t := p]"
  "reserved (advance t p q es s) = reserved s @ concat (map reserved_of es)"
  "taken (advance t p q es s) = taken s @ concat (map taken_of es)"
  "by_thread f u (advance t p q es s) = by_thread f u s @ (if u = t then concat (map f es) else [])"
  by (simp_all add: advance_def history_defs filter_map comp_def)

lemma queue_inv_start: "length garbage = unat Q \<Longrightarrow> Q \<noteq> 0 \<Longrightarrow> queue_inv Q 0 (qstart garbage threads)"
  using core_start [of garbage "unat Q" threads]
  by (simp add: queue_inv_def qstart_def ArrayLockFreeQueue_def history_defs unat_gt_0)

lemma same_slot: "countToIndex Q a = countToIndex Q b \<longleftrightarrow> unat a mod unat Q = unat b mod unat Q"
  by (simp add: countToIndex_def word_unat_eq_iff unat_mod_distrib)

lemma unat_next: "unat (x :: 'w :: len word) < 2 ^ LENGTH('w) - 1 \<Longrightarrow> unat (x + 1) = unat x + 1"
  by (subst unat_add_lem [THEN iffD1]) simp_all

lemma unat_small: "n < 2 ^ LENGTH('w :: len) \<Longrightarrow> unat (of_nat n :: 'w word) = n"
  by (simp add: unat_of_nat)

lemma queue_inv_move:
  assumes i: "queue_inv Q n s" and t: "holds (places s ! t) = None" and p: "holds p = None"
    and ok: "place_ok (unat Q) (m_thequeue (object s)) (reserved s) (length (taken s)) (unat (m_maximumReadIndex (object s))) p"
    and es: "concat (map reserved_of es) = []" "concat (map taken_of es) = []"
    and q: "m_thequeue q = m_thequeue (object s)" "m_writeIndex q = m_writeIndex (object s)"
      "m_readIndex q = m_readIndex (object s)" "m_maximumReadIndex q = m_maximumReadIndex (object s)"
  shows "queue_inv Q (Suc n) (advance t p q es s)"
  using i core_move [OF _ t ok p] es q unfolding queue_inv_def by (simp del: concat_eq_Nil_conv)

lemma enqueue_keeps:
  assumes i: "queue_inv Q n s" and n: "n < 2 ^ LENGTH('w) - 1" and t: "t < length (places s)" "enqueuing (places s ! t)"
    and e: "enqueue Q (places s ! t) (object s) = (p, q, es)"
  shows "queue_inv (Q :: 'w :: len word) (Suc n) (advance t p q es s)"
proof -
  define W where "W = length (reserved s)"
  define R where "R = length (taken s)"
  define X where "X = unat (m_maximumReadIndex (object s))"
  have c: "core_inv (unat Q) (m_thequeue (object s)) (reserved s) R X (places s)"
    using i by (simp add: queue_inv_def R_def X_def)
  have ok: "place_ok (unat Q) (m_thequeue (object s)) (reserved s) R X (places s ! t)" using c t by (simp add: core_inv_def)
  have b: "R \<le> X" "X \<le> W" "W < R + unat Q" "W \<le> n" "R < 2 ^ LENGTH('w)" "W < 2 ^ LENGTH('w) - 1" and rd: "unat (m_readIndex (object s)) = R"
    and wr: "unat (m_writeIndex (object s)) = W"
    using c i n by (auto simp: core_inv_def queue_inv_def R_def X_def W_def unat_small)
  note move = queue_inv_move [OF i, of t, folded R_def X_def]
  show ?thesis
  proof (cases "places s ! t")
    case (EnqWrite v)
    then show ?thesis by (intro move) (use e wr in \<open>auto simp: W_def\<close>)
  next
    case (EnqRead v w)
    have w: "unat w \<le> W" using ok EnqRead by (simp add: W_def)
    then have "unat (w + 1) = unat w + 1" using b(6) by (intro unat_next) simp
    then have same: "countToIndex Q (w + 1) = countToIndex Q (m_readIndex (object s)) \<longleftrightarrow> (unat w + 1) mod unat Q = R mod unat Q"
      by (simp add: same_slot rd)
    show ?thesis
    proof (cases "(unat w + 1) mod unat Q = R mod unat Q")
      case True
      then show ?thesis by (intro move) (use e EnqRead same in auto)
    next
      case False
      then have "W + 1 \<noteq> R + unat Q" if "unat w = W" using that by auto
      then have "place_ok (unat Q) (m_thequeue (object s)) (reserved s) R X (EnqCas v w)"
        using w b(3) by (auto simp: W_def)
      then show ?thesis by (intro move) (use e EnqRead same False in auto)
    qed
  next
    case (EnqCas v w)
    show ?thesis
    proof (cases "m_writeIndex (object s) = w")
      case True
      then have uw: "unat w = length (reserved s)" using wr by (simp add: W_def)
      have "w + 1 = of_nat (length (reserved s) + 1)" using True i by (simp add: queue_inv_def algebra_simps)
      moreover have "core_inv (unat Q) (m_thequeue (object s)) (reserved s @ [v]) R X ((places s)[t := EnqStore v w])"
        by (rule core_reserve [OF c t(1) EnqCas uw])
      ultimately show ?thesis using e EnqCas True i b unfolding queue_inv_def
        by (auto simp: CAS_def R_def X_def W_def)
    next
      case False
      then show ?thesis by (intro move) (use e EnqCas in \<open>auto simp: CAS_def\<close>)
    qed
  next
    case (EnqStore v w)
    have "unat (countToIndex Q w) = unat w mod unat Q" by (simp add: countToIndex_def unat_mod_distrib)
    then show ?thesis using core_store [OF c t(1) EnqStore] e EnqStore i unfolding queue_inv_def
      by (auto simp: R_def X_def)
  next
    case (EnqPublish v w)
    show ?thesis
    proof (cases "m_maximumReadIndex (object s) = w")
      case True
      then have "unat w = X" by (simp add: X_def)
      moreover have "unat w < W" using ok EnqPublish by (simp add: W_def)
      ultimately show ?thesis
        using core_publish [OF c t(1) EnqPublish] unat_next [of w] b(6) e EnqPublish True i unfolding queue_inv_def
        by (auto simp: CAS_def R_def X_def)
    next
      case False
      have "(places s)[t := EnqPublish v w] = places s" using EnqPublish by (simp add: list_update_same_conv t)
      then show ?thesis using e EnqPublish False i unfolding queue_inv_def by (auto simp: CAS_def)
    qed
  next
    case (EnqCount v)
    then show ?thesis by (intro move) (use e in auto)
  qed (use t in auto)
qed

lemma dequeue_keeps:
  assumes i: "queue_inv Q n s" and n: "n < 2 ^ LENGTH('w) - 1" and t: "t < length (places s)" "\<not> enqueuing (places s ! t)"
    and e: "dequeue Q (places s ! t) (object s) = (p, q, es)"
  shows "queue_inv (Q :: 'w :: len word) (Suc n) (advance t p q es s)"
proof -
  define R where "R = length (taken s)"
  define X where "X = unat (m_maximumReadIndex (object s))"
  have c: "core_inv (unat Q) (m_thequeue (object s)) (reserved s) R X (places s)"
    using i by (simp add: queue_inv_def R_def X_def)
  have ok: "place_ok (unat Q) (m_thequeue (object s)) (reserved s) R X (places s ! t)" using c t by (simp add: core_inv_def)
  have b: "R \<le> X" "R < 2 ^ LENGTH('w)" and rd: "unat (m_readIndex (object s)) = R"
    using c i n by (auto simp: core_inv_def queue_inv_def R_def X_def unat_small)
  note move = queue_inv_move [OF i, of t, folded R_def X_def]
  show ?thesis
  proof (cases "places s ! t")
    case DeqRead
    then show ?thesis by (intro move) (use e rd in auto)
  next
    case (DeqMaximum r)
    have same: "countToIndex Q r = countToIndex Q (m_maximumReadIndex (object s)) \<longleftrightarrow> unat r mod unat Q = X mod unat Q"
      by (simp add: same_slot X_def)
    have "R < X" if "unat r = R" "unat r mod unat Q \<noteq> X mod unat Q" using that b(1) by (cases "R = X") auto
    then show ?thesis by (intro move) (use e DeqMaximum same ok in \<open>auto split: if_splits\<close>)
  next
    case (DeqLoad r)
    have "unat (countToIndex Q r) = unat r mod unat Q" by (simp add: countToIndex_def unat_mod_distrib)
    moreover have "m_thequeue (object s) ! (R mod unat Q) = reserved s ! R" if "R < X" using c that by (simp add: core_inv_def)
    ultimately show ?thesis by (intro move) (use e DeqLoad ok in auto)
  next
    case (DeqCas r v)
    show ?thesis
    proof (cases "m_readIndex (object s) = r")
      case True
      then have ur: "unat r = R" using rd by simp
      note take = core_take [OF c t(1) DeqCas ur]
      have "r + 1 = of_nat (R + 1)" using True i by (simp add: queue_inv_def R_def algebra_simps)
      moreover have "taken s @ [v] = take (length (taken s @ [v])) (reserved s)"
      proof -
        have "taken s = take R (reserved s)" using i by (simp add: queue_inv_def R_def)
        then show ?thesis using take(2,3) by (simp add: take_Suc_conv_app_nth R_def)
      qed
      ultimately show ?thesis using e DeqCas True i take(1) unfolding queue_inv_def by (auto simp: CAS_def R_def X_def)
    next
      case False
      then show ?thesis by (intro move) (use e DeqCas in \<open>auto simp: CAS_def\<close>)
    qed
  next
    case (DeqCount v)
    then show ?thesis by (intro move) (use e in auto)
  next
    case Idle
    then show ?thesis by (intro move) (use e in auto)
  qed (use t in auto)
qed

lemma queue_inv_Suc: "queue_inv Q n s \<Longrightarrow> queue_inv Q (Suc n) s"
  by (simp add: queue_inv_def)

lemma qact_keeps:
  assumes i: "queue_inv Q n s" and n: "n < 2 ^ LENGTH('w) - 1" and a: "qact Q a s = Some s'"
  shows "queue_inv (Q :: 'w :: len word) (Suc n) s'"
proof (cases a)
  case (Enqueue t v)
  then show ?thesis using a queue_inv_move [OF i, of t "EnqWrite v" "[]" "object s"] by (auto split: if_splits)
next
  case (Dequeue t)
  then show ?thesis using a queue_inv_move [OF i, of t DeqRead "[]" "object s"] by (auto split: if_splits)
next
  case (Go t)
  then show ?thesis using a enqueue_keeps [OF i n, of t] dequeue_keeps [OF i n, of t]
    by (auto simp: go_def Let_def split: if_splits prod.splits)
qed

text \<open>The stages of the queue: at most one reservation for each action.\<close>

interpretation queue_runs: interleaving "qact (Q :: 'w :: len word)" "queue_inv Q" "2 ^ LENGTH('w) - 1" for Q
  by unfold_locales (rule qact_keeps)

section \<open>Each thread and the counter\<close>

text \<open>What a thread has reserved and not yet reported.\<close>

fun unreported :: "('e, 'w :: len word) place \<Rightarrow> 'e list" where
  "unreported (EnqStore v w) = [v]"
| "unreported (EnqPublish v w) = [v]"
| "unreported (EnqCount v) = [v]"
| "unreported p = []"

fun undelivered :: "('e, 'w :: len word) place \<Rightarrow> 'e list" where
  "undelivered (DeqCount v) = [v]"
| "undelivered p = []"

definition owed :: "('e, 'w :: len word) place \<Rightarrow> 'w word" where
  "owed p = of_nat (length (unreported p)) - of_nat (length (undelivered p))"

definition report_inv :: "('e, 'w :: len word) qsys \<Rightarrow> bool" where
  "report_inv s \<longleftrightarrow> (\<forall>t<length (places s). by_thread reserved_of t s = by_thread enqueued_of t s @ unreported (places s ! t) \<and>
       by_thread taken_of t s = by_thread dequeued_of t s @ undelivered (places s ! t)) \<and>
     m_count (object s) + (\<Sum>p\<leftarrow>places s. owed p) = of_nat (length (reserved s)) - of_nat (length (taken s))"

lemma report_inv_start: "report_inv (qstart garbage threads)"
proof -
  have "(\<Sum>p\<leftarrow>replicate threads Idle. owed p) = (0 :: 'w :: len word)" by (induction threads) (simp_all add: owed_def)
  then show ?thesis by (simp add: report_inv_def qstart_def ArrayLockFreeQueue_def history_defs)
qed

lemma balance:
  fixes x :: "'a :: ab_group_add"
  assumes "m + S = x - y" "ur + er = ee + up" "ud + et = ed + pd"
  shows "m + ee - ed + (S - (ur - ud) + (up - pd)) = x + er - (y + et)"
proof -
  have x: "x = m + S + y" and er: "er = ee + up - ur" and et: "et = ed + pd - ud" using assms by (simp_all add: algebra_simps)
  show ?thesis unfolding x er et by (simp add: algebra_simps)
qed

lemma report_inv_step:
  assumes i: "report_inv s" and t: "t < length (places s)"
    and e: "unreported (places s ! t) @ concat (map reserved_of es) = concat (map enqueued_of es) @ unreported p"
    and d: "undelivered (places s ! t) @ concat (map taken_of es) = concat (map dequeued_of es) @ undelivered p"
    and c: "m_count q = m_count (object s) + of_nat (length (concat (map enqueued_of es))) - of_nat (length (concat (map dequeued_of es)))"
  shows "report_inv (advance t p q es s)"
proof -
  have r: "of_nat (length (unreported (places s ! t))) + of_nat (length (concat (map reserved_of es))) =
      (of_nat (length (concat (map enqueued_of es))) + of_nat (length (unreported p)) :: 'b word)"
    by (simp only: flip: of_nat_add length_append e)
  have k: "of_nat (length (undelivered (places s ! t))) + of_nat (length (concat (map taken_of es))) =
      (of_nat (length (concat (map dequeued_of es))) + of_nat (length (undelivered p)) :: 'b word)"
    by (simp only: flip: of_nat_add length_append d)
  have "m_count (object s) + (\<Sum>p\<leftarrow>places s. owed p) = of_nat (length (reserved s)) - of_nat (length (taken s))"
    using i by (simp add: report_inv_def)
  from balance [OF this r k]
  have "m_count q + (\<Sum>p\<leftarrow>(places s)[t := p]. owed p) = of_nat (length (reserved s @ concat (map reserved_of es))) -
      of_nat (length (taken s @ concat (map taken_of es)))"
    unfolding sum_list_place [OF t] c owed_def length_append of_nat_add .
  then show ?thesis using i t e d unfolding report_inv_def
    by (auto simp: nth_list_update)
qed

lemma qact_reports:
  assumes i: "report_inv s" and a: "qact Q a s = Some s'"
  shows "report_inv s'"
proof (cases a)
  case (Enqueue t v)
  then have "s' = advance t (EnqWrite v) (object s) [] s" "t < length (places s)" "places s ! t = Idle" using a by (simp_all split: if_splits)
  then show ?thesis using report_inv_step [OF i, of t "[]" "EnqWrite v" "object s"] by simp
next
  case (Dequeue t)
  then have "s' = advance t DeqRead (object s) [] s" "t < length (places s)" "places s ! t = Idle" using a by (simp_all split: if_splits)
  then show ?thesis using report_inv_step [OF i, of t "[]" DeqRead "object s"] by simp
next
  case (Go t)
  then have g: "s' = go Q t s" and t: "t < length (places s)" using a by (simp_all split: if_splits)
  show ?thesis
  proof (cases "enqueuing (places s ! t)")
    case True
    obtain p q es where e: "enqueue Q (places s ! t) (object s) = (p, q, es)" by (cases "enqueue Q (places s ! t) (object s)")
    have "report_inv (advance t p q es s)"
      by (rule report_inv_step [OF i t]; insert e True; cases "places s ! t")
        (auto simp: CAS_def AtomicAdd_def dest!: sym [of "EnqPublish _ _"] split: if_splits)
    then show ?thesis using g e True by (simp add: go_def)
  next
    case False
    obtain p q es where e: "dequeue Q (places s ! t) (object s) = (p, q, es)" by (cases "dequeue Q (places s ! t) (object s)")
    have "report_inv (advance t p q es s)"
      by (rule report_inv_step [OF i t]; insert e False; cases "places s ! t")
        (auto simp: CAS_def AtomicSub_def split: if_splits)
    then show ?thesis using g e False by (simp add: go_def)
  qed
qed

lemma qact_threads: "qact Q a s = Some s' \<Longrightarrow> length (places s') = length (places s)"
  by (cases a) (auto simp: go_def Let_def split: if_splits prod.splits)

text \<open>What holds after every schedule of a queue with \<open>Q\<close> slots.\<close>

lemma queue_runs_inv:
  assumes r: "run (qact Q) as (qstart garbage threads) = Some s" and q: "length garbage = unat Q" "Q \<noteq> 0"
    and n: "length as < 2 ^ LENGTH('w)"
  shows "queue_inv (Q :: 'w :: len word) (length as) s" "report_inv s" "length (places s) = threads"
proof -
  show "queue_inv Q (length as) s"
    using queue_runs.run_keeps [OF queue_inv_start [OF q] _ r] n by simp
  show "report_inv s" by (rule run_invariant [OF r, of report_inv]) (use report_inv_start qact_reports in blast)+
  show "length (places s) = threads"
    by (rule run_invariant [OF r, of "\<lambda>s. length (places s) = threads"]) (simp_all add: qstart_def qact_threads)
qed

section \<open>A thread that stops between its reservation and its publication\<close>

lemma go_maximum:
  assumes c: "core_inv (unat Q) (m_thequeue (object s)) (reserved s) R (unat (m_maximumReadIndex (object s))) (places s)"
    and h: "t < length (places s)" "holds (places s ! t) = Some (unat (m_maximumReadIndex (object s)))"
    and u: "u < length (places s)" "u \<noteq> t"
  shows "m_maximumReadIndex (object (go Q u s)) = m_maximumReadIndex (object s)"
proof -
  have own: "owned (unat (m_maximumReadIndex (object s))) (length (reserved s)) (map holds (places s))" using c by (simp add: core_inv_def)
  have "w \<noteq> m_maximumReadIndex (object s)" if "places s ! u = EnqPublish v w" for v w
    using owned_one [OF own h(1) u(1) h(2)] u(2) that by auto
  then show ?thesis by (cases "places s ! u") (auto simp: go_def CAS_def)
qed

lemma qact_stalled:
  assumes i: "queue_inv Q n s" and h: "t < length (places s)" "holds (places s ! t) = Some (unat (m_maximumReadIndex (object s)))"
    and a: "qact Q a s = Some s'" "a \<noteq> Go t"
  shows "m_maximumReadIndex (object s') = m_maximumReadIndex (object s) \<and> places s' ! t = places s ! t"
proof (cases a)
  case (Go u)
  then have u: "u < length (places s)" "u \<noteq> t" "s' = go Q u s" using a by (auto split: if_splits)
  have "m_maximumReadIndex (object (go Q u s)) = m_maximumReadIndex (object s)"
    by (rule go_maximum [where R = "length (taken s)", OF _ h u(1,2)]) (use i in \<open>simp add: queue_inv_def\<close>)
  moreover have "places (go Q u s) ! t = places s ! t" using u(2) by (simp add: go_def Let_def split: prod.splits)
  ultimately show ?thesis using u(3) by simp
qed (use a h in \<open>auto simp: nth_list_update split: if_splits\<close>)

end
