(* ===== verification/LockFreeQueue_Props.thy ===== *)
theory LockFreeQueue_Props
  imports LockFreeQueue_Inv
begin

text \<open>
  The properties of the lock-free queue: it is first in, first out and loses nothing as long as the indices
  have not wrapped; calls can always be brought to an end, but not by every thread alone; a full queue may be
  reported when it is empty; and after the indices have reached the largest word a queue of the default size
  does not work any more.
\<close>

section \<open>First in, first out\<close>

lemma owed_idle: "\<forall>p\<in>set ps. p = Idle \<Longrightarrow> (\<Sum>p\<leftarrow>ps. owed p) = 0"
  by (induction ps) (auto simp: owed_def)

lemma idle_published:
  assumes c: "core_inv Q arr res R X ps" and p: "\<forall>p\<in>set ps. p = Idle"
  shows "X = length res"
proof (rule ccontr)
  assume "X \<noteq> length res"
  then have "X < length res" using c by (simp add: core_inv_def)
  then obtain t where "t < length ps" "holds (ps ! t) = Some X"
    using c owned_some [of X "length res" ps X] unfolding core_inv_def by blast
  moreover from this have "ps ! t = Idle" using p nth_mem by blast
  ultimately show False by simp
qed

lemma quiet_indices:
  assumes q: "queue_inv (Q :: 'w :: len word) n s" "report_inv s" and n: "n < 2 ^ LENGTH('w)" and p: "\<forall>p\<in>set (places s). p = Idle"
  shows "m_maximumReadIndex (object s) = m_writeIndex (object s)"
    "m_count (object s) = of_nat (length (reserved s) - length (taken s))"
    "queue_size Q (m_writeIndex (object s)) (m_readIndex (object s)) = m_count (object s)"
proof -
  have c: "core_inv (unat Q) (m_thequeue (object s)) (reserved s) (length (taken s)) (unat (m_maximumReadIndex (object s))) (places s)"
    and w: "m_writeIndex (object s) = of_nat (length (reserved s))" "m_readIndex (object s) = of_nat (length (taken s))"
    using q(1) by (simp_all add: queue_inv_def)
  have l: "length (taken s) \<le> length (reserved s)" "length (reserved s) < 2 ^ LENGTH('w)"
    using c q(1) n by (auto simp: core_inv_def queue_inv_def)
  have "unat (m_maximumReadIndex (object s)) = length (reserved s)" by (rule idle_published [OF c p])
  then show "m_maximumReadIndex (object s) = m_writeIndex (object s)"
    using w(1) l(2) by (simp add: word_unat_eq_iff unat_small)
  show count: "m_count (object s) = of_nat (length (reserved s) - length (taken s))"
    using q(2) owed_idle [OF p] l(1) by (simp add: report_inv_def of_nat_diff)
  have "m_readIndex (object s) \<le> m_writeIndex (object s)" using l w by (simp add: word_le_nat_alt unat_small)
  then show "queue_size Q (m_writeIndex (object s)) (m_readIndex (object s)) = m_count (object s)"
    using count l(1) w by (simp add: queue_size_def of_nat_diff)
qed

text \<open>C35: after every schedule of calls from any number of threads, shorter than the range of the indices, the
  elements that were taken are, in order, the first of those that were stored, at most \<open>Q_SIZE - 1\<close> are in the
  queue, and what each thread got back is what it took. When no call is under way every element whose
  \<open>enqueue\<close> returned true is published, and \<open>m_count\<close> and \<open>size\<close> are the number of elements.\<close>

theorem lock_free_queue_fifo:
  assumes "run (qact Q) as (qstart garbage threads) = Some s" and "length garbage = unat Q" and "Q \<noteq> 0"
    and "length as < 2 ^ LENGTH('w)"
  shows "taken s = take (length (taken s)) (reserved s) \<and> length (reserved s) < length (taken s) + unat (Q :: 'w :: len word) \<and>
    (\<forall>t<threads. by_thread taken_of t s = by_thread dequeued_of t s @ undelivered (places s ! t) \<and>
       by_thread reserved_of t s = by_thread enqueued_of t s @ unreported (places s ! t)) \<and>
    ((\<forall>p\<in>set (places s). p = Idle) \<longrightarrow> m_maximumReadIndex (object s) = m_writeIndex (object s) \<and>
       m_count (object s) = of_nat (length (reserved s) - length (taken s)) \<and>
       queue_size Q (m_writeIndex (object s)) (m_readIndex (object s)) = m_count (object s))"
proof -
  note i = queue_runs_inv [OF assms]
  have "taken s = take (length (taken s)) (reserved s)" "length (reserved s) < length (taken s) + unat Q"
    using i(1) by (auto simp: queue_inv_def core_inv_def)
  then show ?thesis using i(2,3) quiet_indices [OF i(1,2) assms(4)] unfolding report_inv_def by simp
qed

definition two_producers :: "char qcall list" where
  "two_producers = [Enqueue 0 CHR ''a'', Go 0, Go 0, Enqueue 1 CHR ''b'', Go 1, Go 1, Go 1, Go 0, Go 1, Go 0, Go 1, Go 1, Go 0,
     Go 0, Dequeue 2, Go 2, Go 2, Go 0, Go 2, Go 0, Go 2]"

theorem lock_free_queue_fifo_witness:
  "\<exists>s. run (qact (4 :: 8 word)) two_producers (qstart ''....'' 3) = Some s \<and> taken s = ''b'' \<and> reserved s = ''ba'' \<and> by_thread dequeued_of 2 s @ undelivered (places s ! 2) = ''b''"
  using lock_free_queue_fifo [of "4 :: 8 word" two_producers "''....''" 3]
  by (simp add: two_producers_def qstart_def go_def advance_def ArrayLockFreeQueue_def CAS_def countToIndex_def history_defs)

section \<open>Progress\<close>

text \<open>the queue is not lock-free: while a thread has reserved the next place and has not published it, no
  schedule of the other threads publishes anything, so that they take at most what was published before.\<close>

theorem stalled_enqueue_blocks:
  assumes "run (qact Q) as (qstart garbage threads) = Some s" and "length garbage = unat Q" and "Q \<noteq> 0"
    and "t < threads" and "holds (places s ! t) = Some (unat (m_maximumReadIndex (object s)))"
    and "run (qact Q) bs s = Some s'" and "Go t \<notin> set bs" and "length as + length bs < 2 ^ LENGTH('w)"
  shows "m_maximumReadIndex (object s') = m_maximumReadIndex (object s) \<and>
    length (taken s') \<le> unat (m_maximumReadIndex (object s)) \<and> places s' ! t = places s ! t \<and>
    taken s' = take (length (taken s')) (reserved (s' :: ('e, 'w :: len word) qsys))"
proof -
  have i: "queue_inv Q (length as) s" "length (places s) = threads"
    by (rule queue_runs_inv [OF assms(1-3)], use assms(8) in simp)+
  have stall: "queue_inv Q (n + length cs) u' \<and> m_maximumReadIndex (object u') = m_maximumReadIndex (object s) \<and>
      places u' ! t = places s ! t"
    if "run (qact Q) cs u = Some u'" "Go t \<notin> set cs" "n + length cs < 2 ^ LENGTH('w)" "queue_inv Q n u"
      "m_maximumReadIndex (object u) = m_maximumReadIndex (object s)" "places u ! t = places s ! t" "length (places u) = threads"
    for cs n u u'
    using that
  proof (induction cs arbitrary: n u)
    case (Cons a cs)
    obtain v where v: "qact Q a u = Some v" "run (qact Q) cs v = Some u'" using Cons.prems(1) by (auto split: option.splits)
    have "m_maximumReadIndex (object v) = m_maximumReadIndex (object u) \<and> places v ! t = places u ! t"
      by (rule qact_stalled [OF Cons.prems(4) _ _ v(1)]) (use Cons.prems assms(4,5) in auto)
    moreover have "queue_inv Q (Suc n) v" by (rule qact_keeps [OF Cons.prems(4) _ v(1)]) (use Cons.prems(3) in simp)
    ultimately show ?case using Cons.IH [OF v(2), of "Suc n"] Cons.prems qact_threads [OF v(1)] by simp
  qed simp
  have "queue_inv Q (length as + length bs) s' \<and> m_maximumReadIndex (object s') = m_maximumReadIndex (object s) \<and>
      places s' ! t = places s ! t"
    by (rule stall [OF assms(6,7)]) (use i assms(8) in auto)
  then show ?thesis by (auto simp: queue_inv_def core_inv_def)
qed

theorem stalled_enqueue_blocks_witness:
  "\<exists>s s'. run (qact (4 :: 8 word)) [Enqueue 0 (1 :: nat), Go 0, Go 0, Go 0] (qstart [0, 0, 0, 0] 3) = Some s \<and>
     run (qact 4) [Enqueue 1 2, Go 1, Go 1, Go 1, Go 1, Go 1, Go 1, Go 1, Dequeue 2, Go 2, Go 2] s = Some s' \<and>
     places s' ! 1 = EnqPublish 2 1 \<and> history s' = [(0, Reserved 1), (1, Reserved 2), (2, Dequeued None)] \<and>
     m_maximumReadIndex (object s') = m_maximumReadIndex (object s)"
  using stalled_enqueue_blocks [of "4 :: 8 word" "[Enqueue 0 (1 :: nat), Go 0, Go 0, Go 0]" "[0, 0, 0, 0]" 3 _ 0
      "[Enqueue 1 2, Go 1, Go 1, Go 1, Go 1, Go 1, Go 1, Go 1, Dequeue 2, Go 2, Go 2]"]
  by (simp add: qstart_def go_def advance_def ArrayLockFreeQueue_def CAS_def countToIndex_def history_defs)

text \<open>A thread that runs alone ends its call, once everything that is reserved is published or it holds the
  next place itself.\<close>

definition settles :: "'w :: len word \<Rightarrow> nat \<Rightarrow> ('e, 'w word) qsys \<Rightarrow> nat \<Rightarrow> bool" where
  "settles Q t s k \<longleftrightarrow> (\<exists>as s'. length as \<le> k \<and> run (qact Q) as s = Some s' \<and> places s' = (places s)[t := Idle])"

lemma settles_go:
  assumes t: "t < length (places s)" "places s ! t \<noteq> Idle"
    and e: "(if enqueuing (places s ! t) then enqueue else dequeue) Q (places s ! t) (object s) = (p, q, es)"
    and k: "settles Q t (advance t p q es s) k" "k < l"
  shows "settles Q t s l"
proof -
  obtain as s' where a: "length as \<le> k" "run (qact Q) as (advance t p q es s) = Some s'"
      "places s' = (places (advance t p q es s))[t := Idle]" using k(1) unfolding settles_def by blast
  have "qact Q (Go t) s = Some (advance t p q es s)" using t e by (simp add: go_def split: if_splits)
  then have "run (qact Q) (Go t # as) s = Some s'" using a(2) by simp
  moreover have "places s' = (places s)[t := Idle]" using a(3) by simp
  ultimately show ?thesis using a(1) k(2) unfolding settles_def by (intro exI [of _ "Go t # as"] exI [of _ s']) simp
qed

lemma settles_mono: "settles Q t s k \<Longrightarrow> k \<le> l \<Longrightarrow> settles Q t s l"
  unfolding settles_def by (meson order_trans)

lemma settles_idle: "t < length (places s) \<Longrightarrow> places s ! t = Idle \<Longrightarrow> settles Q t s 0"
  unfolding settles_def by (intro exI [of _ "[]"] exI [of _ s]) (metis bot_nat_0.extremum list.size(3) list_update_id run.simps(1))

lemma settles_count: "t < length (places s) \<Longrightarrow> places s ! t = EnqCount v \<Longrightarrow> settles Q t s 2"
  by (rule settles_go [where k = 0]) (auto intro: settles_idle)

lemma settles_publish: "t < length (places s) \<Longrightarrow> places s ! t = EnqPublish v w \<Longrightarrow> m_maximumReadIndex (object s) = w \<Longrightarrow> settles Q t s 3"
  by (rule settles_go [where k = 2]) (auto simp: CAS_def intro: settles_count)

lemma settles_store: "t < length (places s) \<Longrightarrow> places s ! t = EnqStore v w \<Longrightarrow> m_maximumReadIndex (object s) = w \<Longrightarrow> settles Q t s 4"
  by (rule settles_go [where k = 3]) (auto intro!: settles_publish)

lemma settles_cas: "t < length (places s) \<Longrightarrow> places s ! t = EnqCas v w \<Longrightarrow> m_writeIndex (object s) = w \<Longrightarrow>
    m_maximumReadIndex (object s) = w \<Longrightarrow> settles Q t s 5"
  by (rule settles_go [where k = 4]) (auto simp: CAS_def intro!: settles_store)

lemma settles_read:
  assumes "t < length (places s)" "places s ! t = EnqRead v w" "m_writeIndex (object s) = w" "m_maximumReadIndex (object s) = w"
  shows "settles Q t s 6"
proof (cases "countToIndex Q (w + 1) = countToIndex Q (m_readIndex (object s))")
  case True
  show ?thesis by (rule settles_go [where k = 5]) (use assms True in \<open>auto intro: settles_mono [OF settles_idle]\<close>)
next
  case False
  show ?thesis by (rule settles_go [where k = 5]) (use assms False in \<open>auto intro!: settles_cas\<close>)
qed

lemma settles_write: "t < length (places s) \<Longrightarrow> places s ! t = EnqWrite v \<Longrightarrow>
    m_maximumReadIndex (object s) = m_writeIndex (object s) \<Longrightarrow> settles Q t s 7"
  by (rule settles_go [where k = 6]) (auto intro!: settles_read)

lemma settles_cas_any:
  assumes "t < length (places s)" "places s ! t = EnqCas v w" "m_maximumReadIndex (object s) = m_writeIndex (object s)"
  shows "settles Q t s 8"
proof (cases "m_writeIndex (object s) = w")
  case True
  then show ?thesis using settles_mono [OF settles_cas [OF assms(1,2)]] assms(3) by simp
next
  case False
  have "settles Q t s 8"
    by (rule settles_go [where k = 7]) (use assms False in \<open>auto simp: CAS_def intro!: settles_write\<close>)
  then show ?thesis by simp
qed

lemma settles_read_any:
  assumes "t < length (places s)" "places s ! t = EnqRead v w" "m_maximumReadIndex (object s) = m_writeIndex (object s)"
  shows "settles Q t s 9"
proof (cases "countToIndex Q (w + 1) = countToIndex Q (m_readIndex (object s))")
  case True
  show ?thesis by (rule settles_go [where k = 8]) (use assms True in \<open>auto intro: settles_mono [OF settles_idle]\<close>)
next
  case False
  show ?thesis by (rule settles_go [where k = 8]) (use assms False in \<open>auto intro!: settles_cas_any\<close>)
qed

lemma settles_dcount: "t < length (places s) \<Longrightarrow> places s ! t = DeqCount v \<Longrightarrow> settles Q t s 2"
  by (rule settles_go [where k = 0]) (auto intro: settles_idle)

lemma settles_dcas: "t < length (places s) \<Longrightarrow> places s ! t = DeqCas r v \<Longrightarrow> m_readIndex (object s) = r \<Longrightarrow> settles Q t s 3"
  by (rule settles_go [where k = 2]) (auto simp: CAS_def intro: settles_dcount)

lemma settles_dload: "t < length (places s) \<Longrightarrow> places s ! t = DeqLoad r \<Longrightarrow> m_readIndex (object s) = r \<Longrightarrow> settles Q t s 4"
  by (rule settles_go [where k = 3]) (auto intro!: settles_dcas)

lemma settles_dmaximum:
  assumes "t < length (places s)" "places s ! t = DeqMaximum r" "m_readIndex (object s) = r"
  shows "settles Q t s 5"
proof (cases "countToIndex Q r = countToIndex Q (m_maximumReadIndex (object s))")
  case True
  show ?thesis by (rule settles_go [where k = 4]) (use assms True in \<open>auto intro: settles_mono [OF settles_idle]\<close>)
next
  case False
  show ?thesis by (rule settles_go [where k = 4]) (use assms False in \<open>auto intro!: settles_dload\<close>)
qed

lemma settles_dread: "t < length (places s) \<Longrightarrow> places s ! t = DeqRead \<Longrightarrow> settles Q t s 6"
  by (rule settles_go [where k = 5]) (auto intro!: settles_dmaximum)

lemma settles_dcas_any:
  assumes "t < length (places s)" "places s ! t = DeqCas r v"
  shows "settles Q t s 7"
proof (cases "m_readIndex (object s) = r")
  case True
  then show ?thesis using settles_mono [OF settles_dcas [OF assms]] by simp
next
  case False
  have "settles Q t s 7"
    by (rule settles_go [where k = 6]) (use assms False in \<open>auto simp: CAS_def intro!: settles_dread\<close>)
  then show ?thesis by (rule settles_mono) simp
qed

lemma settles_dload_any: "t < length (places s) \<Longrightarrow> places s ! t = DeqLoad r \<Longrightarrow> settles Q t s 8"
  by (rule settles_go [where k = 7]) (auto intro!: settles_dcas_any)

lemma settles_dmaximum_any:
  assumes "t < length (places s)" "places s ! t = DeqMaximum r"
  shows "settles Q t s 9"
proof (cases "countToIndex Q r = countToIndex Q (m_maximumReadIndex (object s))")
  case True
  show ?thesis by (rule settles_go [where k = 8]) (use assms True in \<open>auto intro: settles_mono [OF settles_idle]\<close>)
next
  case False
  show ?thesis by (rule settles_go [where k = 8]) (use assms False in \<open>auto intro!: settles_dload_any\<close>)
qed

lemma settles_published:
  assumes "t < length (places s)" "holds (places s ! t) = None" "m_maximumReadIndex (object s) = m_writeIndex (object s)"
  shows "settles Q t s 9"
proof -
  note rules = settles_idle settles_count settles_cas_any settles_read_any settles_write settles_dcount settles_dread
    settles_dcas_any settles_dload_any settles_dmaximum_any
  show ?thesis using assms by (cases "places s ! t") (auto intro: rules [THEN settles_mono])
qed

text \<open>Whatever the schedule did, some thread can end its call within nine of its steps.\<close>

lemma one_settles:
  assumes i: "queue_inv (Q :: 'w :: len word) n s" and n: "n < 2 ^ LENGTH('w)" and p: "\<exists>p\<in>set (places s). p \<noteq> Idle"
  shows "\<exists>t<length (places s). places s ! t \<noteq> Idle \<and> settles Q t s 9"
proof -
  let ?X = "unat (m_maximumReadIndex (object s))"
  have c: "core_inv (unat Q) (m_thequeue (object s)) (reserved s) (length (taken s)) ?X (places s)"
    and w: "m_writeIndex (object s) = of_nat (length (reserved s))" "length (reserved s) < 2 ^ LENGTH('w)"
    using i n by (simp_all add: queue_inv_def)
  have own: "owned ?X (length (reserved s)) (map holds (places s))" using c by (simp add: core_inv_def)
  show ?thesis
  proof (cases "?X < length (reserved s)")
    case True
    then obtain t where t: "t < length (places s)" "holds (places s ! t) = Some ?X"
      using owned_some [OF own, of ?X] by auto
    then have "settles Q t s 9"
      by (cases "places s ! t") (auto simp flip: word_unat_eq_iff intro: settles_publish [THEN settles_mono] settles_store [THEN settles_mono])
    moreover have "places s ! t \<noteq> Idle" using t(2) by auto
    ultimately show ?thesis using t(1) by blast
  next
    case False
    then have "?X = length (reserved s)" using c by (simp add: core_inv_def)
    then have X: "m_maximumReadIndex (object s) = m_writeIndex (object s)" using w by (simp add: word_unat_eq_iff unat_small)
    obtain t where t: "t < length (places s)" "places s ! t \<noteq> Idle" using p by (auto simp: in_set_conv_nth)
    have "place_ok (unat Q) (m_thequeue (object s)) (reserved s) (length (taken s)) ?X (places s ! t)" using c t(1) by (simp add: core_inv_def)
    then have "holds (places s ! t) = None" using False by (cases "places s ! t") auto
    then show ?thesis using settles_published [OF t(1) _ X] t by blast
  qed
qed

lemma all_settle:
  "queue_inv (Q :: 'w :: len word) n s \<Longrightarrow> card {t. t < length (places s) \<and> places s ! t \<noteq> Idle} = k \<Longrightarrow> n + 9 * k < 2 ^ LENGTH('w) \<Longrightarrow>
    \<exists>as s'. length as \<le> 9 * k \<and> run (qact Q) as s = Some s' \<and> (\<forall>p\<in>set (places s'). p = Idle)"
proof (induction k arbitrary: n s)
  case 0
  then have "\<forall>p\<in>set (places s). p = Idle" by (auto simp: in_set_conv_nth)
  then show ?case by (intro exI [of _ "[]"] exI [of _ s]) simp
next
  case (Suc k)
  let ?B = "\<lambda>s. {t. t < length (places s) \<and> places s ! t \<noteq> Idle}"
  have "?B s \<noteq> {}" using Suc.prems(2) by (metis card.empty nat.distinct(1))
  then have "\<exists>p\<in>set (places s). p \<noteq> Idle" using nth_mem [of _ "places s"] by blast
  then obtain t where t: "t < length (places s)" "places s ! t \<noteq> Idle" "settles Q t s 9"
    using one_settles [OF Suc.prems(1)] Suc.prems(3) by auto
  then obtain as u where a: "length as \<le> 9" "run (qact Q) as s = Some u" "places u = (places s)[t := Idle]"
    unfolding settles_def by blast
  have "?B u = ?B s - {t}" using a(3) t by (auto simp: nth_list_update)
  then have b: "card (?B u) = k" using Suc.prems(2) t by simp
  have "queue_inv Q (n + length as) u" using queue_runs.run_keeps [OF Suc.prems(1) _ a(2)] Suc.prems(3) a(1) by simp
  from Suc.IH [OF this b] obtain bs s' where "length bs \<le> 9 * k" "run (qact Q) bs u = Some s'" "\<forall>p\<in>set (places s'). p = Idle"
    using Suc.prems(3) a(1) by auto
  then show ?case using run_appendI [OF a(2)] a(1) by (intro exI [of _ "as @ bs"] exI [of _ s']) simp
qed

text \<open>C36: there is no deadlock: after every schedule there is a continuation of at most nine steps for each thread
  after which every call has returned.\<close>

theorem lock_free_calls_can_end:
  assumes "run (qact Q) as (qstart garbage threads) = Some s" and "length garbage = unat Q" and "Q \<noteq> 0"
    and "length as + 9 * threads < 2 ^ LENGTH('w)"
  shows "\<exists>bs s'. length bs \<le> 9 * threads \<and> run (qact (Q :: 'w :: len word)) bs s = Some s' \<and> (\<forall>p\<in>set (places s'). p = Idle)"
proof -
  define k where "k = card {t. t < length (places s) \<and> places s ! t \<noteq> Idle}"
  have i: "queue_inv Q (length as) s" "length (places s) = threads"
    by (rule queue_runs_inv [OF assms(1-3)], use assms(4) in simp)+
  have "k \<le> card {t. t < length (places s)}" unfolding k_def by (rule card_mono) auto
  then have k: "k \<le> threads" using i(2) by simp
  from all_settle [OF i(1) k_def [symmetric]] k assms(4) show ?thesis by (meson le_less_trans add_le_mono mult_le_mono order_refl order_trans)
qed

theorem lock_free_calls_can_end_witness:
  "\<exists>s bs s'. run (qact (4 :: 8 word)) two_producers (qstart ''....'' 3) = Some s \<and> length bs \<le> 27 \<and>
     run (qact 4) bs s = Some s' \<and> (\<forall>p\<in>set (places s'). p = Idle)"
  using lock_free_calls_can_end [of "4 :: 8 word" two_producers "''....''" 3]
  by (simp add: two_producers_def qstart_def go_def advance_def ArrayLockFreeQueue_def CAS_def countToIndex_def)

section \<open>Full when it is empty\<close>

definition false_alarm :: "'e \<Rightarrow> 'e \<Rightarrow> 'e qcall list" where
  "false_alarm a b = [Enqueue 0 a, Go 0] @ (Enqueue 1 b # replicate 6 (Go 1)) @ (Dequeue 1 # replicate 5 (Go 1)) @ [Go 0]"

lemmas queue_steps = qstart_def go_def advance_def ArrayLockFreeQueue_def CAS_def AtomicAdd_def AtomicSub_def eval_nat_numeral

lemma small_slots: "1 < unat Q \<Longrightarrow> countToIndex Q 0 = 0 \<and> countToIndex Q 1 = 1"
  by (simp add: countToIndex_def word_unat_eq_iff unat_mod_distrib)

text \<open>\<open>enqueue\<close> reads the two indices one after the other: when another thread stores and takes an element
  in between, it finds the queue full. The queue never held more than one element and is empty at the end.\<close>

theorem empty_queue_reported_full:
  assumes "1 < unat (Q :: 'w :: len word)" and "length garbage = unat Q"
  shows "\<exists>s. run (qact Q) (false_alarm a b) (qstart garbage 2) = Some s \<and>
    history s = [(1, Reserved b), (1, Enqueued b True), (1, Taken b), (1, Dequeued (Some b)), (0, Enqueued a False)] \<and>
    m_count (object s) = 0"
  using small_slots [OF assms(1)] assms
  by (simp add: false_alarm_def queue_steps)

theorem empty_queue_reported_full_witness:
  "\<exists>s. run (qact (65535 :: 64 word)) (false_alarm CHR ''a'' CHR ''b'') (qstart (replicate 65535 CHR ''.'') 2) = Some s \<and>
    history s = [(1, Reserved CHR ''b''), (1, Enqueued CHR ''b'' True), (1, Taken CHR ''b''), (1, Dequeued (Some CHR ''b'')),
      (0, Enqueued CHR ''a'' False)]"
  using empty_queue_reported_full [of "65535 :: 64 word" "replicate 65535 CHR ''.''" "CHR ''a''" "CHR ''b''"] by auto

section \<open>When the indices have reached the largest word\<close>

text \<open>The queue between calls, after \<open>k\<close> elements went through it.\<close>

definition passed :: "nat \<Rightarrow> nat \<Rightarrow> 'e list \<Rightarrow> (nat \<times> 'e event) list \<Rightarrow> ('e, 'w :: len word) qsys" where
  "passed threads k arr h = \<lparr>object = \<lparr>m_thequeue = arr, m_count = 0, m_writeIndex = of_nat k, m_readIndex = of_nat k,
     m_maximumReadIndex = of_nat k\<rparr>, places = replicate threads Idle, history = h\<rparr>"

definition pass :: "'e \<Rightarrow> 'e qcall list" where
  "pass v = (Enqueue 0 v # replicate 6 (Go 0)) @ (Dequeue 0 # replicate 5 (Go 0))"

lemma pass_once:
  assumes Q: "1 < unat (Q :: 'w :: len word)" "length arr = unat Q" and k: "k < 2 ^ LENGTH('w) - 1" and t: "0 < threads"
  shows "run (qact Q) (pass v) (passed threads k arr h) =
    Some (passed threads (Suc k) (arr[k mod unat Q := v]) (h @ map (Pair 0) [Reserved v, Enqueued v True, Taken v, Dequeued (Some v)]))"
proof -
  have u: "unat (of_nat k :: 'w word) = k" using k by (intro unat_small) linarith
  have n: "unat (of_nat k + 1 :: 'w word) = k + 1" using unat_next [of "of_nat k :: 'w word"] u k by simp
  have slot: "unat (countToIndex Q (of_nat k)) = k mod unat Q" by (simp add: countToIndex_def unat_mod_distrib u)
  have "(k + 1) mod unat Q \<noteq> k mod unat Q" using slots_apart [of k "k + 1" "unat Q"] Q(1) by simp
  then have d: "countToIndex Q (of_nat k + 1) \<noteq> countToIndex Q (of_nat k :: 'w word)" by (simp add: same_slot u n)
  have i: "k mod unat Q < length arr" using Q by simp
  obtain m where m: "threads = Suc m" using t by (cases threads) auto
  show ?thesis using d d [symmetric] i unfolding pass_def passed_def m
    by (simp add: queue_steps slot algebra_simps)
qed

lemma passes:
  assumes Q: "1 < unat (Q :: 'w :: len word)" "length arr = unat Q" and t: "0 < threads"
  shows "k \<le> 2 ^ LENGTH('w) - 1 \<Longrightarrow> \<exists>as arr' h. run (qact Q) as (passed threads 0 arr []) = Some (passed threads k arr' h :: ('e, 'w word) qsys) \<and>
    length arr' = unat Q \<and> reserved (passed threads k arr' h :: ('e, 'w word) qsys) = replicate k v \<and>
    taken (passed threads k arr' h :: ('e, 'w word) qsys) = replicate k v"
proof (induction k)
  case 0
  then show ?case using Q by (intro exI [of _ "[]"] exI [of _ arr] exI [of _ "[]"]) (simp add: passed_def history_defs)
next
  case (Suc k)
  then obtain as arr' h where a: "run (qact Q) as (passed threads 0 arr []) = Some (passed threads k arr' h :: ('e, 'w word) qsys)"
    "length arr' = unat Q" and r: "reserved (passed threads k arr' h :: ('e, 'w word) qsys) = replicate k v"
    "taken (passed threads k arr' h :: ('e, 'w word) qsys) = replicate k v" by auto
  let ?h = "h @ map (Pair 0) [Reserved v, Enqueued v True, Taken v, Dequeued (Some v)]"
  have "run (qact Q) (as @ pass v) (passed threads 0 arr []) =
      Some (passed threads (Suc k) (arr'[k mod unat Q := v]) ?h :: ('e, 'w word) qsys)"
    by (rule run_appendI [OF a(1)], rule pass_once) (use Suc.prems Q a t in auto)
  moreover have "reserved (passed threads (Suc k) (arr'[k mod unat Q := v]) ?h :: ('e, 'w word) qsys) = replicate (Suc k) v"
    "taken (passed threads (Suc k) (arr'[k mod unat Q := v]) ?h :: ('e, 'w word) qsys) = replicate (Suc k) v"
    using r by (simp_all add: history_defs passed_def replicate_append_same)
  ultimately show ?case using a(2) by (intro exI) (intro conjI, assumption, simp, assumption, assumption)
qed

text \<open>The places a thread can be at when nothing goes through any more.\<close>

fun stuck_place :: "('e, 'w :: len word) place \<Rightarrow> bool" where
  "stuck_place Idle = True"
| "stuck_place (EnqWrite v) = True"
| "stuck_place (EnqRead v w) = (w = - 1)"
| "stuck_place DeqRead = True"
| "stuck_place (DeqMaximum r) = (r = - 1)"
| "stuck_place p = False"

definition stuck :: "'e list \<Rightarrow> 'e list \<Rightarrow> ('e, 'w :: len word) qsys \<Rightarrow> bool" where
  "stuck xs ys s \<longleftrightarrow> m_writeIndex (object s) = - 1 \<and> m_readIndex (object s) = - 1 \<and> m_maximumReadIndex (object s) = - 1 \<and>
     (\<forall>t<length (places s). stuck_place (places s ! t)) \<and> reserved s = xs \<and> taken s = ys"

lemma stuck_step:
  assumes z: "countToIndex Q 0 = countToIndex Q (- 1)" and i: "stuck xs ys s" and a: "qact Q a s = Some s'"
  shows "stuck xs ys s'"
proof (cases a)
  case (Go t)
  then have g: "s' = go Q t s" and t: "t < length (places s)" "stuck_place (places s ! t)" using a i by (simp_all add: stuck_def split: if_splits)
  then show ?thesis using i z unfolding g stuck_def
    by (cases "places s ! t") (auto simp: go_def nth_list_update)
qed (use a i in \<open>auto simp: stuck_def nth_list_update split: if_splits\<close>)

text \<open>C37: where the number of slots divides the largest index, as the default 65535 does for 32 and 64 bits, the
  queue comes to a state after that many elements in which it is empty, and from which no schedule of any
  calls stores or takes anything again.\<close>

theorem queue_wedges:
  assumes "1 < unat (Q :: 'w :: len word)" and "unat Q dvd 2 ^ LENGTH('w) - 1" and "length garbage = unat Q" and "0 < threads"
  shows "\<exists>as s. run (qact Q) as (qstart garbage threads) = Some s \<and> reserved s = replicate (2 ^ LENGTH('w) - 1) v \<and> taken s = reserved s \<and>
    (\<forall>p\<in>set (places s). p = Idle) \<and>
    (\<forall>bs s'. run (qact Q) bs s = Some s' \<longrightarrow> reserved s' = reserved s \<and> taken s' = taken s)"
proof -
  let ?k = "2 ^ LENGTH('w) - 1 :: nat"
  have start: "qstart garbage threads = (passed threads 0 garbage [] :: ('a, 'w word) qsys)"
    by (simp add: qstart_def passed_def ArrayLockFreeQueue_def)
  obtain as arr h where a: "run (qact Q) as (qstart garbage threads) = Some (passed threads ?k arr h :: ('a, 'w word) qsys)"
    and r: "reserved (passed threads ?k arr h :: ('a, 'w word) qsys) = replicate ?k v"
      "taken (passed threads ?k arr h :: ('a, 'w word) qsys) = replicate ?k v"
    using passes [OF assms(1,3,4), of ?k v] unfolding start by auto
  have m: "(of_nat ?k :: 'w word) = - 1" by (simp add: of_nat_diff)
  have "unat (of_nat ?k :: 'w word) = ?k" by (rule unat_small) simp
  then have "unat (- 1 :: 'w word) mod unat Q = 0" using assms(2) unfolding m by simp
  then have z: "countToIndex Q 0 = countToIndex Q (- 1)" by (simp add: same_slot)
  let ?s = "passed threads ?k arr h :: ('a, 'w word) qsys"
  have s: "stuck (replicate ?k v) (replicate ?k v) ?s" unfolding stuck_def r by (simp add: passed_def m [unfolded One_nat_def])
  have "stuck (replicate ?k v) (replicate ?k v) s'" if "run (qact Q) bs ?s = Some s'" for bs s'
    by (rule run_invariant [OF that, of "stuck (replicate ?k v) (replicate ?k v)", OF s]) (rule stuck_step [OF z])
  then show ?thesis using a r by (intro exI [of _ as] exI [of _ ?s]) (auto simp: stuck_def passed_def)
qed

theorem queue_wedges_witness:
  "\<exists>as s. run (qact (65535 :: 32 word)) as (qstart (replicate 65535 CHR ''.'') 4) = Some s \<and>
    reserved s = replicate 4294967295 CHR ''a'' \<and>
    (\<forall>bs s'. run (qact 65535) bs s = Some s' \<longrightarrow> reserved s' = reserved s \<and> taken s' = taken s)"
  using queue_wedges [of "65535 :: 32 word" "replicate 65535 CHR ''.''" 4 "CHR ''a''"] by auto

end
