(* ===== verification/AtomicCounter.thy ===== *)
theory AtomicCounter
  imports Interleave "HOL-Library.Word"
begin

text \<open>
  Threads that count in a shared \<open>int\<close>: \<open>func\<close> of \<^verbatim>\<open>3.2.1.../lock.c\<close> with the four bodies its
  preprocessor conditionals choose from, and \<open>thread_increase\<close> of \<^verbatim>\<open>2_test_i++_threads.c\<close>. A place is the
  point of a thread before its next access to shared memory; \<open>i\<close> is the loop counter.
\<close>

section \<open>The instructions\<close>

text \<open>\<open>lock; xaddl\<close>: the old value and the new one.\<close>

definition inc :: "32 word \<Rightarrow> 32 word \<Rightarrow> 32 word \<times> 32 word" where
  "inc v add = (v, v + add)"

datatype body = Plain | Mutex | Spin | Atomic

datatype cplace = Test nat | Load nat | Store nat "32 word" | Lock nat | Unlock nat | Inc nat
  | AddOld nat | AddXadd nat | AddReload nat | Finished

record csys =
  cvalue :: "32 word"
  clock :: "nat option"
  cplaces :: "cplace list"
  creturns :: "32 word list"

abbreviation (input) FUNC_COUNT :: nat where
  "FUNC_COUNT \<equiv> 100000"

section \<open>The threads\<close>

text \<open>One access of thread \<open>t\<close>; \<open>None\<close> is a thread that waits or has finished. \<open>func\<close> counts to \<open>n\<close>.\<close>

fun func :: "body \<Rightarrow> nat \<Rightarrow> nat \<Rightarrow> cplace \<Rightarrow> csys \<Rightarrow> (cplace \<times> csys) option" where
  "func b n t (Test i) s =
     Some (if i < n then (case b of Plain \<Rightarrow> Load (i + 1) | Mutex \<Rightarrow> Lock (i + 1) | Spin \<Rightarrow> Lock (i + 1) | Atomic \<Rightarrow> Inc (i + 1)) else Finished, s)"
| "func b n t (Lock i) s = (if clock s = None then Some (Load i, s\<lparr>clock := Some t\<rparr>) else None)"
| "func b n t (Load i) s = Some (Store i (cvalue s), s)"
| "func b n t (Store i x) s = Some (if b = Plain then Test i else Unlock i, s\<lparr>cvalue := x + 1\<rparr>)"
| "func b n t (Unlock i) s = Some (Test i, s\<lparr>clock := None\<rparr>)"
| "func b n t (Inc i) s = (let (old, v) = inc (cvalue s) 1 in Some (Test i, s\<lparr>cvalue := v\<rparr>))"
| "func b n t p s = None"

text \<open>\<open>lxx_atomic_add\<close> reads the value, adds with \<open>lock; xadd\<close> and returns what it reads after that.\<close>

fun lxx_atomic_add :: "nat \<Rightarrow> cplace \<Rightarrow> csys \<Rightarrow> (cplace \<times> csys) option" where
  "lxx_atomic_add i (AddOld _) s = Some (AddXadd i, s)"
| "lxx_atomic_add i (AddXadd _) s = (let (old, v) = inc (cvalue s) 1 in Some (AddReload i, s\<lparr>cvalue := v\<rparr>))"
| "lxx_atomic_add i (AddReload _) s = Some (Test (i + 1), s\<lparr>creturns := creturns s @ [cvalue s]\<rparr>)"
| "lxx_atomic_add i p s = None"

fun thread_increase :: "nat \<Rightarrow> cplace \<Rightarrow> csys \<Rightarrow> (cplace \<times> csys) option" where
  "thread_increase n (Test i) s = Some (if i < n then AddOld i else Finished, s)"
| "thread_increase n (AddOld i) s = lxx_atomic_add i (AddOld i) s"
| "thread_increase n (AddXadd i) s = lxx_atomic_add i (AddXadd i) s"
| "thread_increase n (AddReload i) s = lxx_atomic_add i (AddReload i) s"
| "thread_increase n p s = None"

definition cact :: "(nat \<Rightarrow> cplace \<Rightarrow> csys \<Rightarrow> (cplace \<times> csys) option) \<Rightarrow> nat \<Rightarrow> csys \<Rightarrow> csys option" where
  "cact prog t s = (if t < length (cplaces s)
     then map_option (\<lambda>(p, s'). s'\<lparr>cplaces := (cplaces s)[t := p]\<rparr>) (prog t (cplaces s ! t) s) else None)"

definition cstart :: "nat \<Rightarrow> csys" where
  "cstart threads = \<lparr>cvalue = 0, clock = None, cplaces = replicate threads (Test 0), creturns = []\<rparr>"

section \<open>Counting\<close>

text \<open>How often a thread has added to the counter.\<close>

fun added :: "nat \<Rightarrow> cplace \<Rightarrow> nat" where
  "added n (Test i) = i"
| "added n (Load i) = i - 1"
| "added n (Store i x) = i - 1"
| "added n (Lock i) = i - 1"
| "added n (Unlock i) = i"
| "added n (Inc i) = i - 1"
| "added n (AddOld i) = i"
| "added n (AddXadd i) = i"
| "added n (AddReload i) = i + 1"
| "added n Finished = n"

text \<open>The places of each program; \<open>b\<close> is the body of \<open>func\<close>, or none for \<open>thread_increase\<close>.\<close>

fun place_of_body :: "body option \<Rightarrow> nat \<Rightarrow> cplace \<Rightarrow> bool" where
  "place_of_body b n (Test i) = (i \<le> n)"
| "place_of_body b n (Load i) = (0 < i \<and> i \<le> n \<and> b \<in> {Some Plain, Some Mutex, Some Spin})"
| "place_of_body b n (Store i x) = (0 < i \<and> i \<le> n \<and> b \<in> {Some Plain, Some Mutex, Some Spin})"
| "place_of_body b n (Lock i) = (0 < i \<and> i \<le> n \<and> b \<in> {Some Mutex, Some Spin})"
| "place_of_body b n (Unlock i) = (i \<le> n \<and> b \<in> {Some Mutex, Some Spin})"
| "place_of_body b n (Inc i) = (0 < i \<and> i \<le> n \<and> b = Some Atomic)"
| "place_of_body b n (AddOld i) = (i < n \<and> b = None)"
| "place_of_body b n (AddXadd i) = (i < n \<and> b = None)"
| "place_of_body b n (AddReload i) = (i < n \<and> b = None)"
| "place_of_body b n Finished = True"

fun inside :: "cplace \<Rightarrow> bool" where
  "inside (Load i) = True"
| "inside (Store i x) = True"
| "inside (Unlock i) = True"
| "inside p = False"

text \<open>Who is between lock and unlock has the lock, and the value it read is the value.\<close>

definition count_inv :: "body option \<Rightarrow> nat \<Rightarrow> csys \<Rightarrow> bool" where
  "count_inv b n s \<longleftrightarrow> (\<forall>t<length (cplaces s). place_of_body b n (cplaces s ! t)) \<and>
     (b \<in> {Some Mutex, Some Spin} \<longrightarrow> (\<forall>t<length (cplaces s). inside (cplaces s ! t) \<longleftrightarrow> clock s = Some t) \<and>
        (\<forall>t<length (cplaces s). \<forall>i x. cplaces s ! t = Store i x \<longrightarrow> x = cvalue s)) \<and>
     cvalue s = (\<Sum>p\<leftarrow>cplaces s. of_nat (added n p))"

lemma count_inv_start: "count_inv b n (cstart threads)"
proof -
  have "(\<Sum>p\<leftarrow>replicate threads (Test 0). of_nat (added n p)) = (0 :: 32 word)" by (induction threads) simp_all
  then show ?thesis by (simp add: count_inv_def cstart_def)
qed

text \<open>One step: the thread's own place, the lock and the counter.\<close>

lemma count_inv_step:
  assumes i: "count_inv b n s" and t: "t < length (cplaces s)" and p: "place_of_body b n p"
    and v: "cvalue s' = cvalue s + of_nat (added n p) - of_nat (added n (cplaces s ! t))"
    and l: "b \<in> {Some Mutex, Some Spin} \<Longrightarrow> (inside p \<longleftrightarrow> clock s' = Some t) \<and>
      (\<forall>u. u \<noteq> t \<longrightarrow> (clock s' = Some u \<longleftrightarrow> clock s = Some u)) \<and>
      (\<forall>i x. p = Store i x \<longrightarrow> x = cvalue s') \<and> (cvalue s' = cvalue s \<or> clock s = Some t)"
  shows "count_inv b n (s'\<lparr>cplaces := (cplaces s)[t := p]\<rparr>)"
proof -
  have "(\<Sum>p\<leftarrow>(cplaces s)[t := p]. of_nat (added n p)) = cvalue s'"
    using i v unfolding sum_list_place [OF t] count_inv_def by (simp add: algebra_simps)
  moreover have "x = cvalue s'" if b: "b \<in> {Some Mutex, Some Spin}" and u: "u < length (cplaces s)" "(cplaces s)[t := p] ! u = Store i x" for u i x
  proof (cases "u = t")
    case True
    then show ?thesis using l [OF b] u t by simp
  next
    case False
    then have st: "cplaces s ! u = Store i x" using u(2) by simp
    then have "clock s = Some u" using i b u(1) unfolding count_inv_def by (metis inside.simps(2))
    then have "cvalue s' = cvalue s" using l [OF b] False by auto
    then show ?thesis using i b u(1) st unfolding count_inv_def by (metis (no_types))
  qed
  moreover have "inside ((cplaces s)[t := p] ! u) \<longleftrightarrow> clock s' = Some u" if b: "b \<in> {Some Mutex, Some Spin}" and u: "u < length (cplaces s)" for u
    using l [OF b] i b u t unfolding count_inv_def by (cases "u = t") auto
  moreover have "place_of_body b n ((cplaces s)[t := p] ! u)" if "u < length (cplaces s)" for u
    using i p t that unfolding count_inv_def by (cases "u = t") simp_all
  ultimately show ?thesis unfolding count_inv_def by simp
qed

lemma func_keeps:
  assumes i: "count_inv (Some b) n s" and b: "b \<noteq> Plain" and a: "cact (func b n) t s = Some s'"
  shows "count_inv (Some b) n s'"
proof -
  have t: "t < length (cplaces s)" using a by (auto simp: cact_def split: if_splits)
  obtain p u where p: "func b n t (cplaces s ! t) s = Some (p, u)" "s' = u\<lparr>cplaces := (cplaces s)[t := p]\<rparr>"
    using a t by (auto simp: cact_def)
  have ok: "place_of_body (Some b) n (cplaces s ! t)" using i t by (simp add: count_inv_def)
  have lk: "inside (cplaces s ! t) \<longleftrightarrow> clock s = Some t" if "b \<in> {Mutex, Spin}" using i t that unfolding count_inv_def by auto
  have st: "x = cvalue s" if "b \<in> {Mutex, Spin}" "cplaces s ! t = Store i x" for i x
    using i t that unfolding count_inv_def by (metis (no_types, lifting) insert_iff singletonD)
  show ?thesis unfolding p(2)
  proof (rule count_inv_step [OF i t])
    show "place_of_body (Some b) n p" using p(1) ok b by (cases "cplaces s ! t"; cases b) (auto simp: inc_def split: if_splits)
    show "cvalue u = cvalue s + of_nat (added n p) - of_nat (added n (cplaces s ! t))"
      using p(1) ok b st by (cases "cplaces s ! t"; cases b) (auto simp: inc_def of_nat_diff Suc_le_eq split: if_splits)
    show "(inside p \<longleftrightarrow> clock u = Some t) \<and> (\<forall>v. v \<noteq> t \<longrightarrow> (clock u = Some v \<longleftrightarrow> clock s = Some v)) \<and>
      (\<forall>i x. p = Store i x \<longrightarrow> x = cvalue u) \<and> (cvalue u = cvalue s \<or> clock s = Some t)"
      if "Some b \<in> {Some Mutex, Some Spin}"
      using p(1) ok lk that by (cases "cplaces s ! t") (auto split: if_splits)
  qed
qed

lemma thread_increase_keeps:
  assumes i: "count_inv None n s" and a: "cact (\<lambda>t. thread_increase n) t s = Some s'"
  shows "count_inv None n s'"
proof -
  have t: "t < length (cplaces s)" using a by (auto simp: cact_def split: if_splits)
  obtain p u where p: "thread_increase n (cplaces s ! t) s = Some (p, u)" "s' = u\<lparr>cplaces := (cplaces s)[t := p]\<rparr>"
    using a t by (auto simp: cact_def)
  have ok: "place_of_body None n (cplaces s ! t)" using i t by (simp add: count_inv_def)
  show ?thesis unfolding p(2)
  proof (rule count_inv_step [OF i t])
    show "place_of_body None n p" using p(1) ok by (cases "cplaces s ! t") (auto simp: inc_def split: if_splits)
    show "cvalue u = cvalue s + of_nat (added n p) - of_nat (added n (cplaces s ! t))"
      using p(1) ok by (cases "cplaces s ! t") (auto simp: inc_def split: if_splits)
  qed simp
qed

lemma cact_threads: "cact prog t s = Some s' \<Longrightarrow> length (cplaces s') = length (cplaces s)"
  by (auto simp: cact_def split: if_splits)

lemma run_threads: "run (cact prog) ts (cstart threads) = Some s \<Longrightarrow> length (cplaces s) = threads"
  by (rule run_invariant [where P = "\<lambda>s. length (cplaces s) = threads"]) (auto simp: cact_threads cstart_def)

lemma all_finished:
  assumes "count_inv b n s" and "\<forall>p\<in>set (cplaces s). p = Finished"
  shows "cvalue s = of_nat (length (cplaces s) * n)"
proof -
  have "(\<Sum>p\<leftarrow>ps. of_nat (added n p)) = (of_nat (length ps * n) :: 32 word)" if "\<forall>p\<in>set ps. p = Finished" for ps
    using that by (induction ps) (auto simp: algebra_simps)
  then show ?thesis using assms by (simp add: count_inv_def)
qed

text \<open>The stages do not count here.\<close>

interpretation func_runs: interleaving "cact (func b n)" "\<lambda>_ s. b \<noteq> Plain \<and> count_inv (Some b) n s" k for b n k
  by unfold_locales (auto intro: func_keeps)

interpretation increase_runs: interleaving "cact (\<lambda>t. thread_increase n)" "\<lambda>_. count_inv None n" k for n k
  by unfold_locales (auto intro: thread_increase_keeps)

section \<open>Properties\<close>

text \<open>C38: when all threads have finished, after any interleaving, the counter is the number of threads times the
  number of rounds (modulo the width of an \<open>int\<close>), with the mutex, with the spin lock, with \<open>inc\<close>, and
  for \<open>thread_increase\<close>.\<close>

theorem atomic_counter_exact:
  assumes "(\<exists>b. b \<noteq> Plain \<and> prog = func b n) \<or> prog = (\<lambda>t. thread_increase n)"
    and "run (cact prog) ts (cstart threads) = Some s" and "\<forall>p\<in>set (cplaces s). p = Finished"
  shows "cvalue s = of_nat (threads * n)"
proof -
  have "\<exists>b. count_inv b n s"
  proof (cases "prog = (\<lambda>t. thread_increase n)")
    case True
    then have r: "run (cact (\<lambda>t. thread_increase n)) ts (cstart threads) = Some s" using assms(2) by simp
    show ?thesis using increase_runs.run_keeps [OF count_inv_start order_refl r] by blast
  next
    case False
    then obtain b where "b \<noteq> Plain" "prog = func b n" using assms(1) by auto
    then have b: "b \<noteq> Plain" and r: "run (cact (func b n)) ts (cstart threads) = Some s" using assms(2) by simp_all
    show ?thesis using func_runs.run_keeps [OF conjI [OF b count_inv_start] order_refl r] by blast
  qed
  then show ?thesis using all_finished assms(3) run_threads [OF assms(2)] by auto
qed

theorem atomic_counter_exact_witness:
  "\<exists>s. run (cact (\<lambda>t. thread_increase 2)) ([0, 1, 0, 1, 1, 0, 1] @ replicate 6 0 @ replicate 5 1) (cstart 2) = Some s \<and> cvalue s = 4"
  using atomic_counter_exact [of "\<lambda>t. thread_increase 2" 2 "[0, 1, 0, 1, 1, 0, 1] @ replicate 6 0 @ replicate 5 1" 2]
  by (simp add: cact_def cstart_def inc_def eval_nat_numeral)

text \<open>A thread that runs alone, from the test of its loop to its end.\<close>

lemma plain_round:
  "t < length (cplaces s) \<Longrightarrow> cplaces s ! t = Test i \<Longrightarrow> i < n \<Longrightarrow>
    run (cact (func Plain n)) [t, t, t] s = Some (s\<lparr>cvalue := cvalue s + 1, cplaces := (cplaces s)[t := Test (i + 1)]\<rparr>)"
  by (simp add: cact_def)

lemma plain_alone:
  "t < length (cplaces s) \<Longrightarrow> cplaces s ! t = Test i \<Longrightarrow> i + k \<le> n \<Longrightarrow>
    run (cact (func Plain n)) (replicate (3 * k) t) s = Some (s\<lparr>cvalue := cvalue s + of_nat k, cplaces := (cplaces s)[t := Test (i + k)]\<rparr>)"
proof (induction k arbitrary: s i)
  case 0
  have "(cplaces s)[t := Test i] = cplaces s" using 0 by (metis list_update_id)
  then show ?case by simp
next
  case (Suc k)
  let ?s = "s\<lparr>cvalue := cvalue s + 1, cplaces := (cplaces s)[t := Test (i + 1)]\<rparr>"
  have r: "replicate (3 * Suc k) t = [t, t, t] @ replicate (3 * k) t" by (simp add: eval_nat_numeral)
  have "run (cact (func Plain n)) [t, t, t] s = Some ?s" by (rule plain_round) (use Suc.prems in auto)
  moreover have "run (cact (func Plain n)) (replicate (3 * k) t) ?s =
      Some (?s\<lparr>cvalue := cvalue ?s + of_nat k, cplaces := (cplaces ?s)[t := Test (i + 1 + k)]\<rparr>)"
    by (rule Suc.IH) (use Suc.prems in auto)
  ultimately have "run (cact (func Plain n)) (replicate (3 * Suc k) t) s =
      Some (?s\<lparr>cvalue := cvalue ?s + of_nat k, cplaces := (cplaces ?s)[t := Test (i + 1 + k)]\<rparr>)"
    unfolding r by (rule run_appendI)
  then show ?case by (simp add: algebra_simps)
qed

text \<open>without lock or atomic instruction, two threads that each count to \<open>n\<close> can end with the counter at 2,
  whatever \<open>n\<close> is.\<close>

theorem plain_counter_loses_updates:
  assumes "2 \<le> n"
  shows "\<exists>ts s. run (cact (func Plain n)) ts (cstart 2) = Some s \<and> (\<forall>p\<in>set (cplaces s). p = Finished) \<and> cvalue s = 2"
proof -
  let ?r = "run (cact (func Plain n))"
  define s where "s v p q = \<lparr>cvalue = v, clock = None, cplaces = [p, q], creturns = []\<rparr>" for v p q
  have a: "?r [0, 0] (cstart 2) = Some (s 0 (Store 1 0) (Test 0))"
    using assms by (simp add: cact_def cstart_def s_def eval_nat_numeral)
  have b: "?r (replicate (3 * (n - 1)) 1) (s 0 (Store 1 0) (Test 0)) = Some (s (of_nat (n - 1)) (Store 1 0) (Test (n - 1)))"
    by (subst plain_alone [where i = 0]) (simp_all add: s_def)
  have c: "?r [1, 0, 1] (s (of_nat (n - 1)) (Store 1 0) (Test (n - 1))) = Some (s 1 (Test 1) (Store n 1))"
    using assms by (simp add: cact_def s_def)
  have d: "?r (replicate (3 * (n - 1)) 0) (s 1 (Test 1) (Store n 1)) = Some (s (of_nat n) (Test n) (Store n 1))"
    by (subst plain_alone [where i = 1]) (use assms in \<open>simp_all add: s_def of_nat_diff\<close>)
  have e: "?r [0, 1, 1] (s (of_nat n) (Test n) (Store n 1)) = Some (s 2 Finished Finished)"
    by (simp add: cact_def s_def)
  from run_appendI [OF a run_appendI [OF b run_appendI [OF c run_appendI [OF d e]]]]
  show ?thesis by (intro exI conjI) (assumption, simp_all add: s_def)
qed

theorem plain_counter_loses_updates_witness:
  "\<exists>ts s. run (cact (func Plain FUNC_COUNT)) ts (cstart 2) = Some s \<and> (\<forall>p\<in>set (cplaces s). p = Finished) \<and> cvalue s = 2"
  using plain_counter_loses_updates [of FUNC_COUNT] by simp

text \<open>the value \<open>lxx_atomic_add\<close> returns is not that of its own addition: two calls can both return 2.\<close>

theorem lxx_atomic_add_returns_later_value:
  "\<exists>s. run (cact (\<lambda>t. thread_increase 1)) [0, 0, 0, 1, 1, 1, 0, 1, 0, 1] (cstart 2) = Some s \<and>
     (\<forall>p\<in>set (cplaces s). p = Finished) \<and> cvalue s = 2 \<and> creturns s = [2, 2]"
  by (simp add: cact_def cstart_def inc_def eval_nat_numeral)

end
