(* ===== verification/BTree.thy ===== *)
theory BTree
  imports Prelude
begin

text \<open>
  The B-tree of \<open>1.1.2.../btree.cpp\<close>, a C program in all but its name. The nodes live in an explicit store;
  their arrays have the length they are allocated with, and every access is checked, so that an index outside an
  array, a null pointer and a freed node are all \<open>None\<close>. A loop whose iterations read and write arrays of one
  node is a loop over those arrays.
\<close>

section \<open>Arrays\<close>

definition arr_get :: "'a list \<Rightarrow> nat \<Rightarrow> 'a option" where
  "arr_get xs i = (if i < length xs then Some (xs ! i) else None)"

definition arr_set :: "'a list \<Rightarrow> nat \<Rightarrow> 'a \<Rightarrow> 'a list option" where
  "arr_set xs i v = (if i < length xs then Some (xs[i := v]) else None)"

text \<open>\<open>for (j = k + n - 1; j >= k; j--) xs[j + 1] = xs[j]\<close>\<close>

fun move_up :: "nat \<Rightarrow> nat \<Rightarrow> 'a list \<Rightarrow> 'a list option" where
  "move_up k 0 xs = Some xs"
| "move_up k (Suc n) xs = do {
     v \<leftarrow> arr_get xs (k + n);
     ys \<leftarrow> arr_set xs (Suc (k + n)) v;
     move_up k n ys }"

text \<open>\<open>for (j = k; j < k + n; j++) xs[j] = xs[j + 1]\<close>\<close>

fun move_down :: "nat \<Rightarrow> nat \<Rightarrow> 'a list \<Rightarrow> 'a list option" where
  "move_down k 0 xs = Some xs"
| "move_down k (Suc n) xs = do {
     v \<leftarrow> arr_get xs (Suc k);
     ys \<leftarrow> arr_set xs k v;
     move_down (Suc k) n ys }"

text \<open>\<open>for (j = 0; j < n; j++) dst[d + j] = src[s + j]\<close>\<close>

fun copy_range :: "nat \<Rightarrow> nat \<Rightarrow> nat \<Rightarrow> 'a list \<Rightarrow> 'a list \<Rightarrow> 'a list option" where
  "copy_range d s 0 src dst = Some dst"
| "copy_range d s (Suc n) src dst = do {
     v \<leftarrow> arr_get src s;
     ys \<leftarrow> arr_set dst d v;
     copy_range (Suc d) (Suc s) n src ys }"

section \<open>The store\<close>

record btree_node =
  b_children :: "addr list"
  b_keys :: "int list"
  b_num :: nat
  b_leaf :: bool

text \<open>\<open>b_ok\<close> is the outcome of each call of \<open>calloc\<close>, \<open>b_calls\<close> their number. A node has the address one above
  the number of its call; addresses are not used twice.\<close>

record bheap =
  b_mem :: "addr \<Rightarrow> btree_node option"
  b_ok :: "nat \<Rightarrow> bool"
  b_calls :: nat

definition node_at :: "bheap \<Rightarrow> addr \<Rightarrow> btree_node option" where
  "node_at h a = (if a = NULL then None else b_mem h a)"

definition set_node :: "addr \<Rightarrow> btree_node \<Rightarrow> bheap \<Rightarrow> bheap" where
  "set_node a n h = h\<lparr>b_mem := (b_mem h)(a \<mapsto> n)\<rparr>"

record btree =
  root :: addr
  bt_t :: nat

section \<open>Nodes\<close>

text \<open>The arrays that were not allocated are null pointers, here without elements.\<close>

definition btree_create_node :: "nat \<Rightarrow> bool \<Rightarrow> bheap \<Rightarrow> addr \<times> bheap" where
  "btree_create_node t leaf h = (let c = b_calls h in
     if \<not> b_ok h c then (NULL, h\<lparr>b_calls := c + 1\<rparr>)
     else (c + 1, set_node (c + 1)
       \<lparr>b_children = (if b_ok h (c + 2) then replicate (2 * t) NULL else []),
        b_keys = (if b_ok h (c + 1) then replicate (2 * t - 1) 0 else []), b_num = 0, b_leaf = leaf\<rparr>
       (h\<lparr>b_calls := c + 3\<rparr>)))"

definition btree_destroy_node :: "addr \<Rightarrow> bheap \<Rightarrow> bheap option" where
  "btree_destroy_node a h = (if a = NULL then Some h
     else if b_mem h a = None then None else Some (h\<lparr>b_mem := (b_mem h)(a := None)\<rparr>))"

definition btree_create :: "nat \<Rightarrow> bheap \<Rightarrow> btree \<times> bheap" where
  "btree_create t h = (let (x, h1) = btree_create_node t True h in (\<lparr>root = x, bt_t = t\<rparr>, h1))"

section \<open>Insertion\<close>

definition btree_split_clild :: "nat \<Rightarrow> addr \<Rightarrow> nat \<Rightarrow> bheap \<Rightarrow> bheap option" where
  "btree_split_clild t x i h = do {
     xn \<leftarrow> node_at h x;
     y \<leftarrow> arr_get (b_children xn) i;
     yn \<leftarrow> node_at h y;
     let (z, h1) = btree_create_node t (b_leaf yn) h;
     zn \<leftarrow> node_at h1 z;
     zk \<leftarrow> copy_range 0 t (t - 1) (b_keys yn) (b_keys zn);
     zc \<leftarrow> (if b_leaf yn then Some (b_children zn) else copy_range 0 t t (b_children yn) (b_children zn));
     let h2 = set_node y (yn\<lparr>b_num := t - 1\<rparr>) (set_node z (zn\<lparr>b_children := zc, b_keys := zk, b_num := t - 1\<rparr>) h1);
     xn \<leftarrow> node_at h2 x;
     cs \<leftarrow> move_up (i + 1) (b_num xn - i) (b_children xn);
     cs \<leftarrow> arr_set cs (i + 1) z;
     ks \<leftarrow> move_up i (b_num xn - i) (b_keys xn);
     k \<leftarrow> arr_get (b_keys yn) (t - 1);
     ks \<leftarrow> arr_set ks i k;
     Some (set_node x (xn\<lparr>b_children := cs, b_keys := ks, b_num := b_num xn + 1\<rparr>) h2) }"

text \<open>The loop of a leaf: the keys above \<open>key\<close> move up; the result has the place of the new key, \<open>i + 1\<close>.\<close>

fun shift_keys :: "int \<Rightarrow> nat \<Rightarrow> int list \<Rightarrow> (int list \<times> nat) option" where
  "shift_keys key 0 ks = Some (ks, 0)"
| "shift_keys key (Suc i) ks = do {
     k \<leftarrow> arr_get ks i;
     if k > key then do { ks' \<leftarrow> arr_set ks (Suc i) k; shift_keys key i ks' } else Some (ks, Suc i) }"

text \<open>The loop of an inner node: \<open>i + 1\<close>.\<close>

fun find_child :: "int \<Rightarrow> nat \<Rightarrow> int list \<Rightarrow> nat option" where
  "find_child key 0 ks = Some 0"
| "find_child key (Suc i) ks = do {
     k \<leftarrow> arr_get ks i;
     if k > key then find_child key i ks else Some (Suc i) }"

partial_function (option) btree_insert_nonfull :: "nat \<Rightarrow> addr \<Rightarrow> int \<Rightarrow> bheap \<Rightarrow> bheap option" where
  "btree_insert_nonfull t x key h = do {
     xn \<leftarrow> node_at h x;
     if b_leaf xn then do {
       (ks, p) \<leftarrow> shift_keys key (b_num xn) (b_keys xn);
       ks \<leftarrow> arr_set ks p key;
       Some (set_node x (xn\<lparr>b_keys := ks, b_num := b_num xn + 1\<rparr>) h) }
     else do {
       p \<leftarrow> find_child key (b_num xn) (b_keys xn);
       c \<leftarrow> arr_get (b_children xn) p;
       cn \<leftarrow> node_at h c;
       if b_num cn = 2 * t - 1 then do {
         h1 \<leftarrow> btree_split_clild t x p h;
         xn \<leftarrow> node_at h1 x;
         k \<leftarrow> arr_get (b_keys xn) p;
         c \<leftarrow> arr_get (b_children xn) (if key > k then p + 1 else p);
         btree_insert_nonfull t c key h1 }
       else btree_insert_nonfull t c key h } }"

definition btree_insert :: "btree \<Rightarrow> int \<Rightarrow> bheap \<Rightarrow> (btree \<times> bheap) option" where
  "btree_insert T key h = do {
     rn \<leftarrow> node_at h (root T);
     if b_num rn = 2 * bt_t T - 1 then do {
       let (node, h1) = btree_create_node (bt_t T) False h;
       nn \<leftarrow> node_at h1 node;
       cs \<leftarrow> arr_set (b_children nn) 0 (root T);
       h2 \<leftarrow> btree_split_clild (bt_t T) node 0 (set_node node (nn\<lparr>b_children := cs\<rparr>) h1);
       nn \<leftarrow> node_at h2 node;
       k \<leftarrow> arr_get (b_keys nn) 0;
       c \<leftarrow> arr_get (b_children nn) (if key > k then 1 else 0);
       h3 \<leftarrow> btree_insert_nonfull (bt_t T) c key h2;
       Some (T\<lparr>root := node\<rparr>, h3) }
     else do {
       h1 \<leftarrow> btree_insert_nonfull (bt_t T) (root T) key h;
       Some (T, h1) } }"

section \<open>Deletion\<close>

text \<open>\<open>btree_merge\<close> up to the end of its last loop: the left child with the keys and the children of the right
  one, which is freed, and the arrays of the parent, without the key and the child, not yet stored.\<close>

definition merge_moves :: "nat \<Rightarrow> addr \<Rightarrow> nat \<Rightarrow> bheap \<Rightarrow> (addr \<times> btree_node \<times> int list \<times> addr list \<times> bheap) option" where
  "merge_moves t node idx h = do {
     nn \<leftarrow> node_at h node;
     left \<leftarrow> arr_get (b_children nn) idx;
     right \<leftarrow> arr_get (b_children nn) (idx + 1);
     ln \<leftarrow> node_at h left;
     rn \<leftarrow> node_at h right;
     k \<leftarrow> arr_get (b_keys nn) idx;
     lk \<leftarrow> arr_set (b_keys ln) (t - 1) k;
     lk \<leftarrow> copy_range t 0 (t - 1) (b_keys rn) lk;
     lc \<leftarrow> (if b_leaf ln then Some (b_children ln) else copy_range t 0 t (b_children rn) (b_children ln));
     h1 \<leftarrow> btree_destroy_node right (set_node left (ln\<lparr>b_children := lc, b_keys := lk, b_num := b_num ln + t\<rparr>) h);
     nn \<leftarrow> node_at h1 node;
     ks \<leftarrow> move_down idx (b_num nn - 1 - idx) (b_keys nn);
     cs \<leftarrow> move_down (idx + 1) (b_num nn - 1 - idx) (b_children nn);
     Some (left, nn, ks, cs, h1) }"

text \<open>Then \<open>children[i + 1]\<close> is cleared, with the \<open>i\<close> the loop ended with.\<close>

definition btree_merge :: "nat \<Rightarrow> addr \<Rightarrow> nat \<Rightarrow> addr \<times> bheap \<Rightarrow> (addr \<times> bheap) option" where
  "btree_merge t node idx = (\<lambda>(r, h). do {
     (left, nn, ks, cs, h1) \<leftarrow> merge_moves t node idx h;
     cs \<leftarrow> arr_set cs (max (idx + 1) (b_num nn) + 1) NULL;
     let h2 = set_node node (nn\<lparr>b_children := cs, b_keys := ks, b_num := b_num nn - 1\<rparr>) h1;
     if b_num nn - 1 = 0 then do { h3 \<leftarrow> btree_destroy_node node h2; Some (left, h3) } else Some (r, h2) })"

text \<open>The child takes the separating key, and the separator is the first key of its right sibling.\<close>

definition borrow_right :: "addr \<Rightarrow> nat \<Rightarrow> addr \<Rightarrow> addr \<Rightarrow> bheap \<Rightarrow> bheap option" where
  "borrow_right node idx child right h = do {
     nn \<leftarrow> node_at h node;
     cn \<leftarrow> node_at h child;
     rn \<leftarrow> node_at h right;
     k \<leftarrow> arr_get (b_keys nn) idx;
     ck \<leftarrow> arr_set (b_keys cn) (b_num cn) k;
     r0 \<leftarrow> arr_get (b_children rn) 0;
     cc \<leftarrow> arr_set (b_children cn) (b_num cn + 1) r0;
     let h1 = set_node child (cn\<lparr>b_children := cc, b_keys := ck, b_num := b_num cn + 1\<rparr>) h;
     k0 \<leftarrow> arr_get (b_keys rn) 0;
     nk \<leftarrow> arr_set (b_keys nn) idx k0;
     let h2 = set_node node (nn\<lparr>b_keys := nk\<rparr>) h1;
     rk \<leftarrow> move_down 0 (b_num rn - 1) (b_keys rn);
     rc \<leftarrow> move_down 0 (b_num rn - 1) (b_children rn);
     rk \<leftarrow> arr_set rk (b_num rn - 1) 0;
     rl \<leftarrow> arr_get rc (b_num rn);
     rc \<leftarrow> arr_set rc (b_num rn - 1) rl;
     rc \<leftarrow> arr_set rc (b_num rn) NULL;
     Some (set_node right (rn\<lparr>b_children := rc, b_keys := rk, b_num := b_num rn - 1\<rparr>) h2) }"

text \<open>The child takes the separating key in front, and the separator is the last key of its left sibling.\<close>

definition borrow_left :: "addr \<Rightarrow> nat \<Rightarrow> addr \<Rightarrow> addr \<Rightarrow> bheap \<Rightarrow> bheap option" where
  "borrow_left node idx child left h = do {
     nn \<leftarrow> node_at h node;
     cn \<leftarrow> node_at h child;
     ck \<leftarrow> move_up 0 (b_num cn) (b_keys cn);
     cc \<leftarrow> move_up 1 (b_num cn) (b_children cn);
     c0 \<leftarrow> arr_get cc 0;
     cc \<leftarrow> arr_set cc 1 c0;
     ln \<leftarrow> node_at h left;
     ll \<leftarrow> arr_get (b_children ln) (b_num ln);
     cc \<leftarrow> arr_set cc 0 ll;
     k \<leftarrow> (if idx = 0 then None else arr_get (b_keys nn) (idx - 1));
     ck \<leftarrow> arr_set ck 0 k;
     let h1 = set_node child (cn\<lparr>b_children := cc, b_keys := ck, b_num := b_num cn + 1\<rparr>) h;
     lk \<leftarrow> arr_get (b_keys ln) (b_num ln - 1);
     nk \<leftarrow> arr_set (b_keys nn) (idx - 1) lk;
     let h2 = set_node node (nn\<lparr>b_keys := nk\<rparr>) h1;
     lks \<leftarrow> arr_set (b_keys ln) (b_num ln - 1) 0;
     lcs \<leftarrow> arr_set (b_children ln) (b_num ln) NULL;
     Some (set_node left (ln\<lparr>b_children := lcs, b_keys := lks, b_num := b_num ln - 1\<rparr>) h2) }"

text \<open>\<open>while (idx < node->num && key > node->keys[idx]) idx++\<close>, for \<open>n\<close> more keys\<close>

fun key_index :: "int \<Rightarrow> nat \<Rightarrow> nat \<Rightarrow> int list \<Rightarrow> nat option" where
  "key_index key idx 0 ks = Some idx"
| "key_index key idx (Suc n) ks = do {
     k \<leftarrow> arr_get ks idx;
     if key > k then key_index key (Suc idx) n ks else Some idx }"

text \<open>The key of a leaf; an empty leaf is freed with \<open>free\<close>, and the tree is gone.\<close>

definition delete_in_leaf :: "addr \<Rightarrow> nat \<Rightarrow> addr \<times> bheap \<Rightarrow> (addr \<times> bheap) option" where
  "delete_in_leaf node idx = (\<lambda>(r, h). do {
     nn \<leftarrow> node_at h node;
     ks \<leftarrow> move_down idx (b_num nn - 1 - idx) (b_keys nn);
     ks \<leftarrow> arr_set ks (b_num nn - 1) 0;
     let h1 = set_node node (nn\<lparr>b_keys := ks, b_num := b_num nn - 1\<rparr>) h;
     if b_num nn - 1 = 0 then do { h2 \<leftarrow> btree_destroy_node node h1; Some (NULL, h2) } else Some (r, h1) })"

text \<open>A sibling: the address in the array and, unless it is null, the number of its keys.\<close>

definition sibling :: "bool \<Rightarrow> nat \<Rightarrow> btree_node \<Rightarrow> bheap \<Rightarrow> (addr \<times> nat) option" where
  "sibling there i nn h = (if \<not> there then Some (NULL, 0)
     else do {
       a \<leftarrow> arr_get (b_children nn) i;
       if a = NULL then Some (NULL, 0) else do { n \<leftarrow> node_at h a; Some (a, b_num n) } })"

text \<open>A child with \<open>t - 1\<close> keys borrows from a sibling or is merged with one before the descent; the result is the child to go on with.\<close>

definition fill_child :: "nat \<Rightarrow> addr \<Rightarrow> nat \<Rightarrow> addr \<Rightarrow> addr \<times> bheap \<Rightarrow> (addr \<times> addr \<times> bheap) option" where
  "fill_child t node idx child = (\<lambda>(r, h). do {
     nn \<leftarrow> node_at h node;
     (left, ln) \<leftarrow> sibling (0 < idx) (idx - 1) nn h;
     (right, rn) \<leftarrow> sibling (idx + 1 \<le> b_num nn) (idx + 1) nn h;
     if (left \<noteq> NULL \<and> ln \<ge> t) \<or> (right \<noteq> NULL \<and> rn \<ge> t) then do {
       let richR = (if left \<noteq> NULL \<and> right \<noteq> NULL then rn > ln else right \<noteq> NULL);
       h1 \<leftarrow> (if right \<noteq> NULL \<and> rn \<ge> t \<and> richR then borrow_right node idx child right h
              else borrow_left node idx child left h);
       Some (child, r, h1) }
     else if (left = NULL \<or> ln = t - 1) \<and> (right = NULL \<or> rn = t - 1) then
       (if left \<noteq> NULL \<and> ln = t - 1 then do { (r1, h1) \<leftarrow> btree_merge t node (idx - 1) (r, h); Some (left, r1, h1) }
        else if right \<noteq> NULL \<and> rn = t - 1 then do { (r1, h1) \<leftarrow> btree_merge t node idx (r, h); Some (child, r1, h1) }
        else Some (child, r, h))
     else Some (child, r, h) })"

partial_function (option) btree_delete_key :: "nat \<Rightarrow> addr \<Rightarrow> int \<Rightarrow> addr \<times> bheap \<Rightarrow> (addr \<times> bheap) option" where
  "btree_delete_key t node key s =
    (if node = NULL then Some s
     else do {
       nn \<leftarrow> node_at (snd s) node;
       idx \<leftarrow> key_index key 0 (b_num nn) (b_keys nn);
       if idx < b_num nn \<and> b_keys nn ! idx = key then
         (if b_leaf nn then delete_in_leaf node idx s
          else do {
            left \<leftarrow> arr_get (b_children nn) idx;
            ln \<leftarrow> node_at (snd s) left;
            if b_num ln \<ge> t then do {
              k \<leftarrow> arr_get (b_keys ln) (b_num ln - 1);
              nk \<leftarrow> arr_set (b_keys nn) idx k;
              btree_delete_key t left k (fst s, set_node node (nn\<lparr>b_keys := nk\<rparr>) (snd s)) }
            else do {
              right \<leftarrow> arr_get (b_children nn) (idx + 1);
              rn \<leftarrow> node_at (snd s) right;
              if b_num rn \<ge> t then do {
                k \<leftarrow> arr_get (b_keys rn) 0;
                nk \<leftarrow> arr_set (b_keys nn) idx k;
                btree_delete_key t right k (fst s, set_node node (nn\<lparr>b_keys := nk\<rparr>) (snd s)) }
              else do {
                s1 \<leftarrow> btree_merge t node idx s;
                nn \<leftarrow> node_at (snd s1) node;
                c \<leftarrow> arr_get (b_children nn) idx;
                btree_delete_key t c key s1 } } })
       else do {
         child \<leftarrow> arr_get (b_children nn) idx;
         if child = NULL then Some s
         else do {
           cn \<leftarrow> node_at (snd s) child;
           if b_num cn = t - 1 then do {
             (c, s1) \<leftarrow> fill_child t node idx child s;
             btree_delete_key t c key s1 }
           else btree_delete_key t child key s } } })"

text \<open>The result -1 of an empty tree, or 0.\<close>

definition btree_delete :: "btree \<Rightarrow> int \<Rightarrow> bheap \<Rightarrow> (int \<times> btree \<times> bheap) option" where
  "btree_delete T key h = (if root T = NULL then Some (- 1, T, h)
     else do {
       (r, h1) \<leftarrow> btree_delete_key (bt_t T) (root T) key (root T, h);
       Some (0, T\<lparr>root := r\<rparr>, h1) })"

section \<open>Reading\<close>

text \<open>The keys that \<open>btree_traverse\<close> prints, from the round \<open>i\<close> of its loop on.\<close>

partial_function (option) traverse_from :: "nat \<Rightarrow> addr \<Rightarrow> bheap \<Rightarrow> int list option" where
  "traverse_from i x h = do {
     n \<leftarrow> node_at h x;
     if b_leaf n then (if i < b_num n then do {
         k \<leftarrow> arr_get (b_keys n) i;
         ks \<leftarrow> traverse_from (i + 1) x h;
         Some (k # ks) } else Some [])
     else do {
       c \<leftarrow> arr_get (b_children n) i;
       a \<leftarrow> traverse_from 0 c h;
       if i < b_num n then do {
         k \<leftarrow> arr_get (b_keys n) i;
         ks \<leftarrow> traverse_from (i + 1) x h;
         Some (a @ k # ks) } else Some a } }"

definition btree_traverse :: "addr \<Rightarrow> bheap \<Rightarrow> int list option" where
  "btree_traverse x h = traverse_from 0 x h"

declare btree_insert_nonfull.simps [code] btree_delete_key.simps [code] traverse_from.simps [code]

text \<open>The loop of \<open>btree_bin_search\<close> over the keys of a node; \<open>mid\<close> outside the array is undefined.\<close>

function bin_search_loop :: "int list \<Rightarrow> int \<Rightarrow> int \<Rightarrow> int \<Rightarrow> int option" where
  "bin_search_loop ks key low high =
    (if low > high then Some low
     else (let mid = (low + high) div 2 in
       if low < 0 \<or> int (length ks) \<le> mid then None
       else if key > ks ! nat mid then bin_search_loop ks key (mid + 1) high
       else bin_search_loop ks key low (mid - 1)))"
  by pat_completeness auto
termination by (relation "measure (\<lambda>(ks, key, low, high). nat (high + 1 - low))") auto

definition btree_bin_search :: "addr \<Rightarrow> int \<Rightarrow> int \<Rightarrow> int \<Rightarrow> bheap \<Rightarrow> int option" where
  "btree_bin_search node low high key h =
    (if low > high \<or> low < 0 \<or> high < 0 then Some (- 1)
     else do { n \<leftarrow> node_at h node; bin_search_loop (b_keys n) key low high })"

text \<open>Calls of \<open>btree_insert\<close> and \<open>btree_delete\<close> in a row, as \<open>main\<close> makes them.\<close>

fun insert_all :: "int list \<Rightarrow> btree \<times> bheap \<Rightarrow> (btree \<times> bheap) option" where
  "insert_all [] s = Some s"
| "insert_all (k # ks) s = do { s1 \<leftarrow> btree_insert (fst s) k (snd s); insert_all ks s1 }"

fun delete_all :: "int list \<Rightarrow> btree \<times> bheap \<Rightarrow> (btree \<times> bheap) option" where
  "delete_all [] s = Some s"
| "delete_all (k # ks) s = do { (r, s1) \<leftarrow> btree_delete (fst s) k (snd s); delete_all ks s1 }"

end
