(* ===== verification/BTree_Shape.thy ===== *)
theory BTree_Shape
  imports BTree
begin

text \<open>
  Insertion into the B-tree is correct. The store represents a tree whose nodes carry their addresses; the loops over arrays have closed
  forms, splitting a full child is an equation of trees, and insertion keeps the balance, the number of keys
  of each node and the order.
\<close>

section \<open>The loops over arrays\<close>

lemma drop_update_same: "m < length xs \<Longrightarrow> drop m (xs[m := v]) = v # drop (Suc m) xs"
  by (simp add: upd_conv_take_nth_drop)

lemma take_Suc_drop: "s < length xs \<Longrightarrow> take (Suc n) (drop s xs) = xs ! s # take n (drop (Suc s) xs)"
  by (subst Cons_nth_drop_Suc [symmetric]) simp_all

lemma move_up_closed:
  "k + n < length xs \<Longrightarrow> move_up k n xs = Some (take (Suc k) xs @ take n (drop k xs) @ drop (Suc (k + n)) xs)"
proof (induction n arbitrary: xs)
  case (Suc n)
  let ?ys = "xs[Suc (k + n) := xs ! (k + n)]"
  have "move_up k (Suc n) xs = move_up k n ?ys" using Suc.prems by (simp add: arr_get_def arr_set_def)
  also have "\<dots> = Some (take (Suc k) ?ys @ take n (drop k ?ys) @ drop (Suc (k + n)) ?ys)" using Suc by simp
  also have "take (Suc k) ?ys = take (Suc k) xs" by (simp add: take_update_cancel)
  also have "take n (drop k ?ys) = take n (drop k xs)" by (simp add: drop_update_swap take_update_cancel)
  also have "drop (Suc (k + n)) ?ys = xs ! (k + n) # drop (Suc (Suc (k + n))) xs"
    using Suc.prems by (intro drop_update_same) simp
  finally have m: "move_up k (Suc n) xs = Some (take (Suc k) xs @ take n (drop k xs) @ xs ! (k + n) # drop (Suc (Suc (k + n))) xs)" .
  have t: "take (Suc n) (drop k xs) = take n (drop k xs) @ [xs ! (k + n)]"
    using Suc.prems by (simp add: take_Suc_conv_app_nth)
  show ?case unfolding m t by simp
qed simp

text \<open>A place is made and filled in the first \<open>k + n\<close> elements.\<close>

lemma move_up_set:
  assumes "k + n < length xs"
  shows "\<exists>ys. move_up k n xs = Some ys \<and> length ys = length xs \<and>
    (\<exists>zs. arr_set ys k v = Some zs \<and> length zs = length xs \<and> take (Suc (k + n)) zs = take k xs @ v # take n (drop k xs))"
proof -
  let ?ys = "take (Suc k) xs @ take n (drop k xs) @ drop (Suc (k + n)) xs"
  have m: "move_up k n xs = Some ?ys" by (rule move_up_closed [OF assms])
  have l: "length ?ys = length xs" using assms by simp
  have k: "?ys[k := v] = take k xs @ v # take n (drop k xs) @ drop (Suc (k + n)) xs"
    using assms by (simp add: take_Suc_conv_app_nth list_update_append)
  have "n \<le> length xs - k" using assms by linarith
  then have "take (Suc (k + n)) (take k xs @ v # take n (drop k xs) @ drop (Suc (k + n)) xs) = take k xs @ v # take n (drop k xs)"
    using assms by (simp add: min_absorb1 min_absorb2)
  then show ?thesis using m l k assms by (simp add: arr_set_def)
qed

lemma copy_range_closed:
  "s + n \<le> length src \<Longrightarrow> d + n \<le> length dst \<Longrightarrow>
    copy_range d s n src dst = Some (take d dst @ take n (drop s src) @ drop (d + n) dst)"
proof (induction n arbitrary: d s dst)
  case (Suc n)
  let ?dst = "dst[d := src ! s]"
  have "copy_range d s (Suc n) src dst = copy_range (Suc d) (Suc s) n src ?dst"
    using Suc.prems by (simp add: arr_get_def arr_set_def)
  also have "\<dots> = Some (take (Suc d) ?dst @ take n (drop (Suc s) src) @ drop (Suc d + n) ?dst)" using Suc by simp
  also have "take (Suc d) ?dst = take d dst @ [src ! s]"
    using Suc.prems by (simp add: take_Suc_conv_app_nth take_update_cancel)
  also have "drop (Suc d + n) ?dst = drop (d + Suc n) dst" by simp
  finally show ?case using Suc.prems by (simp add: take_Suc_drop)
qed simp

text \<open>The loop of a leaf stops behind the last key that is not above the new one.\<close>

definition stops_at :: "int \<Rightarrow> int list \<Rightarrow> nat \<Rightarrow> nat \<Rightarrow> bool" where
  "stops_at key ks n p \<longleftrightarrow> p \<le> n \<and> (p = 0 \<or> ks ! (p - 1) \<le> key) \<and> (\<forall>j. p \<le> j \<and> j < n \<longrightarrow> key < ks ! j)"

lemma shift_keys_closed:
  "n < length ks \<Longrightarrow> \<exists>p. shift_keys key n ks = map_option (\<lambda>ks'. (ks', p)) (move_up p (n - p) ks) \<and> stops_at key ks n p"
proof (induction n arbitrary: ks)
  case 0
  then show ?case by (intro exI [of _ 0]) (simp add: stops_at_def)
next
  case (Suc i)
  show ?case
  proof (cases "ks ! i > key")
    case True
    let ?ks = "ks[Suc i := ks ! i]"
    obtain p where p: "shift_keys key i ?ks = map_option (\<lambda>ks'. (ks', p)) (move_up p (i - p) ?ks)" "stops_at key ?ks i p"
      using Suc.IH [of ?ks] Suc.prems by auto
    have pi: "p \<le> i" using p(2) by (simp add: stops_at_def)
    have "shift_keys key (Suc i) ks = shift_keys key i ?ks" using True Suc.prems by (simp add: arr_get_def arr_set_def)
    moreover have "move_up p (Suc i - p) ks = move_up p (i - p) ?ks"
      using pi Suc.prems by (simp add: Suc_diff_le arr_get_def arr_set_def)
    moreover have "stops_at key ks (Suc i) p" using p(2) True unfolding stops_at_def by (auto simp: less_Suc_eq)
    ultimately show ?thesis using p(1) by (intro exI [of _ p]) simp
  next
    case False
    then have "shift_keys key (Suc i) ks = Some (ks, Suc i)" using Suc.prems by (simp add: arr_get_def)
    then show ?thesis using False by (intro exI [of _ "Suc i"]) (simp add: stops_at_def)
  qed
qed

lemma find_child_closed: "n \<le> length ks \<Longrightarrow> \<exists>p. find_child key n ks = Some p \<and> stops_at key ks n p"
proof (induction n)
  case (Suc i)
  then obtain p where p: "find_child key i ks = Some p" "stops_at key ks i p" by auto
  then show ?case using Suc.prems by (cases "ks ! i > key") (auto simp: arr_get_def stops_at_def less_Suc_eq)
qed (simp add: stops_at_def)

lemma stops_at_take: "stops_at key xs n p \<Longrightarrow> stops_at key (take n xs) n p"
  by (cases p) (auto simp: stops_at_def)

section \<open>Trees\<close>

datatype bt = Node (addr_of: addr) (keys_of: "int list") (kids: "bt list")

fun addrs :: "bt \<Rightarrow> addr list" where
  "addrs (Node a ks ts) = a # concat (map addrs ts)"

text \<open>The keys of a node between what its children give.\<close>

fun mingle :: "int list \<Rightarrow> int list list \<Rightarrow> int list" where
  "mingle ks [] = ks"
| "mingle [] (x # xs) = x"
| "mingle (k # ks) (x # xs) = x @ k # mingle ks xs"

fun inorder :: "bt \<Rightarrow> int list" where
  "inorder (Node a ks ts) = mingle ks (map inorder ts)"

text \<open>Leaves at depth \<open>d\<close>, and the number of keys of every node below the root.\<close>

fun bal :: "nat \<Rightarrow> nat \<Rightarrow> bt \<Rightarrow> bool" where
  "bal t 0 (Node a ks ts) \<longleftrightarrow> ts = []"
| "bal t (Suc d) (Node a ks ts) \<longleftrightarrow> length ts = Suc (length ks) \<and>
     (\<forall>c\<in>set ts. bal t d c \<and> t - 1 \<le> length (keys_of c) \<and> length (keys_of c) \<le> 2 * t - 1)"

text \<open>A node in the store.\<close>

definition fits :: "nat \<Rightarrow> btree_node \<Rightarrow> int list \<Rightarrow> addr list \<Rightarrow> bool" where
  "fits t n ks cs \<longleftrightarrow> length (b_keys n) = 2 * t - 1 \<and> length (b_children n) = 2 * t \<and> b_num n = length ks \<and>
     length ks \<le> 2 * t - 1 \<and> take (length ks) (b_keys n) = ks \<and> b_leaf n = (cs = []) \<and>
     (cs \<noteq> [] \<longrightarrow> length cs = Suc (length ks) \<and> take (length cs) (b_children n) = cs)"

fun rep :: "nat \<Rightarrow> bheap \<Rightarrow> bt \<Rightarrow> bool" where
  "rep t h (Node a ks ts) \<longleftrightarrow> (\<exists>n. node_at h a = Some n \<and> fits t n ks (map addr_of ts)) \<and> (\<forall>c\<in>set ts. rep t h c)"

lemma addr_in_addrs [simp]: "addr_of T \<in> set (addrs T)"
  by (cases T) simp

lemma bt_rep_frame: "rep t h T \<Longrightarrow> (\<And>a. a \<in> set (addrs T) \<Longrightarrow> b_mem h' a = b_mem h a) \<Longrightarrow> rep t h' T"
proof (induction T)
  case (Node a ks ts)
  have "node_at h' a = node_at h a" using Node.prems(2) by (simp add: node_at_def)
  moreover have "rep t h' c" if "c \<in> set ts" for c
    by (rule Node.IH [OF that]) (use Node.prems that in auto)
  ultimately show ?case using Node.prems(1) by auto
qed

lemma fits_nth: "fits t n ks cs \<Longrightarrow> i < length ks \<Longrightarrow> b_keys n ! i = ks ! i"
  unfolding fits_def by (metis nth_take)

lemma fits_child: "fits t n ks cs \<Longrightarrow> i < length cs \<Longrightarrow> b_children n ! i = cs ! i"
  unfolding fits_def by (metis length_greater_0_conv less_nat_zero_code neq0_conv nth_take)

section \<open>The order of the keys\<close>

lemma mingle_append:
  "length xs = length ks \<Longrightarrow> ys \<noteq> [] \<Longrightarrow> mingle (ks @ ls) (xs @ ys) = concat (map2 (\<lambda>x k. x @ [k]) xs ks) @ mingle ls ys"
  by (induction xs ks rule: list_induct2) simp_all

lemma mingle_head: "length xs = length ks \<Longrightarrow> mingle ks (y # xs) = y @ concat (map2 (\<lambda>k x. k # x) ks xs)"
proof (induction xs ks arbitrary: y rule: list_induct2)
  case (Cons x xs k ks)
  then show ?case by simp
qed simp

lemma mingle_split:
  "length xs = Suc (length ks) \<Longrightarrow> length ys = Suc (length ls) \<Longrightarrow> mingle (ks @ k # ls) (xs @ ys) = mingle ks xs @ k # mingle ls ys"
proof (induction ks arbitrary: xs)
  case Nil
  then show ?case by (cases xs) auto
next
  case (Cons k' ks)
  then show ?case by (cases xs) auto
qed

text \<open>Before and after the child \<open>i\<close>.\<close>

definition before :: "nat \<Rightarrow> int list \<Rightarrow> int list list \<Rightarrow> int list" where
  "before i ks xs = concat (map2 (\<lambda>x k. x @ [k]) (take i xs) (take i ks))"

definition behind :: "nat \<Rightarrow> int list \<Rightarrow> int list list \<Rightarrow> int list" where
  "behind i ks xs = concat (map2 (\<lambda>k x. k # x) (drop i ks) (drop (Suc i) xs))"

lemma mingle_focus:
  assumes "length xs = Suc (length ks)" and "i \<le> length ks"
  shows "mingle (take i ks @ ms @ drop i ks) (take i xs @ ys @ y # drop (Suc i) xs) = before i ks xs @ mingle (ms @ drop i ks) (ys @ y # drop (Suc i) xs)"
proof -
  have "length (take i xs) = length (take i ks)" using assms by simp
  from mingle_append [OF this, of "ys @ y # drop (Suc i) xs" "ms @ drop i ks"] show ?thesis by (simp add: before_def)
qed

lemma mingle_replace:
  assumes "length xs = Suc (length ks)" and "i \<le> length ks"
  shows "mingle ks (xs[i := y]) = before i ks xs @ y @ behind i ks xs"
proof -
  have "xs[i := y] = take i xs @ y # drop (Suc i) xs" using assms by (simp add: upd_conv_take_nth_drop)
  moreover have "mingle (drop i ks) (y # drop (Suc i) xs) = y @ behind i ks xs"
    unfolding behind_def by (rule mingle_head) (use assms in simp)
  ultimately show ?thesis using mingle_focus [OF assms, of "[]" "[]" y] by simp
qed

lemma mingle_at:
  assumes "length xs = Suc (length ks)" and "i \<le> length ks"
  shows "mingle ks xs = before i ks xs @ xs ! i @ behind i ks xs"
  using mingle_replace [OF assms, of "xs ! i"] by simp

lemma mingle_two:
  assumes "length xs = Suc (length ks)" and "i \<le> length ks"
  shows "mingle (take i ks @ k # drop i ks) (take i xs @ y # z # drop (Suc i) xs) = before i ks xs @ (y @ k # z) @ behind i ks xs"
proof -
  have "mingle (drop i ks) (z # drop (Suc i) xs) = z @ behind i ks xs"
    unfolding behind_def by (rule mingle_head) (use assms in simp)
  then show ?thesis using mingle_focus [OF assms, of "[k]" "[y]" z] by simp
qed

text \<open>A key is inserted between what is not above it and what is not below it.\<close>

lemma insort_unique: "sorted xs \<Longrightarrow> sorted ys \<Longrightarrow> mset ys = add_mset k (mset xs) \<Longrightarrow> ys = insort k (xs :: int list)"
  by (metis mset_insort properties_for_sort sorted_insort sorted_sort_id)

lemma insort_between:
  assumes "sorted (ls @ ms @ rs)" and "\<forall>x\<in>set ls. x \<le> k" and "\<forall>x\<in>set rs. k \<le> (x :: int)"
  shows "insort k (ls @ ms @ rs) = ls @ insort k ms @ rs"
proof -
  have "sorted (ls @ insort k ms @ rs)" using assms by (auto simp: sorted_append sorted_insort set_insort_key)
  from insort_unique [OF assms(1) this] show ?thesis by simp
qed

lemma before_low:
  assumes "length xs = Suc (length ks)" and "i \<le> length ks" and s: "sorted (mingle ks xs)" and "i = 0 \<or> ks ! (i - 1) \<le> key"
  shows "\<forall>x\<in>set (before i ks xs). x \<le> key"
proof (cases i)
  case (Suc j)
  have j: "j < length ks" "j < length xs" using assms Suc by simp_all
  have b: "before i ks xs = before j ks xs @ xs ! j @ [ks ! j]" using j by (simp add: before_def Suc take_Suc_conv_app_nth)
  have "sorted (before i ks xs)" using s mingle_at [OF assms(1,2)] by (simp add: sorted_append)
  then have "\<forall>x\<in>set (before i ks xs). x \<le> ks ! j" unfolding b by (auto simp: sorted_append)
  then show ?thesis using assms(4) Suc by auto
qed (simp add: before_def)

lemma behind_high:
  assumes "length xs = Suc (length ks)" and "i \<le> length ks" and s: "sorted (mingle ks xs)" and "i < length ks \<longrightarrow> key \<le> ks ! i"
  shows "\<forall>x\<in>set (behind i ks xs). key \<le> x"
proof (cases "i < length ks")
  case True
  have b: "behind i ks xs = ks ! i # xs ! Suc i @ behind (Suc i) ks xs"
    using True assms(1) by (simp add: behind_def Cons_nth_drop_Suc [symmetric])
  have "sorted (behind i ks xs)" using s mingle_at [OF assms(1,2)] by (simp add: sorted_append)
  then have "\<forall>x\<in>set (behind i ks xs). ks ! i \<le> x" unfolding b by auto
  then show ?thesis using assms(4) True by auto
next
  case False
  then show ?thesis by (simp add: behind_def)
qed

end
