(* ===== verification/BTree_Insert.thy ===== *)
theory BTree_Insert
  imports BTree_Shape
begin

text \<open>
  Insertion into the B-tree: what splitting a child and inserting below a node that is not full do to the
  tree the store represents.
\<close>

section \<open>Sound trees and what changes them\<close>

definition sound :: "nat \<Rightarrow> nat \<Rightarrow> bheap \<Rightarrow> bt \<Rightarrow> bool" where
  "sound t d h T \<longleftrightarrow> bal t d T \<and> rep t h T \<and> distinct (addrs T) \<and> (\<forall>a\<in>set (addrs T). a \<le> b_calls h)"

text \<open>The tree keeps its root, new nodes are fresh, and nothing else in the store changes.\<close>

definition grows :: "bheap \<Rightarrow> bt \<Rightarrow> bheap \<Rightarrow> bt \<Rightarrow> bool" where
  "grows h T h' T' \<longleftrightarrow> addr_of T' = addr_of T \<and> b_ok h' = b_ok h \<and> b_calls h \<le> b_calls h' \<and>
     (\<forall>a\<in>set (addrs T'). a \<in> set (addrs T) \<or> b_calls h < a) \<and>
     (\<forall>a. a \<notin> set (addrs T) \<longrightarrow> a \<le> b_calls h \<longrightarrow> b_mem h' a = b_mem h a)"

lemma bt_grows_trans:
  assumes a: "grows h T h' T'" and b: "grows h' T' h'' T''"
  shows "grows h T h'' T''"
proof -
  have "b_mem h'' x = b_mem h x" if "x \<notin> set (addrs T)" "x \<le> b_calls h" for x
  proof -
    have "x \<notin> set (addrs T')" "x \<le> b_calls h'" using a that unfolding grows_def by force+
    then have "b_mem h'' x = b_mem h' x" using b unfolding grows_def by blast
    then show ?thesis using a that unfolding grows_def by simp
  qed
  then show ?thesis using a b unfolding grows_def by force
qed

lemma distinct_replace:
  assumes "distinct (concat xs)" and "q < length xs" and "distinct y" and "\<forall>a\<in>set y. a \<in> set (xs ! q) \<or> a \<notin> set (concat xs)"
  shows "distinct (concat (xs[q := y]))"
proof -
  have x: "concat xs = concat (take q xs) @ xs ! q @ concat (drop (Suc q) xs)"
    using id_take_nth_drop [OF assms(2)] by (metis concat.simps(2) concat_append)
  have c: "concat (xs[q := y]) = concat (take q xs) @ y @ concat (drop (Suc q) xs)"
    using assms(2) by (simp add: upd_conv_take_nth_drop)
  have d: "distinct (concat (take q xs) @ xs ! q @ concat (drop (Suc q) xs))" using assms(1) unfolding x [symmetric] .
  have "\<forall>a\<in>set y. a \<in> set (xs ! q) \<or> a \<notin> set (concat (take q xs) @ xs ! q @ concat (drop (Suc q) xs))"
    using assms(4) unfolding x [symmetric] .
  then show ?thesis unfolding c using d assms(3) by (simp only: distinct_append set_append) blast
qed

lemma concat_apart:
  "distinct (concat xs) \<Longrightarrow> i < length xs \<Longrightarrow> j < length xs \<Longrightarrow> i \<noteq> j \<Longrightarrow> set (xs ! i) \<inter> set (xs ! j) = {}"
proof (induction xs arbitrary: i j)
  case (Cons x xs)
  have x: "set x \<inter> set (xs ! k) = {}" if "k < length xs" for k using Cons.prems(1) nth_mem [OF that] by auto
  show ?case using Cons x by (cases i; cases j) (auto simp: Int_commute)
qed simp

lemma concat_part: "distinct (concat xs) \<Longrightarrow> x \<in> set xs \<Longrightarrow> distinct x"
  by (induction xs) auto

text \<open>What a change of the child \<open>q\<close> does to its parent.\<close>

lemma descend:
  assumes s: "sound t (Suc d) h (Node a ks ts)" and q: "q < length ts" and c: "sound t d h' C" and g: "grows h (ts ! q) h' C"
    and n: "t - 1 \<le> length (keys_of C)" "length (keys_of C) \<le> 2 * t - 1"
  shows "sound t (Suc d) h' (Node a ks (ts[q := C]))" and "grows h (Node a ks ts) h' (Node a ks (ts[q := C]))"
proof -
  have dist: "a \<notin> set (concat (map addrs ts))" "distinct (concat (map addrs ts))" using s by (auto simp: sound_def)
  have le: "x \<le> b_calls h" if "x = a \<or> x \<in> set (concat (map addrs ts))" for x using s that by (auto simp: sound_def)
  have new: "x \<in> set (addrs (ts ! q)) \<or> b_calls h < x" if "x \<in> set (addrs C)" for x using g that by (simp add: grows_def)
  have kept: "b_mem h' x = b_mem h x" if "x \<notin> set (addrs (ts ! q))" "x \<le> b_calls h" for x using g that by (simp add: grows_def)
  have qin: "set (addrs (ts ! q)) \<subseteq> set (concat (map addrs ts))" using nth_mem [OF q] by auto
  have apart: "set (addrs (ts ! j)) \<inter> set (addrs (ts ! q)) = {}" if "j < length ts" "j \<noteq> q" for j
    using concat_apart [OF dist(2), of j q] that q by simp
  have "a \<notin> set (addrs (ts ! q))" using dist(1) qin by blast
  then have ka: "node_at h' a = node_at h a" using kept le by (simp add: node_at_def)
  have addr: "map addr_of (ts[q := C]) = map addr_of ts" using g q by (simp add: grows_def map_update list_update_same_conv)
  have reps: "rep t h' x" if "x \<in> set (ts[q := C])" for x
  proof -
    from that have "\<exists>j<length ts. ts[q := C] ! j = x" unfolding in_set_conv_nth length_list_update .
    then obtain j where j: "j < length ts" "x = ts[q := C] ! j" by blast
    show ?thesis
    proof (cases "j = q")
      case True
      then show ?thesis using c j q by (simp add: sound_def)
    next
      case False
      then have x: "x = ts ! j" using j by simp
      have "rep t h (ts ! j)" using s j(1) by (simp add: sound_def)
      moreover have "b_mem h' y = b_mem h y" if "y \<in> set (addrs (ts ! j))" for y
        using kept [of y] le [of y] apart [OF j(1) False] that j(1) by fastforce
      ultimately show ?thesis unfolding x by (rule bt_rep_frame)
    qed
  qed
  have bals: "bal t d x \<and> t - 1 \<le> length (keys_of x) \<and> length (keys_of x) \<le> 2 * t - 1" if "x \<in> set (ts[q := C])" for x
    using set_update_subset_insert [of ts q C] that s c n by (auto simp: sound_def)
  have setc: "set (concat (map addrs (ts[q := C]))) \<subseteq> set (addrs C) \<union> set (concat (map addrs ts))"
    using set_update_subset_insert [of ts q C] by auto
  have "distinct (concat ((map addrs ts)[q := addrs C]))"
  proof (rule distinct_replace [OF dist(2)])
    show "\<forall>y\<in>set (addrs C). y \<in> set (map addrs ts ! q) \<or> y \<notin> set (concat (map addrs ts))"
    proof
      fix y assume y: "y \<in> set (addrs C)"
      show "y \<in> set (map addrs ts ! q) \<or> y \<notin> set (concat (map addrs ts))"
        using new [OF y] le [of y] q by (metis leD nth_map)
    qed
  qed (use q c in \<open>simp_all add: sound_def\<close>)
  moreover have "a \<notin> set (concat (map addrs (ts[q := C])))"
    using setc dist(1) new qin le [of a] by fastforce
  ultimately have "distinct (addrs (Node a ks (ts[q := C])))" by (simp add: map_update)
  moreover have "x \<le> b_calls h'" if "x \<in> set (addrs (Node a ks (ts[q := C])))" for x
  proof -
    have "b_calls h \<le> b_calls h'" using g by (simp add: grows_def)
    moreover have "x = a \<or> x \<in> set (addrs C) \<or> x \<in> set (concat (map addrs ts))" using that setc by auto
    ultimately show ?thesis using le [of x] c unfolding sound_def by (metis order_trans)
  qed
  moreover have "rep t h' (Node a ks (ts[q := C]))" using s ka addr reps by (simp add: sound_def)
  moreover have "bal t (Suc d) (Node a ks (ts[q := C]))" using s bals by (simp add: sound_def)
  ultimately show "sound t (Suc d) h' (Node a ks (ts[q := C]))" unfolding sound_def by blast
  have "x \<in> set (addrs (Node a ks ts)) \<or> b_calls h < x" if "x \<in> set (addrs (Node a ks (ts[q := C])))" for x
    using that setc new qin by fastforce
  moreover have "b_mem h' x = b_mem h x" if "x \<notin> set (addrs (Node a ks ts))" "x \<le> b_calls h" for x
    using kept [of x] that qin by auto
  ultimately show "grows h (Node a ks ts) h' (Node a ks (ts[q := C]))" using g unfolding grows_def by simp
qed

section \<open>Splitting a full child\<close>

fun split_left :: "nat \<Rightarrow> bt \<Rightarrow> bt" where
  "split_left t (Node b kb cb) = Node b (take (t - 1) kb) (take t cb)"

fun split_right :: "nat \<Rightarrow> addr \<Rightarrow> bt \<Rightarrow> bt" where
  "split_right t z (Node b kb cb) = Node z (drop t kb) (drop t cb)"

definition split_kids :: "nat \<Rightarrow> addr \<Rightarrow> nat \<Rightarrow> bt list \<Rightarrow> bt list" where
  "split_kids t z i ts = take i ts @ split_left t (ts ! i) # split_right t z (ts ! i) # drop (Suc i) ts"

lemma split_addrs: "mset (addrs (split_left t T) @ addrs (split_right t z T)) = add_mset z (mset (addrs T))"
proof (cases T)
  case (Node b kb cb)
  have "concat (map addrs cb) = concat (map addrs (take t cb)) @ concat (map addrs (drop t cb))"
    by (metis append_take_drop_id concat_append map_append)
  then show ?thesis using Node by simp
qed

lemma split_kids_addrs:
  assumes "i < length ts"
  shows "mset (addrs (Node a ls (split_kids t z i ts))) = add_mset z (mset (addrs (Node a ks ts)))"
proof -
  have "concat (map addrs ts) = concat (map addrs (take i ts)) @ addrs (ts ! i) @ concat (map addrs (drop (Suc i) ts))"
    using id_take_nth_drop [OF assms] by (metis concat.simps(2) concat_append list.simps(9) map_append)
  then show ?thesis using split_addrs [of t "ts ! i" z] by (simp add: split_kids_def)
qed

lemma split_inorder:
  assumes "bal t d T" and "length (keys_of T) = 2 * t - 1" and "2 \<le> t"
  shows "inorder T = inorder (split_left t T) @ keys_of T ! (t - 1) # inorder (split_right t z T)"
proof (cases T)
  case (Node b kb cb)
  have "t - 1 < length kb" using assms(2,3) Node by simp
  then have k: "kb = take (t - 1) kb @ kb ! (t - 1) # drop t kb" using id_take_nth_drop [of "t - 1" kb] assms(3) by simp
  show ?thesis
  proof (cases "cb = []")
    case True
    then show ?thesis using Node k by simp
  next
    case False
    then have l: "length cb = Suc (length kb)" using assms(1) Node by (cases d) auto
    have "mingle (take (t - 1) kb @ kb ! (t - 1) # drop t kb) (take t (map inorder cb) @ drop t (map inorder cb)) =
        mingle (take (t - 1) kb) (take t (map inorder cb)) @ kb ! (t - 1) # mingle (drop t kb) (drop t (map inorder cb))"
      by (rule mingle_split) (use l assms(2,3) Node in auto)
    then have "mingle kb (map inorder cb) =
        mingle (take (t - 1) kb) (take t (map inorder cb)) @ kb ! (t - 1) # mingle (drop t kb) (drop t (map inorder cb))"
      unfolding k [symmetric] append_take_drop_id .
    then show ?thesis using Node by (simp add: take_map drop_map)
  qed
qed

lemma split_bal:
  assumes "bal t d T" and "length (keys_of T) = 2 * t - 1" and "2 \<le> t"
  shows "bal t d (split_left t T)" "bal t d (split_right t z T)"
    "length (keys_of (split_left t T)) = t - 1" "length (keys_of (split_right t z T)) = t - 1"
proof -
  obtain b kb cb where T: "T = Node b kb cb" by (cases T)
  show "length (keys_of (split_left t T)) = t - 1" "length (keys_of (split_right t z T)) = t - 1" using T assms by auto
  show "bal t d (split_left t T)" "bal t d (split_right t z T)"
    using assms T by (cases d; auto dest: in_set_takeD in_set_dropD)+
qed

lemma split_kids_bal:
  assumes b: "bal t (Suc d) (Node a ks ts)" and i: "i \<le> length ks" and f: "length (keys_of (ts ! i)) = 2 * t - 1" and t: "2 \<le> t"
  shows "bal t (Suc d) (Node a (take i ks @ k # drop i ks) (split_kids t z i ts))"
proof -
  have "i < length ts" using b i by simp
  then have c: "bal t d (ts ! i)" using b by simp
  note s = split_bal [OF c f t]
  have "bal t d x \<and> t - 1 \<le> length (keys_of x) \<and> length (keys_of x) \<le> 2 * t - 1" if "x \<in> set (split_kids t z i ts)" for x
  proof -
    have "x = split_left t (ts ! i) \<or> x = split_right t z (ts ! i) \<or> x \<in> set ts"
      using that unfolding split_kids_def by (auto dest: in_set_takeD in_set_dropD)
    then show ?thesis using s b by auto
  qed
  then show ?thesis using b i by (simp add: split_kids_def)
qed

lemma split_kids_inorder:
  assumes b: "bal t (Suc d) (Node a ks ts)" and i: "i \<le> length ks" and f: "length (keys_of (ts ! i)) = 2 * t - 1" and t: "2 \<le> t"
  shows "inorder (Node a (take i ks @ keys_of (ts ! i) ! (t - 1) # drop i ks) (split_kids t z i ts)) = inorder (Node a ks ts)"
proof -
  have l: "length (map inorder ts) = Suc (length ks)" "i < length ts" using b i by simp_all
  then have c: "bal t d (ts ! i)" using b by simp
  have "map inorder (split_kids t z i ts) =
      take i (map inorder ts) @ inorder (split_left t (ts ! i)) # inorder (split_right t z (ts ! i)) # drop (Suc i) (map inorder ts)"
    by (simp add: split_kids_def take_map drop_map)
  then show ?thesis using mingle_two [OF l(1) i] mingle_at [OF l(1) i] split_inorder [OF c f t, of z] l(2) by simp
qed

text \<open>The node of the new tree, in the store.\<close>

lemma fits_split_parent:
  assumes f: "fits t n ks cs" and i: "i \<le> length ks" and room: "length ks < 2 * t - 1" and ne: "cs \<noteq> []"
  shows "\<exists>cc cd kk ke. move_up (i + 1) (b_num n - i) (b_children n) = Some cc \<and> arr_set cc (i + 1) z = Some cd \<and>
    move_up i (b_num n - i) (b_keys n) = Some kk \<and> arr_set kk i k = Some ke \<and>
    fits t (n\<lparr>b_children := cd, b_keys := ke, b_num := b_num n + 1\<rparr>) (take i ks @ k # drop i ks) (take (i + 1) cs @ z # drop (i + 1) cs)"
proof -
  have n: "b_num n = length ks" "length (b_keys n) = 2 * t - 1" "length (b_children n) = 2 * t" "length cs = Suc (length ks)"
    "take (length ks) (b_keys n) = ks" "take (length cs) (b_children n) = cs" "\<not> b_leaf n" using f ne by (auto simp: fits_def)
  obtain kk ke where k: "move_up i (length ks - i) (b_keys n) = Some kk" "arr_set kk i k = Some ke" "length ke = 2 * t - 1"
    "take (Suc (i + (length ks - i))) ke = take i (b_keys n) @ k # take (length ks - i) (drop i (b_keys n))"
    using move_up_set [of i "length ks - i" "b_keys n" k] n i room by auto
  have room': "i + 1 + (length ks - i) < length (b_children n)" using n(3) i room by linarith
  obtain cc cd where c: "move_up (i + 1) (length ks - i) (b_children n) = Some cc" "arr_set cc (i + 1) z = Some cd" "length cd = 2 * t"
    "take (Suc (i + 1 + (length ks - i))) cd = take (i + 1) (b_children n) @ z # take (length ks - i) (drop (i + 1) (b_children n))"
    using move_up_set [OF room', of z] n(3) by auto
  have "take i (b_keys n) = take i ks" "take (length ks - i) (drop i (b_keys n)) = drop i ks"
    using n(5) i by (metis min_absorb1 take_take, metis drop_take)
  moreover have "take (i + 1) (b_children n) = take (i + 1) cs" "take (length ks - i) (drop (i + 1) (b_children n)) = drop (i + 1) cs"
    using n(4,6) i by (metis Suc_eq_plus1 Suc_le_mono min_absorb1 take_take, metis Suc_eq_plus1 diff_Suc_Suc drop_take)
  ultimately show ?thesis using k c n i room by (simp add: fits_def)
qed

lemma split_ok:
  assumes s: "sound t (Suc d) h (Node a ks ts)" and i: "i \<le> length ks" and room: "length ks < 2 * t - 1"
    and full: "length (keys_of (ts ! i)) = 2 * t - 1" and t: "2 \<le> t" and ok: "\<forall>n. b_ok h n"
  defines "T' \<equiv> Node a (take i ks @ keys_of (ts ! i) ! (t - 1) # drop i ks) (split_kids t (b_calls h + 1) i ts)"
  shows "\<exists>h'. btree_split_clild t a i h = Some h' \<and> sound t (Suc d) h' T' \<and> grows h (Node a ks ts) h' T'"
proof -
  let ?z = "b_calls h + 1"
  have il: "i < length ts" "length ts = Suc (length ks)" using s i by (simp_all add: sound_def)
  obtain b kb cb where y: "ts ! i = Node b kb cb" by (cases "ts ! i")
  have yin: "Node b kb cb \<in> set ts" using nth_mem [OF il(1)] y by simp
  obtain n where n: "node_at h a = Some n" "fits t n ks (map addr_of ts)" using s by (auto simp: sound_def)
  have "\<forall>c\<in>set ts. rep t h c" using s by (simp add: sound_def)
  then have ry: "rep t h (Node b kb cb)" using yin by (rule bspec)
  then obtain yn where yn: "node_at h b = Some yn" "fits t yn kb (map addr_of cb)" by auto
  have le: "x \<le> b_calls h" if "x \<in> set (addrs (Node a ks ts))" for x using s that unfolding sound_def by blast
  have ab: "a \<noteq> b" using s yin unfolding sound_def by (fastforce)
  have la: "a \<le> b_calls h" "b \<le> b_calls h" using le yin by fastforce+
  define zn where "zn = \<lparr>b_children = replicate (2 * t) NULL, b_keys = replicate (2 * t - 1) 0, b_num = 0, b_leaf = b_leaf yn\<rparr>"
  define h1 where "h1 = set_node ?z zn (h\<lparr>b_calls := b_calls h + 3\<rparr>)"
  have new: "btree_create_node t (b_leaf yn) h = (?z, h1)" using ok by (simp add: btree_create_node_def Let_def zn_def h1_def)
  have z1: "node_at h1 ?z = Some zn" by (simp add: h1_def node_at_def set_node_def)
  have kb: "length kb = 2 * t - 1" "b_keys yn = kb" "length (b_children yn) = 2 * t" "b_leaf yn = (cb = [])"
    "cb \<noteq> [] \<Longrightarrow> length cb = 2 * t \<and> b_children yn = map addr_of cb"
    using full y yn(2) t by (auto simp: fits_def)
  define zk where "zk = take (t - 1) (drop t kb) @ drop (t - 1) (b_keys zn)"
  have zk: "copy_range 0 t (t - 1) (b_keys yn) (b_keys zn) = Some zk"
    using copy_range_closed [of t "t - 1" "b_keys yn" 0 "b_keys zn"] kb t by (simp add: zn_def zk_def)
  define zc where "zc = (if cb = [] then b_children zn else take t (drop t (map addr_of cb)) @ drop t (b_children zn))"
  have zc: "(if b_leaf yn then Some (b_children zn) else copy_range 0 t t (b_children yn) (b_children zn)) = Some zc"
    using copy_range_closed [of t t "b_children yn" 0 "b_children zn"] kb by (cases "cb = []") (simp_all add: zn_def zc_def)
  define yn' where "yn' = yn\<lparr>b_num := t - 1\<rparr>"
  define zn' where "zn' = zn\<lparr>b_children := zc, b_keys := zk, b_num := t - 1\<rparr>"
  define h2 where "h2 = set_node b yn' (set_node ?z zn' h1)"
  have a2: "node_at h2 a = Some n" using n(1) ab la by (simp add: h2_def h1_def node_at_def set_node_def split: if_splits)
  have gy: "arr_get (b_children n) i = Some b"
    using fits_child [OF n(2), of i] il n(2) y i room by (simp add: arr_get_def fits_def nth_map)
  have gk: "arr_get (b_keys yn) (t - 1) = Some (kb ! (t - 1))" using kb t by (simp add: arr_get_def)
  have ne: "map addr_of ts \<noteq> []" using il by auto
  obtain cc cd kk ke where m: "move_up (i + 1) (b_num n - i) (b_children n) = Some cc" "arr_set cc (i + 1) ?z = Some cd"
    "move_up i (b_num n - i) (b_keys n) = Some kk" "arr_set kk i (kb ! (t - 1)) = Some ke"
    and fn: "fits t (n\<lparr>b_children := cd, b_keys := ke, b_num := b_num n + 1\<rparr>) (take i ks @ kb ! (t - 1) # drop i ks)
        (take (i + 1) (map addr_of ts) @ ?z # drop (i + 1) (map addr_of ts))"
    using fits_split_parent [OF n(2) i room ne, of ?z "kb ! (t - 1)"] by blast
  define n' where "n' = n\<lparr>b_children := cd, b_keys := ke, b_num := b_num n + 1\<rparr>"
  define h' where "h' = set_node a n' h2"
  have run: "btree_split_clild t a i h = Some h'"
    using n(1) gy yn(1) new z1 zk zc a2 [unfolded h2_def yn'_def zn'_def] m gk
    by (simp add: btree_split_clild_def Let_def h2_def yn'_def zn'_def h'_def n'_def)
  have mem: "node_at h' a = Some n'" "node_at h' b = Some yn'" "node_at h' ?z = Some zn'"
    using ab la n(1) yn(1) by (auto simp: h'_def h2_def h1_def node_at_def set_node_def split: if_splits)
  have frame: "b_mem h' x = b_mem h x" if "x \<noteq> a" "x \<noteq> b" "x \<noteq> ?z" for x
    using that by (simp add: h'_def h2_def h1_def set_node_def)
  have kids: "map addr_of (split_kids t ?z i ts) = take (i + 1) (map addr_of ts) @ ?z # drop (i + 1) (map addr_of ts)"
    using il y by (simp add: split_kids_def take_Suc_conv_app_nth take_map drop_map)
  have fy: "fits t yn' (take (t - 1) kb) (map addr_of (take t cb))"
    using yn(2) kb t by (auto simp: fits_def yn'_def take_map)
  have fz: "fits t zn' (drop t kb) (map addr_of (drop t cb))"
    using kb t by (auto simp: fits_def zn'_def zn_def zk_def zc_def drop_map)
  have dist: "a \<notin> set (concat (map addrs ts))" "distinct (concat (map addrs ts))" using s by (simp_all add: sound_def)
  have old: "rep t h' x" if x: "x \<in> set cb \<or> (x \<in> set ts \<and> x \<noteq> ts ! i)" for x
  proof (rule bt_rep_frame)
    show "rep t h x" using x ry s by (auto simp: sound_def)
    fix u assume u: "u \<in> set (addrs x)"
    have sub: "set (addrs w) \<subseteq> set (concat (map addrs ts))" if "w \<in> set ts" for w using that by auto
    have "u \<in> set (addrs (Node b kb cb))" if "x \<in> set cb" using that u by auto
    then have inn: "u \<in> set (concat (map addrs ts))" using x u sub yin by blast
    have "u \<noteq> b"
    proof (cases "x \<in> set cb")
      case True
      have "distinct (addrs (Node b kb cb))" by (rule concat_part [OF dist(2)]) (unfold set_map, rule imageI [OF yin])
      then show ?thesis using True u by auto
    next
      case False
      then obtain j where j: "j < length ts" "ts ! j = x" "j \<noteq> i" using x by (auto simp: in_set_conv_nth)
      have "set (addrs (ts ! j)) \<inter> set (addrs (ts ! i)) = {}"
        using concat_apart [OF dist(2), of j i] j il(1) by simp
      then show ?thesis using u y j(2) by auto
    qed
    then show "b_mem h' u = b_mem h u" using frame [of u] inn dist(1) le [of u] by fastforce
  qed
  have "rep t h' x" if "x \<in> set (split_kids t ?z i ts)" for x
  proof -
    have "x = split_left t (ts ! i) \<or> x = split_right t ?z (ts ! i) \<or> (x \<in> set (take i ts) \<or> x \<in> set (drop (Suc i) ts))"
      using that by (auto simp: split_kids_def)
    moreover have "x \<noteq> ts ! i" if "x \<in> set (take i ts) \<or> x \<in> set (drop (Suc i) ts)"
    proof
      assume "x = ts ! i"
      have "ts = take i ts @ ts ! i # drop (Suc i) ts" by (rule id_take_nth_drop [OF il(1)])
      then have c: "concat (map addrs ts) = concat (map addrs (take i ts)) @ addrs (ts ! i) @ concat (map addrs (drop (Suc i) ts))"
        by (metis concat.simps(2) concat_append list.simps(9) map_append)
      have "b \<in> set (concat (map addrs (take i ts))) \<union> set (concat (map addrs (drop (Suc i) ts)))"
        using that \<open>x = ts ! i\<close> y by force
      then show False using dist(2) y unfolding c by auto
    qed
    moreover have "rep t h' (split_left t (ts ! i))" using mem(2) fy old y by (auto dest: in_set_takeD)
    moreover have "rep t h' (split_right t ?z (ts ! i))" using mem(3) fz old y by (auto dest: in_set_dropD)
    ultimately show ?thesis using old [of x] in_set_takeD in_set_dropD by metis
  qed
  then have "rep t h' T'" using mem(1) fn kids y unfolding T'_def n'_def by simp
  moreover have ms: "mset (addrs T') = add_mset ?z (mset (addrs (Node a ks ts)))"
    unfolding T'_def by (rule split_kids_addrs [OF il(1)])
  moreover have "distinct (addrs T')"
  proof -
    have "?z \<notin> set (addrs (Node a ks ts))" using le by fastforce
    then have "distinct (?z # addrs (Node a ks ts))" using s by (simp add: sound_def)
    then show ?thesis using ms by (metis mset.simps(2) mset_eq_imp_distinct_iff)
  qed
  moreover have sets: "set (addrs T') = insert ?z (set (addrs (Node a ks ts)))" using ms by (metis set_mset_add_mset_insert set_mset_mset)
  moreover have "bal t (Suc d) T'" unfolding T'_def by (rule split_kids_bal) (use s i full t in \<open>simp_all add: sound_def\<close>)
  moreover have calls: "b_calls h' = b_calls h + 3" "b_ok h' = b_ok h" by (simp_all add: h'_def h2_def h1_def set_node_def)
  ultimately have "sound t (Suc d) h' T'" using le by (fastforce simp: sound_def)
  moreover have "grows h (Node a ks ts) h' T'"
    using calls sets frame yin by (fastforce simp: grows_def T'_def)
  ultimately show ?thesis using run by blast
qed

section \<open>Inserting below a node that is not full\<close>

definition inserted :: "nat \<Rightarrow> nat \<Rightarrow> int \<Rightarrow> bheap \<Rightarrow> bt \<Rightarrow> bheap \<Rightarrow> bt \<Rightarrow> bool" where
  "inserted t d key h T h' T' \<longleftrightarrow> sound t d h' T' \<and> grows h T h' T' \<and> inorder T' = insort key (inorder T) \<and>
     length (keys_of T) \<le> length (keys_of T') \<and> length (keys_of T') \<le> 2 * t - 1"

lemma insert_leaf:
  assumes s: "sound t 0 h (Node a ks [])" and room: "length ks < 2 * t - 1" and sorted: "sorted ks"
  shows "\<exists>h' T'. btree_insert_nonfull t a key h = Some h' \<and> inserted t 0 key h (Node a ks []) h' T'"
proof -
  obtain n where n: "node_at h a = Some n" "fits t n ks []" using s by (auto simp: sound_def)
  have f: "b_num n = length ks" "length (b_keys n) = 2 * t - 1" "take (length ks) (b_keys n) = ks" "b_leaf n" using n(2) by (simp_all add: fits_def)
  obtain p where p: "shift_keys key (length ks) (b_keys n) = map_option (\<lambda>ks'. (ks', p)) (move_up p (length ks - p) (b_keys n))"
    "stops_at key (b_keys n) (length ks) p"
    using shift_keys_closed [of "length ks" "b_keys n" key] f(2) room by auto
  have pl: "p \<le> length ks" using p(2) by (simp add: stops_at_def)
  obtain kk ke where k: "move_up p (length ks - p) (b_keys n) = Some kk" "arr_set kk p key = Some ke" "length ke = 2 * t - 1"
    "take (Suc (p + (length ks - p))) ke = take p (b_keys n) @ key # take (length ks - p) (drop p (b_keys n))"
    using move_up_set [of p "length ks - p" "b_keys n" key] f(2) pl room by auto
  have "take p (b_keys n) = take p ks" "take (length ks - p) (drop p (b_keys n)) = drop p ks"
    using f(3) pl by (metis min_absorb1 take_take, metis drop_take)
  then have ke: "take (Suc (length ks)) ke = take p ks @ key # drop p ks" using k(4) pl by simp
  define n' where "n' = n\<lparr>b_keys := ke, b_num := b_num n + 1\<rparr>"
  define h' where "h' = set_node a n' h"
  let ?T = "Node a (take p ks @ key # drop p ks) []"
  have run: "btree_insert_nonfull t a key h = Some h'"
    using n(1) f p(1) k by (subst btree_insert_nonfull.simps) (simp add: h'_def n'_def)
  have st: "stops_at key ks (length ks) p" using stops_at_take [OF p(2)] f(3) by simp
  have a0: "a \<noteq> NULL" using n(1) by (simp add: node_at_def split: if_splits)
  have "fits t n' (take p ks @ key # drop p ks) []" using n(2) ke k(3) pl room by (simp add: fits_def n'_def)
  then have so: "sound t 0 h' ?T" using s a0 by (simp add: sound_def h'_def set_node_def node_at_def)
  have g: "grows h (Node a ks []) h' ?T" by (simp add: grows_def h'_def set_node_def)
  have l: "length (map (\<lambda>_. []) [0..<Suc (length ks)]) = Suc (length ks)" by simp
  have low: "x \<le> key" if x: "x \<in> set (take p ks)" for x
  proof -
    obtain j where j: "j < p" "x = ks ! j" using x pl by (auto simp: in_set_conv_nth)
    then have "ks ! j \<le> ks ! (p - 1)" using sorted pl by (intro sorted_nth_mono) auto
    then show ?thesis using j st unfolding stops_at_def by auto
  qed
  have high: "key < x" if "x \<in> set (drop p ks)" for x
    using that st unfolding stops_at_def by (auto simp: in_set_conv_nth)
  have "insort key (take p ks @ [] @ drop p ks) = take p ks @ insort key [] @ drop p ks"
    by (rule insort_between) (use sorted low high less_imp_le in auto)
  then have "inorder ?T = insort key (inorder (Node a ks []))" by simp
  then show ?thesis using run so g room pl unfolding inserted_def
    by (intro exI [of _ h'] exI [of _ ?T]) simp
qed

text \<open>From the child to its parent.\<close>

lemma insert_at_child:
  assumes s: "sound t (Suc d) h (Node a ks ts)" and q: "q \<le> length ks" and c: "inserted t d key h (ts ! q) h' C"
    and so: "sorted (inorder (Node a ks ts))" and low: "q = 0 \<or> ks ! (q - 1) \<le> key" and high: "q < length ks \<longrightarrow> key \<le> ks ! q"
    and l: "length ks \<le> 2 * t - 1"
  shows "inserted t (Suc d) key h (Node a ks ts) h' (Node a ks (ts[q := C]))"
proof -
  have len: "length (map inorder ts) = Suc (length ks)" "q < length ts" using s q by (simp_all add: sound_def)
  have "t - 1 \<le> length (keys_of (ts ! q))" using s len(2) by (auto simp: sound_def)
  then have "t - 1 \<le> length (keys_of C)" "length (keys_of C) \<le> 2 * t - 1" using c by (simp_all add: inserted_def)
  note d = descend [OF s len(2) _ _ this, of h']
  have m: "sorted (mingle ks (map inorder ts))" using so by simp
  note b = before_low [OF len(1) q m low] behind_high [OF len(1) q m high]
  have "insort key (before q ks (map inorder ts) @ map inorder ts ! q @ behind q ks (map inorder ts)) =
      before q ks (map inorder ts) @ insort key (map inorder ts ! q) @ behind q ks (map inorder ts)"
    by (rule insort_between) (use m b mingle_at [OF len(1) q] in auto)
  then have "inorder (Node a ks (ts[q := C])) = insort key (inorder (Node a ks ts))"
    using mingle_replace [OF len(1) q, of "inorder C"] mingle_at [OF len(1) q] c len(2) by (simp add: map_update inserted_def)
  then show ?thesis using d c l unfolding inserted_def by simp
qed

lemma sorted_child:
  assumes "bal t (Suc d) (Node a ks ts)" and "q \<le> length ks" and "sorted (inorder (Node a ks ts))"
  shows "sorted (inorder (ts ! q))"
proof -
  have l: "length (map inorder ts) = Suc (length ks)" "q < length ts" using assms(1,2) by simp_all
  then show ?thesis using mingle_at [OF l(1) assms(2)] assms(3) by (simp add: sorted_append)
qed

lemma insert_nonfull_ok:
  assumes "2 \<le> t" and "\<forall>n. b_ok h n"
  shows "sound t d h T \<Longrightarrow> length (keys_of T) < 2 * t - 1 \<Longrightarrow> sorted (inorder T) \<Longrightarrow>
    \<exists>h' T'. btree_insert_nonfull t (addr_of T) key h = Some h' \<and> inserted t d key h T h' T'"
  using assms(2)
proof (induction d arbitrary: h T)
  case 0
  obtain a ks ts where T: "T = Node a ks ts" by (cases T)
  then have "ts = []" using 0(1) by (simp add: sound_def)
  then show ?case using insert_leaf [of t h a ks key] 0 T by simp
next
  case (Suc d)
  obtain a ks ts where T: "T = Node a ks ts" by (cases T)
  have s: "sound t (Suc d) h (Node a ks ts)" using Suc.prems(1) T by simp
  have len: "length ts = Suc (length ks)" and room: "length ks < 2 * t - 1" and so: "sorted (inorder (Node a ks ts))"
    using s Suc.prems(2,3) T by (simp_all add: sound_def)
  obtain n where n: "node_at h a = Some n" "fits t n ks (map addr_of ts)" using s by (auto simp: sound_def)
  have f: "b_num n = length ks" "length (b_keys n) = 2 * t - 1" "\<not> b_leaf n" "take (length ks) (b_keys n) = ks" "length (b_children n) = 2 * t"
    using n(2) len by (auto simp: fits_def)
  obtain p where p: "find_child key (length ks) (b_keys n) = Some p" "stops_at key (b_keys n) (length ks) p"
    using find_child_closed [of "length ks" "b_keys n" key] f(2) room by auto
  have st: "stops_at key ks (length ks) p" using stops_at_take [OF p(2)] f(4) by simp
  then have pl: "p \<le> length ks" by (simp add: stops_at_def)
  have gc: "arr_get (b_children n) p = Some (addr_of (ts ! p))"
    using fits_child [OF n(2), of p] pl len f(5) room by (simp add: arr_get_def)
  have cin: "ts ! p \<in> set ts" using pl len by simp
  have rc: "rep t h (ts ! p)" and bc: "bal t d (ts ! p)" using s cin by (simp_all add: sound_def)
  obtain b kb cb where y: "ts ! p = Node b kb cb" by (cases "ts ! p")
  obtain cn where cn: "node_at h b = Some cn" "b_num cn = length kb" using rc y by (auto simp: fits_def)
  show ?case
  proof (cases "length kb = 2 * t - 1")
    case False
    have "length kb < 2 * t - 1" using s cin y False by (fastforce simp: sound_def)
    moreover have "sound t d h (ts ! p)"
    proof -
      have "distinct (addrs (ts ! p))" by (rule concat_part [of "map addrs ts"]) (use s cin in \<open>auto simp: sound_def\<close>)
      moreover have "\<forall>x\<in>set (addrs (ts ! p)). x \<le> b_calls h" using s cin by (auto simp: sound_def)
      ultimately show ?thesis using rc bc by (simp add: sound_def)
    qed
    moreover have "sorted (inorder (ts ! p))" by (rule sorted_child [OF _ pl so, where t = t and d = d]) (use s in \<open>simp add: sound_def\<close>)
    ultimately obtain h' C where r: "btree_insert_nonfull t b key h = Some h'" "inserted t d key h (ts ! p) h' C"
      using Suc.IH [of h "ts ! p"] Suc.prems(4) y by auto
    have "btree_insert_nonfull t a key h = Some h'"
      using n(1) f p(1) gc cn False r(1) y by (subst btree_insert_nonfull.simps) simp
    moreover have "inserted t (Suc d) key h (Node a ks ts) h' (Node a ks (ts[p := C]))"
      by (rule insert_at_child [OF s pl r(2) so]) (use st room in \<open>auto simp: stops_at_def\<close>)
    ultimately show ?thesis using T by auto
  next
    case True
    define k where "k = kb ! (t - 1)"
    define ls where "ls = take p ks @ k # drop p ks"
    define us where "us = split_kids t (b_calls h + 1) p ts"
    have full: "length (keys_of (ts ! p)) = 2 * t - 1" using True y by simp
    obtain h1 where h1: "btree_split_clild t a p h = Some h1" "sound t (Suc d) h1 (Node a ls us)" "grows h (Node a ks ts) h1 (Node a ls us)"
      using split_ok [OF s pl room full assms(1) Suc.prems(4)] y unfolding k_def ls_def us_def by auto
    have in1: "inorder (Node a ls us) = inorder (Node a ks ts)"
      using split_kids_inorder [of t d a ks ts p "b_calls h + 1"] s pl full assms(1) y by (simp add: sound_def k_def ls_def us_def)
    have ll: "length ls = Suc (length ks)" using pl by (simp add: ls_def)
    then have lu: "length us = Suc (Suc (length ks))" using h1(2) by (simp add: sound_def)
    obtain n1 where n1: "node_at h1 a = Some n1" "fits t n1 ls (map addr_of us)" using h1(2) by (auto simp: sound_def)
    have k1: "arr_get (b_keys n1) p = Some k"
      using fits_nth [OF n1(2), of p] n1(2) pl ll room by (simp add: arr_get_def fits_def ls_def nth_append)
    define q where "q = (if key > k then p + 1 else p)"
    have q: "q \<le> length ls" "q < length us" using pl ll lu by (simp_all add: q_def)
    have gq: "arr_get (b_children n1) q = Some (addr_of (us ! q))"
      using fits_child [OF n1(2), of q] q n1(2) lu by (auto simp: arr_get_def fits_def)
    have qin: "us ! q \<in> set us" using q by simp
    have small: "length (keys_of (us ! q)) < 2 * t - 1"
      using split_bal(3,4) [OF bc full assms(1)] pl len assms(1) by (auto simp: us_def split_kids_def q_def nth_append)
    have sq: "sound t d h1 (us ! q)"
    proof -
      have "distinct (addrs (us ! q))" by (rule concat_part [of "map addrs us"]) (use h1(2) qin in \<open>auto simp: sound_def\<close>)
      moreover have "\<forall>x\<in>set (addrs (us ! q)). x \<le> b_calls h1" using h1(2) qin by (auto simp: sound_def)
      ultimately show ?thesis using h1(2) qin by (simp add: sound_def)
    qed
    have so1: "sorted (inorder (Node a ls us))" using so in1 by simp
    have soq: "sorted (inorder (us ! q))" by (rule sorted_child [OF _ q(1) so1, where t = t and d = d]) (use h1(2) in \<open>simp add: sound_def\<close>)
    have ok1: "\<forall>n. b_ok h1 n" using h1(3) Suc.prems(4) by (simp add: grows_def)
    obtain h' C where r: "btree_insert_nonfull t (addr_of (us ! q)) key h1 = Some h'" "inserted t d key h1 (us ! q) h' C"
      using Suc.IH [OF sq small soq ok1] by blast
    have run: "btree_insert_nonfull t a key h = Some h'"
      using n(1) f p(1) gc cn True r(1) h1(1) n1(1) k1 gq y unfolding q_def by (subst btree_insert_nonfull.simps) simp
    have low: "q = 0 \<or> ls ! (q - 1) \<le> key" using st pl unfolding q_def ls_def stops_at_def by (auto simp: nth_append)
    have high: "q < length ls \<longrightarrow> key \<le> ls ! q"
      using st pl unfolding q_def ls_def stops_at_def by (auto simp: nth_append nth_Cons' less_imp_le)
    have "inserted t (Suc d) key h1 (Node a ls us) h' (Node a ls (us[q := C]))"
      by (rule insert_at_child [OF h1(2) q(1) r(2) so1 low high]) (use ll room in simp)
    then have "inserted t (Suc d) key h (Node a ks ts) h' (Node a ls (us[q := C]))"
      using in1 ll bt_grows_trans [OF h1(3)] unfolding inserted_def by simp
    then show ?thesis using run T by auto
  qed
qed

end
