(* ===== verification/BTree_Props.thy ===== *)
theory BTree_Props
  imports BTree_Insert
begin

text \<open>
  The B-tree: insertion keeps a tree that is balanced, full enough and in order, traversal prints its keys and
  the binary search finds the place of a key. Deletion is where the program fails: it writes behind the array of
  the children, reads a root it has freed, and takes the wrong neighbour of a key.
\<close>

section \<open>The operations\<close>

text \<open>The store has a B-tree with the keys \<open>xs\<close>: all leaves at one depth, between \<open>t - 1\<close> and \<open>2 t - 1\<close> keys
  in every node below the root, in order.\<close>

definition holds_btree :: "btree \<Rightarrow> bheap \<Rightarrow> int list \<Rightarrow> bool" where
  "holds_btree T h xs \<longleftrightarrow> (\<exists>d tr. root T = addr_of tr \<and> sound (bt_t T) d h tr \<and> length (keys_of tr) \<le> 2 * bt_t T - 1 \<and>
     inorder tr = xs) \<and> sorted xs \<and> (\<forall>n. b_ok h n)"

lemma create_holds:
  assumes "\<forall>n. b_ok h n" and "btree_create t h = (T, h')"
  shows "holds_btree T h' [] \<and> bt_t T = t"
proof -
  have "root T = b_calls h + 1" "bt_t T = t" "h' = set_node (b_calls h + 1) \<lparr>b_children = replicate (2 * t) NULL,
      b_keys = replicate (2 * t - 1) 0, b_num = 0, b_leaf = True\<rparr> (h\<lparr>b_calls := b_calls h + 3\<rparr>)"
    using assms by (auto simp: btree_create_def btree_create_node_def Let_def)
  then have "sound t 0 h' (Node (root T) [] [])" "bt_t T = t" "b_ok h' = b_ok h"
    by (auto simp: sound_def set_node_def node_at_def fits_def)
  then show ?thesis using assms(1) unfolding holds_btree_def
    by (intro conjI exI [of _ 0] exI [of _ "Node (root T) [] []"]) simp_all
qed

text \<open>A new root above a full one.\<close>

lemma new_root:
  assumes s: "sound t d h tr" and l: "t - 1 \<le> length (keys_of tr)" "length (keys_of tr) \<le> 2 * t - 1" and ok: "\<forall>n. b_ok h n" and t: "2 \<le> t"
    and c: "btree_create_node t False h = (a, h1)"
  shows "\<exists>nn cs. node_at h1 a = Some nn \<and> arr_set (b_children nn) 0 (addr_of tr) = Some cs \<and>
    sound t (Suc d) (set_node a (nn\<lparr>b_children := cs\<rparr>) h1) (Node a [] [tr]) \<and> b_ok h1 = b_ok h \<and> a = b_calls h + 1 \<and> b_calls h1 = b_calls h + 3"
proof -
  let ?nn = "\<lparr>b_children = replicate (2 * t) NULL, b_keys = replicate (2 * t - 1) 0, b_num = 0, b_leaf = False\<rparr>"
  have a: "a = b_calls h + 1" and h1: "h1 = set_node a ?nn (h\<lparr>b_calls := b_calls h + 3\<rparr>)"
    using c ok by (auto simp: btree_create_node_def Let_def)
  let ?cs = "(replicate (2 * t) NULL)[0 := addr_of tr]"
  let ?h2 = "set_node a (?nn\<lparr>b_children := ?cs\<rparr>) h1"
  have out: "a \<notin> set (addrs tr)" using s a by (fastforce simp: sound_def)
  have "rep t ?h2 tr"
    by (rule bt_rep_frame [of t h]) (use s out h1 in \<open>auto simp: sound_def set_node_def\<close>)
  moreover have "fits t (?nn\<lparr>b_children := ?cs\<rparr>) [] [addr_of tr]" using t by (simp add: fits_def take_Suc_conv_app_nth)
  moreover have "node_at ?h2 a = Some (?nn\<lparr>b_children := ?cs\<rparr>)" using a by (simp add: node_at_def set_node_def)
  ultimately have "rep t ?h2 (Node a [] [tr])" by simp
  then have "sound t (Suc d) ?h2 (Node a [] [tr])"
    using s out l a h1 by (auto simp: sound_def set_node_def)
  moreover have "node_at h1 a = Some ?nn" "arr_set (b_children ?nn) 0 (addr_of tr) = Some ?cs"
    using a h1 t by (simp_all add: node_at_def set_node_def arr_set_def)
  moreover have "b_ok h1 = b_ok h" "b_calls h1 = b_calls h + 3" using h1 by (simp_all add: set_node_def)
  ultimately show ?thesis using a by blast
qed

lemma sound_child:
  assumes "sound t (Suc d) h (Node a ks ts)" and "q < length ts"
  shows "sound t d h (ts ! q)"
proof -
  have q: "ts ! q \<in> set ts" using assms(2) by simp
  have "distinct (addrs (ts ! q))" by (rule concat_part [of "map addrs ts"]) (use assms q in \<open>auto simp: sound_def\<close>)
  moreover have "\<forall>x\<in>set (addrs (ts ! q)). x \<le> b_calls h" using assms(1) q by (auto simp: sound_def)
  ultimately show ?thesis using assms(1) q by (simp add: sound_def)
qed

lemma insert_holds:
  assumes b: "holds_btree T h xs" and t: "2 \<le> bt_t T"
  shows "\<exists>T' h'. btree_insert T key h = Some (T', h') \<and> holds_btree T' h' (insort key xs) \<and> bt_t T' = bt_t T"
proof -
  let ?t = "bt_t T"
  obtain d tr where tr: "root T = addr_of tr" "sound ?t d h tr" "length (keys_of tr) \<le> 2 * ?t - 1" "inorder tr = xs"
    and so: "sorted xs" and ok: "\<forall>n. b_ok h n" using b unfolding holds_btree_def by blast
  obtain a ks ts where Tr: "tr = Node a ks ts" by (cases tr)
  obtain rn where rn: "node_at h a = Some rn" "b_num rn = length ks" using tr(2) Tr by (auto simp: sound_def fits_def)
  show ?thesis
  proof (cases "length ks = 2 * ?t - 1")
    case False
    then obtain h' tr' where r: "btree_insert_nonfull ?t a key h = Some h'" "inserted ?t d key h tr h' tr'"
      using insert_nonfull_ok [OF t ok tr(2)] tr(3,4) so Tr by fastforce
    have "btree_insert T key h = Some (T, h')" using r(1) rn tr(1) Tr False by (simp add: btree_insert_def)
    moreover have "holds_btree T h' (insort key xs)"
      using r(2) tr(1,4) so ok sorted_insort unfolding holds_btree_def inserted_def grows_def by metis
    ultimately show ?thesis by blast
  next
    case True
    have full: "?t - 1 \<le> length (keys_of tr)" using Tr True by simp
    obtain node h1 where c: "btree_create_node ?t False h = (node, h1)" by fastforce
    obtain nn cs where nn: "node_at h1 node = Some nn" "arr_set (b_children nn) 0 a = Some cs"
      "sound ?t (Suc d) (set_node node (nn\<lparr>b_children := cs\<rparr>) h1) (Node node [] [tr])" "b_ok h1 = b_ok h"
      using new_root [OF tr(2) full tr(3) ok t c] Tr by auto
    let ?h2 = "set_node node (nn\<lparr>b_children := cs\<rparr>) h1"
    have ok2: "\<forall>n. b_ok ?h2 n" using ok nn(4) by (simp add: set_node_def)
    define us where "us = split_kids ?t (b_calls ?h2 + 1) 0 [tr]"
    define k where "k = ks ! (?t - 1)"
    have z: "(0 :: nat) \<le> length ([] :: int list)" "length ([] :: int list) < 2 * ?t - 1" "length (keys_of ([tr] ! 0)) = 2 * ?t - 1"
      using t True Tr by simp_all
    obtain h3 where h3: "btree_split_clild ?t node 0 ?h2 = Some h3" "sound ?t (Suc d) h3 (Node node [k] us)" "grows ?h2 (Node node [] [tr]) h3 (Node node [k] us)"
      using split_ok [OF nn(3) z t ok2] Tr unfolding us_def k_def by auto
    have bt: "bal ?t (Suc d) (Node node [] [tr])" using nn(3) by (simp add: sound_def)
    have in3: "inorder (Node node [k] us) = xs"
      using split_kids_inorder [OF bt z(1,3) t, of "b_calls ?h2 + 1"] tr(4) Tr unfolding us_def k_def by simp
    have lu: "length us = 2" using h3(2) by (simp add: sound_def)
    define q where "q = (if key > k then 1 else 0 :: nat)"
    have q: "q \<le> length [k]" "q < length us" using lu by (simp_all add: q_def)
    obtain n3 where n3: "node_at h3 node = Some n3" "fits ?t n3 [k] (map addr_of us)" using h3(2) by (auto simp: sound_def)
    have gk: "arr_get (b_keys n3) 0 = Some k" using fits_nth [OF n3(2), of 0] n3(2) t by (simp add: arr_get_def fits_def)
    have gq: "arr_get (b_children n3) q = Some (addr_of (us ! q))"
      using fits_child [OF n3(2), of q] q n3(2) t by (auto simp: arr_get_def fits_def q_def)
    have btr: "bal ?t d tr" using tr(2) by (simp add: sound_def)
    have small: "length (keys_of (us ! q)) < 2 * ?t - 1"
      using split_bal(3,4) [OF btr _ t] z(3) t by (auto simp: us_def split_kids_def q_def)
    have sorted3: "sorted (inorder (Node node [k] us))" using so in3 by simp
    have soq: "sorted (inorder (us ! q))" by (rule sorted_child [OF _ q(1) sorted3, where t = ?t and d = d]) (use h3(2) in \<open>simp add: sound_def\<close>)
    have ok3: "\<forall>n. b_ok h3 n" using h3(3) ok2 by (simp add: grows_def)
    obtain h' C where r: "btree_insert_nonfull ?t (addr_of (us ! q)) key h3 = Some h'" "inserted ?t d key h3 (us ! q) h' C"
      using insert_nonfull_ok [OF t ok3 sound_child [OF h3(2) q(2)] small soq] by blast
    have run: "btree_insert T key h = Some (T\<lparr>root := node\<rparr>, h')"
      using rn tr(1) Tr True c nn(1,2) h3(1) n3(1) gk gq r(1) unfolding q_def by (simp add: btree_insert_def)
    have "inserted ?t (Suc d) key h3 (Node node [k] us) h' (Node node [k] (us[q := C]))"
      by (rule insert_at_child [OF h3(2) q(1) r(2) sorted3]) (use t in \<open>auto simp: q_def\<close>)
    then have i: "sound ?t (Suc d) h' (Node node [k] (us[q := C]))" "inorder (Node node [k] (us[q := C])) = insort key xs" "b_ok h' = b_ok h3"
      unfolding inserted_def in3 grows_def by blast+
    have "holds_btree (T\<lparr>root := node\<rparr>) h' (insort key xs)"
      using i ok3 so t unfolding holds_btree_def
      by (intro conjI exI [of _ "Suc d"] exI [of _ "Node node [k] (us[q := C])"]) (simp_all add: sorted_insort)
    then show ?thesis using run by auto
  qed
qed

section \<open>Traversal\<close>

lemma traverse_kids:
  assumes n: "node_at h a = Some n" "fits t n ks (map addr_of ts)" and ne: "ts \<noteq> []"
    and sub: "\<forall>c\<in>set ts. traverse_from 0 (addr_of c) h = Some (inorder c)"
  shows "i \<le> length ks \<Longrightarrow> traverse_from i a h = Some (mingle (drop i ks) (drop i (map inorder ts)))"
proof (induction "length ks - i" arbitrary: i)
  case 0
  have f: "length ts = Suc (length ks)" "b_num n = length ks" "\<not> b_leaf n" "length (b_children n) = 2 * t" "length ks \<le> 2 * t - 1"
    using n(2) ne by (auto simp: fits_def)
  have i: "i = length ks" using 0 by simp
  have "take (length (map addr_of ts)) (b_children n) = map addr_of ts" using n(2) ne by (auto simp: fits_def)
  from arg_cong [OF this, of length] have "length (map addr_of ts) \<le> length (b_children n)" by simp
  then have "arr_get (b_children n) i = Some (addr_of (ts ! i))"
    using fits_child [OF n(2), of i] i f(1) by (simp add: arr_get_def)
  moreover have "traverse_from 0 (addr_of (ts ! i)) h = Some (inorder (ts ! i))" using sub i f(1) by simp
  moreover have "drop i (map inorder ts) = [inorder (ts ! i)]" using i f(1) by (simp add: Cons_nth_drop_Suc [symmetric] drop_map)
  ultimately show ?case using n(1) f i by (subst traverse_from.simps) simp
next
  case (Suc m)
  have f: "length ts = Suc (length ks)" "b_num n = length ks" "\<not> b_leaf n" "length (b_children n) = 2 * t" "length (b_keys n) = 2 * t - 1" "length ks \<le> 2 * t - 1"
    using n(2) ne by (auto simp: fits_def)
  have i: "i < length ks" using Suc by simp
  have "arr_get (b_children n) i = Some (addr_of (ts ! i))"
    using fits_child [OF n(2), of i] i f by (simp add: arr_get_def)
  moreover have "arr_get (b_keys n) i = Some (ks ! i)" using fits_nth [OF n(2) i] i f by (simp add: arr_get_def)
  moreover have "traverse_from 0 (addr_of (ts ! i)) h = Some (inorder (ts ! i))" using sub i f(1) by simp
  moreover have "traverse_from (i + 1) a h = Some (mingle (drop (i + 1) ks) (drop (i + 1) (map inorder ts)))"
    by (rule Suc.hyps(1)) (use Suc.hyps(2) i in simp_all)
  moreover have "drop i ks = ks ! i # drop (Suc i) ks" "drop i (map inorder ts) = inorder (ts ! i) # drop (Suc i) (map inorder ts)"
    using i f(1) by (simp_all add: Cons_nth_drop_Suc [symmetric])
  ultimately show ?case using n(1) f i by (subst traverse_from.simps) simp
qed

lemma traverse_leaf:
  assumes n: "node_at h a = Some n" "fits t n ks []"
  shows "i \<le> length ks \<Longrightarrow> traverse_from i a h = Some (drop i ks)"
proof (induction "length ks - i" arbitrary: i)
  case 0
  then show ?case using n by (subst traverse_from.simps) (simp add: fits_def)
next
  case (Suc m)
  have i: "i < length ks" using Suc by simp
  have "arr_get (b_keys n) i = Some (ks ! i)" using fits_nth [OF n(2) i] n(2) i by (simp add: arr_get_def fits_def)
  moreover have "traverse_from (i + 1) a h = Some (drop (i + 1) ks)" by (rule Suc.hyps(1)) (use Suc.hyps(2) i in simp_all)
  ultimately show ?case using n i by (subst traverse_from.simps) (simp add: fits_def Cons_nth_drop_Suc)
qed

lemma traverse_ok: "rep t h T \<Longrightarrow> bal t d T \<Longrightarrow> traverse_from 0 (addr_of T) h = Some (inorder T)"
proof (induction T arbitrary: d)
  case (Node a ks ts)
  obtain n where n: "node_at h a = Some n" "fits t n ks (map addr_of ts)" using Node.prems(1) by auto
  show ?case
  proof (cases "ts = []")
    case True
    then show ?thesis using traverse_leaf [of h a n t ks 0] n by simp
  next
    case False
    have "\<forall>c\<in>set ts. traverse_from 0 (addr_of c) h = Some (inorder c)"
    proof
      fix c assume c: "c \<in> set ts"
      obtain e where "bal t e c" using Node.prems(2) c False by (cases d) auto
      then show "traverse_from 0 (addr_of c) h = Some (inorder c)" using Node.IH [OF c] Node.prems(1) c by simp
    qed
    then show ?thesis using traverse_kids [OF n False, of 0] by simp
  qed
qed

lemma holds_traverse: "holds_btree T h xs \<Longrightarrow> btree_traverse (root T) h = Some xs"
  unfolding holds_btree_def btree_traverse_def using traverse_ok by (metis sound_def)

section \<open>Sorting with the tree\<close>

lemma insert_all_holds:
  "holds_btree T h xs \<Longrightarrow> 2 \<le> bt_t T \<Longrightarrow> \<exists>T' h'. insert_all ks (T, h) = Some (T', h') \<and> holds_btree T' h' (sort (ks @ xs))"
proof (induction ks arbitrary: T h xs)
  case Nil
  then show ?case by (auto simp: holds_btree_def sorted_sort_id)
next
  case (Cons k ks)
  obtain T1 h1 where t1: "btree_insert T k h = Some (T1, h1)" "holds_btree T1 h1 (insort k xs)" "bt_t T1 = bt_t T"
    using insert_holds [OF Cons.prems] by blast
  obtain T' h' where "insert_all ks (T1, h1) = Some (T', h')" "holds_btree T' h' (sort (ks @ insort k xs))"
    using Cons.IH [OF t1(2)] Cons.prems(2) t1(3) by auto
  moreover have "sort (ks @ insort k xs) = sort ((k # ks) @ xs)" by (rule properties_for_sort) (simp_all add: sorted_insort)
  ultimately show ?case using t1(1) by simp
qed

text \<open>C39: from an empty tree, with memory that lasts, every sequence of insertions returns, without an access outside
  a node, and leaves a balanced tree in which every node below the root has between \<open>t - 1\<close> and
  \<open>2 t - 1\<close> keys; the traversal prints the inserted keys sorted, duplicates included.\<close>

theorem btree_insertions_sort:
  assumes "2 \<le> t" and "\<forall>n. b_ok h n" and "btree_create t h = (T, h0)"
  shows "\<exists>T' h'. insert_all ks (T, h0) = Some (T', h') \<and> holds_btree T' h' (sort ks) \<and> btree_traverse (root T') h' = Some (sort ks)"
proof -
  have c: "holds_btree T h0 []" "bt_t T = t" using create_holds [OF assms(2,3)] by simp_all
  obtain T' h' where r: "insert_all ks (T, h0) = Some (T', h')" "holds_btree T' h' (sort (ks @ []))"
    using insert_all_holds [OF c(1)] c(2) assms(1) by blast
  then show ?thesis using holds_traverse [OF r(2)] by (intro exI [of _ T'] exI [of _ h']) simp
qed

definition empty_store :: bheap where
  "empty_store = \<lparr>b_mem = Map.empty, b_ok = (\<lambda>_. True), b_calls = 0\<rparr>"

theorem btree_insertions_sort_witness:
  "\<exists>T' h'. insert_all [5, 3, 8, 1, 3, 9, 2] (btree_create 2 empty_store) = Some (T', h') \<and> btree_traverse (root T') h' = Some [1, 2, 3, 3, 5, 8, 9]"
  using btree_insertions_sort [of 2 empty_store _ _ "[5, 3, 8, 1, 3, 9, 2]"]
  by (cases "btree_create 2 empty_store") (fastforce simp: empty_store_def)

section \<open>Binary search in a node\<close>

lemma bin_search_loop_ok:
  "0 \<le> low \<Longrightarrow> low \<le> high + 1 \<Longrightarrow> high < int n \<Longrightarrow> n \<le> length ks \<Longrightarrow> sorted (take n ks) \<Longrightarrow>
    \<forall>i<n. int i < low \<longrightarrow> ks ! i < key \<Longrightarrow> \<forall>i<n. high < int i \<longrightarrow> key \<le> ks ! i \<Longrightarrow>
    \<exists>r. bin_search_loop ks key low high = Some r \<and> 0 \<le> r \<and> r \<le> int n \<and> (\<forall>i<n. ks ! i < key \<longleftrightarrow> int i < r)"
proof (induction ks key low high rule: bin_search_loop.induct)
  case (1 ks key low high)
  show ?case
  proof (cases "low > high")
    case True
    then have "low = high + 1" using "1.prems"(2) by simp
    then show ?thesis using "1.prems" True by (intro exI [of _ low]) force
  next
    case False
    define mid where "mid = (low + high) div 2"
    have m: "low \<le> mid" "mid \<le> high" using False by (auto simp: mid_def)
    have sorted: "ks ! i \<le> ks ! j" if "i \<le> j" "j < n" for i j
      using sorted_nth_mono [OF "1.prems"(5) that(1)] "1.prems"(4) that by simp
    have mn: "nat mid < n" using m "1.prems" by linarith
    have in_range: "\<not> (low < 0 \<or> int (length ks) \<le> mid)" using m "1.prems" by linarith
    show ?thesis
    proof (cases "key > ks ! nat mid")
      case True
      have "ks ! i < key" if "i < n" "int i < mid + 1" for i using sorted [of i "nat mid"] that mn True by force
      then have "\<exists>r. bin_search_loop ks key (mid + 1) high = Some r \<and> 0 \<le> r \<and> r \<le> int n \<and> (\<forall>i<n. ks ! i < key \<longleftrightarrow> int i < r)"
        using "1.IH"(1) [OF False mid_def in_range True] "1.prems" m by auto
      then show ?thesis using False in_range True by (subst bin_search_loop.simps) (simp add: mid_def [symmetric] Let_def)
    next
      case less: False
      have "key \<le> ks ! i" if "i < n" "mid - 1 < int i" for i using sorted [of "nat mid" i] that less by force
      then have "\<exists>r. bin_search_loop ks key low (mid - 1) = Some r \<and> 0 \<le> r \<and> r \<le> int n \<and> (\<forall>i<n. ks ! i < key \<longleftrightarrow> int i < r)"
        using "1.IH"(2) [OF False mid_def in_range less] "1.prems" m by auto
      then show ?thesis using False in_range less by (subst bin_search_loop.simps) (simp add: mid_def [symmetric] Let_def)
    qed
  qed
qed

text \<open>over all keys of a node that is in order, the binary search returns the number of the keys below the one it
  looks for.\<close>

theorem btree_bin_search_correct:
  assumes "node_at h node = Some n" and "fits t n ks cs" and "sorted ks" and "ks \<noteq> []"
  shows "btree_bin_search node 0 (int (length ks) - 1) key h = Some (int (length (filter (\<lambda>k. k < key) ks)))"
proof -
  have f: "take (length ks) (b_keys n) = ks" "length ks \<le> length (b_keys n)" using assms(2) by (simp_all add: fits_def)
  obtain r where r: "bin_search_loop (b_keys n) key 0 (int (length ks) - 1) = Some r" "0 \<le> r" "r \<le> int (length ks)"
    and i: "\<forall>i<length ks. b_keys n ! i < key \<longleftrightarrow> int i < r"
    using bin_search_loop_ok [of 0 "int (length ks) - 1" "length ks" "b_keys n" key] f assms(3) by auto
  have k: "\<forall>i<length ks. ks ! i < key \<longleftrightarrow> i < nat r" using i f r(2) by (metis nth_take nat_less_iff zless_nat_eq_int_zless)
  have "filter (\<lambda>k. k < key) (take (nat r) ks) = take (nat r) ks"
    unfolding filter_id_conv using k by (auto simp: in_set_conv_nth)
  moreover have "filter (\<lambda>k. k < key) (drop (nat r) ks) = []"
    unfolding filter_empty_conv using k by (auto simp: in_set_conv_nth)
  ultimately have "filter (\<lambda>k. k < key) ks = take (nat r) ks"
    by (metis append_Nil2 append_take_drop_id filter_append)
  then have "int (length (filter (\<lambda>k. k < key) ks)) = r" using r by simp
  then show ?thesis using assms(1,4) r(1) by (cases ks) (auto simp: btree_bin_search_def)
qed

theorem btree_bin_search_correct_witness:
  "\<exists>T h. btree_create 3 empty_store = (T, h) \<and> btree_bin_search 7 0 2 5
     (set_node 7 \<lparr>b_children = replicate 6 0, b_keys = [2, 4, 6, 0, 0], b_num = 3, b_leaf = True\<rparr> h) = Some 2"
  using btree_bin_search_correct [of "set_node 7 \<lparr>b_children = replicate 6 0, b_keys = [2, 4, 6, 0, 0], b_num = 3, b_leaf = True\<rparr> (snd (btree_create 3 empty_store))"
      7 "\<lparr>b_children = replicate 6 0, b_keys = [2, 4, 6, 0, 0], b_num = 3, b_leaf = True\<rparr>" 3 "[2, 4, 6]" "[]" 5]
  by (cases "btree_create 3 empty_store") (simp add: fits_def node_at_def set_node_def eval_nat_numeral)

section \<open>Deletion\<close>





text \<open>The calls of \<open>main\<close>: the letters are inserted in order and deleted from the last.\<close>

definition letters :: "int list" where
  "letters = map int [65..<91]"

text \<open>The program's own \<open>main\<close>: the first nine deletions are right, and the tenth, of \<open>Q\<close>, merges two children of a
  root with five keys and writes a null pointer behind the array of its children.\<close>

theorem btree_main_overflows:
  "\<exists>s. insert_all letters (btree_create 3 empty_store) = Some s \<and>
    (\<exists>T h. delete_all (take 9 (rev letters)) s = Some (T, h) \<and> btree_traverse (root T) h = Some (take 17 letters)) \<and>
    delete_all (take 10 (rev letters)) s = None"
proof -
  have a: "(case insert_all letters (btree_create 3 empty_store) of None \<Rightarrow> False | Some s \<Rightarrow>
      (case delete_all (take 9 (rev letters)) s of None \<Rightarrow> False | Some (T, h) \<Rightarrow> btree_traverse (root T) h = Some (take 17 letters)) \<and>
      (case delete_all (take 10 (rev letters)) s of None \<Rightarrow> True | Some _ \<Rightarrow> False))"
    by code_simp
  show ?thesis using a by (auto split: option.splits)
qed


text \<open>deleting a key of an inner node whose left child has enough keys moves the last key of that child up, even where the child
  has children with greater keys: after the deletion of 9 the traversal prints 12 before 10 and 11.\<close>

theorem btree_delete_breaks_order:
  "\<exists>s T h. insert_all (map int [1..<22]) (btree_create 3 empty_store) = Some s \<and> delete_all [9] s = Some (T, h) \<and>
    btree_traverse (root T) h = Some [1, 2, 3, 4, 5, 6, 7, 8, 12, 10, 11, 13, 14, 15, 16, 17, 18, 19, 20, 21]"
proof -
  have "(case insert_all (map int [1..<22]) (btree_create 3 empty_store) of None \<Rightarrow> False | Some s \<Rightarrow>
      (case delete_all [9] s of None \<Rightarrow> False | Some (T, h) \<Rightarrow>
        btree_traverse (root T) h = Some [1, 2, 3, 4, 5, 6, 7, 8, 12, 10, 11, 13, 14, 15, 16, 17, 18, 19, 20, 21]))"
    by code_simp
  then show ?thesis by (auto split: option.splits)
qed

text \<open>when the root has one key and that key is deleted, the merge frees the root and the program reads it again.\<close>

theorem btree_delete_reads_freed_root:
  "\<exists>s. insert_all (map int [1..<10]) (btree_create 2 empty_store) = Some s \<and> delete_all [4] s = None"
proof -
  have "(case insert_all (map int [1..<10]) (btree_create 2 empty_store) of None \<Rightarrow> False | Some s \<Rightarrow>
      (case delete_all [4] s of None \<Rightarrow> True | Some _ \<Rightarrow> False))"
    by code_simp
  then show ?thesis by (auto split: option.splits)
qed

end
