(* ===== verification/Spec2Isabelle.thy ===== *)
theory Spec2Isabelle
  imports Mh_Timer Wheel_Timer SpinLock Skl_Timer MemPool_Free Deadlock_Hooks DNS_Client WebSocket_Server Http_Server SingleTW_Props NtyCo_Props Rbt_Props ThreadPool_Inv TryCatch LeakHooks Packets_Props EchoServer EpollSingle_Props EpollMulti_Props EpollInitial LockFreeQueue_Props AtomicCounter BTree_Props
begin

text \<open>
  A verification library for the C programs of the repository. The repository is a collection of
  programs about network services under Linux: timers, pools, reactors, coroutines, small servers and
  clients. They do not call each other, except where one directory has several files; what they share
  is shapes: the timers share the loop that fires what is due, the servers share the reactor. The
  development follows that: one group of theories per program, and locales for the shapes.

  \<^bold>\<open>How programs are modelled.\<close> State that lives behind pointers is an explicit store from addresses to
  records with the fields of the structures. A C function is a HOL function of the same name in the
  option monad: \<open>None\<close> is undefined behaviour (a null or dangling pointer, an index outside an array),
  a failed assertion, or a call that never returns, so that a theorem that a call gives \<open>Some\<close> is its
  memory safety and its termination. Loops are structural recursions where a bound is at hand and
  \<open>partial_function (option)\<close> where it is not; there is no fuel but the depth of \<open>DFS\<close> in \<open>Deadlock\<close>,
  one more than the number of vertices, which is enough since each call but the last of a descent marks one. Unsigned integers are words, or
  naturals with their wrap-around written out (\<open>Prelude\<close>). System calls, allocation, clocks, random
  numbers and callbacks are parameters: functions of the number of the call, or scripts.

  \<^bold>\<open>Prelude, Bytes, Paths, Heap_Order, Timer_Store.\<close> Integers, byte buffers with checked access, linked
  lists in a store, the order of a binary heap in an array, and the contract of a container of
  timers: the locale \<open>timer_store\<close>, with the loop of \<open>expire_timer\<close> and its correctness.

  \<^bold>\<open>Timers\<close> (\<open>3.2.3...\<close>). \<open>MinHeap\<close> and \<open>Mh_Timer\<close>: \<open>minheap.c\<close>, \<open>minheap.h\<close>, \<open>mh-timer.h\<close>; the heap keeps its
  order and its indices, the timer fires exactly what is due and frees it. The timers' theorems name
  what they ask of the callbacks: they return, delete nothing and add only later timers. \<open>SkipList\<close>, \<open>Skip_Ops\<close>,
  \<open>Skip_Delete\<close>, \<open>Skl_Timer\<close>: \<open>skiplist.c\<close>, \<open>skiplist.h\<close>, \<open>skl-timer.c\<close>; the levels are sublists of one sorted
  list. \<open>RBTree\<close>, \<open>RBTree_Shape\<close>, \<open>RBTree_Rotate\<close>, \<open>RBTree_Insert\<close>, \<open>RBTree_Order\<close>, \<open>RBTree_Fixup\<close>,
  \<open>RBTree_Delete\<close>, \<open>RBTree_Remove\<close>, \<open>RBTree_Keys\<close>, \<open>RBTree_Typed\<close>, \<open>Rbt_Timer\<close>, \<open>Rbt_Props\<close>: \<open>rbtree.c\<close>, \<open>rbtree.h\<close>, \<open>rbt-timer.h\<close>; the pointers of the nodes represent a tree, a rotation is an equation of trees in their
  context, and insertion and deletion keep the colours balanced; whole runs of both give the tree of what is
  inserted and not deleted. These three containers interpret
  \<open>timer_store\<close>. \<open>TimeWheel\<close>, \<open>Wheel_Levels\<close>, \<open>Wheel_Lists\<close>, \<open>Wheel_Tick\<close>, \<open>Wheel_Timer\<close>, \<open>SpinLock\<close>: \<open>timewheel.c\<close>,
  \<open>timewheel.h\<close>, \<open>spinlock.h\<close>; a timer is moved down the levels and fires at its tick, except where it
  starts in slot 0 of an upper level. \<open>SingleTW\<close>, \<open>SingleTW_Props\<close>: \<open>single_tw.c\<close>, refined to a
  wheel of multisets, in which a delay that does not fit the sixteen slots loses whole turns.

  \<^bold>\<open>B-tree\<close> (\<open>1.1.2\<close>). \<open>BTree\<close>, \<open>BTree_Shape\<close>, \<open>BTree_Insert\<close>, \<open>BTree_Props\<close>: \<open>btree.cpp\<close>, which is C; the nodes of the store
  represent a tree that carries their addresses, splitting is an equation of trees, and insertion keeps balance,
  filling and order. Deletion is modelled as it is: its merge is shown to be right but for its last access,
  which lies behind the array of children exactly under a full parent, as in the program's own main.

  \<^bold>\<open>Memory pool\<close> (\<open>3.1.2\<close>). \<open>MemPool\<close>, \<open>MemPool_Inv\<close>, \<open>MemPool_Ops\<close>, \<open>MemPool_Free\<close>: \<open>mempoll.c\<close>; chunks that are handed
  out are aligned, inside a block and apart from each other. The headers of new blocks hold anything:
  the reference counts are relative to what they came with, since the code does not set them.

  \<^bold>\<open>Deadlock detector\<close> (\<open>3.2.5\<close>). \<open>Deadlock\<close>, \<open>Deadlock_Search\<close>, \<open>Deadlock_Hooks\<close>: \<open>deadlock_success.c\<close>; the search
  reports a cycle of the wait-for graph and nothing else while no thread waits for two others. The checking
  thread runs a step at a time beside the hooks, which surround the real operations on the mutexes; it
  takes no lock, so a hook that writes what it reads is a data race and has no outcome. A mutex that changes
  hands between its release and \<open>unlock_after\<close> is lost from the list.

  \<^bold>\<open>DNS client\<close> (\<open>3.1.3\<close>). \<open>DNS\<close>, \<open>DNS_Client\<close>: \<open>async_dns_client_noblock.c\<close>; round trip of the
  request, the addresses of a response whose records have the types A and CNAME, with names that may be
  compressed, and the loop of a self-referring name.

  \<^bold>\<open>Reactor and servers\<close> (\<open>2.1.2\<close> to \<open>2.1.4\<close>, \<open>2.2.1\<close>). \<open>Reactor\<close>, \<open>Reactor_Table\<close>, \<open>Reactor_Inv\<close>: the event table refined to
  a map, and the invariant between the kernel's set and the table under the contract of the
  callbacks, the locale \<open>reactor_handlers\<close>. \<open>Reactor_Turn\<close> has what their callbacks share. \<open>WebSocket\<close> to
  \<open>WebSocket_Server\<close>: \<open>websocket_reactor.c\<close>, where memcpy on areas that overlap is a parameter, undefined in C; \<open>Http\<close>, \<open>Http_Server\<close>: \<open>httpserver.c\<close>; \<open>EchoServer\<close>:
  \<open>C1000Kserver.c\<close>, a million connections in blocks of events; \<open>EpollSingle\<close>, \<open>EpollSingle_Props\<close>:
  \<open>epoll_reactor_singecb.c\<close>, one block of 1024 events and a heartbeat over the idle ones. All four interpret
  the locale with their callbacks. \<open>EpollMulti\<close>, \<open>EpollMulti_Props\<close>: \<open>epoll_reactor_mulcb.c\<close>, where each descriptor
  has an item with three callbacks; its invariant says that the kernel waits for what the items say.
  \<open>EpollInitial\<close>: \<open>epoll_initial.c\<close> (\<open>2.1.1\<close>), the same service without a table of events.

  \<^bold>\<open>UDP, ICMP and ARP\<close> (\<open>2.4.1\<close>). \<open>Packets\<close>, \<open>Packets_Props\<close>: \<open>udp_icmp_arp.c\<close>; each header is read from and written to
  the bytes of the buffer, the locale \<open>layout\<close> is the contract of such a pair, and the answers to a ping
  and to an ARP request are stated over the bytes that arrive: a ping of any size is answered with 32 bytes.

  \<^bold>\<open>Coroutines\<close> (\<open>2.3.1NtyCo/core\<close>). \<open>NtyCo\<close>, \<open>NtyCo_Run\<close>: the scheduler, the coroutines and the socket calls;
  \<open>NtyCo_Inv\<close>, \<open>NtyCo_Sched\<close>, \<open>NtyCo_Rounds\<close>, \<open>NtyCo_Props\<close>: the invariant over all runs and the properties. The
  counts of \<open>nty_send\<close> are values of an int: results are truncated and an overflow is undefined.

  \<^bold>\<open>Thread pool\<close> (\<open>3.1.1\<close>). \<open>ThreadPool\<close>, \<open>ThreadPool_Inv\<close>: \<open>threadpoll.c\<close>; the functions are steps of
  the owner and the workers, a schedule is a list of actions, and the invariant over all schedules says
  where each task is. \<open>thread_destroy\<close> and the wait of an idle worker are where the code fails.

  \<^bold>\<open>Interleavings\<close> (\<open>3.2.4\<close>, \<open>3.2.1\<close>). \<open>Interleave\<close> has runs of programs with several threads and the locale
  \<open>interleaving\<close> of what every action keeps. \<open>LockFreeQueue\<close>, \<open>LockFreeQueue_Inv\<close>, \<open>LockFreeQueue_Props\<close>:
  \<open>ArrayLockFreeQueue.h\<close>, \<open>ArrayLockFreeQueueImp.h\<close>, \<open>atom_opt.h\<close>, one shared access at a time, with indices of any
  width. \<open>AtomicCounter\<close>: the counting threads of \<open>lock.c\<close> and \<open>2_test_i++_threads.c\<close>. Both interpret the locale.

  \<^bold>\<open>Exceptions\<close> (\<open>3.2.2\<close>). \<open>TryCatch\<close>: \<open>try-catch.c\<close>; the macros run programs of a small language
  over the stack of frames, and \<open>meaning\<close> is what exceptions mean, without frames and jumps: \<open>Finally\<close> always
  runs and an exception keeps its message. The two agree on the programs that never leave a handler of a
  \<open>Finally\<close> by a throw or return, up to the messages that the macros lose; where they part is shown.

  \<^bold>\<open>Leak detectors\<close> (\<open>3.2.6\<close>). \<open>LeakHooks\<close>: \<open>second.c\<close> with macros, \<open>first.c\<close> with replaced functions,
  \<open>three.c\<close> with the hooks of the library; they agree on correct programs and differ on a double free.

  \<^bold>\<open>Bounds.\<close> Theorems carry the bounds of the code as hypotheses: times and sizes below \<open>2 ^ 32\<close>, at most
  the number of slots of an array, keys of timers within half of the range of the clock. Witnesses
  apply each theorem at a concrete state.

  \<^bold>\<open>Not modelled.\<close> The programs that only call: the samples and \<open>main\<close> functions, the demos of
  libevent and libev, the clients that only measure, the programs around redis and FastDFS. Code in
  C++ (the other half of the repository, except the lock-free queue and the B-tree) and generated or vendored code: the headers of protobuf with
  the generated messages, the CMake outputs, the nginx distribution. The macros of \<open>nty_queue.h\<close> and
  \<open>nty_tree.h\<close> (BSD's lists and trees) are lists in the order of their keys. Output to the terminal,
  the contents of sockets' buffers in the kernel, and the switch of stacks in assembly, which is a
  continuation here.
\<close>

end
